(* ===== verification/Prelude.thy ===== *)
theory Prelude
  imports Main "HOL-Library.Word"
begin

unbundle bit_operations_syntax

text \<open>
  What every theory of the development shares: the machine integers of the 64-bit target, the
  result type of an operation that may run into undefined behaviour or out of fuel, a small
  weakest-precondition calculus over it, and the conversion of a word to its little-endian bytes
  and back.
\<close>

section \<open>Machine integers\<close>

type_synonym u8 = "8 word"
type_synonym u16 = "16 word"
type_synonym u32 = "32 word"
type_synonym u64 = "64 word"

text \<open>An address. The pointer values a program stores in memory are 64-bit words; an address is
  the integer such a word denotes, so that an offset of either sign can be added without
  wrapping. Address 0 is \<open>NULL\<close>.\<close>

type_synonym addr = int

section \<open>Results\<close>

text \<open>
  \<open>Ret x\<close> is a normal return. \<open>Undef\<close> is an access the C standard does not define: a read or a
  write of an address that is not mapped, a free or a realloc of an address that is not the start
  of a live block, a call through a null or unknown function pointer. \<open>NoFuel\<close> is a loop or a
  recursion that used up the fuel it was given.
\<close>

datatype 'a res = Ret 'a | Undef | NoFuel

primrec res_bind :: "'a res \<Rightarrow> ('a \<Rightarrow> 'b res) \<Rightarrow> 'b res" where
  "res_bind (Ret x) f = f x"
| "res_bind Undef f = Undef"
| "res_bind NoFuel f = NoFuel"

lemma res_bind_cong [fundef_cong]:
  "m = m' \<Longrightarrow> (\<And>x. m' = Ret x \<Longrightarrow> f x = g x) \<Longrightarrow> res_bind m f = res_bind m' g"
  by (cases m') auto

lemma res_bind_Ret_iff:
  "res_bind m f = Ret y \<longleftrightarrow> (\<exists>x. m = Ret x \<and> f x = Ret y)"
  by (cases m) auto

lemma res_bind_assoc [simp]: "res_bind (res_bind m f) g = res_bind m (\<lambda>x. res_bind (f x) g)"
  by (cases m) auto

lemma res_bind_RetE:
  assumes "res_bind m f = Ret y"
  obtains x where "m = Ret x" and "f x = Ret y"
  using assms by (auto simp: res_bind_Ret_iff)

section \<open>Total and partial correctness\<close>

text \<open>
  \<open>wp m Q\<close>: the operation returns, and what it returns satisfies \<open>Q\<close> (no undefined behaviour and
  enough fuel). \<open>wlp m Q\<close>: it has no undefined behaviour, and if it returns then \<open>Q\<close> holds.
\<close>

definition wp :: "'a res \<Rightarrow> ('a \<Rightarrow> bool) \<Rightarrow> bool" where
  "wp m Q \<longleftrightarrow> (case m of Ret x \<Rightarrow> Q x | Undef \<Rightarrow> False | NoFuel \<Rightarrow> False)"

definition wlp :: "'a res \<Rightarrow> ('a \<Rightarrow> bool) \<Rightarrow> bool" where
  "wlp m Q \<longleftrightarrow> (case m of Ret x \<Rightarrow> Q x | Undef \<Rightarrow> False | NoFuel \<Rightarrow> True)"

named_theorems wp_simps "rewriting of wp and wlp over the result combinators"
named_theorems wp_intros "wp rules of the operations"

lemma wp_Ret [wp_simps, simp]: "wp (Ret x) Q \<longleftrightarrow> Q x"
  by (simp add: wp_def)

lemma wp_Undef [wp_simps, simp]: "\<not> wp Undef Q"
  by (simp add: wp_def)

lemma wp_NoFuel [wp_simps, simp]: "\<not> wp NoFuel Q"
  by (simp add: wp_def)

lemma wp_bind [wp_simps]: "wp (res_bind m f) Q \<longleftrightarrow> wp m (\<lambda>x. wp (f x) Q)"
  by (cases m) auto

lemma wp_if [wp_simps]: "wp (if b then m else m') Q \<longleftrightarrow> (b \<longrightarrow> wp m Q) \<and> (\<not> b \<longrightarrow> wp m' Q)"
  by simp

lemma wp_mono: "wp m Q \<Longrightarrow> (\<And>x. Q x \<Longrightarrow> Q' x) \<Longrightarrow> wp m Q'"
  by (cases m) auto

lemma wp_conj: "wp m P \<Longrightarrow> wp m Q \<Longrightarrow> wp m (\<lambda>x. P x \<and> Q x)"
  by (cases m) auto

lemma wp_Ret_iff: "wp m Q \<longleftrightarrow> (\<exists>x. m = Ret x \<and> Q x)"
  by (cases m) auto

lemma wpE:
  assumes "wp m Q"
  obtains x where "m = Ret x" and "Q x"
  using assms by (auto simp: wp_Ret_iff)

lemma wlp_Ret [wp_simps, simp]: "wlp (Ret x) Q \<longleftrightarrow> Q x"
  by (simp add: wlp_def)

lemma wlp_Undef [wp_simps, simp]: "\<not> wlp Undef Q"
  by (simp add: wlp_def)

lemma wlp_NoFuel [wp_simps, simp]: "wlp NoFuel Q"
  by (simp add: wlp_def)

lemma wlp_bind [wp_simps]: "wlp (res_bind m f) Q \<longleftrightarrow> wlp m (\<lambda>x. wlp (f x) Q)"
  by (cases m) auto

lemma wlp_mono: "wlp m Q \<Longrightarrow> (\<And>x. Q x \<Longrightarrow> Q' x) \<Longrightarrow> wlp m Q'"
  by (cases m) auto

lemma wp_wlp: "wp m Q \<Longrightarrow> wlp m Q"
  by (cases m) auto

section \<open>Little-endian bytes\<close>

primrec le_bytes :: "nat \<Rightarrow> 'a::len word \<Rightarrow> u8 list" where
  "le_bytes 0 x = []"
| "le_bytes (Suc n) x = ucast x # le_bytes n (drop_bit 8 x)"

primrec le_word :: "u8 list \<Rightarrow> 'a::len word" where
  "le_word [] = 0"
| "le_word (b # bs) = ucast b OR push_bit 8 (le_word bs)"

lemma length_le_bytes [simp]: "length (le_bytes n x) = n"
  by (induction n arbitrary: x) auto

lemma le_word_le_bytes: "le_word (le_bytes n x) = take_bit (8 * n) x"
proof (induction n arbitrary: x)
  case 0
  then show ?case by simp
next
  case (Suc n)
  have "ucast (ucast x :: u8) OR push_bit 8 (take_bit (8 * n) (drop_bit 8 x))
      = take_bit (8 * Suc n) x"
    by (rule bit_word_eqI) (auto simp: bit_simps)
  with Suc show ?case by simp
qed

lemma le_word_le_bytes_u32 [simp]: "le_word (le_bytes 4 (x :: u32)) = x"
proof -
  have "take_bit 32 x = x"
    by (rule bit_word_eqI) (simp add: bit_simps)
  then show ?thesis by (simp add: le_word_le_bytes)
qed

lemma le_word_le_bytes_u64 [simp]: "le_word (le_bytes 8 (x :: u64)) = x"
proof -
  have "take_bit 64 x = x"
    by (rule bit_word_eqI) (simp add: bit_simps)
  then show ?thesis by (simp add: le_word_le_bytes)
qed

lemma ucast_low_byte: "ucast (x AND 0xFF) = (ucast (x :: 'a::len word) :: u8)"
proof -
  have "(0xFF :: 'a word) = mask 8" by (simp add: mask_eq_exp_minus_1)
  then show ?thesis
    by (intro bit_word_eqI) (simp only: bit_simps, auto simp: bit_simps dest: bit_imp_le_length)
qed

lemma le_bytes_take: "8 * n \<le> m \<Longrightarrow> le_bytes n (take_bit m x) = le_bytes n x"
proof (induction n arbitrary: m x)
  case (Suc n)
  then have "ucast (take_bit m x) = (ucast x :: u8)"
    by (intro bit_word_eqI) (auto simp: bit_simps)
  moreover have "le_bytes n (take_bit (m - 8) (drop_bit 8 x)) = le_bytes n (drop_bit 8 x)"
    using Suc.prems by (intro Suc.IH) simp
  ultimately show ?case by (simp add: drop_bit_take_bit)
qed simp

lemma le_bytes_le_word: "8 * length bs \<le> LENGTH('a::len) \<Longrightarrow> le_bytes (length bs) (le_word bs :: 'a word) = bs"
proof (induction bs)
  case (Cons b bs)
  let ?x = "le_word bs :: 'a word"
  have len: "8 \<le> LENGTH('a)" using Cons.prems by simp
  have "ucast (ucast b OR push_bit 8 ?x) = b"
    using len by (intro bit_word_eqI) (auto simp: bit_simps)
  moreover have "drop_bit 8 (ucast b OR push_bit 8 ?x) = take_bit (LENGTH('a) - 8) ?x"
    using len by (intro bit_word_eqI) (auto simp: bit_simps dest: bit_imp_le_length)
  moreover have "le_bytes (length bs) (take_bit (LENGTH('a) - 8) ?x) = le_bytes (length bs) ?x"
    using Cons.prems by (intro le_bytes_take) simp
  ultimately show ?case using Cons by simp
qed simp

section \<open>Arithmetic on sizes\<close>

lemma unat_sub_u64: "b \<le> a \<Longrightarrow> unat (a - b :: u64) = unat a - unat b"
  by (simp add: unat_sub_if' word_le_nat_alt)

lemma uint_nat_unat: "uint (x :: 'a::len word) = int (unat x)"
  by simp

lemma unat_ucast_u32_u64 [simp]: "unat (ucast (x :: u32) :: u64) = unat x"
proof -
  have "unat x < 2 ^ LENGTH(64)"
    using unsigned_less [of x, where ?'a = nat] by simp
  then show ?thesis
    by (simp add: unsigned_ucast_eq take_bit_nat_eq_self)
qed

lemma unat_u32_less: "unat (x :: u32) < 4294967296"
  using unsigned_less [of x, where ?'a = nat] by simp

lemma unat_u64_less: "unat (x :: u64) < 18446744073709551616"
  using unsigned_less [of x, where ?'a = nat] by simp

lemma unat_add_fits:
  "unat (a :: u64) + n < 2 ^ 64 \<Longrightarrow> unat (a + of_nat n) = unat a + n"
  by (simp add: unat_word_ariths(1) unat_of_nat take_bit_nat_eq_self)

lemma unat_of_nat_u64: "n < 2 ^ 64 \<Longrightarrow> unat (of_nat n :: u64) = n"
  by (simp add: unat_of_nat take_bit_nat_eq_self)

lemma sint_u32_small:
  assumes "unat (i :: u32) < 2 ^ 31"
  shows "sint i = int (unat i)"
proof -
  have "int (unat i) < int (2 ^ 31)"
    using assms by (simp only: of_nat_less_iff)
  then have "uint i < 2 ^ 31" by simp
  moreover have "- (2 ^ 31) \<le> uint i" by (rule order_trans [of _ 0]) simp_all
  ultimately have "signed_take_bit 31 (uint i) = uint i"
    by (intro signed_take_bit_int_eq_self)
  then show ?thesis by (simp add: sint_uint)
qed

section \<open>Bytes bit by bit\<close>

lemma u8_bit_eqI:
  fixes x y :: u8
  assumes "bit x 0 = bit y 0" "bit x 1 = bit y 1" "bit x 2 = bit y 2" "bit x 3 = bit y 3"
    "bit x 4 = bit y 4" "bit x 5 = bit y 5" "bit x 6 = bit y 6" "bit x 7 = bit y 7"
  shows "x = y"
proof (rule bit_word_eqI)
  fix n assume "n < LENGTH(8)"
  then have "n \<in> {0, 1, 2, 3, 4, 5, 6, 7}" by auto
  with assms show "bit x n = bit y n" by auto
qed

lemma bit_u8_high: "8 \<le> n \<Longrightarrow> \<not> bit (x :: u8) n"
  by (auto dest: bit_imp_le_length)

lemmas u8_bits = bit_simps bit_u8_high

section \<open>Varints\<close>

lemma unat_drop_bit: "unat (drop_bit n (v :: 'a::len word)) = unat v div 2 ^ n"
  by (simp only: unat_drop_bit_eq) (simp add: drop_bit_eq_div)

lemma unat_drop_bit_7: "unat (drop_bit 7 (v :: u64)) = unat v div 128"
  by (simp add: unat_drop_bit)

text \<open>The reference encoding of a number as a varint: base 128, least significant group first.\<close>

fun varint_enc :: "nat \<Rightarrow> u8 list" where
  "varint_enc n = (if n < 128 then [of_nat n] else of_nat (n mod 128 + 128) # varint_enc (n div 128))"

declare varint_enc.simps [simp del]

lemma varint_enc_small: "n < 128 \<Longrightarrow> varint_enc n = [of_nat n]"
  by (subst varint_enc.simps) simp

lemma varint_enc_big: "128 \<le> n \<Longrightarrow> varint_enc n = of_nat (n mod 128 + 128) # varint_enc (n div 128)"
  by (subst varint_enc.simps) simp

lemma varint_enc_nonempty [simp]: "varint_enc n \<noteq> []"
  by (subst varint_enc.simps) simp

lemma length_varint_enc_pos [simp]: "0 < length (varint_enc n)"
  by simp

lemma length_varint_enc: "n < 128 ^ Suc k \<Longrightarrow> length (varint_enc n) \<le> Suc k"
proof (induction k arbitrary: n)
  case 0
  then show ?case by (simp add: varint_enc_small)
next
  case (Suc k)
  show ?case
  proof (cases "n < 128")
    case True
    then show ?thesis by (simp add: varint_enc_small)
  next
    case False
    have "n div 128 < 128 ^ Suc k"
      using Suc.prems by (simp add: less_mult_imp_div_less mult.commute)
    then have "length (varint_enc (n div 128)) \<le> Suc k" by (rule Suc.IH)
    with False show ?thesis by (simp add: varint_enc_big)
  qed
qed

lemma length_varint_enc_u64: "length (varint_enc (unat (v :: u64))) \<le> 10"
proof -
  have "unat v < 128 ^ Suc 9" using unat_u64_less [of v] by simp
  then show ?thesis using length_varint_enc [of "unat v" 9] by simp
qed

end
