(* ===== verification/CMemory.thy ===== *)
theory CMemory
  imports Prelude
begin

text \<open>
  The memory a C program sees: a byte-addressed partial map in which only the mapped addresses may
  be read or written, and the allocator of the C library. Every block is placed at a fresh address,
  so that an access through a freed pointer is \<open>Undef\<close> for good; which calls of the allocator
  fail, and what a new block holds, are part of the state, so the theorems hold for every choice.
  A local variable whose address is passed on lives on a stack, below every other address.
  The lemmas give the effect of a store on later loads, and the frame of every operation.
\<close>

section \<open>State\<close>

record world =
  mem :: "addr \<Rightarrow> u8 option"
  blocks :: "addr \<Rightarrow> nat option"
  brk :: addr
  n_alloc :: nat
  alloc_fails :: "nat \<Rightarrow> bool"
  junk :: "addr \<Rightarrow> u8"
  stack :: addr

section \<open>Loads and stores\<close>

definition load_byte :: "world \<Rightarrow> addr \<Rightarrow> u8 res" where
  "load_byte w a = (case mem w a of None \<Rightarrow> Undef | Some b \<Rightarrow> Ret b)"

primrec load_bytes :: "world \<Rightarrow> addr \<Rightarrow> nat \<Rightarrow> u8 list res" where
  "load_bytes w a 0 = Ret []"
| "load_bytes w a (Suc n) =
     res_bind (load_byte w a) (\<lambda>b. res_bind (load_bytes w (a + 1) n) (\<lambda>bs. Ret (b # bs)))"

definition store_byte :: "world \<Rightarrow> addr \<Rightarrow> u8 \<Rightarrow> world res" where
  "store_byte w a b =
     (case mem w a of None \<Rightarrow> Undef | Some _ \<Rightarrow> Ret (w\<lparr>mem := (mem w)(a \<mapsto> b)\<rparr>))"

fun store_bytes :: "world \<Rightarrow> addr \<Rightarrow> u8 list \<Rightarrow> world res" where
  "store_bytes w a [] = Ret w"
| "store_bytes w a (b # bs) = res_bind (store_byte w a b) (\<lambda>w. store_bytes w (a + 1) bs)"

text \<open>A byte-by-byte copy in ascending order, as a \<open>for\<close> loop over two pointers does it.\<close>

primrec copy_bytes :: "nat \<Rightarrow> addr \<Rightarrow> addr \<Rightarrow> world \<Rightarrow> world res" where
  "copy_bytes 0 dst src w = Ret w"
| "copy_bytes (Suc n) dst src w =
     res_bind (load_byte w src) (\<lambda>b.
     res_bind (store_byte w dst b) (\<lambda>w. copy_bytes n (dst + 1) (src + 1) w))"

definition load_u16 :: "world \<Rightarrow> addr \<Rightarrow> u16 res" where
  "load_u16 w a = res_bind (load_bytes w a 2) (\<lambda>bs. Ret (le_word bs))"

definition store_u16 :: "world \<Rightarrow> addr \<Rightarrow> u16 \<Rightarrow> world res" where
  "store_u16 w a v = store_bytes w a (le_bytes 2 v)"

definition load_u32 :: "world \<Rightarrow> addr \<Rightarrow> u32 res" where
  "load_u32 w a = res_bind (load_bytes w a 4) (\<lambda>bs. Ret (le_word bs))"

definition store_u32 :: "world \<Rightarrow> addr \<Rightarrow> u32 \<Rightarrow> world res" where
  "store_u32 w a v = store_bytes w a (le_bytes 4 v)"

definition load_u64 :: "world \<Rightarrow> addr \<Rightarrow> u64 res" where
  "load_u64 w a = res_bind (load_bytes w a 8) (\<lambda>bs. Ret (le_word bs))"

definition store_u64 :: "world \<Rightarrow> addr \<Rightarrow> u64 \<Rightarrow> world res" where
  "store_u64 w a v = store_bytes w a (le_bytes 8 v)"

definition load_ptr :: "world \<Rightarrow> addr \<Rightarrow> addr res" where
  "load_ptr w a = res_bind (load_u64 w a) (\<lambda>v. Ret (uint v))"

definition store_ptr :: "world \<Rightarrow> addr \<Rightarrow> addr \<Rightarrow> world res" where
  "store_ptr w a p = store_u64 w a (word_of_int p)"

definition store_bool :: "world \<Rightarrow> addr \<Rightarrow> bool \<Rightarrow> world res" where
  "store_bool w a b = store_byte w a (if b then 1 else 0)"

definition c_memset :: "world \<Rightarrow> addr \<Rightarrow> u8 \<Rightarrow> nat \<Rightarrow> world res" where
  "c_memset w a v n = store_bytes w a (replicate n v)"

text \<open>\<open>memcpy\<close>: the regions may not overlap, so reading everything first is the same.\<close>

definition c_memcpy :: "world \<Rightarrow> addr \<Rightarrow> addr \<Rightarrow> nat \<Rightarrow> world res" where
  "c_memcpy w dst src n = res_bind (load_bytes w src n) (\<lambda>bs. store_bytes w dst bs)"

section \<open>The allocator\<close>

text \<open>
  \<open>realloc\<close> of a block that is not live is undefined, and so is (for this development) a request
  of size 0, whose result the C standard leaves to the implementation. On failure it returns
  \<open>NULL\<close> and the old block stays. On success the contents are copied to the new block and the old
  one is gone. Blocks are aligned to 16 bytes, and no block ends past the 64-bit address space.
\<close>

definition c_realloc :: "world \<Rightarrow> addr \<Rightarrow> nat \<Rightarrow> (addr \<times> world) res" where
  "c_realloc w p n =
     (let k = n_alloc w; w = w\<lparr>n_alloc := Suc k\<rparr>; q = brk w;
          old = (if p = 0 then Some 0 else blocks w p)
      in case old of
           None \<Rightarrow> Undef
         | Some m \<Rightarrow>
             if n = 0 then Undef
             else if alloc_fails w k \<or> 2 ^ 64 \<le> q + int n then Ret (0, w)
             else Ret (q,
               w\<lparr>mem := (\<lambda>x. if q \<le> x \<and> x < q + int n
                              then (if x - q < int m then mem w (p + (x - q)) else Some (junk w x))
                              else if p \<le> x \<and> x < p + int m then None
                              else mem w x),
                 blocks := (blocks w)(p := None, q := Some n),
                 brk := q + 16 * (int n div 16 + 1)\<rparr>))"

definition c_free :: "world \<Rightarrow> addr \<Rightarrow> world res" where
  "c_free w p =
     (if p = 0 then Ret w
      else case blocks w p of
             None \<Rightarrow> Undef
           | Some m \<Rightarrow> Ret (w\<lparr>mem := (\<lambda>x. if p \<le> x \<and> x < p + int m then None else mem w x),
                             blocks := (blocks w)(p := None)\<rparr>))"

section \<open>Mapped ranges\<close>

definition mapped :: "world \<Rightarrow> addr \<Rightarrow> int \<Rightarrow> bool" where
  "mapped w a n \<longleftrightarrow> (\<forall>x. a \<le> x \<and> x < a + n \<longrightarrow> mem w x \<noteq> None)"

lemma mapped_0 [simp]: "mapped w a 0"
  unfolding mapped_def by auto

lemma mapped_sub: "mapped w a n \<Longrightarrow> a \<le> b \<Longrightarrow> b + m \<le> a + n \<Longrightarrow> mapped w b m"
  by (auto simp: mapped_def)

lemma mapped_Suc: "mapped w a (1 + int n) \<longleftrightarrow> mem w a \<noteq> None \<and> mapped w (a + 1) (int n)"
proof
  assume h: "mapped w a (1 + int n)"
  then have "mem w a \<noteq> None" by (auto simp: mapped_def)
  moreover have "mapped w (a + 1) (int n)"
    using h by (rule mapped_sub) auto
  ultimately show "mem w a \<noteq> None \<and> mapped w (a + 1) (int n)" ..
next
  assume h: "mem w a \<noteq> None \<and> mapped w (a + 1) (int n)"
  show "mapped w a (1 + int n)"
    unfolding mapped_def
  proof (intro allI impI)
    fix x assume x: "a \<le> x \<and> x < a + (1 + int n)"
    then have "x = a \<or> (a + 1 \<le> x \<and> x < a + 1 + int n)" by auto
    then show "mem w x \<noteq> None"
    proof
      assume "x = a"
      with h show ?thesis by simp
    next
      assume "a + 1 \<le> x \<and> x < a + 1 + int n"
      with h show ?thesis unfolding mapped_def by blast
    qed
  qed
qed

text \<open>The bytes of a mapped range.\<close>

definition bytes_at :: "world \<Rightarrow> addr \<Rightarrow> nat \<Rightarrow> u8 list" where
  "bytes_at w a n = map (\<lambda>i. the (mem w (a + int i))) [0..<n]"

lemma length_bytes_at [simp]: "length (bytes_at w a n) = n"
  by (simp add: bytes_at_def)

lemma bytes_at_0 [simp]: "bytes_at w a 0 = []"
  by (simp add: bytes_at_def)

lemma bytes_at_Suc: "bytes_at w a (Suc n) = the (mem w a) # bytes_at w (a + 1) n"
proof (rule nth_equalityI)
  show "length (bytes_at w a (Suc n)) = length (the (mem w a) # bytes_at w (a + 1) n)"
    by simp
next
  fix i assume "i < length (bytes_at w a (Suc n))"
  then show "bytes_at w a (Suc n) ! i = (the (mem w a) # bytes_at w (a + 1) n) ! i"
    by (cases i) (auto simp: bytes_at_def nth_append add.assoc simp del: upt_Suc)
qed

lemma load_bytes_mapped: "mapped w a (int n) \<Longrightarrow> load_bytes w a n = Ret (bytes_at w a n)"
proof (induction n arbitrary: a)
  case 0
  then show ?case by simp
next
  case (Suc n)
  then have "mem w a \<noteq> None" and "mapped w (a + 1) (int n)"
    by (auto simp: mapped_Suc)
  with Suc.IH show ?case
    by (auto simp: load_byte_def bytes_at_Suc)
qed

lemma load_bytes_length: "load_bytes w a n = Ret bs \<Longrightarrow> length bs = n"
  by (induction n arbitrary: a bs) (auto simp: res_bind_Ret_iff)

section \<open>Frames\<close>

text \<open>
  \<open>same_outside R w w'\<close>: from \<open>w\<close> to \<open>w'\<close> only bytes of the region \<open>R\<close> changed; the mapped
  addresses and the state of the allocator are the same.
\<close>

definition same_outside :: "addr set \<Rightarrow> world \<Rightarrow> world \<Rightarrow> bool" where
  "same_outside R w w' \<longleftrightarrow>
     blocks w' = blocks w \<and> brk w' = brk w \<and> n_alloc w' = n_alloc w \<and>
     alloc_fails w' = alloc_fails w \<and> junk w' = junk w \<and> stack w' = stack w \<and>
     (\<forall>a. mem w' a = None \<longleftrightarrow> mem w a = None) \<and> (\<forall>a. a \<notin> R \<longrightarrow> mem w' a = mem w a)"

lemma same_outside_refl [simp, intro]: "same_outside R w w"
  by (simp add: same_outside_def)

lemma same_outside_trans [trans]:
  "same_outside R w w' \<Longrightarrow> same_outside R w' w'' \<Longrightarrow> same_outside R w w''"
  by (simp add: same_outside_def)

lemma same_outside_mono: "same_outside R w w' \<Longrightarrow> R \<subseteq> S \<Longrightarrow> same_outside S w w'"
  by (auto simp: same_outside_def)

lemma same_outside_mem: "same_outside R w w' \<Longrightarrow> a \<notin> R \<Longrightarrow> mem w' a = mem w a"
  by (simp add: same_outside_def)

lemma same_outside_None_iff: "same_outside R w w' \<Longrightarrow> mem w' a = None \<longleftrightarrow> mem w a = None"
  by (simp add: same_outside_def)

lemma same_outside_mapped: "same_outside R w w' \<Longrightarrow> mapped w' a n \<longleftrightarrow> mapped w a n"
  by (simp add: mapped_def same_outside_None_iff)

lemma same_outside_alloc:
  assumes "same_outside R w w'"
  shows "blocks w' = blocks w" and "brk w' = brk w" and "n_alloc w' = n_alloc w"
    and "alloc_fails w' = alloc_fails w" and "junk w' = junk w" and "stack w' = stack w"
  using assms by (simp_all add: same_outside_def)

lemma same_outside_bytes_at:
  "same_outside R w w' \<Longrightarrow> {a..<a + int n} \<inter> R = {} \<Longrightarrow> bytes_at w' a n = bytes_at w a n"
  by (rule nth_equalityI) (auto simp: bytes_at_def same_outside_mem disjoint_iff)

lemma store_byte_frame:
  "mem w a \<noteq> None \<Longrightarrow> a \<in> R \<Longrightarrow>
   wp (store_byte w a b) (\<lambda>w'. same_outside R w w' \<and> mem w' = (mem w)(a \<mapsto> b))"
  by (auto simp: store_byte_def same_outside_def)

text \<open>The memory after storing a list of bytes.\<close>

definition upd_bytes :: "(addr \<Rightarrow> u8 option) \<Rightarrow> addr \<Rightarrow> u8 list \<Rightarrow> (addr \<Rightarrow> u8 option)" where
  "upd_bytes m a bs =
     (\<lambda>x. if a \<le> x \<and> x < a + int (length bs) then Some (bs ! nat (x - a)) else m x)"

lemma upd_bytes_Nil [simp]: "upd_bytes m a [] = m"
  by (auto simp: upd_bytes_def fun_eq_iff)

lemma upd_bytes_Cons: "upd_bytes m a (b # bs) = upd_bytes (m(a \<mapsto> b)) (a + 1) bs"
proof
  fix x
  have "nat (x - a) = Suc (nat (x - (a + 1)))" if "a < x"
    using that by auto
  then show "upd_bytes m a (b # bs) x = upd_bytes (m(a \<mapsto> b)) (a + 1) bs x"
    by (auto simp: upd_bytes_def nth_Cons')
qed

lemma store_bytes_mapped:
  "mapped w a (int (length bs)) \<Longrightarrow> store_bytes w a bs = Ret (w\<lparr>mem := upd_bytes (mem w) a bs\<rparr>)"
proof (induction bs arbitrary: a w)
  case Nil
  then show ?case by simp
next
  case (Cons b bs)
  from Cons.prems have a: "mem w a \<noteq> None" and m: "mapped w (a + 1) (int (length bs))"
    by (auto simp: mapped_Suc)
  let ?w = "w\<lparr>mem := (mem w)(a \<mapsto> b)\<rparr>"
  from m have "mapped ?w (a + 1) (int (length bs))"
    by (auto simp: mapped_def)
  then have "store_bytes ?w (a + 1) bs = Ret (?w\<lparr>mem := upd_bytes (mem ?w) (a + 1) bs\<rparr>)"
    by (rule Cons.IH)
  moreover from a have "store_byte w a b = Ret ?w"
    by (auto simp: store_byte_def)
  ultimately show ?case by (simp only: store_bytes.simps res_bind.simps upd_bytes_Cons) simp
qed

lemma same_outside_upd_bytes:
  assumes "mapped w a (int (length bs))" and "{a..<a + int (length bs)} \<subseteq> R"
  shows "same_outside R w (w\<lparr>mem := upd_bytes (mem w) a bs\<rparr>)"
proof -
  have "upd_bytes (mem w) a bs x = None \<longleftrightarrow> mem w x = None" for x
    using assms(1) by (auto simp: upd_bytes_def mapped_def)
  moreover have "upd_bytes (mem w) a bs x = mem w x" if "x \<notin> R" for x
    using that assms(2) by (auto simp: upd_bytes_def)
  ultimately show ?thesis by (simp add: same_outside_def)
qed

lemma store_bytes_frame:
  assumes "mapped w a (int (length bs))" and "{a..<a + int (length bs)} \<subseteq> R"
  shows "wp (store_bytes w a bs)
           (\<lambda>w'. same_outside R w w' \<and> mem w' = upd_bytes (mem w) a bs)"
  using assms by (simp add: store_bytes_mapped same_outside_upd_bytes)

lemma bytes_at_upd_same:
  "mem w' = upd_bytes m a bs \<Longrightarrow> n = length bs \<Longrightarrow> bytes_at w' a n = bs"
  by (rule nth_equalityI) (auto simp: bytes_at_def upd_bytes_def)

lemma bytes_at_upd_other:
  "{b..<b + int n} \<inter> {a..<a + int (length bs)} = {} \<Longrightarrow>
   bytes_at (w\<lparr>mem := upd_bytes (mem w) a bs\<rparr>) b n = bytes_at w b n"
  by (rule nth_equalityI) (force simp: bytes_at_def upd_bytes_def disjoint_iff)+

section \<open>Words in memory\<close>

lemma load_u32_mapped: "mapped w a 4 \<Longrightarrow> load_u32 w a = Ret (le_word (bytes_at w a 4))"
  using load_bytes_mapped [of w a 4] by (simp add: load_u32_def)

lemma load_u64_mapped: "mapped w a 8 \<Longrightarrow> load_u64 w a = Ret (le_word (bytes_at w a 8))"
  using load_bytes_mapped [of w a 8] by (simp add: load_u64_def)

lemma load_ptr_mapped: "mapped w a 8 \<Longrightarrow> load_ptr w a = Ret (uint (le_word (bytes_at w a 8) :: u64))"
  by (simp add: load_ptr_def load_u64_mapped)

lemma store_u32_mapped:
  "mapped w a 4 \<Longrightarrow> store_u32 w a v = Ret (w\<lparr>mem := upd_bytes (mem w) a (le_bytes 4 v)\<rparr>)"
  by (simp add: store_u32_def store_bytes_mapped)

lemma store_u64_mapped:
  "mapped w a 8 \<Longrightarrow> store_u64 w a v = Ret (w\<lparr>mem := upd_bytes (mem w) a (le_bytes 8 v)\<rparr>)"
  by (simp add: store_u64_def store_bytes_mapped)

lemma store_u32_frame:
  "mapped w a 4 \<Longrightarrow> {a..<a + 4} \<subseteq> R \<Longrightarrow> wp (store_u32 w a v) (same_outside R w)"
  by (simp add: store_u32_mapped same_outside_upd_bytes)

lemma store_u64_frame:
  "mapped w a 8 \<Longrightarrow> {a..<a + 8} \<subseteq> R \<Longrightarrow> wp (store_u64 w a v) (same_outside R w)"
  by (simp add: store_u64_mapped same_outside_upd_bytes)

lemma load_store_u32: "store_u32 w a v = Ret w' \<Longrightarrow> mapped w a 4 \<Longrightarrow> load_u32 w' a = Ret v"
proof -
  assume "store_u32 w a v = Ret w'" and m: "mapped w a 4"
  then have w': "w' = w\<lparr>mem := upd_bytes (mem w) a (le_bytes 4 v)\<rparr>"
    by (simp add: store_u32_mapped)
  then have "same_outside {a..<a + 4} w w'"
    using m by (auto intro: same_outside_upd_bytes)
  with m have "mapped w' a 4" by (simp add: same_outside_mapped)
  moreover have "bytes_at w' a 4 = le_bytes 4 v"
    using w' by (intro bytes_at_upd_same) simp_all
  ultimately show ?thesis by (simp add: load_u32_mapped)
qed

lemma load_store_u64: "store_u64 w a v = Ret w' \<Longrightarrow> mapped w a 8 \<Longrightarrow> load_u64 w' a = Ret v"
proof -
  assume "store_u64 w a v = Ret w'" and m: "mapped w a 8"
  then have w': "w' = w\<lparr>mem := upd_bytes (mem w) a (le_bytes 8 v)\<rparr>"
    by (simp add: store_u64_mapped)
  then have "same_outside {a..<a + 8} w w'"
    using m by (auto intro: same_outside_upd_bytes)
  with m have "mapped w' a 8" by (simp add: same_outside_mapped)
  moreover have "bytes_at w' a 8 = le_bytes 8 v"
    using w' by (intro bytes_at_upd_same) simp_all
  ultimately show ?thesis by (simp add: load_u64_mapped)
qed

section \<open>The copy loop\<close>

lemma copy_bytes_frame:
  assumes "mapped w src (int n)" and "mapped w dst (int n)" and "{dst..<dst + int n} \<subseteq> R"
  shows "wp (copy_bytes n dst src w) (same_outside R w)"
  using assms
proof (induction n arbitrary: dst src w)
  case 0
  then show ?case by simp
next
  case (Suc n)
  from Suc.prems obtain b where b: "mem w src = Some b" and d: "mem w dst \<noteq> None"
    and m: "mapped w (src + 1) (int n)" "mapped w (dst + 1) (int n)"
    by (auto simp: mapped_Suc)
  let ?w = "w\<lparr>mem := (mem w)(dst \<mapsto> b)\<rparr>"
  have "dst \<in> R" using Suc.prems(3) by auto
  with d have s: "same_outside R w ?w"
    by (auto simp: same_outside_def)
  with m have "wp (copy_bytes n (dst + 1) (src + 1) ?w) (same_outside R ?w)"
    using Suc.prems(3) by (intro Suc.IH) (auto simp: same_outside_mapped)
  with b d s show ?case
    by (auto simp: load_byte_def store_byte_def elim!: wp_mono intro: same_outside_trans)
qed

lemma copy_bytes_disjoint:
  assumes "mapped w src (int n)" and "mapped w dst (int n)"
    and "{dst..<dst + int n} \<inter> {src..<src + int n} = {}"
  shows "copy_bytes n dst src w = Ret (w\<lparr>mem := upd_bytes (mem w) dst (bytes_at w src n)\<rparr>)"
  using assms
proof (induction n arbitrary: dst src w)
  case 0
  then show ?case by simp
next
  case (Suc n)
  from Suc.prems obtain b where b: "mem w src = Some b" and d: "mem w dst \<noteq> None"
    and m: "mapped w (src + 1) (int n)" "mapped w (dst + 1) (int n)"
    by (auto simp: mapped_Suc)
  let ?w = "w\<lparr>mem := (mem w)(dst \<mapsto> b)\<rparr>"
  from m have m': "mapped ?w (src + 1) (int n)" "mapped ?w (dst + 1) (int n)"
    by (auto simp: mapped_def)
  have dj: "{dst + 1..<dst + 1 + int n} \<inter> {src + 1..<src + 1 + int n} = {}"
    using Suc.prems(3) by (auto simp: disjoint_iff)
  have "dst \<notin> {src + 1..<src + 1 + int n}"
    using Suc.prems(3) by (auto simp: disjoint_iff)
  then have "bytes_at ?w (src + 1) n = bytes_at w (src + 1) n"
    by (intro same_outside_bytes_at [where R = "{dst}"])
       (use d in \<open>auto simp: same_outside_def\<close>)
  with Suc.IH [OF m' dj] b d show ?case
    by (auto simp: load_byte_def store_byte_def bytes_at_Suc upd_bytes_Cons fun_upd_def)
qed

section \<open>Local variables whose address is taken\<close>

text \<open>\<open>push_local\<close> makes room for a local with the given bytes at the new \<open>stack\<close>; \<open>pop_local\<close> ends
  its lifetime.\<close>

definition push_local :: "u8 list \<Rightarrow> world \<Rightarrow> world" where
  "push_local bs w =
     (let a = stack w - int (length bs)
      in w\<lparr>mem := upd_bytes (mem w) a bs, stack := a\<rparr>)"

definition pop_local :: "nat \<Rightarrow> world \<Rightarrow> world" where
  "pop_local n w =
     w\<lparr>mem := (\<lambda>x. if stack w \<le> x \<and> x < stack w + int n then None else mem w x),
       stack := stack w + int n\<rparr>"

text \<open>Nothing lives below the stack.\<close>

definition stack_ok :: "world \<Rightarrow> bool" where
  "stack_ok w \<longleftrightarrow> (\<forall>a < stack w. mem w a = None)"

lemma same_outside_stack_ok: "same_outside R w w' \<Longrightarrow> stack_ok w' \<longleftrightarrow> stack_ok w"
  by (simp add: stack_ok_def same_outside_def)

lemma stack_push_local [simp]: "stack (push_local bs w) = stack w - int (length bs)"
  by (simp add: push_local_def Let_def)

lemma mem_push_local: "mem (push_local bs w) = upd_bytes (mem w) (stack w - int (length bs)) bs"
  by (simp add: push_local_def Let_def)

lemma push_local_alloc [simp]:
  "blocks (push_local bs w) = blocks w" "brk (push_local bs w) = brk w"
  "n_alloc (push_local bs w) = n_alloc w" "alloc_fails (push_local bs w) = alloc_fails w"
  "junk (push_local bs w) = junk w"
  by (simp_all add: push_local_def Let_def)

lemma stack_ok_push_local: "stack_ok w \<Longrightarrow> stack_ok (push_local bs w)"
  by (simp add: stack_ok_def mem_push_local upd_bytes_def)

lemma mapped_push_local:
  "stack_ok w \<Longrightarrow> mapped w a n \<Longrightarrow> mapped (push_local bs w) a n"
  by (auto simp: mapped_def mem_push_local upd_bytes_def)

lemma mapped_push_local_self:
  "mapped (push_local bs w) (stack w - int (length bs)) (int (length bs))"
  by (auto simp: mapped_def mem_push_local upd_bytes_def)

text \<open>An operation that runs between the two and changes only \<open>R\<close> and the local changes only \<open>R\<close>.\<close>

lemma same_outside_pop_local:
  assumes ok: "stack_ok w"
    and s: "same_outside (R \<union> {stack w - int (length bs)..<stack w}) (push_local bs w) w'"
    and n: "n = length bs"
  shows "same_outside R w (pop_local n w')"
proof -
  have st: "stack w' = stack w - int n"
    using same_outside_alloc(6) [OF s] n by simp
  have mem: "mem (pop_local n w') x =
      (if stack w - int n \<le> x \<and> x < stack w then None else mem w' x)" for x
    using st by (simp add: pop_local_def)
  have low: "mem w x = None" if "x < stack w" for x
    using ok that by (simp add: stack_ok_def)
  have none: "mem w' x = None \<longleftrightarrow> mem w x = None" if "\<not> (stack w - int n \<le> x \<and> x < stack w)" for x
    using same_outside_None_iff [OF s, of x] that n by (auto simp: mem_push_local upd_bytes_def)
  have same: "mem w' x = mem w x" if "\<not> (stack w - int n \<le> x \<and> x < stack w)" "x \<notin> R" for x
    using same_outside_mem [OF s, of x] that n by (auto simp: mem_push_local upd_bytes_def)
  have "mem (pop_local n w') x = None \<longleftrightarrow> mem w x = None" for x
    using none [of x] low [of x] by (auto simp: mem)
  moreover have "mem (pop_local n w') x = mem w x" if "x \<notin> R" for x
    using same [of x] that low [of x] by (auto simp: mem)
  moreover have "stack (pop_local n w') = stack w" using st by (simp add: pop_local_def)
  ultimately show ?thesis
    using same_outside_alloc [OF s] by (simp add: same_outside_def pop_local_def)
qed

end
