(* ===== verification/PbTypes.thy ===== *)
theory PbTypes
  imports CMemory
begin

text \<open>
  The types of \<open>pb.h\<close>, \<open>pb_common.h\<close>, \<open>pb_encode.h\<close> and \<open>pb_decode.h\<close>: field types, field
  descriptors and the macros that build them, wire types, streams, callbacks, extensions and
  error messages. The build of this repository defines \<open>PB_FIELD_32BIT\<close>, \<open>PB_NO_PACKED_STRUCTS\<close>
  and \<open>PB_ENABLE_MALLOC\<close>; none of the other options is set.
\<close>

section \<open>Field types\<close>

named_theorems pb_consts "values of the constants of pb.h"

definition PB_LTYPE_BOOL :: u8 where [pb_consts]: "PB_LTYPE_BOOL = 0x00"
definition PB_LTYPE_VARINT :: u8 where [pb_consts]: "PB_LTYPE_VARINT = 0x01"
definition PB_LTYPE_UVARINT :: u8 where [pb_consts]: "PB_LTYPE_UVARINT = 0x02"
definition PB_LTYPE_SVARINT :: u8 where [pb_consts]: "PB_LTYPE_SVARINT = 0x03"
definition PB_LTYPE_FIXED32 :: u8 where [pb_consts]: "PB_LTYPE_FIXED32 = 0x04"
definition PB_LTYPE_FIXED64 :: u8 where [pb_consts]: "PB_LTYPE_FIXED64 = 0x05"
definition PB_LTYPE_LAST_PACKABLE :: u8 where [pb_consts]: "PB_LTYPE_LAST_PACKABLE = 0x05"
definition PB_LTYPE_BYTES :: u8 where [pb_consts]: "PB_LTYPE_BYTES = 0x06"
definition PB_LTYPE_STRING :: u8 where [pb_consts]: "PB_LTYPE_STRING = 0x07"
definition PB_LTYPE_SUBMESSAGE :: u8 where [pb_consts]: "PB_LTYPE_SUBMESSAGE = 0x08"
definition PB_LTYPE_EXTENSION :: u8 where [pb_consts]: "PB_LTYPE_EXTENSION = 0x09"
definition PB_LTYPE_FIXED_LENGTH_BYTES :: u8 where
  [pb_consts]: "PB_LTYPE_FIXED_LENGTH_BYTES = 0x0A"
definition PB_LTYPES_COUNT :: u8 where [pb_consts]: "PB_LTYPES_COUNT = 0x0B"
definition PB_LTYPE_MASK :: u8 where [pb_consts]: "PB_LTYPE_MASK = 0x0F"

definition PB_HTYPE_REQUIRED :: u8 where [pb_consts]: "PB_HTYPE_REQUIRED = 0x00"
definition PB_HTYPE_OPTIONAL :: u8 where [pb_consts]: "PB_HTYPE_OPTIONAL = 0x10"
definition PB_HTYPE_REPEATED :: u8 where [pb_consts]: "PB_HTYPE_REPEATED = 0x20"
definition PB_HTYPE_ONEOF :: u8 where [pb_consts]: "PB_HTYPE_ONEOF = 0x30"
definition PB_HTYPE_MASK :: u8 where [pb_consts]: "PB_HTYPE_MASK = 0x30"

definition PB_ATYPE_STATIC :: u8 where [pb_consts]: "PB_ATYPE_STATIC = 0x00"
definition PB_ATYPE_POINTER :: u8 where [pb_consts]: "PB_ATYPE_POINTER = 0x80"
definition PB_ATYPE_CALLBACK :: u8 where [pb_consts]: "PB_ATYPE_CALLBACK = 0x40"
definition PB_ATYPE_MASK :: u8 where [pb_consts]: "PB_ATYPE_MASK = 0xC0"

definition PB_ATYPE :: "u8 \<Rightarrow> u8" where "PB_ATYPE x = x AND PB_ATYPE_MASK"
definition PB_HTYPE :: "u8 \<Rightarrow> u8" where "PB_HTYPE x = x AND PB_HTYPE_MASK"
definition PB_LTYPE :: "u8 \<Rightarrow> u8" where "PB_LTYPE x = x AND PB_LTYPE_MASK"

text \<open>\<open>pb_size_t\<close> and \<open>pb_ssize_t\<close> are the 32-bit integers; \<open>PB_SIZE_MAX\<close> is the largest size.\<close>

type_synonym pb_size = u32

definition PB_SIZE_MAX :: pb_size where [pb_consts]: "PB_SIZE_MAX = - 1"

definition PB_MAX_REQUIRED_FIELDS :: nat where [pb_consts]: "PB_MAX_REQUIRED_FIELDS = 64"

lemmas pb_type_defs = PB_ATYPE_def PB_HTYPE_def PB_LTYPE_def

text \<open>The field rules are told apart by two bits.\<close>

lemma htype_cases:
  "PB_HTYPE t = PB_HTYPE_REQUIRED \<or> PB_HTYPE t = PB_HTYPE_OPTIONAL \<or>
   PB_HTYPE t = PB_HTYPE_REPEATED \<or> PB_HTYPE t = PB_HTYPE_ONEOF"
proof -
  have "PB_HTYPE t = (if bit t 5 then (if bit t 4 then PB_HTYPE_ONEOF else PB_HTYPE_REPEATED)
      else if bit t 4 then PB_HTYPE_OPTIONAL else PB_HTYPE_REQUIRED)"
    unfolding PB_HTYPE_def by (intro u8_bit_eqI) (auto simp: pb_consts u8_bits)
  then show ?thesis by (auto split: if_splits)
qed

lemma htypes_differ:
  "PB_HTYPE_OPTIONAL \<noteq> PB_HTYPE_REQUIRED" "PB_HTYPE_REPEATED \<noteq> PB_HTYPE_REQUIRED"
  "PB_HTYPE_REPEATED \<noteq> PB_HTYPE_OPTIONAL" "PB_HTYPE_ONEOF \<noteq> PB_HTYPE_REQUIRED"
  "PB_HTYPE_ONEOF \<noteq> PB_HTYPE_OPTIONAL" "PB_HTYPE_ONEOF \<noteq> PB_HTYPE_REPEATED"
  by (simp_all add: pb_consts)

section \<open>Field descriptors\<close>

record pb_field =
  tag :: pb_size
  ftype :: u8
  data_offset :: pb_size
  size_offset :: pb_size
  data_size :: pb_size
  array_size :: pb_size
  ptr :: addr

text \<open>\<open>size_offset\<close> is a \<open>pb_ssize_t\<close>: read as a signed number. A descriptor array is an array of
  structs of 32 bytes (4 + 1 + 3 of padding + 4 * 4 + 8).\<close>

definition sizeof_pb_field :: int where [pb_consts]: "sizeof_pb_field = 32"

definition PB_LAST_FIELD :: pb_field where
  "PB_LAST_FIELD = \<lparr>tag = 0, ftype = 0, data_offset = 0, size_offset = 0, data_size = 0,
     array_size = 0, ptr = 0\<rparr>"

text \<open>A member of a C struct: its offset, its size, and the size of an element where it is an
  array or a pointer.\<close>

record member =
  m_offset :: int
  m_size :: int
  m_elem :: int

definition pb_membersize :: "member \<Rightarrow> pb_size" where
  "pb_membersize m = word_of_int (m_size m)"

definition pb_elemsize :: "member \<Rightarrow> pb_size" where
  "pb_elemsize m = word_of_int (m_elem m)"

definition pb_arraysize :: "member \<Rightarrow> pb_size" where
  "pb_arraysize m = word_of_int (m_size m div m_elem m)"

definition pb_delta :: "member \<Rightarrow> member \<Rightarrow> pb_size" where
  "pb_delta m1 m2 = word_of_int (m_offset m1 - m_offset m2)"

definition PB_DATAOFFSET_FIRST :: "member \<Rightarrow> member \<Rightarrow> pb_size" where
  "PB_DATAOFFSET_FIRST m1 m2 = word_of_int (m_offset m1)"

definition PB_DATAOFFSET_OTHER :: "member \<Rightarrow> member \<Rightarrow> pb_size" where
  "PB_DATAOFFSET_OTHER m1 m2 = word_of_int (m_offset m1 - m_offset m2 - m_size m2)"

definition PB_DATAOFFSET_UNION :: "member \<Rightarrow> member \<Rightarrow> pb_size" where
  "PB_DATAOFFSET_UNION m1 m2 = PB_SIZE_MAX"

definition PB_REQUIRED_STATIC :: "pb_size \<Rightarrow> member \<Rightarrow> pb_size \<Rightarrow> u8 \<Rightarrow> addr \<Rightarrow> pb_field" where
  "PB_REQUIRED_STATIC t m fd ltype p =
     \<lparr>tag = t, ftype = PB_ATYPE_STATIC OR PB_HTYPE_REQUIRED OR ltype,
      data_offset = fd, size_offset = 0, data_size = pb_membersize m, array_size = 0, ptr = p\<rparr>"

definition PB_OPTIONAL_STATIC ::
  "pb_size \<Rightarrow> member \<Rightarrow> member \<Rightarrow> pb_size \<Rightarrow> u8 \<Rightarrow> addr \<Rightarrow> pb_field" where
  "PB_OPTIONAL_STATIC t has_m m fd ltype p =
     \<lparr>tag = t, ftype = PB_ATYPE_STATIC OR PB_HTYPE_OPTIONAL OR ltype,
      data_offset = fd, size_offset = pb_delta has_m m, data_size = pb_membersize m,
      array_size = 0, ptr = p\<rparr>"

definition PB_SINGULAR_STATIC :: "pb_size \<Rightarrow> member \<Rightarrow> pb_size \<Rightarrow> u8 \<Rightarrow> addr \<Rightarrow> pb_field" where
  "PB_SINGULAR_STATIC t m fd ltype p =
     \<lparr>tag = t, ftype = PB_ATYPE_STATIC OR PB_HTYPE_OPTIONAL OR ltype,
      data_offset = fd, size_offset = 0, data_size = pb_membersize m, array_size = 0, ptr = p\<rparr>"

definition PB_REPEATED_STATIC ::
  "pb_size \<Rightarrow> member \<Rightarrow> member \<Rightarrow> pb_size \<Rightarrow> u8 \<Rightarrow> addr \<Rightarrow> pb_field" where
  "PB_REPEATED_STATIC t count_m m fd ltype p =
     \<lparr>tag = t, ftype = PB_ATYPE_STATIC OR PB_HTYPE_REPEATED OR ltype,
      data_offset = fd, size_offset = pb_delta count_m m, data_size = pb_elemsize m,
      array_size = pb_arraysize m, ptr = p\<rparr>"

definition PB_REQUIRED_POINTER :: "pb_size \<Rightarrow> member \<Rightarrow> pb_size \<Rightarrow> u8 \<Rightarrow> addr \<Rightarrow> pb_field" where
  "PB_REQUIRED_POINTER t m fd ltype p =
     \<lparr>tag = t, ftype = PB_ATYPE_POINTER OR PB_HTYPE_REQUIRED OR ltype,
      data_offset = fd, size_offset = 0, data_size = pb_elemsize m, array_size = 0, ptr = p\<rparr>"

definition PB_OPTIONAL_POINTER :: "pb_size \<Rightarrow> member \<Rightarrow> pb_size \<Rightarrow> u8 \<Rightarrow> addr \<Rightarrow> pb_field" where
  "PB_OPTIONAL_POINTER t m fd ltype p =
     \<lparr>tag = t, ftype = PB_ATYPE_POINTER OR PB_HTYPE_OPTIONAL OR ltype,
      data_offset = fd, size_offset = 0, data_size = pb_elemsize m, array_size = 0, ptr = p\<rparr>"

definition PB_SINGULAR_POINTER :: "pb_size \<Rightarrow> member \<Rightarrow> pb_size \<Rightarrow> u8 \<Rightarrow> addr \<Rightarrow> pb_field" where
  "PB_SINGULAR_POINTER t m fd ltype p =
     \<lparr>tag = t, ftype = PB_ATYPE_POINTER OR PB_HTYPE_OPTIONAL OR ltype,
      data_offset = fd, size_offset = 0, data_size = pb_elemsize m, array_size = 0, ptr = p\<rparr>"

definition PB_REPEATED_POINTER ::
  "pb_size \<Rightarrow> member \<Rightarrow> member \<Rightarrow> pb_size \<Rightarrow> u8 \<Rightarrow> addr \<Rightarrow> pb_field" where
  "PB_REPEATED_POINTER t count_m m fd ltype p =
     \<lparr>tag = t, ftype = PB_ATYPE_POINTER OR PB_HTYPE_REPEATED OR ltype,
      data_offset = fd, size_offset = pb_delta count_m m, data_size = pb_elemsize m,
      array_size = 0, ptr = p\<rparr>"

definition PB_REQUIRED_CALLBACK :: "pb_size \<Rightarrow> member \<Rightarrow> pb_size \<Rightarrow> u8 \<Rightarrow> addr \<Rightarrow> pb_field" where
  "PB_REQUIRED_CALLBACK t m fd ltype p =
     \<lparr>tag = t, ftype = PB_ATYPE_CALLBACK OR PB_HTYPE_REQUIRED OR ltype,
      data_offset = fd, size_offset = 0, data_size = pb_membersize m, array_size = 0, ptr = p\<rparr>"

definition PB_OPTIONAL_CALLBACK :: "pb_size \<Rightarrow> member \<Rightarrow> pb_size \<Rightarrow> u8 \<Rightarrow> addr \<Rightarrow> pb_field" where
  "PB_OPTIONAL_CALLBACK t m fd ltype p =
     \<lparr>tag = t, ftype = PB_ATYPE_CALLBACK OR PB_HTYPE_OPTIONAL OR ltype,
      data_offset = fd, size_offset = 0, data_size = pb_membersize m, array_size = 0, ptr = p\<rparr>"

definition PB_SINGULAR_CALLBACK :: "pb_size \<Rightarrow> member \<Rightarrow> pb_size \<Rightarrow> u8 \<Rightarrow> addr \<Rightarrow> pb_field" where
  "PB_SINGULAR_CALLBACK t m fd ltype p =
     \<lparr>tag = t, ftype = PB_ATYPE_CALLBACK OR PB_HTYPE_OPTIONAL OR ltype,
      data_offset = fd, size_offset = 0, data_size = pb_membersize m, array_size = 0, ptr = p\<rparr>"

definition PB_REPEATED_CALLBACK :: "pb_size \<Rightarrow> member \<Rightarrow> pb_size \<Rightarrow> u8 \<Rightarrow> addr \<Rightarrow> pb_field" where
  "PB_REPEATED_CALLBACK t m fd ltype p =
     \<lparr>tag = t, ftype = PB_ATYPE_CALLBACK OR PB_HTYPE_REPEATED OR ltype,
      data_offset = fd, size_offset = 0, data_size = pb_membersize m, array_size = 0, ptr = p\<rparr>"

definition PB_OPTEXT_STATIC :: "pb_size \<Rightarrow> member \<Rightarrow> u8 \<Rightarrow> addr \<Rightarrow> pb_field" where
  "PB_OPTEXT_STATIC t m ltype p =
     \<lparr>tag = t, ftype = PB_ATYPE_STATIC OR PB_HTYPE_REQUIRED OR ltype,
      data_offset = 0, size_offset = 0, data_size = pb_membersize m, array_size = 0, ptr = p\<rparr>"

definition PB_REPEATED_FIXED_COUNT :: "pb_size \<Rightarrow> member \<Rightarrow> pb_size \<Rightarrow> u8 \<Rightarrow> addr \<Rightarrow> pb_field" where
  "PB_REPEATED_FIXED_COUNT t m fd ltype p =
     \<lparr>tag = t, ftype = PB_ATYPE_STATIC OR PB_HTYPE_REPEATED OR ltype,
      data_offset = fd, size_offset = 0, data_size = pb_elemsize m,
      array_size = pb_arraysize m, ptr = p\<rparr>"

text \<open>The member of the union is given with its offset in the whole struct.\<close>

definition PB_ONEOF_STATIC ::
  "pb_size \<Rightarrow> member \<Rightarrow> member \<Rightarrow> pb_size \<Rightarrow> u8 \<Rightarrow> addr \<Rightarrow> pb_field" where
  "PB_ONEOF_STATIC t which_u m fd ltype p =
     \<lparr>tag = t, ftype = PB_ATYPE_STATIC OR PB_HTYPE_ONEOF OR ltype,
      data_offset = fd, size_offset = pb_delta which_u m, data_size = pb_membersize m,
      array_size = 0, ptr = p\<rparr>"

definition PB_ONEOF_POINTER ::
  "pb_size \<Rightarrow> member \<Rightarrow> member \<Rightarrow> pb_size \<Rightarrow> u8 \<Rightarrow> addr \<Rightarrow> pb_field" where
  "PB_ONEOF_POINTER t which_u m fd ltype p =
     \<lparr>tag = t, ftype = PB_ATYPE_POINTER OR PB_HTYPE_ONEOF OR ltype,
      data_offset = fd, size_offset = pb_delta which_u m, data_size = pb_elemsize m,
      array_size = 0, ptr = p\<rparr>"

text \<open>The protobuf types and the \<open>LTYPE\<close> each is mapped to.\<close>

datatype pb_proto_type =
    T_BOOL | T_BYTES | T_DOUBLE | T_ENUM | T_UENUM | T_FIXED32 | T_FIXED64 | T_FLOAT | T_INT32
  | T_INT64 | T_MESSAGE | T_SFIXED32 | T_SFIXED64 | T_SINT32 | T_SINT64 | T_STRING | T_UINT32
  | T_UINT64 | T_EXTENSION | T_FIXED_LENGTH_BYTES

primrec PB_LTYPE_MAP :: "pb_proto_type \<Rightarrow> u8" where
  "PB_LTYPE_MAP T_BOOL = PB_LTYPE_BOOL"
| "PB_LTYPE_MAP T_BYTES = PB_LTYPE_BYTES"
| "PB_LTYPE_MAP T_DOUBLE = PB_LTYPE_FIXED64"
| "PB_LTYPE_MAP T_ENUM = PB_LTYPE_VARINT"
| "PB_LTYPE_MAP T_UENUM = PB_LTYPE_UVARINT"
| "PB_LTYPE_MAP T_FIXED32 = PB_LTYPE_FIXED32"
| "PB_LTYPE_MAP T_FIXED64 = PB_LTYPE_FIXED64"
| "PB_LTYPE_MAP T_FLOAT = PB_LTYPE_FIXED32"
| "PB_LTYPE_MAP T_INT32 = PB_LTYPE_VARINT"
| "PB_LTYPE_MAP T_INT64 = PB_LTYPE_VARINT"
| "PB_LTYPE_MAP T_MESSAGE = PB_LTYPE_SUBMESSAGE"
| "PB_LTYPE_MAP T_SFIXED32 = PB_LTYPE_FIXED32"
| "PB_LTYPE_MAP T_SFIXED64 = PB_LTYPE_FIXED64"
| "PB_LTYPE_MAP T_SINT32 = PB_LTYPE_SVARINT"
| "PB_LTYPE_MAP T_SINT64 = PB_LTYPE_SVARINT"
| "PB_LTYPE_MAP T_STRING = PB_LTYPE_STRING"
| "PB_LTYPE_MAP T_UINT32 = PB_LTYPE_UVARINT"
| "PB_LTYPE_MAP T_UINT64 = PB_LTYPE_UVARINT"
| "PB_LTYPE_MAP T_EXTENSION = PB_LTYPE_EXTENSION"
| "PB_LTYPE_MAP T_FIXED_LENGTH_BYTES = PB_LTYPE_FIXED_LENGTH_BYTES"

section \<open>Wire types\<close>

text \<open>The decoder casts any three bits to \<open>pb_wire_type_t\<close>, so a value outside the enum is possible.\<close>

type_synonym pb_wire_type = u32

definition PB_WT_VARINT :: pb_wire_type where [pb_consts]: "PB_WT_VARINT = 0"
definition PB_WT_64BIT :: pb_wire_type where [pb_consts]: "PB_WT_64BIT = 1"
definition PB_WT_STRING :: pb_wire_type where [pb_consts]: "PB_WT_STRING = 2"
definition PB_WT_32BIT :: pb_wire_type where [pb_consts]: "PB_WT_32BIT = 5"

section \<open>Structs in memory\<close>

text \<open>\<open>pb_bytes_array_t\<close>: the 32-bit size, then the bytes.\<close>

definition offsetof_bytes :: int where [pb_consts]: "offsetof_bytes = 4"

definition PB_BYTES_ARRAY_T_ALLOCSIZE :: "u64 \<Rightarrow> u64" where
  "PB_BYTES_ARRAY_T_ALLOCSIZE n = n + word_of_int offsetof_bytes"

text \<open>\<open>pb_callback_t\<close>: the function pointer, then \<open>arg\<close>.\<close>

definition callback_funcs :: "addr \<Rightarrow> addr" where "callback_funcs c = c"
definition callback_arg :: "addr \<Rightarrow> addr" where "callback_arg c = c + 8"

text \<open>\<open>pb_extension_type_t\<close>: \<open>decode\<close>, \<open>encode\<close>, \<open>arg\<close>. \<open>pb_extension_t\<close>: \<open>type\<close>, \<open>dest\<close>,
  \<open>next\<close>, \<open>found\<close>.\<close>

definition exttype_decode :: "addr \<Rightarrow> addr" where "exttype_decode t = t"
definition exttype_encode :: "addr \<Rightarrow> addr" where "exttype_encode t = t + 8"
definition exttype_arg :: "addr \<Rightarrow> addr" where "exttype_arg t = t + 16"
definition ext_type :: "addr \<Rightarrow> addr" where "ext_type e = e"
definition ext_dest :: "addr \<Rightarrow> addr" where "ext_dest e = e + 8"
definition ext_next :: "addr \<Rightarrow> addr" where "ext_next e = e + 16"
definition ext_found :: "addr \<Rightarrow> addr" where "ext_found e = e + 24"

section \<open>Streams\<close>

text \<open>The callback of a stream: \<open>NULL\<close>, the memory-buffer callback of the library, or one of the
  user's functions.\<close>

datatype icallback = Buf_read | User_read nat
datatype ocallback = No_callback | Buf_write | User_write nat

record istream =
  icallback :: icallback
  istate :: addr
  bytes_left :: u64
  ierrmsg :: "string option"

record ostream =
  ocallback :: ocallback
  ostate :: addr
  max_size :: u64
  bytes_written :: u64
  oerrmsg :: "string option"

definition PB_OSTREAM_SIZING :: ostream where
  "PB_OSTREAM_SIZING =
     \<lparr>ocallback = No_callback, ostate = 0, max_size = 0, bytes_written = 0, oerrmsg = None\<rparr>"

text \<open>A buffer passed to a stream operation: \<open>NULL\<close>, an address in memory, or a local array of the
  caller, which is not in the memory of the model: its contents are returned, or passed, as a
  list.\<close>

datatype rbuf = RNull | RMem addr | RLocal
datatype wbuf = WNull | WMem addr | WLocal "u8 list"

definition PB_SET_ERROR :: "string option \<Rightarrow> string \<Rightarrow> string option" where
  "PB_SET_ERROR e msg = (case e of Some m \<Rightarrow> Some m | None \<Rightarrow> Some msg)"

definition PB_GET_ERROR :: "string option \<Rightarrow> string" where
  "PB_GET_ERROR e = (case e of Some m \<Rightarrow> m | None \<Rightarrow> ''(none)'')"

definition ierror :: "istream \<Rightarrow> string \<Rightarrow> istream" where
  "ierror s msg = s\<lparr>ierrmsg := PB_SET_ERROR (ierrmsg s) msg\<rparr>"

definition oerror :: "ostream \<Rightarrow> string \<Rightarrow> ostream" where
  "oerror s msg = s\<lparr>oerrmsg := PB_SET_ERROR (oerrmsg s) msg\<rparr>"

lemma ierror_sel [simp]:
  "icallback (ierror s m) = icallback s" "istate (ierror s m) = istate s"
  "bytes_left (ierror s m) = bytes_left s"
  by (simp_all add: ierror_def)

lemma oerror_sel [simp]:
  "ocallback (oerror s m) = ocallback s" "ostate (oerror s m) = ostate s"
  "max_size (oerror s m) = max_size s" "bytes_written (oerror s m) = bytes_written s"
  by (simp_all add: oerror_def)

section \<open>The program around the library\<close>

text \<open>
  What the library is linked with: the constant descriptor arrays, and the functions of the user
  that streams, callback fields and extension types point to. A function pointer with no entry
  (the null pointer among them) is not callable.
\<close>

record env =
  rodata :: "addr \<Rightarrow> pb_field option"
  user_read :: "nat \<Rightarrow> istream \<Rightarrow> rbuf \<Rightarrow> u64 \<Rightarrow> world \<Rightarrow> (bool \<times> u8 list \<times> istream \<times> world) res"
  user_write :: "nat \<Rightarrow> ostream \<Rightarrow> wbuf \<Rightarrow> u64 \<Rightarrow> world \<Rightarrow> (bool \<times> ostream \<times> world) res"
  field_decoder :: "addr \<Rightarrow> (istream \<Rightarrow> addr \<Rightarrow> addr \<Rightarrow> world \<Rightarrow> (bool \<times> istream \<times> world) res) option"
  field_encoder :: "addr \<Rightarrow> (ostream \<Rightarrow> addr \<Rightarrow> addr \<Rightarrow> world \<Rightarrow> (bool \<times> ostream \<times> world) res) option"
  ext_decoder :: "addr \<Rightarrow>
     (istream \<Rightarrow> addr \<Rightarrow> u32 \<Rightarrow> pb_wire_type \<Rightarrow> world \<Rightarrow> (bool \<times> istream \<times> world) res) option"
  ext_encoder :: "addr \<Rightarrow> (ostream \<Rightarrow> addr \<Rightarrow> world \<Rightarrow> (bool \<times> ostream \<times> world) res) option"

definition field_at :: "env \<Rightarrow> addr \<Rightarrow> pb_field res" where
  "field_at E a = (case rodata E a of None \<Rightarrow> Undef | Some f \<Rightarrow> Ret f)"

text \<open>\<open>table_at E a fs\<close>: the descriptor array at \<open>a\<close> has the fields \<open>fs\<close>, then \<open>PB_LAST_FIELD\<close>.\<close>

definition table_at :: "env \<Rightarrow> addr \<Rightarrow> pb_field list \<Rightarrow> bool" where
  "table_at E a fs \<longleftrightarrow>
     (\<forall>i < length fs. rodata E (a + sizeof_pb_field * int i) = Some (fs ! i)) \<and>
     rodata E (a + sizeof_pb_field * int (length fs)) = Some PB_LAST_FIELD \<and>
     (\<forall>f \<in> set fs. tag f \<noteq> 0)"

lemma tag_PB_LAST_FIELD [simp]: "tag PB_LAST_FIELD = 0"
  by (simp add: PB_LAST_FIELD_def)

lemma table_at_nth:
  "table_at E a fs \<Longrightarrow> i < length fs \<Longrightarrow> field_at E (a + sizeof_pb_field * int i) = Ret (fs ! i)"
  by (simp add: table_at_def field_at_def)

lemma table_at_last:
  "table_at E a fs \<Longrightarrow> field_at E (a + sizeof_pb_field * int (length fs)) = Ret PB_LAST_FIELD"
  by (simp add: table_at_def field_at_def)

lemma table_at_tag: "table_at E a fs \<Longrightarrow> i < length fs \<Longrightarrow> tag (fs ! i) \<noteq> 0"
  by (simp add: table_at_def)

end
