(* ===== verification/PbCommon.thy ===== *)
theory PbCommon
  imports PbTypes
begin

text \<open>
  The field iterator of \<open>pb_common.c\<close>, which the encoder and the decoder share: it walks the
  descriptor array of a message and keeps the addresses of the current field's data and of its
  count (or \<open>has_\<close>, or \<open>which_\<close>) member. The theorems give its state at the \<open>k\<close>-th field in closed
  form, show that it visits every field once and then wraps to the first, and that a search finds
  the next field with the tag, from the current position on and around the end, or comes back to
  where it started.
\<close>

section \<open>Operations\<close>

record pb_field_iter =
  it_start :: addr
  it_pos :: addr
  required_field_index :: u32
  dest_struct :: addr
  pData :: addr
  pSize :: addr

definition pb_field_iter_begin :: "env \<Rightarrow> addr \<Rightarrow> addr \<Rightarrow> (bool \<times> pb_field_iter) res" where
  "pb_field_iter_begin E flds dest =
     res_bind (field_at E flds) (\<lambda>f.
     let p = dest + uint (data_offset f)
     in Ret (tag f \<noteq> 0,
          \<lparr>it_start = flds, it_pos = flds, required_field_index = 0, dest_struct = dest,
           pData = p, pSize = p + sint (size_offset f)\<rparr>))"

text \<open>How far the data pointer moves past the previous field before the offset of the next one is
  added.\<close>

definition iter_prev_size :: "pb_field \<Rightarrow> int" where
  "iter_prev_size prev =
     (if PB_ATYPE (ftype prev) = PB_ATYPE_STATIC \<and> PB_HTYPE (ftype prev) = PB_HTYPE_REPEATED
      then uint (ucast (data_size prev) * ucast (array_size prev) :: u64)
      else if PB_ATYPE (ftype prev) = PB_ATYPE_POINTER then 8
      else uint (data_size prev))"

definition inside_union :: "pb_field \<Rightarrow> pb_field \<Rightarrow> bool" where
  "inside_union prev f \<longleftrightarrow>
     PB_HTYPE (ftype prev) = PB_HTYPE_ONEOF \<and> PB_HTYPE (ftype f) = PB_HTYPE_ONEOF \<and>
     data_offset f = PB_SIZE_MAX"

definition pb_field_iter_next :: "env \<Rightarrow> pb_field_iter \<Rightarrow> (bool \<times> pb_field_iter) res" where
  "pb_field_iter_next E iter =
     res_bind (field_at E (it_pos iter)) (\<lambda>prev.
     if tag prev = 0 then Ret (False, iter)
     else let iter = iter\<lparr>it_pos := it_pos iter + sizeof_pb_field\<rparr>
       in res_bind (field_at E (it_pos iter)) (\<lambda>f.
       if tag f = 0
       then res_bind (pb_field_iter_begin E (it_start iter) (dest_struct iter)) (\<lambda>(_, iter).
            Ret (False, iter))
       else if inside_union prev f then Ret (True, iter)
       else let iter =
              (if PB_HTYPE (ftype prev) = PB_HTYPE_REQUIRED
               then iter\<lparr>required_field_index := required_field_index iter + 1\<rparr> else iter);
              p = pData iter + iter_prev_size prev + uint (data_offset f)
         in Ret (True, iter\<lparr>pData := p, pSize := p + sint (size_offset f)\<rparr>)))"

text \<open>The \<open>do\<close> loop of the search ends when the iterator is back at \<open>start\<close>. Its fuel is counted in
  fields; \<open>length fs + 1\<close> is enough for an array of \<open>fs\<close>.\<close>

primrec iter_find_loop ::
  "nat \<Rightarrow> env \<Rightarrow> addr \<Rightarrow> u32 \<Rightarrow> pb_field_iter \<Rightarrow> (bool \<times> pb_field_iter) res" where
  "iter_find_loop 0 E start t iter = NoFuel"
| "iter_find_loop (Suc n) E start t iter =
     res_bind (field_at E (it_pos iter)) (\<lambda>f.
     if tag f = t \<and> PB_LTYPE (ftype f) \<noteq> PB_LTYPE_EXTENSION then Ret (True, iter)
     else res_bind (pb_field_iter_next E iter) (\<lambda>(_, iter).
       if it_pos iter \<noteq> start then iter_find_loop n E start t iter
       else Ret (False, iter)))"

definition pb_field_iter_find ::
  "nat \<Rightarrow> env \<Rightarrow> pb_field_iter \<Rightarrow> u32 \<Rightarrow> (bool \<times> pb_field_iter) res" where
  "pb_field_iter_find n E iter t = iter_find_loop n E (it_pos iter) t iter"

section \<open>The state of the iterator in closed form\<close>

definition nth_field :: "pb_field list \<Rightarrow> nat \<Rightarrow> pb_field" where
  "nth_field fs k = (fs @ [PB_LAST_FIELD]) ! k"

primrec data_addr :: "pb_field list \<Rightarrow> addr \<Rightarrow> nat \<Rightarrow> addr" where
  "data_addr fs dest 0 = dest + uint (data_offset (nth_field fs 0))"
| "data_addr fs dest (Suc k) =
     (if inside_union (nth_field fs k) (nth_field fs (Suc k)) then data_addr fs dest k
      else data_addr fs dest k + iter_prev_size (nth_field fs k)
           + uint (data_offset (nth_field fs (Suc k))))"

primrec size_addr :: "pb_field list \<Rightarrow> addr \<Rightarrow> nat \<Rightarrow> addr" where
  "size_addr fs dest 0 = data_addr fs dest 0 + sint (size_offset (nth_field fs 0))"
| "size_addr fs dest (Suc k) =
     (if inside_union (nth_field fs k) (nth_field fs (Suc k)) then size_addr fs dest k
      else data_addr fs dest (Suc k) + sint (size_offset (nth_field fs (Suc k))))"

definition is_required :: "pb_field \<Rightarrow> bool" where
  "is_required f \<longleftrightarrow> PB_HTYPE (ftype f) = PB_HTYPE_REQUIRED"

definition n_required :: "pb_field list \<Rightarrow> nat" where
  "n_required fs = length (filter is_required fs)"

definition iter_at :: "addr \<Rightarrow> pb_field list \<Rightarrow> addr \<Rightarrow> nat \<Rightarrow> pb_field_iter" where
  "iter_at a fs dest k =
     \<lparr>it_start = a, it_pos = a + sizeof_pb_field * int k,
      required_field_index = of_nat (n_required (take k fs)), dest_struct = dest,
      pData = data_addr fs dest k, pSize = size_addr fs dest k\<rparr>"

lemma iter_at_sel [simp]:
  "it_start (iter_at a fs dest k) = a"
  "it_pos (iter_at a fs dest k) = a + sizeof_pb_field * int k"
  "required_field_index (iter_at a fs dest k) = of_nat (n_required (take k fs))"
  "dest_struct (iter_at a fs dest k) = dest"
  "pData (iter_at a fs dest k) = data_addr fs dest k"
  "pSize (iter_at a fs dest k) = size_addr fs dest k"
  by (simp_all add: iter_at_def)

lemma sizeof_pb_field_eq_iff [simp]:
  "a + sizeof_pb_field * int i = a + sizeof_pb_field * int j \<longleftrightarrow> i = j"
  by (simp add: sizeof_pb_field_def)

lemma sizeof_pb_field_nonzero [simp]: "sizeof_pb_field \<noteq> 0"
  by (simp add: sizeof_pb_field_def)

lemma nth_field_less [simp]: "k < length fs \<Longrightarrow> nth_field fs k = fs ! k"
  by (simp add: nth_field_def nth_append)

lemma nth_field_length [simp]: "nth_field fs (length fs) = PB_LAST_FIELD"
  by (simp add: nth_field_def)

lemma field_at_nth_field:
  "table_at E a fs \<Longrightarrow> k \<le> length fs \<Longrightarrow>
   field_at E (a + sizeof_pb_field * int k) = Ret (nth_field fs k)"
  by (cases "k = length fs") (simp_all add: table_at_last table_at_nth)

lemma tag_nth_field: "table_at E a fs \<Longrightarrow> k \<le> length fs \<Longrightarrow> tag (nth_field fs k) = 0 \<longleftrightarrow> k = length fs"
  by (cases "k = length fs") (simp_all add: table_at_tag)

lemma n_required_take_Suc:
  "k < length fs \<Longrightarrow>
   n_required (take (Suc k) fs) = n_required (take k fs) + (if is_required (fs ! k) then 1 else 0)"
  by (simp add: n_required_def take_Suc_conv_app_nth)

lemma pb_field_iter_begin_spec:
  assumes "table_at E a fs"
  shows "pb_field_iter_begin E a dest = Ret (fs \<noteq> [], iter_at a fs dest 0)"
proof -
  have "field_at E a = Ret (nth_field fs 0)"
    using field_at_nth_field [OF assms, of 0] by simp
  moreover have "tag (nth_field fs 0) \<noteq> 0 \<longleftrightarrow> fs \<noteq> []"
    using tag_nth_field [OF assms, of 0] by auto
  ultimately show ?thesis
    by (simp add: pb_field_iter_begin_def iter_at_def n_required_def Let_def)
qed

lemma pb_field_iter_next_empty:
  "table_at E a [] \<Longrightarrow> pb_field_iter_next E (iter_at a [] dest 0) = Ret (False, iter_at a [] dest 0)"
  using table_at_last [of E a "[]"] by (simp add: pb_field_iter_next_def)

lemma pb_field_iter_next_spec:
  assumes t: "table_at E a fs" and k: "k < length fs"
  shows "pb_field_iter_next E (iter_at a fs dest k) =
    Ret (Suc k < length fs, iter_at a fs dest (if Suc k < length fs then Suc k else 0))"
proof -
  have prev: "field_at E (a + sizeof_pb_field * int k) = Ret (fs ! k)"
    using t k by (rule table_at_nth)
  have pos: "a + sizeof_pb_field * int k + sizeof_pb_field = a + sizeof_pb_field * (1 + int k)"
    by (simp add: algebra_simps)
  have cur: "field_at E (a + sizeof_pb_field * (1 + int k)) = Ret (nth_field fs (Suc k))"
    using field_at_nth_field [OF t, of "Suc k"] k by simp
  note step = pb_field_iter_next_def prev pos cur table_at_tag [OF t k]
  show ?thesis
  proof (cases "Suc k < length fs")
    case True
    then have "tag (fs ! Suc k) \<noteq> 0" by (rule table_at_tag [OF t])
    moreover have "inside_union (fs ! k) f \<Longrightarrow> \<not> is_required (fs ! k)" for f
      by (simp add: inside_union_def is_required_def pb_consts)
    ultimately show ?thesis
      using True k
      by (auto simp: step iter_at_def Let_def n_required_take_Suc is_required_def)
  next
    case False
    with k have "Suc k = length fs" by simp
    then have "tag (nth_field fs (Suc k)) = 0" by simp
    moreover have "fs \<noteq> []" using k by auto
    ultimately show ?thesis
      using False pb_field_iter_begin_spec [OF t, of dest] by (simp add: step Let_def)
  qed
qed

section \<open>Walking the fields\<close>

primrec iter_walk :: "nat \<Rightarrow> env \<Rightarrow> pb_field_iter \<Rightarrow> pb_field_iter res" where
  "iter_walk 0 E iter = Ret iter"
| "iter_walk (Suc k) E iter =
     res_bind (iter_walk k E iter) (\<lambda>iter.
     res_bind (pb_field_iter_next E iter) (\<lambda>(_, iter). Ret iter))"

lemma iter_walk_spec:
  assumes "table_at E a fs" and "fs \<noteq> []"
  shows "iter_walk k E (iter_at a fs dest 0) = Ret (iter_at a fs dest (k mod length fs))"
proof (induction k)
  case 0
  then show ?case by simp
next
  case (Suc k)
  have "k mod length fs < length fs" using assms(2) by simp
  then show ?case
    using Suc assms(1)
    by (simp add: pb_field_iter_next_spec mod_Suc)
qed

section \<open>Searching for a tag\<close>

definition field_matches :: "u32 \<Rightarrow> pb_field \<Rightarrow> bool" where
  "field_matches t f \<longleftrightarrow> tag f = t \<and> PB_LTYPE (ftype f) \<noteq> PB_LTYPE_EXTENSION"

lemma iter_find_loop_spec:
  assumes t: "table_at E a fs" and k: "k < length fs"
  shows "d < length fs \<Longrightarrow> length fs - d < n \<Longrightarrow>
     iter_find_loop n E (a + sizeof_pb_field * int k) tg (iter_at a fs dest ((k + d) mod length fs)) =
     (case find (\<lambda>i. field_matches tg (fs ! i)) (map (\<lambda>d. (k + d) mod length fs) [d..<length fs]) of
        Some i \<Rightarrow> Ret (True, iter_at a fs dest i)
      | None \<Rightarrow> Ret (False, iter_at a fs dest k))"
proof (induction "length fs - d" arbitrary: d n)
  case 0
  then show ?case by simp
next
  case (Suc m)
  then obtain n' where n: "n = Suc n'" by (cases n) auto
  let ?i = "(k + d) mod length fs" and ?j = "(k + Suc d) mod length fs"
  have i: "?i < length fs" using k by (intro mod_less_divisor) auto
  have j: "?j = (if Suc ?i < length fs then Suc ?i else 0)"
    using i by (auto simp: mod_Suc)
  have upt: "[d..<length fs] = d # [Suc d..<length fs]"
    using Suc.prems(1) by (rule upt_conv_Cons)
  note step = n upt field_matches_def table_at_nth [OF t i] pb_field_iter_next_spec [OF t i]
  show ?case
  proof (cases "field_matches tg (fs ! ?i)")
    case True
    then show ?thesis by (simp add: step)
  next
    case False
    show ?thesis
    proof (cases "Suc d = length fs")
      case True
      then have "?j = k" using k by simp
      with False True j show ?thesis by (simp add: step)
    next
      case ne: False
      then have "?j \<noteq> k"
        using Suc.prems(1) k mod_if [of "k + Suc d" "length fs"] mod_if [of "k + Suc d - length fs" "length fs"]
        by auto
      moreover have "iter_find_loop n' E (a + sizeof_pb_field * int k) tg (iter_at a fs dest ?j) =
         (case find (\<lambda>i. field_matches tg (fs ! i))
                 (map (\<lambda>d. (k + d) mod length fs) [Suc d..<length fs]) of
            Some i \<Rightarrow> Ret (True, iter_at a fs dest i)
          | None \<Rightarrow> Ret (False, iter_at a fs dest k))"
        using Suc.hyps(2) Suc.prems n ne by (intro Suc.hyps(1)) auto
      ultimately show ?thesis
        using False j by (auto simp: step)
    qed
  qed
qed

text \<open>The positions a search visits, in order.\<close>

definition cyclic_from :: "nat \<Rightarrow> nat \<Rightarrow> nat list" where
  "cyclic_from k len = map (\<lambda>d. (k + d) mod len) [0..<len]"

lemma pb_field_iter_find_at:
  assumes "table_at E a fs" and "k < length fs" and "length fs < n"
  shows "pb_field_iter_find n E (iter_at a fs dest k) tg =
     (case find (\<lambda>i. field_matches tg (fs ! i)) (cyclic_from k (length fs)) of
        Some i \<Rightarrow> Ret (True, iter_at a fs dest i)
      | None \<Rightarrow> Ret (False, iter_at a fs dest k))"
proof -
  have "0 < length fs" using assms(2) by (cases fs) auto
  with iter_find_loop_spec [OF assms(1,2), of 0 n tg dest] assms show ?thesis
    by (simp add: pb_field_iter_find_def cyclic_from_def)
qed

lemma set_cyclic_from: "0 < len \<Longrightarrow> set (cyclic_from k len) = {..<len}"
proof
  assume len: "0 < len"
  then show "set (cyclic_from k len) \<subseteq> {..<len}"
    by (auto simp: cyclic_from_def)
  show "{..<len} \<subseteq> set (cyclic_from k len)"
  proof
    fix i assume "i \<in> {..<len}"
    then have i: "i < len" by simp
    let ?d = "(i + (len - k mod len)) mod len"
    have "(k + ?d) mod len = (k mod len + (i + (len - k mod len))) mod len"
      by (simp only: mod_simps)
    also have "k mod len + (i + (len - k mod len)) = i + len"
      using mod_less_divisor [OF len, of k] by linarith
    also have "(i + len) mod len = i mod len" by simp
    also have "\<dots> = i" using i by simp
    finally have "i = (k + ?d) mod len" ..
    moreover have "?d \<in> {0..<len}" using len by simp
    ultimately show "i \<in> set (cyclic_from k len)"
      by (auto simp: cyclic_from_def)
  qed
qed

lemma pb_field_iter_find_cases:
  assumes t: "table_at E a fs" and k: "k < length fs" and n: "length fs < n"
  obtains (Found) i where "i < length fs" and "field_matches tg (fs ! i)"
      and "pb_field_iter_find n E (iter_at a fs dest k) tg = Ret (True, iter_at a fs dest i)"
    | (Missing) "\<forall>f \<in> set fs. \<not> field_matches tg f"
      and "pb_field_iter_find n E (iter_at a fs dest k) tg = Ret (False, iter_at a fs dest k)"
proof (cases "find (\<lambda>i. field_matches tg (fs ! i)) (cyclic_from k (length fs))")
  case None
  have pos: "0 < length fs" using k by (cases fs) auto
  have "\<not> field_matches tg (fs ! i)" if "i < length fs" for i
    using None that set_cyclic_from [OF pos, of k] by (auto simp: find_None_iff)
  then have "\<forall>f \<in> set fs. \<not> field_matches tg f"
    by (auto simp: in_set_conv_nth)
  with None pb_field_iter_find_at [OF assms] Missing show ?thesis by simp
next
  case (Some i)
  have pos: "0 < length fs" using k by (cases fs) auto
  from Some have i: "i \<in> set (cyclic_from k (length fs))" and "field_matches tg (fs ! i)"
    by (auto simp: find_Some_iff)
  moreover from i have "i < length fs"
    using set_cyclic_from [OF pos, of k] by auto
  ultimately show ?thesis
    using Some pb_field_iter_find_at [OF assms] Found by simp
qed

section \<open>An iterator whose count address was replaced\<close>

text \<open>The decoder points \<open>pSize\<close> of an array of fixed count to a local counter. The next step of the
  iterator computes \<open>pSize\<close> anew, and a search differs only when it stops at once.\<close>

lemma pb_field_iter_next_pSize:
  assumes t: "table_at E a fs" and k: "k < length fs"
    and h: "PB_HTYPE (ftype (fs ! k)) = PB_HTYPE_REPEATED"
  shows "pb_field_iter_next E ((iter_at a fs dest k)\<lparr>pSize := x\<rparr>) = pb_field_iter_next E (iter_at a fs dest k)"
proof -
  have "\<not> inside_union (fs ! k) f" for f
    using h by (simp add: inside_union_def pb_consts)
  then show ?thesis
    by (simp add: pb_field_iter_next_def table_at_nth [OF t k] table_at_tag [OF t k] iter_at_def Let_def
        cong: if_cong)
qed

lemma pb_field_iter_find_pSize:
  assumes t: "table_at E a fs" and k: "k < length fs" and n: "length fs < n"
    and h: "PB_HTYPE (ftype (fs ! k)) = PB_HTYPE_REPEATED"
  shows "pb_field_iter_find n E ((iter_at a fs dest k)\<lparr>pSize := x\<rparr>) tg =
     (if field_matches tg (fs ! k) then Ret (True, (iter_at a fs dest k)\<lparr>pSize := x\<rparr>)
      else pb_field_iter_find n E (iter_at a fs dest k) tg)"
proof -
  obtain n' where "n = Suc n'" using n by (cases n) auto
  then show ?thesis
    by (simp add: pb_field_iter_find_def table_at_nth [OF t k] pb_field_iter_next_pSize [OF t k h]
        field_matches_def)
qed

end
