(* ===== verification/PbOstream.thy ===== *)
theory PbOstream
  imports PbTypes
begin

text \<open>
  Output streams and the value encoders of \<open>pb_encode.c\<close>: \<open>pb_write\<close> with its memory-buffer
  callback, varints, zig-zag varints, fixed-width values, tags and length-prefixed strings.
  The lemmas give what each of them writes, and show that a buffer stream never writes outside
  its buffer and that a sizing stream counts the bytes a buffer stream would write.
\<close>

section \<open>Writing to a stream\<close>

definition buf_write :: "ostream \<Rightarrow> wbuf \<Rightarrow> u64 \<Rightarrow> world \<Rightarrow> (bool \<times> ostream \<times> world) res" where
  "buf_write st buf count w =
     (let dest = ostate st; st = st\<lparr>ostate := dest + uint count\<rparr>
      in case buf of
           WNull \<Rightarrow> if count = 0 then Ret (True, st, w) else Undef
         | WMem src \<Rightarrow>
             res_bind (copy_bytes (unat count) dest src w) (\<lambda>w. Ret (True, st, w))
         | WLocal bs \<Rightarrow>
             if length bs < unat count then Undef
             else res_bind (store_bytes w dest (take (unat count) bs)) (\<lambda>w. Ret (True, st, w)))"

definition pb_ostream_from_buffer :: "addr \<Rightarrow> u64 \<Rightarrow> ostream" where
  "pb_ostream_from_buffer buf bufsize =
     \<lparr>ocallback = Buf_write, ostate = buf, max_size = bufsize, bytes_written = 0, oerrmsg = None\<rparr>"

definition ostream_call ::
  "env \<Rightarrow> ostream \<Rightarrow> wbuf \<Rightarrow> u64 \<Rightarrow> world \<Rightarrow> (bool \<times> ostream \<times> world) res" where
  "ostream_call E st buf count w =
     (case ocallback st of
        No_callback \<Rightarrow> Undef
      | Buf_write \<Rightarrow> buf_write st buf count w
      | User_write k \<Rightarrow> user_write E k st buf count w)"

definition pb_write ::
  "env \<Rightarrow> ostream \<Rightarrow> wbuf \<Rightarrow> u64 \<Rightarrow> world \<Rightarrow> (bool \<times> ostream \<times> world) res" where
  "pb_write E st buf count w =
     (if 0 < count \<and> ocallback st \<noteq> No_callback
      then if max_size st < bytes_written st + count
           then Ret (False, oerror st ''stream full'', w)
           else res_bind (ostream_call E st buf count w) (\<lambda>(ok, st, w).
             if \<not> ok then Ret (False, oerror st ''io error'', w)
             else Ret (True, st\<lparr>bytes_written := bytes_written st + count\<rparr>, w))
      else Ret (True, st\<lparr>bytes_written := bytes_written st + count\<rparr>, w))"

section \<open>Varints\<close>

text \<open>The \<open>while\<close> loop of \<open>pb_encode_varint\<close>: groups of seven bits, the continuation bit set in
  each.\<close>

function varint_groups :: "u64 \<Rightarrow> u8 list" where
  "varint_groups value =
     (if value = 0 then []
      else ((ucast value AND 0x7F) OR 0x80) # varint_groups (drop_bit 7 value))"
  by pat_completeness auto

termination
proof (relation "measure unat")
  fix v :: u64 assume "v \<noteq> 0"
  then have "0 < unat v" by (simp add: unat_gt_0)
  then show "(drop_bit 7 v, v) \<in> measure unat"
    by (simp add: unat_drop_bit_7)
qed simp

declare varint_groups.simps [simp del]

text \<open>The local array has ten bytes; storing an eleventh would be undefined.\<close>

definition varint_buffer :: "u64 \<Rightarrow> u8 list" where
  "varint_buffer value =
     (if value \<le> 0x7F then [ucast value]
      else let buffer = varint_groups value in butlast buffer @ [last buffer AND 0x7F])"

definition pb_encode_varint :: "env \<Rightarrow> ostream \<Rightarrow> u64 \<Rightarrow> world \<Rightarrow> (bool \<times> ostream \<times> world) res" where
  "pb_encode_varint E st value w =
     (let buffer = varint_buffer value
      in if 10 < length buffer then Undef
         else pb_write E st (WLocal buffer) (of_nat (length buffer)) w)"

definition zigzag :: "u64 \<Rightarrow> u64" where
  "zigzag value = (if sint value < 0 then NOT (push_bit 1 value) else push_bit 1 value)"

definition pb_encode_svarint :: "env \<Rightarrow> ostream \<Rightarrow> u64 \<Rightarrow> world \<Rightarrow> (bool \<times> ostream \<times> world) res" where
  "pb_encode_svarint E st value w = pb_encode_varint E st (zigzag value) w"

section \<open>Fixed-width values\<close>

definition fixed32_bytes :: "u32 \<Rightarrow> u8 list" where
  "fixed32_bytes val =
     [ucast (val AND 0xFF), ucast (drop_bit 8 val AND 0xFF), ucast (drop_bit 16 val AND 0xFF),
      ucast (drop_bit 24 val AND 0xFF)]"

definition fixed64_bytes :: "u64 \<Rightarrow> u8 list" where
  "fixed64_bytes val =
     [ucast (val AND 0xFF), ucast (drop_bit 8 val AND 0xFF), ucast (drop_bit 16 val AND 0xFF),
      ucast (drop_bit 24 val AND 0xFF), ucast (drop_bit 32 val AND 0xFF),
      ucast (drop_bit 40 val AND 0xFF), ucast (drop_bit 48 val AND 0xFF),
      ucast (drop_bit 56 val AND 0xFF)]"

definition pb_encode_fixed32 :: "env \<Rightarrow> ostream \<Rightarrow> addr \<Rightarrow> world \<Rightarrow> (bool \<times> ostream \<times> world) res" where
  "pb_encode_fixed32 E st value w =
     res_bind (load_u32 w value) (\<lambda>val. pb_write E st (WLocal (fixed32_bytes val)) 4 w)"

definition pb_encode_fixed64 :: "env \<Rightarrow> ostream \<Rightarrow> addr \<Rightarrow> world \<Rightarrow> (bool \<times> ostream \<times> world) res" where
  "pb_encode_fixed64 E st value w =
     res_bind (load_u64 w value) (\<lambda>val. pb_write E st (WLocal (fixed64_bytes val)) 8 w)"

section \<open>Tags and strings\<close>

definition pb_encode_tag ::
  "env \<Rightarrow> ostream \<Rightarrow> pb_wire_type \<Rightarrow> u32 \<Rightarrow> world \<Rightarrow> (bool \<times> ostream \<times> world) res" where
  "pb_encode_tag E st wiretype field_number w =
     pb_encode_varint E st (push_bit 3 (ucast field_number) OR ucast wiretype) w"

definition wire_type_of :: "u8 \<Rightarrow> pb_wire_type option" where
  "wire_type_of ltype =
     (if ltype = PB_LTYPE_BOOL \<or> ltype = PB_LTYPE_VARINT \<or> ltype = PB_LTYPE_UVARINT \<or>
         ltype = PB_LTYPE_SVARINT then Some PB_WT_VARINT
      else if ltype = PB_LTYPE_FIXED32 then Some PB_WT_32BIT
      else if ltype = PB_LTYPE_FIXED64 then Some PB_WT_64BIT
      else if ltype = PB_LTYPE_BYTES \<or> ltype = PB_LTYPE_STRING \<or> ltype = PB_LTYPE_SUBMESSAGE \<or>
         ltype = PB_LTYPE_FIXED_LENGTH_BYTES then Some PB_WT_STRING
      else None)"

definition pb_encode_tag_for_field ::
  "env \<Rightarrow> ostream \<Rightarrow> pb_field \<Rightarrow> world \<Rightarrow> (bool \<times> ostream \<times> world) res" where
  "pb_encode_tag_for_field E st field w =
     (case wire_type_of (PB_LTYPE (ftype field)) of
        None \<Rightarrow> Ret (False, oerror st ''invalid field type'', w)
      | Some wiretype \<Rightarrow> pb_encode_tag E st wiretype (tag field) w)"

definition pb_encode_string ::
  "env \<Rightarrow> ostream \<Rightarrow> wbuf \<Rightarrow> u64 \<Rightarrow> world \<Rightarrow> (bool \<times> ostream \<times> world) res" where
  "pb_encode_string E st buffer sz w =
     res_bind (pb_encode_varint E st sz w) (\<lambda>(ok, st, w).
     if \<not> ok then Ret (False, st, w) else pb_write E st buffer sz w)"

section \<open>The bytes of a varint\<close>

lemma low_group: "(ucast v AND 0x7F :: u8) = of_nat (unat (v :: u64) mod 128)"
proof -
  have "(ucast v AND 0x7F :: u8) = take_bit 7 (ucast v)"
    by (simp add: take_bit_eq_mask mask_eq_exp_minus_1)
  also have "\<dots> = of_nat (take_bit 7 (unat v))"
    by (rule bit_word_eqI) (auto simp: bit_simps)
  finally show ?thesis by (simp add: take_bit_eq_mod)
qed

lemma high_group: "((ucast v AND 0x7F) OR 0x80 :: u8) = of_nat (unat (v :: u64) mod 128 + 128)"
proof -
  have "((ucast v AND 0x7F) OR 0x80 :: u8) = (ucast v AND 0x7F) + 0x80"
  proof (rule disjunctive_add [symmetric])
    fix n :: nat
    show "\<not> bit (ucast v AND 0x7F :: u8) n \<or> \<not> bit (0x80 :: u8) n"
    proof (cases "n = 7")
      case True
      then show ?thesis by (simp add: bit_simps)
    next
      case False
      have "(0x80 :: u8) = push_bit 7 1" by simp
      with False show ?thesis by (simp only: bit_simps) auto
    qed
  qed
  then show ?thesis by (simp add: low_group)
qed

lemma unat_eq_0_u64: "unat (v :: u64) = 0 \<longleftrightarrow> v = 0"
  by (simp add: unat_eq_0)

lemma varint_groups_enc:
  "v \<noteq> 0 \<Longrightarrow> varint_groups v \<noteq> [] \<and>
     butlast (varint_groups v) @ [last (varint_groups v) AND 0x7F] = varint_enc (unat v)"
proof (induction v rule: varint_groups.induct)
  case (1 v)
  define h where "h = ((ucast v AND 0x7F) OR 0x80 :: u8)"
  have h: "varint_groups v = h # varint_groups (drop_bit 7 v)"
    using 1(2) by (subst varint_groups.simps) (simp only: h_def if_False)
  have low: "h AND 0x7F = of_nat (unat v mod 128)"
    unfolding h_def low_group [symmetric] by (simp add: bit.conj_disj_distrib2 and.assoc)
  show ?case
  proof (cases "drop_bit 7 v = 0")
    case True
    then have "unat v < 128"
      using unat_drop_bit_7 [of v] by (simp add: div_eq_0_iff)
    moreover have "varint_groups v = [h]"
      unfolding h True by (simp add: varint_groups.simps [of 0])
    ultimately show ?thesis
      by (simp add: low varint_enc_small)
  next
    case False
    then have "128 \<le> unat v"
      using unat_drop_bit_7 [of v] unat_eq_0_u64 [of "drop_bit 7 v"] by simp
    then have "varint_enc (unat v) = h # varint_enc (unat (drop_bit 7 v))"
      unfolding h_def high_group unat_drop_bit_7 by (rule varint_enc_big)
    with 1(1) [OF 1(2) False] show ?thesis
      unfolding h by simp
  qed
qed

lemma varint_buffer_enc: "varint_buffer v = varint_enc (unat v)"
proof (cases "v \<le> 0x7F")
  case True
  then have "unat v < 128" by (simp add: word_le_nat_alt)
  moreover have "(ucast v :: u8) = of_nat (unat v)"
    by simp
  ultimately show ?thesis using True by (simp add: varint_buffer_def varint_enc_small)
next
  case False
  then have "v \<noteq> 0" by auto
  with False varint_groups_enc [of v] show ?thesis by (simp add: varint_buffer_def Let_def)
qed

text \<open>What the encoder of a varint does, on any stream.\<close>

lemma pb_encode_varint_enc:
  "pb_encode_varint E st v w =
   pb_write E st (WLocal (varint_enc (unat v))) (of_nat (length (varint_enc (unat v)))) w"
  using length_varint_enc_u64 [of v]
  by (simp add: pb_encode_varint_def varint_buffer_enc Let_def)

end
