(* ===== verification/PbEncode.thy ===== *)
theory PbEncode
  imports PbCommon PbOstream
begin

text \<open>
  The message encoder of \<open>pb_encode.c\<close>. Each C function is one definition; the functions that end
  up in \<open>pb_encode\<close> again (through a submessage) take it as the argument \<open>rec\<close>, and \<open>pb_encode\<close>
  itself is defined by recursion on the nesting depth, which also bounds the loops over descriptor
  arrays and extension lists. A value of depth \<open>n\<close> is more than enough when \<open>n\<close> is larger than the
  nesting depth of the message type plus the length of the longest array.
\<close>

type_synonym enc = "ostream \<Rightarrow> addr \<Rightarrow> addr \<Rightarrow> world \<Rightarrow> (bool \<times> ostream \<times> world) res"
type_synonym item_enc = "ostream \<Rightarrow> addr \<Rightarrow> world \<Rightarrow> (bool \<times> ostream \<times> world) res"

section \<open>Submessages\<close>

definition pb_encode_submessage :: "env \<Rightarrow> enc \<Rightarrow> ostream \<Rightarrow> addr \<Rightarrow> addr \<Rightarrow> world \<Rightarrow>
    (bool \<times> ostream \<times> world) res" where
  "pb_encode_submessage E rec st flds src w =
     res_bind (rec PB_OSTREAM_SIZING flds src w) (\<lambda>(ok, substream, w).
     if \<not> ok then Ret (False, st\<lparr>oerrmsg := oerrmsg substream\<rparr>, w)
     else let sz = bytes_written substream
       in res_bind (pb_encode_varint E st sz w) (\<lambda>(ok, st, w).
       if \<not> ok then Ret (False, st, w)
       else if ocallback st = No_callback then pb_write E st WNull sz w
       else if max_size st < bytes_written st + sz then Ret (False, oerror st ''stream full'', w)
       else res_bind (rec \<lparr>ocallback = ocallback st, ostate = ostate st, max_size = sz,
                           bytes_written = 0, oerrmsg = None\<rparr> flds src w)
         (\<lambda>(status, substream, w).
         let st = st\<lparr>bytes_written := bytes_written st + bytes_written substream,
                     ostate := ostate substream, oerrmsg := oerrmsg substream\<rparr>
         in if bytes_written substream \<noteq> sz
            then Ret (False, oerror st ''submsg size changed'', w)
            else Ret (status, st, w))))"

section \<open>The encoders of the field types\<close>

definition safe_read_bool :: "world \<Rightarrow> addr \<Rightarrow> bool res" where
  "safe_read_bool w a = res_bind (load_byte w a) (\<lambda>b. Ret (b \<noteq> 0))"

definition pb_enc_bool :: "env \<Rightarrow> ostream \<Rightarrow> addr \<Rightarrow> world \<Rightarrow> (bool \<times> ostream \<times> world) res" where
  "pb_enc_bool E st src w =
     res_bind (safe_read_bool w src) (\<lambda>b. pb_encode_varint E st (if b then 1 else 0) w)"

definition pb_enc_varint ::
  "env \<Rightarrow> pb_field \<Rightarrow> ostream \<Rightarrow> addr \<Rightarrow> world \<Rightarrow> (bool \<times> ostream \<times> world) res" where
  "pb_enc_varint E f st src w =
     (if data_size f = 1
      then res_bind (load_byte w src) (\<lambda>v. pb_encode_varint E st (scast v) w)
      else if data_size f = 2
      then res_bind (load_u16 w src) (\<lambda>v. pb_encode_varint E st (scast v) w)
      else if data_size f = 4
      then res_bind (load_u32 w src) (\<lambda>v. pb_encode_varint E st (scast v) w)
      else if data_size f = 8
      then res_bind (load_u64 w src) (\<lambda>v. pb_encode_varint E st v w)
      else Ret (False, oerror st ''invalid data_size'', w))"

definition pb_enc_uvarint ::
  "env \<Rightarrow> pb_field \<Rightarrow> ostream \<Rightarrow> addr \<Rightarrow> world \<Rightarrow> (bool \<times> ostream \<times> world) res" where
  "pb_enc_uvarint E f st src w =
     (if data_size f = 1
      then res_bind (load_byte w src) (\<lambda>v. pb_encode_varint E st (ucast v) w)
      else if data_size f = 2
      then res_bind (load_u16 w src) (\<lambda>v. pb_encode_varint E st (ucast v) w)
      else if data_size f = 4
      then res_bind (load_u32 w src) (\<lambda>v. pb_encode_varint E st (ucast v) w)
      else if data_size f = 8
      then res_bind (load_u64 w src) (\<lambda>v. pb_encode_varint E st v w)
      else Ret (False, oerror st ''invalid data_size'', w))"

definition pb_enc_svarint ::
  "env \<Rightarrow> pb_field \<Rightarrow> ostream \<Rightarrow> addr \<Rightarrow> world \<Rightarrow> (bool \<times> ostream \<times> world) res" where
  "pb_enc_svarint E f st src w =
     (if data_size f = 1
      then res_bind (load_byte w src) (\<lambda>v. pb_encode_svarint E st (scast v) w)
      else if data_size f = 2
      then res_bind (load_u16 w src) (\<lambda>v. pb_encode_svarint E st (scast v) w)
      else if data_size f = 4
      then res_bind (load_u32 w src) (\<lambda>v. pb_encode_svarint E st (scast v) w)
      else if data_size f = 8
      then res_bind (load_u64 w src) (\<lambda>v. pb_encode_svarint E st v w)
      else Ret (False, oerror st ''invalid data_size'', w))"

definition pb_enc_fixed32 :: "env \<Rightarrow> ostream \<Rightarrow> addr \<Rightarrow> world \<Rightarrow> (bool \<times> ostream \<times> world) res" where
  "pb_enc_fixed32 E st src w = pb_encode_fixed32 E st src w"

definition pb_enc_fixed64 :: "env \<Rightarrow> ostream \<Rightarrow> addr \<Rightarrow> world \<Rightarrow> (bool \<times> ostream \<times> world) res" where
  "pb_enc_fixed64 E st src w = pb_encode_fixed64 E st src w"

definition pb_enc_bytes ::
  "env \<Rightarrow> pb_field \<Rightarrow> ostream \<Rightarrow> addr \<Rightarrow> world \<Rightarrow> (bool \<times> ostream \<times> world) res" where
  "pb_enc_bytes E f st src w =
     (if src = 0 then pb_encode_string E st WNull 0 w
      else res_bind (load_u32 w src) (\<lambda>sz.
        if PB_ATYPE (ftype f) = PB_ATYPE_STATIC \<and>
           ucast (data_size f) < PB_BYTES_ARRAY_T_ALLOCSIZE (ucast sz)
        then Ret (False, oerror st ''bytes size exceeded'', w)
        else pb_encode_string E st (WMem (src + offsetof_bytes)) (ucast sz) w))"

text \<open>The loop of \<open>pb_enc_string\<close>: the length of a string, at most \<open>k\<close>.\<close>

fun string_size :: "nat \<Rightarrow> world \<Rightarrow> addr \<Rightarrow> nat res" where
  "string_size k w p =
     (if k = 0 then Ret 0
      else res_bind (load_byte w p) (\<lambda>c.
        if c = 0 then Ret 0
        else res_bind (string_size (k - 1) w (p + 1)) (\<lambda>len. Ret (Suc len))))"

declare string_size.simps [simp del]

definition pb_enc_string ::
  "env \<Rightarrow> pb_field \<Rightarrow> ostream \<Rightarrow> addr \<Rightarrow> world \<Rightarrow> (bool \<times> ostream \<times> world) res" where
  "pb_enc_string E f st src w =
     (let maxsize = (if PB_ATYPE (ftype f) = PB_ATYPE_POINTER then - 1 else ucast (data_size f) :: u64)
      in if src = 0 then pb_encode_string E st WNull 0 w
         else res_bind (string_size (unat maxsize) w src) (\<lambda>len.
           pb_encode_string E st (WMem src) (of_nat len) w))"

definition pb_enc_submessage ::
  "env \<Rightarrow> enc \<Rightarrow> pb_field \<Rightarrow> ostream \<Rightarrow> addr \<Rightarrow> world \<Rightarrow> (bool \<times> ostream \<times> world) res" where
  "pb_enc_submessage E rec f st src w =
     (if ptr f = 0 then Ret (False, oerror st ''invalid field descriptor'', w)
      else pb_encode_submessage E rec st (ptr f) src w)"

definition pb_enc_fixed_length_bytes ::
  "env \<Rightarrow> pb_field \<Rightarrow> ostream \<Rightarrow> addr \<Rightarrow> world \<Rightarrow> (bool \<times> ostream \<times> world) res" where
  "pb_enc_fixed_length_bytes E f st src w =
     pb_encode_string E st (WMem src) (ucast (data_size f)) w"

text \<open>The dispatch table. The entry of \<open>PB_LTYPE_EXTENSION\<close> is \<open>NULL\<close>.\<close>

definition PB_ENCODERS :: "env \<Rightarrow> enc \<Rightarrow> u8 \<Rightarrow> pb_field \<Rightarrow> item_enc" where
  "PB_ENCODERS E rec l f st src w =
     (if l = PB_LTYPE_BOOL then pb_enc_bool E st src w
      else if l = PB_LTYPE_VARINT then pb_enc_varint E f st src w
      else if l = PB_LTYPE_UVARINT then pb_enc_uvarint E f st src w
      else if l = PB_LTYPE_SVARINT then pb_enc_svarint E f st src w
      else if l = PB_LTYPE_FIXED32 then pb_enc_fixed32 E st src w
      else if l = PB_LTYPE_FIXED64 then pb_enc_fixed64 E st src w
      else if l = PB_LTYPE_BYTES then pb_enc_bytes E f st src w
      else if l = PB_LTYPE_STRING then pb_enc_string E f st src w
      else if l = PB_LTYPE_SUBMESSAGE then pb_enc_submessage E rec f st src w
      else if l = PB_LTYPE_FIXED_LENGTH_BYTES then pb_enc_fixed_length_bytes E f st src w
      else Undef)"

section \<open>Arrays\<close>

text \<open>The two loops of \<open>encode_array\<close>: packed entries, and entries with a tag each.\<close>

primrec encode_items :: "nat \<Rightarrow> item_enc \<Rightarrow> int \<Rightarrow> ostream \<Rightarrow> addr \<Rightarrow> world \<Rightarrow>
    (bool \<times> ostream \<times> world) res" where
  "encode_items 0 func dsize st p w = Ret (True, st, w)"
| "encode_items (Suc n) func dsize st p w =
     res_bind (func st p w) (\<lambda>(ok, st, w).
     if \<not> ok then Ret (False, st, w) else encode_items n func dsize st (p + dsize) w)"

definition encode_tagged_item :: "env \<Rightarrow> pb_field \<Rightarrow> item_enc \<Rightarrow> item_enc" where
  "encode_tagged_item E f func st p w =
     res_bind (pb_encode_tag_for_field E st f w) (\<lambda>(ok, st, w).
     if \<not> ok then Ret (False, st, w)
     else if PB_ATYPE (ftype f) = PB_ATYPE_POINTER \<and>
             (PB_LTYPE (ftype f) = PB_LTYPE_STRING \<or> PB_LTYPE (ftype f) = PB_LTYPE_BYTES)
     then res_bind (load_ptr w p) (\<lambda>q. func st q w)
     else func st p w)"

definition encode_array ::
  "env \<Rightarrow> pb_field \<Rightarrow> addr \<Rightarrow> u64 \<Rightarrow> item_enc \<Rightarrow> ostream \<Rightarrow> world \<Rightarrow> (bool \<times> ostream \<times> world) res" where
  "encode_array E f p count func st w =
     (let l = PB_LTYPE (ftype f); dsize = uint (data_size f)
      in if count = 0 then Ret (True, st, w)
         else if PB_ATYPE (ftype f) \<noteq> PB_ATYPE_POINTER \<and> ucast (array_size f) < count
         then Ret (False, oerror st ''array max size exceeded'', w)
         else if l \<le> PB_LTYPE_LAST_PACKABLE
         then res_bind (pb_encode_tag E st PB_WT_STRING (tag f) w) (\<lambda>(ok, st, w).
           if \<not> ok then Ret (False, st, w)
           else res_bind
             (if l = PB_LTYPE_FIXED32 then Ret (True, 4 * count, w)
              else if l = PB_LTYPE_FIXED64 then Ret (True, 8 * count, w)
              else res_bind (encode_items (unat count) func dsize PB_OSTREAM_SIZING p w)
                (\<lambda>(ok, sizestream, w). Ret (ok, bytes_written sizestream, w))) (\<lambda>(ok, sz, w).
           if \<not> ok then Ret (False, st, w)
           else res_bind (pb_encode_varint E st sz w) (\<lambda>(ok, st, w).
           if \<not> ok then Ret (False, st, w)
           else if ocallback st = No_callback then pb_write E st WNull sz w
           else encode_items (unat count) func dsize st p w)))
         else encode_items (unat count) (encode_tagged_item E f func) dsize st p w)"

section \<open>Fields\<close>

text \<open>Are the \<open>k\<close> bytes at \<open>a\<close> zero? The loop stops at the first that is not.\<close>

primrec all_zero :: "nat \<Rightarrow> world \<Rightarrow> addr \<Rightarrow> bool res" where
  "all_zero 0 w a = Ret True"
| "all_zero (Suc k) w a =
     res_bind (load_byte w a) (\<lambda>b. if b \<noteq> 0 then Ret False else all_zero k w (a + 1))"

fun pb_check_proto3_default_value :: "nat \<Rightarrow> env \<Rightarrow> pb_field \<Rightarrow> addr \<Rightarrow> world \<Rightarrow> bool res"
  and check_default_loop :: "nat \<Rightarrow> env \<Rightarrow> pb_field_iter \<Rightarrow> world \<Rightarrow> bool res" where
  "pb_check_proto3_default_value 0 E f p w = NoFuel"
| "pb_check_proto3_default_value (Suc n) E f p w =
     (let ty = ftype f; psize = p + sint (size_offset f)
      in if PB_HTYPE ty = PB_HTYPE_REQUIRED then Ret False
         else if PB_HTYPE ty = PB_HTYPE_REPEATED \<and> size_offset f \<noteq> 0
         then res_bind (load_u32 w psize) (\<lambda>count. Ret (count = 0))
         else if PB_HTYPE ty = PB_HTYPE_REPEATED \<and> PB_ATYPE ty = PB_ATYPE_STATIC then Ret False
         else if PB_HTYPE ty = PB_HTYPE_ONEOF
         then res_bind (load_u32 w psize) (\<lambda>which. Ret (which = 0))
         else if PB_HTYPE ty = PB_HTYPE_OPTIONAL \<and> size_offset f \<noteq> 0
         then res_bind (safe_read_bool w psize) (\<lambda>has. Ret (\<not> has))
         else if PB_ATYPE ty = PB_ATYPE_STATIC \<and> PB_LTYPE ty = PB_LTYPE_BYTES
         then res_bind (load_u32 w p) (\<lambda>sz. Ret (sz = 0))
         else if PB_ATYPE ty = PB_ATYPE_STATIC \<and> PB_LTYPE ty = PB_LTYPE_STRING
         then res_bind (load_byte w p) (\<lambda>c. Ret (c = 0))
         else if PB_ATYPE ty = PB_ATYPE_STATIC \<and> PB_LTYPE ty = PB_LTYPE_FIXED_LENGTH_BYTES
         then Ret (data_size f = 0)
         else if PB_ATYPE ty = PB_ATYPE_STATIC \<and> PB_LTYPE ty = PB_LTYPE_SUBMESSAGE
         then res_bind (pb_field_iter_begin E (ptr f) p) (\<lambda>(ok, iter).
           if ok then check_default_loop n E iter w else Ret True)
         else all_zero (unat (data_size f)) w p)"
| "check_default_loop 0 E iter w = NoFuel"
| "check_default_loop (Suc n) E iter w =
     res_bind (field_at E (it_pos iter)) (\<lambda>f.
     res_bind (pb_check_proto3_default_value n E f (pData iter) w) (\<lambda>zero.
     if \<not> zero then Ret False
     else res_bind (pb_field_iter_next E iter) (\<lambda>(more, iter).
       if more then check_default_loop n E iter w else Ret True)))"

text \<open>\<open>pSize\<close> is the address of the count member, or (\<open>None\<close>) of the local \<open>implicit_has\<close>, a single
  byte.\<close>

definition encode_basic_field ::
  "nat \<Rightarrow> env \<Rightarrow> enc \<Rightarrow> ostream \<Rightarrow> pb_field \<Rightarrow> addr \<Rightarrow> world \<Rightarrow> (bool \<times> ostream \<times> world) res" where
  "encode_basic_field n E rec st f p w =
     (let ty = ftype f; func = PB_ENCODERS E rec (PB_LTYPE ty) f;
          psize = (if size_offset f \<noteq> 0 then Some (p + sint (size_offset f)) else None);
          tagged = (\<lambda>st p w. res_bind (pb_encode_tag_for_field E st f w) (\<lambda>(ok, st, w).
                     if \<not> ok then Ret (False, st, w) else func st p w))
      in if PB_LTYPES_COUNT \<le> PB_LTYPE ty then Undef
         else res_bind
           (if size_offset f = 0 \<and> PB_HTYPE ty = PB_HTYPE_OPTIONAL
            then res_bind (pb_check_proto3_default_value n E f p w) (\<lambda>zero. Ret (\<not> zero))
            else Ret True) (\<lambda>implicit_has.
         res_bind
           (if PB_ATYPE ty = PB_ATYPE_POINTER
            then res_bind (load_ptr w p) (\<lambda>q. Ret (q, q \<noteq> 0)) else Ret (p, implicit_has))
           (\<lambda>(p, implicit_has).
         if PB_HTYPE ty = PB_HTYPE_REQUIRED
         then (if p = 0 then Ret (False, oerror st ''missing required field'', w)
               else tagged st p w)
         else if PB_HTYPE ty = PB_HTYPE_OPTIONAL
         then res_bind (case psize of None \<Rightarrow> Ret implicit_has | Some a \<Rightarrow> safe_read_bool w a)
           (\<lambda>has. if has then tagged st p w else Ret (True, st, w))
         else if PB_HTYPE ty = PB_HTYPE_REPEATED
         then res_bind (case psize of None \<Rightarrow> Ret (array_size f) | Some a \<Rightarrow> load_u32 w a)
           (\<lambda>count. encode_array E f p (ucast count) func st w)
         else res_bind (case psize of None \<Rightarrow> Undef | Some a \<Rightarrow> load_u32 w a)
           (\<lambda>which. if which = tag f then tagged st p w else Ret (True, st, w)))))"

definition encode_callback_field ::
  "env \<Rightarrow> ostream \<Rightarrow> addr \<Rightarrow> addr \<Rightarrow> world \<Rightarrow> (bool \<times> ostream \<times> world) res" where
  "encode_callback_field E st fa p w =
     res_bind (load_ptr w (callback_funcs p)) (\<lambda>fn.
     if fn = 0 then Ret (True, st, w)
     else case field_encoder E fn of
            None \<Rightarrow> Undef
          | Some enc \<Rightarrow> res_bind (enc st fa (callback_arg p) w) (\<lambda>(ok, st, w).
              if \<not> ok then Ret (False, oerror st ''callback error'', w) else Ret (True, st, w)))"

definition encode_field ::
  "nat \<Rightarrow> env \<Rightarrow> enc \<Rightarrow> ostream \<Rightarrow> addr \<Rightarrow> addr \<Rightarrow> world \<Rightarrow> (bool \<times> ostream \<times> world) res" where
  "encode_field n E rec st fa p w =
     res_bind (field_at E fa) (\<lambda>f.
     let a = PB_ATYPE (ftype f)
     in if a = PB_ATYPE_STATIC \<or> a = PB_ATYPE_POINTER then encode_basic_field n E rec st f p w
        else if a = PB_ATYPE_CALLBACK then encode_callback_field E st fa p w
        else Ret (False, oerror st ''invalid field type'', w))"

section \<open>Extensions\<close>

definition default_extension_encoder ::
  "nat \<Rightarrow> env \<Rightarrow> enc \<Rightarrow> ostream \<Rightarrow> addr \<Rightarrow> world \<Rightarrow> (bool \<times> ostream \<times> world) res" where
  "default_extension_encoder n E rec st e w =
     res_bind (load_ptr w (ext_type e)) (\<lambda>t.
     res_bind (load_ptr w (exttype_arg t)) (\<lambda>fa.
     res_bind (field_at E fa) (\<lambda>f.
     if PB_ATYPE (ftype f) = PB_ATYPE_POINTER then encode_field n E rec st fa (ext_dest e) w
     else res_bind (load_ptr w (ext_dest e)) (\<lambda>d. encode_field n E rec st fa d w))))"

text \<open>The loop over the extension list, from the extension \<open>e\<close>.\<close>

primrec encode_extensions ::
  "nat \<Rightarrow> env \<Rightarrow> enc \<Rightarrow> ostream \<Rightarrow> addr \<Rightarrow> world \<Rightarrow> (bool \<times> ostream \<times> world) res" where
  "encode_extensions 0 E rec st e w = (if e = 0 then Ret (True, st, w) else NoFuel)"
| "encode_extensions (Suc n) E rec st e w =
     (if e = 0 then Ret (True, st, w)
      else res_bind (load_ptr w (ext_type e)) (\<lambda>t.
        res_bind (load_ptr w (exttype_encode t)) (\<lambda>fn.
        res_bind (if fn \<noteq> 0
                  then (case ext_encoder E fn of None \<Rightarrow> Undef | Some enc \<Rightarrow> enc st e w)
                  else default_extension_encoder n E rec st e w) (\<lambda>(status, st, w).
        if \<not> status then Ret (False, st, w)
        else res_bind (load_ptr w (ext_next e)) (\<lambda>e. encode_extensions n E rec st e w)))))"

definition encode_extension_field ::
  "nat \<Rightarrow> env \<Rightarrow> enc \<Rightarrow> ostream \<Rightarrow> addr \<Rightarrow> world \<Rightarrow> (bool \<times> ostream \<times> world) res" where
  "encode_extension_field n E rec st p w =
     res_bind (load_ptr w p) (\<lambda>e. encode_extensions n E rec st e w)"

section \<open>Messages\<close>

primrec encode_loop ::
  "nat \<Rightarrow> env \<Rightarrow> enc \<Rightarrow> ostream \<Rightarrow> pb_field_iter \<Rightarrow> world \<Rightarrow> (bool \<times> ostream \<times> world) res" where
  "encode_loop 0 E rec st iter w = NoFuel"
| "encode_loop (Suc n) E rec st iter w =
     res_bind (field_at E (it_pos iter)) (\<lambda>f.
     res_bind (if PB_LTYPE (ftype f) = PB_LTYPE_EXTENSION
               then encode_extension_field n E rec st (pData iter) w
               else encode_field n E rec st (it_pos iter) (pData iter) w) (\<lambda>(ok, st, w).
     if \<not> ok then Ret (False, st, w)
     else res_bind (pb_field_iter_next E iter) (\<lambda>(more, iter).
       if more then encode_loop n E rec st iter w else Ret (True, st, w))))"

primrec pb_encode :: "nat \<Rightarrow> env \<Rightarrow> enc" where
  "pb_encode 0 E st flds src w = NoFuel"
| "pb_encode (Suc n) E st flds src w =
     res_bind (pb_field_iter_begin E flds src) (\<lambda>(ok, iter).
     if \<not> ok then Ret (True, st, w) else encode_loop n E (pb_encode n E) st iter w)"

definition pb_encode_delimited :: "nat \<Rightarrow> env \<Rightarrow> enc" where
  "pb_encode_delimited n E st flds src w = pb_encode_submessage E (pb_encode n E) st flds src w"

definition pb_encode_nullterminated :: "nat \<Rightarrow> env \<Rightarrow> enc" where
  "pb_encode_nullterminated n E st flds src w =
     res_bind (pb_encode n E st flds src w) (\<lambda>(ok, st, w).
     if \<not> ok then Ret (False, st, w) else pb_write E st (WLocal [0]) 1 w)"

text \<open>Result: success, \<open>*size\<close>, the world.\<close>

definition pb_get_encoded_size :: "nat \<Rightarrow> env \<Rightarrow> addr \<Rightarrow> addr \<Rightarrow> world \<Rightarrow> (bool \<times> u64 \<times> world) res" where
  "pb_get_encoded_size n E flds src w =
     res_bind (pb_encode n E PB_OSTREAM_SIZING flds src w) (\<lambda>(ok, st, w).
     if \<not> ok then Ret (False, 0, w) else Ret (True, bytes_written st, w))"

end
