(* ===== verification/PbWire.thy ===== *)
theory PbWire
  imports PbEncode
begin

text \<open>
  The wire format as a function: the bytes that stand for a message in memory, without streams,
  buffers or sizes. \<open>Undef\<close> means that the message has no encoding (an array count that is too
  large, a missing required field, an address that is not mapped) or that encoding it is left to a
  function of the user. The encoder is shown to refine this specification elsewhere.
\<close>

section \<open>Values\<close>

definition wire_len :: "u8 list \<Rightarrow> u8 list" where
  "wire_len bs = varint_enc (length bs) @ bs"

definition wire_tag :: "pb_size \<Rightarrow> pb_wire_type \<Rightarrow> u8 list" where
  "wire_tag t wt = varint_enc (8 * unat t + unat wt)"

text \<open>Zig-zag: 0, -1, 1, -2, 2, ... are 0, 1, 2, 3, 4, ...\<close>

definition zig_zag_nat :: "int \<Rightarrow> nat" where
  "zig_zag_nat i = nat (if i < 0 then - 2 * i - 1 else 2 * i)"

definition load_signed :: "pb_size \<Rightarrow> world \<Rightarrow> addr \<Rightarrow> int res" where
  "load_signed dsize w p =
     (if dsize = 1 then res_bind (load_byte w p) (\<lambda>v. Ret (sint v))
      else if dsize = 2 then res_bind (load_u16 w p) (\<lambda>v. Ret (sint v))
      else if dsize = 4 then res_bind (load_u32 w p) (\<lambda>v. Ret (sint v))
      else if dsize = 8 then res_bind (load_u64 w p) (\<lambda>v. Ret (sint v))
      else Undef)"

definition load_unsigned :: "pb_size \<Rightarrow> world \<Rightarrow> addr \<Rightarrow> nat res" where
  "load_unsigned dsize w p =
     (if dsize = 1 then res_bind (load_byte w p) (\<lambda>v. Ret (unat v))
      else if dsize = 2 then res_bind (load_u16 w p) (\<lambda>v. Ret (unat v))
      else if dsize = 4 then res_bind (load_u32 w p) (\<lambda>v. Ret (unat v))
      else if dsize = 8 then res_bind (load_u64 w p) (\<lambda>v. Ret (unat v))
      else Undef)"

text \<open>A negative number is encoded as its residue modulo \<open>2 ^ 64\<close>.\<close>

definition wire_varint :: "int \<Rightarrow> u8 list" where
  "wire_varint i = varint_enc (nat (i mod 2 ^ 64))"

definition wire_bytes :: "pb_field \<Rightarrow> world \<Rightarrow> addr \<Rightarrow> u8 list res" where
  "wire_bytes f w p =
     (if p = 0 then Ret (wire_len [])
      else res_bind (load_u32 w p) (\<lambda>sz.
        if PB_ATYPE (ftype f) = PB_ATYPE_STATIC \<and> uint (data_size f) < uint sz + offsetof_bytes
        then Undef
        else res_bind (load_bytes w (p + offsetof_bytes) (unat sz)) (\<lambda>bs. Ret (wire_len bs))))"

definition wire_string :: "pb_field \<Rightarrow> world \<Rightarrow> addr \<Rightarrow> u8 list res" where
  "wire_string f w p =
     (if p = 0 then Ret (wire_len [])
      else res_bind (string_size
             (if PB_ATYPE (ftype f) = PB_ATYPE_POINTER then 2 ^ 64 - 1 else unat (data_size f)) w p)
           (\<lambda>n. res_bind (load_bytes w p n) (\<lambda>bs. Ret (wire_len bs))))"

text \<open>One item of the field \<open>f\<close> at the address \<open>p\<close>; \<open>rec\<close> encodes a submessage.\<close>

definition wire_item :: "(addr \<Rightarrow> addr \<Rightarrow> u8 list res) \<Rightarrow> pb_field \<Rightarrow> world \<Rightarrow> addr \<Rightarrow> u8 list res" where
  "wire_item rec f w p =
     (let l = PB_LTYPE (ftype f)
      in if l = PB_LTYPE_BOOL
         then res_bind (load_byte w p) (\<lambda>b. Ret [if b \<noteq> 0 then 1 else 0])
         else if l = PB_LTYPE_VARINT
         then res_bind (load_signed (data_size f) w p) (\<lambda>i. Ret (wire_varint i))
         else if l = PB_LTYPE_UVARINT
         then res_bind (load_unsigned (data_size f) w p) (\<lambda>n. Ret (varint_enc n))
         else if l = PB_LTYPE_SVARINT
         then res_bind (load_signed (data_size f) w p) (\<lambda>i. Ret (varint_enc (zig_zag_nat i)))
         else if l = PB_LTYPE_FIXED32 then load_bytes w p 4
         else if l = PB_LTYPE_FIXED64 then load_bytes w p 8
         else if l = PB_LTYPE_BYTES then wire_bytes f w p
         else if l = PB_LTYPE_STRING then wire_string f w p
         else if l = PB_LTYPE_SUBMESSAGE \<and> ptr f \<noteq> 0
         then res_bind (rec (ptr f) p) (\<lambda>bs. Ret (wire_len bs))
         else if l = PB_LTYPE_FIXED_LENGTH_BYTES
         then res_bind (load_bytes w p (unat (data_size f))) (\<lambda>bs. Ret (wire_len bs))
         else Undef)"

text \<open>\<open>m\<close> items, \<open>dsize\<close> bytes apart.\<close>

primrec wire_items :: "nat \<Rightarrow> (addr \<Rightarrow> u8 list res) \<Rightarrow> int \<Rightarrow> addr \<Rightarrow> u8 list res" where
  "wire_items 0 item dsize p = Ret []"
| "wire_items (Suc m) item dsize p =
     res_bind (item p) (\<lambda>bs. res_bind (wire_items m item dsize (p + dsize)) (\<lambda>bs'. Ret (bs @ bs')))"

section \<open>Fields\<close>

definition wire_tagged :: "pb_field \<Rightarrow> (addr \<Rightarrow> u8 list res) \<Rightarrow> addr \<Rightarrow> u8 list res" where
  "wire_tagged f item p =
     (case wire_type_of (PB_LTYPE (ftype f)) of
        None \<Rightarrow> Undef
      | Some wt \<Rightarrow> res_bind (item p) (\<lambda>bs. Ret (wire_tag (tag f) wt @ bs)))"

definition wire_array :: "pb_field \<Rightarrow> (addr \<Rightarrow> u8 list res) \<Rightarrow> world \<Rightarrow> addr \<Rightarrow> nat \<Rightarrow> u8 list res" where
  "wire_array f item w p count =
     (let l = PB_LTYPE (ftype f); pointer = (PB_ATYPE (ftype f) = PB_ATYPE_POINTER);
          dsize = uint (data_size f)
      in if count = 0 then Ret []
         else if \<not> pointer \<and> unat (array_size f) < count then Undef
         else if l \<le> PB_LTYPE_LAST_PACKABLE
         then res_bind (wire_items count item dsize p) (\<lambda>bs.
           Ret (wire_tag (tag f) PB_WT_STRING @ wire_len bs))
         else if pointer \<and> (l = PB_LTYPE_STRING \<or> l = PB_LTYPE_BYTES)
         then wire_items count (wire_tagged f (\<lambda>p. res_bind (load_ptr w p) item)) dsize p
         else wire_items count (wire_tagged f item) dsize p)"

text \<open>A field of a message with data at \<open>p\<close>: whether it is there is told by its companion member,
  by its pointer, or (proto3) by its value.\<close>

definition wire_present :: "nat \<Rightarrow> env \<Rightarrow> pb_field \<Rightarrow> world \<Rightarrow> addr \<Rightarrow> bool res" where
  "wire_present n E f w p =
     (if size_offset f \<noteq> 0 then safe_read_bool w (p + sint (size_offset f))
      else res_bind (pb_check_proto3_default_value n E f p w) (\<lambda>zero.
        if PB_ATYPE (ftype f) = PB_ATYPE_POINTER
        then res_bind (load_ptr w p) (\<lambda>q. Ret (q \<noteq> 0)) else Ret (\<not> zero)))"

definition wire_basic_field ::
  "nat \<Rightarrow> env \<Rightarrow> (addr \<Rightarrow> addr \<Rightarrow> u8 list res) \<Rightarrow> pb_field \<Rightarrow> world \<Rightarrow> addr \<Rightarrow> u8 list res" where
  "wire_basic_field n E rec f w p =
     (let h = PB_HTYPE (ftype f); item = wire_item rec f w; s = p + sint (size_offset f)
      in if PB_LTYPES_COUNT \<le> PB_LTYPE (ftype f) then Undef
         else res_bind (if PB_ATYPE (ftype f) = PB_ATYPE_POINTER then load_ptr w p else Ret p) (\<lambda>q.
         if h = PB_HTYPE_REQUIRED
         then (if q = 0 then Undef else wire_tagged f item q)
         else if h = PB_HTYPE_OPTIONAL
         then res_bind (wire_present n E f w p) (\<lambda>has. if has then wire_tagged f item q else Ret [])
         else if h = PB_HTYPE_REPEATED
         then res_bind (if size_offset f = 0 then Ret (array_size f) else load_u32 w s) (\<lambda>count.
           wire_array f item w q (unat count))
         else if size_offset f = 0 then Undef
         else res_bind (load_u32 w s) (\<lambda>which.
           if which = tag f then wire_tagged f item q else Ret [])))"

definition wire_field ::
  "nat \<Rightarrow> env \<Rightarrow> (addr \<Rightarrow> addr \<Rightarrow> u8 list res) \<Rightarrow> pb_field \<Rightarrow> world \<Rightarrow> addr \<Rightarrow> u8 list res" where
  "wire_field n E rec f w p =
     (if PB_LTYPE (ftype f) = PB_LTYPE_EXTENSION
      then res_bind (load_ptr w p) (\<lambda>e. if e = 0 then Ret [] else Undef)
      else if PB_ATYPE (ftype f) = PB_ATYPE_STATIC \<or> PB_ATYPE (ftype f) = PB_ATYPE_POINTER
      then wire_basic_field n E rec f w p
      else if PB_ATYPE (ftype f) = PB_ATYPE_CALLBACK
      then res_bind (load_ptr w (callback_funcs p)) (\<lambda>fn. if fn = 0 then Ret [] else Undef)
      else Undef)"

section \<open>Messages\<close>

primrec wire_fields ::
  "nat \<Rightarrow> env \<Rightarrow> (addr \<Rightarrow> addr \<Rightarrow> u8 list res) \<Rightarrow> world \<Rightarrow> pb_field_iter \<Rightarrow> u8 list res" where
  "wire_fields 0 E rec w iter = NoFuel"
| "wire_fields (Suc n) E rec w iter =
     res_bind (field_at E (it_pos iter)) (\<lambda>f.
     res_bind (wire_field n E rec f w (pData iter)) (\<lambda>bs.
     res_bind (pb_field_iter_next E iter) (\<lambda>(more, iter).
     if more then res_bind (wire_fields n E rec w iter) (\<lambda>bs'. Ret (bs @ bs')) else Ret bs)))"

primrec wire_message :: "nat \<Rightarrow> env \<Rightarrow> world \<Rightarrow> addr \<Rightarrow> addr \<Rightarrow> u8 list res" where
  "wire_message 0 E w flds src = NoFuel"
| "wire_message (Suc n) E w flds src =
     res_bind (pb_field_iter_begin E flds src) (\<lambda>(ok, iter).
     if \<not> ok then Ret [] else wire_fields n E (wire_message n E w) w iter)"

end
