(* ===== verification/PbEncodeSpec.thy ===== *)
theory PbEncodeSpec
  imports PbWire
begin

text \<open>
  The encoder refines the wire format. What an encoder may read is the memory outside a region \<open>R\<close>
  that holds the output buffer: \<open>hide R w\<close>. \<open>implements R v bs enc\<close> says what the operation \<open>enc\<close>
  does on any stream when the visible memory is \<open>v\<close>: a sizing stream counts the bytes \<open>bs\<close>, and a
  buffer stream inside \<open>R\<close> receives them if they fit and otherwise reports an error; nothing else
  changes. The lemmas follow the structure of the encoder, from \<open>pb_write\<close> to \<open>pb_encode\<close>.
\<close>

section \<open>The visible memory\<close>

definition hide :: "addr set \<Rightarrow> world \<Rightarrow> world" where
  "hide R w = w\<lparr>mem := \<lambda>a. if a \<in> R then None else mem w a\<rparr>"

lemma hide_same_outside: "same_outside R w w' \<Longrightarrow> hide R w' = hide R w"
  by (cases w, cases w') (auto simp: hide_def same_outside_def fun_eq_iff)

lemma mem_hide: "mem (hide R w) a = (if a \<in> R then None else mem w a)"
  by (simp add: hide_def)

text \<open>An operation that only reads memory gives the same result on the whole memory as on the
  visible part, if it is defined there.\<close>

definition sees :: "(world \<Rightarrow> 'a res) \<Rightarrow> bool" where
  "sees m \<longleftrightarrow> (\<forall>R w x. m (hide R w) = Ret x \<longrightarrow> m w = Ret x)"

named_theorems sees_intros "operations that only read memory"

lemma seesI: "(\<And>R w x. m (hide R w) = Ret x \<Longrightarrow> m w = Ret x) \<Longrightarrow> sees m"
  unfolding sees_def by blast

lemma seesD: "sees m \<Longrightarrow> m (hide R w) = Ret x \<Longrightarrow> m w = Ret x"
  unfolding sees_def by blast

lemma sees_const [sees_intros]: "sees (\<lambda>w. m)"
  by (simp add: sees_def)

lemma sees_bind [sees_intros]:
  assumes "sees m" and "\<And>x. sees (f x)"
  shows "sees (\<lambda>w. res_bind (m w) (\<lambda>x. f x w))"
proof (rule seesI)
  fix R w y assume "res_bind (m (hide R w)) (\<lambda>x. f x (hide R w)) = Ret y"
  then obtain x where "m (hide R w) = Ret x" and "f x (hide R w) = Ret y"
    by (rule res_bind_RetE)
  with assms have "m w = Ret x" and "f x w = Ret y" by (blast dest: seesD)+
  then show "res_bind (m w) (\<lambda>x. f x w) = Ret y" by simp
qed

lemma sees_if [sees_intros]: "sees f \<Longrightarrow> sees g \<Longrightarrow> sees (\<lambda>w. if b then f w else g w)"
  by (cases b) simp_all

lemma sees_load_byte [sees_intros]: "sees (\<lambda>w. load_byte w a)"
  by (rule seesI) (auto simp: load_byte_def mem_hide split: option.splits if_splits)

lemma sees_load_bytes [sees_intros]: "sees (\<lambda>w. load_bytes w a n)"
proof (induction n arbitrary: a)
  case (Suc n)
  then show ?case by (auto intro!: sees_intros)
qed (simp add: sees_const)

lemma sees_words [sees_intros]:
  "sees (\<lambda>w. load_u16 w a)" "sees (\<lambda>w. load_u32 w a)" "sees (\<lambda>w. load_u64 w a)"
  unfolding load_u16_def load_u32_def load_u64_def by (intro sees_intros)+

lemma sees_load_ptr [sees_intros]: "sees (\<lambda>w. load_ptr w a)"
  unfolding load_ptr_def by (intro sees_intros)

lemma sees_safe_read_bool [sees_intros]: "sees (\<lambda>w. safe_read_bool w a)"
  unfolding safe_read_bool_def by (intro sees_intros)

lemma sees_string_size [sees_intros]: "sees (\<lambda>w. string_size k w a)"
proof (induction k arbitrary: a)
  case 0
  then show ?case by (simp add: string_size.simps sees_const)
next
  case (Suc k)
  have "sees (\<lambda>w. res_bind (load_byte w a) (\<lambda>c.
      if c = 0 then Ret 0 else res_bind (string_size k w (a + 1)) (\<lambda>len. Ret (Suc len))))"
    by (intro sees_intros Suc)
  then show ?case by (simp add: string_size.simps [of "Suc k"] cong: if_cong)
qed

lemma sees_all_zero [sees_intros]: "sees (\<lambda>w. all_zero k w a)"
  by (induction k arbitrary: a) (auto intro!: sees_intros)

lemma sees_check_default:
  "(\<forall>f p. sees (pb_check_proto3_default_value n E f p)) \<and> (\<forall>iter. sees (check_default_loop n E iter))"
proof (induction n)
  case 0
  then show ?case by (simp add: sees_def)
next
  case (Suc n)
  have "sees (pb_check_proto3_default_value (Suc n) E f p)" for f p
    unfolding pb_check_proto3_default_value.simps Let_def
    using Suc.IH by (intro sees_intros) (auto intro!: sees_intros simp: split_beta)
  moreover have "sees (check_default_loop (Suc n) E iter)" for iter
    unfolding check_default_loop.simps
    using Suc.IH by (auto intro!: sees_intros simp: split_beta)
  ultimately show ?case by blast
qed

lemmas sees_check = sees_check_default [THEN conjunct1, rule_format, sees_intros]

lemma sees_wire_present [sees_intros]: "sees (\<lambda>w. wire_present n E f w p)"
  unfolding wire_present_def by (intro sees_intros)

section \<open>Writing bytes to a stream\<close>

text \<open>A stream the specification covers: a sizing stream, or a buffer stream whose remaining space is
  mapped and inside \<open>R\<close>.\<close>

definition out_ok :: "addr set \<Rightarrow> ostream \<Rightarrow> world \<Rightarrow> bool" where
  "out_ok R st w \<longleftrightarrow> ocallback st = No_callback \<or>
     (ocallback st = Buf_write \<and> unat (bytes_written st) \<le> unat (max_size st) \<and>
      mapped w (ostate st) (int (unat (max_size st)) - int (unat (bytes_written st))) \<and>
      {ostate st..<ostate st + (int (unat (max_size st)) - int (unat (bytes_written st)))} \<subseteq> R)"

text \<open>The result of writing \<open>bs\<close>.\<close>

definition wrote :: "addr set \<Rightarrow> ostream \<Rightarrow> world \<Rightarrow> u8 list \<Rightarrow> bool \<times> ostream \<times> world \<Rightarrow> bool" where
  "wrote R st w bs = (\<lambda>(ok, st', w').
     same_outside R w w' \<and>
     ok = (ocallback st = No_callback \<or> unat (bytes_written st) + length bs \<le> unat (max_size st)) \<and>
     (ok \<longrightarrow> ocallback st' = ocallback st \<and> max_size st' = max_size st \<and>
        unat (bytes_written st') = unat (bytes_written st) + length bs \<and>
        (if ocallback st = No_callback then w' = w
         else ostate st' = ostate st + int (length bs) \<and>
              mem w' = upd_bytes (mem w) (ostate st) bs)))"

definition implements ::
  "addr set \<Rightarrow> world \<Rightarrow> u8 list \<Rightarrow> (ostream \<Rightarrow> world \<Rightarrow> (bool \<times> ostream \<times> world) res) \<Rightarrow> bool" where
  "implements R v bs enc \<longleftrightarrow>
     (\<forall>st w. hide R w = v \<and> out_ok R st w \<and> unat (bytes_written st) + length bs < 2 ^ 64 \<longrightarrow>
        wp (enc st w) (wrote R st w bs))"

lemma implementsI:
  "(\<And>st w. hide R w = v \<Longrightarrow> out_ok R st w \<Longrightarrow> unat (bytes_written st) + length bs < 2 ^ 64 \<Longrightarrow>
      wp (enc st w) (wrote R st w bs)) \<Longrightarrow> implements R v bs enc"
  unfolding implements_def by blast

lemma implementsD:
  "implements R v bs enc \<Longrightarrow> hide R w = v \<Longrightarrow> out_ok R st w \<Longrightarrow>
   unat (bytes_written st) + length bs < 2 ^ 64 \<Longrightarrow> wp (enc st w) (wrote R st w bs)"
  unfolding implements_def by blast

lemma upd_bytes_append: "upd_bytes (upd_bytes m a bs) (a + int (length bs)) bs' = upd_bytes m a (bs @ bs')"
proof (induction bs arbitrary: m a)
  case (Cons b bs)
  have a: "a + int (length (b # bs)) = (a + 1) + int (length bs)" by simp
  show ?case unfolding a append_Cons upd_bytes_Cons by (rule Cons)
qed simp

lemma wrote_fail: "wrote R st w bs (False, st', w') \<Longrightarrow> wrote R st w (bs @ bs') (False, st'', w')"
  by (auto simp: wrote_def)

lemma wrote_trans:
  "wrote R st w bs (True, st', w') \<Longrightarrow> wrote R st' w' bs' (ok, st'', w'') \<Longrightarrow>
   wrote R st w (bs @ bs') (ok, st'', w'')"
  by (auto simp: wrote_def upd_bytes_append intro: same_outside_trans split: if_splits)

lemma wrote_next:
  assumes "wrote R st w bs (True, st', w')" and "out_ok R st w"
  shows "out_ok R st' w'" and "hide R w' = hide R w"
    and "unat (bytes_written st') = unat (bytes_written st) + length bs"
proof -
  from assms(1) have s: "same_outside R w w'" by (simp add: wrote_def)
  then show "hide R w' = hide R w" by (rule hide_same_outside)
  from assms(1) show "unat (bytes_written st') = unat (bytes_written st) + length bs"
    by (simp add: wrote_def)
  show "out_ok R st' w'"
  proof (cases "ocallback st = No_callback")
    case True
    then show ?thesis using assms(1) by (simp add: wrote_def out_ok_def)
  next
    case False
    let ?k = "int (unat (max_size st)) - int (unat (bytes_written st))"
    from False assms have m: "mapped w (ostate st) ?k" "{ostate st..<ostate st + ?k} \<subseteq> R"
      and st': "ocallback st' = Buf_write" "max_size st' = max_size st"
        "ostate st' = ostate st + int (length bs)"
        "unat (bytes_written st') = unat (bytes_written st) + length bs"
      and fits: "unat (bytes_written st) + length bs \<le> unat (max_size st)"
      by (auto simp: wrote_def out_ok_def)
    from m(1) have "mapped w (ostate st') (?k - int (length bs))"
      by (rule mapped_sub) (simp_all add: st')
    moreover have "{ostate st'..<ostate st' + (?k - int (length bs))} \<subseteq> {ostate st..<ostate st + ?k}"
      by (auto simp: st')
    ultimately show ?thesis
      using s m(2) fits by (auto simp: out_ok_def st' same_outside_mapped algebra_simps)
  qed
qed

text \<open>The rules of the composition.\<close>

lemma implements_Nil: "implements R v [] (\<lambda>st w. Ret (True, st, w))"
  by (rule implementsI) (auto simp: wrote_def out_ok_def)

lemma implements_seq:
  assumes "implements R v bs enc" and "implements R v bs' enc'"
  shows "implements R v (bs @ bs') (\<lambda>st w. res_bind (enc st w) (\<lambda>(ok, st, w).
           if \<not> ok then Ret (False, st, w) else enc' st w))"
proof (rule implementsI)
  fix st w
  assume v: "hide R w = v" and o: "out_ok R st w"
    and b: "unat (bytes_written st) + length (bs @ bs') < 2 ^ 64"
  have next_step: "wp (enc' st' w') (wrote R st w (bs @ bs'))" if "wrote R st w bs (True, st', w')" for st' w'
  proof (rule wp_mono)
    show "wp (enc' st' w') (wrote R st' w' bs')"
      using wrote_next [OF that o] v b by (intro implementsD [OF assms(2)]) simp_all
    show "wrote R st w (bs @ bs') r" if "wrote R st' w' bs' r" for r
      using wrote_trans [OF \<open>wrote R st w bs (True, st', w')\<close>] that by (cases r) auto
  qed
  have "wp (enc st w) (wrote R st w bs)"
    using v o b by (intro implementsD [OF assms(1)]) simp_all
  then show "wp (res_bind (enc st w) (\<lambda>(ok, st, w). if \<not> ok then Ret (False, st, w) else enc' st w))
      (wrote R st w (bs @ bs'))"
    unfolding wp_bind
  proof (rule wp_mono)
    fix r assume "wrote R st w bs r"
    then show "wp (case r of (ok, st, w) \<Rightarrow> if \<not> ok then Ret (False, st, w) else enc' st w)
        (wrote R st w (bs @ bs'))"
      by (cases r) (auto elim: wrote_fail next_step)
  qed
qed

lemma implements_read:
  assumes "sees m" and "m v = Ret x" and "implements R v bs (enc x)"
  shows "implements R v bs (\<lambda>st w. res_bind (m w) (\<lambda>x. enc x st w))"
proof (rule implementsI)
  fix st w
  assume h: "hide R w = v" "out_ok R st w" "unat (bytes_written st) + length bs < 2 ^ 64"
  then have "m w = Ret x" using assms(1,2) by (auto dest: seesD)
  with implementsD [OF assms(3) h] show "wp (res_bind (m w) (\<lambda>x. enc x st w)) (wrote R st w bs)"
    by simp
qed

section \<open>The primitive operations\<close>

text \<open>\<open>pb_write\<close>, when the source is a local array, or memory outside the region, or (on a sizing
  stream) not looked at.\<close>

lemma pb_write_sizing:
  assumes "ocallback st = No_callback" and "unat (bytes_written st) + length bs < 2 ^ 64"
  shows "wp (pb_write E st buf (of_nat (length bs)) w) (wrote R st w bs)"
  using assms by (simp add: pb_write_def wrote_def unat_add_fits)

lemma pb_write_empty:
  assumes "out_ok R st w"
  shows "wp (pb_write E st buf 0 w) (wrote R st w [])"
  using assms by (auto simp: pb_write_def wrote_def out_ok_def)

lemma pb_write_buffer:
  assumes o: "out_ok R st w" and cb: "ocallback st = Buf_write"
    and b: "unat (bytes_written st) + length bs < 2 ^ 64"
    and copy: "mapped w (ostate st) (int (length bs)) \<Longrightarrow> {ostate st..<ostate st + int (length bs)} \<subseteq> R \<Longrightarrow>
      buf_write st buf (of_nat (length bs)) w =
        Ret (True, st\<lparr>ostate := ostate st + int (length bs)\<rparr>,
             w\<lparr>mem := upd_bytes (mem w) (ostate st) bs\<rparr>)"
  shows "wp (pb_write E st buf (of_nat (length bs)) w) (wrote R st w bs)"
proof (cases "bs = []")
  case True
  then show ?thesis using pb_write_empty [OF o] by simp
next
  case False
  let ?n = "of_nat (length bs) :: u64"
  have n: "unat ?n = length bs" using b by (intro unat_of_nat_u64) simp
  have nz: "0 < ?n" using False n by (metis length_greater_0_conv unat_0 word_gt_0 less_irrefl)
  have sum: "unat (bytes_written st + ?n) = unat (bytes_written st) + length bs"
    using b by (rule unat_add_fits)
  show ?thesis
  proof (cases "unat (bytes_written st) + length bs \<le> unat (max_size st)")
    case fits: True
    then have ok: "\<not> max_size st < bytes_written st + ?n" by (simp add: word_less_nat_alt sum)
    let ?k = "int (unat (max_size st)) - int (unat (bytes_written st))"
    have k: "int (length bs) \<le> ?k" using fits by linarith
    have m: "mapped w (ostate st) ?k" and r: "{ostate st..<ostate st + ?k} \<subseteq> R"
      using o cb by (simp_all add: out_ok_def)
    have m': "mapped w (ostate st) (int (length bs))" using k by (intro mapped_sub [OF m]) auto
    have r': "{ostate st..<ostate st + int (length bs)} \<subseteq> R" by (rule order_trans [OF _ r]) (use k in auto)
    have "same_outside R w (w\<lparr>mem := upd_bytes (mem w) (ostate st) bs\<rparr>)"
      using m' r' by (rule same_outside_upd_bytes)
    with ok nz cb fits show ?thesis
      by (simp add: pb_write_def ostream_call_def copy [OF m' r'] wrote_def sum)
  next
    case full: False
    then have "max_size st < bytes_written st + ?n" by (simp add: word_less_nat_alt sum)
    with nz cb full show ?thesis by (simp add: pb_write_def wrote_def)
  qed
qed

lemma implements_local: "implements R v bs (\<lambda>st w. pb_write E st (WLocal bs) (of_nat (length bs)) w)"
proof (rule implementsI)
  fix st w
  assume o: "out_ok R st w" and b: "unat (bytes_written st) + length bs < 2 ^ 64"
  have n: "unat (of_nat (length bs) :: u64) = length bs" using b by (intro unat_of_nat_u64) simp
  then have ui: "uint (of_nat (length bs) :: u64) = int (length bs)" by (metis uint_nat_unat)
  show "wp (pb_write E st (WLocal bs) (of_nat (length bs)) w) (wrote R st w bs)"
  proof (cases "ocallback st = No_callback")
    case True
    then show ?thesis using b by (rule pb_write_sizing)
  next
    case False
    then have "ocallback st = Buf_write" using o by (auto simp: out_ok_def)
    then show ?thesis
      by (rule pb_write_buffer [OF o _ b]) (simp add: buf_write_def Let_def n ui store_bytes_mapped)
  qed
qed

lemma visible_disjoint:
  assumes "load_bytes (hide R w) a n = Ret bs"
  shows "{a..<a + int n} \<inter> R = {} \<and> mapped w a (int n) \<and> bytes_at w a n = bs"
  using assms
proof (induction n arbitrary: a bs)
  case 0
  then show ?case by simp
next
  case (Suc n)
  from Suc.prems obtain b bs' where b: "load_byte (hide R w) a = Ret b" and bs: "bs = b # bs'"
    and l: "load_bytes (hide R w) (a + 1) n = Ret bs'"
    by (auto simp: res_bind_Ret_iff)
  from b have a: "a \<notin> R" "mem w a = Some b"
    by (auto simp: load_byte_def mem_hide split: if_splits option.splits)
  have "{a..<a + int (Suc n)} = insert a {a + 1..<a + 1 + int n}" by auto
  with Suc.IH [OF l] a bs show ?case by (simp add: bytes_at_Suc mapped_Suc)
qed

lemma implements_mem:
  assumes "load_bytes v p (length bs) = Ret bs"
  shows "implements R v bs (\<lambda>st w. pb_write E st (WMem p) (of_nat (length bs)) w)"
proof (rule implementsI)
  fix st w
  assume v: "hide R w = v" and o: "out_ok R st w" and b: "unat (bytes_written st) + length bs < 2 ^ 64"
  have n: "unat (of_nat (length bs) :: u64) = length bs" using b by (intro unat_of_nat_u64) simp
  then have ui: "uint (of_nat (length bs) :: u64) = int (length bs)" by (metis uint_nat_unat)
  from assms v have p: "{p..<p + int (length bs)} \<inter> R = {}" "mapped w p (int (length bs))"
    "bytes_at w p (length bs) = bs"
    using visible_disjoint by blast+
  show "wp (pb_write E st (WMem p) (of_nat (length bs)) w) (wrote R st w bs)"
  proof (cases "ocallback st = No_callback")
    case True
    then show ?thesis using b by (rule pb_write_sizing)
  next
    case False
    then have "ocallback st = Buf_write" using o by (auto simp: out_ok_def)
    then show ?thesis
    proof (rule pb_write_buffer [OF o _ b])
      assume m: "mapped w (ostate st) (int (length bs))" and r: "{ostate st..<ostate st + int (length bs)} \<subseteq> R"
      have "{ostate st..<ostate st + int (length bs)} \<inter> {p..<p + int (length bs)} = {}"
        using r p(1) by blast
      from copy_bytes_disjoint [OF p(2) m this]
      show "buf_write st (WMem p) (of_nat (length bs)) w =
          Ret (True, st\<lparr>ostate := ostate st + int (length bs)\<rparr>, w\<lparr>mem := upd_bytes (mem w) (ostate st) bs\<rparr>)"
        by (simp add: buf_write_def Let_def n ui p(3))
    qed
  qed
qed

section \<open>Values\<close>

lemma implements_varint: "implements R v (varint_enc (unat i)) (\<lambda>st w. pb_encode_varint E st i w)"
  unfolding pb_encode_varint_enc by (rule implements_local)

text \<open>A length prefix.\<close>

lemma implements_length:
  assumes "n < 2 ^ 64"
  shows "implements R v (varint_enc n) (\<lambda>st w. pb_encode_varint E st (of_nat n) w)"
  using implements_varint [of R v "of_nat n"] assms by (simp add: unat_of_nat_u64)

lemma implements_big:
  assumes "length bs < 2 ^ 64 \<Longrightarrow> implements R v bs enc"
  shows "implements R v bs enc"
proof (rule implementsI)
  fix st w
  assume h: "hide R w = v" "out_ok R st w" "unat (bytes_written st) + length bs < 2 ^ 64"
  then have "length bs < 2 ^ 64" by linarith
  with assms implementsD [OF _ h] show "wp (enc st w) (wrote R st w bs)" by blast
qed

lemma unat_tag:
  assumes "unat wt < 8"
  shows "unat (push_bit 3 (ucast t) OR ucast wt :: u64) = 8 * unat (t :: u32) + unat (wt :: u32)"
proof -
  have disj: "\<not> bit (push_bit 3 (ucast t :: u64)) n \<or> \<not> bit (ucast wt :: u64) n" for n
  proof -
    have "take_bit 3 (unat wt) = unat wt" using assms by (simp add: take_bit_eq_mod)
    then have "bit (unat wt) n \<Longrightarrow> n < 3" by (metis bit_take_bit_iff)
    then have "bit wt n \<Longrightarrow> n < 3" by (simp add: bit_unsigned_iff)
    then show ?thesis by (auto simp: bit_simps)
  qed
  have "push_bit 3 (ucast t :: u64) = ucast t * 8" by (simp add: push_bit_eq_mult)
  then have "push_bit 3 (ucast t) OR ucast wt = (ucast t * 8 + ucast wt :: u64)"
    using disjunctive_add [of "push_bit 3 (ucast t :: u64)" "ucast wt"] disj by auto
  also have "\<dots> = of_nat (8 * unat t + unat wt)"
    by (simp add: mult.commute)
  also have "unat (\<dots> :: u64) = 8 * unat t + unat wt"
    using unat_u32_less [of t] assms by (intro unat_of_nat_u64) simp
  finally show ?thesis .
qed

lemma implements_tag:
  assumes "unat wt < 8"
  shows "implements R v (wire_tag t wt) (\<lambda>st w. pb_encode_tag E st wt t w)"
  unfolding pb_encode_tag_def wire_tag_def unat_tag [OF assms, symmetric] by (rule implements_varint)

lemma implements_tag_for_field:
  assumes "wire_type_of (PB_LTYPE (ftype f)) = Some wt"
  shows "implements R v (wire_tag (tag f) wt) (\<lambda>st w. pb_encode_tag_for_field E st f w)"
proof -
  have "unat wt < 8" using assms by (auto simp: wire_type_of_def pb_consts split: if_splits)
  then show ?thesis using assms by (simp add: pb_encode_tag_for_field_def implements_tag)
qed

lemma implements_string:
  assumes "implements R v bs (\<lambda>st w. pb_write E st buf (of_nat (length bs)) w)"
  shows "implements R v (wire_len bs) (\<lambda>st w. pb_encode_string E st buf (of_nat (length bs)) w)"
proof (rule implements_big)
  assume "length (wire_len bs) < 2 ^ 64"
  then have "length bs < 2 ^ 64" by (simp add: wire_len_def)
  then show ?thesis
    unfolding pb_encode_string_def wire_len_def by (intro implements_seq implements_length assms)
qed

section \<open>Numbers\<close>

lemma unat_scast_u64: "unat (scast v :: u64) = nat (sint v mod 2 ^ 64)"
proof -
  have "uint (scast v :: u64) = sint v mod 2 ^ 64"
    by (simp only: scast_eq uint_word_of_int) simp
  then show ?thesis by (simp only: unat_eq_nat_uint)
qed

lemma sint_scast_u64:
  assumes "LENGTH('a::len) \<le> 64"
  shows "sint (scast (v :: 'a word) :: u64) = sint v"
proof -
  have "(2 :: int) ^ (LENGTH('a) - 1) \<le> 2 ^ 63" using assms by (intro power_increasing) auto
  then have "- (2 ^ 63) \<le> sint v" "sint v < 2 ^ 63"
    using sint_ge [of v] sint_lt [of v] by linarith+
  then have "signed_take_bit 63 (sint v) = sint v" by (intro signed_take_bit_int_eq_self)
  then show ?thesis by (simp add: signed_scast_eq)
qed

lemma uint_push_bit_1: "uint (push_bit 1 i :: u64) = (2 * sint i) mod 2 ^ 64"
proof -
  have "push_bit 1 i = (word_of_int (2 * sint i) :: u64)"
    by (simp add: push_bit_eq_mult mult.commute)
  then show ?thesis by (simp only: uint_word_of_int) simp
qed

lemma unat_zigzag: "unat (zigzag i) = zig_zag_nat (sint i)"
proof -
  have b: "- (2 ^ 63) \<le> sint i" "sint i < 2 ^ 63" using sint_ge [of i] sint_lt [of i] by simp_all
  have "uint (zigzag i) = (if sint i < 0 then - 2 * sint i - 1 else 2 * sint i)"
  proof (cases "sint i < 0")
    case True
    have "(2 * sint i) mod 2 ^ 64 = (2 * sint i + 2 ^ 64) mod 2 ^ 64" by simp
    also have "\<dots> = 2 * sint i + 2 ^ 64" using b True by (intro mod_pos_pos_trivial) auto
    finally have "uint (push_bit 1 i) = 2 * sint i + 2 ^ 64" by (simp only: uint_push_bit_1)
    moreover have "NOT (push_bit 1 i) = - 1 - push_bit 1 i" by (simp only: not_eq_complement minus_diff_commute)
    moreover have "uint (- 1 - x) = 2 ^ 64 - 1 - uint x" for x :: u64
    proof -
      have "uint (- 1 :: u64) = 2 ^ 64 - 1"
        by (simp add: unsigned_minus_1_eq_mask mask_eq_exp_minus_1)
      then show ?thesis using uint_bounded [of x] by (simp add: uint_sub_if')
    qed
    ultimately have "uint (NOT (push_bit 1 i)) = - 2 * sint i - 1" by simp
    with True show ?thesis by (simp only: zigzag_def if_True)
  next
    case False
    then have "(2 * sint i) mod 2 ^ 64 = 2 * sint i" using b by (intro mod_pos_pos_trivial) auto
    with False show ?thesis by (simp only: zigzag_def uint_push_bit_1 if_False)
  qed
  then show ?thesis by (simp only: unat_eq_nat_uint zig_zag_nat_def)
qed

lemma fixed32_bytes_le: "fixed32_bytes x = le_bytes 4 x"
  by (simp add: fixed32_bytes_def ucast_low_byte eval_nat_numeral)

lemma fixed64_bytes_le: "fixed64_bytes x = le_bytes 8 x"
  by (simp add: fixed64_bytes_def ucast_low_byte eval_nat_numeral)

text \<open>The encoders of numbers.\<close>

lemma implements_signed:
  assumes "load_signed d v p = Ret i"
  shows "implements R v (wire_varint i)
     (\<lambda>st w. if d = 1 then res_bind (load_byte w p) (\<lambda>v. pb_encode_varint E st (scast v) w)
             else if d = 2 then res_bind (load_u16 w p) (\<lambda>v. pb_encode_varint E st (scast v) w)
             else if d = 4 then res_bind (load_u32 w p) (\<lambda>v. pb_encode_varint E st (scast v) w)
             else if d = 8 then res_bind (load_u64 w p) (\<lambda>v. pb_encode_varint E st v w)
             else Ret (False, oerror st m, w))"
proof -
  have wide: "implements R v (wire_varint (sint x)) (\<lambda>st w. pb_encode_varint E st (scast x) w)"
    for x :: "'a::len word"
    unfolding wire_varint_def unat_scast_u64 [symmetric] by (rule implements_varint)
  have full: "implements R v (wire_varint (sint x)) (\<lambda>st w. pb_encode_varint E st x w)" for x :: u64
    using wide [of x] by simp
  show ?thesis
    using assms
    by (auto simp: load_signed_def res_bind_Ret_iff split: if_splits
        intro!: implements_read sees_intros wide full)
qed

lemma implements_unsigned:
  assumes "load_unsigned d v p = Ret i"
  shows "implements R v (varint_enc i)
     (\<lambda>st w. if d = 1 then res_bind (load_byte w p) (\<lambda>v. pb_encode_varint E st (ucast v) w)
             else if d = 2 then res_bind (load_u16 w p) (\<lambda>v. pb_encode_varint E st (ucast v) w)
             else if d = 4 then res_bind (load_u32 w p) (\<lambda>v. pb_encode_varint E st (ucast v) w)
             else if d = 8 then res_bind (load_u64 w p) (\<lambda>v. pb_encode_varint E st v w)
             else Ret (False, oerror st m, w))"
proof -
  have wide: "implements R v (varint_enc (unat x)) (\<lambda>st w. pb_encode_varint E st (ucast x) w)"
    if "LENGTH('a) \<le> 64" for x :: "'a::len word"
  proof -
    have "unat x < 2 ^ LENGTH('a)" by (rule unsigned_less)
    also have "(2 :: nat) ^ LENGTH('a) \<le> 2 ^ 64" using that by (intro power_increasing) auto
    finally have "unat (ucast x :: u64) = unat x"
      by (simp add: unsigned_ucast_eq take_bit_nat_eq_self)
    then show ?thesis using implements_varint [of R v "ucast x"] by simp
  qed
  show ?thesis
    using assms
    by (auto simp: load_unsigned_def res_bind_Ret_iff split: if_splits
        intro!: implements_read sees_intros wide implements_varint)
qed

lemma implements_zigzag:
  assumes "load_signed d v p = Ret i"
  shows "implements R v (varint_enc (zig_zag_nat i))
     (\<lambda>st w. if d = 1 then res_bind (load_byte w p) (\<lambda>v. pb_encode_svarint E st (scast v) w)
             else if d = 2 then res_bind (load_u16 w p) (\<lambda>v. pb_encode_svarint E st (scast v) w)
             else if d = 4 then res_bind (load_u32 w p) (\<lambda>v. pb_encode_svarint E st (scast v) w)
             else if d = 8 then res_bind (load_u64 w p) (\<lambda>v. pb_encode_svarint E st v w)
             else Ret (False, oerror st m, w))"
proof -
  have full: "implements R v (varint_enc (zig_zag_nat (sint x))) (\<lambda>st w. pb_encode_svarint E st x w)"
    for x :: u64
    unfolding pb_encode_svarint_def unat_zigzag [symmetric] by (rule implements_varint)
  have wide: "implements R v (varint_enc (zig_zag_nat (sint x))) (\<lambda>st w. pb_encode_svarint E st (scast x) w)"
    if "LENGTH('a) \<le> 64" for x :: "'a::len word"
    using full [of "scast x"] sint_scast_u64 [OF that, of x] by simp
  show ?thesis
    using assms
    by (auto simp: load_signed_def res_bind_Ret_iff split: if_splits
        intro!: implements_read sees_intros wide full)
qed

lemma implements_bool:
  assumes "load_byte v p = Ret b"
  shows "implements R v [if b \<noteq> 0 then 1 else 0] (\<lambda>st w. pb_enc_bool E st p w)"
proof -
  have "implements R v [if c then 1 else 0] (\<lambda>st w. pb_encode_varint E st (if c then 1 else 0) w)" for c
    using implements_varint [of R v 1 E] implements_varint [of R v 0 E]
    by (cases c) (simp_all add: varint_enc_small)
  then show ?thesis
    unfolding pb_enc_bool_def
    by (rule implements_read [rotated 2]) (auto intro: sees_intros simp: safe_read_bool_def assms)
qed

lemma implements_fixed32:
  assumes "load_bytes v p 4 = Ret bs"
  shows "implements R v bs (\<lambda>st w. pb_enc_fixed32 E st p w)"
proof -
  have len: "length bs = 4" using assms by (rule load_bytes_length)
  then have le: "fixed32_bytes (le_word bs) = bs"
    using le_bytes_le_word [of bs, where ?'a = 32] by (simp add: fixed32_bytes_le)
  have "implements R v bs (\<lambda>st w. pb_write E st (WLocal (fixed32_bytes (le_word bs))) 4 w)"
    using implements_local [of R v bs E] len by (simp add: le)
  then show ?thesis
    unfolding pb_enc_fixed32_def pb_encode_fixed32_def
    by (rule implements_read [rotated 2]) (auto intro: sees_intros simp: load_u32_def assms)
qed

lemma implements_fixed64:
  assumes "load_bytes v p 8 = Ret bs"
  shows "implements R v bs (\<lambda>st w. pb_enc_fixed64 E st p w)"
proof -
  have len: "length bs = 8" using assms by (rule load_bytes_length)
  then have le: "fixed64_bytes (le_word bs) = bs"
    using le_bytes_le_word [of bs, where ?'a = 64] by (simp add: fixed64_bytes_le)
  have "implements R v bs (\<lambda>st w. pb_write E st (WLocal (fixed64_bytes (le_word bs))) 8 w)"
    using implements_local [of R v bs E] len by (simp add: le)
  then show ?thesis
    unfolding pb_enc_fixed64_def pb_encode_fixed64_def
    by (rule implements_read [rotated 2]) (auto intro: sees_intros simp: load_u64_def assms)
qed

text \<open>The encoders of bytes and strings.\<close>

lemma implements_string_mem:
  assumes "load_bytes v p n = Ret bs"
  shows "implements R v (wire_len bs) (\<lambda>st w. pb_encode_string E st (WMem p) (of_nat n) w)"
proof -
  have n: "n = length bs" using load_bytes_length [OF assms] by simp
  show ?thesis unfolding n by (intro implements_string implements_mem) (use assms n in simp)
qed

lemma implements_string_empty:
  "implements R v (wire_len []) (\<lambda>st w. pb_encode_string E st buf 0 w)"
proof -
  have "implements R v [] (\<lambda>st w. pb_write E st buf 0 w)"
    by (rule implementsI) (rule pb_write_empty)
  then show ?thesis using implements_string [of R v "[]" E buf] by simp
qed

lemma implements_bytes:
  assumes "wire_bytes f v p = Ret bs"
  shows "implements R v bs (\<lambda>st w. pb_enc_bytes E f st p w)"
proof (cases "p = 0")
  case True
  then show ?thesis using assms implements_string_empty by (simp add: wire_bytes_def pb_enc_bytes_def)
next
  case False
  then obtain sz bs' where sz: "load_u32 v p = Ret sz"
    and ok: "\<not> (PB_ATYPE (ftype f) = PB_ATYPE_STATIC \<and> uint (data_size f) < uint sz + offsetof_bytes)"
    and bs': "load_bytes v (p + offsetof_bytes) (unat sz) = Ret bs'" and bs: "bs = wire_len bs'"
    using assms by (auto simp: wire_bytes_def res_bind_Ret_iff split: if_splits)
  have "unat (PB_BYTES_ARRAY_T_ALLOCSIZE (ucast sz)) = unat sz + 4"
    using unat_add_fits [of "ucast sz" 4] unat_u32_less [of sz]
    by (simp add: PB_BYTES_ARRAY_T_ALLOCSIZE_def offsetof_bytes_def)
  then have "(ucast (data_size f) < PB_BYTES_ARRAY_T_ALLOCSIZE (ucast sz)) =
      (uint (data_size f) < uint sz + offsetof_bytes)"
    unfolding word_less_nat_alt uint_nat_unat offsetof_bytes_def unat_ucast_u32_u64 by linarith
  with ok have fits: "(PB_ATYPE (ftype f) = PB_ATYPE_STATIC \<and>
      ucast (data_size f) < PB_BYTES_ARRAY_T_ALLOCSIZE (ucast sz)) = False"
    by blast
  have "implements R v bs (\<lambda>st w.
      if PB_ATYPE (ftype f) = PB_ATYPE_STATIC \<and> ucast (data_size f) < PB_BYTES_ARRAY_T_ALLOCSIZE (ucast sz)
      then Ret (False, oerror st ''bytes size exceeded'', w)
      else pb_encode_string E st (WMem (p + offsetof_bytes)) (ucast sz) w)"
    unfolding fits if_False using implements_string_mem [OF bs', of R E] by (simp add: bs)
  then have "implements R v bs (\<lambda>st w. res_bind (load_u32 w p) (\<lambda>sz.
      if PB_ATYPE (ftype f) = PB_ATYPE_STATIC \<and> ucast (data_size f) < PB_BYTES_ARRAY_T_ALLOCSIZE (ucast sz)
      then Ret (False, oerror st ''bytes size exceeded'', w)
      else pb_encode_string E st (WMem (p + offsetof_bytes)) (ucast sz) w))"
    by (rule implements_read [OF sees_words(2) sz])
  with False show ?thesis by (simp add: pb_enc_bytes_def)
qed

lemma implements_text:
  assumes "wire_string f v p = Ret bs"
  shows "implements R v bs (\<lambda>st w. pb_enc_string E f st p w)"
proof (cases "p = 0")
  case True
  then show ?thesis using assms implements_string_empty by (simp add: wire_string_def pb_enc_string_def)
next
  case False
  let ?max = "if PB_ATYPE (ftype f) = PB_ATYPE_POINTER then - 1 else ucast (data_size f) :: u64"
  have max: "unat ?max = (if PB_ATYPE (ftype f) = PB_ATYPE_POINTER then 2 ^ 64 - 1 else unat (data_size f))"
    by (simp add: unsigned_minus_1_eq_mask mask_eq_exp_minus_1)
  obtain n bs' where n: "string_size (unat ?max) v p = Ret n"
    and bs': "load_bytes v p n = Ret bs'" and bs: "bs = wire_len bs'"
    using assms False unfolding max by (auto simp: wire_string_def res_bind_Ret_iff)
  have "implements R v bs (\<lambda>st w. res_bind (string_size (unat ?max) w p) (\<lambda>len.
      pb_encode_string E st (WMem p) (of_nat len) w))"
    using implements_string_mem [OF bs', of R E]
    by (intro implements_read [OF sees_string_size n]) (simp add: bs)
  with False show ?thesis by (simp add: pb_enc_string_def Let_def)
qed

lemma implements_fixed_length_bytes:
  assumes "load_bytes v p (unat (data_size f)) = Ret bs"
  shows "implements R v (wire_len bs) (\<lambda>st w. pb_enc_fixed_length_bytes E f st p w)"
  using implements_string_mem [OF assms, of R E] by (simp add: pb_enc_fixed_length_bytes_def)

end
