(* ===== verification/PbEncodeRefine.thy ===== *)
theory PbEncodeRefine
  imports PbEncodeSpec
begin

text \<open>
  The message encoder refines the wire format: the submessage, the items of an array, a field, and
  the message, each given the same for what it calls. The locale \<open>message_encoder\<close> is the interface
  between the field encoders and \<open>pb_encode\<close>: the encoder \<open>rec\<close> of the submessages implements the
  bytes \<open>wrec\<close> of a message.
\<close>

section \<open>Items\<close>

lemma items_implements:
  assumes "\<And>p bs. item p = Ret bs \<Longrightarrow> implements R v bs (\<lambda>st w. func st p w)"
  shows "wire_items m item d p = Ret bs \<Longrightarrow> implements R v bs (\<lambda>st w. encode_items m func d st p w)"
proof (induction m arbitrary: p bs)
  case 0
  then show ?case by (simp add: implements_Nil)
next
  case (Suc m)
  then obtain b bs' where "item p = Ret b" and "wire_items m item d (p + d) = Ret bs'" and "bs = b @ bs'"
    by (auto simp: res_bind_Ret_iff)
  then show ?case
    unfolding encode_items.simps using assms Suc.IH by (auto intro!: implements_seq)
qed

lemma tagged_implements:
  assumes "wire_tagged f item p = Ret bs"
    and "\<And>bs. item p = Ret bs \<Longrightarrow> implements R v bs (\<lambda>st w. func st p w)"
  shows "implements R v bs (\<lambda>st w. res_bind (pb_encode_tag_for_field E st f w) (\<lambda>(ok, st, w).
           if \<not> ok then Ret (False, st, w) else func st p w))"
proof -
  from assms(1) obtain wt b where "wire_type_of (PB_LTYPE (ftype f)) = Some wt" and "item p = Ret b"
    and "bs = wire_tag (tag f) wt @ b"
    by (auto simp: wire_tagged_def res_bind_Ret_iff split: option.splits)
  with assms(2) show ?thesis by (auto intro!: implements_seq implements_tag_for_field)
qed

text \<open>A size that is computed without changing anything.\<close>

lemma implements_size:
  assumes "\<And>w. hide R w = v \<Longrightarrow> m w = Ret (True, x, w)" and "implements R v bs (enc x)"
  shows "implements R v bs (\<lambda>st w. res_bind (m w) (\<lambda>(ok, x, w).
           if \<not> ok then Ret (False, st, w) else enc x st w))"
  using implementsD [OF assms(2)] assms(1) by (intro implementsI) simp

text \<open>What follows a length prefix: nothing but counting on a sizing stream.\<close>

lemma implements_counted:
  assumes "\<And>st w. hide R w = v \<Longrightarrow> out_ok R st w \<Longrightarrow> ocallback st = Buf_write \<Longrightarrow>
      unat (bytes_written st) + length bs < 2 ^ 64 \<Longrightarrow> wp (enc st w) (wrote R st w bs)"
  shows "implements R v bs (\<lambda>st w. if ocallback st = No_callback
           then pb_write E st WNull (of_nat (length bs)) w else enc st w)"
proof (rule implementsI)
  fix st w
  assume h: "hide R w = v" "out_ok R st w" "unat (bytes_written st) + length bs < 2 ^ 64"
  show "wp (if ocallback st = No_callback then pb_write E st WNull (of_nat (length bs)) w else enc st w)
      (wrote R st w bs)"
  proof (cases "ocallback st = No_callback")
    case True
    with pb_write_sizing [OF this h(3)] show ?thesis by simp
  next
    case False
    moreover from False h(2) have "ocallback st = Buf_write" by (auto simp: out_ok_def)
    ultimately show ?thesis using assms h by simp
  qed
qed

lemma u64_of_unat: "unat (x :: u64) = n \<Longrightarrow> x = of_nat n"
  by auto

lemma sizing_run:
  assumes "implements R v bs enc" and "hide R w = v" and "length bs < 2 ^ 64"
  obtains st where "enc PB_OSTREAM_SIZING w = Ret (True, st, w)" and "bytes_written st = of_nat (length bs)"
proof -
  have "wp (enc PB_OSTREAM_SIZING w) (wrote R PB_OSTREAM_SIZING w bs)"
    using assms by (intro implementsD) (simp_all add: out_ok_def PB_OSTREAM_SIZING_def)
  then obtain ok st w' where "enc PB_OSTREAM_SIZING w = Ret (ok, st, w')"
    and "wrote R PB_OSTREAM_SIZING w bs (ok, st, w')"
    by (auto simp: wp_Ret_iff)
  moreover from this(2) have "ok" "w' = w" "unat (bytes_written st) = length bs"
    by (auto simp: wrote_def PB_OSTREAM_SIZING_def)
  moreover from this(3) have "bytes_written st = of_nat (length bs)"
    by (rule u64_of_unat)
  ultimately show ?thesis using that by simp
qed

section \<open>Submessages and fields\<close>

locale message_encoder =
  fixes E :: env and rec :: enc and wrec :: "addr \<Rightarrow> addr \<Rightarrow> u8 list res"
    and R :: "addr set" and v :: world
  assumes rec: "wrec a p = Ret bs \<Longrightarrow> implements R v bs (\<lambda>st w. rec st a p w)"
begin

lemma submessage_body:
  assumes m: "wrec a p = Ret bs"
    and h: "hide R w = v" "out_ok R st w" "unat (bytes_written st) + length bs < 2 ^ 64"
    and cb: "ocallback st = Buf_write"
  shows "wp (if max_size st < bytes_written st + of_nat (length bs)
             then Ret (False, oerror st ''stream full'', w)
             else res_bind (rec \<lparr>ocallback = ocallback st, ostate = ostate st, max_size = of_nat (length bs),
                           bytes_written = 0, oerrmsg = None\<rparr> a p w)
               (\<lambda>(status, substream, w).
               let st = st\<lparr>bytes_written := bytes_written st + bytes_written substream,
                           ostate := ostate substream, oerrmsg := oerrmsg substream\<rparr>
               in if bytes_written substream \<noteq> of_nat (length bs)
                  then Ret (False, oerror st ''submsg size changed'', w)
                  else Ret (status, st, w))) (wrote R st w bs)"
proof (cases "unat (bytes_written st) + length bs \<le> unat (max_size st)")
  case False
  then have "max_size st < bytes_written st + of_nat (length bs)"
    using h(3) by (simp add: word_less_nat_alt unat_add_fits)
  with False cb show ?thesis by (simp add: wrote_def)
next
  case True
  let ?sub = "\<lparr>ocallback = ocallback st, ostate = ostate st, max_size = of_nat (length bs),
               bytes_written = 0, oerrmsg = None\<rparr>"
  let ?k = "int (unat (max_size st)) - int (unat (bytes_written st))"
  have n: "unat (of_nat (length bs) :: u64) = length bs" using h(3) by (intro unat_of_nat_u64) simp
  have k: "int (length bs) \<le> ?k" using True by linarith
  have "mapped w (ostate st) ?k" and r: "{ostate st..<ostate st + ?k} \<subseteq> R"
    using h(2) cb by (simp_all add: out_ok_def)
  then have "mapped w (ostate st) (int (length bs))" using k by (auto intro: mapped_sub)
  moreover have "{ostate st..<ostate st + int (length bs)} \<subseteq> R"
    by (rule order_trans [OF _ r]) (use k in auto)
  ultimately have "out_ok R ?sub w" by (simp add: out_ok_def cb n)
  then have "wp (rec ?sub a p w) (wrote R ?sub w bs)"
    using h by (intro implementsD [OF rec [OF m]]) simp_all
  moreover have "\<not> max_size st < bytes_written st + of_nat (length bs)"
    using True h(3) by (simp add: word_less_nat_alt unat_add_fits)
  ultimately show ?thesis
    using True
    by (auto elim!: wp_mono dest: u64_of_unat simp: wp_bind wrote_def cb n unat_add_fits [OF h(3)] Let_def)
qed

lemma submessage_implements:
  assumes "wrec a p = Ret bs"
  shows "implements R v (wire_len bs) (\<lambda>st w. pb_encode_submessage E rec st a p w)"
proof (rule implements_big)
  assume "length (wire_len bs) < 2 ^ 64"
  then have big: "length bs < 2 ^ 64" by (simp add: wire_len_def)
  let ?rest = "\<lambda>sz st w. if ocallback st = No_callback then pb_write E st WNull sz w
       else if max_size st < bytes_written st + sz then Ret (False, oerror st ''stream full'', w)
       else res_bind (rec \<lparr>ocallback = ocallback st, ostate = ostate st, max_size = sz,
                           bytes_written = 0, oerrmsg = None\<rparr> a p w)
         (\<lambda>(status, substream, w).
         let st = st\<lparr>bytes_written := bytes_written st + bytes_written substream,
                     ostate := ostate substream, oerrmsg := oerrmsg substream\<rparr>
         in if bytes_written substream \<noteq> sz
            then Ret (False, oerror st ''submsg size changed'', w)
            else Ret (status, st, w))"
  have body: "implements R v (wire_len bs) (\<lambda>st w. res_bind (pb_encode_varint E st (of_nat (length bs)) w)
      (\<lambda>(ok, st, w). if \<not> ok then Ret (False, st, w) else ?rest (of_nat (length bs)) st w))"
    unfolding wire_len_def
    by (intro implements_seq implements_length big implements_counted submessage_body assms)
  show "implements R v (wire_len bs) (\<lambda>st w. pb_encode_submessage E rec st a p w)"
  proof (rule implementsI)
    fix st w
    assume h: "hide R w = v" "out_ok R st w" "unat (bytes_written st) + length (wire_len bs) < 2 ^ 64"
    obtain sub where "rec PB_OSTREAM_SIZING a p w = Ret (True, sub, w)"
      and "bytes_written sub = of_nat (length bs)"
      using sizing_run [OF rec [OF assms] h(1) big] by blast
    with implementsD [OF body h] show "wp (pb_encode_submessage E rec st a p w) (wrote R st w (wire_len bs))"
      by (simp add: pb_encode_submessage_def Let_def cong: if_cong)
  qed
qed

lemma item_implements:
  assumes "wire_item wrec f v p = Ret bs"
  shows "implements R v bs (\<lambda>st w. PB_ENCODERS E rec (PB_LTYPE (ftype f)) f st p w)"
proof (cases "PB_LTYPE (ftype f) = PB_LTYPE_BOOL")
  case True
  with assms obtain b where "load_byte v p = Ret b" and "bs = [if b \<noteq> 0 then 1 else 0]"
    by (auto simp: wire_item_def Let_def res_bind_Ret_iff)
  with implements_bool True show ?thesis by (simp add: PB_ENCODERS_def)
next
  case False
  have "PB_LTYPE_FIXED_LENGTH_BYTES \<noteq> PB_LTYPE_SUBMESSAGE" by (simp add: pb_consts)
  with False assms show ?thesis
    by (auto simp: wire_item_def PB_ENCODERS_def pb_enc_submessage_def Let_def res_bind_Ret_iff
        pb_enc_varint_def pb_enc_uvarint_def pb_enc_svarint_def
        split: if_splits
        intro!: implements_signed implements_unsigned implements_zigzag implements_fixed32
          implements_fixed64 implements_bytes implements_text submessage_implements
          implements_fixed_length_bytes)
qed

end

section \<open>Arrays\<close>

lemma length_wire_items:
  assumes "\<And>p bs. item p = Ret bs \<Longrightarrow> length bs = k"
  shows "wire_items m item d p = Ret bs \<Longrightarrow> length bs = m * k"
  using assms by (induction m arbitrary: p bs) (fastforce simp: res_bind_Ret_iff)+

context message_encoder
begin

lemma packed_size:
  assumes items: "wire_items (unat count) (wire_item wrec f v) (uint (data_size f)) p = Ret bs"
    and h: "hide R w = v" "length bs < 2 ^ 64"
  shows "(if PB_LTYPE (ftype f) = PB_LTYPE_FIXED32 then Ret (True, 4 * ucast count, w)
      else if PB_LTYPE (ftype f) = PB_LTYPE_FIXED64 then Ret (True, 8 * ucast count, w)
      else res_bind (encode_items (unat count) (PB_ENCODERS E rec (PB_LTYPE (ftype f)) f)
             (uint (data_size f)) PB_OSTREAM_SIZING p w)
           (\<lambda>(ok, sizestream, w). Ret (ok, bytes_written sizestream, w))) =
    Ret (True, of_nat (length bs), w)"
proof -
  have count: "of_nat (unat count * k) = (of_nat k * ucast count :: u64)" for k
    by (simp add: mult.commute)
  have "length bs = unat count * 4" if "PB_LTYPE (ftype f) = PB_LTYPE_FIXED32"
    using items that
    by (intro length_wire_items) (auto simp: wire_item_def pb_consts dest: load_bytes_length)
  moreover have "length bs = unat count * 8" if "PB_LTYPE (ftype f) = PB_LTYPE_FIXED64"
    using items that
    by (intro length_wire_items) (auto simp: wire_item_def pb_consts dest: load_bytes_length)
  moreover have "implements R v bs (\<lambda>st w. encode_items (unat count)
      (PB_ENCODERS E rec (PB_LTYPE (ftype f)) f) (uint (data_size f)) st p w)"
    by (rule items_implements [OF item_implements items])
  then obtain st where "encode_items (unat count) (PB_ENCODERS E rec (PB_LTYPE (ftype f)) f)
        (uint (data_size f)) PB_OSTREAM_SIZING p w = Ret (True, st, w)"
      and "bytes_written st = of_nat (length bs)"
    using h by (rule sizing_run)
  ultimately show ?thesis using count [of 4] count [of 8] by auto
qed

lemma array_implements:
  assumes "wire_array f (wire_item wrec f v) v p (unat count) = Ret bs"
  shows "implements R v bs (\<lambda>st w. encode_array E f p (ucast (count :: u32))
           (PB_ENCODERS E rec (PB_LTYPE (ftype f)) f) st w)"
proof (cases "count = 0")
  case True
  with assms show ?thesis by (simp add: wire_array_def encode_array_def implements_Nil)
next
  case False
  let ?func = "PB_ENCODERS E rec (PB_LTYPE (ftype f)) f" and ?item = "wire_item wrec f v"
  let ?d = "uint (data_size f)" and ?l = "PB_LTYPE (ftype f)"
  have nz: "unat count \<noteq> 0" "(ucast count :: u64) \<noteq> 0"
    using False by (auto simp: unat_eq_0 simp flip: unat_eq_zero)
  have room: "\<not> (PB_ATYPE (ftype f) \<noteq> PB_ATYPE_POINTER \<and> (ucast (array_size f) :: u64) < ucast count)"
    using assms nz by (auto simp: wire_array_def Let_def word_less_nat_alt split: if_splits)
  have enc: "implements R v b (\<lambda>st w. ?func st q w)" if "?item q = Ret b" for q b
    using that by (rule item_implements)
  show ?thesis
  proof (cases "?l \<le> PB_LTYPE_LAST_PACKABLE")
    case True
    then obtain b where b: "wire_items (unat count) ?item ?d p = Ret b"
      and bs: "bs = wire_tag (tag f) PB_WT_STRING @ wire_len b"
      using assms nz by (auto simp: wire_array_def Let_def res_bind_Ret_iff split: if_splits)
    have items: "implements R v b (\<lambda>st w. encode_items (unat count) ?func ?d st p w)"
      using enc b by (rule items_implements)
    have "implements R v bs (\<lambda>st w. res_bind (pb_encode_tag E st PB_WT_STRING (tag f) w) (\<lambda>(ok, st, w).
           if \<not> ok then Ret (False, st, w)
           else res_bind
             (if ?l = PB_LTYPE_FIXED32 then Ret (True, 4 * ucast count, w)
              else if ?l = PB_LTYPE_FIXED64 then Ret (True, 8 * ucast count, w)
              else res_bind (encode_items (unat count) ?func ?d PB_OSTREAM_SIZING p w)
                (\<lambda>(ok, sizestream, w). Ret (ok, bytes_written sizestream, w))) (\<lambda>(ok, sz, w).
           if \<not> ok then Ret (False, st, w)
           else res_bind (pb_encode_varint E st sz w) (\<lambda>(ok, st, w).
           if \<not> ok then Ret (False, st, w)
           else if ocallback st = No_callback then pb_write E st WNull sz w
           else encode_items (unat count) ?func ?d st p w))))"
    proof (rule implements_big)
      assume "length bs < 2 ^ 64"
      then have big: "length b < 2 ^ 64" by (simp add: bs wire_len_def)
      have wt: "unat PB_WT_STRING < 8" by (simp add: pb_consts)
      show ?thesis
        unfolding bs wire_len_def
        by (intro implements_seq implements_tag wt implements_size [OF packed_size [OF b _ big]]
            implements_length big implements_counted implementsD [OF items])
    qed
    with True nz show ?thesis by (simp add: encode_array_def Let_def room cong: if_cong)
  next
    case unpacked: False
    define item where "item = (if PB_ATYPE (ftype f) = PB_ATYPE_POINTER \<and>
        (?l = PB_LTYPE_STRING \<or> ?l = PB_LTYPE_BYTES)
      then (\<lambda>p. res_bind (load_ptr v p) ?item) else ?item)"
    have tagged: "implements R v b (\<lambda>st w. encode_tagged_item E f ?func st q w)"
      if "wire_tagged f item q = Ret b" for q b
      using that unfolding encode_tagged_item_def
    proof (rule tagged_implements)
      fix c assume c: "item q = Ret c"
      show "implements R v c (\<lambda>st w. if PB_ATYPE (ftype f) = PB_ATYPE_POINTER \<and>
             (?l = PB_LTYPE_STRING \<or> ?l = PB_LTYPE_BYTES)
          then res_bind (load_ptr w q) (\<lambda>q. ?func st q w) else ?func st q w)"
        using c enc by (auto simp: item_def res_bind_Ret_iff intro!: implements_read sees_intros split: if_splits)
    qed
    have "wire_items (unat count) (wire_tagged f item) ?d p = Ret bs"
      using assms nz unpacked by (auto simp: wire_array_def item_def Let_def split: if_splits)
    with tagged have "implements R v bs (\<lambda>st w. encode_items (unat count) (encode_tagged_item E f ?func) ?d st p w)"
      by (rule items_implements)
    with unpacked nz show ?thesis by (simp add: encode_array_def Let_def room cong: if_cong)
  qed
qed

end

section \<open>Fields and messages\<close>

lemma sees_implicit [sees_intros]:
  "sees (\<lambda>w. if b then res_bind (pb_check_proto3_default_value n E f p w) (\<lambda>zero. Ret (\<not> zero)) else Ret True)"
  "sees (\<lambda>w. if b then res_bind (load_ptr w p) (\<lambda>q. Ret (q, q \<noteq> 0)) else Ret (p, h))"
  "sees (\<lambda>w. if b then load_ptr w p else Ret p)"
  by (intro sees_intros)+

lemma sees_psize [sees_intros]:
  "sees (\<lambda>w. case ps of None \<Rightarrow> m | Some a \<Rightarrow> load_u32 w a)"
  "sees (\<lambda>w. case ps of None \<Rightarrow> m' | Some a \<Rightarrow> safe_read_bool w a)"
  by (cases ps; simp add: sees_intros)+

context message_encoder
begin

lemma basic_field_implements:
  assumes w: "wire_basic_field n E wrec f v p = Ret bs"
  shows "implements R v bs (\<lambda>st w. encode_basic_field n E rec st f p w)"
proof -
  let ?h = "PB_HTYPE (ftype f)" and ?l = "PB_LTYPE (ftype f)" and ?s = "p + sint (size_offset f)"
  let ?pointer = "PB_ATYPE (ftype f) = PB_ATYPE_POINTER"
  let ?item = "wire_item wrec f v" and ?func = "PB_ENCODERS E rec (PB_LTYPE (ftype f)) f"
  let ?psize = "if size_offset f \<noteq> 0 then Some ?s else None"
  let ?tagged = "\<lambda>st p w. res_bind (pb_encode_tag_for_field E st f w) (\<lambda>(ok, st, w).
                   if \<not> ok then Ret (False, st, w) else ?func st p w)"
  have l: "\<not> PB_LTYPES_COUNT \<le> ?l" using w by (auto simp: wire_basic_field_def split: if_splits)
  obtain q where q: "(if ?pointer then load_ptr v p else Ret p) = Ret q"
    and rest: "(if ?h = PB_HTYPE_REQUIRED then (if q = 0 then Undef else wire_tagged f ?item q)
         else if ?h = PB_HTYPE_OPTIONAL
         then res_bind (wire_present n E f v p) (\<lambda>has. if has then wire_tagged f ?item q else Ret [])
         else if ?h = PB_HTYPE_REPEATED
         then res_bind (if size_offset f = 0 then Ret (array_size f) else load_u32 v ?s) (\<lambda>count.
           wire_array f ?item v q (unat count))
         else if size_offset f = 0 then Undef
         else res_bind (load_u32 v ?s) (\<lambda>which.
           if which = tag f then wire_tagged f ?item q else Ret [])) = Ret bs"
    using w l by (auto simp: wire_basic_field_def Let_def res_bind_Ret_iff)
  have tagged: "implements R v b (\<lambda>st w. ?tagged st q w)" if "wire_tagged f ?item q = Ret b" for b
    using that item_implements by (rule tagged_implements)
  obtain ih where ih: "(if size_offset f = 0 \<and> ?h = PB_HTYPE_OPTIONAL
      then res_bind (pb_check_proto3_default_value n E f p v) (\<lambda>zero. Ret (\<not> zero)) else Ret True) = Ret ih"
    and present: "?h = PB_HTYPE_OPTIONAL \<Longrightarrow> wire_present n E f v p = Ret has \<Longrightarrow>
      size_offset f = 0 \<Longrightarrow> has = (if ?pointer then q \<noteq> 0 else ih)" for has
  proof (cases "size_offset f = 0 \<and> ?h = PB_HTYPE_OPTIONAL")
    case True
    then obtain zero where "pb_check_proto3_default_value n E f p v = Ret zero"
      using rest by (auto simp: wire_present_def res_bind_Ret_iff htypes_differ)
    with True q that [of "\<not> zero"] show ?thesis
      by (auto simp: wire_present_def split: if_splits)
  next
    case False
    then show ?thesis using that [of True] by auto
  qed
  define has where "has = (if ?pointer then q \<noteq> 0 else ih)"
  have ptr: "(if ?pointer then res_bind (load_ptr v p) (\<lambda>q. Ret (q, q \<noteq> 0)) else Ret (p, ih)) = Ret (q, has)"
    using q by (auto simp: has_def split: if_splits)
  have body: "implements R v bs (\<lambda>st w.
         if ?h = PB_HTYPE_REQUIRED
         then (if q = 0 then Ret (False, oerror st ''missing required field'', w) else ?tagged st q w)
         else if ?h = PB_HTYPE_OPTIONAL
         then res_bind (case ?psize of None \<Rightarrow> Ret has | Some a \<Rightarrow> safe_read_bool w a)
           (\<lambda>has. if has then ?tagged st q w else Ret (True, st, w))
         else if ?h = PB_HTYPE_REPEATED
         then res_bind (case ?psize of None \<Rightarrow> Ret (array_size f) | Some a \<Rightarrow> load_u32 w a)
           (\<lambda>count. encode_array E f q (ucast count) ?func st w)
         else res_bind (case ?psize of None \<Rightarrow> Undef | Some a \<Rightarrow> load_u32 w a)
           (\<lambda>which. if which = tag f then ?tagged st q w else Ret (True, st, w)))"
  proof (cases "?h = PB_HTYPE_REQUIRED")
    case True
    with rest show ?thesis by (auto intro: tagged split: if_splits)
  next
    case not_required: False
    show ?thesis
    proof (cases "?h = PB_HTYPE_OPTIONAL")
      case True
      with rest obtain hs where hs: "wire_present n E f v p = Ret hs"
        and bs: "(if hs then wire_tagged f ?item q else Ret []) = Ret bs"
        by (auto simp: res_bind_Ret_iff htypes_differ)
      have "(case ?psize of None \<Rightarrow> Ret has | Some a \<Rightarrow> safe_read_bool v a) = Ret hs"
        using hs present [OF True hs] by (auto simp: has_def wire_present_def)
      moreover have "implements R v bs (\<lambda>st w. if hs then ?tagged st q w else Ret (True, st, w))"
        using bs tagged by (cases hs) (auto intro: implements_Nil)
      ultimately have "implements R v bs (\<lambda>st w.
          res_bind (case ?psize of None \<Rightarrow> Ret has | Some a \<Rightarrow> safe_read_bool w a)
            (\<lambda>has. if has then ?tagged st q w else Ret (True, st, w)))"
        by (intro implements_read [where x = hs]) (intro sees_intros)
      with True show ?thesis by (simp add: htypes_differ cong: if_cong)
    next
      case not_optional: False
      show ?thesis
      proof (cases "?h = PB_HTYPE_REPEATED")
        case True
        with rest obtain count where count: "(case ?psize of None \<Rightarrow> Ret (array_size f) | Some a \<Rightarrow> load_u32 v a) = Ret count"
          and bs: "wire_array f ?item v q (unat count) = Ret bs"
          by (auto simp: res_bind_Ret_iff htypes_differ split: if_splits)
        from array_implements [OF bs] have "implements R v bs (\<lambda>st w.
            res_bind (case ?psize of None \<Rightarrow> Ret (array_size f) | Some a \<Rightarrow> load_u32 w a)
              (\<lambda>count. encode_array E f q (ucast count) ?func st w))"
          by (rule implements_read [OF sees_psize(1) count])
        with True show ?thesis by (simp add: htypes_differ cong: if_cong)
      next
        case False
        with rest not_required not_optional obtain which
          where which: "(case ?psize of None \<Rightarrow> Undef | Some a \<Rightarrow> load_u32 v a) = Ret which"
            and bs: "(if which = tag f then wire_tagged f ?item q else Ret []) = Ret bs"
          by (auto simp: res_bind_Ret_iff split: if_splits)
        have "implements R v bs (\<lambda>st w. if which = tag f then ?tagged st q w else Ret (True, st, w))"
          using bs tagged by (cases "which = tag f") (auto intro: implements_Nil)
        then have "implements R v bs (\<lambda>st w.
            res_bind (case ?psize of None \<Rightarrow> Undef | Some a \<Rightarrow> load_u32 w a)
              (\<lambda>which. if which = tag f then ?tagged st q w else Ret (True, st, w)))"
          by (rule implements_read [OF sees_psize(1) which])
        with not_required not_optional False show ?thesis by (simp cong: if_cong)
      qed
    qed
  qed
  have "implements R v bs (\<lambda>st w.
     res_bind (if size_offset f = 0 \<and> ?h = PB_HTYPE_OPTIONAL
            then res_bind (pb_check_proto3_default_value n E f p w) (\<lambda>zero. Ret (\<not> zero))
            else Ret True) (\<lambda>implicit_has.
         res_bind
           (if ?pointer
            then res_bind (load_ptr w p) (\<lambda>q. Ret (q, q \<noteq> 0)) else Ret (p, implicit_has))
           (\<lambda>(p, implicit_has).
         if ?h = PB_HTYPE_REQUIRED
         then (if p = 0 then Ret (False, oerror st ''missing required field'', w)
               else ?tagged st p w)
         else if ?h = PB_HTYPE_OPTIONAL
         then res_bind (case ?psize of None \<Rightarrow> Ret implicit_has | Some a \<Rightarrow> safe_read_bool w a)
           (\<lambda>has. if has then ?tagged st p w else Ret (True, st, w))
         else if ?h = PB_HTYPE_REPEATED
         then res_bind (case ?psize of None \<Rightarrow> Ret (array_size f) | Some a \<Rightarrow> load_u32 w a)
           (\<lambda>count. encode_array E f p (ucast count) ?func st w)
         else res_bind (case ?psize of None \<Rightarrow> Undef | Some a \<Rightarrow> load_u32 w a)
           (\<lambda>which. if which = tag f then ?tagged st p w else Ret (True, st, w)))))"
    by (rule implements_read [OF sees_implicit(1) ih], rule implements_read [OF sees_implicit(2) ptr])
      (simp only: prod.case body)
  with l show ?thesis by (simp add: encode_basic_field_def Let_def cong: if_cong)
qed

end

lemma no_extensions: "encode_extensions n E rec st 0 w = Ret (True, st, w)"
  by (cases n) simp_all

context message_encoder
begin

lemma field_implements:
  assumes f: "field_at E fa = Ret f" and w: "wire_field n E wrec f v p = Ret bs"
  shows "implements R v bs (\<lambda>st w. if PB_LTYPE (ftype f) = PB_LTYPE_EXTENSION
           then encode_extension_field n E rec st p w else encode_field n E rec st fa p w)"
proof (cases "PB_LTYPE (ftype f) = PB_LTYPE_EXTENSION")
  case True
  with w have e: "load_ptr v p = Ret 0" and bs: "bs = []"
    by (auto simp: wire_field_def res_bind_Ret_iff split: if_splits)
  have "implements R v bs (\<lambda>st w. encode_extensions n E rec st 0 w)"
    by (simp add: no_extensions bs implements_Nil)
  then have "implements R v bs (\<lambda>st w. encode_extension_field n E rec st p w)"
    unfolding encode_extension_field_def by (rule implements_read [OF sees_load_ptr e])
  with True show ?thesis by simp
next
  case not_ext: False
  show ?thesis
  proof (cases "PB_ATYPE (ftype f) = PB_ATYPE_STATIC \<or> PB_ATYPE (ftype f) = PB_ATYPE_POINTER")
    case True
    with w not_ext have "wire_basic_field n E wrec f v p = Ret bs" by (simp add: wire_field_def)
    from basic_field_implements [OF this] True not_ext f show ?thesis
      by (simp add: encode_field_def)
  next
    case False
    with w not_ext have a: "PB_ATYPE (ftype f) = PB_ATYPE_CALLBACK" and bs: "bs = []"
      and fn: "load_ptr v (callback_funcs p) = Ret 0"
      by (auto simp: wire_field_def res_bind_Ret_iff split: if_splits)
    have "implements R v bs (\<lambda>st w. if (0 :: addr) = 0 then Ret (True, st, w)
        else case field_encoder E 0 of None \<Rightarrow> Undef
          | Some enc \<Rightarrow> res_bind (enc st fa (callback_arg p) w) (\<lambda>(ok, st, w).
              if \<not> ok then Ret (False, oerror st ''callback error'', w) else Ret (True, st, w)))"
      by (simp add: bs implements_Nil)
    then have "implements R v bs (\<lambda>st w. encode_callback_field E st fa p w)"
      unfolding encode_callback_field_def by (rule implements_read [OF sees_load_ptr fn])
    with a False not_ext f show ?thesis by (simp add: encode_field_def)
  qed
qed

lemma loop_implements:
  "wire_fields n E wrec v iter = Ret bs \<Longrightarrow> implements R v bs (\<lambda>st w. encode_loop n E rec st iter w)"
proof (induction n arbitrary: iter bs)
  case 0
  then show ?case by simp
next
  case (Suc n)
  then obtain f b more iter' where f: "field_at E (it_pos iter) = Ret f"
    and b: "wire_field n E wrec f v (pData iter) = Ret b"
    and next_field: "pb_field_iter_next E iter = Ret (more, iter')"
    and rest: "(if more then res_bind (wire_fields n E wrec v iter') (\<lambda>bs'. Ret (b @ bs')) else Ret b) = Ret bs"
    by (auto simp: res_bind_Ret_iff)
  obtain b' where bs: "bs = b @ b'"
    and tail: "implements R v b' (\<lambda>st w. if more then encode_loop n E rec st iter' w else Ret (True, st, w))"
    using rest Suc.IH [of iter'] by (cases more) (auto simp: res_bind_Ret_iff intro: implements_Nil)
  from implements_seq [OF field_implements [OF f b] tail] show ?case
    by (simp add: f next_field bs if_distrib [of "\<lambda>m. res_bind m g" for g] cong: if_cong)
qed

end

text \<open>The induction on the nesting depth: the encoder of depth \<open>n\<close> is the interface of the encoder of
  depth \<open>n + 1\<close>.\<close>

theorem pb_encode_implements:
  "wire_message n E v a p = Ret bs \<Longrightarrow> implements R v bs (\<lambda>st w. pb_encode n E st a p w)"
proof (induction n arbitrary: a p bs)
  case 0
  then show ?case by simp
next
  case (Suc n)
  have interface: "message_encoder (pb_encode n E) (wire_message n E v) R v"
    using Suc.IH by unfold_locales blast
  from Suc.prems obtain ok iter where i: "pb_field_iter_begin E a p = Ret (ok, iter)"
    and w: "(if \<not> ok then Ret [] else wire_fields n E (wire_message n E v) v iter) = Ret bs"
    by (auto simp: res_bind_Ret_iff)
  then show ?case
    using message_encoder.loop_implements [OF interface, of n E iter bs]
    by (cases ok) (auto simp: implements_Nil)
qed

interpretation nested_encoder: message_encoder E "pb_encode n E" "wire_message n E v" R v for E n R v
  by unfold_locales (rule pb_encode_implements)

end
