(* ===== verification/PbMessage.thy ===== *)
theory PbMessage
  imports PbCommon
begin

text \<open>
  The operations of \<open>pb_decode.c\<close> that prepare and dispose of a message struct: setting the fields
  to their defaults and releasing what was allocated, both recursively through submessages and
  extension lists. The recursion, the loops over descriptor arrays and the walks along extension
  lists share one fuel argument. Also the iterator that stands for an extension field.
\<close>

section \<open>Extension fields\<close>

definition iter_from_extension :: "env \<Rightarrow> world \<Rightarrow> addr \<Rightarrow> pb_field_iter res" where
  "iter_from_extension E w e =
     res_bind (load_ptr w (ext_type e)) (\<lambda>t.
     res_bind (load_ptr w (exttype_arg t)) (\<lambda>fa.
     res_bind (load_ptr w (ext_dest e)) (\<lambda>dest.
     res_bind (pb_field_iter_begin E fa dest) (\<lambda>(_, iter).
     res_bind (field_at E fa) (\<lambda>f.
     let iter = iter\<lparr>pData := dest, pSize := ext_found e\<rparr>
     in Ret (if PB_ATYPE (ftype f) = PB_ATYPE_POINTER then iter\<lparr>pData := ext_dest e\<rparr> else iter))))))"

section \<open>Defaults\<close>

text \<open>\<open>pb_field_set_to_default\<close> for a static field: first the count, \<open>has_\<close> or \<open>which_\<close> member;
  the flag of the result is \<open>init_data\<close>.\<close>

definition default_size_member :: "pb_field \<Rightarrow> pb_field_iter \<Rightarrow> world \<Rightarrow> (bool \<times> world) res" where
  "default_size_member f iter w =
     (let h = PB_HTYPE (ftype f)
      in if h = PB_HTYPE_OPTIONAL \<and> pSize iter \<noteq> pData iter
         then res_bind (store_bool w (pSize iter) False) (\<lambda>w. Ret (True, w))
         else if h = PB_HTYPE_REPEATED \<or> h = PB_HTYPE_ONEOF
         then res_bind (store_u32 w (pSize iter) 0) (\<lambda>w. Ret (False, w))
         else Ret (True, w))"

text \<open>The walk along an extension list, where \<open>fld\<close> sets one field to its default.\<close>

primrec ext_set_to_defaults ::
  "nat \<Rightarrow> (pb_field_iter \<Rightarrow> world \<Rightarrow> world res) \<Rightarrow> env \<Rightarrow> addr \<Rightarrow> world \<Rightarrow> world res" where
  "ext_set_to_defaults 0 fld E e w = NoFuel"
| "ext_set_to_defaults (Suc n) fld E e w =
     (if e = 0 then Ret w
      else res_bind (store_bool w (ext_found e) False) (\<lambda>w.
        res_bind (iter_from_extension E w e) (\<lambda>iter.
        res_bind (fld iter w) (\<lambda>w.
        res_bind (load_ptr w (ext_next e)) (\<lambda>e. ext_set_to_defaults n fld E e w)))))"

text \<open>Here \<open>rec\<close> is \<open>pb_message_set_to_defaults\<close>, for the submessages.\<close>

primrec pb_field_set_to_default ::
  "nat \<Rightarrow> env \<Rightarrow> (addr \<Rightarrow> addr \<Rightarrow> world \<Rightarrow> world res) \<Rightarrow> pb_field_iter \<Rightarrow> world \<Rightarrow> world res" where
  "pb_field_set_to_default 0 E rec iter w = NoFuel"
| "pb_field_set_to_default (Suc n) E rec iter w =
     res_bind (field_at E (it_pos iter)) (\<lambda>f.
     let ty = ftype f
     in if PB_LTYPE ty = PB_LTYPE_EXTENSION
        then res_bind (load_ptr w (pData iter)) (\<lambda>e.
          ext_set_to_defaults n (pb_field_set_to_default n E rec) E e w)
        else if PB_ATYPE ty = PB_ATYPE_STATIC
        then res_bind (default_size_member f iter w) (\<lambda>(init_data, w).
          if \<not> init_data then Ret w
          else if PB_LTYPE ty = PB_LTYPE_SUBMESSAGE then rec (ptr f) (pData iter) w
          else if ptr f \<noteq> 0 then c_memcpy w (pData iter) (ptr f) (unat (data_size f))
          else c_memset w (pData iter) 0 (unat (data_size f)))
        else if PB_ATYPE ty = PB_ATYPE_POINTER
        then res_bind (store_ptr w (pData iter) 0) (\<lambda>w.
          if PB_HTYPE ty = PB_HTYPE_REPEATED \<or> PB_HTYPE ty = PB_HTYPE_ONEOF
          then store_u32 w (pSize iter) 0 else Ret w)
        else Ret w)"

primrec set_defaults_loop ::
  "nat \<Rightarrow> env \<Rightarrow> (addr \<Rightarrow> addr \<Rightarrow> world \<Rightarrow> world res) \<Rightarrow> pb_field_iter \<Rightarrow> world \<Rightarrow> world res" where
  "set_defaults_loop 0 E rec iter w = NoFuel"
| "set_defaults_loop (Suc n) E rec iter w =
     res_bind (pb_field_set_to_default n E rec iter w) (\<lambda>w.
     res_bind (pb_field_iter_next E iter) (\<lambda>(more, iter).
     if more then set_defaults_loop n E rec iter w else Ret w))"

primrec pb_message_set_to_defaults :: "nat \<Rightarrow> env \<Rightarrow> addr \<Rightarrow> addr \<Rightarrow> world \<Rightarrow> world res" where
  "pb_message_set_to_defaults 0 E flds dest w = NoFuel"
| "pb_message_set_to_defaults (Suc n) E flds dest w =
     res_bind (pb_field_iter_begin E flds dest) (\<lambda>(ok, iter).
     if \<not> ok then Ret w
     else set_defaults_loop n E (pb_message_set_to_defaults n E) iter w)"

section \<open>Release\<close>

text \<open>The loop over the items of an array of submessages, and the one over the entries of an array
  of strings.\<close>

primrec release_items :: "nat \<Rightarrow> (addr \<Rightarrow> world \<Rightarrow> world res) \<Rightarrow> int \<Rightarrow> addr \<Rightarrow> world \<Rightarrow> world res" where
  "release_items 0 rel dsize item w = Ret w"
| "release_items (Suc count) rel dsize item w =
     res_bind (rel item w) (\<lambda>w. release_items count rel dsize (item + dsize) w)"

primrec release_strings :: "nat \<Rightarrow> addr \<Rightarrow> world \<Rightarrow> world res" where
  "release_strings 0 item w = Ret w"
| "release_strings (Suc count) item w =
     res_bind (load_ptr w item) (\<lambda>p.
     res_bind (c_free w p) (\<lambda>w.
     res_bind (store_ptr w item 0) (\<lambda>w. release_strings count (item + 8) w)))"

text \<open>The number of submessages a field holds.\<close>

definition release_count :: "pb_field \<Rightarrow> pb_field_iter \<Rightarrow> world \<Rightarrow> pb_size res" where
  "release_count f iter w =
     (let ty = ftype f
      in if PB_HTYPE ty = PB_HTYPE_REPEATED
         then res_bind (if PB_ATYPE ty = PB_ATYPE_STATIC \<and> pSize iter = pData iter
                        then Ret (array_size f) else load_u32 w (pSize iter)) (\<lambda>count.
           Ret (if PB_ATYPE ty = PB_ATYPE_STATIC \<and> array_size f < count then array_size f else count))
         else Ret 1)"

text \<open>The last part of \<open>pb_release_single_field\<close>, for a pointer field.\<close>

definition release_pointer :: "pb_field \<Rightarrow> pb_field_iter \<Rightarrow> world \<Rightarrow> world res" where
  "release_pointer f iter w =
     (let ty = ftype f
      in res_bind
           (if PB_HTYPE ty = PB_HTYPE_REPEATED \<and>
               (PB_LTYPE ty = PB_LTYPE_STRING \<or> PB_LTYPE ty = PB_LTYPE_BYTES)
            then res_bind (load_ptr w (pData iter)) (\<lambda>item.
              res_bind (load_u32 w (pSize iter)) (\<lambda>count. release_strings (unat count) item w))
            else Ret w) (\<lambda>w.
         res_bind (if PB_HTYPE ty = PB_HTYPE_REPEATED then store_u32 w (pSize iter) 0 else Ret w) (\<lambda>w.
         res_bind (load_ptr w (pData iter)) (\<lambda>p.
         res_bind (c_free w p) (\<lambda>w. store_ptr w (pData iter) 0)))))"

primrec release_extensions ::
  "nat \<Rightarrow> (pb_field_iter \<Rightarrow> world \<Rightarrow> world res) \<Rightarrow> env \<Rightarrow> addr \<Rightarrow> world \<Rightarrow> world res" where
  "release_extensions 0 fld E e w = NoFuel"
| "release_extensions (Suc n) fld E e w =
     (if e = 0 then Ret w
      else res_bind (iter_from_extension E w e) (\<lambda>iter.
        res_bind (fld iter w) (\<lambda>w.
        res_bind (load_ptr w (ext_next e)) (\<lambda>e. release_extensions n fld E e w))))"

text \<open>Here \<open>rec\<close> is \<open>pb_release\<close>.\<close>

definition release_submessages ::
  "(addr \<Rightarrow> addr \<Rightarrow> world \<Rightarrow> world res) \<Rightarrow> pb_field \<Rightarrow> pb_field_iter \<Rightarrow> world \<Rightarrow> world res" where
  "release_submessages rec f iter w =
     res_bind (if PB_ATYPE (ftype f) = PB_ATYPE_POINTER then load_ptr w (pData iter)
               else Ret (pData iter)) (\<lambda>item.
     res_bind (release_count f iter w) (\<lambda>count.
     if item \<noteq> 0
     then release_items (unat count) (rec (ptr f)) (uint (data_size f)) item w
     else Ret w))"

primrec pb_release_single_field ::
  "nat \<Rightarrow> env \<Rightarrow> (addr \<Rightarrow> addr \<Rightarrow> world \<Rightarrow> world res) \<Rightarrow> pb_field_iter \<Rightarrow> world \<Rightarrow> world res" where
  "pb_release_single_field 0 E rec iter w = NoFuel"
| "pb_release_single_field (Suc n) E rec iter w =
     res_bind (field_at E (it_pos iter)) (\<lambda>f.
     let ty = ftype f
     in res_bind
          (if PB_HTYPE ty = PB_HTYPE_ONEOF
           then res_bind (load_u32 w (pSize iter)) (\<lambda>which. Ret (which = tag f))
           else Ret True) (\<lambda>current.
        if \<not> current then Ret w
        else res_bind
          (if PB_LTYPE ty = PB_LTYPE_EXTENSION
           then res_bind (load_ptr w (pData iter)) (\<lambda>e.
             release_extensions n (pb_release_single_field n E rec) E e w)
           else if PB_LTYPE ty = PB_LTYPE_SUBMESSAGE \<and> PB_ATYPE ty \<noteq> PB_ATYPE_CALLBACK
           then release_submessages rec f iter w
           else Ret w) (\<lambda>w.
        if PB_ATYPE ty = PB_ATYPE_POINTER then release_pointer f iter w else Ret w)))"

primrec release_loop ::
  "nat \<Rightarrow> env \<Rightarrow> (addr \<Rightarrow> addr \<Rightarrow> world \<Rightarrow> world res) \<Rightarrow> pb_field_iter \<Rightarrow> world \<Rightarrow> world res" where
  "release_loop 0 E rec iter w = NoFuel"
| "release_loop (Suc n) E rec iter w =
     res_bind (pb_release_single_field n E rec iter w) (\<lambda>w.
     res_bind (pb_field_iter_next E iter) (\<lambda>(more, iter).
     if more then release_loop n E rec iter w else Ret w))"

primrec pb_release :: "nat \<Rightarrow> env \<Rightarrow> addr \<Rightarrow> addr \<Rightarrow> world \<Rightarrow> world res" where
  "pb_release 0 E flds dest w = NoFuel"
| "pb_release (Suc n) E flds dest w =
     (if dest = 0 then Ret w
      else res_bind (pb_field_iter_begin E flds dest) (\<lambda>(ok, iter).
        if \<not> ok then Ret w else release_loop n E (pb_release n E) iter w))"

text \<open>The iterator is moved to the old member of the union and back.\<close>

definition pb_release_union_field ::
  "nat \<Rightarrow> env \<Rightarrow> istream \<Rightarrow> pb_field_iter \<Rightarrow> world \<Rightarrow> (bool \<times> istream \<times> pb_field_iter \<times> world) res" where
  "pb_release_union_field n E st iter w =
     res_bind (load_u32 w (pSize iter)) (\<lambda>old_tag.
     res_bind (field_at E (it_pos iter)) (\<lambda>f.
     let new_tag = tag f
     in if old_tag = 0 then Ret (True, st, iter, w)
        else if old_tag = new_tag then Ret (True, st, iter, w)
        else res_bind (pb_field_iter_find n E iter old_tag) (\<lambda>(ok, iter).
          if \<not> ok then Ret (False, ierror st ''invalid union tag'', iter, w)
          else res_bind (pb_release_single_field n E (pb_release n E) iter w) (\<lambda>w.
          res_bind (pb_field_iter_find n E iter new_tag) (\<lambda>(ok, iter).
          if \<not> ok then Ret (False, ierror st ''iterator error'', iter, w)
          else Ret (True, st, iter, w))))))"

end
