(* ===== verification/PbIstream.thy ===== *)
theory PbIstream
  imports PbTypes
begin

text \<open>
  Input streams and the value decoders of \<open>pb_decode.c\<close> that need no message: \<open>pb_read\<close> with its
  memory-buffer callback, varints, zig-zag varints, fixed-width values, tags, the skipping of
  unknown fields, and substreams. The output parameters of the C functions are components of the
  result; they mean something only where the C code has written them.
\<close>

section \<open>Reading from a stream\<close>

text \<open>The byte list of the result is what was read into a local array (\<open>RLocal\<close>).\<close>

definition buf_read ::
  "istream \<Rightarrow> rbuf \<Rightarrow> u64 \<Rightarrow> world \<Rightarrow> (bool \<times> u8 list \<times> istream \<times> world) res" where
  "buf_read st buf count w =
     (let source = istate st; st = st\<lparr>istate := source + uint count\<rparr>
      in case buf of
           RNull \<Rightarrow> Ret (True, [], st, w)
         | RMem a \<Rightarrow> res_bind (copy_bytes (unat count) a source w) (\<lambda>w. Ret (True, [], st, w))
         | RLocal \<Rightarrow> res_bind (load_bytes w source (unat count)) (\<lambda>bs. Ret (True, bs, st, w)))"

text \<open>
  A callback of the user that succeeds has filled the buffer and left \<open>callback\<close> and \<open>bytes_left\<close>
  alone (one that fails may set \<open>bytes_left\<close> to 0 to signal the end of the file); what the library
  does when it breaks this contract is not defined.
\<close>

definition istream_call ::
  "env \<Rightarrow> istream \<Rightarrow> rbuf \<Rightarrow> u64 \<Rightarrow> world \<Rightarrow> (bool \<times> u8 list \<times> istream \<times> world) res" where
  "istream_call E st buf count w =
     (case icallback st of
        Buf_read \<Rightarrow> buf_read st buf count w
      | User_read k \<Rightarrow>
          res_bind (user_read E k st buf count w) (\<lambda>(ok, bs, st', w').
            if ok \<and> (bytes_left st' \<noteq> bytes_left st \<or> icallback st' \<noteq> icallback st \<or>
                     (buf = RLocal \<and> length bs \<noteq> unat count))
            then Undef else Ret (ok, bs, st', w')))"

definition pb_istream_from_buffer :: "addr \<Rightarrow> u64 \<Rightarrow> istream" where
  "pb_istream_from_buffer buf bufsize =
     \<lparr>icallback = Buf_read, istate = buf, bytes_left = bufsize, ierrmsg = None\<rparr>"

text \<open>\<open>pb_read\<close> past its first two conditionals.\<close>

definition pb_read_chunk ::
  "env \<Rightarrow> istream \<Rightarrow> rbuf \<Rightarrow> u64 \<Rightarrow> world \<Rightarrow> (bool \<times> u8 list \<times> istream \<times> world) res" where
  "pb_read_chunk E st buf count w =
     (if bytes_left st < count then Ret (False, [], ierror st ''end-of-stream'', w)
      else res_bind (istream_call E st buf count w) (\<lambda>(ok, bs, st, w).
        if \<not> ok then Ret (False, [], ierror st ''io error'', w)
        else Ret (True, bs, st\<lparr>bytes_left := bytes_left st - count\<rparr>, w)))"

lemma unat_minus_16_less: "16 < (c :: u64) \<Longrightarrow> unat (c - 16) < unat c"
  by (simp add: unat_sub_u64 word_less_nat_alt word_le_nat_alt)

text \<open>Skipping the input of a stream that is not a buffer: 16 bytes at a time into a local array.\<close>

function pb_read_skip :: "env \<Rightarrow> istream \<Rightarrow> u64 \<Rightarrow> world \<Rightarrow> (bool \<times> istream \<times> world) res" where
  "pb_read_skip E st count w =
     (if 16 < count
      then res_bind (pb_read_chunk E st RLocal 16 w) (\<lambda>(ok, _, st, w).
        if \<not> ok then Ret (False, st, w) else pb_read_skip E st (count - 16) w)
      else res_bind (pb_read_chunk E st RLocal count w) (\<lambda>(ok, _, st, w). Ret (ok, st, w)))"
  by pat_completeness auto

termination
  by (relation "measure (\<lambda>(E, st, count, w). unat count)") (simp_all add: unat_minus_16_less)

declare pb_read_skip.simps [simp del]

definition pb_read ::
  "env \<Rightarrow> istream \<Rightarrow> rbuf \<Rightarrow> u64 \<Rightarrow> world \<Rightarrow> (bool \<times> u8 list \<times> istream \<times> world) res" where
  "pb_read E st buf count w =
     (if count = 0 then Ret (True, [], st, w)
      else if buf = RNull \<and> icallback st \<noteq> Buf_read
      then res_bind (pb_read_skip E st count w) (\<lambda>(ok, st, w). Ret (ok, [], st, w))
      else pb_read_chunk E st buf count w)"

definition pb_readbyte :: "env \<Rightarrow> istream \<Rightarrow> world \<Rightarrow> (bool \<times> u8 \<times> istream \<times> world) res" where
  "pb_readbyte E st w =
     (if bytes_left st = 0 then Ret (False, 0, ierror st ''end-of-stream'', w)
      else res_bind (istream_call E st RLocal 1 w) (\<lambda>(ok, bs, st, w).
        if \<not> ok then Ret (False, 0, ierror st ''io error'', w)
        else Ret (True, hd bs, st\<lparr>bytes_left := bytes_left st - 1\<rparr>, w)))"

section \<open>Progress\<close>

lemma buf_read_frame:
  "buf_read st buf count w = Ret (ok, bs, st', w') \<Longrightarrow>
   ok \<and> bytes_left st' = bytes_left st \<and> icallback st' = icallback st \<and> ierrmsg st' = ierrmsg st \<and>
   istate st' = istate st + uint count \<and> (buf = RLocal \<longrightarrow> length bs = unat count)"
  by (auto simp: buf_read_def Let_def res_bind_Ret_iff load_bytes_length split: rbuf.splits)

lemma istream_call_ok:
  "istream_call E st buf count w = Ret (True, bs, st', w') \<Longrightarrow>
   bytes_left st' = bytes_left st \<and> icallback st' = icallback st \<and>
   (buf = RLocal \<longrightarrow> length bs = unat count)"
  by (auto simp: istream_call_def res_bind_Ret_iff dest!: buf_read_frame
      split: icallback.splits if_splits)

lemma pb_readbyte_ok:
  assumes "pb_readbyte E st w = Ret (True, byte, st', w')"
  shows "bytes_left st \<noteq> 0" and "bytes_left st' = bytes_left st - 1"
    and "icallback st' = icallback st"
  using assms
  by (auto simp: pb_readbyte_def res_bind_Ret_iff dest!: istream_call_ok split: if_splits)

lemma pb_readbyte_less:
  "pb_readbyte E st w = Ret (True, byte, st', w') \<Longrightarrow>
   unat (bytes_left st') < unat (bytes_left st)"
  using pb_readbyte_ok [of E st w byte st' w']
  by (simp add: unat_sub_u64 word_le_nat_alt unat_gt_0 Suc_leI)

lemma pb_read_chunk_ok:
  assumes "pb_read_chunk E st buf count w = Ret (True, bs, st', w')"
  shows "count \<le> bytes_left st" and "bytes_left st' = bytes_left st - count"
    and "icallback st' = icallback st" and "buf = RLocal \<longrightarrow> length bs = unat count"
  using assms
  by (auto simp: pb_read_chunk_def res_bind_Ret_iff dest!: istream_call_ok split: if_splits)

section \<open>Varints\<close>

text \<open>The \<open>do\<close> loop of \<open>pb_decode_varint32_eof\<close>; it returns the last byte, \<open>bitpos\<close> and \<open>result\<close>.
  \<open>bitpos\<close> is a \<open>uint_fast8_t\<close>, 8 bits wide.\<close>

function varint32_loop ::
  "env \<Rightarrow> istream \<Rightarrow> u8 \<Rightarrow> u32 \<Rightarrow> world \<Rightarrow> (bool \<times> u8 \<times> u8 \<times> u32 \<times> istream \<times> world) res" where
  "varint32_loop E st bitpos result w =
     res_bind (pb_readbyte E st w) (\<lambda>(ok, byte, st', w').
     if \<not> ok then Ret (False, byte, bitpos, result, st', w')
     else if 32 \<le> bitpos \<and> byte AND 0x7F \<noteq> 0 \<and>
             (drop_bit 31 result = 0 \<or> byte \<noteq> (if bitpos < 63 then 0xFF else 0x01))
     then Ret (False, byte, bitpos, result, ierror st' ''varint overflow'', w')
     else let result = (if 32 \<le> bitpos then result
                        else result OR push_bit (unat bitpos) (ucast (byte AND 0x7F)));
              bitpos = bitpos + 7
       in if byte AND 0x80 \<noteq> 0 then varint32_loop E st' bitpos result w'
          else Ret (True, byte, bitpos, result, st', w'))"
  by pat_completeness auto

termination
  by (relation "measure (\<lambda>(E, st, bitpos, result, w). unat (bytes_left st))")
     (auto intro: pb_readbyte_less)

declare varint32_loop.simps [simp del]

text \<open>Result: success, \<open>*dest\<close>, \<open>*eof\<close>, the stream, the world.\<close>

definition pb_decode_varint32_eof ::
  "env \<Rightarrow> istream \<Rightarrow> bool \<Rightarrow> world \<Rightarrow> (bool \<times> u32 \<times> bool \<times> istream \<times> world) res" where
  "pb_decode_varint32_eof E st eof w =
     res_bind (pb_readbyte E st w) (\<lambda>(ok, byte, st, w).
     if \<not> ok then Ret (False, 0, (if bytes_left st = 0 then True else eof), st, w)
     else if byte AND 0x80 = 0 then Ret (True, ucast byte, eof, st, w)
     else res_bind (varint32_loop E st 7 (ucast (byte AND 0x7F)) w)
       (\<lambda>(ok, byte, bitpos, result, st, w).
       if \<not> ok then Ret (False, 0, eof, st, w)
       else if bitpos = 35 \<and> byte AND 0x70 \<noteq> 0
       then Ret (False, 0, eof, ierror st ''varint overflow'', w)
       else Ret (True, result, eof, st, w)))"

definition pb_decode_varint32 ::
  "env \<Rightarrow> istream \<Rightarrow> world \<Rightarrow> (bool \<times> u32 \<times> istream \<times> world) res" where
  "pb_decode_varint32 E st w =
     res_bind (pb_decode_varint32_eof E st False w) (\<lambda>(ok, dest, _, st, w). Ret (ok, dest, st, w))"

function varint_loop ::
  "env \<Rightarrow> istream \<Rightarrow> u8 \<Rightarrow> u64 \<Rightarrow> world \<Rightarrow> (bool \<times> u64 \<times> istream \<times> world) res" where
  "varint_loop E st bitpos result w =
     (if 64 \<le> bitpos then Ret (False, 0, ierror st ''varint overflow'', w)
      else res_bind (pb_readbyte E st w) (\<lambda>(ok, byte, st', w').
        if \<not> ok then Ret (False, 0, st', w')
        else let result = result OR push_bit (unat bitpos) (ucast (byte AND 0x7F));
                 bitpos = bitpos + 7
          in if byte AND 0x80 \<noteq> 0 then varint_loop E st' bitpos result w'
             else Ret (True, result, st', w')))"
  by pat_completeness auto

termination
  by (relation "measure (\<lambda>(E, st, bitpos, result, w). unat (bytes_left st))")
     (auto intro: pb_readbyte_less)

declare varint_loop.simps [simp del]

definition pb_decode_varint ::
  "env \<Rightarrow> istream \<Rightarrow> world \<Rightarrow> (bool \<times> u64 \<times> istream \<times> world) res" where
  "pb_decode_varint E st w = varint_loop E st 0 0 w"

text \<open>The signed result, as the 64-bit word that represents it.\<close>

definition pb_decode_svarint ::
  "env \<Rightarrow> istream \<Rightarrow> world \<Rightarrow> (bool \<times> u64 \<times> istream \<times> world) res" where
  "pb_decode_svarint E st w =
     res_bind (pb_decode_varint E st w) (\<lambda>(ok, value, st, w).
     if \<not> ok then Ret (False, 0, st, w)
     else Ret (True, if value AND 1 \<noteq> 0 then NOT (drop_bit 1 value) else drop_bit 1 value, st, w))"

section \<open>Fixed-width values\<close>

definition fixed32_value :: "u8 list \<Rightarrow> u32" where
  "fixed32_value bytes =
     (push_bit 0 (ucast (bytes ! 0))) OR (push_bit 8 (ucast (bytes ! 1))) OR
     (push_bit 16 (ucast (bytes ! 2))) OR (push_bit 24 (ucast (bytes ! 3)))"

definition fixed64_value :: "u8 list \<Rightarrow> u64" where
  "fixed64_value bytes =
     (push_bit 0 (ucast (bytes ! 0))) OR (push_bit 8 (ucast (bytes ! 1))) OR
     (push_bit 16 (ucast (bytes ! 2))) OR (push_bit 24 (ucast (bytes ! 3))) OR
     (push_bit 32 (ucast (bytes ! 4))) OR (push_bit 40 (ucast (bytes ! 5))) OR
     (push_bit 48 (ucast (bytes ! 6))) OR (push_bit 56 (ucast (bytes ! 7)))"

definition pb_decode_fixed32 :: "env \<Rightarrow> istream \<Rightarrow> addr \<Rightarrow> world \<Rightarrow> (bool \<times> istream \<times> world) res" where
  "pb_decode_fixed32 E st dest w =
     res_bind (pb_read E st RLocal 4 w) (\<lambda>(ok, bytes, st, w).
     if \<not> ok then Ret (False, st, w)
     else res_bind (store_u32 w dest (fixed32_value bytes)) (\<lambda>w. Ret (True, st, w)))"

definition pb_decode_fixed64 :: "env \<Rightarrow> istream \<Rightarrow> addr \<Rightarrow> world \<Rightarrow> (bool \<times> istream \<times> world) res" where
  "pb_decode_fixed64 E st dest w =
     res_bind (pb_read E st RLocal 8 w) (\<lambda>(ok, bytes, st, w).
     if \<not> ok then Ret (False, st, w)
     else res_bind (store_u64 w dest (fixed64_value bytes)) (\<lambda>w. Ret (True, st, w)))"

section \<open>Skipping, tags, substreams\<close>

lemma pb_read_byte_less:
  assumes "pb_read E st RLocal 1 w = Ret (True, bs, st', w')"
  shows "unat (bytes_left st') < unat (bytes_left st)"
  using assms pb_read_chunk_ok [of E st RLocal 1 w bs st' w']
  by (auto simp: pb_read_def unat_sub_u64 word_le_nat_alt split: if_splits)

function pb_skip_varint :: "env \<Rightarrow> istream \<Rightarrow> world \<Rightarrow> (bool \<times> istream \<times> world) res" where
  "pb_skip_varint E st w =
     res_bind (pb_read E st RLocal 1 w) (\<lambda>(ok, bs, st', w').
     if \<not> ok then Ret (False, st', w')
     else if hd bs AND 0x80 \<noteq> 0 then pb_skip_varint E st' w'
     else Ret (True, st', w'))"
  by pat_completeness auto

termination
  by (relation "measure (\<lambda>(E, st, w). unat (bytes_left st))") (auto intro: pb_read_byte_less)

declare pb_skip_varint.simps [simp del]

definition pb_skip_string :: "env \<Rightarrow> istream \<Rightarrow> world \<Rightarrow> (bool \<times> istream \<times> world) res" where
  "pb_skip_string E st w =
     res_bind (pb_decode_varint32 E st w) (\<lambda>(ok, len, st, w).
     if \<not> ok then Ret (False, st, w)
     else res_bind (pb_read E st RNull (ucast len) w) (\<lambda>(ok, _, st, w). Ret (ok, st, w)))"

text \<open>Result: success, \<open>*wire_type\<close>, \<open>*tag\<close>, \<open>*eof\<close>, the stream, the world.\<close>

definition pb_decode_tag ::
  "env \<Rightarrow> istream \<Rightarrow> world \<Rightarrow> (bool \<times> pb_wire_type \<times> u32 \<times> bool \<times> istream \<times> world) res" where
  "pb_decode_tag E st w =
     res_bind (pb_decode_varint32_eof E st False w) (\<lambda>(ok, temp, eof, st, w).
     if \<not> ok then Ret (False, 0, 0, eof, st, w)
     else if temp = 0 then Ret (False, 0, 0, True, st, w)
     else Ret (True, temp AND 7, drop_bit 3 temp, eof, st, w))"

definition pb_skip_field ::
  "env \<Rightarrow> istream \<Rightarrow> pb_wire_type \<Rightarrow> world \<Rightarrow> (bool \<times> istream \<times> world) res" where
  "pb_skip_field E st wire_type w =
     (if wire_type = PB_WT_VARINT then pb_skip_varint E st w
      else if wire_type = PB_WT_64BIT
      then res_bind (pb_read E st RNull 8 w) (\<lambda>(ok, _, st, w). Ret (ok, st, w))
      else if wire_type = PB_WT_STRING then pb_skip_string E st w
      else if wire_type = PB_WT_32BIT
      then res_bind (pb_read E st RNull 4 w) (\<lambda>(ok, _, st, w). Ret (ok, st, w))
      else Ret (False, ierror st ''invalid wire_type'', w))"

text \<open>The \<open>do\<close> loop of \<open>read_raw_value\<close>, with the number of bytes the buffer still has room for.\<close>

primrec raw_varint ::
  "nat \<Rightarrow> env \<Rightarrow> istream \<Rightarrow> world \<Rightarrow> (bool \<times> u8 list \<times> istream \<times> world) res" where
  "raw_varint 0 E st w = Ret (False, [], st, w)"
| "raw_varint (Suc room) E st w =
     res_bind (pb_read E st RLocal 1 w) (\<lambda>(ok, bs, st, w).
     if \<not> ok then Ret (False, [], st, w)
     else if hd bs AND 0x80 \<noteq> 0
     then res_bind (raw_varint room E st w) (\<lambda>(ok, bs', st, w). Ret (ok, hd bs # bs', st, w))
     else Ret (True, [hd bs], st, w))"

definition read_raw_value ::
  "env \<Rightarrow> istream \<Rightarrow> pb_wire_type \<Rightarrow> nat \<Rightarrow> world \<Rightarrow> (bool \<times> u8 list \<times> istream \<times> world) res" where
  "read_raw_value E st wire_type maxsize w =
     (if wire_type = PB_WT_VARINT then raw_varint maxsize E st w
      else if wire_type = PB_WT_64BIT then pb_read E st RLocal 8 w
      else if wire_type = PB_WT_32BIT then pb_read E st RLocal 4 w
      else Ret (False, [], ierror st ''invalid wire_type'', w))"

text \<open>Result: success, the stream, the substream, the world. The substream is written only when the
  length could be read.\<close>

definition pb_make_string_substream ::
  "env \<Rightarrow> istream \<Rightarrow> world \<Rightarrow> (bool \<times> istream \<times> istream \<times> world) res" where
  "pb_make_string_substream E st w =
     res_bind (pb_decode_varint32 E st w) (\<lambda>(ok, len, st, w).
     if \<not> ok then Ret (False, st, st, w)
     else if bytes_left st < ucast len
     then Ret (False, ierror st ''parent stream too short'', st, w)
     else Ret (True, st\<lparr>bytes_left := bytes_left st - ucast len\<rparr>,
               st\<lparr>bytes_left := ucast len\<rparr>, w))"

definition pb_close_string_substream ::
  "env \<Rightarrow> istream \<Rightarrow> istream \<Rightarrow> world \<Rightarrow> (bool \<times> istream \<times> istream \<times> world) res" where
  "pb_close_string_substream E st substream w =
     res_bind (if bytes_left substream \<noteq> 0
               then pb_read E substream RNull (bytes_left substream) w
               else Ret (True, [], substream, w)) (\<lambda>(ok, _, substream, w).
     if \<not> ok then Ret (False, st, substream, w)
     else Ret (True, st\<lparr>istate := istate substream, ierrmsg := ierrmsg substream\<rparr>, substream, w))"

end
