(* ===== verification/PbDecode.thy ===== *)
theory PbDecode
  imports PbMessage PbIstream
begin

text \<open>
  The message decoder of \<open>pb_decode.c\<close>. Each C function is one definition (its loops are
  definitions of their own); the functions that end up in \<open>pb_decode_noinit\<close> again (through a
  submessage) take it as the argument \<open>rec\<close>, and \<open>pb_decode_noinit\<close> itself is defined by recursion
  on the fuel, which also bounds every loop. The local \<open>fixed_count_size\<close>, whose address the
  iterator may hold, and the buffer that a scalar is copied to for a callback, live on the stack of
  the world.
\<close>

type_synonym dec = "istream \<Rightarrow> addr \<Rightarrow> addr \<Rightarrow> world \<Rightarrow> (bool \<times> istream \<times> world) res"
type_synonym item_dec = "istream \<Rightarrow> addr \<Rightarrow> world \<Rightarrow> (bool \<times> istream \<times> world) res"

section \<open>Allocation\<close>

definition allocate_field ::
  "istream \<Rightarrow> addr \<Rightarrow> u64 \<Rightarrow> u64 \<Rightarrow> world \<Rightarrow> (bool \<times> istream \<times> world) res" where
  "allocate_field st pdata dsize asize w =
     res_bind (load_ptr w pdata) (\<lambda>p.
     if dsize = 0 \<or> asize = 0 then Ret (False, ierror st ''invalid size'', w)
     else let check_limit = push_bit 32 1; size_max = - 1
       in if (check_limit \<le> dsize \<or> check_limit \<le> asize) \<and> size_max div asize < dsize
          then Ret (False, ierror st ''size too large'', w)
          else res_bind (c_realloc w p (unat (asize * dsize))) (\<lambda>(p, w).
            if p = 0 then Ret (False, ierror st ''realloc failed'', w)
            else res_bind (store_ptr w pdata p) (\<lambda>w. Ret (True, st, w))))"

definition initialize_pointer_field ::
  "nat \<Rightarrow> env \<Rightarrow> pb_field \<Rightarrow> addr \<Rightarrow> world \<Rightarrow> world res" where
  "initialize_pointer_field n E f item w =
     (let l = PB_LTYPE (ftype f)
      in if l = PB_LTYPE_STRING \<or> l = PB_LTYPE_BYTES then store_ptr w item 0
         else if l = PB_LTYPE_SUBMESSAGE
         then res_bind (c_memset w item 0 (unat (data_size f))) (\<lambda>w.
           pb_message_set_to_defaults n E (ptr f) item w)
         else Ret w)"

section \<open>The decoders of the field types\<close>

definition pb_dec_bool :: "env \<Rightarrow> istream \<Rightarrow> addr \<Rightarrow> world \<Rightarrow> (bool \<times> istream \<times> world) res" where
  "pb_dec_bool E st dest w =
     res_bind (pb_decode_varint32 E st w) (\<lambda>(ok, v, st, w).
     if \<not> ok then Ret (False, st, w)
     else res_bind (store_bool w dest (v \<noteq> 0)) (\<lambda>w. Ret (True, st, w)))"

definition pb_decode_bool :: "env \<Rightarrow> istream \<Rightarrow> addr \<Rightarrow> world \<Rightarrow> (bool \<times> istream \<times> world) res" where
  "pb_decode_bool E st dest w = pb_dec_bool E st dest w"

text \<open>The common end of the three varint decoders: \<open>clamped\<close> is what the field holds afterwards.\<close>

definition check_clamped ::
  "istream \<Rightarrow> u64 \<Rightarrow> (u64 option \<times> world) \<Rightarrow> (bool \<times> istream \<times> world) res" where
  "check_clamped st v r =
     (case r of
        (None, w) \<Rightarrow> Ret (False, ierror st ''invalid data_size'', w)
      | (Some clamped, w) \<Rightarrow>
          if clamped \<noteq> v then Ret (False, ierror st ''integer too large'', w) else Ret (True, st, w))"

text \<open>Store a 64-bit value into a signed, or an unsigned, field of the given size, and read it back.\<close>

definition store_clamped_signed :: "pb_size \<Rightarrow> addr \<Rightarrow> u64 \<Rightarrow> world \<Rightarrow> (u64 option \<times> world) res" where
  "store_clamped_signed dsize dest v w =
     (if dsize = 8 then res_bind (store_u64 w dest v) (\<lambda>w. Ret (Some v, w))
      else if dsize = 4
      then res_bind (store_u32 w dest (ucast v)) (\<lambda>w. Ret (Some (scast (ucast v :: u32)), w))
      else if dsize = 2
      then res_bind (store_u16 w dest (ucast v)) (\<lambda>w. Ret (Some (scast (ucast v :: u16)), w))
      else if dsize = 1
      then res_bind (store_byte w dest (ucast v)) (\<lambda>w. Ret (Some (scast (ucast v :: u8)), w))
      else Ret (None, w))"

definition store_clamped_unsigned :: "pb_size \<Rightarrow> addr \<Rightarrow> u64 \<Rightarrow> world \<Rightarrow> (u64 option \<times> world) res" where
  "store_clamped_unsigned dsize dest v w =
     (if dsize = 8 then res_bind (store_u64 w dest v) (\<lambda>w. Ret (Some v, w))
      else if dsize = 4
      then res_bind (store_u32 w dest (ucast v)) (\<lambda>w. Ret (Some (ucast (ucast v :: u32)), w))
      else if dsize = 2
      then res_bind (store_u16 w dest (ucast v)) (\<lambda>w. Ret (Some (ucast (ucast v :: u16)), w))
      else if dsize = 1
      then res_bind (store_byte w dest (ucast v)) (\<lambda>w. Ret (Some (ucast (ucast v :: u8)), w))
      else Ret (None, w))"

definition pb_dec_varint ::
  "env \<Rightarrow> pb_field \<Rightarrow> istream \<Rightarrow> addr \<Rightarrow> world \<Rightarrow> (bool \<times> istream \<times> world) res" where
  "pb_dec_varint E f st dest w =
     res_bind (pb_decode_varint E st w) (\<lambda>(ok, v, st, w).
     if \<not> ok then Ret (False, st, w)
     else let svalue = (if data_size f = 8 then v else scast (ucast v :: u32))
       in res_bind (store_clamped_signed (data_size f) dest svalue w) (check_clamped st svalue))"

definition pb_dec_uvarint ::
  "env \<Rightarrow> pb_field \<Rightarrow> istream \<Rightarrow> addr \<Rightarrow> world \<Rightarrow> (bool \<times> istream \<times> world) res" where
  "pb_dec_uvarint E f st dest w =
     res_bind (pb_decode_varint E st w) (\<lambda>(ok, v, st, w).
     if \<not> ok then Ret (False, st, w)
     else res_bind (store_clamped_unsigned (data_size f) dest v w) (check_clamped st v))"

definition pb_dec_svarint ::
  "env \<Rightarrow> pb_field \<Rightarrow> istream \<Rightarrow> addr \<Rightarrow> world \<Rightarrow> (bool \<times> istream \<times> world) res" where
  "pb_dec_svarint E f st dest w =
     res_bind (pb_decode_svarint E st w) (\<lambda>(ok, v, st, w).
     if \<not> ok then Ret (False, st, w)
     else res_bind (store_clamped_signed (data_size f) dest v w) (check_clamped st v))"

definition pb_dec_fixed32 :: "env \<Rightarrow> istream \<Rightarrow> addr \<Rightarrow> world \<Rightarrow> (bool \<times> istream \<times> world) res" where
  "pb_dec_fixed32 E st dest w = pb_decode_fixed32 E st dest w"

definition pb_dec_fixed64 :: "env \<Rightarrow> istream \<Rightarrow> addr \<Rightarrow> world \<Rightarrow> (bool \<times> istream \<times> world) res" where
  "pb_dec_fixed64 E st dest w = pb_decode_fixed64 E st dest w"

definition pb_dec_bytes ::
  "env \<Rightarrow> pb_field \<Rightarrow> istream \<Rightarrow> addr \<Rightarrow> world \<Rightarrow> (bool \<times> istream \<times> world) res" where
  "pb_dec_bytes E f st dest w =
     res_bind (pb_decode_varint32 E st w) (\<lambda>(ok, sz, st, w).
     if \<not> ok then Ret (False, st, w)
     else if PB_SIZE_MAX < sz then Ret (False, ierror st ''bytes overflow'', w)
     else let alloc_size = PB_BYTES_ARRAY_T_ALLOCSIZE (ucast sz)
       in if alloc_size < ucast sz then Ret (False, ierror st ''size too large'', w)
          else res_bind
            (if PB_ATYPE (ftype f) = PB_ATYPE_POINTER
             then res_bind (allocate_field st dest alloc_size 1 w) (\<lambda>(ok, st, w).
               if \<not> ok then Ret (False, 0, st, w)
               else res_bind (load_ptr w dest) (\<lambda>bdest. Ret (True, bdest, st, w)))
             else if ucast (data_size f) < alloc_size
             then Ret (False, 0, ierror st ''bytes overflow'', w)
             else Ret (True, dest, st, w)) (\<lambda>(ok, bdest, st, w).
          if \<not> ok then Ret (False, st, w)
          else res_bind (store_u32 w bdest sz) (\<lambda>w.
            res_bind (pb_read E st (RMem (bdest + offsetof_bytes)) (ucast sz) w)
              (\<lambda>(ok, _, st, w). Ret (ok, st, w)))))"

text \<open>\<open>size + 1\<close> is computed in 32 bits before it is converted to \<open>size_t\<close>.\<close>

definition pb_dec_string ::
  "env \<Rightarrow> pb_field \<Rightarrow> istream \<Rightarrow> addr \<Rightarrow> world \<Rightarrow> (bool \<times> istream \<times> world) res" where
  "pb_dec_string E f st dest w =
     res_bind (pb_decode_varint32 E st w) (\<lambda>(ok, sz, st, w).
     if \<not> ok then Ret (False, st, w)
     else let alloc_size = ucast (sz + 1) :: u64
       in if alloc_size < ucast sz then Ret (False, ierror st ''size too large'', w)
          else res_bind
            (if PB_ATYPE (ftype f) = PB_ATYPE_POINTER
             then res_bind (allocate_field st dest alloc_size 1 w) (\<lambda>(ok, st, w).
               if \<not> ok then Ret (False, 0, st, w)
               else res_bind (load_ptr w dest) (\<lambda>dest. Ret (True, dest, st, w)))
             else if ucast (data_size f) < alloc_size
             then Ret (False, 0, ierror st ''string overflow'', w)
             else Ret (True, dest, st, w)) (\<lambda>(ok, dest, st, w).
          if \<not> ok then Ret (False, st, w)
          else res_bind (pb_read E st (RMem dest) (ucast sz) w) (\<lambda>(status, _, st, w).
            res_bind (store_byte w (dest + uint sz) 0) (\<lambda>w. Ret (status, st, w)))))"

text \<open>\<open>pb_decode\<close>, where \<open>rec\<close> is \<open>pb_decode_noinit\<close>.\<close>

definition decode_message :: "nat \<Rightarrow> env \<Rightarrow> dec \<Rightarrow> dec" where
  "decode_message n E rec st flds dest w =
     res_bind (pb_message_set_to_defaults n E flds dest w) (\<lambda>w.
     res_bind (rec st flds dest w) (\<lambda>(status, st, w).
     if \<not> status then res_bind (pb_release n E flds dest w) (\<lambda>w. Ret (status, st, w))
     else Ret (status, st, w)))"

definition pb_dec_submessage ::
  "nat \<Rightarrow> env \<Rightarrow> dec \<Rightarrow> pb_field \<Rightarrow> istream \<Rightarrow> addr \<Rightarrow> world \<Rightarrow> (bool \<times> istream \<times> world) res" where
  "pb_dec_submessage n E rec f st dest w =
     res_bind (pb_make_string_substream E st w) (\<lambda>(ok, st, substream, w).
     if \<not> ok then Ret (False, st, w)
     else if ptr f = 0 then Ret (False, ierror st ''invalid field descriptor'', w)
     else res_bind (if PB_HTYPE (ftype f) = PB_HTYPE_REPEATED
                    then decode_message n E rec substream (ptr f) dest w
                    else rec substream (ptr f) dest w) (\<lambda>(status, substream, w).
     res_bind (pb_close_string_substream E st substream w) (\<lambda>(ok, st, _, w).
     if \<not> ok then Ret (False, st, w) else Ret (status, st, w))))"

definition pb_dec_fixed_length_bytes ::
  "env \<Rightarrow> pb_field \<Rightarrow> istream \<Rightarrow> addr \<Rightarrow> world \<Rightarrow> (bool \<times> istream \<times> world) res" where
  "pb_dec_fixed_length_bytes E f st dest w =
     res_bind (pb_decode_varint32 E st w) (\<lambda>(ok, sz, st, w).
     if \<not> ok then Ret (False, st, w)
     else if PB_SIZE_MAX < sz then Ret (False, ierror st ''bytes overflow'', w)
     else if sz = 0
     then res_bind (c_memset w dest 0 (unat (data_size f))) (\<lambda>w. Ret (True, st, w))
     else if sz \<noteq> data_size f
     then Ret (False, ierror st ''incorrect fixed length bytes size'', w)
     else res_bind (pb_read E st (RMem dest) (ucast (data_size f)) w)
       (\<lambda>(ok, _, st, w). Ret (ok, st, w)))"

definition PB_DECODERS :: "nat \<Rightarrow> env \<Rightarrow> dec \<Rightarrow> u8 \<Rightarrow> pb_field \<Rightarrow> item_dec" where
  "PB_DECODERS n E rec l f st dest w =
     (if l = PB_LTYPE_BOOL then pb_dec_bool E st dest w
      else if l = PB_LTYPE_VARINT then pb_dec_varint E f st dest w
      else if l = PB_LTYPE_UVARINT then pb_dec_uvarint E f st dest w
      else if l = PB_LTYPE_SVARINT then pb_dec_svarint E f st dest w
      else if l = PB_LTYPE_FIXED32 then pb_dec_fixed32 E st dest w
      else if l = PB_LTYPE_FIXED64 then pb_dec_fixed64 E st dest w
      else if l = PB_LTYPE_BYTES then pb_dec_bytes E f st dest w
      else if l = PB_LTYPE_STRING then pb_dec_string E f st dest w
      else if l = PB_LTYPE_SUBMESSAGE then pb_dec_submessage n E rec f st dest w
      else if l = PB_LTYPE_FIXED_LENGTH_BYTES then pb_dec_fixed_length_bytes E f st dest w
      else Undef)"

section \<open>Static fields\<close>

text \<open>The address of the \<open>count\<close>-th item; the offset is a product of two 32-bit sizes.\<close>

definition item_addr :: "pb_field \<Rightarrow> addr \<Rightarrow> pb_size \<Rightarrow> addr" where
  "item_addr f p count = p + uint (data_size f * count)"

text \<open>The loop over a packed array.\<close>

primrec packed_static :: "nat \<Rightarrow> pb_field \<Rightarrow> item_dec \<Rightarrow> addr \<Rightarrow> addr \<Rightarrow> istream \<Rightarrow> world \<Rightarrow>
    (bool \<times> istream \<times> world) res" where
  "packed_static 0 f func pdata psize substream w = NoFuel"
| "packed_static (Suc n) f func pdata psize substream w =
     (if bytes_left substream = 0 then Ret (True, substream, w)
      else res_bind (load_u32 w psize) (\<lambda>count.
        if \<not> count < array_size f then Ret (True, substream, w)
        else res_bind (func substream (item_addr f pdata count) w) (\<lambda>(ok, substream, w).
          if \<not> ok then Ret (False, substream, w)
          else res_bind (load_u32 w psize) (\<lambda>count.
            res_bind (store_u32 w psize (count + 1)) (\<lambda>w.
            packed_static n f func pdata psize substream w)))))"

definition decode_static_field :: "nat \<Rightarrow> env \<Rightarrow> dec \<Rightarrow> istream \<Rightarrow> pb_wire_type \<Rightarrow> pb_field_iter \<Rightarrow>
    world \<Rightarrow> (bool \<times> istream \<times> world) res" where
  "decode_static_field n E rec st wire_type iter w =
     res_bind (field_at E (it_pos iter)) (\<lambda>f.
     let ty = ftype f; func = PB_DECODERS n E rec (PB_LTYPE ty) f; h = PB_HTYPE ty
     in if PB_LTYPES_COUNT \<le> PB_LTYPE ty then Undef
        else if h = PB_HTYPE_REQUIRED then func st (pData iter) w
        else if h = PB_HTYPE_OPTIONAL
        then res_bind (if pSize iter \<noteq> pData iter then store_bool w (pSize iter) True else Ret w)
          (\<lambda>w. func st (pData iter) w)
        else if h = PB_HTYPE_REPEATED \<and> wire_type = PB_WT_STRING \<and>
                PB_LTYPE ty \<le> PB_LTYPE_LAST_PACKABLE
        then res_bind (pb_make_string_substream E st w) (\<lambda>(ok, st, substream, w).
          if \<not> ok then Ret (False, st, w)
          else res_bind (packed_static n f func (pData iter) (pSize iter) substream w)
            (\<lambda>(status, substream, w).
            if bytes_left substream \<noteq> 0 then Ret (False, ierror st ''array overflow'', w)
            else res_bind (pb_close_string_substream E st substream w) (\<lambda>(ok, st, _, w).
              if \<not> ok then Ret (False, st, w) else Ret (status, st, w))))
        else if h = PB_HTYPE_REPEATED
        then res_bind (load_u32 w (pSize iter)) (\<lambda>count.
          res_bind (store_u32 w (pSize iter) (count + 1)) (\<lambda>w.
          if array_size f \<le> count then Ret (False, ierror st ''array overflow'', w)
          else func st (item_addr f (pData iter) count) w))
        else res_bind (store_u32 w (pSize iter) (tag f)) (\<lambda>w.
          res_bind (if PB_LTYPE ty = PB_LTYPE_SUBMESSAGE
                    then res_bind (c_memset w (pData iter) 0 (unat (data_size f))) (\<lambda>w.
                      pb_message_set_to_defaults n E (ptr f) (pData iter) w)
                    else Ret w) (\<lambda>w. func st (pData iter) w)))"

section \<open>Pointer fields\<close>

text \<open>The loop over a packed array. \<open>stream\<close> is the outer stream, where one error message goes; the
  result holds the status, both streams and the world.\<close>

primrec packed_pointer :: "nat \<Rightarrow> env \<Rightarrow> pb_field \<Rightarrow> item_dec \<Rightarrow> addr \<Rightarrow> addr \<Rightarrow> u64 \<Rightarrow> istream \<Rightarrow>
    istream \<Rightarrow> world \<Rightarrow> (bool \<times> istream \<times> istream \<times> world) res" where
  "packed_pointer 0 E f func pdata psize allocated st substream w = NoFuel"
| "packed_pointer (Suc n) E f func pdata psize allocated st substream w =
     (if bytes_left substream = 0 then Ret (True, st, substream, w)
      else res_bind (load_u32 w psize) (\<lambda>count.
        if count = PB_SIZE_MAX
        then Ret (False, st\<lparr>ierrmsg := Some ''too many array entries''\<rparr>, substream, w)
        else res_bind
          (if allocated < ucast count + 1
           then if data_size f = 0 then Undef
             else let remain = (bytes_left substream - 1) div ucast (data_size f) + 1;
                      allocated = (if remain < ucast PB_SIZE_MAX - allocated
                                   then allocated + remain else allocated + 1)
               in res_bind (allocate_field substream pdata (ucast (data_size f)) allocated w)
                    (\<lambda>(ok, substream, w). Ret (ok, allocated, substream, w))
           else Ret (True, allocated, substream, w)) (\<lambda>(ok, allocated, substream, w).
          if \<not> ok then Ret (False, st, substream, w)
          else res_bind (load_ptr w pdata) (\<lambda>base.
            res_bind (load_u32 w psize) (\<lambda>count.
            let item = item_addr f base count
            in res_bind (initialize_pointer_field n E f item w) (\<lambda>w.
            res_bind (func substream item w) (\<lambda>(ok, substream, w).
            if \<not> ok then Ret (False, st, substream, w)
            else res_bind (load_u32 w psize) (\<lambda>count.
              res_bind (store_u32 w psize (count + 1)) (\<lambda>w.
              packed_pointer n E f func pdata psize allocated st substream w)))))))))"

definition decode_pointer_field :: "nat \<Rightarrow> env \<Rightarrow> dec \<Rightarrow> istream \<Rightarrow> pb_wire_type \<Rightarrow> pb_field_iter \<Rightarrow>
    world \<Rightarrow> (bool \<times> istream \<times> world) res" where
  "decode_pointer_field n E rec st wire_type iter w =
     res_bind (field_at E (it_pos iter)) (\<lambda>f.
     let ty = ftype f; l = PB_LTYPE ty; func = PB_DECODERS n E rec l f; h = PB_HTYPE ty
     in if PB_LTYPES_COUNT \<le> l then Undef
        else if h \<noteq> PB_HTYPE_REPEATED
        then res_bind
          (if l = PB_LTYPE_SUBMESSAGE
           then res_bind (load_ptr w (pData iter)) (\<lambda>p.
             if p \<noteq> 0 then pb_release_single_field n E (pb_release n E) iter w else Ret w)
           else Ret w) (\<lambda>w.
          res_bind (if h = PB_HTYPE_ONEOF then store_u32 w (pSize iter) (tag f) else Ret w) (\<lambda>w.
          if l = PB_LTYPE_STRING \<or> l = PB_LTYPE_BYTES then func st (pData iter) w
          else res_bind (allocate_field st (pData iter) (ucast (data_size f)) 1 w)
            (\<lambda>(ok, st, w).
            if \<not> ok then Ret (False, st, w)
            else res_bind (load_ptr w (pData iter)) (\<lambda>p.
              res_bind (initialize_pointer_field n E f p w) (\<lambda>w.
              res_bind (load_ptr w (pData iter)) (\<lambda>p. func st p w))))))
        else if wire_type = PB_WT_STRING \<and> l \<le> PB_LTYPE_LAST_PACKABLE
        then res_bind (load_u32 w (pSize iter)) (\<lambda>count.
          res_bind (pb_make_string_substream E st w) (\<lambda>(ok, st, substream, w).
          if \<not> ok then Ret (False, st, w)
          else res_bind (packed_pointer n E f func (pData iter) (pSize iter) (ucast count) st
                 substream w) (\<lambda>(status, st, substream, w).
            res_bind (pb_close_string_substream E st substream w) (\<lambda>(ok, st, _, w).
            if \<not> ok then Ret (False, st, w) else Ret (status, st, w)))))
        else res_bind (load_u32 w (pSize iter)) (\<lambda>count.
          if count = PB_SIZE_MAX then Ret (False, ierror st ''too many array entries'', w)
          else res_bind
            (allocate_field st (pData iter) (ucast (data_size f)) (ucast (count + 1)) w)
            (\<lambda>(ok, st, w).
            if \<not> ok then Ret (False, st, w)
            else res_bind (load_ptr w (pData iter)) (\<lambda>base.
              res_bind (load_u32 w (pSize iter)) (\<lambda>count.
              let item = item_addr f base count
              in res_bind (store_u32 w (pSize iter) (count + 1)) (\<lambda>w.
              res_bind (initialize_pointer_field n E f item w) (\<lambda>w. func st item w)))))))"

section \<open>Callback fields\<close>

text \<open>The \<open>do\<close> loop that hands a string to the callback until it is used up; \<open>c\<close> is the address of
  the \<open>pb_callback_t\<close>. The result holds the status, the substream and the world.\<close>

definition call_decoder ::
  "env \<Rightarrow> addr \<Rightarrow> addr \<Rightarrow> istream \<Rightarrow> world \<Rightarrow> (bool \<times> istream \<times> world) res" where
  "call_decoder E c fa substream w =
     res_bind (load_ptr w (callback_funcs c)) (\<lambda>fn.
     case field_decoder E fn of
       None \<Rightarrow> Undef
     | Some dec \<Rightarrow> dec substream fa (callback_arg c) w)"

primrec callback_loop ::
  "nat \<Rightarrow> env \<Rightarrow> addr \<Rightarrow> addr \<Rightarrow> istream \<Rightarrow> world \<Rightarrow> (bool \<times> istream \<times> world) res" where
  "callback_loop 0 E c fa substream w = NoFuel"
| "callback_loop (Suc n) E c fa substream w =
     res_bind (call_decoder E c fa substream w) (\<lambda>(ok, substream, w).
     if \<not> ok then Ret (False, substream, w)
     else if bytes_left substream \<noteq> 0 then callback_loop n E c fa substream w
     else Ret (True, substream, w))"

definition decode_callback_field :: "nat \<Rightarrow> env \<Rightarrow> istream \<Rightarrow> pb_wire_type \<Rightarrow> pb_field_iter \<Rightarrow>
    world \<Rightarrow> (bool \<times> istream \<times> world) res" where
  "decode_callback_field n E st wire_type iter w =
     (let c = pData iter
      in res_bind (if c = 0 then Ret 0 else load_ptr w (callback_funcs c)) (\<lambda>fn.
         if fn = 0 then pb_skip_field E st wire_type w
         else if wire_type = PB_WT_STRING
         then res_bind (pb_make_string_substream E st w) (\<lambda>(ok, st, substream, w).
           if \<not> ok then Ret (False, st, w)
           else res_bind (callback_loop n E c (it_pos iter) substream w) (\<lambda>(ok, substream, w).
             if \<not> ok then Ret (False, ierror st ''callback failed'', w)
             else res_bind (pb_close_string_substream E st substream w) (\<lambda>(ok, st, _, w).
               Ret (ok, st, w))))
         else res_bind (read_raw_value E st wire_type 10 w) (\<lambda>(ok, bs, st, w).
           if \<not> ok then Ret (False, st, w)
           else let w = push_local bs w;
                    substream = pb_istream_from_buffer (stack w) (of_nat (length bs))
             in res_bind (call_decoder E c (it_pos iter) substream w) (\<lambda>(ok, _, w).
                Ret (ok, st, pop_local (length bs) w)))))"

section \<open>Fields and extensions\<close>

text \<open>The result holds the success, the stream, the iterator and the world: releasing the old member
  of a union moves the iterator and brings it back.\<close>

definition decode_field :: "nat \<Rightarrow> env \<Rightarrow> dec \<Rightarrow> istream \<Rightarrow> pb_wire_type \<Rightarrow> pb_field_iter \<Rightarrow>
    world \<Rightarrow> (bool \<times> istream \<times> pb_field_iter \<times> world) res" where
  "decode_field n E rec st wire_type iter w =
     res_bind (field_at E (it_pos iter)) (\<lambda>f.
     res_bind (if PB_HTYPE (ftype f) = PB_HTYPE_ONEOF then pb_release_union_field n E st iter w
               else Ret (True, st, iter, w)) (\<lambda>(ok, st, iter, w).
     if \<not> ok then Ret (False, st, iter, w)
     else res_bind (field_at E (it_pos iter)) (\<lambda>f.
       let a = PB_ATYPE (ftype f)
       in res_bind
            (if a = PB_ATYPE_STATIC then decode_static_field n E rec st wire_type iter w
             else if a = PB_ATYPE_POINTER then decode_pointer_field n E rec st wire_type iter w
             else if a = PB_ATYPE_CALLBACK then decode_callback_field n E st wire_type iter w
             else Ret (False, ierror st ''invalid field type'', w)) (\<lambda>(ok, st, w).
          Ret (ok, st, iter, w)))))"

definition default_extension_decoder :: "nat \<Rightarrow> env \<Rightarrow> dec \<Rightarrow> istream \<Rightarrow> addr \<Rightarrow> u32 \<Rightarrow>
    pb_wire_type \<Rightarrow> world \<Rightarrow> (bool \<times> istream \<times> world) res" where
  "default_extension_decoder n E rec st e t wire_type w =
     res_bind (load_ptr w (ext_type e)) (\<lambda>et.
     res_bind (load_ptr w (exttype_arg et)) (\<lambda>fa.
     res_bind (field_at E fa) (\<lambda>f.
     if tag f \<noteq> t then Ret (True, st, w)
     else res_bind (iter_from_extension E w e) (\<lambda>iter.
       res_bind (store_bool w (ext_found e) True) (\<lambda>w.
       res_bind (decode_field n E rec st wire_type iter w) (\<lambda>(ok, st, _, w). Ret (ok, st, w)))))))"

text \<open>The loop of \<open>decode_extension\<close>, from the extension \<open>e\<close>; \<open>pos\<close> is \<open>bytes_left\<close> at the start.\<close>

primrec decode_extensions :: "nat \<Rightarrow> env \<Rightarrow> dec \<Rightarrow> u64 \<Rightarrow> istream \<Rightarrow> u32 \<Rightarrow> pb_wire_type \<Rightarrow> addr \<Rightarrow>
    world \<Rightarrow> (bool \<times> istream \<times> world) res" where
  "decode_extensions 0 E rec pos st t wire_type e w = NoFuel"
| "decode_extensions (Suc n) E rec pos st t wire_type e w =
     (if \<not> (e \<noteq> 0 \<and> pos = bytes_left st) then Ret (True, st, w)
      else res_bind (load_ptr w (ext_type e)) (\<lambda>et.
        res_bind (load_ptr w (exttype_decode et)) (\<lambda>fn.
        res_bind (if fn \<noteq> 0
                  then (case ext_decoder E fn of None \<Rightarrow> Undef | Some dec \<Rightarrow> dec st e t wire_type w)
                  else default_extension_decoder n E rec st e t wire_type w) (\<lambda>(status, st, w).
        if \<not> status then Ret (False, st, w)
        else res_bind (load_ptr w (ext_next e)) (\<lambda>e.
          decode_extensions n E rec pos st t wire_type e w)))))"

definition decode_extension :: "nat \<Rightarrow> env \<Rightarrow> dec \<Rightarrow> istream \<Rightarrow> u32 \<Rightarrow> pb_wire_type \<Rightarrow>
    pb_field_iter \<Rightarrow> world \<Rightarrow> (bool \<times> istream \<times> world) res" where
  "decode_extension n E rec st t wire_type iter w =
     res_bind (load_ptr w (pData iter)) (\<lambda>e.
     decode_extensions n E rec (bytes_left st) st t wire_type e w)"

primrec find_ext_loop :: "nat \<Rightarrow> env \<Rightarrow> addr \<Rightarrow> pb_field_iter \<Rightarrow> (bool \<times> pb_field_iter) res" where
  "find_ext_loop 0 E start iter = NoFuel"
| "find_ext_loop (Suc n) E start iter =
     res_bind (field_at E (it_pos iter)) (\<lambda>f.
     if PB_LTYPE (ftype f) = PB_LTYPE_EXTENSION then Ret (True, iter)
     else res_bind (pb_field_iter_next E iter) (\<lambda>(_, iter).
       if it_pos iter \<noteq> start then find_ext_loop n E start iter else Ret (False, iter)))"

definition find_extension_field :: "nat \<Rightarrow> env \<Rightarrow> pb_field_iter \<Rightarrow> (bool \<times> pb_field_iter) res" where
  "find_extension_field n E iter = find_ext_loop n E (it_pos iter) iter"

section \<open>Required fields\<close>

text \<open>\<open>fields_seen\<close> is an array of two 32-bit words.\<close>

definition mark_seen :: "u32 \<Rightarrow> u32 list \<Rightarrow> u32 list" where
  "mark_seen i seen =
     (let k = unat (drop_bit 5 i) in seen[k := (seen ! k) OR push_bit (unat (i AND 31)) 1])"

definition all_required_seen :: "u32 \<Rightarrow> u32 list \<Rightarrow> bool" where
  "all_required_seen count seen \<longleftrightarrow>
     (let whole = unat (drop_bit 5 count); allbits = NOT (0 :: u32)
      in list_all (\<lambda>i. seen ! i = allbits) [0..<whole] \<and>
         (count AND 31 \<noteq> 0 \<longrightarrow> seen ! whole = drop_bit (unat (32 - (count AND 31))) allbits))"

text \<open>The \<open>do\<close> loop to the end of the array: \<open>req_field_count\<close>, \<open>last_type\<close> and the iterator.\<close>

primrec req_count_loop :: "nat \<Rightarrow> env \<Rightarrow> pb_field_iter \<Rightarrow> (u32 \<times> u8 \<times> pb_field_iter) res" where
  "req_count_loop 0 E iter = NoFuel"
| "req_count_loop (Suc n) E iter =
     (let count = required_field_index iter
      in res_bind (field_at E (it_pos iter)) (\<lambda>f.
         res_bind (pb_field_iter_next E iter) (\<lambda>(more, iter).
         if more then req_count_loop n E iter else Ret (count, ftype f, iter))))"

definition check_required ::
  "nat \<Rightarrow> env \<Rightarrow> pb_field_iter \<Rightarrow> u32 list \<Rightarrow> istream \<Rightarrow> (bool \<times> istream) res" where
  "check_required n E iter seen st =
     res_bind (req_count_loop n E iter) (\<lambda>(count, last_type, iter).
     res_bind (field_at E (it_pos iter)) (\<lambda>f.
     let count = (if PB_HTYPE last_type = PB_HTYPE_REQUIRED \<and> tag f \<noteq> 0 then count + 1 else count);
         count = (if of_nat PB_MAX_REQUIRED_FIELDS < count then of_nat PB_MAX_REQUIRED_FIELDS
                  else count)
     in if all_required_seen count seen then Ret (True, st)
        else Ret (False, ierror st ''missing required field'')))"

section \<open>Messages\<close>

text \<open>The locals of \<open>pb_decode_noinit\<close>; \<open>fixed_count_size\<close> is on the stack, at the address \<open>fc\<close> below.\<close>

record dec_state =
  fields_seen :: "u32 list"
  extension_range_start :: u32
  d_iter :: pb_field_iter
  fixed_count_field :: addr

definition fixed_count_ok :: "env \<Rightarrow> addr \<Rightarrow> addr \<Rightarrow> world \<Rightarrow> bool res" where
  "fixed_count_ok E field fc w =
     (if field = 0 then Ret True
      else res_bind (load_u32 w fc) (\<lambda>count.
        res_bind (field_at E field) (\<lambda>f. Ret (count = array_size f))))"

text \<open>A field whose tag is not in the descriptor array.\<close>

definition decode_unknown :: "nat \<Rightarrow> env \<Rightarrow> dec \<Rightarrow> istream \<Rightarrow> u32 \<Rightarrow> pb_wire_type \<Rightarrow> dec_state \<Rightarrow>
    world \<Rightarrow> (bool \<times> istream \<times> dec_state \<times> world) res" where
  "decode_unknown n E rec st t wire_type ds w =
     (let skip = (\<lambda>st ds w. res_bind (pb_skip_field E st wire_type w) (\<lambda>(ok, st, w).
                     Ret (ok, st, ds, w)))
      in if \<not> extension_range_start ds \<le> t then skip st ds w
         else res_bind (find_extension_field n E (d_iter ds)) (\<lambda>(found, iter).
           res_bind (if found then res_bind (field_at E (it_pos iter)) (\<lambda>f. Ret (tag f)) else Ret (- 1))
             (\<lambda>start.
           let ds = ds\<lparr>d_iter := iter, extension_range_start := start\<rparr>
           in if \<not> start \<le> t then skip st ds w
              else res_bind (decode_extension n E rec st t wire_type iter w) (\<lambda>(ok, st', w).
                if \<not> ok then Ret (False, st', ds, w)
                else if bytes_left st \<noteq> bytes_left st' then Ret (True, st', ds, w)
                else skip st' ds w))))"

text \<open>A field that was found; the iterator of the state is at it.\<close>

definition decode_known :: "nat \<Rightarrow> env \<Rightarrow> dec \<Rightarrow> addr \<Rightarrow> istream \<Rightarrow> pb_wire_type \<Rightarrow> dec_state \<Rightarrow>
    world \<Rightarrow> (bool \<times> istream \<times> dec_state \<times> world) res" where
  "decode_known n E rec fc st wire_type ds w =
     (let iter = d_iter ds
      in res_bind (field_at E (it_pos iter)) (\<lambda>f.
         res_bind
           (if PB_HTYPE (ftype f) = PB_HTYPE_REPEATED \<and> pSize iter = pData iter
            then res_bind
              (if fixed_count_field ds \<noteq> it_pos iter
               then res_bind (fixed_count_ok E (fixed_count_field ds) fc w) (\<lambda>ok.
                 if \<not> ok then Ret (False, ds, w)
                 else res_bind (store_u32 w fc 0) (\<lambda>w.
                   Ret (True, ds\<lparr>fixed_count_field := it_pos iter\<rparr>, w)))
               else Ret (True, ds, w)) (\<lambda>(ok, ds, w).
              Ret (ok, ds\<lparr>d_iter := iter\<lparr>pSize := fc\<rparr>\<rparr>, w))
            else Ret (True, ds, w)) (\<lambda>(ok, ds, w).
         if \<not> ok then Ret (False, ierror st ''wrong size for fixed count field'', ds, w)
         else let i = required_field_index iter;
                  ds = (if PB_HTYPE (ftype f) = PB_HTYPE_REQUIRED \<and>
                           i < of_nat PB_MAX_REQUIRED_FIELDS
                        then ds\<lparr>fields_seen := mark_seen i (fields_seen ds)\<rparr> else ds)
           in res_bind (decode_field n E rec st wire_type (d_iter ds) w) (\<lambda>(ok, st, iter, w).
              Ret (ok, st, ds\<lparr>d_iter := iter\<rparr>, w)))))"

text \<open>The \<open>while\<close> loop. A success is also reported when the loop is left by \<open>break\<close>.\<close>

primrec decode_loop :: "nat \<Rightarrow> env \<Rightarrow> dec \<Rightarrow> addr \<Rightarrow> istream \<Rightarrow> dec_state \<Rightarrow> world \<Rightarrow>
    (bool \<times> istream \<times> dec_state \<times> world) res" where
  "decode_loop 0 E rec fc st ds w = NoFuel"
| "decode_loop (Suc n) E rec fc st ds w =
     (if bytes_left st = 0 then Ret (True, st, ds, w)
      else res_bind (pb_decode_tag E st w) (\<lambda>(ok, wire_type, t, eof, st, w).
        if \<not> ok then Ret (eof, st, ds, w)
        else res_bind (pb_field_iter_find n E (d_iter ds) t) (\<lambda>(found, iter).
          let ds = ds\<lparr>d_iter := iter\<rparr>
          in res_bind (if found then decode_known n E rec fc st wire_type ds w
                       else decode_unknown n E rec st t wire_type ds w) (\<lambda>(ok, st, ds, w).
             if \<not> ok then Ret (False, st, ds, w) else decode_loop n E rec fc st ds w))))"

definition decode_body :: "nat \<Rightarrow> env \<Rightarrow> dec \<Rightarrow> dec" where
  "decode_body n E rec st flds dest w =
     (let w = push_local (le_bytes 4 (0 :: u32)) w; fc = stack w
      in res_bind (pb_field_iter_begin E flds dest) (\<lambda>(_, iter).
         res_bind (decode_loop n E rec fc st
           \<lparr>fields_seen = [0, 0], extension_range_start = 0, d_iter = iter, fixed_count_field = 0\<rparr> w)
           (\<lambda>(ok, st, ds, w).
         res_bind
           (if \<not> ok then Ret (False, st)
            else res_bind (fixed_count_ok E (fixed_count_field ds) fc w) (\<lambda>ok.
              if \<not> ok then Ret (False, ierror st ''wrong size for fixed count field'')
              else check_required n E (d_iter ds) (fields_seen ds) st)) (\<lambda>(ok, st).
         Ret (ok, st, pop_local 4 w)))))"

primrec pb_decode_noinit :: "nat \<Rightarrow> env \<Rightarrow> dec" where
  "pb_decode_noinit 0 E st flds dest w = NoFuel"
| "pb_decode_noinit (Suc n) E st flds dest w =
     decode_body n E (pb_decode_noinit n E) st flds dest w"

definition pb_decode :: "nat \<Rightarrow> env \<Rightarrow> dec" where
  "pb_decode n E st flds dest w = decode_message n E (pb_decode_noinit n E) st flds dest w"

definition decode_delimited :: "env \<Rightarrow> dec \<Rightarrow> dec" where
  "decode_delimited E dec st flds dest w =
     res_bind (pb_make_string_substream E st w) (\<lambda>(ok, st, substream, w).
     if \<not> ok then Ret (False, st, w)
     else res_bind (dec substream flds dest w) (\<lambda>(status, substream, w).
       res_bind (pb_close_string_substream E st substream w) (\<lambda>(ok, st, _, w).
       if \<not> ok then Ret (False, st, w) else Ret (status, st, w))))"

definition pb_decode_delimited_noinit :: "nat \<Rightarrow> env \<Rightarrow> dec" where
  "pb_decode_delimited_noinit n E = decode_delimited E (pb_decode_noinit n E)"

definition pb_decode_delimited :: "nat \<Rightarrow> env \<Rightarrow> dec" where
  "pb_decode_delimited n E = decode_delimited E (pb_decode n E)"

definition pb_decode_nullterminated :: "nat \<Rightarrow> env \<Rightarrow> dec" where
  "pb_decode_nullterminated n E st flds dest w = pb_decode n E st flds dest w"

section \<open>The loops over the descriptors\<close>

lemma req_count_loop_spec:
  assumes t: "table_at E a fs"
  shows "k < length fs \<Longrightarrow> length fs - k \<le> n \<Longrightarrow> req_count_loop n E (iter_at a fs dest k) =
    Ret (of_nat (n_required (butlast fs)), ftype (last fs), iter_at a fs dest 0)"
proof (induction "length fs - k" arbitrary: k n)
  case 0
  then show ?case by simp
next
  case (Suc m)
  then obtain n' where n: "n = Suc n'" by (cases n) auto
  show ?case
  proof (cases "Suc k < length fs")
    case True
    then have "req_count_loop n' E (iter_at a fs dest (Suc k)) =
        Ret (of_nat (n_required (butlast fs)), ftype (last fs), iter_at a fs dest 0)"
      using Suc.hyps(2) Suc.prems n by (intro Suc.hyps(1)) auto
    with True n Suc.prems(1) show ?thesis
      by (simp add: table_at_nth [OF t] pb_field_iter_next_spec [OF t])
  next
    case False
    with Suc.prems(1) have k: "k = length fs - 1" by simp
    moreover have "fs \<noteq> []" using Suc.prems(1) by auto
    ultimately show ?thesis
      using n Suc.prems(1) False
      by (simp add: table_at_nth [OF t] pb_field_iter_next_spec [OF t] last_conv_nth butlast_conv_take)
  qed
qed

lemma find_ext_loop_none:
  assumes t: "table_at E a fs" and k: "k < length fs"
    and no: "\<forall>f \<in> set fs. PB_LTYPE (ftype f) \<noteq> PB_LTYPE_EXTENSION"
  shows "i < length fs \<Longrightarrow> (if i < k then k - i else length fs - i + k) \<le> n \<Longrightarrow>
    find_ext_loop n E (a + sizeof_pb_field * int k) (iter_at a fs dest i) = Ret (False, iter_at a fs dest k)"
proof (induction n arbitrary: i)
  case 0
  then show ?case by (auto split: if_splits)
next
  case (Suc n)
  let ?j = "if Suc i < length fs then Suc i else 0"
  have ne: "PB_LTYPE (ftype (fs ! i)) \<noteq> PB_LTYPE_EXTENSION" using no Suc.prems(1) by simp
  show ?case
  proof (cases "?j = k")
    case True
    with ne Suc.prems(1) show ?thesis
      by (auto simp: table_at_nth [OF t] pb_field_iter_next_spec [OF t] split: if_splits)
  next
    case False
    have "find_ext_loop n E (a + sizeof_pb_field * int k) (iter_at a fs dest ?j) = Ret (False, iter_at a fs dest k)"
      using Suc.prems False k by (intro Suc.IH) (auto split: if_splits)
    with False ne Suc.prems(1) show ?thesis
      by (auto simp: table_at_nth [OF t] pb_field_iter_next_spec [OF t] split: if_splits)
  qed
qed

lemma find_extension_field_none:
  assumes "table_at E a fs" and "k < length fs" and "length fs \<le> n"
    and "\<forall>f \<in> set fs. PB_LTYPE (ftype f) \<noteq> PB_LTYPE_EXTENSION"
  shows "find_extension_field n E (iter_at a fs dest k) = Ret (False, iter_at a fs dest k)"
  using find_ext_loop_none [OF assms(1,2,4) assms(2), of n dest] assms(2,3)
  by (simp add: find_extension_field_def)

end
