(* ===== verification/PbReadSafe.thy ===== *)
theory PbReadSafe
  imports PbIstream
begin

text \<open>
  What the stream operations do on a memory-buffer stream, whatever bytes it holds: they return,
  read only inside the buffer, leave the memory alone (or change only the range they are told to
  fill) and keep the end of the stream in place. These are the lemmas the safety of the message
  decoder rests on.
\<close>

section \<open>Positions of a buffer stream\<close>

text \<open>\<open>B\<close> is a set of mapped addresses; the unread bytes of the stream are in it.\<close>

definition mapped_set :: "addr set \<Rightarrow> world \<Rightarrow> bool" where
  "mapped_set B w \<longleftrightarrow> (\<forall>x \<in> B. mem w x \<noteq> None)"

definition rd_ok :: "addr set \<Rightarrow> istream \<Rightarrow> bool" where
  "rd_ok B st \<longleftrightarrow> icallback st = Buf_read \<and> {istate st..<istate st + uint (bytes_left st)} \<subseteq> B"

text \<open>\<open>moved\<close>: from one state of a stream to a later one. \<open>adv\<close>: moreover the end is the same.\<close>

definition moved :: "istream \<Rightarrow> istream \<Rightarrow> bool" where
  "moved st st' \<longleftrightarrow>
     icallback st' = icallback st \<and> istate st \<le> istate st' \<and> bytes_left st' \<le> bytes_left st \<and>
     istate st' + uint (bytes_left st') \<le> istate st + uint (bytes_left st)"

definition adv :: "istream \<Rightarrow> istream \<Rightarrow> bool" where
  "adv st st' \<longleftrightarrow>
     icallback st' = icallback st \<and> bytes_left st' \<le> bytes_left st \<and>
     istate st' + uint (bytes_left st') = istate st + uint (bytes_left st)"

lemma mapped_set_mapped: "mapped_set B w \<Longrightarrow> {a..<a + n} \<subseteq> B \<Longrightarrow> mapped w a n"
  by (auto simp: mapped_set_def mapped_def)

lemma mapped_set_same_outside: "same_outside R w w' \<Longrightarrow> mapped_set B w' \<longleftrightarrow> mapped_set B w"
  by (simp add: mapped_set_def same_outside_None_iff)

lemma uint_le_u64: "(a :: u64) \<le> b \<longleftrightarrow> uint a \<le> uint b"
  by (simp add: word_le_def)

lemma uint_sub_u64: "b \<le> (a :: u64) \<Longrightarrow> uint (a - b) = uint a - uint b"
  by (simp add: uint_sub_if' word_le_def)

lemma adv_moved: "adv st st' \<Longrightarrow> moved st st'"
  by (auto simp: adv_def moved_def word_le_def)

lemma adv_refl [simp, intro]: "adv st st"
  by (simp add: adv_def)

lemma moved_refl [simp, intro]: "moved st st"
  by (simp add: moved_def)

lemma adv_trans: "adv a b \<Longrightarrow> adv b c \<Longrightarrow> adv a c"
  by (auto simp: adv_def)

lemma moved_trans: "moved a b \<Longrightarrow> moved b c \<Longrightarrow> moved a c"
  by (auto simp: moved_def)

lemma rd_ok_moved: "rd_ok B st \<Longrightarrow> moved st st' \<Longrightarrow> rd_ok B st'"
  by (force simp: rd_ok_def moved_def)

lemma rd_ok_adv: "rd_ok B st \<Longrightarrow> adv st st' \<Longrightarrow> rd_ok B st'"
  by (blast intro: rd_ok_moved adv_moved)

lemma adv_ierror [simp]: "adv st (ierror st' m) \<longleftrightarrow> adv st st'" "moved st (ierror st' m) \<longleftrightarrow> moved st st'"
  by (simp_all add: adv_def moved_def)

lemma rd_ok_ierror [simp]: "rd_ok B (ierror st m) \<longleftrightarrow> rd_ok B st"
  by (simp add: rd_ok_def)

text \<open>Reading \<open>c\<close> bytes.\<close>

definition step_by :: "u64 \<Rightarrow> istream \<Rightarrow> istream" where
  "step_by c st = st\<lparr>istate := istate st + uint c, bytes_left := bytes_left st - c\<rparr>"

lemma step_by_sel [simp]:
  "icallback (step_by c st) = icallback st" "istate (step_by c st) = istate st + uint c"
  "bytes_left (step_by c st) = bytes_left st - c" "ierrmsg (step_by c st) = ierrmsg st"
  by (simp_all add: step_by_def)

lemma adv_step_by: "c \<le> bytes_left st \<Longrightarrow> adv st (step_by c st)"
  by (simp add: adv_def uint_sub_u64) (simp add: uint_le_u64 uint_sub_u64)

lemma step_by_less:
  "c \<le> bytes_left st \<Longrightarrow> c \<noteq> 0 \<Longrightarrow> bytes_left (step_by c st) < bytes_left st"
  by (simp add: word_less_def uint_sub_u64 word_neq_0_conv)

section \<open>Reading\<close>

lemma rd_ok_range:
  "rd_ok B st \<Longrightarrow> mapped_set B w \<Longrightarrow> c \<le> bytes_left st \<Longrightarrow> mapped w (istate st) (int (unat c))"
  by (rule mapped_set_mapped) (auto simp: rd_ok_def uint_le_u64)

lemma pb_read_chunk_buf:
  assumes "rd_ok B st" and "mapped_set B w"
  shows "pb_read_chunk E st RLocal c w =
      (if bytes_left st < c then Ret (False, [], ierror st ''end-of-stream'', w)
       else Ret (True, bytes_at w (istate st) (unat c), step_by c st, w))"
    and "pb_read_chunk E st RNull c w =
      (if bytes_left st < c then Ret (False, [], ierror st ''end-of-stream'', w)
       else Ret (True, [], step_by c st, w))"
  using assms rd_ok_range [OF assms, of c]
  by (auto simp: pb_read_chunk_def istream_call_def buf_read_def rd_ok_def load_bytes_mapped
      step_by_def not_less Let_def)

lemma pb_read_buf:
  assumes "rd_ok B st" and "mapped_set B w"
  shows "pb_read E st RLocal c w =
      (if bytes_left st < c then Ret (False, [], ierror st ''end-of-stream'', w)
       else Ret (True, bytes_at w (istate st) (unat c), step_by c st, w))"
    and "pb_read E st RNull c w =
      (if bytes_left st < c then Ret (False, [], ierror st ''end-of-stream'', w)
       else Ret (True, [], step_by c st, w))"
proof -
  have "step_by 0 st = st" by (simp add: step_by_def)
  moreover have "\<not> bytes_left st < 0" by simp
  moreover have "icallback st = Buf_read" using assms(1) by (simp add: rd_ok_def)
  ultimately show "pb_read E st RLocal c w =
      (if bytes_left st < c then Ret (False, [], ierror st ''end-of-stream'', w)
       else Ret (True, bytes_at w (istate st) (unat c), step_by c st, w))"
    and "pb_read E st RNull c w =
      (if bytes_left st < c then Ret (False, [], ierror st ''end-of-stream'', w)
       else Ret (True, [], step_by c st, w))"
    using pb_read_chunk_buf [OF assms, of E c] by (simp_all add: pb_read_def)
qed

lemma pb_readbyte_buf:
  assumes "rd_ok B st" and "mapped_set B w"
  shows "pb_readbyte E st w =
      (if bytes_left st = 0 then Ret (False, 0, ierror st ''end-of-stream'', w)
       else Ret (True, the (mem w (istate st)), step_by 1 st, w))"
proof (cases "bytes_left st = 0")
  case True
  then show ?thesis by (simp add: pb_readbyte_def)
next
  case False
  then have "1 \<le> bytes_left st" by (simp add: word_le_nat_alt unat_gt_0 Suc_leI)
  from rd_ok_range [OF assms this] have "mapped w (istate st) (1 + int 0)" by simp
  then have "mem w (istate st) \<noteq> None \<and> mapped w (istate st + 1) (int 0)"
    by (simp only: mapped_Suc simp_thms)
  then have "load_byte w (istate st) = Ret (the (mem w (istate st)))"
    by (auto simp: load_byte_def)
  with False assms(1) show ?thesis
    by (simp add: pb_readbyte_def istream_call_def buf_read_def rd_ok_def step_by_def Let_def)
qed

text \<open>Reading into memory.\<close>

lemma pb_read_mem:
  assumes rd: "rd_ok B st" and B: "mapped_set B w" and a: "mapped w a (uint c)"
    and R: "{a..<a + uint c} \<subseteq> R"
  shows "wp (pb_read E st (RMem a) c w) (\<lambda>(ok, _, st', w').
     same_outside R w w' \<and> adv st st' \<and> (ok \<and> c \<noteq> 0 \<longrightarrow> bytes_left st' < bytes_left st))"
proof (cases "c = 0")
  case True
  then show ?thesis by (simp add: pb_read_def)
next
  case nz: False
  show ?thesis
  proof (cases "bytes_left st < c")
    case True
    with nz show ?thesis by (simp add: pb_read_def pb_read_chunk_def)
  next
    case False
    then have le: "c \<le> bytes_left st" by simp
    have "wp (copy_bytes (unat c) a (istate st) w) (same_outside R w)"
      using rd_ok_range [OF rd B le] a R by (intro copy_bytes_frame) simp_all
    moreover have "icallback st = Buf_read" using rd by (simp add: rd_ok_def)
    ultimately show ?thesis
      using nz False adv_step_by [OF le] step_by_less [OF le nz]
      by (auto simp: pb_read_def pb_read_chunk_def istream_call_def buf_read_def wp_simps Let_def
          simp flip: step_by_def elim!: wp_mono)
  qed
qed

section \<open>Varints and what is built on them\<close>

text \<open>The postcondition of an operation that only reads.\<close>

definition reads :: "world \<Rightarrow> istream \<Rightarrow> bool \<Rightarrow> istream \<Rightarrow> world \<Rightarrow> bool" where
  "reads w st ok st' w' \<longleftrightarrow> w' = w \<and> adv st st' \<and> (ok \<longrightarrow> bytes_left st' < bytes_left st)"

lemma pb_readbyte_reads:
  assumes "rd_ok B st" and "mapped_set B w"
  shows "wp (pb_readbyte E st w) (\<lambda>(ok, _, st', w'). reads w st ok st' w')"
proof (cases "bytes_left st = 0")
  case True
  with assms show ?thesis by (simp add: pb_readbyte_buf reads_def)
next
  case False
  then have "1 \<le> bytes_left st" by (simp add: word_le_nat_alt unat_gt_0 Suc_leI)
  from adv_step_by [OF this] step_by_less [OF this] False show ?thesis
    using assms by (simp add: pb_readbyte_buf reads_def)
qed

lemma reads_trans:
  "reads w st True st1 w1 \<Longrightarrow> adv st1 st2 \<and> w2 = w1 \<Longrightarrow> reads w st ok st2 w2"
  by (auto simp: reads_def adv_def intro: le_less_trans)

lemma varint32_loop_reads:
  assumes "rd_ok B st" and "mapped_set B w"
  shows "wp (varint32_loop E st bitpos result w) (\<lambda>(ok, _, _, _, st', w'). reads w st ok st' w')"
  using assms
proof (induction E st bitpos result w rule: varint32_loop.induct)
  case (1 E st bitpos result w)
  from pb_readbyte_reads [OF 1(2,3), of E] obtain ok byte st' where
    rb: "pb_readbyte E st w = Ret (ok, byte, st', w)" and r: "reads w st ok st' w"
    by (auto simp: wp_Ret_iff reads_def)
  show ?case
  proof (cases ok)
    case False
    with rb r show ?thesis by (subst varint32_loop.simps) simp
  next
    case True
    then have rd: "rd_ok B st'" using r 1(2) by (auto simp: reads_def intro: rd_ok_adv)
    let ?result = "if 32 \<le> bitpos then result
                   else result OR push_bit (unat bitpos) (ucast (byte AND 0x7F))"
    have IH: "wp (varint32_loop E st' (bitpos + 7) ?result w)
        (\<lambda>(ok, _, _, _, st'', w'). reads w st' ok st'' w')"
      if "\<not> (32 \<le> bitpos \<and> byte AND 0x7F \<noteq> 0 \<and>
             (drop_bit 31 result = 0 \<or> byte \<noteq> (if bitpos < 63 then 0xFF else 0x01)))"
        "byte AND 0x80 \<noteq> 0"
      using 1(1) [OF rb refl refl refl _ that(1) refl refl that(2) rd 1(3)] True by simp
    have tr: "reads w st ok'' st'' w'" if "reads w st' ok'' st'' w'" for ok'' st'' w'
      using that r True by (auto simp: reads_def adv_def intro: order.strict_trans)
    define bad where "bad \<longleftrightarrow> 32 \<le> bitpos \<and> byte AND 0x7F \<noteq> 0 \<and>
      (drop_bit 31 result = 0 \<or> byte \<noteq> (if bitpos < 63 then 0xFF else 0x01))"
    have eq: "varint32_loop E st bitpos result w =
        (if bad then Ret (False, byte, bitpos, result, ierror st' ''varint overflow'', w)
         else if byte AND 0x80 \<noteq> 0 then varint32_loop E st' (bitpos + 7) ?result w
         else Ret (True, byte, bitpos + 7, ?result, st', w))"
      by (subst varint32_loop.simps) (simp only: rb True bad_def Let_def res_bind.simps prod.case not_True_eq_False if_False)
    consider bad | "\<not> bad" "byte AND 0x80 \<noteq> 0" | "\<not> bad" "byte AND 0x80 = 0" by blast
    then show ?thesis
    proof cases
      case 1
      with r show ?thesis by (simp add: eq reads_def)
    next
      case 2
      then have "wp (varint32_loop E st' (bitpos + 7) ?result w)
          (\<lambda>(ok, _, _, _, st'', w'). reads w st' ok st'' w')"
        unfolding bad_def by (rule IH)
      with 2 show ?thesis by (auto simp only: eq if_False if_True simp_thms elim!: wp_mono intro: tr)
    next
      case 3
      with r True show ?thesis by (simp add: eq reads_def)
    qed
  qed
qed

lemma reads_chain:
  "reads w st True st1 w1 \<Longrightarrow> reads w1 st1 ok st2 w2 \<Longrightarrow> reads w st ok st2 w2"
  by (auto simp: reads_def intro: adv_trans order.strict_trans)

lemma reads_then_adv:
  "reads w st True st1 w1 \<Longrightarrow> adv st1 st2 \<Longrightarrow> w2 = w1 \<Longrightarrow> reads w st ok st2 w2"
  by (auto simp: reads_def adv_def intro: le_less_trans)

lemma reads_world: "reads w st ok st' w' \<Longrightarrow> w' = w"
  by (simp add: reads_def)

lemma reads_rd_ok: "reads w st ok st' w' \<Longrightarrow> rd_ok B st \<Longrightarrow> rd_ok B st'"
  by (auto simp: reads_def intro: rd_ok_adv)

lemma reads_fail: "reads w st ok st' w' \<Longrightarrow> reads w st False (ierror st' m) w'"
  by (simp add: reads_def)

lemma reads_False: "reads w st ok st' w' \<Longrightarrow> reads w st False st' w'"
  by (simp add: reads_def)

lemma pb_decode_varint32_eof_reads:
  assumes "rd_ok B st" and "mapped_set B w"
  shows "wp (pb_decode_varint32_eof E st eof w) (\<lambda>(ok, _, _, st', w'). reads w st ok st' w')"
proof -
  obtain ok byte st' where
    rb: "pb_readbyte E st w = Ret (ok, byte, st', w)" and r: "reads w st ok st' w"
    using pb_readbyte_reads [OF assms, of E] by (auto simp: wp_Ret_iff reads_def)
  show ?thesis
  proof (cases ok)
    case False
    with rb r show ?thesis by (simp add: pb_decode_varint32_eof_def)
  next
    case True
    then have "rd_ok B st'" using r assms(1) by (auto intro: reads_rd_ok)
    from varint32_loop_reads [OF this assms(2), of E 7 "ucast (byte AND 0x7F)"]
    have "wp (varint32_loop E st' 7 (ucast (byte AND 0x7F)) w)
        (\<lambda>(ok, _, _, _, st'', w'). reads w st ok st'' w')"
      using r True by (auto elim!: wp_mono intro: reads_chain)
    then show ?thesis
      using rb r True
      by (auto simp: pb_decode_varint32_eof_def wp_simps intro: reads_fail reads_False
          elim!: wp_mono)
  qed
qed

lemma pb_decode_varint32_reads:
  assumes "rd_ok B st" and "mapped_set B w"
  shows "wp (pb_decode_varint32 E st w) (\<lambda>(ok, _, st', w'). reads w st ok st' w')"
  using pb_decode_varint32_eof_reads [OF assms, of E False]
  by (auto simp: pb_decode_varint32_def wp_simps elim!: wp_mono)

text \<open>On a buffer stream a varint is read forwards, wherever the memory ends.\<close>

lemma pb_readbyte_adv:
  assumes "pb_readbyte E st w = Ret (ok, byte, st', w')" "icallback st = Buf_read"
  shows "adv st st' \<and> w' = w \<and> (ok \<longrightarrow> bytes_left st' < bytes_left st)"
proof (cases "bytes_left st = 0")
  case True
  then show ?thesis using assms by (simp add: pb_readbyte_def) (metis adv_ierror(1) adv_refl)
next
  case False
  then have "1 \<le> bytes_left st" by (simp add: word_le_nat_alt unat_gt_0 Suc_leI)
  from adv_step_by [OF this] step_by_less [OF this] have a: "adv st (step_by 1 st)" "bytes_left (step_by 1 st) < bytes_left st"
    by simp_all
  have "ok \<and> st' = step_by 1 st \<and> w' = w"
    using assms False by (auto simp: pb_readbyte_def istream_call_def buf_read_def res_bind_Ret_iff step_by_def Let_def)
  then show ?thesis using a by simp
qed

lemma varint32_loop_adv:
  "varint32_loop E st bitpos result w = Ret (ok, b, p, r, st', w') \<Longrightarrow> icallback st = Buf_read \<Longrightarrow> adv st st' \<and> w' = w"
proof (induction E st bitpos result w arbitrary: ok b p r st' w' rule: varint32_loop.induct)
  case (1 E st bitpos result w)
  obtain ok1 byte st1 w1 where rb: "pb_readbyte E st w = Ret (ok1, byte, st1, w1)"
    using 1(2) by (subst (asm) varint32_loop.simps) (auto simp: res_bind_Ret_iff)
  note a = pb_readbyte_adv [OF rb 1(3)]
  define bad where "bad \<longleftrightarrow> 32 \<le> bitpos \<and> byte AND 0x7F \<noteq> 0 \<and>
    (drop_bit 31 result = 0 \<or> byte \<noteq> (if bitpos < 63 then 0xFF else 0x01))"
  let ?result = "if 32 \<le> bitpos then result else result OR push_bit (unat bitpos) (ucast (byte AND 0x7F))"
  have cb: "icallback st1 = Buf_read" using a 1(3) by (simp add: adv_def)
  have eq: "varint32_loop E st bitpos result w =
      (if \<not> ok1 then Ret (False, byte, bitpos, result, st1, w1)
       else if bad then Ret (False, byte, bitpos, result, ierror st1 ''varint overflow'', w1)
       else if byte AND 0x80 \<noteq> 0 then varint32_loop E st1 (bitpos + 7) ?result w1
       else Ret (True, byte, bitpos + 7, ?result, st1, w1))"
    by (subst varint32_loop.simps) (simp only: rb bad_def Let_def res_bind.simps prod.case)
  have IH: "adv st1 st' \<and> w' = w1"
    if "ok1" "\<not> bad" "byte AND 0x80 \<noteq> 0" "varint32_loop E st1 (bitpos + 7) ?result w1 = Ret (ok, b, p, r, st', w')"
    using 1(1) [OF rb refl refl refl _ _ refl refl _ _ cb] that unfolding bad_def by blast
  show ?case
    using 1(2) a IH unfolding eq by (auto split: if_splits intro: adv_trans)
qed

lemma pb_decode_varint32_adv:
  assumes "pb_decode_varint32 E st w = Ret (ok, n, st', w')" "icallback st = Buf_read"
  shows "adv st st' \<and> w' = w"
proof -
  obtain ok1 byte st1 w1 where rb: "pb_readbyte E st w = Ret (ok1, byte, st1, w1)"
    using assms(1) by (auto simp: pb_decode_varint32_def pb_decode_varint32_eof_def res_bind_Ret_iff)
  note a = pb_readbyte_adv [OF rb assms(2)]
  have cb: "icallback st1 = Buf_read" using a assms(2) by (simp add: adv_def)
  show ?thesis
    using assms(1) a rb
    by (auto simp: pb_decode_varint32_def pb_decode_varint32_eof_def res_bind_Ret_iff split: if_splits
        dest!: varint32_loop_adv [OF _ cb] intro: adv_trans)
qed


lemma varint_loop_reads:
  assumes "rd_ok B st" and "mapped_set B w"
  shows "wp (varint_loop E st bitpos result w) (\<lambda>(ok, _, st', w'). reads w st ok st' w')"
  using assms
proof (induction E st bitpos result w rule: varint_loop.induct)
  case (1 E st bitpos result w)
  show ?case
  proof (cases "64 \<le> bitpos")
    case True
    then show ?thesis by (subst varint_loop.simps) (simp add: reads_def)
  next
    case low: False
    from pb_readbyte_reads [OF 1(2,3), of E] obtain ok byte st' where
      rb: "pb_readbyte E st w = Ret (ok, byte, st', w)" and r: "reads w st ok st' w"
      by (auto simp: wp_Ret_iff reads_def)
    let ?result = "result OR push_bit (unat bitpos) (ucast (byte AND 0x7F))"
    consider "\<not> ok" | "ok" "byte AND 0x80 \<noteq> 0" | "ok" "byte AND 0x80 = 0" by blast
    then show ?thesis
    proof cases
      case 1
      with low rb r show ?thesis by (subst varint_loop.simps) simp
    next
      case 2
      then have rd: "rd_ok B st'" using r \<open>rd_ok B st\<close> by (auto intro: reads_rd_ok)
      have "wp (varint_loop E st' (bitpos + 7) ?result w) (\<lambda>(ok, _, st'', w'). reads w st' ok st'' w')"
        using 1(1) [OF low rb refl refl refl _ refl refl 2(2) rd 1(3)] 2(1) by simp
      then have "wp (varint_loop E st' (bitpos + 7) ?result w) (\<lambda>(ok, _, st'', w'). reads w st ok st'' w')"
        using r 2(1) by (auto elim!: wp_mono intro: reads_chain)
      then show ?thesis
        using low rb 2 by (subst varint_loop.simps) (simp add: Let_def)
    next
      case 3
      with low rb r show ?thesis by (subst varint_loop.simps) (simp add: Let_def)
    qed
  qed
qed

lemma pb_decode_varint_reads:
  assumes "rd_ok B st" and "mapped_set B w"
  shows "wp (pb_decode_varint E st w) (\<lambda>(ok, _, st', w'). reads w st ok st' w')"
  unfolding pb_decode_varint_def using assms by (rule varint_loop_reads)

lemma pb_decode_svarint_reads:
  assumes "rd_ok B st" and "mapped_set B w"
  shows "wp (pb_decode_svarint E st w) (\<lambda>(ok, _, st', w'). reads w st ok st' w')"
  using pb_decode_varint_reads [OF assms, of E]
  by (auto simp: pb_decode_svarint_def wp_simps elim!: wp_mono)

lemma pb_decode_tag_reads:
  assumes "rd_ok B st" and "mapped_set B w"
  shows "wp (pb_decode_tag E st w) (\<lambda>(ok, _, _, _, st', w'). reads w st ok st' w')"
  using pb_decode_varint32_eof_reads [OF assms, of E False]
  by (auto simp: pb_decode_tag_def wp_simps elim!: wp_mono intro: reads_False)

section \<open>Skipping and substreams\<close>

lemma pb_read_local_reads:
  assumes "rd_ok B st" and "mapped_set B w" and "c \<noteq> 0"
  shows "wp (pb_read E st RLocal c w) (\<lambda>(ok, _, st', w'). reads w st ok st' w')"
    and "wp (pb_read E st RNull c w) (\<lambda>(ok, _, st', w'). reads w st ok st' w')"
  using assms(3) adv_step_by [of c st] step_by_less [of c st]
  by (auto simp: pb_read_buf [OF assms(1,2)] reads_def not_less)

lemma pb_skip_varint_reads:
  assumes "rd_ok B st" and "mapped_set B w"
  shows "wp (pb_skip_varint E st w) (\<lambda>(ok, st', w'). reads w st ok st' w')"
  using assms
proof (induction E st w rule: pb_skip_varint.induct)
  case (1 E st w)
  obtain ok bs st' where rb: "pb_read E st RLocal 1 w = Ret (ok, bs, st', w)" and r: "reads w st ok st' w"
    using pb_read_local_reads(1) [OF 1(2,3), of 1 E] by (auto simp: wp_Ret_iff reads_def)
  consider "\<not> ok" | "ok" "hd bs AND 0x80 \<noteq> 0" | "ok" "hd bs AND 0x80 = 0" by blast
  then show ?case
  proof cases
    case 1
    with rb r show ?thesis by (subst pb_skip_varint.simps) simp
  next
    case 2
    then have rd: "rd_ok B st'" using r \<open>rd_ok B st\<close> by (auto intro: reads_rd_ok)
    have "wp (pb_skip_varint E st' w) (\<lambda>(ok, st'', w'). reads w st' ok st'' w')"
      using 1(1) [OF rb refl refl refl _ 2(2) rd 1(3)] 2(1) by simp
    then have "wp (pb_skip_varint E st' w) (\<lambda>(ok, st'', w'). reads w st ok st'' w')"
      using r 2(1) by (auto elim!: wp_mono intro: reads_chain)
    then show ?thesis
      using rb 2 by (subst pb_skip_varint.simps) simp
  next
    case 3
    with rb r show ?thesis by (subst pb_skip_varint.simps) simp
  qed
qed

lemma reads_adv: "reads w st ok st' w' \<Longrightarrow> adv st st'"
  by (simp add: reads_def)

lemma pb_skip_string_reads:
  assumes "rd_ok B st" and B: "mapped_set B w"
  shows "wp (pb_skip_string E st w) (\<lambda>(ok, st', w'). reads w st ok st' w')"
proof -
  obtain ok len st' where v: "pb_decode_varint32 E st w = Ret (ok, len, st', w)"
    and r: "reads w st ok st' w"
    using pb_decode_varint32_reads [OF assms, of E] by (auto simp: wp_Ret_iff reads_def)
  show ?thesis
  proof (cases ok)
    case True
    have rd: "rd_ok B st'" using r assms(1) by (rule reads_rd_ok)
    with r True show ?thesis
      using v adv_step_by [of "ucast len" st']
      by (auto simp: pb_skip_string_def wp_simps pb_read_buf [OF rd B] not_less
          intro: reads_then_adv)
  next
    case False
    with v r show ?thesis by (simp add: pb_skip_string_def)
  qed
qed

lemma pb_skip_field_reads:
  assumes "rd_ok B st" and "mapped_set B w"
  shows "wp (pb_skip_field E st wt w) (\<lambda>(ok, st', w'). reads w st ok st' w')"
  using pb_skip_varint_reads [OF assms, of E] pb_skip_string_reads [OF assms, of E]
    pb_read_local_reads(2) [OF assms, of 8 E] pb_read_local_reads(2) [OF assms, of 4 E]
  by (auto simp: pb_skip_field_def wp_simps reads_def elim!: wp_mono)

text \<open>The substream starts where the length ends, and what is left of the parent starts where the
  substream ends.\<close>

definition opened :: "addr set \<Rightarrow> istream \<Rightarrow> istream \<Rightarrow> istream \<Rightarrow> bool" where
  "opened B st st' sub \<longleftrightarrow>
     rd_ok B sub \<and> bytes_left sub < bytes_left st \<and> icallback st' = Buf_read \<and>
     icallback st = Buf_read \<and> istate st \<le> istate sub \<and> istate st \<le> istate st' \<and>
     bytes_left st' < bytes_left st \<and>
     istate st' + uint (bytes_left st') \<le> istate st + uint (bytes_left st) \<and>
     istate sub + uint (bytes_left sub) + uint (bytes_left st') = istate st + uint (bytes_left st)"

lemma opened_moved: "opened B st st' sub \<Longrightarrow> moved st st'"
  by (simp add: opened_def moved_def order_less_imp_le)

lemma make_substream_cases:
  assumes "rd_ok B st" and "mapped_set B w"
  obtains (Fail) st' sub where "pb_make_string_substream E st w = Ret (False, st', sub, w)"
      and "adv st st'"
    | (Open) st' sub where "pb_make_string_substream E st w = Ret (True, st', sub, w)"
      and "opened B st st' sub"
proof -
  obtain ok len st1 where v: "pb_decode_varint32 E st w = Ret (ok, len, st1, w)"
    and r: "reads w st ok st1 w"
    using pb_decode_varint32_reads [OF assms, of E] by (auto simp: wp_Ret_iff reads_def)
  show ?thesis
  proof (cases "ok \<and> \<not> bytes_left st1 < ucast len")
    case True
    then have rd: "rd_ok B st1" and le: "ucast len \<le> bytes_left st1"
      using r assms(1) by (auto intro: reads_rd_ok)
    have a: "adv st st1" "bytes_left st1 < bytes_left st" using r True by (auto simp: reads_def)
    obtain l where l: "uint (ucast len :: u64) = l" "0 \<le> l" by simp
    have "l \<le> uint (bytes_left st1)" using le l by (simp add: uint_le_u64)
    moreover have "uint (bytes_left st1 - ucast len) = uint (bytes_left st1) - l"
      using uint_sub_u64 [OF le] l by simp
    moreover have "uint (bytes_left st1) < uint (bytes_left st)" using a(2) by (simp add: word_less_def)
    ultimately have "opened B st (st1\<lparr>bytes_left := bytes_left st1 - ucast len\<rparr>)
        (st1\<lparr>bytes_left := ucast len\<rparr>)"
      using a(1) rd l assms(1) by (auto simp: opened_def rd_ok_def adv_def word_less_def)
    with v True show ?thesis by (intro Open) (auto simp: pb_make_string_substream_def)
  next
    case False
    have "adv st st1" using r by (rule reads_adv)
    then show ?thesis
      using v False by (cases ok) (auto simp: pb_make_string_substream_def intro: Fail)
  qed
qed

lemma pb_close_string_substream_buf:
  assumes "rd_ok B sub" and "mapped_set B w"
  shows "pb_close_string_substream E st sub w =
     (let sub' = step_by (bytes_left sub) sub
      in Ret (True, st\<lparr>istate := istate sub', ierrmsg := ierrmsg sub'\<rparr>, sub', w))"
proof -
  have "step_by 0 sub = sub" by (simp add: step_by_def)
  then show ?thesis
    by (auto simp: pb_close_string_substream_def pb_read_buf [OF assms] Let_def)
qed

text \<open>Closing the substream brings the parent to the end of the substream, if that is where it ended.\<close>

lemma close_opened:
  assumes o: "opened B st st1 sub" and mv: "moved sub sub2" and B: "mapped_set B w"
  shows "\<exists>st2 sub3. pb_close_string_substream E st1 sub2 w = Ret (True, st2, sub3, w) \<and>
     moved st st2 \<and> bytes_left st2 < bytes_left st \<and> (adv sub sub2 \<longrightarrow> adv st st2)"
proof -
  have "rd_ok B sub2" using o mv by (auto simp: opened_def intro: rd_ok_moved)
  note close = pb_close_string_substream_buf [OF this B, of E st1]
  obtain U where U: "uint (bytes_left sub2) = U" "0 \<le> U" by simp
  let ?st2 = "st1\<lparr>istate := istate sub2 + uint (bytes_left sub2), ierrmsg := ierrmsg sub2\<rparr>"
  have "moved st ?st2"
    using o mv U unfolding moved_def opened_def by (simp add: order_less_imp_le)
  moreover have "adv sub sub2 \<longrightarrow> adv st ?st2"
    using o unfolding adv_def opened_def by (simp add: order_less_imp_le)
  moreover have "bytes_left ?st2 < bytes_left st" using o by (simp add: opened_def)
  ultimately show ?thesis using close by (simp add: Let_def)
qed

end
