(* ===== verification/PbStatic.thy ===== *)
theory PbStatic
  imports PbDecode PbReadSafe
begin

text \<open>
  Message types with static allocation only, and what setting to defaults and releasing do to a
  message of such a type: the first writes nothing outside the struct, the second nothing at all.
  \<open>static_msg d E C L a sz\<close> says that the descriptor array at \<open>a\<close> describes a struct of \<open>sz\<close> bytes,
  that the nesting depth is at most \<open>d\<close> and every array has at most \<open>L\<close> fields, and that the default
  values lie in the set \<open>C\<close> of addresses.
\<close>

section \<open>Layouts\<close>

definition ltype_ok :: "u8 \<Rightarrow> bool" where
  "ltype_ok l \<longleftrightarrow>
     l \<in> {PB_LTYPE_BOOL, PB_LTYPE_VARINT, PB_LTYPE_UVARINT, PB_LTYPE_SVARINT, PB_LTYPE_FIXED32,
          PB_LTYPE_FIXED64, PB_LTYPE_BYTES, PB_LTYPE_STRING, PB_LTYPE_SUBMESSAGE,
          PB_LTYPE_FIXED_LENGTH_BYTES}"

definition scalar_size_ok :: "pb_field \<Rightarrow> bool" where
  "scalar_size_ok f \<longleftrightarrow>
     (PB_LTYPE (ftype f) = PB_LTYPE_BOOL \<longrightarrow> 1 \<le> uint (data_size f)) \<and>
     (PB_LTYPE (ftype f) = PB_LTYPE_FIXED32 \<longrightarrow> 4 \<le> uint (data_size f)) \<and>
     (PB_LTYPE (ftype f) = PB_LTYPE_FIXED64 \<longrightarrow> 8 \<le> uint (data_size f))"

text \<open>Field \<open>f\<close>, whose data is at \<open>p\<close> and whose count, \<open>has_\<close> or \<open>which_\<close> member is at \<open>s\<close>, fits a
  struct of \<open>sz\<close> bytes.\<close>

definition field_fits ::
  "(addr \<Rightarrow> int \<Rightarrow> bool) \<Rightarrow> addr set \<Rightarrow> pb_field \<Rightarrow> int \<Rightarrow> int \<Rightarrow> int \<Rightarrow> bool" where
  "field_fits sub C f p s sz \<longleftrightarrow>
     (let h = PB_HTYPE (ftype f); l = PB_LTYPE (ftype f)
      in PB_ATYPE (ftype f) = PB_ATYPE_STATIC \<and> ltype_ok l \<and> scalar_size_ok f \<and> 0 \<le> p \<and>
         (if h = PB_HTYPE_REPEATED
          then p + uint (data_size f) * uint (array_size f) \<le> sz \<and>
               uint (data_size f) * uint (array_size f) < 2 ^ 32
          else p + uint (data_size f) \<le> sz) \<and>
         (h = PB_HTYPE_REPEATED \<or> h = PB_HTYPE_ONEOF \<longrightarrow> 0 \<le> s \<and> s + 4 \<le> sz) \<and>
         (h = PB_HTYPE_OPTIONAL \<and> s \<noteq> p \<longrightarrow> 0 \<le> s \<and> s + 1 \<le> sz) \<and>
         (if l = PB_LTYPE_SUBMESSAGE then ptr f \<noteq> 0 \<and> sub (ptr f) (uint (data_size f))
          else ptr f \<noteq> 0 \<longrightarrow> {ptr f..<ptr f + uint (data_size f)} \<subseteq> C))"

primrec static_msg :: "nat \<Rightarrow> env \<Rightarrow> addr set \<Rightarrow> nat \<Rightarrow> addr \<Rightarrow> int \<Rightarrow> bool" where
  "static_msg 0 E C L a sz = False"
| "static_msg (Suc d) E C L a sz =
     (\<exists>fs. table_at E a fs \<and> fs \<noteq> [] \<and> length fs \<le> L \<and> distinct (map tag fs) \<and>
       (\<forall>k < length fs.
          field_fits (static_msg d E C L) C (fs ! k) (data_addr fs 0 k) (size_addr fs 0 k) sz))"

lemma data_addr_shift: "data_addr fs dest k = dest + data_addr fs 0 k"
  by (induction k) auto

lemma size_addr_shift: "size_addr fs dest k = dest + size_addr fs 0 k"
  by (induction k) (auto simp: data_addr_shift [of fs dest])

lemma field_fits_shift:
  "field_fits sub C f (data_addr fs 0 k) (size_addr fs 0 k) sz \<Longrightarrow>
   \<exists>p s. data_addr fs dest k = dest + p \<and> size_addr fs dest k = dest + s \<and> field_fits sub C f p s sz"
  by (metis data_addr_shift size_addr_shift)

section \<open>Ranges\<close>

lemma range_sub: "{a..<a + n} \<subseteq> R \<Longrightarrow> a \<le> b \<Longrightarrow> b + m \<le> a + n \<Longrightarrow> {b..<b + m} \<subseteq> (R :: int set)"
  by force

text \<open>\<open>owns R w a n\<close>: the range is mapped and belongs to the region that may be written.\<close>

definition owns :: "addr set \<Rightarrow> world \<Rightarrow> addr \<Rightarrow> int \<Rightarrow> bool" where
  "owns R w a n \<longleftrightarrow> mapped w a n \<and> {a..<a + n} \<subseteq> R"

lemma owns_sub: "owns R w a n \<Longrightarrow> a \<le> b \<Longrightarrow> b + m \<le> a + n \<Longrightarrow> owns R w b m"
  using mapped_sub [of w a n b m] range_sub [of a n R b m] by (simp add: owns_def)

lemma owns_same_outside: "same_outside S w w' \<Longrightarrow> owns R w' a n \<longleftrightarrow> owns R w a n"
  by (simp add: owns_def same_outside_mapped)

lemma store_u32_owns: "owns R w a 4 \<Longrightarrow> wp (store_u32 w a v) (same_outside R w)"
  by (simp add: owns_def store_u32_frame)

lemma store_u64_owns: "owns R w a 8 \<Longrightarrow> wp (store_u64 w a v) (same_outside R w)"
  by (simp add: owns_def store_u64_frame)

lemma store_u16_owns: "owns R w a 2 \<Longrightarrow> wp (store_u16 w a v) (same_outside R w)"
  using store_bytes_frame [of w a "le_bytes 2 v" R]
  by (auto simp: owns_def store_u16_def elim!: wp_mono)

lemma store_byte_owns:
  assumes "owns R w a 1"
  shows "wp (store_byte w a b) (same_outside R w)"
proof -
  have "mapped w a (1 + int 0)" using assms by (simp add: owns_def)
  then have "mem w a \<noteq> None" by (simp only: mapped_Suc simp_thms)
  moreover have "a \<in> R" using assms by (auto simp: owns_def)
  ultimately show ?thesis by (blast intro: store_byte_frame [THEN wp_mono])
qed

lemma store_bool_owns: "owns R w a 1 \<Longrightarrow> wp (store_bool w a b) (same_outside R w)"
  by (simp add: store_bool_def store_byte_owns)

lemma c_memset_owns: "owns R w a (int n) \<Longrightarrow> wp (c_memset w a v n) (same_outside R w)"
  using store_bytes_frame [of w a "replicate n v" R]
  by (auto simp: owns_def c_memset_def elim!: wp_mono)

lemma c_memcpy_owns:
  "owns R w a (int n) \<Longrightarrow> mapped w src (int n) \<Longrightarrow> wp (c_memcpy w a src n) (same_outside R w)"
  using store_bytes_frame [of w a "bytes_at w src n" R]
  by (auto simp: owns_def c_memcpy_def load_bytes_mapped elim!: wp_mono)

lemma load_u32_owns: "owns R w a 4 \<Longrightarrow> \<exists>v. load_u32 w a = Ret v"
  by (simp add: owns_def load_u32_mapped)

section \<open>Setting to defaults\<close>

lemma default_size_member_safe:
  assumes f: "field_fits sub C f p s sz" and o: "owns R w dest sz"
    and it: "pData iter = dest + p" "pSize iter = dest + s"
  shows "wp (default_size_member f iter w) (\<lambda>(init, w'). same_outside R w w' \<and>
     (init \<longrightarrow> PB_HTYPE (ftype f) \<noteq> PB_HTYPE_REPEATED))"
proof -
  have opt: "owns R w (dest + s) 1" if "PB_HTYPE (ftype f) = PB_HTYPE_OPTIONAL" "s \<noteq> p"
    using f that by (intro owns_sub [OF o]) (auto simp: field_fits_def Let_def)
  have cnt: "owns R w (dest + s) 4"
    if "PB_HTYPE (ftype f) = PB_HTYPE_REPEATED \<or> PB_HTYPE (ftype f) = PB_HTYPE_ONEOF"
    using f that by (intro owns_sub [OF o]) (auto simp: field_fits_def Let_def)
  show ?thesis
    using store_bool_owns [OF opt] store_u32_owns [OF cnt] it
    by (auto simp: default_size_member_def wp_simps Let_def pb_consts elim!: wp_mono)
qed

lemma field_set_to_default_safe:
  assumes t: "table_at E a fs" and k: "k < length fs"
    and f: "field_fits sub C (fs ! k) (data_addr fs 0 k) (size_addr fs 0 k) sz"
    and o: "owns R w dest sz" and C: "mapped_set C w"
    and rec: "\<And>b n p w. sub b n \<Longrightarrow> owns R w p n \<Longrightarrow> mapped_set C w \<Longrightarrow> wp (rec b p w) (same_outside R w)"
  shows "wp (pb_field_set_to_default (Suc n) E rec (iter_at a fs dest k) w) (same_outside R w)"
proof -
  let ?f = "fs ! k"
  obtain p s where it: "data_addr fs dest k = dest + p" "size_addr fs dest k = dest + s"
    and ff: "field_fits sub C ?f p s sz"
    using field_fits_shift [OF f] by blast
  have static: "PB_ATYPE (ftype ?f) = PB_ATYPE_STATIC" "PB_LTYPE (ftype ?f) \<noteq> PB_LTYPE_EXTENSION"
    using ff by (auto simp: field_fits_def Let_def ltype_ok_def pb_consts)
  let ?init = "\<lambda>w. if PB_LTYPE (ftype ?f) = PB_LTYPE_SUBMESSAGE then rec (ptr ?f) (dest + p) w
      else if ptr ?f \<noteq> 0 then c_memcpy w (dest + p) (ptr ?f) (unat (data_size ?f))
      else c_memset w (dest + p) 0 (unat (data_size ?f))"
  have init: "wp (?init w') (same_outside R w)"
    if s: "same_outside R w w'" and h: "PB_HTYPE (ftype ?f) \<noteq> PB_HTYPE_REPEATED" for w'
  proof -
    have o': "owns R w' (dest + p) (uint (data_size ?f))"
    proof (rule owns_sub)
      show "owns R w' dest sz" using o by (simp add: owns_same_outside [OF s])
    qed (use ff h in \<open>auto simp: field_fits_def Let_def\<close>)
    have C': "mapped_set C w'" using C mapped_set_same_outside [OF s] by simp
    consider "PB_LTYPE (ftype ?f) = PB_LTYPE_SUBMESSAGE"
      | "PB_LTYPE (ftype ?f) \<noteq> PB_LTYPE_SUBMESSAGE" "ptr ?f \<noteq> 0"
      | "PB_LTYPE (ftype ?f) \<noteq> PB_LTYPE_SUBMESSAGE" "ptr ?f = 0" by blast
    then have "wp (?init w') (same_outside R w')"
    proof cases
      case 1
      then have "sub (ptr ?f) (uint (data_size ?f))"
        using ff by (simp add: field_fits_def Let_def)
      from rec [OF this o' C'] 1 show ?thesis by simp
    next
      case 2
      then have "{ptr ?f..<ptr ?f + uint (data_size ?f)} \<subseteq> C"
        using ff by (simp add: field_fits_def Let_def)
      with C' have "mapped w' (ptr ?f) (uint (data_size ?f))" by (rule mapped_set_mapped)
      with 2 o' c_memcpy_owns [of R w' "dest + p" "unat (data_size ?f)" "ptr ?f"]
      show ?thesis by simp
    next
      case 3
      with o' c_memset_owns [of R w' "dest + p" "unat (data_size ?f)" 0]
      show ?thesis by simp
    qed
    with s show ?thesis by (auto elim!: wp_mono intro: same_outside_trans)
  qed
  have "wp (default_size_member ?f (iter_at a fs dest k) w) (\<lambda>(i, w'). same_outside R w w' \<and>
     (i \<longrightarrow> PB_HTYPE (ftype ?f) \<noteq> PB_HTYPE_REPEATED))"
    using it by (intro default_size_member_safe [OF ff o]) simp_all
  then show ?thesis
    using static it init
    by (simp add: table_at_nth [OF t k] Let_def wp_simps) (auto elim!: wp_mono)
qed

lemma set_defaults_loop_safe:
  assumes t: "table_at E a fs"
    and f: "\<forall>k < length fs. field_fits sub C (fs ! k) (data_addr fs 0 k) (size_addr fs 0 k) sz"
    and rec: "\<And>b n p w. sub b n \<Longrightarrow> owns R w p n \<Longrightarrow> mapped_set C w \<Longrightarrow> wp (rec b p w) (same_outside R w)"
  shows "k < length fs \<Longrightarrow> length fs - k + 1 \<le> n \<Longrightarrow> owns R w dest sz \<Longrightarrow> mapped_set C w \<Longrightarrow>
    wp (set_defaults_loop n E rec (iter_at a fs dest k) w) (same_outside R w)"
proof (induction "length fs - k" arbitrary: k n w)
  case 0
  then show ?case by simp
next
  case (Suc m)
  then obtain n' where n: "n = Suc (Suc n')" by (metis Suc_le_D add_leD2 le_add_diff_inverse2 not_less_eq_eq Suc_eq_plus1)
  have "wp (pb_field_set_to_default (Suc n') E rec (iter_at a fs dest k) w) (same_outside R w)"
    using f Suc.prems by (intro field_set_to_default_safe [OF t _ _ _ _ rec]) auto
  moreover have "wp (if Suc k < length fs
        then set_defaults_loop (Suc n') E rec (iter_at a fs dest (Suc k)) w' else Ret w')
      (same_outside R w)" if s: "same_outside R w w'" for w'
  proof (cases "Suc k < length fs")
    case True
    have "wp (set_defaults_loop (Suc n') E rec (iter_at a fs dest (Suc k)) w') (same_outside R w')"
      using Suc.hyps(2) Suc.prems n True owns_same_outside [OF s] mapped_set_same_outside [OF s]
      by (intro Suc.hyps(1)) auto
    with True s show ?thesis by (auto elim!: wp_mono intro: same_outside_trans)
  next
    case False
    with s show ?thesis by simp
  qed
  ultimately show ?case
    using Suc.prems(1) n
    by (auto simp: wp_simps pb_field_iter_next_spec [OF t] simp del: pb_field_set_to_default.simps
        elim!: wp_mono)
qed

lemma set_to_defaults_safe:
  assumes "static_msg d E C L a sz" and "owns R w dest sz" and "mapped_set C w" and "L + d + 1 \<le> n"
  shows "wp (pb_message_set_to_defaults n E a dest w) (same_outside R w)"
  using assms
proof (induction d arbitrary: a sz w dest n)
  case 0
  then show ?case by simp
next
  case (Suc d)
  then obtain fs where fs: "table_at E a fs" "fs \<noteq> []" "length fs \<le> L"
    "\<forall>k < length fs. field_fits (static_msg d E C L) C (fs ! k) (data_addr fs 0 k) (size_addr fs 0 k) sz"
    by auto
  from Suc.prems(4) obtain m where n: "n = Suc m" "L + d + 1 \<le> m" by (cases n) auto
  have "wp (set_defaults_loop m E (pb_message_set_to_defaults m E) (iter_at a fs dest 0) w) (same_outside R w)"
  proof (rule set_defaults_loop_safe [OF fs(1,4)])
    show "wp (pb_message_set_to_defaults m E b p w') (same_outside R w')"
      if "static_msg d E C L b n'" "owns R w' p n'" "mapped_set C w'" for b n' p w'
      using Suc.IH that n(2) by blast
  qed (use fs n Suc.prems in auto)
  with fs n show ?case by (simp add: pb_field_iter_begin_spec)
qed

section \<open>Releasing\<close>

text \<open>A static message holds no pointer, so there is nothing to free, at any depth.\<close>

lemma release_items_safe:
  assumes "\<And>i. i < m \<Longrightarrow> rel (a + int i * d) w = Ret w"
  shows "release_items m rel d a w = Ret w"
  using assms
proof (induction m arbitrary: a)
  case 0
  then show ?case by simp
next
  case (Suc m)
  have "rel a w = Ret w" using Suc.prems [of 0] by simp
  moreover have "release_items m rel d (a + d) w = Ret w"
    using Suc.prems [of "Suc i" for i] by (intro Suc.IH) (simp add: algebra_simps)
  ultimately show ?case by simp
qed

lemma item_in_array:
  assumes "p + d * n \<le> sz" and "i < n" and "0 \<le> d"
  shows "p + i * d + d \<le> (sz :: int)"
proof -
  have "(i + 1) * d \<le> n * d" using assms(2,3) by (intro mult_right_mono) auto
  then show ?thesis using assms(1) by (simp add: algebra_simps)
qed

lemma release_submessages_safe:
  assumes ff: "field_fits sub C f p s sz" and l: "PB_LTYPE (ftype f) = PB_LTYPE_SUBMESSAGE"
    and it: "pData iter = dest + p" "pSize iter = dest + s" and o: "owns R w dest sz"
    and rec: "\<And>b n q. sub b n \<Longrightarrow> owns R w q n \<Longrightarrow> rec b q w = Ret w"
  shows "release_submessages rec f iter w = Ret w"
proof -
  have st: "PB_ATYPE (ftype f) = PB_ATYPE_STATIC" "PB_ATYPE_STATIC \<noteq> PB_ATYPE_POINTER"
    and sub: "sub (ptr f) (uint (data_size f))" and p0: "0 \<le> p"
    using ff l by (auto simp: field_fits_def Let_def pb_consts)
  have "\<exists>c. release_count f iter w = Ret c \<and>
      (if PB_HTYPE (ftype f) = PB_HTYPE_REPEATED then c \<le> array_size f else c = 1)"
  proof (cases "PB_HTYPE (ftype f) = PB_HTYPE_REPEATED")
    case True
    then have "owns R w (dest + s) 4"
      using ff by (intro owns_sub [OF o]) (auto simp: field_fits_def Let_def)
    then obtain v where "load_u32 w (dest + s) = Ret v" by (auto dest: load_u32_owns)
    with True st it show ?thesis
      by (auto simp: release_count_def Let_def not_less)
  next
    case False
    then show ?thesis by (simp add: release_count_def Let_def)
  qed
  then obtain c where c: "release_count f iter w = Ret c"
    "if PB_HTYPE (ftype f) = PB_HTYPE_REPEATED then c \<le> array_size f else c = 1" by blast
  have "rec (ptr f) (dest + p + int i * uint (data_size f)) w = Ret w" if "i < unat c" for i
  proof (rule rec [OF sub], rule owns_sub [OF o])
    show "dest \<le> dest + p + int i * uint (data_size f)" using p0 by simp
    have "p + int i * uint (data_size f) + uint (data_size f) \<le> sz"
    proof (cases "PB_HTYPE (ftype f) = PB_HTYPE_REPEATED")
      case True
      then have "i < unat (array_size f)" using that c(2) by (simp add: word_le_nat_alt)
      then have "int i < int (unat (array_size f))" by (simp only: of_nat_less_iff)
      then have "int i < uint (array_size f)" by simp
      then show ?thesis
        using ff True by (intro item_in_array) (auto simp: field_fits_def Let_def)
    next
      case False
      with that c(2) ff show ?thesis by (auto simp: field_fits_def Let_def)
    qed
    then show "dest + p + int i * uint (data_size f) + uint (data_size f) \<le> dest + sz" by simp
  qed
  then have "release_items (unat c) (rec (ptr f)) (uint (data_size f)) (dest + p) w = Ret w"
    by (rule release_items_safe)
  with c st it show ?thesis by (simp add: release_submessages_def)
qed

lemma release_single_field_safe:
  assumes t: "table_at E a fs" and k: "k < length fs"
    and f: "field_fits sub C (fs ! k) (data_addr fs 0 k) (size_addr fs 0 k) sz"
    and o: "owns R w dest sz"
    and rec: "\<And>b n q. sub b n \<Longrightarrow> owns R w q n \<Longrightarrow> rec b q w = Ret w"
  shows "pb_release_single_field (Suc n) E rec (iter_at a fs dest k) w = Ret w"
proof -
  let ?f = "fs ! k"
  obtain p s where it: "data_addr fs dest k = dest + p" "size_addr fs dest k = dest + s"
    and ff: "field_fits sub C ?f p s sz"
    using field_fits_shift [OF f] by blast
  have static: "PB_ATYPE (ftype ?f) = PB_ATYPE_STATIC" "PB_LTYPE (ftype ?f) \<noteq> PB_LTYPE_EXTENSION"
    and ne: "PB_ATYPE_STATIC \<noteq> PB_ATYPE_POINTER" "PB_ATYPE_STATIC \<noteq> PB_ATYPE_CALLBACK"
    using ff by (auto simp: field_fits_def Let_def ltype_ok_def pb_consts)
  have "release_submessages rec ?f (iter_at a fs dest k) w = Ret w"
    if "PB_LTYPE (ftype ?f) = PB_LTYPE_SUBMESSAGE"
    using it by (intro release_submessages_safe [OF ff that _ _ o, where rec = rec]) (auto intro: rec)
  moreover have "\<exists>v. load_u32 w (dest + s) = Ret v" if "PB_HTYPE (ftype ?f) = PB_HTYPE_ONEOF"
  proof (rule load_u32_owns)
    show "owns R w (dest + s) 4"
      using ff that by (intro owns_sub [OF o]) (auto simp: field_fits_def Let_def)
  qed
  ultimately show ?thesis
    using static ne it by (auto simp: table_at_nth [OF t k] Let_def)
qed

lemma release_loop_safe:
  assumes t: "table_at E a fs"
    and f: "\<forall>k < length fs. field_fits sub C (fs ! k) (data_addr fs 0 k) (size_addr fs 0 k) sz"
    and o: "owns R w dest sz"
    and rec: "\<And>b n q. sub b n \<Longrightarrow> owns R w q n \<Longrightarrow> rec b q w = Ret w"
  shows "k < length fs \<Longrightarrow> length fs - k + 1 \<le> n \<Longrightarrow>
    release_loop n E rec (iter_at a fs dest k) w = Ret w"
proof (induction "length fs - k" arbitrary: k n)
  case 0
  then show ?case by simp
next
  case (Suc m)
  then obtain n' where n: "n = Suc (Suc n')" by (metis Suc_le_D add_leD2 le_add_diff_inverse2 not_less_eq_eq Suc_eq_plus1)
  have "pb_release_single_field (Suc n') E rec (iter_at a fs dest k) w = Ret w"
    using f Suc.prems
    by (intro release_single_field_safe [OF t _ _ o, where sub = sub and C = C and rec = rec])
       (auto intro: rec)
  moreover have "release_loop (Suc n') E rec (iter_at a fs dest (Suc k)) w = Ret w" if "Suc k < length fs"
    using Suc.hyps(2) Suc.prems n that by (intro Suc.hyps(1)) auto
  ultimately show ?case
    using Suc.prems(1) n
    by (auto simp: pb_field_iter_next_spec [OF t] simp del: pb_release_single_field.simps)
qed

lemma release_safe:
  assumes "static_msg d E C L a sz" and "owns R w dest sz" and "L + d + 1 \<le> n"
  shows "pb_release n E a dest w = Ret w"
  using assms
proof (induction d arbitrary: a sz dest n)
  case 0
  then show ?case by simp
next
  case (Suc d)
  then obtain fs where fs: "table_at E a fs" "fs \<noteq> []" "length fs \<le> L"
    "\<forall>k < length fs. field_fits (static_msg d E C L) C (fs ! k) (data_addr fs 0 k) (size_addr fs 0 k) sz"
    by auto
  from Suc.prems(3) obtain m where n: "n = Suc m" "L + d + 1 \<le> m" by (cases n) auto
  have "release_loop m E (pb_release m E) (iter_at a fs dest 0) w = Ret w"
  proof (rule release_loop_safe [OF fs(1,4) Suc.prems(2)])
    show "pb_release m E b q w = Ret w" if "static_msg d E C L b n'" "owns R w q n'" for b n' q
      using Suc.IH that n(2) by blast
  qed (use fs n in auto)
  with fs n show ?case by (simp add: pb_field_iter_begin_spec)
qed

text \<open>The member of a union that is given up is static too; the iterator comes back to the field.\<close>

lemma release_union_field_safe:
  assumes t: "table_at E a fs" and k: "k < length fs" and n: "L + d + 2 \<le> n" and L: "length fs \<le> L"
    and f: "\<forall>k < length fs. field_fits (static_msg d E C L) C (fs ! k) (data_addr fs 0 k) (size_addr fs 0 k) sz"
    and o: "owns R w dest sz" and h: "PB_HTYPE (ftype (fs ! k)) = PB_HTYPE_ONEOF"
    and it: "iter = iter_at a fs dest k"
    and m: "distinct (map tag fs)"
  shows "wp (pb_release_union_field n E st iter w) (\<lambda>(ok, st', iter', w').
    w' = w \<and> (if ok then iter' = iter \<and> st' = st else moved st st'))"
proof -
  have fn: "length fs < n" using n L by simp
  obtain p s where ps: "size_addr fs dest k = dest + s"
    and ff: "field_fits (static_msg d E C L) C (fs ! k) p s sz"
    using field_fits_shift [of _ C "fs ! k" fs k sz dest] f k by blast
  have "owns R w (dest + s) 4"
    using ff h by (intro owns_sub [OF o]) (auto simp: field_fits_def Let_def)
  then obtain v where v: "load_u32 w (dest + s) = Ret v" by (auto dest: load_u32_owns)
  have ne: "PB_LTYPE (ftype (fs ! k)) \<noteq> PB_LTYPE_EXTENSION"
    using ff by (auto simp: field_fits_def Let_def ltype_ok_def pb_consts)
  have rel: "pb_release_single_field n E (pb_release n E) (iter_at a fs dest i) w = Ret w"
    if "i < length fs" for i
  proof -
    obtain n' where "n = Suc n'" using n by (cases n) auto
    moreover have "pb_release n E b q w = Ret w" if "static_msg d E C L b n'" "owns R w q n'" for b n' q
      using release_safe [OF that, of n] n by simp
    ultimately show ?thesis
      using f that release_single_field_safe [OF t that _ o, of "static_msg d E C L" C "pb_release n E" n']
      by blast
  qed
  note base = pb_release_union_field_def it ps v table_at_nth [OF t k] Let_def wp_simps
  from t k fn show ?thesis
  proof (cases rule: pb_field_iter_find_cases [where dest = dest and tg = v])
    case (Found i)
    have ret: "pb_field_iter_find n E (iter_at a fs dest i) (tag (fs ! k)) = Ret (True, iter_at a fs dest k)"
      using t Found(1) fn
    proof (cases rule: pb_field_iter_find_cases [where dest = dest and tg = "tag (fs ! k)"])
      case (Found j)
      with m k have "j = k"
        using nth_eq_iff_index_eq [OF m, of j k] by (auto simp: field_matches_def)
      with Found show ?thesis by simp
    next
      case Missing
      with k ne show ?thesis by (auto simp: field_matches_def)
    qed
    with Found rel [of i] show ?thesis by (simp add: base)
  next
    case Missing
    then show ?thesis by (simp add: base)
  qed
qed

end
