(* ===== verification/PbSafety.thy ===== *)
theory PbSafety
  imports PbStatic
begin

text \<open>
  The safety of the message decoder: for a message type with static allocation, whatever bytes the
  buffer holds, \<open>pb_decode\<close> returns (with a fuel that is linear in the length of the input), reads
  only the buffer, the descriptors and the struct, and writes only the struct. The locale
  \<open>submessage_decoder\<close> is the contract of the recursive call; \<open>pb_decode_noinit\<close> satisfies it at
  every depth.
\<close>

section \<open>Items\<close>

definition world_ok :: "addr set \<Rightarrow> addr set \<Rightarrow> world \<Rightarrow> bool" where
  "world_ok B C w \<longleftrightarrow> mapped_set B w \<and> mapped_set C w \<and> stack_ok w"

lemma world_ok_same_outside: "same_outside R w w' \<Longrightarrow> world_ok B C w' \<longleftrightarrow> world_ok B C w"
  by (simp add: world_ok_def mapped_set_same_outside same_outside_stack_ok)

text \<open>After decoding an item: only \<open>R\<close> is changed, and a success has consumed at least a byte.\<close>

definition item_post :: "addr set \<Rightarrow> world \<Rightarrow> istream \<Rightarrow> bool \<times> istream \<times> world \<Rightarrow> bool" where
  "item_post R w st = (\<lambda>(ok, st', w').
     same_outside R w w' \<and> moved st st' \<and> (ok \<longrightarrow> adv st st' \<and> bytes_left st' < bytes_left st))"

lemma item_post_fail:
  "adv st st' \<Longrightarrow> same_outside R w w' \<Longrightarrow> item_post R w st (False, ierror st' m, w')"
  "adv st st' \<Longrightarrow> same_outside R w w' \<Longrightarrow> item_post R w st (False, st', w')"
  by (simp_all add: item_post_def adv_moved)

lemma item_post_ok:
  "adv st st' \<Longrightarrow> bytes_left st' < bytes_left st \<Longrightarrow> same_outside R w w' \<Longrightarrow> item_post R w st (ok, st', w')"
  by (simp add: item_post_def adv_moved)

lemma adv_less:
  "adv st st1 \<Longrightarrow> bytes_left st1 < bytes_left st \<Longrightarrow> adv st1 st2 \<Longrightarrow>
   adv st st2 \<and> bytes_left st2 < bytes_left st"
  by (auto simp: adv_def intro: le_less_trans)

lemma wp_same_outside: "wp m (same_outside R w1) \<Longrightarrow> same_outside R w w1 \<Longrightarrow> wp m (same_outside R w)"
  by (erule wp_mono) (rule same_outside_trans)

lemma pb_read_owns:
  assumes "rd_ok B st" and "mapped_set B w" and "owns R w a (uint c)"
  shows "wp (pb_read E st (RMem a) c w) (\<lambda>(ok, _, st', w'). same_outside R w w' \<and> adv st st')"
  using pb_read_mem [OF assms(1,2), of a c R E] assms(3)
  by (auto simp: owns_def elim!: wp_mono)

text \<open>The value of a 32-bit varint, for the decoders that start with one.\<close>

lemma varint32_cases:
  assumes "rd_ok B st" and "mapped_set B w"
  obtains (Fail) v st1 where "pb_decode_varint32 E st w = Ret (False, v, st1, w)" and "adv st st1"
    | (Value) v st1 where "pb_decode_varint32 E st w = Ret (True, v, st1, w)" and "adv st st1"
      and "bytes_left st1 < bytes_left st" and "rd_ok B st1"
proof -
  obtain ok v st1 where "pb_decode_varint32 E st w = Ret (ok, v, st1, w)" and "reads w st ok st1 w"
    using pb_decode_varint32_reads [OF assms, of E] by (auto simp: wp_Ret_iff reads_def)
  then show ?thesis
    using that assms(1) by (cases ok) (auto simp: reads_def intro: rd_ok_adv)
qed

lemma pb_dec_bool_safe:
  assumes "rd_ok B st" and "mapped_set B w" and o: "owns R w dest n" and n: "1 \<le> n"
  shows "wp (pb_dec_bool E st dest w) (item_post R w st)"
proof -
  have o': "owns R w dest 1" using n by (intro owns_sub [OF o]) auto
  from assms(1,2) show ?thesis
  proof (cases rule: varint32_cases [where E = E])
    case (Fail v st1)
    then show ?thesis by (simp add: pb_dec_bool_def item_post_fail)
  next
    case (Value v st1)
    from store_bool_owns [OF o', of "v \<noteq> 0"] Value show ?thesis
      by (auto simp: pb_dec_bool_def wp_simps item_post_ok elim!: wp_mono)
  qed
qed

lemma store_clamped_signed_safe:
  assumes o: "owns R w dest (uint dsize)"
  shows "wp (store_clamped_signed dsize dest v w) (\<lambda>(_, w'). same_outside R w w')"
proof -
  consider "dsize = 8" | "dsize = 4" | "dsize = 2" | "dsize = 1" | "dsize \<notin> {1, 2, 4, 8}" by auto
  then show ?thesis
  proof cases
    case 1
    with o store_u64_owns [of R w dest v] show ?thesis
      by (auto simp: store_clamped_signed_def wp_simps elim!: wp_mono)
  next
    case 2
    with o store_u32_owns [of R w dest "ucast v"] show ?thesis
      by (auto simp: store_clamped_signed_def wp_simps elim!: wp_mono)
  next
    case 3
    with o store_u16_owns [of R w dest "ucast v"] show ?thesis
      by (auto simp: store_clamped_signed_def wp_simps elim!: wp_mono)
  next
    case 4
    with o store_byte_owns [of R w dest "ucast v"] show ?thesis
      by (auto simp: store_clamped_signed_def wp_simps elim!: wp_mono)
  next
    case 5
    then show ?thesis by (simp add: store_clamped_signed_def)
  qed
qed

lemma store_clamped_unsigned_safe:
  assumes o: "owns R w dest (uint dsize)"
  shows "wp (store_clamped_unsigned dsize dest v w) (\<lambda>(_, w'). same_outside R w w')"
proof -
  have "wp (store_clamped_unsigned dsize dest v w) (\<lambda>(_, w'). same_outside R w w') =
      wp (store_clamped_signed dsize dest v w) (\<lambda>(_, w'). same_outside R w w')"
    by (simp add: store_clamped_unsigned_def store_clamped_signed_def wp_simps)
  then show ?thesis using store_clamped_signed_safe [OF o] by simp
qed

lemma check_clamped_safe:
  "adv st st1 \<Longrightarrow> bytes_left st1 < bytes_left st \<Longrightarrow> same_outside R w w' \<Longrightarrow>
   wp (check_clamped st1 v (c, w')) (item_post R w st)"
  by (auto simp: check_clamped_def item_post_fail item_post_ok split: option.split)

lemma pb_dec_varints_safe:
  assumes rd: "rd_ok B st" "mapped_set B w" and o: "owns R w dest (uint (data_size f))"
  shows "wp (pb_dec_varint E f st dest w) (item_post R w st)"
    and "wp (pb_dec_uvarint E f st dest w) (item_post R w st)"
    and "wp (pb_dec_svarint E f st dest w) (item_post R w st)"
proof -
  obtain ok v st1 where v: "pb_decode_varint E st w = Ret (ok, v, st1, w)" and r: "reads w st ok st1 w"
    using pb_decode_varint_reads [OF rd, of E] by (auto simp: wp_Ret_iff reads_def)
  obtain ok' v' st2 where v': "pb_decode_svarint E st w = Ret (ok', v', st2, w)" and r': "reads w st ok' st2 w"
    using pb_decode_svarint_reads [OF rd, of E] by (auto simp: wp_Ret_iff reads_def)
  show "wp (pb_dec_varint E f st dest w) (item_post R w st)"
  proof -
    define sv where "sv = (if data_size f = 8 then v else scast (ucast v :: u32))"
    show ?thesis
      using v r sv_def
      by (auto simp: pb_dec_varint_def wp_simps Let_def reads_def item_post_fail simp flip: sv_def
          intro: check_clamped_safe intro!: wp_mono [OF store_clamped_signed_safe [OF o]])
  qed
  show "wp (pb_dec_uvarint E f st dest w) (item_post R w st)"
    using v r
    by (auto simp: pb_dec_uvarint_def wp_simps reads_def item_post_fail
        intro: check_clamped_safe intro!: wp_mono [OF store_clamped_unsigned_safe [OF o]])
  show "wp (pb_dec_svarint E f st dest w) (item_post R w st)"
    using v' r'
    by (auto simp: pb_dec_svarint_def wp_simps reads_def item_post_fail
        intro: check_clamped_safe intro!: wp_mono [OF store_clamped_signed_safe [OF o]])
qed

lemma pb_dec_fixed_safe:
  assumes rd: "rd_ok B st" "mapped_set B w" and o: "owns R w dest n"
  shows "4 \<le> n \<Longrightarrow> wp (pb_dec_fixed32 E st dest w) (item_post R w st)"
    and "8 \<le> n \<Longrightarrow> wp (pb_dec_fixed64 E st dest w) (item_post R w st)"
proof -
  have le: "c \<le> bytes_left st" if "\<not> bytes_left st < c" for c using that by simp
  show "wp (pb_dec_fixed32 E st dest w) (item_post R w st)" if "4 \<le> n"
  proof -
    have "owns R w dest 4" using that by (intro owns_sub [OF o]) auto
    then show ?thesis
      by (auto simp: pb_dec_fixed32_def pb_decode_fixed32_def pb_read_buf [OF rd] wp_simps
          item_post_fail item_post_ok adv_step_by [OF le] step_by_less [OF le, simplified]
          intro!: wp_mono [OF store_u32_owns])
  qed
  show "wp (pb_dec_fixed64 E st dest w) (item_post R w st)" if "8 \<le> n"
  proof -
    have "owns R w dest 8" using that by (intro owns_sub [OF o]) auto
    then show ?thesis
      by (auto simp: pb_dec_fixed64_def pb_decode_fixed64_def pb_read_buf [OF rd] wp_simps
          item_post_fail item_post_ok adv_step_by [OF le] step_by_less [OF le, simplified]
          intro!: wp_mono [OF store_u64_owns])
  qed
qed

lemma uint_ucast_u32 [simp]: "uint (ucast (v :: u32) :: u64) = uint v"
  by (rule uint_up_ucast) (simp add: is_up)

lemma allocsize: "uint (PB_BYTES_ARRAY_T_ALLOCSIZE (ucast (v :: u32))) = uint v + 4"
proof -
  have "uint v < 2 ^ 32" using uint_bounded [of v] by simp
  then show ?thesis
    by (simp add: PB_BYTES_ARRAY_T_ALLOCSIZE_def offsetof_bytes_def uint_plus_if')
qed

lemma pb_dec_bytes_safe:
  assumes rd: "rd_ok B st" "mapped_set B w" and o: "owns R w dest (uint (data_size f))"
    and s: "PB_ATYPE (ftype f) = PB_ATYPE_STATIC"
  shows "wp (pb_dec_bytes E f st dest w) (item_post R w st)"
proof -
  have ns: "PB_ATYPE (ftype f) \<noteq> PB_ATYPE_POINTER" using s by (simp add: pb_consts)
  from rd show ?thesis
  proof (cases rule: varint32_cases [where E = E])
    case (Fail v st1)
    then show ?thesis by (simp add: pb_dec_bytes_def item_post_fail)
  next
    case (Value v st1)
    let ?a = "PB_BYTES_ARRAY_T_ALLOCSIZE (ucast v)"
    have small: "\<not> PB_SIZE_MAX < v" "\<not> ?a < ucast v"
      using allocsize [of v]
      by (simp_all add: PB_SIZE_MAX_def not_less word_order.extremum word_le_def)
    show ?thesis
    proof (cases "ucast (data_size f) < ?a")
      case True
      with Value small ns show ?thesis
        by (simp add: pb_dec_bytes_def Let_def item_post_fail)
    next
      case False
      then have le: "uint v + 4 \<le> uint (data_size f)"
        by (simp add: word_less_def allocsize)
      have "owns R w dest 4"
        by (intro owns_sub [OF o]) (use le uint_ge_0 [of v] in linarith)+
      then have st: "wp (store_u32 w dest v) (same_outside R w)" by (rule store_u32_owns)
      have "wp (pb_read E st1 (RMem (dest + offsetof_bytes)) (ucast v) w')
          (\<lambda>(ok, _, st', w''). item_post R w st (ok, st', w''))" if s': "same_outside R w w'" for w'
      proof -
        have "mapped_set B w'" using rd(2) mapped_set_same_outside [OF s'] by simp
        moreover have "owns R w' (dest + offsetof_bytes) (uint (ucast v :: u64))"
          by (rule owns_sub [of R w' dest "uint (data_size f)"])
            (use le o in \<open>auto simp: offsetof_bytes_def owns_same_outside [OF s']\<close>)
        ultimately have "wp (pb_read E st1 (RMem (dest + offsetof_bytes)) (ucast v) w')
            (\<lambda>(ok, _, st', w''). same_outside R w' w'' \<and> adv st1 st')"
          using Value(4) by (intro pb_read_owns)
        then show ?thesis
          using Value(2,3) s'
          by (auto elim!: wp_mono intro!: item_post_ok intro: same_outside_trans dest: adv_less)
      qed
      with st small False ns Value show ?thesis
        by (auto simp: pb_dec_bytes_def Let_def wp_simps case_prod_beta' elim!: wp_mono)
    qed
  qed
qed

lemma pb_dec_string_safe:
  assumes rd: "rd_ok B st" "mapped_set B w" and o: "owns R w dest (uint (data_size f))"
    and s: "PB_ATYPE (ftype f) = PB_ATYPE_STATIC"
  shows "wp (pb_dec_string E f st dest w) (item_post R w st)"
proof -
  have ns: "PB_ATYPE (ftype f) \<noteq> PB_ATYPE_POINTER" using s by (simp add: pb_consts)
  from rd show ?thesis
  proof (cases rule: varint32_cases [where E = E])
    case (Fail v st1)
    then show ?thesis by (simp add: pb_dec_string_def item_post_fail)
  next
    case (Value v st1)
    let ?a = "ucast (v + 1) :: u64"
    consider "?a < ucast v" | "\<not> ?a < ucast v" "ucast (data_size f) < ?a"
      | "\<not> ?a < ucast v" "\<not> ucast (data_size f) < ?a" by blast
    then show ?thesis
    proof cases
      case 1
      with Value show ?thesis by (simp add: pb_dec_string_def Let_def item_post_fail)
    next
      case 2
      with Value ns show ?thesis by (simp add: pb_dec_string_def Let_def item_post_fail)
    next
      case 3
      have "uint v \<le> uint (v + 1)" using 3(1) by (simp add: word_less_def)
      then have "uint (v + 1) = uint v + 1"
        using uint_bounded [of v] by (simp add: uint_plus_if' split: if_splits)
      then have le: "uint v + 1 \<le> uint (data_size f)" using 3(2) by (simp add: word_less_def)
      have "wp (pb_read E st1 (RMem dest) (ucast v) w)
          (\<lambda>(ok, _, st', w'). same_outside R w w' \<and> adv st1 st')"
        using le by (intro pb_read_owns [where B = B] Value rd owns_sub [OF o]) auto
      moreover have "wp (store_byte w' (dest + uint v) 0) (\<lambda>w''. item_post R w st (ok, st', w''))"
        if s': "same_outside R w w'" and a: "adv st1 st'" for ok st' w'
      proof -
        have "owns R w' (dest + uint v) 1"
          by (rule owns_sub [of R w' dest "uint (data_size f)"])
            (use le o in \<open>auto simp: owns_same_outside [OF s']\<close>)
        then have "wp (store_byte w' (dest + uint v) 0) (same_outside R w)"
          by (intro wp_same_outside [OF _ s'] store_byte_owns)
        with adv_less [OF Value(2,3) a] show ?thesis
          by (auto elim!: wp_mono intro: item_post_ok)
      qed
      ultimately show ?thesis
        using 3 ns Value
        by (auto simp: pb_dec_string_def Let_def wp_simps elim!: wp_mono)
    qed
  qed
qed

lemma pb_dec_fixed_length_bytes_safe:
  assumes rd: "rd_ok B st" "mapped_set B w" and o: "owns R w dest (uint (data_size f))"
  shows "wp (pb_dec_fixed_length_bytes E f st dest w) (item_post R w st)"
  using rd
proof (cases rule: varint32_cases [where E = E])
  case (Fail v st1)
  then show ?thesis by (simp add: pb_dec_fixed_length_bytes_def item_post_fail)
next
  case (Value v st1)
  have small: "\<not> PB_SIZE_MAX < v" by (simp add: PB_SIZE_MAX_def not_less word_order.extremum)
  have "wp (c_memset w dest 0 (unat (data_size f))) (same_outside R w)"
    using o by (intro c_memset_owns) simp
  moreover have "wp (pb_read E st1 (RMem dest) (ucast (data_size f)) w)
      (\<lambda>(ok, _, st', w'). same_outside R w w' \<and> adv st1 st')"
    using o by (intro pb_read_owns [where B = B] Value rd) simp
  ultimately show ?thesis
    using Value small
    by (auto simp: pb_dec_fixed_length_bytes_def wp_simps item_post_fail item_post_ok
        dest: adv_less elim!: wp_mono)
qed

section \<open>The contract of the recursive call\<close>

definition msg_post :: "addr set \<Rightarrow> world \<Rightarrow> istream \<Rightarrow> bool \<times> istream \<times> world \<Rightarrow> bool" where
  "msg_post R w st = (\<lambda>(ok, st', w').
     same_outside R w w' \<and> moved st st' \<and> (ok \<longrightarrow> adv st st'))"

lemma close_post:
  assumes "opened B st st1 sub1" and B: "mapped_set B w" and p: "msg_post R w sub1 (status, sub2, w2)"
  shows "wp (pb_close_string_substream E st1 sub2 w2)
    (\<lambda>(ok, st2, _, w3). item_post R w st (ok \<and> status, st2, w3))"
proof -
  have s2: "same_outside R w w2" and mv: "moved sub1 sub2" and a: "status \<longrightarrow> adv sub1 sub2"
    using p by (simp_all add: msg_post_def)
  have "mapped_set B w2" using B mapped_set_same_outside [OF s2] by simp
  from close_opened [OF assms(1) mv this, of E] s2 a show ?thesis
    by (auto simp: item_post_def)
qed

locale submessage_decoder =
  fixes E :: env and B C :: "addr set" and L d N :: nat and rec :: dec
  assumes rec_safe:
    "static_msg d E C L a sz \<Longrightarrow> rd_ok B st \<Longrightarrow> world_ok B C w \<Longrightarrow> owns R w dest sz \<Longrightarrow>
     unat (bytes_left st) + L + d + 4 \<le> N \<Longrightarrow> wp (rec st a dest w) (msg_post R w st)"

context submessage_decoder
begin

lemma decode_message_safe:
  assumes "static_msg d E C L a sz" and "rd_ok B st" and w: "world_ok B C w" and o: "owns R w dest sz"
    and "unat (bytes_left st) + L + d + 4 \<le> N" and "L + d + 1 \<le> n"
  shows "wp (decode_message n E rec st a dest w) (msg_post R w st)"
proof -
  have "wp (pb_message_set_to_defaults n E a dest w) (same_outside R w)"
    using assms by (intro set_to_defaults_safe) (auto simp: world_ok_def)
  moreover have "wp (rec st a dest w1) (\<lambda>(status, st', w2).
      wp (if \<not> status then res_bind (pb_release n E a dest w2) (\<lambda>w. Ret (status, st', w))
          else Ret (status, st', w2)) (msg_post R w st))" if s: "same_outside R w w1" for w1
  proof -
    have "wp (rec st a dest w1) (msg_post R w1 st)"
      using assms world_ok_same_outside [OF s] owns_same_outside [OF s] by (intro rec_safe) auto
    then show ?thesis
    proof (rule wp_mono, clarify)
      fix status st' w2
      assume p: "msg_post R w1 st (status, st', w2)"
      then have s2: "same_outside R w1 w2" by (simp add: msg_post_def)
      have "pb_release n E a dest w2 = Ret w2"
        using assms(1,6) o owns_same_outside [OF s] owns_same_outside [OF s2]
        by (intro release_safe) auto
      with p s show "wp (if \<not> status then res_bind (pb_release n E a dest w2) (\<lambda>w. Ret (status, st', w))
          else Ret (status, st', w2)) (msg_post R w st)"
        by (auto simp: msg_post_def intro: same_outside_trans)
    qed
  qed
  ultimately show ?thesis
    by (auto simp: decode_message_def wp_simps case_prod_beta' elim!: wp_mono)
qed

lemma pb_dec_submessage_safe:
  assumes sub: "static_msg d E C L (ptr f) sz" "ptr f \<noteq> 0" and rd: "rd_ok B st" and w: "world_ok B C w"
    and o: "owns R w dest sz" and N: "unat (bytes_left st) + L + d + 4 \<le> N" and n: "L + d + 1 \<le> n"
  shows "wp (pb_dec_submessage n E rec f st dest w) (item_post R w st)"
proof -
  have B: "mapped_set B w" using w by (simp add: world_ok_def)
  from rd B show ?thesis
  proof (cases rule: make_substream_cases [where E = E])
    case (Fail st1 sub1)
    then show ?thesis by (simp add: pb_dec_submessage_def item_post_fail)
  next
    case (Open st1 sub1)
    then have s1: "rd_ok B sub1" and less: "unat (bytes_left sub1) < unat (bytes_left st)"
      by (auto simp: opened_def word_less_nat_alt)
    let ?run = "if PB_HTYPE (ftype f) = PB_HTYPE_REPEATED then decode_message n E rec sub1 (ptr f) dest w
                else rec sub1 (ptr f) dest w"
    have "wp ?run (msg_post R w sub1)"
      using rec_safe [OF sub(1) s1 w o] decode_message_safe [OF sub(1) s1 w o _ n] N less by simp
    then have "wp ?run (\<lambda>(status, sub2, w2). wp (pb_close_string_substream E st1 sub2 w2)
        (\<lambda>(ok, st2, _, w3). item_post R w st (ok \<and> status, st2, w3)))"
      by (rule wp_mono) (auto intro: close_post [OF Open(2) B])
    then show ?thesis
      using Open(1) sub(2)
      by (auto simp: pb_dec_submessage_def wp_simps case_prod_beta' elim!: wp_mono)
  qed
qed

text \<open>Every entry of the dispatch table.\<close>

lemma PB_DECODERS_safe:
  assumes l: "ltype_ok (PB_LTYPE (ftype f))" and s: "PB_ATYPE (ftype f) = PB_ATYPE_STATIC"
    and sc: "scalar_size_ok f"
    and sub: "PB_LTYPE (ftype f) = PB_LTYPE_SUBMESSAGE \<Longrightarrow>
      ptr f \<noteq> 0 \<and> static_msg d E C L (ptr f) (uint (data_size f))"
    and rd: "rd_ok B st" and w: "world_ok B C w" and o: "owns R w dest (uint (data_size f))"
    and N: "unat (bytes_left st) + L + d + 4 \<le> N" and n: "L + d + 1 \<le> n"
  shows "wp (PB_DECODERS n E rec (PB_LTYPE (ftype f)) f st dest w) (item_post R w st)"
proof -
  have B: "mapped_set B w" using w by (simp add: world_ok_def)
  note scalar = pb_dec_bool_safe [OF rd B o] pb_dec_varints_safe [OF rd B o]
    pb_dec_fixed_safe [OF rd B o] pb_dec_bytes_safe [OF rd B o s] pb_dec_string_safe [OF rd B o s]
    pb_dec_fixed_length_bytes_safe [OF rd B o]
  have sm: "wp (pb_dec_submessage n E rec f st dest w) (item_post R w st)"
    if "PB_LTYPE (ftype f) = PB_LTYPE_SUBMESSAGE"
    using pb_dec_submessage_safe [OF _ _ rd w o N n, of f] sub [OF that] by blast
  show ?thesis
    using l sc scalar sm unfolding ltype_ok_def scalar_size_ok_def PB_DECODERS_def
    by (auto simp: pb_consts)
qed

text \<open>Static fields. The region \<open>R\<close> covers the struct and, for an array of fixed count, the counter
  on the stack.\<close>

lemma item_addr_owns:
  assumes o: "owns R w p (uint (data_size f) * uint (array_size f))" and c: "count < array_size f"
    and small: "uint (data_size f) * uint (array_size f) < 2 ^ 32"
  shows "owns R w (item_addr f p count) (uint (data_size f))"
proof -
  have c': "uint count < uint (array_size f)" using c by (simp add: word_less_def)
  have in_arr: "0 + uint count * uint (data_size f) + uint (data_size f) \<le>
      uint (data_size f) * uint (array_size f)"
    using c' by (intro item_in_array) auto
  then have "uint (data_size f) * uint count < 2 ^ 32"
    using small uint_ge_0 [of "data_size f"] mult.commute [of "uint count" "uint (data_size f)"]
    by linarith
  then have "uint (data_size f * count) = uint (data_size f) * uint count"
    by (intro iffD1 [OF uint_mult_lem]) simp
  then show ?thesis
    using in_arr o by (simp add: item_addr_def) (erule owns_sub, auto simp: mult.commute)
qed

lemma packed_static_safe:
  assumes func: "\<And>st dest w. rd_ok B st \<Longrightarrow> world_ok B C w \<Longrightarrow> owns R w dest (uint (data_size f)) \<Longrightarrow>
      unat (bytes_left st) < bound \<Longrightarrow> wp (func st dest w) (item_post R w st)"
    and small: "uint (data_size f) * uint (array_size f) < 2 ^ 32"
  shows "rd_ok B st \<Longrightarrow> world_ok B C w \<Longrightarrow> owns R w pdata (uint (data_size f) * uint (array_size f)) \<Longrightarrow>
    owns R w psize 4 \<Longrightarrow> unat (bytes_left st) < bound \<Longrightarrow> unat (bytes_left st) < n \<Longrightarrow>
    wp (packed_static n f func pdata psize st w) (msg_post R w st)"
proof (induction n arbitrary: st w)
  case 0
  then show ?case by simp
next
  case (Suc n)
  show ?case
  proof (cases "bytes_left st = 0")
    case True
    then show ?thesis by (simp add: msg_post_def)
  next
    case False
    obtain count where count: "load_u32 w psize = Ret count"
      using Suc.prems(4) by (auto dest: load_u32_owns)
    show ?thesis
    proof (cases "count < array_size f")
      case nc: False
      with False count show ?thesis by (simp add: msg_post_def)
    next
      case True
      let ?item = "item_addr f pdata count"
      have "wp (func st ?item w) (item_post R w st)"
        using Suc.prems item_addr_owns [OF Suc.prems(3) True small] by (intro func) auto
      then have "wp (func st ?item w) (\<lambda>(ok, st1, w1).
          wp (if \<not> ok then Ret (False, st1, w1)
              else res_bind (load_u32 w1 psize) (\<lambda>count. res_bind (store_u32 w1 psize (count + 1))
                (\<lambda>w. packed_static n f func pdata psize st1 w))) (msg_post R w st))"
      proof (rule wp_mono, clarify)
        fix ok st1 w1
        assume p: "item_post R w st (ok, st1, w1)"
        then have s1: "same_outside R w w1" and mv: "moved st st1" by (simp_all add: item_post_def)
        show "wp (if \<not> ok then Ret (False, st1, w1)
              else res_bind (load_u32 w1 psize) (\<lambda>count. res_bind (store_u32 w1 psize (count + 1))
                (\<lambda>w. packed_static n f func pdata psize st1 w))) (msg_post R w st)"
        proof (cases ok)
          case False
          with s1 mv show ?thesis by (simp add: msg_post_def)
        next
          case True
          then have a: "adv st st1" and less: "unat (bytes_left st1) < unat (bytes_left st)"
            using p by (simp_all add: item_post_def word_less_nat_alt)
          have o1: "owns R w1 psize 4" using Suc.prems(4) by (simp add: owns_same_outside [OF s1])
          then obtain c where c: "load_u32 w1 psize = Ret c" by (auto dest: load_u32_owns)
          have "wp (packed_static n f func pdata psize st1 w2) (msg_post R w st)"
            if s2: "same_outside R w1 w2" for w2
          proof -
            have s3: "same_outside R w w2" using s1 s2 by (rule same_outside_trans)
            have "wp (packed_static n f func pdata psize st1 w2) (msg_post R w2 st1)"
              using Suc.prems less rd_ok_moved [OF Suc.prems(1) mv]
              by (intro Suc.IH) (auto simp: world_ok_same_outside [OF s3] owns_same_outside [OF s3])
            with s3 a mv show ?thesis
              by (auto simp: msg_post_def elim!: wp_mono
                  intro: same_outside_trans moved_trans adv_trans)
          qed
          with True c store_u32_owns [OF o1, of "c + 1"] show ?thesis
            by (auto simp: wp_simps elim!: wp_mono)
        qed
      qed
      with False True count show ?thesis by (simp add: wp_simps case_prod_beta')
    qed
  qed
qed

text \<open>The address of the count of field \<open>k\<close>, which is that of the local counter for an array of
  fixed count.\<close>

definition size_ok :: "addr set \<Rightarrow> world \<Rightarrow> pb_field \<Rightarrow> pb_field_iter \<Rightarrow> bool" where
  "size_ok R w f iter \<longleftrightarrow>
     (let h = PB_HTYPE (ftype f)
      in (h = PB_HTYPE_REPEATED \<or> h = PB_HTYPE_ONEOF \<longrightarrow> owns R w (pSize iter) 4) \<and>
         (h = PB_HTYPE_OPTIONAL \<and> pSize iter \<noteq> pData iter \<longrightarrow> owns R w (pSize iter) 1))"

lemma decode_static_field_safe:
  assumes f: "field_at E (it_pos iter) = Ret f" and ff: "field_fits (static_msg d E C L) C f p s sz"
    and data: "owns R w (pData iter) (if PB_HTYPE (ftype f) = PB_HTYPE_REPEATED
        then uint (data_size f) * uint (array_size f) else uint (data_size f))"
    and size: "size_ok R w f iter" and rd: "rd_ok B st" and w: "world_ok B C w"
    and N: "unat (bytes_left st) + L + d + 4 \<le> N" and n: "L + d + 1 \<le> n"
    and n': "unat (bytes_left st) < n"
  shows "wp (decode_static_field n E rec st wire_type iter w) (item_post R w st)"
proof -
  have B: "mapped_set B w" using w by (simp add: world_ok_def)
  have s: "PB_ATYPE (ftype f) = PB_ATYPE_STATIC" and l: "ltype_ok (PB_LTYPE (ftype f))"
    and sc: "scalar_size_ok f"
    and sub: "PB_LTYPE (ftype f) = PB_LTYPE_SUBMESSAGE \<Longrightarrow>
      ptr f \<noteq> 0 \<and> static_msg d E C L (ptr f) (uint (data_size f))"
    using ff by (simp_all add: field_fits_def Let_def split: if_splits)
  have lc: "\<not> PB_LTYPES_COUNT \<le> PB_LTYPE (ftype f)"
    using l by (auto simp: ltype_ok_def pb_consts word_le_nat_alt)
  let ?func = "PB_DECODERS n E rec (PB_LTYPE (ftype f)) f"
  have func: "wp (?func st1 dest w1) (item_post R w1 st1)"
    if "rd_ok B st1" "world_ok B C w1" "owns R w1 dest (uint (data_size f))"
      "unat (bytes_left st1) < Suc (unat (bytes_left st))" for st1 dest w1
    using that N by (intro PB_DECODERS_safe [OF l s sc sub _ _ _ _ n]) auto
  have func': "wp (?func st dest w1) (item_post R w st)"
    if s1: "same_outside R w w1" and o: "owns R w dest (uint (data_size f))" for dest w1
  proof -
    have "wp (?func st dest w1) (item_post R w1 st)"
      using that rd w by (intro func) (auto simp: world_ok_same_outside [OF s1] owns_same_outside [OF s1])
    with s1 show ?thesis
      by (auto simp: item_post_def elim!: wp_mono intro: same_outside_trans)
  qed
  note base = decode_static_field_def f Let_def lc
  consider (req) "PB_HTYPE (ftype f) = PB_HTYPE_REQUIRED"
    | (opt) "PB_HTYPE (ftype f) = PB_HTYPE_OPTIONAL"
    | (packed) "PB_HTYPE (ftype f) = PB_HTYPE_REPEATED" "wire_type = PB_WT_STRING"
        "PB_LTYPE (ftype f) \<le> PB_LTYPE_LAST_PACKABLE"
    | (rep) "PB_HTYPE (ftype f) = PB_HTYPE_REPEATED"
        "\<not> (wire_type = PB_WT_STRING \<and> PB_LTYPE (ftype f) \<le> PB_LTYPE_LAST_PACKABLE)"
    | (oneof) "PB_HTYPE (ftype f) = PB_HTYPE_ONEOF"
    using htype_cases [of "ftype f"] by blast
  then show ?thesis
  proof cases
    case req
    then have "owns R w (pData iter) (uint (data_size f))" using data by (simp add: pb_consts)
    from func' [OF same_outside_refl this] req show ?thesis by (simp add: base)
  next
    case opt
    then have o: "owns R w (pData iter) (uint (data_size f))" using data by (simp add: pb_consts)
    have "wp (if pSize iter \<noteq> pData iter then store_bool w (pSize iter) True else Ret w) (same_outside R w)"
      using size opt by (auto simp: size_ok_def Let_def intro: store_bool_owns)
    then show ?thesis
      using opt func' [OF _ o] htypes_differ by (simp add: base wp_bind) (auto elim!: wp_mono)
  next
    case packed
    note ne = htypes_differ
    have small: "uint (data_size f) * uint (array_size f) < 2 ^ 32"
      using ff packed(1) by (simp add: field_fits_def Let_def)
    from rd B show ?thesis
    proof (cases rule: make_substream_cases [where E = E])
      case (Fail st1 sub1)
      with packed ne show ?thesis by (simp add: base item_post_fail)
    next
      case (Open st1 sub1)
      then have s1: "rd_ok B sub1" and less: "unat (bytes_left sub1) < unat (bytes_left st)"
        by (auto simp: opened_def word_less_nat_alt)
      have mv1: "moved st st1" using Open(2) by (rule opened_moved)
      have "wp (packed_static n f ?func (pData iter) (pSize iter) sub1 w) (msg_post R w sub1)"
      proof (rule packed_static_safe [where bound = "Suc (unat (bytes_left st))"])
        show "wp (?func st2 dest w2) (item_post R w2 st2)"
          if "rd_ok B st2" "world_ok B C w2" "owns R w2 dest (uint (data_size f))"
            "unat (bytes_left st2) < Suc (unat (bytes_left st))" for st2 dest w2
          using that by (rule func)
      qed (use packed data size s1 w small less n' in \<open>auto simp: size_ok_def Let_def\<close>)
      then have "wp (packed_static n f ?func (pData iter) (pSize iter) sub1 w) (\<lambda>(status, sub2, w2).
          wp (if bytes_left sub2 \<noteq> 0 then Ret (False, ierror st1 ''array overflow'', w2)
              else res_bind (pb_close_string_substream E st1 sub2 w2) (\<lambda>(ok, st, _, w).
                if \<not> ok then Ret (False, st, w) else Ret (status, st, w))) (item_post R w st))"
      proof (rule wp_mono, clarify)
        fix status sub2 w2
        assume p: "msg_post R w sub1 (status, sub2, w2)"
        then have "same_outside R w w2" by (simp add: msg_post_def)
        with mv1 have "item_post R w st (False, ierror st1 ''array overflow'', w2)"
          by (simp add: item_post_def)
        with close_post [OF Open(2) B p, of E]
        show "wp (if bytes_left sub2 \<noteq> 0 then Ret (False, ierror st1 ''array overflow'', w2)
              else res_bind (pb_close_string_substream E st1 sub2 w2) (\<lambda>(ok, st, _, w).
                if \<not> ok then Ret (False, st, w) else Ret (status, st, w))) (item_post R w st)"
          by (auto simp: wp_simps case_prod_beta' elim!: wp_mono)
      qed
      then show ?thesis
        using Open(1) packed ne by (auto simp: base wp_simps case_prod_beta' elim!: wp_mono)
    qed
  next
    case rep
    note ne = htypes_differ
    have small: "uint (data_size f) * uint (array_size f) < 2 ^ 32"
      using ff rep(1) by (simp add: field_fits_def Let_def)
    have o4: "owns R w (pSize iter) 4" using size rep by (simp add: size_ok_def Let_def)
    then obtain c where c: "load_u32 w (pSize iter) = Ret c" by (auto dest: load_u32_owns)
    have "wp (if array_size f \<le> c then Ret (False, ierror st ''array overflow'', w1)
        else ?func st (item_addr f (pData iter) c) w1) (item_post R w st)" if s1: "same_outside R w w1" for w1
    proof (cases "array_size f \<le> c")
      case True
      with s1 show ?thesis by (simp add: item_post_fail)
    next
      case False
      then have "owns R w (item_addr f (pData iter) c) (uint (data_size f))"
        using data rep small by (intro item_addr_owns) auto
      with False func' [OF s1] show ?thesis by simp
    qed
    with store_u32_owns [OF o4, of "c + 1"] rep ne c show ?thesis
      by (auto simp: base wp_bind elim!: wp_mono)
  next
    case oneof
    note ne = htypes_differ
    have o4: "owns R w (pSize iter) 4" using size oneof by (simp add: size_ok_def Let_def)
    have od: "owns R w (pData iter) (uint (data_size f))" using data oneof ne by simp
    let ?clear = "\<lambda>w. if PB_LTYPE (ftype f) = PB_LTYPE_SUBMESSAGE
      then res_bind (c_memset w (pData iter) 0 (unat (data_size f))) (\<lambda>w.
        pb_message_set_to_defaults n E (ptr f) (pData iter) w) else Ret w"
    have clear: "wp (?clear w1) (same_outside R w)" if s1: "same_outside R w w1" for w1
    proof (cases "PB_LTYPE (ftype f) = PB_LTYPE_SUBMESSAGE")
      case True
      have od1: "owns R w1 (pData iter) (uint (data_size f))" using od by (simp add: owns_same_outside [OF s1])
      have "wp (pb_message_set_to_defaults n E (ptr f) (pData iter) w2) (same_outside R w)"
        if s2: "same_outside R w1 w2" for w2
      proof -
        have s3: "same_outside R w w2" using s1 s2 by (rule same_outside_trans)
        have "wp (pb_message_set_to_defaults n E (ptr f) (pData iter) w2) (same_outside R w2)"
          using sub [OF True] od w n
          by (intro set_to_defaults_safe) (auto simp: owns_same_outside [OF s3] world_ok_def
              mapped_set_same_outside [OF s3])
        with s3 show ?thesis by (auto intro: wp_same_outside)
      qed
      with c_memset_owns [of R w1 "pData iter" "unat (data_size f)" 0] od1 True show ?thesis
        by (auto simp: wp_bind elim!: wp_mono)
    next
      case False
      with s1 show ?thesis by simp
    qed
    have "wp (store_u32 w (pSize iter) (tag f)) (\<lambda>w1. wp (?clear w1) (\<lambda>w2.
        wp (?func st (pData iter) w2) (item_post R w st)))"
    proof (rule wp_mono [OF store_u32_owns [OF o4]])
      fix w1 assume "same_outside R w w1"
      from clear [OF this] show "wp (?clear w1) (\<lambda>w2. wp (?func st (pData iter) w2) (item_post R w st))"
        by (rule wp_mono) (rule func' [OF _ od])
    qed
    with oneof ne show ?thesis by (simp add: base wp_bind)
  qed
qed

end

end
