(* ===== verification/PbSafeMessage.thy ===== *)
theory PbSafeMessage
  imports PbSafety
begin

text \<open>
  The main loop of the decoder: its safety for message types with static allocation, the discharge
  of the contract \<open>submessage_decoder\<close> by \<open>pb_decode_noinit\<close> at every nesting depth, and the
  theorems about \<open>pb_decode\<close> and its delimited form.
\<close>

section \<open>The iterator during the loop\<close>

definition msg_fields :: "nat \<Rightarrow> env \<Rightarrow> addr set \<Rightarrow> nat \<Rightarrow> addr \<Rightarrow> int \<Rightarrow> pb_field list \<Rightarrow> bool" where
  "msg_fields d E C L a sz fs \<longleftrightarrow>
     table_at E a fs \<and> fs \<noteq> [] \<and> length fs \<le> L \<and> distinct (map tag fs) \<and>
     (\<forall>k < length fs.
        field_fits (static_msg d E C L) C (fs ! k) (data_addr fs 0 k) (size_addr fs 0 k) sz)"

lemma static_msg_Suc: "static_msg (Suc d) E C L a sz \<longleftrightarrow> (\<exists>fs. msg_fields d E C L a sz fs)"
  by (simp add: msg_fields_def)

lemma msg_fieldsD:
  assumes "msg_fields d E C L a sz fs"
  shows "table_at E a fs" and "fs \<noteq> []" and "length fs \<le> L" and "distinct (map tag fs)"
    and "\<forall>k < length fs.
        field_fits (static_msg d E C L) C (fs ! k) (data_addr fs 0 k) (size_addr fs 0 k) sz"
  using assms by (simp_all add: msg_fields_def)

text \<open>The iterator is at a field, with its count address possibly replaced by that of the local
  counter \<open>fc\<close>.\<close>

definition at_field :: "pb_field list \<Rightarrow> addr \<Rightarrow> addr \<Rightarrow> addr \<Rightarrow> nat \<Rightarrow> pb_field_iter \<Rightarrow> bool" where
  "at_field fs a dest fc k iter \<longleftrightarrow>
     k < length fs \<and>
     (iter = iter_at a fs dest k \<or>
      PB_HTYPE (ftype (fs ! k)) = PB_HTYPE_REPEATED \<and> iter = (iter_at a fs dest k)\<lparr>pSize := fc\<rparr>)"

lemma at_field_pos: "at_field fs a dest fc k iter \<Longrightarrow> it_pos iter = a + sizeof_pb_field * int k"
  by (auto simp: at_field_def)

lemma at_field_iter_at: "k < length fs \<Longrightarrow> at_field fs a dest fc k (iter_at a fs dest k)"
  by (simp add: at_field_def)

lemma find_at_field:
  assumes t: "table_at E a fs" and it: "at_field fs a dest fc k iter" and n: "length fs < n"
  obtains (Found) i iter' where "pb_field_iter_find n E iter tg = Ret (True, iter')"
      and "at_field fs a dest fc i iter'"
    | (Missing) "pb_field_iter_find n E iter tg = Ret (False, iter_at a fs dest k)"
proof -
  have k: "k < length fs" using it by (simp add: at_field_def)
  consider "iter = iter_at a fs dest k"
    | "PB_HTYPE (ftype (fs ! k)) = PB_HTYPE_REPEATED" "iter = (iter_at a fs dest k)\<lparr>pSize := fc\<rparr>"
    using it by (auto simp: at_field_def)
  then show ?thesis
  proof cases
    case 1
    from t k n show ?thesis
      by (cases rule: pb_field_iter_find_cases [where dest = dest and tg = tg])
        (use 1 Found Missing at_field_iter_at in \<open>metis+\<close>)
  next
    case 2
    note p = pb_field_iter_find_pSize [OF t k n 2(1), where dest = dest and x = fc and tg = tg]
    show ?thesis
    proof (cases "field_matches tg (fs ! k)")
      case True
      with p 2 it show ?thesis by (intro Found [of iter k]) auto
    next
      case False
      with p 2(2) have "pb_field_iter_find n E iter tg = pb_field_iter_find n E (iter_at a fs dest k) tg"
        by simp
      with t k n show ?thesis
        by (cases rule: pb_field_iter_find_cases [where dest = dest and tg = tg])
          (use Found Missing at_field_iter_at in \<open>metis+\<close>)
    qed
  qed
qed

context submessage_decoder
begin

lemma decode_field_safe:
  assumes m: "msg_fields d E C L a sz fs" and it: "at_field fs a dest fc k iter"
    and q: "PB_HTYPE (ftype (fs ! k)) = PB_HTYPE_REPEATED \<Longrightarrow> iter \<noteq> iter_at a fs dest k \<Longrightarrow> owns R w fc 4"
    and o: "owns R w dest sz" and rd: "rd_ok B st" and w: "world_ok B C w"
    and N: "unat (bytes_left st) + L + d + 4 \<le> N" and n: "L + d + 2 \<le> n"
    and n': "unat (bytes_left st) < n"
  shows "wp (decode_field n E rec st wt iter w) (\<lambda>(ok, st', iter', w').
    item_post R w st (ok, st', w') \<and> (ok \<longrightarrow> iter' = iter))"
proof -
  note md = msg_fieldsD [OF m]
  have k: "k < length fs" using it by (simp add: at_field_def)
  have pos: "it_pos iter = a + sizeof_pb_field * int k" using it by (rule at_field_pos)
  note f = table_at_nth [OF md(1) k]
  obtain p s where ps: "data_addr fs dest k = dest + p" "size_addr fs dest k = dest + s"
    and ff: "field_fits (static_msg d E C L) C (fs ! k) p s sz"
    using field_fits_shift [of _ C "fs ! k" fs k sz dest] md(5) k by blast
  have st: "PB_ATYPE (ftype (fs ! k)) = PB_ATYPE_STATIC"
    using ff by (simp add: field_fits_def Let_def)
  have pd: "pData iter = dest + p" using it ps by (auto simp: at_field_def)
  have data: "owns R w (pData iter) (if PB_HTYPE (ftype (fs ! k)) = PB_HTYPE_REPEATED
        then uint (data_size (fs ! k)) * uint (array_size (fs ! k)) else uint (data_size (fs ! k)))"
    using ff unfolding pd by (intro owns_sub [OF o]) (auto simp: field_fits_def Let_def)
  have size: "size_ok R w (fs ! k) iter"
  proof (cases "iter = iter_at a fs dest k")
    case True
    then have "pSize iter = dest + s" using ps by simp
    moreover have "owns R w (dest + s) 4"
      if "PB_HTYPE (ftype (fs ! k)) = PB_HTYPE_REPEATED \<or> PB_HTYPE (ftype (fs ! k)) = PB_HTYPE_ONEOF"
      using ff that by (intro owns_sub [OF o]) (auto simp: field_fits_def Let_def)
    moreover have "owns R w (dest + s) 1"
      if "PB_HTYPE (ftype (fs ! k)) = PB_HTYPE_OPTIONAL" "s \<noteq> p"
      using ff that by (intro owns_sub [OF o]) (auto simp: field_fits_def Let_def)
    ultimately show ?thesis using pd by (auto simp: size_ok_def Let_def)
  next
    case False
    then have "PB_HTYPE (ftype (fs ! k)) = PB_HTYPE_REPEATED" "pSize iter = fc"
      using it by (auto simp: at_field_def)
    with q False show ?thesis using htypes_differ by (auto simp: size_ok_def Let_def)
  qed
  have static: "wp (decode_static_field n E rec st wt iter w) (item_post R w st)"
    using pos f n by (intro decode_static_field_safe [OF _ ff data size rd w N _ n']) simp_all
  show ?thesis
  proof (cases "PB_HTYPE (ftype (fs ! k)) = PB_HTYPE_ONEOF")
    case False
    with static pos f st show ?thesis
      by (auto simp: decode_field_def wp_simps elim!: wp_mono)
  next
    case True
    then have i: "iter = iter_at a fs dest k"
      using it htypes_differ by (auto simp: at_field_def)
    have "wp (pb_release_union_field n E st iter w) (\<lambda>(ok, st', iter', w').
        w' = w \<and> (if ok then iter' = iter \<and> st' = st else moved st st'))"
      using md n by (intro release_union_field_safe [OF _ k _ _ _ o True i]) auto
    with True pos f st static show ?thesis
      by (auto simp: decode_field_def wp_simps item_post_def elim!: wp_mono split: if_splits)
  qed
qed

end

text \<open>What the loop keeps of its locals: the iterator is at a field, and the array of fixed count that
  was seen last, if any, is a field of the message.\<close>

definition dec_ok :: "pb_field list \<Rightarrow> addr \<Rightarrow> addr \<Rightarrow> addr \<Rightarrow> dec_state \<Rightarrow> bool" where
  "dec_ok fs a dest fc ds \<longleftrightarrow>
     (\<exists>k. at_field fs a dest fc k (d_iter ds)) \<and>
     (fixed_count_field ds = 0 \<or> (\<exists>i < length fs. fixed_count_field ds = a + sizeof_pb_field * int i))"

definition step_post :: "pb_field list \<Rightarrow> addr \<Rightarrow> addr \<Rightarrow> addr \<Rightarrow> addr set \<Rightarrow> world \<Rightarrow> istream \<Rightarrow>
    bool \<times> istream \<times> dec_state \<times> world \<Rightarrow> bool" where
  "step_post fs a dest fc R w st = (\<lambda>(ok, st', ds', w').
     msg_post R w st (ok, st', w') \<and> (ok \<longrightarrow> dec_ok fs a dest fc ds'))"

lemma fixed_count_ok_safe:
  assumes "table_at E a fs" and "dec_ok fs a dest fc ds" and "owns R w fc 4"
  shows "\<exists>b. fixed_count_ok E (fixed_count_field ds) fc w = Ret b"
proof -
  obtain c where "load_u32 w fc = Ret c" using assms(3) by (auto dest: load_u32_owns)
  with assms(2) show ?thesis
    by (auto simp: fixed_count_ok_def dec_ok_def table_at_nth [OF assms(1)])
qed

context submessage_decoder
begin

lemma decode_known_safe:
  assumes m: "msg_fields d E C L a sz fs" and it: "at_field fs a dest fc k (d_iter ds)"
    and ds: "dec_ok fs a dest fc ds"
    and fc: "owns R w fc 4" and o: "owns R w dest sz" and rd: "rd_ok B st" and w: "world_ok B C w"
    and N: "unat (bytes_left st) + L + d + 4 \<le> N" and n: "L + d + 2 \<le> n"
    and n': "unat (bytes_left st) < n"
  shows "wp (decode_known n E rec fc st wt ds w) (step_post fs a dest fc R w st)"
proof -
  have k: "k < length fs" using it by (simp add: at_field_def)
  have pos: "it_pos (d_iter ds) = a + sizeof_pb_field * int k" using it by (rule at_field_pos)
  have t: "table_at E a fs" using m by (rule msg_fieldsD)
  note f = table_at_nth [OF t k]
  have field: "wp (decode_field n E rec st wt iter w1) (\<lambda>(ok, st', iter', w').
      step_post fs a dest fc R w st (ok, st', ds1\<lparr>d_iter := iter'\<rparr>, w'))"
    if s1: "same_outside R w w1" and i: "at_field fs a dest fc k iter" and d1: "dec_ok fs a dest fc ds1"
    for iter w1 ds1
  proof -
    have "wp (decode_field n E rec st wt iter w1) (\<lambda>(ok, st', iter', w').
        item_post R w1 st (ok, st', w') \<and> (ok \<longrightarrow> iter' = iter))"
      using fc o w by (intro decode_field_safe [OF m i _ _ rd _ N n n'])
        (simp_all add: owns_same_outside [OF s1] world_ok_same_outside [OF s1])
    then show ?thesis
      using s1 i d1
      by (auto simp: step_post_def msg_post_def item_post_def dec_ok_def elim!: wp_mono
          intro: same_outside_trans)
  qed
  let ?seen = "\<lambda>ds1. if PB_HTYPE (ftype (fs ! k)) = PB_HTYPE_REQUIRED \<and>
      required_field_index (d_iter ds) < of_nat PB_MAX_REQUIRED_FIELDS
    then ds1\<lparr>fields_seen := mark_seen (required_field_index (d_iter ds)) (fields_seen ds1)\<rparr> else ds1"
  have tail: "wp (res_bind (decode_field n E rec st wt (d_iter (?seen ds1)) w1) (\<lambda>(ok, st, iter, w).
      Ret (ok, st, (?seen ds1)\<lparr>d_iter := iter\<rparr>, w))) (step_post fs a dest fc R w st)"
    if "same_outside R w w1" "at_field fs a dest fc k (d_iter ds1)" "dec_ok fs a dest fc ds1" for w1 ds1
  proof -
    obtain ds2 where ds2: "?seen ds1 = ds2" by blast
    then have "d_iter ds2 = d_iter ds1" "dec_ok fs a dest fc ds2" using that(3) by (auto simp: dec_ok_def)
    with field [OF that(1), of "d_iter ds2" ds2] that(2) show ?thesis
      unfolding ds2 by (simp add: wp_simps case_prod_beta')
  qed
  let ?rep = "PB_HTYPE (ftype (fs ! k)) = PB_HTYPE_REPEATED \<and> pSize (d_iter ds) = pData (d_iter ds)"
  show ?thesis
  proof (cases ?rep)
    case False
    then show ?thesis
      using tail [OF same_outside_refl it ds]
      by (simp only: decode_known_def Let_def pos f res_bind.simps if_False prod.case not_True_eq_False)
  next
    case True
    let ?it = "(d_iter ds)\<lparr>pSize := fc\<rparr>"
    have i: "at_field fs a dest fc k ?it" using it True by (auto simp: at_field_def)
    have d1: "dec_ok fs a dest fc (ds\<lparr>d_iter := ?it\<rparr>)"
      "dec_ok fs a dest fc (ds\<lparr>fixed_count_field := it_pos (d_iter ds), d_iter := ?it\<rparr>)"
      using ds i k pos by (auto simp: dec_ok_def)
    have h: "PB_HTYPE (ftype (fs ! k)) \<noteq> PB_HTYPE_REQUIRED" using True htypes_differ by simp
    obtain b where b: "fixed_count_ok E (fixed_count_field ds) fc w = Ret b"
      using fixed_count_ok_safe [OF t ds fc] by blast
    have fail: "step_post fs a dest fc R w st (False, ierror st msg, ds1, w)" for msg ds1
      by (simp add: step_post_def msg_post_def)
    have "wp (store_u32 w fc 0) (same_outside R w)" using fc by (rule store_u32_owns)
    with True pos f b fail tail [OF _ _ d1(2)] tail [OF same_outside_refl _ d1(1)] i h show ?thesis
      by (auto simp: decode_known_def wp_simps Let_def case_prod_beta' elim!: wp_mono)
  qed
qed

lemma decode_unknown_safe:
  assumes m: "msg_fields d E C L a sz fs" and it: "d_iter ds = iter_at a fs dest k" "k < length fs"
    and ds: "dec_ok fs a dest fc ds" and rd: "rd_ok B st" and w: "world_ok B C w"
    and n: "L \<le> n" and tg: "t \<noteq> - 1"
  shows "wp (decode_unknown n E rec st t wt ds w) (step_post fs a dest fc R w st)"
proof -
  note md = msg_fieldsD [OF m]
  have B: "mapped_set B w" using w by (simp add: world_ok_def)
  have "PB_LTYPE (ftype (fs ! i)) \<noteq> PB_LTYPE_EXTENSION" if "i < length fs" for i
    using md(5) that by (auto simp: field_fits_def Let_def ltype_ok_def pb_consts)
  then have "\<forall>f \<in> set fs. PB_LTYPE (ftype f) \<noteq> PB_LTYPE_EXTENSION"
    by (auto simp: in_set_conv_nth)
  then have find: "find_extension_field n E (d_iter ds) = Ret (False, d_iter ds)"
    using md n it by (simp add: find_extension_field_none)
  have skip: "wp (pb_skip_field E st wt w) (\<lambda>(ok, st', w'). step_post fs a dest fc R w st (ok, st', ds1, w'))"
    if "dec_ok fs a dest fc ds1" for ds1
    using pb_skip_field_reads [OF rd B, of E wt] that
    by (auto simp: step_post_def msg_post_def reads_def adv_moved elim!: wp_mono)
  have ds1: "dec_ok fs a dest fc (ds\<lparr>d_iter := d_iter ds, extension_range_start := - 1\<rparr>)"
    using ds by (simp add: dec_ok_def)
  have "\<not> - 1 \<le> t" using tg by (simp add: word_order.extremum_unique)
  then show ?thesis
    using skip [OF ds] skip [OF ds1] find
    by (auto simp: decode_unknown_def Let_def wp_simps case_prod_beta')
qed

end

lemma drop_bit_3_not_max: "drop_bit 3 (x :: u32) \<noteq> - 1"
proof
  assume "drop_bit 3 x = - 1"
  then have "bit (drop_bit 3 x) 31 = bit (- 1 :: u32) 31" by simp
  then show False by (auto simp: bit_simps dest: bit_imp_le_length)
qed

lemma pb_decode_tag_cases:
  assumes "rd_ok B st" and "mapped_set B w"
  obtains (Fail) wt t eof st' where "pb_decode_tag E st w = Ret (False, wt, t, eof, st', w)" and "adv st st'"
    | (Tag) wt t eof st' where "pb_decode_tag E st w = Ret (True, wt, t, eof, st', w)" and "adv st st'"
      and "bytes_left st' < bytes_left st" and "t \<noteq> - 1"
proof -
  obtain ok wt t eof st' where tag: "pb_decode_tag E st w = Ret (ok, wt, t, eof, st', w)"
    and r: "reads w st ok st' w"
    using pb_decode_tag_reads [OF assms, of E] by (auto simp: wp_Ret_iff reads_def)
  show ?thesis
  proof (cases ok)
    case False
    with tag r show ?thesis by (intro Fail) (auto simp: reads_def)
  next
    case True
    have "t \<noteq> - 1"
      using tag True drop_bit_3_not_max
      by (auto simp: pb_decode_tag_def res_bind_Ret_iff split: if_splits)
    with tag r True show ?thesis by (intro Tag) (auto simp: reads_def)
  qed
qed

text \<open>A success comes at the end of the stream or right after a tag that is 0.\<close>

definition ended :: "env \<Rightarrow> istream \<Rightarrow> istream \<Rightarrow> world \<Rightarrow> bool" where
  "ended E st st' w \<longleftrightarrow>
     bytes_left st' = 0 \<or> (\<exists>st0. adv st st0 \<and> pb_decode_varint32 E st0 w = Ret (True, 0, st', w))"

lemma ended_adv: "adv st st1 \<Longrightarrow> ended E st1 st' w \<Longrightarrow> ended E st st' w"
  by (auto simp: ended_def intro: adv_trans)

lemma varint32_eof_end:
  assumes "pb_decode_varint32_eof E st False w = Ret (False, n, True, st', w')"
  shows "bytes_left st' = 0"
proof -
  obtain ok byte st1 w1 where rb: "pb_readbyte E st w = Ret (ok, byte, st1, w1)"
    using assms by (auto simp: pb_decode_varint32_eof_def res_bind_Ret_iff)
  show ?thesis
    using assms rb by (cases ok) (auto simp: pb_decode_varint32_eof_def res_bind_Ret_iff split: if_splits)
qed

lemma decode_tag_ended:
  assumes "pb_decode_tag E st w = Ret (False, wt, t, True, st', w)"
  shows "ended E st st' w"
proof -
  obtain ok n eof st1 w1 where v: "pb_decode_varint32_eof E st False w = Ret (ok, n, eof, st1, w1)"
    using assms by (auto simp: pb_decode_tag_def res_bind_Ret_iff)
  show ?thesis
  proof (cases ok)
    case True
    then have "n = 0" "st1 = st'" "w1 = w" using assms v by (auto simp: pb_decode_tag_def split: if_splits)
    then have "pb_decode_varint32 E st w = Ret (True, 0, st', w)" using v True by (simp add: pb_decode_varint32_def)
    then show ?thesis by (auto simp: ended_def)
  next
    case False
    then have "eof" "st1 = st'" using assms v by (auto simp: pb_decode_tag_def split: if_splits)
    then show ?thesis using v False varint32_eof_end by (auto simp: ended_def)
  qed
qed

lemma step_post_mono:
  "adv st st1 \<Longrightarrow> step_post fs a dest fc R w st1 r \<Longrightarrow> step_post fs a dest fc R w st r"
  by (auto simp: step_post_def msg_post_def intro: adv_moved moved_trans adv_trans)

lemma step_post_world:
  "same_outside R w w1 \<Longrightarrow> step_post fs a dest fc R w1 st r \<Longrightarrow> step_post fs a dest fc R w st r"
  by (auto simp: step_post_def msg_post_def intro: same_outside_trans)

text \<open>The postcondition of the loop.\<close>

definition loop_post :: "env \<Rightarrow> pb_field list \<Rightarrow> addr \<Rightarrow> addr \<Rightarrow> addr \<Rightarrow> addr set \<Rightarrow> world \<Rightarrow> istream \<Rightarrow>
    bool \<times> istream \<times> dec_state \<times> world \<Rightarrow> bool" where
  "loop_post E fs a dest fc R w st r \<longleftrightarrow> step_post fs a dest fc R w st r \<and>
     (case r of (ok, st', _, w') \<Rightarrow> ok \<longrightarrow> ended E st st' w')"

context submessage_decoder
begin

lemma decode_loop_safe:
  assumes m: "msg_fields d E C L a sz fs"
  shows "dec_ok fs a dest fc ds \<Longrightarrow> owns R w fc 4 \<Longrightarrow> owns R w dest sz \<Longrightarrow> rd_ok B st \<Longrightarrow>
    world_ok B C w \<Longrightarrow> unat (bytes_left st) + L + d + 4 \<le> N \<Longrightarrow>
    unat (bytes_left st) + L + d + 3 \<le> n \<Longrightarrow>
    wp (decode_loop n E rec fc st ds w) (loop_post E fs a dest fc R w st)"
proof (induction n arbitrary: st ds w)
  case 0
  then show ?case by simp
next
  case (Suc n)
  note md = msg_fieldsD [OF m]
  have B: "mapped_set B w" using Suc.prems(5) by (simp add: world_ok_def)
  show ?case
  proof (cases "bytes_left st = 0")
    case True
    with Suc.prems(1) show ?thesis by (simp add: loop_post_def step_post_def msg_post_def ended_def)
  next
    case False
    from Suc.prems(4) B show ?thesis
    proof (cases rule: pb_decode_tag_cases [where E = E])
      case (Fail wt t eof st')
      then have "eof \<longrightarrow> ended E st st' w" using decode_tag_ended by (cases eof) auto
      with Fail False Suc.prems(1) show ?thesis
        by (auto simp: loop_post_def step_post_def msg_post_def adv_moved)
    next
      case (Tag wt t eof st1)
      have less: "unat (bytes_left st1) < unat (bytes_left st)" using Tag(3) by (simp add: word_less_nat_alt)
      have rd1: "rd_ok B st1" using Suc.prems(4) Tag(2) by (rule rd_ok_adv)
      obtain k where k: "at_field fs a dest fc k (d_iter ds)" using Suc.prems(1) by (auto simp: dec_ok_def)
      have n: "length fs < n" "L + d + 2 \<le> n" "unat (bytes_left st1) < n" "L \<le> n"
        using md(3) Suc.prems(7) less by auto
      have N1: "unat (bytes_left st1) + L + d + 4 \<le> N" using Suc.prems(6) less by simp
      let ?rest = "\<lambda>(ok, st2, ds2, w2).
          if \<not> ok then Ret (False, st2, ds2, w2) else decode_loop n E rec fc st2 ds2 w2"
      have rest: "wp (?rest (ok, st2, ds2, w2)) (loop_post E fs a dest fc R w st)"
        if p: "step_post fs a dest fc R w st1 (ok, st2, ds2, w2)" for ok st2 ds2 w2
      proof (cases ok)
        case False
        with step_post_mono [OF Tag(2) p] show ?thesis by (simp add: loop_post_def)
      next
        case True
        have s2: "same_outside R w w2" and a2: "adv st1 st2" and d2: "dec_ok fs a dest fc ds2"
          using p True by (simp_all add: step_post_def msg_post_def)
        have le: "unat (bytes_left st2) \<le> unat (bytes_left st1)"
          using a2 by (simp add: adv_def word_le_nat_alt)
        have "wp (decode_loop n E rec fc st2 ds2 w2) (loop_post E fs a dest fc R w2 st2)"
          using Suc.prems less le rd_ok_adv [OF rd1 a2] d2
          by (intro Suc.IH) (auto simp: owns_same_outside [OF s2] world_ok_same_outside [OF s2])
        with True show ?thesis
          using step_post_mono [OF adv_trans [OF Tag(2) a2]] step_post_world [OF s2] ended_adv [OF adv_trans [OF Tag(2) a2]]
          by (auto simp: loop_post_def elim!: wp_mono)
      qed
      have rest': "wp (?rest r) (loop_post E fs a dest fc R w st)"
        if "step_post fs a dest fc R w st1 r" for r
        using that by (cases r) (simp only: rest)
      from md(1) k n(1) show ?thesis
      proof (cases rule: find_at_field [where tg = t])
        case (Found i iter)
        have "dec_ok fs a dest fc (ds\<lparr>d_iter := iter\<rparr>)"
          using Suc.prems(1) Found(2) by (auto simp: dec_ok_def)
        then have "wp (decode_known n E rec fc st1 wt (ds\<lparr>d_iter := iter\<rparr>) w) (step_post fs a dest fc R w st1)"
          using Found(2) Suc.prems rd1 by (intro decode_known_safe [OF m _ _ _ _ _ _ N1 n(2,3)]) auto
        then have "wp (decode_known n E rec fc st1 wt (ds\<lparr>d_iter := iter\<rparr>) w)
            (\<lambda>r. wp (?rest r) (loop_post E fs a dest fc R w st))"
          by (rule wp_mono) (rule rest')
        then show ?thesis
          using False Tag(1) Found(1) by (simp add: wp_bind Let_def)
      next
        case Missing
        have kl: "k < length fs" using k by (simp add: at_field_def)
        then have "dec_ok fs a dest fc (ds\<lparr>d_iter := iter_at a fs dest k\<rparr>)"
          using Suc.prems(1) by (auto simp: dec_ok_def intro: at_field_iter_at)
        then have "wp (decode_unknown n E rec st1 t wt (ds\<lparr>d_iter := iter_at a fs dest k\<rparr>) w)
            (step_post fs a dest fc R w st1)"
          using Suc.prems rd1 kl by (intro decode_unknown_safe [OF m _ _ _ _ _ n(4) Tag(4)]) auto
        then have "wp (decode_unknown n E rec st1 t wt (ds\<lparr>d_iter := iter_at a fs dest k\<rparr>) w)
            (\<lambda>r. wp (?rest r) (loop_post E fs a dest fc R w st))"
          by (rule wp_mono) (rule rest')
        then show ?thesis
          using False Tag(1) Missing by (simp add: wp_bind Let_def)
      qed
    qed
  qed
qed

end

section \<open>The whole message\<close>

lemma req_count_loop_at_field:
  assumes t: "table_at E a fs" and it: "at_field fs a dest fc k iter" and n: "length fs \<le> n"
  shows "req_count_loop n E iter =
    Ret (of_nat (n_required (butlast fs)), ftype (last fs), iter_at a fs dest 0)"
proof -
  have k: "k < length fs" using it by (simp add: at_field_def)
  have plain: "req_count_loop n E (iter_at a fs dest k) =
      Ret (of_nat (n_required (butlast fs)), ftype (last fs), iter_at a fs dest 0)"
    using n by (intro req_count_loop_spec [OF t k]) simp
  obtain n' where "n = Suc n'" using n k by (cases n) auto
  then have "req_count_loop n E ((iter_at a fs dest k)\<lparr>pSize := fc\<rparr>) = req_count_loop n E (iter_at a fs dest k)"
    if "PB_HTYPE (ftype (fs ! k)) = PB_HTYPE_REPEATED"
    by (simp add: pb_field_iter_next_pSize [OF t k that])
  with it plain show ?thesis by (auto simp: at_field_def)
qed

lemma check_required_safe:
  assumes "table_at E a fs" and "at_field fs a dest fc k iter" and "length fs \<le> n"
  shows "wp (check_required n E iter seen st) (\<lambda>(ok, st'). adv st st' \<and> (ok \<longrightarrow> st' = st))"
proof -
  have "field_at E a = Ret (nth_field fs 0)"
    using field_at_nth_field [OF assms(1), of 0] by simp
  then show ?thesis
    by (simp add: check_required_def req_count_loop_at_field [OF assms] Let_def)
qed

lemma mem_pop_local: "mem (pop_local n w) x \<noteq> None \<Longrightarrow> mem w x = mem (pop_local n w) x"
  by (auto simp: pop_local_def split: if_splits)

text \<open>The end of a message, where the memory that was read is still there.\<close>

definition message_ended :: "env \<Rightarrow> istream \<Rightarrow> istream \<Rightarrow> world \<Rightarrow> bool" where
  "message_ended E st st' w \<longleftrightarrow> (\<exists>w0. (\<forall>x. mem w x \<noteq> None \<longrightarrow> mem w0 x = mem w x) \<and> ended E st st' w0)"

definition body_post :: "env \<Rightarrow> addr set \<Rightarrow> world \<Rightarrow> istream \<Rightarrow> bool \<times> istream \<times> world \<Rightarrow> bool" where
  "body_post E R w st r \<longleftrightarrow> msg_post R w st r \<and> (case r of (ok, st', w') \<Rightarrow> ok \<longrightarrow> message_ended E st st' w')"

context submessage_decoder
begin

lemma decode_body_safe:
  assumes s: "static_msg (Suc d) E C L a sz" and rd: "rd_ok B st" and w: "world_ok B C w"
    and o: "owns R w dest sz" and N: "unat (bytes_left st) + L + d + 4 \<le> N"
    and n: "unat (bytes_left st) + L + d + 3 \<le> n"
  shows "wp (decode_body n E rec st a dest w) (body_post E R w st)"
proof -
  obtain fs where m: "msg_fields d E C L a sz fs" using s static_msg_Suc by blast
  note md = msg_fieldsD [OF m]
  let ?l = "le_bytes 4 (0 :: u32)"
  define w1 where "w1 = push_local ?l w"
  define fc where "fc = stack w1"
  define S where "S = R \<union> {fc..<stack w}"
  let ?ds = "\<lparr>fields_seen = [0, 0], extension_range_start = 0, d_iter = iter_at a fs dest 0,
      fixed_count_field = 0\<rparr>"
  have ok: "stack_ok w" using w by (simp add: world_ok_def)
  have fc: "fc = stack w - int (length ?l)" by (simp add: fc_def w1_def)
  have "mapped w1 fc (int (length ?l))" unfolding fc w1_def by (rule mapped_push_local_self)
  then have o4: "owns S w1 fc 4" by (auto simp: owns_def S_def fc)
  have o1: "owns S w1 dest sz"
    using o ok by (auto simp: owns_def S_def w1_def intro: mapped_push_local)
  have set: "mapped_set D w1" if "mapped_set D w" for D
    using that by (auto simp: mapped_set_def w1_def mem_push_local upd_bytes_def)
  have wk: "world_ok B C w1"
    using w ok set by (auto simp: world_ok_def w1_def intro: stack_ok_push_local)
  have pop: "same_outside R w (pop_local 4 w2)" if "same_outside S w1 w2" for w2
    using that same_outside_pop_local [OF ok, of R ?l w2 4] by (simp add: S_def w1_def fc)
  have "dec_ok fs a dest fc ?ds"
    using md(2) by (auto simp: dec_ok_def intro: at_field_iter_at)
  then have "wp (decode_loop n E rec fc st ?ds w1) (loop_post E fs a dest fc S w1 st)"
    by (rule decode_loop_safe [OF m]) (use o4 o1 rd wk N n in auto)
  then have loop: "wp (decode_loop n E rec fc st ?ds w1) (loop_post E fs a dest fc S w1 st)" .
  let ?rest = "\<lambda>(ok, st2, ds2, w2). res_bind (if \<not> ok then Ret (False, st2)
          else res_bind (fixed_count_ok E (fixed_count_field ds2) fc w2) (\<lambda>ok.
              if \<not> ok then Ret (False, ierror st2 ''wrong size for fixed count field'')
              else check_required n E (d_iter ds2) (fields_seen ds2) st2)) (\<lambda>(ok, st).
         Ret (ok, st, pop_local 4 w2))"
  have rest: "wp (?rest (ok, st2, ds2, w2)) (body_post E R w st)"
    if p: "loop_post E fs a dest fc S w1 st (ok, st2, ds2, w2)" for ok st2 ds2 w2
  proof (cases ok)
    case False
    with p pop show ?thesis by (simp add: loop_post_def body_post_def step_post_def msg_post_def)
  next
    case True
    have s2: "same_outside S w1 w2" and a2: "adv st st2" and d2: "dec_ok fs a dest fc ds2"
      and e2: "ended E st st2 w2"
      using p True by (simp_all add: loop_post_def step_post_def msg_post_def)
    have "owns S w2 fc 4" using o4 by (simp add: owns_same_outside [OF s2])
    then obtain b where b: "fixed_count_ok E (fixed_count_field ds2) fc w2 = Ret b"
      using fixed_count_ok_safe [OF md(1) d2] by blast
    obtain k where "at_field fs a dest fc k (d_iter ds2)" using d2 by (auto simp: dec_ok_def)
    then have "wp (check_required n E (d_iter ds2) (fields_seen ds2) st2) (\<lambda>(ok, st'). adv st2 st' \<and> (ok \<longrightarrow> st' = st2))"
      using n md(3) by (intro check_required_safe [OF md(1)]) auto
    moreover have "message_ended E st st2 (pop_local 4 w2)"
      using e2 mem_pop_local unfolding message_ended_def by blast
    ultimately show ?thesis using True b a2 pop [OF s2]
      by (auto simp: wp_simps body_post_def msg_post_def elim!: wp_mono intro: adv_moved [OF adv_trans] adv_moved)
  qed
  have rest': "wp (?rest r) (body_post E R w st)" if "loop_post E fs a dest fc S w1 st r" for r
    using that by (cases r) (simp only: rest)
  have "wp (decode_loop n E rec fc st ?ds w1) (\<lambda>r. wp (?rest r) (body_post E R w st))"
    using loop by (rule wp_mono) (rule rest')
  then show ?thesis
    by (simp add: decode_body_def Let_def pb_field_iter_begin_spec [OF md(1)] wp_bind
        cong: if_cong flip: w1_def fc_def)
qed

end

section \<open>The decoder satisfies its contract\<close>

lemma pb_decode_noinit_safe:
  assumes "static_msg d E C L a sz" and "rd_ok B st" and "world_ok B C w" and "owns R w dest sz"
    and "unat (bytes_left st) + L + d + 4 \<le> n"
  shows "wp (pb_decode_noinit n E st a dest w) (msg_post R w st)"
  using assms
proof (induction d arbitrary: a sz st w dest R n)
  case 0
  then show ?case by simp
next
  case (Suc d)
  then obtain m where n: "n = Suc m" "unat (bytes_left st) + L + d + 4 \<le> m" by (cases n) auto
  have "submessage_decoder E B C L d m (pb_decode_noinit m E)"
    using Suc.IH by unfold_locales blast
  then have "wp (decode_body m E (pb_decode_noinit m E) st a dest w) (body_post E R w st)"
    using Suc.prems n by (intro submessage_decoder.decode_body_safe) auto
  with n show ?case by (auto simp: body_post_def elim!: wp_mono)
qed

interpretation nested: submessage_decoder E B C L d N "pb_decode_noinit N E" for E B C L d N
  by unfold_locales (rule pb_decode_noinit_safe)

lemma mapped_set_range: "mapped w a n \<Longrightarrow> mapped_set {a..<a + n} w"
  by (auto simp: mapped_def mapped_set_def)

lemma rd_ok_from_buffer: "rd_ok {buf..<buf + uint len} (pb_istream_from_buffer buf len)"
  by (simp add: rd_ok_def pb_istream_from_buffer_def)

lemma pb_decode_safe_wp:
  assumes "static_msg d E C L a sz" and "rd_ok B st" and "world_ok B C w" and "owns R w dest sz"
    and "unat (bytes_left st) + L + d + 4 \<le> n"
  shows "wp (pb_decode n E st a dest w) (msg_post R w st)"
  unfolding pb_decode_def using assms by (intro nested.decode_message_safe [where d = d]) auto

text \<open>A success at the end of the message.\<close>

lemma pb_decode_noinit_body:
  assumes s: "static_msg d E C L a sz" and st: "rd_ok B st" "world_ok B C w" "owns R w dest sz"
    and n: "unat (bytes_left st) + L + d + 4 \<le> n"
  shows "wp (pb_decode_noinit n E st a dest w) (body_post E R w st)"
proof (cases d)
  case 0
  then show ?thesis using s by simp
next
  case (Suc d')
  obtain m where m: "n = Suc m" "unat (bytes_left st) + L + d' + 4 \<le> m" using n Suc by (cases n) auto
  show ?thesis
    unfolding m(1) pb_decode_noinit.simps using s st m(2) Suc by (intro nested.decode_body_safe) auto
qed

lemma pb_decode_ended:
  assumes s: "static_msg d E C L a sz" and st: "rd_ok B st" and w: "world_ok B C w" and o: "owns R w dest sz"
    and n: "unat (bytes_left st) + L + d + 4 \<le> n" and ret: "pb_decode n E st a dest w = Ret (True, st', w')"
  shows "message_ended E st st' w'"
proof -
  obtain w1 where w1: "pb_message_set_to_defaults n E a dest w = Ret w1"
      "pb_decode_noinit n E st a dest w1 = Ret (True, st', w')"
    using ret by (auto simp: pb_decode_def decode_message_def res_bind_Ret_iff split: if_splits)
  have "wp (pb_message_set_to_defaults n E a dest w) (same_outside R w)"
    using s w o n by (intro set_to_defaults_safe) (auto simp: world_ok_def)
  then have same: "same_outside R w w1" using w1(1) by (simp add: wp_Ret_iff)
  have "wp (pb_decode_noinit n E st a dest w1) (body_post E R w1 st)"
    using pb_decode_noinit_body [OF s st _ _ n] w o world_ok_same_outside [OF same] owns_same_outside [OF same] by simp
  then show ?thesis using w1(2) by (simp add: wp_Ret_iff body_post_def)
qed

lemma decode_delimited_safe_wp:
  assumes dec: "\<And>sub. rd_ok B sub \<Longrightarrow> bytes_left sub < bytes_left st \<Longrightarrow>
      wp (dec sub a dest w) (msg_post R w sub)"
    and rd: "rd_ok B st" and B: "mapped_set B w"
  shows "wp (decode_delimited E dec st a dest w) (msg_post R w st)"
  using rd B
proof (cases rule: make_substream_cases [where E = E])
  case (Fail st1 sub1)
  then show ?thesis by (simp add: decode_delimited_def msg_post_def adv_moved)
next
  case (Open st1 sub1)
  then have "wp (dec sub1 a dest w) (msg_post R w sub1)"
    by (intro dec) (simp_all add: opened_def)
  then have "wp (dec sub1 a dest w) (\<lambda>(status, sub2, w2). wp (pb_close_string_substream E st1 sub2 w2)
      (\<lambda>(ok, st2, _, w3). item_post R w st (ok \<and> status, st2, w3)))"
    by (rule wp_mono) (auto intro: close_post [OF Open(2) B])
  then show ?thesis
    using Open(1)
    by (auto simp: decode_delimited_def wp_simps case_prod_beta' item_post_def msg_post_def elim!: wp_mono)
qed

lemma pb_decode_delimited_safe_wp:
  assumes "static_msg d E C L a sz" and rd: "rd_ok B st" and "world_ok B C w" and "owns R w dest sz"
    and "unat (bytes_left st) + L + d + 4 \<le> n"
  shows "wp (pb_decode_delimited n E st a dest w) (msg_post R w st)"
    and "wp (pb_decode_delimited_noinit n E st a dest w) (msg_post R w st)"
  unfolding pb_decode_delimited_def pb_decode_delimited_noinit_def
  using assms
  by (auto intro!: decode_delimited_safe_wp [OF _ rd] pb_decode_safe_wp [where d = d]
      pb_decode_noinit_safe [where d = d] simp: world_ok_def word_less_nat_alt)

text \<open>A message with a length prefix: whatever is behind the announced bytes, mapped or not.\<close>

lemma decode_delimited_prefix:
  assumes prefix: "pb_decode_varint32 E st w = Ret (got, m, st1, w)" and cb: "icallback st = Buf_read"
    and fits: "got" "ucast m \<le> bytes_left st1"
    and dec: "wp (dec (st1\<lparr>bytes_left := ucast m\<rparr>) a dest w) (msg_post R w (st1\<lparr>bytes_left := ucast m\<rparr>))"
    and B: "{istate st1..<istate st1 + uint m} \<subseteq> B" "mapped_set B w"
  shows "wp (decode_delimited E dec st a dest w) (\<lambda>(ok, st', w'). same_outside R w w' \<and>
    bytes_left st' = bytes_left st1 - ucast m \<and> istate st1 \<le> istate st' \<and> istate st' \<le> istate st1 + uint m \<and>
    (ok \<longrightarrow> istate st' = istate st1 + uint m))"
proof -
  let ?sub = "st1\<lparr>bytes_left := ucast m\<rparr>" and ?st1 = "st1\<lparr>bytes_left := bytes_left st1 - ucast m\<rparr>"
  have um: "uint (ucast m :: u64) = uint m" by (simp add: uint_up_ucast is_up)
  have cb1: "icallback st1 = Buf_read" using pb_decode_varint32_adv [OF prefix cb] cb by (simp add: adv_def)
  have rd: "rd_ok B ?sub" using cb1 B(1) um by (simp add: rd_ok_def)
  have open1: "pb_make_string_substream E st w = Ret (True, ?st1, ?sub, w)"
    using prefix fits by (simp add: pb_make_string_substream_def not_less)
  have close: "wp (pb_close_string_substream E ?st1 sub2 w2) (\<lambda>(ok, st2, _, w3). ok \<and> same_outside R w w3 \<and>
      bytes_left st2 = bytes_left st1 - ucast m \<and> istate st1 \<le> istate st2 \<and> istate st2 \<le> istate st1 + uint m \<and>
      (status \<longrightarrow> istate st2 = istate st1 + uint m))"
    if p: "msg_post R w ?sub (status, sub2, w2)" for status sub2 w2
  proof -
    have mv: "moved ?sub sub2" and s: "same_outside R w w2" and a: "status \<longrightarrow> adv ?sub sub2"
      using p by (simp_all add: msg_post_def)
    have B2: "mapped_set B w2" using B(2) mapped_set_same_outside [OF s] by simp
    show ?thesis
      unfolding pb_close_string_substream_buf [OF rd_ok_moved [OF rd mv] B2]
      using mv a s um by (auto simp: Let_def moved_def adv_def) (smt (verit) uint_nonnegative)
  qed
  have "wp (dec ?sub a dest w) (\<lambda>(status, sub2, w2). wp (pb_close_string_substream E ?st1 sub2 w2)
      (\<lambda>(ok, st2, _, w3). ok \<and> same_outside R w w3 \<and>
      bytes_left st2 = bytes_left st1 - ucast m \<and> istate st1 \<le> istate st2 \<and> istate st2 \<le> istate st1 + uint m \<and>
      (status \<longrightarrow> istate st2 = istate st1 + uint m)))"
  proof (rule wp_mono [OF dec])
    fix r assume "msg_post R w ?sub r"
    then show "case r of (status, sub2, w2) \<Rightarrow> wp (pb_close_string_substream E ?st1 sub2 w2)
      (\<lambda>(ok, st2, _, w3). ok \<and> same_outside R w w3 \<and>
      bytes_left st2 = bytes_left st1 - ucast m \<and> istate st1 \<le> istate st2 \<and> istate st2 \<le> istate st1 + uint m \<and>
      (status \<longrightarrow> istate st2 = istate st1 + uint m))"
      by (cases r) (simp only: prod.case close)
  qed
  then show ?thesis
    using open1 by (auto simp: decode_delimited_def wp_simps case_prod_beta' elim!: wp_mono)
qed

lemma decode_delimited_refuses:
  assumes "pb_decode_varint32 E st w = Ret (got, m, st1, w)" and "\<not> (got \<and> ucast m \<le> bytes_left st1)"
  shows "\<exists>st'. decode_delimited E dec st a dest w = Ret (False, st', w)"
  using assms by (auto simp: decode_delimited_def pb_make_string_substream_def not_le)

lemma pb_decode_delimited_prefix:
  assumes "static_msg d E C L a sz" and "pb_decode_varint32 E st w = Ret (got, m, st1, w)" and "icallback st = Buf_read"
    and "got" "ucast m \<le> bytes_left st1" and "{istate st1..<istate st1 + uint m} \<subseteq> B" and "world_ok B C w"
    and "owns R w dest sz" and "unat (bytes_left st) + L + d + 4 \<le> n"
    and "dec \<in> {pb_decode_delimited n E, pb_decode_delimited_noinit n E}"
  shows "wp (dec st a dest w) (\<lambda>(ok, st', w'). same_outside R w w' \<and>
    bytes_left st' = bytes_left st1 - ucast m \<and> istate st1 \<le> istate st' \<and> istate st' \<le> istate st1 + uint m \<and>
    (ok \<longrightarrow> istate st' = istate st1 + uint m))"
proof -
  let ?sub = "st1\<lparr>bytes_left := ucast m\<rparr>"
  have a: "adv st st1" using pb_decode_varint32_adv [OF assms(2,3)] by simp
  have um: "uint (ucast m :: u64) = uint m" by (simp add: uint_up_ucast is_up)
  have rd: "rd_ok B ?sub" using a assms(3,6) um by (simp add: rd_ok_def adv_def)
  have "bytes_left ?sub \<le> bytes_left st" using a assms(5) by (auto simp: adv_def intro: order_trans)
  then have n: "unat (bytes_left ?sub) + L + d + 4 \<le> n" using assms(9) by (simp add: word_le_nat_alt)
  have B: "mapped_set B w" using assms(7) by (simp add: world_ok_def)
  note safe = pb_decode_safe_wp [OF assms(1) rd assms(7,8) n] pb_decode_noinit_safe [OF assms(1) rd assms(7,8) n]
  show ?thesis
    using assms(10) decode_delimited_prefix [where dec = "pb_decode n E", OF assms(2-5) safe(1) assms(6) B]
      decode_delimited_prefix [where dec = "pb_decode_noinit n E", OF assms(2-5) safe(2) assms(6) B]
    by (auto simp: pb_decode_delimited_def pb_decode_delimited_noinit_def)
qed


end
