(* ===== verification/CLayout.thy ===== *)
theory CLayout
  imports PbCommon
begin

text \<open>
  The layout of C structs on the 64-bit target (natural alignment), and the macro \<open>PB_FIELD\<close>, which
  the generated schema files use to build the descriptor arrays from the layout. The theorems say
  that the offsets a compiler computes are aligned, in order and inside the struct.
\<close>

section \<open>Layout\<close>

text \<open>The member types the schemas use; a pointer is given with the size of what it points to. An
  \<open>enum\<close> and \<open>pb_size_t\<close> take 32 bits.\<close>

datatype ctype = C_bool | C_int32 | C_enum | C_pb_size | C_int64 | C_ptr int
  | C_struct "(string \<times> ctype) list"

definition round_up :: "int \<Rightarrow> int \<Rightarrow> int" where
  "round_up off a = (off + a - 1) div a * a"

text \<open>The offsets of members of the given sizes and alignments, from \<open>off\<close> on, and the size and the
  alignment of the struct.\<close>

fun offsets :: "int \<Rightarrow> (int \<times> int) list \<Rightarrow> int list" where
  "offsets off [] = []"
| "offsets off ((n, a) # ds) = (let o' = round_up off a in o' # offsets (o' + n) ds)"

fun end_offset :: "int \<Rightarrow> (int \<times> int) list \<Rightarrow> int" where
  "end_offset off [] = off"
| "end_offset off ((n, a) # ds) = end_offset (round_up off a + n) ds"

definition struct_align :: "(int \<times> int) list \<Rightarrow> int" where
  "struct_align ds = foldr (\<lambda>(_, a) b. max a b) ds 1"

definition struct_dim :: "(int \<times> int) list \<Rightarrow> int \<times> int" where
  "struct_dim ds = (round_up (end_offset 0 ds) (struct_align ds), struct_align ds)"

primrec c_dim :: "ctype \<Rightarrow> int \<times> int" where
  "c_dim C_bool = (1, 1)"
| "c_dim C_int32 = (4, 4)"
| "c_dim C_enum = (4, 4)"
| "c_dim C_pb_size = (4, 4)"
| "c_dim C_int64 = (8, 8)"
| "c_dim (C_ptr n) = (8, 8)"
| "c_dim (C_struct ms) = struct_dim (map snd (map (map_prod id c_dim) ms))"

definition c_sizeof :: "ctype \<Rightarrow> int" where "c_sizeof t = fst (c_dim t)"
definition c_alignof :: "ctype \<Rightarrow> int" where "c_alignof t = snd (c_dim t)"

text \<open>The size of \<open>m[0]\<close> for a member \<open>m\<close>.\<close>

fun c_elemsize :: "ctype \<Rightarrow> int" where
  "c_elemsize (C_ptr n) = n"
| "c_elemsize t = c_sizeof t"

definition lay_out :: "(string \<times> ctype) list \<Rightarrow> (string \<times> member) list" where
  "lay_out ms =
     map (\<lambda>((name, t), off). (name, \<lparr>m_offset = off, m_size = c_sizeof t, m_elem = c_elemsize t\<rparr>))
       (zip ms (offsets 0 (map (\<lambda>(_, t). c_dim t) ms)))"

fun c_member :: "ctype \<Rightarrow> string \<Rightarrow> member" where
  "c_member (C_struct ms) name = (case map_of (lay_out ms) name of Some m \<Rightarrow> m
     | None \<Rightarrow> \<lparr>m_offset = 0, m_size = 0, m_elem = 0\<rparr>)"
| "c_member t name = \<lparr>m_offset = 0, m_size = 0, m_elem = 0\<rparr>"

text \<open>\<open>pb_bytes_array_t\<close>: the 32-bit size, one byte, and padding to the alignment of the size.\<close>

definition sizeof_pb_bytes_array_t :: int where [pb_consts]: "sizeof_pb_bytes_array_t = 8"

section \<open>The field macro\<close>

datatype pb_rules = REQUIRED | OPTIONAL | REPEATED | SINGULAR
datatype pb_allocation = STATIC | POINTER | CALLBACK
datatype pb_placement = FIRST | OTHER | UNION | CHOOSE

definition PB_DATAOFFSET_CHOOSE :: "member \<Rightarrow> member \<Rightarrow> pb_size" where
  "PB_DATAOFFSET_CHOOSE m1 m2 =
     (if m_offset m1 = m_offset m2 then PB_DATAOFFSET_FIRST m1 m2 else PB_DATAOFFSET_OTHER m1 m2)"

primrec PB_DATAOFFSET :: "pb_placement \<Rightarrow> member \<Rightarrow> member \<Rightarrow> pb_size" where
  "PB_DATAOFFSET FIRST m1 m2 = PB_DATAOFFSET_FIRST m1 m2"
| "PB_DATAOFFSET OTHER m1 m2 = PB_DATAOFFSET_OTHER m1 m2"
| "PB_DATAOFFSET UNION m1 m2 = PB_DATAOFFSET_UNION m1 m2"
| "PB_DATAOFFSET CHOOSE m1 m2 = PB_DATAOFFSET_CHOOSE m1 m2"

definition PB_FIELD :: "nat \<Rightarrow> pb_proto_type \<Rightarrow> pb_rules \<Rightarrow> pb_allocation \<Rightarrow> pb_placement \<Rightarrow>
    ctype \<Rightarrow> string \<Rightarrow> string \<Rightarrow> addr \<Rightarrow> pb_field" where
  "PB_FIELD t type rules alloc placement message field prevfield p =
     (let m = c_member message field;
          fd = PB_DATAOFFSET placement m (c_member message prevfield);
          has_m = c_member message (''has_'' @ field);
          count_m = c_member message (field @ ''_count'');
          tg = of_nat t; lt = PB_LTYPE_MAP type
      in case alloc of
           STATIC \<Rightarrow> (case rules of
               REQUIRED \<Rightarrow> PB_REQUIRED_STATIC tg m fd lt p
             | OPTIONAL \<Rightarrow> PB_OPTIONAL_STATIC tg has_m m fd lt p
             | REPEATED \<Rightarrow> PB_REPEATED_STATIC tg count_m m fd lt p
             | SINGULAR \<Rightarrow> PB_SINGULAR_STATIC tg m fd lt p)
         | POINTER \<Rightarrow> (case rules of
               REQUIRED \<Rightarrow> PB_REQUIRED_POINTER tg m fd lt p
             | OPTIONAL \<Rightarrow> PB_OPTIONAL_POINTER tg m fd lt p
             | REPEATED \<Rightarrow> PB_REPEATED_POINTER tg count_m m fd lt p
             | SINGULAR \<Rightarrow> PB_SINGULAR_POINTER tg m fd lt p)
         | CALLBACK \<Rightarrow> (case rules of
               REQUIRED \<Rightarrow> PB_REQUIRED_CALLBACK tg m fd lt p
             | OPTIONAL \<Rightarrow> PB_OPTIONAL_CALLBACK tg m fd lt p
             | REPEATED \<Rightarrow> PB_REPEATED_CALLBACK tg m fd lt p
             | SINGULAR \<Rightarrow> PB_SINGULAR_CALLBACK tg m fd lt p))"

section \<open>Values\<close>

text \<open>The value of a struct in an initializer, member by member, and the bytes of its members in
  memory, each with its offset in the outermost struct (the padding has no entry).\<close>

datatype cval = V_bool bool | V_int int | V_null | V_struct "cval list"

fun c_image :: "int \<Rightarrow> ctype \<Rightarrow> cval \<Rightarrow> (int \<times> u8 list) list"
  and c_images :: "int \<Rightarrow> int \<Rightarrow> (string \<times> ctype) list \<Rightarrow> cval list \<Rightarrow> (int \<times> u8 list) list" where
  "c_image base C_bool (V_bool b) = [(base, [if b then 1 else 0])]"
| "c_image base C_bool (V_int i) = [(base, [if i \<noteq> 0 then 1 else 0])]"
| "c_image base (C_ptr n) V_null = [(base, le_bytes 8 (0 :: u64))]"
| "c_image base (C_struct ms) (V_struct vs) = c_images base 0 ms vs"
| "c_image base C_int32 (V_int i) = [(base, le_bytes 4 (word_of_int i :: u32))]"
| "c_image base C_enum (V_int i) = [(base, le_bytes 4 (word_of_int i :: u32))]"
| "c_image base C_pb_size (V_int i) = [(base, le_bytes 4 (word_of_int i :: u32))]"
| "c_image base C_int64 (V_int i) = [(base, le_bytes 8 (word_of_int i :: u64))]"
| "c_image base _ _ = []"
| "c_images base off ((_, t) # ms) (v # vs) =
     (let o' = round_up off (c_alignof t)
      in c_image (base + o') t v @ c_images base (o' + c_sizeof t) ms vs)"
| "c_images base off _ _ = []"

section \<open>Descriptor arrays in memory\<close>

text \<open>\<open>place a fs m\<close>: the constant data \<open>m\<close> with the descriptors \<open>fs\<close>, one after the other, at \<open>a\<close>.\<close>

fun place :: "addr \<Rightarrow> pb_field list \<Rightarrow> (addr \<Rightarrow> pb_field option) \<Rightarrow> addr \<Rightarrow> pb_field option" where
  "place a [] m = m(a \<mapsto> PB_LAST_FIELD)"
| "place a (f # fs) m = (place (a + sizeof_pb_field) fs m)(a \<mapsto> f)"

lemma place_nth:
  "i < length fs \<Longrightarrow> place a fs m (a + sizeof_pb_field * int i) = Some (fs ! i)"
  "place a fs m (a + sizeof_pb_field * int (length fs)) = Some PB_LAST_FIELD"
proof -
  have s: "0 < sizeof_pb_field" by (simp add: sizeof_pb_field_def)
  show "place a fs m (a + sizeof_pb_field * int i) = Some (fs ! i)" if "i < length fs"
    using that
  proof (induction fs arbitrary: a i)
    case (Cons f fs)
    show ?case
    proof (cases i)
      case (Suc j)
      have "a + sizeof_pb_field * int i = a + sizeof_pb_field + sizeof_pb_field * int j"
        using Suc by (simp add: algebra_simps)
      then show ?thesis
        using Suc Cons.IH [of j "a + sizeof_pb_field"] Cons.prems s
        by (simp add: sizeof_pb_field_def add.assoc)
    qed simp
  qed simp
  show "place a fs m (a + sizeof_pb_field * int (length fs)) = Some PB_LAST_FIELD"
  proof (induction fs arbitrary: a)
    case (Cons f fs)
    have "a + sizeof_pb_field * int (length (f # fs)) = a + sizeof_pb_field + sizeof_pb_field * int (length fs)"
      by (simp add: algebra_simps)
    then show ?case using Cons [of "a + sizeof_pb_field"] by (simp add: sizeof_pb_field_def add.assoc)
  qed simp
qed

lemma place_other: "x < a \<Longrightarrow> place a fs m x = m x"
  by (induction fs arbitrary: a) (auto simp: sizeof_pb_field_def)

lemma place_beyond: "a + sizeof_pb_field * int (length fs) < x \<Longrightarrow> place a fs m x = m x"
proof (induction fs arbitrary: a)
  case (Cons f fs)
  then show ?case by (simp add: algebra_simps sizeof_pb_field_def)
qed simp

section \<open>Descriptors and structs\<close>

text \<open>The array \<open>fs\<close> describes the struct \<open>t\<close>: the addresses the iterator computes for the \<open>k\<close>-th
  field are those of the \<open>k\<close>-th of the named members and of its \<open>has_\<close> or \<open>_count\<close> companion, and
  the size is that of the member (of what it points to, for a pointer).\<close>

definition field_describes :: "ctype \<Rightarrow> pb_field list \<Rightarrow> nat \<Rightarrow> string \<Rightarrow> bool" where
  "field_describes t fs k name \<longleftrightarrow>
     (let m = c_member t name; f = fs ! k; static = (PB_ATYPE (ftype f) = PB_ATYPE_STATIC);
          h = PB_HTYPE (ftype f)
      in data_addr fs 0 k = m_offset m \<and>
         uint (data_size f) = (if static then m_size m else m_elem m) \<and>
         size_addr fs 0 k =
           (if h = PB_HTYPE_REPEATED then m_offset (c_member t (name @ ''_count''))
            else if h = PB_HTYPE_OPTIONAL \<and> static then m_offset (c_member t (''has_'' @ name))
            else m_offset m))"

definition describes :: "ctype \<Rightarrow> pb_field list \<Rightarrow> string list \<Rightarrow> bool" where
  "describes t fs names \<longleftrightarrow>
     length names = length fs \<and>
     list_all (\<lambda>k. field_describes t fs k (names ! k)) [0..<length fs]"

section \<open>Properties of the layout\<close>

lemma round_up_mod: "round_up off a = off + a - 1 - (off + a - 1) mod a"
  by (simp add: round_up_def minus_mod_eq_div_mult)

lemma round_up_ge:
  assumes "0 < a"
  shows "off \<le> round_up off a"
  unfolding round_up_mod using pos_mod_bound [OF assms, of "off + a - 1"] by linarith

lemma round_up_less:
  assumes "0 < a"
  shows "round_up off a < off + a"
  unfolding round_up_mod using pos_mod_sign [OF assms, of "off + a - 1"] by linarith

lemma round_up_dvd: "a dvd round_up off a"
  by (simp add: round_up_def)

lemma length_offsets [simp]: "length (offsets off ds) = length ds"
  by (induction off ds rule: offsets.induct) (simp_all add: Let_def)

lemma end_offset_ge: "\<forall>(n, a) \<in> set ds. 0 \<le> n \<and> 0 < a \<Longrightarrow> off \<le> end_offset off ds"
proof (induction off ds rule: end_offset.induct)
  case (2 off n a ds)
  then have "off \<le> round_up off a" by (auto intro: round_up_ge)
  with 2 show ?case by auto
qed simp

definition dims_ok :: "(int \<times> int) list \<Rightarrow> bool" where
  "dims_ok ds \<longleftrightarrow> (\<forall>(n, a) \<in> set ds. 0 \<le> n \<and> 0 < a)"

lemma offsets_in_struct:
  "dims_ok ds \<Longrightarrow> i < length ds \<Longrightarrow> off \<le> offsets off ds ! i \<and> snd (ds ! i) dvd offsets off ds ! i \<and>
     offsets off ds ! i + fst (ds ! i) \<le> end_offset off ds"
proof (induction off ds arbitrary: i rule: offsets.induct)
  case (2 off n a ds)
  then have ge: "off \<le> round_up off a" and n: "0 \<le> n" by (auto simp: dims_ok_def intro: round_up_ge)
  have e: "round_up off a + n \<le> end_offset (round_up off a + n) ds"
    using "2.prems"(1) by (intro end_offset_ge) (simp add: dims_ok_def)
  show ?case
  proof (cases i)
    case 0
    with ge e show ?thesis by (simp add: Let_def round_up_dvd)
  next
    case (Suc i')
    with "2.IH" [of "round_up off a" i'] "2.prems" ge n show ?thesis by (auto simp: Let_def dims_ok_def)
  qed
qed simp

lemma offsets_ordered:
  "dims_ok ds \<Longrightarrow> i < j \<Longrightarrow> j < length ds \<Longrightarrow> offsets off ds ! i + fst (ds ! i) \<le> offsets off ds ! j"
proof (induction off ds arbitrary: i j rule: offsets.induct)
  case (2 off n a ds)
  then obtain j' where j: "j = Suc j'" by (cases j) auto
  have ok: "dims_ok ds" using "2.prems"(1) by (simp add: dims_ok_def)
  show ?case
  proof (cases i)
    case 0
    with offsets_in_struct [OF ok, of j' "round_up off a + n"] "2.prems" j show ?thesis
      by (simp add: Let_def)
  next
    case (Suc i')
    with "2.IH" [OF refl ok, of i' j'] "2.prems" j show ?thesis by (simp add: Let_def)
  qed
qed simp

end
