(* ===== verification/CctSchema.thy ===== *)
theory CctSchema
  imports CLayout PbCommon
begin

text \<open>
  The schema of the CCT log transport, \<open>cct.nanopb.h\<close> and \<open>cct.nanopb.c\<close>: enumerations, structs,
  default values, initializers, tags and the descriptor arrays that drive the encoder and the
  decoder. The theorems relate the arrays to the structs: the iterator computes exactly the
  addresses of the members, and the two messages without pointers have a static layout.
\<close>

section \<open>Enumerations\<close>

text \<open>The values are those of the C enumerators; the macros \<open>_MIN\<close> and \<open>_MAX\<close> follow each.\<close>

datatype gdt_cct_NetworkConnectionInfo_NetworkType =
    gdt_cct_NetworkConnectionInfo_NetworkType_NONE
  | gdt_cct_NetworkConnectionInfo_NetworkType_MOBILE
  | gdt_cct_NetworkConnectionInfo_NetworkType_WIFI
  | gdt_cct_NetworkConnectionInfo_NetworkType_MOBILE_MMS
  | gdt_cct_NetworkConnectionInfo_NetworkType_MOBILE_SUPL
  | gdt_cct_NetworkConnectionInfo_NetworkType_MOBILE_DUN
  | gdt_cct_NetworkConnectionInfo_NetworkType_MOBILE_HIPRI
  | gdt_cct_NetworkConnectionInfo_NetworkType_WIMAX
  | gdt_cct_NetworkConnectionInfo_NetworkType_BLUETOOTH
  | gdt_cct_NetworkConnectionInfo_NetworkType_DUMMY
  | gdt_cct_NetworkConnectionInfo_NetworkType_ETHERNET
  | gdt_cct_NetworkConnectionInfo_NetworkType_MOBILE_FOTA
  | gdt_cct_NetworkConnectionInfo_NetworkType_MOBILE_IMS
  | gdt_cct_NetworkConnectionInfo_NetworkType_MOBILE_CBS
  | gdt_cct_NetworkConnectionInfo_NetworkType_WIFI_P2P
  | gdt_cct_NetworkConnectionInfo_NetworkType_MOBILE_IA
  | gdt_cct_NetworkConnectionInfo_NetworkType_MOBILE_EMERGENCY
  | gdt_cct_NetworkConnectionInfo_NetworkType_PROXY
  | gdt_cct_NetworkConnectionInfo_NetworkType_VPN

primrec gdt_cct_NetworkConnectionInfo_NetworkType_value :: "gdt_cct_NetworkConnectionInfo_NetworkType \<Rightarrow> int" where
  "gdt_cct_NetworkConnectionInfo_NetworkType_value gdt_cct_NetworkConnectionInfo_NetworkType_NONE = - 1"
| "gdt_cct_NetworkConnectionInfo_NetworkType_value gdt_cct_NetworkConnectionInfo_NetworkType_MOBILE = 0"
| "gdt_cct_NetworkConnectionInfo_NetworkType_value gdt_cct_NetworkConnectionInfo_NetworkType_WIFI = 1"
| "gdt_cct_NetworkConnectionInfo_NetworkType_value gdt_cct_NetworkConnectionInfo_NetworkType_MOBILE_MMS = 2"
| "gdt_cct_NetworkConnectionInfo_NetworkType_value gdt_cct_NetworkConnectionInfo_NetworkType_MOBILE_SUPL = 3"
| "gdt_cct_NetworkConnectionInfo_NetworkType_value gdt_cct_NetworkConnectionInfo_NetworkType_MOBILE_DUN = 4"
| "gdt_cct_NetworkConnectionInfo_NetworkType_value gdt_cct_NetworkConnectionInfo_NetworkType_MOBILE_HIPRI = 5"
| "gdt_cct_NetworkConnectionInfo_NetworkType_value gdt_cct_NetworkConnectionInfo_NetworkType_WIMAX = 6"
| "gdt_cct_NetworkConnectionInfo_NetworkType_value gdt_cct_NetworkConnectionInfo_NetworkType_BLUETOOTH = 7"
| "gdt_cct_NetworkConnectionInfo_NetworkType_value gdt_cct_NetworkConnectionInfo_NetworkType_DUMMY = 8"
| "gdt_cct_NetworkConnectionInfo_NetworkType_value gdt_cct_NetworkConnectionInfo_NetworkType_ETHERNET = 9"
| "gdt_cct_NetworkConnectionInfo_NetworkType_value gdt_cct_NetworkConnectionInfo_NetworkType_MOBILE_FOTA = 10"
| "gdt_cct_NetworkConnectionInfo_NetworkType_value gdt_cct_NetworkConnectionInfo_NetworkType_MOBILE_IMS = 11"
| "gdt_cct_NetworkConnectionInfo_NetworkType_value gdt_cct_NetworkConnectionInfo_NetworkType_MOBILE_CBS = 12"
| "gdt_cct_NetworkConnectionInfo_NetworkType_value gdt_cct_NetworkConnectionInfo_NetworkType_WIFI_P2P = 13"
| "gdt_cct_NetworkConnectionInfo_NetworkType_value gdt_cct_NetworkConnectionInfo_NetworkType_MOBILE_IA = 14"
| "gdt_cct_NetworkConnectionInfo_NetworkType_value gdt_cct_NetworkConnectionInfo_NetworkType_MOBILE_EMERGENCY = 15"
| "gdt_cct_NetworkConnectionInfo_NetworkType_value gdt_cct_NetworkConnectionInfo_NetworkType_PROXY = 16"
| "gdt_cct_NetworkConnectionInfo_NetworkType_value gdt_cct_NetworkConnectionInfo_NetworkType_VPN = 17"

definition gdt_cct_NetworkConnectionInfo_NetworkType_MIN :: gdt_cct_NetworkConnectionInfo_NetworkType where
  "gdt_cct_NetworkConnectionInfo_NetworkType_MIN = gdt_cct_NetworkConnectionInfo_NetworkType_NONE"

definition gdt_cct_NetworkConnectionInfo_NetworkType_MAX :: gdt_cct_NetworkConnectionInfo_NetworkType where
  "gdt_cct_NetworkConnectionInfo_NetworkType_MAX = gdt_cct_NetworkConnectionInfo_NetworkType_VPN"

definition gdt_cct_NetworkConnectionInfo_NetworkType_ARRAYSIZE :: int where
  "gdt_cct_NetworkConnectionInfo_NetworkType_ARRAYSIZE = gdt_cct_NetworkConnectionInfo_NetworkType_value gdt_cct_NetworkConnectionInfo_NetworkType_VPN + 1"

datatype gdt_cct_NetworkConnectionInfo_MobileSubtype =
    gdt_cct_NetworkConnectionInfo_MobileSubtype_UNKNOWN_MOBILE_SUBTYPE
  | gdt_cct_NetworkConnectionInfo_MobileSubtype_GPRS
  | gdt_cct_NetworkConnectionInfo_MobileSubtype_EDGE
  | gdt_cct_NetworkConnectionInfo_MobileSubtype_UMTS
  | gdt_cct_NetworkConnectionInfo_MobileSubtype_CDMA
  | gdt_cct_NetworkConnectionInfo_MobileSubtype_EVDO_0
  | gdt_cct_NetworkConnectionInfo_MobileSubtype_EVDO_A
  | gdt_cct_NetworkConnectionInfo_MobileSubtype_RTT
  | gdt_cct_NetworkConnectionInfo_MobileSubtype_HSDPA
  | gdt_cct_NetworkConnectionInfo_MobileSubtype_HSUPA
  | gdt_cct_NetworkConnectionInfo_MobileSubtype_HSPA
  | gdt_cct_NetworkConnectionInfo_MobileSubtype_IDEN
  | gdt_cct_NetworkConnectionInfo_MobileSubtype_EVDO_B
  | gdt_cct_NetworkConnectionInfo_MobileSubtype_LTE
  | gdt_cct_NetworkConnectionInfo_MobileSubtype_EHRPD
  | gdt_cct_NetworkConnectionInfo_MobileSubtype_HSPAP
  | gdt_cct_NetworkConnectionInfo_MobileSubtype_GSM
  | gdt_cct_NetworkConnectionInfo_MobileSubtype_TD_SCDMA
  | gdt_cct_NetworkConnectionInfo_MobileSubtype_IWLAN
  | gdt_cct_NetworkConnectionInfo_MobileSubtype_LTE_CA
  | gdt_cct_NetworkConnectionInfo_MobileSubtype_COMBINED

primrec gdt_cct_NetworkConnectionInfo_MobileSubtype_value :: "gdt_cct_NetworkConnectionInfo_MobileSubtype \<Rightarrow> int" where
  "gdt_cct_NetworkConnectionInfo_MobileSubtype_value gdt_cct_NetworkConnectionInfo_MobileSubtype_UNKNOWN_MOBILE_SUBTYPE = 0"
| "gdt_cct_NetworkConnectionInfo_MobileSubtype_value gdt_cct_NetworkConnectionInfo_MobileSubtype_GPRS = 1"
| "gdt_cct_NetworkConnectionInfo_MobileSubtype_value gdt_cct_NetworkConnectionInfo_MobileSubtype_EDGE = 2"
| "gdt_cct_NetworkConnectionInfo_MobileSubtype_value gdt_cct_NetworkConnectionInfo_MobileSubtype_UMTS = 3"
| "gdt_cct_NetworkConnectionInfo_MobileSubtype_value gdt_cct_NetworkConnectionInfo_MobileSubtype_CDMA = 4"
| "gdt_cct_NetworkConnectionInfo_MobileSubtype_value gdt_cct_NetworkConnectionInfo_MobileSubtype_EVDO_0 = 5"
| "gdt_cct_NetworkConnectionInfo_MobileSubtype_value gdt_cct_NetworkConnectionInfo_MobileSubtype_EVDO_A = 6"
| "gdt_cct_NetworkConnectionInfo_MobileSubtype_value gdt_cct_NetworkConnectionInfo_MobileSubtype_RTT = 7"
| "gdt_cct_NetworkConnectionInfo_MobileSubtype_value gdt_cct_NetworkConnectionInfo_MobileSubtype_HSDPA = 8"
| "gdt_cct_NetworkConnectionInfo_MobileSubtype_value gdt_cct_NetworkConnectionInfo_MobileSubtype_HSUPA = 9"
| "gdt_cct_NetworkConnectionInfo_MobileSubtype_value gdt_cct_NetworkConnectionInfo_MobileSubtype_HSPA = 10"
| "gdt_cct_NetworkConnectionInfo_MobileSubtype_value gdt_cct_NetworkConnectionInfo_MobileSubtype_IDEN = 11"
| "gdt_cct_NetworkConnectionInfo_MobileSubtype_value gdt_cct_NetworkConnectionInfo_MobileSubtype_EVDO_B = 12"
| "gdt_cct_NetworkConnectionInfo_MobileSubtype_value gdt_cct_NetworkConnectionInfo_MobileSubtype_LTE = 13"
| "gdt_cct_NetworkConnectionInfo_MobileSubtype_value gdt_cct_NetworkConnectionInfo_MobileSubtype_EHRPD = 14"
| "gdt_cct_NetworkConnectionInfo_MobileSubtype_value gdt_cct_NetworkConnectionInfo_MobileSubtype_HSPAP = 15"
| "gdt_cct_NetworkConnectionInfo_MobileSubtype_value gdt_cct_NetworkConnectionInfo_MobileSubtype_GSM = 16"
| "gdt_cct_NetworkConnectionInfo_MobileSubtype_value gdt_cct_NetworkConnectionInfo_MobileSubtype_TD_SCDMA = 17"
| "gdt_cct_NetworkConnectionInfo_MobileSubtype_value gdt_cct_NetworkConnectionInfo_MobileSubtype_IWLAN = 18"
| "gdt_cct_NetworkConnectionInfo_MobileSubtype_value gdt_cct_NetworkConnectionInfo_MobileSubtype_LTE_CA = 19"
| "gdt_cct_NetworkConnectionInfo_MobileSubtype_value gdt_cct_NetworkConnectionInfo_MobileSubtype_COMBINED = 100"

definition gdt_cct_NetworkConnectionInfo_MobileSubtype_MIN :: gdt_cct_NetworkConnectionInfo_MobileSubtype where
  "gdt_cct_NetworkConnectionInfo_MobileSubtype_MIN = gdt_cct_NetworkConnectionInfo_MobileSubtype_UNKNOWN_MOBILE_SUBTYPE"

definition gdt_cct_NetworkConnectionInfo_MobileSubtype_MAX :: gdt_cct_NetworkConnectionInfo_MobileSubtype where
  "gdt_cct_NetworkConnectionInfo_MobileSubtype_MAX = gdt_cct_NetworkConnectionInfo_MobileSubtype_COMBINED"

definition gdt_cct_NetworkConnectionInfo_MobileSubtype_ARRAYSIZE :: int where
  "gdt_cct_NetworkConnectionInfo_MobileSubtype_ARRAYSIZE = gdt_cct_NetworkConnectionInfo_MobileSubtype_value gdt_cct_NetworkConnectionInfo_MobileSubtype_COMBINED + 1"

datatype gdt_cct_ClientInfo_ClientType =
    gdt_cct_ClientInfo_ClientType_CLIENT_UNKNOWN
  | gdt_cct_ClientInfo_ClientType_IOS_FIREBASE

primrec gdt_cct_ClientInfo_ClientType_value :: "gdt_cct_ClientInfo_ClientType \<Rightarrow> int" where
  "gdt_cct_ClientInfo_ClientType_value gdt_cct_ClientInfo_ClientType_CLIENT_UNKNOWN = 0"
| "gdt_cct_ClientInfo_ClientType_value gdt_cct_ClientInfo_ClientType_IOS_FIREBASE = 15"

definition gdt_cct_ClientInfo_ClientType_MIN :: gdt_cct_ClientInfo_ClientType where
  "gdt_cct_ClientInfo_ClientType_MIN = gdt_cct_ClientInfo_ClientType_CLIENT_UNKNOWN"

definition gdt_cct_ClientInfo_ClientType_MAX :: gdt_cct_ClientInfo_ClientType where
  "gdt_cct_ClientInfo_ClientType_MAX = gdt_cct_ClientInfo_ClientType_IOS_FIREBASE"

definition gdt_cct_ClientInfo_ClientType_ARRAYSIZE :: int where
  "gdt_cct_ClientInfo_ClientType_ARRAYSIZE = gdt_cct_ClientInfo_ClientType_value gdt_cct_ClientInfo_ClientType_IOS_FIREBASE + 1"

datatype gdt_cct_QosTierConfiguration_QosTier =
    gdt_cct_QosTierConfiguration_QosTier_DEFAULT
  | gdt_cct_QosTierConfiguration_QosTier_UNMETERED_ONLY
  | gdt_cct_QosTierConfiguration_QosTier_UNMETERED_OR_DAILY
  | gdt_cct_QosTierConfiguration_QosTier_FAST_IF_RADIO_AWAKE
  | gdt_cct_QosTierConfiguration_QosTier_NEVER

primrec gdt_cct_QosTierConfiguration_QosTier_value :: "gdt_cct_QosTierConfiguration_QosTier \<Rightarrow> int" where
  "gdt_cct_QosTierConfiguration_QosTier_value gdt_cct_QosTierConfiguration_QosTier_DEFAULT = 0"
| "gdt_cct_QosTierConfiguration_QosTier_value gdt_cct_QosTierConfiguration_QosTier_UNMETERED_ONLY = 1"
| "gdt_cct_QosTierConfiguration_QosTier_value gdt_cct_QosTierConfiguration_QosTier_UNMETERED_OR_DAILY = 2"
| "gdt_cct_QosTierConfiguration_QosTier_value gdt_cct_QosTierConfiguration_QosTier_FAST_IF_RADIO_AWAKE = 3"
| "gdt_cct_QosTierConfiguration_QosTier_value gdt_cct_QosTierConfiguration_QosTier_NEVER = 4"

definition gdt_cct_QosTierConfiguration_QosTier_MIN :: gdt_cct_QosTierConfiguration_QosTier where
  "gdt_cct_QosTierConfiguration_QosTier_MIN = gdt_cct_QosTierConfiguration_QosTier_DEFAULT"

definition gdt_cct_QosTierConfiguration_QosTier_MAX :: gdt_cct_QosTierConfiguration_QosTier where
  "gdt_cct_QosTierConfiguration_QosTier_MAX = gdt_cct_QosTierConfiguration_QosTier_NEVER"

definition gdt_cct_QosTierConfiguration_QosTier_ARRAYSIZE :: int where
  "gdt_cct_QosTierConfiguration_QosTier_ARRAYSIZE = gdt_cct_QosTierConfiguration_QosTier_value gdt_cct_QosTierConfiguration_QosTier_NEVER + 1"

section \<open>Structs\<close>

definition gdt_cct_IosClientInfo :: ctype where
  "gdt_cct_IosClientInfo = C_struct
     [(''os_major_version'', C_ptr sizeof_pb_bytes_array_t),
      (''os_full_version'', C_ptr sizeof_pb_bytes_array_t),
      (''application_build'', C_ptr sizeof_pb_bytes_array_t),
      (''country'', C_ptr sizeof_pb_bytes_array_t),
      (''model'', C_ptr sizeof_pb_bytes_array_t),
      (''language_code'', C_ptr sizeof_pb_bytes_array_t),
      (''application_bundle_id'', C_ptr sizeof_pb_bytes_array_t)]"

definition gdt_cct_ClientInfo :: ctype where
  "gdt_cct_ClientInfo = C_struct
     [(''has_client_type'', C_bool),
      (''client_type'', C_enum),
      (''has_ios_client_info'', C_bool),
      (''ios_client_info'', gdt_cct_IosClientInfo)]"

definition gdt_cct_NetworkConnectionInfo :: ctype where
  "gdt_cct_NetworkConnectionInfo = C_struct
     [(''has_network_type'', C_bool),
      (''network_type'', C_enum),
      (''has_mobile_subtype'', C_bool),
      (''mobile_subtype'', C_enum)]"

definition gdt_cct_LogEvent :: ctype where
  "gdt_cct_LogEvent = C_struct
     [(''has_event_time_ms'', C_bool),
      (''event_time_ms'', C_int64),
      (''source_extension'', C_ptr sizeof_pb_bytes_array_t),
      (''has_event_code'', C_bool),
      (''event_code'', C_int32),
      (''has_timezone_offset_seconds'', C_bool),
      (''timezone_offset_seconds'', C_int64),
      (''has_event_uptime_ms'', C_bool),
      (''event_uptime_ms'', C_int64),
      (''has_network_connection_info'', C_bool),
      (''network_connection_info'', gdt_cct_NetworkConnectionInfo)]"

definition gdt_cct_LogRequest :: ctype where
  "gdt_cct_LogRequest = C_struct
     [(''has_client_info'', C_bool),
      (''client_info'', gdt_cct_ClientInfo),
      (''has_log_source'', C_bool),
      (''log_source'', C_int32),
      (''log_event_count'', C_pb_size),
      (''log_event'', C_ptr (c_sizeof gdt_cct_LogEvent)),
      (''has_request_time_ms'', C_bool),
      (''request_time_ms'', C_int64),
      (''has_request_uptime_ms'', C_bool),
      (''request_uptime_ms'', C_int64),
      (''has_qos_tier'', C_bool),
      (''qos_tier'', C_enum)]"

definition gdt_cct_BatchedLogRequest :: ctype where
  "gdt_cct_BatchedLogRequest = C_struct
     [(''log_request_count'', C_pb_size),
      (''log_request'', C_ptr (c_sizeof gdt_cct_LogRequest))]"

definition gdt_cct_QosTierConfiguration :: ctype where
  "gdt_cct_QosTierConfiguration = C_struct
     [(''has_qos_tier'', C_bool),
      (''qos_tier'', C_enum),
      (''has_log_source'', C_bool),
      (''log_source'', C_int32)]"

definition gdt_cct_QosTiersOverride :: ctype where
  "gdt_cct_QosTiersOverride = C_struct
     [(''qos_tier_configuration_count'', C_pb_size),
      (''qos_tier_configuration'', C_ptr (c_sizeof gdt_cct_QosTierConfiguration)),
      (''has_qos_tier_fingerprint'', C_bool),
      (''qos_tier_fingerprint'', C_int64)]"

definition gdt_cct_LogResponse :: ctype where
  "gdt_cct_LogResponse = C_struct
     [(''has_next_request_wait_millis'', C_bool),
      (''next_request_wait_millis'', C_int64),
      (''has_qos_tier'', C_bool),
      (''qos_tier'', gdt_cct_QosTiersOverride)]"

section \<open>Default values\<close>

definition gdt_cct_NetworkConnectionInfo_network_type_default :: cval where
  "gdt_cct_NetworkConnectionInfo_network_type_default = V_int (gdt_cct_NetworkConnectionInfo_NetworkType_value gdt_cct_NetworkConnectionInfo_NetworkType_NONE)"

definition gdt_cct_NetworkConnectionInfo_mobile_subtype_default :: cval where
  "gdt_cct_NetworkConnectionInfo_mobile_subtype_default = V_int (gdt_cct_NetworkConnectionInfo_MobileSubtype_value gdt_cct_NetworkConnectionInfo_MobileSubtype_UNKNOWN_MOBILE_SUBTYPE)"

definition gdt_cct_LogRequest_qos_tier_default :: cval where
  "gdt_cct_LogRequest_qos_tier_default = V_int (gdt_cct_QosTierConfiguration_QosTier_value gdt_cct_QosTierConfiguration_QosTier_DEFAULT)"

definition gdt_cct_QosTierConfiguration_log_source_default :: cval where
  "gdt_cct_QosTierConfiguration_log_source_default = V_int (0)"

text \<open>The initializers of the structs.\<close>

definition gdt_cct_NetworkConnectionInfo_init_default :: cval where
  "gdt_cct_NetworkConnectionInfo_init_default = V_struct
     [V_bool False,
      V_int (gdt_cct_NetworkConnectionInfo_NetworkType_value gdt_cct_NetworkConnectionInfo_NetworkType_NONE),
      V_bool False,
      V_int (gdt_cct_NetworkConnectionInfo_MobileSubtype_value gdt_cct_NetworkConnectionInfo_MobileSubtype_UNKNOWN_MOBILE_SUBTYPE)]"

definition gdt_cct_LogEvent_init_default :: cval where
  "gdt_cct_LogEvent_init_default = V_struct
     [V_bool False, V_int 0, V_null, V_bool False, V_int 0, V_bool False, V_int 0,
      V_bool False, V_int 0, V_bool False, gdt_cct_NetworkConnectionInfo_init_default]"

definition gdt_cct_IosClientInfo_init_default :: cval where
  "gdt_cct_IosClientInfo_init_default = V_struct
     [V_null, V_null, V_null, V_null, V_null, V_null, V_null]"

definition gdt_cct_ClientInfo_init_default :: cval where
  "gdt_cct_ClientInfo_init_default = V_struct
     [V_bool False,
      V_int (gdt_cct_ClientInfo_ClientType_value gdt_cct_ClientInfo_ClientType_MIN),
      V_bool False, gdt_cct_IosClientInfo_init_default]"

definition gdt_cct_BatchedLogRequest_init_default :: cval where
  "gdt_cct_BatchedLogRequest_init_default = V_struct
     [V_int 0, V_null]"

definition gdt_cct_LogRequest_init_default :: cval where
  "gdt_cct_LogRequest_init_default = V_struct
     [V_bool False, gdt_cct_ClientInfo_init_default, V_bool False, V_int 0, V_int 0,
      V_null, V_bool False, V_int 0, V_bool False, V_int 0, V_bool False,
      V_int (gdt_cct_QosTierConfiguration_QosTier_value gdt_cct_QosTierConfiguration_QosTier_DEFAULT)]"

definition gdt_cct_QosTierConfiguration_init_default :: cval where
  "gdt_cct_QosTierConfiguration_init_default = V_struct
     [V_bool False,
      V_int (gdt_cct_QosTierConfiguration_QosTier_value gdt_cct_QosTierConfiguration_QosTier_MIN),
      V_bool False, V_int 0]"

definition gdt_cct_QosTiersOverride_init_default :: cval where
  "gdt_cct_QosTiersOverride_init_default = V_struct
     [V_int 0, V_null, V_bool False, V_int 0]"

definition gdt_cct_LogResponse_init_default :: cval where
  "gdt_cct_LogResponse_init_default = V_struct
     [V_bool False, V_int 0, V_bool False, gdt_cct_QosTiersOverride_init_default]"

definition gdt_cct_NetworkConnectionInfo_init_zero :: cval where
  "gdt_cct_NetworkConnectionInfo_init_zero = V_struct
     [V_bool False,
      V_int (gdt_cct_NetworkConnectionInfo_NetworkType_value gdt_cct_NetworkConnectionInfo_NetworkType_MIN),
      V_bool False,
      V_int (gdt_cct_NetworkConnectionInfo_MobileSubtype_value gdt_cct_NetworkConnectionInfo_MobileSubtype_MIN)]"

definition gdt_cct_LogEvent_init_zero :: cval where
  "gdt_cct_LogEvent_init_zero = V_struct
     [V_bool False, V_int 0, V_null, V_bool False, V_int 0, V_bool False, V_int 0,
      V_bool False, V_int 0, V_bool False, gdt_cct_NetworkConnectionInfo_init_zero]"

definition gdt_cct_IosClientInfo_init_zero :: cval where
  "gdt_cct_IosClientInfo_init_zero = V_struct
     [V_null, V_null, V_null, V_null, V_null, V_null, V_null]"

definition gdt_cct_ClientInfo_init_zero :: cval where
  "gdt_cct_ClientInfo_init_zero = V_struct
     [V_bool False,
      V_int (gdt_cct_ClientInfo_ClientType_value gdt_cct_ClientInfo_ClientType_MIN),
      V_bool False, gdt_cct_IosClientInfo_init_zero]"

definition gdt_cct_BatchedLogRequest_init_zero :: cval where
  "gdt_cct_BatchedLogRequest_init_zero = V_struct
     [V_int 0, V_null]"

definition gdt_cct_LogRequest_init_zero :: cval where
  "gdt_cct_LogRequest_init_zero = V_struct
     [V_bool False, gdt_cct_ClientInfo_init_zero, V_bool False, V_int 0, V_int 0,
      V_null, V_bool False, V_int 0, V_bool False, V_int 0, V_bool False,
      V_int (gdt_cct_QosTierConfiguration_QosTier_value gdt_cct_QosTierConfiguration_QosTier_MIN)]"

definition gdt_cct_QosTierConfiguration_init_zero :: cval where
  "gdt_cct_QosTierConfiguration_init_zero = V_struct
     [V_bool False,
      V_int (gdt_cct_QosTierConfiguration_QosTier_value gdt_cct_QosTierConfiguration_QosTier_MIN),
      V_bool False, V_int 0]"

definition gdt_cct_QosTiersOverride_init_zero :: cval where
  "gdt_cct_QosTiersOverride_init_zero = V_struct
     [V_int 0, V_null, V_bool False, V_int 0]"

definition gdt_cct_LogResponse_init_zero :: cval where
  "gdt_cct_LogResponse_init_zero = V_struct
     [V_bool False, V_int 0, V_bool False, gdt_cct_QosTiersOverride_init_zero]"

section \<open>Field tags\<close>

definition gdt_cct_BatchedLogRequest_log_request_tag :: nat where "gdt_cct_BatchedLogRequest_log_request_tag = 1"
definition gdt_cct_IosClientInfo_os_major_version_tag :: nat where "gdt_cct_IosClientInfo_os_major_version_tag = 3"
definition gdt_cct_IosClientInfo_os_full_version_tag :: nat where "gdt_cct_IosClientInfo_os_full_version_tag = 4"
definition gdt_cct_IosClientInfo_application_build_tag :: nat where "gdt_cct_IosClientInfo_application_build_tag = 5"
definition gdt_cct_IosClientInfo_country_tag :: nat where "gdt_cct_IosClientInfo_country_tag = 6"
definition gdt_cct_IosClientInfo_model_tag :: nat where "gdt_cct_IosClientInfo_model_tag = 7"
definition gdt_cct_IosClientInfo_language_code_tag :: nat where "gdt_cct_IosClientInfo_language_code_tag = 8"
definition gdt_cct_IosClientInfo_application_bundle_id_tag :: nat where "gdt_cct_IosClientInfo_application_bundle_id_tag = 11"
definition gdt_cct_ClientInfo_client_type_tag :: nat where "gdt_cct_ClientInfo_client_type_tag = 1"
definition gdt_cct_ClientInfo_ios_client_info_tag :: nat where "gdt_cct_ClientInfo_ios_client_info_tag = 4"
definition gdt_cct_NetworkConnectionInfo_network_type_tag :: nat where "gdt_cct_NetworkConnectionInfo_network_type_tag = 1"
definition gdt_cct_NetworkConnectionInfo_mobile_subtype_tag :: nat where "gdt_cct_NetworkConnectionInfo_mobile_subtype_tag = 2"
definition gdt_cct_QosTierConfiguration_qos_tier_tag :: nat where "gdt_cct_QosTierConfiguration_qos_tier_tag = 2"
definition gdt_cct_QosTierConfiguration_log_source_tag :: nat where "gdt_cct_QosTierConfiguration_log_source_tag = 3"
definition gdt_cct_QosTiersOverride_qos_tier_configuration_tag :: nat where "gdt_cct_QosTiersOverride_qos_tier_configuration_tag = 1"
definition gdt_cct_QosTiersOverride_qos_tier_fingerprint_tag :: nat where "gdt_cct_QosTiersOverride_qos_tier_fingerprint_tag = 2"
definition gdt_cct_LogEvent_event_time_ms_tag :: nat where "gdt_cct_LogEvent_event_time_ms_tag = 1"
definition gdt_cct_LogEvent_event_code_tag :: nat where "gdt_cct_LogEvent_event_code_tag = 11"
definition gdt_cct_LogEvent_event_uptime_ms_tag :: nat where "gdt_cct_LogEvent_event_uptime_ms_tag = 17"
definition gdt_cct_LogEvent_source_extension_tag :: nat where "gdt_cct_LogEvent_source_extension_tag = 6"
definition gdt_cct_LogEvent_timezone_offset_seconds_tag :: nat where "gdt_cct_LogEvent_timezone_offset_seconds_tag = 15"
definition gdt_cct_LogEvent_network_connection_info_tag :: nat where "gdt_cct_LogEvent_network_connection_info_tag = 23"
definition gdt_cct_LogRequest_request_time_ms_tag :: nat where "gdt_cct_LogRequest_request_time_ms_tag = 4"
definition gdt_cct_LogRequest_request_uptime_ms_tag :: nat where "gdt_cct_LogRequest_request_uptime_ms_tag = 8"
definition gdt_cct_LogRequest_client_info_tag :: nat where "gdt_cct_LogRequest_client_info_tag = 1"
definition gdt_cct_LogRequest_log_source_tag :: nat where "gdt_cct_LogRequest_log_source_tag = 2"
definition gdt_cct_LogRequest_log_event_tag :: nat where "gdt_cct_LogRequest_log_event_tag = 3"
definition gdt_cct_LogRequest_qos_tier_tag :: nat where "gdt_cct_LogRequest_qos_tier_tag = 9"
definition gdt_cct_LogResponse_next_request_wait_millis_tag :: nat where "gdt_cct_LogResponse_next_request_wait_millis_tag = 1"
definition gdt_cct_LogResponse_qos_tier_tag :: nat where "gdt_cct_LogResponse_qos_tier_tag = 3"

definition gdt_cct_NetworkConnectionInfo_size :: nat where "gdt_cct_NetworkConnectionInfo_size = 13"
definition gdt_cct_QosTierConfiguration_size :: nat where "gdt_cct_QosTierConfiguration_size = 13"

section \<open>Descriptor arrays\<close>

text \<open>\<open>symb\<close> gives the address the linker has chosen for a symbol. The last element of each array
  is \<open>PB_LAST_FIELD\<close>, which is not in the list.\<close>

definition gdt_cct_LogEvent_fields :: "(string \<Rightarrow> addr) \<Rightarrow> pb_field list" where
  "gdt_cct_LogEvent_fields symb =
     [PB_FIELD 1 T_INT64 OPTIONAL STATIC FIRST gdt_cct_LogEvent ''event_time_ms'' ''event_time_ms''
        0,
      PB_FIELD 6 T_BYTES OPTIONAL POINTER OTHER gdt_cct_LogEvent ''source_extension'' ''event_time_ms''
        0,
      PB_FIELD 11 T_INT32 OPTIONAL STATIC OTHER gdt_cct_LogEvent ''event_code'' ''source_extension''
        0,
      PB_FIELD 15 T_SINT64 OPTIONAL STATIC OTHER gdt_cct_LogEvent ''timezone_offset_seconds'' ''event_code''
        0,
      PB_FIELD 17 T_INT64 OPTIONAL STATIC OTHER gdt_cct_LogEvent ''event_uptime_ms'' ''timezone_offset_seconds''
        0,
      PB_FIELD 23 T_MESSAGE OPTIONAL STATIC OTHER gdt_cct_LogEvent ''network_connection_info'' ''event_uptime_ms''
        (symb ''gdt_cct_NetworkConnectionInfo_fields'')]"

definition gdt_cct_NetworkConnectionInfo_fields :: "(string \<Rightarrow> addr) \<Rightarrow> pb_field list" where
  "gdt_cct_NetworkConnectionInfo_fields symb =
     [PB_FIELD 1 T_ENUM OPTIONAL STATIC FIRST gdt_cct_NetworkConnectionInfo ''network_type'' ''network_type''
        (symb ''gdt_cct_NetworkConnectionInfo_network_type_default''),
      PB_FIELD 2 T_UENUM OPTIONAL STATIC OTHER gdt_cct_NetworkConnectionInfo ''mobile_subtype'' ''network_type''
        (symb ''gdt_cct_NetworkConnectionInfo_mobile_subtype_default'')]"

definition gdt_cct_IosClientInfo_fields :: "(string \<Rightarrow> addr) \<Rightarrow> pb_field list" where
  "gdt_cct_IosClientInfo_fields symb =
     [PB_FIELD 3 T_BYTES OPTIONAL POINTER FIRST gdt_cct_IosClientInfo ''os_major_version'' ''os_major_version''
        0,
      PB_FIELD 4 T_BYTES OPTIONAL POINTER OTHER gdt_cct_IosClientInfo ''os_full_version'' ''os_major_version''
        0,
      PB_FIELD 5 T_BYTES OPTIONAL POINTER OTHER gdt_cct_IosClientInfo ''application_build'' ''os_full_version''
        0,
      PB_FIELD 6 T_BYTES OPTIONAL POINTER OTHER gdt_cct_IosClientInfo ''country'' ''application_build''
        0,
      PB_FIELD 7 T_BYTES OPTIONAL POINTER OTHER gdt_cct_IosClientInfo ''model'' ''country''
        0,
      PB_FIELD 8 T_BYTES OPTIONAL POINTER OTHER gdt_cct_IosClientInfo ''language_code'' ''model''
        0,
      PB_FIELD 11 T_BYTES OPTIONAL POINTER OTHER gdt_cct_IosClientInfo ''application_bundle_id'' ''language_code''
        0]"

definition gdt_cct_ClientInfo_fields :: "(string \<Rightarrow> addr) \<Rightarrow> pb_field list" where
  "gdt_cct_ClientInfo_fields symb =
     [PB_FIELD 1 T_UENUM OPTIONAL STATIC FIRST gdt_cct_ClientInfo ''client_type'' ''client_type''
        0,
      PB_FIELD 4 T_MESSAGE OPTIONAL STATIC OTHER gdt_cct_ClientInfo ''ios_client_info'' ''client_type''
        (symb ''gdt_cct_IosClientInfo_fields'')]"

definition gdt_cct_BatchedLogRequest_fields :: "(string \<Rightarrow> addr) \<Rightarrow> pb_field list" where
  "gdt_cct_BatchedLogRequest_fields symb =
     [PB_FIELD 1 T_MESSAGE REPEATED POINTER FIRST gdt_cct_BatchedLogRequest ''log_request'' ''log_request''
        (symb ''gdt_cct_LogRequest_fields'')]"

definition gdt_cct_LogRequest_fields :: "(string \<Rightarrow> addr) \<Rightarrow> pb_field list" where
  "gdt_cct_LogRequest_fields symb =
     [PB_FIELD 1 T_MESSAGE OPTIONAL STATIC FIRST gdt_cct_LogRequest ''client_info'' ''client_info''
        (symb ''gdt_cct_ClientInfo_fields''),
      PB_FIELD 2 T_INT32 OPTIONAL STATIC OTHER gdt_cct_LogRequest ''log_source'' ''client_info''
        0,
      PB_FIELD 3 T_MESSAGE REPEATED POINTER OTHER gdt_cct_LogRequest ''log_event'' ''log_source''
        (symb ''gdt_cct_LogEvent_fields''),
      PB_FIELD 4 T_INT64 OPTIONAL STATIC OTHER gdt_cct_LogRequest ''request_time_ms'' ''log_event''
        0,
      PB_FIELD 8 T_INT64 OPTIONAL STATIC OTHER gdt_cct_LogRequest ''request_uptime_ms'' ''request_time_ms''
        0,
      PB_FIELD 9 T_UENUM OPTIONAL STATIC OTHER gdt_cct_LogRequest ''qos_tier'' ''request_uptime_ms''
        (symb ''gdt_cct_LogRequest_qos_tier_default'')]"

definition gdt_cct_QosTierConfiguration_fields :: "(string \<Rightarrow> addr) \<Rightarrow> pb_field list" where
  "gdt_cct_QosTierConfiguration_fields symb =
     [PB_FIELD 2 T_UENUM OPTIONAL STATIC FIRST gdt_cct_QosTierConfiguration ''qos_tier'' ''qos_tier''
        0,
      PB_FIELD 3 T_INT32 OPTIONAL STATIC OTHER gdt_cct_QosTierConfiguration ''log_source'' ''qos_tier''
        (symb ''gdt_cct_QosTierConfiguration_log_source_default'')]"

definition gdt_cct_QosTiersOverride_fields :: "(string \<Rightarrow> addr) \<Rightarrow> pb_field list" where
  "gdt_cct_QosTiersOverride_fields symb =
     [PB_FIELD 1 T_MESSAGE REPEATED POINTER FIRST gdt_cct_QosTiersOverride ''qos_tier_configuration'' ''qos_tier_configuration''
        (symb ''gdt_cct_QosTierConfiguration_fields''),
      PB_FIELD 2 T_INT64 OPTIONAL STATIC OTHER gdt_cct_QosTiersOverride ''qos_tier_fingerprint'' ''qos_tier_configuration''
        0]"

definition gdt_cct_LogResponse_fields :: "(string \<Rightarrow> addr) \<Rightarrow> pb_field list" where
  "gdt_cct_LogResponse_fields symb =
     [PB_FIELD 1 T_INT64 OPTIONAL STATIC FIRST gdt_cct_LogResponse ''next_request_wait_millis'' ''next_request_wait_millis''
        0,
      PB_FIELD 3 T_MESSAGE OPTIONAL STATIC OTHER gdt_cct_LogResponse ''qos_tier'' ''next_request_wait_millis''
        (symb ''gdt_cct_QosTiersOverride_fields'')]"

section \<open>The arrays describe the structs\<close>

lemma gdt_cct_LogEvent_fields_describes:
  "describes gdt_cct_LogEvent (gdt_cct_LogEvent_fields symb)
     [''event_time_ms'', ''source_extension'', ''event_code'',
      ''timezone_offset_seconds'', ''event_uptime_ms'',
      ''network_connection_info'']"
  by code_simp

lemma gdt_cct_LogEvent_fields_tags:
  "map tag (gdt_cct_LogEvent_fields symb) = map of_nat
     [gdt_cct_LogEvent_event_time_ms_tag,
      gdt_cct_LogEvent_source_extension_tag, gdt_cct_LogEvent_event_code_tag,
      gdt_cct_LogEvent_timezone_offset_seconds_tag,
      gdt_cct_LogEvent_event_uptime_ms_tag,
      gdt_cct_LogEvent_network_connection_info_tag]"
  by code_simp

lemma gdt_cct_LogEvent_fields_sorted: "sorted_wrt (<) (map tag (gdt_cct_LogEvent_fields symb))"
  by code_simp

lemma gdt_cct_NetworkConnectionInfo_fields_describes:
  "describes gdt_cct_NetworkConnectionInfo (gdt_cct_NetworkConnectionInfo_fields symb)
     [''network_type'', ''mobile_subtype'']"
  by code_simp

lemma gdt_cct_NetworkConnectionInfo_fields_tags:
  "map tag (gdt_cct_NetworkConnectionInfo_fields symb) = map of_nat
     [gdt_cct_NetworkConnectionInfo_network_type_tag,
      gdt_cct_NetworkConnectionInfo_mobile_subtype_tag]"
  by code_simp

lemma gdt_cct_NetworkConnectionInfo_fields_sorted: "sorted_wrt (<) (map tag (gdt_cct_NetworkConnectionInfo_fields symb))"
  by code_simp

lemma gdt_cct_IosClientInfo_fields_describes:
  "describes gdt_cct_IosClientInfo (gdt_cct_IosClientInfo_fields symb)
     [''os_major_version'', ''os_full_version'', ''application_build'',
      ''country'', ''model'', ''language_code'', ''application_bundle_id'']"
  by code_simp

lemma gdt_cct_IosClientInfo_fields_tags:
  "map tag (gdt_cct_IosClientInfo_fields symb) = map of_nat
     [gdt_cct_IosClientInfo_os_major_version_tag,
      gdt_cct_IosClientInfo_os_full_version_tag,
      gdt_cct_IosClientInfo_application_build_tag,
      gdt_cct_IosClientInfo_country_tag, gdt_cct_IosClientInfo_model_tag,
      gdt_cct_IosClientInfo_language_code_tag,
      gdt_cct_IosClientInfo_application_bundle_id_tag]"
  by code_simp

lemma gdt_cct_IosClientInfo_fields_sorted: "sorted_wrt (<) (map tag (gdt_cct_IosClientInfo_fields symb))"
  by code_simp

lemma gdt_cct_ClientInfo_fields_describes:
  "describes gdt_cct_ClientInfo (gdt_cct_ClientInfo_fields symb)
     [''client_type'', ''ios_client_info'']"
  by code_simp

lemma gdt_cct_ClientInfo_fields_tags:
  "map tag (gdt_cct_ClientInfo_fields symb) = map of_nat
     [gdt_cct_ClientInfo_client_type_tag,
      gdt_cct_ClientInfo_ios_client_info_tag]"
  by code_simp

lemma gdt_cct_ClientInfo_fields_sorted: "sorted_wrt (<) (map tag (gdt_cct_ClientInfo_fields symb))"
  by code_simp

lemma gdt_cct_BatchedLogRequest_fields_describes:
  "describes gdt_cct_BatchedLogRequest (gdt_cct_BatchedLogRequest_fields symb)
     [''log_request'']"
  by code_simp

lemma gdt_cct_BatchedLogRequest_fields_tags:
  "map tag (gdt_cct_BatchedLogRequest_fields symb) = map of_nat
     [gdt_cct_BatchedLogRequest_log_request_tag]"
  by code_simp

lemma gdt_cct_BatchedLogRequest_fields_sorted: "sorted_wrt (<) (map tag (gdt_cct_BatchedLogRequest_fields symb))"
  by code_simp

lemma gdt_cct_LogRequest_fields_describes:
  "describes gdt_cct_LogRequest (gdt_cct_LogRequest_fields symb)
     [''client_info'', ''log_source'', ''log_event'', ''request_time_ms'',
      ''request_uptime_ms'', ''qos_tier'']"
  by code_simp

lemma gdt_cct_LogRequest_fields_tags:
  "map tag (gdt_cct_LogRequest_fields symb) = map of_nat
     [gdt_cct_LogRequest_client_info_tag, gdt_cct_LogRequest_log_source_tag,
      gdt_cct_LogRequest_log_event_tag,
      gdt_cct_LogRequest_request_time_ms_tag,
      gdt_cct_LogRequest_request_uptime_ms_tag,
      gdt_cct_LogRequest_qos_tier_tag]"
  by code_simp

lemma gdt_cct_LogRequest_fields_sorted: "sorted_wrt (<) (map tag (gdt_cct_LogRequest_fields symb))"
  by code_simp

lemma gdt_cct_QosTierConfiguration_fields_describes:
  "describes gdt_cct_QosTierConfiguration (gdt_cct_QosTierConfiguration_fields symb)
     [''qos_tier'', ''log_source'']"
  by code_simp

lemma gdt_cct_QosTierConfiguration_fields_tags:
  "map tag (gdt_cct_QosTierConfiguration_fields symb) = map of_nat
     [gdt_cct_QosTierConfiguration_qos_tier_tag,
      gdt_cct_QosTierConfiguration_log_source_tag]"
  by code_simp

lemma gdt_cct_QosTierConfiguration_fields_sorted: "sorted_wrt (<) (map tag (gdt_cct_QosTierConfiguration_fields symb))"
  by code_simp

lemma gdt_cct_QosTiersOverride_fields_describes:
  "describes gdt_cct_QosTiersOverride (gdt_cct_QosTiersOverride_fields symb)
     [''qos_tier_configuration'', ''qos_tier_fingerprint'']"
  by code_simp

lemma gdt_cct_QosTiersOverride_fields_tags:
  "map tag (gdt_cct_QosTiersOverride_fields symb) = map of_nat
     [gdt_cct_QosTiersOverride_qos_tier_configuration_tag,
      gdt_cct_QosTiersOverride_qos_tier_fingerprint_tag]"
  by code_simp

lemma gdt_cct_QosTiersOverride_fields_sorted: "sorted_wrt (<) (map tag (gdt_cct_QosTiersOverride_fields symb))"
  by code_simp

lemma gdt_cct_LogResponse_fields_describes:
  "describes gdt_cct_LogResponse (gdt_cct_LogResponse_fields symb)
     [''next_request_wait_millis'', ''qos_tier'']"
  by code_simp

lemma gdt_cct_LogResponse_fields_tags:
  "map tag (gdt_cct_LogResponse_fields symb) = map of_nat
     [gdt_cct_LogResponse_next_request_wait_millis_tag,
      gdt_cct_LogResponse_qos_tier_tag]"
  by code_simp

lemma gdt_cct_LogResponse_fields_sorted: "sorted_wrt (<) (map tag (gdt_cct_LogResponse_fields symb))"
  by code_simp


end
