(* ===== verification/CctDecode.thy ===== *)
theory CctDecode
  imports CctSchema PbSafeMessage
begin

text \<open>
  The CCT schema in a program image: \<open>cct_loaded\<close> says that the descriptor arrays are at the
  addresses of their symbols. The two message types without pointers have a static layout, so that
  the safety theorems of the decoder apply to them, for every input. The example image at the end
  shows that the hypotheses can be met.
\<close>

section \<open>The image\<close>

definition cct_loaded :: "env \<Rightarrow> (string \<Rightarrow> addr) \<Rightarrow> bool" where
  "cct_loaded E symb \<longleftrightarrow>
     table_at E (symb ''gdt_cct_LogEvent_fields'') (gdt_cct_LogEvent_fields symb) \<and>
     table_at E (symb ''gdt_cct_NetworkConnectionInfo_fields'') (gdt_cct_NetworkConnectionInfo_fields symb) \<and>
     table_at E (symb ''gdt_cct_IosClientInfo_fields'') (gdt_cct_IosClientInfo_fields symb) \<and>
     table_at E (symb ''gdt_cct_ClientInfo_fields'') (gdt_cct_ClientInfo_fields symb) \<and>
     table_at E (symb ''gdt_cct_BatchedLogRequest_fields'') (gdt_cct_BatchedLogRequest_fields symb) \<and>
     table_at E (symb ''gdt_cct_LogRequest_fields'') (gdt_cct_LogRequest_fields symb) \<and>
     table_at E (symb ''gdt_cct_QosTierConfiguration_fields'') (gdt_cct_QosTierConfiguration_fields symb) \<and>
     table_at E (symb ''gdt_cct_QosTiersOverride_fields'') (gdt_cct_QosTiersOverride_fields symb) \<and>
     table_at E (symb ''gdt_cct_LogResponse_fields'') (gdt_cct_LogResponse_fields symb)"

text \<open>The addresses of the default values.\<close>

definition cct_consts :: "(string \<Rightarrow> addr) \<Rightarrow> addr set" where
  "cct_consts symb =
     {symb ''gdt_cct_NetworkConnectionInfo_network_type_default''..<symb ''gdt_cct_NetworkConnectionInfo_network_type_default'' + 4} \<union>
     {symb ''gdt_cct_NetworkConnectionInfo_mobile_subtype_default''..<symb ''gdt_cct_NetworkConnectionInfo_mobile_subtype_default'' + 4} \<union>
     {symb ''gdt_cct_LogRequest_qos_tier_default''..<symb ''gdt_cct_LogRequest_qos_tier_default'' + 4} \<union>
     {symb ''gdt_cct_QosTierConfiguration_log_source_default''..<symb ''gdt_cct_QosTierConfiguration_log_source_default'' + 4}"

section \<open>Static layouts\<close>

lemma field_fits_optional_varint:
  assumes "PB_ATYPE (ftype f) = PB_ATYPE_STATIC" and "PB_HTYPE (ftype f) = PB_HTYPE_OPTIONAL"
    and "PB_LTYPE (ftype f) \<in> {PB_LTYPE_VARINT, PB_LTYPE_UVARINT, PB_LTYPE_SVARINT}"
    and "0 \<le> p" and "p + uint (data_size f) \<le> sz" and "0 \<le> s" and "s + 1 \<le> sz"
    and "ptr f \<noteq> 0 \<Longrightarrow> {ptr f..<ptr f + uint (data_size f)} \<subseteq> C"
  shows "field_fits sub C f p s sz"
proof -
  have l: "ltype_ok (PB_LTYPE (ftype f))" "scalar_size_ok f" "PB_LTYPE (ftype f) \<noteq> PB_LTYPE_SUBMESSAGE"
    using assms(3) by (auto simp: ltype_ok_def scalar_size_ok_def pb_consts)
  show ?thesis
    unfolding field_fits_def Let_def
    using l assms htypes_differ by (simp only: if_False if_True simp_thms) simp
qed

lemma static_msg_two:
  assumes "table_at E a fs" and len: "length fs = 2" and "distinct (map tag fs)"
    and "map (data_addr fs 0) [0..<2] = [p, q]" and "map (size_addr fs 0) [0..<2] = [s, t]"
    and "\<And>sub. field_fits sub C (fs ! 0) p s sz" and "\<And>sub. field_fits sub C (fs ! 1) q t sz"
  shows "static_msg 1 E C 2 a sz"
proof -
  have "data_addr fs 0 0 = p" "data_addr fs 0 1 = q" "size_addr fs 0 0 = s" "size_addr fs 0 1 = t"
    using assms(4,5) by (simp_all add: upt_rec del: data_addr.simps size_addr.simps)
  then have "field_fits sub C (fs ! k) (data_addr fs 0 k) (size_addr fs 0 k) sz" if "k < length fs" for k sub
    using that len assms(6,7) less_2_cases [of k] by auto
  moreover have "fs \<noteq> []" using len by auto
  ultimately show ?thesis
    using assms(1-3) unfolding One_nat_def static_msg.simps
    by (intro exI [of _ fs] conjI allI impI) auto
qed

lemma cct_ftypes:
  "PB_ATYPE 0x11 = PB_ATYPE_STATIC" "PB_HTYPE 0x11 = PB_HTYPE_OPTIONAL" "PB_LTYPE 0x11 = PB_LTYPE_VARINT"
  "PB_ATYPE 0x12 = PB_ATYPE_STATIC" "PB_HTYPE 0x12 = PB_HTYPE_OPTIONAL" "PB_LTYPE 0x12 = PB_LTYPE_UVARINT"
  by (simp_all add: pb_type_defs pb_consts)

lemma NetworkConnectionInfo_list: "gdt_cct_NetworkConnectionInfo_fields symb =
  [\<lparr>tag = 1, ftype = 0x11, data_offset = 4, size_offset = - 4, data_size = 4, array_size = 0,
     ptr = symb ''gdt_cct_NetworkConnectionInfo_network_type_default''\<rparr>,
   \<lparr>tag = 2, ftype = 0x12, data_offset = 4, size_offset = - 4, data_size = 4, array_size = 0,
     ptr = symb ''gdt_cct_NetworkConnectionInfo_mobile_subtype_default''\<rparr>]"
  by code_simp

lemma NetworkConnectionInfo_addrs:
  "map (data_addr (gdt_cct_NetworkConnectionInfo_fields symb) 0) [0..<2] = [4, 12]"
  "map (size_addr (gdt_cct_NetworkConnectionInfo_fields symb) 0) [0..<2] = [0, 8]"
  by code_simp+

lemma NetworkConnectionInfo_static:
  assumes "cct_loaded E symb"
  shows "static_msg 1 E (cct_consts symb) 2 (symb ''gdt_cct_NetworkConnectionInfo_fields'') 16"
proof (rule static_msg_two [OF _ _ _ NetworkConnectionInfo_addrs])
  show "table_at E (symb ''gdt_cct_NetworkConnectionInfo_fields'') (gdt_cct_NetworkConnectionInfo_fields symb)"
    using assms by (simp only: cct_loaded_def simp_thms)
  show "field_fits sub (cct_consts symb) (gdt_cct_NetworkConnectionInfo_fields symb ! 0) 4 0 16"
    "field_fits sub (cct_consts symb) (gdt_cct_NetworkConnectionInfo_fields symb ! 1) 12 8 16" for sub
    by (auto simp: NetworkConnectionInfo_list cct_ftypes cct_consts_def intro!: field_fits_optional_varint)
qed (simp_all add: NetworkConnectionInfo_list)

lemma QosTierConfiguration_list: "gdt_cct_QosTierConfiguration_fields symb =
  [\<lparr>tag = 2, ftype = 0x12, data_offset = 4, size_offset = - 4, data_size = 4, array_size = 0,
     ptr = 0\<rparr>,
   \<lparr>tag = 3, ftype = 0x11, data_offset = 4, size_offset = - 4, data_size = 4, array_size = 0,
     ptr = symb ''gdt_cct_QosTierConfiguration_log_source_default''\<rparr>]"
  by code_simp

lemma QosTierConfiguration_addrs:
  "map (data_addr (gdt_cct_QosTierConfiguration_fields symb) 0) [0..<2] = [4, 12]"
  "map (size_addr (gdt_cct_QosTierConfiguration_fields symb) 0) [0..<2] = [0, 8]"
  by code_simp+

lemma QosTierConfiguration_static:
  assumes "cct_loaded E symb"
  shows "static_msg 1 E (cct_consts symb) 2 (symb ''gdt_cct_QosTierConfiguration_fields'') 16"
proof (rule static_msg_two [OF _ _ _ QosTierConfiguration_addrs])
  show "table_at E (symb ''gdt_cct_QosTierConfiguration_fields'') (gdt_cct_QosTierConfiguration_fields symb)"
    using assms by (simp only: cct_loaded_def simp_thms)
  show "field_fits sub (cct_consts symb) (gdt_cct_QosTierConfiguration_fields symb ! 0) 4 0 16"
    "field_fits sub (cct_consts symb) (gdt_cct_QosTierConfiguration_fields symb ! 1) 12 8 16" for sub
    by (auto simp: QosTierConfiguration_list cct_ftypes cct_consts_def intro!: field_fits_optional_varint)
qed (simp_all add: QosTierConfiguration_list)

section \<open>An example image\<close>

definition example_symb :: "string \<Rightarrow> addr" where
  "example_symb s =
     (case map_of
       [(''gdt_cct_LogEvent_fields'', 0x1000),
        (''gdt_cct_NetworkConnectionInfo_fields'', 0x1100),
        (''gdt_cct_IosClientInfo_fields'', 0x1200),
        (''gdt_cct_ClientInfo_fields'', 0x1300),
        (''gdt_cct_BatchedLogRequest_fields'', 0x1400),
        (''gdt_cct_LogRequest_fields'', 0x1500),
        (''gdt_cct_QosTierConfiguration_fields'', 0x1600),
        (''gdt_cct_QosTiersOverride_fields'', 0x1700),
        (''gdt_cct_LogResponse_fields'', 0x1800),
        (''gdt_cct_NetworkConnectionInfo_network_type_default'', 0x800),
        (''gdt_cct_NetworkConnectionInfo_mobile_subtype_default'', 0x804),
        (''gdt_cct_LogRequest_qos_tier_default'', 0x808),
        (''gdt_cct_QosTierConfiguration_log_source_default'', 0x80c)] s of Some a \<Rightarrow> a | None \<Rightarrow> 0)"

definition example_rodata :: "addr \<Rightarrow> pb_field option" where
  "example_rodata =
     (place 0x1000 (gdt_cct_LogEvent_fields example_symb)
      (place 0x1100 (gdt_cct_NetworkConnectionInfo_fields example_symb)
      (place 0x1200 (gdt_cct_IosClientInfo_fields example_symb)
      (place 0x1300 (gdt_cct_ClientInfo_fields example_symb)
      (place 0x1400 (gdt_cct_BatchedLogRequest_fields example_symb)
      (place 0x1500 (gdt_cct_LogRequest_fields example_symb)
      (place 0x1600 (gdt_cct_QosTierConfiguration_fields example_symb)
      (place 0x1700 (gdt_cct_QosTiersOverride_fields example_symb)
      (place 0x1800 (gdt_cct_LogResponse_fields example_symb)
      (\<lambda>_. None))))))))))"

definition example_env :: env where
  "example_env =
     \<lparr>rodata = example_rodata, user_read = (\<lambda>_ _ _ _ _. Undef), user_write = (\<lambda>_ _ _ _ _. Undef),
      field_decoder = (\<lambda>_. None), field_encoder = (\<lambda>_. None), ext_decoder = (\<lambda>_. None),
      ext_encoder = (\<lambda>_. None)\<rparr>"

text \<open>Everything from the default values on is mapped; the input \<open>bs\<close> is at \<open>0x4000\<close>.\<close>

definition example_world :: "u8 list \<Rightarrow> world" where
  "example_world bs =
     \<lparr>mem = upd_bytes (upd_bytes (\<lambda>x. if 0x800 \<le> x \<and> x < 0x8000 then Some 0 else None)
         0x800 (le_bytes 4 (- 1 :: u32))) 0x4000 bs,
      blocks = (\<lambda>_. None), brk = 0x10000, n_alloc = 0, alloc_fails = (\<lambda>_. False), junk = (\<lambda>_. 0),
      stack = 0x800\<rparr>"

lemma place_apart:
  "x < a \<or> a + sizeof_pb_field * int (length fs) < x \<Longrightarrow> place a fs m x = m x"
  using place_other place_beyond by blast

lemma table_at_example:
  assumes "\<And>x. a \<le> x \<Longrightarrow> x \<le> a + sizeof_pb_field * int (length fs) \<Longrightarrow> example_rodata x = place a fs m x"
    and "\<forall>f \<in> set fs. tag f \<noteq> 0"
  shows "table_at example_env a fs"
proof -
  have s: "0 < sizeof_pb_field" by (simp add: sizeof_pb_field_def)
  have "example_rodata (a + sizeof_pb_field * int i) = place a fs m (a + sizeof_pb_field * int i)"
    if "i \<le> length fs" for i
    using that s by (intro assms(1)) auto
  then show ?thesis
    using assms(2) by (simp add: table_at_def example_env_def place_nth)
qed

lemma cct_lengths:
  "length (gdt_cct_LogEvent_fields symb) = 6"
  "length (gdt_cct_NetworkConnectionInfo_fields symb) = 2"
  "length (gdt_cct_IosClientInfo_fields symb) = 7"
  "length (gdt_cct_ClientInfo_fields symb) = 2"
  "length (gdt_cct_BatchedLogRequest_fields symb) = 1"
  "length (gdt_cct_LogRequest_fields symb) = 6"
  "length (gdt_cct_QosTierConfiguration_fields symb) = 2"
  "length (gdt_cct_QosTiersOverride_fields symb) = 2"
  "length (gdt_cct_LogResponse_fields symb) = 2"
  by (simp_all add: gdt_cct_LogEvent_fields_def gdt_cct_NetworkConnectionInfo_fields_def gdt_cct_IosClientInfo_fields_def gdt_cct_ClientInfo_fields_def gdt_cct_BatchedLogRequest_fields_def gdt_cct_LogRequest_fields_def gdt_cct_QosTierConfiguration_fields_def gdt_cct_QosTiersOverride_fields_def gdt_cct_LogResponse_fields_def)

lemma cct_tags_nonzero:
  "\<forall>f \<in> set (gdt_cct_LogEvent_fields symb). tag f \<noteq> 0"
  "\<forall>f \<in> set (gdt_cct_NetworkConnectionInfo_fields symb). tag f \<noteq> 0"
  "\<forall>f \<in> set (gdt_cct_IosClientInfo_fields symb). tag f \<noteq> 0"
  "\<forall>f \<in> set (gdt_cct_ClientInfo_fields symb). tag f \<noteq> 0"
  "\<forall>f \<in> set (gdt_cct_BatchedLogRequest_fields symb). tag f \<noteq> 0"
  "\<forall>f \<in> set (gdt_cct_LogRequest_fields symb). tag f \<noteq> 0"
  "\<forall>f \<in> set (gdt_cct_QosTierConfiguration_fields symb). tag f \<noteq> 0"
  "\<forall>f \<in> set (gdt_cct_QosTiersOverride_fields symb). tag f \<noteq> 0"
  "\<forall>f \<in> set (gdt_cct_LogResponse_fields symb). tag f \<noteq> 0"
  by code_simp+

lemma example_gdt_cct_LogEvent_fields: "table_at example_env 0x1000 (gdt_cct_LogEvent_fields example_symb)"
  by (rule table_at_example [OF _ cct_tags_nonzero(1)])
    (simp add: example_rodata_def place_apart cct_lengths sizeof_pb_field_def)

lemma example_gdt_cct_NetworkConnectionInfo_fields: "table_at example_env 0x1100 (gdt_cct_NetworkConnectionInfo_fields example_symb)"
  by (rule table_at_example [OF _ cct_tags_nonzero(2)])
    (simp add: example_rodata_def place_apart cct_lengths sizeof_pb_field_def)

lemma example_gdt_cct_IosClientInfo_fields: "table_at example_env 0x1200 (gdt_cct_IosClientInfo_fields example_symb)"
  by (rule table_at_example [OF _ cct_tags_nonzero(3)])
    (simp add: example_rodata_def place_apart cct_lengths sizeof_pb_field_def)

lemma example_gdt_cct_ClientInfo_fields: "table_at example_env 0x1300 (gdt_cct_ClientInfo_fields example_symb)"
  by (rule table_at_example [OF _ cct_tags_nonzero(4)])
    (simp add: example_rodata_def place_apart cct_lengths sizeof_pb_field_def)

lemma example_gdt_cct_BatchedLogRequest_fields: "table_at example_env 0x1400 (gdt_cct_BatchedLogRequest_fields example_symb)"
  by (rule table_at_example [OF _ cct_tags_nonzero(5)])
    (simp add: example_rodata_def place_apart cct_lengths sizeof_pb_field_def)

lemma example_gdt_cct_LogRequest_fields: "table_at example_env 0x1500 (gdt_cct_LogRequest_fields example_symb)"
  by (rule table_at_example [OF _ cct_tags_nonzero(6)])
    (simp add: example_rodata_def place_apart cct_lengths sizeof_pb_field_def)

lemma example_gdt_cct_QosTierConfiguration_fields: "table_at example_env 0x1600 (gdt_cct_QosTierConfiguration_fields example_symb)"
  by (rule table_at_example [OF _ cct_tags_nonzero(7)])
    (simp add: example_rodata_def place_apart cct_lengths sizeof_pb_field_def)

lemma example_gdt_cct_QosTiersOverride_fields: "table_at example_env 0x1700 (gdt_cct_QosTiersOverride_fields example_symb)"
  by (rule table_at_example [OF _ cct_tags_nonzero(8)])
    (simp add: example_rodata_def place_apart cct_lengths sizeof_pb_field_def)

lemma example_gdt_cct_LogResponse_fields: "table_at example_env 0x1800 (gdt_cct_LogResponse_fields example_symb)"
  by (rule table_at_example [OF _ cct_tags_nonzero(9)])
    (simp add: example_rodata_def place_apart cct_lengths sizeof_pb_field_def)

lemma example_symbs:
  "example_symb ''gdt_cct_LogEvent_fields'' = 0x1000"
  "example_symb ''gdt_cct_NetworkConnectionInfo_fields'' = 0x1100"
  "example_symb ''gdt_cct_IosClientInfo_fields'' = 0x1200"
  "example_symb ''gdt_cct_ClientInfo_fields'' = 0x1300"
  "example_symb ''gdt_cct_BatchedLogRequest_fields'' = 0x1400"
  "example_symb ''gdt_cct_LogRequest_fields'' = 0x1500"
  "example_symb ''gdt_cct_QosTierConfiguration_fields'' = 0x1600"
  "example_symb ''gdt_cct_QosTiersOverride_fields'' = 0x1700"
  "example_symb ''gdt_cct_LogResponse_fields'' = 0x1800"
  "example_symb ''gdt_cct_NetworkConnectionInfo_network_type_default'' = 0x800"
  "example_symb ''gdt_cct_NetworkConnectionInfo_mobile_subtype_default'' = 0x804"
  "example_symb ''gdt_cct_LogRequest_qos_tier_default'' = 0x808"
  "example_symb ''gdt_cct_QosTierConfiguration_log_source_default'' = 0x80c"
  by code_simp+

lemma example_loaded: "cct_loaded example_env example_symb"
  by (simp only: cct_loaded_def example_symbs example_gdt_cct_LogEvent_fields example_gdt_cct_NetworkConnectionInfo_fields example_gdt_cct_IosClientInfo_fields example_gdt_cct_ClientInfo_fields example_gdt_cct_BatchedLogRequest_fields example_gdt_cct_LogRequest_fields example_gdt_cct_QosTierConfiguration_fields example_gdt_cct_QosTiersOverride_fields example_gdt_cct_LogResponse_fields simp_thms)

lemma example_mapped: "0x800 \<le> a \<Longrightarrow> a + n \<le> 0x8000 \<Longrightarrow> mapped (example_world bs) a n"
  by (auto simp: mapped_def example_world_def upd_bytes_def)

lemma example_stack_ok: "stack_ok (example_world bs)"
  by (auto simp: stack_ok_def example_world_def upd_bytes_def)

lemma example_consts: "mapped_set (cct_consts example_symb) (example_world bs)"
proof -
  have "mapped (example_world bs) 0x800 0x10" by (rule example_mapped) auto
  then show ?thesis
    by (auto simp: mapped_set_def mapped_def cct_consts_def example_symbs)
qed

text \<open>The same with the input at the end of the memory.\<close>

definition example_tail :: "u8 list \<Rightarrow> world" where
  "example_tail bs =
     (example_world []) \<lparr>mem := upd_bytes (mem (example_world [])) (0x8000 - int (length bs)) bs\<rparr>"

lemma example_tail_mapped: "length bs \<le> 0x100 \<Longrightarrow> 0x800 \<le> a \<Longrightarrow> a + n \<le> 0x8000 \<Longrightarrow> mapped (example_tail bs) a n"
  using example_mapped [where a = a and n = n] by (auto simp: mapped_def example_tail_def upd_bytes_def)

lemma example_tail_stack: "length bs \<le> 0x100 \<Longrightarrow> stack_ok (example_tail bs)"
  using example_stack_ok by (auto simp: stack_ok_def example_tail_def upd_bytes_def example_world_def)

lemma example_tail_consts: "length bs \<le> 0x100 \<Longrightarrow> mapped_set (cct_consts example_symb) (example_tail bs)"
  using example_tail_mapped [where bs = bs and a = "0x800" and n = "0x10"] by (auto simp: mapped_set_def mapped_def cct_consts_def example_symbs)

section \<open>Decoding static messages\<close>



text \<open>C2: a message with a length prefix, with or without setting the struct to its default values first. Let the
  prefix announce \<open>m\<close> bytes and end at the position of \<open>st1\<close>. When that many bytes are left, the decoder returns and
  reads nothing behind them: only the memory up to their end is assumed to be mapped, and reading more would be
  undefined. It changes nothing outside the struct, takes the announced length off the stream, does not move it behind
  the announced bytes, and after a success it stands exactly there. When the prefix cannot be read or fewer bytes are
  left, the decoder fails and changes nothing.\<close>

theorem pb_decode_delimited_static_safe:
  assumes "static_msg d E C L a sz" and "mapped_set C w" and "mapped w dest sz" and "stack_ok w"
    and "unat len + L + d + 4 \<le> n" and "dec \<in> {pb_decode_delimited n E, pb_decode_delimited_noinit n E}"
    and "pb_decode_varint32 E (pb_istream_from_buffer buf len) w = Ret (got, m, st1, w)"
  shows "if got \<and> ucast m \<le> bytes_left st1
    then mapped w buf (istate st1 + uint m - buf) \<longrightarrow>
      (\<exists>ok st w'. dec (pb_istream_from_buffer buf len) a dest w = Ret (ok, st, w') \<and>
        same_outside {dest..<dest + sz} w w' \<and> bytes_left st = bytes_left st1 - ucast m \<and>
        istate st1 \<le> istate st \<and> istate st \<le> istate st1 + uint m \<and> (ok \<longrightarrow> istate st = istate st1 + uint m))
    else \<exists>st. dec (pb_istream_from_buffer buf len) a dest w = Ret (False, st, w)"
proof (cases "got \<and> ucast m \<le> bytes_left st1")
  case True
  let ?st = "pb_istream_from_buffer buf len" and ?B = "{buf..<istate st1 + uint m}" and ?R = "{dest..<dest + sz}"
  have buffer: "icallback ?st = Buf_read" "unat (bytes_left ?st) + L + d + 4 \<le> n"
    using assms(5) by (simp_all add: pb_istream_from_buffer_def)
  have "adv ?st st1" using pb_decode_varint32_adv [OF assms(7) buffer(1)] by simp
  then have "moved ?st st1" by (rule adv_moved)
  then have B: "{istate st1..<istate st1 + uint m} \<subseteq> ?B" by (auto simp: moved_def pb_istream_from_buffer_def)
  have ?thesis if "mapped w buf (istate st1 + uint m - buf)"
  proof -
    have world: "world_ok ?B C w" "owns ?R w dest sz"
      using assms(2-4) that mapped_set_range [OF that] by (auto simp: world_ok_def owns_def)
    have "got" "ucast m \<le> bytes_left st1" using True by simp_all
    from pb_decode_delimited_prefix [OF assms(1,7) buffer(1) this B world buffer(2) assms(6)] True
    show ?thesis by (auto simp: wp_Ret_iff)
  qed
  then show ?thesis using True by auto
next
  case False
  then show ?thesis
    using assms(6) decode_delimited_refuses [OF assms(7)]
    by (auto simp: pb_decode_delimited_def pb_decode_delimited_noinit_def)
qed

text \<open>The buffer ends with the memory, right behind the message; the stream is longer.\<close>

theorem pb_decode_delimited_static_safe_witness:
  "\<exists>ok st w'. pb_decode_delimited 113 example_env (pb_istream_from_buffer 0x7FFB 100) 0x1600 0x5000
      (example_tail [0x04, 0x10, 0x01, 0x18, 0x0D]) = Ret (ok, st, w') \<and>
      same_outside {0x5000..<0x5000 + 16} (example_tail [0x04, 0x10, 0x01, 0x18, 0x0D]) w' \<and>
      bytes_left st = 95 \<and> 0x7FFC \<le> istate st \<and> istate st \<le> 0x8000 \<and> (ok \<longrightarrow> istate st = 0x8000)"
proof -
  let ?bs = "[0x04, 0x10, 0x01, 0x18, 0x0D] :: u8 list"
  have prefix: "pb_decode_varint32 example_env (pb_istream_from_buffer 0x7FFB 100) (example_tail ?bs) =
      Ret (True, 4, \<lparr>icallback = Buf_read, istate = 0x7FFC, bytes_left = 99, ierrmsg = None\<rparr>, example_tail ?bs)"
    by (simp add: pb_decode_varint32_def pb_decode_varint32_eof_def pb_readbyte_def istream_call_def buf_read_def
        pb_istream_from_buffer_def example_tail_def load_bytes_def load_byte_def upd_bytes_def)
  have len: "length ?bs \<le> 0x100" by simp
  have m: "mapped (example_tail ?bs) 0x5000 16" "mapped (example_tail ?bs) 0x7FFB 5"
    using len by (auto intro: example_tail_mapped)
  show ?thesis
    using pb_decode_delimited_static_safe [OF QosTierConfiguration_static [OF example_loaded, unfolded example_symbs]
        example_tail_consts [OF len] m(1) example_tail_stack [OF len] _ insertI1 prefix, of 113] m(2)
    by simp
qed

end
