(* ===== verification/Base64.thy ===== *)
theory Base64
  imports Prelude
begin

text \<open>
  \<open>f_b64_ntop\<close> and \<open>f_b64_pton\<close> of \<open>fbase64.c\<close>. A C string is the list of its bytes without the
  terminator. The target buffer of the encoder is represented by the bytes written to it so far;
  the target of the decoder, which may be \<open>NULL\<close>, by its whole contents. The theorems show
  that the encoder writes the text that RFC 1521 describes (\<open>rfc_base64\<close>), and that the decoder stays inside the
  buffer, inverts the encoder, and accepts nothing but such texts (up to white space).
\<close>

section \<open>The alphabet\<close>

definition Base64_chars :: "u8 list" where
  "Base64_chars =
     map of_char ''ABCDEFGHIJKLMNOPQRSTUVWXYZabcdefghijklmnopqrstuvwxyz0123456789+/''"

definition Pad64 :: u8 where "Pad64 = 0x3D"

definition b64_char :: "u8 \<Rightarrow> u8" where
  "b64_char v = Base64_chars ! unat v"

text \<open>\<open>strchr (Base64, ch) - Base64\<close>, for a character other than the terminator.\<close>

definition b64_index :: "u8 \<Rightarrow> u8 option" where
  "b64_index ch = map_option of_nat (find (\<lambda>i. Base64_chars ! i = ch) [0..<64])"

section \<open>Encoding\<close>

definition out0 :: "u8 \<Rightarrow> u8" where "out0 a = drop_bit 2 a"
definition out1 :: "u8 \<Rightarrow> u8 \<Rightarrow> u8" where "out1 a b = push_bit 4 (a AND 0x03) + drop_bit 4 b"
definition out2 :: "u8 \<Rightarrow> u8 \<Rightarrow> u8" where "out2 b c = push_bit 2 (b AND 0x0F) + drop_bit 6 c"
definition out3 :: "u8 \<Rightarrow> u8" where "out3 c = c AND 0x3F"

text \<open>The \<open>while\<close> loop: what is left of the source (\<open>None\<close> when the target is too small), and the
  bytes written.\<close>

fun ntop_loop :: "u8 list \<Rightarrow> nat \<Rightarrow> u8 list \<Rightarrow> u8 list option \<times> u8 list" where
  "ntop_loop (a # b # c # src) targsize target =
     (if targsize < length target + 4 then (None, target)
      else ntop_loop src targsize
        (target @ [b64_char (out0 a), b64_char (out1 a b), b64_char (out2 b c), b64_char (out3 c)]))"
| "ntop_loop src targsize target = (Some src, target)"

text \<open>The code after the loop: the padding, for what is left of the source, and the terminator. The
  return value and the bytes written.\<close>

definition ntop_finish :: "u8 list \<Rightarrow> nat \<Rightarrow> u8 list \<Rightarrow> int \<times> u8 list" where
  "ntop_finish rest targsize target =
     (let a = (if 0 < length rest then rest ! 0 else 0);
          b = (if 1 < length rest then rest ! 1 else 0);
          finish = (\<lambda>target.
            if targsize \<le> length target then (- 1, target)
            else (sint (of_nat (length target) :: u32), target @ [0]))
      in if rest = [] then finish target
         else if targsize < length target + 4 then (- 1, target)
         else finish (target @
           [b64_char (out0 a), b64_char (out1 a b),
            if length rest = 1 then Pad64 else b64_char (out2 b 0), Pad64]))"

definition f_b64_ntop :: "u8 list \<Rightarrow> nat \<Rightarrow> int \<times> u8 list" where
  "f_b64_ntop src targsize =
     (case ntop_loop src targsize [] of
        (None, target) \<Rightarrow> (- 1, target)
      | (Some rest, target) \<Rightarrow> ntop_finish rest targsize target)"

section \<open>Decoding\<close>

text \<open>\<open>isspace\<close> in the C locale. Its argument is the \<open>char\<close>, which is signed; a negative value other
  than \<open>EOF\<close> (-1) is not in the domain of the function.\<close>

definition c_isspace :: "u8 \<Rightarrow> bool res" where
  "c_isspace ch =
     (if 0x80 \<le> ch \<and> ch \<noteq> 0xFF then Undef else Ret ((9 \<le> ch \<and> ch \<le> 13) \<or> ch = 32))"

definition get_target :: "u8 list \<Rightarrow> u32 \<Rightarrow> u8 res" where
  "get_target t i = (if unat i < length t then Ret (t ! unat i) else Undef)"

definition put_target :: "u8 list \<Rightarrow> u32 \<Rightarrow> u8 \<Rightarrow> u8 list res" where
  "put_target t i v = (if unat i < length t then Ret (t[unat i := v]) else Undef)"

definition or_target :: "u8 list \<Rightarrow> u32 \<Rightarrow> u8 \<Rightarrow> u8 list res" where
  "or_target t i v = res_bind (get_target t i) (\<lambda>old. put_target t i (old OR v))"

text \<open>The \<open>switch\<close>, for the digit \<open>v\<close>: success, \<open>state\<close>, \<open>tarindex\<close> and the target.\<close>

definition pton_digit ::
  "u64 \<Rightarrow> nat \<Rightarrow> u32 \<Rightarrow> u8 list option \<Rightarrow> u8 \<Rightarrow> (bool \<times> nat \<times> u32 \<times> u8 list option) res" where
  "pton_digit targsize state tarindex target v =
     (case target of
        None \<Rightarrow>
          Ret (True, (state + 1) mod 4, if state = 0 then tarindex else tarindex + 1, None)
      | Some t \<Rightarrow>
          if state = 0 then
            (if targsize \<le> ucast tarindex then Ret (False, state, tarindex, target)
             else res_bind (put_target t tarindex (push_bit 2 v)) (\<lambda>t.
               Ret (True, 1, tarindex, Some t)))
          else if state = 1 then
            (if targsize \<le> ucast (tarindex + 1) then Ret (False, state, tarindex, target)
             else res_bind (or_target t tarindex (drop_bit 4 v)) (\<lambda>t.
               res_bind (put_target t (tarindex + 1) (push_bit 4 (v AND 0x0F))) (\<lambda>t.
               Ret (True, 2, tarindex + 1, Some t))))
          else if state = 2 then
            (if targsize \<le> ucast (tarindex + 1) then Ret (False, state, tarindex, target)
             else res_bind (or_target t tarindex (drop_bit 2 v)) (\<lambda>t.
               res_bind (put_target t (tarindex + 1) (push_bit 6 (v AND 0x03))) (\<lambda>t.
               Ret (True, 3, tarindex + 1, Some t))))
          else
            (if targsize \<le> ucast tarindex then Ret (False, state, tarindex, target)
             else res_bind (or_target t tarindex v) (\<lambda>t. Ret (True, 0, tarindex + 1, Some t))))"

text \<open>The \<open>while\<close> loop: success, the character it ended at (0 or the padding), the string after that
  character, \<open>state\<close>, \<open>tarindex\<close> and the target.\<close>

fun pton_loop :: "u64 \<Rightarrow> u8 list \<Rightarrow> nat \<Rightarrow> u32 \<Rightarrow> u8 list option \<Rightarrow>
    (bool \<times> u8 \<times> u8 list \<times> nat \<times> u32 \<times> u8 list option) res" where
  "pton_loop targsize [] state tarindex target = Ret (True, 0, [], state, tarindex, target)"
| "pton_loop targsize (ch # src) state tarindex target =
     (if ch = 0 then Ret (True, 0, [], state, tarindex, target)
      else res_bind (c_isspace ch) (\<lambda>space.
        if space then pton_loop targsize src state tarindex target
        else if ch = Pad64 then Ret (True, ch, src, state, tarindex, target)
        else case b64_index ch of
          None \<Rightarrow> Ret (False, ch, src, state, tarindex, target)
        | Some v \<Rightarrow>
            res_bind (pton_digit targsize state tarindex target v)
              (\<lambda>(ok, state, tarindex, target).
              if \<not> ok then Ret (False, ch, src, state, tarindex, target)
              else pton_loop targsize src state tarindex target)))"

text \<open>The two \<open>for\<close> loops after the padding character, on the string that starts with \<open>ch\<close>.\<close>

fun skip_spaces :: "u8 list \<Rightarrow> u8 list res" where
  "skip_spaces [] = Ret []"
| "skip_spaces (ch # src) =
     (if ch = 0 then Ret []
      else res_bind (c_isspace ch) (\<lambda>space. if space then skip_spaces src else Ret (ch # src)))"

fun only_spaces :: "u8 list \<Rightarrow> bool res" where
  "only_spaces [] = Ret True"
| "only_spaces (ch # src) =
     (if ch = 0 then Ret True
      else res_bind (c_isspace ch) (\<lambda>space. if space then only_spaces src else Ret False))"

text \<open>The \<open>case 3\<close> part of the end, which \<open>case 2\<close> falls into.\<close>

definition pton_end :: "u8 list \<Rightarrow> u32 \<Rightarrow> u8 list option \<Rightarrow> (int \<times> u8 list option) res" where
  "pton_end src tarindex target =
     res_bind (only_spaces src) (\<lambda>ok.
     if \<not> ok then Ret (- 1, target)
     else case target of
            None \<Rightarrow> Ret (sint tarindex, target)
          | Some t \<Rightarrow> res_bind (get_target t tarindex) (\<lambda>b.
              Ret (if b \<noteq> 0 then - 1 else sint tarindex, target)))"

text \<open>The code after the loop.\<close>

definition pton_finish ::
  "bool \<times> u8 \<times> u8 list \<times> nat \<times> u32 \<times> u8 list option \<Rightarrow> (int \<times> u8 list option) res" where
  "pton_finish = (\<lambda>(ok, ch, src, state, tarindex, target).
     if \<not> ok then Ret (- 1, target)
     else if ch = Pad64
     then (if state = 0 \<or> state = 1 then Ret (- 1, target)
           else if state = 2
           then res_bind (skip_spaces src) (\<lambda>src.
             if src = [] \<or> hd src \<noteq> Pad64 then Ret (- 1, target)
             else pton_end (tl src) tarindex target)
           else pton_end src tarindex target)
     else if state \<noteq> 0 then Ret (- 1, target)
     else Ret (sint tarindex, target))"

definition f_b64_pton :: "u8 list \<Rightarrow> u8 list option \<Rightarrow> u64 \<Rightarrow> (int \<times> u8 list option) res" where
  "f_b64_pton src target targsize =
     res_bind (pton_loop targsize src 0 0 target) pton_finish"

section \<open>The encoder in closed form\<close>

fun b64_enc :: "u8 list \<Rightarrow> u8 list" where
  "b64_enc [] = []"
| "b64_enc [a] = [b64_char (out0 a), b64_char (out1 a 0), Pad64, Pad64]"
| "b64_enc [a, b] = [b64_char (out0 a), b64_char (out1 a b), b64_char (out2 b 0), Pad64]"
| "b64_enc (a # b # c # src) =
     [b64_char (out0 a), b64_char (out1 a b), b64_char (out2 b c), b64_char (out3 c)] @ b64_enc src"

lemma length_b64_enc: "length (b64_enc src) = 4 * ((length src + 2) div 3)"
proof (induction src rule: b64_enc.induct)
  case (4 a b c src)
  have "(5 + length src) div 3 = Suc ((length src + 2) div 3)" by linarith
  with 4 show ?case by (simp add: add.commute)
qed auto

lemma ntop_loop_finish:
  assumes "length target \<le> targsize"
  shows "(case ntop_loop src targsize target of
        (None, target) \<Rightarrow> (- 1, target)
      | (Some rest, target) \<Rightarrow> ntop_finish rest targsize target) = r \<Longrightarrow>
    (length target + length (b64_enc src) < targsize \<longrightarrow>
       r = (sint (of_nat (length target + length (b64_enc src)) :: u32), target @ b64_enc src @ [0])) \<and>
    (targsize \<le> length target + length (b64_enc src) \<longrightarrow> fst r = - 1 \<and> length (snd r) \<le> targsize)"
  using assms
proof (induction src targsize target arbitrary: r rule: ntop_loop.induct)
  case (1 a b c src targsize target)
  let ?g = "[b64_char (out0 a), b64_char (out1 a b), b64_char (out2 b c), b64_char (out3 c)]"
  show ?case
  proof (cases "targsize < length target + 4")
    case True
    with 1(2,3) show ?thesis by auto
  next
    case False
    from False 1(2) have "(case ntop_loop src targsize (target @ ?g) of
        (None, target) \<Rightarrow> (- 1, target)
      | (Some rest, target) \<Rightarrow> ntop_finish rest targsize target) = r" by simp
    from 1(1) [OF False this] False show ?thesis by (simp add: add.assoc)
  qed
qed (auto simp: ntop_finish_def Let_def)

lemma f_b64_ntop_fits:
  "length (b64_enc src) < targsize \<Longrightarrow>
   f_b64_ntop src targsize = (sint (of_nat (length (b64_enc src)) :: u32), b64_enc src @ [0])"
  using ntop_loop_finish [of "[]" targsize src "f_b64_ntop src targsize"]
  by (simp add: f_b64_ntop_def)

lemma f_b64_ntop_small:
  "targsize \<le> length (b64_enc src) \<Longrightarrow>
   fst (f_b64_ntop src targsize) = - 1 \<and> length (snd (f_b64_ntop src targsize)) \<le> targsize"
  using ntop_loop_finish [of "[]" targsize src "f_b64_ntop src targsize"]
  by (simp add: f_b64_ntop_def)

section \<open>The alphabet is one\<close>

lemma length_Base64_chars [simp]: "length Base64_chars = 64"
  by (simp add: Base64_chars_def)

lemma distinct_Base64_chars: "distinct Base64_chars"
  by (simp add: Base64_chars_def)

text \<open>No character of the alphabet is the terminator, white space, the padding or negative.\<close>

lemma Base64_chars_plain:
  "list_all (\<lambda>c. c \<noteq> 0 \<and> c_isspace c = Ret False \<and> c \<noteq> Pad64) Base64_chars"
  by (simp add: Base64_chars_def c_isspace_def Pad64_def)

lemma b64_char_in: "v < 64 \<Longrightarrow> b64_char v \<in> set Base64_chars"
  by (simp add: b64_char_def word_less_nat_alt)

lemma b64_char_plain:
  assumes "v < 64"
  shows "b64_char v \<noteq> 0" and "c_isspace (b64_char v) = Ret False" and "b64_char v \<noteq> Pad64"
  using Base64_chars_plain b64_char_in [OF assms] by (auto simp: list_all_iff)

lemma b64_index_char:
  assumes "v < 64"
  shows "b64_index (b64_char v) = Some v"
proof -
  have v: "unat v < 64" using assms by (simp add: word_less_nat_alt)
  have "find (\<lambda>i. Base64_chars ! i = Base64_chars ! unat v) [0..<64] = Some (unat v)"
    unfolding find_Some_iff
    using v distinct_Base64_chars
    by (intro exI [of _ "unat v"]) (auto simp: nth_eq_iff_index_eq)
  then show ?thesis by (simp add: b64_index_def b64_char_def)
qed

lemma b64_index_Some:
  assumes "b64_index ch = Some v"
  shows "v < 64" and "ch = b64_char v"
proof -
  from assms obtain i where i: "i < 64" "Base64_chars ! i = ch" "v = of_nat i"
    by (auto simp: b64_index_def find_Some_iff)
  then have "unat v = i" by (simp add: unat_of_nat)
  with i show "v < 64" and "ch = b64_char v"
    by (auto simp: b64_char_def word_less_nat_alt)
qed

section \<open>The decoder stays inside the buffer\<close>

definition target_ok :: "u64 \<Rightarrow> u8 list option \<Rightarrow> bool" where
  "target_ok targsize target \<longleftrightarrow> (case target of None \<Rightarrow> True | Some t \<Rightarrow> unat targsize \<le> length t)"

definition same_beyond :: "u64 \<Rightarrow> u8 list option \<Rightarrow> u8 list option \<Rightarrow> bool" where
  "same_beyond targsize target target' \<longleftrightarrow>
     (case target of
        None \<Rightarrow> target' = None
      | Some t \<Rightarrow> (\<exists>t'. target' = Some t' \<and> length t' = length t \<and>
                       drop (unat targsize) t' = drop (unat targsize) t))"

definition pton_inv :: "u64 \<Rightarrow> nat \<Rightarrow> u32 \<Rightarrow> u8 list option \<Rightarrow> bool" where
  "pton_inv targsize state tarindex target \<longleftrightarrow>
     target_ok targsize target \<and> state < 4 \<and>
     (target \<noteq> None \<longrightarrow> unat tarindex + (if state = 0 then 0 else 1) \<le> unat targsize)"

lemma same_beyond_refl [simp]: "same_beyond targsize target target"
  by (simp add: same_beyond_def split: option.split)

lemma same_beyond_trans:
  "same_beyond targsize a b \<Longrightarrow> same_beyond targsize b c \<Longrightarrow> same_beyond targsize a c"
  by (auto simp: same_beyond_def split: option.splits)

lemma target_ok_beyond: "same_beyond targsize a b \<Longrightarrow> target_ok targsize a \<Longrightarrow> target_ok targsize b"
  by (auto simp: same_beyond_def target_ok_def split: option.splits)

lemma not_le_ucast: "\<not> n \<le> ucast (i :: u32) \<longleftrightarrow> unat i < unat (n :: u64)"
  by (simp add: word_le_nat_alt not_le)

lemma pton_digit_inv:
  assumes "pton_inv targsize state tarindex target"
  shows "wp (pton_digit targsize state tarindex target v) (\<lambda>(ok, state', tarindex', target').
     same_beyond targsize target target' \<and> (ok \<longrightarrow> pton_inv targsize state' tarindex' target'))"
proof (cases target)
  case None
  with assms show ?thesis
    by (simp add: pton_digit_def pton_inv_def target_ok_def)
next
  case (Some t)
  have len: "unat targsize \<le> length t" and st: "state < 4"
    and idx: "state \<noteq> 0 \<Longrightarrow> unat tarindex < unat targsize"
    using assms Some by (auto simp: pton_inv_def target_ok_def)
  have wrap: "unat (tarindex + 1) \<le> Suc (unat tarindex)"
    by (auto simp: unat_plus_if')
  note defs = pton_digit_def or_target_def get_target_def put_target_def pton_inv_def target_ok_def
    same_beyond_def not_le_ucast wp_simps
  consider "state = 0" | "state = 1" | "state = 2" | "state = 3" using st by linarith
  then show ?thesis
  proof cases
    case 1
    then show ?thesis using Some len
      using wrap by (cases "unat tarindex < unat targsize") (auto simp: defs)
  next
    case 2
    then show ?thesis using Some len idx
      by (cases "unat (tarindex + 1) < unat targsize") (auto simp: defs)
  next
    case 3
    then show ?thesis using Some len idx
      by (cases "unat (tarindex + 1) < unat targsize") (auto simp: defs)
  next
    case 4
    then show ?thesis using Some len idx
      using wrap by (cases "unat tarindex < unat targsize") (auto simp: defs)
  qed
qed

lemma c_isspace_ascii: "ch < 128 \<Longrightarrow> \<exists>b. c_isspace ch = Ret b"
  by (auto simp: c_isspace_def not_le [symmetric])

lemma pton_loop_inv:
  assumes "pton_inv targsize state tarindex target" and "\<forall>c \<in> set src. c < 128"
  shows "wp (pton_loop targsize src state tarindex target)
     (\<lambda>(ok, ch, src', state', tarindex', target').
        same_beyond targsize target target' \<and> set src' \<subseteq> set src \<and>
        (ok \<longrightarrow> pton_inv targsize state' tarindex' target'))"
  using assms
proof (induction src arbitrary: state tarindex target)
  case Nil
  then show ?case by simp
next
  case (Cons ch src)
  obtain b where b: "c_isspace ch = Ret b"
    using c_isspace_ascii [of ch] Cons.prems(2) by auto
  have rest: "\<forall>c \<in> set src. c < 128" using Cons.prems(2) by simp
  consider "ch = 0 \<or> ch = Pad64 \<and> \<not> b" | "ch \<noteq> 0" "b" | "ch \<noteq> 0" "\<not> b" "ch \<noteq> Pad64" by blast
  then show ?case
  proof cases
    case 1
    then show ?thesis using Cons.prems(1) b by (auto simp: wp_simps)
  next
    case 2
    with b Cons.IH [OF Cons.prems(1) rest] show ?thesis
      by (auto simp: elim!: wp_mono)
  next
    case 3
    show ?thesis
    proof (cases "b64_index ch")
      case None
      with 3 b show ?thesis by auto
    next
      case (Some v)
      from pton_digit_inv [OF Cons.prems(1), of v]
      have "wp (pton_digit targsize state tarindex target v) (\<lambda>(ok, state', tarindex', target').
          wp (if \<not> ok then Ret (False, ch, src, state', tarindex', target')
              else pton_loop targsize src state' tarindex' target')
            (\<lambda>(ok, ch', src', state', tarindex', target').
              same_beyond targsize target target' \<and> set src' \<subseteq> set (ch # src) \<and>
              (ok \<longrightarrow> pton_inv targsize state' tarindex' target')))"
      proof (rule wp_mono, clarify)
        fix ok state' tarindex' target'
        assume s: "same_beyond targsize target target'"
          and inv: "ok \<longrightarrow> pton_inv targsize state' tarindex' target'"
        show "wp (if \<not> ok then Ret (False, ch, src, state', tarindex', target')
              else pton_loop targsize src state' tarindex' target')
            (\<lambda>(ok, ch', src', state', tarindex', target').
              same_beyond targsize target target' \<and> set src' \<subseteq> set (ch # src) \<and>
              (ok \<longrightarrow> pton_inv targsize state' tarindex' target'))"
        proof (cases ok)
          case True
          then have "pton_inv targsize state' tarindex' target'" using inv by simp
          from Cons.IH [OF this rest] True s show ?thesis
            by (auto elim!: wp_mono intro: same_beyond_trans)
        next
          case False
          with s show ?thesis by auto
        qed
      qed
      with 3 b Some show ?thesis
        by (simp add: wp_simps case_prod_beta')
    qed
  qed
qed

lemma skip_spaces_ascii:
  "\<forall>c \<in> set src. c < 128 \<Longrightarrow> wp (skip_spaces src) (\<lambda>src'. set src' \<subseteq> set src)"
proof (induction src)
  case (Cons ch src)
  then obtain b where "c_isspace ch = Ret b" using c_isspace_ascii [of ch] by auto
  with Cons show ?case by (auto elim!: wp_mono)
qed simp

lemma only_spaces_ascii: "\<forall>c \<in> set src. c < 128 \<Longrightarrow> wp (only_spaces src) (\<lambda>_. True)"
proof (induction src)
  case (Cons ch src)
  then obtain b where "c_isspace ch = Ret b" using c_isspace_ascii [of ch] by auto
  with Cons show ?case by (auto elim!: wp_mono)
qed simp

lemma pton_end_safe:
  assumes "pton_inv targsize state tarindex target" and "state \<noteq> 0" and "\<forall>c \<in> set src. c < 128"
  shows "wp (pton_end src tarindex target) (\<lambda>(r, target').
     target' = target \<and> (r = - 1 \<or> r = sint tarindex))"
proof -
  have "wp (only_spaces src) (\<lambda>_. True)" by (rule only_spaces_ascii) (rule assms(3))
  then obtain b where "only_spaces src = Ret b" by (auto simp: wp_Ret_iff)
  with assms(1,2) show ?thesis
    by (auto simp: pton_end_def pton_inv_def target_ok_def get_target_def split: option.split)
qed

lemma pton_finish_safe:
  assumes "ok \<longrightarrow> pton_inv targsize state tarindex target" and "\<forall>c \<in> set src. c < 128"
  shows "wp (pton_finish (ok, ch, src, state, tarindex, target)) (\<lambda>(r, target').
     target' = target \<and> (r = - 1 \<or> r = sint tarindex))"
proof -
  have tail: "wp (pton_end s tarindex target) (\<lambda>(r, target').
      target' = target \<and> (r = - 1 \<or> r = sint tarindex))" if "set s \<subseteq> set src" "ok" "state \<noteq> 0" for s
    using assms that by (intro pton_end_safe) auto
  obtain s where s: "skip_spaces src = Ret s" "set s \<subseteq> set src"
    using skip_spaces_ascii [OF assms(2)] by (auto simp: wp_Ret_iff)
  have tl: "set (tl s) \<subseteq> set src" if "s \<noteq> []"
    using s(2) that by (auto dest: list.set_sel(2))
  show ?thesis
    using s tl tail [of src] tail [of "tl s"] by (simp add: pton_finish_def)
qed

definition pton_result_ok :: "u64 \<Rightarrow> u8 list option \<Rightarrow> int \<times> u8 list option \<Rightarrow> bool" where
  "pton_result_ok targsize target = (\<lambda>(r, target').
     same_beyond targsize target target' \<and>
     (target \<noteq> None \<and> unat targsize < 2 ^ 31 \<longrightarrow> - 1 \<le> r \<and> r \<le> uint targsize))"

lemma f_b64_pton_safe_wp:
  assumes "\<forall>c \<in> set src. c < 128" and "target_ok targsize target"
  shows "wp (f_b64_pton src target targsize) (pton_result_ok targsize target)"
proof -
  have "pton_inv targsize 0 0 target" using assms(2) by (simp add: pton_inv_def)
  from pton_loop_inv [OF this assms(1)]
  show ?thesis
    unfolding f_b64_pton_def wp_simps
  proof (rule wp_mono, clarify)
    fix ok ch src' state tarindex target'
    assume s: "same_beyond targsize target target'" and sub: "set src' \<subseteq> set src"
      and inv: "ok \<longrightarrow> pton_inv targsize state tarindex target'"
    have ascii: "\<forall>c \<in> set src'. c < 128" using sub assms(1) by auto
    show "wp (pton_finish (ok, ch, src', state, tarindex, target')) (pton_result_ok targsize target)"
    proof (cases ok)
      case True
      have "- 1 \<le> sint tarindex \<and> sint tarindex \<le> uint targsize"
        if "target \<noteq> None" "unat targsize < 2 ^ 31"
      proof -
        have le: "unat tarindex \<le> unat targsize"
          using inv True that(1) s
          by (auto simp: pton_inv_def same_beyond_def split: option.splits if_splits)
        then have "unat tarindex < 2 ^ 31" using that(2) by (rule le_less_trans)
        with le show ?thesis
          unfolding uint_nat_unat by (simp only: sint_u32_small) linarith
      qed
      with pton_finish_safe [OF inv ascii, of ch] s show ?thesis
        by (auto simp: pton_result_ok_def elim!: wp_mono)
    next
      case False
      moreover have "- 1 \<le> uint targsize" by (rule order_trans [of _ 0]) simp_all
      ultimately show ?thesis using s by (simp add: pton_finish_def pton_result_ok_def)
    qed
  qed
qed

section \<open>Six-bit groups and bytes\<close>

lemma mask_u8:
  "(v :: u8) AND 0x03 = take_bit 2 v" "v AND 0x0F = take_bit 4 v" "v AND 0x3F = take_bit 6 v"
  by (simp_all add: take_bit_eq_mask mask_eq_exp_minus_1)

lemma out1_or: "out1 a b = push_bit 4 (take_bit 2 a) OR drop_bit 4 b"
  unfolding out1_def mask_u8 by (rule disjunctive_add) (auto simp: u8_bits)

lemma out2_or: "out2 b c = push_bit 2 (take_bit 4 b) OR drop_bit 6 c"
  unfolding out2_def mask_u8
proof (rule disjunctive_add)
  fix n
  show "\<not> bit (push_bit 2 (take_bit 4 b)) n \<or> \<not> bit (drop_bit 6 c) n"
    by (cases "2 \<le> n") (simp_all add: u8_bits)
qed

lemma out3_take: "out3 c = take_bit 6 c"
  unfolding out3_def mask_u8 ..

lemmas out_bits = out0_def out1_or out2_or out3_take mask_u8

lemma less_64_bits: "(v :: u8) < 64 \<longleftrightarrow> \<not> bit v 6 \<and> \<not> bit v 7"
proof -
  have "v < 64 \<longleftrightarrow> unat v < 2 ^ 6" by (simp add: word_less_nat_alt)
  also have "\<dots> \<longleftrightarrow> take_bit 6 (unat v) = unat v" by (rule take_bit_nat_eq_self_iff [symmetric])
  also have "\<dots> \<longleftrightarrow> take_bit 6 v = v" by (simp add: word_unat_eq_iff unsigned_take_bit_eq)
  also have "\<dots> \<longleftrightarrow> \<not> bit v 6 \<and> \<not> bit v 7"
  proof
    assume t: "take_bit 6 v = v"
    show "\<not> bit v 6 \<and> \<not> bit v 7"
      by (subst (1 2) t [symmetric]) (simp add: u8_bits)
  next
    assume "\<not> bit v 6 \<and> \<not> bit v 7"
    then show "take_bit 6 v = v" by (intro u8_bit_eqI) (simp_all add: u8_bits)
  qed
  finally show ?thesis .
qed

lemma out_less [simp]: "out0 a < 64" "out1 a b < 64" "out2 b c < 64" "out3 c < 64"
  by (simp_all add: less_64_bits out_bits u8_bits)

text \<open>The three bytes the decoder puts together are those the encoder took apart.\<close>

lemma join_groups:
  "push_bit 2 (out0 a) OR drop_bit 4 (out1 a b) = a"
  "push_bit 4 (out1 a b AND 0x0F) OR drop_bit 2 (out2 b c) = b"
  "push_bit 6 (out2 b c AND 0x03) OR out3 c = c"
  unfolding out_bits by (rule u8_bit_eqI; simp add: u8_bits)+

lemma last_group_zero:
  "push_bit 4 (out1 a 0 AND 0x0F) = 0" "push_bit 6 (out2 b 0 AND 0x03) = 0"
  unfolding out_bits by (rule u8_bit_eqI; simp add: u8_bits)+

text \<open>And the other way round.\<close>

lemma split_groups:
  assumes "d0 < 64" "d1 < 64" "d2 < 64" "d3 < 64"
  shows "out0 (push_bit 2 d0 OR drop_bit 4 d1) = d0"
    and "out1 (push_bit 2 d0 OR drop_bit 4 d1) (push_bit 4 (d1 AND 0x0F) OR drop_bit 2 d2) = d1"
    and "out2 (push_bit 4 (d1 AND 0x0F) OR drop_bit 2 d2) (push_bit 6 (d2 AND 0x03) OR d3) = d2"
    and "out3 (push_bit 6 (d2 AND 0x03) OR d3) = d3"
  using assms unfolding out_bits less_64_bits
  by (auto intro!: u8_bit_eqI simp: u8_bits)

section \<open>Base-64 text, as RFC 1521 describes it\<close>

text \<open>The bits of the source, most significant first, are cut into groups of six, the last one filled up with zeros.
  Every group, read as a number, is a character: a letter, a digit, \<open>+\<close> or \<open>/\<close>. The text is filled up with \<open>=\<close> to a
  multiple of four characters. This is independent of the encoder.\<close>

definition octet_bits :: "u8 \<Rightarrow> bool list" where
  "octet_bits b = map (bit b) [7, 6, 5, 4, 3, 2, 1, 0]"

fun six_bits :: "bool list \<Rightarrow> bool list list" where
  "six_bits [] = []"
| "six_bits (b # bs) =
     (if length bs < 5 then [b # bs @ replicate (5 - length bs) False]
      else (b # take 5 bs) # six_bits (drop 5 bs))"

definition bits_number :: "bool list \<Rightarrow> nat" where
  "bits_number = foldl (\<lambda>n b. 2 * n + of_bool b) 0"

definition rfc_char :: "nat \<Rightarrow> u8" where
  "rfc_char n =
     (if n < 26 then of_char CHR ''A'' + of_nat n
      else if n < 52 then of_char CHR ''a'' + of_nat (n - 26)
      else if n < 62 then of_char CHR ''0'' + of_nat (n - 52)
      else if n = 62 then of_char CHR ''+'' else of_char CHR ''/'')"

definition rfc_base64 :: "u8 list \<Rightarrow> u8 list" where
  "rfc_base64 src =
     (let text = map (rfc_char \<circ> bits_number) (six_bits (concat (map octet_bits src)))
      in text @ replicate ((4 - length text mod 4) mod 4) (of_char CHR ''=''))"

text \<open>The encoder's characters and groups are those of this description.\<close>

lemma Base64_chars_rfc: "Base64_chars = map rfc_char [0..<64]"
  by code_simp

lemma b64_char_rfc: "v < 64 \<Longrightarrow> rfc_char (unat v) = b64_char v"
  by (simp add: b64_char_def Base64_chars_rfc word_less_nat_alt)

lemma bits_number_six:
  assumes "v < 64"
  shows "bits_number (map (bit v) [5, 4, 3, 2, 1, 0]) = unat (v :: u8)"
proof -
  have "list_all (\<lambda>n. bits_number (map (bit (of_nat n :: u8)) [5, 4, 3, 2, 1, 0]) = n) [0..<64]" by code_simp
  moreover have "unat v < 64" using assms by (simp add: word_less_nat_alt)
  ultimately have "bits_number (map (bit (of_nat (unat v) :: u8)) [5, 4, 3, 2, 1, 0]) = unat v"
    unfolding list_all_iff by (metis (no_types) atLeastLessThan_iff atLeastLessThan_upt le0)
  then show ?thesis by simp
qed

lemma group_char:
  assumes "v < 64" "bs = map (bit v) [5, 4, 3, 2, 1, 0]"
  shows "rfc_char (bits_number bs) = b64_char v"
  using assms bits_number_six b64_char_rfc by simp

lemma group_bits:
  "[bit a 7, bit a 6, bit a 5, bit a 4, bit a 3, bit a 2] = map (bit (out0 a)) [5, 4, 3, 2, 1, 0]"
  "[bit a 1, bit a 0, bit b 7, bit b 6, bit b 5, bit b 4] = map (bit (out1 a b)) [5, 4, 3, 2, 1, 0]"
  "[bit b 3, bit b 2, bit b 1, bit b 0, bit c 7, bit c 6] = map (bit (out2 b c)) [5, 4, 3, 2, 1, 0]"
  "[bit c 5, bit c 4, bit c 3, bit c 2, bit c 1, bit c 0] = map (bit (out3 c)) [5, 4, 3, 2, 1, 0]"
  by (simp_all add: out_bits u8_bits)

lemma length_six_bits: "length (six_bits bs) = (length bs + 5) div 6"
proof (induction bs rule: six_bits.induct)
  case (2 b bs)
  show ?case
  proof (cases "length bs < 5")
    case True
    then show ?thesis by (auto simp: div_eq_dividend_iff intro!: div_nat_eqI)
  next
    case False
    then have "length (six_bits (b # bs)) = Suc ((length bs - 5 + 5) div 6)" using 2 by simp
    also have "\<dots> = (length bs + 6) div 6" using False by simp
    finally show ?thesis by simp
  qed
qed simp

lemma replicate_few:
  "replicate 2 x = [x, x]" "replicate 4 x = [x, x, x, x]"
  by (simp_all add: numeral_eq_Suc)

lemma b64_enc_rfc: "b64_enc src = rfc_base64 src"
proof (induction src rule: b64_enc.induct)
  case (2 a)
  have z: "[bit a 1, bit a 0, False, False, False, False] = map (bit (out1 a 0)) [5, 4, 3, 2, 1, 0]"
    using group_bits(2) [of a 0] by simp
  have "six_bits (concat (map octet_bits [a])) =
      [map (bit (out0 a)) [5, 4, 3, 2, 1, 0], map (bit (out1 a 0)) [5, 4, 3, 2, 1, 0]]"
    unfolding group_bits(1) [symmetric] z [symmetric] by (simp add: octet_bits_def replicate_few)
  then show ?case
    using group_char [OF _ refl] by (simp add: rfc_base64_def Pad64_def Let_def replicate_few)
next
  case (3 a b)
  have z: "[bit b 3, bit b 2, bit b 1, bit b 0, False, False] = map (bit (out2 b 0)) [5, 4, 3, 2, 1, 0]"
    using group_bits(3) [of b 0] by simp
  have "six_bits (concat (map octet_bits [a, b])) =
      [map (bit (out0 a)) [5, 4, 3, 2, 1, 0], map (bit (out1 a b)) [5, 4, 3, 2, 1, 0], map (bit (out2 b 0)) [5, 4, 3, 2, 1, 0]]"
    unfolding group_bits(1,2) [symmetric] z [symmetric] by (simp add: octet_bits_def replicate_few)
  then show ?case
    using group_char [OF _ refl] by (simp add: rfc_base64_def Pad64_def Let_def replicate_few)
next
  case (4 a b c src)
  have "six_bits (concat (map octet_bits (a # b # c # src))) =
      map (bit (out0 a)) [5, 4, 3, 2, 1, 0] # map (bit (out1 a b)) [5, 4, 3, 2, 1, 0] #
      map (bit (out2 b c)) [5, 4, 3, 2, 1, 0] # map (bit (out3 c)) [5, 4, 3, 2, 1, 0] #
      six_bits (concat (map octet_bits src))"
    unfolding group_bits [symmetric] by (simp add: octet_bits_def)
  then have "rfc_base64 (a # b # c # src) =
      [b64_char (out0 a), b64_char (out1 a b), b64_char (out2 b c), b64_char (out3 c)] @ rfc_base64 src"
    using group_char [OF _ refl] by (simp add: rfc_base64_def Let_def)
  then show ?case using 4 by simp
qed (simp add: rfc_base64_def)

section \<open>The decoder inverts the encoder\<close>

lemma pton_loop_char:
  "v < 64 \<Longrightarrow> pton_loop targsize (b64_char v # src) state tarindex target =
     res_bind (pton_digit targsize state tarindex target v) (\<lambda>(ok, state, tarindex, target).
       if \<not> ok then Ret (False, b64_char v, src, state, tarindex, target)
       else pton_loop targsize src state tarindex target)"
  by (simp add: b64_char_plain b64_index_char)

definition room :: "u64 \<Rightarrow> nat \<Rightarrow> u8 list \<Rightarrow> bool" where
  "room targsize i t \<longleftrightarrow> i < unat targsize \<and> unat targsize \<le> length t \<and> i < 2 ^ 32"

lemma unat_index: "i < 2 ^ 32 \<Longrightarrow> unat (of_nat i :: u32) = i"
  by (simp add: unat_of_nat)

lemma room_target:
  assumes "room targsize i t"
  shows "\<not> targsize \<le> ucast (of_nat i :: u32)"
    and "put_target t (of_nat i) v = Ret (t[i := v])"
    and "or_target t (of_nat i) v = Ret (t[i := t ! i OR v])"
    and "get_target t (of_nat i) = Ret (t ! i)"
  using assms
  by (simp_all add: room_def not_le_ucast put_target_def or_target_def get_target_def unat_index)

lemma room_update [simp]: "room targsize i (t[j := v]) = room targsize i t"
  by (simp add: room_def)

lemma room_mono: "room targsize j t \<Longrightarrow> i \<le> j \<Longrightarrow> room targsize i t"
  by (simp add: room_def)

lemma pton_digit_0:
  "room targsize i t \<Longrightarrow> pton_digit targsize 0 (of_nat i) (Some t) v =
     Ret (True, 1, of_nat i, Some (t[i := push_bit 2 v]))"
  by (simp add: pton_digit_def room_target)

lemma pton_digit_1:
  assumes "room targsize (i + 1) t"
  shows "pton_digit targsize 1 (of_nat i) (Some t) v =
     Ret (True, 2, of_nat (i + 1),
       Some (t[i := t ! i OR drop_bit 4 v, i + 1 := push_bit 4 (v AND 0x0F)]))"
proof -
  have "(of_nat i :: u32) + 1 = of_nat (i + 1)" by simp
  then show ?thesis
    using assms room_mono [OF assms, of i]
    by (simp only: pton_digit_def) (simp add: room_target del: of_nat_Suc of_nat_add)
qed

lemma pton_digit_2:
  assumes "room targsize (i + 1) t"
  shows "pton_digit targsize 2 (of_nat i) (Some t) v =
     Ret (True, 3, of_nat (i + 1),
       Some (t[i := t ! i OR drop_bit 2 v, i + 1 := push_bit 6 (v AND 0x03)]))"
proof -
  have "(of_nat i :: u32) + 1 = of_nat (i + 1)" by simp
  then show ?thesis
    using assms room_mono [OF assms, of i]
    by (simp only: pton_digit_def) (simp add: room_target del: of_nat_Suc of_nat_add)
qed

lemma pton_digit_3:
  assumes "room targsize i t"
  shows "pton_digit targsize 3 (of_nat i) (Some t) v =
     Ret (True, 0, of_nat (i + 1), Some (t[i := t ! i OR v]))"
  using assms by (simp add: pton_digit_def room_target add.commute)

lemmas pton_digits = pton_digit_0 pton_digit_1 pton_digit_2 pton_digit_3

text \<open>Two, three and four digits from the state 0 on.\<close>

lemma pton_two:
  assumes "d0 < 64" "d1 < 64" and r: "room targsize (i + 1) t"
  shows "pton_loop targsize (b64_char d0 # b64_char d1 # src) 0 (of_nat i) (Some t) =
    pton_loop targsize src 2 (of_nat (i + 1))
      (Some (t[i := push_bit 2 d0 OR drop_bit 4 d1, i + 1 := push_bit 4 (d1 AND 0x0F)]))"
proof -
  have "i < length t" using r by (simp add: room_def)
  then show ?thesis
    using assms room_mono [OF r, of i]
    by (simp add: pton_loop_char pton_digits
        del: pton_loop.simps of_nat_Suc of_nat_add One_nat_def add_Suc_right)
qed

lemma pton_three:
  assumes "d0 < 64" "d1 < 64" "d2 < 64" and r: "room targsize (i + 2) t"
  shows "pton_loop targsize (b64_char d0 # b64_char d1 # b64_char d2 # src) 0 (of_nat i) (Some t) =
    pton_loop targsize src 3 (of_nat (i + 2))
      (Some (t[i := push_bit 2 d0 OR drop_bit 4 d1,
               i + 1 := push_bit 4 (d1 AND 0x0F) OR drop_bit 2 d2,
               i + 2 := push_bit 6 (d2 AND 0x03)]))"
proof -
  have len: "i + 2 < length t" using r by (simp add: room_def)
  have r1: "room targsize (i + 1) t" using r by (rule room_mono) simp
  have r2: "room targsize (i + 1 + 1) t" using r by simp
  have "pton_loop targsize (b64_char d2 # src) 2 (of_nat (i + 1)) (Some t') =
      pton_loop targsize src 3 (of_nat (i + 1 + 1))
        (Some (t'[i + 1 := t' ! (i + 1) OR drop_bit 2 d2, i + 1 + 1 := push_bit 6 (d2 AND 0x03)]))"
    if "room targsize (i + 1 + 1) t'" for t'
    using assms(3) pton_digit_2 [OF that]
    by (simp add: pton_loop_char del: pton_loop.simps of_nat_Suc of_nat_add)
  moreover have "i + 1 + 1 = i + 2" by simp
  ultimately show ?thesis
    using len r r2 pton_two [OF assms(1,2) r1]
    by (simp del: pton_loop.simps of_nat_Suc of_nat_add)
qed

lemma pton_four:
  assumes "d0 < 64" "d1 < 64" "d2 < 64" "d3 < 64" and r: "room targsize (i + 2) t"
  shows "pton_loop targsize (b64_char d0 # b64_char d1 # b64_char d2 # b64_char d3 # src) 0
      (of_nat i) (Some t) =
    pton_loop targsize src 0 (of_nat (i + 3))
      (Some (t[i := push_bit 2 d0 OR drop_bit 4 d1,
               i + 1 := push_bit 4 (d1 AND 0x0F) OR drop_bit 2 d2,
               i + 2 := push_bit 6 (d2 AND 0x03) OR d3]))"
proof -
  have len: "i + 2 < length t" using r by (simp add: room_def)
  have "pton_loop targsize (b64_char d3 # src) 3 (of_nat (i + 2)) (Some t') =
      pton_loop targsize src 0 (of_nat (i + 2 + 1)) (Some (t'[i + 2 := t' ! (i + 2) OR d3]))"
    if "room targsize (i + 2) t'" for t'
    using assms(4) pton_digit_3 [OF that]
    by (simp add: pton_loop_char del: pton_loop.simps of_nat_Suc of_nat_add)
  moreover have "i + 2 + 1 = i + 3" by simp
  ultimately show ?thesis
    using len r pton_three [OF assms(1,2,3) r]
    by (simp add: numeral_3_eq_3 del: pton_loop.simps of_nat_Suc of_nat_add)
qed

text \<open>Decoding what was encoded, from the index \<open>i\<close> on.\<close>

lemma upd_two:
  "i + 1 < length t \<Longrightarrow> take (i + 1) (t[i := a, i + 1 := b]) = take i t @ [a]"
  by (simp add: take_Suc_conv_app_nth)

lemma upd_three:
  "i + 2 < length t \<Longrightarrow> take (i + 2) (t[i := a, i + 1 := b, i + 2 := c]) = take i t @ [a, b]"
  by (simp add: take_Suc_conv_app_nth)

lemma upd_four:
  "i + 2 < length t \<Longrightarrow> take (i + 3) (t[i := a, i + 1 := b, i + 2 := c]) = take i t @ [a, b, c]"
  by (simp add: take_Suc_conv_app_nth numeral_3_eq_3)

definition decodes_to :: "nat \<Rightarrow> u8 list \<Rightarrow> u8 list \<Rightarrow> (int \<times> u8 list option) res \<Rightarrow> bool" where
  "decodes_to i t src r \<longleftrightarrow>
     (\<exists>t'. r = Ret (sint (of_nat (i + length src) :: u32), Some t') \<and> length t' = length t \<and>
           take (i + length src) t' = take i t @ src)"

lemma pton_enc:
  assumes "unat targsize \<le> length t" and "i + length src + (if length src mod 3 = 0 then 0 else 1) \<le> unat targsize"
    and "i + length src < 2 ^ 32"
  shows "decodes_to i t src
    (res_bind (pton_loop targsize (b64_enc src) 0 (of_nat i) (Some t)) pton_finish)"
  using assms
proof (induction src arbitrary: i t rule: b64_enc.induct)
  case 1
  then show ?case by (simp add: decodes_to_def pton_finish_def Pad64_def)
next
  case (2 a)
  then have r: "room targsize (i + 1) t" by (simp add: room_def)
  then have len: "i + 1 < length t" by (simp add: room_def)
  have "c_isspace Pad64 = Ret False" by (simp add: c_isspace_def Pad64_def)
  moreover have "pton_loop targsize (b64_enc [a]) 0 (of_nat i) (Some t) =
      pton_loop targsize [Pad64, Pad64] 2 (of_nat (i + 1)) (Some (t[i := a, i + 1 := 0]))"
    using pton_two [OF _ _ r, of "out0 a" "out1 a 0" "[Pad64, Pad64]"]
    by (simp only: b64_enc.simps join_groups last_group_zero out_less)
  ultimately show ?case
    using r len upd_two [OF len, of a 0] room_target(4) [of targsize "i + 1" "t[i := a, i + 1 := 0]"]
    by (simp add: decodes_to_def pton_finish_def pton_end_def Pad64_def
        del: of_nat_Suc of_nat_add b64_enc.simps)
next
  case (3 a b)
  then have r: "room targsize (i + 2) t" by (simp add: room_def mod_Suc)
  then have len: "i + 2 < length t" by (simp add: room_def)
  have "c_isspace Pad64 = Ret False" by (simp add: c_isspace_def Pad64_def)
  moreover have "pton_loop targsize (b64_enc [a, b]) 0 (of_nat i) (Some t) =
      pton_loop targsize [Pad64] 3 (of_nat (i + 2)) (Some (t[i := a, i + 1 := b, i + 2 := 0]))"
    using pton_three [OF _ _ _ r, of "out0 a" "out1 a b" "out2 b 0" "[Pad64]"]
    by (simp only: b64_enc.simps join_groups last_group_zero out_less)
  ultimately show ?case
    using r len upd_three [OF len, of a b 0]
      room_target(4) [of targsize "i + 2" "t[i := a, i + 1 := b, i + 2 := 0]"]
    by (simp add: decodes_to_def pton_finish_def pton_end_def Pad64_def
        del: of_nat_Suc of_nat_add b64_enc.simps)
next
  case (4 a b c src)
  have r: "room targsize (i + 2) t"
    using 4(2,3,4) by (simp add: room_def split: if_splits)
  then have len: "i + 2 < length t" by (simp add: room_def)
  let ?t = "t[i := a, i + 1 := b, i + 2 := c]"
  have dvd: "length (a # b # c # src) mod 3 = length src mod 3"
  proof -
    have "length (a # b # c # src) = length src + 3" by simp
    then show ?thesis by (simp only: mod_add_self2)
  qed
  have "decodes_to (i + 3) ?t src
      (res_bind (pton_loop targsize (b64_enc src) 0 (of_nat (i + 3)) (Some ?t)) pton_finish)"
    using 4(2,3,4) dvd by (intro 4(1)) (auto split: if_splits)
  moreover have "pton_loop targsize (b64_enc (a # b # c # src)) 0 (of_nat i) (Some t) =
      pton_loop targsize (b64_enc src) 0 (of_nat (i + 3)) (Some ?t)"
    using pton_four [OF _ _ _ _ r, of "out0 a" "out1 a b" "out2 b c" "out3 c" "b64_enc src"]
    by (simp only: b64_enc.simps append.simps join_groups out_less)
  moreover have "i + 3 + length src = i + length (a # b # c # src)" by simp
  ultimately show ?case
    using upd_four [OF len, of a b c] by (simp only: decodes_to_def) simp
qed

section \<open>The decoder accepts only what the encoder writes\<close>

definition no_spaces :: "u8 list \<Rightarrow> u8 list" where
  "no_spaces src = filter (\<lambda>c. c_isspace c \<noteq> Ret True) src"

lemma b64_enc_append:
  "length xs mod 3 = 0 \<Longrightarrow> b64_enc (xs @ ys) = b64_enc xs @ b64_enc ys"
proof (induction xs rule: b64_enc.induct)
  case (4 a b c xs)
  have "length (a # b # c # xs) = length xs + 3" by simp
  then have "length xs mod 3 = 0" using 4(2) by (simp only: mod_add_self2)
  with 4(1) show ?case by simp
qed auto

text \<open>What was read (without the white space), when the loop is in the given state with the target
  \<open>t\<close> and \<open>tarindex\<close> \<open>i\<close>.\<close>

definition read_so_far :: "u8 list \<Rightarrow> nat \<Rightarrow> nat \<Rightarrow> u8 list \<Rightarrow> bool" where
  "read_so_far pre state i t \<longleftrightarrow>
     (if state = 0 then i mod 3 = 0 \<and> i \<le> length t \<and> pre = b64_enc (take i t)
      else if state = 1 then
        i mod 3 = 0 \<and> i < length t \<and>
        (\<exists>d0 < 64. pre = b64_enc (take i t) @ [b64_char d0] \<and> t ! i = push_bit 2 d0)
      else if state = 2 then
        (\<exists>k. i = k + 1 \<and> k mod 3 = 0 \<and> i < length t \<and>
          (\<exists>d0 < 64. \<exists>d1 < 64. pre = b64_enc (take k t) @ [b64_char d0, b64_char d1] \<and>
             t ! k = push_bit 2 d0 OR drop_bit 4 d1 \<and> t ! i = push_bit 4 (d1 AND 0x0F)))
      else
        (\<exists>k. i = k + 2 \<and> k mod 3 = 0 \<and> i < length t \<and>
          (\<exists>d0 < 64. \<exists>d1 < 64. \<exists>d2 < 64.
             pre = b64_enc (take k t) @ [b64_char d0, b64_char d1, b64_char d2] \<and>
             t ! k = push_bit 2 d0 OR drop_bit 4 d1 \<and>
             t ! (k + 1) = push_bit 4 (d1 AND 0x0F) OR drop_bit 2 d2 \<and>
             t ! i = push_bit 6 (d2 AND 0x03))))"

lemma room_of_check:
  "\<not> targsize \<le> ucast (of_nat i :: u32) \<Longrightarrow> unat targsize \<le> length t \<Longrightarrow> i < 2 ^ 32 \<Longrightarrow>
   room targsize i t"
  by (simp add: room_def not_le_ucast unat_index)

lemma pton_digit_read:
  assumes "pton_digit targsize state (of_nat i) (Some t) v = Ret (True, state', i', target')"
    and "read_so_far pre state i t" and "state < 4" and v: "v < 64"
    and len: "unat targsize \<le> length t" and small: "unat targsize < 2 ^ 32 - 1" and i: "i \<le> unat targsize"
  shows "\<exists>j t'. i' = of_nat j \<and> target' = Some t' \<and> length t' = length t \<and> j \<le> unat targsize \<and>
    state' < 4 \<and> read_so_far (pre @ [b64_char v]) state' j t'"
proof -
  have i32: "i < 2 ^ 32" "i + 1 < 2 ^ 32" using i small by simp_all
  have succ: "(of_nat i :: u32) + 1 = of_nat (i + 1)" by simp
  consider "state = 0" | "state = 1" | "state = 2" | "state = 3" using assms(3) by linarith
  then show ?thesis
  proof cases
    case 1
    from assms(1) 1 have "\<not> targsize \<le> ucast (of_nat i :: u32)"
      by (auto simp: pton_digit_def split: if_splits)
    then have r: "room targsize i t" using len i32(1) by (rule room_of_check)
    then have "i < length t" by (simp add: room_def)
    then have "read_so_far (pre @ [b64_char v]) 1 i (t[i := push_bit 2 v])"
      using assms(2) 1 v by (auto simp: read_so_far_def)
    with assms(1) 1 i show ?thesis
      by (auto simp: pton_digit_0 [OF r] intro!: exI [of _ i])
  next
    case 2
    from assms(1) 2 have "\<not> targsize \<le> ucast (of_nat (i + 1) :: u32)"
      by (auto simp: pton_digit_def succ split: if_splits simp del: of_nat_add of_nat_Suc)
    then have r: "room targsize (i + 1) t" using len i32(2) by (rule room_of_check)
    then have le: "i + 1 < length t" "i + 1 \<le> unat targsize" by (simp_all add: room_def)
    then have "read_so_far (pre @ [b64_char v]) 2 (i + 1)
        (t[i := t ! i OR drop_bit 4 v, i + 1 := push_bit 4 (v AND 0x0F)])"
      using assms(2) 2 v by (auto simp: read_so_far_def; blast)
    with assms(1) 2 le show ?thesis
      using pton_digit_1 [OF r, of v] by (auto intro!: exI [of _ "i + 1"])
  next
    case 3
    from assms(1) 3 have "\<not> targsize \<le> ucast (of_nat (i + 1) :: u32)"
      by (auto simp: pton_digit_def succ split: if_splits simp del: of_nat_add of_nat_Suc)
    then have r: "room targsize (i + 1) t" using len i32(2) by (rule room_of_check)
    then have le: "i + 1 < length t" "i + 1 \<le> unat targsize" by (simp_all add: room_def)
    then have "read_so_far (pre @ [b64_char v]) 3 (i + 1)
        (t[i := t ! i OR drop_bit 2 v, i + 1 := push_bit 6 (v AND 0x03)])"
      using assms(2) 3 v by (auto simp: read_so_far_def; blast)
    with assms(1) 3 le show ?thesis
      using pton_digit_2 [OF r, of v] by (auto intro!: exI [of _ "i + 1"])
  next
    case 4
    from assms(1) 4 have "\<not> targsize \<le> ucast (of_nat i :: u32)"
      by (auto simp: pton_digit_def split: if_splits)
    then have r: "room targsize i t" using len i32(1) by (rule room_of_check)
    from assms(2) 4 obtain k d0 d1 d2 where k: "i = k + 2" "k mod 3 = 0" "i < length t"
      "d0 < 64" "d1 < 64" "d2 < 64"
      "pre = b64_enc (take k t) @ [b64_char d0, b64_char d1, b64_char d2]"
      "t ! k = push_bit 2 d0 OR drop_bit 4 d1"
      "t ! (k + 1) = push_bit 4 (d1 AND 0x0F) OR drop_bit 2 d2"
      "t ! i = push_bit 6 (d2 AND 0x03)"
      by (auto simp: read_so_far_def)
    let ?t = "t[i := t ! i OR v]"
    have "take (i + 1) ?t = take k t @ [t ! k, t ! (k + 1), t ! i OR v]"
      using k(1,3) by (simp add: take_Suc_conv_app_nth)
    then have "b64_enc (take (i + 1) ?t) = pre @ [b64_char v]"
      using k v by (simp only: b64_enc_append length_take min_absorb2 b64_enc.simps split_groups)
        (simp add: b64_enc_append)
    moreover have "(i + 1) mod 3 = 0" using k(1,2) by (simp add: mod_Suc)
    ultimately have "read_so_far (pre @ [b64_char v]) 0 (i + 1) ?t"
      using k(3) by (simp add: read_so_far_def)
    moreover have "i + 1 \<le> unat targsize" using r by (simp add: room_def)
    ultimately show ?thesis
      using assms(1) 4 pton_digit_3 [OF r, of v]
      by (auto intro!: exI [of _ "i + 1"])
  qed
qed

lemma no_spaces_simps [simp]:
  "no_spaces [] = []"
  "no_spaces (c # src) = (if c_isspace c = Ret True then no_spaces src else c # no_spaces src)"
  by (simp_all add: no_spaces_def)

lemma only_spaces_no_spaces: "only_spaces src = Ret True \<Longrightarrow> 0 \<notin> set src \<Longrightarrow> no_spaces src = []"
  by (induction src) (auto simp: res_bind_Ret_iff split: if_splits)

lemma skip_spaces_no_spaces:
  "skip_spaces src = Ret src' \<Longrightarrow> 0 \<notin> set src \<Longrightarrow>
   no_spaces src = no_spaces src' \<and> 0 \<notin> set src'"
  by (induction src) (auto simp: res_bind_Ret_iff split: if_splits)

lemma pton_loop_read:
  assumes "pton_loop targsize src state (of_nat i) (Some t) = Ret (True, ch, rest, state', i', target')"
    and "read_so_far pre state i t" and "state < 4" and "0 \<notin> set src"
    and "unat targsize \<le> length t" and "unat targsize < 2 ^ 32 - 1" and "i \<le> unat targsize"
  shows "\<exists>j t' mid. i' = of_nat j \<and> target' = Some t' \<and> length t' = length t \<and> j \<le> unat targsize \<and>
    state' < 4 \<and> read_so_far (pre @ mid) state' j t' \<and> 0 \<notin> set rest \<and>
    no_spaces src = mid @ (if ch = Pad64 then Pad64 # no_spaces rest else [])"
  using assms
proof (induction src arbitrary: state i t pre)
  case Nil
  then show ?case by (auto simp: Pad64_def)
next
  case (Cons c src)
  then have c: "c \<noteq> 0" "0 \<notin> set src" by auto
  with Cons.prems(1) obtain sp where sp: "c_isspace c = Ret sp"
    by (auto simp: res_bind_Ret_iff)
  consider "sp" | "\<not> sp" "c = Pad64" | "\<not> sp" "c \<noteq> Pad64" by blast
  then show ?case
  proof cases
    case 1
    with sp c Cons.prems have "pton_loop targsize src state (of_nat i) (Some t) =
        Ret (True, ch, rest, state', i', target')" by simp
    from Cons.IH [OF this Cons.prems(2,3) c(2) Cons.prems(5,6,7)] 1 sp show ?thesis by simp
  next
    case 2
    with sp c Cons.prems show ?thesis
      by (auto intro!: exI [of _ i] exI [of _ t])
  next
    case 3
    with sp c Cons.prems(1) obtain v where v: "b64_index c = Some v"
      by (auto split: option.splits)
    with 3 sp c Cons.prems(1) obtain st1 i1 t1 where
      d: "pton_digit targsize state (of_nat i) (Some t) v = Ret (True, st1, i1, t1)" and
      l: "pton_loop targsize src st1 i1 t1 = Ret (True, ch, rest, state', i', target')"
      by (auto simp: res_bind_Ret_iff split: if_splits)
    note vc = b64_index_Some [OF v]
    from pton_digit_read [OF d Cons.prems(2,3) vc(1) Cons.prems(5,6,7)]
    obtain j1 t2 where j1: "i1 = of_nat j1" "t1 = Some t2" "length t2 = length t"
      "j1 \<le> unat targsize" "st1 < 4" "read_so_far (pre @ [b64_char v]) st1 j1 t2" by auto
    from l j1 have "pton_loop targsize src st1 (of_nat j1) (Some t2) =
        Ret (True, ch, rest, state', i', target')" by simp
    from Cons.IH [OF this j1(6,5) c(2) _ Cons.prems(6) j1(4)] j1(3) Cons.prems(5)
    obtain j t' mid where "i' = of_nat j" "target' = Some t'" "length t' = length t"
      "j \<le> unat targsize" "state' < 4" "read_so_far ((pre @ [b64_char v]) @ mid) state' j t'"
      "0 \<notin> set rest" "no_spaces src = mid @ (if ch = Pad64 then Pad64 # no_spaces rest else [])"
      by auto
    with 3 sp vc(2) show ?thesis
      by (intro exI [of _ j] exI [of _ t'] exI [of _ "b64_char v # mid"]) simp
  qed
qed

text \<open>The two padded endings.\<close>

lemma read_end_2:
  assumes "read_so_far pre 2 j t" and "t ! j = 0"
  shows "b64_enc (take j t) = pre @ [Pad64, Pad64]"
proof -
  from assms(1) obtain k d0 d1 where k: "j = k + 1" "k mod 3 = 0" "j < length t" "d0 < 64" "d1 < 64"
    "pre = b64_enc (take k t) @ [b64_char d0, b64_char d1]"
    "t ! k = push_bit 2 d0 OR drop_bit 4 d1" "t ! j = push_bit 4 (d1 AND 0x0F)"
    by (auto simp: read_so_far_def)
  have "take j t = take k t @ [t ! k]"
    using k(1,3) by (simp add: take_Suc_conv_app_nth)
  moreover have "out1 (push_bit 2 d0 OR drop_bit 4 d1) 0 = d1"
    using split_groups(2) [OF k(4,5), of 0 0] assms(2) k(8) by simp
  ultimately show ?thesis
    using k by (simp add: b64_enc_append split_groups(1) [OF k(4,5), of 0 0])
qed

lemma read_end_3:
  assumes "read_so_far pre 3 j t" and "t ! j = 0"
  shows "b64_enc (take j t) = pre @ [Pad64]"
proof -
  from assms(1) obtain k d0 d1 d2 where k: "j = k + 2" "k mod 3 = 0" "j < length t"
    "d0 < 64" "d1 < 64" "d2 < 64"
    "pre = b64_enc (take k t) @ [b64_char d0, b64_char d1, b64_char d2]"
    "t ! k = push_bit 2 d0 OR drop_bit 4 d1"
    "t ! (k + 1) = push_bit 4 (d1 AND 0x0F) OR drop_bit 2 d2" "t ! j = push_bit 6 (d2 AND 0x03)"
    by (auto simp: read_so_far_def)
  have "take j t = take k t @ [t ! k, t ! (k + 1)]"
    using k(1,3) by (simp add: take_Suc_conv_app_nth)
  moreover have "out2 (push_bit 4 (d1 AND 0x0F) OR drop_bit 2 d2) 0 = d2"
    using split_groups(3) [OF k(4,5,6), of 0] assms(2) k(10) by simp
  moreover note split_groups(1,2) [OF k(4,5,6), of 0]
  ultimately show ?thesis
    using k by (simp only: b64_enc_append length_take) (simp add: b64_enc_append)
qed

lemma f_b64_pton_accepts:
  assumes r: "f_b64_pton src (Some t) targsize = Ret (r, Some t')" and "r \<noteq> - 1"
    and nul: "0 \<notin> set src" and len: "unat targsize \<le> length t" and small: "unat targsize < 2 ^ 31"
  shows "0 \<le> r \<and> nat r \<le> unat targsize \<and> no_spaces src = b64_enc (take (nat r) t')"
proof -
  from r obtain ok ch rest state i' target' where
    l: "pton_loop targsize src 0 0 (Some t) = Ret (ok, ch, rest, state, i', target')" and
    f: "pton_finish (ok, ch, rest, state, i', target') = Ret (r, Some t')"
    by (auto simp: f_b64_pton_def res_bind_Ret_iff)
  from f assms(2) have ok by (auto simp: pton_finish_def split: if_splits)
  with l have "pton_loop targsize src 0 (of_nat 0) (Some t) = Ret (True, ch, rest, state, i', target')"
    by simp
  from pton_loop_read [OF this, of "[]"] nul len small
  obtain j u pre where j: "i' = of_nat j" "target' = Some u" "j \<le> unat targsize" "state < 4"
    "length u = length t" "read_so_far pre state j u" "0 \<notin> set rest"
    and src: "no_spaces src = pre @ (if ch = Pad64 then Pad64 # no_spaces rest else [])"
    by (auto simp: read_so_far_def)
  have "unat (of_nat j :: u32) = j" using j(3) small by (simp add: unat_of_nat)
  then have sint: "sint (of_nat j :: u32) = int j" using j(3) small by (simp add: sint_u32_small)
  have last: "r = int j \<and> t' = u \<and> u ! j = 0 \<and> only_spaces s = Ret True"
    if "pton_end s (of_nat j) (Some u) = Ret (r, Some t')" "j < length u" for s
    using that assms(2) j(3) small
    by (auto simp: pton_end_def res_bind_Ret_iff get_target_def sint unat_of_nat split: if_splits)
  consider "ch \<noteq> Pad64" "state = 0" | "ch = Pad64" "state = 2" | "ch = Pad64" "state = 3"
    using f \<open>ok\<close> assms(2) j(4) by (force simp: pton_finish_def split: if_splits)
  then show ?thesis
  proof cases
    case 1
    with f \<open>ok\<close> j have "r = int j" "t' = u" by (auto simp: pton_finish_def sint)
    with 1 j src show ?thesis by (simp add: read_so_far_def)
  next
    case 2
    with f \<open>ok\<close> j assms(2) obtain s where s: "skip_spaces rest = Ret (Pad64 # s)"
      "pton_end s (of_nat j) (Some u) = Ret (r, Some t')"
      by (auto simp: pton_finish_def res_bind_Ret_iff neq_Nil_conv split: if_splits)
    have jl: "j < length u" using j(6) 2 by (auto simp: read_so_far_def)
    note e = last [OF s(2) jl]
    have "c_isspace Pad64 = Ret False" by (simp add: c_isspace_def Pad64_def)
    then have "no_spaces rest = Pad64 # no_spaces s" and "0 \<notin> set s"
      using skip_spaces_no_spaces [OF s(1) j(7)] by auto
    with e only_spaces_no_spaces [of s] have "no_spaces rest = [Pad64]" by simp
    with 2 e j(3) src read_end_2 [of pre j u] j(6) show ?thesis by simp
  next
    case 3
    with f \<open>ok\<close> j have s: "pton_end rest (of_nat j) (Some u) = Ret (r, Some t')"
      by (simp add: pton_finish_def)
    have jl: "j < length u" using j(6) 3 by (auto simp: read_so_far_def)
    note e = last [OF s jl]
    with only_spaces_no_spaces [of rest] j(7) have "no_spaces rest = []" by simp
    with 3 e j(3) src read_end_3 [of pre j u] j(6) show ?thesis by simp
  qed
qed

section \<open>Properties\<close>

text \<open>C5: the encoder writes base-64 text. \<open>rfc_base64\<close> is the text of a source as RFC 1521 describes it: its bits in
  groups of six, each as its character, and the padding. If the text and its terminator fit the target, \<open>f_b64_ntop\<close>
  writes exactly them and returns the length of the text, four characters for every started group of three bytes;
  otherwise it returns -1. Either way it writes at most \<open>targsize\<close> bytes.\<close>

theorem f_b64_ntop_correct:
  "(if length (rfc_base64 src) < targsize
    then f_b64_ntop src targsize = (sint (of_nat (length (rfc_base64 src)) :: u32), rfc_base64 src @ [0])
    else fst (f_b64_ntop src targsize) = - 1) \<and>
   length (snd (f_b64_ntop src targsize)) \<le> targsize \<and>
   length (rfc_base64 src) = 4 * ((length src + 2) div 3)"
  using f_b64_ntop_fits [of src targsize] f_b64_ntop_small [of targsize src] length_b64_enc [of src]
  by (cases "length (b64_enc src) < targsize") (simp_all add: b64_enc_rfc)

text \<open>C6: the decoder is memory safe. For a text of ASCII characters and a target of at least
  \<open>targsize\<close> bytes (or \<open>NULL\<close>) it returns, it changes nothing beyond the first \<open>targsize\<close> bytes of
  the target, and the result is -1 or a length that fits.\<close>

theorem f_b64_pton_safe:
  assumes "\<forall>c \<in> set src. c < 128" and "target_ok targsize target" and "unat targsize < 2 ^ 31"
  shows "\<exists>r target'. f_b64_pton src target targsize = Ret (r, target') \<and>
    same_beyond targsize target target' \<and> (if target = None then True else - 1 \<le> r \<and> r \<le> uint targsize)"
  using f_b64_pton_safe_wp [OF assms(1,2)] assms(3)
  by (auto simp: wp_Ret_iff pton_result_ok_def)

theorem f_b64_pton_safe_witness:
  "\<exists>r target'. f_b64_pton [0x51, 0x55, 0x49, 0x3D] (Some [0, 0, 0, 7]) 3 = Ret (r, target') \<and>
    same_beyond 3 (Some [0, 0, 0, 7]) target' \<and>
    (if Some [0, 0, 0, 7 :: u8] = None then True else - 1 \<le> r \<and> r \<le> uint (3 :: u64))"
  by (rule f_b64_pton_safe) (simp_all add: target_ok_def)

text \<open>C3: round trip. Decoding what the encoder wrote gives back the source, if the target has room
  for it and, when the text is padded, for one byte more.\<close>

theorem f_b64_round_trip:
  assumes "length (rfc_base64 src) < size_out" and "length src < 2 ^ 31"
    and "length src + (if length src mod 3 = 0 then 0 else 1) \<le> unat targsize"
    and "unat targsize \<le> length t"
  shows "\<exists>t'. f_b64_pton (butlast (snd (f_b64_ntop src size_out))) (Some t) targsize =
      Ret (int (length src), Some t') \<and> take (length src) t' = src \<and> length t' = length t"
proof -
  have "decodes_to 0 t src (f_b64_pton (b64_enc src) (Some t) targsize)"
    using pton_enc [of targsize t 0 src] assms by (simp add: f_b64_pton_def)
  moreover have "sint (of_nat (length src) :: u32) = int (length src)"
    using assms(2) by (simp add: sint_u32_small unat_of_nat)
  ultimately show ?thesis
    using assms(1) by (auto simp: decodes_to_def f_b64_ntop_fits b64_enc_rfc [symmetric])
qed

theorem f_b64_round_trip_witness:
  "\<exists>t'. f_b64_pton (butlast (snd (f_b64_ntop [0x41, 0x42] 8))) (Some [0, 0, 0]) 3 =
      Ret (int (length [0x41, 0x42 :: u8]), Some t') \<and>
      take (length [0x41, 0x42 :: u8]) t' = [0x41, 0x42] \<and> length t' = length [0, 0, 0 :: u8]"
  by (rule f_b64_round_trip) (simp_all flip: b64_enc_rfc)

text \<open>C4: no subliminal channel. A text the decoder accepts is, apart from white space, exactly the
  base-64 text of the bytes it returned.\<close>

theorem f_b64_pton_canonical:
  assumes "f_b64_pton src (Some t) targsize = Ret (r, Some t')" and "r \<noteq> - 1"
    and "0 \<notin> set src" and "unat targsize \<le> length t" and "unat targsize < 2 ^ 31"
  shows "0 \<le> r \<and> nat r \<le> unat targsize \<and> no_spaces src = rfc_base64 (take (nat r) t')"
  using f_b64_pton_accepts [OF assms] by (simp add: b64_enc_rfc)

lemma f_b64_pton_example:
  "f_b64_pton [0x51, 0x55, 0x20, 0x49, 0x3D] (Some [0, 0, 0]) 3 = Ret (2, Some [0x41, 0x42, 0])"
  by code_simp

theorem f_b64_pton_canonical_witness:
  "0 \<le> (2 :: int) \<and> nat 2 \<le> unat (3 :: u64) \<and>
   no_spaces [0x51, 0x55, 0x20, 0x49, 0x3D] = rfc_base64 (take (nat 2) [0x41, 0x42, 0])"
  by (rule f_b64_pton_canonical [OF f_b64_pton_example]) simp_all

section \<open>Findings\<close>

text \<open>A padded text needs one byte more in the target than the data it decodes to.\<close>

lemma f_b64_pton_exact_size_fails: "f_b64_pton (b64_enc [0x41]) (Some [0]) 1 = Ret (- 1, Some [0x40])"
  by code_simp

text \<open>A character outside ASCII is passed to \<open>isspace\<close> as a negative number.\<close>

lemma f_b64_pton_negative_char: "f_b64_pton [0xC3] (Some [0]) 1 = Undef"
  by code_simp

end
