(* ===== verification/CctEncode.thy ===== *)
theory CctEncode
  imports PbEncodeRefine CctDecode
begin

text \<open>
  What the entry points of the encoder promise, for a message of any type: the size, the contents
  of the buffer, and what happens when the buffer is too small. The witnesses encode a
  \<open>gdt_cct_NetworkConnectionInfo\<close> of the CCT schema.
\<close>

section \<open>From a stream to a buffer\<close>

lemma hide_empty [simp]: "hide {} w = w"
  by (simp add: hide_def)

text \<open>What an operation that implements \<open>bs\<close> does to a fresh buffer stream.\<close>

definition buffer_holds :: "addr \<Rightarrow> u64 \<Rightarrow> world \<Rightarrow> u8 list \<Rightarrow> (bool \<times> ostream \<times> world) res \<Rightarrow> bool" where
  "buffer_holds buf sz w bs m =
     (case m of
        Ret (ok, st, w') \<Rightarrow>
          same_outside {buf..<buf + uint sz} w w' \<and> ok = (length bs \<le> unat sz) \<and>
          (ok \<longrightarrow> unat (bytes_written st) = length bs \<and> bytes_at w' buf (length bs) = bs)
      | _ \<Rightarrow> False)"

lemma implements_buffer:
  assumes "implements {buf..<buf + uint sz} v bs enc" and "hide {buf..<buf + uint sz} w = v"
    and "mapped w buf (uint sz)" and "length bs < 2 ^ 64"
  shows "buffer_holds buf sz w bs (enc (pb_ostream_from_buffer buf sz) w)"
proof -
  have "wp (enc (pb_ostream_from_buffer buf sz) w)
      (wrote {buf..<buf + uint sz} (pb_ostream_from_buffer buf sz) w bs)"
    using assms by (intro implementsD [OF assms(1)]) (simp_all add: out_ok_def pb_ostream_from_buffer_def)
  then show ?thesis
    by (auto simp: wp_Ret_iff wrote_def pb_ostream_from_buffer_def buffer_holds_def
        intro: bytes_at_upd_same)
qed

lemma implements_delimited:
  "wire_message n E v a p = Ret bs \<Longrightarrow>
   implements R v (wire_len bs) (\<lambda>st w. pb_encode_delimited n E st a p w)"
  unfolding pb_encode_delimited_def by (rule nested_encoder.submessage_implements)

lemma implements_nullterminated:
  "wire_message n E v a p = Ret bs \<Longrightarrow>
   implements R v (bs @ [0]) (\<lambda>st w. pb_encode_nullterminated n E st a p w)"
  unfolding pb_encode_nullterminated_def
  using implements_local [of R v "[0]" E] by (intro implements_seq pb_encode_implements) simp_all

section \<open>The entry points\<close>

text \<open>C11: the encoder refines the wire format. If the message in memory outside the buffer has the
  encoding \<open>bs\<close>, then \<open>pb_encode\<close> on a buffer of \<open>sz\<close> bytes returns, succeeds exactly if \<open>bs\<close> fits,
  then leaves \<open>bs\<close> at the start of the buffer and its length in \<open>bytes_written\<close>, and in every case
  writes nothing outside the buffer.\<close>

theorem pb_encode_refines_wire:
  assumes "wire_message n E (hide {buf..<buf + uint sz} w) flds src = Ret bs"
    and "mapped w buf (uint sz)" and "length bs < 2 ^ 64"
  shows "buffer_holds buf sz w bs (pb_encode n E (pb_ostream_from_buffer buf sz) flds src w)"
  using pb_encode_implements [OF assms(1)] refl assms(2,3) by (rule implements_buffer)

text \<open>The message \<open>network_type = 1, mobile_subtype = 13\<close> at address 0x4000.\<close>

definition example_struct :: "u8 list" where
  "example_struct = [1, 0, 0, 0, 1, 0, 0, 0, 1, 0, 0, 0, 13, 0, 0, 0]"

lemma example_wire:
  "wire_message 10 example_env (hide {0x6000..<0x6000 + uint (4 :: u64)} (example_world example_struct))
     0x1100 0x4000 = Ret [8, 1, 16, 13]"
  by code_simp

theorem pb_encode_refines_wire_witness:
  "buffer_holds 0x6000 4 (example_world example_struct) [8, 1, 16, 13]
     (pb_encode 10 example_env (pb_ostream_from_buffer 0x6000 4) 0x1100 0x4000
       (example_world example_struct))"
  by (rule pb_encode_refines_wire [OF example_wire]) (simp_all add: example_mapped)

text \<open>C12: the size computation agrees with the encoder. \<open>pb_get_encoded_size\<close> returns the length of the
  encoding and touches no memory, and a buffer of exactly that size is enough for \<open>pb_encode\<close>.\<close>

theorem pb_get_encoded_size_exact:
  assumes "wire_message n E (hide {buf..<buf + uint sz} w) flds src = Ret bs"
    and "mapped w buf (uint sz)" and "length bs < 2 ^ 64" and "unat sz = length bs"
  shows "pb_get_encoded_size n E flds src w = Ret (True, sz, w) \<and>
     (\<exists>st w'. pb_encode n E (pb_ostream_from_buffer buf sz) flds src w = Ret (True, st, w') \<and>
        bytes_at w' buf (length bs) = bs)"
proof
  let ?R = "{buf..<buf + uint sz}"
  obtain st where "pb_encode n E PB_OSTREAM_SIZING flds src w = Ret (True, st, w)"
    and "bytes_written st = of_nat (length bs)"
    using sizing_run [OF pb_encode_implements [OF assms(1), of ?R] refl assms(3)] by blast
  then show "pb_get_encoded_size n E flds src w = Ret (True, sz, w)"
    using u64_of_unat [OF assms(4)] by (simp add: pb_get_encoded_size_def)
  have "buffer_holds buf sz w bs (pb_encode n E (pb_ostream_from_buffer buf sz) flds src w)"
    using pb_encode_implements [OF assms(1)] refl assms(2,3) by (rule implements_buffer)
  then show "\<exists>st w'. pb_encode n E (pb_ostream_from_buffer buf sz) flds src w = Ret (True, st, w') \<and>
      bytes_at w' buf (length bs) = bs"
    using assms(4) by (auto simp: buffer_holds_def split: res.splits)
qed

theorem pb_get_encoded_size_exact_witness:
  "pb_get_encoded_size 10 example_env 0x1100 0x4000 (example_world example_struct) =
     Ret (True, 4, example_world example_struct) \<and>
   (\<exists>st w'. pb_encode 10 example_env (pb_ostream_from_buffer 0x6000 4) 0x1100 0x4000
        (example_world example_struct) = Ret (True, st, w') \<and>
      bytes_at w' 0x6000 (length [8, 1, 16, 13 :: u8]) = [8, 1, 16, 13])"
  by (rule pb_get_encoded_size_exact [OF example_wire]) (simp_all add: example_mapped)

text \<open>C13: the framed forms. \<open>pb_encode_delimited\<close> writes the length of the encoding as a varint before
  it, \<open>pb_encode_nullterminated\<close> a zero byte after it, with the same treatment of a buffer that is
  too small: an error, and no write outside the buffer.\<close>

theorem pb_encode_framed_refines_wire:
  assumes "wire_message n E (hide {buf..<buf + uint sz} w) flds src = Ret bs"
    and "mapped w buf (uint sz)" and "length bs + 10 < 2 ^ 64"
  shows "buffer_holds buf sz w (wire_len bs)
       (pb_encode_delimited n E (pb_ostream_from_buffer buf sz) flds src w) \<and>
     buffer_holds buf sz w (bs @ [0])
       (pb_encode_nullterminated n E (pb_ostream_from_buffer buf sz) flds src w)"
proof -
  have "length (varint_enc (length bs)) \<le> 10"
    using length_varint_enc_u64 [of "of_nat (length bs)"] assms(3) by (simp add: unat_of_nat_u64)
  then have "length (wire_len bs) < 2 ^ 64" using assms(3) by (simp add: wire_len_def)
  with implements_buffer [OF implements_delimited [OF assms(1)] refl assms(2)]
    implements_buffer [OF implements_nullterminated [OF assms(1)] refl assms(2)] assms(3)
  show ?thesis by simp
qed

theorem pb_encode_framed_refines_wire_witness:
  "buffer_holds 0x6000 4 (example_world example_struct) (wire_len [8, 1, 16, 13])
     (pb_encode_delimited 10 example_env (pb_ostream_from_buffer 0x6000 4) 0x1100 0x4000
       (example_world example_struct)) \<and>
   buffer_holds 0x6000 4 (example_world example_struct) ([8, 1, 16, 13] @ [0])
     (pb_encode_nullterminated 10 example_env (pb_ostream_from_buffer 0x6000 4) 0x1100 0x4000
       (example_world example_struct))"
  by (rule pb_encode_framed_refines_wire [OF example_wire]) (simp_all add: example_mapped)

end
