(* ===== verification/LdbSlice.thy ===== *)
theory LdbSlice
  imports Prelude "HOL-Library.List_Lexorder"
begin

text \<open>
  Byte strings and comparators of the key-value store leveldb: \<open>slice.h\<close>, \<open>status.h\<close>, \<open>status.cc\<close> and
  \<open>comparator.cc\<close>. A \<open>Slice\<close> or a \<open>std::string\<close> is the list of its bytes. Reading outside a slice, and
  a violated \<open>assert\<close> that guards such a read, is \<open>Undef\<close>. The locale \<open>key_comparator\<close> is the contract
  of the interface \<open>Comparator\<close>, on which the blocks, the tables and the internal keys rely.
\<close>

type_synonym slice = "u8 list"

section \<open>Slices\<close>

text \<open>\<open>memcmp\<close> may return any number of the right sign; the model returns -1 or 1.\<close>

fun memcmp :: "nat \<Rightarrow> u8 list \<Rightarrow> u8 list \<Rightarrow> int res" where
  "memcmp 0 a b = Ret 0"
| "memcmp (Suc n) (x # a) (y # b) = (if x < y then Ret (- 1) else if y < x then Ret 1 else memcmp n a b)"
| "memcmp (Suc n) a b = Undef"

definition Slice_at :: "slice \<Rightarrow> nat \<Rightarrow> u8 res" where
  "Slice_at s n = (if n < length s then Ret (s ! n) else Undef)"

definition remove_prefix :: "slice \<Rightarrow> nat \<Rightarrow> slice res" where
  "remove_prefix s n = (if n \<le> length s then Ret (drop n s) else Undef)"

definition starts_with :: "slice \<Rightarrow> slice \<Rightarrow> bool res" where
  "starts_with s x =
     (if length x \<le> length s then res_bind (memcmp (length x) s x) (\<lambda>r. Ret (r = 0)) else Ret False)"

definition Slice_eq :: "slice \<Rightarrow> slice \<Rightarrow> bool res" where
  "Slice_eq x y =
     (if length x = length y then res_bind (memcmp (length x) x y) (\<lambda>r. Ret (r = 0)) else Ret False)"

definition Slice_compare :: "slice \<Rightarrow> slice \<Rightarrow> int res" where
  "Slice_compare a b =
     (let min_len = (if length a < length b then length a else length b)
      in res_bind (memcmp min_len a b) (\<lambda>r.
         Ret (if r = 0
              then (if length a < length b then - 1 else if length b < length a then 1 else r)
              else r)))"

section \<open>Status\<close>

datatype Code = kOk | kNotFound | kCorruption | kNotSupported | kInvalidArgument | kIOError

text \<open>\<open>state_\<close>: null for success, else the code and the message.\<close>

datatype Status = OK | Failed Code string

definition Status_new :: "Code \<Rightarrow> string \<Rightarrow> string \<Rightarrow> Status" where
  "Status_new code msg msg2 = Failed code (msg @ (if msg2 \<noteq> [] then '': '' @ msg2 else []))"

definition NotFound :: "string \<Rightarrow> string \<Rightarrow> Status" where
  "NotFound msg msg2 = Status_new kNotFound msg msg2"

definition Corruption :: "string \<Rightarrow> string \<Rightarrow> Status" where
  "Corruption msg msg2 = Status_new kCorruption msg msg2"

definition NotSupported :: "string \<Rightarrow> string \<Rightarrow> Status" where
  "NotSupported msg msg2 = Status_new kNotSupported msg msg2"

definition InvalidArgument :: "string \<Rightarrow> string \<Rightarrow> Status" where
  "InvalidArgument msg msg2 = Status_new kInvalidArgument msg msg2"

definition IOError :: "string \<Rightarrow> string \<Rightarrow> Status" where
  "IOError msg msg2 = Status_new kIOError msg msg2"

definition Status_ok :: "Status \<Rightarrow> bool" where
  "Status_ok s \<longleftrightarrow> (case s of OK \<Rightarrow> True | Failed _ _ \<Rightarrow> False)"

definition Status_code :: "Status \<Rightarrow> Code" where
  "Status_code s = (case s of OK \<Rightarrow> kOk | Failed c _ \<Rightarrow> c)"

definition IsNotFound :: "Status \<Rightarrow> bool" where "IsNotFound s \<longleftrightarrow> Status_code s = kNotFound"
definition IsCorruption :: "Status \<Rightarrow> bool" where "IsCorruption s \<longleftrightarrow> Status_code s = kCorruption"
definition IsIOError :: "Status \<Rightarrow> bool" where "IsIOError s \<longleftrightarrow> Status_code s = kIOError"

definition IsNotSupportedError :: "Status \<Rightarrow> bool" where
  "IsNotSupportedError s \<longleftrightarrow> Status_code s = kNotSupported"

definition IsInvalidArgument :: "Status \<Rightarrow> bool" where
  "IsInvalidArgument s \<longleftrightarrow> Status_code s = kInvalidArgument"

definition Status_ToString :: "Status \<Rightarrow> string" where
  "Status_ToString s =
     (case s of
        OK \<Rightarrow> ''OK''
      | Failed c msg \<Rightarrow>
          (case c of
             kOk \<Rightarrow> ''OK'' | kNotFound \<Rightarrow> ''NotFound: '' | kCorruption \<Rightarrow> ''Corruption: ''
           | kNotSupported \<Rightarrow> ''Not implemented: '' | kInvalidArgument \<Rightarrow> ''Invalid argument: ''
           | kIOError \<Rightarrow> ''IO error: '') @ msg)"

lemma Status_ok_simps [simp]:
  "Status_ok OK" "\<not> Status_ok (Corruption m m2)" "\<not> Status_ok (IOError m m2)"
  "\<not> Status_ok (NotFound m m2)" "\<not> Status_ok (Failed c m)"
  by (simp_all add: Status_ok_def Corruption_def IOError_def NotFound_def Status_new_def)

section \<open>The bytewise comparator\<close>

text \<open>The interface \<open>Comparator\<close>: the object is the record of its virtual functions.\<close>

record Comparator =
  Name :: string
  Compare :: "slice \<Rightarrow> slice \<Rightarrow> int res"
  FindShortestSeparator :: "slice \<Rightarrow> slice \<Rightarrow> slice res"
  FindShortSuccessor :: "slice \<Rightarrow> slice res"

definition BytewiseComparator_Compare :: "slice \<Rightarrow> slice \<Rightarrow> int res" where
  "BytewiseComparator_Compare a b = Slice_compare a b"

text \<open>The \<open>while\<close> loop: the length of the common prefix.\<close>

fun diff_index :: "slice \<Rightarrow> slice \<Rightarrow> nat" where
  "diff_index (x # a) (y # b) = (if x = y then Suc (diff_index a b) else 0)"
| "diff_index a b = 0"

definition BytewiseComparator_FindShortestSeparator :: "slice \<Rightarrow> slice \<Rightarrow> slice res" where
  "BytewiseComparator_FindShortestSeparator start limit =
     (let i = diff_index start limit
      in if min (length start) (length limit) \<le> i then Ret start
         else let diff_byte = start ! i
           in if diff_byte < 0xFF \<and> unat diff_byte + 1 < unat (limit ! i)
              then Ret (take i start @ [diff_byte + 1]) else Ret start)"

fun short_successor :: "slice \<Rightarrow> slice" where
  "short_successor [] = []"
| "short_successor (x # key) = (if x \<noteq> 0xFF then [x + 1] else x # short_successor key)"

definition BytewiseComparator_FindShortSuccessor :: "slice \<Rightarrow> slice res" where
  "BytewiseComparator_FindShortSuccessor key = Ret (short_successor key)"

definition BytewiseComparator :: Comparator where
  "BytewiseComparator = \<lparr> Name = ''leveldb.BytewiseComparator'', Compare = BytewiseComparator_Compare,
     FindShortestSeparator = BytewiseComparator_FindShortestSeparator,
     FindShortSuccessor = BytewiseComparator_FindShortSuccessor \<rparr>"

section \<open>The order of byte strings\<close>

lemma memcmp_compare:
  "n = min (length a) (length b) \<Longrightarrow>
   res_bind (memcmp n a b) (\<lambda>r. Ret (if r = 0
      then (if length a < length b then - 1 else if length b < length a then 1 else r) else r)) =
   Ret (if a = b then 0 else if a < b then - 1 else 1)"
proof (induction n a b rule: memcmp.induct)
  case (1 a b)
  then show ?case by (cases a; cases b) auto
next
  case (2 n x a y b)
  then show ?case by (auto simp: not_less_iff_gr_or_eq cong: if_cong)
qed auto

lemma Slice_compare_lex: "Slice_compare a b = Ret (if a = b then 0 else if a < b then - 1 else 1)"
proof -
  have "(if length a < length b then length a else length b) = min (length a) (length b)" by simp
  then show ?thesis unfolding Slice_compare_def Let_def using memcmp_compare [of _ a b] by simp
qed

lemma memcmp_eq: "n \<le> length a \<Longrightarrow> n \<le> length b \<Longrightarrow> \<exists>r. memcmp n a b = Ret r \<and> (r = 0 \<longleftrightarrow> take n a = take n b)"
  by (induction n a b rule: memcmp.induct) auto

lemma Slice_eq_Ret [simp]: "Slice_eq x y = Ret (x = y)"
  using memcmp_eq [of "length x" x y] by (auto simp: Slice_eq_def)

lemma starts_with_Ret [simp]: "starts_with s x = Ret (take (length x) s = x)"
proof (cases "length x \<le> length s")
  case True
  then show ?thesis using memcmp_eq [of "length x" s x] by (auto simp: starts_with_def)
next
  case False
  then have "take (length x) s \<noteq> x" by (metis length_take min.cobounded1)
  then show ?thesis using False by (simp add: starts_with_def)
qed

lemma diff_index_take: "take (diff_index a b) a = take (diff_index a b) b"
  by (induction a b rule: diff_index.induct) auto

lemma diff_index_le: "diff_index a b \<le> length a" "diff_index a b \<le> length b"
  by (induction a b rule: diff_index.induct) auto

lemma list_less_at: "i < length a \<Longrightarrow> i < length b \<Longrightarrow> take i a = take i b \<Longrightarrow> a ! i < b ! i \<Longrightarrow> a < (b :: slice)"
proof (induction i arbitrary: a b)
  case 0
  then show ?case by (cases a; cases b) auto
next
  case (Suc i)
  then show ?case by (cases a; cases b) auto
qed

lemma diff_index_less:
  assumes "(a :: slice) < b" and "diff_index a b < min (length a) (length b)"
  shows "a ! diff_index a b < b ! diff_index a b"
  using assms by (induction a b rule: diff_index.induct) (auto split: if_splits)

lemma diff_index_same: "diff_index a a = length a"
  by (induction a) auto

lemma BytewiseComparator_separator:
  assumes "a < b"
  shows "\<exists>s. BytewiseComparator_FindShortestSeparator a b = Ret s \<and> (s = a \<or> a < s) \<and> s < b"
proof -
  let ?i = "diff_index a b"
  show ?thesis
  proof (cases "min (length a) (length b) \<le> ?i \<or> \<not> (a ! ?i < 0xFF \<and> unat (a ! ?i) + 1 < unat (b ! ?i))")
    case True
    then show ?thesis using assms by (auto simp: BytewiseComparator_FindShortestSeparator_def Let_def)
  next
    case False
    let ?s = "take ?i a @ [a ! ?i + 1]"
    from False have i: "?i < length a" "?i < length b" and b: "unat (a ! ?i) + 1 < unat (b ! ?i)" by auto
    have u: "unat (a ! ?i + 1) = unat (a ! ?i) + 1"
      using b unsigned_less [of "b ! ?i", where ?'a = nat] by (simp add: unat_word_ariths(1))
    have s: "?s ! ?i = a ! ?i + 1" "take ?i ?s = take ?i a" using i by (simp_all add: nth_append)
    have "a < ?s"
      by (rule list_less_at [of ?i]) (use i s u in \<open>auto simp: word_less_nat_alt\<close>)
    moreover have "?s < b"
      by (rule list_less_at [of ?i]) (use i s u b diff_index_take [of a b] in \<open>auto simp: word_less_nat_alt\<close>)
    ultimately show ?thesis using False by (simp add: BytewiseComparator_FindShortestSeparator_def Let_def)
  qed
qed

lemma short_successor_greater: "short_successor key = key \<or> key < short_successor key"
proof (induction key rule: short_successor.induct)
  case (2 x key)
  have "x < x + 1" if "x \<noteq> 0xFF"
  proof -
    have "unat x \<noteq> unat (0xFF :: u8)" using that by (simp only: word_unat_eq_iff not_False_eq_True)
    then have "unat x + 1 < 2 ^ 8" using unsigned_less [of x, where ?'a = nat] by simp
    then show ?thesis by (simp add: word_less_nat_alt unat_word_ariths(1))
  qed
  with 2 show ?case by auto
qed simp

section \<open>The contract of a comparator\<close>

lemma length_short_successor: "length (short_successor key) \<le> length key"
  by (induction key rule: short_successor.induct) auto

lemma length_separator:
  "\<exists>s. BytewiseComparator_FindShortestSeparator a b = Ret s \<and> length s \<le> length a"
  using diff_index_le [of a b]
  by (auto simp: BytewiseComparator_FindShortestSeparator_def Let_def)

text \<open>\<open>C\<close> is the comparator, \<open>ok\<close> the keys it accepts and \<open>lt\<close> the strict total order it stands for. As \<open>comparator.h\<close>
  says, only the sign of the result of \<open>Compare\<close> counts, and \<open>FindShortestSeparator\<close> promises something only for a start
  that is below the limit.\<close>

locale key_comparator =
  fixes C :: Comparator and ok :: "slice \<Rightarrow> bool" and lt :: "slice \<Rightarrow> slice \<Rightarrow> bool"
  assumes cmp: "ok a \<Longrightarrow> ok b \<Longrightarrow> \<exists>r. Compare C a b = Ret r \<and> (r < 0 \<longleftrightarrow> lt a b) \<and> (r = 0 \<longleftrightarrow> a = b)"
    and irrefl: "\<not> lt a a"
    and trans: "ok a \<Longrightarrow> ok b \<Longrightarrow> ok c \<Longrightarrow> lt a b \<Longrightarrow> lt b c \<Longrightarrow> lt a c"
    and total: "ok a \<Longrightarrow> ok b \<Longrightarrow> a = b \<or> lt a b \<or> lt b a"
    and sep: "ok a \<Longrightarrow> ok b \<Longrightarrow> lt a b \<Longrightarrow>
      \<exists>s. FindShortestSeparator C a b = Ret s \<and> ok s \<and> (s = a \<or> lt a s) \<and> lt s b"
    and succ: "ok a \<Longrightarrow> \<exists>s. FindShortSuccessor C a = Ret s \<and> ok s \<and> (s = a \<or> lt a s)"
begin

lemma cmp_less: "ok a \<Longrightarrow> ok b \<Longrightarrow> Compare C a b = Ret r \<Longrightarrow> r < 0 \<longleftrightarrow> lt a b"
  using cmp [of a b] by auto

lemma cmp_zero: "ok a \<Longrightarrow> ok b \<Longrightarrow> Compare C a b = Ret r \<Longrightarrow> r = 0 \<longleftrightarrow> a = b"
  using cmp [of a b] by auto

lemma asym: "ok a \<Longrightarrow> ok b \<Longrightarrow> lt a b \<Longrightarrow> \<not> lt b a"
  using trans [of a b a] irrefl [of a] by blast

lemma cmp_greater: "ok a \<Longrightarrow> ok b \<Longrightarrow> Compare C a b = Ret r \<Longrightarrow> r > 0 \<longleftrightarrow> lt b a"
  using cmp [of a b] irrefl [of a] total [of a b] asym [of a b] by (auto simp: not_less_iff_gr_or_eq)

end

lemma Compare_bytewise: "Compare BytewiseComparator a b = Ret (if a = b then 0 else if a < b then - 1 else 1)"
  by (simp add: BytewiseComparator_def BytewiseComparator_Compare_def Slice_compare_lex)

lemma separator_bytewise_same: "FindShortestSeparator BytewiseComparator a a = Ret a"
  by (simp add: BytewiseComparator_def BytewiseComparator_FindShortestSeparator_def diff_index_same)

interpretation bytewise: key_comparator BytewiseComparator "\<lambda>_. True" "(<)"
proof unfold_locales
  fix a b :: slice
  show "\<exists>r. Compare BytewiseComparator a b = Ret r \<and> (r < 0 \<longleftrightarrow> a < b) \<and> (r = 0 \<longleftrightarrow> a = b)"
    by (auto simp: Compare_bytewise)
  show "\<exists>s. FindShortSuccessor BytewiseComparator a = Ret s \<and> True \<and> (s = a \<or> a < s)"
    using short_successor_greater
    by (simp add: BytewiseComparator_def BytewiseComparator_FindShortSuccessor_def)
  show "\<exists>s. FindShortestSeparator BytewiseComparator a b = Ret s \<and> True \<and> (s = a \<or> a < s) \<and> s < b"
    if "a < b"
    using BytewiseComparator_separator [OF that] by (simp add: BytewiseComparator_def)
qed auto

text \<open>C14: the bytewise comparator orders keys lexicographically, a total order, and its two functions
  that shorten keys respect it: a separator of \<open>a < b\<close> lies in the range from \<open>a\<close> up to, not including,
  \<open>b\<close>, and a short successor is not below the key; neither is longer than the key.\<close>

theorem BytewiseComparator_correct:
  "Compare BytewiseComparator a b = Ret (if a = b then 0 else if a < b then - 1 else 1) \<and>
   (\<exists>s. FindShortestSeparator BytewiseComparator a b = Ret s \<and> length s \<le> length a \<and>
        (a < b \<longrightarrow> a \<le> s \<and> s < b)) \<and>
   (\<exists>s. FindShortSuccessor BytewiseComparator a = Ret s \<and> length s \<le> length a \<and> a \<le> s)"
proof (intro conjI)
  show "\<exists>s. FindShortestSeparator BytewiseComparator a b = Ret s \<and> length s \<le> length a \<and>
      (a < b \<longrightarrow> a \<le> s \<and> s < b)"
    using bytewise.sep [of a b] length_separator [of a b] by (fastforce simp: le_less BytewiseComparator_def)
  show "\<exists>s. FindShortSuccessor BytewiseComparator a = Ret s \<and> length s \<le> length a \<and> a \<le> s"
    using bytewise.succ [of a] length_short_successor [of a]
    by (auto simp: BytewiseComparator_def BytewiseComparator_FindShortSuccessor_def)
qed (rule Compare_bytewise)

theorem BytewiseComparator_correct_witness:
  "FindShortestSeparator BytewiseComparator [1, 2, 3] [1, 9] = Ret [1, 3] \<and>
   [1, 2, 3] \<le> [1, 3 :: u8] \<and> [1, 3] < [1, 9 :: u8]"
proof -
  have sep: "FindShortestSeparator BytewiseComparator [1, 2, 3] [1, 9] = Ret [1, 3]"
    by (simp add: BytewiseComparator_def BytewiseComparator_FindShortestSeparator_def)
  have "[1, 2, 3] < [1, 9 :: u8]" by simp
  then show ?thesis using BytewiseComparator_correct [of "[1, 2, 3]" "[1, 9]"] sep by auto
qed

end
