(* ===== verification/LdbCoding.thy ===== *)
theory LdbCoding
  imports LdbSlice
begin

text \<open>
  The encodings of \<open>coding.h\<close> and \<open>coding.cc\<close>: fixed-width integers, varints and length-prefixed
  strings. A function that appends to a string takes and returns the string; a function that reads
  from the front of a slice returns the value (\<open>None\<close> for \<open>false\<close> or \<open>nullptr\<close>) and the rest. The
  locale \<open>codec\<close> is the contract of a pair of a writer and a reader.
\<close>

section \<open>Fixed-width integers\<close>

definition kLittleEndian :: bool where "kLittleEndian = True"

definition EncodeFixed32 :: "u32 \<Rightarrow> u8 list" where
  "EncodeFixed32 value =
     (if kLittleEndian then le_bytes 4 value
      else [ucast (value AND 0xFF), ucast (drop_bit 8 value AND 0xFF),
            ucast (drop_bit 16 value AND 0xFF), ucast (drop_bit 24 value AND 0xFF)])"

definition EncodeFixed64 :: "u64 \<Rightarrow> u8 list" where
  "EncodeFixed64 value =
     (if kLittleEndian then le_bytes 8 value
      else [ucast (value AND 0xFF), ucast (drop_bit 8 value AND 0xFF),
            ucast (drop_bit 16 value AND 0xFF), ucast (drop_bit 24 value AND 0xFF),
            ucast (drop_bit 32 value AND 0xFF), ucast (drop_bit 40 value AND 0xFF),
            ucast (drop_bit 48 value AND 0xFF), ucast (drop_bit 56 value AND 0xFF)])"

definition PutFixed32 :: "slice \<Rightarrow> u32 \<Rightarrow> slice" where
  "PutFixed32 dst value = dst @ EncodeFixed32 value"

definition PutFixed64 :: "slice \<Rightarrow> u64 \<Rightarrow> slice" where
  "PutFixed64 dst value = dst @ EncodeFixed64 value"

definition DecodeFixed32 :: "u8 list \<Rightarrow> u32 res" where
  "DecodeFixed32 p =
     (if length p < 4 then Undef
      else Ret (if kLittleEndian then le_word (take 4 p)
                else ucast (p ! 0) OR push_bit 8 (ucast (p ! 1)) OR push_bit 16 (ucast (p ! 2)) OR
                     push_bit 24 (ucast (p ! 3))))"

definition DecodeFixed64 :: "u8 list \<Rightarrow> u64 res" where
  "DecodeFixed64 p =
     (if length p < 8 then Undef
      else if kLittleEndian then Ret (le_word (take 8 p))
      else res_bind (DecodeFixed32 p) (\<lambda>lo. res_bind (DecodeFixed32 (drop 4 p)) (\<lambda>hi.
             Ret (push_bit 32 (ucast hi) OR ucast lo))))"

section \<open>Varints\<close>

text \<open>A store of a \<open>uint32_t\<close> or \<open>uint64_t\<close> into an \<open>unsigned char\<close> keeps the low byte.\<close>

definition EncodeVarint32 :: "u32 \<Rightarrow> u8 list" where
  "EncodeVarint32 v =
     (let B = 128
      in if v < push_bit 7 1 then [ucast v]
         else if v < push_bit 14 1 then [ucast (v OR B), ucast (drop_bit 7 v)]
         else if v < push_bit 21 1
         then [ucast (v OR B), ucast (drop_bit 7 v OR B), ucast (drop_bit 14 v)]
         else if v < push_bit 28 1
         then [ucast (v OR B), ucast (drop_bit 7 v OR B), ucast (drop_bit 14 v OR B),
               ucast (drop_bit 21 v)]
         else [ucast (v OR B), ucast (drop_bit 7 v OR B), ucast (drop_bit 14 v OR B),
               ucast (drop_bit 21 v OR B), ucast (drop_bit 28 v)])"

definition PutVarint32 :: "slice \<Rightarrow> u32 \<Rightarrow> slice" where
  "PutVarint32 dst v = dst @ EncodeVarint32 v"

function EncodeVarint64 :: "u64 \<Rightarrow> u8 list" where
  "EncodeVarint64 v =
     (if 128 \<le> v then ucast (v OR 128) # EncodeVarint64 (drop_bit 7 v) else [ucast v])"
  by pat_completeness auto

termination EncodeVarint64
proof (relation "measure unat")
  fix v :: u64 assume "128 \<le> v"
  then have "128 \<le> unat v" by (simp add: word_le_nat_alt)
  then show "(drop_bit 7 v, v) \<in> measure unat" by (simp add: unat_drop_bit_7)
qed simp

declare EncodeVarint64.simps [simp del]

definition PutVarint64 :: "slice \<Rightarrow> u64 \<Rightarrow> slice" where
  "PutVarint64 dst v = dst @ EncodeVarint64 v"

definition PutLengthPrefixedSlice :: "slice \<Rightarrow> slice \<Rightarrow> slice" where
  "PutLengthPrefixedSlice dst value = PutVarint32 dst (of_nat (length value)) @ value"

function VarintLength :: "u64 \<Rightarrow> nat" where
  "VarintLength v = (if 128 \<le> v then Suc (VarintLength (drop_bit 7 v)) else 1)"
  by pat_completeness auto

termination VarintLength
proof (relation "measure unat")
  fix v :: u64 assume "128 \<le> v"
  then have "128 \<le> unat v" by (simp add: word_le_nat_alt)
  then show "(drop_bit 7 v, v) \<in> measure unat" by (simp add: unat_drop_bit_7)
qed simp

declare VarintLength.simps [simp del]

text \<open>The \<open>for\<close> loop of the two readers, over the bytes from \<open>p\<close> to \<open>limit\<close>; the last shift is 28 or
  63.\<close>

fun varint_ptr_loop :: "nat \<Rightarrow> nat \<Rightarrow> 'a::len word \<Rightarrow> slice \<Rightarrow> ('a word \<times> slice) option" where
  "varint_ptr_loop last_shift shift result [] = None"
| "varint_ptr_loop last_shift shift result (b # p) =
     (if shift \<le> last_shift
      then let byte = ucast b
        in if byte AND 128 \<noteq> 0
           then varint_ptr_loop last_shift (shift + 7) (result OR push_bit shift (byte AND 127)) p
           else Some (result OR push_bit shift byte, p)
      else None)"

definition GetVarint32PtrFallback :: "slice \<Rightarrow> (u32 \<times> slice) option" where
  "GetVarint32PtrFallback p = varint_ptr_loop 28 0 0 p"

definition GetVarint32Ptr :: "slice \<Rightarrow> (u32 \<times> slice) option" where
  "GetVarint32Ptr p =
     (case p of
        b # q \<Rightarrow> (if (ucast b :: u32) AND 128 = 0 then Some (ucast b, q) else GetVarint32PtrFallback p)
      | [] \<Rightarrow> GetVarint32PtrFallback p)"

definition GetVarint32 :: "slice \<Rightarrow> u32 option \<times> slice" where
  "GetVarint32 input =
     (case GetVarint32Ptr input of None \<Rightarrow> (None, input) | Some (v, q) \<Rightarrow> (Some v, q))"

definition GetVarint64Ptr :: "slice \<Rightarrow> (u64 \<times> slice) option" where
  "GetVarint64Ptr p = varint_ptr_loop 63 0 0 p"

definition GetVarint64 :: "slice \<Rightarrow> u64 option \<times> slice" where
  "GetVarint64 input =
     (case GetVarint64Ptr input of None \<Rightarrow> (None, input) | Some (v, q) \<Rightarrow> (Some v, q))"

text \<open>The version over pointers, and the one over a slice (which keeps the slice advanced past the
  length when the string is too short).\<close>

definition GetLengthPrefixedSlicePtr :: "slice \<Rightarrow> (slice \<times> slice) option" where
  "GetLengthPrefixedSlicePtr p =
     (case GetVarint32Ptr p of
        None \<Rightarrow> None
      | Some (len, q) \<Rightarrow> if length q < unat len then None else Some (take (unat len) q, drop (unat len) q))"

definition GetLengthPrefixedSlice :: "slice \<Rightarrow> slice option \<times> slice" where
  "GetLengthPrefixedSlice input =
     (case GetVarint32 input of
        (None, input) \<Rightarrow> (None, input)
      | (Some len, input) \<Rightarrow>
          if unat len \<le> length input then (Some (take (unat len) input), drop (unat len) input)
          else (None, input))"

section \<open>The contract of a codec\<close>

locale codec =
  fixes put :: "'a \<Rightarrow> slice" and get :: "slice \<Rightarrow> 'a option \<times> slice" and ok :: "'a \<Rightarrow> bool"
  assumes get_put: "ok x \<Longrightarrow> get (put x @ rest) = (Some x, rest)"
begin

text \<open>No code is a prefix of another.\<close>

lemma put_inj: "ok x \<Longrightarrow> ok y \<Longrightarrow> put x @ r = put y @ s \<Longrightarrow> x = y \<and> r = s"
  by (metis get_put Pair_inject option.inject)

lemma get_put_end: "ok x \<Longrightarrow> get (put x) = (Some x, [])"
  using get_put [of x "[]"] by simp

end

section \<open>Fixed-width round trips\<close>

lemma length_EncodeFixed [simp]: "length (EncodeFixed32 v) = 4" "length (EncodeFixed64 w) = 8"
  by (simp_all only: EncodeFixed32_def EncodeFixed64_def kLittleEndian_def if_True length_le_bytes)

lemma DecodeFixed32_Encode [simp]: "DecodeFixed32 (EncodeFixed32 v @ rest) = Ret v"
proof -
  have "take 4 (le_bytes 4 v @ rest) = le_bytes 4 v" by simp
  then show ?thesis
    by (simp only: DecodeFixed32_def EncodeFixed32_def kLittleEndian_def if_True le_word_le_bytes_u32) simp
qed

lemma DecodeFixed64_Encode [simp]: "DecodeFixed64 (EncodeFixed64 v @ rest) = Ret v"
proof -
  have "take 8 (le_bytes 8 v @ rest) = le_bytes 8 v" by simp
  then show ?thesis
    by (simp only: DecodeFixed64_def EncodeFixed64_def kLittleEndian_def if_True le_word_le_bytes_u64) simp
qed

lemma DecodeFixed_end [simp]:
  "DecodeFixed32 (EncodeFixed32 v) = Ret v" "DecodeFixed64 (EncodeFixed64 w) = Ret w"
  using DecodeFixed32_Encode [of v "[]"] DecodeFixed64_Encode [of w "[]"] by simp_all

lemma DecodeFixed32_total: "4 \<le> length p \<Longrightarrow> \<exists>v. DecodeFixed32 p = Ret v"
  by (simp add: DecodeFixed32_def)

lemma DecodeFixed64_total: "8 \<le> length p \<Longrightarrow> DecodeFixed64 p = Ret (le_word (take 8 p))"
  by (simp add: DecodeFixed64_def kLittleEndian_def)

text \<open>The two branches on the byte order agree.\<close>

lemma EncodeFixed32_bytes: "EncodeFixed32 v = [ucast (v AND 0xFF), ucast (drop_bit 8 v AND 0xFF),
    ucast (drop_bit 16 v AND 0xFF), ucast (drop_bit 24 v AND 0xFF)]"
  by (simp add: EncodeFixed32_def kLittleEndian_def ucast_low_byte eval_nat_numeral)

section \<open>Varints are base 128\<close>

lemma bit_128_iff: "bit (128 :: int) n \<longleftrightarrow> n = 7"
proof -
  have m: "(128 :: int) = push_bit 7 1" by simp
  show ?thesis unfolding m by (simp only: bit_simps) auto
qed

lemma byte_high: "ucast (x OR 128) = (of_nat (unat (x :: 'a::len word) mod 128 + 128) :: u8)"
  if "8 \<le> LENGTH('a)"
proof -
  have "ucast (x OR 128) = take_bit 7 (ucast x) OR (128 :: u8)"
    using that by (intro bit_word_eqI) (auto simp: bit_simps bit_128_iff)
  also have "take_bit 7 (ucast x) = (of_nat (take_bit 7 (unat x)) :: u8)"
    using that by (intro bit_word_eqI) (auto simp: bit_simps)
  also have "of_nat (take_bit 7 (unat x)) OR (128 :: u8) = of_nat (take_bit 7 (unat x)) + 128"
    by (rule disjunctive_add [symmetric]) (auto simp: bit_simps bit_128_iff)
  finally show ?thesis by (simp add: take_bit_eq_mod)
qed

theorem EncodeVarint64_enc: "EncodeVarint64 v = varint_enc (unat v)"
proof (induction v rule: EncodeVarint64.induct)
  case (1 v)
  show ?case
  proof (cases "128 \<le> v")
    case True
    then have "128 \<le> unat v" by (simp add: word_le_nat_alt)
    with True 1 show ?thesis
      by (simp add: EncodeVarint64.simps [of v] varint_enc_big byte_high unat_drop_bit_7)
  next
    case False
    then have "unat v < 128" by (simp add: word_le_nat_alt)
    with False show ?thesis by (simp add: EncodeVarint64.simps [of v] varint_enc_small)
  qed
qed

lemma varint_enc_step:
  fixes v :: "'a::len word"
  assumes "8 \<le> LENGTH('a)"
  shows "varint_enc (unat v div 2 ^ k) =
    (if unat v < 2 ^ (k + 7) then [ucast (drop_bit k v)]
     else ucast (drop_bit k v OR 128) # varint_enc (unat v div 2 ^ (k + 7)))"
proof -
  have d: "unat v div 2 ^ k < 128 \<longleftrightarrow> unat v < 2 ^ (k + 7)"
    by (simp add: div_less_iff_less_mult power_add mult.commute)
  have "unat v div 2 ^ k div 128 = unat v div 2 ^ (k + 7)"
    by (simp add: div_mult2_eq [symmetric] power_add)
  moreover have "(of_nat (unat v div 2 ^ k) :: u8) = ucast (drop_bit k v)"
    by (simp flip: unat_drop_bit)
  ultimately show ?thesis
    using d by (auto simp: varint_enc_small varint_enc_big byte_high [OF assms] unat_drop_bit not_less)
qed

theorem EncodeVarint32_enc: "EncodeVarint32 v = varint_enc (unat v)"
proof -
  have less: "v < push_bit 7 1 \<longleftrightarrow> unat v < 2 ^ 7" "v < push_bit 14 1 \<longleftrightarrow> unat v < 2 ^ 14"
    "v < push_bit 21 1 \<longleftrightarrow> unat v < 2 ^ 21" "v < push_bit 28 1 \<longleftrightarrow> unat v < 2 ^ 28"
    by (simp_all add: word_less_nat_alt [where 'a = 32])
  have "unat v < 2 ^ 35" using unat_u32_less [of v] by simp
  then show ?thesis
    using varint_enc_step [of v 0] varint_enc_step [of v 7] varint_enc_step [of v 14]
      varint_enc_step [of v 21] varint_enc_step [of v 28]
    by (simp add: EncodeVarint32_def Let_def less [simplified] not_less)
qed

text \<open>The local buffers of 5 and 10 bytes are large enough.\<close>

lemma length_EncodeVarint32: "length (EncodeVarint32 v) \<le> 5"
proof -
  have "unat v < 128 ^ Suc 4" using unat_u32_less [of v] by simp
  then show ?thesis using length_varint_enc [of "unat v" 4] by (simp add: EncodeVarint32_enc)
qed

lemma length_EncodeVarint64: "length (EncodeVarint64 v) \<le> 10"
  by (simp add: EncodeVarint64_enc length_varint_enc_u64)

theorem VarintLength_length: "VarintLength v = length (EncodeVarint64 v)"
proof (induction v rule: VarintLength.induct)
  case (1 v)
  then show ?case by (simp add: VarintLength.simps [of v] EncodeVarint64.simps [of v])
qed

section \<open>Reading a varint\<close>

lemma shifted_parts:
  "push_bit s (of_nat (n mod 128)) OR push_bit (s + 7) (of_nat (n div 128)) =
   (push_bit s (of_nat n) :: 'a::len word)"
proof -
  have n: "n mod 128 = take_bit 7 n" "n div 128 = drop_bit 7 n"
    by (simp_all add: take_bit_eq_mod drop_bit_eq_div)
  show ?thesis unfolding n
  proof (rule bit_word_eqI)
    fix k assume "k < LENGTH('a)"
    then show "bit (push_bit s (of_nat (take_bit 7 n)) OR push_bit (s + 7) (of_nat (drop_bit 7 n)) :: 'a word) k =
        bit (push_bit s (of_nat n) :: 'a word) k"
      by (cases "k < s + 7") (auto simp: bit_simps)
  qed
qed

lemma and_128_iff: "(ucast (b :: u8) AND 128 \<noteq> (0 :: 'a::len word)) \<longleftrightarrow> bit b 7" if "8 \<le> LENGTH('a)"
proof
  assume "ucast b AND 128 \<noteq> (0 :: 'a word)"
  then obtain k where "bit (ucast b AND 128 :: 'a word) k" by (auto simp: bit_eq_iff)
  then show "bit b 7" by (auto simp: bit_simps bit_128_iff)
next
  assume "bit b 7"
  then have "bit (ucast b AND 128 :: 'a word) 7" using that by (simp add: bit_simps bit_128_iff)
  then show "ucast b AND 128 \<noteq> (0 :: 'a word)" by (metis bit_0_eq bot_apply bot_bool_def)
qed

lemma bit_7_of_nat: "bit (of_nat n :: u8) 7 \<longleftrightarrow> bit n 7"
  by (simp add: bit_simps)

lemma varint_ptr_loop_enc:
  assumes len: "8 \<le> LENGTH('a::len)"
  shows "n < 2 ^ k \<Longrightarrow> k + shift \<le> LENGTH('a) \<Longrightarrow> last_shift + 7 \<ge> LENGTH('a) \<Longrightarrow> shift \<le> last_shift \<Longrightarrow>
   7 dvd shift \<Longrightarrow> 7 dvd last_shift \<Longrightarrow>
   varint_ptr_loop last_shift shift result (varint_enc n @ rest) =
     Some (result OR push_bit shift (of_nat n :: 'a word), rest)"
proof (induction n arbitrary: k shift result rule: varint_enc.induct)
  case (1 n)
  show ?case
  proof (cases "n < 128")
    case True
    then have "\<not> bit (of_nat n :: u8) 7" unfolding bit_7_of_nat
      by (simp add: bit_iff_odd)
    moreover have "ucast (of_nat n :: u8) = (of_nat n :: 'a word)"
      using True len by (simp add: unsigned_of_nat take_bit_nat_eq_self)
    ultimately show ?thesis
      using True 1(5) and_128_iff [OF len, of "of_nat n"] by (simp add: varint_enc_small)
  next
    case False
    let ?b = "of_nat (n mod 128 + 128) :: u8"
    have k: "7 < k"
    proof (rule ccontr)
      assume "\<not> 7 < k"
      then have "(2 :: nat) ^ k \<le> 2 ^ 7" by (intro power_increasing) auto
      with 1(2) False show False by simp
    qed
    have "(2 :: nat) ^ k = 2 ^ (k - 7 + 7)" using k by simp
    then have "(2 :: nat) ^ k = 2 ^ (k - 7) * 128" by (simp only: power_add) simp
    then have d: "n div 128 < 2 ^ (k - 7)" using 1(2) by (simp add: less_mult_imp_div_less)
    have "(n mod 128 + 128) div 128 = 1" by (subst div_add_self2) auto
    then have "bit ?b 7" unfolding bit_7_of_nat by (simp add: bit_iff_odd)
    moreover have "ucast ?b AND 127 = (of_nat (n mod 128) :: 'a word)"
    proof -
      have "(127 :: 'a word) = mask 7" by (simp add: mask_eq_exp_minus_1)
      moreover have "n mod 128 + 128 < 2 ^ 8" by simp
      then have "ucast ?b = (of_nat (n mod 128 + 128) :: 'a word)"
        using len by (simp add: unsigned_of_nat take_bit_nat_eq_self del: of_nat_add)
      ultimately show ?thesis
        by (simp only: take_bit_eq_mask [symmetric] take_bit_of_nat) (simp add: take_bit_eq_mod)
    qed
    moreover have "varint_ptr_loop last_shift (shift + 7) r (varint_enc (n div 128) @ rest) =
        Some (r OR push_bit (shift + 7) (of_nat (n div 128)), rest)" for r :: "'a word"
    proof (intro 1(1) [OF False d])
      show "shift + 7 \<le> last_shift" using k 1(3-7) by presburger
    qed (use k 1(3-7) in auto)
    ultimately show ?thesis
      using False 1(5) and_128_iff [OF len, of ?b]
      by (simp add: varint_enc_big del: of_nat_add) (simp only: or.assoc shifted_parts)
  qed
qed

text \<open>The fast path of \<open>GetVarint32Ptr\<close> is the first iteration of the loop.\<close>

lemma GetVarint32Ptr_loop: "GetVarint32Ptr p = varint_ptr_loop 28 0 0 p"
  by (cases p) (simp_all add: GetVarint32Ptr_def GetVarint32PtrFallback_def Let_def)

lemma GetVarint32Ptr_enc: "GetVarint32Ptr (EncodeVarint32 v @ rest) = Some (v, rest)"
  using varint_ptr_loop_enc [where result = "0 :: u32" and n = "unat v" and k = 32 and shift = 0
        and last_shift = 28 and rest = rest] unat_u32_less [of v]
  by (simp add: EncodeVarint32_enc GetVarint32Ptr_loop)

lemma GetVarint64Ptr_enc: "GetVarint64Ptr (EncodeVarint64 v @ rest) = Some (v, rest)"
  using varint_ptr_loop_enc [where result = "0 :: u64" and n = "unat v" and k = 64 and shift = 0
        and last_shift = 63 and rest = rest] unat_u64_less [of v]
  by (simp add: EncodeVarint64_enc GetVarint64Ptr_def)

lemma GetVarint32_enc [simp]: "GetVarint32 (EncodeVarint32 v @ rest) = (Some v, rest)"
  by (simp add: GetVarint32_def GetVarint32Ptr_enc)

lemma GetVarint64_enc [simp]: "GetVarint64 (EncodeVarint64 v @ rest) = (Some v, rest)"
  by (simp add: GetVarint64_def GetVarint64Ptr_enc)

interpretation varint32: codec EncodeVarint32 GetVarint32 "\<lambda>_. True"
  by unfold_locales simp

interpretation varint64: codec EncodeVarint64 GetVarint64 "\<lambda>_. True"
  by unfold_locales simp

lemma GetLengthPrefixedSlice_enc:
  assumes "length value < 2 ^ 32"
  shows "GetLengthPrefixedSlice (PutLengthPrefixedSlice [] value @ rest) = (Some value, rest)"
proof -
  have "unat (of_nat (length value) :: u32) = length value"
    using assms by (simp add: unat_of_nat take_bit_nat_eq_self)
  then show ?thesis
    by (simp add: GetLengthPrefixedSlice_def PutLengthPrefixedSlice_def PutVarint32_def)
qed

interpretation length_prefixed: codec "PutLengthPrefixedSlice []" GetLengthPrefixedSlice
    "\<lambda>value. length value < 2 ^ 32"
  by unfold_locales (rule GetLengthPrefixedSlice_enc)

lemma Put_append:
  "PutVarint32 dst v = dst @ EncodeVarint32 v" "PutVarint64 dst w = dst @ EncodeVarint64 w"
  "PutFixed32 dst v = dst @ EncodeFixed32 v" "PutFixed64 dst w = dst @ EncodeFixed64 w"
  "PutLengthPrefixedSlice dst s = dst @ PutLengthPrefixedSlice [] s"
  by (simp_all add: PutVarint32_def PutVarint64_def PutFixed32_def PutFixed64_def PutLengthPrefixedSlice_def)

text \<open>What a reader takes is a non-empty prefix, at most as long as the largest code.\<close>

lemma varint_ptr_loop_consumes:
  "varint_ptr_loop last_shift shift result p = Some (v, q) \<Longrightarrow>
   \<exists>c. p = c @ q \<and> c \<noteq> [] \<and> 7 * length c + shift \<le> last_shift + 7"
proof (induction last_shift shift result p rule: varint_ptr_loop.induct)
  case (2 last_shift shift result b p)
  show ?case
  proof (cases "(ucast b :: 'a word) AND 128 \<noteq> 0")
    case True
    with 2 obtain c where "p = c @ q" "7 * length c + (shift + 7) \<le> last_shift + 7"
      by (fastforce simp: Let_def split: if_splits)
    then show ?thesis by (intro exI [of _ "b # c"]) simp
  next
    case False
    with 2(2) show ?thesis by (intro exI [of _ "[b]"]) (auto simp: Let_def split: if_splits)
  qed
qed simp

lemma GetVarint32_consumes:
  "GetVarint32 input = (Some v, rest) \<Longrightarrow> \<exists>c. input = c @ rest \<and> c \<noteq> [] \<and> length c \<le> 5"
  using varint_ptr_loop_consumes [of 28 0 0 input]
  by (fastforce simp: GetVarint32_def GetVarint32Ptr_loop split: option.splits)

lemma GetVarint64_consumes:
  "GetVarint64 input = (Some v, rest) \<Longrightarrow> \<exists>c. input = c @ rest \<and> c \<noteq> [] \<and> length c \<le> 10"
  using varint_ptr_loop_consumes [of 63 0 0 input]
  by (fastforce simp: GetVarint64_def GetVarint64Ptr_def split: option.splits)

lemma GetLengthPrefixedSlice_consumes:
  "GetLengthPrefixedSlice input = (Some s, rest) \<Longrightarrow> \<exists>c. input = c @ s @ rest \<and> c \<noteq> []"
proof -
  assume "GetLengthPrefixedSlice input = (Some s, rest)"
  then obtain len q where q: "GetVarint32 input = (Some len, q)" and "s = take (unat len) q"
    and "rest = drop (unat len) q"
    by (auto simp: GetLengthPrefixedSlice_def split: prod.splits option.splits if_splits)
  with GetVarint32_consumes [OF q] show ?thesis by auto
qed

section \<open>What the readers accept\<close>

text \<open>The bytes of a varint, with any number of leading zeros, and its value.\<close>

fun varint_value :: "slice \<Rightarrow> nat" where
  "varint_value [] = 0"
| "varint_value (b # c) = unat b mod 128 + 128 * varint_value c"

fun varint_code :: "slice \<Rightarrow> bool" where
  "varint_code [] \<longleftrightarrow> False"
| "varint_code (b # c) \<longleftrightarrow> (if b < 128 then c = [] else varint_code c)"

lemma bit_7_byte: "bit (b :: u8) 7 \<longleftrightarrow> 128 \<le> b"
proof -
  have "bit b 7 \<longleftrightarrow> bit (unat b) 7" by (simp add: bit_unsigned_iff)
  also have "\<dots> \<longleftrightarrow> odd (unat b div 128)" by (simp add: bit_iff_odd)
  also have "\<dots> \<longleftrightarrow> 128 \<le> unat b"
  proof (cases "128 \<le> unat b")
    case True
    then have "unat b = unat b - 128 + 128" "unat b - 128 < 128" using unsigned_less [of b, where ?'a = nat] by simp_all
    then have "unat b div 128 = 1" by (metis div_add_self2 div_less add_0 zero_neq_numeral)
    then show ?thesis using True by simp
  qed simp
  finally show ?thesis by (simp add: word_le_nat_alt)
qed

lemma byte_127: "(ucast (b :: u8) AND 127 :: u32) = of_nat (unat b mod 128)"
proof -
  have "(127 :: u32) = mask 7" by (simp add: mask_eq_exp_minus_1)
  moreover have "(ucast b :: u32) = of_nat (unat b)" by (simp add: unsigned_of_nat)
  ultimately show ?thesis by (simp only: take_bit_eq_mask [symmetric] take_bit_of_nat) (simp add: take_bit_eq_mod)
qed

lemma varint_ptr_loop_exact:
  "shift \<le> 35 \<Longrightarrow> 7 dvd shift \<Longrightarrow> varint_ptr_loop 28 shift (result :: u32) p = Some (v, q) \<longleftrightarrow>
   (\<exists>c. p = c @ q \<and> varint_code c \<and> 7 * length c + shift \<le> 35 \<and> v = result OR push_bit shift (of_nat (varint_value c)))"
proof (induction p arbitrary: shift result)
  case Nil
  then show ?case by simp
next
  case (Cons b p)
  have split: "(\<exists>c. b # p = c @ q \<and> P c) \<longleftrightarrow> (b # p = q \<and> P []) \<or> (\<exists>c. p = c @ q \<and> P (b # c))" for P
    by (auto simp: Cons_eq_append_conv)
  have big: "(ucast b AND 128 \<noteq> (0 :: u32)) \<longleftrightarrow> 128 \<le> b" using and_128_iff [where 'a = 32, of b] bit_7_byte by simp
  consider "28 < shift" | "shift \<le> 28" "128 \<le> b" | "shift \<le> 28" "b < 128" by (meson not_le)
  then show ?case
  proof cases
    case 1
    then show ?thesis by (auto simp: split)
  next
    case 2
    let ?R = "result OR push_bit shift (ucast b AND 127)"
    have s: "shift + 7 \<le> 35" "7 dvd shift + 7" using 2(1) Cons.prems by auto
    have step: "varint_ptr_loop 28 shift result (b # p) = varint_ptr_loop 28 (shift + 7) ?R p"
      using 2 big by (simp add: Let_def)
    have val: "?R OR push_bit (shift + 7) (of_nat (varint_value c)) = result OR push_bit shift (of_nat (varint_value (b # c)))" for c
    proof -
      have n: "varint_value (b # c) mod 128 = unat b mod 128" "varint_value (b # c) div 128 = varint_value c"
        by simp_all
      show ?thesis
        using shifted_parts [of shift "varint_value (b # c)", where 'a = 32] unfolding n by (simp only: byte_127 or.assoc)
    qed
    have code: "varint_code (b # c) \<longleftrightarrow> varint_code c" for c using 2(2) by (simp add: not_less [symmetric])
    show ?thesis unfolding step Cons.IH [OF s] split val code by (auto simp: add.assoc)
  next
    case 3
    have "varint_ptr_loop 28 shift result (b # p) = Some (result OR push_bit shift (ucast b), p)"
      using 3 big by (simp add: Let_def not_less [symmetric])
    moreover have "unat b < 128" using 3(2) by (simp add: word_less_nat_alt)
    then have "(ucast b :: u32) = of_nat (varint_value [b])" by (simp add: unsigned_of_nat)
    ultimately show ?thesis using 3 by (auto simp: split)
  qed
qed

text \<open>The code \<open>c\<close> of a string \<open>s\<close>: a varint of at most five bytes, of which the length takes the lower 32 bits.\<close>

definition prefixed :: "slice \<Rightarrow> slice \<Rightarrow> bool" where
  "prefixed s c \<longleftrightarrow> (\<exists>v. c = v @ s \<and> varint_code v \<and> length v \<le> 5 \<and> varint_value v mod 2 ^ 32 = length s)"

lemma GetVarint32_exact:
  "GetVarint32 inp = (Some n, rest) \<longleftrightarrow>
   (\<exists>c. inp = c @ rest \<and> varint_code c \<and> length c \<le> 5 \<and> n = of_nat (varint_value c))"
  using varint_ptr_loop_exact [of 0 0 inp n rest]
  by (auto simp: GetVarint32_def GetVarint32Ptr_loop split: option.splits)

lemma GetLengthPrefixedSlice_exact:
  "GetLengthPrefixedSlice inp = (Some s, rest) \<longleftrightarrow> (\<exists>c. inp = c @ rest \<and> prefixed s c)"
proof
  assume "GetLengthPrefixedSlice inp = (Some s, rest)"
  then obtain n q where n: "GetVarint32 inp = (Some n, q)" "unat n \<le> length q" "s = take (unat n) q" "rest = drop (unat n) q"
    by (auto simp: GetLengthPrefixedSlice_def split: prod.splits option.splits if_splits)
  then obtain c where c: "inp = c @ q" "varint_code c" "length c \<le> 5" "n = of_nat (varint_value c)"
    using GetVarint32_exact by blast
  have "length s = varint_value c mod 2 ^ 32" using n c(4) by (simp add: unat_of_nat)
  then show "\<exists>c. inp = c @ rest \<and> prefixed s c" using n c
    by (intro exI [of _ "c @ s"]) (auto simp: prefixed_def)
next
  assume "\<exists>c. inp = c @ rest \<and> prefixed s c"
  then obtain v where v: "inp = v @ s @ rest" "varint_code v" "length v \<le> 5" "varint_value v mod 2 ^ 32 = length s"
    by (auto simp: prefixed_def)
  then have "GetVarint32 inp = (Some (of_nat (varint_value v)), s @ rest)" using GetVarint32_exact by blast
  moreover have "unat (of_nat (varint_value v) :: u32) = length s" using v(4) by (simp add: unat_of_nat)
  ultimately show "GetLengthPrefixedSlice inp = (Some s, rest)" by (simp add: GetLengthPrefixedSlice_def)
qed

section \<open>Properties\<close>

text \<open>C16: what the \<open>Put\<close> functions append, the \<open>Get\<close> functions read back, leaving what follows; a
  length-prefixed slice of 4 GiB or more is not covered, since its length does not fit the prefix.\<close>

theorem Put_Get_round_trip:
  assumes "length value < 2 ^ 32"
  shows "GetVarint32 (PutVarint32 [] v @ rest) = (Some v, rest) \<and>
     GetVarint64 (PutVarint64 [] w @ rest) = (Some w, rest) \<and>
     DecodeFixed32 (PutFixed32 [] v @ rest) = Ret v \<and>
     DecodeFixed64 (PutFixed64 [] w @ rest) = Ret w \<and>
     GetLengthPrefixedSlice (PutLengthPrefixedSlice [] value @ rest) = (Some value, rest)"
  using varint32.get_put [OF TrueI] varint64.get_put [OF TrueI] length_prefixed.get_put [OF assms, of rest]
  by (simp add: PutVarint32_def PutVarint64_def PutFixed32_def PutFixed64_def)

theorem Put_Get_round_trip_witness:
  "GetVarint32 (PutVarint32 [] 300 @ [7]) = (Some 300, [7]) \<and>
   GetLengthPrefixedSlice (PutLengthPrefixedSlice [] [1, 2] @ [7]) = (Some [1, 2], [7])"
  using Put_Get_round_trip [of "[1, 2]" 300 "[7]" 0] by simp

text \<open>Bounds: a varint is at most five (ten) bytes long and fits the buffer of \<open>PutVarint32\<close>
  (\<open>PutVarint64\<close>); on arbitrary input the readers take a non-empty prefix within these bounds or leave
  the input alone.\<close>

theorem varint_bounds:
  "length (EncodeVarint32 v) \<in> {1..5} \<and> length (EncodeVarint64 w) \<in> {1..10} \<and>
   (case GetVarint32 input of
      (None, rest) \<Rightarrow> rest = input
    | (Some _, rest) \<Rightarrow> \<exists>c. input = c @ rest \<and> length c \<in> {1..5}) \<and>
   (case GetVarint64 input of
      (None, rest) \<Rightarrow> rest = input
    | (Some _, rest) \<Rightarrow> \<exists>c. input = c @ rest \<and> length c \<in> {1..10})"
proof -
  have one: "Suc 0 \<le> length c \<longleftrightarrow> c \<noteq> []" for c :: slice by (cases c) auto
  have "EncodeVarint32 v \<noteq> []" "EncodeVarint64 w \<noteq> []"
    by (simp_all add: EncodeVarint32_enc EncodeVarint64_enc)
  moreover have "case GetVarint32 input of (None, rest) \<Rightarrow> rest = input
     | (Some _, rest) \<Rightarrow> \<exists>c. input = c @ rest \<and> length c \<in> {1..5}"
  proof (cases "GetVarint32 input")
    case (Pair v rest)
    then show ?thesis
      using GetVarint32_consumes [of input _ rest]
      by (cases v) (auto simp: one GetVarint32_def split: option.splits)
  qed
  moreover have "case GetVarint64 input of (None, rest) \<Rightarrow> rest = input
     | (Some _, rest) \<Rightarrow> \<exists>c. input = c @ rest \<and> length c \<in> {1..10}"
  proof (cases "GetVarint64 input")
    case (Pair v rest)
    then show ?thesis
      using GetVarint64_consumes [of input _ rest]
      by (cases v) (auto simp: one GetVarint64_def split: option.splits)
  qed
  ultimately show ?thesis
    using length_EncodeVarint32 [of v] length_EncodeVarint64 [of w] by (auto simp: one)
qed

end
