(* ===== verification/LdbBloom.thy ===== *)
theory LdbBloom
  imports LdbCoding
begin

text \<open>
  The interface \<open>FilterPolicy\<close>, the hash function of \<open>hash.cc\<close> and the Bloom filter of \<open>bloom.cc\<close>. The
  locale \<open>filter_policy\<close> is the contract of the interface: a filter never denies a key it was made
  for. It is interpreted on every Bloom filter policy the constructor can make.
\<close>

section \<open>The interface\<close>

record FilterPolicy =
  FilterPolicy_Name :: string
  CreateFilter :: "slice list \<Rightarrow> slice \<Rightarrow> slice res"
  KeyMayMatch :: "slice \<Rightarrow> slice \<Rightarrow> bool res"

text \<open>\<open>ok\<close> says which keys the policy accepts and \<open>many\<close> how many keys a filter may have.\<close>

locale filter_policy =
  fixes F :: FilterPolicy and ok :: "slice \<Rightarrow> bool" and many :: "nat \<Rightarrow> bool"
  assumes filter: "list_all ok keys \<Longrightarrow> many (length keys) \<Longrightarrow>
      \<exists>f. CreateFilter F keys dst = Ret (dst @ f) \<and>
          (\<forall>key \<in> set keys. KeyMayMatch F key f = Ret True)"

section \<open>Hashing\<close>

text \<open>The loop takes four bytes at a time; the \<open>switch\<close> falls through from the case of its label.\<close>

definition hash_m :: u32 where "hash_m = 0xc6a4a793"
definition hash_r :: nat where "hash_r = 24"

fun hash_loop :: "u32 \<Rightarrow> slice \<Rightarrow> (u32 \<times> slice) res" where
  "hash_loop h data =
     (if 4 \<le> length data
      then res_bind (DecodeFixed32 data) (\<lambda>w.
             let h = h + w;
                 h = h * hash_m;
                 h = h XOR drop_bit 16 h
             in hash_loop h (drop 4 data))
      else Ret (h, data))"

declare hash_loop.simps [simp del]

definition hash_switch :: "u32 \<Rightarrow> slice \<Rightarrow> u32" where
  "hash_switch h data =
     (let n = length data;
          h = (if n = 3 then h + push_bit 16 (ucast (data ! 2)) else h);
          h = (if n = 3 \<or> n = 2 then h + push_bit 8 (ucast (data ! 1)) else h)
      in if n = 3 \<or> n = 2 \<or> n = 1
         then let h = h + ucast (data ! 0);
                  h = h * hash_m
              in h XOR drop_bit hash_r h
         else h)"

definition Hash :: "slice \<Rightarrow> u32 \<Rightarrow> u32 res" where
  "Hash data seed =
     res_bind (hash_loop (ucast (ucast seed XOR (of_nat (length data) * ucast hash_m) :: u64)) data)
       (\<lambda>(h, data). Ret (hash_switch h data))"

definition BloomHash :: "slice \<Rightarrow> u32 res" where
  "BloomHash key = Hash key 0xbc9f1d34"

section \<open>Bloom filters\<close>

record BloomFilterPolicy =
  bloom_bits_per_key :: u64
  bloom_k :: u64

text \<open>
  \<open>bits_per_key * 0.69\<close> is computed in double precision and truncated. For a non-negative number the
  quotient below is the same up to the clamping at 30, which every product from 44 on meets; a number
  below -1 has a product the conversion to \<open>size_t\<close> does not define.
\<close>

definition new_BloomFilterPolicy :: "int \<Rightarrow> BloomFilterPolicy res" where
  "new_BloomFilterPolicy bits_per_key =
     (if bits_per_key < - 1 then Undef
      else let k = (if bits_per_key < 0 then 0 else bits_per_key * 69 div 100);
               k = (if k < 1 then 1 else k);
               k = (if k > 30 then 30 else k)
           in Ret \<lparr> bloom_bits_per_key = of_int bits_per_key, bloom_k = of_int k \<rparr>)"

definition rotate :: "u32 \<Rightarrow> u32" where
  "rotate h = drop_bit 17 h OR push_bit 15 h"

definition bitpos :: "u32 \<Rightarrow> u64 \<Rightarrow> u32" where
  "bitpos h bits = ucast (ucast h mod bits)"

text \<open>The inner loop of \<open>CreateFilter\<close>, with \<open>n\<close> probes to go, and the outer one.\<close>

fun set_probes :: "nat \<Rightarrow> u32 \<Rightarrow> u32 \<Rightarrow> u64 \<Rightarrow> slice \<Rightarrow> slice res" where
  "set_probes 0 h delta bits array = Ret array"
| "set_probes (Suc n) h delta bits array =
     (if bits = 0 then Undef
      else let i = unat (bitpos h bits div 8);
               j = unat (bitpos h bits mod 8)
           in if i < length array
              then set_probes n (h + delta) delta bits (array[i := array ! i OR push_bit j 1])
              else Undef)"

fun set_keys :: "u64 \<Rightarrow> u64 \<Rightarrow> slice list \<Rightarrow> slice \<Rightarrow> slice res" where
  "set_keys k bits [] array = Ret array"
| "set_keys k bits (key # keys) array =
     res_bind (BloomHash key) (\<lambda>h.
     res_bind (set_probes (unat k) h (rotate h) bits array) (\<lambda>array.
     set_keys k bits keys array))"

text \<open>\<open>n\<close> is the number of the keys, and \<open>array\<close> what is appended to \<open>dst\<close>.\<close>

definition Bloom_CreateFilter :: "BloomFilterPolicy \<Rightarrow> slice list \<Rightarrow> slice \<Rightarrow> slice res" where
  "Bloom_CreateFilter this keys dst =
     (let bits = of_nat (length keys) * bloom_bits_per_key this;
          bits = (if bits < 64 then 64 else bits);
          bytes = (bits + 7) div 8;
          bits = bytes * 8;
          array = replicate (unat bytes) 0 @ [ucast (bloom_k this)]
      in res_bind (set_keys (bloom_k this) bits keys array) (\<lambda>array. Ret (dst @ array)))"

fun check_probes :: "nat \<Rightarrow> u32 \<Rightarrow> u32 \<Rightarrow> u64 \<Rightarrow> slice \<Rightarrow> bool res" where
  "check_probes 0 h delta bits array = Ret True"
| "check_probes (Suc n) h delta bits array =
     (if bits = 0 then Undef
      else let i = unat (bitpos h bits div 8);
               j = unat (bitpos h bits mod 8)
           in if i < length array
              then if array ! i AND push_bit j 1 = 0 then Ret False
                   else check_probes n (h + delta) delta bits array
              else Undef)"

definition Bloom_KeyMayMatch :: "BloomFilterPolicy \<Rightarrow> slice \<Rightarrow> slice \<Rightarrow> bool res" where
  "Bloom_KeyMayMatch this key bloom_filter =
     (let len = length bloom_filter
      in if len < 2 then Ret False
         else let array = bloom_filter;
                  bits = (of_nat len - 1) * 8;
                  k = (scast (array ! (len - 1)) :: u64)
              in if 30 < k then Ret True
                 else res_bind (BloomHash key) (\<lambda>h. check_probes (unat k) h (rotate h) bits array))"

definition BloomFilter :: "BloomFilterPolicy \<Rightarrow> FilterPolicy" where
  "BloomFilter this = \<lparr> FilterPolicy_Name = ''leveldb.BuiltinBloomFilter2'',
     CreateFilter = Bloom_CreateFilter this, KeyMayMatch = Bloom_KeyMayMatch this \<rparr>"

definition NewBloomFilterPolicy :: "int \<Rightarrow> FilterPolicy res" where
  "NewBloomFilterPolicy bits_per_key =
     res_bind (new_BloomFilterPolicy bits_per_key) (\<lambda>this. Ret (BloomFilter this))"

section \<open>The hash function returns\<close>

lemma hash_loop_total: "\<exists>h' d. hash_loop h data = Ret (h', d)"
proof (induction h data rule: hash_loop.induct)
  case (1 h data)
  show ?case
  proof (cases "4 \<le> length data")
    case True
    then obtain w where "DecodeFixed32 data = Ret w" using DecodeFixed32_total by blast
    with 1 True show ?thesis by (subst hash_loop.simps) (simp add: Let_def)
  qed (subst hash_loop.simps, simp)
qed

lemma BloomHash_total: "\<exists>h. BloomHash key = Ret h"
  unfolding BloomHash_def Hash_def using hash_loop_total by (metis (no_types, lifting) res_bind.simps(1) case_prod_conv)

section \<open>No false negatives\<close>

text \<open>An array that has every bit of another.\<close>

definition grows :: "slice \<Rightarrow> slice \<Rightarrow> bool" where
  "grows a a' \<longleftrightarrow> length a' = length a \<and> (\<forall>i < length a. \<forall>j. bit (a ! i) j \<longrightarrow> bit (a' ! i) j)"

lemma grows_refl [simp]: "grows a a"
  by (simp add: grows_def)

lemma grows_trans: "grows a b \<Longrightarrow> grows b c \<Longrightarrow> grows a c"
  by (simp add: grows_def)

lemma grows_update: "grows a (a[i := a ! i OR m])"
  by (cases "i < length a") (auto simp: grows_def nth_list_update bit_or_iff)

lemma check_probes_mono:
  "check_probes n h delta bits a = Ret True \<Longrightarrow> grows a a' \<Longrightarrow> check_probes n h delta bits a' = Ret True"
proof (induction n arbitrary: h)
  case (Suc n)
  then show ?case
    by (auto simp: Let_def grows_def and_exp_eq_0_iff_not_bit split: if_splits)
qed simp

lemma unat_bitpos: "bits \<noteq> 0 \<Longrightarrow> unat (bitpos h bits) = unat h mod unat bits"
proof -
  have "unat (ucast h mod bits) \<le> unat h"
    by (simp add: unat_mod unat_ucast_u32_u64)
  then have "unat (ucast h mod bits) < 2 ^ 32" using unat_u32_less [of h] by simp
  then show ?thesis
    by (simp add: bitpos_def unsigned_ucast_eq take_bit_nat_eq_self unat_mod unat_ucast_u32_u64)
qed

lemma bitpos_in_range:
  assumes "unat bits = 8 * B" and "0 < B"
  shows "bits \<noteq> 0" and "unat (bitpos h bits div 8) < B" and "unat (bitpos h bits mod 8) < 8"
proof -
  show nz: "bits \<noteq> 0" using assms by auto
  have "unat h mod unat bits < 8 * B" using assms by simp
  then show "unat (bitpos h bits div 8) < B" "unat (bitpos h bits mod 8) < 8"
    using unat_bitpos [OF nz, of h] by (simp_all add: unat_div unat_mod less_mult_imp_div_less mult.commute)
qed

lemma set_probes_spec:
  assumes B: "unat bits = 8 * B" "0 < B"
  shows "B \<le> length a \<Longrightarrow>
    \<exists>a'. set_probes n h delta bits a = Ret a' \<and> grows a a' \<and> drop B a' = drop B a \<and>
         check_probes n h delta bits a' = Ret True"
proof (induction n arbitrary: h a)
  case (Suc n)
  let ?i = "unat (bitpos h bits div 8)" and ?j = "unat (bitpos h bits mod 8)"
  let ?b = "a[?i := a ! ?i OR push_bit ?j 1]"
  note r = bitpos_in_range(1) [OF B] bitpos_in_range(2,3) [OF B, of h]
  obtain a' where a': "set_probes n (h + delta) delta bits ?b = Ret a'" "grows ?b a'"
      "drop B a' = drop B ?b" "check_probes n (h + delta) delta bits a' = Ret True"
    using Suc.IH [of ?b "h + delta"] Suc.prems by auto
  have "bit (?b ! ?i) ?j" using r Suc.prems by (simp add: bit_simps)
  with a'(2) r Suc.prems have "bit (a' ! ?i) ?j" "?i < length a'" by (auto simp: grows_def)
  with a' r Suc.prems grows_trans [OF grows_update a'(2)] show ?case
    by (auto simp: Let_def and_exp_eq_0_iff_not_bit)
qed simp

lemma set_keys_spec:
  assumes B: "unat bits = 8 * B" "0 < B"
  shows "B \<le> length a \<Longrightarrow>
    \<exists>a'. set_keys k bits keys a = Ret a' \<and> grows a a' \<and> drop B a' = drop B a \<and>
         (\<forall>key \<in> set keys. res_bind (BloomHash key) (\<lambda>h. check_probes (unat k) h (rotate h) bits a') = Ret True)"
proof (induction keys arbitrary: a)
  case (Cons key keys)
  obtain h where h: "BloomHash key = Ret h" using BloomHash_total by blast
  obtain b where b: "set_probes (unat k) h (rotate h) bits a = Ret b" "grows a b" "drop B b = drop B a"
      "check_probes (unat k) h (rotate h) bits b = Ret True"
    using set_probes_spec [OF B Cons.prems] by blast
  moreover have "B \<le> length b" using b(2) Cons.prems by (simp add: grows_def)
  then obtain a' where "set_keys k bits keys b = Ret a'" "grows b a'" "drop B a' = drop B b"
      "\<forall>key \<in> set keys. res_bind (BloomHash key) (\<lambda>h. check_probes (unat k) h (rotate h) bits a') = Ret True"
    using Cons.IH by blast
  ultimately show ?case
    using h check_probes_mono [OF b(4)] by (auto intro: grows_trans)
qed simp

text \<open>The policies the constructor makes, for the values of an \<open>int\<close> that are not negative.\<close>

lemma new_BloomFilterPolicy_spec:
  assumes "0 \<le> b" "b < 2 ^ 31"
  shows "\<exists>this. new_BloomFilterPolicy b = Ret this \<and> unat (bloom_bits_per_key this) = nat b \<and>
    1 \<le> unat (bloom_k this) \<and> unat (bloom_k this) \<le> 30"
proof -
  have "unat (of_int b :: u64) = nat b"
    using assms by (simp add: unsigned_of_int take_bit_int_eq_self)
  moreover have "unat (of_int k :: u64) = nat k" if "1 \<le> k" "k \<le> 30" for k
    using that by (simp add: unsigned_of_int take_bit_int_eq_self)
  ultimately show ?thesis using assms by (auto simp: new_BloomFilterPolicy_def Let_def)
qed

lemma scast_small_byte:
  assumes "unat (k :: u64) < 128"
  shows "scast (ucast k :: u8) = k"
proof -
  have "unat k = take_bit 7 (unat k)" using assms by (simp add: take_bit_nat_eq_self)
  then have "k = take_bit 7 k" by (metis word_unat_eq_iff unsigned_take_bit_eq)
  then have small: "n < 7" if "bit k n" for n using that by (metis bit_take_bit_iff)
  show ?thesis
    by (intro bit_word_eqI) (auto simp: bit_simps min_def split: if_splits dest: small)
qed

lemma Bloom_no_false_negatives:
  assumes policy: "unat (bloom_bits_per_key this) = b" "unat (bloom_k this) \<le> 30"
    and size: "b < 2 ^ 31" "length keys < 2 ^ 31"
  shows "\<exists>f. Bloom_CreateFilter this keys dst = Ret (dst @ f) \<and>
    (\<forall>that. \<forall>key \<in> set keys. Bloom_KeyMayMatch that key f = Ret True)"
proof -
  define bits where "bits = (let b = of_nat (length keys) * bloom_bits_per_key this in if b < 64 then 64 else b)"
  define bytes where "bytes = (bits + 7) div 8"
  let ?a = "replicate (unat bytes) 0 @ [ucast (bloom_k this)]"
  have prod: "length keys * b \<le> 2 ^ 31 * 2 ^ 31"
    using size by (intro mult_mono) simp_all
  have "unat (of_nat (length keys) * bloom_bits_per_key this) = length keys * b"
  proof -
    have "unat (of_nat (length keys) :: u64) = length keys" using size by (intro unat_of_nat_u64) simp
    then show ?thesis using prod by (simp add: unat_word_ariths policy)
  qed
  then have bits: "64 \<le> unat bits" "unat bits \<le> 2 ^ 62"
    using prod by (auto simp: bits_def Let_def word_less_nat_alt)
  then have bytes: "8 \<le> unat bytes" "unat bytes < 2 ^ 60"
    using unat_add_fits [of bits 7] by (auto simp: bytes_def unat_div)
  then have b8: "unat (bytes * 8) = 8 * unat bytes" by (simp add: unat_word_ariths)
  obtain f where f: "set_keys (bloom_k this) (bytes * 8) keys ?a = Ret f" "grows ?a f"
      "drop (unat bytes) f = [ucast (bloom_k this)]"
      "\<forall>key \<in> set keys. res_bind (BloomHash key) (\<lambda>h.
         check_probes (unat (bloom_k this)) h (rotate h) (bytes * 8) f) = Ret True"
    using set_keys_spec [OF b8, of ?a "bloom_k this" keys] bytes by auto
  have len: "length f = Suc (unat bytes)" using f(2) by (simp add: grows_def)
  then have last: "f ! unat bytes = ucast (bloom_k this)"
    using f(3) by (metis hd_drop_conv_nth lessI list.sel(1))
  have k: "(scast (ucast (bloom_k this) :: u8) :: u64) = bloom_k this"
    using policy by (intro scast_small_byte) simp
  have "Bloom_KeyMayMatch that key f = Ret True" if "key \<in> set keys" for that key
  proof -
    have "(of_nat (length f) - 1) * 8 = bytes * 8" by (simp add: len)
    moreover have "\<not> 30 < bloom_k this" using policy by (simp add: word_less_nat_alt)
    moreover have "\<not> length f < 2" using len bytes by simp
    ultimately show ?thesis
      using f(4) that by (simp add: Bloom_KeyMayMatch_def Let_def len last k)
  qed
  moreover have "Bloom_CreateFilter this keys dst = Ret (dst @ f)"
    using f(1) by (simp add: Bloom_CreateFilter_def Let_def bits_def bytes_def)
  ultimately show ?thesis by blast
qed

locale bloom_policy =
  fixes this :: BloomFilterPolicy
  assumes made: "\<exists>b. 0 \<le> b \<and> b < 2 ^ 31 \<and> new_BloomFilterPolicy b = Ret this"

sublocale bloom_policy \<subseteq> filter_policy "BloomFilter this" "\<lambda>_. True" "\<lambda>n. n < 2 ^ 31"
proof unfold_locales
  fix keys :: "slice list" and dst
  assume "length keys < 2 ^ 31"
  moreover obtain b where "unat (bloom_bits_per_key this) = nat b" "unat (bloom_k this) \<le> 30"
      "nat b < 2 ^ 31"
    using made new_BloomFilterPolicy_spec by fastforce
  ultimately show "\<exists>f. CreateFilter (BloomFilter this) keys dst = Ret (dst @ f) \<and>
      (\<forall>key \<in> set keys. KeyMayMatch (BloomFilter this) key f = Ret True)"
    using Bloom_no_false_negatives [of this "nat b" keys dst] by (auto simp: BloomFilter_def)
qed

text \<open>The policy the documentation recommends, with ten bits per key.\<close>

definition Bloom10 :: BloomFilterPolicy where
  "Bloom10 = \<lparr> bloom_bits_per_key = 10, bloom_k = 6 \<rparr>"

interpretation bloom10: bloom_policy Bloom10
  by unfold_locales (intro exI [of _ 10], simp add: new_BloomFilterPolicy_def Bloom10_def)

text \<open>C27: a Bloom filter has no false negatives: for every number of bits per key an \<open>int\<close> can hold
  that is not negative and every list of keys, the filter is appended to \<open>dst\<close> without a fault, and
  every policy, whatever its own parameters, answers that a key of the list may match it.\<close>

theorem Bloom_filter_never_denies:
  assumes "0 \<le> b" "b < 2 ^ 31" and "length keys < 2 ^ 31"
  shows "\<exists>F f. NewBloomFilterPolicy b = Ret F \<and> CreateFilter F keys dst = Ret (dst @ f) \<and>
    (\<forall>that. \<forall>key \<in> set keys. KeyMayMatch (BloomFilter that) key f = Ret True)"
proof -
  obtain P where P: "new_BloomFilterPolicy b = Ret P"
      "unat (bloom_bits_per_key P) = nat b" "unat (bloom_k P) \<le> 30"
    using new_BloomFilterPolicy_spec [OF assms(1,2)] by blast
  moreover have "nat b < 2 ^ 31" using assms by simp
  ultimately show ?thesis
    using Bloom_no_false_negatives [OF P(2,3) _ assms(3), of dst]
    by (auto simp: NewBloomFilterPolicy_def BloomFilter_def)
qed

theorem Bloom_filter_never_denies_witness:
  "\<exists>F f. NewBloomFilterPolicy 10 = Ret F \<and> CreateFilter F [[1, 2], [3]] [9] = Ret ([9] @ f) \<and>
    KeyMayMatch (BloomFilter Bloom10) [3] f = Ret True"
  using Bloom_filter_never_denies [of 10 "[[1, 2], [3]]" "[9]"] by fastforce

end
