(* ===== verification/LdbFilename.thy ===== *)
theory LdbFilename
  imports LdbSlice
begin

text \<open>
  Numbers and strings as text (\<open>logging.cc\<close>), the names of the files of a database (\<open>filename.h\<close>,
  \<open>filename.cc\<close>) and the replacement of the file \<open>CURRENT\<close> (\<open>SetCurrentFile\<close> with the helpers of
  \<open>env.cc\<close>). The file operations of the class \<open>Env\<close> are parameters, collected in a record.
\<close>

section \<open>Text\<close>

text \<open>The bytes of a string literal.\<close>

definition ascii :: "string \<Rightarrow> slice" where
  "ascii s = map of_char s"

fun decimal :: "nat \<Rightarrow> slice" where
  "decimal n = (if n < 10 then [of_nat (48 + n)] else decimal (n div 10) @ [of_nat (48 + n mod 10)])"

declare decimal.simps [simp del]

definition AppendNumberTo :: "slice \<Rightarrow> u64 \<Rightarrow> slice" where
  "AppendNumberTo str num = str @ decimal (unat num)"

definition NumberToString :: "u64 \<Rightarrow> slice" where
  "NumberToString num = AppendNumberTo [] num"

text \<open>The format \<open>%02x\<close> for a byte.\<close>

definition hex_digit :: "nat \<Rightarrow> u8" where
  "hex_digit d = of_nat (if d < 10 then 48 + d else 87 + d)"

definition escape_char :: "u8 \<Rightarrow> slice" where
  "escape_char c =
     (if 32 \<le> c \<and> c \<le> 126 then [c]
      else [92, 120] @ [hex_digit (unat c div 16), hex_digit (unat c mod 16)])"

definition AppendEscapedStringTo :: "slice \<Rightarrow> slice \<Rightarrow> slice" where
  "AppendEscapedStringTo str value = str @ concat (map escape_char value)"

definition EscapeString :: "slice \<Rightarrow> slice" where
  "EscapeString value = AppendEscapedStringTo [] value"

text \<open>The loop of \<open>ConsumeDecimalNumber\<close>: \<open>None\<close> when the number does not fit, else the value and
  what follows the digits.\<close>

definition kMaxUint64 :: u64 where "kMaxUint64 = - 1"

definition is_digit :: "u8 \<Rightarrow> bool" where "is_digit ch \<longleftrightarrow> 48 \<le> ch \<and> ch \<le> 57"

fun decimal_loop :: "u64 \<Rightarrow> slice \<Rightarrow> (u64 \<times> slice) option" where
  "decimal_loop value [] = Some (value, [])"
| "decimal_loop value (ch # current) =
     (if \<not> is_digit ch then Some (value, ch # current)
      else if kMaxUint64 div 10 < value \<or>
              (value = kMaxUint64 div 10 \<and> 48 + ucast (kMaxUint64 mod 10) < ch) then None
      else decimal_loop (value * 10 + ucast (ch - 48)) current)"

text \<open>The result: \<open>*val\<close> if the function returns \<open>true\<close>, and \<open>*in\<close>.\<close>

definition ConsumeDecimalNumber :: "slice \<Rightarrow> u64 option \<times> slice" where
  "ConsumeDecimalNumber inp =
     (case decimal_loop 0 inp of
        None \<Rightarrow> (None, inp)
      | Some (value, rest) \<Rightarrow>
          let digits_consumed = length inp - length rest
          in (if digits_consumed \<noteq> 0 then Some value else None, rest))"

section \<open>File names\<close>

datatype FileType =
  kLogFile | kDBLockFile | kTableFile | kDescriptorFile | kCurrentFile | kTempFile | kInfoLogFile

text \<open>The format \<open>%06llu\<close>.\<close>

definition decimal6 :: "nat \<Rightarrow> slice" where
  "decimal6 n = replicate (6 - length (decimal n)) 48 @ decimal n"

definition MakeFileName :: "slice \<Rightarrow> u64 \<Rightarrow> slice \<Rightarrow> slice" where
  "MakeFileName dbname number suffix =
     dbname @ ascii ''/'' @ decimal6 (unat number) @ ascii ''.'' @ suffix"

definition LogFileName :: "slice \<Rightarrow> u64 \<Rightarrow> slice" where
  "LogFileName dbname number = MakeFileName dbname number (ascii ''log'')"

definition TableFileName :: "slice \<Rightarrow> u64 \<Rightarrow> slice" where
  "TableFileName dbname number = MakeFileName dbname number (ascii ''ldb'')"

definition SSTTableFileName :: "slice \<Rightarrow> u64 \<Rightarrow> slice" where
  "SSTTableFileName dbname number = MakeFileName dbname number (ascii ''sst'')"

definition DescriptorFileName :: "slice \<Rightarrow> u64 \<Rightarrow> slice" where
  "DescriptorFileName dbname number = dbname @ ascii ''/MANIFEST-'' @ decimal6 (unat number)"

definition CurrentFileName :: "slice \<Rightarrow> slice" where
  "CurrentFileName dbname = dbname @ ascii ''/CURRENT''"

definition LockFileName :: "slice \<Rightarrow> slice" where
  "LockFileName dbname = dbname @ ascii ''/LOCK''"

definition TempFileName :: "slice \<Rightarrow> u64 \<Rightarrow> slice" where
  "TempFileName dbname number = MakeFileName dbname number (ascii ''dbtmp'')"

definition InfoLogFileName :: "slice \<Rightarrow> slice" where
  "InfoLogFileName dbname = dbname @ ascii ''/LOG''"

definition OldInfoLogFileName :: "slice \<Rightarrow> slice" where
  "OldInfoLogFileName dbname = dbname @ ascii ''/LOG.old''"

definition ParseFileName :: "slice \<Rightarrow> (u64 \<times> FileType) option" where
  "ParseFileName filename =
     (let rest = filename
      in if rest = ascii ''CURRENT'' then Some (0, kCurrentFile)
         else if rest = ascii ''LOCK'' then Some (0, kDBLockFile)
         else if rest = ascii ''LOG'' \<or> rest = ascii ''LOG.old'' then Some (0, kInfoLogFile)
         else if take (length (ascii ''MANIFEST-'')) rest = ascii ''MANIFEST-''
         then (case ConsumeDecimalNumber (drop (length (ascii ''MANIFEST-'')) rest) of
                 (None, _) \<Rightarrow> None
               | (Some num, rest) \<Rightarrow> if rest \<noteq> [] then None else Some (num, kDescriptorFile))
         else (case ConsumeDecimalNumber rest of
                 (None, _) \<Rightarrow> None
               | (Some num, suffix) \<Rightarrow>
                   if suffix = ascii ''.log'' then Some (num, kLogFile)
                   else if suffix = ascii ''.sst'' \<or> suffix = ascii ''.ldb'' then Some (num, kTableFile)
                   else if suffix = ascii ''.dbtmp'' then Some (num, kTempFile)
                   else None))"

section \<open>Replacing CURRENT\<close>

text \<open>The operations of \<open>Env\<close> and \<open>WritableFile\<close>, on a state of the file system.\<close>

record 'e Env =
  NewWritableFile :: "slice \<Rightarrow> 'e \<Rightarrow> Status \<times> 'e"
  File_Append :: "slice \<Rightarrow> slice \<Rightarrow> 'e \<Rightarrow> Status \<times> 'e"
  File_Sync :: "slice \<Rightarrow> 'e \<Rightarrow> Status \<times> 'e"
  File_Close :: "slice \<Rightarrow> 'e \<Rightarrow> Status \<times> 'e"
  Env_DeleteFile :: "slice \<Rightarrow> 'e \<Rightarrow> Status \<times> 'e"
  Env_RenameFile :: "slice \<Rightarrow> slice \<Rightarrow> 'e \<Rightarrow> Status \<times> 'e"

definition DoWriteStringToFile :: "'e Env \<Rightarrow> slice \<Rightarrow> slice \<Rightarrow> bool \<Rightarrow> 'e \<Rightarrow> Status \<times> 'e" where
  "DoWriteStringToFile env data fname should_sync e =
     (let (s, e) = NewWritableFile env fname e
      in if \<not> Status_ok s then (s, e)
         else let (s, e) = File_Append env fname data e;
                  (s, e) = (if Status_ok s \<and> should_sync then File_Sync env fname e else (s, e));
                  (s, e) = (if Status_ok s then File_Close env fname e else (s, e))
           in if \<not> Status_ok s then (s, snd (Env_DeleteFile env fname e)) else (s, e))"

definition WriteStringToFile :: "'e Env \<Rightarrow> slice \<Rightarrow> slice \<Rightarrow> 'e \<Rightarrow> Status \<times> 'e" where
  "WriteStringToFile env data fname e = DoWriteStringToFile env data fname False e"

definition WriteStringToFileSync :: "'e Env \<Rightarrow> slice \<Rightarrow> slice \<Rightarrow> 'e \<Rightarrow> Status \<times> 'e" where
  "WriteStringToFileSync env data fname e = DoWriteStringToFile env data fname True e"

definition SetCurrentFile :: "'e Env \<Rightarrow> slice \<Rightarrow> u64 \<Rightarrow> 'e \<Rightarrow> Status \<times> 'e" where
  "SetCurrentFile env dbname descriptor_number e =
     (let manifest = DescriptorFileName dbname descriptor_number;
          contents = drop (length dbname + 1) manifest;
          tmp = TempFileName dbname descriptor_number;
          (s, e) = WriteStringToFileSync env (contents @ [10]) tmp e;
          (s, e) = (if Status_ok s then Env_RenameFile env tmp (CurrentFileName dbname) e else (s, e))
      in if \<not> Status_ok s then (s, snd (Env_DeleteFile env tmp e)) else (s, e))"

section \<open>Decimal numbers\<close>

text \<open>The value of a string of digits.\<close>

definition digits_value :: "nat \<Rightarrow> slice \<Rightarrow> nat" where
  "digits_value n ds = foldl (\<lambda>n ch. 10 * n + (unat ch - 48)) n ds"

lemma digits_value_simps [simp]:
  "digits_value n [] = n" "digits_value n (d # ds) = digits_value (10 * n + (unat d - 48)) ds"
  "digits_value n (ds @ es) = digits_value (digits_value n ds) es"
  by (simp_all add: digits_value_def)

lemma digits_value_ge: "n \<le> digits_value n ds"
proof (induction ds arbitrary: n)
  case (Cons d ds)
  have "n \<le> 10 * n + (unat d - 48)" by simp
  also have "\<dots> \<le> digits_value (10 * n + (unat d - 48)) ds" by (rule Cons)
  finally show ?case by simp
qed simp

lemma is_digit_unat: "is_digit ch \<longleftrightarrow> 48 \<le> unat ch \<and> unat ch \<le> 57"
  by (simp add: is_digit_def word_le_nat_alt)

lemma decimal_loop_spec:
  assumes "\<forall>d \<in> set ds. is_digit d" and "rest = [] \<or> \<not> is_digit (hd rest)"
  shows "decimal_loop v (ds @ rest) =
     (if digits_value (unat v) ds < 2 ^ 64 then Some (of_nat (digits_value (unat v) ds), rest) else None)"
  using assms(1)
proof (induction ds arbitrary: v)
  case Nil
  then show ?case using assms(2) unat_u64_less [of v] by (cases rest) auto
next
  case (Cons d ds)
  then have d: "48 \<le> unat d" "unat d \<le> 57" by (auto simp: is_digit_unat)
  have sub: "unat (d - 48) = unat d - 48" using d by (simp add: unat_sub_if')
  then have u: "unat (ucast (d - 48) :: u64) = unat d - 48"
    using d by (simp add: unsigned_ucast_eq take_bit_nat_eq_self)
  have max: "unat (kMaxUint64 div 10) = 1844674407370955161" "(48 + ucast (kMaxUint64 mod 10) :: u8) = 53"
    by (simp_all add: kMaxUint64_def unat_div)
  have over: "(kMaxUint64 div 10 < v \<or> (v = kMaxUint64 div 10 \<and> 48 + ucast (kMaxUint64 mod 10) < d)) \<longleftrightarrow>
      2 ^ 64 \<le> 10 * unat v + (unat d - 48)"
    using d unfolding max(2) word_less_nat_alt word_unat_eq_iff [of v] max(1) by auto
  show ?case
  proof (cases "2 ^ 64 \<le> 10 * unat v + (unat d - 48)")
    case True
    then have "2 ^ 64 \<le> digits_value (10 * unat v + (unat d - 48)) ds"
      using digits_value_ge order_trans by blast
    with True over Cons.prems show ?thesis by auto
  next
    case False
    then have "unat (v * 10 + ucast (d - 48)) = 10 * unat v + (unat d - 48)"
      using u by (simp add: unat_word_ariths mult.commute)
    with False over Cons.prems Cons.IH [of "v * 10 + ucast (d - 48)"] show ?thesis by auto
  qed
qed

text \<open>The parser of decimal numbers takes the longest run of digits and returns its value exactly if
  there is a digit and the value fits 64 bits; otherwise it fails and, on an overflow, leaves the
  input alone.\<close>

theorem ConsumeDecimalNumber_spec:
  "ConsumeDecimalNumber inp =
     (let ds = takeWhile is_digit inp; rest = dropWhile is_digit inp; n = digits_value 0 ds
      in if 2 ^ 64 \<le> n then (None, inp)
         else (if ds = [] then None else Some (of_nat n), rest))"
proof -
  let ?ds = "takeWhile is_digit inp" and ?rest = "dropWhile is_digit inp"
  have "\<forall>d \<in> set ?ds. is_digit d" by (auto dest: set_takeWhileD)
  moreover have "?rest = [] \<or> \<not> is_digit (hd ?rest)" using hd_dropWhile by blast
  ultimately have "decimal_loop 0 inp = (if digits_value 0 ?ds < 2 ^ 64
      then Some (of_nat (digits_value 0 ?ds), ?rest) else None)"
    using decimal_loop_spec [of ?ds ?rest 0] by simp
  moreover have "length ?rest < length inp \<longleftrightarrow> ?ds \<noteq> []"
    by (metis append_self_conv2 length_append length_greater_0_conv less_add_same_cancel2
        takeWhile_dropWhile_id)
  ultimately show ?thesis
    by (cases "2 ^ 64 \<le> digits_value 0 ?ds") (simp_all add: ConsumeDecimalNumber_def Let_def)
qed

lemma ConsumeDecimal_run:
  assumes "\<forall>d \<in> set ds. is_digit d" and "rest = [] \<or> \<not> is_digit (hd rest)" and "ds \<noteq> []"
    and "digits_value 0 ds < 2 ^ 64"
  shows "ConsumeDecimalNumber (ds @ rest) = (Some (of_nat (digits_value 0 ds)), rest)"
  using decimal_loop_spec [OF assms(1,2), of 0] assms(3,4) by (simp add: ConsumeDecimalNumber_def Let_def)

lemma decimal_digits: "decimal n \<noteq> [] \<and> (\<forall>d \<in> set (decimal n). is_digit d) \<and> digits_value 0 (decimal n) = n"
proof (induction n rule: decimal.induct)
  case (1 n)
  have u: "unat (of_nat (48 + d) :: u8) = 48 + d" if "d < 10" for d
    using that by (simp add: unat_of_nat take_bit_nat_eq_self del: of_nat_add)
  show ?case
  proof (cases "n < 10")
    case True
    then show ?thesis using u [of n] by (simp add: decimal.simps [of n] is_digit_unat del: of_nat_add)
  next
    case False
    then show ?thesis
      using 1 u [of "n mod 10"] by (auto simp: decimal.simps [of n] is_digit_unat simp del: of_nat_add)
  qed
qed

lemma decimal6_digits:
  "decimal6 n \<noteq> [] \<and> (\<forall>d \<in> set (decimal6 n). is_digit d) \<and> digits_value 0 (decimal6 n) = n"
proof -
  have "digits_value 0 (replicate k 48) = 0" for k by (induction k) simp_all
  then show ?thesis using decimal_digits [of n] by (auto simp: decimal6_def is_digit_def)
qed

lemma ConsumeDecimal_decimal6:
  "rest = [] \<or> \<not> is_digit (hd rest) \<Longrightarrow>
   ConsumeDecimalNumber (decimal6 (unat n) @ rest) = (Some (n :: u64), rest)"
  using ConsumeDecimal_run [of "decimal6 (unat n)" rest] decimal6_digits [of "unat n"] unat_u64_less [of n]
  by simp

section \<open>File names round trip\<close>

lemma ParseFileName_digit:
  assumes "is_digit d" and "name = d # ds"
  shows "ParseFileName name =
     (case ConsumeDecimalNumber name of
        (None, _) \<Rightarrow> None
      | (Some num, suffix) \<Rightarrow>
          if suffix = ascii ''.log'' then Some (num, kLogFile)
          else if suffix = ascii ''.sst'' \<or> suffix = ascii ''.ldb'' then Some (num, kTableFile)
          else if suffix = ascii ''.dbtmp'' then Some (num, kTempFile)
          else None)"
proof -
  have "name \<noteq> ascii ''CURRENT'' \<and> name \<noteq> ascii ''LOCK'' \<and> name \<noteq> ascii ''LOG'' \<and>
      name \<noteq> ascii ''LOG.old'' \<and> take (length (ascii ''MANIFEST-'')) name \<noteq> ascii ''MANIFEST-''"
    using assms by (auto simp: ascii_def is_digit_def of_char_def)
  then show ?thesis by (simp add: ParseFileName_def)
qed

lemma ParseFileName_number:
  assumes "suffix = [] \<or> \<not> is_digit (hd suffix)"
  shows "ParseFileName (decimal6 (unat n) @ suffix) =
     (if suffix = ascii ''.log'' then Some (n, kLogFile)
      else if suffix = ascii ''.sst'' \<or> suffix = ascii ''.ldb'' then Some (n, kTableFile)
      else if suffix = ascii ''.dbtmp'' then Some (n, kTempFile)
      else None)"
proof -
  obtain d ds where "decimal6 (unat n) = d # ds" "is_digit d"
    using decimal6_digits [of "unat n"] by (cases "decimal6 (unat n)") auto
  then show ?thesis
    using ParseFileName_digit [of d "decimal6 (unat n) @ suffix" "ds @ suffix"]
      ConsumeDecimal_decimal6 [OF assms, of n] by simp
qed

text \<open>The name of a file without its directory.\<close>

definition base_name :: "slice \<Rightarrow> slice \<Rightarrow> slice" where
  "base_name dbname fname = drop (length dbname + 1) fname"

lemma base_name_ascii: "base_name dbname (dbname @ ascii (c # s) @ rest) = ascii s @ rest"
  by (simp add: base_name_def ascii_def)


section \<open>Replacing CURRENT is atomic\<close>

text \<open>
  What the code relies on from an \<open>Env\<close>, in terms of the content of the files: an operation on
  a file leaves the others alone, a new file is empty, an append that succeeds adds its data, a sync
  and a close that succeed keep the content, and a rename replaces its target by the source or fails
  and leaves the target alone.
\<close>

definition touches_only :: "('e \<Rightarrow> slice \<Rightarrow> slice option) \<Rightarrow> slice set \<Rightarrow> 'e \<Rightarrow> 'e \<Rightarrow> bool" where
  "touches_only content fs e e' \<longleftrightarrow> (\<forall>g. g \<notin> fs \<longrightarrow> content e' g = content e g)"

definition env_ok :: "'e Env \<Rightarrow> ('e \<Rightarrow> slice \<Rightarrow> slice option) \<Rightarrow> bool" where
  "env_ok env content \<longleftrightarrow>
     (\<forall>f e s e'. NewWritableFile env f e = (s, e') \<longrightarrow>
        touches_only content {f} e e' \<and> (Status_ok s \<longrightarrow> content e' f = Some [])) \<and>
     (\<forall>f d e s e'. File_Append env f d e = (s, e') \<longrightarrow>
        touches_only content {f} e e' \<and>
        (Status_ok s \<longrightarrow> content e' f = map_option (\<lambda>c. c @ d) (content e f))) \<and>
     (\<forall>f e s e'. File_Sync env f e = (s, e') \<longrightarrow>
        touches_only content {f} e e' \<and> (Status_ok s \<longrightarrow> content e' f = content e f)) \<and>
     (\<forall>f e s e'. File_Close env f e = (s, e') \<longrightarrow>
        touches_only content {f} e e' \<and> (Status_ok s \<longrightarrow> content e' f = content e f)) \<and>
     (\<forall>f e s e'. Env_DeleteFile env f e = (s, e') \<longrightarrow> touches_only content {f} e e') \<and>
     (\<forall>f g e s e'. Env_RenameFile env f g e = (s, e') \<longrightarrow>
        touches_only content {f, g} e e' \<and>
        content e' g = (if Status_ok s then content e f else content e g))"

lemma touches_only_trans:
  "touches_only content fs e e' \<Longrightarrow> touches_only content fs e' e'' \<Longrightarrow> touches_only content fs e e''"
  by (simp add: touches_only_def)

lemma touches_only_refl [simp]: "touches_only content fs e e"
  by (simp add: touches_only_def)

lemma env_okD:
  assumes "env_ok env content"
  shows
    "touches_only content {f} e (snd (NewWritableFile env f e))"
    "Status_ok (fst (NewWritableFile env f e)) \<Longrightarrow> content (snd (NewWritableFile env f e)) f = Some []"
    "touches_only content {f} e (snd (File_Append env f d e))"
    "Status_ok (fst (File_Append env f d e)) \<Longrightarrow>
       content (snd (File_Append env f d e)) f = map_option (\<lambda>c. c @ d) (content e f)"
    "touches_only content {f} e (snd (File_Sync env f e))"
    "Status_ok (fst (File_Sync env f e)) \<Longrightarrow> content (snd (File_Sync env f e)) f = content e f"
    "touches_only content {f} e (snd (File_Close env f e))"
    "Status_ok (fst (File_Close env f e)) \<Longrightarrow> content (snd (File_Close env f e)) f = content e f"
    "touches_only content {f} e (snd (Env_DeleteFile env f e))"
    "content (snd (Env_RenameFile env f g e)) g =
       (if Status_ok (fst (Env_RenameFile env f g e)) then content e f else content e g)"
  using assms unfolding env_ok_def by (metis prod.collapse)+

lemma DoWriteStringToFile_effect:
  assumes "env_ok env content"
  shows "touches_only content {f} e (snd (DoWriteStringToFile env d f sync e))"
    and "Status_ok (fst (DoWriteStringToFile env d f sync e)) \<Longrightarrow>
         content (snd (DoWriteStringToFile env d f sync e)) f = Some d"
proof -
  note ok = env_okD [OF assms]
  obtain s1 e1 where new: "NewWritableFile env f e = (s1, e1)" by fastforce
  obtain s2 e2 where app: "File_Append env f d e1 = (s2, e2)" by fastforce
  obtain s3 e3 where syn: "(if Status_ok s2 \<and> sync then File_Sync env f e2 else (s2, e2)) = (s3, e3)"
    by fastforce
  obtain s4 e4 where clo: "(if Status_ok s3 then File_Close env f e3 else (s3, e3)) = (s4, e4)"
    by fastforce
  have t: "touches_only content {f} e e1" "touches_only content {f} e1 e2"
    "touches_only content {f} e2 e3" "touches_only content {f} e3 e4"
    using ok(1) [of f e] ok(3) [of f e1 d] ok(5) [of f e2] ok(7) [of f e3] new app syn clo
    by (auto split: if_splits)
  then have all: "touches_only content {f} e e4" by (blast intro: touches_only_trans)
  have res: "DoWriteStringToFile env d f sync e = (if \<not> Status_ok s1 then (s1, e1)
     else if \<not> Status_ok s4 then (s4, snd (Env_DeleteFile env f e4)) else (s4, e4))"
    by (simp add: DoWriteStringToFile_def new app syn clo)
  show "touches_only content {f} e (snd (DoWriteStringToFile env d f sync e))"
    using t(1) all ok(9) [of f e4] by (auto simp: res intro: touches_only_trans)
  assume "Status_ok (fst (DoWriteStringToFile env d f sync e))"
  then have "Status_ok s1" "Status_ok s4" and r: "snd (DoWriteStringToFile env d f sync e) = e4"
    by (auto simp: res split: if_splits)
  moreover from this clo have "Status_ok s3" by (auto split: if_splits)
  moreover from this syn have "Status_ok s2" by (auto split: if_splits)
  ultimately show "content (snd (DoWriteStringToFile env d f sync e)) f = Some d"
    using ok(2) [of f e] ok(4) [of f d e1] ok(6) [of f e2] ok(8) [of f e3] new app syn clo
    by (auto split: if_splits)
qed

lemma TempFileName_not_current: "TempFileName dbname n \<noteq> CurrentFileName dbname"
proof
  assume "TempFileName dbname n = CurrentFileName dbname"
  then have "ascii ''/'' @ decimal6 (unat n) @ ascii ''.dbtmp'' = ascii ''/CURRENT''"
    by (simp add: TempFileName_def CurrentFileName_def MakeFileName_def ascii_def)
  then show False using decimal6_digits [of "unat n"]
    by (cases "decimal6 (unat n)") (auto simp: ascii_def is_digit_def of_char_def)
qed

text \<open>C18: replacing the file \<open>CURRENT\<close> is atomic: if \<open>SetCurrentFile\<close> returns success, the file holds
  the name of the new manifest and a line end, and if any of its steps fails, the file is as it was.\<close>

theorem SetCurrentFile_atomic:
  assumes "env_ok env content"
  shows "content (snd (SetCurrentFile env dbname n e)) (CurrentFileName dbname) =
     (if Status_ok (fst (SetCurrentFile env dbname n e))
      then Some (base_name dbname (DescriptorFileName dbname n) @ [10])
      else content e (CurrentFileName dbname))"
proof -
  let ?tmp = "TempFileName dbname n" and ?cur = "CurrentFileName dbname"
    and ?data = "base_name dbname (DescriptorFileName dbname n) @ [10]"
  obtain s1 e1 where w: "DoWriteStringToFile env ?data ?tmp True e = (s1, e1)" by fastforce
  obtain s2 e2 where r: "(if Status_ok s1 then Env_RenameFile env ?tmp ?cur e1 else (s1, e1)) = (s2, e2)"
    by fastforce
  have res: "SetCurrentFile env dbname n e =
     (if \<not> Status_ok s2 then (s2, snd (Env_DeleteFile env ?tmp e2)) else (s2, e2))"
    using w r by (simp add: SetCurrentFile_def WriteStringToFileSync_def base_name_def)
  have keep: "content e1 ?cur = content e ?cur"
    using DoWriteStringToFile_effect(1) [OF assms, where f = ?tmp and d = ?data and e = e and sync = True]
      TempFileName_not_current [of dbname n] by (simp add: w touches_only_def)
  have del: "content (snd (Env_DeleteFile env ?tmp e2)) ?cur = content e2 ?cur"
    using env_okD(9) [OF assms, of ?tmp e2] TempFileName_not_current [of dbname n]
    by (simp add: touches_only_def)
  have "Status_ok s1 \<Longrightarrow> content e1 ?tmp = Some ?data"
    using DoWriteStringToFile_effect(2) [OF assms, where f = ?tmp and d = ?data and e = e and sync = True]
    by (simp add: w)
  then have "content e2 ?cur = (if Status_ok s2 then Some ?data else content e ?cur)"
    using env_okD(10) [OF assms, of ?tmp ?cur e1] keep r by (auto split: if_splits)
  with del show ?thesis by (simp add: res)
qed

text \<open>An \<open>Env\<close> that keeps the files in memory and whose syncs fail.\<close>

definition memory_env :: "bool \<Rightarrow> (slice \<Rightarrow> slice option) Env" where
  "memory_env sync_works =
     \<lparr> NewWritableFile = \<lambda>f e. (OK, e(f \<mapsto> [])),
       File_Append = \<lambda>f d e. (OK, e(f := map_option (\<lambda>c. c @ d) (e f))),
       File_Sync = \<lambda>f e. (if sync_works then OK else IOError ''sync'' [], e),
       File_Close = \<lambda>f e. (OK, e),
       Env_DeleteFile = \<lambda>f e. (OK, e(f := None)),
       Env_RenameFile = \<lambda>f g e. (OK, e(f := None, g := e f)) \<rparr>"

lemma memory_env_ok: "env_ok (memory_env b) (\<lambda>e. e)"
  by (auto simp: env_ok_def memory_env_def touches_only_def Status_ok_def IOError_def split: if_splits)

theorem SetCurrentFile_atomic_witness:
  "snd (SetCurrentFile (memory_env True) (ascii ''db'') 5 Map.empty) (ascii ''db/CURRENT'') =
     Some (ascii ''MANIFEST-000005'' @ [10]) \<and>
   snd (SetCurrentFile (memory_env False) (ascii ''db'') 5 Map.empty) (ascii ''db/CURRENT'') = None"
proof -
  have cur: "CurrentFileName (ascii ''db'') = ascii ''db/CURRENT''"
    by (simp add: CurrentFileName_def ascii_def)
  have name: "base_name (ascii ''db'') (DescriptorFileName (ascii ''db'') 5) = ascii ''MANIFEST-000005''"
    by code_simp
  have ok: "Status_ok (fst (SetCurrentFile (memory_env b) (ascii ''db'') 5 Map.empty)) = b" for b
    by (simp add: SetCurrentFile_def WriteStringToFileSync_def DoWriteStringToFile_def memory_env_def
        Let_def)
  show ?thesis
    using SetCurrentFile_atomic [OF memory_env_ok, of True "ascii ''db''" 5 Map.empty]
      SetCurrentFile_atomic [OF memory_env_ok, of False "ascii ''db''" 5 Map.empty]
    by (simp add: cur name ok)
qed

end
