(* ===== verification/LdbDbFormat.thy ===== *)
theory LdbDbFormat
  imports LdbBloom LdbFilename
begin

text \<open>
  Internal keys, \<open>dbformat.h\<close> and \<open>dbformat.cc\<close>: a user key followed by eight bytes that pack a
  sequence number and a value type; their comparator, built from the comparator of the user keys; the
  filter policy on internal keys; and the key of a lookup. The locale \<open>internal_comparator\<close> extends a
  comparator of user keys, and its sublocale shows that the comparator of internal keys keeps the
  contract. The assertions on sequence numbers are those of a debug build and are left out.
\<close>

section \<open>Constants and keys\<close>

definition kNumLevels :: nat where "kNumLevels = 7"
definition kL0_CompactionTrigger :: nat where "kL0_CompactionTrigger = 4"
definition kL0_SlowdownWritesTrigger :: nat where "kL0_SlowdownWritesTrigger = 8"
definition kL0_StopWritesTrigger :: nat where "kL0_StopWritesTrigger = 12"
definition kMaxMemCompactLevel :: nat where "kMaxMemCompactLevel = 2"
definition kReadBytesPeriod :: nat where "kReadBytesPeriod = 1048576"

text \<open>The enumeration \<open>ValueType\<close>; a parser may cast any byte to it.\<close>

type_synonym ValueType = u8

definition kTypeDeletion :: ValueType where "kTypeDeletion = 0"
definition kTypeValue :: ValueType where "kTypeValue = 1"
definition kValueTypeForSeek :: ValueType where "kValueTypeForSeek = kTypeValue"

type_synonym SequenceNumber = u64

definition kMaxSequenceNumber :: SequenceNumber where
  "kMaxSequenceNumber = push_bit 56 1 - 1"

record ParsedInternalKey =
  user_key :: slice
  sequence :: SequenceNumber
  vtype :: ValueType

definition InternalKeyEncodingLength :: "ParsedInternalKey \<Rightarrow> nat" where
  "InternalKeyEncodingLength key = length (user_key key) + 8"

definition PackSequenceAndType :: "u64 \<Rightarrow> ValueType \<Rightarrow> u64" where
  "PackSequenceAndType seq t = push_bit 8 seq OR ucast t"

definition AppendInternalKey :: "slice \<Rightarrow> ParsedInternalKey \<Rightarrow> slice" where
  "AppendInternalKey result key =
     PutFixed64 (result @ user_key key) (PackSequenceAndType (sequence key) (vtype key))"

text \<open>The pointer \<open>data + size - 8\<close> is outside the key if the key is too short.\<close>

definition ExtractUserKey :: "slice \<Rightarrow> slice res" where
  "ExtractUserKey internal_key =
     (if 8 \<le> length internal_key then Ret (take (length internal_key - 8) internal_key) else Undef)"

definition DecodeTag :: "slice \<Rightarrow> u64 res" where
  "DecodeTag key = (if 8 \<le> length key then DecodeFixed64 (drop (length key - 8) key) else Undef)"

definition ParseInternalKey :: "slice \<Rightarrow> ParsedInternalKey option res" where
  "ParseInternalKey internal_key =
     (let n = length internal_key
      in if n < 8 then Ret None
         else res_bind (DecodeFixed64 (drop (n - 8) internal_key)) (\<lambda>num.
           let c = (ucast (num AND 0xff) :: u8);
               result = \<lparr> user_key = take (n - 8) internal_key, sequence = drop_bit 8 num, vtype = c \<rparr>
           in Ret (if c \<le> kTypeValue then Some result else None)))"

definition ParsedInternalKey_DebugString :: "ParsedInternalKey \<Rightarrow> slice" where
  "ParsedInternalKey_DebugString key =
     [39] @ EscapeString (user_key key) @
     take 49 ([39, 32, 64, 32] @ decimal (unat (sequence key)) @ [32, 58, 32] @ decimal (unat (vtype key)))"

text \<open>An \<open>InternalKey\<close> is its string \<open>rep_\<close>.\<close>

type_synonym InternalKey = slice

definition new_InternalKey :: "slice \<Rightarrow> SequenceNumber \<Rightarrow> ValueType \<Rightarrow> InternalKey" where
  "new_InternalKey u s t = AppendInternalKey [] \<lparr> user_key = u, sequence = s, vtype = t \<rparr>"

definition InternalKey_DecodeFrom :: "slice \<Rightarrow> InternalKey" where
  "InternalKey_DecodeFrom s = s"

text \<open>\<open>Encode\<close> asserts that the key is not the empty one, which stands for an invalid key.\<close>

definition InternalKey_Encode :: "InternalKey \<Rightarrow> slice res" where
  "InternalKey_Encode rep = (if rep = [] then Undef else Ret rep)"

definition InternalKey_user_key :: "InternalKey \<Rightarrow> slice res" where
  "InternalKey_user_key rep = ExtractUserKey rep"

definition InternalKey_SetFrom :: "ParsedInternalKey \<Rightarrow> InternalKey" where
  "InternalKey_SetFrom p = AppendInternalKey [] p"

definition InternalKey_DebugString :: "InternalKey \<Rightarrow> slice res" where
  "InternalKey_DebugString rep =
     res_bind (ParseInternalKey rep) (\<lambda>parsed.
       Ret (case parsed of
              Some p \<Rightarrow> ParsedInternalKey_DebugString p
            | None \<Rightarrow> ascii ''(bad)'' @ EscapeString rep))"

section \<open>The comparator of internal keys\<close>

definition InternalKeyComparator_Compare :: "Comparator \<Rightarrow> slice \<Rightarrow> slice \<Rightarrow> int res" where
  "InternalKeyComparator_Compare user akey bkey =
     res_bind (ExtractUserKey akey) (\<lambda>a.
     res_bind (ExtractUserKey bkey) (\<lambda>b.
     res_bind (Compare user a b) (\<lambda>r.
       if r = 0
       then res_bind (DecodeTag akey) (\<lambda>anum.
            res_bind (DecodeTag bkey) (\<lambda>bnum.
              Ret (if bnum < anum then - 1 else if anum < bnum then 1 else r)))
       else Ret r)))"

definition seek_tag :: u64 where
  "seek_tag = PackSequenceAndType kMaxSequenceNumber kValueTypeForSeek"

definition InternalKeyComparator_FindShortestSeparator ::
    "Comparator \<Rightarrow> slice \<Rightarrow> slice \<Rightarrow> slice res" where
  "InternalKeyComparator_FindShortestSeparator user start limit =
     res_bind (ExtractUserKey start) (\<lambda>user_start.
     res_bind (ExtractUserKey limit) (\<lambda>user_limit.
     res_bind (FindShortestSeparator user user_start user_limit) (\<lambda>tmp.
       if length tmp < length user_start
       then res_bind (Compare user user_start tmp) (\<lambda>r.
              if r < 0 then Ret (PutFixed64 tmp seek_tag) else Ret start)
       else Ret start)))"

definition InternalKeyComparator_FindShortSuccessor :: "Comparator \<Rightarrow> slice \<Rightarrow> slice res" where
  "InternalKeyComparator_FindShortSuccessor user key =
     res_bind (ExtractUserKey key) (\<lambda>user_key.
     res_bind (FindShortSuccessor user user_key) (\<lambda>tmp.
       if length tmp < length user_key
       then res_bind (Compare user user_key tmp) (\<lambda>r.
              if r < 0 then Ret (PutFixed64 tmp seek_tag) else Ret key)
       else Ret key))"

definition InternalKeyComparator :: "Comparator \<Rightarrow> Comparator" where
  "InternalKeyComparator user =
     \<lparr> Name = ''leveldb.InternalKeyComparator'',
       Compare = InternalKeyComparator_Compare user,
       FindShortestSeparator = InternalKeyComparator_FindShortestSeparator user,
       FindShortSuccessor = InternalKeyComparator_FindShortSuccessor user \<rparr>"

section \<open>Filters and lookups\<close>

primrec ExtractUserKeys :: "slice list \<Rightarrow> slice list res" where
  "ExtractUserKeys [] = Ret []"
| "ExtractUserKeys (key # keys) =
     res_bind (ExtractUserKey key) (\<lambda>k. res_bind (ExtractUserKeys keys) (\<lambda>ks. Ret (k # ks)))"

definition InternalFilterPolicy :: "FilterPolicy \<Rightarrow> FilterPolicy" where
  "InternalFilterPolicy user =
     \<lparr> FilterPolicy_Name = FilterPolicy_Name user,
       CreateFilter = \<lambda>keys dst. res_bind (ExtractUserKeys keys) (\<lambda>mkey. CreateFilter user mkey dst),
       KeyMayMatch = \<lambda>key f. res_bind (ExtractUserKey key) (\<lambda>k. KeyMayMatch user k f) \<rparr>"

text \<open>The bytes from \<open>start_\<close> to \<open>end_\<close>, and the distance of \<open>kstart_\<close> from \<open>start_\<close>.\<close>

record LookupKey =
  lookup_bytes :: slice
  kstart :: nat

definition new_LookupKey :: "slice \<Rightarrow> SequenceNumber \<Rightarrow> LookupKey" where
  "new_LookupKey u s =
     (let klength = EncodeVarint32 (of_nat (length u + 8))
      in \<lparr> lookup_bytes = klength @ u @ EncodeFixed64 (PackSequenceAndType s kValueTypeForSeek),
           kstart = length klength \<rparr>)"

definition memtable_key :: "LookupKey \<Rightarrow> slice" where
  "memtable_key k = lookup_bytes k"

definition internal_key :: "LookupKey \<Rightarrow> slice" where
  "internal_key k = drop (kstart k) (lookup_bytes k)"

definition lookup_user_key :: "LookupKey \<Rightarrow> slice" where
  "lookup_user_key k = take (length (lookup_bytes k) - kstart k - 8) (drop (kstart k) (lookup_bytes k))"

section \<open>The parts of an internal key\<close>

definition user_of :: "slice \<Rightarrow> slice" where
  "user_of k = take (length k - 8) k"

definition tag_of :: "slice \<Rightarrow> u64" where
  "tag_of k = le_word (drop (length k - 8) k)"

lemma parts_simps [simp]:
  "user_of (u @ EncodeFixed64 t) = u" "tag_of (u @ EncodeFixed64 t) = t"
  by (simp_all add: user_of_def tag_of_def EncodeFixed64_def kLittleEndian_def)

lemma parts_PutFixed64 [simp]: "user_of (PutFixed64 u t) = u" "tag_of (PutFixed64 u t) = t"
  by (simp_all add: PutFixed64_def)

lemma length_PutFixed64 [simp]: "length (PutFixed64 u t) = length u + 8"
  by (simp add: PutFixed64_def)

lemma key_parts: "8 \<le> length k \<Longrightarrow> PutFixed64 (user_of k) (tag_of k) = k"
  using le_bytes_le_word [of "drop (length k - 8) k", where 'a = 64]
  by (simp add: PutFixed64_def user_of_def tag_of_def EncodeFixed64_def kLittleEndian_def)

lemma key_eq: "8 \<le> length a \<Longrightarrow> 8 \<le> length b \<Longrightarrow> a = b \<longleftrightarrow> user_of a = user_of b \<and> tag_of a = tag_of b"
  by (metis key_parts)

lemma key_access [simp]:
  "8 \<le> length k \<Longrightarrow> ExtractUserKey k = Ret (user_of k)"
  "8 \<le> length k \<Longrightarrow> DecodeTag k = Ret (tag_of k)"
  by (simp_all add: ExtractUserKey_def user_of_def DecodeTag_def tag_of_def DecodeFixed64_total)

section \<open>The order of internal keys\<close>

text \<open>User keys in their order, and for one user key the larger tags, that is the newer entries, first.\<close>

definition internal_ok :: "(slice \<Rightarrow> bool) \<Rightarrow> slice \<Rightarrow> bool" where
  "internal_ok ok k \<longleftrightarrow> 8 \<le> length k \<and> ok (user_of k)"

definition internal_less :: "(slice \<Rightarrow> slice \<Rightarrow> bool) \<Rightarrow> slice \<Rightarrow> slice \<Rightarrow> bool" where
  "internal_less lt a b \<longleftrightarrow> lt (user_of a) (user_of b) \<or> (user_of a = user_of b \<and> tag_of b < tag_of a)"

text \<open>The separator of two internal keys is also asked for with equal user keys, about which \<open>comparator.h\<close> says nothing.
  What the code needs there is that the user comparator returns a key that is not both shorter and greater.\<close>

locale internal_comparator = user: key_comparator C ok lt
  for C :: Comparator and ok :: "slice \<Rightarrow> bool" and lt :: "slice \<Rightarrow> slice \<Rightarrow> bool" +
  assumes same_key: "ok a \<Longrightarrow> \<exists>s. FindShortestSeparator C a a = Ret s \<and> ok s \<and> \<not> (length s < length a \<and> lt a s)"
begin

lemma compare_internal:
  assumes "internal_ok ok a" "internal_ok ok b"
  shows "\<exists>r. InternalKeyComparator_Compare C a b = Ret r \<and> (r < 0 \<longleftrightarrow> internal_less lt a b) \<and> (r = 0 \<longleftrightarrow> a = b)"
  using assms user.cmp [of "user_of a" "user_of b"] user.irrefl key_eq [of a b]
  by (auto simp: InternalKeyComparator_Compare_def internal_ok_def internal_less_def not_less_iff_gr_or_eq split: if_splits)

lemma separator_same_user:
  assumes "internal_ok ok a" "internal_ok ok b" "user_of a = user_of b"
  shows "InternalKeyComparator_FindShortestSeparator C a b = Ret a"
proof -
  obtain s where s: "FindShortestSeparator C (user_of a) (user_of a) = Ret s" "ok s"
      "\<not> (length s < length (user_of a) \<and> lt (user_of a) s)"
    using assms(1) same_key [of "user_of a"] by (auto simp: internal_ok_def)
  obtain r where "Compare C (user_of a) s = Ret r" "r < 0 \<longleftrightarrow> lt (user_of a) s"
    using assms(1) s(2) user.cmp [of "user_of a" s] by (auto simp: internal_ok_def)
  then show ?thesis using assms s by (auto simp: InternalKeyComparator_FindShortestSeparator_def internal_ok_def)
qed

lemma shorter_key:
  assumes "ok tmp" "lt (user_of a) tmp"
  shows "internal_ok ok (PutFixed64 tmp seek_tag)" "internal_less lt a (PutFixed64 tmp seek_tag)"
  using assms by (simp_all add: internal_ok_def internal_less_def)

lemma separator_internal:
  assumes a: "internal_ok ok a" and b: "internal_ok ok b" and less: "internal_less lt a b"
  shows "\<exists>s. InternalKeyComparator_FindShortestSeparator C a b = Ret s \<and> internal_ok ok s \<and>
    (s = a \<or> internal_less lt a s) \<and> internal_less lt s b"
proof (cases "lt (user_of a) (user_of b)")
  case True
  with a b obtain s where s: "FindShortestSeparator C (user_of a) (user_of b) = Ret s" "ok s"
      "s = user_of a \<or> lt (user_of a) s" "lt s (user_of b)"
    using user.sep [of "user_of a" "user_of b"] by (auto simp: internal_ok_def)
  then have "internal_less lt (PutFixed64 s seek_tag) b" by (simp add: internal_less_def)
  with s a b less show ?thesis
    using user.cmp [of "user_of a" s] shorter_key [of s a] user.irrefl
    by (auto simp: InternalKeyComparator_FindShortestSeparator_def internal_ok_def)
next
  case False
  with less have "user_of a = user_of b" by (simp add: internal_less_def)
  with a b less show ?thesis using separator_same_user by auto
qed

lemma successor_internal:
  assumes a: "internal_ok ok a"
  shows "\<exists>s. InternalKeyComparator_FindShortSuccessor C a = Ret s \<and> internal_ok ok s \<and>
    (s = a \<or> internal_less lt a s)"
proof -
  obtain s where s: "FindShortSuccessor C (user_of a) = Ret s" "ok s" "s = user_of a \<or> lt (user_of a) s"
    using a user.succ [of "user_of a"] by (auto simp: internal_ok_def)
  with a show ?thesis
    using user.cmp [of "user_of a" s] shorter_key [of s a] user.irrefl
    by (auto simp: InternalKeyComparator_FindShortSuccessor_def internal_ok_def)
qed

end

sublocale internal_comparator \<subseteq> internal: key_comparator "InternalKeyComparator C"
    "internal_ok ok" "internal_less lt"
proof unfold_locales
  fix a b c
  assume a: "internal_ok ok a" and b: "internal_ok ok b"
  show "\<exists>r. Compare (InternalKeyComparator C) a b = Ret r \<and> (r < 0 \<longleftrightarrow> internal_less lt a b) \<and> (r = 0 \<longleftrightarrow> a = b)"
    using compare_internal [OF a b] by (simp add: InternalKeyComparator_def)
  show "a = b \<or> internal_less lt a b \<or> internal_less lt b a"
    using a b key_eq [of a b] user.total [of "user_of a" "user_of b"]
    by (auto simp: internal_ok_def internal_less_def)
  show "internal_less lt a c" if "internal_ok ok c" "internal_less lt a b" "internal_less lt b c"
    using a b that user.trans [of "user_of a" "user_of b" "user_of c"]
    by (auto simp: internal_ok_def internal_less_def)
  show "\<exists>s. FindShortestSeparator (InternalKeyComparator C) a b = Ret s \<and> internal_ok ok s \<and>
      (s = a \<or> internal_less lt a s) \<and> internal_less lt s b" if "internal_less lt a b"
    using separator_internal [OF a b that] by (simp add: InternalKeyComparator_def)
next
  fix a
  show "\<not> internal_less lt a a" using user.irrefl by (simp add: internal_less_def)
  assume a: "internal_ok ok a"
  show "\<exists>s. FindShortSuccessor (InternalKeyComparator C) a = Ret s \<and> internal_ok ok s \<and>
      (s = a \<or> internal_less lt a s)"
    using successor_internal [OF a] by (simp add: InternalKeyComparator_def)
qed

interpretation bytewise_keys: internal_comparator BytewiseComparator "\<lambda>_. True" "(<)"
  by unfold_locales (simp add: separator_bytewise_same)

lemma Compare_bytewise_internal:
  assumes "8 \<le> length a" "8 \<le> length b"
  shows "Compare (InternalKeyComparator BytewiseComparator) a b =
    Ret (if a = b then 0 else if internal_less (<) a b then - 1 else 1)"
  using assms key_eq [of a b]
  by (auto simp: InternalKeyComparator_def InternalKeyComparator_Compare_def Compare_bytewise internal_less_def
      not_less_iff_gr_or_eq)

section \<open>The filter policy of internal keys\<close>

locale internal_filter = user: filter_policy F ok many
  for F :: FilterPolicy and ok :: "slice \<Rightarrow> bool" and many :: "nat \<Rightarrow> bool"

lemma ExtractUserKeys_ok:
  "list_all (internal_ok ok) keys \<Longrightarrow> ExtractUserKeys keys = Ret (map user_of keys)"
  by (induction keys) (simp_all add: internal_ok_def)

sublocale internal_filter \<subseteq> internal: filter_policy "InternalFilterPolicy F" "internal_ok ok" many
proof unfold_locales
  fix keys dst
  assume keys: "list_all (internal_ok ok) keys" and "many (length keys)"
  then have "list_all ok (map user_of keys)" "many (length (map user_of keys))"
    by (auto simp: list_all_iff internal_ok_def)
  then obtain f where f: "CreateFilter F (map user_of keys) dst = Ret (dst @ f)"
      "\<forall>key \<in> set keys. KeyMayMatch F (user_of key) f = Ret True"
    using user.filter by fastforce
  show "\<exists>f. CreateFilter (InternalFilterPolicy F) keys dst = Ret (dst @ f) \<and>
      (\<forall>key \<in> set keys. KeyMayMatch (InternalFilterPolicy F) key f = Ret True)"
    using f keys by (intro exI [of _ f])
      (auto simp: InternalFilterPolicy_def ExtractUserKeys_ok [OF keys] list_all_iff internal_ok_def)
qed

interpretation bloom10_keys: internal_filter "BloomFilter Bloom10" "\<lambda>_. True" "\<lambda>n. n < 2 ^ 31"
  by unfold_locales

section \<open>Packing and parsing\<close>

lemma ff_mask: "(0xff :: u64) = mask 8"
  by (simp add: mask_eq_exp_minus_1)

lemma tag_fields:
  assumes "seq \<le> kMaxSequenceNumber"
  shows "drop_bit 8 (PackSequenceAndType seq t) = seq"
    and "ucast (PackSequenceAndType seq t AND 0xff) = t"
proof -
  have "unat seq < 2 ^ 56"
    using assms by (simp add: kMaxSequenceNumber_def word_le_nat_alt)
  then have "take_bit 56 seq = seq"
    by (metis take_bit_nat_eq_self unsigned_take_bit_eq word_unat_eq_iff)
  then have high: "\<not> bit seq n" if "56 \<le> n" for n using that by (metis bit_take_bit_iff not_less)
  show "drop_bit 8 (PackSequenceAndType seq t) = seq"
  proof (rule bit_word_eqI)
    fix n
    show "bit (drop_bit 8 (PackSequenceAndType seq t)) n = bit seq n"
      using high [of n] by (cases "n < 56") (auto simp: PackSequenceAndType_def bit_simps bit_u8_high)
  qed
  show "ucast (PackSequenceAndType seq t AND 0xff) = t"
    unfolding ff_mask by (intro bit_word_eqI) (auto simp: PackSequenceAndType_def bit_simps)
qed

lemma unat_pack:
  assumes "seq \<le> kMaxSequenceNumber"
  shows "unat (PackSequenceAndType seq t) = 256 * unat seq + unat t"
proof -
  have seq: "unat seq < 2 ^ 56" using assms by (simp add: kMaxSequenceNumber_def word_le_nat_alt)
  have t: "unat t < 256" using unsigned_less [of t, where 'a = nat] by simp
  then have u: "unat (ucast t :: u64) = unat t" by (simp add: unsigned_ucast_eq take_bit_nat_eq_self)
  have "PackSequenceAndType seq t = push_bit 8 seq + ucast t"
    unfolding PackSequenceAndType_def
    by (rule disjunctive_add [symmetric]) (auto simp: bit_simps bit_u8_high)
  moreover have "unat (push_bit 8 seq) = 256 * unat seq"
    using seq by (simp add: push_bit_eq_mult unat_word_ariths)
  ultimately show ?thesis using seq t u by (simp add: unat_word_ariths)
qed

lemma pack_parts: "PackSequenceAndType (drop_bit 8 t) (ucast (t AND 0xff)) = t"
  unfolding ff_mask
  by (intro bit_word_eqI) (auto simp: PackSequenceAndType_def bit_simps, metis le_add_diff_inverse not_le)

lemma pack_le:
  assumes "drop_bit 8 t \<le> seq" "seq \<le> kMaxSequenceNumber" "ucast (t AND 0xff) \<le> ty"
  shows "t \<le> PackSequenceAndType seq ty"
proof -
  have "drop_bit 8 t \<le> kMaxSequenceNumber" using assms(1,2) by simp
  from unat_pack [OF this, of "ucast (t AND 0xff)"] unat_pack [OF assms(2), of ty]
  show ?thesis using assms(1,3) by (simp add: word_le_nat_alt pack_parts)
qed

lemma ParseInternalKey_parts:
  assumes "8 \<le> length k"
  shows "ParseInternalKey k = Ret (if ucast (tag_of k AND 0xff) \<le> kTypeValue
    then Some \<lparr> user_key = user_of k, sequence = drop_bit 8 (tag_of k), vtype = ucast (tag_of k AND 0xff) \<rparr>
    else None)"
  using assms by (simp add: ParseInternalKey_def Let_def DecodeFixed64_total tag_of_def user_of_def)

text \<open>C25: internal keys round trip: what \<open>AppendInternalKey\<close> writes, \<open>ParseInternalKey\<close> reads back for
  every sequence number of 56 bits and both value types, and the key has the length announced.\<close>

theorem internal_key_round_trip:
  assumes "sequence key \<le> kMaxSequenceNumber" and "vtype key \<le> kTypeValue"
  shows "ParseInternalKey (AppendInternalKey [] key) = Ret (Some key) \<and>
    AppendInternalKey result key = result @ AppendInternalKey [] key \<and>
    length (AppendInternalKey [] key) = InternalKeyEncodingLength key"
proof -
  note fields = tag_fields [OF assms(1), of "vtype key"]
  let ?t = "PackSequenceAndType (sequence key) (vtype key)"
  have "ParseInternalKey (PutFixed64 (user_key key) ?t) = Ret (Some key)"
    using ParseInternalKey_parts [of "PutFixed64 (user_key key) ?t"] assms(2) by (simp add: fields)
  then show ?thesis
    by (simp add: AppendInternalKey_def InternalKeyEncodingLength_def PutFixed64_def)
qed

theorem internal_key_round_trip_witness:
  "ParseInternalKey (AppendInternalKey [] \<lparr> user_key = [1, 2], sequence = 9, vtype = 1 \<rparr>) =
    Ret (Some \<lparr> user_key = [1, 2], sequence = 9, vtype = 1 \<rparr>)"
  using internal_key_round_trip [of "\<lparr> user_key = [1, 2], sequence = 9, vtype = 1 \<rparr>" "[7]"]
  by (simp add: kTypeValue_def kMaxSequenceNumber_def)

text \<open>C26: on a string of arbitrary bytes the parser of internal keys never faults; it rejects a key
  that is too short or has an unknown type, and what it accepts is the parsed form of exactly that key.\<close>

theorem ParseInternalKey_exact:
  "case ParseInternalKey k of
     Ret (Some key) \<Rightarrow> AppendInternalKey [] key = k \<and> vtype key \<le> kTypeValue
   | Ret None \<Rightarrow> length k < 8 \<or> kTypeValue < k ! (length k - 8)
   | _ \<Rightarrow> False"
proof (cases "8 \<le> length k")
  case True
  let ?t = "tag_of k"
  note join = pack_parts [of ?t]
  have "ucast (?t AND 0xff) = k ! (length k - 8)"
  proof -
    have "drop (length k - 8) k = le_bytes 8 ?t"
      using True le_bytes_le_word [of "drop (length k - 8) k", where 'a = 64] by (simp add: tag_of_def)
    then have "k ! (length k - 8) = le_bytes 8 ?t ! 0"
      using True nth_drop [of "length k - 8" k 0] by simp
    then show ?thesis by (simp add: eval_nat_numeral ucast_low_byte)
  qed
  with True join key_parts [OF True] show ?thesis
    by (auto simp: ParseInternalKey_parts AppendInternalKey_def)
qed (simp add: ParseInternalKey_def)

text \<open>C24: the comparator of internal keys over the bytewise one is a total order: increasing user keys,
  and for one user key decreasing sequence numbers. Its separators and successors respect this order,
  and the assertions in them hold.\<close>

theorem InternalKeyComparator_correct:
  assumes "8 \<le> length a" and "8 \<le> length b"
  shows "Compare (InternalKeyComparator BytewiseComparator) a b =
      Ret (if a = b then 0 else if internal_less (<) a b then - 1 else 1) \<and>
    (internal_less (<) a b \<longrightarrow>
      (\<exists>s. FindShortestSeparator (InternalKeyComparator BytewiseComparator) a b = Ret s \<and> 8 \<le> length s \<and>
        (s = a \<or> internal_less (<) a s) \<and> internal_less (<) s b)) \<and>
    (\<exists>s. FindShortSuccessor (InternalKeyComparator BytewiseComparator) a = Ret s \<and> 8 \<le> length s \<and>
        (s = a \<or> internal_less (<) a s))"
proof -
  have ok: "internal_ok (\<lambda>_. True) a" "internal_ok (\<lambda>_. True) b" using assms by (simp_all add: internal_ok_def)
  show ?thesis
    using Compare_bytewise_internal [OF assms] bytewise_keys.internal.sep [OF ok]
      bytewise_keys.internal.succ [OF ok(1)] by (fastforce simp: internal_ok_def)
qed

theorem InternalKeyComparator_correct_witness:
  "Compare (InternalKeyComparator BytewiseComparator)
     (new_InternalKey [1] 7 kTypeValue) (new_InternalKey [1] 5 kTypeValue) = Ret (- 1)"
proof -
  have "internal_less (<) (new_InternalKey [1] 7 kTypeValue) (new_InternalKey [1] 5 kTypeValue)"
    by (simp add: internal_less_def new_InternalKey_def AppendInternalKey_def PackSequenceAndType_def
        kTypeValue_def word_less_nat_alt)
  moreover from this have "new_InternalKey [1] 7 kTypeValue \<noteq> new_InternalKey [1] 5 kTypeValue"
    using bytewise_keys.internal.irrefl by metis
  ultimately show ?thesis
    using InternalKeyComparator_correct [of "new_InternalKey [1] 7 kTypeValue" "new_InternalKey [1] 5 kTypeValue"]
    by (simp add: new_InternalKey_def AppendInternalKey_def)
qed

text \<open>A lookup at a snapshot: the memtable key is the length-prefixed internal key, and the
  internal key sorts before exactly those entries of the user key that are not newer than the snapshot.\<close>

theorem LookupKey_finds_snapshot:
  assumes "length u + 8 < 2 ^ 32" and "s \<le> kMaxSequenceNumber"
    and "seq \<le> kMaxSequenceNumber" and "t \<le> kTypeValue"
  shows "GetLengthPrefixedSlice (memtable_key (new_LookupKey u s)) = (Some (internal_key (new_LookupKey u s)), []) \<and>
    lookup_user_key (new_LookupKey u s) = u \<and>
    (internal_less (<) (new_InternalKey u seq t) (internal_key (new_LookupKey u s)) \<longleftrightarrow> s < seq)"
proof -
  let ?seek = "PackSequenceAndType s kValueTypeForSeek" and ?tag = "PackSequenceAndType seq t"
  have key: "internal_key (new_LookupKey u s) = PutFixed64 u ?seek"
    by (simp add: internal_key_def new_LookupKey_def PutFixed64_def Let_def)
  have mem: "memtable_key (new_LookupKey u s) = PutLengthPrefixedSlice [] (PutFixed64 u ?seek)"
    by (simp add: memtable_key_def new_LookupKey_def PutLengthPrefixedSlice_def PutVarint32_def
        PutFixed64_def Let_def)
  have user: "lookup_user_key (new_LookupKey u s) = u"
    by (simp add: lookup_user_key_def new_LookupKey_def Let_def)
  have "?seek < ?tag \<longleftrightarrow> s < seq"
    using assms by (simp add: word_less_nat_alt word_le_nat_alt unat_pack kValueTypeForSeek_def kTypeValue_def) auto
  with user key mem length_prefixed.get_put_end [of "PutFixed64 u ?seek"] assms(1) show ?thesis
    by (simp add: internal_less_def new_InternalKey_def AppendInternalKey_def)
qed

theorem LookupKey_finds_snapshot_witness:
  "\<not> internal_less (<) (new_InternalKey [1] 5 kTypeValue) (internal_key (new_LookupKey [1] 5)) \<and>
   internal_less (<) (new_InternalKey [1] 6 kTypeDeletion) (internal_key (new_LookupKey [1] 5))"
  using LookupKey_finds_snapshot [of "[1]" 5 5 kTypeValue] LookupKey_finds_snapshot [of "[1]" 5 6 kTypeDeletion]
  by (simp add: kTypeValue_def kTypeDeletion_def kMaxSequenceNumber_def word_le_nat_alt)

end
