(* ===== verification/LdbVersionEdit.thy ===== *)
theory LdbVersionEdit
  imports LdbDbFormat "HOL-Library.Product_Lexorder"
begin

text \<open>
  Version edits, \<open>version_edit.h\<close> and \<open>version_edit.cc\<close>: the records of the descriptor log that say which
  tables a version gains and loses. A level is an \<open>int\<close>; the set of deleted files is kept in the order of
  \<open>std::pair\<close>. \<open>DecodeFrom\<close> reads one tagged field after the other.
\<close>

section \<open>The edit\<close>

record FileMetaData =
  refs :: int
  allowed_seeks :: int
  file_number :: u64
  file_size :: u64
  smallest :: InternalKey
  largest :: InternalKey

definition new_FileMetaData :: FileMetaData where
  "new_FileMetaData = \<lparr> refs = 0, allowed_seeks = 2 ^ 30, file_number = 0, file_size = 0,
     smallest = [], largest = [] \<rparr>"

record VersionEdit =
  ve_comparator :: slice
  ve_log_number :: u64
  ve_prev_log_number :: u64
  ve_next_file_number :: u64
  ve_last_sequence :: SequenceNumber
  has_comparator :: bool
  has_log_number :: bool
  has_prev_log_number :: bool
  has_next_file_number :: bool
  has_last_sequence :: bool
  compact_pointers :: "(int \<times> InternalKey) list"
  deleted_files :: "(int \<times> u64) set"
  new_files :: "(int \<times> FileMetaData) list"

text \<open>\<open>Clear\<close> does not touch \<open>compact_pointers_\<close>.\<close>

definition VersionEdit_Clear :: "VersionEdit \<Rightarrow> VersionEdit" where
  "VersionEdit_Clear ve = ve
     \<lparr> ve_comparator := [], ve_log_number := 0, ve_prev_log_number := 0, ve_last_sequence := 0,
       ve_next_file_number := 0, has_comparator := False, has_log_number := False,
       has_prev_log_number := False, has_next_file_number := False, has_last_sequence := False,
       deleted_files := {}, new_files := [] \<rparr>"

definition new_VersionEdit :: VersionEdit where
  "new_VersionEdit = VersionEdit_Clear
     \<lparr> ve_comparator = [], ve_log_number = 0, ve_prev_log_number = 0, ve_next_file_number = 0,
       ve_last_sequence = 0, has_comparator = False, has_log_number = False, has_prev_log_number = False,
       has_next_file_number = False, has_last_sequence = False, compact_pointers = [],
       deleted_files = {}, new_files = [] \<rparr>"

definition SetComparatorName :: "slice \<Rightarrow> VersionEdit \<Rightarrow> VersionEdit" where
  "SetComparatorName name ve = ve \<lparr> has_comparator := True, ve_comparator := name \<rparr>"

definition SetLogNumber :: "u64 \<Rightarrow> VersionEdit \<Rightarrow> VersionEdit" where
  "SetLogNumber num ve = ve \<lparr> has_log_number := True, ve_log_number := num \<rparr>"

definition SetPrevLogNumber :: "u64 \<Rightarrow> VersionEdit \<Rightarrow> VersionEdit" where
  "SetPrevLogNumber num ve = ve \<lparr> has_prev_log_number := True, ve_prev_log_number := num \<rparr>"

definition SetNextFile :: "u64 \<Rightarrow> VersionEdit \<Rightarrow> VersionEdit" where
  "SetNextFile num ve = ve \<lparr> has_next_file_number := True, ve_next_file_number := num \<rparr>"

definition SetLastSequence :: "SequenceNumber \<Rightarrow> VersionEdit \<Rightarrow> VersionEdit" where
  "SetLastSequence seq ve = ve \<lparr> has_last_sequence := True, ve_last_sequence := seq \<rparr>"

definition SetCompactPointer :: "int \<Rightarrow> InternalKey \<Rightarrow> VersionEdit \<Rightarrow> VersionEdit" where
  "SetCompactPointer level key ve = ve \<lparr> compact_pointers := compact_pointers ve @ [(level, key)] \<rparr>"

definition AddFile :: "int \<Rightarrow> u64 \<Rightarrow> u64 \<Rightarrow> InternalKey \<Rightarrow> InternalKey \<Rightarrow> VersionEdit \<Rightarrow> VersionEdit" where
  "AddFile level fnum fsize small large ve =
     (let f = new_FileMetaData \<lparr> file_number := fnum, file_size := fsize, smallest := small, largest := large \<rparr>
      in ve \<lparr> new_files := new_files ve @ [(level, f)] \<rparr>)"

definition VersionEdit_DeleteFile :: "int \<Rightarrow> u64 \<Rightarrow> VersionEdit \<Rightarrow> VersionEdit" where
  "VersionEdit_DeleteFile level fnum ve = ve \<lparr> deleted_files := insert (level, fnum) (deleted_files ve) \<rparr>"

section \<open>Encoding\<close>

definition kComparator :: u32 where "kComparator = 1"
definition kLogNumber :: u32 where "kLogNumber = 2"
definition kNextFileNumber :: u32 where "kNextFileNumber = 3"
definition kLastSequence :: u32 where "kLastSequence = 4"
definition kCompactPointer :: u32 where "kCompactPointer = 5"
definition kDeletedFile :: u32 where "kDeletedFile = 6"
definition kNewFile :: u32 where "kNewFile = 7"
definition kPrevLogNumber :: u32 where "kPrevLogNumber = 9"

lemmas tag_defs = kComparator_def kLogNumber_def kNextFileNumber_def kLastSequence_def
  kCompactPointer_def kDeletedFile_def kNewFile_def kPrevLogNumber_def

definition put_compact_pointer :: "int \<times> InternalKey \<Rightarrow> slice \<Rightarrow> slice res" where
  "put_compact_pointer = (\<lambda>(level, key) dst.
     let dst = PutVarint32 (PutVarint32 dst kCompactPointer) (of_int level)
     in res_bind (InternalKey_Encode key) (\<lambda>k. Ret (PutLengthPrefixedSlice dst k)))"

definition put_deleted_file :: "int \<times> u64 \<Rightarrow> slice \<Rightarrow> slice" where
  "put_deleted_file = (\<lambda>(level, fnum) dst.
     PutVarint64 (PutVarint32 (PutVarint32 dst kDeletedFile) (of_int level)) fnum)"

definition put_new_file :: "int \<times> FileMetaData \<Rightarrow> slice \<Rightarrow> slice res" where
  "put_new_file = (\<lambda>(level, f) dst.
     let dst = PutVarint32 (PutVarint32 dst kNewFile) (of_int level);
         dst = PutVarint64 dst (file_number f);
         dst = PutVarint64 dst (file_size f)
     in res_bind (InternalKey_Encode (smallest f)) (\<lambda>small.
        res_bind (InternalKey_Encode (largest f)) (\<lambda>large.
          Ret (PutLengthPrefixedSlice (PutLengthPrefixedSlice dst small) large))))"

definition VersionEdit_EncodeTo :: "VersionEdit \<Rightarrow> slice \<Rightarrow> slice res" where
  "VersionEdit_EncodeTo ve dst =
     (let dst = (if has_comparator ve
                 then PutLengthPrefixedSlice (PutVarint32 dst kComparator) (ve_comparator ve) else dst);
          dst = (if has_log_number ve then PutVarint64 (PutVarint32 dst kLogNumber) (ve_log_number ve) else dst);
          dst = (if has_prev_log_number ve
                 then PutVarint64 (PutVarint32 dst kPrevLogNumber) (ve_prev_log_number ve) else dst);
          dst = (if has_next_file_number ve
                 then PutVarint64 (PutVarint32 dst kNextFileNumber) (ve_next_file_number ve) else dst);
          dst = (if has_last_sequence ve
                 then PutVarint64 (PutVarint32 dst kLastSequence) (ve_last_sequence ve) else dst)
      in res_bind (foldl (\<lambda>r p. res_bind r (put_compact_pointer p)) (Ret dst) (compact_pointers ve)) (\<lambda>dst.
         let dst = fold put_deleted_file (sorted_list_of_set (deleted_files ve)) dst
         in foldl (\<lambda>r f. res_bind r (put_new_file f)) (Ret dst) (new_files ve)))"

section \<open>The text of an edit\<close>

definition newline_ascii :: "string \<Rightarrow> slice" where
  "newline_ascii label = 10 # ascii label"

definition debug_compact_pointer :: "int \<times> InternalKey \<Rightarrow> slice \<Rightarrow> slice res" where
  "debug_compact_pointer = (\<lambda>(level, key) r.
     let r = r @ newline_ascii ''  CompactPointer: '';
         r = AppendNumberTo r (of_int level);
         r = r @ ascii '' ''
     in res_bind (InternalKey_DebugString key) (\<lambda>text. Ret (r @ text)))"

definition debug_deleted_file :: "int \<times> u64 \<Rightarrow> slice \<Rightarrow> slice" where
  "debug_deleted_file = (\<lambda>(level, fnum) r.
     let r = r @ newline_ascii ''  DeleteFile: '';
         r = AppendNumberTo r (of_int level);
         r = r @ ascii '' ''
     in AppendNumberTo r fnum)"

definition debug_new_file :: "int \<times> FileMetaData \<Rightarrow> slice \<Rightarrow> slice res" where
  "debug_new_file = (\<lambda>(level, f) r.
     let r = r @ newline_ascii ''  AddFile: '';
         r = AppendNumberTo r (of_int level) @ ascii '' '';
         r = AppendNumberTo r (file_number f) @ ascii '' '';
         r = AppendNumberTo r (file_size f) @ ascii '' ''
     in res_bind (InternalKey_DebugString (smallest f)) (\<lambda>small.
        res_bind (InternalKey_DebugString (largest f)) (\<lambda>large.
          Ret (r @ small @ ascii '' .. '' @ large))))"

definition VersionEdit_DebugString :: "VersionEdit \<Rightarrow> slice res" where
  "VersionEdit_DebugString ve =
     (let r = ascii ''VersionEdit {'';
          r = (if has_comparator ve then r @ newline_ascii ''  Comparator: '' @ ve_comparator ve else r);
          r = (if has_log_number ve then AppendNumberTo (r @ newline_ascii ''  LogNumber: '') (ve_log_number ve)
               else r);
          r = (if has_prev_log_number ve
               then AppendNumberTo (r @ newline_ascii ''  PrevLogNumber: '') (ve_prev_log_number ve) else r);
          r = (if has_next_file_number ve
               then AppendNumberTo (r @ newline_ascii ''  NextFile: '') (ve_next_file_number ve) else r);
          r = (if has_last_sequence ve
               then AppendNumberTo (r @ newline_ascii ''  LastSeq: '') (ve_last_sequence ve) else r)
      in res_bind (foldl (\<lambda>r p. res_bind r (debug_compact_pointer p)) (Ret r) (compact_pointers ve)) (\<lambda>r.
         let r = fold debug_deleted_file (sorted_list_of_set (deleted_files ve)) r
         in res_bind (foldl (\<lambda>r f. res_bind r (debug_new_file f)) (Ret r) (new_files ve)) (\<lambda>r.
              Ret (r @ newline_ascii ''}'' @ [10]))))"

text \<open>Every key has a text, malformed or not.\<close>

lemma InternalKey_DebugString_Ret: "\<exists>text. InternalKey_DebugString key = Ret text"
proof (cases "length key < 8")
  case False
  then have "\<exists>num. DecodeFixed64 (drop (length key - 8) key) = Ret num"
    by (simp add: DecodeFixed64_def kLittleEndian_def)
  with False show ?thesis by (auto simp: InternalKey_DebugString_def ParseInternalKey_def Let_def)
qed (simp add: InternalKey_DebugString_def ParseInternalKey_def)

lemma foldl_Ret:
  assumes "\<And>x r. \<exists>r'. f x r = Ret r'"
  shows "\<exists>r'. foldl (\<lambda>r x. res_bind r (f x)) (Ret r) xs = Ret r'"
proof (induction xs arbitrary: r)
  case (Cons x xs)
  then show ?case using assms [of x r] by auto
qed simp

lemma VersionEdit_DebugString_Ret: "\<exists>text. VersionEdit_DebugString ve = Ret text"
proof -
  have compact: "\<exists>r'. debug_compact_pointer p r = Ret r'" for p r
    using InternalKey_DebugString_Ret [of "snd p"]
    by (auto simp: debug_compact_pointer_def case_prod_beta Let_def)
  have files: "\<exists>r'. debug_new_file f r = Ret r'" for f r
    using InternalKey_DebugString_Ret [of "smallest (snd f)"] InternalKey_DebugString_Ret [of "largest (snd f)"]
    by (auto simp: debug_new_file_def case_prod_beta Let_def)
  have "\<exists>text. res_bind (foldl (\<lambda>r p. res_bind r (debug_compact_pointer p)) (Ret r) ps) (\<lambda>r.
      res_bind (foldl (\<lambda>r f. res_bind r (debug_new_file f)) (Ret (g r)) fs) (\<lambda>r. Ret (h r))) = Ret text" for r ps fs g h
  proof -
    obtain r1 where "foldl (\<lambda>r p. res_bind r (debug_compact_pointer p)) (Ret r) ps = Ret r1"
      using foldl_Ret [of debug_compact_pointer, OF compact] by blast
    moreover obtain r2 where "foldl (\<lambda>r f. res_bind r (debug_new_file f)) (Ret (g r1)) fs = Ret r2"
      using foldl_Ret [of debug_new_file, OF files] by blast
    ultimately show ?thesis by simp
  qed
  then show ?thesis unfolding VersionEdit_DebugString_def Let_def .
qed

section \<open>Decoding\<close>

definition GetInternalKey :: "slice \<Rightarrow> InternalKey option \<times> slice" where
  "GetInternalKey inp =
     (case GetLengthPrefixedSlice inp of
        (Some str, inp) \<Rightarrow> (Some (InternalKey_DecodeFrom str), inp)
      | (None, inp) \<Rightarrow> (None, inp))"

definition GetLevel :: "slice \<Rightarrow> int option \<times> slice" where
  "GetLevel inp =
     (case GetVarint32 inp of
        (Some v, inp) \<Rightarrow> (if unat v < kNumLevels then Some (uint v) else None, inp)
      | (None, inp) \<Rightarrow> (None, inp))"

text \<open>One field: the reader \<open>get\<close> succeeds and its value is stored, or the message is reported.\<close>

definition get_field ::
    "(slice \<Rightarrow> 'a option \<times> slice) \<Rightarrow> ('a \<Rightarrow> VersionEdit \<Rightarrow> VersionEdit) \<Rightarrow> string \<Rightarrow>
     VersionEdit \<Rightarrow> slice \<Rightarrow> VersionEdit \<times> slice \<times> string option" where
  "get_field get store msg ve inp =
     (case get inp of
        (Some v, inp) \<Rightarrow> (store v ve, inp, None)
      | (None, inp) \<Rightarrow> (ve, inp, Some msg))"

text \<open>The conjunction of two readers, with the short circuit of \<open>&&\<close>.\<close>

definition get_both ::
    "(slice \<Rightarrow> 'a option \<times> slice) \<Rightarrow> (slice \<Rightarrow> 'b option \<times> slice) \<Rightarrow> slice \<Rightarrow> ('a \<times> 'b) option \<times> slice" where
  "get_both get1 get2 inp =
     (case get1 inp of
        (None, inp) \<Rightarrow> (None, inp)
      | (Some a, inp) \<Rightarrow>
          (case get2 inp of (None, inp) \<Rightarrow> (None, inp) | (Some b, inp) \<Rightarrow> (Some (a, b), inp)))"

definition ve_decode_field :: "u32 \<Rightarrow> VersionEdit \<Rightarrow> slice \<Rightarrow> VersionEdit \<times> slice \<times> string option" where
  "ve_decode_field t ve inp =
     (if t = kComparator then get_field GetLengthPrefixedSlice SetComparatorName ''comparator name'' ve inp
      else if t = kLogNumber then get_field GetVarint64 SetLogNumber ''log number'' ve inp
      else if t = kPrevLogNumber then get_field GetVarint64 SetPrevLogNumber ''previous log number'' ve inp
      else if t = kNextFileNumber then get_field GetVarint64 SetNextFile ''next file number'' ve inp
      else if t = kLastSequence then get_field GetVarint64 SetLastSequence ''last sequence number'' ve inp
      else if t = kCompactPointer
      then get_field (get_both GetLevel GetInternalKey) (\<lambda>(level, key). SetCompactPointer level key)
             ''compaction pointer'' ve inp
      else if t = kDeletedFile
      then get_field (get_both GetLevel GetVarint64) (\<lambda>(level, fnum). VersionEdit_DeleteFile level fnum)
             ''deleted file'' ve inp
      else if t = kNewFile
      then get_field (get_both GetLevel (get_both GetVarint64 (get_both GetVarint64
               (get_both GetInternalKey GetInternalKey))))
             (\<lambda>(level, fnum, fsize, small, large). AddFile level fnum fsize small large)
             ''new-file entry'' ve inp
      else (ve, inp, Some ''unknown tag''))"

section \<open>Decoding consumes its input\<close>

definition shrinks :: "(slice \<Rightarrow> 'a option \<times> slice) \<Rightarrow> bool" where
  "shrinks get \<longleftrightarrow> (\<forall>inp. length (snd (get inp)) \<le> length inp)"

lemma shrinksI: "(\<And>inp r rest. get inp = (r, rest) \<Longrightarrow> length rest \<le> length inp) \<Longrightarrow> shrinks get"
  by (simp add: shrinks_def) (metis prod.collapse)

lemma shrinksD: "shrinks get \<Longrightarrow> get inp = (r, rest) \<Longrightarrow> length rest \<le> length inp"
  by (metis shrinks_def snd_conv)

lemma GetVarint_shrinks: "shrinks GetVarint32" "shrinks GetVarint64"
  using GetVarint32_consumes GetVarint64_consumes
  by (fastforce simp: shrinks_def GetVarint32_def GetVarint64_def split: option.splits)+

lemma GetLengthPrefixedSlice_shrinks: "shrinks GetLengthPrefixedSlice"
  by (rule shrinksI) (auto simp: GetLengthPrefixedSlice_def dest: shrinksD [OF GetVarint_shrinks(1)]
      split: prod.splits option.splits if_splits)

lemma get_both_shrinks: "shrinks g \<Longrightarrow> shrinks h \<Longrightarrow> shrinks (get_both g h)"
  by (rule shrinksI)
    (auto simp: get_both_def dest!: shrinksD split: prod.splits option.splits)

lemma GetLevel_shrinks: "shrinks GetLevel" "shrinks GetInternalKey"
  by (rule shrinksI, auto simp: GetLevel_def GetInternalKey_def dest: shrinksD [OF GetVarint_shrinks(1)]
      shrinksD [OF GetLengthPrefixedSlice_shrinks] split: prod.splits option.splits)+

lemma get_field_shrinks: "shrinks get \<Longrightarrow> get_field get store msg ve inp = (ve', rest, m) \<Longrightarrow> length rest \<le> length inp"
  by (auto simp: get_field_def dest: shrinksD split: prod.splits option.splits)

lemma decode_field_shrinks: "ve_decode_field t ve inp = (ve', rest, m) \<Longrightarrow> length rest \<le> length inp"
  unfolding ve_decode_field_def
  by (auto split: if_splits intro!: get_both_shrinks GetVarint_shrinks GetLevel_shrinks
      GetLengthPrefixedSlice_shrinks elim!: get_field_shrinks [rotated])

lemma GetVarint32_shorter: "GetVarint32 inp = (Some v, rest) \<Longrightarrow> length rest < length inp"
  using GetVarint32_consumes [of inp v rest] by auto

function ve_decode_loop :: "VersionEdit \<Rightarrow> slice \<Rightarrow> VersionEdit \<times> slice \<times> string option" where
  "ve_decode_loop ve inp =
     (case GetVarint32 inp of
        (None, rest) \<Rightarrow> (ve, rest, None)
      | (Some t, rest) \<Rightarrow>
          (case ve_decode_field t ve rest of
             (ve, rest, Some msg) \<Rightarrow> (ve, rest, Some msg)
           | (ve, rest, None) \<Rightarrow> ve_decode_loop ve rest))"
  by pat_completeness auto

termination
  by (relation "measure (\<lambda>(_, inp). length inp)")
    (auto dest!: GetVarint32_shorter [OF sym] decode_field_shrinks [OF sym])

declare ve_decode_loop.simps [simp del]

definition VersionEdit_DecodeFrom :: "VersionEdit \<Rightarrow> slice \<Rightarrow> Status \<times> VersionEdit" where
  "VersionEdit_DecodeFrom ve src =
     (let (ve, inp, msg) = ve_decode_loop (VersionEdit_Clear ve) src;
          msg = (if msg = None \<and> inp \<noteq> [] then Some ''invalid tag'' else msg)
      in case msg of
           None \<Rightarrow> (OK, ve)
         | Some m \<Rightarrow> (Corruption ''VersionEdit'' m, ve))"

section \<open>Round trip\<close>

lemma decode_field_end [simp]: "ve_decode_loop ve [] = (ve, [], None)"
  by (simp add: ve_decode_loop.simps [of ve "[]"] GetVarint32_def GetVarint32Ptr_loop)

lemma decode_loop_field:
  "ve_decode_field t ve rest = (ve', rest', None) \<Longrightarrow>
   ve_decode_loop ve (EncodeVarint32 t @ rest) = ve_decode_loop ve' rest'"
  by (simp add: ve_decode_loop.simps [of ve "EncodeVarint32 t @ rest"])

definition level_ok :: "int \<Rightarrow> bool" where
  "level_ok level \<longleftrightarrow> 0 \<le> level \<and> level < int kNumLevels"

definition key_ok :: "InternalKey \<Rightarrow> bool" where
  "key_ok key \<longleftrightarrow> key \<noteq> [] \<and> length key < 2 ^ 32"

definition file_ok :: "FileMetaData \<Rightarrow> bool" where
  "file_ok f \<longleftrightarrow> key_ok (smallest f) \<and> key_ok (largest f) \<and> refs f = 0 \<and> allowed_seeks f = 2 ^ 30"

text \<open>An edit as the setters build it: a field that is not set has its initial value, and no key is the empty one.\<close>

definition edit_ok :: "VersionEdit \<Rightarrow> bool" where
  "edit_ok ve \<longleftrightarrow>
     length (ve_comparator ve) < 2 ^ 32 \<and>
     (has_comparator ve \<or> ve_comparator ve = []) \<and>
     (has_log_number ve \<or> ve_log_number ve = 0) \<and>
     (has_prev_log_number ve \<or> ve_prev_log_number ve = 0) \<and>
     (has_next_file_number ve \<or> ve_next_file_number ve = 0) \<and>
     (has_last_sequence ve \<or> ve_last_sequence ve = 0) \<and>
     (\<forall>(level, key) \<in> set (compact_pointers ve). level_ok level \<and> key_ok key) \<and>
     finite (deleted_files ve) \<and> (\<forall>(level, fnum) \<in> deleted_files ve. level_ok level) \<and>
     (\<forall>(level, f) \<in> set (new_files ve). level_ok level \<and> file_ok f)"

lemma GetLevel_enc: "level_ok level \<Longrightarrow> GetLevel (EncodeVarint32 (of_int level) @ rest) = (Some level, rest)"
proof -
  assume "level_ok level"
  then have l: "0 \<le> level" "level < 7" by (simp_all add: level_ok_def kNumLevels_def)
  then have "uint (of_int level :: u32) = level" by (simp add: uint_word_of_int take_bit_int_eq_self)
  moreover from this l have "unat (of_int level :: u32) < 7" by (simp add: unat_eq_nat_uint)
  ultimately show ?thesis by (simp add: GetLevel_def kNumLevels_def)
qed

lemma GetInternalKey_enc:
  "key_ok key \<Longrightarrow> GetInternalKey (PutLengthPrefixedSlice [] key @ rest) = (Some key, rest)"
  by (simp add: GetInternalKey_def InternalKey_DecodeFrom_def key_ok_def length_prefixed.get_put)

lemmas get_simps = get_field_def get_both_def GetLevel_enc GetInternalKey_enc

lemmas put_parts = Put_append(1,2) Put_append(5) [of "_ @ _"]

text \<open>The bytes of the records with keys.\<close>

definition compact_pointer_bytes :: "int \<times> InternalKey \<Rightarrow> slice" where
  "compact_pointer_bytes = (\<lambda>(level, key).
     EncodeVarint32 kCompactPointer @ EncodeVarint32 (of_int level) @ PutLengthPrefixedSlice [] key)"

definition new_file_bytes :: "int \<times> FileMetaData \<Rightarrow> slice" where
  "new_file_bytes = (\<lambda>(level, f).
     EncodeVarint32 kNewFile @ EncodeVarint32 (of_int level) @ EncodeVarint64 (file_number f) @
     EncodeVarint64 (file_size f) @ PutLengthPrefixedSlice [] (smallest f) @ PutLengthPrefixedSlice [] (largest f))"

lemma put_record_append:
  "key_ok (snd p) \<Longrightarrow> put_compact_pointer p dst = Ret (dst @ compact_pointer_bytes p)"
  "put_deleted_file d dst = dst @ put_deleted_file d []"
  "file_ok (snd f) \<Longrightarrow> put_new_file f dst = Ret (dst @ new_file_bytes f)"
  by (cases p; cases d; cases f; simp add: put_compact_pointer_def put_deleted_file_def put_new_file_def
      compact_pointer_bytes_def new_file_bytes_def InternalKey_Encode_def key_ok_def file_ok_def put_parts Let_def)+

lemma foldl_put:
  assumes "\<And>x dst. x \<in> set xs \<Longrightarrow> put x dst = Ret (dst @ bytes x)"
  shows "foldl (\<lambda>r x. res_bind r (put x)) (Ret dst) xs = Ret (dst @ concat (map bytes xs))"
  using assms by (induction xs arbitrary: dst) simp_all

lemma fold_put:
  assumes put: "\<And>x dst. put x dst = dst @ put x []"
  shows "fold put xs dst = dst @ concat (map (\<lambda>x. put x []) xs)"
proof (induction xs arbitrary: dst)
  case (Cons x xs)
  have "fold put (x # xs) dst = put x dst @ concat (map (\<lambda>x. put x []) xs)" using Cons by simp
  also have "put x dst = dst @ put x []" by (rule put)
  finally show ?case by simp
qed simp

text \<open>Reading the repeated records.\<close>

lemma decode_loop_records:
  assumes "\<And>x ve rest. x \<in> set xs \<Longrightarrow> ve_decode_loop ve (bytes x @ rest) = ve_decode_loop (store x ve) rest"
  shows "ve_decode_loop ve (concat (map bytes xs) @ rest) = ve_decode_loop (fold store xs ve) rest"
  using assms by (induction xs arbitrary: ve) simp_all

lemma decode_compact_pointer:
  assumes "level_ok level" "key_ok key"
  shows "ve_decode_loop ve (compact_pointer_bytes (level, key) @ rest) =
    ve_decode_loop (SetCompactPointer level key ve) rest"
proof -
  have "compact_pointer_bytes (level, key) @ rest =
      EncodeVarint32 kCompactPointer @ EncodeVarint32 (of_int level) @ PutLengthPrefixedSlice [] key @ rest"
    by (simp add: compact_pointer_bytes_def)
  then show ?thesis
    using decode_loop_field [of kCompactPointer] assms
    by (simp add: ve_decode_field_def tag_defs get_simps)
qed

lemma decode_deleted_file:
  assumes "level_ok level"
  shows "ve_decode_loop ve (put_deleted_file (level, fnum) [] @ rest) =
    ve_decode_loop (VersionEdit_DeleteFile level fnum ve) rest"
proof -
  have "put_deleted_file (level, fnum) [] @ rest =
      EncodeVarint32 kDeletedFile @ EncodeVarint32 (of_int level) @ EncodeVarint64 fnum @ rest"
    by (simp add: put_deleted_file_def put_parts)
  then show ?thesis
    using decode_loop_field [of kDeletedFile] assms
    by (simp add: ve_decode_field_def tag_defs get_simps)
qed

lemma decode_new_file:
  assumes "level_ok level" "file_ok f"
  shows "ve_decode_loop ve (new_file_bytes (level, f) @ rest) =
    ve_decode_loop (ve \<lparr> new_files := new_files ve @ [(level, f)] \<rparr>) rest"
proof -
  have "new_file_bytes (level, f) @ rest =
      EncodeVarint32 kNewFile @ EncodeVarint32 (of_int level) @ EncodeVarint64 (file_number f) @
      EncodeVarint64 (file_size f) @ PutLengthPrefixedSlice [] (smallest f) @
      PutLengthPrefixedSlice [] (largest f) @ rest"
    by (simp add: new_file_bytes_def)
  moreover have "AddFile level (file_number f) (file_size f) (smallest f) (largest f) ve =
      ve \<lparr> new_files := new_files ve @ [(level, f)] \<rparr>"
    using assms(2) by (simp add: AddFile_def new_FileMetaData_def file_ok_def)
  ultimately show ?thesis
    using decode_loop_field [of kNewFile] assms
    by (simp add: ve_decode_field_def tag_defs get_simps file_ok_def)
qed

text \<open>Reading an optional scalar field.\<close>

lemma decode_scalar_fields:
  "ve_decode_field kLogNumber ve (EncodeVarint64 n @ rest) = (SetLogNumber n ve, rest, None)"
  "ve_decode_field kPrevLogNumber ve (EncodeVarint64 n @ rest) = (SetPrevLogNumber n ve, rest, None)"
  "ve_decode_field kNextFileNumber ve (EncodeVarint64 n @ rest) = (SetNextFile n ve, rest, None)"
  "ve_decode_field kLastSequence ve (EncodeVarint64 n @ rest) = (SetLastSequence n ve, rest, None)"
  "length name < 2 ^ 32 \<Longrightarrow>
   ve_decode_field kComparator ve (PutLengthPrefixedSlice [] name @ rest) = (SetComparatorName name ve, rest, None)"
  by (simp_all add: ve_decode_field_def tag_defs get_field_def length_prefixed.get_put)

lemma decode_optional:
  "ve_decode_loop ve ((if b then EncodeVarint32 kLogNumber @ EncodeVarint64 n else []) @ rest) =
     ve_decode_loop (if b then SetLogNumber n ve else ve) rest"
  "ve_decode_loop ve ((if b then EncodeVarint32 kPrevLogNumber @ EncodeVarint64 n else []) @ rest) =
     ve_decode_loop (if b then SetPrevLogNumber n ve else ve) rest"
  "ve_decode_loop ve ((if b then EncodeVarint32 kNextFileNumber @ EncodeVarint64 n else []) @ rest) =
     ve_decode_loop (if b then SetNextFile n ve else ve) rest"
  "ve_decode_loop ve ((if b then EncodeVarint32 kLastSequence @ EncodeVarint64 n else []) @ rest) =
     ve_decode_loop (if b then SetLastSequence n ve else ve) rest"
  "length name < 2 ^ 32 \<Longrightarrow>
   ve_decode_loop ve ((if b then EncodeVarint32 kComparator @ PutLengthPrefixedSlice [] name else []) @ rest) =
     ve_decode_loop (if b then SetComparatorName name ve else ve) rest"
  by (cases b; simp add: decode_loop_field [OF decode_scalar_fields(1)]
      decode_loop_field [OF decode_scalar_fields(2)] decode_loop_field [OF decode_scalar_fields(3)]
      decode_loop_field [OF decode_scalar_fields(4)] decode_loop_field [OF decode_scalar_fields(5)])+

text \<open>An optional store into an edit that does not have the field, as an unconditional update.\<close>

lemma optional_stores:
  "\<not> has_log_number ve \<Longrightarrow> ve_log_number ve = 0 \<Longrightarrow> b \<or> n = 0 \<Longrightarrow>
   (if b then SetLogNumber n ve else ve) = ve \<lparr> has_log_number := b, ve_log_number := n \<rparr>"
  "\<not> has_prev_log_number ve \<Longrightarrow> ve_prev_log_number ve = 0 \<Longrightarrow> b \<or> n = 0 \<Longrightarrow>
   (if b then SetPrevLogNumber n ve else ve) = ve \<lparr> has_prev_log_number := b, ve_prev_log_number := n \<rparr>"
  "\<not> has_next_file_number ve \<Longrightarrow> ve_next_file_number ve = 0 \<Longrightarrow> b \<or> n = 0 \<Longrightarrow>
   (if b then SetNextFile n ve else ve) = ve \<lparr> has_next_file_number := b, ve_next_file_number := n \<rparr>"
  "\<not> has_last_sequence ve \<Longrightarrow> ve_last_sequence ve = 0 \<Longrightarrow> b \<or> n = 0 \<Longrightarrow>
   (if b then SetLastSequence n ve else ve) = ve \<lparr> has_last_sequence := b, ve_last_sequence := n \<rparr>"
  "\<not> has_comparator ve \<Longrightarrow> ve_comparator ve = [] \<Longrightarrow> b \<or> name = [] \<Longrightarrow>
   (if b then SetComparatorName name ve else ve) = ve \<lparr> has_comparator := b, ve_comparator := name \<rparr>"
  by (auto simp: SetLogNumber_def SetPrevLogNumber_def SetNextFile_def SetLastSequence_def
      SetComparatorName_def)

lemma cleared:
  assumes "VersionEdit_Clear ve = ve"
  shows "ve_comparator ve = []" "ve_log_number ve = 0" "ve_prev_log_number ve = 0"
    "ve_last_sequence ve = 0" "ve_next_file_number ve = 0" "\<not> has_comparator ve"
    "\<not> has_log_number ve" "\<not> has_prev_log_number ve" "\<not> has_next_file_number ve"
    "\<not> has_last_sequence ve" "deleted_files ve = {}" "new_files ve = []"
  by (subst assms [symmetric], simp add: VersionEdit_Clear_def)+

lemma EncodeTo_bytes:
  assumes "edit_ok ve"
  shows "VersionEdit_EncodeTo ve dst = Ret (dst @
     (if has_comparator ve then EncodeVarint32 kComparator @ PutLengthPrefixedSlice [] (ve_comparator ve) else []) @
     (if has_log_number ve then EncodeVarint32 kLogNumber @ EncodeVarint64 (ve_log_number ve) else []) @
     (if has_prev_log_number ve then EncodeVarint32 kPrevLogNumber @ EncodeVarint64 (ve_prev_log_number ve) else []) @
     (if has_next_file_number ve then EncodeVarint32 kNextFileNumber @ EncodeVarint64 (ve_next_file_number ve) else []) @
     (if has_last_sequence ve then EncodeVarint32 kLastSequence @ EncodeVarint64 (ve_last_sequence ve) else []) @
     concat (map compact_pointer_bytes (compact_pointers ve)) @
     concat (map (\<lambda>x. put_deleted_file x []) (sorted_list_of_set (deleted_files ve))) @
     concat (map new_file_bytes (new_files ve)))"
proof -
  have "foldl (\<lambda>r p. res_bind r (put_compact_pointer p)) (Ret dst) (compact_pointers ve) =
      Ret (dst @ concat (map compact_pointer_bytes (compact_pointers ve)))" for dst
    using assms by (intro foldl_put put_record_append) (auto simp: edit_ok_def)
  moreover have "foldl (\<lambda>r f. res_bind r (put_new_file f)) (Ret dst) (new_files ve) =
      Ret (dst @ concat (map new_file_bytes (new_files ve)))" for dst
    using assms by (intro foldl_put put_record_append) (auto simp: edit_ok_def)
  ultimately show ?thesis
    by (simp add: VersionEdit_EncodeTo_def Let_def fold_put [OF put_record_append(2)] put_parts)
qed

lemma fold_stores:
  "fold (\<lambda>(level, key). SetCompactPointer level key) cs ve = ve \<lparr> compact_pointers := compact_pointers ve @ cs \<rparr>"
  "fold (\<lambda>(level, fnum). VersionEdit_DeleteFile level fnum) ds ve =
     ve \<lparr> deleted_files := set ds \<union> deleted_files ve \<rparr>"
  "fold (\<lambda>x ve. ve \<lparr> new_files := new_files ve @ [x] \<rparr>) fs ve = ve \<lparr> new_files := new_files ve @ fs \<rparr>"
proof -
  show "fold (\<lambda>(level, key). SetCompactPointer level key) cs ve =
      ve \<lparr> compact_pointers := compact_pointers ve @ cs \<rparr>"
    by (induction cs arbitrary: ve) (auto simp: SetCompactPointer_def)
  show "fold (\<lambda>(level, fnum). VersionEdit_DeleteFile level fnum) ds ve =
      ve \<lparr> deleted_files := set ds \<union> deleted_files ve \<rparr>"
    by (induction ds arbitrary: ve) (auto simp: VersionEdit_DeleteFile_def)
  show "fold (\<lambda>x ve. ve \<lparr> new_files := new_files ve @ [x] \<rparr>) fs ve = ve \<lparr> new_files := new_files ve @ fs \<rparr>"
    by (induction fs arbitrary: ve) simp_all
qed

lemma decode_record_lists:
  assumes "edit_ok ve"
  shows
    "ve_decode_loop v (concat (map compact_pointer_bytes (compact_pointers ve)) @ rest) =
     ve_decode_loop (v \<lparr> compact_pointers := compact_pointers v @ compact_pointers ve \<rparr>) rest"
    "ve_decode_loop v (concat (map (\<lambda>x. put_deleted_file x []) (sorted_list_of_set (deleted_files ve))) @ rest) =
     ve_decode_loop (v \<lparr> deleted_files := deleted_files ve \<union> deleted_files v \<rparr>) rest"
    "ve_decode_loop v (concat (map new_file_bytes (new_files ve)) @ rest) =
     ve_decode_loop (v \<lparr> new_files := new_files v @ new_files ve \<rparr>) rest"
proof -
  let ?cs = "compact_pointers ve" and ?ds = "sorted_list_of_set (deleted_files ve)" and ?fs = "new_files ve"
  have ds: "set ?ds = deleted_files ve" using assms by (simp add: edit_ok_def)
  have c: "ve_decode_loop v (compact_pointer_bytes x @ rest) =
      ve_decode_loop ((\<lambda>(level, key). SetCompactPointer level key) x v) rest" if "x \<in> set ?cs" for x v rest
    using that assms decode_compact_pointer [of "fst x" "snd x"] by (simp add: edit_ok_def case_prod_beta)
  have d: "ve_decode_loop v (put_deleted_file x [] @ rest) =
      ve_decode_loop ((\<lambda>(level, fnum). VersionEdit_DeleteFile level fnum) x v) rest" if "x \<in> set ?ds" for x v rest
    using that assms decode_deleted_file [of "fst x" _ "snd x"]
    unfolding ds by (simp add: edit_ok_def case_prod_beta)
  have f: "ve_decode_loop v (new_file_bytes x @ rest) =
      ve_decode_loop (v \<lparr> new_files := new_files v @ [x] \<rparr>) rest" if "x \<in> set ?fs" for x v rest
    using that assms decode_new_file [of "fst x" "snd x"] by (simp add: edit_ok_def case_prod_beta)
  show "ve_decode_loop v (concat (map compact_pointer_bytes ?cs) @ rest) =
      ve_decode_loop (v \<lparr> compact_pointers := compact_pointers v @ ?cs \<rparr>) rest"
    using decode_loop_records [where xs = "?cs" and bytes = compact_pointer_bytes and
        store = "\<lambda>(level, key). SetCompactPointer level key", OF c] by (simp only: fold_stores ds)
  show "ve_decode_loop v (concat (map (\<lambda>x. put_deleted_file x []) ?ds) @ rest) =
      ve_decode_loop (v \<lparr> deleted_files := deleted_files ve \<union> deleted_files v \<rparr>) rest"
    using decode_loop_records [where xs = "?ds" and bytes = "\<lambda>x. put_deleted_file x []" and
        store = "\<lambda>(level, fnum). VersionEdit_DeleteFile level fnum", OF d] by (simp only: fold_stores ds)
  show "ve_decode_loop v (concat (map new_file_bytes ?fs) @ rest) =
      ve_decode_loop (v \<lparr> new_files := new_files v @ ?fs \<rparr>) rest"
    using decode_loop_records [where xs = "?fs" and bytes = new_file_bytes and
        store = "\<lambda>x v. v \<lparr> new_files := new_files v @ [x] \<rparr>", OF f] by (simp only: fold_stores ds)
qed

lemma decode_loop_EncodeTo:
  assumes ok: "edit_ok ve" and clear: "VersionEdit_Clear ve0 = ve0"
  shows "\<exists>bytes. VersionEdit_EncodeTo ve [] = Ret bytes \<and> ve_decode_loop ve0 bytes =
    (ve \<lparr> compact_pointers := compact_pointers ve0 @ compact_pointers ve \<rparr>, [], None)"
proof -
  define v1 where "v1 = (if has_comparator ve then SetComparatorName (ve_comparator ve) ve0 else ve0)"
  define v2 where "v2 = (if has_log_number ve then SetLogNumber (ve_log_number ve) v1 else v1)"
  define v3 where "v3 = (if has_prev_log_number ve then SetPrevLogNumber (ve_prev_log_number ve) v2 else v2)"
  define v4 where "v4 = (if has_next_file_number ve then SetNextFile (ve_next_file_number ve) v3 else v3)"
  define v5 where "v5 = (if has_last_sequence ve then SetLastSequence (ve_last_sequence ve) v4 else v4)"
  define v6 where "v6 = v5 \<lparr> compact_pointers := compact_pointers v5 @ compact_pointers ve \<rparr>"
  define v7 where "v7 = v6 \<lparr> deleted_files := deleted_files ve \<union> deleted_files v6 \<rparr>"
  define v8 where "v8 = v7 \<lparr> new_files := new_files v7 @ new_files ve \<rparr>"
  have len: "length (ve_comparator ve) < 2 ^ 32" using ok by (simp add: edit_ok_def)
  obtain bytes where bytes: "VersionEdit_EncodeTo ve [] = Ret bytes" using EncodeTo_bytes [OF ok] by blast
  note eq = EncodeTo_bytes [OF ok, of "[]", unfolded bytes res.inject append_Nil]
  have "ve_decode_loop ve0 (bytes @ []) = ve_decode_loop v8 []"
    unfolding eq append_assoc decode_optional(5) [OF len] v1_def [symmetric]
      decode_optional(1) v2_def [symmetric] decode_optional(2) v3_def [symmetric]
      decode_optional(3) v4_def [symmetric] decode_optional(4) v5_def [symmetric]
      decode_record_lists [OF ok] v6_def [symmetric] v7_def [symmetric] v8_def [symmetric] ..
  moreover have "v8 = ve \<lparr> compact_pointers := compact_pointers ve0 @ compact_pointers ve \<rparr>"
  proof -
    note fields = ok [unfolded edit_ok_def] cleared [OF clear]
    have v1: "v1 = ve0 \<lparr> has_comparator := has_comparator ve, ve_comparator := ve_comparator ve \<rparr>"
      unfolding v1_def using fields by (intro optional_stores) simp_all
    have v2: "v2 = v1 \<lparr> has_log_number := has_log_number ve, ve_log_number := ve_log_number ve \<rparr>"
      unfolding v2_def using fields by (intro optional_stores) (simp_all add: v1)
    have v3: "v3 = v2 \<lparr> has_prev_log_number := has_prev_log_number ve, ve_prev_log_number := ve_prev_log_number ve \<rparr>"
      unfolding v3_def using fields by (intro optional_stores) (simp_all add: v1 v2)
    have v4: "v4 = v3 \<lparr> has_next_file_number := has_next_file_number ve, ve_next_file_number := ve_next_file_number ve \<rparr>"
      unfolding v4_def using fields by (intro optional_stores) (simp_all add: v1 v2 v3)
    have v5: "v5 = v4 \<lparr> has_last_sequence := has_last_sequence ve, ve_last_sequence := ve_last_sequence ve \<rparr>"
      unfolding v5_def using fields by (intro optional_stores) (simp_all add: v1 v2 v3 v4)
    show ?thesis
      using cleared(11,12) [OF clear]
      by (intro VersionEdit.equality) (simp_all add: v8_def v7_def v6_def v5 v4 v3 v2 v1)
  qed
  ultimately show ?thesis using bytes by simp
qed

text \<open>C21: a version edit round trips: an edit as the setters build it, without empty keys, is encoded, and decoding the
  bytes into a fresh edit gives the edit. Decoding into an edit that is reused gives the same, but keeps the compaction
  pointers of before in front, since \<open>Clear\<close> leaves them.\<close>

theorem VersionEdit_round_trip:
  assumes "edit_ok ve"
  shows "\<exists>bytes. VersionEdit_EncodeTo ve [] = Ret bytes \<and>
    VersionEdit_DecodeFrom new_VersionEdit bytes = (OK, ve) \<and>
    VersionEdit_DecodeFrom ve0 bytes = (OK, ve \<lparr> compact_pointers := compact_pointers ve0 @ compact_pointers ve \<rparr>)"
proof -
  obtain bytes where bytes: "VersionEdit_EncodeTo ve [] = Ret bytes" using EncodeTo_bytes [OF assms] by blast
  have all: "VersionEdit_DecodeFrom v bytes = (OK, ve \<lparr> compact_pointers := compact_pointers v @ compact_pointers ve \<rparr>)" for v
    using decode_loop_EncodeTo [OF assms, of "VersionEdit_Clear v"] bytes
    by (auto simp: VersionEdit_DecodeFrom_def VersionEdit_Clear_def)
  have "compact_pointers new_VersionEdit = []" by (simp add: new_VersionEdit_def VersionEdit_Clear_def)
  with all [of new_VersionEdit] all [of ve0] bytes show ?thesis by simp
qed

theorem VersionEdit_round_trip_witness:
  "\<exists>bytes. VersionEdit_EncodeTo (AddFile 2 9 100 [1] [5] (SetLogNumber 3 new_VersionEdit)) [] = Ret bytes \<and>
     VersionEdit_DecodeFrom new_VersionEdit bytes = (OK, AddFile 2 9 100 [1] [5] (SetLogNumber 3 new_VersionEdit))"
proof -
  have "edit_ok (AddFile 2 9 100 [1] [5] (SetLogNumber 3 new_VersionEdit))"
    by (simp add: edit_ok_def AddFile_def SetLogNumber_def new_VersionEdit_def VersionEdit_Clear_def
        level_ok_def kNumLevels_def file_ok_def key_ok_def new_FileMetaData_def)
  then show ?thesis using VersionEdit_round_trip by blast
qed

end
