(* ===== verification/LdbWriteBatch.thy ===== *)
theory LdbWriteBatch
  imports LdbDbFormat
begin

text \<open>
  Write batches, \<open>write_batch.cc\<close> and \<open>write_batch_internal.h\<close>: a string of a sequence number, a count and
  the records. The abstract batch is a sequence number and a list of updates; every operation is shown to
  implement its counterpart on it. A handler is a record of its two functions on a state of its own, and
  the memtable that \<open>InsertInto\<close> fills is a parameter. The type \<open>int\<close> is a 32-bit word, and its signed
  overflow is \<open>Undef\<close>.
\<close>

section \<open>The operations\<close>

definition kHeader :: nat where "kHeader = 12"

type_synonym WriteBatch = slice

record 'h Handler =
  Handler_Put :: "slice \<Rightarrow> slice \<Rightarrow> 'h \<Rightarrow> 'h"
  Handler_Delete :: "slice \<Rightarrow> 'h \<Rightarrow> 'h"

definition WriteBatch_Clear :: WriteBatch where
  "WriteBatch_Clear = replicate kHeader 0"

definition ApproximateSize :: "WriteBatch \<Rightarrow> nat" where
  "ApproximateSize rep = length rep"

definition int_add :: "u32 \<Rightarrow> u32 \<Rightarrow> u32 res" where
  "int_add a b = (if sint a + sint b < - (2 ^ 31) \<or> 2 ^ 31 \<le> sint a + sint b then Undef else Ret (a + b))"

definition Count :: "WriteBatch \<Rightarrow> u32 res" where
  "Count rep = DecodeFixed32 (drop 8 rep)"

text \<open>A write of \<open>bytes\<close> at an index of the string.\<close>

definition write_at :: "slice \<Rightarrow> nat \<Rightarrow> slice \<Rightarrow> slice res" where
  "write_at rep i bytes =
     (if i + length bytes \<le> length rep then Ret (take i rep @ bytes @ drop (i + length bytes) rep) else Undef)"

definition SetCount :: "WriteBatch \<Rightarrow> u32 \<Rightarrow> WriteBatch res" where
  "SetCount rep n = write_at rep 8 (EncodeFixed32 n)"

definition Sequence :: "WriteBatch \<Rightarrow> SequenceNumber res" where
  "Sequence rep = DecodeFixed64 rep"

definition SetSequence :: "WriteBatch \<Rightarrow> SequenceNumber \<Rightarrow> WriteBatch res" where
  "SetSequence rep seq = write_at rep 0 (EncodeFixed64 seq)"

definition WriteBatch_Put :: "WriteBatch \<Rightarrow> slice \<Rightarrow> slice \<Rightarrow> WriteBatch res" where
  "WriteBatch_Put rep key value =
     res_bind (Count rep) (\<lambda>n.
     res_bind (int_add n 1) (\<lambda>n.
     res_bind (SetCount rep n) (\<lambda>rep.
       Ret (PutLengthPrefixedSlice (PutLengthPrefixedSlice (rep @ [kTypeValue]) key) value))))"

definition WriteBatch_Delete :: "WriteBatch \<Rightarrow> slice \<Rightarrow> WriteBatch res" where
  "WriteBatch_Delete rep key =
     res_bind (Count rep) (\<lambda>n.
     res_bind (int_add n 1) (\<lambda>n.
     res_bind (SetCount rep n) (\<lambda>rep.
       Ret (PutLengthPrefixedSlice (rep @ [kTypeDeletion]) key))))"

definition WriteBatchInternal_Append :: "WriteBatch \<Rightarrow> WriteBatch \<Rightarrow> WriteBatch res" where
  "WriteBatchInternal_Append dst src =
     res_bind (Count dst) (\<lambda>n.
     res_bind (Count src) (\<lambda>m.
     res_bind (int_add n m) (\<lambda>n.
     res_bind (SetCount dst n) (\<lambda>dst.
       if length src < kHeader then Undef else Ret (dst @ drop kHeader src)))))"

definition WriteBatch_Append :: "WriteBatch \<Rightarrow> WriteBatch \<Rightarrow> WriteBatch res" where
  "WriteBatch_Append rep source = WriteBatchInternal_Append rep source"

definition SetContents :: "slice \<Rightarrow> WriteBatch" where
  "SetContents contents = contents"

definition Contents :: "WriteBatch \<Rightarrow> slice" where
  "Contents rep = rep"

definition ByteSize :: "WriteBatch \<Rightarrow> nat" where
  "ByteSize rep = length rep"

text \<open>One round of the loop of \<open>Iterate\<close> after the tag was read: an error, or the rest of the input.\<close>

definition iterate_record ::
    "'h Handler \<Rightarrow> u8 \<Rightarrow> slice \<Rightarrow> 'h \<Rightarrow> (string + slice) \<times> 'h" where
  "iterate_record handler tag inp h =
     (if tag = kTypeValue
      then (case GetLengthPrefixedSlice inp of
              (None, _) \<Rightarrow> (Inl ''bad WriteBatch Put'', h)
            | (Some key, inp) \<Rightarrow>
                (case GetLengthPrefixedSlice inp of
                   (None, _) \<Rightarrow> (Inl ''bad WriteBatch Put'', h)
                 | (Some v, inp) \<Rightarrow> (Inr inp, Handler_Put handler key v h)))
      else if tag = kTypeDeletion
      then (case GetLengthPrefixedSlice inp of
              (None, _) \<Rightarrow> (Inl ''bad WriteBatch Delete'', h)
            | (Some key, inp) \<Rightarrow> (Inr inp, Handler_Delete handler key h))
      else (Inl ''unknown WriteBatch tag'', h))"

lemma GetLengthPrefixedSlice_shorter:
  "GetLengthPrefixedSlice inp = (Some s, rest) \<Longrightarrow> length rest < length inp"
  using GetLengthPrefixedSlice_consumes [of inp s rest] by auto

lemma iterate_record_shorter:
  "iterate_record handler tag inp h = (Inr rest, h') \<Longrightarrow> length rest < length inp"
  by (auto simp: iterate_record_def dest!: GetLengthPrefixedSlice_shorter
      split: if_splits prod.splits option.splits)

function iterate_loop ::
    "'h Handler \<Rightarrow> slice \<Rightarrow> u32 \<Rightarrow> 'h \<Rightarrow> ((string + u32) \<times> 'h) res" where
  "iterate_loop handler [] found h = Ret (Inr found, h)"
| "iterate_loop handler (tag # inp) found h =
     res_bind (int_add found 1) (\<lambda>found.
       case iterate_record handler tag inp h of
         (Inl msg, h) \<Rightarrow> Ret (Inl msg, h)
       | (Inr rest, h) \<Rightarrow> iterate_loop handler rest found h)"
  by pat_completeness auto

termination
  by (relation "measure (\<lambda>(_, inp, _, _). length inp)")
    (auto dest!: iterate_record_shorter [OF sym] iterate_record_shorter)

definition Iterate :: "'h Handler \<Rightarrow> WriteBatch \<Rightarrow> 'h \<Rightarrow> (Status \<times> 'h) res" where
  "Iterate handler rep h =
     (if length rep < kHeader then Ret (Corruption ''malformed WriteBatch (too small)'' [], h)
      else res_bind (iterate_loop handler (drop kHeader rep) 0 h) (\<lambda>(r, h).
        case r of
          Inl msg \<Rightarrow> Ret (Corruption msg [], h)
        | Inr found \<Rightarrow> res_bind (Count rep) (\<lambda>n.
            Ret (if found \<noteq> n then Corruption ''WriteBatch has wrong count'' [] else OK, h))))"

text \<open>\<open>MemTableInserter\<close>, on the pair of \<open>sequence_\<close> and the memtable, whose \<open>Add\<close> is the parameter.\<close>

definition MemTableInserter ::
    "(SequenceNumber \<Rightarrow> ValueType \<Rightarrow> slice \<Rightarrow> slice \<Rightarrow> 'm \<Rightarrow> 'm) \<Rightarrow> (SequenceNumber \<times> 'm) Handler" where
  "MemTableInserter add =
     \<lparr> Handler_Put = \<lambda>key v (seq, mem). (seq + 1, add seq kTypeValue key v mem),
       Handler_Delete = \<lambda>key (seq, mem). (seq + 1, add seq kTypeDeletion key [] mem) \<rparr>"

definition InsertInto ::
    "(SequenceNumber \<Rightarrow> ValueType \<Rightarrow> slice \<Rightarrow> slice \<Rightarrow> 'm \<Rightarrow> 'm) \<Rightarrow> WriteBatch \<Rightarrow> 'm \<Rightarrow> (Status \<times> 'm) res" where
  "InsertInto add rep mem =
     res_bind (Sequence rep) (\<lambda>seq.
     res_bind (Iterate (MemTableInserter add) rep (seq, mem)) (\<lambda>(s, _, mem). Ret (s, mem)))"

section \<open>Batches as lists of updates\<close>

datatype update = Put slice slice | Delete slice

primrec update_ok :: "update \<Rightarrow> bool" where
  "update_ok (Put k v) \<longleftrightarrow> length k < 2 ^ 32 \<and> length v < 2 ^ 32"
| "update_ok (Delete k) \<longleftrightarrow> length k < 2 ^ 32"

primrec update_bytes :: "update \<Rightarrow> slice" where
  "update_bytes (Put k v) = kTypeValue # PutLengthPrefixedSlice [] k @ PutLengthPrefixedSlice [] v"
| "update_bytes (Delete k) = kTypeDeletion # PutLengthPrefixedSlice [] k"

definition batch_bytes :: "SequenceNumber \<Rightarrow> update list \<Rightarrow> WriteBatch" where
  "batch_bytes seq us = EncodeFixed64 seq @ EncodeFixed32 (of_nat (length us)) @ concat (map update_bytes us)"

definition batch_ok :: "update list \<Rightarrow> bool" where
  "batch_ok us \<longleftrightarrow> list_all update_ok us \<and> length us < 2 ^ 31"

primrec apply_update :: "'h Handler \<Rightarrow> update \<Rightarrow> 'h \<Rightarrow> 'h" where
  "apply_update handler (Put k v) h = Handler_Put handler k v h"
| "apply_update handler (Delete k) h = Handler_Delete handler k h"

lemma int_add_nat:
  assumes "n + m < 2 ^ 31"
  shows "int_add (of_nat n) (of_nat m) = Ret (of_nat (n + m))"
proof -
  have "sint (of_nat k :: u32) = int k" if "k < 2 ^ 31" for k
    using that by (simp add: signed_of_nat signed_take_bit_int_eq_self)
  then show ?thesis using assms by (simp add: int_add_def)
qed

lemma int_add_1: "Suc n < 2 ^ 31 \<Longrightarrow> int_add (of_nat n) 1 = Ret (of_nat (Suc n))"
  using int_add_nat [of n 1] by (simp add: add.commute)

lemma batch_header [simp]:
  "Count (batch_bytes seq us) = Ret (of_nat (length us))"
  "Sequence (batch_bytes seq us) = Ret seq"
  "drop kHeader (batch_bytes seq us) = concat (map update_bytes us)"
  "\<not> length (batch_bytes seq us) < kHeader"
  by (simp_all add: Count_def Sequence_def batch_bytes_def kHeader_def)

lemma SetCount_batch:
  "SetCount (batch_bytes seq us) n = Ret (EncodeFixed64 seq @ EncodeFixed32 n @ concat (map update_bytes us))"
  by (simp add: SetCount_def write_at_def batch_bytes_def)

lemma iterate_record_update:
  assumes "update_ok u"
  shows "\<exists>tag inp. update_bytes u @ rest = tag # inp \<and>
    iterate_record handler tag inp h = (Inr rest, apply_update handler u h)"
  using assms
  by (cases u) (simp_all add: iterate_record_def length_prefixed.get_put kTypeValue_def kTypeDeletion_def)

lemma iterate_loop_updates:
  "list_all update_ok us \<Longrightarrow> n + length us < 2 ^ 31 \<Longrightarrow>
   iterate_loop handler (concat (map update_bytes us)) (of_nat n) h =
   Ret (Inr (of_nat (n + length us)), fold (apply_update handler) us h)"
proof (induction us arbitrary: n h)
  case (Cons u us)
  obtain tag inp where r: "update_bytes u @ concat (map update_bytes us) = tag # inp"
      "iterate_record handler tag inp h = (Inr (concat (map update_bytes us)), apply_update handler u h)"
    using iterate_record_update [of u] Cons.prems(1) by fastforce
  then show ?case
    using Cons.IH [of "Suc n" "apply_update handler u h"] Cons.prems int_add_1 [of n] by simp
qed simp

lemma Iterate_batch:
  "batch_ok us \<Longrightarrow>
   Iterate handler (batch_bytes seq us) h = Ret (OK, fold (apply_update handler) us h)"
  using iterate_loop_updates [of us 0 handler h] by (simp add: Iterate_def batch_ok_def)

text \<open>C22: the operations on the string of a batch implement those on the list of its updates: clearing,
  putting, deleting, appending another batch, and setting and reading the sequence number.\<close>

theorem WriteBatch_refines_updates:
  assumes "batch_ok (us @ vs)" and "batch_ok (us @ [Put k v])"
  shows "WriteBatch_Clear = batch_bytes 0 [] \<and>
    WriteBatch_Put (batch_bytes seq us) k v = Ret (batch_bytes seq (us @ [Put k v])) \<and>
    WriteBatch_Delete (batch_bytes seq us) k = Ret (batch_bytes seq (us @ [Delete k])) \<and>
    WriteBatch_Append (batch_bytes seq us) (batch_bytes seq' vs) = Ret (batch_bytes seq (us @ vs)) \<and>
    SetSequence (batch_bytes seq us) seq' = Ret (batch_bytes seq' us) \<and>
    Sequence (batch_bytes seq us) = Ret seq \<and>
    Count (batch_bytes seq us) = Ret (of_nat (length us))"
proof (intro conjI)
  have n: "Suc (length us) < 2 ^ 31" "length us + length vs < 2 ^ 31" using assms by (simp_all add: batch_ok_def)
  show "WriteBatch_Clear = batch_bytes 0 []"
    by (simp add: WriteBatch_Clear_def batch_bytes_def kHeader_def EncodeFixed32_def EncodeFixed64_def
        kLittleEndian_def eval_nat_numeral)
  show "WriteBatch_Put (batch_bytes seq us) k v = Ret (batch_bytes seq (us @ [Put k v]))"
    using int_add_1 [OF n(1)] by (simp add: WriteBatch_Put_def SetCount_batch)
      (simp add: batch_bytes_def Put_append(5) [of "_ @ _"])
  show "WriteBatch_Delete (batch_bytes seq us) k = Ret (batch_bytes seq (us @ [Delete k]))"
    using int_add_1 [OF n(1)] by (simp add: WriteBatch_Delete_def SetCount_batch)
      (simp add: batch_bytes_def Put_append(5) [of "_ @ _"])
  show "WriteBatch_Append (batch_bytes seq us) (batch_bytes seq' vs) = Ret (batch_bytes seq (us @ vs))"
    using int_add_nat [OF n(2)]
    by (simp add: WriteBatch_Append_def WriteBatchInternal_Append_def SetCount_batch)
      (simp add: batch_bytes_def)
  show "SetSequence (batch_bytes seq us) seq' = Ret (batch_bytes seq' us)"
    by (simp add: SetSequence_def write_at_def batch_bytes_def)
qed simp_all

theorem WriteBatch_refines_updates_witness:
  "WriteBatch_Put (batch_bytes 7 [Delete [1]]) [2] [3] = Ret (batch_bytes 7 [Delete [1], Put [2] [3]]) \<and>
   WriteBatch_Append (batch_bytes 7 [Delete [1]]) (batch_bytes 9 [Delete [4]]) =
     Ret (batch_bytes 7 [Delete [1], Delete [4]])"
  using WriteBatch_refines_updates [of "[Delete [1]]" "[Delete [4]]" "[2]" "[3]" 7 9]
  by (simp add: batch_ok_def)

text \<open>The additions to a memtable that a batch stands for.\<close>

primrec add_updates ::
    "(SequenceNumber \<Rightarrow> ValueType \<Rightarrow> slice \<Rightarrow> slice \<Rightarrow> 'm \<Rightarrow> 'm) \<Rightarrow> SequenceNumber \<Rightarrow> update list \<Rightarrow> 'm \<Rightarrow> 'm" where
  "add_updates add seq [] mem = mem"
| "add_updates add seq (u # us) mem = add_updates add (seq + 1) us
     (case u of Put k v \<Rightarrow> add seq kTypeValue k v mem | Delete k \<Rightarrow> add seq kTypeDeletion k [] mem)"

lemma fold_MemTableInserter:
  "snd (fold (apply_update (MemTableInserter add)) us (seq, mem)) = add_updates add seq us mem"
proof (induction us arbitrary: seq mem)
  case (Cons u us)
  then show ?case by (cases u) (simp_all add: MemTableInserter_def)
qed simp

lemma InsertInto_batch:
  assumes "batch_ok us"
  shows "InsertInto add (batch_bytes seq us) mem = Ret (OK, add_updates add seq us mem)"
proof -
  obtain seq' mem' where f: "fold (apply_update (MemTableInserter add)) us (seq, mem) = (seq', mem')"
    by fastforce
  then have "mem' = add_updates add seq us mem" using fold_MemTableInserter [of add us seq mem] by simp
  with f show ?thesis by (simp add: InsertInto_def Iterate_batch [OF assms])
qed

text \<open>Inserting a batch applies its updates in order, with consecutive sequence numbers that start
  at the number of the batch, and reports success; iterating over it calls the handler once for each
  update, in order.\<close>

theorem InsertInto_applies_updates:
  assumes "batch_ok us"
  shows "InsertInto add (batch_bytes seq us) mem = Ret (OK, add_updates add seq us mem) \<and>
    Iterate handler (batch_bytes seq us) h = Ret (OK, fold (apply_update handler) us h)"
  by (simp add: InsertInto_batch [OF assms] Iterate_batch [OF assms])

theorem InsertInto_applies_updates_witness:
  "InsertInto (\<lambda>seq t k v mem. mem @ [(seq, t, k, v)]) (batch_bytes 7 [Put [1] [2], Delete [3]]) [] =
     Ret (OK, [(7, kTypeValue, [1], [2]), (8, kTypeDeletion, [3], [])])"
  using InsertInto_applies_updates [of "[Put [1] [2], Delete [3]]"
      "\<lambda>seq t k v mem. mem @ [(seq, t, k, v)]" 7 "[]"
      "\<lparr> Handler_Put = \<lambda>_ _ h. h, Handler_Delete = \<lambda>_ h. h \<rparr>" "()"]
  by (simp add: batch_ok_def)

section \<open>Arbitrary contents\<close>

text \<open>The records of a batch, in any encoding of the lengths.\<close>

primrec update_at :: "slice \<Rightarrow> update \<Rightarrow> bool" where
  "update_at c (Put k v) \<longleftrightarrow> (\<exists>a b. c = kTypeValue # a @ b \<and> prefixed k a \<and> prefixed v b)"
| "update_at c (Delete k) \<longleftrightarrow> (\<exists>a. c = kTypeDeletion # a \<and> prefixed k a)"

definition bad_record :: "u8 \<Rightarrow> string" where
  "bad_record tag = (if tag = kTypeValue then ''bad WriteBatch Put''
     else if tag = kTypeDeletion then ''bad WriteBatch Delete'' else ''unknown WriteBatch tag'')"

lemma GetLengthPrefixedSlice_none:
  "GetLengthPrefixedSlice inp = (None, rest') \<Longrightarrow> \<not> (inp = c @ rest \<and> prefixed s c)"
  using GetLengthPrefixedSlice_exact [of inp s rest] by auto

text \<open>Which strings start with a record.\<close>

lemma starts_with_record:
  "(\<exists>c u rest. tag # inp = c @ rest \<and> update_at c u) \<longleftrightarrow>
   (tag = kTypeValue \<and> (\<exists>a k b v rest. inp = a @ b @ rest \<and> prefixed k a \<and> prefixed v b)) \<or>
   (tag = kTypeDeletion \<and> (\<exists>a k rest. inp = a @ rest \<and> prefixed k a))" (is "?L \<longleftrightarrow> ?P \<or> ?D")
proof
  assume ?L
  then obtain c u rest where u: "tag # inp = c @ rest" "update_at c u" by blast
  show "?P \<or> ?D"
  proof (cases u)
    case (Put k v)
    then obtain a b where "c = kTypeValue # a @ b" "prefixed k a" "prefixed v b" using u(2) by auto
    then have ?P using u(1) by (intro conjI exI [of _ a] exI [of _ k] exI [of _ b] exI [of _ v] exI [of _ rest]) auto
    then show ?thesis ..
  next
    case (Delete k)
    then obtain a where "c = kTypeDeletion # a" "prefixed k a" using u(2) by auto
    then have ?D using u(1) by (intro conjI exI [of _ a] exI [of _ k] exI [of _ rest]) auto
    then show ?thesis ..
  qed
next
  assume "?P \<or> ?D"
  then show ?L
  proof (elim disjE conjE exE)
    fix a k b v rest assume "tag = kTypeValue" "inp = a @ b @ rest" "prefixed k a" "prefixed v b"
    then have "tag # inp = (kTypeValue # a @ b) @ rest" "update_at (kTypeValue # a @ b) (Put k v)" by auto
    then show ?L by blast
  next
    fix a k rest assume "tag = kTypeDeletion" "inp = a @ rest" "prefixed k a"
    then have "tag # inp = (kTypeDeletion # a) @ rest" "update_at (kTypeDeletion # a) (Delete k)" by auto
    then show ?L by blast
  qed
qed

lemma tags_differ: "kTypeValue \<noteq> kTypeDeletion"
  by (simp add: kTypeValue_def kTypeDeletion_def)

lemma iterate_record_fails:
  assumes "iterate_record handler tag inp h = (Inl msg, h')"
  shows "h' = h \<and> msg = bad_record tag \<and> (\<nexists>c u rest. tag # inp = c @ rest \<and> update_at c u)"
proof -
  have put: "\<not> (inp = a @ b @ rest \<and> prefixed k a \<and> prefixed v b)" if "tag = kTypeValue" for a b k v rest
  proof
    assume x: "inp = a @ b @ rest \<and> prefixed k a \<and> prefixed v b"
    then have "GetLengthPrefixedSlice inp = (Some k, b @ rest)" "GetLengthPrefixedSlice (b @ rest) = (Some v, rest)"
      using GetLengthPrefixedSlice_exact by blast+
    then show False using assms that by (simp add: iterate_record_def)
  qed
  have delete: "\<not> (inp = a @ rest \<and> prefixed k a)" if "tag = kTypeDeletion" for a k rest
    using GetLengthPrefixedSlice_exact [of inp k rest] assms that tags_differ by (auto simp: iterate_record_def)
  have "\<nexists>c u rest. tag # inp = c @ rest \<and> update_at c u"
    unfolding starts_with_record using put delete by blast
  moreover have "h' = h \<and> msg = bad_record tag"
    using assms by (auto simp: iterate_record_def bad_record_def split: if_splits prod.splits option.splits)
  ultimately show ?thesis by blast
qed

lemma iterate_record_takes:
  assumes "iterate_record handler tag inp h = (Inr rest, h')"
  shows "\<exists>c u. tag # inp = c @ rest \<and> update_at c u \<and> h' = apply_update handler u h"
proof (cases "tag = kTypeValue")
  case True
  then obtain k inp1 v where g: "GetLengthPrefixedSlice inp = (Some k, inp1)" "GetLengthPrefixedSlice inp1 = (Some v, rest)"
      "h' = Handler_Put handler k v h"
    using assms by (auto simp: iterate_record_def split: prod.splits option.splits)
  then obtain a b where "inp = a @ b @ rest" "prefixed k a" "prefixed v b" using GetLengthPrefixedSlice_exact by metis
  then show ?thesis using True g(3) by (intro exI [of _ "kTypeValue # a @ b"] exI [of _ "Put k v"]) auto
next
  case False
  then obtain k where g: "tag = kTypeDeletion" "GetLengthPrefixedSlice inp = (Some k, rest)" "h' = Handler_Delete handler k h"
    using assms by (auto simp: iterate_record_def split: prod.splits option.splits if_splits)
  then obtain a where "inp = a @ rest" "prefixed k a" using GetLengthPrefixedSlice_exact by metis
  then show ?thesis using g by (intro exI [of _ "kTypeDeletion # a"] exI [of _ "Delete k"]) auto
qed

text \<open>The loop takes records until the input is empty or does not start with one.\<close>

lemma iterate_loop_exact:
  "unat found + length inp < 2 ^ 31 \<Longrightarrow>
   \<exists>cs us rest. inp = concat cs @ rest \<and> list_all2 update_at cs us \<and>
     (rest \<noteq> [] \<longrightarrow> (\<nexists>c u rest'. rest = c @ rest' \<and> update_at c u)) \<and>
     iterate_loop handler inp found h =
       Ret (if rest = [] then Inr (found + of_nat (length us)) else Inl (bad_record (hd rest)), fold (apply_update handler) us h)"
proof (induction handler inp found h rule: iterate_loop.induct)
  case (1 handler found h)
  then show ?case by (intro exI [of _ "[]"]) simp
next
  case (2 handler tag inp found h)
  have f: "int_add found 1 = Ret (found + 1)" "unat (found + 1) = Suc (unat found)"
    using int_add_1 [of "unat found"] "2.prems" by (auto simp: unat_word_ariths)
  obtain q h1 where q: "iterate_record handler tag inp h = (q, h1)" by fastforce
  show ?case
  proof (cases q)
    case (Inl msg)
    then show ?thesis using f(1) q iterate_record_fails [of handler tag inp h msg h1]
      by (intro exI [of _ "[]"] exI [of _ "tag # inp"]) simp
  next
    case (Inr rest)
    then obtain c u where u: "tag # inp = c @ rest" "update_at c u" "h1 = apply_update handler u h"
      using iterate_record_takes [OF q [unfolded Inr]] by blast
    have "length rest < length inp" using iterate_record_shorter [OF q [unfolded Inr]] .
    then have "unat (found + 1) + length rest < 2 ^ 31" using f(2) "2.prems" by simp
    from "2.IH" [OF f(1) q [symmetric] Inr this] obtain cs us rest' where ih:
        "rest = concat cs @ rest'" "list_all2 update_at cs us" "rest' \<noteq> [] \<longrightarrow> (\<nexists>c u r. rest' = c @ r \<and> update_at c u)"
        "iterate_loop handler rest (found + 1) h1 =
          Ret (if rest' = [] then Inr (found + 1 + of_nat (length us)) else Inl (bad_record (hd rest')), fold (apply_update handler) us h1)"
      by auto
    have "iterate_loop handler (tag # inp) found h =
        Ret (if rest' = [] then Inr (found + of_nat (length (u # us))) else Inl (bad_record (hd rest')),
          fold (apply_update handler) (u # us) h)"
      using f(1) q Inr u(3) ih(4) by (simp add: add.assoc)
    moreover have "tag # inp = concat (c # cs) @ rest'" using u(1) ih(1) by simp
    moreover have "list_all2 update_at (c # cs) (u # us)" using u(2) ih(2) by simp
    ultimately show ?thesis using ih(3) by blast
  qed
qed

text \<open>C23: iterating over arbitrary contents, as they come from a damaged log, never faults. Behind the header stand
  records, with any encoding of their lengths, up to the end or to bytes that no record starts with; the handler is
  called once for each of them, in order, with the key and the value that stand there, and for nothing else. The result
  is OK exactly if no such bytes are left and the number of the records is the count in the header; otherwise it names
  what is wrong.\<close>

theorem Iterate_of_any_contents:
  assumes "length rep < 2 ^ 31"
  shows "if length rep < kHeader then Iterate handler rep h = Ret (Corruption ''malformed WriteBatch (too small)'' [], h)
    else \<exists>cs us rest. drop kHeader rep = concat cs @ rest \<and> list_all2 update_at cs us \<and>
      (rest \<noteq> [] \<longrightarrow> (\<nexists>c u rest'. rest = c @ rest' \<and> update_at c u)) \<and>
      Iterate handler rep h =
        Ret (if rest \<noteq> [] then Corruption (bad_record (hd rest)) []
             else if Count rep = Ret (of_nat (length us)) then OK
             else Corruption ''WriteBatch has wrong count'' [],
           fold (apply_update handler) us h)"
proof (cases "length rep < kHeader")
  case False
  have "unat (0 :: u32) + length (drop kHeader rep) < 2 ^ 31" using assms by (simp add: less_imp_diff_less)
  from iterate_loop_exact [OF this, of handler h] obtain cs us rest where r: "drop kHeader rep = concat cs @ rest" "list_all2 update_at cs us"
      "rest \<noteq> [] \<longrightarrow> (\<nexists>c u rest'. rest = c @ rest' \<and> update_at c u)"
      "iterate_loop handler (drop kHeader rep) 0 h =
        Ret (if rest = [] then Inr (0 + of_nat (length us)) else Inl (bad_record (hd rest)), fold (apply_update handler) us h)"
    by blast
  obtain n where "Count rep = Ret n"
    using False DecodeFixed32_total [of "drop 8 rep"] by (fastforce simp: Count_def kHeader_def)
  then have "Iterate handler rep h =
      Ret (if rest \<noteq> [] then Corruption (bad_record (hd rest)) []
           else if Count rep = Ret (of_nat (length us)) then OK
           else Corruption ''WriteBatch has wrong count'' [],
         fold (apply_update handler) us h)"
    using False r(4) by (auto simp: Iterate_def)
  then show ?thesis using False r(1-3) by auto
qed (simp add: Iterate_def)

text \<open>The length of the key takes two bytes, and after the record stands a byte that is no tag.\<close>

theorem Iterate_of_any_contents_witness:
  "\<exists>cs us rest. [1, 0x81, 0, 7, 0, 9] = concat cs @ rest \<and> list_all2 update_at cs us \<and>
     (rest \<noteq> [] \<longrightarrow> (\<nexists>c u rest'. rest = c @ rest' \<and> update_at c u)) \<and>
     fold (apply_update \<lparr> Handler_Put = \<lambda>k v h. h @ [(k, v)], Handler_Delete = \<lambda>k h. h \<rparr>) us [] = [([7], [])]"
proof -
  let ?h = "\<lparr> Handler_Put = \<lambda>k v h. h @ [(k, v)], Handler_Delete = \<lambda>k h. h \<rparr>"
  let ?rep = "[5, 0, 0, 0, 0, 0, 0, 0, 1, 0, 0, 0, 1, 0x81, 0, 7, 0, 9] :: slice"
  have run: "Iterate ?h ?rep [] = Ret (Corruption ''unknown WriteBatch tag'' [], [([7], [])])" by code_simp
  have rep: "\<not> length ?rep < kHeader" "drop kHeader ?rep = [1, 0x81, 0, 7, 0, 9]" by (simp_all add: kHeader_def)
  obtain cs us rest where r: "drop kHeader ?rep = concat cs @ rest" "list_all2 update_at cs us"
      "rest \<noteq> [] \<longrightarrow> (\<nexists>c u rest'. rest = c @ rest' \<and> update_at c u)"
      "Iterate ?h ?rep [] = Ret (if rest \<noteq> [] then Corruption (bad_record (hd rest)) []
         else if Count ?rep = Ret (of_nat (length us)) then OK
         else Corruption ''WriteBatch has wrong count'' [], fold (apply_update ?h) us [])"
    using Iterate_of_any_contents [of ?rep ?h "[]"] unfolding if_not_P [OF rep(1)] by auto
  then have "fold (apply_update ?h) us [] = [([7], [])]" unfolding run by (simp del: apply_update.simps)
  then show ?thesis using r(1-3) rep(2) by metis
qed

end
