(* ===== verification/LdbCrc.thy ===== *)
theory LdbCrc
  imports LdbCrcTables
begin

text \<open>
  The checksum of \<open>crc32c.cc\<close> and its masked form of \<open>crc32c.h\<close>. \<open>Extend\<close> works byte by byte up to an
  aligned address, then sixteen bytes at a time in four interleaved registers, and byte by byte to the
  end; it is shown equal to the bit-serial register. The hardware routine of the port is a parameter.
  The address \<open>p\<close> of the data is an integer and only decides how many bytes come before alignment.
\<close>

section \<open>The routine\<close>

definition kCRC32Xor :: u32 where "kCRC32Xor = 0xffffffff"

definition ReadUint32LE :: "slice \<Rightarrow> u32 res" where
  "ReadUint32LE buffer = DecodeFixed32 buffer"

definition RoundUp4 :: "addr \<Rightarrow> addr" where
  "RoundUp4 pointer = (pointer + 3) AND NOT 3"

text \<open>\<open>STEP1\<close> for one byte.\<close>

definition STEP1 :: "u32 \<Rightarrow> u8 \<Rightarrow> u32" where
  "STEP1 l b = kByteExtensionTable ! unat ((l AND 0xff) XOR ucast b) XOR drop_bit 8 l"

text \<open>\<open>STEP4(s)\<close> on the register \<open>crc##s\<close>, given the word at \<open>p + s * 4\<close>.\<close>

definition STEP4 :: "u32 \<Rightarrow> u32 \<Rightarrow> u32" where
  "STEP4 word crc = word XOR kStrideExtensionTable3 ! unat (crc AND 0xff) XOR
     kStrideExtensionTable2 ! unat (drop_bit 8 crc AND 0xff) XOR
     kStrideExtensionTable1 ! unat (drop_bit 16 crc AND 0xff) XOR
     kStrideExtensionTable0 ! unat (drop_bit 24 crc)"

definition step4w_byte :: "u32 \<Rightarrow> u32" where
  "step4w_byte w = drop_bit 8 w XOR kByteExtensionTable ! unat (w AND 0xff)"

text \<open>\<open>STEP4W(w)\<close>: the new \<open>l\<close>.\<close>

definition STEP4W :: "u32 \<Rightarrow> u32 \<Rightarrow> u32" where
  "STEP4W w l = (step4w_byte ^^ 4) (w XOR l)"

type_synonym strides = "u32 \<times> u32 \<times> u32 \<times> u32"

fun step16_loop :: "strides \<Rightarrow> slice \<Rightarrow> (strides \<times> slice) res" where
  "step16_loop (crc0, crc1, crc2, crc3) p =
     (if 16 \<le> length p
      then res_bind (ReadUint32LE p) (\<lambda>w0.
           res_bind (ReadUint32LE (drop 4 p)) (\<lambda>w1.
           res_bind (ReadUint32LE (drop 8 p)) (\<lambda>w2.
           res_bind (ReadUint32LE (drop 12 p)) (\<lambda>w3.
             step16_loop (STEP4 w0 crc0, STEP4 w1 crc1, STEP4 w2 crc2, STEP4 w3 crc3) (drop 16 p)))))
      else Ret ((crc0, crc1, crc2, crc3), p))"

fun step4_loop :: "strides \<Rightarrow> slice \<Rightarrow> (strides \<times> slice) res" where
  "step4_loop (crc0, crc1, crc2, crc3) p =
     (if 4 \<le> length p
      then res_bind (ReadUint32LE p) (\<lambda>w0.
             step4_loop (crc1, crc2, crc3, STEP4 w0 crc0) (drop 4 p))
      else Ret ((crc0, crc1, crc2, crc3), p))"

declare step16_loop.simps [simp del] step4_loop.simps [simp del]

definition combine :: "strides \<Rightarrow> u32" where
  "combine = (\<lambda>(crc0, crc1, crc2, crc3). STEP4W crc3 (STEP4W crc2 (STEP4W crc1 (STEP4W crc0 0))))"

text \<open>The block of \<open>Extend\<close> for at least sixteen bytes: the new \<open>l\<close> and what is left.\<close>

definition extend_strides :: "u32 \<Rightarrow> slice \<Rightarrow> (u32 \<times> slice) res" where
  "extend_strides l p =
     res_bind (ReadUint32LE p) (\<lambda>w0.
     res_bind (ReadUint32LE (drop 4 p)) (\<lambda>crc1.
     res_bind (ReadUint32LE (drop 8 p)) (\<lambda>crc2.
     res_bind (ReadUint32LE (drop 12 p)) (\<lambda>crc3.
     res_bind (step16_loop (w0 XOR l, crc1, crc2, crc3) (drop 16 p)) (\<lambda>(crcs, p).
     res_bind (step4_loop crcs p) (\<lambda>(crcs, p).
       Ret (combine crcs, p)))))))"

definition CanAccelerateCRC32C :: "(u32 \<Rightarrow> slice \<Rightarrow> u32) \<Rightarrow> bool" where
  "CanAccelerateCRC32C AcceleratedCRC32C \<longleftrightarrow>
     AcceleratedCRC32C 0 (map of_char ''TestCRCBuffer'') = 0xdcbc59fa"

definition Extend :: "(u32 \<Rightarrow> slice \<Rightarrow> u32) \<Rightarrow> u32 \<Rightarrow> addr \<Rightarrow> slice \<Rightarrow> u32 res" where
  "Extend AcceleratedCRC32C crc p data =
     (if CanAccelerateCRC32C AcceleratedCRC32C then Ret (AcceleratedCRC32C crc data)
      else let e = p + int (length data);
               l = crc XOR kCRC32Xor;
               x = RoundUp4 p;
               n = (if x \<le> e then nat (x - p) else 0);
               l = foldl STEP1 l (take n data);
               data = drop n data
           in res_bind (if 16 \<le> length data then extend_strides l data else Ret (l, data))
                (\<lambda>(l, data). Ret (foldl STEP1 l data XOR kCRC32Xor)))"

definition Value :: "(u32 \<Rightarrow> slice \<Rightarrow> u32) \<Rightarrow> addr \<Rightarrow> slice \<Rightarrow> u32 res" where
  "Value AcceleratedCRC32C p data = Extend AcceleratedCRC32C 0 p data"

definition kMaskDelta :: u32 where "kMaskDelta = 0xa282ead8"

definition Mask :: "u32 \<Rightarrow> u32" where
  "Mask crc = (drop_bit 15 crc OR push_bit 17 crc) + kMaskDelta"

definition Unmask :: "u32 \<Rightarrow> u32" where
  "Unmask masked_crc =
     (let rot = masked_crc - kMaskDelta in drop_bit 17 rot OR push_bit 15 rot)"

section \<open>Zero bytes\<close>

lemma crc_zero_xor [simp]: "crc_zero (x XOR y) = crc_zero x XOR crc_zero y"
  using linearD [OF linear_crc_zero] .

lemma zeros_xor: "(crc_zero ^^ n) (x XOR y) = (crc_zero ^^ n) x XOR (crc_zero ^^ n) y"
  using linearD [OF linear_funpow [OF linear_crc_zero]] .

lemma zeros_0 [simp]: "(crc_zero ^^ n) 0 = 0"
  using linear_0 [OF linear_funpow [OF linear_crc_zero]] .

lemma crc_bit_shift: "\<not> bit x 0 \<Longrightarrow> crc_bit x = drop_bit 1 x"
  by (simp add: crc_bit_def)

lemma crc_bits_shift: "take_bit n x = 0 \<Longrightarrow> (crc_bit ^^ n) x = drop_bit n x"
proof (induction n arbitrary: x)
  case (Suc n)
  have z: "bit (take_bit (Suc n) x) i = False" for i using Suc.prems by simp
  from z [of 0] have b: "\<not> bit x 0" by (simp add: bit_take_bit_iff)
  have "take_bit n (drop_bit 1 x) = 0"
  proof (rule bit_word_eqI)
    fix i
    show "bit (take_bit n (drop_bit 1 x)) i = bit (0 :: u32) i"
      using z [of "Suc i"] by (auto simp: bit_simps)
  qed
  then have "(crc_bit ^^ n) (crc_bit x) = drop_bit n (drop_bit 1 x)"
    using Suc.IH [of "drop_bit 1 x"] b by (simp add: crc_bit_shift)
  then show ?case by (simp add: funpow_swap1)
qed simp

lemma low_byte: "x AND 0xff = take_bit 8 (x :: u32)"
  by (simp add: take_bit_eq_mask mask_eq_exp_minus_1)

text \<open>A zero byte shifts out the low byte.\<close>

lemma crc_zero_split: "crc_zero x = crc_zero (x AND 0xff) XOR drop_bit 8 x"
proof -
  let ?h = "push_bit 8 (drop_bit 8 x)"
  have "x = (x AND 0xff) XOR ?h"
    unfolding low_byte by (intro bit_word_eqI) (auto simp: bit_simps)
  then have "crc_zero x = crc_zero (x AND 0xff) XOR crc_zero ?h"
    by (metis crc_zero_xor)
  moreover have "crc_zero ?h = drop_bit 8 x"
  proof -
    have "take_bit 8 ?h = 0" by (simp add: take_bit_push_bit)
    then have "crc_zero ?h = drop_bit 8 ?h" unfolding crc_zero_def by (rule crc_bits_shift)
    also have "\<dots> = drop_bit 8 x"
      by (intro bit_word_eqI) (auto simp: bit_simps dest: bit_imp_le_length)
    finally show ?thesis .
  qed
  ultimately show ?thesis by simp
qed

lemma byte_index: "unat (x AND 0xff :: u32) < 256"
  unfolding low_byte using take_bit_nat_less_exp [of 8 "unat x"] by (simp add: unsigned_take_bit_eq)

lemma step4w_byte_zero: "step4w_byte w = crc_zero w"
  using crc_zero_split [of w] table_entries(1) [OF byte_index [of w]]
  by (simp add: step4w_byte_def xor.commute)

lemma STEP4W_zeros: "STEP4W w l = (crc_zero ^^ 4) (w XOR l)"
proof -
  have "step4w_byte = crc_zero" by (rule ext) (rule step4w_byte_zero)
  then show ?thesis by (simp add: STEP4W_def)
qed

lemma STEP1_zero: "STEP1 l b = crc_zero (l XOR ucast b)"
proof -
  have "(l AND 0xff) XOR ucast b = (l XOR ucast b) AND 0xff"
    unfolding low_byte by (intro bit_word_eqI) (auto simp: bit_simps dest: bit_imp_le_length)
  moreover have "drop_bit 8 (l XOR ucast b) = drop_bit 8 l"
    by (intro bit_word_eqI) (auto simp: bit_simps dest: bit_imp_le_length)
  ultimately show ?thesis
    using crc_zero_split [of "l XOR ucast b"] table_entries(1) [OF byte_index [of "l XOR ucast b"]]
    by (simp add: STEP1_def del: crc_zero_xor)
qed

lemma foldl_STEP1: "foldl STEP1 l bs = crc_register l bs"
proof -
  have "STEP1 = (\<lambda>l b. crc_zero (l XOR ucast b))" by (intro ext) (rule STEP1_zero)
  then show ?thesis by (simp add: crc_register_def)
qed

section \<open>Words and strides\<close>

lemma zeros_add [simp]: "(crc_zero ^^ n) ((crc_zero ^^ m) x) = (crc_zero ^^ (n + m)) x"
  by (simp add: funpow_add)

lemma drop_24_byte: "drop_bit 24 c AND 0xff = drop_bit 24 (c :: u32)"
  unfolding low_byte by (intro bit_word_eqI) (auto simp: bit_simps dest: bit_imp_le_length)

lemma zeros_4:
  "(crc_zero ^^ 4) c = (crc_zero ^^ 4) (c AND 0xff) XOR (crc_zero ^^ 3) (drop_bit 8 c AND 0xff) XOR
     (crc_zero ^^ 2) (drop_bit 16 c AND 0xff) XOR crc_zero (drop_bit 24 c)"
proof -
  have "drop_bit 32 c = 0" by (intro bit_word_eqI) (auto simp: bit_simps dest: bit_imp_le_length)
  then have last: "crc_zero (drop_bit 24 c) = crc_zero (drop_bit 24 c AND 0xff)"
    using crc_zero_split [of "drop_bit 24 c"] by simp
  have s: "crc_zero (drop_bit k c) = crc_zero (drop_bit k c AND 0xff) XOR drop_bit (k + 8) c" for k
    using crc_zero_split [of "drop_bit k c"] by (simp add: add.commute)
  have "(crc_zero ^^ 4) c = crc_zero (crc_zero (crc_zero (crc_zero c)))"
    by (simp add: eval_nat_numeral)
  also have "\<dots> = crc_zero (crc_zero (crc_zero (crc_zero (c AND 0xff)))) XOR
      crc_zero (crc_zero (crc_zero (drop_bit 8 c AND 0xff))) XOR
      crc_zero (crc_zero (drop_bit 16 c AND 0xff)) XOR crc_zero (drop_bit 24 c)"
    by (simp add: crc_zero_split [of c] s [of 8] s [of 16] xor.assoc)
  finally show ?thesis by (simp add: eval_nat_numeral)
qed

lemma STEP4_zeros: "STEP4 w c = w XOR (crc_zero ^^ 16) c"
proof -
  have "(crc_zero ^^ 16) c = (crc_zero ^^ 12) ((crc_zero ^^ 4) c)" by simp
  also have "\<dots> = (crc_zero ^^ 16) (c AND 0xff) XOR (crc_zero ^^ 15) (drop_bit 8 c AND 0xff) XOR
      (crc_zero ^^ 14) (drop_bit 16 c AND 0xff) XOR (crc_zero ^^ 13) (drop_bit 24 c)"
    using zeros_add [of 12 1 "drop_bit 24 c"] by (subst zeros_4) (simp add: zeros_xor)
  finally show ?thesis
    using table_entries(2) [OF byte_index [of "drop_bit 24 c"]]
      table_entries(3) [OF byte_index [of "drop_bit 16 c"]]
      table_entries(4) [OF byte_index [of "drop_bit 8 c"]] table_entries(5) [OF byte_index [of c]]
    by (simp add: STEP4_def drop_24_byte xor.assoc)
qed

lemma bit_le_word: "bit (le_word bs :: 'a::len word) n \<Longrightarrow> n < 8 * length bs"
proof (induction bs arbitrary: n)
  case (Cons b bs)
  then show ?case
    by (cases "n < 8") (auto simp: bit_simps dest: bit_imp_le_length Cons.IH [of "n - 8"])
qed simp

text \<open>Up to four bytes may be fed as one word.\<close>

lemma crc_register_word:
  "length bs \<le> 4 \<Longrightarrow> crc_register l bs = (crc_zero ^^ length bs) (l XOR le_word bs)"
proof (induction bs arbitrary: l)
  case (Cons b bs)
  let ?w = "le_word bs :: u32"
  have high: "n < 24" if "bit ?w n" for n
    using bit_le_word [OF that] Cons.prems by simp
  have "(ucast b OR push_bit 8 ?w :: u32) = ucast b XOR push_bit 8 ?w"
    by (intro bit_word_eqI) (auto simp: bit_simps dest: bit_imp_le_length)
  moreover have "crc_zero (push_bit 8 ?w) = ?w"
  proof -
    have "crc_zero (push_bit 8 ?w) = drop_bit 8 (push_bit 8 ?w)"
      unfolding crc_zero_def by (rule crc_bits_shift) (simp add: take_bit_push_bit)
    also have "\<dots> = ?w"
      by (intro bit_word_eqI) (auto simp: bit_simps dest: high)
    finally show ?thesis .
  qed
  ultimately have "crc_zero (l XOR le_word (b # bs)) = crc_zero (l XOR ucast b) XOR ?w"
    by (simp add: xor.assoc)
  then show ?case
    using Cons.IH [of "crc_zero (l XOR ucast b)"] Cons.prems
    by (simp add: crc_register_def funpow_swap1 del: crc_zero_xor)
qed (simp add: crc_register_def)

lemma crc_register_append: "crc_register l (as @ bs) = crc_register (crc_register l as) bs"
  by (simp add: crc_register_def)

definition word_at :: "slice \<Rightarrow> u32" where
  "word_at p = le_word (take 4 p)"

lemma ReadUint32LE_Ret: "4 \<le> length p \<Longrightarrow> ReadUint32LE p = Ret (word_at p)"
  by (simp add: ReadUint32LE_def DecodeFixed32_def word_at_def kLittleEndian_def)

lemma crc_register_take_4: "4 \<le> length p \<Longrightarrow> crc_register l (take 4 p) = (crc_zero ^^ 4) (l XOR word_at p)"
  using crc_register_word [of "take 4 p" l] by (simp add: word_at_def)

lemma crc_register_4:
  "4 \<le> length p \<Longrightarrow> crc_register l p = crc_register ((crc_zero ^^ 4) (l XOR word_at p)) (drop 4 p)"
  using crc_register_append [of l "take 4 p" "drop 4 p"] by (simp add: crc_register_take_4)

lemma combine_zeros:
  "combine (c0, c1, c2, c3) = (crc_zero ^^ 16) c0 XOR (crc_zero ^^ 12) c1 XOR (crc_zero ^^ 8) c2 XOR
     (crc_zero ^^ 4) c3"
  by (simp add: combine_def STEP4W_zeros zeros_xor xor.commute xor.left_commute)

lemma crc_register_16:
  assumes "16 \<le> length p"
  shows "crc_register l p = crc_register
    (combine (word_at p XOR l, word_at (drop 4 p), word_at (drop 8 p), word_at (drop 12 p))) (drop 16 p)"
  using assms
  by (simp add: crc_register_4 [of p] crc_register_4 [of "drop 4 p"] crc_register_4 [of "drop 8 p"]
      crc_register_4 [of "drop 12 p"] combine_zeros zeros_xor xor.assoc xor.commute xor.left_commute)

lemma step16_loop_register:
  "\<exists>crcs' q. step16_loop crcs p = Ret (crcs', q) \<and>
     crc_register (combine crcs) p = crc_register (combine crcs') q"
proof (induction crcs p rule: step16_loop.induct)
  case (1 c0 c1 c2 c3 p)
  show ?case
  proof (cases "16 \<le> length p")
    case True
    let ?w0 = "word_at p" and ?w1 = "word_at (drop 4 p)" and ?w2 = "word_at (drop 8 p)"
      and ?w3 = "word_at (drop 12 p)"
    let ?c = "(STEP4 ?w0 c0, STEP4 ?w1 c1, STEP4 ?w2 c2, STEP4 ?w3 c3)"
    have "combine ?c = combine (?w0 XOR combine (c0, c1, c2, c3), ?w1, ?w2, ?w3)"
      by (simp add: STEP4_zeros combine_zeros zeros_xor xor.assoc xor.commute xor.left_commute)
    then have "crc_register (combine (c0, c1, c2, c3)) p = crc_register (combine ?c) (drop 16 p)"
      using crc_register_16 [OF True] by simp
    with 1 True show ?thesis by (subst step16_loop.simps) (simp add: ReadUint32LE_Ret)
  qed (subst step16_loop.simps, simp)
qed

lemma step4_loop_register:
  "\<exists>crcs' q. step4_loop crcs p = Ret (crcs', q) \<and>
     crc_register (combine crcs) p = crc_register (combine crcs') q"
proof (induction crcs p rule: step4_loop.induct)
  case (1 c0 c1 c2 c3 p)
  show ?case
  proof (cases "4 \<le> length p")
    case True
    let ?c = "(c1, c2, c3, STEP4 (word_at p) c0)"
    have "combine ?c = (crc_zero ^^ 4) (combine (c0, c1, c2, c3) XOR word_at p)"
      by (simp add: STEP4_zeros combine_zeros zeros_xor xor.assoc xor.commute xor.left_commute)
    then have "crc_register (combine (c0, c1, c2, c3)) p = crc_register (combine ?c) (drop 4 p)"
      using crc_register_4 [OF True] by simp
    with 1 True show ?thesis by (subst step4_loop.simps) (simp add: ReadUint32LE_Ret)
  qed (subst step4_loop.simps, simp)
qed

lemma extend_strides_register:
  assumes "16 \<le> length p"
  shows "\<exists>l' q. extend_strides l p = Ret (l', q) \<and> crc_register l p = crc_register l' q"
proof -
  let ?c = "(word_at p XOR l, word_at (drop 4 p), word_at (drop 8 p), word_at (drop 12 p))"
  obtain c q where c: "step16_loop ?c (drop 16 p) = Ret (c, q)"
      "crc_register (combine ?c) (drop 16 p) = crc_register (combine c) q"
    using step16_loop_register by blast
  obtain d r where "step4_loop c q = Ret (d, r)"
      "crc_register (combine c) q = crc_register (combine d) r"
    using step4_loop_register by blast
  with c assms crc_register_16 [OF assms, of l] show ?thesis
    by (simp add: extend_strides_def ReadUint32LE_Ret)
qed

section \<open>The checksum\<close>

definition accelerated_ok :: "(u32 \<Rightarrow> slice \<Rightarrow> u32) \<Rightarrow> bool" where
  "accelerated_ok acc \<longleftrightarrow> (CanAccelerateCRC32C acc \<longrightarrow> acc = crc32c)"

text \<open>The port without the library returns 0.\<close>

lemma port_stub_ok: "accelerated_ok (\<lambda>_ _. 0)"
  by (simp add: accelerated_ok_def CanAccelerateCRC32C_def)

lemma Extend_crc32c:
  assumes "accelerated_ok acc"
  shows "Extend acc crc p data = Ret (crc32c crc data)"
proof (cases "CanAccelerateCRC32C acc")
  case True
  then show ?thesis using assms by (simp add: Extend_def accelerated_ok_def)
next
  case False
  have ones: "kCRC32Xor = - 1" by (simp add: kCRC32Xor_def)
  have not: "x XOR kCRC32Xor = NOT x" for x
    unfolding ones by simp
  define n where "n = (if RoundUp4 p \<le> p + int (length data) then nat (RoundUp4 p - p) else 0)"
  define l where "l = crc_register (NOT crc) (take n data)"
  obtain l' q where "(if 16 \<le> length (drop n data) then extend_strides l (drop n data)
       else Ret (l, drop n data)) = Ret (l', q)" "crc_register l (drop n data) = crc_register l' q"
    using extend_strides_register [of "drop n data" l] by (cases "16 \<le> length (drop n data)") auto
  moreover have "crc_register (NOT crc) data = crc_register l (drop n data)"
    using crc_register_append [of "NOT crc" "take n data" "drop n data"] by (simp add: l_def)
  ultimately show ?thesis
    using False
    by (cases "16 \<le> length (drop n data)") (simp_all add: Extend_def foldl_STEP1 not n_def [symmetric] l_def [symmetric] crc32c_def Let_def)
qed

lemma xor_cancel: "x XOR z = y XOR z \<longleftrightarrow> x = (y :: u32)"
proof
  assume "x XOR z = y XOR z"
  then have "(x XOR z) XOR z = (y XOR z) XOR z" by simp
  then show "x = y" by (simp add: xor.assoc)
qed simp

text \<open>The register loses nothing: the polynomial has its highest bit set, so a step can be undone.\<close>

lemma inj_crc_zero: "crc_zero x = crc_zero y \<Longrightarrow> x = y"
proof -
  have top: "bit (crc_bit z) 31 = bit z 0" for z
    using bit_imp_le_length [of z 32] by (auto simp: crc_bit_def crc_poly_def bit_simps)
  have step: "x = y" if eq: "crc_bit x = crc_bit y" for x y
  proof (rule bit_word_eqI)
    fix n
    have b: "bit x 0 = bit y 0" using top eq by metis
    then have "drop_bit 1 x = drop_bit 1 y" using eq by (auto simp: crc_bit_def xor_cancel split: if_splits)
    then have "bit (drop_bit 1 x) (n - 1) = bit (drop_bit 1 y) (n - 1)" by simp
    then show "bit x n = bit y n" using b by (cases n) (simp_all add: bit_simps)
  qed
  have "(crc_bit ^^ n) x = (crc_bit ^^ n) y \<Longrightarrow> x = y" for n
    by (induction n) (auto dest: step)
  then show "crc_zero x = crc_zero y \<Longrightarrow> x = y" unfolding crc_zero_def .
qed

lemma inj_crc_register: "crc_register l bs = crc_register l' bs \<Longrightarrow> l = l'"
proof (induction bs arbitrary: l l')
  case (Cons b bs)
  then have "crc_zero (l XOR ucast b) = crc_zero (l' XOR ucast b)" by (simp add: crc_register_def)
  then have "l XOR ucast b = l' XOR ucast b" by (rule inj_crc_zero)
  then show ?case by (simp add: xor_cancel)
qed (simp add: crc_register_def)

lemma crc_register_burst:
  assumes "length a = length b" "length a \<le> 4" and "crc_register l a = crc_register l b"
  shows "a = b"
proof -
  have inj: "(crc_zero ^^ n) x = (crc_zero ^^ n) y \<Longrightarrow> x = y" for n x y
    by (induction n) (auto dest: inj_crc_zero simp del: crc_zero_xor)
  have "l XOR le_word a = l XOR le_word b"
    using assms crc_register_word [of a l] crc_register_word [of b l] by (auto intro: inj)
  then have w: "(le_word a :: u32) = le_word b" by (simp add: xor.commute [of l] xor_cancel)
  have "a = le_bytes (length a) (le_word a :: u32)"
    by (rule le_bytes_le_word [symmetric]) (use assms in simp)
  also have "\<dots> = le_bytes (length b) (le_word b :: u32)" by (simp add: assms(1) w)
  also have "\<dots> = b"
    by (rule le_bytes_le_word) (use assms in simp)
  finally show ?thesis .
qed

lemma crc32c_burst:
  assumes "length a = length b" "length a \<le> 4" and "a \<noteq> b"
  shows "crc32c crc (pre @ a @ post) \<noteq> crc32c crc (pre @ b @ post)"
proof
  assume "crc32c crc (pre @ a @ post) = crc32c crc (pre @ b @ post)"
  then have "crc_register (crc_register (crc_register (NOT crc) pre) a) post =
      crc_register (crc_register (crc_register (NOT crc) pre) b) post"
    by (simp add: crc32c_def crc_register_append)
  then show False
    using inj_crc_register crc_register_burst [OF assms(1,2)] assms(3) by blast
qed

lemma Unmask_Mask [simp]: "Unmask (Mask crc) = crc"
proof -
  let ?r = "drop_bit 15 crc OR push_bit 17 crc"
  have "Unmask (Mask crc) = drop_bit 17 ?r OR push_bit 15 ?r"
    by (simp only: Unmask_def Mask_def Let_def add_diff_cancel_right')
  also have "\<dots> = crc"
  proof (rule bit_word_eqI)
    fix n
    assume "n < LENGTH(32)"
    then show "bit (drop_bit 17 ?r OR push_bit 15 ?r) n = bit crc n"
      by (cases "n < 15") (auto simp: bit_simps dest: bit_imp_le_length)
  qed
  finally show ?thesis .
qed

text \<open>C28: the table-driven checksum is CRC-32C: for every alignment of the data, \<open>Extend\<close> with its
  interleaved strides computes what the bit-serial register does, and extending in two steps is the
  same as extending by the concatenation. The hardware routine is trusted to compute the same, once it
  passes its self-test.\<close>

theorem Extend_is_crc32c:
  assumes "accelerated_ok acc"
  shows "Extend acc crc p data = Ret (crc32c crc data) \<and>
    res_bind (Extend acc crc p data) (\<lambda>c. Extend acc c q rest) = Ret (crc32c crc (data @ rest)) \<and>
    Value acc p data = Ret (crc32c 0 data)"
proof -
  have "NOT (NOT l) = l" for l :: u32 by simp
  then show ?thesis
    by (simp add: Extend_crc32c [OF assms] Value_def crc32c_def crc_register_append)
qed

theorem Extend_is_crc32c_witness:
  "Value (\<lambda>_ _. 0) 2 (map of_char ''123456789'') = Ret (crc32c 0 (map of_char ''123456789'')) \<and>
   Extend (\<lambda>_ _. 0) 5 0 [1] = Ret (crc32c 5 [1])"
  using Extend_is_crc32c [OF port_stub_ok, of 0 2 "map of_char ''123456789''"]
    Extend_is_crc32c [OF port_stub_ok, of 5 0 "[1]"] by simp

text \<open>C29: masking is undone by unmasking, and the checksum detects every change of up to four adjacent
  bytes, wherever it is and however long the data.\<close>

theorem crc_detects_bursts:
  assumes "accelerated_ok acc" and "length a = length b" "length a \<le> 4" "a \<noteq> b"
  shows "Unmask (Mask crc) = crc \<and>
    Value acc p (pre @ a @ post) \<noteq> Value acc p (pre @ b @ post)"
  using crc32c_burst [OF assms(2-4)] by (simp add: Value_def Extend_crc32c [OF assms(1)])

theorem crc_detects_bursts_witness:
  "Value (\<lambda>_ _. 0) 0 [1, 2, 3] \<noteq> Value (\<lambda>_ _. 0) 0 [1, 2, 4]"
  using crc_detects_bursts [OF port_stub_ok, of "[3]" "[4]" 0 0 "[1, 2]" "[]"] by simp

end
