(* ===== verification/LdbTableFormat.thy ===== *)
theory LdbTableFormat
  imports LdbCrc LdbFilename
begin

text \<open>
  The parts of a table file that \<open>format.h\<close> and \<open>format.cc\<close> read and write: block handles, the footer and
  the blocks with their type and checksum. A member function that decodes takes the object and returns
  it updated as far as it got. The file and the decompressor are parameters.
\<close>

section \<open>Block handles and the footer\<close>

definition kMaxEncodedLength :: nat where "kMaxEncodedLength = 10 + 10"

record BlockHandle =
  bh_offset :: u64
  bh_size :: u64

definition new_BlockHandle :: BlockHandle where
  "new_BlockHandle = \<lparr> bh_offset = NOT 0, bh_size = NOT 0 \<rparr>"

definition BlockHandle_EncodeTo :: "BlockHandle \<Rightarrow> slice \<Rightarrow> slice" where
  "BlockHandle_EncodeTo h dst = PutVarint64 (PutVarint64 dst (bh_offset h)) (bh_size h)"

definition BlockHandle_DecodeFrom :: "BlockHandle \<Rightarrow> slice \<Rightarrow> Status \<times> BlockHandle \<times> slice" where
  "BlockHandle_DecodeFrom h inp =
     (case GetVarint64 inp of
        (None, inp) \<Rightarrow> (Corruption ''bad block handle'' [], h, inp)
      | (Some v, inp) \<Rightarrow>
          let h = h \<lparr> bh_offset := v \<rparr>
          in case GetVarint64 inp of
               (None, inp) \<Rightarrow> (Corruption ''bad block handle'' [], h, inp)
             | (Some v, inp) \<Rightarrow> (OK, h \<lparr> bh_size := v \<rparr>, inp))"

definition kEncodedLength :: nat where "kEncodedLength = 2 * kMaxEncodedLength + 8"

record Footer =
  metaindex_handle :: BlockHandle
  index_handle :: BlockHandle

definition kTableMagicNumber :: u64 where "kTableMagicNumber = 0xdb4775248b80fb57"
definition kBlockTrailerSize :: u64 where "kBlockTrailerSize = 5"

text \<open>\<open>std::string::resize\<close>\<close>

definition resize :: "nat \<Rightarrow> slice \<Rightarrow> slice" where
  "resize n s = take n s @ replicate (n - length s) 0"

definition Footer_EncodeTo :: "Footer \<Rightarrow> slice \<Rightarrow> slice" where
  "Footer_EncodeTo f dst =
     (let dst = BlockHandle_EncodeTo (metaindex_handle f) dst;
          dst = BlockHandle_EncodeTo (index_handle f) dst;
          dst = resize (2 * kMaxEncodedLength) dst;
          dst = PutFixed32 dst (ucast (kTableMagicNumber AND 0xffffffff))
      in PutFixed32 dst (ucast (drop_bit 32 kTableMagicNumber)))"

definition Footer_DecodeFrom :: "Footer \<Rightarrow> slice \<Rightarrow> (Status \<times> Footer \<times> slice) res" where
  "Footer_DecodeFrom f inp =
     res_bind (DecodeFixed32 (drop (kEncodedLength - 8) inp)) (\<lambda>magic_lo.
     res_bind (DecodeFixed32 (drop (kEncodedLength - 8 + 4) inp)) (\<lambda>magic_hi.
       let magic = push_bit 32 (ucast magic_hi) OR (ucast magic_lo :: u64)
       in if magic \<noteq> kTableMagicNumber
          then Ret (Corruption ''not an sstable (bad magic number)'' [], f, inp)
          else let (s, h, rest) = BlockHandle_DecodeFrom (metaindex_handle f) inp;
                   f = f \<lparr> metaindex_handle := h \<rparr>
               in if \<not> Status_ok s then Ret (s, f, rest)
                  else let (s, h, rest) = BlockHandle_DecodeFrom (index_handle f) rest;
                           f = f \<lparr> index_handle := h \<rparr>
                       in if \<not> Status_ok s then Ret (s, f, rest)
                          else Ret (s, f, drop kEncodedLength inp)))"

section \<open>Reading a block\<close>

definition kNoCompression :: u8 where "kNoCompression = 0"
definition kSnappyCompression :: u8 where "kSnappyCompression = 1"

record BlockContents =
  block_data :: slice
  cachable :: bool
  heap_allocated :: bool

text \<open>
  \<open>Read offset n\<close> returns a status, the bytes read and whether they are in the buffer of the caller;
  the checksum routine of the port and the functions of the port to Snappy are in a record, too.
\<close>

record Port =
  AcceleratedCRC32C :: "u32 \<Rightarrow> slice \<Rightarrow> u32"
  Snappy_Compress :: "slice \<Rightarrow> slice option"
  Snappy_GetUncompressedLength :: "slice \<Rightarrow> nat option"
  Snappy_Uncompress :: "slice \<Rightarrow> slice option"

type_synonym RandomAccessFile = "u64 \<Rightarrow> u64 \<Rightarrow> Status \<times> slice \<times> bool"

definition no_block :: BlockContents where
  "no_block = \<lparr> block_data = [], cachable = False, heap_allocated = False \<rparr>"

definition block_checksum_ok :: "Port \<Rightarrow> slice \<Rightarrow> nat \<Rightarrow> bool res" where
  "block_checksum_ok port data n =
     res_bind (DecodeFixed32 (drop (n + 1) data)) (\<lambda>word.
       if n + 1 \<le> length data
       then res_bind (Value (AcceleratedCRC32C port) 0 (take (n + 1) data)) (\<lambda>actual.
              Ret (actual = Unmask word))
       else Undef)"

definition uncompress_block :: "Port \<Rightarrow> slice \<Rightarrow> Status \<times> BlockContents" where
  "uncompress_block port data =
     (case Snappy_GetUncompressedLength port data of
        None \<Rightarrow> (Corruption ''corrupted compressed block contents'' [], no_block)
      | Some ulength \<Rightarrow>
          (case Snappy_Uncompress port data of
             None \<Rightarrow> (Corruption ''corrupted compressed block contents'' [], no_block)
           | Some ubuf \<Rightarrow>
               (OK, \<lparr> block_data = take ulength ubuf, cachable = True, heap_allocated = True \<rparr>)))"

definition ReadBlock :: "Port \<Rightarrow> RandomAccessFile \<Rightarrow> bool \<Rightarrow> BlockHandle \<Rightarrow> (Status \<times> BlockContents) res" where
  "ReadBlock port file verify_checksums handle =
     (let n = bh_size handle;
          (s, contents, in_buf) = file (bh_offset handle) (n + kBlockTrailerSize)
      in if \<not> Status_ok s then Ret (s, no_block)
         else if length contents \<noteq> unat (n + kBlockTrailerSize)
         then Ret (Corruption ''truncated block read'' [], no_block)
         else res_bind (if verify_checksums then block_checksum_ok port contents (unat n) else Ret True) (\<lambda>ok.
              if \<not> ok then Ret (Corruption ''block checksum mismatch'' [], no_block)
              else res_bind (Slice_at contents (unat n)) (\<lambda>ty.
                if ty = kNoCompression
                then Ret (OK, \<lparr> block_data = take (unat n) contents, cachable = in_buf, heap_allocated = in_buf \<rparr>)
                else if ty = kSnappyCompression
                then Ret (uncompress_block port (take (unat n) contents))
                else Ret (Corruption ''bad block type'' [], no_block))))"

section \<open>Round trips\<close>

lemma BlockHandle_EncodeTo_append:
  "BlockHandle_EncodeTo h dst = dst @ EncodeVarint64 (bh_offset h) @ EncodeVarint64 (bh_size h)"
  by (simp add: BlockHandle_EncodeTo_def PutVarint64_def)

lemma BlockHandle_Decode_Encode [simp]:
  "BlockHandle_DecodeFrom h' (BlockHandle_EncodeTo h [] @ rest) = (OK, h, rest)"
  by (simp add: BlockHandle_DecodeFrom_def BlockHandle_EncodeTo_append)

text \<open>A handle codec that starts from a fresh handle.\<close>

interpretation block_handle: codec "\<lambda>h. BlockHandle_EncodeTo h []"
  "\<lambda>inp. case BlockHandle_DecodeFrom new_BlockHandle inp of (s, h, rest) \<Rightarrow> (if Status_ok s then Some h else None, rest)"
  "\<lambda>_. True"
  by unfold_locales simp

lemma length_BlockHandle: "length (BlockHandle_EncodeTo h []) \<le> kMaxEncodedLength"
  using length_EncodeVarint64 [of "bh_offset h"] length_EncodeVarint64 [of "bh_size h"]
  by (simp add: BlockHandle_EncodeTo_append kMaxEncodedLength_def)

text \<open>The footer of a table: it takes exactly 48 bytes, and reading it back gives both handles, skips
  the padding and stops behind the magic number.\<close>

theorem Footer_round_trip:
  "length (Footer_EncodeTo f []) = kEncodedLength \<and>
   Footer_DecodeFrom f' (Footer_EncodeTo f [] @ rest) = Ret (OK, f, rest)"
proof -
  let ?m = "BlockHandle_EncodeTo (metaindex_handle f) []" and ?i = "BlockHandle_EncodeTo (index_handle f) []"
  let ?lo = "ucast (kTableMagicNumber AND 0xffffffff) :: u32"
  let ?hi = "ucast (drop_bit 32 kTableMagicNumber) :: u32"
  define pad where "pad = replicate (40 - length ?m - length ?i) (0 :: u8)"
  have app: "BlockHandle_EncodeTo h dst = dst @ BlockHandle_EncodeTo h []" for h dst
    by (simp add: BlockHandle_EncodeTo_append)
  have small: "length ?m + length ?i \<le> 40"
    using length_BlockHandle [of "metaindex_handle f"] length_BlockHandle [of "index_handle f"]
    by (simp add: kMaxEncodedLength_def)
  have enc: "Footer_EncodeTo f [] = ?m @ ?i @ pad @ EncodeFixed32 ?lo @ EncodeFixed32 ?hi"
    using small app [of "index_handle f" ?m]
    by (simp add: Footer_EncodeTo_def Let_def resize_def kMaxEncodedLength_def pad_def PutFixed32_def)
  have len: "length (?m @ ?i @ pad) = 40" using small by (simp add: pad_def)
  have magic: "push_bit 32 (ucast ?hi) OR (ucast ?lo :: u64) = kTableMagicNumber"
    by (simp add: kTableMagicNumber_def)
  have lo: "drop 40 (Footer_EncodeTo f [] @ rest) = EncodeFixed32 ?lo @ EncodeFixed32 ?hi @ rest"
    using len by (simp add: enc)
  then have hi: "drop 44 (Footer_EncodeTo f [] @ rest) = EncodeFixed32 ?hi @ rest"
    and tail: "drop 48 (Footer_EncodeTo f [] @ rest) = rest"
    using len by (simp_all add: enc)
  have d: "DecodeFixed32 (drop 40 (Footer_EncodeTo f [] @ rest)) = Ret ?lo"
    "DecodeFixed32 (drop 44 (Footer_EncodeTo f [] @ rest)) = Ret ?hi"
    unfolding lo hi by simp_all
  have "Footer_DecodeFrom f' (Footer_EncodeTo f [] @ rest) = Ret (OK, f, rest)"
    using d magic tail
    by (simp add: Footer_DecodeFrom_def kEncodedLength_def kMaxEncodedLength_def Let_def enc)
  moreover have "length (Footer_EncodeTo f []) = kEncodedLength"
    using len by (simp add: enc kEncodedLength_def kMaxEncodedLength_def)
  ultimately show ?thesis by simp
qed

section \<open>Blocks\<close>

text \<open>A block as it is stored: the data, the type byte and the masked checksum of both.\<close>

definition stored_block :: "slice \<Rightarrow> u8 \<Rightarrow> slice" where
  "stored_block data ty = data @ [ty] @ EncodeFixed32 (Mask (crc32c 0 (data @ [ty])))"

text \<open>The file holds \<open>bytes\<close> at the place of the handle.\<close>

definition file_holds :: "RandomAccessFile \<Rightarrow> BlockHandle \<Rightarrow> slice \<Rightarrow> bool" where
  "file_holds file handle bytes \<longleftrightarrow>
     (\<exists>in_buf. file (bh_offset handle) (bh_size handle + kBlockTrailerSize) = (OK, bytes, in_buf))"

lemma ReadBlock_stored:
  assumes port: "accelerated_ok (AcceleratedCRC32C port)"
    and size: "unat (bh_size handle) = length data" "length data + 5 < 2 ^ 64"
    and held: "file_holds file handle (data @ [ty] @ EncodeFixed32 c)"
  shows "ReadBlock port file verify handle =
     (if verify \<and> Unmask c \<noteq> crc32c 0 (data @ [ty]) then Ret (Corruption ''block checksum mismatch'' [], no_block)
      else if ty = kNoCompression
      then let b = snd (snd (file (bh_offset handle) (bh_size handle + kBlockTrailerSize)))
           in Ret (OK, \<lparr> block_data = data, cachable = b, heap_allocated = b \<rparr>)
      else if ty = kSnappyCompression then Ret (uncompress_block port data)
      else Ret (Corruption ''bad block type'' [], no_block))"
proof -
  obtain b where b: "file (bh_offset handle) (bh_size handle + kBlockTrailerSize) =
      (OK, data @ [ty] @ EncodeFixed32 c, b)"
    using held by (auto simp: file_holds_def)
  have n: "unat (bh_size handle + kBlockTrailerSize) = length data + 5"
    using size by (simp add: kBlockTrailerSize_def unat_word_ariths)
  define bytes where "bytes = data @ [ty] @ EncodeFixed32 c"
  have "length bytes = length data + 5" "Slice_at bytes (length data) = Ret ty"
    "take (length data) bytes = data"
    by (simp_all add: bytes_def Slice_at_def)
  moreover have "block_checksum_ok port bytes (length data) = Ret (Unmask c = crc32c 0 (data @ [ty]))"
    using Extend_crc32c [OF port]
    by (simp add: block_checksum_ok_def Value_def bytes_def) (rule eq_commute)
  ultimately show ?thesis
    using size(1)
    by (simp add: ReadBlock_def Let_def b [folded bytes_def] n)
qed

text \<open>C30: a block that was stored with its checksum is read back, uncompressed or through Snappy, whether
  or not checksums are verified.\<close>

theorem ReadBlock_round_trip:
  assumes "accelerated_ok (AcceleratedCRC32C port)"
    and "unat (bh_size handle) = length data" "length data + 5 < 2 ^ 64"
    and "file_holds file handle (stored_block data ty)"
  shows "\<exists>b. ReadBlock port file verify handle =
     (if ty = kNoCompression then Ret (OK, \<lparr> block_data = data, cachable = b, heap_allocated = b \<rparr>)
      else if ty = kSnappyCompression then Ret (uncompress_block port data)
      else Ret (Corruption ''bad block type'' [], no_block))"
  using ReadBlock_stored [OF assms(1-3) assms(4) [unfolded stored_block_def], of verify]
  by (auto simp: Let_def)

text \<open>A port without Snappy and without a hardware checksum, and a file that holds one block.\<close>

definition plain_port :: Port where
  "plain_port = \<lparr> AcceleratedCRC32C = \<lambda>_ _. 0, Snappy_Compress = \<lambda>_. None, 
     Snappy_GetUncompressedLength = \<lambda>_. None, Snappy_Uncompress = \<lambda>_. None \<rparr>"

definition one_block_file :: "slice \<Rightarrow> RandomAccessFile" where
  "one_block_file bytes = (\<lambda>offset n. (OK, bytes, True))"

lemma plain_port_ok: "accelerated_ok (AcceleratedCRC32C plain_port)"
  using port_stub_ok by (simp add: plain_port_def)

lemma one_block_holds: "file_holds (one_block_file bytes) h bytes"
  by (auto simp: file_holds_def one_block_file_def)

theorem ReadBlock_round_trip_witness:
  "\<exists>b. ReadBlock plain_port (one_block_file (stored_block [1, 2, 3] 0)) True \<lparr> bh_offset = 0, bh_size = 3 \<rparr> =
     Ret (OK, \<lparr> block_data = [1, 2, 3], cachable = b, heap_allocated = b \<rparr>)"
  using ReadBlock_round_trip [OF plain_port_ok, of "\<lparr> bh_offset = 0, bh_size = 3 \<rparr>" "[1, 2, 3]"
      "one_block_file (stored_block [1, 2, 3] 0)" 0 True] one_block_holds
  by (simp add: kNoCompression_def)

text \<open>C31: with checksums verified, a block whose data or type was damaged in up to four adjacent bytes is
  reported as corrupt and never returned.\<close>

theorem ReadBlock_detects_corruption:
  assumes "accelerated_ok (AcceleratedCRC32C port)"
    and "unat (bh_size handle) = length data" "length data + 5 < 2 ^ 64"
    and "data @ [ty] = pre @ a @ post" and "data' @ [ty'] = pre @ b @ post"
    and "length a = length b" "length a \<le> 4" "a \<noteq> b"
    and "file_holds file handle (data' @ [ty'] @ EncodeFixed32 (Mask (crc32c 0 (data @ [ty]))))"
  shows "ReadBlock port file True handle = Ret (Corruption ''block checksum mismatch'' [], no_block)"
proof -
  have "length (data' @ [ty']) = length (data @ [ty])" using assms(4-6) by simp
  then have "unat (bh_size handle) = length data'" "length data' + 5 < 2 ^ 64" using assms(2,3) by simp_all
  moreover have "crc32c 0 (data' @ [ty']) \<noteq> crc32c 0 (data @ [ty])"
    using crc32c_burst [OF assms(6-8), of 0 pre post] by (simp add: assms(4,5))
  ultimately show ?thesis
    using ReadBlock_stored [OF assms(1) _ _ assms(9), of True] by simp
qed

theorem ReadBlock_detects_corruption_witness:
  "ReadBlock plain_port (one_block_file ([1, 9, 3, 0] @ EncodeFixed32 (Mask (crc32c 0 [1, 2, 3, 0])))) True
     \<lparr> bh_offset = 0, bh_size = 3 \<rparr> = Ret (Corruption ''block checksum mismatch'' [], no_block)"
  using ReadBlock_detects_corruption [OF plain_port_ok, of "\<lparr> bh_offset = 0, bh_size = 3 \<rparr>" "[1, 2, 3]" 0
      "[1]" "[2]" "[3, 0]" "[1, 9, 3]" 0 "[9]"] one_block_holds
  by simp

end
