(* ===== verification/LdbIterator.thy ===== *)
theory LdbIterator
  imports LdbSlice
begin

text \<open>
  The interface of iterators, \<open>iterator.h\<close>, the empty iterator of \<open>iterator.cc\<close> and the wrapper of
  \<open>iterator_wrapper.h\<close>, which caches validity and key. The locale \<open>iterator\<close> is the contract of the interface:
  a cursor in a list of keys and values. What holds for every iterator is proved in it, and every kind of
  iterator is an interpretation. The cleanup functions an owner may register are left out.
\<close>

section \<open>The interface\<close>

record 's Iterator =
  Valid :: "'s \<Rightarrow> bool"
  SeekToFirst :: "'s \<Rightarrow> 's res"
  SeekToLast :: "'s \<Rightarrow> 's res"
  Seek :: "slice \<Rightarrow> 's \<Rightarrow> 's res"
  Next :: "'s \<Rightarrow> 's res"
  Prev :: "'s \<Rightarrow> 's res"
  ikey :: "'s \<Rightarrow> slice res"
  ivalue :: "'s \<Rightarrow> slice res"
  istatus :: "'s \<Rightarrow> Status res"

text \<open>The number of keys below a target, which is where the first key that is not below it stands.\<close>

definition below :: "(slice \<Rightarrow> slice \<Rightarrow> bool) \<Rightarrow> slice \<Rightarrow> (slice \<times> slice) list \<Rightarrow> nat" where
  "below lt target kvs = length (takeWhile (\<lambda>kv. lt (fst kv) target) kvs)"

lemma below_le: "below lt target kvs \<le> length kvs"
  by (simp add: below_def length_takeWhile_le)

text \<open>A client that reads everything from where the iterator stands, forwards or backwards.\<close>

fun collect :: "nat \<Rightarrow> 's Iterator \<Rightarrow> ('s \<Rightarrow> 's res) \<Rightarrow> 's \<Rightarrow> (slice \<times> slice) list res" where
  "collect 0 I move s = NoFuel"
| "collect (Suc fuel) I move s =
     (if Valid I s
      then res_bind (ikey I s) (\<lambda>k. res_bind (ivalue I s) (\<lambda>v. res_bind (move s) (\<lambda>s.
           res_bind (collect fuel I move s) (\<lambda>kvs. Ret ((k, v) # kvs)))))
      else Ret [])"

text \<open>\<open>pos s kvs i\<close>: the iterator \<open>s\<close> runs over \<open>kvs\<close> and stands at the entry \<open>i\<close>, or is not valid when \<open>i\<close> is
  the length of \<open>kvs\<close>. \<open>ok\<close> says for which keys it can seek and \<open>lt\<close> is the order of the keys.\<close>

locale iterator =
  fixes I :: "'s Iterator" and ok :: "slice \<Rightarrow> bool" and lt :: "slice \<Rightarrow> slice \<Rightarrow> bool"
    and pos :: "'s \<Rightarrow> (slice \<times> slice) list \<Rightarrow> nat \<Rightarrow> bool"
  assumes pos_le: "pos s kvs i \<Longrightarrow> i \<le> length kvs"
    and valid: "pos s kvs i \<Longrightarrow> Valid I s \<longleftrightarrow> i < length kvs"
    and entry: "pos s kvs i \<Longrightarrow> i < length kvs \<Longrightarrow>
      ikey I s = Ret (fst (kvs ! i)) \<and> ivalue I s = Ret (snd (kvs ! i))"
    and status: "pos s kvs i \<Longrightarrow> istatus I s = Ret OK"
    and seek_first: "pos s kvs i \<Longrightarrow> \<exists>s'. SeekToFirst I s = Ret s' \<and> pos s' kvs 0"
    and seek_last: "pos s kvs i \<Longrightarrow> \<exists>s'. SeekToLast I s = Ret s' \<and> pos s' kvs (length kvs - 1)"
    and seek: "pos s kvs i \<Longrightarrow> ok target \<Longrightarrow>
      \<exists>s'. Seek I target s = Ret s' \<and> pos s' kvs (below lt target kvs)"
    and next_entry: "pos s kvs i \<Longrightarrow> i < length kvs \<Longrightarrow> \<exists>s'. Next I s = Ret s' \<and> pos s' kvs (Suc i)"
    and prev_entry: "pos s kvs i \<Longrightarrow> i < length kvs \<Longrightarrow>
      \<exists>s'. Prev I s = Ret s' \<and> pos s' kvs (if i = 0 then length kvs else i - 1)"
begin

lemma collect_forward:
  "pos s kvs i \<Longrightarrow> length kvs - i < fuel \<Longrightarrow> collect fuel I (Next I) s = Ret (drop i kvs)"
proof (induction fuel arbitrary: s i)
  case (Suc fuel)
  show ?case
  proof (cases "i < length kvs")
    case True
    obtain s' where s': "Next I s = Ret s'" "pos s' kvs (Suc i)" using next_entry [OF Suc.prems(1) True] by blast
    moreover have "collect fuel I (Next I) s' = Ret (drop (Suc i) kvs)"
      using Suc.IH [OF s'(2)] Suc.prems(2) True by simp
    ultimately show ?thesis
      using True valid [OF Suc.prems(1)] entry [OF Suc.prems(1) True] by (simp add: Cons_nth_drop_Suc [symmetric])
  next
    case False
    then show ?thesis using valid [OF Suc.prems(1)] by simp
  qed
qed simp

lemma collect_backward:
  "pos s kvs i \<Longrightarrow> i < length kvs \<Longrightarrow> Suc i < fuel \<Longrightarrow>
   collect fuel I (Prev I) s = Ret (rev (take (Suc i) kvs))"
proof (induction fuel arbitrary: s i)
  case (Suc fuel)
  obtain s' where s': "Prev I s = Ret s'" "pos s' kvs (if i = 0 then length kvs else i - 1)"
    using prev_entry [OF Suc.prems(1,2)] by blast
  have "collect fuel I (Prev I) s' = Ret (rev (take i kvs))"
  proof (cases i)
    case 0
    then have "\<not> Valid I s'" using valid [OF s'(2)] by simp
    then show ?thesis using 0 Suc.prems(3) by (cases fuel) auto
  next
    case (Suc j)
    then show ?thesis using Suc.IH [of s' j] s' Suc.prems by simp
  qed
  then show ?case
    using s'(1) valid [OF Suc.prems(1)] entry [OF Suc.prems(1,2)] Suc.prems(2) by (simp add: take_Suc_conv_app_nth)
qed simp

text \<open>Both directions read the whole list, and a seek reads the keys from the target on.\<close>

lemma first_collects:
  assumes "pos s kvs i" and "length kvs < fuel"
  shows "res_bind (SeekToFirst I s) (collect fuel I (Next I)) = Ret kvs"
  using seek_first [OF assms(1)] collect_forward [where i = 0] assms(2) by fastforce

lemma last_collects:
  assumes "pos s kvs i" and "length kvs < fuel"
  shows "res_bind (SeekToLast I s) (collect fuel I (Prev I)) = Ret (rev kvs)"
proof -
  obtain s' where s': "SeekToLast I s = Ret s'" "pos s' kvs (length kvs - 1)" using seek_last [OF assms(1)] by blast
  show ?thesis
  proof (cases kvs)
    case Nil
    then have "\<not> Valid I s'" using valid [OF s'(2)] by simp
    then show ?thesis using s'(1) Nil assms(2) by (cases fuel) auto
  next
    case Cons
    then show ?thesis using s' collect_backward [OF s'(2), of fuel] assms(2) by simp
  qed
qed

lemma seek_collects:
  assumes "pos s kvs i" and "ok target" and "length kvs < fuel"
  shows "res_bind (Seek I target s) (collect fuel I (Next I)) = Ret (drop (below lt target kvs) kvs)"
proof -
  obtain s' where "Seek I target s = Ret s'" "pos s' kvs (below lt target kvs)" using seek [OF assms(1,2)] by blast
  then show ?thesis using collect_forward assms(3) by fastforce
qed

end

section \<open>The empty iterator\<close>

text \<open>Its state is its status.\<close>

definition EmptyIterator :: "Status Iterator" where
  "EmptyIterator =
     \<lparr> Valid = \<lambda>_. False, SeekToFirst = Ret, SeekToLast = Ret, Seek = \<lambda>_. Ret, Next = Ret, Prev = Ret,
       ikey = \<lambda>_. Ret [], ivalue = \<lambda>_. Ret [], istatus = Ret \<rparr>"

definition NewEmptyIterator :: Status where
  "NewEmptyIterator = OK"

definition NewErrorIterator :: "Status \<Rightarrow> Status" where
  "NewErrorIterator s = s"

interpretation empty_iterator: iterator EmptyIterator ok lt "\<lambda>s kvs i. s = NewEmptyIterator \<and> kvs = [] \<and> i = 0"
  by unfold_locales (auto simp: EmptyIterator_def NewEmptyIterator_def below_def)

section \<open>One of two classes\<close>

text \<open>A virtual call on an object that belongs to one of two classes.\<close>

definition either_iterator :: "'a Iterator \<Rightarrow> 'b Iterator \<Rightarrow> ('a + 'b) Iterator" where
  "either_iterator A B =
     \<lparr> Valid = case_sum (Valid A) (Valid B),
       SeekToFirst = case_sum (map_res Inl \<circ> SeekToFirst A) (map_res Inr \<circ> SeekToFirst B),
       SeekToLast = case_sum (map_res Inl \<circ> SeekToLast A) (map_res Inr \<circ> SeekToLast B),
       Seek = \<lambda>k. case_sum (map_res Inl \<circ> Seek A k) (map_res Inr \<circ> Seek B k),
       Next = case_sum (map_res Inl \<circ> Next A) (map_res Inr \<circ> Next B),
       Prev = case_sum (map_res Inl \<circ> Prev A) (map_res Inr \<circ> Prev B),
       ikey = case_sum (ikey A) (ikey B),
       ivalue = case_sum (ivalue A) (ivalue B),
       istatus = case_sum (istatus A) (istatus B) \<rparr>"

locale iterator_pair = left: iterator A ok lt posA + right: iterator B ok lt posB
  for A :: "'a Iterator" and B :: "'b Iterator" and ok lt posA posB

sublocale iterator_pair \<subseteq> either: iterator "either_iterator A B" ok lt "case_sum posA posB"
proof unfold_locales
  fix s kvs i
  assume s: "case_sum posA posB s kvs i"
  show "i \<le> length kvs" "Valid (either_iterator A B) s \<longleftrightarrow> i < length kvs"
    "istatus (either_iterator A B) s = Ret OK"
    using s left.pos_le right.pos_le left.valid right.valid left.status right.status
    by (auto simp: either_iterator_def split: sum.splits)
  show "\<exists>s'. SeekToFirst (either_iterator A B) s = Ret s' \<and> case_sum posA posB s' kvs 0"
    using s left.seek_first right.seek_first by (fastforce simp: either_iterator_def split: sum.splits)
  show "\<exists>s'. SeekToLast (either_iterator A B) s = Ret s' \<and> case_sum posA posB s' kvs (length kvs - 1)"
    using s left.seek_last right.seek_last by (fastforce simp: either_iterator_def split: sum.splits)
  show "\<exists>s'. Seek (either_iterator A B) target s = Ret s' \<and> case_sum posA posB s' kvs (below lt target kvs)"
    if "ok target" for target
    using s left.seek [OF _ that] right.seek [OF _ that] by (fastforce simp: either_iterator_def split: sum.splits)
  assume i: "i < length kvs"
  show "ikey (either_iterator A B) s = Ret (fst (kvs ! i)) \<and> ivalue (either_iterator A B) s = Ret (snd (kvs ! i))"
    using s left.entry [OF _ i] right.entry [OF _ i] by (auto simp: either_iterator_def split: sum.splits)
  show "\<exists>s'. Next (either_iterator A B) s = Ret s' \<and> case_sum posA posB s' kvs (Suc i)"
    using s left.next_entry [OF _ i] right.next_entry [OF _ i]
    by (fastforce simp: either_iterator_def split: sum.splits)
  show "\<exists>s'. Prev (either_iterator A B) s = Ret s' \<and>
      case_sum posA posB s' kvs (if i = 0 then length kvs else i - 1)"
    using s left.prev_entry [OF _ i] right.prev_entry [OF _ i]
    by (fastforce simp: either_iterator_def split: sum.splits)
qed

section \<open>The wrapper\<close>

text \<open>\<open>iter_\<close> is \<open>None\<close> for a null pointer.\<close>

record 's IteratorWrapper =
  w_iter :: "'s option"
  w_valid :: bool
  w_key :: slice

definition IteratorWrapper_Update :: "'s Iterator \<Rightarrow> 's IteratorWrapper \<Rightarrow> 's IteratorWrapper res" where
  "IteratorWrapper_Update I this =
     (case w_iter this of
        None \<Rightarrow> Undef
      | Some s \<Rightarrow>
          let this = this \<lparr> w_valid := Valid I s \<rparr>
          in if w_valid this then res_bind (ikey I s) (\<lambda>k. Ret (this \<lparr> w_key := k \<rparr>)) else Ret this)"

definition IteratorWrapper_Set :: "'s Iterator \<Rightarrow> 's option \<Rightarrow> 's IteratorWrapper \<Rightarrow> 's IteratorWrapper res" where
  "IteratorWrapper_Set I iter this =
     (let this = this \<lparr> w_iter := iter \<rparr>
      in if iter = None then Ret (this \<lparr> w_valid := False \<rparr>) else IteratorWrapper_Update I this)"

definition new_IteratorWrapper :: "'s Iterator \<Rightarrow> 's option \<Rightarrow> 's IteratorWrapper res" where
  "new_IteratorWrapper I iter = IteratorWrapper_Set I iter \<lparr> w_iter = None, w_valid = False, w_key = [] \<rparr>"

text \<open>The functions that move the iterator and update the cache.\<close>

definition wrapper_move :: "'s Iterator \<Rightarrow> ('s \<Rightarrow> 's res) \<Rightarrow> 's IteratorWrapper \<Rightarrow> 's IteratorWrapper res" where
  "wrapper_move I move this =
     (case w_iter this of
        None \<Rightarrow> Undef
      | Some s \<Rightarrow> res_bind (move s) (\<lambda>s. IteratorWrapper_Update I (this \<lparr> w_iter := Some s \<rparr>)))"

definition WrappedIterator :: "'s Iterator \<Rightarrow> 's IteratorWrapper Iterator" where
  "WrappedIterator I =
     \<lparr> Valid = w_valid,
       SeekToFirst = wrapper_move I (SeekToFirst I),
       SeekToLast = wrapper_move I (SeekToLast I),
       Seek = \<lambda>k. wrapper_move I (Seek I k),
       Next = wrapper_move I (Next I),
       Prev = wrapper_move I (Prev I),
       ikey = \<lambda>this. Ret (w_key this),
       ivalue = \<lambda>this. (case w_iter this of None \<Rightarrow> Undef | Some s \<Rightarrow> ivalue I s),
       istatus = \<lambda>this. (case w_iter this of None \<Rightarrow> Undef | Some s \<Rightarrow> istatus I s) \<rparr>"

text \<open>The wrapper keeps the contract of the iterator in it.\<close>

context iterator
begin

definition wrapped :: "'s IteratorWrapper \<Rightarrow> (slice \<times> slice) list \<Rightarrow> nat \<Rightarrow> bool" where
  "wrapped this kvs i \<longleftrightarrow> (\<exists>s. w_iter this = Some s \<and> pos s kvs i \<and> w_valid this = (i < length kvs) \<and>
     (i < length kvs \<longrightarrow> w_key this = fst (kvs ! i)))"

lemma Update_wrapped:
  assumes "w_iter this = Some s" "pos s kvs i"
  shows "\<exists>this'. IteratorWrapper_Update I this = Ret this' \<and> wrapped this' kvs i"
  using assms valid [OF assms(2)] entry [OF assms(2)] by (auto simp: IteratorWrapper_Update_def wrapped_def Let_def)

lemma wrapper_move_wrapped:
  assumes "w_iter this = Some s" "\<exists>s'. move s = Ret s' \<and> pos s' kvs i"
  shows "\<exists>this'. wrapper_move I move this = Ret this' \<and> wrapped this' kvs i"
  using assms Update_wrapped [of "this \<lparr> w_iter := Some _ \<rparr>"] by (fastforce simp: wrapper_move_def)

lemma Set_wrapped: "pos s kvs i \<Longrightarrow> \<exists>this'. IteratorWrapper_Set I (Some s) this = Ret this' \<and> wrapped this' kvs i"
  using Update_wrapped [of "this \<lparr> w_iter := Some s \<rparr>"] by (simp add: IteratorWrapper_Set_def)

end

locale wrapped_iterator = base: iterator I ok lt pos
  for I :: "'s Iterator" and ok :: "slice \<Rightarrow> bool" and lt :: "slice \<Rightarrow> slice \<Rightarrow> bool"
    and pos :: "'s \<Rightarrow> (slice \<times> slice) list \<Rightarrow> nat \<Rightarrow> bool"

sublocale wrapped_iterator \<subseteq> wrapper: iterator "WrappedIterator I" ok lt base.wrapped
proof unfold_locales
  fix s kvs i
  assume s: "base.wrapped s kvs i"
  then obtain s0 where s0: "w_iter s = Some s0" "pos s0 kvs i" by (auto simp: base.wrapped_def)
  have move: "\<exists>s'. wrapper_move I move s = Ret s' \<and> base.wrapped s' kvs j"
    if "\<exists>s'. move s0 = Ret s' \<and> pos s' kvs j" for move j
    using base.wrapper_move_wrapped [OF s0(1), of move kvs j] that by blast
  show "i \<le> length kvs" using base.pos_le [OF s0(2)] .
  show "Valid (WrappedIterator I) s \<longleftrightarrow> i < length kvs" using s by (auto simp: WrappedIterator_def base.wrapped_def)
  show "istatus (WrappedIterator I) s = Ret OK" using s0 base.status by (simp add: WrappedIterator_def)
  show "\<exists>s'. SeekToFirst (WrappedIterator I) s = Ret s' \<and> base.wrapped s' kvs 0"
    "\<exists>s'. SeekToLast (WrappedIterator I) s = Ret s' \<and> base.wrapped s' kvs (length kvs - 1)"
    using move [where move = "SeekToFirst I", OF base.seek_first [OF s0(2)]]
      move [where move = "SeekToLast I", OF base.seek_last [OF s0(2)]]
    by (simp_all add: WrappedIterator_def)
  show "\<exists>s'. Seek (WrappedIterator I) target s = Ret s' \<and> base.wrapped s' kvs (below lt target kvs)"
    if "ok target" for target
    using move [where move = "Seek I target", OF base.seek [OF s0(2) that]] by (simp add: WrappedIterator_def)
  assume i: "i < length kvs"
  show "ikey (WrappedIterator I) s = Ret (fst (kvs ! i)) \<and> ivalue (WrappedIterator I) s = Ret (snd (kvs ! i))"
    using s i s0 base.entry [OF s0(2) i] by (auto simp: WrappedIterator_def base.wrapped_def)
  show "\<exists>s'. Next (WrappedIterator I) s = Ret s' \<and> base.wrapped s' kvs (Suc i)"
    "\<exists>s'. Prev (WrappedIterator I) s = Ret s' \<and> base.wrapped s' kvs (if i = 0 then length kvs else i - 1)"
    using move [where move = "Next I", OF base.next_entry [OF s0(2) i]]
      move [where move = "Prev I", OF base.prev_entry [OF s0(2) i]]
    by (simp_all add: WrappedIterator_def)
qed

end
