(* ===== verification/LdbBlock.thy ===== *)
theory LdbBlock
  imports LdbTableFormat LdbIterator
begin

text \<open>
  The blocks of a table: \<open>block_builder.h\<close> and \<open>block_builder.cc\<close> write them, \<open>block.h\<close> and \<open>block.cc\<close>
  read them. A pointer into the contents is an offset. The loops of the iterator that parse entry after
  entry take fuel, one unit for each entry.
\<close>

section \<open>Building a block\<close>

text \<open>Of the options only \<open>block_restart_interval\<close> is used.\<close>

record BlockBuilder =
  bb_interval :: int
  bb_buffer :: slice
  bb_restarts :: "u32 list"
  bb_counter :: int
  bb_finished :: bool
  bb_last_key :: slice

definition new_BlockBuilder :: "int \<Rightarrow> BlockBuilder" where
  "new_BlockBuilder interval =
     \<lparr> bb_interval = interval, bb_buffer = [], bb_restarts = [0], bb_counter = 0, bb_finished = False,
       bb_last_key = [] \<rparr>"

definition BlockBuilder_Reset :: "BlockBuilder \<Rightarrow> BlockBuilder" where
  "BlockBuilder_Reset this = this
     \<lparr> bb_buffer := [], bb_restarts := [0], bb_counter := 0, bb_finished := False, bb_last_key := [] \<rparr>"

definition BlockBuilder_CurrentSizeEstimate :: "BlockBuilder \<Rightarrow> nat" where
  "BlockBuilder_CurrentSizeEstimate this = length (bb_buffer this) + length (bb_restarts this) * 4 + 4"

definition BlockBuilder_empty :: "BlockBuilder \<Rightarrow> bool" where
  "BlockBuilder_empty this \<longleftrightarrow> bb_buffer this = []"

definition BlockBuilder_Finish :: "BlockBuilder \<Rightarrow> slice \<times> BlockBuilder" where
  "BlockBuilder_Finish this =
     (let this = this \<lparr> bb_buffer := foldl PutFixed32 (bb_buffer this) (bb_restarts this) \<rparr>;
          this = this \<lparr> bb_buffer := PutFixed32 (bb_buffer this) (of_nat (length (bb_restarts this))) \<rparr>;
          this = this \<lparr> bb_finished := True \<rparr>
      in (bb_buffer this, this))"

text \<open>The loop that counts the bytes two keys share.\<close>

fun shared_prefix :: "slice \<Rightarrow> slice \<Rightarrow> nat" where
  "shared_prefix (a # as) (b # bs) = (if a = b then Suc (shared_prefix as bs) else 0)"
| "shared_prefix _ _ = 0"

definition BlockBuilder_Add :: "slice \<Rightarrow> slice \<Rightarrow> BlockBuilder \<Rightarrow> BlockBuilder" where
  "BlockBuilder_Add key val this =
     (let (shared, this) =
            (if bb_counter this < bb_interval this then (shared_prefix (bb_last_key this) key, this)
             else (0, this \<lparr> bb_restarts := bb_restarts this @ [of_nat (length (bb_buffer this))], bb_counter := 0 \<rparr>));
          non_shared = length key - shared;
          buffer = PutVarint32 (bb_buffer this) (of_nat shared);
          buffer = PutVarint32 buffer (of_nat non_shared);
          buffer = PutVarint32 buffer (of_nat (length val));
          buffer = buffer @ drop shared key;
          buffer = buffer @ val
      in this \<lparr> bb_buffer := buffer, bb_last_key := resize shared (bb_last_key this) @ drop shared key,
                bb_counter := bb_counter this + 1 \<rparr>)"

section \<open>Blocks\<close>

text \<open>\<open>block_bytes\<close> is what \<open>data_\<close> points to; \<open>block_size\<close> is 0 for contents that are malformed, and
  then \<open>restart_offset_\<close>, which the code leaves without a value, is not used.\<close>

record Block =
  block_bytes :: slice
  block_size :: nat
  restart_offset :: u32
  owned :: bool

definition NumRestarts :: "Block \<Rightarrow> u32 res" where
  "NumRestarts this =
     (if block_size this < 4 then Undef else DecodeFixed32 (drop (block_size this - 4) (block_bytes this)))"

definition new_Block :: "BlockContents \<Rightarrow> Block res" where
  "new_Block contents =
     (let this = \<lparr> block_bytes = block_data contents, block_size = length (block_data contents), restart_offset = 0,
                   owned = heap_allocated contents \<rparr>
      in if block_size this < 4 then Ret (this \<lparr> block_size := 0 \<rparr>)
         else let max_restarts_allowed = (block_size this - 4) div 4
              in res_bind (NumRestarts this) (\<lambda>n.
                if max_restarts_allowed < unat n then Ret (this \<lparr> block_size := 0 \<rparr>)
                else Ret (this \<lparr> restart_offset :=
                       ucast (of_nat (block_size this) - ucast (1 + n) * 4 :: u64) \<rparr>)))"

text \<open>The three numbers of the entry at \<open>p\<close>, and the offset behind them.\<close>

definition DecodeEntry :: "slice \<Rightarrow> nat \<Rightarrow> nat \<Rightarrow> (u32 \<times> u32 \<times> u32 \<times> nat) option res" where
  "DecodeEntry data p limit =
     (let view = take (limit - p) (drop p data);
          accept = (\<lambda>shared non_shared value_length rest.
            if (of_nat (length rest) :: u32) < non_shared + value_length then Ret None
            else Ret (Some (shared, non_shared, value_length, limit - length rest)))
      in if int limit - int p < 3 then Ret None
         else if length view < limit - p then Undef
         else let shared = ucast (view ! 0); non_shared = ucast (view ! 1); value_length = ucast (view ! 2)
              in if shared OR non_shared OR value_length < (128 :: u32)
                 then accept shared non_shared value_length (drop 3 view)
                 else (case GetVarint32Ptr view of
                         None \<Rightarrow> Ret None
                       | Some (shared, view) \<Rightarrow>
                           (case GetVarint32Ptr view of
                              None \<Rightarrow> Ret None
                            | Some (non_shared, view) \<Rightarrow>
                                (case GetVarint32Ptr view of
                                   None \<Rightarrow> Ret None
                                 | Some (value_length, view) \<Rightarrow> accept shared non_shared value_length view))))"

section \<open>The iterator of a block\<close>

text \<open>\<open>it_value\<close> is the offset and the size of \<open>value_\<close>, or \<open>None\<close> when it is the empty slice that is not in
  the block.\<close>

record Iter =
  it_comparator :: Comparator
  it_data :: slice
  it_restarts :: u32
  it_num_restarts :: u32
  it_current :: u32
  it_restart_index :: u32
  it_key :: slice
  it_value :: "(nat \<times> nat) option"
  it_status :: Status

definition new_Iter :: "Comparator \<Rightarrow> slice \<Rightarrow> u32 \<Rightarrow> u32 \<Rightarrow> Iter" where
  "new_Iter c data restarts num_restarts =
     \<lparr> it_comparator = c, it_data = data, it_restarts = restarts, it_num_restarts = num_restarts,
       it_current = restarts, it_restart_index = num_restarts, it_key = [], it_value = None, it_status = OK \<rparr>"

definition Iter_Compare :: "Iter \<Rightarrow> slice \<Rightarrow> slice \<Rightarrow> int res" where
  "Iter_Compare this a b = Compare (it_comparator this) a b"

definition NextEntryOffset :: "Iter \<Rightarrow> u32 res" where
  "NextEntryOffset this =
     (case it_value this of None \<Rightarrow> Undef | Some (off, len) \<Rightarrow> Ret (of_nat (off + len)))"

definition GetRestartPoint :: "Iter \<Rightarrow> u32 \<Rightarrow> u32 res" where
  "GetRestartPoint this index = DecodeFixed32 (drop (unat (it_restarts this) + unat index * 4) (it_data this))"

definition SeekToRestartPoint :: "u32 \<Rightarrow> Iter \<Rightarrow> Iter res" where
  "SeekToRestartPoint index this =
     (let this = this \<lparr> it_key := [], it_restart_index := index \<rparr>
      in res_bind (GetRestartPoint this index) (\<lambda>offset. Ret (this \<lparr> it_value := Some (unat offset, 0) \<rparr>)))"

definition Iter_Valid :: "Iter \<Rightarrow> bool" where
  "Iter_Valid this \<longleftrightarrow> it_current this < it_restarts this"

definition Iter_status :: "Iter \<Rightarrow> Status" where
  "Iter_status this = it_status this"

definition Iter_key :: "Iter \<Rightarrow> slice" where
  "Iter_key this = it_key this"

text \<open>Reading the bytes of \<open>value()\<close>.\<close>

definition Iter_value :: "Iter \<Rightarrow> slice res" where
  "Iter_value this =
     (case it_value this of
        None \<Rightarrow> Ret []
      | Some (off, len) \<Rightarrow>
          (if off + len \<le> length (it_data this) then Ret (take len (drop off (it_data this))) else Undef))"

definition Iter_end :: "Iter \<Rightarrow> Iter" where
  "Iter_end this = this \<lparr> it_current := it_restarts this, it_restart_index := it_num_restarts this \<rparr>"

definition CorruptionError :: "Iter \<Rightarrow> Iter" where
  "CorruptionError this = (Iter_end this)
     \<lparr> it_status := Corruption ''bad entry in block'' [], it_key := [], it_value := None \<rparr>"

lemma next_index:
  assumes "(i :: u32) + 1 < n"
  shows "unat (i + 1 + 1) = Suc (unat (i + 1))" and "unat (i + 1) < unat n"
proof -
  show "unat (i + 1) < unat n" using assms by (simp add: word_less_nat_alt)
  have "i + 1 + 1 \<noteq> 0" using assms by (metis add_diff_cancel_right' diff_0 not_less word_order.extremum)
  then show "unat (i + 1 + 1) = Suc (unat (i + 1))" using unatSuc [of "i + 1"] by (simp add: add.commute)
qed

text \<open>The loop of \<open>ParseNextKey\<close> that moves to the restart block of the entry.\<close>

function advance_restart_index :: "Iter \<Rightarrow> Iter res" where
  "advance_restart_index this =
     (if it_restart_index this + 1 < it_num_restarts this
      then res_bind (GetRestartPoint this (it_restart_index this + 1)) (\<lambda>point.
             if point < it_current this
             then advance_restart_index (this \<lparr> it_restart_index := it_restart_index this + 1 \<rparr>)
             else Ret this)
      else Ret this)"
  by pat_completeness auto

termination advance_restart_index
  by (relation "measure (\<lambda>this. unat (it_num_restarts this) - unat (it_restart_index this + 1))")
    (use next_index in \<open>simp_all add: diff_less_mono2\<close>)

declare advance_restart_index.simps [simp del]

definition ParseNextKey :: "Iter \<Rightarrow> (bool \<times> Iter) res" where
  "ParseNextKey this =
     res_bind (NextEntryOffset this) (\<lambda>offset.
       let this = this \<lparr> it_current := offset \<rparr>;
           p = unat (it_current this);
           limit = unat (it_restarts this)
       in if limit \<le> p then Ret (False, Iter_end this)
          else res_bind (DecodeEntry (it_data this) p limit) (\<lambda>entry.
            case entry of
              None \<Rightarrow> Ret (False, CorruptionError this)
            | Some (shared, non_shared, value_length, p) \<Rightarrow>
                if length (it_key this) < unat shared then Ret (False, CorruptionError this)
                else if length (it_data this) < p + unat non_shared then Undef
                else let key = take (unat shared) (it_key this) @ take (unat non_shared) (drop p (it_data this));
                         this = this \<lparr> it_key := key, it_value := Some (p + unat non_shared, unat value_length) \<rparr>
                     in res_bind (advance_restart_index this) (\<lambda>this. Ret (True, this))))"

definition Iter_Next :: "Iter \<Rightarrow> Iter res" where
  "Iter_Next this = res_bind (ParseNextKey this) (\<lambda>(_, this). Ret this)"

text \<open>The loop that \<open>Prev\<close> and \<open>SeekToLast\<close> have in common: parse until an entry ends at \<open>bound\<close> or behind it.\<close>

fun parse_up_to :: "nat \<Rightarrow> u32 \<Rightarrow> Iter \<Rightarrow> Iter res" where
  "parse_up_to 0 bound this = NoFuel"
| "parse_up_to (Suc fuel) bound this =
     res_bind (ParseNextKey this) (\<lambda>(ok, this).
       if \<not> ok then Ret this
       else res_bind (NextEntryOffset this) (\<lambda>offset.
         if offset < bound then parse_up_to fuel bound this else Ret this))"

text \<open>The first loop of \<open>Prev\<close>: back to a restart point before \<open>original\<close>, or \<open>None\<close> if there is none.\<close>

function restart_before :: "u32 \<Rightarrow> Iter \<Rightarrow> Iter option res" where
  "restart_before original this =
     res_bind (GetRestartPoint this (it_restart_index this)) (\<lambda>point.
       if original \<le> point
       then if it_restart_index this = 0 then Ret None
            else restart_before original (this \<lparr> it_restart_index := it_restart_index this - 1 \<rparr>)
       else Ret (Some this))"
  by pat_completeness auto

termination restart_before
  by (relation "measure (\<lambda>(_, this). unat (it_restart_index this))") (simp_all add: unat_minus_one unat_gt_0)

declare restart_before.simps [simp del]

definition Iter_Prev :: "nat \<Rightarrow> Iter \<Rightarrow> Iter res" where
  "Iter_Prev fuel this =
     (let original = it_current this
      in res_bind (restart_before original this) (\<lambda>found.
        case found of
          None \<Rightarrow> Ret (Iter_end this)
        | Some this \<Rightarrow>
            res_bind (SeekToRestartPoint (it_restart_index this) this) (\<lambda>this.
              parse_up_to fuel original this)))"

text \<open>The binary search of \<open>Seek\<close>: the restart block to search, or \<open>None\<close> for a corrupted block.\<close>

fun search_restarts :: "nat \<Rightarrow> slice \<Rightarrow> u32 \<Rightarrow> u32 \<Rightarrow> Iter \<Rightarrow> u32 option res" where
  "search_restarts fuel target left right this =
     (if left < right
      then (case fuel of
              0 \<Rightarrow> NoFuel
            | Suc fuel \<Rightarrow>
                let mid = (left + right + 1) div 2
                in res_bind (GetRestartPoint this mid) (\<lambda>region_offset.
                   res_bind (DecodeEntry (it_data this) (unat region_offset) (unat (it_restarts this))) (\<lambda>entry.
                     case entry of
                       None \<Rightarrow> Ret None
                     | Some (shared, non_shared, value_length, key_ptr) \<Rightarrow>
                         if shared \<noteq> 0 then Ret None
                         else if length (it_data this) < key_ptr + unat non_shared then Undef
                         else res_bind (Iter_Compare this (take (unat non_shared) (drop key_ptr (it_data this))) target) (\<lambda>r.
                           if r < 0 then search_restarts fuel target mid right this
                           else search_restarts fuel target left (mid - 1) this))))
      else Ret (Some left))"

declare search_restarts.simps [simp del]

text \<open>The linear search.\<close>

fun parse_to_target :: "nat \<Rightarrow> slice \<Rightarrow> Iter \<Rightarrow> Iter res" where
  "parse_to_target 0 target this = NoFuel"
| "parse_to_target (Suc fuel) target this =
     res_bind (ParseNextKey this) (\<lambda>(ok, this).
       if \<not> ok then Ret this
       else res_bind (Iter_Compare this (it_key this) target) (\<lambda>r.
         if 0 \<le> r then Ret this else parse_to_target fuel target this))"

definition Iter_Seek :: "nat \<Rightarrow> slice \<Rightarrow> Iter \<Rightarrow> Iter res" where
  "Iter_Seek fuel target this =
     res_bind (search_restarts fuel target 0 (it_num_restarts this - 1) this) (\<lambda>found.
       case found of
         None \<Rightarrow> Ret (CorruptionError this)
       | Some left \<Rightarrow> res_bind (SeekToRestartPoint left this) (\<lambda>this. parse_to_target fuel target this))"

definition Iter_SeekToFirst :: "Iter \<Rightarrow> Iter res" where
  "Iter_SeekToFirst this = res_bind (SeekToRestartPoint 0 this) Iter_Next"

definition Iter_SeekToLast :: "nat \<Rightarrow> Iter \<Rightarrow> Iter res" where
  "Iter_SeekToLast fuel this =
     res_bind (SeekToRestartPoint (it_num_restarts this - 1) this) (\<lambda>this. parse_up_to fuel (it_restarts this) this)"

text \<open>The virtual functions. The fuel is more than the number of the entries the block can have.\<close>

definition parse_fuel :: "Iter \<Rightarrow> nat" where
  "parse_fuel this = Suc (length (it_data this))"

definition BlockIter :: "Iter Iterator" where
  "BlockIter =
     \<lparr> Valid = Iter_Valid,
       SeekToFirst = Iter_SeekToFirst,
       SeekToLast = \<lambda>this. Iter_SeekToLast (parse_fuel this) this,
       Seek = \<lambda>target this. Iter_Seek (parse_fuel this) target this,
       Next = Iter_Next,
       Prev = \<lambda>this. Iter_Prev (parse_fuel this) this,
       ikey = \<lambda>this. Ret (Iter_key this),
       ivalue = Iter_value,
       istatus = \<lambda>this. Ret (Iter_status this) \<rparr>"

text \<open>\<open>NewIterator\<close>: an iterator without entries, for a malformed or an empty block, or one over the entries.\<close>

type_synonym BlockIterator = "Status + Iter"

definition Block_NewIterator :: "Comparator \<Rightarrow> Block \<Rightarrow> BlockIterator res" where
  "Block_NewIterator c this =
     (if block_size this < 4 then Ret (Inl (NewErrorIterator (Corruption ''bad block contents'' [])))
      else res_bind (NumRestarts this) (\<lambda>num_restarts.
        if num_restarts = 0 then Ret (Inl NewEmptyIterator)
        else Ret (Inr (new_Iter c (block_bytes this) (restart_offset this) num_restarts))))"

definition BlockIterators :: "BlockIterator Iterator" where
  "BlockIterators = either_iterator EmptyIterator BlockIter"

end
