(* ===== verification/LdbBlockSpec.thy ===== *)
theory LdbBlockSpec
  imports LdbBlock LdbDbFormat
begin

text \<open>
  Blocks as lists of keys and values. \<open>block_of\<close> is the text of a block for a list of entries and the indices
  of the restart points; the builder makes such a text, and the iterator runs over its entries. The locale
  \<open>key_comparator\<close> gets the iterator of blocks as a sublocale of \<open>iterator\<close>, for every order of keys.
\<close>

section \<open>The text of a block\<close>

text \<open>An entry: the number of bytes it shares with the key before it, the key and the value.\<close>

type_synonym entry = "nat \<times> slice \<times> slice"

abbreviation shared_of :: "entry \<Rightarrow> nat" where "shared_of e \<equiv> fst e"
abbreviation key_of :: "entry \<Rightarrow> slice" where "key_of e \<equiv> fst (snd e)"
abbreviation value_of :: "entry \<Rightarrow> slice" where "value_of e \<equiv> snd (snd e)"

definition entry_head :: "entry \<Rightarrow> slice" where
  "entry_head e = EncodeVarint32 (of_nat (shared_of e)) @ EncodeVarint32 (of_nat (length (key_of e) - shared_of e)) @
     EncodeVarint32 (of_nat (length (value_of e)))"

definition entry_bytes :: "entry \<Rightarrow> slice" where
  "entry_bytes e = entry_head e @ drop (shared_of e) (key_of e) @ value_of e"

definition entries_bytes :: "entry list \<Rightarrow> slice" where
  "entries_bytes es = concat (map entry_bytes es)"

definition entry_off :: "entry list \<Rightarrow> nat \<Rightarrow> nat" where
  "entry_off es i = length (entries_bytes (take i es))"

definition restarts_bytes :: "entry list \<Rightarrow> nat list \<Rightarrow> slice" where
  "restarts_bytes es rs = concat (map (\<lambda>r. EncodeFixed32 (of_nat (entry_off es r))) rs)"

definition block_of :: "entry list \<Rightarrow> nat list \<Rightarrow> slice" where
  "block_of es rs = entries_bytes es @ restarts_bytes es rs @ EncodeFixed32 (of_nat (length rs))"

text \<open>The shared bytes are those of the key before, and the restart points are entries that share nothing.\<close>

definition entries_ok :: "entry list \<Rightarrow> bool" where
  "entries_ok es \<longleftrightarrow> (\<forall>i < length es. shared_of (es ! i) \<le> length (key_of (es ! i)) \<and>
     (shared_of (es ! i) \<noteq> 0 \<longrightarrow> 0 < i \<and> shared_of (es ! i) \<le> length (key_of (es ! (i - 1))) \<and>
        take (shared_of (es ! i)) (key_of (es ! (i - 1))) = take (shared_of (es ! i)) (key_of (es ! i))))"

definition restarts_ok :: "entry list \<Rightarrow> nat list \<Rightarrow> bool" where
  "restarts_ok es rs \<longleftrightarrow> rs \<noteq> [] \<and> rs ! 0 = 0 \<and> sorted_wrt (<) rs \<and>
     (\<forall>r \<in> set rs. r \<noteq> 0 \<longrightarrow> r < length es) \<and> (\<forall>r \<in> set rs. r < length es \<longrightarrow> shared_of (es ! r) = 0)"

definition block_ok :: "entry list \<Rightarrow> nat list \<Rightarrow> bool" where
  "block_ok es rs \<longleftrightarrow> entries_ok es \<and> restarts_ok es rs \<and> length (block_of es rs) < 2 ^ 32"

section \<open>The builder\<close>

text \<open>A builder that holds the entries.\<close>

definition builder_holds :: "entry list \<Rightarrow> nat list \<Rightarrow> BlockBuilder \<Rightarrow> bool" where
  "builder_holds es rs this \<longleftrightarrow> entries_ok es \<and> restarts_ok es rs \<and> bb_buffer this = entries_bytes es \<and>
     bb_restarts this = map (\<lambda>r. of_nat (entry_off es r)) rs \<and>
     bb_last_key this = (if es = [] then [] else key_of (last es)) \<and>
     bb_counter this \<le> int (length es) \<and> 1 \<le> bb_interval this"

lemma new_builder_holds: "1 \<le> interval \<Longrightarrow> builder_holds [] [0] (new_BlockBuilder interval)"
  by (simp add: builder_holds_def new_BlockBuilder_def entries_ok_def restarts_ok_def entries_bytes_def entry_off_def)

lemma Reset_holds: "1 \<le> bb_interval this \<Longrightarrow> builder_holds [] [0] (BlockBuilder_Reset this)"
  by (simp add: builder_holds_def BlockBuilder_Reset_def entries_ok_def restarts_ok_def entries_bytes_def entry_off_def)

lemma shared_prefix_le: "shared_prefix a b \<le> length a \<and> shared_prefix a b \<le> length b"
  by (induction a b rule: shared_prefix.induct) auto

lemma take_shared_prefix: "take (shared_prefix a b) a = take (shared_prefix a b) b"
  by (induction a b rule: shared_prefix.induct) auto

lemma entry_off_append: "i \<le> length es \<Longrightarrow> entry_off (es @ es') i = entry_off es i"
  by (simp add: entry_off_def)

lemma restarts_le: "restarts_ok es rs \<Longrightarrow> r \<in> set rs \<Longrightarrow> r \<le> length es"
  by (cases "r = 0") (auto simp: restarts_ok_def intro: less_imp_le)

lemma entries_ok_snoc:
  assumes "entries_ok es" "s \<le> length k"
    and "s \<noteq> 0 \<Longrightarrow> es \<noteq> [] \<and> s \<le> length (key_of (last es)) \<and> take s (key_of (last es)) = take s k"
  shows "entries_ok (es @ [(s, k, v)])"
  unfolding entries_ok_def
proof (intro allI impI)
  fix i assume i: "i < length (es @ [(s, k, v)])"
  show "shared_of ((es @ [(s, k, v)]) ! i) \<le> length (key_of ((es @ [(s, k, v)]) ! i)) \<and>
     (shared_of ((es @ [(s, k, v)]) ! i) \<noteq> 0 \<longrightarrow> 0 < i \<and>
        shared_of ((es @ [(s, k, v)]) ! i) \<le> length (key_of ((es @ [(s, k, v)]) ! (i - 1))) \<and>
        take (shared_of ((es @ [(s, k, v)]) ! i)) (key_of ((es @ [(s, k, v)]) ! (i - 1))) =
        take (shared_of ((es @ [(s, k, v)]) ! i)) (key_of ((es @ [(s, k, v)]) ! i)))"
  proof (cases "i < length es")
    case True
    then show ?thesis using assms(1) by (auto simp: entries_ok_def nth_append)
  next
    case False
    then have "i = length es" using i by simp
    then show ?thesis using assms(2,3) by (auto simp: nth_append last_conv_nth)
  qed
qed

text \<open>Adding an entry.\<close>

lemma Add_holds:
  assumes "builder_holds es rs this"
  shows "\<exists>s rs'. builder_holds (es @ [(s, key, val)]) rs' (BlockBuilder_Add key val this)"
proof (cases "bb_counter this < bb_interval this")
  case True
  let ?s = "shared_prefix (bb_last_key this) key"
  have h: "entries_ok es" "restarts_ok es rs" "bb_buffer this = entries_bytes es"
    "bb_restarts this = map (\<lambda>r. of_nat (entry_off es r)) rs"
    "bb_last_key this = (if es = [] then [] else key_of (last es))" "bb_counter this \<le> int (length es)"
    "1 \<le> bb_interval this"
    using assms by (auto simp: builder_holds_def)
  have s: "?s \<le> length (bb_last_key this)" "?s \<le> length key" "take ?s (bb_last_key this) = take ?s key"
    using shared_prefix_le take_shared_prefix by auto
  have "?s \<noteq> 0 \<Longrightarrow> es \<noteq> []" using h(5) by auto
  then have "entries_ok (es @ [(?s, key, val)])" using entries_ok_snoc [OF h(1) s(2)] s h(5) by auto
  moreover have "restarts_ok (es @ [(?s, key, val)]) rs"
    using h(2,5) by (cases "es = []") (auto simp: restarts_ok_def nth_append)
  moreover have "map (\<lambda>r. of_nat (entry_off (es @ [(?s, key, val)]) r) :: u32) rs = bb_restarts this"
    using h(4) restarts_le [OF h(2)] by (auto simp: entry_off_append)
  moreover have "resize ?s (bb_last_key this) @ drop ?s key = key" using s by (simp add: resize_def)
  ultimately have "builder_holds (es @ [(?s, key, val)]) rs (BlockBuilder_Add key val this)"
    using True h by (simp add: builder_holds_def BlockBuilder_Add_def PutVarint32_def entries_bytes_def
        entry_bytes_def entry_head_def Let_def)
  then show ?thesis by blast
next
  case False
  have h: "entries_ok es" "restarts_ok es rs" "bb_buffer this = entries_bytes es"
    "bb_restarts this = map (\<lambda>r. of_nat (entry_off es r)) rs"
    "bb_last_key this = (if es = [] then [] else key_of (last es))" "bb_counter this \<le> int (length es)"
    "1 \<le> bb_interval this"
    using assms by (auto simp: builder_holds_def)
  have ne: "es \<noteq> []" using False h(6,7) by auto
  let ?rs = "rs @ [length es]" and ?es = "es @ [(0, key, val)]"
  have "entries_ok ?es" using entries_ok_snoc [OF h(1), of 0 key val] by simp
  moreover have "restarts_ok ?es ?rs"
    using h(2) ne by (auto simp: restarts_ok_def nth_append sorted_wrt_append neq_Nil_conv)
  moreover have "map (\<lambda>r. of_nat (entry_off ?es r)) ?rs = bb_restarts this @ [of_nat (length (bb_buffer this)) :: u32]"
    using h(3,4) restarts_le [OF h(2)] by (auto simp: entry_off_append) (simp add: entry_off_def)
  ultimately have "builder_holds ?es ?rs (BlockBuilder_Add key val this)"
    using False h by (simp add: builder_holds_def BlockBuilder_Add_def PutVarint32_def entries_bytes_def
        entry_bytes_def entry_head_def Let_def resize_def)
  then show ?thesis by blast
qed

text \<open>Finishing gives the text of the block.\<close>

lemma Finish_block_of:
  assumes "builder_holds es rs this"
  shows "fst (BlockBuilder_Finish this) = block_of es rs"
proof -
  have "foldl PutFixed32 buf ws = buf @ concat (map EncodeFixed32 ws)" for buf ws
    by (induction ws arbitrary: buf) (simp_all add: PutFixed32_def)
  then show ?thesis
    using assms by (simp add: BlockBuilder_Finish_def builder_holds_def block_of_def restarts_bytes_def PutFixed32_def
        Let_def comp_def)
qed

section \<open>Decoding entries\<close>

text \<open>The fast path of \<open>DecodeEntry\<close> is the slow one.\<close>

lemma byte_or_less_128:
  fixes a b c :: u8
  assumes "ucast a OR ucast b OR ucast c < (128 :: u32)"
  shows "(ucast a :: u32) AND 128 = 0" "(ucast b :: u32) AND 128 = 0" "(ucast c :: u32) AND 128 = 0"
proof -
  let ?w = "ucast a OR ucast b OR ucast c :: u32"
  have "take_bit 7 (unat ?w) = unat ?w" using assms by (simp add: take_bit_nat_eq_self word_less_nat_alt)
  then have "\<not> bit (unat ?w) 7" by (metis bit_take_bit_iff less_irrefl)
  then have "\<not> bit ?w 7" by (simp add: bit_simps)
  then show "(ucast a :: u32) AND 128 = 0" "(ucast b :: u32) AND 128 = 0" "(ucast c :: u32) AND 128 = 0"
    using and_128_iff [where 'a = 32, of a] and_128_iff [where 'a = 32, of b] and_128_iff [where 'a = 32, of c]
    by (simp_all add: bit_simps)
qed

definition decode_head :: "slice \<Rightarrow> (u32 \<times> u32 \<times> u32 \<times> slice) option" where
  "decode_head view =
     (case GetVarint32Ptr view of
        None \<Rightarrow> None
      | Some (shared, view) \<Rightarrow>
          (case GetVarint32Ptr view of
             None \<Rightarrow> None
           | Some (non_shared, view) \<Rightarrow>
               (case GetVarint32Ptr view of
                  None \<Rightarrow> None
                | Some (value_length, rest) \<Rightarrow> Some (shared, non_shared, value_length, rest))))"

lemma DecodeEntry_head:
  assumes "limit \<le> length data"
  shows "DecodeEntry data p limit =
    (if limit < p + 3 then Ret None
     else Ret (case decode_head (take (limit - p) (drop p data)) of
        None \<Rightarrow> None
      | Some (shared, non_shared, value_length, rest) \<Rightarrow>
          if (of_nat (length rest) :: u32) < non_shared + value_length then None
          else Some (shared, non_shared, value_length, limit - length rest)))"
proof (cases "limit < p + 3")
  case False
  let ?view = "take (limit - p) (drop p data)"
  have "length ?view = limit - p" using assms by simp
  moreover obtain a b c rest where view: "?view = a # b # c # rest"
  proof -
    have "3 \<le> length ?view" using False assms by simp
    then show thesis using that by (metis (no_types, lifting) One_nat_def Suc_le_length_iff numeral_3_eq_3)
  qed
  moreover have "decode_head (a # b # c # rest) = Some (ucast a, ucast b, ucast c, rest)"
    if "ucast a OR ucast b OR ucast c < (128 :: u32)"
    using byte_or_less_128 [OF that] by (simp add: decode_head_def GetVarint32Ptr_def)
  ultimately show ?thesis
    using False unfolding DecodeEntry_def Let_def view
    by (auto simp: decode_head_def split: option.splits)
qed (simp add: DecodeEntry_def)

lemma EncodeVarint32_ne: "EncodeVarint32 v \<noteq> []"
  by (simp add: EncodeVarint32_enc varint_enc_nonempty)

lemma entry_head_3: "3 \<le> length (entry_head e)"
proof -
  have "1 \<le> length (EncodeVarint32 v)" for v using EncodeVarint32_ne [of v] by (cases "EncodeVarint32 v") auto
  from this [of "of_nat (shared_of e)"] this [of "of_nat (length (key_of e) - shared_of e)"]
    this [of "of_nat (length (value_of e))"]
  show ?thesis by (simp add: entry_head_def)
qed

lemma decode_head_entry:
  "decode_head (entry_head e @ rest) = Some (of_nat (shared_of e), of_nat (length (key_of e) - shared_of e),
     of_nat (length (value_of e)), rest)"
  by (simp add: decode_head_def entry_head_def GetVarint32Ptr_enc)

text \<open>Offsets.\<close>

lemma entry_off_Suc: "i < length es \<Longrightarrow> entry_off es (Suc i) = entry_off es i + length (entry_bytes (es ! i))"
  by (simp add: entry_off_def entries_bytes_def take_Suc_conv_app_nth)

lemma entry_bytes_pos: "3 \<le> length (entry_bytes e)"
  using entry_head_3 [of e] by (simp add: entry_bytes_def)

lemma entry_off_mono: "i \<le> j \<Longrightarrow> j \<le> length es \<Longrightarrow> entry_off es i + 3 * (j - i) \<le> entry_off es j"
proof (induction j)
  case (Suc j)
  then show ?case
    using entry_off_Suc [of j es] entry_bytes_pos [of "es ! j"] by (cases "i = Suc j") auto
qed simp

lemma entry_off_less_iff:
  assumes "i \<le> length es" "j \<le> length es"
  shows "entry_off es i < entry_off es j \<longleftrightarrow> i < j" and "entry_off es i = entry_off es j \<longleftrightarrow> i = j"
proof -
  have "i < j \<Longrightarrow> entry_off es i < entry_off es j" "j < i \<Longrightarrow> entry_off es j < entry_off es i"
    using entry_off_mono [of i j es] entry_off_mono [of j i es] assms by auto
  then show "entry_off es i < entry_off es j \<longleftrightarrow> i < j" "entry_off es i = entry_off es j \<longleftrightarrow> i = j"
    by (cases i j rule: linorder_cases; auto)+
qed

lemma entry_off_length: "entry_off es (length es) = length (entries_bytes es)"
  by (simp add: entry_off_def)

lemma drop_entry_off:
  assumes "i < length es"
  shows "drop (entry_off es i) (entries_bytes es) = entry_bytes (es ! i) @ entries_bytes (drop (Suc i) es)"
proof -
  have "entries_bytes es = entries_bytes (take i es) @ entries_bytes (drop i es)"
    by (metis append_take_drop_id concat_append entries_bytes_def map_append)
  then have "drop (entry_off es i) (entries_bytes es) = entries_bytes (drop i es)" by (simp add: entry_off_def)
  also have "\<dots> = entry_bytes (es ! i) @ entries_bytes (drop (Suc i) es)"
    using assms by (simp add: entries_bytes_def Cons_nth_drop_Suc [symmetric])
  finally show ?thesis .
qed

lemma length_restarts_bytes: "length (restarts_bytes es rs) = 4 * length rs"
  by (induction rs) (simp_all add: restarts_bytes_def)

lemma drop_restarts_bytes: "drop (4 * r) (restarts_bytes es rs) = restarts_bytes es (drop r rs)"
proof (induction rs arbitrary: r)
  case (Cons x rs)
  then show ?case by (cases r) (simp_all add: restarts_bytes_def)
qed (simp add: restarts_bytes_def)

text \<open>What is read of the text of a block.\<close>

lemma block_of_bounds:
  assumes "block_ok es rs"
  shows "length (entries_bytes es) + 4 * length rs + 4 < 2 ^ 32" and "rs \<noteq> []" and "length rs < 2 ^ 30"
    and "r < length rs \<Longrightarrow> rs ! r \<le> length es" and "i \<le> length es \<Longrightarrow> entry_off es i \<le> length (entries_bytes es)"
    and "i < length es \<Longrightarrow> entry_off es i < length (entries_bytes es)"
    and "length es \<le> length (entries_bytes es)"
proof -
  show "length (entries_bytes es) + 4 * length rs + 4 < 2 ^ 32" "rs \<noteq> []"
    using assms by (auto simp: block_ok_def block_of_def length_restarts_bytes restarts_ok_def)
  then show "length rs < 2 ^ 30" by simp
  show "r < length rs \<Longrightarrow> rs ! r \<le> length es" using assms restarts_le by (auto simp: block_ok_def)
  show "i \<le> length es \<Longrightarrow> entry_off es i \<le> length (entries_bytes es)"
    using entry_off_mono [of i "length es" es] by (simp add: entry_off_length)
  show "i < length es \<Longrightarrow> entry_off es i < length (entries_bytes es)"
    using entry_off_less_iff(1) [of i es "length es"] by (simp add: entry_off_length)
  show "length es \<le> length (entries_bytes es)"
    using entry_off_mono [of 0 "length es" es] by (simp add: entry_off_length)
qed

lemma NumRestarts_block_of:
  assumes "block_bytes b = block_of es rs" "block_size b = length (block_of es rs)"
  shows "NumRestarts b = Ret (of_nat (length rs))"
  using assms by (simp add: NumRestarts_def block_of_def length_restarts_bytes)

lemma new_Block_block_of:
  assumes ok: "block_ok es rs" and contents: "block_data contents = block_of es rs"
  shows "new_Block contents = Ret \<lparr> block_bytes = block_of es rs, block_size = length (block_of es rs),
    restart_offset = of_nat (length (entries_bytes es)), owned = heap_allocated contents \<rparr>"
proof -
  note b = block_of_bounds(1,3) [OF ok]
  have len: "length (block_of es rs) = length (entries_bytes es) + 4 * length rs + 4"
    by (simp add: block_of_def length_restarts_bytes)
  have rs: "unat (of_nat (length rs) :: u32) = length rs" using b(2) by (simp add: unat_of_nat take_bit_nat_eq_self)
  have "unat (1 + of_nat (length rs) :: u32) = Suc (length rs)"
    using b(2) by (simp add: unat_word_ariths rs)
  then have "(ucast (1 + of_nat (length rs) :: u32) :: u64) = of_nat (Suc (length rs))"
    by (metis of_nat_unat)
  then have "(of_nat (length (block_of es rs)) - ucast (1 + of_nat (length rs) :: u32) * 4 :: u64) =
      of_nat (length (entries_bytes es))"
    by (simp add: len algebra_simps)
  moreover have "ucast (of_nat n :: u64) = (of_nat n :: u32)" for n
    by (rule bit_word_eqI) (simp add: bit_simps)
  moreover have "\<not> length (block_of es rs) < 4" "\<not> (length (block_of es rs) - 4) div 4 < length rs"
    by (simp_all add: len)
  ultimately show ?thesis
    using contents NumRestarts_block_of [of "\<lparr> block_bytes = block_of es rs, block_size = length (block_of es rs),
        restart_offset = 0, owned = heap_allocated contents \<rparr>" es rs]
    by (simp add: new_Block_def Let_def rs)
qed

section \<open>The iterator\<close>

text \<open>An iterator over a block, and where it stands.\<close>

definition iter_over :: "Comparator \<Rightarrow> entry list \<Rightarrow> nat list \<Rightarrow> Iter \<Rightarrow> bool" where
  "iter_over c es rs it \<longleftrightarrow> block_ok es rs \<and> it_comparator it = c \<and> it_data it = block_of es rs \<and>
     it_restarts it = of_nat (length (entries_bytes es)) \<and> it_num_restarts it = of_nat (length rs) \<and>
     it_status it = OK"

definition in_restart_block :: "nat list \<Rightarrow> nat \<Rightarrow> Iter \<Rightarrow> bool" where
  "in_restart_block rs i it \<longleftrightarrow> unat (it_restart_index it) < length rs \<and> rs ! unat (it_restart_index it) \<le> i"

definition at_entry :: "Comparator \<Rightarrow> entry list \<Rightarrow> nat list \<Rightarrow> Iter \<Rightarrow> nat \<Rightarrow> bool" where
  "at_entry c es rs it i \<longleftrightarrow> iter_over c es rs it \<and> i < length es \<and> it_current it = of_nat (entry_off es i) \<and>
     it_key it = key_of (es ! i) \<and>
     it_value it = Some (entry_off es (Suc i) - length (value_of (es ! i)), length (value_of (es ! i))) \<and>
     in_restart_block rs i it"

definition at_end :: "Comparator \<Rightarrow> entry list \<Rightarrow> nat list \<Rightarrow> Iter \<Rightarrow> bool" where
  "at_end c es rs it \<longleftrightarrow> iter_over c es rs it \<and> it_current it = it_restarts it"

text \<open>Ready to parse the entry \<open>i\<close>.\<close>

definition ready :: "Comparator \<Rightarrow> entry list \<Rightarrow> nat list \<Rightarrow> Iter \<Rightarrow> nat \<Rightarrow> bool" where
  "ready c es rs it i \<longleftrightarrow> iter_over c es rs it \<and> i \<le> length es \<and>
     (\<exists>off len. it_value it = Some (off, len) \<and> off + len = entry_off es i) \<and>
     (i < length es \<and> shared_of (es ! i) \<noteq> 0 \<longrightarrow> it_key it = key_of (es ! (i - 1))) \<and>
     in_restart_block rs i it"

lemma unat_small: "n < 2 ^ 32 \<Longrightarrow> unat (of_nat n :: u32) = n"
  by (simp add: unat_of_nat take_bit_nat_eq_self)

lemma mid_of_nat:
  assumes "l + r + 1 < 2 ^ 32"
  shows "(of_nat l + of_nat r + 1 :: u32) div 2 = of_nat ((l + r + 1) div 2)"
proof -
  have sum: "unat (of_nat l + of_nat r + 1 :: u32) = l + r + 1"
    using unat_small [OF assms] by (simp add: ac_simps)
  have half: "unat (of_nat ((l + r + 1) div 2) :: u32) = (l + r + 1) div 2"
    using assms by (intro unat_small) simp
  have "unat ((of_nat l + of_nat r + 1 :: u32) div 2) = unat (of_nat ((l + r + 1) div 2) :: u32)"
    unfolding unat_div_distrib sum half by simp
  then show ?thesis by (simp only: word_unat_eq_iff)
qed

lemma unat_off:
  assumes "block_ok es rs" "i \<le> length es"
  shows "unat (of_nat (entry_off es i) :: u32) = entry_off es i"
  using block_of_bounds(1,5) [OF assms(1)] assms(2) by (intro unat_small) fastforce

lemma of_nat_off_less:
  assumes "block_ok es rs" "i \<le> length es" "j \<le> length es"
  shows "(of_nat (entry_off es i) :: u32) < of_nat (entry_off es j) \<longleftrightarrow> i < j"
  using assms by (simp add: word_less_nat_alt unat_off entry_off_less_iff)

lemma unat_limit: "block_ok es rs \<Longrightarrow> unat (of_nat (length (entries_bytes es)) :: u32) = length (entries_bytes es)"
  using block_of_bounds(1) by (intro unat_small) fastforce

lemma unat_num: "block_ok es rs \<Longrightarrow> unat (of_nat (length rs) :: u32) = length rs"
  using block_of_bounds(1) by (intro unat_small) fastforce

lemma GetRestartPoint_at:
  assumes "iter_over c es rs it" "unat r < length rs"
  shows "GetRestartPoint it r = Ret (of_nat (entry_off es (rs ! unat r)))"
proof -
  have "drop (length (entries_bytes es) + unat r * 4) (block_of es rs) =
      drop (4 * unat r) (restarts_bytes es rs @ EncodeFixed32 (of_nat (length rs)))"
    by (simp add: block_of_def mult.commute)
  also have "\<dots> = restarts_bytes es (drop (unat r) rs) @ EncodeFixed32 (of_nat (length rs))"
    using assms(2) by (simp add: drop_restarts_bytes length_restarts_bytes)
  also have "\<dots> = EncodeFixed32 (of_nat (entry_off es (rs ! unat r))) @
      restarts_bytes es (drop (Suc (unat r)) rs) @ EncodeFixed32 (of_nat (length rs))"
    using assms(2) by (simp add: restarts_bytes_def Cons_nth_drop_Suc [symmetric])
  finally show ?thesis
    using assms(1) unat_limit [of es rs] by (simp add: GetRestartPoint_def iter_over_def)
qed

text \<open>Decoding the entry \<open>i\<close>.\<close>

lemma DecodeEntry_at:
  assumes ok: "block_ok es rs" and i: "i < length es"
  shows "DecodeEntry (block_of es rs) (entry_off es i) (length (entries_bytes es)) =
    Ret (Some (of_nat (shared_of (es ! i)), of_nat (length (key_of (es ! i)) - shared_of (es ! i)),
      of_nat (length (value_of (es ! i))), entry_off es i + length (entry_head (es ! i))))"
    and "drop (entry_off es i + length (entry_head (es ! i))) (block_of es rs) =
      drop (shared_of (es ! i)) (key_of (es ! i)) @ value_of (es ! i) @ drop (entry_off es (Suc i)) (block_of es rs)"
proof -
  let ?e = "es ! i" and ?limit = "length (entries_bytes es)"
  let ?ns = "length (key_of (es ! i)) - shared_of (es ! i)" and ?vl = "length (value_of (es ! i))"
  let ?rest = "drop (shared_of ?e) (key_of ?e) @ value_of ?e @ entries_bytes (drop (Suc i) es)"
  have next_off: "entry_off es (Suc i) = entry_off es i + length (entry_head ?e) + ?ns + ?vl"
    using entry_off_Suc [OF i] by (simp add: entry_bytes_def)
  have le: "entry_off es (Suc i) \<le> ?limit" using block_of_bounds(5) [OF ok, of "Suc i"] i by simp
  have view: "drop (entry_off es i) (entries_bytes es) = entry_head ?e @ ?rest"
    using drop_entry_off [OF i] by (simp add: entry_bytes_def)
  have all: "drop (entry_off es i) (block_of es rs) = entry_head ?e @ ?rest @
      restarts_bytes es rs @ EncodeFixed32 (of_nat (length rs))"
    using block_of_bounds(6) [OF ok i] by (simp add: block_of_def view)
  have head: "decode_head (take (?limit - entry_off es i) (drop (entry_off es i) (block_of es rs))) =
      Some (of_nat (shared_of ?e), of_nat ?ns, of_nat ?vl, ?rest)"
  proof -
    have "drop (entry_off es i) (block_of es rs) =
        drop (entry_off es i) (entries_bytes es) @ restarts_bytes es rs @ EncodeFixed32 (of_nat (length rs))"
      using block_of_bounds(6) [OF ok i] by (simp add: block_of_def)
    then have "take (?limit - entry_off es i) (drop (entry_off es i) (block_of es rs)) =
        drop (entry_off es i) (entries_bytes es)"
      by simp
    then show ?thesis using decode_head_entry view by simp
  qed
  have rest: "length ?rest = ?limit - (entry_off es i + length (entry_head ?e))"
    using arg_cong [OF view, of length] by simp
  then have long: "?ns + ?vl \<le> length ?rest" using next_off le by linarith
  have small: "length ?rest < 2 ^ 32" using rest block_of_bounds(1) [OF ok] by linarith
  have "\<not> (of_nat (length ?rest) :: u32) < of_nat ?ns + of_nat ?vl"
  proof -
    have "unat (of_nat (?ns + ?vl) :: u32) = ?ns + ?vl" using long small by (intro unat_small) linarith
    moreover have "unat (of_nat (length ?rest) :: u32) = length ?rest" using small by (rule unat_small)
    ultimately show ?thesis using long unfolding of_nat_add [symmetric] word_less_nat_alt by linarith
  qed
  moreover have "?limit \<le> length (block_of es rs)" by (simp add: block_of_def)
  moreover have "\<not> ?limit < entry_off es i + 3" using next_off le entry_head_3 [of ?e] by linarith
  moreover have "?limit - length ?rest = entry_off es i + length (entry_head ?e)"
    using rest next_off le by linarith
  ultimately show "DecodeEntry (block_of es rs) (entry_off es i) ?limit =
      Ret (Some (of_nat (shared_of ?e), of_nat ?ns, of_nat ?vl, entry_off es i + length (entry_head ?e)))"
    by (simp only: DecodeEntry_head head if_False option.case prod.case)
  let ?tail = "entries_bytes (drop (Suc i) es) @ restarts_bytes es rs @ EncodeFixed32 (of_nat (length rs))"
  have drop_off: "drop (entry_off es i + n) (block_of es rs) = drop n (entry_head ?e @ ?rest @
      restarts_bytes es rs @ EncodeFixed32 (of_nat (length rs)))" for n
    by (simp only: all [symmetric] drop_drop add.commute)
  have "drop (entry_off es (Suc i)) (block_of es rs) = ?tail"
    using drop_off [of "length (entry_head ?e) + (?ns + ?vl)"] by (simp add: next_off add.assoc)
  then show "drop (entry_off es i + length (entry_head ?e)) (block_of es rs) =
      drop (shared_of ?e) (key_of ?e) @ value_of ?e @ drop (entry_off es (Suc i)) (block_of es rs)"
    using drop_off [of "length (entry_head ?e)"] by simp
qed

text \<open>The restart index moves to the restart block of the entry.\<close>

lemma advance_restart_index_at:
  assumes "iter_over c es rs it" and "it_current it = of_nat (entry_off es i)" and "i \<le> length es"
    and "in_restart_block rs i it"
  shows "\<exists>ri. advance_restart_index it = Ret (it \<lparr> it_restart_index := ri \<rparr>) \<and>
    in_restart_block rs i (it \<lparr> it_restart_index := ri \<rparr>)"
  using assms
proof (induction it rule: advance_restart_index.induct)
  case (1 it)
  note ok = block_of_bounds [of es rs]
  have wf: "block_ok es rs" using 1(2) by (simp add: iter_over_def)
  let ?next = "it_restart_index it + 1"
  show ?case
  proof (cases "?next < it_num_restarts it")
    case True
    then have r: "unat ?next < length rs" using 1(2) unat_num [OF wf] by (simp add: iter_over_def word_less_nat_alt)
    then have le: "rs ! unat ?next \<le> length es" using block_of_bounds(4) [OF wf] by blast
    note point = GetRestartPoint_at [OF 1(2) r]
    show ?thesis
    proof (cases "(of_nat (entry_off es (rs ! unat ?next)) :: u32) < it_current it")
      case True
      then have "rs ! unat ?next < i" using of_nat_off_less [OF wf le 1(4)] 1(3) by simp
      then have "in_restart_block rs i (it \<lparr> it_restart_index := ?next \<rparr>)" using r by (simp add: in_restart_block_def)
      moreover have "iter_over c es rs (it \<lparr> it_restart_index := ?next \<rparr>)" using 1(2) by (simp add: iter_over_def)
      ultimately show ?thesis
        using 1(1) [OF \<open>?next < it_num_restarts it\<close> point True] 1(3,4) \<open>?next < it_num_restarts it\<close> True point
        by (simp add: advance_restart_index.simps [of it])
    next
      case False
      then show ?thesis
        using 1(5) \<open>?next < it_num_restarts it\<close> point
        by (simp add: advance_restart_index.simps [of it]) (metis Iter.surjective Iter.update_convs(6))
    qed
  next
    case False
    then show ?thesis
      using 1(5) by (simp add: advance_restart_index.simps [of it]) (metis Iter.surjective Iter.update_convs(6))
  qed
qed

lemma NextEntryOffset_ready: "ready c es rs it i \<Longrightarrow> NextEntryOffset it = Ret (of_nat (entry_off es i))"
  by (auto simp: ready_def NextEntryOffset_def simp del: of_nat_add)

text \<open>No key is longer than the text up to its entry.\<close>

lemma key_length_off: "entries_ok es \<Longrightarrow> i < length es \<Longrightarrow> length (key_of (es ! i)) \<le> entry_off es (Suc i)"
proof (induction i)
  case 0
  then show ?case using entry_off_Suc [of 0 es] by (auto simp: entries_ok_def entry_bytes_def)
next
  case (Suc i)
  let ?e = "es ! Suc i"
  have "shared_of ?e \<le> length (key_of (es ! i))" using Suc.prems by (cases "shared_of ?e = 0") (auto simp: entries_ok_def)
  moreover have "length (key_of (es ! i)) \<le> entry_off es (Suc i)" using Suc by simp
  moreover have "entry_off es (Suc (Suc i)) = entry_off es (Suc i) + length (entry_head ?e) +
      (length (key_of ?e) - shared_of ?e) + length (value_of ?e)"
    using entry_off_Suc [OF Suc.prems(2)] by (simp add: entry_bytes_def)
  ultimately show ?case by linarith
qed

text \<open>Parsing an entry, and parsing behind the last one.\<close>

lemma ParseNextKey_entry:
  assumes r: "ready c es rs it i" and i: "i < length es"
  shows "\<exists>it'. ParseNextKey it = Ret (True, it') \<and> at_entry c es rs it' i"
proof -
  let ?e = "es ! i"
  have over: "iter_over c es rs it" and ok: "block_ok es rs" using r by (simp_all add: ready_def iter_over_def)
  have e: "entries_ok es" using ok by (simp add: block_ok_def)
  let ?ns = "length (key_of ?e) - shared_of ?e" and ?vl = "length (value_of ?e)"
  let ?p = "entry_off es i + length (entry_head ?e)"
  have next_off: "entry_off es (Suc i) = ?p + ?ns + ?vl"
    using entry_off_Suc [OF i] by (simp add: entry_bytes_def)
  have bound: "entry_off es (Suc i) \<le> length (entries_bytes es)" using block_of_bounds(5) [OF ok, of "Suc i"] i by simp
  then have end32: "entry_off es (Suc i) < 2 ^ 32" using block_of_bounds(1) [OF ok] by linarith
  have sh: "shared_of ?e \<le> length (key_of ?e)" using e i by (auto simp: entries_ok_def)
  note dec = DecodeEntry_at [OF ok i]
  have key: "shared_of ?e \<le> length (it_key it) \<and> take (shared_of ?e) (it_key it) = take (shared_of ?e) (key_of ?e)"
    using r e i by (cases "shared_of ?e = 0") (auto simp: ready_def entries_ok_def)
  have sh32: "shared_of ?e < 2 ^ 32" using sh key_length_off [OF e i] end32 by linarith
  have un: "unat (of_nat (shared_of ?e) :: u32) = shared_of ?e" "unat (of_nat ?ns :: u32) = ?ns"
    "unat (of_nat ?vl :: u32) = ?vl"
    using sh32 next_off end32 by (auto intro!: unat_small)
  have data: "\<not> length (it_data it) < ?p + ?ns"
    using over next_off bound by (simp add: iter_over_def block_of_def)
  have piece: "take ?ns (drop ?p (it_data it)) = drop (shared_of ?e) (key_of ?e)"
    using over dec(2) by (simp add: iter_over_def)
  let ?it = "it \<lparr> it_current := of_nat (entry_off es i), it_key := key_of ?e, it_value := Some (?p + ?ns, ?vl) \<rparr>"
  obtain ri where ri: "advance_restart_index ?it = Ret (?it \<lparr> it_restart_index := ri \<rparr>)"
      "in_restart_block rs i (?it \<lparr> it_restart_index := ri \<rparr>)"
    using advance_restart_index_at [of c es rs ?it i] over r i by (auto simp: iter_over_def ready_def in_restart_block_def)
  have "take (shared_of ?e) (it_key it) @ drop (shared_of ?e) (key_of ?e) = key_of ?e" using key by simp
  moreover have "DecodeEntry (it_data it) (entry_off es i) (unat (it_restarts it)) =
      Ret (Some (of_nat (shared_of ?e), of_nat ?ns, of_nat ?vl, ?p))"
    using over dec(1) unat_limit [OF ok] by (simp add: iter_over_def)
  moreover have "\<not> unat (it_restarts it) \<le> entry_off es i"
    using over block_of_bounds(6) [OF ok i] unat_limit [OF ok] by (simp add: iter_over_def)
  ultimately have "ParseNextKey it = Ret (True, ?it \<lparr> it_restart_index := ri \<rparr>)"
    using key data piece un ri(1) i unat_off [OF ok, of i]
    by (simp add: ParseNextKey_def NextEntryOffset_ready [OF r] Let_def)
  then show ?thesis
    using ri(2) over i next_off by (auto simp: at_entry_def iter_over_def)
qed

lemma ParseNextKey_end:
  assumes "ready c es rs it (length es)"
  shows "\<exists>it'. ParseNextKey it = Ret (False, it') \<and> at_end c es rs it'"
proof -
  have over: "iter_over c es rs it" and ok: "block_ok es rs" using assms by (simp_all add: ready_def iter_over_def)
  have "unat (it_restarts it) = entry_off es (length es)"
    using over unat_limit [OF ok] by (simp add: iter_over_def entry_off_length)
  then have "ParseNextKey it = Ret (False, Iter_end (it \<lparr> it_current := of_nat (entry_off es (length es)) \<rparr>))"
    using unat_off [OF ok, of "length es"] by (simp add: ParseNextKey_def NextEntryOffset_ready [OF assms] Let_def)
  with over show ?thesis by (simp add: at_end_def iter_over_def Iter_end_def)
qed

lemma at_entry_ready:
  assumes "at_entry c es rs it i"
  shows "ready c es rs it (Suc i)"
proof -
  have i: "i < length es" using assms by (simp add: at_entry_def)
  have "length (value_of (es ! i)) \<le> entry_off es (Suc i)"
    using entry_off_Suc [OF i] by (simp add: entry_bytes_def)
  with assms i show ?thesis by (auto simp: at_entry_def ready_def in_restart_block_def)
qed

lemma SeekToRestartPoint_ready:
  assumes over: "iter_over c es rs it" and r: "r < length rs"
  shows "\<exists>it'. SeekToRestartPoint (of_nat r) it = Ret it' \<and> ready c es rs it' (rs ! r)"
proof -
  have ok: "block_ok es rs" using over by (simp add: iter_over_def)
  have ri: "unat (of_nat r :: u32) = r" using r block_of_bounds(1) [OF ok] by (intro unat_small) simp
  have le: "rs ! r \<le> length es" using block_of_bounds(4) [OF ok r] .
  have "rs ! r < length es \<Longrightarrow> shared_of (es ! (rs ! r)) = 0"
    using ok r by (auto simp: block_ok_def restarts_ok_def)
  moreover have "GetRestartPoint (it \<lparr> it_key := [], it_restart_index := of_nat r \<rparr>) (of_nat r) =
      Ret (of_nat (entry_off es (rs ! r)))"
    using GetRestartPoint_at [of c es rs "it \<lparr> it_key := [], it_restart_index := of_nat r \<rparr>" "of_nat r"] over r ri
    by (simp add: iter_over_def)
  ultimately show ?thesis
    using over r ri le unat_off [OF ok le]
    by (auto simp: SeekToRestartPoint_def ready_def iter_over_def in_restart_block_def Let_def)
qed

text \<open>At an entry or at the end.\<close>

definition at_pos :: "Comparator \<Rightarrow> entry list \<Rightarrow> nat list \<Rightarrow> Iter \<Rightarrow> nat \<Rightarrow> bool" where
  "at_pos c es rs it i \<longleftrightarrow> (if i < length es then at_entry c es rs it i else i = length es \<and> at_end c es rs it)"

lemma ParseNextKey_pos:
  assumes "ready c es rs it i"
  shows "\<exists>it'. ParseNextKey it = Ret (i < length es, it') \<and> at_pos c es rs it' i"
proof -
  have "i \<le> length es" using assms by (simp add: ready_def)
  then show ?thesis
    using ParseNextKey_entry [OF assms] ParseNextKey_end [of c es rs it] assms
    by (cases "i < length es") (auto simp: at_pos_def)
qed

text \<open>Parsing up to the entry before \<open>b\<close>.\<close>

lemma parse_up_to_pos:
  "ready c es rs it i \<Longrightarrow> i < b \<Longrightarrow> b \<le> length es \<Longrightarrow> b - i < fuel \<Longrightarrow>
   \<exists>it'. parse_up_to fuel (of_nat (entry_off es b)) it = Ret it' \<and> at_pos c es rs it' (b - 1)"
proof (induction fuel arbitrary: it i)
  case (Suc fuel)
  have i: "i < length es" using Suc.prems by simp
  obtain it' where it': "ParseNextKey it = Ret (True, it')" "at_entry c es rs it' i"
    using ParseNextKey_entry [OF Suc.prems(1) i] by blast
  note r = at_entry_ready [OF it'(2)]
  have ok: "block_ok es rs" using Suc.prems(1) by (simp add: ready_def iter_over_def)
  have more: "(of_nat (entry_off es (Suc i)) :: u32) < of_nat (entry_off es b) \<longleftrightarrow> Suc i < b"
    using of_nat_off_less [OF ok] i Suc.prems(3) by simp
  show ?case
  proof (cases "Suc i < b")
    case True
    then show ?thesis using Suc.IH [OF r True] Suc.prems(3,4) it'(1) more NextEntryOffset_ready [OF r] by simp
  next
    case False
    then have "b = Suc i" using Suc.prems(2) by simp
    then show ?thesis using it' i more NextEntryOffset_ready [OF r] by (simp add: at_pos_def)
  qed
qed simp

text \<open>The restart points are increasing.\<close>

lemma restart_pos: "block_ok es rs \<Longrightarrow> 0 < r \<Longrightarrow> r < length rs \<Longrightarrow> 0 < rs ! r \<and> rs ! r < length es"
proof -
  assume ok: "block_ok es rs" and r: "0 < r" "r < length rs"
  then have "rs ! 0 = 0" "sorted_wrt (<) rs" by (simp_all add: block_ok_def restarts_ok_def)
  then have "0 < rs ! r" using r sorted_wrt_nth_less [of "(<)" rs 0 r] by simp
  moreover have "rs ! r \<in> set rs" using r by simp
  ultimately show "0 < rs ! r \<and> rs ! r < length es" using ok by (auto simp: block_ok_def restarts_ok_def)
qed

lemma last_restart_less: "block_ok es rs \<Longrightarrow> r < length rs \<Longrightarrow> es \<noteq> [] \<Longrightarrow> rs ! r < length es"
  using restart_pos [of es rs r] by (cases "r = 0") (auto simp: block_ok_def restarts_ok_def)

lemma restart_before_pos:
  assumes "iter_over c es rs it" "in_restart_block rs i it" "i < length es"
  shows "if i = 0 then restart_before (of_nat (entry_off es i)) it = Ret None
    else \<exists>r. restart_before (of_nat (entry_off es i)) it = Ret (Some (it \<lparr> it_restart_index := of_nat r \<rparr>)) \<and>
      r < length rs \<and> rs ! r < i"
  using assms
proof (induction "of_nat (entry_off es i) :: u32" it rule: restart_before.induct)
  case (1 it)
  have ok: "block_ok es rs" using 1(2) by (simp add: iter_over_def)
  let ?ri = "it_restart_index it"
  have ri: "unat ?ri < length rs" "rs ! unat ?ri \<le> i" using 1(3) by (simp_all add: in_restart_block_def)
  note point = GetRestartPoint_at [OF 1(2) ri(1)]
  have le: "(of_nat (entry_off es i) :: u32) \<le> of_nat (entry_off es (rs ! unat ?ri)) \<longleftrightarrow> rs ! unat ?ri = i"
    using of_nat_off_less [OF ok, of "rs ! unat ?ri" i] ri(2) 1(4) by (auto simp: linorder_not_less [symmetric])
  show ?case
  proof (cases "rs ! unat ?ri = i")
    case False
    then have "restart_before (of_nat (entry_off es i)) it = Ret (Some it)"
      using point le by (simp add: restart_before.simps [of _ it])
    moreover have "it = it \<lparr> it_restart_index := of_nat (unat ?ri) \<rparr>" by simp
    moreover have "rs ! unat ?ri < i" using False ri(2) by simp
    moreover from this have "i \<noteq> 0" by simp
    ultimately show ?thesis using ri(1) by (simp only: if_not_P if_False) (intro exI [of _ "unat ?ri"], simp)
  next
    case same: True
    show ?thesis
    proof (cases "?ri = 0")
      case True
      then have "i = 0" using same ok by (simp add: block_ok_def restarts_ok_def)
      then show ?thesis using same True point le by (simp add: restart_before.simps [of _ it])
    next
      case False
      then have um: "unat (?ri - 1) = unat ?ri - 1" "0 < unat ?ri" by (simp_all add: unat_minus_one unat_gt_0)
      have less: "rs ! (unat ?ri - 1) < rs ! unat ?ri"
        using ok ri(1) um(2) by (simp add: block_ok_def restarts_ok_def sorted_wrt_iff_nth_less)
      then have i0: "i \<noteq> 0" using same by simp
      let ?it = "it \<lparr> it_restart_index := ?ri - 1 \<rparr>"
      have "restart_before (of_nat (entry_off es i)) it = restart_before (of_nat (entry_off es i)) ?it"
        using same False point le by (simp add: restart_before.simps [of _ it])
      moreover have "iter_over c es rs ?it" "in_restart_block rs i ?it"
        using 1(2) ri um less same by (simp_all add: iter_over_def in_restart_block_def)
      ultimately show ?thesis using 1(1) [OF point] le same False i0 1(4) by simp
    qed
  qed
qed

lemma Iter_Prev_pos:
  assumes at: "at_entry c es rs it i" and fuel: "length es < fuel"
  shows "\<exists>it'. Iter_Prev fuel it = Ret it' \<and> at_pos c es rs it' (if i = 0 then length es else i - 1)"
proof -
  have over: "iter_over c es rs it" and i: "i < length es" and "in_restart_block rs i it"
    and cur: "it_current it = of_nat (entry_off es i)"
    using at by (simp_all add: at_entry_def)
  note before = restart_before_pos [OF this(1,3,2)]
  show ?thesis
  proof (cases "i = 0")
    case True
    then show ?thesis
      using before over cur by (simp add: Iter_Prev_def at_pos_def at_end_def iter_over_def Iter_end_def)
  next
    case False
    then obtain r where r: "restart_before (of_nat (entry_off es i)) it = Ret (Some (it \<lparr> it_restart_index := of_nat r \<rparr>))"
        "r < length rs" "rs ! r < i"
      using before by auto
    have "iter_over c es rs (it \<lparr> it_restart_index := of_nat r \<rparr>)" using over by (simp add: iter_over_def)
    from SeekToRestartPoint_ready [OF this r(2)] obtain it1 where
        it1: "SeekToRestartPoint (of_nat r) (it \<lparr> it_restart_index := of_nat r \<rparr>) = Ret it1" "ready c es rs it1 (rs ! r)"
      by blast
    have "i - rs ! r < fuel" using i fuel by simp
    from parse_up_to_pos [OF it1(2) r(3) less_imp_le [OF i] this] show ?thesis
      using False r(1) it1(1) cur by (simp add: Iter_Prev_def)
  qed
qed

lemma Iter_SeekToLast_pos:
  assumes over: "iter_over c es rs it" and fuel: "length es < fuel"
  shows "\<exists>it'. Iter_SeekToLast fuel it = Ret it' \<and> at_pos c es rs it' (length es - 1)"
proof -
  have ok: "block_ok es rs" using over by (simp add: iter_over_def)
  let ?r = "length rs - 1"
  have r: "?r < length rs" using block_of_bounds(2) [OF ok] by simp
  have "it_num_restarts it - 1 = of_nat ?r"
    using over block_of_bounds(2) [OF ok] by (cases rs) (simp_all add: iter_over_def)
  moreover obtain it1 where it1: "SeekToRestartPoint (of_nat ?r) it = Ret it1" "ready c es rs it1 (rs ! ?r)"
    using SeekToRestartPoint_ready [OF over r] by blast
  moreover have "it_restarts it1 = of_nat (entry_off es (length es))"
    using it1(2) by (simp add: ready_def iter_over_def entry_off_length)
  moreover have "\<exists>it'. parse_up_to fuel (of_nat (entry_off es (length es))) it1 = Ret it' \<and>
      at_pos c es rs it' (length es - 1)"
  proof (cases "es = []")
    case False
    then show ?thesis
      using parse_up_to_pos [OF it1(2) last_restart_less [OF ok r False] order.refl, of fuel] fuel by simp
  next
    case True
    have "rs ! ?r \<le> length es" using block_of_bounds(4) [OF ok r] .
    then have "ready c es rs it1 0" using it1(2) True by simp
    from ParseNextKey_pos [OF this] True fuel show ?thesis by (cases fuel) auto
  qed
  ultimately show ?thesis by (simp add: Iter_SeekToLast_def)
qed

lemma Iter_SeekToFirst_pos:
  assumes over: "iter_over c es rs it"
  shows "\<exists>it'. Iter_SeekToFirst it = Ret it' \<and> at_pos c es rs it' 0"
proof -
  have ok: "block_ok es rs" using over by (simp add: iter_over_def)
  have "0 < length rs" "rs ! 0 = 0" using ok by (auto simp: block_ok_def restarts_ok_def)
  with SeekToRestartPoint_ready [OF over this(1)] obtain it1 where
      it1: "SeekToRestartPoint 0 it = Ret it1" "ready c es rs it1 0"
    by auto
  from ParseNextKey_pos [OF it1(2)] it1(1) show ?thesis by (auto simp: Iter_SeekToFirst_def Iter_Next_def)
qed

section \<open>The contract of the iterator\<close>

text \<open>Keys in order, and an iterator over them.\<close>

definition sorted_keys :: "(slice \<Rightarrow> bool) \<Rightarrow> (slice \<Rightarrow> slice \<Rightarrow> bool) \<Rightarrow> (slice \<times> slice) list \<Rightarrow> bool" where
  "sorted_keys ok lt kvs \<longleftrightarrow> list_all (ok \<circ> fst) kvs \<and> sorted_wrt lt (map fst kvs)"

definition block_pos ::
    "Comparator \<Rightarrow> (slice \<Rightarrow> bool) \<Rightarrow> (slice \<Rightarrow> slice \<Rightarrow> bool) \<Rightarrow> Iter \<Rightarrow> (slice \<times> slice) list \<Rightarrow> nat \<Rightarrow> bool" where
  "block_pos c ok lt it kvs i \<longleftrightarrow> sorted_keys ok lt kvs \<and>
     (\<exists>es rs. map snd es = kvs \<and> at_pos c es rs it i)"

lemma at_pos_over: "at_pos c es rs it i \<Longrightarrow> iter_over c es rs it \<and> i \<le> length es"
  by (auto simp: at_pos_def at_entry_def at_end_def split: if_splits)

lemma at_pos_valid:
  assumes "at_pos c es rs it i"
  shows "Iter_Valid it \<longleftrightarrow> i < length es"
proof -
  have ok: "block_ok es rs" using at_pos_over [OF assms] by (simp add: iter_over_def)
  have "(of_nat (entry_off es i) :: u32) < of_nat (length (entries_bytes es))" if "i < length es"
    using of_nat_off_less [OF ok, of i "length es"] that by (simp add: entry_off_length)
  with assms show ?thesis
    by (auto simp: at_pos_def at_entry_def at_end_def iter_over_def Iter_Valid_def split: if_splits)
qed

lemma at_entry_value:
  assumes at: "at_entry c es rs it i"
  shows "Iter_value it = Ret (value_of (es ! i))"
proof -
  let ?e = "es ! i" and ?vl = "length (value_of (es ! i))"
  have over: "iter_over c es rs it" and i: "i < length es" and v: "it_value it = Some (entry_off es (Suc i) - ?vl, ?vl)"
    using at by (simp_all add: at_entry_def)
  have ok: "block_ok es rs" using over by (simp add: iter_over_def)
  let ?off = "entry_off es i + length (entry_head ?e) + length (drop (shared_of ?e) (key_of ?e))"
  have next_off: "entry_off es (Suc i) = ?off + ?vl" using entry_off_Suc [OF i] by (simp add: entry_bytes_def)
  then have "it_value it = Some (?off, ?vl)" using v by simp
  moreover have "drop ?off (block_of es rs) = value_of ?e @ drop (entry_off es (Suc i)) (block_of es rs)"
    using arg_cong [OF DecodeEntry_at(2) [OF ok i], of "drop (length (drop (shared_of ?e) (key_of ?e)))"]
    by (simp add: add.commute)
  moreover have "?off + ?vl \<le> length (block_of es rs)"
    using next_off block_of_bounds(5) [OF ok, of "Suc i"] i by (simp add: block_of_def)
  ultimately show ?thesis using over by (simp add: Iter_value_def iter_over_def)
qed

context key_comparator
begin

lemma below_iff:
  assumes "sorted_keys ok lt kvs" and "ok target" and "j < length kvs"
  shows "lt (fst (kvs ! j)) target \<longleftrightarrow> j < below lt target kvs"
  using assms
proof (induction kvs arbitrary: j)
  case (Cons kv kvs)
  have head: "lt (fst kv) k" "ok k" if "k \<in> fst ` set kvs" for k
    using Cons.prems(1) that by (auto simp: sorted_keys_def list_all_iff)
  have tail: "sorted_keys ok lt kvs" "ok (fst kv)" using Cons.prems(1) by (auto simp: sorted_keys_def)
  show ?case
  proof (cases j)
    case (Suc i)
    then have i: "i < length kvs" using Cons.prems(3) by simp
    then have "lt (fst (kvs ! i)) target \<Longrightarrow> lt (fst kv) target"
      using head [of "fst (kvs ! i)"] trans [OF tail(2) _ Cons.prems(2)] by simp
    then show ?thesis using Suc Cons.IH [OF tail(1) Cons.prems(2) i] by (auto simp: below_def)
  qed (simp add: below_def)
qed simp

lemma key_of_nth: "map snd es = kvs \<Longrightarrow> i < length es \<Longrightarrow> fst (kvs ! i) = key_of (es ! i)"
  by auto

lemma ok_nth: "sorted_keys ok lt kvs \<Longrightarrow> i < length kvs \<Longrightarrow> ok (fst (kvs ! i))"
  by (simp add: sorted_keys_def list_all_length)

lemma parse_to_target_pos:
  assumes kvs: "sorted_keys ok lt kvs" "map snd es = kvs" and target: "ok target"
  shows "ready C es rs it i \<Longrightarrow> i \<le> below lt target kvs \<Longrightarrow> length es - i < fuel \<Longrightarrow>
    \<exists>it'. parse_to_target fuel target it = Ret it' \<and> at_pos C es rs it' (below lt target kvs)"
proof (induction fuel arbitrary: it i)
  case (Suc fuel)
  have len: "length kvs = length es" using kvs(2) by auto
  obtain it1 where it1: "ParseNextKey it = Ret (i < length es, it1)" "at_pos C es rs it1 i"
    using ParseNextKey_pos [OF Suc.prems(1)] by blast
  show ?case
  proof (cases "i < length es")
    case False
    then have "below lt target kvs = i"
      using Suc.prems(2) below_le [of lt target kvs] len by simp
    with False it1 show ?thesis by simp
  next
    case True
    then have at: "at_entry C es rs it1 i" using it1(2) by (simp add: at_pos_def)
    have ki: "it_key it1 = fst (kvs ! i)" "it_comparator it1 = C"
      using at key_of_nth [OF kvs(2) True] by (simp_all add: at_entry_def iter_over_def)
    have oki: "ok (fst (kvs ! i))" using ok_nth [OF kvs(1)] True len by simp
    obtain r where r: "Iter_Compare it1 (it_key it1) target = Ret r" "r < 0 \<longleftrightarrow> lt (fst (kvs ! i)) target"
      using cmp [OF oki target] cmp_less [OF oki target] by (auto simp: Iter_Compare_def ki)
    have iff: "r < 0 \<longleftrightarrow> i < below lt target kvs" using r(2) below_iff [OF kvs(1) target] True len by simp
    show ?thesis
    proof (cases "r < 0")
      case True
      then have "Suc i \<le> below lt target kvs" using iff by simp
      moreover have "length es - Suc i < fuel" using Suc.prems(3) \<open>i < length es\<close> by simp
      ultimately show ?thesis
        using Suc.IH [OF at_entry_ready [OF at]] it1(1) \<open>i < length es\<close> r(1) True by simp
    next
      case False
      then have "below lt target kvs = i" using iff Suc.prems(2) by simp
      with False it1 \<open>i < length es\<close> r(1) show ?thesis by simp
    qed
  qed
qed simp

text \<open>The binary search over the restart points.\<close>

lemma search_restarts_pos:
  assumes kvs: "sorted_keys ok lt kvs" "map snd es = kvs" and target: "ok target" and over: "iter_over C es rs it"
  shows "l \<le> r \<Longrightarrow> r < length rs \<Longrightarrow> rs ! l \<le> below lt target kvs \<Longrightarrow> r - l \<le> fuel \<Longrightarrow>
    \<exists>m < length rs. search_restarts fuel target (of_nat l) (of_nat r) it = Ret (Some (of_nat m)) \<and>
      rs ! m \<le> below lt target kvs"
proof (induction fuel arbitrary: l r)
  case 0
  then show ?case by (auto simp: search_restarts.simps)
next
  case (Suc fuel)
  have ok: "block_ok es rs" using over by (simp add: iter_over_def)
  have len: "length kvs = length es" using kvs(2) by auto
  have n: "length rs < 2 ^ 30" using block_of_bounds(3) [OF ok] .
  have u: "unat (of_nat l :: u32) = l" "unat (of_nat r :: u32) = r" using Suc.prems(1,2) n by (auto intro!: unat_small)
  show ?case
  proof (cases "l < r")
    case False
    then have "\<not> (of_nat l :: u32) < of_nat r" by (simp add: word_less_nat_alt u)
    then have "search_restarts (Suc fuel) target (of_nat l) (of_nat r) it = Ret (Some (of_nat l))"
      by (simp add: search_restarts.simps)
    then show ?thesis using Suc.prems by (intro exI [of _ l]) simp
  next
    case True
    define m where "m = (l + r + 1) div 2"
    have m: "l < m" "m \<le> r" using True by (simp_all add: m_def)
    have um: "unat (of_nat m :: u32) = m" using m(2) Suc.prems(2) n by (intro unat_small) simp
    have mid: "(of_nat l + of_nat r + 1 :: u32) div 2 = of_nat m"
      using mid_of_nat [of l r] Suc.prems(1,2) n by (simp add: m_def)
    have less: "(of_nat l :: u32) < of_nat r" using True by (simp add: word_less_nat_alt u)
    have rm: "rs ! m < length es" and mlen: "m < length rs" and m0: "of_nat m - 1 = (of_nat (m - 1) :: u32)"
      using restart_pos [OF ok, of m] m Suc.prems(2) by (auto simp: of_nat_diff)
    note point = GetRestartPoint_at [OF over, of "of_nat m"]
    let ?e = "es ! (rs ! m)"
    have sh: "shared_of ?e = 0" using ok rm mlen by (simp add: block_ok_def restarts_ok_def)
    note dec = DecodeEntry_at [OF ok rm]
    have "length (key_of ?e) \<le> entry_off es (Suc (rs ! m))" using key_length_off [of es "rs ! m"] rm ok by (simp add: block_ok_def)
    then have "length (key_of ?e) < 2 ^ 32" using block_of_bounds(5) [OF ok, of "Suc (rs ! m)"] block_of_bounds(1) [OF ok] rm by simp
    then have klen: "unat (of_nat (length (key_of ?e)) :: u32) = length (key_of ?e)" by (rule unat_small)
    have off: "unat (of_nat (entry_off es (rs ! m)) :: u32) = entry_off es (rs ! m)" using unat_off [OF ok] rm by simp
    have piece: "take (length (key_of ?e)) (drop (entry_off es (rs ! m) + length (entry_head ?e)) (it_data it)) =
        fst (kvs ! (rs ! m))"
      using dec(2) sh over key_of_nth [OF kvs(2) rm] by (simp add: iter_over_def)
    have inside: "\<not> length (it_data it) < entry_off es (rs ! m) + length (entry_head ?e) + length (key_of ?e)"
      using over entry_off_Suc [OF rm] block_of_bounds(5) [OF ok, of "Suc (rs ! m)"] rm sh
      by (simp add: iter_over_def block_of_def entry_bytes_def)
    have okm: "ok (fst (kvs ! (rs ! m)))" using ok_nth [OF kvs(1)] rm len by simp
    obtain d where d: "Compare C (fst (kvs ! (rs ! m))) target = Ret d" "d < 0 \<longleftrightarrow> rs ! m < below lt target kvs"
      using cmp [OF okm target] cmp_less [OF okm target] below_iff [OF kvs(1) target, of "rs ! m"] rm len by auto
    have step: "search_restarts (Suc fuel) target (of_nat l) (of_nat r) it =
        (if d < 0 then search_restarts fuel target (of_nat m) (of_nat r) it
         else search_restarts fuel target (of_nat l) (of_nat (m - 1)) it)"
    proof -
      have "DecodeEntry (it_data it) (entry_off es (rs ! m)) (unat (it_restarts it)) =
          Ret (Some (0, of_nat (length (key_of ?e)), of_nat (length (value_of ?e)),
            entry_off es (rs ! m) + length (entry_head ?e)))"
        using dec(1) over unat_limit [OF ok] sh by (simp add: iter_over_def)
      moreover have "it_comparator it = C" using over by (simp add: iter_over_def)
      ultimately show ?thesis
        using less point um mlen off klen inside piece d(1) mid m0
        by (simp add: search_restarts.simps [of "Suc fuel"] Let_def Iter_Compare_def)
    qed
    show ?thesis
    proof (cases "d < 0")
      case True
      then show ?thesis using Suc.IH [of m r] step m d(2) Suc.prems by simp
    next
      case False
      then show ?thesis using Suc.IH [of l "m - 1"] step m Suc.prems by simp
    qed
  qed
qed

lemma Iter_Seek_pos:
  assumes kvs: "sorted_keys ok lt kvs" "map snd es = kvs" and target: "ok target" and over: "iter_over C es rs it"
    and fuel: "length es < fuel" "length rs \<le> fuel"
  shows "\<exists>it'. Iter_Seek fuel target it = Ret it' \<and> at_pos C es rs it' (below lt target kvs)"
proof -
  have ok: "block_ok es rs" using over by (simp add: iter_over_def)
  have n: "it_num_restarts it - 1 = of_nat (length rs - 1)" "length rs - 1 < length rs" "rs ! 0 = 0"
    using over ok by (cases rs; simp add: iter_over_def block_ok_def restarts_ok_def)+
  obtain m where m: "m < length rs" "rs ! m \<le> below lt target kvs"
      "search_restarts fuel target 0 (it_num_restarts it - 1) it = Ret (Some (of_nat m))"
    using search_restarts_pos [OF kvs target over, of 0 "length rs - 1" fuel] n fuel(2) by auto
  obtain it1 where it1: "SeekToRestartPoint (of_nat m) it = Ret it1" "ready C es rs it1 (rs ! m)"
    using SeekToRestartPoint_ready [OF over m(1)] by blast
  have "length es - rs ! m < fuel" using fuel(1) by simp
  from parse_to_target_pos [OF kvs target it1(2) m(2) this] m(3) it1(1) show ?thesis
    by (simp add: Iter_Seek_def)
qed

end

lemma parse_fuel_enough:
  assumes "iter_over c es rs it"
  shows "length es < parse_fuel it" and "length rs \<le> parse_fuel it"
proof -
  have "block_ok es rs" "it_data it = block_of es rs" using assms by (simp_all add: iter_over_def)
  then show "length es < parse_fuel it" "length rs \<le> parse_fuel it"
    using block_of_bounds(7) [of es rs] by (simp_all add: parse_fuel_def block_of_def length_restarts_bytes)
qed

text \<open>For every comparator the iterator of a block is a cursor in the entries.\<close>

sublocale key_comparator \<subseteq> block: iterator BlockIter ok lt "block_pos C ok lt"
proof unfold_locales
  fix s kvs i
  assume "block_pos C ok lt s kvs i"
  then obtain es rs where kvs: "sorted_keys ok lt kvs" "map snd es = kvs" and at: "at_pos C es rs s i"
    by (auto simp: block_pos_def)
  then have over: "iter_over C es rs s" and len: "length es = length kvs" using at_pos_over [OF at] by auto
  note fuel = parse_fuel_enough [OF over]
  have intro: "block_pos C ok lt s' kvs j" if "at_pos C es rs s' j" for s' j
    using kvs that by (auto simp: block_pos_def)
  show "i \<le> length kvs" using at_pos_over [OF at] len by simp
  show "Valid BlockIter s \<longleftrightarrow> i < length kvs" using at_pos_valid [OF at] len by (simp add: BlockIter_def)
  show "istatus BlockIter s = Ret OK" using over by (simp add: BlockIter_def Iter_status_def iter_over_def)
  show "\<exists>s'. SeekToFirst BlockIter s = Ret s' \<and> block_pos C ok lt s' kvs 0"
    using Iter_SeekToFirst_pos [OF over] intro by (auto simp: BlockIter_def)
  show "\<exists>s'. SeekToLast BlockIter s = Ret s' \<and> block_pos C ok lt s' kvs (length kvs - 1)"
    using Iter_SeekToLast_pos [OF over fuel(1)] intro len by (auto simp: BlockIter_def)
  show "\<exists>s'. Seek BlockIter target s = Ret s' \<and> block_pos C ok lt s' kvs (below lt target kvs)" if "ok target" for target
    using Iter_Seek_pos [OF kvs that over fuel] intro by (auto simp: BlockIter_def)
  assume i: "i < length kvs"
  then have entry: "at_entry C es rs s i" using at len by (simp add: at_pos_def)
  show "ikey BlockIter s = Ret (fst (kvs ! i)) \<and> ivalue BlockIter s = Ret (snd (kvs ! i))"
  proof -
    have "map snd es ! i = snd (es ! i)" using i len by simp
    then have "kvs ! i = snd (es ! i)" unfolding kvs(2) .
    then show ?thesis using entry at_entry_value [OF entry] by (simp add: BlockIter_def Iter_key_def at_entry_def)
  qed
  show "\<exists>s'. Next BlockIter s = Ret s' \<and> block_pos C ok lt s' kvs (Suc i)"
    using ParseNextKey_pos [OF at_entry_ready [OF entry]] intro by (auto simp: BlockIter_def Iter_Next_def)
  show "\<exists>s'. Prev BlockIter s = Ret s' \<and> block_pos C ok lt s' kvs (if i = 0 then length kvs else i - 1)"
    using Iter_Prev_pos [OF entry fuel(1)] intro len by (auto simp: BlockIter_def)
qed

sublocale key_comparator \<subseteq> blocks: iterator_pair EmptyIterator BlockIter ok lt
    "\<lambda>s kvs i. s = NewEmptyIterator \<and> kvs = [] \<and> i = 0" "block_pos C ok lt"
  by unfold_locales

section \<open>Building and reading a block\<close>

definition build_block :: "int \<Rightarrow> (slice \<times> slice) list \<Rightarrow> slice" where
  "build_block interval kvs =
     fst (BlockBuilder_Finish (fold (\<lambda>(k, v). BlockBuilder_Add k v) kvs (new_BlockBuilder interval)))"

definition read_block :: "Comparator \<Rightarrow> BlockContents \<Rightarrow> BlockIterator res" where
  "read_block c contents = res_bind (new_Block contents) (Block_NewIterator c)"

lemma fold_Add_holds:
  "builder_holds es rs this \<Longrightarrow>
   \<exists>es' rs'. builder_holds (es @ es') rs' (fold (\<lambda>(k, v). BlockBuilder_Add k v) kvs this) \<and> map snd es' = kvs"
proof (induction kvs arbitrary: es rs this)
  case (Cons kv kvs)
  obtain k v where kv: "kv = (k, v)" by force
  obtain s rs1 where 1: "builder_holds (es @ [(s, k, v)]) rs1 (BlockBuilder_Add k v this)"
    using Add_holds [OF Cons.prems] by blast
  from Cons.IH [OF 1] obtain es' rs' where
      "builder_holds ((es @ [(s, k, v)]) @ es') rs' (fold (\<lambda>(k, v). BlockBuilder_Add k v) kvs (BlockBuilder_Add k v this))"
      "map snd es' = kvs"
    by blast
  then show ?case using kv by (intro exI [of _ "(s, k, v) # es'"] exI [of _ rs']) simp
qed auto

lemma build_block_of:
  assumes "1 \<le> interval"
  shows "\<exists>es rs. build_block interval kvs = block_of es rs \<and> map snd es = kvs \<and> entries_ok es \<and> restarts_ok es rs"
proof -
  obtain es rs where h: "builder_holds es rs (fold (\<lambda>(k, v). BlockBuilder_Add k v) kvs (new_BlockBuilder interval))"
      and es: "map snd es = kvs"
    using fold_Add_holds [OF new_builder_holds [OF assms], of kvs] by auto
  have "build_block interval kvs = block_of es rs" using Finish_block_of [OF h] by (simp add: build_block_def)
  moreover have "entries_ok es" "restarts_ok es rs" using h by (simp_all add: builder_holds_def)
  ultimately show ?thesis using es by blast
qed

context key_comparator
begin

lemma read_block_built:
  assumes "1 \<le> interval" and "sorted_keys ok lt kvs" and "length (build_block interval kvs) < 2 ^ 32"
    and "block_data contents = build_block interval kvs"
  shows "\<exists>it. read_block C contents = Ret (Inr it) \<and> block_pos C ok lt it kvs (length kvs)"
proof -
  obtain es rs where b: "build_block interval kvs = block_of es rs" "map snd es = kvs" "entries_ok es" "restarts_ok es rs"
    using build_block_of [OF assms(1)] by blast
  have ok: "block_ok es rs" using b assms(3) by (simp add: block_ok_def)
  have num: "(of_nat (length rs) :: u32) \<noteq> 0" using unat_num [OF ok] block_of_bounds(2) [OF ok] by (metis length_0_conv unat_0)
  let ?it = "new_Iter C (block_of es rs) (of_nat (length (entries_bytes es))) (of_nat (length rs))"
  have "at_pos C es rs ?it (length es)"
    using ok by (simp add: at_pos_def at_end_def iter_over_def new_Iter_def)
  moreover have "length es = length kvs" using b(2) by auto
  ultimately have "block_pos C ok lt ?it kvs (length kvs)" using assms(2) b(2) by (auto simp: block_pos_def)
  moreover have "read_block C contents = Ret (Inr ?it)"
    using new_Block_block_of [OF ok] NumRestarts_block_of [where es = es and rs = rs] assms(4) b(1) num
    by (simp add: read_block_def Block_NewIterator_def block_of_def)
  ultimately show ?thesis by blast
qed

lemma read_built_block:
  assumes "1 \<le> interval" and "sorted_keys ok lt kvs" and "length (build_block interval kvs) < 2 ^ 32"
    and "block_data contents = build_block interval kvs" and "length kvs < fuel" and "ok target"
  shows "\<exists>it. read_block C contents = Ret (Inr it) \<and>
    res_bind (SeekToFirst BlockIter it) (collect fuel BlockIter (Next BlockIter)) = Ret kvs \<and>
    res_bind (SeekToLast BlockIter it) (collect fuel BlockIter (Prev BlockIter)) = Ret (rev kvs) \<and>
    res_bind (Seek BlockIter target it) (collect fuel BlockIter (Next BlockIter)) =
      Ret (drop (below lt target kvs) kvs)"
proof -
  obtain it where it: "read_block C contents = Ret (Inr it)" "block_pos C ok lt it kvs (length kvs)"
    using read_block_built [OF assms(1-4)] by blast
  then show ?thesis
    using block.first_collects [OF it(2) assms(5)] block.last_collects [OF it(2) assms(5)]
      block.seek_collects [OF it(2) assms(6,5)] by auto
qed

end

text \<open>C32: a block round trips: from strictly increasing keys the builder makes a block over which the iterator
  reads exactly the entries, forwards and backwards, and from a target on those whose key is not below it,
  for every restart interval and whether or not keys share prefixes. The fuel of the iterator is enough.\<close>

theorem Block_round_trip:
  assumes "1 \<le> interval" and "sorted_wrt (<) (map fst kvs)" and "length (build_block interval kvs) < 2 ^ 32"
    and "block_data contents = build_block interval kvs" and "length kvs < fuel"
  shows "\<exists>it. read_block BytewiseComparator contents = Ret (Inr it) \<and>
    res_bind (SeekToFirst BlockIter it) (collect fuel BlockIter (Next BlockIter)) = Ret kvs \<and>
    res_bind (SeekToLast BlockIter it) (collect fuel BlockIter (Prev BlockIter)) = Ret (rev kvs) \<and>
    res_bind (Seek BlockIter target it) (collect fuel BlockIter (Next BlockIter)) =
      Ret (dropWhile (\<lambda>(k, v). k < target) kvs)"
proof -
  have "sorted_keys (\<lambda>_. True) (<) kvs" using assms(2) by (simp add: sorted_keys_def list_all_iff)
  moreover have "drop (below (<) target kvs) kvs = dropWhile (\<lambda>(k, v). k < target) kvs"
    by (simp add: below_def dropWhile_eq_drop case_prod_beta')
  ultimately show ?thesis
    using bytewise.read_built_block [OF assms(1) _ assms(3-5) TrueI, of target] by simp
qed

theorem Block_round_trip_witness:
  "\<exists>it. read_block BytewiseComparator
      \<lparr> block_data = build_block 2 [([1], [5]), ([1, 2], []), ([1, 2, 3], [6])], cachable = True, heap_allocated = True \<rparr> =
      Ret (Inr it) \<and>
    res_bind (Seek BlockIter [1, 2] it) (collect 4 BlockIter (Next BlockIter)) = Ret [([1, 2], []), ([1, 2, 3], [6])]"
  using Block_round_trip [of 2 "[([1], [5]), ([1, 2], []), ([1, 2, 3], [6])]"
      "\<lparr> block_data = build_block 2 [([1], [5]), ([1, 2], []), ([1, 2, 3], [6])], cachable = True, heap_allocated = True \<rparr>"
      4 "[1, 2]"]
  by (auto simp: build_block_def BlockBuilder_Finish_def BlockBuilder_Add_def new_BlockBuilder_def PutVarint32_def
      EncodeVarint32_def PutFixed32_def resize_def Let_def)

end
