(* ===== verification/LdbBlockSafe.thy ===== *)
theory LdbBlockSafe
  imports LdbBlockSpec
begin

text \<open>
  Blocks with arbitrary contents, as they come from a damaged file. The steps of an iterator are a relation;
  an invariant of the reachable states shows that every call returns, without an access outside the
  contents, unless an entry announces lengths whose sum wraps. For such an entry the check of \<open>DecodeEntry\<close>
  passes and the iterator reads behind the block.
\<close>

section \<open>Decoding arbitrary bytes\<close>

text \<open>The lengths of an entry that was accepted fit into 32 bits together.\<close>

definition no_overflow :: "slice \<Rightarrow> bool" where
  "no_overflow data \<longleftrightarrow> (\<forall>p limit s ns vl q. DecodeEntry data p limit = Ret (Some (s, ns, vl, q)) \<longrightarrow>
     unat ns + unat vl < 2 ^ 32)"

lemma GetVarint32Ptr_shorter: "GetVarint32Ptr p = Some (v, q) \<Longrightarrow> length q < length p"
  using varint_ptr_loop_consumes [of 28 0 0 p v q] by (auto simp: GetVarint32Ptr_loop)

lemma DecodeEntry_total:
  assumes "limit \<le> length data"
  shows "\<exists>entry. DecodeEntry data p limit = Ret entry"
  using assms by (auto simp: DecodeEntry_def Let_def split: option.splits)

lemma accepted_length:
  assumes "\<not> (of_nat (length rest) :: u32) < ns + vl" and "length rest < 2 ^ 32" and "unat ns + unat vl < 2 ^ 32"
  shows "unat ns + unat vl \<le> length rest"
proof -
  have "unat (ns + vl) = unat ns + unat vl" using assms(3) by (simp add: unat_word_ariths)
  moreover have "unat (of_nat (length rest) :: u32) = length rest"
    using assms(2) by (simp add: unat_of_nat take_bit_nat_eq_self)
  ultimately show ?thesis using assms(1) by (simp add: word_less_nat_alt)
qed

text \<open>What is accepted lies in front of the limit.\<close>

lemma decode_head_shorter: "decode_head view = Some (s, ns, vl, rest) \<Longrightarrow> length rest + 3 \<le> length view"
  by (auto simp: decode_head_def dest!: GetVarint32Ptr_shorter split: option.splits)

lemma DecodeEntry_inside:
  assumes dec: "DecodeEntry data p limit = Ret (Some (s, ns, vl, q))"
    and "limit \<le> length data" "length data < 2 ^ 32" and "no_overflow data"
  shows "p + 3 \<le> q \<and> q + unat ns + unat vl \<le> limit"
proof -
  have sum: "unat ns + unat vl < 2 ^ 32" using assms(4) dec unfolding no_overflow_def by blast
  obtain rest where rest: "decode_head (take (limit - p) (drop p data)) = Some (s, ns, vl, rest)"
      "\<not> (of_nat (length rest) :: u32) < ns + vl" "q = limit - length rest" "p + 3 \<le> limit"
    using dec by (auto simp: DecodeEntry_head [OF assms(2)] split: if_splits option.splits)
  have len: "length rest + 3 \<le> limit - p" using decode_head_shorter [OF rest(1)] by simp
  then have "unat ns + unat vl \<le> length rest"
    using accepted_length [OF rest(2) _ sum] assms(2,3) by linarith
  then show ?thesis using rest(3,4) len by linarith
qed

section \<open>An invariant of the iterator\<close>

definition iter_inv :: "Iter \<Rightarrow> bool" where
  "iter_inv it \<longleftrightarrow> unat (it_restarts it) + 4 * unat (it_num_restarts it) \<le> length (it_data it) \<and>
     length (it_data it) < 2 ^ 32 \<and> it_num_restarts it \<noteq> 0 \<and> no_overflow (it_data it) \<and>
     (\<forall>a b. \<exists>r. Compare (it_comparator it) a b = Ret r)"

text \<open>The next entry can be parsed; and the entry that was parsed last lies in the block.\<close>

definition parsed :: "Iter \<Rightarrow> bool" where
  "parsed it \<longleftrightarrow> it_restart_index it < it_num_restarts it \<and>
     (\<exists>off len. it_value it = Some (off, len) \<and> off + len < 2 ^ 32)"

definition value_inside :: "Iter \<Rightarrow> bool" where
  "value_inside it \<longleftrightarrow> (\<exists>off len. it_value it = Some (off, len) \<and> off + len \<le> unat (it_restarts it))"

definition iter_safe :: "Iter \<Rightarrow> bool" where
  "iter_safe it \<longleftrightarrow> iter_inv it \<and> (Iter_Valid it \<longrightarrow> parsed it \<and> value_inside it)"

text \<open>How far the next entry is from the limit.\<close>

definition rest_of :: "Iter \<Rightarrow> nat" where
  "rest_of it = (case it_value it of None \<Rightarrow> 0 | Some (off, len) \<Rightarrow> unat (it_restarts it) - (off + len))"

lemma rest_of_le: "iter_inv it \<Longrightarrow> rest_of it \<le> length (it_data it)"
  by (auto simp: rest_of_def iter_inv_def split: option.splits)

lemma GetRestartPoint_total:
  assumes "iter_inv it" "index < it_num_restarts it"
  shows "\<exists>point. GetRestartPoint it index = Ret point"
proof -
  have "unat (it_restarts it) + unat index * 4 + 4 \<le> length (it_data it)"
    using assms by (simp add: iter_inv_def word_less_nat_alt)
  then show ?thesis unfolding GetRestartPoint_def by (intro DecodeFixed32_total) simp
qed

lemma advance_total:
  assumes "iter_inv it" "it_restart_index it < it_num_restarts it"
  shows "\<exists>ri. advance_restart_index it = Ret (it \<lparr> it_restart_index := ri \<rparr>) \<and> ri < it_num_restarts it"
  using assms
proof (induction it rule: advance_restart_index.induct)
  case (1 it)
  let ?next = "it_restart_index it + 1"
  show ?case
  proof (cases "?next < it_num_restarts it")
    case True
    obtain point where point: "GetRestartPoint it ?next = Ret point" using GetRestartPoint_total [OF 1(2) True] by blast
    show ?thesis
    proof (cases "point < it_current it")
      case less: True
      have "iter_inv (it \<lparr> it_restart_index := ?next \<rparr>)" using 1(2) by (simp add: iter_inv_def)
      then show ?thesis
        using 1(1) [OF True point less] True less point by (simp add: advance_restart_index.simps [of it])
    next
      case False
      then show ?thesis
        using True point 1(3) by (simp add: advance_restart_index.simps [of it]) (intro exI [of _ "it_restart_index it"], simp)
    qed
  next
    case False
    then show ?thesis
      using 1(3) by (simp add: advance_restart_index.simps [of it]) (intro exI [of _ "it_restart_index it"], simp)
  qed
qed

text \<open>Parsing never faults; a successful parse comes closer to the limit.\<close>

lemma ParseNextKey_safe:
  assumes inv: "iter_inv it" and par: "parsed it"
  shows "\<exists>ok it'. ParseNextKey it = Ret (ok, it') \<and> iter_safe it' \<and> it_data it' = it_data it \<and>
    it_restarts it' = it_restarts it \<and> it_num_restarts it' = it_num_restarts it \<and>
    (ok \<longrightarrow> parsed it' \<and> rest_of it' < rest_of it)"
proof -
  obtain off len where v: "it_value it = Some (off, len)" "off + len < 2 ^ 32"
    using par by (auto simp: parsed_def)
  have ri: "it_restart_index it < it_num_restarts it" using par by (simp add: parsed_def)
  have next_off: "NextEntryOffset it = Ret (of_nat (off + len))" "unat (of_nat (off + len) :: u32) = off + len"
    using v by (simp_all add: NextEntryOffset_def unat_of_nat take_bit_nat_eq_self del: of_nat_add)
  let ?limit = "unat (it_restarts it)" and ?it1 = "it \<lparr> it_current := of_nat (off + len) \<rparr>"
  have lim: "?limit \<le> length (it_data it)" "length (it_data it) < 2 ^ 32" "no_overflow (it_data it)"
    using inv by (simp_all add: iter_inv_def)
  have ended: "iter_safe (Iter_end it')" "iter_safe (CorruptionError it')" if "iter_inv it'" for it'
    using that by (simp_all add: iter_safe_def iter_inv_def Iter_end_def CorruptionError_def Iter_Valid_def)
  have inv1: "iter_inv ?it1" using inv by (simp add: iter_inv_def)
  show ?thesis
  proof (cases "?limit \<le> off + len")
    case True
    then have "ParseNextKey it = Ret (False, Iter_end ?it1)"
      using next_off by (simp add: ParseNextKey_def Let_def del: of_nat_add)
    then show ?thesis using ended(1) [OF inv1] by (intro exI [of _ False]) (simp add: Iter_end_def)
  next
    case False
    obtain entry where entry: "DecodeEntry (it_data it) (off + len) ?limit = Ret entry"
      using DecodeEntry_total [OF lim(1)] by blast
    show ?thesis
    proof (cases "case entry of None \<Rightarrow> True | Some (s, _, _, _) \<Rightarrow> length (it_key it) < unat s")
      case True
      then have "ParseNextKey it = Ret (False, CorruptionError ?it1)"
        using next_off False entry by (cases entry) (auto simp: ParseNextKey_def Let_def simp del: of_nat_add)
      then show ?thesis
        using ended(2) [OF inv1] by (intro exI [of _ False]) (simp add: CorruptionError_def Iter_end_def)
    next
      case no_error: False
      then obtain s ns vl q where e: "entry = Some (s, ns, vl, q)" "\<not> length (it_key it) < unat s"
        by (cases entry) auto
      have q: "off + len + 3 \<le> q" "q + unat ns + unat vl \<le> ?limit"
        using DecodeEntry_inside [OF _ lim] entry e(1) by auto
      let ?it2 = "?it1 \<lparr> it_key := take (unat s) (it_key it) @ take (unat ns) (drop q (it_data it)),
          it_value := Some (q + unat ns, unat vl) \<rparr>"
      have "iter_inv ?it2" "it_restart_index ?it2 < it_num_restarts ?it2" using inv ri by (simp_all add: iter_inv_def)
      from advance_total [OF this] obtain r where
          r: "advance_restart_index ?it2 = Ret (?it2 \<lparr> it_restart_index := r \<rparr>)" "r < it_num_restarts it"
        by auto
      have "ParseNextKey it = Ret (True, ?it2 \<lparr> it_restart_index := r \<rparr>)"
        using next_off False entry e q lim(1) r(1) by (simp add: ParseNextKey_def Let_def del: of_nat_add)
      moreover have "parsed (?it2 \<lparr> it_restart_index := r \<rparr>)" "value_inside (?it2 \<lparr> it_restart_index := r \<rparr>)"
        using r(2) q lim by (simp_all add: parsed_def value_inside_def)
      moreover have "rest_of (?it2 \<lparr> it_restart_index := r \<rparr>) < rest_of it"
        using q v False by (simp add: rest_of_def)
      moreover have "iter_inv (?it2 \<lparr> it_restart_index := r \<rparr>)" using inv by (simp add: iter_inv_def)
      ultimately show ?thesis by (intro exI [of _ True]) (simp add: iter_safe_def)
    qed
  qed
qed

section \<open>Every call returns\<close>

lemma NextEntryOffset_parsed: "parsed it \<Longrightarrow> \<exists>offset. NextEntryOffset it = Ret offset"
  by (auto simp: parsed_def NextEntryOffset_def)

lemma parse_up_to_safe:
  "iter_inv it \<Longrightarrow> parsed it \<Longrightarrow> rest_of it < fuel \<Longrightarrow>
   \<exists>it'. parse_up_to fuel bound it = Ret it' \<and> iter_safe it' \<and> it_data it' = it_data it"
proof (induction fuel arbitrary: it)
  case (Suc fuel)
  obtain ok it1 where 1: "ParseNextKey it = Ret (ok, it1)" "iter_safe it1" "it_data it1 = it_data it"
      "ok \<Longrightarrow> parsed it1 \<and> rest_of it1 < rest_of it"
    using ParseNextKey_safe [OF Suc.prems(1,2)] by blast
  show ?case
  proof (cases ok)
    case True
    then obtain offset where "NextEntryOffset it1 = Ret offset" using 1(4) NextEntryOffset_parsed by blast
    then show ?thesis
      using Suc.IH [of it1] Suc.prems(3) 1 True by (cases "offset < bound") (auto simp: iter_safe_def)
  qed (use 1 in simp)
qed simp

lemma parse_to_target_safe:
  "iter_inv it \<Longrightarrow> parsed it \<Longrightarrow> rest_of it < fuel \<Longrightarrow>
   \<exists>it'. parse_to_target fuel target it = Ret it' \<and> iter_safe it' \<and> it_data it' = it_data it"
proof (induction fuel arbitrary: it)
  case (Suc fuel)
  obtain ok it1 where 1: "ParseNextKey it = Ret (ok, it1)" "iter_safe it1" "it_data it1 = it_data it"
      "ok \<Longrightarrow> parsed it1 \<and> rest_of it1 < rest_of it"
    using ParseNextKey_safe [OF Suc.prems(1,2)] by blast
  have inv: "iter_inv it1" using 1(2) by (simp add: iter_safe_def)
  then obtain r where "Iter_Compare it1 (it_key it1) target = Ret r" by (auto simp: iter_inv_def Iter_Compare_def)
  then show ?case
    using Suc.IH [OF inv] Suc.prems(3) 1 by (cases ok; cases "0 \<le> r") auto
qed simp

lemma SeekToRestartPoint_safe:
  assumes "iter_inv it" "index < it_num_restarts it"
  shows "\<exists>it'. SeekToRestartPoint index it = Ret it' \<and> iter_inv it' \<and> parsed it' \<and> it_data it' = it_data it \<and>
    rest_of it' \<le> length (it_data it)"
proof -
  have inv: "iter_inv (it \<lparr> it_key := [], it_restart_index := index \<rparr>)" using assms(1) by (simp add: iter_inv_def)
  obtain point where p: "GetRestartPoint (it \<lparr> it_key := [], it_restart_index := index \<rparr>) index = Ret point"
    using GetRestartPoint_total [OF inv] assms(2) by auto
  let ?it = "it \<lparr> it_key := [], it_restart_index := index, it_value := Some (unat point, 0) \<rparr>"
  have "iter_inv ?it" "parsed ?it" using assms unat_u32_less [of point] by (simp_all add: iter_inv_def parsed_def)
  with p rest_of_le [of ?it] show ?thesis by (simp add: SeekToRestartPoint_def Let_def)
qed

lemma restart_before_total:
  "iter_inv it \<Longrightarrow> it_restart_index it < it_num_restarts it \<Longrightarrow>
   \<exists>found. restart_before original it = Ret found \<and>
     (\<forall>it'. found = Some it' \<longrightarrow> iter_inv it' \<and> it_restart_index it' < it_num_restarts it' \<and> it_data it' = it_data it)"
proof (induction original it rule: restart_before.induct)
  case (1 original it)
  obtain point where point: "GetRestartPoint it (it_restart_index it) = Ret point"
    using GetRestartPoint_total [OF 1(2,3)] by blast
  show ?case
  proof (cases "original \<le> point \<and> it_restart_index it \<noteq> 0")
    case False
    then show ?thesis using point 1(2,3) by (auto simp: restart_before.simps [of original it])
  next
    case True
    let ?it = "it \<lparr> it_restart_index := it_restart_index it - 1 \<rparr>"
    have "it_restart_index it - 1 < it_num_restarts it"
      using True 1(3) by (simp add: word_less_nat_alt unat_minus_one)
    then show ?thesis
      using 1(1) [OF point] True point 1(2) by (simp add: restart_before.simps [of original it] iter_inv_def)
  qed
qed

lemma search_restarts_safe:
  assumes inv: "iter_inv it"
  shows "l \<le> r \<Longrightarrow> r < unat (it_num_restarts it) \<Longrightarrow> r - l \<le> fuel \<Longrightarrow>
    \<exists>found. search_restarts fuel target (of_nat l) (of_nat r) it = Ret found \<and>
      (\<forall>m. found = Some m \<longrightarrow> m < it_num_restarts it)"
proof (induction fuel arbitrary: l r)
  case 0
  then show ?case
    using unat_u32_less [of "it_num_restarts it"] by (auto simp: search_restarts.simps word_less_nat_alt unat_small)
next
  case (Suc fuel)
  have n: "unat (it_num_restarts it) < 2 ^ 30" using inv by (simp add: iter_inv_def)
  have u: "unat (of_nat l :: u32) = l" "unat (of_nat r :: u32) = r" using Suc.prems(1,2) n by (auto intro!: unat_small)
  show ?case
  proof (cases "l < r")
    case False
    then show ?thesis using Suc.prems u by (auto simp: search_restarts.simps word_less_nat_alt)
  next
    case True
    define m where "m = (l + r + 1) div 2"
    have m: "l < m" "m \<le> r" using True by (simp_all add: m_def)
    have mid: "(of_nat l + of_nat r + 1 :: u32) div 2 = of_nat m"
      using mid_of_nat [of l r] Suc.prems(1,2) n by (simp add: m_def)
    have mn: "of_nat m < it_num_restarts it" and um: "unat (of_nat m :: u32) = m"
      using m(2) Suc.prems(2) n by (auto simp: word_less_nat_alt unat_small)
    obtain point where point: "GetRestartPoint it (of_nat m) = Ret point" using GetRestartPoint_total [OF inv mn] by blast
    have lim: "unat (it_restarts it) \<le> length (it_data it)" "length (it_data it) < 2 ^ 32" "no_overflow (it_data it)"
      using inv by (simp_all add: iter_inv_def)
    obtain entry where entry: "DecodeEntry (it_data it) (unat point) (unat (it_restarts it)) = Ret entry"
      using DecodeEntry_total [OF lim(1)] by blast
    have less: "(of_nat l :: u32) < of_nat r" using True by (simp add: word_less_nat_alt u)
    have m0: "of_nat m - 1 = (of_nat (m - 1) :: u32)" using m(1) by (simp add: of_nat_diff)
    show ?thesis
    proof (cases "case entry of None \<Rightarrow> True | Some (s, _, _, _) \<Rightarrow> s \<noteq> 0")
      case True
      then show ?thesis using less mid point entry
        by (cases entry) (auto simp: search_restarts.simps [of "Suc fuel"] Let_def)
    next
      case False
      then obtain ns vl q where e: "entry = Some (0, ns, vl, q)" by (cases entry) auto
      have q: "\<not> length (it_data it) < q + unat ns" using DecodeEntry_inside [OF entry [unfolded e] lim] lim(1) by simp
      obtain d where d: "Iter_Compare it (take (unat ns) (drop q (it_data it))) target = Ret d"
        using inv by (auto simp: iter_inv_def Iter_Compare_def)
      have step: "search_restarts (Suc fuel) target (of_nat l) (of_nat r) it =
          (if d < 0 then search_restarts fuel target (of_nat m) (of_nat r) it
           else search_restarts fuel target (of_nat l) (of_nat (m - 1)) it)"
        using less mid point entry e q d m0 by (simp add: search_restarts.simps [of "Suc fuel"] Let_def)
      then show ?thesis
        using Suc.IH [of m r] Suc.IH [of l "m - 1"] m Suc.prems by (cases "d < 0") simp_all
    qed
  qed
qed

section \<open>The steps of an iterator\<close>

text \<open>A client calls \<open>Next\<close> and \<open>Prev\<close> only when the iterator is valid.\<close>

inductive block_step :: "Iter \<Rightarrow> Iter \<Rightarrow> bool" where
  first: "SeekToFirst BlockIter it = Ret it' \<Longrightarrow> block_step it it'"
| last: "SeekToLast BlockIter it = Ret it' \<Longrightarrow> block_step it it'"
| seek: "Seek BlockIter target it = Ret it' \<Longrightarrow> block_step it it'"
| forward: "Valid BlockIter it \<Longrightarrow> Next BlockIter it = Ret it' \<Longrightarrow> block_step it it'"
| backward: "Valid BlockIter it \<Longrightarrow> Prev BlockIter it = Ret it' \<Longrightarrow> block_step it it'"

inductive_cases block_stepE: "block_step it it'"

text \<open>Every call returns in a safe state.\<close>

definition returns_safe :: "Iter res \<Rightarrow> bool" where
  "returns_safe r \<longleftrightarrow> (\<exists>it'. r = Ret it' \<and> iter_safe it')"

lemma calls_safe:
  assumes "iter_safe it"
  shows "returns_safe (SeekToFirst BlockIter it)" "returns_safe (SeekToLast BlockIter it)"
    "returns_safe (Seek BlockIter target it)"
    "Valid BlockIter it \<Longrightarrow> returns_safe (Next BlockIter it)" "Valid BlockIter it \<Longrightarrow> returns_safe (Prev BlockIter it)"
    "Valid BlockIter it \<Longrightarrow> \<exists>v. ivalue BlockIter it = Ret v"
proof -
  have inv: "iter_inv it" using assms by (simp add: iter_safe_def)
  have n: "it_num_restarts it \<noteq> 0" using inv by (simp add: iter_inv_def)
  then have zero: "0 < it_num_restarts it" by (simp add: word_neq_0_conv)
  have um: "unat (it_num_restarts it - 1) = unat (it_num_restarts it) - 1" using n by (rule unat_minus_one)
  then have top: "it_num_restarts it - 1 < it_num_restarts it"
    using zero by (simp add: word_less_nat_alt)
  have fuel: "rest_of it1 < parse_fuel it" if "rest_of it1 \<le> length (it_data it)" for it1
    using that by (simp add: parse_fuel_def)
  obtain it1 where it1: "SeekToRestartPoint 0 it = Ret it1" "iter_inv it1" "parsed it1"
    using SeekToRestartPoint_safe [OF inv zero] by blast
  then show "returns_safe (SeekToFirst BlockIter it)"
    using ParseNextKey_safe [OF it1(2,3)] by (auto simp: returns_safe_def BlockIter_def Iter_SeekToFirst_def Iter_Next_def)
  obtain it2 where it2: "SeekToRestartPoint (it_num_restarts it - 1) it = Ret it2" "iter_inv it2" "parsed it2"
      "rest_of it2 \<le> length (it_data it)"
    using SeekToRestartPoint_safe [OF inv top] by blast
  then show "returns_safe (SeekToLast BlockIter it)"
    using parse_up_to_safe [OF it2(2,3) fuel [OF it2(4)]]
    by (fastforce simp: returns_safe_def BlockIter_def Iter_SeekToLast_def)
  have "unat (it_restarts it) + 4 * unat (it_num_restarts it) \<le> length (it_data it)" using inv by (simp add: iter_inv_def)
  then have restarts: "unat (it_num_restarts it) - 1 \<le> parse_fuel it" by (simp add: parse_fuel_def)
  have as_nat: "of_nat (unat (it_num_restarts it) - 1) = it_num_restarts it - 1" by (metis um of_nat_unat ucast_id)
  obtain found where found: "search_restarts (parse_fuel it) target 0 (it_num_restarts it - 1) it = Ret found"
      "\<And>m. found = Some m \<Longrightarrow> m < it_num_restarts it"
    using search_restarts_safe [OF inv, of 0 "unat (it_num_restarts it) - 1" "parse_fuel it" target] restarts zero
    by (auto simp: word_less_nat_alt as_nat)
  show "returns_safe (Seek BlockIter target it)"
  proof (cases found)
    case None
    have "iter_safe (CorruptionError it)"
      using inv by (simp add: iter_safe_def iter_inv_def CorruptionError_def Iter_end_def Iter_Valid_def)
    then show ?thesis using found(1) None by (simp add: returns_safe_def BlockIter_def Iter_Seek_def)
  next
    case (Some m)
    obtain it3 where it3: "SeekToRestartPoint m it = Ret it3" "iter_inv it3" "parsed it3"
        "rest_of it3 \<le> length (it_data it)"
      using SeekToRestartPoint_safe [OF inv found(2) [OF Some]] by blast
    then show ?thesis
      using parse_to_target_safe [OF it3(2,3) fuel [OF it3(4)]] found(1) Some
      by (fastforce simp: returns_safe_def BlockIter_def Iter_Seek_def)
  qed
  assume "Valid BlockIter it"
  then have par: "parsed it" and inside: "value_inside it" using assms by (simp_all add: iter_safe_def BlockIter_def)
  show "returns_safe (Next BlockIter it)"
    using ParseNextKey_safe [OF inv par] by (auto simp: returns_safe_def BlockIter_def Iter_Next_def)
  show "\<exists>v. ivalue BlockIter it = Ret v"
    using inside inv by (auto simp: value_inside_def iter_inv_def BlockIter_def Iter_value_def)
  have ri: "it_restart_index it < it_num_restarts it" using par by (simp add: parsed_def)
  obtain before where before: "restart_before (it_current it) it = Ret before"
      "\<And>it'. before = Some it' \<Longrightarrow> iter_inv it' \<and> it_restart_index it' < it_num_restarts it' \<and> it_data it' = it_data it"
    using restart_before_total [OF inv ri] by blast
  show "returns_safe (Prev BlockIter it)"
  proof (cases before)
    case None
    have "iter_safe (Iter_end it)" using inv by (simp add: iter_safe_def iter_inv_def Iter_end_def Iter_Valid_def)
    then show ?thesis using before(1) None by (simp add: returns_safe_def BlockIter_def Iter_Prev_def Let_def)
  next
    case (Some it4)
    note b = before(2) [OF Some]
    obtain it5 where it5: "SeekToRestartPoint (it_restart_index it4) it4 = Ret it5" "iter_inv it5" "parsed it5"
        "rest_of it5 \<le> length (it_data it)"
      using SeekToRestartPoint_safe [of it4 "it_restart_index it4"] b by auto
    then show ?thesis
      using parse_up_to_safe [OF it5(2,3) fuel [OF it5(4)]] before(1) Some
      by (fastforce simp: returns_safe_def BlockIter_def Iter_Prev_def Let_def)
  qed
qed

lemma block_step_safe:
  assumes "block_step it it'" "iter_safe it"
  shows "iter_safe it'"
  using assms(1)
proof (cases rule: block_step.cases)
  case first
  then show ?thesis using calls_safe(1) [OF assms(2)] by (simp add: returns_safe_def)
next
  case last
  then show ?thesis using calls_safe(2) [OF assms(2)] by (simp add: returns_safe_def)
next
  case (seek target)
  then show ?thesis using calls_safe(3) [OF assms(2), of target] by (simp add: returns_safe_def)
next
  case forward
  then show ?thesis using calls_safe(4) [OF assms(2)] by (simp add: returns_safe_def)
next
  case backward
  then show ?thesis using calls_safe(5) [OF assms(2)] by (simp add: returns_safe_def)
qed

lemma reachable_safe: "block_step\<^sup>*\<^sup>* it it' \<Longrightarrow> iter_safe it \<Longrightarrow> iter_safe it'"
  by (induction rule: rtranclp_induct) (auto intro: block_step_safe)

section \<open>Properties\<close>

lemma read_block_safe:
  assumes "length (block_data contents) < 2 ^ 32" and "no_overflow (block_data contents)"
    and "\<And>a b. \<exists>r. Compare c a b = Ret r"
  shows "\<exists>r. read_block c contents = Ret r \<and> (\<forall>it. r = Inr it \<longrightarrow> iter_safe it)"
proof (cases "length (block_data contents) < 4")
  case True
  then show ?thesis by (simp add: read_block_def new_Block_def Block_NewIterator_def)
next
  case False
  let ?data = "block_data contents" and ?len = "length (block_data contents)"
  obtain n where n: "DecodeFixed32 (drop (?len - 4) ?data) = Ret n"
    using DecodeFixed32_total [of "drop (?len - 4) ?data"] False by auto
  show ?thesis
  proof (cases "(?len - 4) div 4 < unat n \<or> n = 0")
    case True
    then show ?thesis
      using False n by (auto simp: read_block_def new_Block_def Block_NewIterator_def NumRestarts_def Let_def)
  next
    case ok: False
    let ?off = "ucast (of_nat ?len - ucast (1 + n) * 4 :: u64) :: u32"
    have "unat n \<le> (?len - 4) div 4" using ok by simp
    then have le: "4 * unat n + 4 \<le> ?len" using False by linarith
    then have n30: "unat n < 2 ^ 30" using assms(1) by simp
    have "unat (1 + n) = Suc (unat n)" using n30 by (simp add: unat_word_ariths)
    then have "(ucast (1 + n) :: u64) = of_nat (Suc (unat n))" by (metis of_nat_unat)
    then have "(of_nat ?len - ucast (1 + n) * 4 :: u64) = of_nat (?len - (4 * unat n + 4))"
      using le by (simp add: of_nat_diff algebra_simps)
    moreover have "ucast (of_nat k :: u64) = (of_nat k :: u32)" for k
      by (rule bit_word_eqI) (simp add: bit_simps)
    ultimately have off: "unat ?off = ?len - (4 * unat n + 4)" using assms(1) by (simp add: unat_small)
    have "iter_safe (new_Iter c ?data ?off n)"
      using off le assms ok by (simp add: iter_safe_def iter_inv_def new_Iter_def Iter_Valid_def)
    moreover have "read_block c contents = Ret (Inr (new_Iter c ?data ?off n))"
      using False n ok by (simp add: read_block_def new_Block_def Block_NewIterator_def NumRestarts_def Let_def)
    ultimately show ?thesis by simp
  qed
qed


text \<open>Short lengths do not overflow.\<close>

lemma no_overflow_short: "length data < 3 \<Longrightarrow> no_overflow data"
  by (auto simp: no_overflow_def DecodeEntry_def Let_def split: if_splits)

lemma unat_ucast_byte: "unat (ucast (b :: 8 word) :: u32) = unat b"
  by transfer (simp add: take_bit_nat_def take_bit_eq_mod nat_mod_distrib)

lemma GetVarint32Ptr_small:
  assumes "list_all (\<lambda>b. unat b < 128) p" "GetVarint32Ptr p = Some (v, q)"
  shows "unat v < 128 \<and> list_all (\<lambda>b. unat b < 128) q"
proof (cases p)
  case Nil
  then show ?thesis using assms(2) by (simp add: GetVarint32Ptr_def GetVarint32PtrFallback_def)
next
  case (Cons b r)
  have "unat b div 2 ^ 7 = 0" using assms(1) Cons by simp
  then have "\<not> bit (unat b) 7" by (simp only: bit_iff_odd) simp
  then have "\<not> bit b 7" by (simp add: bit_unsigned_iff)
  then have "(ucast b :: u32) AND 128 = 0" using and_128_iff [where b = b and 'a = 32] by simp
  then show ?thesis using assms Cons by (auto simp: GetVarint32Ptr_def unat_ucast_byte)
qed

lemma no_overflow_bytes:
  assumes "list_all (\<lambda>b. unat b < 128) data"
  shows "no_overflow data"
  unfolding no_overflow_def
proof (intro allI impI)
  fix p limit s ns vl q
  assume dec: "DecodeEntry data p limit = Ret (Some (s, ns, vl, q))"
  let ?view = "take (limit - p) (drop p data)"
  have view: "list_all (\<lambda>b. unat b < 128) ?view"
    using assms by (auto simp: list_all_iff dest: in_set_takeD in_set_dropD)
  have small: "unat (ucast (?view ! k) :: u32) < 128" if "k < length ?view" for k
    using view that by (auto simp: list_all_length unat_ucast_byte)
  show "unat ns + unat vl < 2 ^ 32"
    using dec small [of 1] small [of 2] GetVarint32Ptr_small [OF view]
    by (fastforce simp: DecodeEntry_def Let_def split: if_splits option.splits dest: GetVarint32Ptr_small)
qed


theorem Block_entry_overflow:
  "\<exists>it. read_block BytewiseComparator
      \<lparr> block_data = [0, 0xff, 0xff, 0xff, 0xff, 0x0f, 1] @ EncodeFixed32 0 @ EncodeFixed32 1, cachable = False,
        heap_allocated = True \<rparr> = Ret (Inr it) \<and>
    DecodeEntry (it_data it) 0 (unat (it_restarts it)) = Ret (Some (0, 0xffffffff, 1, 7)) \<and>
    SeekToFirst BlockIter it = Undef"
proof -
  let ?data = "[0, 0xff, 0xff, 0xff, 0xff, 0x0f, 1] @ EncodeFixed32 0 @ EncodeFixed32 1"
  let ?it = "new_Iter BytewiseComparator ?data 7 1"
  let ?at0 = "?it \<lparr> it_restart_index := 0, it_value := Some (0, 0) \<rparr>"
  have "read_block BytewiseComparator \<lparr> block_data = ?data, cachable = False, heap_allocated = True \<rparr> = Ret (Inr ?it)"
    by (simp add: read_block_def new_Block_def Block_NewIterator_def NumRestarts_def EncodeFixed32_bytes
        DecodeFixed32_def Let_def)
  moreover have entry: "DecodeEntry (it_data ?at0) 0 7 = Ret (Some (0, 0xffffffff, 1, 7))"
    by (simp add: DecodeEntry_def GetVarint32Ptr_loop varint_ptr_loop.simps EncodeFixed32_bytes Let_def new_Iter_def)
  moreover have "SeekToRestartPoint 0 ?it = Ret ?at0"
    by (simp add: SeekToRestartPoint_def GetRestartPoint_def EncodeFixed32_bytes DecodeFixed32_def Let_def new_Iter_def)
  moreover have "ParseNextKey ?at0 = Undef"
    using entry by (simp add: ParseNextKey_def NextEntryOffset_def new_Iter_def EncodeFixed32_bytes Let_def)
  ultimately show ?thesis
    by (intro exI [of _ ?it]) (simp add: BlockIter_def Iter_SeekToFirst_def Iter_Next_def new_Iter_def)
qed

end
