(* ===== verification/LdbLog.thy ===== *)
theory LdbLog
  imports LdbCrc LdbFilename
begin

text \<open>
  The log format and its writer, \<open>log_format.h\<close>, \<open>log_writer.h\<close> and \<open>log_writer.cc\<close>. A record is cut into
  fragments that do not cross the boundaries of the blocks; each has a header of a masked checksum, a
  length and a type, and a block's last bytes are zeros when no header fits. The destination file is a
  parameter.
\<close>

section \<open>The format\<close>

type_synonym RecordType = u32

definition kZeroType :: RecordType where "kZeroType = 0"
definition kFullType :: RecordType where "kFullType = 1"
definition kFirstType :: RecordType where "kFirstType = 2"
definition kMiddleType :: RecordType where "kMiddleType = 3"
definition kLastType :: RecordType where "kLastType = 4"
definition kMaxRecordType :: RecordType where "kMaxRecordType = kLastType"

definition kBlockSize :: nat where "kBlockSize = 32768"
definition kHeaderSize :: nat where "kHeaderSize = 4 + 2 + 1"

lemmas type_defs = kZeroType_def kFullType_def kFirstType_def kMiddleType_def kLastType_def kMaxRecordType_def
lemmas size_defs = kBlockSize_def kHeaderSize_def

section \<open>The writer\<close>

text \<open>A \<open>WritableFile\<close>, on a state of the file.\<close>

record 'w WritableFile =
  Writable_Append :: "slice \<Rightarrow> 'w \<Rightarrow> Status \<times> 'w"
  Writable_Flush :: "'w \<Rightarrow> Status \<times> 'w"

record 'w Writer =
  dest :: 'w
  block_offset :: nat
  type_crc :: "u32 list"

primrec InitTypeCrc_loop :: "(u32 \<Rightarrow> slice \<Rightarrow> u32) \<Rightarrow> nat \<Rightarrow> u32 list res" where
  "InitTypeCrc_loop acc 0 = Ret []"
| "InitTypeCrc_loop acc (Suc i) =
     res_bind (InitTypeCrc_loop acc i) (\<lambda>crcs.
     res_bind (Value acc 0 [of_nat i]) (\<lambda>crc. Ret (crcs @ [crc])))"

definition InitTypeCrc :: "(u32 \<Rightarrow> slice \<Rightarrow> u32) \<Rightarrow> u32 list res" where
  "InitTypeCrc acc = InitTypeCrc_loop acc (Suc (unat kMaxRecordType))"

definition new_Writer :: "(u32 \<Rightarrow> slice \<Rightarrow> u32) \<Rightarrow> 'w \<Rightarrow> u64 \<Rightarrow> 'w Writer res" where
  "new_Writer acc w dest_length =
     res_bind (InitTypeCrc acc) (\<lambda>crcs.
       Ret \<lparr> dest = w, block_offset = unat (dest_length mod of_nat kBlockSize), type_crc = crcs \<rparr>)"

text \<open>The first constructor, for a file that is empty.\<close>

definition new_Writer_empty :: "(u32 \<Rightarrow> slice \<Rightarrow> u32) \<Rightarrow> 'w \<Rightarrow> 'w Writer res" where
  "new_Writer_empty acc w =
     res_bind (InitTypeCrc acc) (\<lambda>crcs. Ret \<lparr> dest = w, block_offset = 0, type_crc = crcs \<rparr>)"

text \<open>The header, the payload and the flush.\<close>

definition write_physical :: "'w WritableFile \<Rightarrow> slice \<Rightarrow> slice \<Rightarrow> 'w \<Rightarrow> Status \<times> 'w" where
  "write_physical file buf payload w =
     (let (s, w) = Writable_Append file buf w;
          (s, w) = (if Status_ok s then Writable_Append file payload w else (s, w))
      in if Status_ok s then Writable_Flush file w else (s, w))"

definition EmitPhysicalRecord ::
    "(u32 \<Rightarrow> slice \<Rightarrow> u32) \<Rightarrow> 'w WritableFile \<Rightarrow> RecordType \<Rightarrow> slice \<Rightarrow> 'w Writer \<Rightarrow> (Status \<times> 'w Writer) res" where
  "EmitPhysicalRecord acc file t payload this =
     (let len = length payload;
          tail = [of_nat (len mod 256), of_nat (len div 256), ucast t]
      in if length (type_crc this) \<le> unat t then Undef
         else res_bind (Extend acc (type_crc this ! unat t) 0 payload) (\<lambda>crc.
           let buf = EncodeFixed32 (Mask crc) @ tail;
               (s, w) = write_physical file buf payload (dest this)
           in Ret (s, this \<lparr> dest := w, block_offset := block_offset this + kHeaderSize + len \<rparr>)))"

text \<open>The top of the loop of \<open>AddRecord\<close>: the switch to a new block.\<close>

definition switch_block :: "'w WritableFile \<Rightarrow> 'w Writer \<Rightarrow> 'w Writer" where
  "switch_block file this =
     (let leftover = kBlockSize - block_offset this
      in if leftover < kHeaderSize
         then let this = (if 0 < leftover
                          then this \<lparr> dest := snd (Writable_Append file (replicate leftover 0) (dest this)) \<rparr>
                          else this)
              in this \<lparr> block_offset := 0 \<rparr>
         else this)"

definition fragment_type :: "bool \<Rightarrow> bool \<Rightarrow> RecordType" where
  "fragment_type first fin =
     (if first \<and> fin then kFullType else if first then kFirstType
      else if fin then kLastType else kMiddleType)"

lemma EmitPhysicalRecord_offset:
  "EmitPhysicalRecord acc file t payload this = Ret (s, this') \<Longrightarrow>
   block_offset this' = block_offset this + kHeaderSize + length payload"
  by (auto simp: EmitPhysicalRecord_def res_bind_Ret_iff Let_def case_prod_beta split: if_splits)

text \<open>Where a fragment starts in its block, and how long it is, for a block filled up to \<open>off\<close>.\<close>

definition block_start :: "nat \<Rightarrow> nat" where
  "block_start off = (if kBlockSize - off < kHeaderSize then 0 else off)"

definition frag_len :: "nat \<Rightarrow> nat \<Rightarrow> nat" where
  "frag_len off len = min len (kBlockSize - block_start off - kHeaderSize)"

lemma fragment_decreases:
  "frag_len off len < len \<Longrightarrow>
   2 * (len - frag_len off len) +
     of_bool (block_start off + kHeaderSize + frag_len off len + kHeaderSize = kBlockSize) <
   2 * len + of_bool (off + kHeaderSize = kBlockSize)"
  by (auto simp: frag_len_def block_start_def size_defs min_def split: if_splits)

text \<open>The loop of \<open>AddRecord\<close>, with what is left of the record.\<close>

function add_loop ::
    "(u32 \<Rightarrow> slice \<Rightarrow> u32) \<Rightarrow> 'w WritableFile \<Rightarrow> bool \<Rightarrow> slice \<Rightarrow> 'w Writer \<Rightarrow> (Status \<times> 'w Writer) res" where
  "add_loop acc file first data this =
     (let this = switch_block file this;
          avail = kBlockSize - block_offset this - kHeaderSize;
          n = (if length data < avail then length data else avail);
          t = fragment_type first (length data = n)
      in res_bind (EmitPhysicalRecord acc file t (take n data) this) (\<lambda>(s, this).
           if Status_ok s \<and> drop n data \<noteq> [] then add_loop acc file False (drop n data) this
           else Ret (s, this)))"
  by pat_completeness auto

termination
proof (relation "measure (\<lambda>(_, _, _, data, this). 2 * length data + of_bool (block_offset this + kHeaderSize = kBlockSize))",
    goal_cases)
  case (2 acc fl first data this this1 avail n t r s this2)
  have "block_offset this1 = block_start (block_offset this)"
    by (simp add: 2(1) switch_block_def block_start_def Let_def)
  moreover have n: "n = frag_len (block_offset this) (length data)"
    using 2(2,3) calculation by (auto simp: frag_len_def)
  moreover have "block_offset this2 = block_offset this1 + kHeaderSize + n"
    using EmitPhysicalRecord_offset 2(5,6) n by (fastforce simp: frag_len_def)
  moreover have "n < length data" using 2(7) by simp
  ultimately show ?case
    using fragment_decreases [of "block_offset this" "length data"] by simp
qed simp

declare add_loop.simps [simp del]

definition AddRecord ::
    "(u32 \<Rightarrow> slice \<Rightarrow> u32) \<Rightarrow> 'w WritableFile \<Rightarrow> slice \<Rightarrow> 'w Writer \<Rightarrow> (Status \<times> 'w Writer) res" where
  "AddRecord acc file data this = add_loop acc file True data this"

section \<open>The bytes of a record\<close>

definition physical_record :: "RecordType \<Rightarrow> slice \<Rightarrow> slice" where
  "physical_record t payload =
     EncodeFixed32 (Mask (crc32c 0 (ucast t # payload))) @
     [of_nat (length payload mod 256), of_nat (length payload div 256), ucast t] @ payload"

definition padding :: "nat \<Rightarrow> slice" where
  "padding off = (if kBlockSize - off < kHeaderSize then replicate (kBlockSize - off) 0 else [])"

text \<open>What the record adds to a file whose last block is filled up to \<open>off\<close>, and the new fill level.\<close>

function record_bytes :: "nat \<Rightarrow> bool \<Rightarrow> slice \<Rightarrow> slice \<times> nat" where
  "record_bytes off first data =
     (let n = frag_len off (length data);
          rec = padding off @ physical_record (fragment_type first (length data = n)) (take n data);
          off' = block_start off + kHeaderSize + n
      in if n < length data
         then (rec @ fst (record_bytes off' False (drop n data)), snd (record_bytes off' False (drop n data)))
         else (rec, off'))"
  by pat_completeness auto

termination
  by (relation "measure (\<lambda>(off, _, data). 2 * length data + of_bool (off + kHeaderSize = kBlockSize))")
    (use fragment_decreases in simp_all)

declare record_bytes.simps [simp del]

text \<open>A file whose appends and flushes work; \<open>content\<close> is what it holds.\<close>

definition appends :: "'w WritableFile \<Rightarrow> ('w \<Rightarrow> slice) \<Rightarrow> bool" where
  "appends file content \<longleftrightarrow>
     (\<forall>d w. Status_ok (fst (Writable_Append file d w)) \<and>
            content (snd (Writable_Append file d w)) = content w @ d) \<and>
     (\<forall>w. Writable_Flush file w = (OK, snd (Writable_Flush file w)) \<and>
          content (snd (Writable_Flush file w)) = content w)"

text \<open>A writer as the constructors make it.\<close>

definition writer_ok :: "'w Writer \<Rightarrow> bool" where
  "writer_ok this \<longleftrightarrow> block_offset this \<le> kBlockSize \<and>
     type_crc this = map (\<lambda>i. crc32c 0 [of_nat i]) [0..<5]"

lemma InitTypeCrc_ok:
  assumes "accelerated_ok acc"
  shows "InitTypeCrc acc = Ret (map (\<lambda>i. crc32c 0 [of_nat i]) [0..<5])"
proof -
  have "InitTypeCrc_loop acc n = Ret (map (\<lambda>i. crc32c 0 [of_nat i]) [0..<n])" for n
    by (induction n) (simp_all add: Value_def Extend_crc32c [OF assms])
  then show ?thesis by (simp add: InitTypeCrc_def type_defs)
qed

lemma new_Writer_ok:
  assumes "accelerated_ok acc"
  shows "\<exists>this. new_Writer_empty acc w = Ret this \<and> writer_ok this \<and> block_offset this = 0 \<and> dest this = w"
    and "\<exists>this. new_Writer acc w len = Ret this \<and> writer_ok this \<and>
      block_offset this = unat len mod kBlockSize \<and> dest this = w"
proof -
  show "\<exists>this. new_Writer_empty acc w = Ret this \<and> writer_ok this \<and> block_offset this = 0 \<and> dest this = w"
    by (simp add: new_Writer_empty_def InitTypeCrc_ok [OF assms] writer_ok_def)
  show "\<exists>this. new_Writer acc w len = Ret this \<and> writer_ok this \<and>
      block_offset this = unat len mod kBlockSize \<and> dest this = w"
    by (simp add: new_Writer_def InitTypeCrc_ok [OF assms] writer_ok_def kBlockSize_def unat_mod)
qed

lemma fragment_type_range: "fragment_type first fin \<in> {1, 2, 3, 4}"
  by (simp add: fragment_type_def type_defs)

lemma crc32c_append: "crc32c (crc32c c a) b = crc32c c (a @ b)"
proof -
  have "NOT (NOT l) = l" for l :: u32 by simp
  then show ?thesis by (simp add: crc32c_def crc_register_append)
qed

lemma type_crc_nth:
  assumes "(t :: u32) \<in> {1, 2, 3, 4}"
  shows "map (\<lambda>i. crc32c 0 [of_nat i]) [0..<5] ! unat t = crc32c 0 [ucast t] \<and> unat t < 5"
proof -
  have "unat t < 5" "of_nat (unat t) = (ucast t :: u8)" using assms by auto
  then show ?thesis by simp
qed

lemma write_physical_ok:
  assumes "appends file content"
  shows "\<exists>w'. write_physical file buf payload w = (OK, w') \<and> content w' = content w @ buf @ payload"
proof -
  obtain s1 w1 where 1: "Writable_Append file buf w = (s1, w1)" by fastforce
  obtain s2 w2 where 2: "Writable_Append file payload w1 = (s2, w2)" by fastforce
  obtain w3 where 3: "Writable_Flush file w2 = (OK, w3)" "content w3 = content w2"
    using assms unfolding appends_def by metis
  have "Status_ok s1" "content w1 = content w @ buf" "Status_ok s2" "content w2 = content w1 @ payload"
    using assms 1 2 unfolding appends_def by (metis fst_conv snd_conv)+
  with 1 2 3 show ?thesis by (simp add: write_physical_def)
qed

lemma EmitPhysicalRecord_ok:
  assumes "accelerated_ok acc" and works: "appends file content" and wr: "writer_ok this"
    and "t \<in> {1, 2, 3, 4}" and "block_offset this + kHeaderSize + length payload \<le> kBlockSize"
  shows "\<exists>this'. EmitPhysicalRecord acc file t payload this = Ret (OK, this') \<and> writer_ok this' \<and>
    content (dest this') = content (dest this) @ physical_record t payload \<and>
    block_offset this' = block_offset this + kHeaderSize + length payload"
proof -
  let ?tail = "[of_nat (length payload mod 256), of_nat (length payload div 256), ucast t]"
  let ?buf = "EncodeFixed32 (Mask (crc32c 0 (ucast t # payload))) @ ?tail"
  obtain w' where w': "write_physical file ?buf payload (dest this) = (OK, w')"
      "content w' = content (dest this) @ physical_record t payload"
    using write_physical_ok [OF works, of ?buf payload "dest this"] by (auto simp: physical_record_def)
  have "Extend acc (type_crc this ! unat t) 0 payload = Ret (crc32c 0 (ucast t # payload))"
    "\<not> length (type_crc this) \<le> unat t"
    using wr type_crc_nth [OF assms(4)] crc32c_append [of 0 "[ucast t]" payload]
    by (simp_all add: writer_ok_def Extend_crc32c [OF assms(1)])
  with w' wr assms(5) show ?thesis by (simp add: EmitPhysicalRecord_def writer_ok_def)
qed

lemma switch_block_ok:
  assumes "appends file content" and "writer_ok this"
  shows "writer_ok (switch_block file this) \<and>
    block_offset (switch_block file this) = block_start (block_offset this) \<and>
    content (dest (switch_block file this)) = content (dest this) @ padding (block_offset this)"
  using assms by (simp add: switch_block_def writer_ok_def block_start_def padding_def appends_def Let_def)

text \<open>The writer implements \<open>record_bytes\<close>.\<close>

lemma add_loop_bytes:
  assumes "accelerated_ok acc" and "appends file content"
  shows "writer_ok this \<Longrightarrow>
    \<exists>this'. add_loop acc file first data this = Ret (OK, this') \<and> writer_ok this' \<and>
      content (dest this') = content (dest this) @ fst (record_bytes (block_offset this) first data) \<and>
      block_offset this' = snd (record_bytes (block_offset this) first data)"
proof (induction "block_offset this" first data arbitrary: this rule: record_bytes.induct)
  case (1 first data this)
  let ?off = "block_offset this" and ?n = "frag_len (block_offset this) (length data)"
  let ?this1 = "switch_block file this" and ?t = "fragment_type first (length data = ?n)"
  note sw = switch_block_ok [OF assms(2) "1.prems"]
  have fits: "block_offset ?this1 + kHeaderSize + ?n \<le> kBlockSize"
    using sw "1.prems" by (auto simp: writer_ok_def frag_len_def block_start_def size_defs min_def)
  have len: "length (take ?n data) = ?n" by (simp add: frag_len_def)
  obtain this2 where e: "EmitPhysicalRecord acc file ?t (take ?n data) ?this1 = Ret (OK, this2)"
      "writer_ok this2" "block_offset this2 = block_start ?off + kHeaderSize + ?n"
      "content (dest this2) = content (dest this) @ padding ?off @ physical_record ?t (take ?n data)"
    using EmitPhysicalRecord_ok [OF assms, of ?this1 ?t "take ?n data"] sw fits len fragment_type_range
    by fastforce
  have n: "(if length data < kBlockSize - block_offset ?this1 - kHeaderSize then length data
      else kBlockSize - block_offset ?this1 - kHeaderSize) = ?n"
    using sw by (simp add: frag_len_def min_def)
  have loop: "add_loop acc file first data this =
      (if ?n < length data then add_loop acc file False (drop ?n data) this2 else Ret (OK, this2))"
    unfolding add_loop.simps [of acc "file" first data this] Let_def n using e(1) by simp
  show ?case
  proof (cases "?n < length data")
    case True
    then obtain this3 where "add_loop acc file False (drop ?n data) this2 = Ret (OK, this3)" "writer_ok this3"
        "content (dest this3) = content (dest this2) @ fst (record_bytes (block_offset this2) False (drop ?n data))"
        "block_offset this3 = snd (record_bytes (block_offset this2) False (drop ?n data))"
      using "1.hyps"(1) [OF refl refl e(3) True e(2)] by blast
    with True e loop show ?thesis by (simp add: record_bytes.simps [of ?off first data] Let_def)
  next
    case False
    with e loop show ?thesis by (simp add: record_bytes.simps [of ?off first data] Let_def)
  qed
qed

end
