(* ===== verification/LdbLogReader.thy ===== *)
theory LdbLogReader
  imports LdbLog
begin

text \<open>
  The log reader, \<open>log_reader.h\<close> and \<open>log_reader.cc\<close>: a buffer of one block, the physical records in it, and
  the loop that joins the fragments of a record. The file is a parameter; what the reporter is told is a
  list in the state. \<open>ReadRecord\<close> reads until a record is complete, which an endless file may never give:
  it takes fuel, one unit for each physical record.
\<close>

section \<open>The reader\<close>

text \<open>A \<open>SequentialFile\<close>, on a state of the file.\<close>

record 'f SequentialFile =
  Seq_Read :: "nat \<Rightarrow> 'f \<Rightarrow> Status \<times> slice \<times> 'f"
  Seq_Skip :: "u64 \<Rightarrow> 'f \<Rightarrow> Status \<times> 'f"

record 'f Reader =
  rd_file :: 'f
  has_reporter :: bool
  reports :: "(u64 \<times> Status) list"
  rd_checksum :: bool
  buffer :: slice
  eof :: bool
  last_record_offset :: u64
  end_of_buffer_offset :: u64
  initial_offset :: u64
  resyncing :: bool

definition kEof :: u32 where "kEof = kMaxRecordType + 1"
definition kBadRecord :: u32 where "kBadRecord = kMaxRecordType + 2"

definition new_Reader :: "'f \<Rightarrow> bool \<Rightarrow> bool \<Rightarrow> u64 \<Rightarrow> 'f Reader" where
  "new_Reader f reporter checksum initial =
     \<lparr> rd_file = f, has_reporter = reporter, reports = [], rd_checksum = checksum, buffer = [], eof = False,
       last_record_offset = 0, end_of_buffer_offset = 0, initial_offset = initial, resyncing = (0 < initial) \<rparr>"

definition buffer_size :: "'f Reader \<Rightarrow> u64" where
  "buffer_size this = of_nat (length (buffer this))"

definition ReportDrop :: "u64 \<Rightarrow> Status \<Rightarrow> 'f Reader \<Rightarrow> 'f Reader" where
  "ReportDrop bytes reason this =
     (if has_reporter this \<and> initial_offset this \<le> end_of_buffer_offset this - buffer_size this - bytes
      then this \<lparr> reports := reports this @ [(bytes, reason)] \<rparr> else this)"

definition ReportCorruption :: "u64 \<Rightarrow> string \<Rightarrow> 'f Reader \<Rightarrow> 'f Reader" where
  "ReportCorruption bytes reason this = ReportDrop bytes (Corruption reason []) this"

definition SkipToInitialBlock :: "'f SequentialFile \<Rightarrow> 'f Reader \<Rightarrow> bool \<times> 'f Reader" where
  "SkipToInitialBlock fl this =
     (let offset_in_block = initial_offset this mod of_nat kBlockSize;
          block_start_location = initial_offset this - offset_in_block;
          block_start_location =
            (if of_nat kBlockSize - 6 < offset_in_block then block_start_location + of_nat kBlockSize
             else block_start_location);
          this = this \<lparr> end_of_buffer_offset := block_start_location \<rparr>
      in if 0 < block_start_location
         then let (s, f) = Seq_Skip fl block_start_location (rd_file this);
                  this = this \<lparr> rd_file := f \<rparr>
              in if \<not> Status_ok s then (False, ReportDrop block_start_location s this) else (True, this)
         else (True, this))"

text \<open>The length in a header, and the rest of \<open>ReadPhysicalRecord\<close> once the buffer has a header. The
  result is the type, the fragment, which is the argument where the code leaves \<open>*result\<close> alone, and the
  reader.\<close>

definition header_length :: "slice \<Rightarrow> nat" where
  "header_length header = unat (ucast (header ! 4) OR push_bit 8 (ucast (header ! 5)) :: u32)"

definition parse_physical ::
    "(u32 \<Rightarrow> slice \<Rightarrow> u32) \<Rightarrow> slice \<Rightarrow> 'f Reader \<Rightarrow> (u32 \<times> slice \<times> 'f Reader) res" where
  "parse_physical acc result this =
     (let header = buffer this;
          t = (scast (header ! 6) :: u32);
          len = header_length header
      in if length (buffer this) < kHeaderSize + len
         then let drop_size = buffer_size this;
                  this = this \<lparr> buffer := [] \<rparr>
              in if \<not> eof this then Ret (kBadRecord, result, ReportCorruption drop_size ''bad record length'' this)
                 else Ret (kEof, result, this)
         else if t = kZeroType \<and> len = 0 then Ret (kBadRecord, result, this \<lparr> buffer := [] \<rparr>)
         else res_bind
           (if rd_checksum this
            then res_bind (DecodeFixed32 header) (\<lambda>crc.
                 res_bind (Value acc 0 (take (1 + len) (drop 6 header))) (\<lambda>actual. Ret (actual = Unmask crc)))
            else Ret True) (\<lambda>ok.
           if \<not> ok
           then let drop_size = buffer_size this;
                    this = this \<lparr> buffer := [] \<rparr>
                in Ret (kBadRecord, result, ReportCorruption drop_size ''checksum mismatch'' this)
           else let this = this \<lparr> buffer := drop (kHeaderSize + len) header \<rparr>
                in if end_of_buffer_offset this - buffer_size this - of_nat kHeaderSize - of_nat len
                      < initial_offset this
                   then Ret (kBadRecord, [], this)
                   else Ret (t, take len (drop kHeaderSize header), this)))"

function ReadPhysicalRecord ::
    "(u32 \<Rightarrow> slice \<Rightarrow> u32) \<Rightarrow> 'f SequentialFile \<Rightarrow> slice \<Rightarrow> 'f Reader \<Rightarrow> (u32 \<times> slice \<times> 'f Reader) res" where
  "ReadPhysicalRecord acc fl result this =
     (if length (buffer this) < kHeaderSize
      then if \<not> eof this
           then let (s, b, f) = Seq_Read fl kBlockSize (rd_file this);
                    this = this \<lparr> rd_file := f, buffer := b,
                      end_of_buffer_offset := end_of_buffer_offset this + of_nat (length b) \<rparr>
                in if \<not> Status_ok s
                   then Ret (kEof, result,
                          (ReportDrop (of_nat kBlockSize) s (this \<lparr> buffer := [] \<rparr>)) \<lparr> eof := True \<rparr>)
                   else let this = (if length (buffer this) < kBlockSize then this \<lparr> eof := True \<rparr> else this)
                        in ReadPhysicalRecord acc fl result this
           else Ret (kEof, result, this \<lparr> buffer := [] \<rparr>)
      else parse_physical acc result this)"
  by pat_completeness auto

termination
  by (relation "measure (\<lambda>(_, _, _, this). if length (buffer this) < kHeaderSize \<and> \<not> eof this then 1 else 0)")
    (auto simp: size_defs)

declare ReadPhysicalRecord.simps [simp del]

text \<open>The message for a type the reader does not know, cut to the size of its buffer.\<close>

definition unknown_type_message :: "u32 \<Rightarrow> string" where
  "unknown_type_message t = take 39 (''unknown record type '' @ map (\<lambda>b. char_of (unat b)) (decimal (unat t)))"

text \<open>The loop of \<open>ReadRecord\<close>: \<open>in_fragmented\<close>, the offset of the record, \<open>fragment\<close> and \<open>scratch\<close> are the
  local variables. The result is what \<open>ReadRecord\<close> returns with the record, and the reader.\<close>

fun read_loop ::
    "nat \<Rightarrow> (u32 \<Rightarrow> slice \<Rightarrow> u32) \<Rightarrow> 'f SequentialFile \<Rightarrow> bool \<Rightarrow> u64 \<Rightarrow> slice \<Rightarrow> slice \<Rightarrow> 'f Reader \<Rightarrow>
     (bool \<times> slice \<times> 'f Reader) res" where
  "read_loop 0 acc fl in_fragmented offset fragment scratch this = NoFuel"
| "read_loop (Suc fuel) acc fl in_fragmented offset fragment scratch this =
     res_bind (ReadPhysicalRecord acc fl fragment this) (\<lambda>(t, fragment, this).
       let physical_offset = end_of_buffer_offset this - buffer_size this - of_nat kHeaderSize -
             of_nat (length fragment);
           again = (\<lambda>in_fragmented offset scratch this.
             read_loop fuel acc fl in_fragmented offset fragment scratch this);
           report = (\<lambda>n msg this. ReportCorruption (of_nat n) msg this)
       in if resyncing this \<and> t = kMiddleType then again in_fragmented offset scratch this
          else if resyncing this \<and> t = kLastType
          then again in_fragmented offset scratch (this \<lparr> resyncing := False \<rparr>)
          else let this = this \<lparr> resyncing := False \<rparr>
          in if t = kFullType
             then let this = (if in_fragmented \<and> scratch \<noteq> []
                              then report (length scratch) ''partial record without end(1)'' this else this)
                  in Ret (True, fragment, this \<lparr> last_record_offset := physical_offset \<rparr>)
             else if t = kFirstType
             then let this = (if in_fragmented \<and> scratch \<noteq> []
                              then report (length scratch) ''partial record without end(2)'' this else this)
                  in again True physical_offset fragment this
             else if t = kMiddleType
             then if \<not> in_fragmented
                  then again in_fragmented offset scratch
                         (report (length fragment) ''missing start of fragmented record(1)'' this)
                  else again in_fragmented offset (scratch @ fragment) this
             else if t = kLastType
             then if \<not> in_fragmented
                  then again in_fragmented offset scratch
                         (report (length fragment) ''missing start of fragmented record(2)'' this)
                  else Ret (True, scratch @ fragment, this \<lparr> last_record_offset := offset \<rparr>)
             else if t = kEof then Ret (False, [], this)
             else if t = kBadRecord
             then if in_fragmented
                  then again False offset [] (report (length scratch) ''error in middle of record'' this)
                  else again in_fragmented offset scratch this
             else again False offset []
                    (report (length fragment + (if in_fragmented then length scratch else 0))
                       (unknown_type_message t) this))"

definition ReadRecord ::
    "nat \<Rightarrow> (u32 \<Rightarrow> slice \<Rightarrow> u32) \<Rightarrow> 'f SequentialFile \<Rightarrow> 'f Reader \<Rightarrow> (bool \<times> slice \<times> 'f Reader) res" where
  "ReadRecord fuel acc fl this =
     (let (ok, this) = (if last_record_offset this < initial_offset this
                        then SkipToInitialBlock fl this else (True, this))
      in if \<not> ok then Ret (False, [], this)
         else read_loop fuel acc fl False 0 [] [] this)"

definition LastRecordOffset :: "'f Reader \<Rightarrow> u64" where
  "LastRecordOffset this = last_record_offset this"

text \<open>How the recovery uses a reader: it reads until there is no record.\<close>

fun read_all ::
    "nat \<Rightarrow> (u32 \<Rightarrow> slice \<Rightarrow> u32) \<Rightarrow> 'f SequentialFile \<Rightarrow> 'f Reader \<Rightarrow> (slice list \<times> 'f Reader) res" where
  "read_all 0 acc fl this = NoFuel"
| "read_all (Suc fuel) acc fl this =
     res_bind (ReadRecord fuel acc fl this) (\<lambda>(ok, rec, this).
       if \<not> ok then Ret ([], this)
       else res_bind (read_all fuel acc fl this) (\<lambda>(recs, this). Ret (rec # recs, this)))"

section \<open>Reading a file to its end\<close>

text \<open>A file whose reads work; \<open>content\<close> is what is left of it.\<close>

definition reads_content :: "'f SequentialFile \<Rightarrow> ('f \<Rightarrow> slice) \<Rightarrow> bool" where
  "reads_content fl content \<longleftrightarrow>
     (\<forall>n f. \<exists>f'. Seq_Read fl n f = (OK, take n (content f), f') \<and> content f' = drop n (content f))"

text \<open>The reader is in front of the bytes \<open>U\<close>, with the block filled up to \<open>off\<close>: the buffer is the rest of
  the block, unless the end of the file was reached, and then there is nothing else.\<close>

definition reader_at :: "('f \<Rightarrow> slice) \<Rightarrow> 'f Reader \<Rightarrow> nat \<Rightarrow> slice \<Rightarrow> bool" where
  "reader_at content this off U \<longleftrightarrow>
     U = buffer this @ content (rd_file this) \<and> off \<le> kBlockSize \<and>
     (if eof this then content (rd_file this) = [] \<and> off + length (buffer this) \<le> kBlockSize
      else length (buffer this) = kBlockSize - off) \<and>
     \<not> resyncing this \<and> initial_offset this = 0"

lemma reader_at_new: "content f = U \<Longrightarrow> reader_at content (new_Reader f reporter checksum 0) kBlockSize U"
  by (simp add: reader_at_def new_Reader_def)

text \<open>The header of a physical record.\<close>

lemma physical_record_header:
  assumes "length payload < 65536" and "t \<in> {1, 2, 3, 4}"
  shows "length (physical_record t payload) = kHeaderSize + length payload"
    and "header_length (physical_record t payload @ rest) = length payload"
    and "scast ((physical_record t payload @ rest) ! 6) = t"
    and "DecodeFixed32 (physical_record t payload @ rest) = Ret (Mask (crc32c 0 (ucast t # payload)))"
    and "drop 6 (physical_record t payload @ rest) = ucast t # payload @ rest"
    and "drop kHeaderSize (physical_record t payload @ rest) = payload @ rest"
proof -
  let ?n = "length payload"
  show "length (physical_record t payload) = kHeaderSize + ?n"
    by (simp add: physical_record_def kHeaderSize_def)
  show "DecodeFixed32 (physical_record t payload @ rest) = Ret (Mask (crc32c 0 (ucast t # payload)))"
    by (simp add: physical_record_def)
  show "drop 6 (physical_record t payload @ rest) = ucast t # payload @ rest"
    "drop kHeaderSize (physical_record t payload @ rest) = payload @ rest"
    by (simp_all add: physical_record_def kHeaderSize_def)
  have at: "(physical_record t payload @ rest) ! 4 = of_nat (?n mod 256)"
    "(physical_record t payload @ rest) ! 5 = of_nat (?n div 256)"
    "(physical_record t payload @ rest) ! 6 = ucast t"
    by (simp_all add: physical_record_def nth_append)
  show "scast ((physical_record t payload @ rest) ! 6) = t" using assms(2) at by auto
  have "(ucast (of_nat (?n mod 256) :: u8) OR push_bit 8 (ucast (of_nat (?n div 256) :: u8)) :: u32) = of_nat ?n"
  proof (rule bit_word_eqI)
    fix i assume "i < LENGTH(32)"
    have parts: "?n mod 256 = take_bit 8 ?n" "?n div 256 = drop_bit 8 ?n"
      by (simp_all add: take_bit_eq_mod drop_bit_eq_div)
    have "take_bit 16 ?n = ?n" using assms(1) by (simp add: take_bit_nat_eq_self)
    then have "i < 16" if "bit ?n i" using that by (metis bit_take_bit_iff)
    with \<open>i < LENGTH(32)\<close> show "bit (ucast (of_nat (?n mod 256) :: u8) OR
        push_bit 8 (ucast (of_nat (?n div 256) :: u8)) :: u32) i = bit (of_nat ?n :: u32) i"
      unfolding parts by (cases "i < 8") (auto simp: bit_simps)
  qed
  then show "header_length (physical_record t payload @ rest) = ?n"
    using assms(1) by (simp add: header_length_def at unat_of_nat take_bit_nat_eq_self)
qed

lemma take_append_long: "length xs \<le> m \<Longrightarrow> take m (xs @ ys) = xs @ take (m - length xs) ys"
  by simp

text \<open>Filling the buffer with the next block.\<close>

lemma fill_block:
  assumes "reads_content fl content" and "reader_at content this off U"
    and "length (buffer this) < kHeaderSize" and "\<not> eof this"
  shows "\<exists>this'. ReadPhysicalRecord acc fl result this = ReadPhysicalRecord acc fl result this' \<and>
    reader_at content this' 0 (drop (length (buffer this)) U) \<and> reports this' = reports this \<and>
    (eof this' \<or> kHeaderSize \<le> length (buffer this'))"
proof -
  obtain f' where f': "Seq_Read fl kBlockSize (rd_file this) = (OK, take kBlockSize (content (rd_file this)), f')"
      "content f' = drop kBlockSize (content (rd_file this))"
    using assms(1) unfolding reads_content_def by blast
  let ?b = "take kBlockSize (content (rd_file this))"
  let ?this1 = "this \<lparr> rd_file := f', buffer := ?b,
    end_of_buffer_offset := end_of_buffer_offset this + of_nat (length ?b) \<rparr>"
  let ?this2 = "if length ?b < kBlockSize then ?this1 \<lparr> eof := True \<rparr> else ?this1"
  have "ReadPhysicalRecord acc fl result this = ReadPhysicalRecord acc fl result ?this2"
    using assms(3,4) f'(1) by (simp add: ReadPhysicalRecord.simps [of acc fl result this] Let_def)
  moreover have "reader_at content ?this2 0 (drop (length (buffer this)) U)"
    using assms(2) f'(2) by (auto simp: reader_at_def)
  moreover have "eof ?this2 \<or> kHeaderSize \<le> length (buffer ?this2)" by (auto simp: size_defs)
  ultimately show ?thesis by (intro exI [of _ ?this2]) simp
qed

text \<open>A record that is in the buffer.\<close>

lemma parse_record:
  assumes "accelerated_ok acc" and "t \<in> {1, 2, 3, 4}" and "length payload < 65536"
    and "buffer this = physical_record t payload @ rest" and "initial_offset this = 0"
  shows "parse_physical acc result this = Ret (t, payload, this \<lparr> buffer := rest \<rparr>)"
proof -
  note h = physical_record_header(1) [OF assms(3,2)] physical_record_header(2-6) [OF assms(3,2), of rest]
  have nz: "t \<noteq> kZeroType" using assms(2) by (auto simp: type_defs)
  have cut: "take (Suc (length payload)) (drop 6 (buffer this)) = ucast t # payload"
    unfolding assms(4) h(5) by simp
  have "Value acc 0 (ucast t # payload) = Ret (crc32c 0 (ucast t # payload))"
    by (simp add: Value_def Extend_crc32c [OF assms(1)])
  moreover have "drop (kHeaderSize + length payload) (buffer this) = rest"
    using h(1) by (simp add: assms(4))
  moreover have "take (length payload) (drop kHeaderSize (buffer this)) = payload"
    unfolding assms(4) h(6) by simp
  moreover have "kHeaderSize + length payload \<le> length (buffer this)" using h(1) by (simp add: assms(4))
  moreover note h(2-4) [folded assms(4)]
  ultimately show ?thesis
    using nz assms(5) by (simp add: parse_physical_def Let_def cut not_less)
qed

text \<open>A record that was cut off by the end of the file is not reported.\<close>

lemma parse_cut_record:
  assumes "t \<in> {1, 2, 3, 4}" and "length payload < 65536"
    and "buffer this = take m (physical_record t payload @ rest)"
    and "kHeaderSize \<le> m" "m < kHeaderSize + length payload" and "eof this"
  shows "parse_physical acc result this = Ret (kEof, result, this \<lparr> buffer := [] \<rparr>)"
proof -
  note h = physical_record_header(1) [OF assms(2,1)] physical_record_header(2-6) [OF assms(2,1), of rest]
  have "header_length (buffer this) = header_length (physical_record t payload @ rest)"
    using assms(4) by (simp add: header_length_def assms(3) kHeaderSize_def del: take_append)
  moreover have "length (buffer this) = m" using assms(5) h(1) by (simp add: assms(3))
  ultimately show ?thesis using h(2) assms(5,6) by (simp add: parse_physical_def Let_def)
qed

text \<open>Reading a physical record inside a block.\<close>

lemma read_in_block:
  assumes "accelerated_ok acc" and at: "reader_at content this off U"
    and U: "U = take m (physical_record t payload @ rest)"
    and t: "t \<in> {1, 2, 3, 4}" and fits: "off + kHeaderSize + length payload \<le> kBlockSize"
  shows "if kHeaderSize + length payload \<le> m
    then \<exists>this'. ReadPhysicalRecord acc fl result this = Ret (t, payload, this') \<and>
      reader_at content this' (off + kHeaderSize + length payload) (take (m - (kHeaderSize + length payload)) rest) \<and>
      reports this' = reports this
    else \<exists>this'. ReadPhysicalRecord acc fl result this = Ret (kEof, result, this') \<and> reports this' = reports this"
proof -
  have len: "length payload < 65536" using fits by (simp add: size_defs)
  note h = physical_record_header(1) [OF len t]
  have buf: "buffer this = take (length (buffer this)) U" using at by (simp add: reader_at_def)
  show ?thesis
  proof (cases "kHeaderSize + length payload \<le> m")
    case True
    then have U': "U = physical_record t payload @ take (m - (kHeaderSize + length payload)) rest"
      using U h by simp
    have long: "kHeaderSize + length payload \<le> length (buffer this)"
    proof (cases "eof this")
      case True
      then have "buffer this = U" using at by (simp add: reader_at_def)
      then show ?thesis using U' h by simp
    next
      case False
      then show ?thesis using at fits by (simp add: reader_at_def)
    qed
    define tail where "tail = drop (kHeaderSize + length payload) (buffer this)"
    have b: "buffer this = physical_record t payload @ tail"
    proof -
      have "take (kHeaderSize + length payload) (buffer this) = physical_record t payload"
        using long h by (subst buf) (simp add: U' min_absorb1)
      then show ?thesis by (metis append_take_drop_id tail_def)
    qed
    have "ReadPhysicalRecord acc fl result this = parse_physical acc result this"
      using long by (simp add: ReadPhysicalRecord.simps [of acc fl result this])
    also have "\<dots> = Ret (t, payload, this \<lparr> buffer := tail \<rparr>)"
      using parse_record [OF assms(1) t len b] at by (simp add: reader_at_def)
    finally have "ReadPhysicalRecord acc fl result this = Ret (t, payload, this \<lparr> buffer := tail \<rparr>)" .
    moreover have "reader_at content (this \<lparr> buffer := tail \<rparr>) (off + kHeaderSize + length payload)
        (take (m - (kHeaderSize + length payload)) rest)"
      using at U' b h fits by (auto simp: reader_at_def)
    ultimately show ?thesis using True by auto
  next
    case False
    have eof: "eof this"
    proof (rule ccontr)
      assume "\<not> eof this"
      then have "kHeaderSize + length payload \<le> length U" using at fits by (simp add: reader_at_def)
      then show False using U False by simp
    qed
    then have b: "buffer this = take m (physical_record t payload @ rest)" using at U by (simp add: reader_at_def)
    have "length (buffer this) = m" using False h by (simp add: b)
    then show ?thesis
      using False eof parse_cut_record [OF t len b, of acc result]
      by (simp add: ReadPhysicalRecord.simps [of acc fl result this] not_less)
  qed
qed

lemma read_end_of_file:
  assumes "reader_at content this off U" and "length U < kHeaderSize" and "eof this"
  shows "ReadPhysicalRecord acc fl result this = Ret (kEof, result, this \<lparr> buffer := [] \<rparr>)"
  using assms by (simp add: ReadPhysicalRecord.simps [of acc fl result this] reader_at_def)

text \<open>Reading the next physical record, wherever the block ends.\<close>

lemma read_physical_record:
  assumes acc: "accelerated_ok acc" and works: "reads_content fl content" and at: "reader_at content this off U"
    and U: "U = take m (padding off @ physical_record t payload @ rest)"
    and t: "t \<in> {1, 2, 3, 4}" and fits: "block_start off + kHeaderSize + length payload \<le> kBlockSize"
  shows "if length (padding off) + kHeaderSize + length payload \<le> m
    then \<exists>this'. ReadPhysicalRecord acc fl result this = Ret (t, payload, this') \<and>
      reader_at content this' (block_start off + kHeaderSize + length payload)
        (take (m - (length (padding off) + kHeaderSize + length payload)) rest) \<and>
      reports this' = reports this
    else \<exists>this'. ReadPhysicalRecord acc fl result this = Ret (kEof, result, this') \<and> reports this' = reports this"
proof (cases "kBlockSize - off < kHeaderSize")
  case False
  then have "padding off = []" "block_start off = off" by (simp_all add: padding_def block_start_def)
  then show ?thesis using read_in_block [OF acc at _ t, of m payload rest] U fits by simp
next
  case True
  let ?p = "kBlockSize - off"
  have p: "length (padding off) = ?p" "block_start off = 0" using True by (simp_all add: padding_def block_start_def)
  have len: "length payload < 65536" using fits by (simp add: size_defs)
  note h = physical_record_header(1) [OF len t]
  show ?thesis
  proof (cases "eof this")
    case True
    then have "off + length (buffer this) \<le> kBlockSize" "U = buffer this" using at by (simp_all add: reader_at_def)
    then have short: "length U \<le> ?p" by auto
    have "m \<le> ?p"
    proof (rule ccontr)
      assume "\<not> m \<le> ?p"
      then have "?p < length U" using U h p by (simp add: kHeaderSize_def)
      with short show False by simp
    qed
    then show ?thesis
      using read_end_of_file [OF at _ True, of acc fl result] short \<open>?p < kHeaderSize\<close> p by (simp add: size_defs)
  next
    case False
    then have buf: "length (buffer this) = ?p" "?p \<le> length U" using at by (simp_all add: reader_at_def)
    have pm: "?p \<le> m" using buf(2) U by simp
    have "drop ?p U = take (m - ?p) (physical_record t payload @ rest)"
      unfolding U drop_take using p by (simp del: take_append)
    then obtain this' where this': "ReadPhysicalRecord acc fl result this = ReadPhysicalRecord acc fl result this'"
        "reader_at content this' 0 (take (m - ?p) (physical_record t payload @ rest))" "reports this' = reports this"
      using fill_block [OF works at _ False, of acc result] buf True by auto
    show ?thesis
      using read_in_block [OF acc this'(2) refl t, of fl result] this'(1,3) p pm fits
      by (cases "kHeaderSize + length payload \<le> m - ?p") (auto simp: le_diff_conv2 ac_simps)
  qed
qed

lemma read_nothing:
  assumes "reads_content fl content" and at: "reader_at content this off []"
  shows "\<exists>this'. ReadPhysicalRecord acc fl result this = Ret (kEof, result, this') \<and> reports this' = reports this"
proof (cases "eof this")
  case True
  then show ?thesis using read_end_of_file [OF at] by (simp add: kHeaderSize_def)
next
  case False
  have "length (buffer this) < kHeaderSize" using at by (simp add: reader_at_def kHeaderSize_def)
  with fill_block [OF assms this False, of acc result] obtain this' where
      "ReadPhysicalRecord acc fl result this = ReadPhysicalRecord acc fl result this'" "reports this' = reports this"
      and at': "reader_at content this' 0 []" and "eof this' \<or> kHeaderSize \<le> length (buffer this')"
    by auto
  then show ?thesis using read_end_of_file [OF at'] by (auto simp: reader_at_def kHeaderSize_def)
qed

text \<open>The loop of \<open>ReadRecord\<close> joins the fragments that the writer's loop made.\<close>

lemma fragment_fits:
  "off \<le> kBlockSize \<Longrightarrow> block_start off + kHeaderSize + frag_len off len \<le> kBlockSize"
  by (auto simp: frag_len_def block_start_def size_defs min_def)

lemma read_loop_fragment:
  assumes "ReadPhysicalRecord acc fl fragment this = Ret (fragment_type first fin, payload, this')"
    and "reader_at content this' off U"
  shows "read_loop (Suc fuel) acc fl (\<not> first) offset fragment scratch this =
    (if fin then Ret (True, if first then payload else scratch @ payload,
       this' \<lparr> last_record_offset := (if first then end_of_buffer_offset this' - buffer_size this' -
         of_nat kHeaderSize - of_nat (length payload) else offset) \<rparr>)
     else read_loop fuel acc fl True
       (if first then end_of_buffer_offset this' - buffer_size this' - of_nat kHeaderSize - of_nat (length payload)
        else offset) payload (if first then payload else scratch @ payload) this')"
proof -
  have settled [simp]: "this' \<lparr> resyncing := False \<rparr> = this'" "\<not> resyncing this'"
    using assms(2) by (simp_all add: reader_at_def)
  then show ?thesis
    using assms(1) by (simp add: Let_def fragment_type_def type_defs)
qed


lemma read_loop_record:
  assumes acc: "accelerated_ok acc" and works: "reads_content fl content"
  shows "reader_at content this off (take m (fst (record_bytes off first data) @ rest)) \<Longrightarrow>
    length (take m (fst (record_bytes off first data) @ rest)) < fuel \<Longrightarrow>
    (if length (fst (record_bytes off first data)) \<le> m
     then \<exists>this'. read_loop fuel acc fl (\<not> first) offset fragment scratch this =
         Ret (True, if first then data else scratch @ data, this') \<and>
       reader_at content this' (snd (record_bytes off first data))
         (take (m - length (fst (record_bytes off first data))) rest) \<and> reports this' = reports this
     else \<exists>this'. read_loop fuel acc fl (\<not> first) offset fragment scratch this = Ret (False, [], this') \<and>
       reports this' = reports this)"
proof (induction off first data arbitrary: m this fuel offset fragment scratch rule: record_bytes.induct)
  case (1 off first data)
  let ?n = "frag_len off (length data)" and ?fin = "length data = frag_len off (length data)"
  let ?off' = "block_start off + kHeaderSize + ?n" and ?take = "take (frag_len off (length data)) data"
  let ?t = "fragment_type first ?fin" and ?L = "length (padding off) + kHeaderSize + ?n"
  let ?more = "if ?fin then rest else fst (record_bytes ?off' False (drop ?n data)) @ rest"
  have n: "?n \<le> length data" by (simp add: frag_len_def)
  have off: "off \<le> kBlockSize" using "1.prems"(1) by (simp add: reader_at_def)
  have fits: "block_start off + kHeaderSize + length ?take \<le> kBlockSize"
    using fragment_fits [OF off] n by simp
  have len: "length ?take < 65536" using fits by (simp add: size_defs)
  have rec: "fst (record_bytes off first data) =
      padding off @ physical_record ?t ?take @ (if ?fin then [] else fst (record_bytes ?off' False (drop ?n data)))"
      "snd (record_bytes off first data) = (if ?fin then ?off' else snd (record_bytes ?off' False (drop ?n data)))"
    using n by (auto simp: record_bytes.simps [of off first data] Let_def)
  have all: "fst (record_bytes off first data) @ rest = padding off @ physical_record ?t ?take @ ?more"
    by (simp add: rec(1))
  have L: "length (fst (record_bytes off first data)) =
      ?L + (if ?fin then 0 else length (fst (record_bytes ?off' False (drop ?n data))))"
    using physical_record_header(1) [OF len fragment_type_range, of first ?fin] n by (simp add: rec(1))
  obtain fuel' where fuel': "fuel = Suc fuel'" using "1.prems"(2) by (cases fuel) auto
  note step = read_physical_record [OF acc works "1.prems"(1) [unfolded all] refl fragment_type_range fits,
      of fragment]
  show ?case
  proof (cases "?L \<le> m")
    case False
    then obtain this' where this': "ReadPhysicalRecord acc fl fragment this = Ret (kEof, fragment, this')"
        "reports this' = reports this"
      using step n by auto
    then have "read_loop fuel acc fl (\<not> first) offset fragment scratch this =
        Ret (False, [], this' \<lparr> resyncing := False \<rparr>)"
      by (simp add: fuel' Let_def kEof_def type_defs)
    with False L this'(2) show ?thesis by simp
  next
    case True
    then obtain this' where this': "ReadPhysicalRecord acc fl fragment this = Ret (?t, ?take, this')"
        "reader_at content this' ?off' (take (m - ?L) ?more)" "reports this' = reports this"
      using step n by auto
    note loop = read_loop_fragment [OF this'(1,2), of fuel' offset scratch, folded fuel']
    show ?thesis
    proof (cases ?fin)
      case fin: True
      then have "?take = data" by simp
      then show ?thesis using loop fin L True this'(2,3) by (auto simp: reader_at_def rec(2) buffer_size_def)
    next
      case fin: False
      then have less: "?n < length data" using n by simp
      have U: "take m (fst (record_bytes off first data) @ rest) =
          (padding off @ physical_record ?t ?take) @ take (m - ?L) ?more"
        using True physical_record_header(1) [OF len fragment_type_range, of first ?fin] n
        by (simp add: all take_append_long add.assoc flip: append_assoc)
      have "kHeaderSize \<le> length (padding off @ physical_record ?t ?take)"
        using physical_record_header(1) [OF len fragment_type_range, of first ?fin] by simp
      then have short: "length (take (m - ?L) ?more) < fuel'"
        using "1.prems"(2) unfolding U fuel' length_append by (simp add: kHeaderSize_def)
      have more: "?more = fst (record_bytes ?off' False (drop ?n data)) @ rest" using fin by simp
      let ?o = "if first then end_of_buffer_offset this' - buffer_size this' - of_nat kHeaderSize -
        of_nat (length ?take) else offset"
      note ih = "1.IH" [OF refl refl refl less this'(2) [unfolded more] short [unfolded more],
          where offset = ?o and fragment = ?take and scratch = "if first then ?take else scratch @ ?take"]
      show ?thesis
        using ih loop fin L True this'(3)
        by (cases "length (fst (record_bytes ?off' False (drop ?n data))) \<le> m - ?L")
          (auto simp: rec(2) le_diff_conv2 ac_simps)
    qed
  qed
qed

end
