(* ===== verification/LdbLogSpec.thy ===== *)
theory LdbLogSpec
  imports LdbLogReader
begin

text \<open>
  The writer and the reader of the log against each other. A log is a sequence of records; the writer
  implements its bytes, also when a file is closed and opened again, and the reader returns the records.
  When the file is cut anywhere the reader returns the records that are whole and reports no corruption.
\<close>

section \<open>The bytes of a log\<close>

text \<open>A log: the records one after the other, each in the block the one before it ended in.\<close>

fun log_bytes :: "nat \<Rightarrow> slice list \<Rightarrow> slice \<times> nat" where
  "log_bytes off [] = ([], off)"
| "log_bytes off (data # recs) =
     (let (bytes, off') = record_bytes off True data; (more, off'') = log_bytes off' recs
      in (bytes @ more, off''))"

lemma log_bytes_Cons [simp]:
  "fst (log_bytes off (data # recs)) =
     fst (record_bytes off True data) @ fst (log_bytes (snd (record_bytes off True data)) recs)"
  "snd (log_bytes off (data # recs)) = snd (log_bytes (snd (record_bytes off True data)) recs)"
  by (simp_all add: case_prod_beta)

lemma record_bytes_ne: "kHeaderSize \<le> length (fst (record_bytes off first data))"
  by (subst record_bytes.simps) (simp add: Let_def physical_record_def kHeaderSize_def)

lemma ReadRecord_from_start:
  "reader_at content this off U \<Longrightarrow> ReadRecord fuel acc fl this = read_loop fuel acc fl False 0 [] [] this"
  by (simp add: ReadRecord_def reader_at_def)

text \<open>How many records are whole in the first \<open>m\<close> bytes.\<close>

fun whole_records :: "nat \<Rightarrow> nat \<Rightarrow> slice list \<Rightarrow> nat" where
  "whole_records m off [] = 0"
| "whole_records m off (data # recs) =
     (let n = length (fst (record_bytes off True data))
      in if n \<le> m then Suc (whole_records (m - n) (snd (record_bytes off True data)) recs) else 0)"

lemma whole_records_correct:
  "k \<le> length recs \<Longrightarrow> length (fst (log_bytes off (take k recs))) \<le> m \<longleftrightarrow> k \<le> whole_records m off recs"
proof (induction m off recs arbitrary: k rule: whole_records.induct)
  case (2 m off data recs)
  show ?case
  proof (cases k)
    case (Suc k')
    let ?n = "length (fst (record_bytes off True data))" and ?off = "snd (record_bytes off True data)"
    have "?n + length (fst (log_bytes ?off (take k' recs))) \<le> m \<longleftrightarrow>
        ?n \<le> m \<and> length (fst (log_bytes ?off (take k' recs))) \<le> m - ?n"
      by auto
    then show ?thesis using Suc 2(1) [OF refl, of k'] 2(2) by (simp add: Let_def del: log_bytes.simps)
  qed simp
qed simp

lemma whole_records_le: "whole_records m off recs \<le> length recs"
  by (induction m off recs rule: whole_records.induct) (simp_all add: Let_def)

lemma whole_records_all: "length (fst (log_bytes off recs)) \<le> m \<Longrightarrow> whole_records m off recs = length recs"
  using whole_records_correct [of "length recs" recs off m] whole_records_le [of m off recs] by simp

text \<open>Reading the first \<open>m\<close> bytes of a log: the whole records, and nothing is reported.\<close>

lemma read_all_log:
  assumes acc: "accelerated_ok acc" and works: "reads_content fl content"
  shows "reader_at content this off (take m (fst (log_bytes off recs))) \<Longrightarrow>
    Suc (length (take m (fst (log_bytes off recs)))) < fuel \<Longrightarrow>
    \<exists>this'. read_all fuel acc fl this = Ret (take (whole_records m off recs) recs, this') \<and>
      reports this' = reports this"
proof (induction recs arbitrary: m off this fuel)
  case Nil
  then obtain fuel' where fuel': "fuel = Suc (Suc fuel')" by (cases fuel; cases "fuel - 1") auto
  have at: "reader_at content this off []" using Nil(1) by simp
  obtain this' where "ReadPhysicalRecord acc fl [] this = Ret (kEof, [], this')" "reports this' = reports this"
    using read_nothing [OF works at] by blast
  then show ?case
    using fuel' ReadRecord_from_start [OF at] by (simp add: Let_def kEof_def type_defs)
next
  case (Cons data recs)
  let ?R = "fst (record_bytes off True data)" and ?off = "snd (record_bytes off True data)"
  let ?rest = "fst (log_bytes (snd (record_bytes off True data)) recs)"
  obtain fuel' where fuel': "fuel = Suc fuel'" using Cons.prems(2) by (cases fuel) auto
  have at: "reader_at content this off (take m (?R @ ?rest))"
    and short: "length (take m (?R @ ?rest)) < fuel'"
    using Cons.prems fuel' by (simp_all del: log_bytes.simps take_append)
  note step = read_loop_record [OF acc works at short, of 0 "[]" "[]"]
  show ?case
  proof (cases "length ?R \<le> m")
    case True
    then obtain this1 where this1: "read_loop fuel' acc fl False 0 [] [] this = Ret (True, data, this1)"
        "reader_at content this1 ?off (take (m - length ?R) ?rest)" "reports this1 = reports this"
      using step by auto
    have "Suc (length (take (m - length ?R) ?rest)) < fuel'"
      using short True record_bytes_ne [of off True data] by (simp add: take_append_long kHeaderSize_def)
    from Cons.IH [OF this1(2) this] this1(1,3) True show ?thesis
      by (auto simp: fuel' ReadRecord_from_start [OF at] Let_def)
  next
    case False
    then obtain this1 where "read_loop fuel' acc fl False 0 [] [] this = Ret (False, [], this1)"
        "reports this1 = reports this"
      using step by auto
    with False show ?thesis by (simp add: fuel' ReadRecord_from_start [OF at] Let_def)
  qed
qed

section \<open>Writing a log\<close>

text \<open>A block that is full is as good as one that is empty.\<close>

lemma record_bytes_full: "record_bytes kBlockSize first data = record_bytes 0 first data"
proof -
  have "padding kBlockSize = padding 0" "block_start kBlockSize = block_start 0"
    "frag_len kBlockSize (length data) = frag_len 0 (length data)"
    by (simp_all add: padding_def block_start_def frag_len_def size_defs)
  then show ?thesis
    by (simp add: record_bytes.simps [of kBlockSize first data] record_bytes.simps [of 0 first data])
qed

lemma log_bytes_full: "fst (log_bytes kBlockSize recs) = fst (log_bytes 0 recs)"
  by (cases recs) (simp_all add: record_bytes_full del: log_bytes.simps(2))

lemma log_bytes_append:
  "fst (log_bytes off (recs @ recs')) = fst (log_bytes off recs) @ fst (log_bytes (snd (log_bytes off recs)) recs')"
  "snd (log_bytes off (recs @ recs')) = snd (log_bytes (snd (log_bytes off recs)) recs')"
  by (induction recs arbitrary: off) (simp_all del: log_bytes.simps(2))

text \<open>The fill level of the last block is the length of the file modulo the size of a block.\<close>

lemma record_bytes_level:
  "off \<le> kBlockSize \<Longrightarrow> snd (record_bytes off first data) \<le> kBlockSize \<and>
   (off + length (fst (record_bytes off first data))) mod kBlockSize = snd (record_bytes off first data) mod kBlockSize"
proof (induction off first data rule: record_bytes.induct)
  case (1 off first data)
  let ?n = "frag_len off (length data)"
  let ?off' = "block_start off + kHeaderSize + ?n"
  let ?t = "fragment_type first (length data = ?n)" and ?take = "take (frag_len off (length data)) data"
  let ?len = "length (padding off @ physical_record ?t ?take)"
  have n: "length ?take = ?n" by (simp add: frag_len_def)
  have fits: "?off' \<le> kBlockSize" using fragment_fits [OF "1.prems"] .
  have "length (physical_record ?t ?take) = kHeaderSize + ?n"
    using n by (simp add: physical_record_def kHeaderSize_def)
  then have "(off + ?len) mod kBlockSize = ?off' mod kBlockSize"
    using "1.prems" by (auto simp: padding_def block_start_def add.assoc)
  then have level: "(off + ?len + k) mod kBlockSize = (?off' + k) mod kBlockSize" for k
    by (metis mod_add_left_eq)
  show ?case
  proof (cases "?n < length data")
    case True
    note ih = "1.IH"(1) [OF refl refl refl True fits]
    show ?thesis
      using ih level True by (simp add: record_bytes.simps [of off first data] Let_def add.assoc)
  next
    case False
    then show ?thesis
      using fits level [of 0] by (simp add: record_bytes.simps [of off first data] Let_def)
  qed
qed

lemma log_bytes_level:
  "off \<le> kBlockSize \<Longrightarrow> snd (log_bytes off recs) \<le> kBlockSize \<and>
   (off + length (fst (log_bytes off recs))) mod kBlockSize = snd (log_bytes off recs) mod kBlockSize"
proof (induction recs arbitrary: off)
  case (Cons data recs)
  let ?R = "record_bytes off True data"
  have "(off + (length (fst ?R) + k)) mod kBlockSize = (snd ?R + k) mod kBlockSize" for k
    using record_bytes_level [OF Cons.prems, of True data] by (metis add.assoc mod_add_left_eq)
  then show ?case
    using Cons.IH [of "snd ?R"] record_bytes_level [OF Cons.prems, of True data]
    by (simp del: log_bytes.simps(2))
qed simp

lemma log_bytes_reopened:
  "off \<le> kBlockSize \<Longrightarrow> fst (log_bytes (off mod kBlockSize) recs) = fst (log_bytes off recs)"
  by (cases "off = kBlockSize") (simp_all add: log_bytes_full kBlockSize_def [symmetric])

text \<open>A client that adds records while that works.\<close>

fun add_records ::
    "(u32 \<Rightarrow> slice \<Rightarrow> u32) \<Rightarrow> 'w WritableFile \<Rightarrow> slice list \<Rightarrow> 'w Writer \<Rightarrow> (Status \<times> 'w Writer) res" where
  "add_records acc file [] this = Ret (OK, this)"
| "add_records acc file (data # recs) this =
     res_bind (AddRecord acc file data this) (\<lambda>(s, this).
       if Status_ok s then add_records acc file recs this else Ret (s, this))"

lemma add_records_bytes:
  assumes "accelerated_ok acc" and "appends file content"
  shows "writer_ok this \<Longrightarrow>
    \<exists>this'. add_records acc file recs this = Ret (OK, this') \<and>
      content (dest this') = content (dest this) @ fst (log_bytes (block_offset this) recs)"
proof (induction recs arbitrary: this)
  case (Cons data recs)
  obtain this1 where "add_loop acc file True data this = Ret (OK, this1)" "writer_ok this1"
      "content (dest this1) = content (dest this) @ fst (record_bytes (block_offset this) True data)"
      "block_offset this1 = snd (record_bytes (block_offset this) True data)"
    using add_loop_bytes [OF assms Cons.prems] by blast
  moreover obtain this2 where "add_records acc file recs this1 = Ret (OK, this2)"
      "content (dest this2) = content (dest this1) @ fst (log_bytes (block_offset this1) recs)"
    using Cons.IH \<open>writer_ok this1\<close> by blast
  ultimately show ?case by (simp add: AddRecord_def del: log_bytes.simps(2))
qed simp

definition write_log ::
    "(u32 \<Rightarrow> slice \<Rightarrow> u32) \<Rightarrow> 'w WritableFile \<Rightarrow> slice list \<Rightarrow> 'w \<Rightarrow> (Status \<times> 'w Writer) res" where
  "write_log acc file recs w = res_bind (new_Writer_empty acc w) (add_records acc file recs)"

definition extend_log ::
    "(u32 \<Rightarrow> slice \<Rightarrow> u32) \<Rightarrow> 'w WritableFile \<Rightarrow> slice list \<Rightarrow> u64 \<Rightarrow> 'w \<Rightarrow> (Status \<times> 'w Writer) res" where
  "extend_log acc file recs len w = res_bind (new_Writer acc w len) (add_records acc file recs)"

lemma write_log_bytes:
  assumes "accelerated_ok acc" and "appends file content" and "content w = []"
  shows "\<exists>wr. write_log acc file recs w = Ret (OK, wr) \<and> content (dest wr) = fst (log_bytes 0 recs)"
  using new_Writer_ok(1) [OF assms(1), of w] add_records_bytes [OF assms(1,2), of _ recs] assms(3)
  by (fastforce simp: write_log_def)

lemma extend_log_bytes:
  assumes "accelerated_ok acc" and "appends file content"
    and "content w = fst (log_bytes 0 recs)" "length (content w) < 2 ^ 64"
  shows "\<exists>wr. extend_log acc file recs' (of_nat (length (content w))) w = Ret (OK, wr) \<and>
    content (dest wr) = fst (log_bytes 0 (recs @ recs'))"
proof -
  let ?len = "length (content w)"
  obtain wr where wr: "new_Writer acc w (of_nat ?len) = Ret wr" "writer_ok wr"
      "block_offset wr = ?len mod kBlockSize" "dest wr = w"
    using new_Writer_ok(2) [OF assms(1), of w "of_nat ?len"] assms(4)
    by (auto simp: unat_of_nat take_bit_nat_eq_self)
  have level: "snd (log_bytes 0 recs) \<le> kBlockSize" "?len mod kBlockSize = snd (log_bytes 0 recs) mod kBlockSize"
    using log_bytes_level [of 0 recs] by (simp_all add: assms(3))
  obtain wr' where "add_records acc file recs' wr = Ret (OK, wr')"
      "content (dest wr') = content w @ fst (log_bytes (block_offset wr) recs')"
    using add_records_bytes [OF assms(1,2) wr(2), of recs'] wr(4) by auto
  with wr level show ?thesis
    by (simp add: extend_log_def assms(3) log_bytes_append log_bytes_reopened)
qed

section \<open>Properties\<close>

text \<open>C19: what is added to a log, also after it was closed and opened again, is what a reader returns, record
  for record, with the checksums verified or not; the fuel is the size of the file and two more, and
  nothing is reported to the reporter.\<close>

theorem Log_round_trip:
  assumes "accelerated_ok acc" and "appends file written" and "reads_content fl content" and "written w = []"
  shows "\<exists>wr. write_log acc file recs w = Ret (OK, wr) \<and>
    (length (written (dest wr)) < 2 ^ 64 \<longrightarrow>
     (\<exists>wr'. extend_log acc file recs' (of_nat (length (written (dest wr)))) (dest wr) = Ret (OK, wr') \<and>
       (\<forall>f fuel. content f = written (dest wr') \<and> length (content f) + 2 \<le> fuel \<longrightarrow>
         (\<exists>rd. read_all fuel acc fl (new_Reader f reporter checksum 0) = Ret (recs @ recs', rd) \<and>
           reports rd = []))))"
proof -
  obtain wr where wr: "write_log acc file recs w = Ret (OK, wr)" "written (dest wr) = fst (log_bytes 0 recs)"
    using write_log_bytes [OF assms(1,2,4)] by blast
  have "\<exists>rd. read_all fuel acc fl (new_Reader f reporter checksum 0) = Ret (recs @ recs', rd) \<and> reports rd = []"
    if f: "content f = fst (log_bytes 0 (recs @ recs'))" and fuel: "length (content f) + 2 \<le> fuel" for f fuel
  proof -
    let ?U = "fst (log_bytes kBlockSize (recs @ recs'))"
    have U: "content f = take (length ?U) ?U" using f by (simp add: log_bytes_full)
    show ?thesis
      using read_all_log [OF assms(1,3) reader_at_new [where content = content, OF U, of reporter checksum], of fuel] fuel
        whole_records_all [of kBlockSize "recs @ recs'" "length ?U"]
      by (simp add: f log_bytes_full new_Reader_def)
  qed
  then show ?thesis using wr extend_log_bytes [OF assms(1,2) wr(2), of recs'] by auto
qed

text \<open>A file in memory, to write and to read.\<close>

definition memory_file :: "slice WritableFile" where
  "memory_file = \<lparr> Writable_Append = (\<lambda>d w. (OK, w @ d)), Writable_Flush = (\<lambda>w. (OK, w)) \<rparr>"

definition memory_reader :: "slice SequentialFile" where
  "memory_reader = \<lparr> Seq_Read = (\<lambda>n f. (OK, take n f, drop n f)), Seq_Skip = (\<lambda>n f. (OK, drop (unat n) f)) \<rparr>"

lemma memory_file_ok: "appends memory_file (\<lambda>w. w)" "reads_content memory_reader (\<lambda>f. f)"
  by (simp_all add: appends_def memory_file_def reads_content_def memory_reader_def)

theorem Log_round_trip_witness:
  "\<exists>wr. write_log (\<lambda>_ _. 0) memory_file [[1, 2], []] [] = Ret (OK, wr) \<and>
    (length (dest wr) < 2 ^ 64 \<longrightarrow>
     (\<exists>wr'. extend_log (\<lambda>_ _. 0) memory_file [[3]] (of_nat (length (dest wr))) (dest wr) = Ret (OK, wr') \<and>
       (\<forall>f fuel. f = dest wr' \<and> length f + 2 \<le> fuel \<longrightarrow>
         (\<exists>rd. read_all fuel (\<lambda>_ _. 0) memory_reader (new_Reader f True True 0) = Ret ([[1, 2], [], [3]], rd) \<and>
           reports rd = []))))"
  using Log_round_trip [OF port_stub_ok memory_file_ok refl, of "[[1, 2], []]" "[[3]]" True True] by simp

text \<open>C20: when the machine stops in the middle of a write, the file ends anywhere. The reader returns the
  records that are whole in it, a prefix of what was added and the longest one, and reports no corruption.\<close>

theorem Log_survives_crash:
  assumes "accelerated_ok acc" and "appends file written" and "reads_content fl content" and "written w = []"
  shows "\<exists>k \<le> length recs. \<forall>f fuel.
    (\<exists>wr. write_log acc file recs w = Ret (OK, wr) \<and> content f = take m (written (dest wr))) \<and>
      length (content f) + 2 \<le> fuel \<longrightarrow>
    (\<exists>rd. read_all fuel acc fl (new_Reader f reporter checksum 0) = Ret (take k recs, rd) \<and> reports rd = []) \<and>
    (\<forall>j \<le> length recs. \<forall>wr. write_log acc file (take j recs) w = Ret (OK, wr) \<longrightarrow>
       (length (written (dest wr)) \<le> m \<longleftrightarrow> j \<le> k))"
proof -
  let ?k = "whole_records m kBlockSize recs"
  have bytes: "written (dest wr) = fst (log_bytes kBlockSize rs)"
    if "write_log acc file rs w = Ret (OK, wr)" for wr rs
    using write_log_bytes [OF assms(1,2,4), of rs] that by (auto simp: log_bytes_full)
  have read: "\<exists>rd. read_all fuel acc fl (new_Reader f reporter checksum 0) = Ret (take ?k recs, rd) \<and> reports rd = []"
    if "content f = take m (fst (log_bytes kBlockSize recs))" "length (content f) + 2 \<le> fuel" for f fuel
    using read_all_log [OF assms(1,3) reader_at_new [where content = content, OF that(1), of reporter checksum], of fuel] that
    by (simp add: new_Reader_def)
  show ?thesis
    using whole_records_le [of m kBlockSize recs] bytes read
      whole_records_correct [of _ recs kBlockSize m] by (intro exI [of _ ?k]) auto
qed

theorem Log_survives_crash_witness:
  "\<exists>k \<le> 2. \<forall>f fuel.
    (\<exists>wr. write_log (\<lambda>_ _. 0) memory_file [[1, 2], [3]] [] = Ret (OK, wr) \<and> f = take 10 (dest wr)) \<and>
      length f + 2 \<le> fuel \<longrightarrow>
    (\<exists>rd. read_all fuel (\<lambda>_ _. 0) memory_reader (new_Reader f True True 0) = Ret (take k [[1, 2], [3]], rd) \<and>
      reports rd = []) \<and>
    (\<forall>j \<le> 2. \<forall>wr. write_log (\<lambda>_ _. 0) memory_file (take j [[1, 2], [3]]) [] = Ret (OK, wr) \<longrightarrow>
       (length (dest wr) \<le> 10 \<longleftrightarrow> j \<le> k))"
  using Log_survives_crash [OF port_stub_ok memory_file_ok refl, of "[[1, 2], [3]]" 10 True True]
  by (simp add: numeral_2_eq_2)

end
