(* ===== verification/LdbArena.thy ===== *)
theory LdbArena
  imports Prelude
begin

text \<open>
  The arena of \<open>arena.h\<close> and \<open>arena.cc\<close>, from which a memtable takes the memory of its entries and nodes. The
  operator \<open>new char[]\<close> is a parameter: \<open>new_array n bs\<close> is the address of a block of \<open>n\<close> bytes when the
  blocks \<open>bs\<close> are taken. What it promises of the blocks is \<open>blocks_ok\<close>; running out of memory ends the program.
  Shown is that what the arena hands out lies inside its blocks and never overlaps.
\<close>

unbundle bit_operations_syntax

section \<open>The arena\<close>

definition kArenaBlockSize :: u64 where "kArenaBlockSize = 4096"

text \<open>\<open>blocks_\<close> with the size each block was requested with.\<close>

type_synonym region = "u64 \<times> u64"

record Arena =
  alloc_ptr :: u64
  alloc_bytes_remaining :: u64
  arena_blocks :: "region list"
  memory_usage :: u64

definition new_Arena :: Arena where
  "new_Arena = \<lparr> alloc_ptr = 0, alloc_bytes_remaining = 0, arena_blocks = [], memory_usage = 0 \<rparr>"

definition MemoryUsage :: "Arena \<Rightarrow> u64" where
  "MemoryUsage this = memory_usage this"

type_synonym new_operator = "u64 \<Rightarrow> region list \<Rightarrow> u64"

definition AllocateNewBlock :: "new_operator \<Rightarrow> u64 \<Rightarrow> Arena \<Rightarrow> u64 \<times> Arena" where
  "AllocateNewBlock new_array block_bytes this =
     (let result = new_array block_bytes (arena_blocks this)
      in (result, this \<lparr> arena_blocks := arena_blocks this @ [(result, block_bytes)],
                         memory_usage := memory_usage this + (block_bytes + 8) \<rparr>))"

definition AllocateFallback :: "new_operator \<Rightarrow> u64 \<Rightarrow> Arena \<Rightarrow> u64 \<times> Arena" where
  "AllocateFallback new_array bytes this =
     (if kArenaBlockSize div 4 < bytes then AllocateNewBlock new_array bytes this
      else case AllocateNewBlock new_array kArenaBlockSize this of (p, this) \<Rightarrow>
             let this = this \<lparr> alloc_ptr := p, alloc_bytes_remaining := kArenaBlockSize \<rparr>;
                 result = alloc_ptr this
             in (result, this \<lparr> alloc_ptr := alloc_ptr this + bytes,
                               alloc_bytes_remaining := alloc_bytes_remaining this - bytes \<rparr>))"

definition Arena_Allocate :: "new_operator \<Rightarrow> u64 \<Rightarrow> Arena \<Rightarrow> u64 \<times> Arena" where
  "Arena_Allocate new_array bytes this =
     (if bytes \<le> alloc_bytes_remaining this
      then (alloc_ptr this, this \<lparr> alloc_ptr := alloc_ptr this + bytes,
                                  alloc_bytes_remaining := alloc_bytes_remaining this - bytes \<rparr>)
      else AllocateFallback new_array bytes this)"

definition arena_align :: u64 where "arena_align = 8"

definition AllocateAligned :: "new_operator \<Rightarrow> u64 \<Rightarrow> Arena \<Rightarrow> u64 \<times> Arena" where
  "AllocateAligned new_array bytes this =
     (let current_mod = alloc_ptr this AND (arena_align - 1);
          slop = (if current_mod = 0 then 0 else arena_align - current_mod);
          needed = bytes + slop
      in if needed \<le> alloc_bytes_remaining this
         then (alloc_ptr this + slop,
               this \<lparr> alloc_ptr := alloc_ptr this + needed,
                      alloc_bytes_remaining := alloc_bytes_remaining this - needed \<rparr>)
         else AllocateFallback new_array bytes this)"

section \<open>Regions of memory\<close>

definition within :: "region \<Rightarrow> region \<Rightarrow> bool" where
  "within r b \<longleftrightarrow> unat (fst b) \<le> unat (fst r) \<and> unat (fst r) + unat (snd r) \<le> unat (fst b) + unat (snd b)"

definition apart :: "region \<Rightarrow> region \<Rightarrow> bool" where
  "apart r s \<longleftrightarrow> unat (fst r) + unat (snd r) \<le> unat (fst s) \<or> unat (fst s) + unat (snd s) \<le> unat (fst r)"

definition aligned :: "u64 \<Rightarrow> bool" where
  "aligned p \<longleftrightarrow> unat p mod 8 = 0"

text \<open>What \<open>new char[]\<close> promises: aligned blocks inside the address space that do not overlap.\<close>

definition blocks_ok :: "region list \<Rightarrow> bool" where
  "blocks_ok bs \<longleftrightarrow> (\<forall>b \<in> set bs. aligned (fst b) \<and> unat (fst b) + unat (snd b) < 2 ^ 64) \<and> sorted_wrt apart bs"

text \<open>The arena has handed out the regions \<open>rs\<close>.\<close>

definition arena_ok :: "region list \<Rightarrow> Arena \<Rightarrow> bool" where
  "arena_ok rs a \<longleftrightarrow> (\<forall>r \<in> set rs. \<exists>b \<in> set (arena_blocks a). within r b) \<and> sorted_wrt apart rs \<and>
     (alloc_bytes_remaining a \<noteq> 0 \<longrightarrow>
       (\<exists>b \<in> set (arena_blocks a). within (alloc_ptr a, alloc_bytes_remaining a) b) \<and>
       (\<forall>r \<in> set rs. apart r (alloc_ptr a, alloc_bytes_remaining a))) \<and>
     memory_usage a = (\<Sum>b\<leftarrow>arena_blocks a. snd b + 8)"

lemma apart_sym: "apart r s \<longleftrightarrow> apart s r"
  by (auto simp: apart_def)

lemma within_apart: "within r b \<Longrightarrow> within s c \<Longrightarrow> apart b c \<Longrightarrow> apart r s"
  by (auto simp: within_def apart_def)

lemma within_trans: "within r s \<Longrightarrow> within s b \<Longrightarrow> within r b"
  by (auto simp: within_def)

lemma apart_within: "apart r s \<Longrightarrow> within t s \<Longrightarrow> apart r t"
  by (auto simp: within_def apart_def)

lemma arena_ok_new: "arena_ok [] new_Arena"
  by (simp add: arena_ok_def new_Arena_def)

lemma unat_plus: "unat (a :: u64) + unat b < 2 ^ 64 \<Longrightarrow> unat (a + b) = unat a + unat b"
  by (simp add: unat_word_ariths(1) take_bit_nat_eq_self)

text \<open>Cutting a piece off the front of the free region.\<close>

lemma cut_front:
  assumes ok: "arena_ok rs a" and blocks: "blocks_ok (arena_blocks a)"
    and fits: "unat slop + unat n \<le> unat (alloc_bytes_remaining a)" and n: "n \<noteq> 0"
  shows "arena_ok (rs @ [(alloc_ptr a + slop, n)])
      (a \<lparr> alloc_ptr := alloc_ptr a + (slop + n), alloc_bytes_remaining := alloc_bytes_remaining a - (slop + n) \<rparr>) \<and>
    unat (alloc_ptr a + slop) = unat (alloc_ptr a) + unat slop"
proof -
  let ?p = "alloc_ptr a" and ?m = "alloc_bytes_remaining a"
  have "?m \<noteq> 0" using fits n by (auto simp: unat_eq_0 [symmetric])
  then obtain b where b: "b \<in> set (arena_blocks a)" "within (?p, ?m) b" and free: "\<forall>r \<in> set rs. apart r (?p, ?m)"
    using ok by (auto simp: arena_ok_def)
  have room: "unat ?p + unat ?m < 2 ^ 64" using b blocks by (fastforce simp: blocks_ok_def within_def)
  have sn: "unat (slop + n) = unat slop + unat n"
    using unat_plus [of slop n] fits unsigned_less [of ?m, where ?'a = nat] by simp
  have u: "unat (?p + slop) = unat ?p + unat slop" "unat (?p + (slop + n)) = unat ?p + unat slop + unat n"
    by (subst unat_plus; use fits room sn in simp)+
  have m: "unat (?m - (slop + n)) = unat ?m - (unat slop + unat n)"
    by (subst unat_sub_u64) (use fits sn in \<open>simp_all add: word_le_nat_alt\<close>)
  have new: "within (?p + slop, n) (?p, ?m)" and rest: "within (?p + (slop + n), ?m - (slop + n)) (?p, ?m)"
    and two: "apart (?p + slop, n) (?p + (slop + n), ?m - (slop + n))"
    using fits u m by (simp_all add: within_def apart_def)
  have "sorted_wrt apart (rs @ [(?p + slop, n)])" using ok free apart_within [OF _ new] by (auto simp: arena_ok_def sorted_wrt_append)
  then show ?thesis
    using ok free b within_trans [OF new b(2)] within_trans [OF rest b(2)] two apart_within [OF _ rest] u(1)
    by (auto simp: arena_ok_def)
qed

lemma new_block_apart:
  assumes ok: "arena_ok rs a" and blocks: "blocks_ok (arena_blocks a @ [b])" and r: "r \<in> set rs"
  shows "apart r b"
proof -
  obtain c where c: "c \<in> set (arena_blocks a)" "within r c" using ok r unfolding arena_ok_def by blast
  then have "apart c b" using blocks by (auto simp: blocks_ok_def sorted_wrt_append)
  moreover have "within b b" by (simp add: within_def)
  ultimately show ?thesis using within_apart [OF c(2)] by blast
qed

lemma AllocateFallback_ok:
  assumes ok: "arena_ok rs a" and n: "n \<noteq> 0" and step: "AllocateFallback new_array n a = (p, a')"
    and blocks: "blocks_ok (arena_blocks a')"
  shows "arena_ok (rs @ [(p, n)]) a' \<and> aligned p \<and> (\<exists>bs. arena_blocks a' = arena_blocks a @ bs)"
proof (cases "kArenaBlockSize div 4 < n")
  case True
  then have p: "p = new_array n (arena_blocks a)" and a': "a' = a \<lparr> arena_blocks := arena_blocks a @ [(p, n)],
      memory_usage := memory_usage a + (n + 8) \<rparr>"
    using step by (auto simp: AllocateFallback_def AllocateNewBlock_def Let_def)
  have blocks': "blocks_ok (arena_blocks a @ [(p, n)])" using blocks a' by simp
  have self: "within (p, n) (p, n)" by (simp add: within_def)
  have "apart (p, n) (alloc_ptr a, alloc_bytes_remaining a)" if left: "alloc_bytes_remaining a \<noteq> 0"
  proof -
    obtain c where "c \<in> set (arena_blocks a)" "within (alloc_ptr a, alloc_bytes_remaining a) c"
      using ok left unfolding arena_ok_def by blast
    moreover have "\<forall>c \<in> set (arena_blocks a). apart c (p, n)"
      using blocks' unfolding blocks_ok_def by (simp add: sorted_wrt_append)
    ultimately have "apart (alloc_ptr a, alloc_bytes_remaining a) (p, n)" using within_apart [OF _ self] by blast
    then show ?thesis by (rule apart_sym [THEN iffD1])
  qed
  moreover have "\<forall>r \<in> set rs. apart r (p, n)" using new_block_apart [OF ok blocks'] by blast
  ultimately have "arena_ok (rs @ [(p, n)]) a'"
    using ok self unfolding a' arena_ok_def by (simp add: sorted_wrt_append)
  then show ?thesis using blocks' by (simp add: a' blocks_ok_def)
next
  case False
  let ?b = "new_array kArenaBlockSize (arena_blocks a)"
  define a1 where "a1 = a \<lparr> arena_blocks := arena_blocks a @ [(?b, kArenaBlockSize)],
      memory_usage := memory_usage a + (kArenaBlockSize + 8), alloc_ptr := ?b, alloc_bytes_remaining := kArenaBlockSize \<rparr>"
  have p: "p = alloc_ptr a1 + 0" and a': "a' = a1 \<lparr> alloc_ptr := alloc_ptr a1 + (0 + n),
      alloc_bytes_remaining := alloc_bytes_remaining a1 - (0 + n) \<rparr>"
    using False step by (auto simp: AllocateFallback_def AllocateNewBlock_def Let_def a1_def)
  have blocks': "blocks_ok (arena_blocks a1)" using blocks a' by simp
  then have new: "r \<in> set rs \<Longrightarrow> apart r (?b, kArenaBlockSize)" for r
    using new_block_apart [OF ok] by (simp add: a1_def)
  have ok1: "arena_ok rs a1" using ok new by (auto simp: arena_ok_def a1_def within_def)
  have fits: "unat (0 :: u64) + unat n \<le> unat (alloc_bytes_remaining a1)"
    using False by (simp add: a1_def kArenaBlockSize_def word_less_nat_alt)
  show ?thesis
    using cut_front [OF ok1 blocks' fits n] blocks' p a' by (simp add: blocks_ok_def a1_def)
qed

lemma Allocate_ok:
  assumes ok: "arena_ok rs a" and n: "n \<noteq> 0" and step: "Arena_Allocate new_array n a = (p, a')"
    and blocks: "blocks_ok (arena_blocks a')"
  shows "arena_ok (rs @ [(p, n)]) a' \<and> (\<exists>bs. arena_blocks a' = arena_blocks a @ bs)"
proof (cases "n \<le> alloc_bytes_remaining a")
  case True
  then show ?thesis using cut_front [of rs a 0 n] assms by (auto simp: Arena_Allocate_def word_le_nat_alt)
next
  case False
  then show ?thesis using AllocateFallback_ok [OF ok n _ blocks] step by (simp add: Arena_Allocate_def)
qed

lemma align_slop:
  fixes p :: u64
  defines "m \<equiv> p AND (arena_align - 1)"
  defines "slop \<equiv> (if m = 0 then 0 else arena_align - m)"
  shows "unat slop < 8 \<and> (unat p + unat slop) mod 8 = 0"
proof -
  have "m = take_bit 3 p" by (simp add: m_def arena_align_def take_bit_eq_mask mask_eq_exp_minus_1)
  then have "unat m = take_bit 3 (unat p)" by (simp add: unsigned_take_bit_eq)
  then have m: "unat m = unat p mod 8" by (simp add: take_bit_eq_mod)
  show ?thesis
  proof (cases "m = 0")
    case True
    then show ?thesis using m by (simp add: slop_def)
  next
    case False
    then have "0 < unat m" using unat_gt_0 by blast
    have "unat (arena_align - m) = 8 - unat m"
      using m by (subst unat_sub_u64) (simp_all add: arena_align_def word_le_nat_alt)
    then have "unat slop = 8 - unat p mod 8" "unat slop < 8" using False m \<open>0 < unat m\<close> by (simp_all add: slop_def)
    then show ?thesis by presburger
  qed
qed

lemma AllocateAligned_ok:
  assumes ok: "arena_ok rs a" and n: "n \<noteq> 0" "unat n + 7 < 2 ^ 64" and step: "AllocateAligned new_array n a = (p, a')"
    and blocks: "blocks_ok (arena_blocks a')"
  shows "arena_ok (rs @ [(p, n)]) a' \<and> aligned p \<and> (\<exists>bs. arena_blocks a' = arena_blocks a @ bs)"
proof -
  define m where "m = alloc_ptr a AND (arena_align - 1)"
  define slop where "slop = (if m = 0 then 0 else arena_align - m)"
  have slop: "unat slop < 8" "(unat (alloc_ptr a) + unat slop) mod 8 = 0"
    using align_slop [of "alloc_ptr a"] unfolding m_def slop_def by blast+
  have needed: "unat (n + slop) = unat n + unat slop" using unat_plus [of n slop] slop n by simp
  have step': "(if n + slop \<le> alloc_bytes_remaining a
      then (alloc_ptr a + slop, a \<lparr> alloc_ptr := alloc_ptr a + (n + slop),
        alloc_bytes_remaining := alloc_bytes_remaining a - (n + slop) \<rparr>)
      else AllocateFallback new_array n a) = (p, a')"
    using step unfolding AllocateAligned_def Let_def m_def slop_def .
  show ?thesis
  proof (cases "n + slop \<le> alloc_bytes_remaining a")
    case True
    then have fits: "unat slop + unat n \<le> unat (alloc_bytes_remaining a)" using needed by (simp add: word_le_nat_alt)
    have eq: "p = alloc_ptr a + slop" "a' = a \<lparr> alloc_ptr := alloc_ptr a + (slop + n),
        alloc_bytes_remaining := alloc_bytes_remaining a - (slop + n) \<rparr>"
      using True step' by (auto simp: add.commute)
    then have "blocks_ok (arena_blocks a)" using blocks by simp
    from cut_front [OF ok this fits n(1)] show ?thesis using eq slop(2) by (simp add: aligned_def)
  next
    case False
    then have "AllocateFallback new_array n a = (p, a')" using step' by simp
    from AllocateFallback_ok [OF ok n(1) this blocks] show ?thesis .
  qed
qed

section \<open>A run of the arena\<close>

text \<open>Requests, each for a number of bytes and aligned or not, and the regions they get.\<close>

fun allocate_all :: "new_operator \<Rightarrow> (bool \<times> u64) list \<Rightarrow> Arena \<Rightarrow> region list \<times> Arena" where
  "allocate_all new_array [] a = ([], a)"
| "allocate_all new_array ((al, n) # reqs) a =
     (case (if al then AllocateAligned else Arena_Allocate) new_array n a of (p, a) \<Rightarrow>
      case allocate_all new_array reqs a of (rs, a) \<Rightarrow> ((p, n) # rs, a))"

lemma blocks_grow: "\<exists>bs. arena_blocks (snd (allocate_all new_array reqs a)) = arena_blocks a @ bs"
proof (induction reqs arbitrary: a)
  case (Cons req reqs)
  obtain al n where req: "req = (al, n)" by (cases req)
  obtain p a1 where step: "(if al then AllocateAligned else Arena_Allocate) new_array n a = (p, a1)" by fastforce
  have "\<exists>bs. arena_blocks a1 = arena_blocks a @ bs"
    using step by (auto simp: AllocateAligned_def Arena_Allocate_def AllocateFallback_def AllocateNewBlock_def Let_def
        split: if_splits)
  moreover have "\<exists>bs. arena_blocks (snd (allocate_all new_array reqs a1)) = arena_blocks a1 @ bs" by (rule Cons.IH)
  ultimately show ?case using step by (auto simp: req split: prod.splits)
qed simp

definition request_ok :: "bool \<times> u64 \<Rightarrow> bool" where
  "request_ok r \<longleftrightarrow> snd r \<noteq> 0 \<and> unat (snd r) + 7 < 2 ^ 64"

lemma blocks_ok_prefix: "blocks_ok (bs @ cs) \<Longrightarrow> blocks_ok bs"
  by (auto simp: blocks_ok_def sorted_wrt_append)

lemma allocate_all_ok:
  assumes "arena_ok rs0 a" "list_all request_ok reqs" "allocate_all new_array reqs a = (rs, a')"
    "blocks_ok (arena_blocks a')"
  shows "arena_ok (rs0 @ rs) a' \<and> map snd rs = map snd reqs \<and>
    (\<forall>i < length reqs. fst (reqs ! i) \<longrightarrow> aligned (fst (rs ! i)))"
  using assms
proof (induction reqs arbitrary: a rs0 rs)
  case (Cons req reqs)
  obtain al n where req: "req = (al, n)" by (cases req)
  obtain p a1 where step: "(if al then AllocateAligned else Arena_Allocate) new_array n a = (p, a1)" by fastforce
  obtain rs1 where rest: "allocate_all new_array reqs a1 = (rs1, a')" "rs = (p, n) # rs1"
    using Cons.prems(3) step by (auto simp: req split: prod.splits)
  have blocks: "blocks_ok (arena_blocks a1)"
    using blocks_grow [of new_array reqs a1] rest(1) Cons.prems(4) blocks_ok_prefix by auto
  have n: "n \<noteq> 0" "unat n + 7 < 2 ^ 64" using Cons.prems(2) by (simp_all add: req request_ok_def)
  have 1: "arena_ok (rs0 @ [(p, n)]) a1 \<and> (al \<longrightarrow> aligned p)"
  proof (cases al)
    case True
    then show ?thesis using AllocateAligned_ok [OF Cons.prems(1) n _ blocks] step by simp
  next
    case False
    then show ?thesis using Allocate_ok [OF Cons.prems(1) n(1) _ blocks] step by simp
  qed
  have "arena_ok ((rs0 @ [(p, n)]) @ rs1) a' \<and> map snd rs1 = map snd reqs \<and>
      (\<forall>i < length reqs. fst (reqs ! i) \<longrightarrow> aligned (fst (rs1 ! i)))"
    by (rule Cons.IH) (use 1 Cons.prems rest in auto)
  then show ?case using 1 by (auto simp: req rest(2) nth_Cons split: nat.splits)
qed simp

text \<open>C40: the arena. Whatever is requested of a new arena, in any order and aligned or not, the regions it hands out
  have the sizes that were asked for, lie inside the blocks the arena owns, do not overlap, and are aligned where
  that was asked for. The counter of the memory in use is the sum of the sizes of the blocks and their pointers. Of
  the operator \<open>new\<close> only its promise on the blocks is used.\<close>

theorem Arena_regions:
  assumes "list_all request_ok reqs" and "allocate_all new_array reqs new_Arena = (rs, a)"
    and "blocks_ok (arena_blocks a)"
  shows "map snd rs = map snd reqs \<and> (\<forall>r \<in> set rs. \<exists>b \<in> set (arena_blocks a). within r b) \<and> sorted_wrt apart rs \<and>
    (\<forall>i < length reqs. fst (reqs ! i) \<longrightarrow> aligned (fst (rs ! i))) \<and>
    MemoryUsage a = (\<Sum>b\<leftarrow>arena_blocks a. snd b + 8)"
  using allocate_all_ok [OF arena_ok_new assms] by (simp add: arena_ok_def MemoryUsage_def)

text \<open>An operator that places the blocks one behind the other.\<close>

definition bump_new :: new_operator where
  "bump_new n bs = (if bs = [] then 4096 else fst (last bs) + ((snd (last bs) + 15) AND 0xFFFFFFFFFFFFFFF0))"

theorem Arena_regions_witness:
  "\<exists>rs a. allocate_all bump_new [(False, 13), (True, 24), (False, 5000), (True, 8)] new_Arena = (rs, a) \<and>
     rs = [(4096, 13), (4112, 24), (8192, 5000), (4136, 8)] \<and> sorted_wrt apart rs"
proof -
  let ?reqs = "[(False, 13), (True, 24), (False, 5000), (True, 8)] :: (bool \<times> u64) list"
  have run: "allocate_all bump_new ?reqs new_Arena = ([(4096, 13), (4112, 24), (8192, 5000), (4136, 8)],
      \<lparr> alloc_ptr = 4144, alloc_bytes_remaining = 4048, arena_blocks = [(4096, 4096), (8192, 5000)], memory_usage = 9112 \<rparr>)"
    by (simp add: new_Arena_def AllocateAligned_def Arena_Allocate_def AllocateFallback_def AllocateNewBlock_def
        Let_def bump_new_def kArenaBlockSize_def arena_align_def)
  have "list_all request_ok ?reqs" by (simp add: request_ok_def)
  moreover have "blocks_ok [(4096, 4096), (8192, 5000)]" by (simp add: blocks_ok_def aligned_def apart_def)
  ultimately show ?thesis using Arena_regions [OF _ run] run by auto
qed

end
