(* ===== verification/LdbRandom.thy ===== *)
theory LdbRandom
  imports Prelude
begin

text \<open>
  The random number generator of \<open>random.h\<close>, a multiplicative generator modulo the prime \<open>2 ^ 31 - 1\<close>, which
  divides by it with a shift. It is shown to compute the remainder and never to leave the range of its seeds.
  Two numbers in a row are not both multiples of \<open>2 ^ 21\<close>, on which a loop of the database iterator relies to end.
\<close>

unbundle bit_operations_syntax

type_synonym Random = u32

definition new_Random :: "u32 \<Rightarrow> Random" where
  "new_Random s =
     (let seed = s AND 0x7fffffff
      in if seed = 0 \<or> seed = 2147483647 then 1 else seed)"

definition Random_Next :: "Random \<Rightarrow> u32 \<times> Random" where
  "Random_Next seed =
     (let product = (ucast seed * 16807 :: u64);
          seed = (ucast (drop_bit 31 product + (product AND 2147483647)) :: u32);
          seed = (if 2147483647 < seed then seed - 2147483647 else seed)
      in (seed, seed))"

definition Uniform :: "u32 \<Rightarrow> Random \<Rightarrow> u32 \<times> Random" where
  "Uniform n seed = (case Random_Next seed of (r, seed) \<Rightarrow> (r mod n, seed))"

definition OneIn :: "u32 \<Rightarrow> Random \<Rightarrow> bool \<times> Random" where
  "OneIn n seed = (case Random_Next seed of (r, seed) \<Rightarrow> (r mod n = 0, seed))"

definition Skewed :: "u32 \<Rightarrow> Random \<Rightarrow> u32 \<times> Random" where
  "Skewed max_log seed =
     (case Uniform (max_log + 1) seed of (base, seed) \<Rightarrow> Uniform (push_bit (unat base) 1) seed)"

section \<open>The remainder\<close>

definition seed_ok :: "Random \<Rightarrow> bool" where
  "seed_ok seed \<longleftrightarrow> 0 < unat seed \<and> unat seed < 2147483647"

lemma of_nat_unat_u32: "of_nat (unat (r :: u32)) = r"
  by simp

lemma unat_numeral_u32: "unat (2147483647 :: u32) = 2147483647"
  by simp

lemma new_Random_ok: "seed_ok (new_Random s)"
proof -
  define r where "r = s AND 0x7fffffff"
  have "r = take_bit 31 s" by (simp add: r_def take_bit_eq_mask mask_eq_exp_minus_1)
  then have less: "unat r < 2 ^ 31" using take_bit_nat_less_exp [of 31 "unat s"] by (simp add: unsigned_take_bit_eq)
  have "seed_ok r" if "r \<noteq> 0" "r \<noteq> 2147483647"
  proof -
    have "unat r \<noteq> 2147483647" using that(2) of_nat_unat_u32 [of r] by (metis of_nat_numeral)
    moreover have "0 < unat r" using that(1) unat_gt_0 [of r] by blast
    ultimately show ?thesis using less by (simp add: seed_ok_def)
  qed
  moreover have "seed_ok 1" by (simp add: seed_ok_def)
  ultimately show ?thesis by (simp add: new_Random_def Let_def r_def [symmetric])
qed

lemma not_multiple: "seed_ok seed \<Longrightarrow> unat seed * 16807 mod 2147483647 \<noteq> 0"
proof
  assume seed: "seed_ok seed" and "unat seed * 16807 mod 2147483647 = 0"
  then have "2147483647 dvd unat seed * 16807" by (simp add: dvd_eq_mod_eq_0)
  moreover have "coprime (2147483647 :: nat) 16807" by (simp add: coprime_iff_gcd_eq_1 gcd_non_0_nat)
  ultimately have "2147483647 dvd unat seed" by (simp add: coprime_dvd_mult_left_iff)
  then show False using seed by (auto simp: seed_ok_def dest: dvd_imp_le)
qed

lemma reduce_seed:
  assumes "unat x = n" "n \<noteq> 2147483647" "n < 2 * 2147483647"
  shows "unat (if 2147483647 < x then x - 2147483647 else x :: u32) = n mod 2147483647"
proof (cases "2147483647 < n")
  case True
  then have "(2147483647 :: u32) < x" using assms(1) by (simp only: word_less_nat_alt unat_numeral_u32)
  then have "unat (x - 2147483647) = n - 2147483647"
    using unat_sub [of 2147483647 x] assms(1) by (simp only: less_imp_le unat_numeral_u32)
  moreover have "n mod 2147483647 = n - 2147483647" using True assms(3) le_mod_geq [of 2147483647 n] mod_less [of "n - 2147483647" 2147483647] by linarith
  ultimately show ?thesis using \<open>2147483647 < x\<close> by (simp only: if_True)
next
  case False
  then have "\<not> (2147483647 :: u32) < x" using assms(1) by (simp only: word_less_nat_alt unat_numeral_u32) simp
  moreover have "n mod 2147483647 = n" using False assms(2) by (intro mod_less) simp
  ultimately show ?thesis using assms(1) by (simp only: if_False)
qed

lemma Random_Next_mod:
  assumes seed: "seed_ok seed"
  shows "unat (fst (Random_Next seed)) = unat seed * 16807 mod 2147483647"
proof -
  let ?p = "unat seed * 16807"
  let ?a = "?p div 2 ^ 31" and ?b = "?p mod 2 ^ 31"
  have p: "?p < 2147483647 * 16807" using seed by (simp add: seed_ok_def)
  have u: "unat (ucast seed * 16807 :: u64) = ?p"
  proof -
    have "unat (ucast seed :: u64) = unat seed" by (simp add: unsigned_ucast_eq take_bit_nat_eq_self unat_u32_less)
    then show ?thesis using p by (simp add: unat_word_ariths)
  qed
  let ?w = "ucast seed * 16807 :: u64"
  have a: "unat (drop_bit 31 ?w) = ?a" unfolding unat_drop_bit_eq u by (simp add: drop_bit_eq_div)
  have "?w AND 2147483647 = take_bit 31 ?w" by (simp add: take_bit_eq_mask mask_eq_exp_minus_1)
  then have b: "unat (?w AND 2147483647) = ?b" by (metis take_bit_eq_mod u unsigned_take_bit_eq)
  have less: "?a < 16807" "?b < 2 ^ 31" using p by simp_all
  have ab: "unat (drop_bit 31 ?w + (?w AND 2147483647)) = ?a + ?b" using less by (simp add: unat_word_ariths a b)
  have s: "unat (ucast (drop_bit 31 ?w + (?w AND 2147483647)) :: u32) = ?a + ?b"
    using less ab by (simp add: unsigned_ucast_eq take_bit_nat_eq_self)
  have "?p = ?a * 2147483647 + (?a + ?b)" by simp
  then have m: "?p mod 2147483647 = (?a + ?b) mod 2147483647" by (metis mod_mult_self3)
  then have ne: "?a + ?b \<noteq> 2147483647" using not_multiple [OF seed] by auto
  have "?a + ?b < 2 * 2147483647" using less by simp
  from reduce_seed [OF s ne this] m show ?thesis by (simp only: Random_Next_def Let_def fst_conv)
qed

lemma Random_Next_ok: "seed_ok seed \<Longrightarrow> seed_ok (snd (Random_Next seed)) \<and> fst (Random_Next seed) = snd (Random_Next seed)"
  using Random_Next_mod [of seed] not_multiple [of seed] by (auto simp: seed_ok_def Random_Next_def Let_def)

lemma Random_Next_multiple:
  assumes seed: "seed_ok seed" and multiple: "unat seed mod 2 ^ 21 = 0"
  shows "unat (fst (Random_Next seed)) mod 2 ^ 21 \<noteq> 0"
proof -
  define k where "k = unat seed div 2 ^ 21"
  have s: "unat seed = k * 2 ^ 21" using multiple unfolding k_def by (metis add_0_right div_mult_mod_eq)
  then have k: "1 \<le> k" "k < 1024" using seed by (auto simp: seed_ok_def)
  define a b where "a = 16807 * k div 1024" and "b = 16807 * k mod 1024"
  have "16807 * k = a * 1024 + b" by (simp only: a_def b_def div_mult_mod_eq)
  moreover have "unat seed * 16807 = (16807 * k) * 2 ^ 21" using s by simp
  ultimately have "unat seed * 16807 = (a * 1024 + b) * 2 ^ 21" by metis
  also have "\<dots> = a * 2147483647 + (a + b * 2 ^ 21)" by (simp add: algebra_simps)
  finally have "unat seed * 16807 mod 2147483647 = (a + b * 2 ^ 21) mod 2147483647" by (metis mod_mult_self3)
  moreover have a: "1 \<le> a" "a < 16807" using k by (simp_all add: a_def div_greater_zero_iff less_mult_imp_div_less)
  moreover have "b \<le> 1023" using mod_less_divisor [of 1024 "16807 * k"] unfolding b_def by linarith
  ultimately have "unat (fst (Random_Next seed)) = a + b * 2 ^ 21" by (simp add: Random_Next_mod [OF seed])
  then show ?thesis using a by simp
qed

end
