(* ===== verification/LdbSkipList.thy ===== *)
theory LdbSkipList
  imports LdbArena LdbRandom LdbSlice
begin

text \<open>
  The skip list of \<open>skiplist.h\<close>, for any type of keys. A pointer to a node is the index of the node in the list of
  all nodes, in the order of their allocation, and \<open>None\<close> is the null pointer; the arena the nodes are taken from
  is threaded through. The locale \<open>skip_order\<close> is the contract of the comparison, and the invariant
  \<open>skip_list\<close> ties the links of all levels to one sorted list of keys, which every operation is shown to implement.
\<close>

section \<open>Nodes\<close>

text \<open>A link that was not written yet is \<open>None\<close>. The bytes a node takes are those of the instance for pointers.\<close>

type_synonym node_ptr = "nat option"

record 'k SkipNode =
  node_key :: 'k
  node_next :: "node_ptr option list"

record 'k SkipList =
  sl_nodes :: "'k SkipNode list"
  sl_head :: nat
  max_height :: nat
  sl_rnd :: Random

definition kMaxHeight :: nat where "kMaxHeight = 12"

definition Node_Next :: "'k SkipList \<Rightarrow> nat \<Rightarrow> nat \<Rightarrow> node_ptr res" where
  "Node_Next l x n =
     (if x < length (sl_nodes l) \<and> n < length (node_next (sl_nodes l ! x))
      then (case node_next (sl_nodes l ! x) ! n of None \<Rightarrow> Undef | Some p \<Rightarrow> Ret p) else Undef)"

definition Node_SetNext :: "nat \<Rightarrow> nat \<Rightarrow> node_ptr \<Rightarrow> 'k SkipList \<Rightarrow> 'k SkipList res" where
  "Node_SetNext x n p l =
     (if x < length (sl_nodes l) \<and> n < length (node_next (sl_nodes l ! x))
      then Ret (l \<lparr> sl_nodes := (sl_nodes l) [x := (sl_nodes l ! x) \<lparr> node_next := (node_next (sl_nodes l ! x)) [n := Some p] \<rparr>] \<rparr>)
      else Undef)"

definition Node_key :: "'k SkipList \<Rightarrow> nat \<Rightarrow> 'k res" where
  "Node_key l x = (if x < length (sl_nodes l) then Ret (node_key (sl_nodes l ! x)) else Undef)"

definition NewNode :: "new_operator \<Rightarrow> 'k \<Rightarrow> nat \<Rightarrow> Arena \<Rightarrow> 'k SkipList \<Rightarrow> nat \<times> Arena \<times> 'k SkipList" where
  "NewNode new_array key height arena l =
     (case AllocateAligned new_array (of_nat (16 + 8 * (height - 1))) arena of (node_memory, arena) \<Rightarrow>
        (length (sl_nodes l), arena,
         l \<lparr> sl_nodes := sl_nodes l @ [\<lparr> node_key = key, node_next = replicate height None \<rparr>] \<rparr>))"

section \<open>Searching\<close>

definition KeyIsAfterNode :: "('k \<Rightarrow> 'k \<Rightarrow> int res) \<Rightarrow> 'k SkipList \<Rightarrow> 'k \<Rightarrow> node_ptr \<Rightarrow> bool res" where
  "KeyIsAfterNode cmp l key n =
     (case n of
        None \<Rightarrow> Ret False
      | Some n \<Rightarrow> res_bind (Node_key l n) (\<lambda>k. res_bind (cmp k key) (\<lambda>r. Ret (r < 0))))"

text \<open>The loop of the three functions that search, which differ in when they move on at a level (\<open>on\<close>). It
  returns \<open>x\<close>, \<open>next\<close> and the array \<open>prev\<close>, which is written unless it is a null pointer.\<close>

type_synonym prev_array = "nat option list option"

definition set_prev :: "prev_array \<Rightarrow> nat \<Rightarrow> nat \<Rightarrow> prev_array res" where
  "set_prev prev level x =
     (case prev of
        None \<Rightarrow> Ret None
      | Some a \<Rightarrow> if level < length a then Ret (Some (a [level := Some x])) else Undef)"

fun descend :: "nat \<Rightarrow> (node_ptr \<Rightarrow> bool res) \<Rightarrow> 'k SkipList \<Rightarrow> nat \<Rightarrow> nat \<Rightarrow> prev_array \<Rightarrow>
    (nat \<times> node_ptr \<times> prev_array) res" where
  "descend 0 on l x level prev = NoFuel"
| "descend (Suc fuel) on l x level prev =
     res_bind (Node_Next l x level) (\<lambda>next.
     res_bind (on next) (\<lambda>move.
       case (move, next) of
         (True, Some y) \<Rightarrow> descend fuel on l y level prev
       | (True, None) \<Rightarrow> Undef
       | (False, _) \<Rightarrow>
           res_bind (set_prev prev level x) (\<lambda>prev.
             if level = 0 then Ret (x, next, prev) else descend fuel on l x (level - 1) prev)))"

text \<open>A run that takes more steps than there are nodes and levels would be in a loop.\<close>

definition search_fuel :: "'k SkipList \<Rightarrow> nat" where
  "search_fuel l = length (sl_nodes l) * Suc (max_height l)"

definition search :: "(node_ptr \<Rightarrow> bool res) \<Rightarrow> 'k SkipList \<Rightarrow> prev_array \<Rightarrow> (nat \<times> node_ptr \<times> prev_array) res" where
  "search on l prev = descend (search_fuel l) on l (sl_head l) (max_height l - 1) prev"

definition FindGreaterOrEqual ::
    "('k \<Rightarrow> 'k \<Rightarrow> int res) \<Rightarrow> 'k SkipList \<Rightarrow> 'k \<Rightarrow> prev_array \<Rightarrow> (node_ptr \<times> prev_array) res" where
  "FindGreaterOrEqual cmp l key prev =
     res_bind (search (KeyIsAfterNode cmp l key) l prev) (\<lambda>(x, next, prev). Ret (next, prev))"

definition FindLessThan :: "('k \<Rightarrow> 'k \<Rightarrow> int res) \<Rightarrow> 'k SkipList \<Rightarrow> 'k \<Rightarrow> nat res" where
  "FindLessThan cmp l key =
     res_bind (search (\<lambda>next. case next of
         None \<Rightarrow> Ret False
       | Some n \<Rightarrow> res_bind (Node_key l n) (\<lambda>k. res_bind (cmp k key) (\<lambda>r. Ret (\<not> 0 \<le> r)))) l None)
       (\<lambda>(x, next, prev). Ret x)"

definition FindLast :: "'k SkipList \<Rightarrow> nat res" where
  "FindLast l = res_bind (search (\<lambda>next. Ret (next \<noteq> None)) l None) (\<lambda>(x, next, prev). Ret x)"

section \<open>The list\<close>

text \<open>The key of the head is never read; \<open>zero\<close> stands for it.\<close>

primrec clear_links :: "nat \<Rightarrow> nat \<Rightarrow> 'k SkipList \<Rightarrow> 'k SkipList res" where
  "clear_links 0 i l = Ret l"
| "clear_links (Suc n) i l = res_bind (Node_SetNext (sl_head l) i None l) (clear_links n (Suc i))"

definition new_SkipList :: "new_operator \<Rightarrow> 'k \<Rightarrow> Arena \<Rightarrow> (Arena \<times> 'k SkipList) res" where
  "new_SkipList new_array zero arena =
     (let l = \<lparr> sl_nodes = [], sl_head = 0, max_height = 1, sl_rnd = new_Random 0xdeadbeef \<rparr>
      in case NewNode new_array zero kMaxHeight arena l of (head, arena, l) \<Rightarrow>
           res_bind (clear_links kMaxHeight 0 (l \<lparr> sl_head := head \<rparr>)) (\<lambda>l. Ret (arena, l)))"

text \<open>The loop of \<open>RandomHeight\<close>; it is left with \<open>kMaxHeight\<close> at the latest.\<close>

fun random_height :: "nat \<Rightarrow> nat \<Rightarrow> Random \<Rightarrow> nat \<times> Random" where
  "random_height 0 height rnd = (height, rnd)"
| "random_height (Suc n) height rnd =
     (case Random_Next rnd of (r, rnd) \<Rightarrow>
        if r mod 4 = 0 then random_height n (height + 1) rnd else (height, rnd))"

definition RandomHeight :: "'k SkipList \<Rightarrow> nat \<times> 'k SkipList" where
  "RandomHeight l = (case random_height (kMaxHeight - 1) 1 (sl_rnd l) of (h, rnd) \<Rightarrow> (h, l \<lparr> sl_rnd := rnd \<rparr>))"

definition prev_at :: "nat option list \<Rightarrow> nat \<Rightarrow> nat res" where
  "prev_at prev i = (if i < length prev then (case prev ! i of None \<Rightarrow> Undef | Some x \<Rightarrow> Ret x) else Undef)"

primrec fill_prev :: "nat \<Rightarrow> nat \<Rightarrow> nat \<Rightarrow> nat option list \<Rightarrow> nat option list" where
  "fill_prev 0 i head prev = prev"
| "fill_prev (Suc n) i head prev = fill_prev n (Suc i) head (prev [i := Some head])"

primrec link_levels :: "nat \<Rightarrow> nat \<Rightarrow> nat \<Rightarrow> nat option list \<Rightarrow> 'k SkipList \<Rightarrow> 'k SkipList res" where
  "link_levels 0 i x prev l = Ret l"
| "link_levels (Suc n) i x prev l =
     res_bind (prev_at prev i) (\<lambda>p.
     res_bind (Node_Next l p i) (\<lambda>next.
     res_bind (Node_SetNext x i next l) (\<lambda>l.
     res_bind (prev_at prev i) (\<lambda>p.
     res_bind (Node_SetNext p i (Some x) l) (link_levels n (Suc i) x prev)))))"

definition SkipList_Insert ::
    "new_operator \<Rightarrow> ('k \<Rightarrow> 'k \<Rightarrow> int res) \<Rightarrow> 'k \<Rightarrow> Arena \<Rightarrow> 'k SkipList \<Rightarrow> (Arena \<times> 'k SkipList) res" where
  "SkipList_Insert new_array cmp key arena l =
     res_bind (FindGreaterOrEqual cmp l key (Some (replicate kMaxHeight None))) (\<lambda>(x, prev).
       case prev of
         None \<Rightarrow> Undef
       | Some prev \<Rightarrow>
           (case RandomHeight l of (height, l) \<Rightarrow>
             let (prev, l) = (if max_height l < height
                   then (fill_prev (height - max_height l) (max_height l) (sl_head l) prev, l \<lparr> max_height := height \<rparr>)
                   else (prev, l))
             in case NewNode new_array key height arena l of (x, arena, l) \<Rightarrow>
                  res_bind (link_levels height 0 x prev l) (\<lambda>l. Ret (arena, l))))"

definition Skip_Equal :: "('k \<Rightarrow> 'k \<Rightarrow> int res) \<Rightarrow> 'k \<Rightarrow> 'k \<Rightarrow> bool res" where
  "Skip_Equal cmp a b = res_bind (cmp a b) (\<lambda>r. Ret (r = 0))"

definition SkipList_Contains :: "('k \<Rightarrow> 'k \<Rightarrow> int res) \<Rightarrow> 'k \<Rightarrow> 'k SkipList \<Rightarrow> bool res" where
  "SkipList_Contains cmp key l =
     res_bind (FindGreaterOrEqual cmp l key None) (\<lambda>(x, prev).
       case x of
         None \<Rightarrow> Ret False
       | Some x \<Rightarrow> res_bind (Node_key l x) (\<lambda>k. Skip_Equal cmp key k))"

text \<open>The iterator is its \<open>node_\<close>; \<open>list_\<close> is passed to its functions.\<close>

definition skip_Valid :: "node_ptr \<Rightarrow> bool" where
  "skip_Valid node \<longleftrightarrow> node \<noteq> None"

definition skip_key :: "'k SkipList \<Rightarrow> node_ptr \<Rightarrow> 'k res" where
  "skip_key l node = (case node of None \<Rightarrow> Undef | Some x \<Rightarrow> Node_key l x)"

definition skip_Next :: "'k SkipList \<Rightarrow> node_ptr \<Rightarrow> node_ptr res" where
  "skip_Next l node = (case node of None \<Rightarrow> Undef | Some x \<Rightarrow> Node_Next l x 0)"

definition not_head :: "'k SkipList \<Rightarrow> nat \<Rightarrow> node_ptr" where
  "not_head l x = (if x = sl_head l then None else Some x)"

definition skip_Prev :: "('k \<Rightarrow> 'k \<Rightarrow> int res) \<Rightarrow> 'k SkipList \<Rightarrow> node_ptr \<Rightarrow> node_ptr res" where
  "skip_Prev cmp l node =
     (case node of
        None \<Rightarrow> Undef
      | Some x \<Rightarrow> res_bind (Node_key l x) (\<lambda>k. map_res (not_head l) (FindLessThan cmp l k)))"

definition skip_Seek :: "('k \<Rightarrow> 'k \<Rightarrow> int res) \<Rightarrow> 'k SkipList \<Rightarrow> 'k \<Rightarrow> node_ptr res" where
  "skip_Seek cmp l target = map_res fst (FindGreaterOrEqual cmp l target None)"

definition skip_SeekToFirst :: "'k SkipList \<Rightarrow> node_ptr res" where
  "skip_SeekToFirst l = Node_Next l (sl_head l) 0"

definition skip_SeekToLast :: "'k SkipList \<Rightarrow> node_ptr res" where
  "skip_SeekToLast l = map_res (not_head l) (FindLast l)"

section \<open>Links of one level\<close>

definition nxt :: "'k SkipList \<Rightarrow> nat \<Rightarrow> nat \<Rightarrow> node_ptr option" where
  "nxt l i x = (if x < length (sl_nodes l) \<and> i < length (node_next (sl_nodes l ! x))
     then node_next (sl_nodes l ! x) ! i else None)"

definition node_height :: "'k SkipList \<Rightarrow> nat \<Rightarrow> nat" where
  "node_height l x = length (node_next (sl_nodes l ! x))"

lemma Node_Next_nxt: "Node_Next l x i = (case nxt l i x of None \<Rightarrow> Undef | Some p \<Rightarrow> Ret p)"
  by (simp add: Node_Next_def nxt_def)

text \<open>From \<open>x\<close> the links lead through \<open>ys\<close> to the pointer \<open>p\<close>.\<close>

primrec walk :: "(nat \<Rightarrow> node_ptr option) \<Rightarrow> nat \<Rightarrow> nat list \<Rightarrow> node_ptr \<Rightarrow> bool" where
  "walk f x [] p \<longleftrightarrow> f x = Some p"
| "walk f x (y # ys) p \<longleftrightarrow> f x = Some (Some y) \<and> walk f y ys p"

lemma walk_append: "walk f x (ys @ z # zs) p \<longleftrightarrow> walk f x ys (Some z) \<and> walk f z zs p"
  by (induction ys arbitrary: x) auto

lemma walk_last: "walk f x ys p \<Longrightarrow> f (last (x # ys)) = Some p"
  by (induction ys arbitrary: x) auto

lemma walk_other: "z \<notin> set (x # ys) \<Longrightarrow> walk (f(z := v)) x ys p = walk f x ys p"
  by (induction ys arbitrary: x) auto

lemma walk_redirect: "distinct (x # ys) \<Longrightarrow> walk f x ys p \<Longrightarrow> walk (f(last (x # ys) := Some q)) x ys q"
  by (induction ys arbitrary: x) (auto simp: last_in_set)

lemma walk_suffix: "walk f h ys p \<Longrightarrow> h # ys = us @ x # vs \<Longrightarrow> walk f x vs p"
  by (cases us) (auto simp: walk_append)

lemma walk_first: "walk f x ys None \<Longrightarrow> f x = Some (if ys = [] then None else Some (hd ys))"
  by (cases ys) auto

text \<open>Insertion behind the last node of \<open>as\<close>.\<close>

lemma walk_insert:
  assumes walk: "walk f x (as @ bs) None" and distinct: "distinct (x # as @ bs)" and new: "n \<notin> set (x # as @ bs)"
  shows "walk (f(n := f (last (x # as)), last (x # as) := Some (Some n))) x (as @ n # bs) None"
proof -
  let ?z = "last (x # as)"
  have first: "walk f x as (if bs = [] then None else Some (hd bs))" and z: "f ?z = Some (if bs = [] then None else Some (hd bs))"
    using walk walk_last by (cases bs; force simp: walk_append)+
  have "?z \<in> set (x # as)" by (rule last_in_set) simp
  then have "?z \<noteq> n" "?z \<notin> set bs" using new distinct by auto
  have "walk (f(n := f ?z)) x as (if bs = [] then None else Some (hd bs))" using first new by (simp add: walk_other)
  then have 1: "walk (f(n := f ?z, ?z := Some (Some n))) x as (Some n)" using distinct by (intro walk_redirect) auto
  have "walk (f(n := f ?z, ?z := Some (Some n))) n bs None"
  proof (cases bs)
    case Nil
    then show ?thesis using z \<open>?z \<noteq> n\<close> by simp
  next
    case (Cons b bs')
    then have "walk f b bs' None" using walk by (simp add: walk_append)
    then show ?thesis using z \<open>?z \<noteq> n\<close> \<open>?z \<notin> set bs\<close> new Cons by (simp add: walk_other)
  qed
  then show ?thesis using 1 by (simp add: walk_append)
qed

section \<open>The shape of the list\<close>

text \<open>The nodes in order are \<open>order\<close>; a level links those that are high enough.\<close>

definition on_level :: "'k SkipList \<Rightarrow> nat \<Rightarrow> nat list \<Rightarrow> nat list" where
  "on_level l i order = filter (\<lambda>x. i < node_height l x) order"

definition skip_shape :: "'k SkipList \<Rightarrow> nat list \<Rightarrow> bool" where
  "skip_shape l order \<longleftrightarrow> sl_head l < length (sl_nodes l) \<and> node_height l (sl_head l) = kMaxHeight \<and>
     1 \<le> max_height l \<and> max_height l \<le> kMaxHeight \<and> distinct (sl_head l # order) \<and>
     (\<forall>x \<in> set order. x < length (sl_nodes l) \<and> 1 \<le> node_height l x \<and> node_height l x \<le> max_height l) \<and>
     (\<forall>i < kMaxHeight. walk (nxt l i) (sl_head l) (on_level l i order) None)"

lemma on_level_simps [simp]:
  "on_level l i [] = []" "on_level l i (xs @ ys) = on_level l i xs @ on_level l i ys"
  "on_level l i (x # xs) = (if i < node_height l x then x # on_level l i xs else on_level l i xs)"
  by (simp_all add: on_level_def)

lemma set_on_level: "set (on_level l i xs) \<subseteq> set xs"
  by (auto simp: on_level_def)

lemma on_level_Cons: "on_level l i xs = y # ys \<Longrightarrow> \<exists>us vs. xs = us @ y # vs \<and> on_level l i us = [] \<and> i < node_height l y"
  by (auto simp: on_level_def filter_eq_Cons_iff)

lemma on_level_0:
  assumes "skip_shape l order" and "set xs \<subseteq> set order"
  shows "on_level l 0 xs = xs"
proof -
  have "0 < node_height l x" if "x \<in> set xs" for x
    using that assms by (auto simp: skip_shape_def Suc_le_eq)
  then show ?thesis by (simp add: on_level_def)
qed

lemma shape_link:
  assumes shape: "skip_shape l order" and split: "sl_head l # order = pre @ x # post"
    and level: "level < node_height l x" "level < kMaxHeight"
  shows "Node_Next l x level = Ret (case on_level l level post of [] \<Rightarrow> None | y # _ \<Rightarrow> Some y)"
proof -
  have head: "node_height l (sl_head l) = kMaxHeight" using shape by (simp add: skip_shape_def)
  have "sl_head l # on_level l level order = on_level l level (sl_head l # order)" using head level(2) by simp
  also have "\<dots> = on_level l level pre @ x # on_level l level post" using split level(1) by simp
  finally have "walk (nxt l level) x (on_level l level post) None"
    using shape level(2) walk_suffix by (fastforce simp: skip_shape_def)
  then show ?thesis by (cases "on_level l level post") (auto simp: Node_Next_nxt)
qed

text \<open>What a search leaves in the array \<open>prev\<close>.\<close>

definition prev_written :: "'k SkipList \<Rightarrow> nat \<Rightarrow> nat list \<Rightarrow> nat \<Rightarrow> prev_array \<Rightarrow> prev_array \<Rightarrow> bool" where
  "prev_written l x post n prev prev' \<longleftrightarrow>
     (case prev of
        None \<Rightarrow> prev' = None
      | Some a \<Rightarrow> \<exists>a'. prev' = Some a' \<and> length a' = length a \<and>
          (\<forall>i < length a. a' ! i = (if i < n then Some (last (x # on_level l i post)) else a ! i)))"

lemma set_prev_written:
  assumes "on_level l level post = []" and "case prev of None \<Rightarrow> True | Some a \<Rightarrow> level < length a"
  shows "\<exists>prev1. set_prev prev level x = Ret prev1 \<and> (case prev1 of None \<Rightarrow> True | Some a \<Rightarrow> level < length a) \<and>
    (\<forall>prev2. prev_written l x post level prev1 prev2 \<longrightarrow> prev_written l x post (Suc level) prev prev2)"
  using assms by (cases prev) (auto simp: set_prev_def prev_written_def nth_list_update less_Suc_eq)

lemma descend_result:
  assumes shape: "skip_shape l order" and order: "order = before @ after"
    and on: "\<And>y. y \<in> set order \<Longrightarrow> on (Some y) = Ret (y \<in> set before)" "on None = Ret False"
  shows "sl_head l # before = pre @ x # post \<Longrightarrow> level < node_height l x \<Longrightarrow> level < kMaxHeight \<Longrightarrow>
    (case prev of None \<Rightarrow> True | Some a \<Rightarrow> level < length a) \<Longrightarrow> length post + level < fuel \<Longrightarrow>
    \<exists>prev'. descend fuel on l x level prev = Ret (last (x # post), (if after = [] then None else Some (hd after)), prev') \<and>
      prev_written l x post (Suc level) prev prev'"
proof (induction fuel arbitrary: pre x post level prev)
  case (Suc fuel)
  have link: "Node_Next l x level = Ret (case on_level l level (post @ after) of [] \<Rightarrow> None | y # _ \<Rightarrow> Some y)"
    using Suc.prems by (intro shape_link [OF shape, of pre]) (simp_all add: order)
  have post: "set post \<subseteq> set before" using Suc.prems(1) by (cases pre) auto
  have apart: "set before \<inter> set after = {}" using shape by (auto simp: skip_shape_def order)
  show ?case
  proof (cases "on_level l level post")
    case (Cons y ys)
    obtain us vs where post_eq: "post = us @ y # vs" "on_level l level us = []" "level < node_height l y"
      using on_level_Cons [OF Cons] by blast
    have move: "on (Some y) = Ret True" using on(1) [of y] post post_eq(1) by (auto simp: order)
    have written: "prev_written l x post n prev prev' = prev_written l y vs n prev prev'" if "n \<le> Suc level" for n prev'
    proof -
      have "last (x # on_level l i post) = last (y # on_level l i vs)" if "i < n" for i
        using that \<open>n \<le> Suc level\<close> post_eq(1,3) by simp
      then show ?thesis by (simp add: prev_written_def cong: option.case_cong)
    qed
    have "\<exists>prev'. descend fuel on l y level prev = Ret (last (y # vs), (if after = [] then None else Some (hd after)), prev') \<and>
        prev_written l y vs (Suc level) prev prev'"
      using Suc.prems post_eq by (intro Suc.IH [of "pre @ x # us"]) auto
    moreover have "last (y # vs) = last (x # post)" using post_eq(1) by simp
    moreover have "Node_Next l x level = Ret (Some y)" using link Cons by simp
    ultimately show ?thesis using move written [of "Suc level"] by simp
  next
    case Nil
    have stay: "on (case on_level l level (post @ after) of [] \<Rightarrow> None | y # _ \<Rightarrow> Some y) = Ret False"
    proof (cases "on_level l level after")
      case Nil
      then show ?thesis using \<open>on_level l level post = []\<close> on(2) by simp
    next
      case (Cons y ys)
      then have "y \<in> set after" using set_on_level [of l level after] by auto
      then show ?thesis using \<open>on_level l level post = []\<close> Cons on(1) [of y] apart by (auto simp: order)
    qed
    obtain prev1 where prev1: "set_prev prev level x = Ret prev1" "case prev1 of None \<Rightarrow> True | Some a \<Rightarrow> level < length a"
        "\<And>prev2. prev_written l x post level prev1 prev2 \<Longrightarrow> prev_written l x post (Suc level) prev prev2"
      using set_prev_written [OF Nil Suc.prems(4)] by blast
    show ?thesis
    proof (cases level)
      case 0
      note all = on_level_0 [OF shape]
      have "post = []" using Nil all [of post] post by (auto simp: 0 order)
      moreover have "prev_written l x post 0 prev1 prev1" by (cases prev1) (auto simp: prev_written_def)
      ultimately show ?thesis
        using link stay prev1(1) prev1(3) [of prev1] all [of after] by (auto simp: 0 order hd_conv_nth split: list.splits)
    next
      case (Suc n)
      have "\<exists>prev'. descend fuel on l x n prev1 = Ret (last (x # post), (if after = [] then None else Some (hd after)), prev') \<and>
          prev_written l x post (Suc n) prev1 prev'"
        using Suc.prems prev1(2) Suc by (intro Suc.IH [of pre]) (auto split: option.splits)
      then show ?thesis using link stay prev1 Suc by (auto split: list.splits option.splits)
    qed
  qed
qed simp

lemma order_length: "skip_shape l order \<Longrightarrow> length order < length (sl_nodes l)"
proof -
  assume shape: "skip_shape l order"
  then have "set (sl_head l # order) \<subseteq> {..<length (sl_nodes l)}" by (auto simp: skip_shape_def)
  then have "card (set (sl_head l # order)) \<le> length (sl_nodes l)" by (metis card_lessThan card_mono finite_lessThan)
  moreover have "card (set (sl_head l # order)) = Suc (length order)"
    using shape distinct_card [of "sl_head l # order"] by (simp add: skip_shape_def)
  ultimately show ?thesis by simp
qed

lemma search_result:
  assumes shape: "skip_shape l order" and order: "order = before @ after"
    and on: "\<And>y. y \<in> set order \<Longrightarrow> on (Some y) = Ret (y \<in> set before)" "on None = Ret False"
    and prev: "case prev of None \<Rightarrow> True | Some a \<Rightarrow> length a = kMaxHeight"
  shows "\<exists>prev'. search on l prev = Ret (last (sl_head l # before), (if after = [] then None else Some (hd after)), prev') \<and>
    prev_written l (sl_head l) before (max_height l) prev prev'"
proof -
  have h: "1 \<le> max_height l" "max_height l \<le> kMaxHeight" "node_height l (sl_head l) = kMaxHeight"
    using shape by (simp_all add: skip_shape_def)
  have "length before \<le> length order" using order by simp
  then have "length before < length (sl_nodes l)" using order_length [OF shape] by simp
  moreover from this have "max_height l \<le> length (sl_nodes l) * max_height l" by (cases "length (sl_nodes l)") auto
  moreover have "search_fuel l = length (sl_nodes l) + length (sl_nodes l) * max_height l" by (simp add: search_fuel_def)
  ultimately have fuel: "length before + (max_height l - 1) < search_fuel l" using h(1) by linarith
  have "\<exists>prev'. descend (search_fuel l) on l (sl_head l) (max_height l - 1) prev =
      Ret (last (sl_head l # before), (if after = [] then None else Some (hd after)), prev') \<and>
      prev_written l (sl_head l) before (Suc (max_height l - 1)) prev prev'"
    by (rule descend_result [OF shape order on, where pre = "[]"]) (use h fuel prev in \<open>auto split: option.splits\<close>)
  then show ?thesis using h(1) by (simp add: search_def)
qed

section \<open>Changing links\<close>

text \<open>Nothing but links differs.\<close>

definition same_nodes :: "'k SkipList \<Rightarrow> 'k SkipList \<Rightarrow> bool" where
  "same_nodes l l' \<longleftrightarrow> map node_key (sl_nodes l') = map node_key (sl_nodes l) \<and>
     map (length \<circ> node_next) (sl_nodes l') = map (length \<circ> node_next) (sl_nodes l) \<and>
     sl_head l' = sl_head l \<and> max_height l' = max_height l \<and> sl_rnd l' = sl_rnd l"

lemma same_nodes_refl [simp]: "same_nodes l l"
  by (simp add: same_nodes_def)

lemma same_nodes_trans: "same_nodes l l1 \<Longrightarrow> same_nodes l1 l2 \<Longrightarrow> same_nodes l l2"
  by (simp add: same_nodes_def)

lemma same_nodesD:
  assumes "same_nodes l l'"
  shows "length (sl_nodes l') = length (sl_nodes l)" "sl_head l' = sl_head l" "max_height l' = max_height l"
    "x < length (sl_nodes l) \<Longrightarrow> node_height l' x = node_height l x"
    "x < length (sl_nodes l) \<Longrightarrow> node_key (sl_nodes l' ! x) = node_key (sl_nodes l ! x)"
proof -
  show len: "length (sl_nodes l') = length (sl_nodes l)" using assms unfolding same_nodes_def by (metis length_map)
  show "sl_head l' = sl_head l" "max_height l' = max_height l" using assms by (simp_all add: same_nodes_def)
  assume x: "x < length (sl_nodes l)"
  have "map (length \<circ> node_next) (sl_nodes l') ! x = map (length \<circ> node_next) (sl_nodes l) ! x"
    "map node_key (sl_nodes l') ! x = map node_key (sl_nodes l) ! x" using assms by (simp_all add: same_nodes_def)
  then show "node_height l' x = node_height l x" "node_key (sl_nodes l' ! x) = node_key (sl_nodes l ! x)"
    using x len by (simp_all add: node_height_def)
qed

lemma map_update_same: "f y = f (xs ! i) \<Longrightarrow> map f (xs [i := y]) = map f xs"
  by (cases "i < length xs") (simp_all add: map_update list_update_same_conv list_update_beyond not_less)

lemma SetNext_result:
  assumes "x < length (sl_nodes l)" "i < node_height l x"
  shows "\<exists>l'. Node_SetNext x i p l = Ret l' \<and> same_nodes l l' \<and>
    (\<forall>j. nxt l' j = (if j = i then (nxt l i)(x := Some p) else nxt l j))"
proof -
  let ?l = "l \<lparr> sl_nodes := (sl_nodes l) [x := (sl_nodes l ! x) \<lparr> node_next := (node_next (sl_nodes l ! x)) [i := Some p] \<rparr>] \<rparr>"
  have "Node_SetNext x i p l = Ret ?l" using assms by (simp add: Node_SetNext_def node_height_def)
  moreover have "same_nodes l ?l"
  proof -
    have "map (length \<circ> node_next) (sl_nodes ?l) = map (length \<circ> node_next) (sl_nodes l)"
      "map node_key (sl_nodes ?l) = map node_key (sl_nodes l)"
      by (simp_all add: map_update_same)
    then show ?thesis by (simp add: same_nodes_def)
  qed
  moreover have "nxt ?l j = (if j = i then (nxt l i)(x := Some p) else nxt l j)" for j
    using assms by (auto simp: nxt_def node_height_def nth_list_update)
  ultimately show ?thesis by blast
qed

lemma clear_links_result:
  "sl_head l < length (sl_nodes l) \<Longrightarrow> i + n \<le> node_height l (sl_head l) \<Longrightarrow>
   \<exists>l'. clear_links n i l = Ret l' \<and> same_nodes l l' \<and>
     (\<forall>j. nxt l' j = (if i \<le> j \<and> j < i + n then (nxt l j)(sl_head l := Some None) else nxt l j))"
proof (induction n arbitrary: i l)
  case (Suc n)
  obtain l1 where l1: "Node_SetNext (sl_head l) i None l = Ret l1" "same_nodes l l1"
      "\<forall>j. nxt l1 j = (if j = i then (nxt l i)(sl_head l := Some None) else nxt l j)"
    using SetNext_result [of "sl_head l" l i None] Suc.prems by auto
  obtain l2 where l2: "clear_links n (Suc i) l1 = Ret l2" "same_nodes l1 l2"
      "\<forall>j. nxt l2 j = (if Suc i \<le> j \<and> j < Suc i + n then (nxt l1 j)(sl_head l1 := Some None) else nxt l1 j)"
    using Suc.IH [of l1 "Suc i"] same_nodesD [OF l1(2)] Suc.prems by auto
  have "nxt l2 j = (if i \<le> j \<and> j < i + Suc n then (nxt l j)(sl_head l := Some None) else nxt l j)" for j
    using l1(3) l2(3) same_nodesD(2) [OF l1(2)] by auto
  then show ?case using l1(1) l2(1) same_nodes_trans [OF l1(2) l2(2)] by auto
qed auto

text \<open>The loop that links a new node, when \<open>z j\<close> is what \<open>prev\<close> holds for level \<open>j\<close>.\<close>

lemma link_levels_result:
  assumes "x < length (sl_nodes l)" "i + n \<le> node_height l x" "i + n \<le> length prev"
    and "\<forall>j. i \<le> j \<and> j < i + n \<longrightarrow> prev ! j = Some (z j) \<and> z j \<noteq> x \<and> z j < length (sl_nodes l) \<and> j < node_height l (z j) \<and>
      nxt l j (z j) \<noteq> None"
  shows "\<exists>l'. link_levels n i x prev l = Ret l' \<and> same_nodes l l' \<and>
    (\<forall>j. nxt l' j = (if i \<le> j \<and> j < i + n then (nxt l j)(x := nxt l j (z j), z j := Some (Some x)) else nxt l j))"
  using assms
proof (induction n arbitrary: i l)
  case (Suc n)
  have zi: "prev ! i = Some (z i)" "z i \<noteq> x" "z i < length (sl_nodes l)" "i < node_height l (z i)" "nxt l i (z i) \<noteq> None"
    using Suc.prems(4) [rule_format, of i] by simp_all
  then obtain p where p: "nxt l i (z i) = Some p" by blast
  have prev: "prev_at prev i = Ret (z i)" using zi Suc.prems(3) by (simp add: prev_at_def)
  obtain l1 where l1: "Node_SetNext x i p l = Ret l1" "same_nodes l l1"
      "\<forall>j. nxt l1 j = (if j = i then (nxt l i)(x := Some p) else nxt l j)"
    using SetNext_result [of x l i p] Suc.prems by auto
  note s1 = same_nodesD [OF l1(2)]
  obtain l2 where l2: "Node_SetNext (z i) i (Some x) l1 = Ret l2" "same_nodes l1 l2"
      "\<forall>j. nxt l2 j = (if j = i then (nxt l1 i)(z i := Some (Some x)) else nxt l1 j)"
    using SetNext_result [of "z i" l1 i "Some x"] s1 zi by auto
  have same: "same_nodes l l2" using same_nodes_trans [OF l1(2) l2(2)] .
  note s2 = same_nodesD [OF same]
  have other: "nxt l2 j = nxt l j" if "j \<noteq> i" for j using that l1(3) l2(3) by simp
  have "\<exists>l3. link_levels n (Suc i) x prev l2 = Ret l3 \<and> same_nodes l2 l3 \<and>
      (\<forall>j. nxt l3 j = (if Suc i \<le> j \<and> j < Suc i + n then (nxt l2 j)(x := nxt l2 j (z j), z j := Some (Some x)) else nxt l2 j))"
  proof (rule Suc.IH)
    show "x < length (sl_nodes l2)" "Suc i + n \<le> node_height l2 x" "Suc i + n \<le> length prev"
      using Suc.prems s2 by simp_all
    show "\<forall>j. Suc i \<le> j \<and> j < Suc i + n \<longrightarrow> prev ! j = Some (z j) \<and> z j \<noteq> x \<and> z j < length (sl_nodes l2) \<and>
        j < node_height l2 (z j) \<and> nxt l2 j (z j) \<noteq> None"
      using Suc.prems(4) s2 other by simp
  qed
  then obtain l3 where l3: "link_levels n (Suc i) x prev l2 = Ret l3" "same_nodes l2 l3"
      "\<forall>j. nxt l3 j = (if Suc i \<le> j \<and> j < Suc i + n then (nxt l2 j)(x := nxt l2 j (z j), z j := Some (Some x)) else nxt l2 j)"
    by blast
  have "nxt l3 j = (if i \<le> j \<and> j < i + Suc n then (nxt l j)(x := nxt l j (z j), z j := Some (Some x)) else nxt l j)" for j
  proof (cases "j = i")
    case True
    then show ?thesis using l1(3) l2(3) l3(3) p by simp
  next
    case False
    then show ?thesis using l3(3) other by simp
  qed
  moreover have "link_levels (Suc n) i x prev l = Ret l3" using prev p l1(1) l2(1) l3(1) by (simp add: Node_Next_nxt)
  ultimately show ?case using same_nodes_trans [OF same l3(2)] by blast
qed auto

end
