(* ===== verification/LdbSkipListSpec.thy ===== *)
theory LdbSkipListSpec
  imports LdbSkipList "HOL-Library.Multiset"
begin

text \<open>
  The skip list against a sorted list of keys. The locale \<open>skip_order\<close> is what the list asks of the comparison: a
  strict weak order. In it, every operation of the list and of its iterator is shown to be the one on sorted lists.
\<close>

section \<open>Lists of keys\<close>

definition keys_of :: "'k SkipList \<Rightarrow> nat list \<Rightarrow> 'k list" where
  "keys_of l order = map (\<lambda>x. node_key (sl_nodes l ! x)) order"

definition skip_list :: "('k \<Rightarrow> bool) \<Rightarrow> ('k \<Rightarrow> 'k \<Rightarrow> bool) \<Rightarrow> 'k SkipList \<Rightarrow> nat list \<Rightarrow> 'k list \<Rightarrow> bool" where
  "skip_list ok lt l order ks \<longleftrightarrow> skip_shape l order \<and> keys_of l order = ks \<and> (\<forall>k \<in> set ks. ok k) \<and> sorted_wrt lt ks"

text \<open>The number of keys below \<open>k\<close>, and insertion behind them.\<close>

definition keys_below :: "('k \<Rightarrow> 'k \<Rightarrow> bool) \<Rightarrow> 'k \<Rightarrow> 'k list \<Rightarrow> nat" where
  "keys_below lt k ks = length (takeWhile (\<lambda>x. lt x k) ks)"

definition insert_key :: "('k \<Rightarrow> 'k \<Rightarrow> bool) \<Rightarrow> 'k \<Rightarrow> 'k list \<Rightarrow> 'k list" where
  "insert_key lt k ks = take (keys_below lt k ks) ks @ k # drop (keys_below lt k ks) ks"

lemma walk_cong: "(\<And>y. y \<in> set (x # ys) \<Longrightarrow> f y = g y) \<Longrightarrow> walk f x ys p = walk g x ys p"
  by (induction ys arbitrary: x) auto

lemma random_height_bounds: "h \<le> fst (random_height n h rnd) \<and> fst (random_height n h rnd) \<le> h + n"
proof (induction n arbitrary: h rnd)
  case (Suc n)
  show ?case using Suc.IH [of "Suc h" "snd (Random_Next rnd)"] by (auto split: prod.splits)
qed simp

lemma RandomHeight_bounds:
  "RandomHeight l = (h, l') \<Longrightarrow> 1 \<le> h \<and> h \<le> kMaxHeight \<and> (\<exists>rnd. l' = l \<lparr> sl_rnd := rnd \<rparr>)"
  using random_height_bounds [of 1 "kMaxHeight - 1" "sl_rnd l"] by (auto simp: RandomHeight_def kMaxHeight_def split: prod.splits)

lemma fill_prev_result:
  "length (fill_prev n i head prev) = length prev \<and>
   (\<forall>j < length prev. fill_prev n i head prev ! j = (if i \<le> j \<and> j < i + n then Some head else prev ! j))"
  by (induction n arbitrary: i prev) (auto simp: nth_list_update)

lemma kMaxHeight_pos [simp]: "0 < kMaxHeight"
  by (simp add: kMaxHeight_def)

section \<open>A new list and a new node\<close>

lemma new_SkipList_shape: "\<exists>arena' l. new_SkipList new_array zero arena = Ret (arena', l) \<and> skip_shape l []"
proof -
  obtain p arena' where arena: "AllocateAligned new_array (of_nat (16 + 8 * (kMaxHeight - 1))) arena = (p, arena')" by fastforce
  define l0 where "l0 = \<lparr> sl_nodes = [\<lparr> node_key = zero, node_next = replicate kMaxHeight None \<rparr>], sl_head = 0,
    max_height = 1, sl_rnd = new_Random 0xdeadbeef \<rparr>"
  have l0: "sl_head l0 = 0" "length (sl_nodes l0) = 1" "node_height l0 0 = kMaxHeight" "max_height l0 = 1"
    by (simp_all add: l0_def node_height_def)
  obtain l where l: "clear_links kMaxHeight 0 l0 = Ret l" "same_nodes l0 l"
      "\<forall>j. nxt l j = (if 0 \<le> j \<and> j < 0 + kMaxHeight then (nxt l0 j)(sl_head l0 := Some None) else nxt l0 j)"
    using clear_links_result [of l0 0 kMaxHeight] l0 by auto
  note s = same_nodesD [OF l(2)]
  have "new_SkipList new_array zero arena = Ret (arena', l)"
    using l(1) arena by (simp add: new_SkipList_def NewNode_def Let_def l0_def)
  moreover have "skip_shape l []" using s l0 l(3) by (simp add: skip_shape_def Suc_le_eq)
  ultimately show ?thesis by blast
qed

text \<open>Appending a node of height \<open>h\<close> and linking it in behind \<open>before\<close>.\<close>

lemma link_shape:
  assumes shape: "skip_shape l (before @ after)" and h: "1 \<le> h" "h \<le> kMaxHeight"
    and l1: "l1 = l \<lparr> sl_rnd := rnd, max_height := max (max_height l) h,
      sl_nodes := sl_nodes l @ [\<lparr> node_key = key, node_next = replicate h None \<rparr>] \<rparr>"
    and prev: "length prev = kMaxHeight" "\<forall>j < h. prev ! j = Some (last (sl_head l # on_level l j before))"
  shows "\<exists>l2. link_levels h 0 (length (sl_nodes l)) prev l1 = Ret l2 \<and>
    skip_shape l2 (before @ length (sl_nodes l) # after) \<and>
    keys_of l2 (before @ length (sl_nodes l) # after) = keys_of l before @ key # keys_of l after"
proof -
  let ?n = "length (sl_nodes l)" and ?z = "\<lambda>j. last (sl_head l # on_level l j before)"
  have old: "x < ?n" if "x \<in> set (sl_head l # before @ after)" for x using shape that by (auto simp: skip_shape_def)
  have heights: "node_height l1 x = node_height l x" if "x < ?n" for x using that by (simp add: l1 node_height_def nth_append)
  have new: "node_height l1 ?n = h" by (simp add: l1 node_height_def)
  have links: "nxt l1 j x = nxt l j x" if "x < ?n" for j x using that by (simp add: l1 nxt_def nth_append)
  have z: "?z j \<in> set (sl_head l # before)" for j
  proof -
    have "?z j \<in> set (sl_head l # on_level l j before)" by (rule last_in_set) simp
    then show ?thesis using set_on_level [of l j before] by auto
  qed
  have zh: "j < node_height l (?z j)" if "j < kMaxHeight" for j
  proof -
    have "?z j \<in> set (sl_head l # on_level l j before)" by (rule last_in_set) simp
    then show ?thesis using that shape by (auto simp: on_level_def skip_shape_def)
  qed
  have walk: "walk (nxt l j) (sl_head l) (on_level l j before @ on_level l j after) None" if "j < kMaxHeight" for j
    using shape that by (simp add: skip_shape_def)
  have zl: "nxt l j (?z j) \<noteq> None" if "j < kMaxHeight" for j
  proof (cases "on_level l j after")
    case Nil
    then show ?thesis using walk_last [OF walk [OF that]] by simp
  next
    case (Cons y ys)
    then have "walk (nxt l j) (sl_head l) (on_level l j before) (Some y)" using walk [OF that] by (simp add: walk_append)
    from walk_last [OF this] show ?thesis by simp
  qed
  obtain l2 where l2: "link_levels h 0 ?n prev l1 = Ret l2" "same_nodes l1 l2"
      "\<forall>j. nxt l2 j = (if 0 \<le> j \<and> j < 0 + h then (nxt l1 j)(?n := nxt l1 j (?z j), ?z j := Some (Some ?n)) else nxt l1 j)"
  proof -
    have "\<forall>j. 0 \<le> j \<and> j < 0 + h \<longrightarrow> prev ! j = Some (?z j) \<and> ?z j \<noteq> ?n \<and> ?z j < length (sl_nodes l1) \<and>
        j < node_height l1 (?z j) \<and> nxt l1 j (?z j) \<noteq> None"
    proof (intro allI impI)
      fix j assume j: "0 \<le> j \<and> j < 0 + h"
      have zn: "?z j < ?n" using z [of j] old by auto
      then show "prev ! j = Some (?z j) \<and> ?z j \<noteq> ?n \<and> ?z j < length (sl_nodes l1) \<and>
          j < node_height l1 (?z j) \<and> nxt l1 j (?z j) \<noteq> None"
        using j prev(2) h(2) heights [OF zn] links [OF zn, of j] zh [of j] zl [of j] by (simp add: l1)
    qed
    from link_levels_result [OF _ _ _ this] show ?thesis using prev(1) h new that by (auto simp: l1)
  qed
  note s = same_nodesD [OF l2(2)]
  have len1: "length (sl_nodes l1) = Suc ?n" by (simp add: l1)
  have heights2: "node_height l2 x = (if x = ?n then h else node_height l x)" if "x < Suc ?n" for x
    using that s(4) heights new len1 by (cases "x = ?n") auto
  have same: "node_height l2 x = node_height l x" if "x \<in> set (before @ after)" for x
    using heights2 [of x] old [of x] that by simp
  have level: "on_level l2 i xs = on_level l i xs" if "set xs \<subseteq> set (before @ after)" for i xs
    unfolding on_level_def by (rule filter_cong [OF refl]) (use that same in auto)
  have "walk (nxt l2 i) (sl_head l) (on_level l2 i (before @ ?n # after)) None" if i: "i < kMaxHeight" for i
  proof -
    have nodes: "y < ?n" if "y \<in> set (sl_head l # on_level l i before @ on_level l i after)" for y
      using that old set_on_level by fastforce
    have old_walk: "walk (nxt l1 i) (sl_head l) (on_level l i before @ on_level l i after) None"
      using walk [OF i] walk_cong [of "sl_head l" "on_level l i before @ on_level l i after" "nxt l1 i" "nxt l i"] links nodes
      by blast
    have dist: "distinct (sl_head l # on_level l i before @ on_level l i after)"
      using shape by (auto simp: skip_shape_def on_level_def)
    show ?thesis
    proof (cases "i < h")
      case True
      have "?n \<notin> set (sl_head l # on_level l i before @ on_level l i after)" using nodes by blast
      from walk_insert [OF old_walk dist this] show ?thesis
        using True l2(3) level [of before] level [of after] heights2 [of ?n] by simp
    next
      case False
      then show ?thesis using old_walk l2(3) level [of before] level [of after] heights2 [of ?n] by simp
    qed
  qed
  moreover have "x < length (sl_nodes l2) \<and> 1 \<le> node_height l2 x \<and> node_height l2 x \<le> max_height l2"
    if x: "x \<in> set (before @ ?n # after)" for x
  proof (cases "x = ?n")
    case True
    then show ?thesis using heights2 [of ?n] h s(1,3) len1 by (simp add: l1)
  next
    case False
    then have x': "x \<in> set (before @ after)" using x by auto
    then have "1 \<le> node_height l x" "node_height l x \<le> max_height l" using shape by (auto simp: skip_shape_def)
    then show ?thesis using same [OF x'] s(1,3) len1 old [of x] x' by (simp add: l1)
  qed
  moreover have "sl_head l2 = sl_head l" "max_height l2 = max (max_height l) h" using s by (simp_all add: l1)
  moreover have "?n \<notin> set (sl_head l # before @ after)" using old by blast
  ultimately have "skip_shape l2 (before @ ?n # after)"
    using shape s(1) len1 heights2 [of "sl_head l"] h old [of "sl_head l"] by (auto simp: skip_shape_def)
  moreover have "keys_of l2 (before @ ?n # after) = keys_of l before @ key # keys_of l after"
  proof -
    have "node_key (sl_nodes l2 ! x) = node_key (sl_nodes l ! x)" if "x \<in> set (before @ after)" for x
      using s(5) [of x] old [of x] that by (simp add: l1 nth_append)
    moreover have "node_key (sl_nodes l2 ! ?n) = key" using s(5) [of ?n] by (simp add: l1)
    ultimately show ?thesis by (simp add: keys_of_def)
  qed
  ultimately show ?thesis using l2(1) by blast
qed

section \<open>The contract of the comparison\<close>

locale skip_order =
  fixes cmp :: "'k \<Rightarrow> 'k \<Rightarrow> int res" and ok :: "'k \<Rightarrow> bool" and lt :: "'k \<Rightarrow> 'k \<Rightarrow> bool"
  assumes cmp: "ok a \<Longrightarrow> ok b \<Longrightarrow> \<exists>r. cmp a b = Ret r \<and> (r < 0 \<longleftrightarrow> lt a b) \<and> (r = 0 \<longleftrightarrow> \<not> lt a b \<and> \<not> lt b a)"
    and irrefl: "\<not> lt a a"
    and trans: "ok a \<Longrightarrow> ok b \<Longrightarrow> ok c \<Longrightarrow> lt a b \<Longrightarrow> lt b c \<Longrightarrow> lt a c"
    and weak: "ok a \<Longrightarrow> ok b \<Longrightarrow> ok c \<Longrightarrow> lt a c \<Longrightarrow> lt a b \<or> lt b c"
begin

text \<open>A key splits the nodes into those below it and the others.\<close>

lemma below_split:
  assumes list: "skip_list ok lt l order ks" and k: "ok k"
  defines "m \<equiv> keys_below lt k ks"
  shows "\<And>x. x \<in> set order \<Longrightarrow> lt (node_key (sl_nodes l ! x)) k \<longleftrightarrow> x \<in> set (take m order)"
    and "m \<le> length order" and "\<And>y. y \<in> set (drop m ks) \<Longrightarrow> \<not> lt y k" and "\<And>y. y \<in> set (take m ks) \<Longrightarrow> lt y k"
proof -
  have ks: "ks = keys_of l order" "\<forall>k \<in> set ks. ok k" "sorted_wrt lt ks" using list by (auto simp: skip_list_def)
  have m: "take m ks = takeWhile (\<lambda>x. lt x k) ks" "drop m ks = dropWhile (\<lambda>x. lt x k) ks"
    by (simp_all add: m_def keys_below_def takeWhile_eq_take [symmetric] dropWhile_eq_drop [symmetric])
  show len: "m \<le> length order" using length_takeWhile_le [of "\<lambda>x. lt x k" ks] ks(1) by (simp add: m_def keys_below_def keys_of_def)
  show lower: "lt y k" if "y \<in> set (take m ks)" for y using that m(1) by (auto dest: set_takeWhileD)
  show upper: "\<not> lt y k" if y: "y \<in> set (drop m ks)" for y
  proof
    assume less: "lt y k"
    obtain z zs where z: "drop m ks = z # zs" using y by (cases "drop m ks") auto
    then have nz: "\<not> lt z k" using m(2) hd_dropWhile [of "\<lambda>x. lt x k" ks] by (metis list.distinct(1) list.sel(1))
    then have "y \<in> set zs" using less y z by auto
    moreover have "sorted_wrt lt (z # zs)" using ks(3) z by (metis sorted_wrt_drop)
    ultimately have "lt z y" by simp
    moreover have "ok z" "ok y" using ks(2) z y by (metis in_set_dropD list.set_intros(1))+
    ultimately show False using trans [of z y k] less nz k by blast
  qed
  show "lt (node_key (sl_nodes l ! x)) k \<longleftrightarrow> x \<in> set (take m order)" if x: "x \<in> set order" for x
  proof (cases "x \<in> set (take m order)")
    case True
    then show ?thesis using lower ks(1) by (auto simp: keys_of_def take_map)
  next
    case False
    then have "x \<in> set (drop m order)" using x by (metis Un_iff append_take_drop_id set_append)
    then have "node_key (sl_nodes l ! x) \<in> set (drop m ks)" using ks(1) by (auto simp: keys_of_def drop_map)
    then show ?thesis using upper False by blast
  qed
qed

lemma compare_node:
  assumes list: "skip_list ok lt l order ks" and k: "ok k" and x: "x \<in> set order"
  shows "Node_key l x = Ret (node_key (sl_nodes l ! x)) \<and>
    (\<exists>r. cmp (node_key (sl_nodes l ! x)) k = Ret r \<and> (r < 0 \<longleftrightarrow> x \<in> set (take (keys_below lt k ks) order)))"
proof -
  have "ok (node_key (sl_nodes l ! x))" using list x by (auto simp: skip_list_def keys_of_def)
  then show ?thesis
    using cmp [of "node_key (sl_nodes l ! x)" k] k below_split(1) [OF list k x] list x
    by (auto simp: Node_key_def skip_list_def skip_shape_def)
qed

lemma FindGreaterOrEqual_result:
  assumes list: "skip_list ok lt l order ks" and k: "ok k"
    and prev: "case prev of None \<Rightarrow> True | Some a \<Rightarrow> length a = kMaxHeight"
  shows "\<exists>prev'. FindGreaterOrEqual cmp l k prev =
      Ret (if keys_below lt k ks < length order then Some (order ! keys_below lt k ks) else None, prev') \<and>
    prev_written l (sl_head l) (take (keys_below lt k ks) order) (max_height l) prev prev'"
proof -
  let ?m = "keys_below lt k ks"
  have shape: "skip_shape l order" using list by (simp add: skip_list_def)
  have on: "KeyIsAfterNode cmp l k (Some y) = Ret (y \<in> set (take ?m order))" if "y \<in> set order" for y
    using compare_node [OF list k that] by (auto simp: KeyIsAfterNode_def)
  have none: "KeyIsAfterNode cmp l k None = Ret False" by (simp add: KeyIsAfterNode_def)
  obtain prev' where "search (KeyIsAfterNode cmp l k) l prev = Ret (last (sl_head l # take ?m order),
        (if drop ?m order = [] then None else Some (hd (drop ?m order))), prev')"
      "prev_written l (sl_head l) (take ?m order) (max_height l) prev prev'"
    using search_result [OF shape, of "take ?m order" "drop ?m order", OF _ on none prev] by auto
  then show ?thesis by (simp add: FindGreaterOrEqual_def hd_drop_conv_nth not_le)
qed

lemma FindLessThan_result:
  assumes list: "skip_list ok lt l order ks" and k: "ok k"
  shows "FindLessThan cmp l k = Ret (last (sl_head l # take (keys_below lt k ks) order))"
proof -
  let ?m = "keys_below lt k ks"
  let ?on = "\<lambda>next. case next of
      None \<Rightarrow> Ret False
    | Some n \<Rightarrow> res_bind (Node_key l n) (\<lambda>k'. res_bind (cmp k' k) (\<lambda>r. Ret (\<not> 0 \<le> r)))"
  have shape: "skip_shape l order" using list by (simp add: skip_list_def)
  have on: "?on (Some y) = Ret (y \<in> set (take ?m order))" if "y \<in> set order" for y
    using compare_node [OF list k that] by auto
  obtain prev' where "search ?on l None = Ret (last (sl_head l # take ?m order),
        (if drop ?m order = [] then None else Some (hd (drop ?m order))), prev')"
    using search_result [OF shape, of "take ?m order" "drop ?m order" ?on None, OF _ on] by auto
  then show ?thesis by (simp add: FindLessThan_def)
qed

lemma FindLast_result:
  assumes list: "skip_list ok lt l order ks"
  shows "FindLast l = Ret (last (sl_head l # order))"
proof -
  have shape: "skip_shape l order" using list by (simp add: skip_list_def)
  obtain prev' where "search (\<lambda>next. Ret (next \<noteq> None)) l None = Ret (last (sl_head l # order), None, prev')"
    using search_result [OF shape, of order "[]" "\<lambda>next. Ret (next \<noteq> None)" None] by auto
  then show ?thesis by (simp add: FindLast_def)
qed

section \<open>Insertion and lookup\<close>

text \<open>Insertion of a key that no key in the list is equal to.\<close>

lemma Insert_result:
  assumes list: "skip_list ok lt l order ks" and k: "ok k" and fresh: "\<forall>k' \<in> set ks. lt k' k \<or> lt k k'"
  shows "\<exists>arena' l' order'. SkipList_Insert new_array cmp k arena l = Ret (arena', l') \<and>
    skip_list ok lt l' order' (insert_key lt k ks)"
proof -
  let ?m = "keys_below lt k ks"
  let ?before = "take ?m order" and ?after = "drop ?m order"
  have shape: "skip_shape l (?before @ ?after)" using list by (simp add: skip_list_def)
  obtain prev where find: "FindGreaterOrEqual cmp l k (Some (replicate kMaxHeight None)) =
      Ret (if ?m < length order then Some (order ! ?m) else None, Some prev)"
    and prev: "length prev = kMaxHeight"
      "\<forall>i < max_height l. prev ! i = Some (last (sl_head l # on_level l i ?before))"
    using FindGreaterOrEqual_result [OF list k, of "Some (replicate kMaxHeight None)"] shape
    by (auto simp: prev_written_def skip_shape_def)
  obtain h lr where h: "RandomHeight l = (h, lr)" by fastforce
  obtain rnd where lr: "lr = l \<lparr> sl_rnd := rnd \<rparr>" and hb: "1 \<le> h" "h \<le> kMaxHeight" using RandomHeight_bounds [OF h] by blast
  define prev2 where "prev2 = (if max_height l < h then fill_prev (h - max_height l) (max_height l) (sl_head l) prev else prev)"
  obtain p arena1 where arena: "AllocateAligned new_array (of_nat (16 + 8 * (h - 1))) arena = (p, arena1)" by fastforce
  define l1 where "l1 = l \<lparr> sl_rnd := rnd, max_height := max (max_height l) h,
      sl_nodes := sl_nodes l @ [\<lparr> node_key = k, node_next = replicate h None \<rparr>] \<rparr>"
  have top: "on_level l i ?before = []" if "max_height l \<le> i" for i
  proof -
    have "node_height l x \<le> i" if "x \<in> set ?before" for x
      using shape \<open>max_height l \<le> i\<close> that by (fastforce simp: skip_shape_def dest: in_set_takeD)
    then show ?thesis by (auto simp: on_level_def filter_empty_conv not_less)
  qed
  have prev2: "length prev2 = kMaxHeight" "\<forall>j < h. prev2 ! j = Some (last (sl_head l # on_level l j ?before))"
    using prev hb top fill_prev_result [of "h - max_height l" "max_height l" "sl_head l" prev]
    by (auto simp: prev2_def not_less)
  obtain l2 where l2: "link_levels h 0 (length (sl_nodes l)) prev2 l1 = Ret l2"
      "skip_shape l2 (?before @ length (sl_nodes l) # ?after)"
      "keys_of l2 (?before @ length (sl_nodes l) # ?after) = keys_of l ?before @ k # keys_of l ?after"
    using link_shape [OF shape hb l1_def prev2] by blast
  have "SkipList_Insert new_array cmp k arena l = Ret (arena1, l2)"
    using find h l2(1) arena
    by (simp add: SkipList_Insert_def lr prev2_def l1_def NewNode_def Let_def max_def split: if_splits)
  moreover have "keys_of l ?before @ k # keys_of l ?after = insert_key lt k ks"
    using list by (auto simp: skip_list_def insert_key_def keys_of_def take_map drop_map)
  moreover have "sorted_wrt lt (insert_key lt k ks)"
  proof -
    have "lt k y" if "y \<in> set (drop ?m ks)" for y
      using below_split(3) [OF list k that] fresh that in_set_dropD by fastforce
    moreover have "sorted_wrt lt (take ?m ks @ drop ?m ks)" using list by (simp add: skip_list_def)
    ultimately show ?thesis
      using below_split(4) [OF list k] by (auto simp: insert_key_def sorted_wrt_append simp del: append_take_drop_id)
  qed
  moreover have "\<forall>k' \<in> set (insert_key lt k ks). ok k'"
    using list k by (auto simp: insert_key_def skip_list_def dest: in_set_takeD in_set_dropD)
  ultimately show ?thesis using l2(2,3) by (auto simp: skip_list_def)
qed

lemma below_first:
  assumes list: "skip_list ok lt l order ks" and k: "ok k" and m: "keys_below lt k ks < length ks"
  shows "(\<exists>k' \<in> set ks. \<not> lt k' k \<and> \<not> lt k k') \<longleftrightarrow> \<not> lt k (ks ! keys_below lt k ks)"
proof -
  let ?m = "keys_below lt k ks"
  have oks: "\<And>k'. k' \<in> set ks \<Longrightarrow> ok k'" and sorted: "sorted_wrt lt ks" using list by (auto simp: skip_list_def)
  have in_drop: "ks ! ?m \<in> set (drop ?m ks)" using m by (simp add: Cons_nth_drop_Suc [symmetric])
  then have notless: "\<not> lt (ks ! ?m) k" using below_split(3) [OF list k] by blast
  have first: "ks ! ?m \<in> set ks" using m by simp
  have "\<not> lt k (ks ! ?m)" if k': "k' \<in> set ks" "\<not> lt k' k" "\<not> lt k k'" for k'
  proof
    assume less: "lt k (ks ! ?m)"
    obtain i where i: "i < length ks" "ks ! i = k'" using k'(1) by (metis in_set_conv_nth)
    have "\<not> i < ?m"
    proof
      assume "i < ?m"
      then have "k' \<in> set (take ?m ks)" using i by (metis in_set_conv_nth length_take min_less_iff_conj nth_take)
      then show False using below_split(4) [OF list k] k'(2) by blast
    qed
    then have "i = ?m \<or> lt (ks ! ?m) k'" using sorted_wrt_nth_less [OF sorted, of ?m i] i by fastforce
    then show False using less i(2) k'(3) trans [OF k oks [OF first] oks [OF k'(1)]] by blast
  qed
  then show ?thesis using notless first by blast
qed

lemma Contains_result:
  assumes list: "skip_list ok lt l order ks" and k: "ok k"
  shows "SkipList_Contains cmp k l = Ret (\<exists>k' \<in> set ks. \<not> lt k' k \<and> \<not> lt k k')"
proof -
  let ?m = "keys_below lt k ks"
  have len: "length ks = length order" using list by (auto simp: skip_list_def keys_of_def)
  obtain prev' where find: "FindGreaterOrEqual cmp l k None = Ret (if ?m < length order then Some (order ! ?m) else None, prev')"
    using FindGreaterOrEqual_result [OF list k, of None] by auto
  show ?thesis
  proof (cases "?m < length order")
    case True
    have x: "order ! ?m \<in> set order" using True by simp
    have key: "node_key (sl_nodes l ! (order ! ?m)) = ks ! ?m" "ok (ks ! ?m)"
      using list True len nth_mem [of ?m ks] by (auto simp: skip_list_def keys_of_def)
    have "ks ! ?m \<in> set (drop ?m ks)" using True len by (simp add: Cons_nth_drop_Suc [symmetric])
    then have "\<not> lt (ks ! ?m) k" using below_split(3) [OF list k] by blast
    then show ?thesis
      using find True len key cmp [OF k key(2)] below_first [OF list k] compare_node [OF list k x]
      by (auto simp: SkipList_Contains_def Skip_Equal_def)
  next
    case False
    then have "set (take ?m ks) = set ks" using len by simp
    then show ?thesis using find False below_split(4) [OF list k] by (auto simp: SkipList_Contains_def)
  qed
qed

section \<open>The iterator\<close>

text \<open>The pointer to the entry \<open>i\<close>.\<close>

lemma below_own:
  assumes list: "skip_list ok lt l order ks" and i: "i < length ks"
  shows "keys_below lt (ks ! i) ks = i"
proof -
  have sorted: "sorted_wrt lt ks" using list by (simp add: skip_list_def)
  have "takeWhile (\<lambda>x. lt x (ks ! i)) ks = take i ks"
  proof (rule takeWhile_eq_take_P_nth)
    show "lt (ks ! j) (ks ! i)" if "j < i" for j using sorted_wrt_nth_less [OF sorted that] i by simp
    show "\<not> lt (ks ! i) (ks ! i)" by (rule irrefl)
  qed
  then show ?thesis using i by (simp add: keys_below_def)
qed

end

definition skip_ptr :: "nat list \<Rightarrow> nat \<Rightarrow> node_ptr" where
  "skip_ptr order i = (if i < length order then Some (order ! i) else None)"

context skip_order
begin

lemma last_take_ptr:
  assumes list: "skip_list ok lt l order ks" and n: "n \<le> length order"
  shows "not_head l (last (sl_head l # take n order)) = skip_ptr order (if n = 0 then length order else n - 1)"
proof (cases n)
  case (Suc m)
  then have m: "m < length order" and last: "last (sl_head l # take n order) = order ! m"
    using n by (auto simp: take_Suc_conv_app_nth)
  have "order ! m \<noteq> sl_head l" using list nth_mem [OF m] by (metis distinct.simps(2) skip_list_def skip_shape_def)
  then show ?thesis unfolding last using m Suc by (simp add: not_head_def skip_ptr_def)
qed (simp add: not_head_def skip_ptr_def)

lemma skip_moves:
  assumes list: "skip_list ok lt l order ks" and i: "i < length ks"
  shows "skip_key l (skip_ptr order i) = Ret (ks ! i)"
    and "skip_Next l (skip_ptr order i) = Ret (skip_ptr order (Suc i))"
    and "skip_Prev cmp l (skip_ptr order i) = Ret (skip_ptr order (if i = 0 then length ks else i - 1))"
proof -
  have shape: "skip_shape l order" and ks: "keys_of l order = ks" using list by (simp_all add: skip_list_def)
  have len: "length ks = length order" using ks by (auto simp: keys_of_def)
  have mem: "order ! i \<in> set order" using i len by simp
  then have key: "Node_key l (order ! i) = Ret (ks ! i)"
    using shape ks i len by (auto simp: Node_key_def keys_of_def skip_shape_def)
  then show "skip_key l (skip_ptr order i) = Ret (ks ! i)" using i len by (simp add: skip_key_def skip_ptr_def)
  have oki: "ok (ks ! i)" using list i by (auto simp: skip_list_def)
  have "FindLessThan cmp l (ks ! i) = Ret (last (sl_head l # take i order))"
    using FindLessThan_result [OF list oki] below_own [OF list i] by simp
  then show "skip_Prev cmp l (skip_ptr order i) = Ret (skip_ptr order (if i = 0 then length ks else i - 1))"
    using last_take_ptr [OF list, of i] i len key
    by (simp add: skip_Prev_def skip_ptr_def [of order i] del: last.simps)
  have height: "0 < node_height l (order ! i)" using shape mem by (auto simp: skip_shape_def Suc_le_eq)
  have "sl_head l # order = (sl_head l # take i order) @ order ! i # drop (Suc i) order"
    using i len by (simp add: id_take_nth_drop [symmetric])
  from shape_link [OF shape this height] have "Node_Next l (order ! i) 0 = Ret (case on_level l 0 (drop (Suc i) order) of [] \<Rightarrow> None | y # _ \<Rightarrow> Some y)"
    by simp
  moreover have "on_level l 0 (drop (Suc i) order) = drop (Suc i) order"
    by (rule on_level_0 [OF shape]) (rule set_drop_subset)
  moreover have "(case drop (Suc i) order of [] \<Rightarrow> None | y # _ \<Rightarrow> Some y) = skip_ptr order (Suc i)"
    using Cons_nth_drop_Suc [of "Suc i" order] by (auto simp: skip_ptr_def split: list.splits)
  ultimately have "Node_Next l (order ! i) 0 = Ret (skip_ptr order (Suc i))" by simp
  moreover have "skip_ptr order i = Some (order ! i)" using i len by (simp add: skip_ptr_def)
  ultimately show "skip_Next l (skip_ptr order i) = Ret (skip_ptr order (Suc i))" by (simp add: skip_Next_def)
qed

lemma skip_seeks:
  assumes list: "skip_list ok lt l order ks"
  shows "skip_SeekToFirst l = Ret (skip_ptr order 0)"
    and "skip_SeekToLast l = Ret (skip_ptr order (length ks - 1))"
    and "ok k \<Longrightarrow> skip_Seek cmp l k = Ret (skip_ptr order (keys_below lt k ks))"
proof -
  have shape: "skip_shape l order" and len: "length ks = length order" using list by (auto simp: skip_list_def keys_of_def)
  have "node_height l (sl_head l) = kMaxHeight" using shape by (simp add: skip_shape_def)
  then have "Node_Next l (sl_head l) 0 = Ret (case on_level l 0 order of [] \<Rightarrow> None | y # _ \<Rightarrow> Some y)"
    using shape_link [OF shape, of "[]" "sl_head l" order 0] by simp
  then show "skip_SeekToFirst l = Ret (skip_ptr order 0)"
    using on_level_0 [OF shape, of order] by (auto simp: skip_SeekToFirst_def skip_ptr_def split: list.splits)
  show "skip_SeekToLast l = Ret (skip_ptr order (length ks - 1))"
    using FindLast_result [OF list] last_take_ptr [OF list, of "length order"] len
    by (cases order) (auto simp: skip_SeekToLast_def skip_ptr_def)
  show "skip_Seek cmp l k = Ret (skip_ptr order (keys_below lt k ks))" if k: "ok k"
  proof -
    obtain prev' where "FindGreaterOrEqual cmp l k None =
        Ret (if keys_below lt k ks < length order then Some (order ! keys_below lt k ks) else None, prev')"
      using FindGreaterOrEqual_result [OF list k, of None] by auto
    then show ?thesis by (simp add: skip_Seek_def skip_ptr_def)
  qed
qed

end

section \<open>Runs\<close>

fun insert_all :: "new_operator \<Rightarrow> ('k \<Rightarrow> 'k \<Rightarrow> int res) \<Rightarrow> 'k list \<Rightarrow> Arena \<times> 'k SkipList \<Rightarrow> (Arena \<times> 'k SkipList) res" where
  "insert_all new_array cmp [] s = Ret s"
| "insert_all new_array cmp (k # ks) s =
     res_bind (SkipList_Insert new_array cmp k (fst s) (snd s)) (insert_all new_array cmp ks)"

text \<open>A client that reads all keys.\<close>

fun skip_read :: "nat \<Rightarrow> (node_ptr \<Rightarrow> node_ptr res) \<Rightarrow> 'k SkipList \<Rightarrow> node_ptr \<Rightarrow> 'k list res" where
  "skip_read 0 move l node = NoFuel"
| "skip_read (Suc fuel) move l node =
     (if skip_Valid node
      then res_bind (skip_key l node) (\<lambda>k. res_bind (move node) (\<lambda>node. map_res (\<lambda>ks. k # ks) (skip_read fuel move l node)))
      else Ret [])"

context skip_order
begin

lemma set_insert_key: "set (insert_key lt k ks) = insert k (set ks)"
  by (auto simp: insert_key_def dest: in_set_takeD in_set_dropD) (metis Un_iff append_take_drop_id set_append)

lemma insert_all_result:
  assumes "skip_list ok lt l order ks0" "\<forall>k \<in> set ks. ok k"
    "\<forall>k \<in> set ks. \<forall>k' \<in> set ks0. lt k' k \<or> lt k k'" "sorted_wrt (\<lambda>a b. lt a b \<or> lt b a) ks"
  shows "\<exists>arena' l' order'. insert_all new_array cmp ks (arena, l) = Ret (arena', l') \<and>
    skip_list ok lt l' order' (fold (insert_key lt) ks ks0)"
  using assms
proof (induction ks arbitrary: arena l order ks0)
  case (Cons k ks)
  obtain arena1 l1 order1 where 1: "SkipList_Insert new_array cmp k arena l = Ret (arena1, l1)"
      "skip_list ok lt l1 order1 (insert_key lt k ks0)"
    using Insert_result [OF Cons.prems(1), of k new_array arena] Cons.prems(2,3) by auto
  have "\<exists>arena' l' order'. insert_all new_array cmp ks (arena1, l1) = Ret (arena', l') \<and>
      skip_list ok lt l' order' (fold (insert_key lt) ks (insert_key lt k ks0))"
    by (rule Cons.IH [OF 1(2)]) (use Cons.prems(2-4) in \<open>auto simp: set_insert_key\<close>)
  then show ?case using 1(1) by simp
qed auto

lemma set_fold_insert: "set (fold (insert_key lt) ks ks0) = set ks \<union> set ks0"
  by (induction ks arbitrary: ks0) (auto simp: set_insert_key)

lemma length_fold_insert: "length (fold (insert_key lt) ks ks0) = length ks + length ks0"
  by (induction ks arbitrary: ks0) (auto simp: insert_key_def)

lemma skip_read_forward:
  assumes list: "skip_list ok lt l order ks"
  shows "length ks - i < fuel \<Longrightarrow> skip_read fuel (skip_Next l) l (skip_ptr order i) = Ret (drop i ks)"
proof (induction fuel arbitrary: i)
  case (Suc fuel)
  have len: "length order = length ks" using list by (auto simp: skip_list_def keys_of_def)
  show ?case
  proof (cases "i < length ks")
    case True
    then have "skip_read fuel (skip_Next l) l (skip_ptr order (Suc i)) = Ret (drop (Suc i) ks)" using Suc by simp
    then show ?thesis using True skip_moves(1,2) [OF list True] len
      by (simp add: skip_Valid_def skip_ptr_def [of order i] Cons_nth_drop_Suc split: if_splits)
  next
    case False
    then show ?thesis using len by (simp add: skip_Valid_def skip_ptr_def)
  qed
qed simp

lemma skip_read_backward:
  assumes list: "skip_list ok lt l order ks"
  shows "i < length ks \<Longrightarrow> Suc i < fuel \<Longrightarrow>
    skip_read fuel (skip_Prev cmp l) l (skip_ptr order i) = Ret (rev (take (Suc i) ks))"
proof (induction fuel arbitrary: i)
  case (Suc fuel)
  have len: "length order = length ks" using list by (auto simp: skip_list_def keys_of_def)
  have valid: "skip_Valid (skip_ptr order j) \<longleftrightarrow> j < length ks" for j using len by (simp add: skip_Valid_def skip_ptr_def)
  have "skip_read fuel (skip_Prev cmp l) l (skip_ptr order (if i = 0 then length ks else i - 1)) = Ret (rev (take i ks))"
  proof (cases i)
    case 0
    then show ?thesis using Suc.prems(2) valid by (cases fuel) auto
  next
    case (Suc j)
    then show ?thesis using Suc.IH [of j] Suc.prems by simp
  qed
  then show ?case using skip_moves(1,3) [OF list Suc.prems(1)] Suc.prems(1) valid by (simp add: take_Suc_conv_app_nth)
qed simp

lemma skip_list_runs:
  assumes "\<forall>k \<in> set ks. ok k" and "sorted_wrt (\<lambda>a b. lt a b \<or> lt b a) ks"
  shows "\<exists>arena l sorted. res_bind (new_SkipList new_array zero new_Arena) (insert_all new_array cmp ks) = Ret (arena, l) \<and>
    sorted = fold (insert_key lt) ks [] \<and> sorted_wrt lt sorted \<and> mset sorted = mset ks \<and>
    res_bind (skip_SeekToFirst l) (skip_read (length ks + 1) (skip_Next l) l) = Ret sorted \<and>
    res_bind (skip_SeekToLast l) (skip_read (length ks + 1) (skip_Prev cmp l) l) = Ret (rev sorted) \<and>
    (\<forall>k. ok k \<longrightarrow> SkipList_Contains cmp k l = Ret (\<exists>k' \<in> set ks. \<not> lt k' k \<and> \<not> lt k k') \<and>
      res_bind (skip_Seek cmp l k) (skip_read (length ks + 1) (skip_Next l) l) = Ret (dropWhile (\<lambda>x. lt x k) sorted))"
proof -
  obtain arena0 l0 where 0: "new_SkipList new_array zero new_Arena = Ret (arena0, l0)" "skip_shape l0 []"
    using new_SkipList_shape [of new_array zero new_Arena] by blast
  then have "skip_list ok lt l0 [] []" by (simp add: skip_list_def keys_of_def)
  from insert_all_result [OF this assms(1) _ assms(2), of new_array arena0] obtain arena l order
    where l: "insert_all new_array cmp ks (arena0, l0) = Ret (arena, l)" "skip_list ok lt l order (fold (insert_key lt) ks [])"
    by auto
  let ?s = "fold (insert_key lt) ks []"
  have len: "length ?s = length ks" by (simp add: length_fold_insert)
  have mset: "mset (fold (insert_key lt) ks ks0) = mset ks + mset ks0" for ks0
  proof (induction ks arbitrary: ks0)
    case (Cons k ks)
    have "mset (insert_key lt k ks0) = add_mset k (mset ks0)"
      by (simp add: insert_key_def) (metis append_take_drop_id mset_append)
    then show ?case using Cons by simp
  qed simp
  have "res_bind (skip_SeekToFirst l) (skip_read (length ks + 1) (skip_Next l) l) = Ret ?s"
    using skip_seeks(1) [OF l(2)] skip_read_forward [OF l(2), of 0 "length ks + 1"] len by simp
  moreover have "res_bind (skip_SeekToLast l) (skip_read (length ks + 1) (skip_Prev cmp l) l) = Ret (rev ?s)"
  proof (cases "ks = []")
    case True
    then have "order = []" using l(2) by (simp add: skip_list_def keys_of_def)
    then show ?thesis using True skip_seeks(2) [OF l(2)] by (simp add: skip_ptr_def skip_Valid_def)
  next
    case False
    then show ?thesis
      using skip_seeks(2) [OF l(2)] skip_read_backward [OF l(2), of "length ?s - 1" "length ks + 1"] len by simp
  qed
  moreover have "SkipList_Contains cmp k l = Ret (\<exists>k' \<in> set ks. \<not> lt k' k \<and> \<not> lt k k')" if "ok k" for k
    using Contains_result [OF l(2) that] by (simp add: set_fold_insert)
  moreover have "res_bind (skip_Seek cmp l k) (skip_read (length ks + 1) (skip_Next l) l) = Ret (dropWhile (\<lambda>x. lt x k) ?s)"
    if "ok k" for k
    using skip_seeks(3) [OF l(2) that] skip_read_forward [OF l(2), of "keys_below lt k ?s" "length ks + 1"] len
    by (simp add: keys_below_def dropWhile_eq_drop)
  ultimately show ?thesis using 0(1) l mset [of "[]"] by (auto simp: skip_list_def)
qed

end

text \<open>Every comparator is such a comparison.\<close>

sublocale key_comparator \<subseteq> skip: skip_order "Compare C" ok lt
proof unfold_locales
  show "\<exists>r. Compare C a b = Ret r \<and> (r < 0 \<longleftrightarrow> lt a b) \<and> (r = 0 \<longleftrightarrow> \<not> lt a b \<and> \<not> lt b a)" if "ok a" "ok b" for a b
    using cmp [OF that] irrefl total [OF that] by metis
  show "lt a b \<or> lt b c" if "ok a" "ok b" "ok c" "lt a c" for a b c
    using total [of a b] trans [of b a c] that by blast
qed (use irrefl trans in blast)+

text \<open>C39: the skip list. Insert any keys of which no two are equal, in any order, into a new list, over any comparison
  that is a strict weak order. Whatever heights the random numbers give the nodes, no link is followed that is not
  there, every search ends, and the list holds the keys in order: it reads them forwards and backwards, tells exactly
  which keys are in it, and seeks to the first key that is not below the target.\<close>

theorem SkipList_sorted:
  assumes "skip_order cmp ok lt" and "\<forall>k \<in> set ks. ok k" and "sorted_wrt (\<lambda>a b. lt a b \<or> lt b a) ks"
  shows "\<exists>arena l sorted. res_bind (new_SkipList new_array zero new_Arena) (insert_all new_array cmp ks) = Ret (arena, l) \<and>
    sorted_wrt lt sorted \<and> mset sorted = mset ks \<and>
    res_bind (skip_SeekToFirst l) (skip_read (length ks + 1) (skip_Next l) l) = Ret sorted \<and>
    res_bind (skip_SeekToLast l) (skip_read (length ks + 1) (skip_Prev cmp l) l) = Ret (rev sorted) \<and>
    (\<forall>k. ok k \<longrightarrow> SkipList_Contains cmp k l = Ret (\<exists>k' \<in> set ks. \<not> lt k' k \<and> \<not> lt k k') \<and>
      res_bind (skip_Seek cmp l k) (skip_read (length ks + 1) (skip_Next l) l) = Ret (dropWhile (\<lambda>x. lt x k) sorted))"
  using skip_order.skip_list_runs [OF assms] by blast

theorem SkipList_sorted_witness:
  "\<exists>arena l. res_bind (new_SkipList bump_new [] new_Arena)
       (insert_all bump_new (Compare BytewiseComparator) [[3], [1], [2, 7]]) = Ret (arena, l) \<and>
     res_bind (skip_SeekToFirst l) (skip_read 4 (skip_Next l) l) = Ret [[1], [2, 7], [3]] \<and>
     SkipList_Contains (Compare BytewiseComparator) [1] l = Ret True"
proof -
  let ?ks = "[[3], [1], [2, 7]] :: slice list"
  have "\<forall>k \<in> set ?ks. True" "sorted_wrt (\<lambda>a b. a < b \<or> b < a) ?ks" by simp_all
  from SkipList_sorted [OF bytewise.skip.skip_order_axioms this, of bump_new "[]"]
  obtain arena l sorted where l: "res_bind (new_SkipList bump_new [] new_Arena)
        (insert_all bump_new (Compare BytewiseComparator) ?ks) = Ret (arena, l)" "sorted_wrt (<) sorted" "mset sorted = mset ?ks"
      "res_bind (skip_SeekToFirst l) (skip_read (length ?ks + 1) (skip_Next l) l) = Ret sorted"
      "\<forall>k. SkipList_Contains (Compare BytewiseComparator) k l = Ret (\<exists>k' \<in> set ?ks. \<not> k' < k \<and> \<not> k < k')"
    by blast
  have "sorted_wrt (<) [[1], [2, 7], [3 :: u8]]" "mset [[1], [2, 7], [3]] = mset ?ks" by simp_all
  then have "sorted = [[1], [2, 7], [3]]"
    using l(2,3) by (metis strict_sorted_equal set_mset_mset)
  then show ?thesis using l by (intro exI [of _ arena] exI [of _ l]) (simp add: eval_nat_numeral)
qed

end
