(* ===== verification/LdbMemTable.thy ===== *)
theory LdbMemTable
  imports LdbSkipListSpec LdbWriteBatch LdbIterator
begin

text \<open>
  The memtable of \<open>memtable.h\<close> and \<open>memtable.cc\<close>: a skip list of pointers to entries in an arena. A pointer to
  an entry or to an encoded key is the list of the bytes from it to the end of what was allocated or encoded; reading
  further is \<open>Undef\<close>. The comparison of entries is an instance of the contract of the skip list.
\<close>

section \<open>Entries\<close>

definition mem_GetVarint32 :: "slice \<Rightarrow> (u32 \<times> slice) res" where
  "mem_GetVarint32 p =
     (case GetVarint32Ptr (take 5 p) of
        None \<Rightarrow> Undef
      | Some (v, rest) \<Rightarrow> Ret (v, drop (length (take 5 p) - length rest) p))"

definition mem_GetLengthPrefixedSlice :: "slice \<Rightarrow> slice res" where
  "mem_GetLengthPrefixedSlice data =
     res_bind (mem_GetVarint32 data) (\<lambda>(len, p).
       if unat len \<le> length p then Ret (take (unat len) p) else Undef)"

definition MemTable_KeyComparator :: "Comparator \<Rightarrow> slice \<Rightarrow> slice \<Rightarrow> int res" where
  "MemTable_KeyComparator user aptr bptr =
     res_bind (mem_GetLengthPrefixedSlice aptr) (\<lambda>a.
     res_bind (mem_GetLengthPrefixedSlice bptr) (\<lambda>b.
       Compare (InternalKeyComparator user) a b))"

definition EncodeKey :: "slice \<Rightarrow> slice" where
  "EncodeKey target = PutVarint32 [] (of_nat (length target)) @ target"

section \<open>The memtable\<close>

record MemTable =
  mem_refs :: int
  mem_arena :: Arena
  mem_table :: "slice SkipList"

definition new_MemTable :: "new_operator \<Rightarrow> MemTable res" where
  "new_MemTable new_array =
     map_res (\<lambda>(arena, table). \<lparr> mem_refs = 0, mem_arena = arena, mem_table = table \<rparr>) (new_SkipList new_array [] new_Arena)"

definition MemTable_Ref :: "MemTable \<Rightarrow> MemTable" where
  "MemTable_Ref this = this \<lparr> mem_refs := mem_refs this + 1 \<rparr>"

text \<open>\<open>None\<close> when the object is deleted.\<close>

definition MemTable_Unref :: "MemTable \<Rightarrow> MemTable option" where
  "MemTable_Unref this =
     (let this = this \<lparr> mem_refs := mem_refs this - 1 \<rparr>
      in if mem_refs this \<le> 0 then None else Some this)"

definition ApproximateMemoryUsage :: "MemTable \<Rightarrow> u64" where
  "ApproximateMemoryUsage this = MemoryUsage (mem_arena this)"

definition MemTable_Add ::
    "new_operator \<Rightarrow> Comparator \<Rightarrow> SequenceNumber \<Rightarrow> ValueType \<Rightarrow> slice \<Rightarrow> slice \<Rightarrow> MemTable \<Rightarrow> MemTable res" where
  "MemTable_Add new_array user s t key val this =
     (let key_size = length key; val_size = length val; internal_key_size = key_size + 8;
          encoded_len = VarintLength (of_nat internal_key_size) + internal_key_size + VarintLength (of_nat val_size) + val_size
      in case Arena_Allocate new_array (of_nat encoded_len) (mem_arena this) of (p, arena) \<Rightarrow>
           let buf = EncodeVarint32 (of_nat internal_key_size) @ key @ EncodeFixed64 (push_bit 8 s OR ucast t) @
                     EncodeVarint32 (of_nat val_size) @ val
           in if encoded_len < length buf then Undef
              else res_bind (SkipList_Insert new_array (MemTable_KeyComparator user) buf arena (mem_table this))
                (\<lambda>(arena, table). Ret (this \<lparr> mem_arena := arena, mem_table := table \<rparr>)))"

text \<open>The out parameters \<open>value\<close> and \<open>s\<close> are passed and returned.\<close>

definition MemTable_Get ::
    "Comparator \<Rightarrow> LookupKey \<Rightarrow> slice \<Rightarrow> Status \<Rightarrow> MemTable \<Rightarrow> (bool \<times> slice \<times> Status) res" where
  "MemTable_Get user key val s this =
     res_bind (skip_Seek (MemTable_KeyComparator user) (mem_table this) (memtable_key key)) (\<lambda>iter.
       if skip_Valid iter
       then res_bind (skip_key (mem_table this) iter) (\<lambda>entry.
         res_bind (mem_GetVarint32 entry) (\<lambda>(key_length, key_ptr).
             let n = unat key_length
             in if n < 8 \<or> length key_ptr < n then Undef
                else res_bind (Compare user (take (n - 8) key_ptr) (lookup_user_key key)) (\<lambda>r.
                  if r = 0
                  then res_bind (DecodeFixed64 (drop (n - 8) key_ptr)) (\<lambda>tag.
                    if (ucast (tag AND 0xff) :: ValueType) = kTypeValue
                    then res_bind (mem_GetLengthPrefixedSlice (drop n key_ptr)) (\<lambda>v. Ret (True, v, s))
                    else if (ucast (tag AND 0xff) :: ValueType) = kTypeDeletion
                    then Ret (True, val, NotFound [] [])
                    else Ret (False, val, s))
                  else Ret (False, val, s))))
       else Ret (False, val, s))"

text \<open>The iterator over a memtable: its state is the position in the skip list \<open>l\<close>.\<close>

definition MemTableIterator :: "Comparator \<Rightarrow> slice SkipList \<Rightarrow> node_ptr Iterator" where
  "MemTableIterator user l =
     \<lparr> Valid = skip_Valid,
       SeekToFirst = \<lambda>_. skip_SeekToFirst l,
       SeekToLast = \<lambda>_. skip_SeekToLast l,
       Seek = \<lambda>k _. skip_Seek (MemTable_KeyComparator user) l (EncodeKey k),
       Next = skip_Next l,
       Prev = skip_Prev (MemTable_KeyComparator user) l,
       ikey = \<lambda>iter. res_bind (skip_key l iter) mem_GetLengthPrefixedSlice,
       ivalue = \<lambda>iter. res_bind (skip_key l iter) (\<lambda>entry.
         res_bind (mem_GetVarint32 entry) (\<lambda>(len, p).
           if unat len \<le> length p then mem_GetLengthPrefixedSlice (drop (unat len) p) else Undef)),
       istatus = \<lambda>_. Ret OK \<rparr>"

definition MemTable_NewIterator :: "MemTable \<Rightarrow> node_ptr" where
  "MemTable_NewIterator this = None"

text \<open>The memtable under the inserter of write batches.\<close>

definition batch_Add ::
    "new_operator \<Rightarrow> Comparator \<Rightarrow> SequenceNumber \<Rightarrow> ValueType \<Rightarrow> slice \<Rightarrow> slice \<Rightarrow> MemTable res \<Rightarrow> MemTable res" where
  "batch_Add new_array user s t key val m = res_bind m (MemTable_Add new_array user s t key val)"

definition MemTable_InsertInto ::
    "new_operator \<Rightarrow> Comparator \<Rightarrow> WriteBatch \<Rightarrow> MemTable \<Rightarrow> (Status \<times> MemTable) res" where
  "MemTable_InsertInto new_array user rep mem =
     res_bind (InsertInto (batch_Add new_array user) rep (Ret mem)) (\<lambda>(s, m). map_res (Pair s) m)"

section \<open>The bytes of an entry\<close>

definition mem_entry :: "slice \<times> slice \<Rightarrow> slice" where
  "mem_entry kv = PutLengthPrefixedSlice [] (fst kv) @ PutLengthPrefixedSlice [] (snd kv)"

lemma varint_prefix:
  "GetVarint32Ptr (take 5 (EncodeVarint32 v @ bs)) = Some (v, take (5 - length (EncodeVarint32 v)) bs)"
  "drop (length (take 5 (EncodeVarint32 v @ bs)) - length (take (5 - length (EncodeVarint32 v)) bs)) (EncodeVarint32 v @ bs) = bs"
proof -
  have len: "length (EncodeVarint32 v) \<le> 5" by (rule length_EncodeVarint32)
  then show "GetVarint32Ptr (take 5 (EncodeVarint32 v @ bs)) = Some (v, take (5 - length (EncodeVarint32 v)) bs)"
    by (simp add: GetVarint32Ptr_enc)
  have "length (take 5 (EncodeVarint32 v @ bs)) - length (take (5 - length (EncodeVarint32 v)) bs) = length (EncodeVarint32 v)"
    using len by simp
  then show "drop (length (take 5 (EncodeVarint32 v @ bs)) - length (take (5 - length (EncodeVarint32 v)) bs))
      (EncodeVarint32 v @ bs) = bs" by simp
qed

lemma unat_length_u32: "n < 2 ^ 32 \<Longrightarrow> unat (of_nat n :: u32) = n"
  by (simp add: unat_of_nat take_bit_nat_eq_self)

lemma mem_GetVarint32_enc [simp]: "mem_GetVarint32 (EncodeVarint32 v @ bs) = Ret (v, bs)"
  by (simp only: mem_GetVarint32_def varint_prefix option.case prod.case)

lemma mem_GetLengthPrefixedSlice_varint:
  "mem_GetLengthPrefixedSlice (EncodeVarint32 v @ bs) = (if unat v \<le> length bs then Ret (take (unat v) bs) else Undef)"
  by (simp add: mem_GetLengthPrefixedSlice_def)

lemma mem_GetLengthPrefixedSlice_enc [simp]:
  assumes "length k < 2 ^ 32"
  shows "mem_GetLengthPrefixedSlice (PutLengthPrefixedSlice [] k @ bs) = Ret k"
  using unat_length_u32 [OF assms]
  by (simp add: PutLengthPrefixedSlice_def PutVarint32_def mem_GetLengthPrefixedSlice_varint)

lemma mem_GetLengthPrefixedSlice_end [simp]:
  "length k < 2 ^ 32 \<Longrightarrow> mem_GetLengthPrefixedSlice (PutLengthPrefixedSlice [] k) = Ret k"
  using mem_GetLengthPrefixedSlice_enc [of k "[]"] by simp

lemma EncodeKey_alt: "EncodeKey k = PutLengthPrefixedSlice [] k"
  by (simp add: EncodeKey_def PutLengthPrefixedSlice_def)

section \<open>The order of entries\<close>

text \<open>The key in front of an entry or of an encoded target.\<close>

definition entry_key :: "slice \<Rightarrow> slice" where
  "entry_key e = (case mem_GetLengthPrefixedSlice e of Ret k \<Rightarrow> k | _ \<Rightarrow> [])"

definition entry_ok :: "(slice \<Rightarrow> bool) \<Rightarrow> slice \<Rightarrow> bool" where
  "entry_ok ok e \<longleftrightarrow> (\<exists>k. mem_GetLengthPrefixedSlice e = Ret k \<and> internal_ok ok k)"

definition entry_less :: "(slice \<Rightarrow> slice \<Rightarrow> bool) \<Rightarrow> slice \<Rightarrow> slice \<Rightarrow> bool" where
  "entry_less lt a b \<longleftrightarrow> internal_less lt (entry_key a) (entry_key b)"

lemma entry_key_enc [simp]:
  "length k < 2 ^ 32 \<Longrightarrow> entry_key (PutLengthPrefixedSlice [] k @ bs) = k"
  "length k < 2 ^ 32 \<Longrightarrow> entry_key (PutLengthPrefixedSlice [] k) = k"
  "length (fst kv) < 2 ^ 32 \<Longrightarrow> entry_key (mem_entry kv) = fst kv"
  by (simp_all add: entry_key_def mem_entry_def)

lemma entry_ok_enc [simp]:
  "length k < 2 ^ 32 \<Longrightarrow> entry_ok ok (PutLengthPrefixedSlice [] k @ bs) \<longleftrightarrow> internal_ok ok k"
  "length k < 2 ^ 32 \<Longrightarrow> entry_ok ok (PutLengthPrefixedSlice [] k) \<longleftrightarrow> internal_ok ok k"
  "length (fst kv) < 2 ^ 32 \<Longrightarrow> entry_ok ok (mem_entry kv) \<longleftrightarrow> internal_ok ok (fst kv)"
  by (simp_all add: entry_ok_def mem_entry_def)

sublocale internal_comparator \<subseteq> mem: skip_order "MemTable_KeyComparator C" "entry_ok ok" "entry_less lt"
proof unfold_locales
  fix a b c :: slice
  show "\<not> entry_less lt a a" using user.irrefl by (simp add: entry_less_def internal_less_def)
  assume a: "entry_ok ok a" and b: "entry_ok ok b"
  have key: "mem_GetLengthPrefixedSlice e = Ret (entry_key e) \<and> internal_ok ok (entry_key e)" if "entry_ok ok e" for e
    using that by (auto simp: entry_ok_def entry_key_def)
  show "\<exists>r. MemTable_KeyComparator C a b = Ret r \<and> (r < 0 \<longleftrightarrow> entry_less lt a b) \<and>
      (r = 0 \<longleftrightarrow> \<not> entry_less lt a b \<and> \<not> entry_less lt b a)"
    using key [OF a] key [OF b] internal.skip.cmp [of "entry_key a" "entry_key b"]
    by (simp add: MemTable_KeyComparator_def entry_less_def)
  assume c: "entry_ok ok c"
  show "entry_less lt a c" if "entry_less lt a b" "entry_less lt b c"
    using that internal.trans key [OF a] key [OF b] key [OF c] unfolding entry_less_def by blast
  show "entry_less lt a b \<or> entry_less lt b c" if "entry_less lt a c"
    using that internal.skip.weak key [OF a] key [OF b] key [OF c] unfolding entry_less_def by blast
qed

end
