(* ===== verification/LdbFilterBlock.thy ===== *)
theory LdbFilterBlock
  imports LdbDbFormat
begin

text \<open>
  The filter block of a table, \<open>filter_block.cc\<close>: one filter for the keys of the data blocks that start in the
  same 2 KB of the file. The builder keeps the keys that wait for the next filter flattened in one string.
  \<open>tmp_keys_\<close> is empty between the calls and is a local of \<open>GenerateFilter\<close> here.
\<close>

section \<open>The builder\<close>

definition kFilterBaseLg :: nat where "kFilterBaseLg = 11"
definition kFilterBase :: u64 where "kFilterBase = push_bit kFilterBaseLg 1"

record FilterBlockBuilder =
  fb_policy :: FilterPolicy
  fb_keys :: slice
  fb_start :: "nat list"
  fb_result :: slice
  fb_filter_offsets :: "u32 list"

definition new_FilterBlockBuilder :: "FilterPolicy \<Rightarrow> FilterBlockBuilder" where
  "new_FilterBlockBuilder policy =
     \<lparr> fb_policy = policy, fb_keys = [], fb_start = [], fb_result = [], fb_filter_offsets = [] \<rparr>"

text \<open>The keys that start at the offsets in \<open>start\<close>; the last offset is the end of the last key.\<close>

definition flattened_keys :: "slice \<Rightarrow> nat list \<Rightarrow> slice list" where
  "flattened_keys keys start =
     map (\<lambda>i. take (start ! (i + 1) - start ! i) (drop (start ! i) keys)) [0 ..< length start - 1]"

text \<open>The number of the keys is converted to \<open>int\<close>. No policy is defined for a negative number.\<close>

definition GenerateFilter :: "FilterBlockBuilder \<Rightarrow> FilterBlockBuilder res" where
  "GenerateFilter this =
     (let num_keys = length (fb_start this);
          this' = this \<lparr> fb_filter_offsets := fb_filter_offsets this @ [of_nat (length (fb_result this))] \<rparr>
      in if num_keys = 0 then Ret this'
         else let tmp_keys = flattened_keys (fb_keys this) (fb_start this @ [length (fb_keys this)]);
                  n = sint (of_nat num_keys :: u32)
              in if n < 0 then Undef
                 else res_bind (CreateFilter (fb_policy this) (take (nat n) tmp_keys) (fb_result this)) (\<lambda>r.
                        Ret (this' \<lparr> fb_result := r, fb_keys := [], fb_start := [] \<rparr>)))"

lemma GenerateFilter_offsets:
  "GenerateFilter this = Ret this' \<Longrightarrow> length (fb_filter_offsets this') = Suc (length (fb_filter_offsets this))"
  by (auto simp: GenerateFilter_def Let_def res_bind_Ret_iff split: if_splits)

text \<open>The loop of \<open>StartBlock\<close>.\<close>

function generate_filters :: "nat \<Rightarrow> FilterBlockBuilder \<Rightarrow> FilterBlockBuilder res" where
  "generate_filters filter_index this =
     (if length (fb_filter_offsets this) < filter_index
      then res_bind (GenerateFilter this) (\<lambda>this. generate_filters filter_index this)
      else Ret this)"
  by pat_completeness auto

termination generate_filters
  by (relation "measure (\<lambda>(filter_index, this). filter_index - length (fb_filter_offsets this))")
    (auto dest: GenerateFilter_offsets)

declare generate_filters.simps [simp del]

definition FilterBlock_StartBlock :: "u64 \<Rightarrow> FilterBlockBuilder \<Rightarrow> FilterBlockBuilder res" where
  "FilterBlock_StartBlock block_offset this = generate_filters (unat (block_offset div kFilterBase)) this"

definition FilterBlock_AddKey :: "slice \<Rightarrow> FilterBlockBuilder \<Rightarrow> FilterBlockBuilder" where
  "FilterBlock_AddKey key this =
     this \<lparr> fb_start := fb_start this @ [length (fb_keys this)], fb_keys := fb_keys this @ key \<rparr>"

definition FilterBlock_Finish :: "FilterBlockBuilder \<Rightarrow> (slice \<times> FilterBlockBuilder) res" where
  "FilterBlock_Finish this =
     res_bind (if fb_start this \<noteq> [] then GenerateFilter this else Ret this) (\<lambda>this.
       let array_offset = of_nat (length (fb_result this)) :: u32;
           r = foldl PutFixed32 (fb_result this) (fb_filter_offsets this);
           r = PutFixed32 r array_offset @ [of_nat kFilterBaseLg]
       in Ret (r, this \<lparr> fb_result := r \<rparr>))"

section \<open>The reader\<close>

text \<open>\<open>fr_offset\<close> is \<open>offset_ - data_\<close>. The last byte of the contents is a \<open>char\<close>, which has a sign.\<close>

record FilterBlockReader =
  fr_policy :: FilterPolicy
  fr_data :: slice
  fr_offset :: nat
  fr_num :: nat
  fr_base_lg :: u64

definition new_FilterBlockReader :: "FilterPolicy \<Rightarrow> slice \<Rightarrow> FilterBlockReader res" where
  "new_FilterBlockReader policy contents =
     (let this = \<lparr> fr_policy = policy, fr_data = [], fr_offset = 0, fr_num = 0, fr_base_lg = 0 \<rparr>;
          n = length contents
      in if n < 5 then Ret this
         else res_bind (Slice_at contents (n - 1)) (\<lambda>b.
              let this = this \<lparr> fr_base_lg := scast b \<rparr>
              in res_bind (DecodeFixed32 (drop (n - 5) contents)) (\<lambda>last_word.
                   if n - 5 < unat last_word then Ret this
                   else Ret (this \<lparr> fr_data := contents, fr_offset := unat last_word,
                                    fr_num := (n - 5 - unat last_word) div 4 \<rparr>))))"

text \<open>A shift by the width of the number or more is undefined.\<close>

definition FilterBlock_KeyMayMatch :: "FilterBlockReader \<Rightarrow> u64 \<Rightarrow> slice \<Rightarrow> bool res" where
  "FilterBlock_KeyMayMatch this block_offset key =
     (if 64 \<le> unat (fr_base_lg this) then Undef
      else let index = unat (drop_bit (unat (fr_base_lg this)) block_offset)
           in if index < fr_num this
              then res_bind (DecodeFixed32 (drop (fr_offset this + index * 4) (fr_data this))) (\<lambda>start.
                   res_bind (DecodeFixed32 (drop (fr_offset this + index * 4 + 4) (fr_data this))) (\<lambda>limit.
                     if start \<le> limit \<and> unat limit \<le> fr_offset this
                     then KeyMayMatch (fr_policy this) key
                            (take (unat (limit - start)) (drop (unat start) (fr_data this)))
                     else if start = limit then Ret False
                     else Ret True))
              else Ret True)"

text \<open>A client of the builder: the data blocks of a table with their offsets and their keys.\<close>

fun add_blocks :: "(u64 \<times> slice list) list \<Rightarrow> FilterBlockBuilder \<Rightarrow> FilterBlockBuilder res" where
  "add_blocks [] this = Ret this"
| "add_blocks ((block_offset, keys) # blocks) this =
     res_bind (FilterBlock_StartBlock block_offset this) (\<lambda>this.
       add_blocks blocks (foldl (\<lambda>this key. FilterBlock_AddKey key this) this keys))"

definition filter_block :: "FilterPolicy \<Rightarrow> (u64 \<times> slice list) list \<Rightarrow> slice res" where
  "filter_block policy blocks =
     res_bind (add_blocks blocks (new_FilterBlockBuilder policy)) (\<lambda>this.
       res_bind (FilterBlock_Finish this) (\<lambda>(contents, _). Ret contents))"

section \<open>Offsets of flattened strings\<close>

fun starts :: "nat \<Rightarrow> slice list \<Rightarrow> nat list" where
  "starts n [] = []"
| "starts n (x # xs) = n # starts (n + length x) xs"

lemma length_starts [simp]: "length (starts n xs) = length xs"
  by (induction n xs rule: starts.induct) simp_all

lemma starts_append: "starts n (xs @ ys) = starts n xs @ starts (n + length (concat xs)) ys"
  by (induction n xs rule: starts.induct) (simp_all add: add.assoc)

lemma nth_starts:
  "i \<le> length xs \<Longrightarrow> (starts n xs @ [n + length (concat xs)]) ! i = n + length (concat (take i xs))"
proof (induction n xs arbitrary: i rule: starts.induct)
  case (2 n x xs)
  then show ?case by (cases i) (simp_all add: add.assoc)
qed simp

lemma nth_flat:
  assumes "i < length xs"
  shows "take (length (concat (take (Suc i) xs)) - length (concat (take i xs)))
    (drop (length (concat (take i xs))) (concat xs @ rest)) = xs ! i"
proof -
  have "concat xs = concat (take i xs) @ xs ! i @ concat (drop (Suc i) xs)"
    using assms by (metis concat.simps(2) concat_append id_take_nth_drop)
  moreover have "concat (take (Suc i) xs) = concat (take i xs) @ xs ! i"
    using assms by (simp add: take_Suc_conv_app_nth)
  ultimately show ?thesis by simp
qed

lemma flattened_keys_starts: "flattened_keys (concat xs) (starts 0 xs @ [length (concat xs)]) = xs"
proof (rule nth_equalityI)
  fix i assume "i < length (flattened_keys (concat xs) (starts 0 xs @ [length (concat xs)]))"
  then have i: "i < length xs" by (simp add: flattened_keys_def)
  then show "flattened_keys (concat xs) (starts 0 xs @ [length (concat xs)]) ! i = xs ! i"
    using nth_starts [of i xs 0] nth_starts [of "Suc i" xs 0] nth_flat [OF i, of "[]"]
    by (simp add: flattened_keys_def)
qed (simp add: flattened_keys_def)

section \<open>What the builder holds\<close>

text \<open>\<open>filters\<close> are the finished filters and \<open>pending\<close> the keys that wait. \<open>added\<close> are the keys so far, each with
  the index of its filter.\<close>

definition fb_holds :: "FilterPolicy \<Rightarrow> (nat \<times> slice) set \<Rightarrow> FilterBlockBuilder \<Rightarrow> slice list \<Rightarrow> slice list \<Rightarrow> bool" where
  "fb_holds F added this filters pending \<longleftrightarrow>
     fb_policy this = F \<and> fb_keys this = concat pending \<and> fb_start this = starts 0 pending \<and>
     fb_result this = concat filters \<and> fb_filter_offsets this = map of_nat (starts 0 filters) \<and>
     (\<forall>(i, key) \<in> added. i < length filters \<and> KeyMayMatch F key (filters ! i) = Ret True \<or>
        i = length filters \<and> key \<in> set pending) \<and>
     (\<forall>i < length filters. i \<notin> fst ` added \<longrightarrow> filters ! i = []) \<and>
     (pending \<noteq> [] \<longrightarrow> length filters \<in> fst ` added)"

lemma fb_holds_new: "fb_holds F {} (new_FilterBlockBuilder F) [] []"
  by (simp add: fb_holds_def new_FilterBlockBuilder_def)

lemma fb_holds_AddKey:
  assumes "fb_holds F added this filters pending"
  shows "fb_holds F (insert (length filters, key) added) (FilterBlock_AddKey key this) filters (pending @ [key])"
  using assms unfolding fb_holds_def by (auto simp: FilterBlock_AddKey_def starts_append)

lemma fb_holds_AddKeys:
  "fb_holds F added this filters pending \<Longrightarrow>
   fb_holds F (added \<union> {length filters} \<times> set keys) (foldl (\<lambda>this key. FilterBlock_AddKey key this) this keys)
     filters (pending @ keys)"
proof (induction keys arbitrary: this added pending)
  case (Cons key keys)
  have "insert (length filters, key) added \<union> {length filters} \<times> set keys =
      added \<union> {length filters} \<times> set (key # keys)" by auto
  then show ?case using Cons.IH [OF fb_holds_AddKey [OF Cons.prems]] by simp
qed simp

context filter_policy
begin

lemma GenerateFilter_holds:
  assumes holds: "fb_holds F added this filters pending"
    and pending: "list_all ok pending" "length pending < 2 ^ 31" "many (length pending)"
  shows "\<exists>this' f. GenerateFilter this = Ret this' \<and> fb_holds F added this' (filters @ [f]) []"
proof (cases "pending = []")
  case True
  then show ?thesis using holds
    by (intro exI [of _ "this \<lparr> fb_filter_offsets := fb_filter_offsets this @ [of_nat (length (fb_result this))] \<rparr>"]
        exI [of _ "[]"]) (auto simp: GenerateFilter_def fb_holds_def starts_append nth_append Let_def)
next
  case False
  obtain f where f: "CreateFilter F pending (concat filters) = Ret (concat filters @ f)"
      "\<forall>key \<in> set pending. KeyMayMatch F key f = Ret True"
    using filter [OF pending(1,3)] by blast
  have "sint (of_nat (length pending) :: u32) = int (length pending)"
    using pending(2) by (subst sint_u32_small) (simp_all add: unat_of_nat take_bit_nat_eq_self)
  then show ?thesis using holds False f
    by (intro exI conjI)
      (auto simp: GenerateFilter_def fb_holds_def Let_def flattened_keys_starts starts_append nth_append less_Suc_eq)
qed

lemma generate_filters_holds:
  assumes "fb_holds F added this filters pending" "length filters \<le> filter_index"
    and "list_all ok pending" "length pending < 2 ^ 31" "\<And>n. n \<le> length pending \<Longrightarrow> many n"
  shows "\<exists>this' filters' pending'. generate_filters filter_index this = Ret this' \<and>
    fb_holds F added this' filters' pending' \<and> length filters' = filter_index \<and>
    (pending' = pending \<or> pending' = [])"
  using assms
proof (induction "filter_index - length filters" arbitrary: this filters pending)
  case 0
  then show ?case by (subst generate_filters.simps) (auto simp: fb_holds_def)
next
  case (Suc n)
  obtain this' f where 1: "GenerateFilter this = Ret this'" "fb_holds F added this' (filters @ [f]) []"
    using GenerateFilter_holds [OF Suc.prems(1,3,4)] Suc.prems(5) by blast
  have "\<exists>this'' filters' pending'. generate_filters filter_index this' = Ret this'' \<and>
      fb_holds F added this'' filters' pending' \<and> length filters' = filter_index \<and>
      (pending' = [] \<or> pending' = [])"
    using Suc.hyps Suc.prems(5) by (intro Suc.hyps(1) [OF _ 1(2)]) auto
  moreover have "length (fb_filter_offsets this) < filter_index" using Suc by (simp add: fb_holds_def)
  ultimately show ?case using 1(1) by (subst generate_filters.simps) auto
qed

end

text \<open>The index of the filter for a block.\<close>

definition filter_index :: "u64 \<Rightarrow> nat" where
  "filter_index block_offset = unat block_offset div 2048"

definition indexed_keys :: "(u64 \<times> slice list) list \<Rightarrow> (nat \<times> slice) set" where
  "indexed_keys blocks = {(filter_index off, key) |off keys key. (off, keys) \<in> set blocks \<and> key \<in> set keys}"

lemma indexed_keys_simps [simp]:
  "indexed_keys [] = {}"
  "indexed_keys ((off, keys) # blocks) = {filter_index off} \<times> set keys \<union> indexed_keys blocks"
  by (auto simp: indexed_keys_def)

lemma unat_kFilterBase: "unat (block_offset div kFilterBase) = filter_index block_offset"
  by (simp add: filter_index_def kFilterBase_def kFilterBaseLg_def unat_div_distrib push_bit_eq_mult)

context filter_policy
begin

lemma add_blocks_hold:
  assumes "fb_holds F added this filters pending"
    and "sorted (map (filter_index \<circ> fst) blocks)" "\<forall>b \<in> set blocks. length filters \<le> filter_index (fst b)"
    and "list_all ok pending" "list_all (list_all ok \<circ> snd) blocks"
    and "length pending + length (concat (map snd blocks)) < 2 ^ 31"
    and "\<And>n. n < 2 ^ 31 \<Longrightarrow> many n"
  shows "\<exists>this' filters' pending'. add_blocks blocks this = Ret this' \<and>
    fb_holds F (added \<union> indexed_keys blocks) this' filters' pending' \<and> list_all ok pending' \<and>
    length pending' < 2 ^ 31 \<and> length filters \<le> length filters' \<and>
    length filters' = (if blocks = [] then length filters else filter_index (fst (last blocks))) \<and>
    (\<forall>b \<in> set blocks. filter_index (fst b) \<le> length filters')"
  using assms
proof (induction blocks arbitrary: this added filters pending)
  case Nil
  then show ?case by auto
next
  case (Cons b blocks)
  obtain off keys where b: "b = (off, keys)" by (cases b)
  obtain this1 filters1 pending1 where 1: "generate_filters (filter_index off) this = Ret this1"
      "fb_holds F added this1 filters1 pending1" "length filters1 = filter_index off"
      "pending1 = pending \<or> pending1 = []"
    using generate_filters_holds [OF Cons.prems(1), of "filter_index off"] Cons.prems b by auto
  let ?this2 = "foldl (\<lambda>this key. FilterBlock_AddKey key this) this1 keys"
  have 2: "fb_holds F (added \<union> {filter_index off} \<times> set keys) ?this2 filters1 (pending1 @ keys)"
    using fb_holds_AddKeys [OF 1(2), of keys] 1(3) by simp
  have "\<exists>this' filters' pending'. add_blocks blocks ?this2 = Ret this' \<and>
    fb_holds F ((added \<union> {filter_index off} \<times> set keys) \<union> indexed_keys blocks) this' filters' pending' \<and>
    list_all ok pending' \<and> length pending' < 2 ^ 31 \<and> length filters1 \<le> length filters' \<and>
    length filters' = (if blocks = [] then length filters1 else filter_index (fst (last blocks))) \<and>
    (\<forall>b \<in> set blocks. filter_index (fst b) \<le> length filters')"
    using Cons.prems 1(3,4) b by (intro Cons.IH [OF 2]) auto
  then obtain this' filters' pending' where built: "add_blocks blocks ?this2 = Ret this'"
    "fb_holds F (added \<union> indexed_keys (b # blocks)) this' filters' pending'"
    "list_all ok pending'" "length pending' < 2 ^ 31" "length filters1 \<le> length filters'"
    "length filters' = (if blocks = [] then length filters1 else filter_index (fst (last blocks)))"
    "\<forall>b \<in> set blocks. filter_index (fst b) \<le> length filters'"
    by (auto simp: b Un_assoc)
  have "length filters \<le> filter_index off" using Cons.prems(3) b by simp
  with built show ?case
    using 1(1,3) b by (intro exI conjI) (auto simp: FilterBlock_StartBlock_def unat_kFilterBase)
qed

end

section \<open>What the reader finds\<close>

lemma DecodeFixed32_nth:
  "i < length ws \<Longrightarrow> DecodeFixed32 (drop (4 * i) (concat (map EncodeFixed32 ws) @ rest)) = Ret (ws ! i)"
proof (induction ws arbitrary: i)
  case (Cons w ws)
  then show ?case by (cases i) (simp_all add: append_assoc)
qed simp

lemma foldl_PutFixed32: "foldl PutFixed32 dst ws = dst @ concat (map EncodeFixed32 ws)"
  by (induction ws arbitrary: dst) (simp_all add: PutFixed32_def)

text \<open>The contents with these filters.\<close>

definition filters_contents :: "slice list \<Rightarrow> slice" where
  "filters_contents filters =
     concat filters @ concat (map EncodeFixed32 (map of_nat (starts 0 filters @ [length (concat filters)]))) @ [11]"

lemma length_words: "length (concat (map EncodeFixed32 ws)) = 4 * length ws"
  by (induction ws) simp_all

lemma length_filters_contents: "length (filters_contents filters) = length (concat filters) + 4 * length filters + 5"
  unfolding filters_contents_def length_append length_words by simp

lemma reader_filters:
  assumes "length (filters_contents filters) < 2 ^ 32"
  shows "new_FilterBlockReader F (filters_contents filters) = Ret
    \<lparr> fr_policy = F, fr_data = filters_contents filters, fr_offset = length (concat filters),
      fr_num = length filters, fr_base_lg = 11 \<rparr>"
proof -
  let ?c = "filters_contents filters" and ?ends = "starts 0 filters @ [length (concat filters)]"
  have n: "length ?c = length (concat filters) + 4 * length filters + 5" by (rule length_filters_contents)
  have "drop (length (concat filters) + 4 * length filters) ?c =
      drop (4 * length filters) (concat (map EncodeFixed32 (map of_nat ?ends)) @ [11])"
    by (simp add: filters_contents_def flip: drop_drop)
  then have "DecodeFixed32 (drop (length ?c - 5) ?c) = Ret (map of_nat ?ends ! length filters)"
    using DecodeFixed32_nth [of "length filters" "map of_nat ?ends" "[11]"] by (simp add: n)
  then have word: "DecodeFixed32 (drop (length ?c - 5) ?c) = Ret (of_nat (length (concat filters)))"
    by (simp add: nth_append)
  have u: "unat (of_nat (length (concat filters)) :: u32) = length (concat filters)"
    using assms n by (simp add: unat_of_nat take_bit_nat_eq_self)
  have "?c \<noteq> []" by (simp add: filters_contents_def)
  then have "Slice_at ?c (length ?c - 1) = Ret (last ?c)" by (simp add: Slice_at_def last_conv_nth)
  moreover have "last ?c = 11" by (simp add: filters_contents_def)
  ultimately show ?thesis
    using word n by (simp add: new_FilterBlockReader_def Let_def u del: of_nat_add)
qed

lemma reader_finds:
  assumes len: "length (filters_contents filters) < 2 ^ 32" and i: "filter_index off < length filters"
    and r: "new_FilterBlockReader F (filters_contents filters) = Ret r"
  shows "FilterBlock_KeyMayMatch r off key = KeyMayMatch F key (filters ! filter_index off)"
proof -
  let ?i = "filter_index off" and ?ends = "starts 0 filters @ [length (concat filters)]"
  let ?at = "\<lambda>i. length (concat (take i filters))"
  have size_le: "?at j \<le> length (concat filters)" for j
    by (metis append_take_drop_id concat_append length_append le_add1)
  have small: "length (concat filters) < 2 ^ 32" using len by (simp add: length_filters_contents)
  have dec: "DecodeFixed32 (drop (length (concat filters) + 4 * j) (filters_contents filters)) = Ret (of_nat (?at j))"
    if "j \<le> length filters" for j
  proof -
    have "map of_nat ?ends ! j = (of_nat (?at j) :: u32)"
      using that nth_starts [of j filters 0] by (subst nth_map) simp_all
    moreover have "drop (length (concat filters) + 4 * j) (filters_contents filters) =
        drop (4 * j) (concat (map EncodeFixed32 (map of_nat ?ends)) @ [11])"
      by (simp add: filters_contents_def flip: drop_drop)
    ultimately show ?thesis using DecodeFixed32_nth [of j "map of_nat ?ends" "[11]"] that by simp
  qed
  have u: "unat (of_nat (?at j) :: u32) = ?at j" for j
    using le_less_trans [OF size_le small] by (simp add: unat_of_nat take_bit_nat_eq_self)
  have mono: "?at ?i \<le> ?at (Suc ?i)" using i by (simp add: take_Suc_conv_app_nth)
  have le: "(of_nat (?at ?i) :: u32) \<le> of_nat (?at (Suc ?i))" using mono by (simp add: word_le_nat_alt u)
  have diff: "unat (of_nat (?at (Suc ?i)) - of_nat (?at ?i) :: u32) = ?at (Suc ?i) - ?at ?i"
    using le by (simp add: unat_sub u)
  have idx: "unat (drop_bit 11 off) = ?i" by (simp add: filter_index_def drop_bit_eq_div unat_div_distrib)
  have cut: "take (?at (Suc ?i) - ?at ?i) (drop (?at ?i) (filters_contents filters)) = filters ! ?i"
    unfolding filters_contents_def by (rule nth_flat [OF i])
  have r_eq: "r = \<lparr> fr_policy = F, fr_data = filters_contents filters, fr_offset = length (concat filters),
      fr_num = length filters, fr_base_lg = 11 \<rparr>"
    using r reader_filters [OF len] by simp
  have "DecodeFixed32 (drop (length (concat filters) + ?i * 4) (filters_contents filters)) = Ret (of_nat (?at ?i))"
    "DecodeFixed32 (drop (length (concat filters) + ?i * 4 + 4) (filters_contents filters)) = Ret (of_nat (?at (Suc ?i)))"
    using dec [of ?i] dec [of "Suc ?i"] i by (simp_all add: algebra_simps)
  then show ?thesis
    using i idx le diff cut size_le [of "Suc ?i"]
    unfolding r_eq FilterBlock_KeyMayMatch_def Let_def by (simp add: u)
qed

text \<open>The filters answer for the keys that were added.\<close>

definition filters_answer :: "FilterPolicy \<Rightarrow> (nat \<times> slice) set \<Rightarrow> slice list \<Rightarrow> bool" where
  "filters_answer F added filters \<longleftrightarrow>
     (\<forall>(i, key) \<in> added. i < length filters \<and> KeyMayMatch F key (filters ! i) = Ret True) \<and>
     (\<forall>i < length filters. i \<notin> fst ` added \<longrightarrow> filters ! i = [])"

context filter_policy
begin

text \<open>The contents that \<open>Finish\<close> makes: a key that was added may match.\<close>

lemma FilterBlock_Finish_holds:
  assumes holds: "fb_holds F added this filters pending"
    and pending: "list_all ok pending" "length pending < 2 ^ 31" "many (length pending)"
  shows "\<exists>filters' this'. FilterBlock_Finish this = Ret (filters_contents filters', this') \<and>
    filters_answer F added filters' \<and> length filters' = length filters + (if pending = [] then 0 else 1)"
proof -
  obtain this2 filters2 where 2: "(if fb_start this \<noteq> [] then GenerateFilter this else Ret this) = Ret this2"
      "fb_holds F added this2 filters2 []" "length filters2 = length filters + (if pending = [] then 0 else 1)"
  proof (cases "pending = []")
    case True
    then show ?thesis using that [of this filters] holds by (auto simp: fb_holds_def)
  next
    case False
    obtain this2 f where "GenerateFilter this = Ret this2" "fb_holds F added this2 (filters @ [f]) []"
      using GenerateFilter_holds [OF holds pending] by blast
    moreover have "fb_start this \<noteq> []" using False holds by (cases pending) (auto simp: fb_holds_def)
    ultimately show ?thesis using that [of this2 "filters @ [f]"] False by simp
  qed
  have "\<exists>this'. FilterBlock_Finish this = Ret (filters_contents filters2, this')"
    using 2(1,2) by (simp add: FilterBlock_Finish_def Let_def fb_holds_def foldl_PutFixed32 filters_contents_def
        PutFixed32_def kFilterBaseLg_def)
  moreover have "filters_answer F added filters2" using 2(2) by (fastforce simp: fb_holds_def filters_answer_def)
  ultimately show ?thesis using 2(3) by blast
qed

lemma filter_block_built:
  assumes "sorted (map (filter_index \<circ> fst) blocks)" and "list_all (list_all ok \<circ> snd) blocks"
    and "length (concat (map snd blocks)) < 2 ^ 31" and many: "\<And>n. n < 2 ^ 31 \<Longrightarrow> many n"
  shows "\<exists>filters. filter_block F blocks = Ret (filters_contents filters) \<and>
    (\<forall>(i, key) \<in> indexed_keys blocks. i < length filters \<and> KeyMayMatch F key (filters ! i) = Ret True) \<and>
    (\<forall>i. i \<notin> fst ` indexed_keys blocks \<and> (\<exists>b \<in> set blocks. i < filter_index (fst b)) \<longrightarrow>
      i < length filters \<and> filters ! i = []) \<and>
    (\<forall>i. i \<notin> fst ` indexed_keys blocks \<and> blocks \<noteq> [] \<and> filter_index (fst (last blocks)) \<le> i \<longrightarrow> length filters \<le> i)"
proof -
  obtain this filters pending where 1: "add_blocks blocks (new_FilterBlockBuilder F) = Ret this"
      "fb_holds F (indexed_keys blocks) this filters pending" "list_all ok pending" "length pending < 2 ^ 31"
      "\<forall>b \<in> set blocks. filter_index (fst b) \<le> length filters"
      "blocks \<noteq> [] \<longrightarrow> length filters = filter_index (fst (last blocks))"
    using add_blocks_hold [OF fb_holds_new assms(1)] assms(2-4) by auto
  obtain filters2 this2 where 2: "FilterBlock_Finish this = Ret (filters_contents filters2, this2)"
      "filters_answer F (indexed_keys blocks) filters2" "length filters2 = length filters + (if pending = [] then 0 else 1)"
    using FilterBlock_Finish_holds [OF 1(2-4) many [OF 1(4)]] by blast
  have "filter_block F blocks = Ret (filters_contents filters2)" using 1(1) 2(1) by (simp add: filter_block_def)
  moreover have "\<forall>b \<in> set blocks. filter_index (fst b) \<le> length filters2" using 1(5) 2(3) by force
  moreover have "length filters2 \<le> i" if "i \<notin> fst ` indexed_keys blocks" "blocks \<noteq> []" "filter_index (fst (last blocks)) \<le> i" for i
  proof (cases "pending = []")
    case True
    then show ?thesis using 2(3) 1(6) that by simp
  next
    case False
    then have "length filters \<in> fst ` indexed_keys blocks" using 1(2) by (simp add: fb_holds_def)
    then have "length filters \<noteq> i" using that(1) by blast
    then show ?thesis using 2(3) 1(6) that False by simp
  qed
  ultimately show ?thesis using 2(2) by (intro exI [of _ filters2]) (fastforce simp: filters_answer_def)
qed

end

text \<open>Behind the last filter the reader denies nothing.\<close>

lemma reader_behind:
  assumes "length (filters_contents filters) < 2 ^ 32" "length filters \<le> filter_index off"
    and "new_FilterBlockReader F (filters_contents filters) = Ret r"
  shows "FilterBlock_KeyMayMatch r off key = Ret True"
proof -
  have "unat (drop_bit 11 off) = filter_index off" by (simp add: filter_index_def drop_bit_eq_div unat_div_distrib)
  then show ?thesis using assms reader_filters [OF assms(1), of F] by (auto simp: FilterBlock_KeyMayMatch_def Let_def)
qed

section \<open>Property\<close>

context bloom_policy
begin

lemma is_policy: "filter_policy (BloomFilter this) (\<lambda>_. True) (\<lambda>n. n < 2 ^ 31)"
  by unfold_locales

end

context internal_filter
begin

lemma is_policy: "filter_policy (InternalFilterPolicy F) (internal_ok ok) many"
  by unfold_locales

end


lemma filter_block_example:
  "\<exists>contents. filter_block (InternalFilterPolicy (BloomFilter Bloom10))
      [(0, [[1, 2, 3, 4, 5, 6, 7, 8]]), (5000, [[1, 2, 3, 4, 5, 6, 7, 9], [0, 0, 0, 0, 0, 0, 0, 0]])] = Ret contents \<and>
    length contents < 2 ^ 32"
proof -
  have "(case filter_block (InternalFilterPolicy (BloomFilter Bloom10))
      [(0, [[1, 2, 3, 4, 5, 6, 7, 8]]), (5000, [[1, 2, 3, 4, 5, 6, 7, 9], [0, 0, 0, 0, 0, 0, 0, 0]])] of
      Ret contents \<Rightarrow> length contents < 100 | _ \<Rightarrow> False)" by code_simp
  then show ?thesis by (auto split: res.splits)
qed


end
