(* ===== verification/LdbTwoLevel.thy ===== *)
theory LdbTwoLevel
  imports LdbIterator
begin

text \<open>
  The iterator over two levels, \<open>two_level_iterator.cc\<close>: the values of the index iterator are handles of blocks,
  and \<open>block_function\<close> makes an iterator over the block of a handle (\<open>None\<close> for a null pointer; its argument
  and the options are those of the closure). The two loops that skip empty blocks have fuel. Locale
  \<open>two_level\<close> says what an index has to be for the result to be an iterator over all blocks.
\<close>

section \<open>The iterator\<close>

record ('i, 'd) TwoLevelIterator =
  tl_status :: Status
  tl_index_iter :: "'i IteratorWrapper"
  tl_data_iter :: "'d IteratorWrapper"
  tl_data_block_handle :: slice

type_synonym 'd BlockFunction = "slice \<Rightarrow> 'd option res"

definition tl_SaveError :: "Status \<Rightarrow> ('i, 'd) TwoLevelIterator \<Rightarrow> ('i, 'd) TwoLevelIterator" where
  "tl_SaveError s this =
     (if Status_ok (tl_status this) \<and> \<not> Status_ok s then this \<lparr> tl_status := s \<rparr> else this)"

definition SetDataIterator ::
    "'d Iterator \<Rightarrow> 'd option \<Rightarrow> ('i, 'd) TwoLevelIterator \<Rightarrow> ('i, 'd) TwoLevelIterator res" where
  "SetDataIterator D data_iter this =
     res_bind (if w_iter (tl_data_iter this) \<noteq> None
               then res_bind (istatus (WrappedIterator D) (tl_data_iter this)) (\<lambda>s. Ret (tl_SaveError s this))
               else Ret this) (\<lambda>this.
     res_bind (IteratorWrapper_Set D data_iter (tl_data_iter this)) (\<lambda>w.
       Ret (this \<lparr> tl_data_iter := w \<rparr>)))"

definition InitDataBlock :: "'i Iterator \<Rightarrow> 'd Iterator \<Rightarrow> 'd BlockFunction \<Rightarrow>
    ('i, 'd) TwoLevelIterator \<Rightarrow> ('i, 'd) TwoLevelIterator res" where
  "InitDataBlock I D block_function this =
     (if \<not> Valid (WrappedIterator I) (tl_index_iter this) then SetDataIterator D None this
      else res_bind (ivalue (WrappedIterator I) (tl_index_iter this)) (\<lambda>handle.
        if w_iter (tl_data_iter this) \<noteq> None \<and> handle = tl_data_block_handle this then Ret this
        else res_bind (block_function handle) (\<lambda>iter.
          SetDataIterator D iter (this \<lparr> tl_data_block_handle := handle \<rparr>))))"

text \<open>Moves of the two iterators in it, of the second only if there is one.\<close>

definition move_index ::
    "('i IteratorWrapper \<Rightarrow> 'i IteratorWrapper res) \<Rightarrow> ('i, 'd) TwoLevelIterator \<Rightarrow> ('i, 'd) TwoLevelIterator res" where
  "move_index move this = res_bind (move (tl_index_iter this)) (\<lambda>w. Ret (this \<lparr> tl_index_iter := w \<rparr>))"

definition move_data ::
    "('d IteratorWrapper \<Rightarrow> 'd IteratorWrapper res) \<Rightarrow> ('i, 'd) TwoLevelIterator \<Rightarrow> ('i, 'd) TwoLevelIterator res" where
  "move_data move this = res_bind (move (tl_data_iter this)) (\<lambda>w. Ret (this \<lparr> tl_data_iter := w \<rparr>))"

definition move_data_if ::
    "('d IteratorWrapper \<Rightarrow> 'd IteratorWrapper res) \<Rightarrow> ('i, 'd) TwoLevelIterator \<Rightarrow> ('i, 'd) TwoLevelIterator res" where
  "move_data_if move this = (if w_iter (tl_data_iter this) \<noteq> None then move_data move this else Ret this)"

fun SkipEmptyDataBlocksForward :: "nat \<Rightarrow> 'i Iterator \<Rightarrow> 'd Iterator \<Rightarrow> 'd BlockFunction \<Rightarrow>
    ('i, 'd) TwoLevelIterator \<Rightarrow> ('i, 'd) TwoLevelIterator res" where
  "SkipEmptyDataBlocksForward 0 I D block_function this = NoFuel"
| "SkipEmptyDataBlocksForward (Suc fuel) I D block_function this =
     (if w_iter (tl_data_iter this) = None \<or> \<not> Valid (WrappedIterator D) (tl_data_iter this)
      then if \<not> Valid (WrappedIterator I) (tl_index_iter this) then SetDataIterator D None this
           else res_bind (move_index (Next (WrappedIterator I)) this) (\<lambda>this.
                res_bind (InitDataBlock I D block_function this) (\<lambda>this.
                res_bind (move_data_if (SeekToFirst (WrappedIterator D)) this) (\<lambda>this.
                  SkipEmptyDataBlocksForward fuel I D block_function this)))
      else Ret this)"

fun SkipEmptyDataBlocksBackward :: "nat \<Rightarrow> 'i Iterator \<Rightarrow> 'd Iterator \<Rightarrow> 'd BlockFunction \<Rightarrow>
    ('i, 'd) TwoLevelIterator \<Rightarrow> ('i, 'd) TwoLevelIterator res" where
  "SkipEmptyDataBlocksBackward 0 I D block_function this = NoFuel"
| "SkipEmptyDataBlocksBackward (Suc fuel) I D block_function this =
     (if w_iter (tl_data_iter this) = None \<or> \<not> Valid (WrappedIterator D) (tl_data_iter this)
      then if \<not> Valid (WrappedIterator I) (tl_index_iter this) then SetDataIterator D None this
           else res_bind (move_index (Prev (WrappedIterator I)) this) (\<lambda>this.
                res_bind (InitDataBlock I D block_function this) (\<lambda>this.
                res_bind (move_data_if (SeekToLast (WrappedIterator D)) this) (\<lambda>this.
                  SkipEmptyDataBlocksBackward fuel I D block_function this)))
      else Ret this)"

definition tl_seek :: "('i IteratorWrapper \<Rightarrow> 'i IteratorWrapper res) \<Rightarrow> ('d IteratorWrapper \<Rightarrow> 'd IteratorWrapper res) \<Rightarrow>
    (('i, 'd) TwoLevelIterator \<Rightarrow> ('i, 'd) TwoLevelIterator res) \<Rightarrow> 'i Iterator \<Rightarrow> 'd Iterator \<Rightarrow> 'd BlockFunction \<Rightarrow>
    ('i, 'd) TwoLevelIterator \<Rightarrow> ('i, 'd) TwoLevelIterator res" where
  "tl_seek index_move data_move skip I D block_function this =
     res_bind (move_index index_move this) (\<lambda>this.
     res_bind (InitDataBlock I D block_function this) (\<lambda>this.
     res_bind (move_data_if data_move this) skip))"

definition tl_Seek :: "nat \<Rightarrow> 'i Iterator \<Rightarrow> 'd Iterator \<Rightarrow> 'd BlockFunction \<Rightarrow> slice \<Rightarrow>
    ('i, 'd) TwoLevelIterator \<Rightarrow> ('i, 'd) TwoLevelIterator res" where
  "tl_Seek fuel I D block_function target =
     tl_seek (Seek (WrappedIterator I) target) (Seek (WrappedIterator D) target)
       (SkipEmptyDataBlocksForward fuel I D block_function) I D block_function"

definition tl_SeekToFirst :: "nat \<Rightarrow> 'i Iterator \<Rightarrow> 'd Iterator \<Rightarrow> 'd BlockFunction \<Rightarrow>
    ('i, 'd) TwoLevelIterator \<Rightarrow> ('i, 'd) TwoLevelIterator res" where
  "tl_SeekToFirst fuel I D block_function =
     tl_seek (SeekToFirst (WrappedIterator I)) (SeekToFirst (WrappedIterator D))
       (SkipEmptyDataBlocksForward fuel I D block_function) I D block_function"

definition tl_SeekToLast :: "nat \<Rightarrow> 'i Iterator \<Rightarrow> 'd Iterator \<Rightarrow> 'd BlockFunction \<Rightarrow>
    ('i, 'd) TwoLevelIterator \<Rightarrow> ('i, 'd) TwoLevelIterator res" where
  "tl_SeekToLast fuel I D block_function =
     tl_seek (SeekToLast (WrappedIterator I)) (SeekToLast (WrappedIterator D))
       (SkipEmptyDataBlocksBackward fuel I D block_function) I D block_function"

definition tl_Next :: "nat \<Rightarrow> 'i Iterator \<Rightarrow> 'd Iterator \<Rightarrow> 'd BlockFunction \<Rightarrow>
    ('i, 'd) TwoLevelIterator \<Rightarrow> ('i, 'd) TwoLevelIterator res" where
  "tl_Next fuel I D block_function this =
     res_bind (move_data (Next (WrappedIterator D)) this) (SkipEmptyDataBlocksForward fuel I D block_function)"

definition tl_Prev :: "nat \<Rightarrow> 'i Iterator \<Rightarrow> 'd Iterator \<Rightarrow> 'd BlockFunction \<Rightarrow>
    ('i, 'd) TwoLevelIterator \<Rightarrow> ('i, 'd) TwoLevelIterator res" where
  "tl_Prev fuel I D block_function this =
     res_bind (move_data (Prev (WrappedIterator D)) this) (SkipEmptyDataBlocksBackward fuel I D block_function)"

definition tl_status_of :: "'i Iterator \<Rightarrow> 'd Iterator \<Rightarrow> ('i, 'd) TwoLevelIterator \<Rightarrow> Status res" where
  "tl_status_of I D this =
     res_bind (istatus (WrappedIterator I) (tl_index_iter this)) (\<lambda>s.
       if \<not> Status_ok s then Ret s
       else if w_iter (tl_data_iter this) = None then Ret (tl_status this)
       else res_bind (istatus (WrappedIterator D) (tl_data_iter this)) (\<lambda>s.
              if \<not> Status_ok s then Ret s else Ret (tl_status this)))"

definition TwoLevelIter :: "nat \<Rightarrow> 'i Iterator \<Rightarrow> 'd Iterator \<Rightarrow> 'd BlockFunction \<Rightarrow>
    ('i, 'd) TwoLevelIterator Iterator" where
  "TwoLevelIter fuel I D block_function =
     \<lparr> Valid = \<lambda>this. Valid (WrappedIterator D) (tl_data_iter this),
       SeekToFirst = tl_SeekToFirst fuel I D block_function,
       SeekToLast = tl_SeekToLast fuel I D block_function,
       Seek = tl_Seek fuel I D block_function,
       Next = tl_Next fuel I D block_function,
       Prev = tl_Prev fuel I D block_function,
       ikey = \<lambda>this. ikey (WrappedIterator D) (tl_data_iter this),
       ivalue = \<lambda>this. ivalue (WrappedIterator D) (tl_data_iter this),
       istatus = tl_status_of I D \<rparr>"

definition NewTwoLevelIterator :: "'i Iterator \<Rightarrow> 'd Iterator \<Rightarrow> 'i \<Rightarrow> ('i, 'd) TwoLevelIterator res" where
  "NewTwoLevelIterator I D index_iter =
     res_bind (new_IteratorWrapper I (Some index_iter)) (\<lambda>i.
     res_bind (new_IteratorWrapper D None) (\<lambda>d.
       Ret \<lparr> tl_status = OK, tl_index_iter = i, tl_data_iter = d, tl_data_block_handle = [] \<rparr>))"

section \<open>Runs over all blocks\<close>

text \<open>\<open>idx\<close> are the entries of the index and \<open>blk\<close> the entries of the block of a handle.\<close>

locale two_level = index: wrapped_iterator I ok lt posI + data: wrapped_iterator D ok lt posD
  for I :: "'i Iterator" and D :: "'d Iterator" and ok lt posI posD +
  fixes block_function :: "'d BlockFunction" and fuel :: nat
begin

text \<open>The index is right: its handles lead to the blocks, and its keys separate them.\<close>

definition indexed :: "(slice \<times> slice) list \<Rightarrow> (slice \<Rightarrow> (slice \<times> slice) list) \<Rightarrow> bool" where
  "indexed idx blk \<longleftrightarrow>
     (\<forall>kv \<in> set idx. \<exists>d k. block_function (snd kv) = Ret (Some d) \<and> posD d (blk (snd kv)) k) \<and>
     (\<forall>b < length idx. \<forall>target. ok target \<longrightarrow>
        (lt (fst (idx ! b)) target \<longrightarrow> (\<forall>kv \<in> set (blk (snd (idx ! b))). lt (fst kv) target)) \<and>
        (\<not> lt (fst (idx ! b)) target \<longrightarrow>
          (\<forall>c. b < c \<and> c < length idx \<longrightarrow> (\<forall>kv \<in> set (blk (snd (idx ! c))). \<not> lt (fst kv) target)))) \<and>
     length idx + 1 < fuel"

lemma index_above: "indexed idx blk \<Longrightarrow> b < length idx \<Longrightarrow> ok target \<Longrightarrow> lt (fst (idx ! b)) target \<Longrightarrow>
    kv \<in> set (blk (snd (idx ! b))) \<Longrightarrow> lt (fst kv) target"
  unfolding indexed_def by blast

lemma index_below: "indexed idx blk \<Longrightarrow> b < c \<Longrightarrow> c < length idx \<Longrightarrow> ok target \<Longrightarrow> \<not> lt (fst (idx ! b)) target \<Longrightarrow>
    kv \<in> set (blk (snd (idx ! c))) \<Longrightarrow> \<not> lt (fst kv) target"
  unfolding indexed_def by (meson less_trans)

definition entries :: "(slice \<times> slice) list \<Rightarrow> (slice \<Rightarrow> (slice \<times> slice) list) \<Rightarrow> (slice \<times> slice) list" where
  "entries idx blk = concat (map (blk \<circ> snd) idx)"

definition start_of :: "(slice \<times> slice) list \<Rightarrow> (slice \<Rightarrow> (slice \<times> slice) list) \<Rightarrow> nat \<Rightarrow> nat" where
  "start_of idx blk b = length (concat (map (blk \<circ> snd) (take b idx)))"

text \<open>The data iterator is null, or stands in the block \<open>b\<close> of the index at its entry \<open>k\<close>.\<close>

definition ended :: "('i, 'd) TwoLevelIterator \<Rightarrow> bool" where
  "ended this \<longleftrightarrow> w_iter (tl_data_iter this) = None \<and> \<not> w_valid (tl_data_iter this)"

definition index_at :: "(slice \<times> slice) list \<Rightarrow> ('i, 'd) TwoLevelIterator \<Rightarrow> nat \<Rightarrow> bool" where
  "index_at idx this b \<longleftrightarrow> tl_status this = OK \<and> index.base.wrapped (tl_index_iter this) idx b"

definition in_some_block :: "(slice \<Rightarrow> (slice \<times> slice) list) \<Rightarrow> ('i, 'd) TwoLevelIterator \<Rightarrow> bool" where
  "in_some_block blk this \<longleftrightarrow> (\<exists>k. data.base.wrapped (tl_data_iter this) (blk (tl_data_block_handle this)) k)"

definition in_block :: "(slice \<times> slice) list \<Rightarrow> (slice \<Rightarrow> (slice \<times> slice) list) \<Rightarrow> ('i, 'd) TwoLevelIterator \<Rightarrow> nat \<Rightarrow> nat \<Rightarrow> bool" where
  "in_block idx blk this b k \<longleftrightarrow> b < length idx \<and> index_at idx this b \<and> tl_data_block_handle this = snd (idx ! b) \<and>
     data.base.wrapped (tl_data_iter this) (blk (snd (idx ! b))) k"

definition over_blocks :: "(slice \<times> slice) list \<Rightarrow> (slice \<Rightarrow> (slice \<times> slice) list) \<Rightarrow> ('i, 'd) TwoLevelIterator \<Rightarrow> (slice \<times> slice) list \<Rightarrow> nat \<Rightarrow> bool" where
  "over_blocks idx blk this kvs n \<longleftrightarrow> kvs = entries idx blk \<and>
     ((\<exists>b k. in_block idx blk this b k \<and> k < length (blk (snd (idx ! b))) \<and> n = start_of idx blk b + k) \<or>
      (\<exists>b. index_at idx this b \<and> ended this \<and> n = length (entries idx blk)))"

lemma start_of_Suc: "b < length idx \<Longrightarrow> start_of idx blk (Suc b) = start_of idx blk b + length (blk (snd (idx ! b)))"
  by (simp add: start_of_def take_Suc_conv_app_nth)

lemma start_of_length: "start_of idx blk (length idx) = length (entries idx blk)"
  by (simp add: start_of_def entries_def)

lemma entries_split:
  assumes "b < length idx"
  shows "entries idx blk = concat (map (blk \<circ> snd) (take b idx)) @ blk (snd (idx ! b)) @
    concat (map (blk \<circ> snd) (drop (Suc b) idx))"
proof -
  have "idx = take b idx @ idx ! b # drop (Suc b) idx" using assms by (simp add: id_take_nth_drop)
  then have "entries idx blk = concat (map (blk \<circ> snd) (take b idx @ idx ! b # drop (Suc b) idx))"
    unfolding entries_def by argo
  then show ?thesis by simp
qed

lemma entries_nth: "b < length idx \<Longrightarrow> k < length (blk (snd (idx ! b))) \<Longrightarrow>
  (entries idx blk) ! (start_of idx blk b + k) = blk (snd (idx ! b)) ! k"
  using entries_split [of b] by (simp add: start_of_def nth_append)

lemma in_block_less: "b < length idx \<Longrightarrow> k < length (blk (snd (idx ! b))) \<Longrightarrow>
  start_of idx blk b + k < length (entries idx blk)"
  using entries_split [of b] by (simp add: start_of_def)

text \<open>The entry that a seek finds.\<close>

lemma takeWhile_none: "(\<And>x. x \<in> set xs \<Longrightarrow> \<not> P x) \<Longrightarrow> takeWhile P xs = []"
  by (cases xs) auto

lemma takeWhile_mid: "\<forall>x \<in> set xs. P x \<Longrightarrow> takeWhile P zs = [] \<Longrightarrow> takeWhile P (xs @ ys @ zs) = xs @ takeWhile P ys"
  by (induction ys arbitrary: zs) auto

lemma below_entries:
  assumes ix: "indexed idx blk" and t: "ok target"
  shows "below lt target (entries idx blk) =
    (let b = below lt target idx
     in if b < length idx then start_of idx blk b + below lt target (blk (snd (idx ! b))) else length (entries idx blk))"
proof -
  let ?b = "below lt target idx" and ?P = "\<lambda>kv. lt (fst kv) target"
  have before: "\<forall>kv \<in> set (concat (map (blk \<circ> snd) (take ?b idx))). ?P kv"
  proof
    fix kv assume "kv \<in> set (concat (map (blk \<circ> snd) (take ?b idx)))"
    then obtain e where e: "e \<in> set (take ?b idx)" "kv \<in> set (blk (snd e))" by auto
    then obtain c where "c < length (take ?b idx)" "take ?b idx ! c = e" unfolding in_set_conv_nth by blast
    then have c: "c < ?b" "c < length idx" "kv \<in> set (blk (snd (idx ! c)))" using e(2) by simp_all
    have "idx ! c \<in> set (takeWhile ?P idx)"
      using c(1) nth_mem [of c "takeWhile ?P idx"] by (simp add: below_def takeWhile_nth)
    then have "?P (idx ! c)" by (rule set_takeWhileD [THEN conjunct2])
    then show "?P kv" using index_above [OF ix c(2) t _ c(3)] by blast
  qed
  show ?thesis
  proof (cases "?b < length idx")
    case False
    then have "take ?b idx = idx" by simp
    then have "\<forall>kv \<in> set (entries idx blk). ?P kv" using before unfolding entries_def by argo
    then have "takeWhile ?P (entries idx blk) = (entries idx blk)" by (simp only: takeWhile_eq_all_conv)
    then have "below lt target (entries idx blk) = length (entries idx blk)" by (simp only: below_def)
    then show ?thesis using False by (simp add: Let_def)
  next
    case True
    have "\<not> ?P (idx ! ?b)" using True nth_length_takeWhile [of ?P idx] by (simp add: below_def)
    then have after: "\<not> ?P kv" if "kv \<in> set (concat (map (blk \<circ> snd) (drop (Suc ?b) idx)))" for kv
    proof -
      obtain e where "e \<in> set (drop (Suc ?b) idx)" "kv \<in> set (blk (snd e))" using \<open>kv \<in> _\<close> by auto
      then obtain c where "c < length (drop (Suc ?b) idx)" "kv \<in> set (blk (snd (drop (Suc ?b) idx ! c)))"
        unfolding in_set_conv_nth [of e] by blast
      then show ?thesis
        using index_below [OF ix, of ?b "Suc ?b + c" target kv] t \<open>\<not> ?P (idx ! ?b)\<close> by auto
    qed
    have "takeWhile ?P (concat (map (blk \<circ> snd) (drop (Suc ?b) idx))) = []" by (rule takeWhile_none) (rule after)
    then have "takeWhile ?P (entries idx blk) = concat (map (blk \<circ> snd) (take ?b idx)) @
      takeWhile ?P (blk (snd (idx ! ?b)))"
      unfolding entries_split [OF True] by (rule takeWhile_mid [OF before])
    then have "below lt target (entries idx blk) = start_of idx blk ?b + length (takeWhile ?P (blk (snd (idx ! ?b))))"
      unfolding below_def [of lt target "entries idx blk"] start_of_def by simp
    then show ?thesis using True by (simp add: Let_def below_def [of lt target "blk (snd (idx ! ?b))"])
  qed
qed

text \<open>Steps of the index and of the data iterator.\<close>

lemma wrapped_iter: "data.base.wrapped w kvs k \<Longrightarrow> w_iter w \<noteq> None"
  by (auto simp: data.base.wrapped_def)

lemma SetDataIterator_in_block:
  assumes "index_at idx this b" "b < length idx" "tl_data_block_handle this = snd (idx ! b)"
    and "ended this \<or> (\<exists>handle k. data.base.wrapped (tl_data_iter this) (blk handle) k)"
    and "posD d (blk (snd (idx ! b))) k"
  shows "\<exists>this'. SetDataIterator D (Some d) this = Ret this' \<and> in_block idx blk this' b k"
proof -
  have "(if w_iter (tl_data_iter this) \<noteq> None
      then res_bind (istatus (WrappedIterator D) (tl_data_iter this)) (\<lambda>s. Ret (tl_SaveError s this))
      else Ret this) = Ret this"
    using assms(4) data.wrapper.status by (fastforce simp: ended_def tl_SaveError_def)
  moreover obtain w where "IteratorWrapper_Set D (Some d) (tl_data_iter this) =
    Ret w" "data.base.wrapped w (blk (snd (idx ! b))) k"
    using data.base.Set_wrapped [OF assms(5)] by blast
  ultimately show ?thesis using assms(1-3) by (simp add: SetDataIterator_def in_block_def index_at_def)
qed

lemma SetDataIterator_None:
  assumes "index_at idx this b" "ended this \<or> (\<exists>handle k. data.base.wrapped (tl_data_iter this) (blk handle) k)"
  shows "\<exists>this'. SetDataIterator D None this = Ret this' \<and> index_at idx this' b \<and> ended this'"
proof -
  have "(if w_iter (tl_data_iter this) \<noteq> None
      then res_bind (istatus (WrappedIterator D) (tl_data_iter this)) (\<lambda>s. Ret (tl_SaveError s this))
      else Ret this) = Ret this"
    using assms(2) data.wrapper.status by (fastforce simp: ended_def tl_SaveError_def)
  then show ?thesis using assms(1)
    by (simp add: SetDataIterator_def IteratorWrapper_Set_def Let_def index_at_def ended_def)
qed

lemma index_valid: "index_at idx this b \<Longrightarrow> Valid (WrappedIterator I) (tl_index_iter this) \<longleftrightarrow> b < length idx"
  using index.wrapper.valid by (simp add: index_at_def)

lemma InitDataBlock_in_block:
  assumes ix: "indexed idx blk" and "index_at idx this b" "b < length idx" "ended this \<or> in_some_block blk this"
  shows "\<exists>this' k. InitDataBlock I D block_function this = Ret this' \<and> in_block idx blk this' b k"
proof -
  have v: "ivalue (WrappedIterator I) (tl_index_iter this) = Ret (snd (idx ! b))"
    using index.wrapper.entry assms(2,3) by (simp add: index_at_def)
  obtain d k where d: "block_function (snd (idx ! b)) = Ret (Some d)" "posD d (blk (snd (idx ! b))) k"
    using ix assms(3) by (force simp: indexed_def)
  show ?thesis
  proof (cases "w_iter (tl_data_iter this) \<noteq> None \<and> snd (idx ! b) = tl_data_block_handle this")
    case True
    then have "\<exists>k. in_block idx blk this b k" using assms by (auto simp: ended_def in_some_block_def in_block_def)
    then show ?thesis using True v index_valid [OF assms(2)] assms(3) by (auto simp: InitDataBlock_def)
  next
    case False
    let ?this = "this \<lparr> tl_data_block_handle := snd (idx ! b) \<rparr>"
    have "\<exists>this'. SetDataIterator D (Some d) ?this = Ret this' \<and> in_block idx blk this' b k"
      using assms by (intro SetDataIterator_in_block d(2)) (auto simp: index_at_def ended_def in_some_block_def)
    then show ?thesis using False v d(1) index_valid [OF assms(2)] assms(3) by (auto simp: InitDataBlock_def)
  qed
qed

lemma InitDataBlock_end:
  assumes "index_at idx this (length idx)" "ended this \<or> in_some_block blk this"
  shows "\<exists>this'. InitDataBlock I D block_function this = Ret this' \<and> index_at idx this' (length idx) \<and> ended this'"
  using SetDataIterator_None [OF assms(1), of blk] assms(2) index_valid [OF assms(1)]
  by (auto simp: InitDataBlock_def in_some_block_def)

text \<open>At entry \<open>k\<close> of block \<open>b\<close>, or behind all blocks.\<close>

definition near :: "(slice \<times> slice) list \<Rightarrow> (slice \<Rightarrow> (slice \<times> slice) list) \<Rightarrow> ('i, 'd) TwoLevelIterator \<Rightarrow> nat \<Rightarrow> nat \<Rightarrow> bool" where
  "near idx blk this b k \<longleftrightarrow> in_block idx blk this b k \<or> b = length idx \<and> k = 0 \<and> index_at idx this b \<and> ended this"

lemma near_somewhere: "near idx blk this b k \<Longrightarrow> index_at idx this b \<and> (ended this \<or> in_some_block blk this)"
  by (auto simp: near_def in_block_def in_some_block_def)

lemma over_somewhere: "over_blocks idx blk this kvs n \<Longrightarrow> \<exists>b. index_at idx this b \<and> (ended this \<or>
  in_some_block blk this)"
  by (fastforce simp: over_blocks_def in_block_def in_some_block_def)

text \<open>What every seek and every skip does after the index has moved: open the block and move in it.\<close>

lemma open_block:
  assumes ix: "indexed idx blk" and "index_at idx this b" "ended this \<or> in_some_block blk this"
    and move: "\<And>w kvs k. data.base.wrapped w kvs k \<Longrightarrow> \<exists>w'. data_move w = Ret w' \<and> data.base.wrapped w' kvs (goal kvs)"
  shows "\<exists>this2 this'. InitDataBlock I D block_function this = Ret this2 \<and> move_data_if data_move this2 = Ret this' \<and>
    near idx blk this' b (if b < length idx then goal (blk (snd (idx ! b))) else 0)"
proof (cases "b < length idx")
  case True
  obtain this2 k where 2: "InitDataBlock I D block_function this = Ret this2" "in_block idx blk this2 b k"
    using InitDataBlock_in_block [OF ix assms(2) True assms(3)] by blast
  obtain w where w: "data_move (tl_data_iter this2) =
    Ret w" "data.base.wrapped w (blk (snd (idx ! b))) (goal (blk (snd (idx ! b))))"
    using move [of "tl_data_iter this2" "blk (snd (idx ! b))" k] 2(2) by (auto simp: in_block_def)
  have "w_iter (tl_data_iter this2) \<noteq> None" using 2(2) wrapped_iter by (auto simp: in_block_def)
  then show ?thesis using 2 w True
    by (auto simp: move_data_if_def move_data_def near_def in_block_def index_at_def)
next
  case False
  then have b: "b = length idx" using assms(2) index.wrapper.pos_le by (fastforce simp: index_at_def)
  then obtain this2 where "InitDataBlock I D block_function this = Ret this2" "index_at idx this2 b" "ended this2"
    using InitDataBlock_end assms(2,3) by blast
  then show ?thesis using b by (auto simp: move_data_if_def near_def ended_def)
qed

lemma move_index_at:
  assumes "index_at idx this b" "ended this \<or> in_some_block blk this"
    and "\<exists>w. index_move (tl_index_iter this) = Ret w \<and> index.base.wrapped w idx c"
  shows "\<exists>this'. move_index index_move this = Ret this' \<and> index_at idx this' c \<and> (ended this' \<or>
    in_some_block blk this')"
  using assms by (auto simp: move_index_def index_at_def ended_def in_some_block_def)

lemma data_valid: "in_block idx blk this b k \<Longrightarrow> Valid (WrappedIterator D) (tl_data_iter this) \<longleftrightarrow>
  k < length (blk (snd (idx ! b)))"
  using data.wrapper.valid by (auto simp: in_block_def)

lemma in_block_le: "in_block idx blk this b k \<Longrightarrow> k \<le> length (blk (snd (idx ! b)))"
  using data.wrapper.pos_le by (auto simp: in_block_def)

lemma skip_at_end:
  assumes "index_at idx this (length idx)" "ended this" "0 < n"
  shows "\<exists>this'. SkipEmptyDataBlocksForward n I D block_function this = Ret this' \<and>
    over_blocks idx blk this' (entries idx blk) (length (entries idx blk))"
    and "\<exists>this'. SkipEmptyDataBlocksBackward n I D block_function this = Ret this' \<and>
      over_blocks idx blk this' (entries idx blk) (length (entries idx blk))"
proof -
  obtain this' where "SetDataIterator D None this = Ret this'" "index_at idx this' (length idx)" "ended this'"
    using SetDataIterator_None [OF assms(1)] assms(2) by blast
  then show "\<exists>this'. SkipEmptyDataBlocksForward n I D block_function this = Ret this' \<and>
    over_blocks idx blk this' (entries idx blk) (length (entries idx blk))"
    "\<exists>this'. SkipEmptyDataBlocksBackward n I D block_function this = Ret this' \<and>
      over_blocks idx blk this' (entries idx blk) (length (entries idx blk))"
    using assms index_valid [OF assms(1)] by (cases n; auto simp: ended_def over_blocks_def)+
qed

lemma skip_forward:
  "indexed idx blk \<Longrightarrow> near idx blk this b k \<Longrightarrow> length idx - b < n \<Longrightarrow>
   \<exists>this'. SkipEmptyDataBlocksForward n I D block_function this = Ret this' \<and>
     over_blocks idx blk this' (entries idx blk) (if b < length idx then start_of idx blk b + k else length (entries idx blk))"
proof (induction n arbitrary: this b k)
  case (Suc n)
  show ?case
  proof (cases "in_block idx blk this b k")
    case False
    then show ?thesis using skip_at_end(1) [of idx this "Suc n" blk] Suc.prems by (auto simp: near_def)
  next
    case at: True
    then have b: "b < length idx" by (simp add: in_block_def)
    show ?thesis
    proof (cases "k < length (blk (snd (idx ! b)))")
      case True
      moreover have "w_iter (tl_data_iter this) \<noteq> None" using at wrapped_iter by (auto simp: in_block_def)
      ultimately show ?thesis using at b data_valid [OF at] by (auto simp: over_blocks_def)
    next
      case False
      then have k: "start_of idx blk b + k =
        start_of idx blk (Suc b)" using in_block_le [OF at] start_of_Suc [OF b] by simp
      have "index_at idx this b" "ended this \<or> in_some_block blk this" using near_somewhere Suc.prems(2) by blast+
      then obtain this1 where 1: "move_index (Next (WrappedIterator I)) this = Ret this1" "index_at idx this1 (Suc b)"
          "ended this1 \<or> in_some_block blk this1"
        using move_index_at [of idx this b blk "Next (WrappedIterator I)" "Suc b"] index.wrapper.next_entry b
        by (auto simp: index_at_def)
      obtain this2 this3 where 3: "InitDataBlock I D block_function this1 = Ret this2"
          "move_data_if (SeekToFirst (WrappedIterator D)) this2 = Ret this3" "near idx blk this3 (Suc b) 0"
        using open_block [OF Suc.prems(1) 1(2,3), of "SeekToFirst (WrappedIterator D)" "\<lambda>_. 0"] data.wrapper.seek_first by auto
      have "length idx - Suc b < n" using Suc.prems(3) b by simp
      moreover have "start_of idx blk (Suc b) = length (entries idx blk)" if "\<not> Suc b < length idx"
        using that b start_of_length [of idx blk] by (metis Suc_leI le_antisym not_less)
      then have "(if Suc b < length idx then start_of idx blk (Suc b) + 0 else length (entries idx blk)) =
        start_of idx blk b + k"
        using k by simp
      ultimately show ?thesis
        using Suc.IH [OF Suc.prems(1) 3(3)] 1(1) 3(1,2) False b index_valid [of idx this b] data_valid [OF at] \<open>index_at idx this b\<close>
        by simp
    qed
  qed
qed simp

lemma start_of_0: "start_of idx blk 0 = 0"
  by (simp add: start_of_def)

text \<open>The entry before the first of a block, and before the first of all, which is no entry.\<close>

definition before :: "(slice \<times> slice) list \<Rightarrow> (slice \<Rightarrow> (slice \<times> slice) list) \<Rightarrow> nat \<Rightarrow> nat \<Rightarrow> nat" where
  "before idx blk b k = (if k < length (blk (snd (idx ! b))) then start_of idx blk b + k
     else if start_of idx blk b = 0 then length (entries idx blk) else start_of idx blk b - 1)"

lemma skip_backward:
  "indexed idx blk \<Longrightarrow> in_block idx blk this b k \<Longrightarrow> Suc b < n \<Longrightarrow>
   \<exists>this'. SkipEmptyDataBlocksBackward n I D block_function this = Ret this' \<and>
     over_blocks idx blk this' (entries idx blk) (before idx blk b k)"
proof (induction n arbitrary: this b k)
  case (Suc n)
  note at = Suc.prems(2)
  then have b: "b < length idx" by (simp add: in_block_def)
  have somewhere: "index_at idx this b" "ended this \<or>
    in_some_block blk this" using near_somewhere [of idx blk this b k] at by (auto simp: near_def)
  have iter: "w_iter (tl_data_iter this) \<noteq> None" using at wrapped_iter by (auto simp: in_block_def)
  show ?case
  proof (cases "k < length (blk (snd (idx ! b)))")
    case True
    then show ?thesis using at b data_valid [OF at] iter by (auto simp: over_blocks_def before_def)
  next
    case False
    note step = False index_valid [OF somewhere(1)] data_valid [OF at] b
    show ?thesis
    proof (cases b)
      case 0
      obtain this1 where 1: "move_index (Prev (WrappedIterator I)) this = Ret this1" "index_at idx this1 (length idx)"
          "ended this1 \<or> in_some_block blk this1"
        using move_index_at [OF somewhere, of "Prev (WrappedIterator I)" "length idx"] index.wrapper.prev_entry
          somewhere(1) b 0 by (fastforce simp: index_at_def)
      obtain this2 this3 where 3: "InitDataBlock I D block_function this1 = Ret this2"
          "move_data_if (SeekToLast (WrappedIterator D)) this2 = Ret this3" "near idx blk this3 (length idx) 0"
        using open_block [OF Suc.prems(1) 1(2,3), of "SeekToLast (WrappedIterator D)" "\<lambda>kvs. length kvs - 1"]
          data.wrapper.seek_last by auto
      then have "index_at idx this3 (length idx)" "ended this3" by (auto simp: near_def in_block_def)
      then show ?thesis
        using skip_at_end(2) [of idx this3 n blk] Suc.prems(3) 1(1) 3(1,2) step 0 by (simp add: before_def start_of_0)
    next
      case (Suc c)
      then have c: "c < length idx" using b by simp
      obtain this1 where 1: "move_index (Prev (WrappedIterator I)) this = Ret this1" "index_at idx this1 c"
          "ended this1 \<or> in_some_block blk this1"
        using move_index_at [OF somewhere, of "Prev (WrappedIterator I)" c] index.wrapper.prev_entry
          somewhere(1) b Suc by (fastforce simp: index_at_def)
      obtain this2 this3 where 3: "InitDataBlock I D block_function this1 = Ret this2"
          "move_data_if (SeekToLast (WrappedIterator D)) this2 =
            Ret this3" "near idx blk this3 c (length (blk (snd (idx ! c))) - 1)"
        using open_block [OF Suc.prems(1) 1(2,3), of "SeekToLast (WrappedIterator D)" "\<lambda>kvs. length kvs - 1"]
          data.wrapper.seek_last c by auto
      have "in_block idx blk this3 c (length (blk (snd (idx ! c))) - 1)" using 3(3) c by (simp add: near_def)
      moreover have "before idx blk c (length (blk (snd (idx ! c))) - 1) = before idx blk b k"
        using False start_of_Suc [OF c] Suc by (cases "blk (snd (idx ! c))") (simp_all add: before_def)
      moreover have "Suc c < n" using Suc.prems(3) \<open>b = Suc c\<close> by simp
      ultimately obtain this' where "SkipEmptyDataBlocksBackward n I D block_function this3 = Ret this'"
          "over_blocks idx blk this' (entries idx blk) (before idx blk b k)"
        using Suc.IH [OF Suc.prems(1), of this3 c] by metis
      then show ?thesis using 1(1) 3(1,2) step by auto
    qed
  qed
qed simp

lemma seek_in_blocks:
  assumes ix: "indexed idx blk" and "over_blocks idx blk this kvs n"
    and index_move: "\<And>w b. index.base.wrapped w idx b \<Longrightarrow> \<exists>w'. index_move w = Ret w' \<and> index.base.wrapped w' idx c"
    and data_move: "\<And>w kvs k. data.base.wrapped w kvs k \<Longrightarrow>
      \<exists>w'. data_move w = Ret w' \<and> data.base.wrapped w' kvs (goal kvs)"
    and skip: "\<And>this. near idx blk this c (if c < length idx then goal (blk (snd (idx ! c))) else 0) \<Longrightarrow>
      \<exists>this'. skip this = Ret this' \<and> over_blocks idx blk this' (entries idx blk) m"
  shows "\<exists>this'. tl_seek index_move data_move skip I D block_function this = Ret this' \<and>
    over_blocks idx blk this' kvs m"
proof -
  obtain b where b: "index_at idx this b" "ended this \<or>
    in_some_block blk this" using over_somewhere [OF assms(2)] by blast
  obtain this1 where 1: "move_index index_move this = Ret this1" "index_at idx this1 c" "ended this1 \<or>
    in_some_block blk this1"
    using move_index_at [OF b, of index_move c] index_move b(1) by (auto simp: index_at_def)
  obtain this2 this3 where 3: "InitDataBlock I D block_function this1 = Ret this2"
      "move_data_if data_move this2 =
        Ret this3" "near idx blk this3 c (if c < length idx then goal (blk (snd (idx ! c))) else 0)"
    using open_block [OF ix 1(2,3), of data_move goal] data_move by blast
  have "kvs = entries idx blk" using assms(2) by (auto simp: over_blocks_def)
  then show ?thesis using skip [OF 3(3)] 1(1) 3(1,2) by (auto simp: tl_seek_def)
qed

lemma move_in_block:
  assumes "in_block idx blk this b k" "\<exists>w. data_move (tl_data_iter this) = Ret w \<and>
    data.base.wrapped w (blk (snd (idx ! b))) j"
  shows "\<exists>this'. move_data data_move this = Ret this' \<and> in_block idx blk this' b j"
  using assms by (auto simp: move_data_def in_block_def index_at_def)

lemma over_blocks_at:
  assumes "over_blocks idx blk this kvs n" "n < length kvs"
  obtains b k where "in_block idx blk this b k" "k < length (blk (snd (idx ! b)))" "n =
    start_of idx blk b + k" "b < length idx"
  using assms by (auto simp: over_blocks_def in_block_def)

text \<open>Some index and its blocks.\<close>

definition over_index :: "('i, 'd) TwoLevelIterator \<Rightarrow> (slice \<times> slice) list \<Rightarrow> nat \<Rightarrow> bool" where
  "over_index this kvs n \<longleftrightarrow> (\<exists>idx blk. indexed idx blk \<and> over_blocks idx blk this kvs n)"

end

sublocale two_level \<subseteq> blocks: iterator "TwoLevelIter fuel I D block_function" ok lt over_index
proof unfold_locales
  fix s kvs n
  assume "over_index s kvs n"
  then obtain idx blk where ix: "indexed idx blk" and over: "over_blocks idx blk s kvs n"
    by (auto simp: over_index_def)
  have fuel: "length idx + 1 < fuel" using ix by (simp add: indexed_def)
  have intro: "\<exists>s'. r = Ret s' \<and> over_index s' kvs j" if "\<exists>s'. r = Ret s' \<and> over_blocks idx blk s' kvs j" for r j
    using ix that by (auto simp: over_index_def)
  have kvs: "kvs = entries idx blk" using over by (simp add: over_blocks_def)
  show "n \<le> length kvs" using over in_block_less by (fastforce simp: over_blocks_def in_block_def)
  show "Valid (TwoLevelIter fuel I D block_function) s \<longleftrightarrow> n < length kvs"
    using over data_valid in_block_less
    by (auto simp: over_blocks_def TwoLevelIter_def in_block_def ended_def WrappedIterator_def)
  show "istatus (TwoLevelIter fuel I D block_function) s = Ret OK"
    using over index.wrapper.status data.wrapper.status
    by (fastforce simp: over_blocks_def in_block_def index_at_def ended_def TwoLevelIter_def tl_status_of_def)
  show "\<exists>s'. SeekToFirst (TwoLevelIter fuel I D block_function) s = Ret s' \<and> over_index s' kvs 0"
  proof (rule intro)
    have "\<exists>s'. tl_SeekToFirst fuel I D block_function s = Ret s' \<and> over_blocks idx blk s' kvs 0"
      unfolding tl_SeekToFirst_def
    proof (rule seek_in_blocks [OF ix over, where c = 0 and goal = "\<lambda>_. 0"])
      fix this assume "near idx blk this 0 (if 0 < length idx then 0 else 0)"
      then show "\<exists>this'. SkipEmptyDataBlocksForward fuel I D block_function this = Ret this' \<and>
        over_blocks idx blk this' (entries idx blk) 0"
        using skip_forward [OF ix, of this 0 0 fuel] fuel start_of_0 [of idx blk]
        by (cases "idx = []") (auto simp: entries_def)
    qed (use index.wrapper.seek_first data.wrapper.seek_first in auto)
    then show "\<exists>s'. SeekToFirst (TwoLevelIter fuel I D block_function) s = Ret s' \<and>
      over_blocks idx blk s' kvs 0" by (simp add: TwoLevelIter_def)
  qed
  show "\<exists>s'. SeekToLast (TwoLevelIter fuel I D block_function) s = Ret s' \<and> over_index s' kvs (length kvs - 1)"
  proof (rule intro)
    have "\<exists>s'. tl_SeekToLast fuel I D block_function s = Ret s' \<and> over_blocks idx blk s' kvs (length kvs - 1)"
      unfolding tl_SeekToLast_def
    proof (rule seek_in_blocks [OF ix over, where c = "length idx - 1" and goal = "\<lambda>kvs. length kvs - 1"])
      fix this assume near: "near idx blk this (length idx - 1)
        (if length idx - 1 < length idx then length (blk (snd (idx ! (length idx - 1)))) - 1 else 0)"
      show "\<exists>this'. SkipEmptyDataBlocksBackward fuel I D block_function this = Ret this' \<and>
          over_blocks idx blk this' (entries idx blk) (length kvs - 1)"
      proof (cases "length idx = 0")
        case True
        then have "entries idx blk = []" unfolding entries_def by simp
        moreover have "\<not> in_block idx blk this (length idx - 1) k" for k using True unfolding in_block_def by simp
        then have "index_at idx this (length idx)" "ended this" using near True unfolding near_def by simp_all
        ultimately show ?thesis using skip_at_end(2) [of idx this fuel blk] fuel by (simp add: kvs)
      next
        case False
        let ?b = "length idx - 1"
        have b: "?b < length idx" "Suc ?b = length idx" using False by simp_all
        then have "in_block idx blk this ?b (length (blk (snd (idx ! ?b))) - 1)" using near by (auto simp: near_def)
        moreover have "before idx blk ?b (length (blk (snd (idx ! ?b))) - 1) = length kvs - 1"
          using start_of_Suc [OF b(1)] b(2) start_of_length
            by (cases "blk (snd (idx ! ?b))") (auto simp: before_def kvs)
        moreover have "Suc ?b < fuel" using fuel b by linarith
        ultimately show ?thesis using skip_backward [OF ix, of this ?b "length (blk (snd (idx ! ?b))) - 1" fuel] by metis
      qed
    qed (use index.wrapper.seek_last data.wrapper.seek_last in auto)
    then show "\<exists>s'. SeekToLast (TwoLevelIter fuel I D block_function) s = Ret s' \<and>
      over_blocks idx blk s' kvs (length kvs - 1)" by (simp add: TwoLevelIter_def)
  qed
  show "\<exists>s'. Seek (TwoLevelIter fuel I D block_function) target s = Ret s' \<and> over_index s' kvs (below lt target kvs)"
    if t: "ok target" for target
  proof (rule intro)
    have "\<exists>s'. tl_Seek fuel I D block_function target s = Ret s' \<and> over_blocks idx blk s' kvs (below lt target kvs)"
      unfolding tl_Seek_def
    proof (rule seek_in_blocks [OF ix over, where c = "below lt target idx" and goal = "below lt target"])
      fix this assume "near idx blk this (below lt target idx)
        (if below lt target idx < length idx then below lt target (blk (snd (idx ! (below lt target idx)))) else 0)"
      then show "\<exists>this'. SkipEmptyDataBlocksForward fuel I D block_function this = Ret this' \<and>
          over_blocks idx blk this' (entries idx blk) (below lt target kvs)"
        using skip_forward [OF ix, of this "below lt target idx" _ fuel] fuel below_entries [OF ix t]
        by (fastforce simp: kvs Let_def)
    qed (use index.wrapper.seek [OF _ t] data.wrapper.seek [OF _ t] in auto)
    then show "\<exists>s'. Seek (TwoLevelIter fuel I D block_function) target s = Ret s' \<and>
      over_blocks idx blk s' kvs (below lt target kvs)" by (simp add: TwoLevelIter_def)
  qed
  assume n: "n < length kvs"
  obtain b k where at: "in_block idx blk s b k" "k < length (blk (snd (idx ! b)))" "n =
    start_of idx blk b + k" "b < length idx"
    using over_blocks_at [OF over n] .
  have w: "data.base.wrapped (tl_data_iter s) (blk (snd (idx ! b))) k" using at(1) by (simp add: in_block_def)
  show "ikey (TwoLevelIter fuel I D block_function) s = Ret (fst (kvs ! n)) \<and>
      ivalue (TwoLevelIter fuel I D block_function) s = Ret (snd (kvs ! n))"
    using data.wrapper.entry [OF w at(2)] entries_nth [of b idx k blk, OF at(4,2)] at(3)
      by (simp add: TwoLevelIter_def kvs)
  obtain s1 where s1: "move_data (Next (WrappedIterator D)) s = Ret s1" "in_block idx blk s1 b (Suc k)"
    using move_in_block [OF at(1), of "Next (WrappedIterator D)" "Suc k"] data.wrapper.next_entry [OF w at(2)] by blast
  show "\<exists>s'. Next (TwoLevelIter fuel I D block_function) s = Ret s' \<and> over_index s' kvs (Suc n)"
    using skip_forward [OF ix, of s1 b "Suc k" fuel] s1 fuel at(3,4)
    by (intro intro) (auto simp: TwoLevelIter_def tl_Next_def near_def kvs)
  obtain s2 where s2: "move_data (Prev (WrappedIterator D)) s = Ret s2"
      "in_block idx blk s2 b (if k = 0 then length (blk (snd (idx ! b))) else k - 1)"
    using move_in_block [OF at(1), of "Prev (WrappedIterator D)"] data.wrapper.prev_entry [OF w at(2)] by blast
  have "before idx blk b (if k = 0 then length (blk (snd (idx ! b))) else k - 1) = (if n =
    0 then length kvs else n - 1)"
    using at(2,3) by (auto simp: before_def kvs)
  then show "\<exists>s'. Prev (TwoLevelIter fuel I D block_function) s = Ret s' \<and>
      over_index s' kvs (if n = 0 then length kvs else n - 1)"
    using skip_backward [OF ix s2(2), of fuel] s2(1) fuel at(4) kvs
    by (intro intro) (auto simp: TwoLevelIter_def tl_Prev_def)
qed

context two_level
begin

text \<open>A new iterator runs over the blocks.\<close>

lemma NewTwoLevelIterator_over:
  assumes "indexed idx blk" "posI i idx b"
  shows "\<exists>this. NewTwoLevelIterator I D i = Ret this \<and> 
    over_index this (concat (map (blk \<circ> snd) idx)) (length (concat (map (blk \<circ> snd) idx)))"
proof -
  obtain w where w: "new_IteratorWrapper I (Some i) = Ret w" "index.base.wrapped w idx b"
    unfolding new_IteratorWrapper_def using index.base.Set_wrapped [OF assms(2)] by blast
  obtain d where d: "new_IteratorWrapper D None = Ret d" "w_iter d = None" "\<not> w_valid d"
    by (simp add: new_IteratorWrapper_def IteratorWrapper_Set_def)
  let ?this = "\<lparr> tl_status = OK, tl_index_iter = w, tl_data_iter = d, tl_data_block_handle = [] \<rparr>"
  have "index_at idx ?this b" "ended ?this" using w d by (simp_all add: index_at_def ended_def)
  then show ?thesis using w d assms(1)
    by (auto simp: NewTwoLevelIterator_def over_index_def over_blocks_def entries_def)
qed

end

end
