(* ===== verification/LdbTable.thy ===== *)
theory LdbTable
  imports LdbBlockSafe LdbFilterBlock LdbTwoLevel LdbLog
begin

text \<open>
  Tables: \<open>table_builder.cc\<close> writes one, \<open>table.cc\<close> reads it, with the options of \<open>options.h\<close> that they use. The
  files are those of the parameters, and so is the block cache: \<open>Lookup\<close> is a function of the keys, and what
  \<open>BlockReader\<close> hands to \<open>Insert\<close> is returned beside its result. Who owns which memory is left out.
\<close>

section \<open>Options\<close>

type_synonym BlockCache = "slice \<Rightarrow> Block option"

record Options =
  opt_comparator :: Comparator
  opt_paranoid_checks :: bool
  opt_block_cache :: "BlockCache option"
  opt_block_size :: nat
  opt_block_restart_interval :: int
  opt_compression :: u8
  opt_filter_policy :: "FilterPolicy option"

record ReadOptions =
  ro_verify_checksums :: bool
  ro_fill_cache :: bool

definition new_ReadOptions :: ReadOptions where
  "new_ReadOptions = \<lparr> ro_verify_checksums = False, ro_fill_cache = True \<rparr>"

section \<open>The builder\<close>

text \<open>Of \<open>index_block_options\<close> only the restart interval, which is always 1, is used, by \<open>index_block\<close>.\<close>

record 'w TableBuilder =
  tb_options :: Options
  tb_file :: 'w
  tb_offset :: u64
  tb_status :: Status
  tb_data_block :: BlockBuilder
  tb_index_block :: BlockBuilder
  tb_last_key :: slice
  tb_num_entries :: u64
  tb_closed :: bool
  tb_filter_block :: "FilterBlockBuilder option"
  tb_pending_index_entry :: bool
  tb_pending_handle :: BlockHandle

text \<open>A call on the filter builder, if there is one.\<close>

definition on_filter ::
    "(FilterBlockBuilder \<Rightarrow> FilterBlockBuilder res) \<Rightarrow> 'w TableBuilder \<Rightarrow> 'w TableBuilder res" where
  "on_filter call this =
     (case tb_filter_block this of
        None \<Rightarrow> Ret this
      | Some fb \<Rightarrow> res_bind (call fb) (\<lambda>fb. Ret (this \<lparr> tb_filter_block := Some fb \<rparr>)))"

definition new_TableBuilder :: "Options \<Rightarrow> 'w \<Rightarrow> 'w TableBuilder res" where
  "new_TableBuilder options file =
     on_filter (FilterBlock_StartBlock 0)
       \<lparr> tb_options = options, tb_file = file, tb_offset = 0, tb_status = OK,
         tb_data_block = new_BlockBuilder (opt_block_restart_interval options), tb_index_block = new_BlockBuilder 1,
         tb_last_key = [], tb_num_entries = 0, tb_closed = False,
         tb_filter_block = map_option new_FilterBlockBuilder (opt_filter_policy options),
         tb_pending_index_entry = False, tb_pending_handle = new_BlockHandle \<rparr>"

text \<open>Comparators are compared by their addresses in the code, and by \<open>same\<close> here. The block builders point to
  the options of the table builder and see the change.\<close>

definition TableBuilder_ChangeOptions :: "bool \<Rightarrow> Options \<Rightarrow> 'w TableBuilder \<Rightarrow> Status \<times> 'w TableBuilder" where
  "TableBuilder_ChangeOptions same options this =
     (if \<not> same then (InvalidArgument ''changing comparator while building table'' [], this)
      else (OK, this \<lparr> tb_options := options,
                 tb_data_block := (tb_data_block this) \<lparr> bb_interval := opt_block_restart_interval options \<rparr>,
                 tb_index_block := (tb_index_block this) \<lparr> bb_interval := 1 \<rparr> \<rparr>))"

definition tb_ok :: "'w TableBuilder \<Rightarrow> bool" where
  "tb_ok this = Status_ok (tb_status this)"

definition tb_append :: "'w WritableFile \<Rightarrow> slice \<Rightarrow> 'w TableBuilder \<Rightarrow> 'w TableBuilder" where
  "tb_append F data this =
     (let (s, w) = Writable_Append F data (tb_file this) in this \<lparr> tb_status := s, tb_file := w \<rparr>)"

definition WriteRawBlock :: "Port \<Rightarrow> 'w WritableFile \<Rightarrow> slice \<Rightarrow> u8 \<Rightarrow> 'w TableBuilder \<Rightarrow>
    (BlockHandle \<times> 'w TableBuilder) res" where
  "WriteRawBlock port F block_contents ty this =
     (let handle = \<lparr> bh_offset = tb_offset this, bh_size = of_nat (length block_contents) \<rparr>;
          this = tb_append F block_contents this
      in if \<not> tb_ok this then Ret (handle, this)
         else res_bind (Value (AcceleratedCRC32C port) 0 block_contents) (\<lambda>crc.
              res_bind (Extend (AcceleratedCRC32C port) crc 0 [ty]) (\<lambda>crc.
                let this = tb_append F ([ty] @ EncodeFixed32 (Mask crc)) this
                in if tb_ok this
                   then Ret (handle, this \<lparr> tb_offset := tb_offset this + (of_nat (length block_contents) + kBlockTrailerSize) \<rparr>)
                   else Ret (handle, this))))"

text \<open>The contents as they are stored, and their type.\<close>

definition compress_block :: "Port \<Rightarrow> u8 \<Rightarrow> slice \<Rightarrow> slice \<times> u8" where
  "compress_block port ty raw =
     (if ty = kNoCompression then (raw, ty)
      else if ty = kSnappyCompression
      then (case Snappy_Compress port raw of
              None \<Rightarrow> (raw, kNoCompression)
            | Some compressed \<Rightarrow>
                if length compressed < length raw - length raw div 8 then (compressed, ty) else (raw, kNoCompression))
      else ([], ty))"

definition WriteBlock :: "Port \<Rightarrow> 'w WritableFile \<Rightarrow> BlockBuilder \<Rightarrow> 'w TableBuilder \<Rightarrow>
    (BlockHandle \<times> BlockBuilder \<times> 'w TableBuilder) res" where
  "WriteBlock port F block this =
     (let (raw, block) = BlockBuilder_Finish block;
          (block_contents, ty) = compress_block port (opt_compression (tb_options this)) raw
      in res_bind (WriteRawBlock port F block_contents ty this) (\<lambda>(handle, this).
           Ret (handle, BlockBuilder_Reset block, this)))"

definition TableBuilder_Flush :: "Port \<Rightarrow> 'w WritableFile \<Rightarrow> 'w TableBuilder \<Rightarrow> 'w TableBuilder res" where
  "TableBuilder_Flush port F this =
     (if \<not> tb_ok this then Ret this
      else if BlockBuilder_empty (tb_data_block this) then Ret this
      else res_bind (WriteBlock port F (tb_data_block this) this) (\<lambda>(handle, block, this).
        let this = this \<lparr> tb_pending_handle := handle, tb_data_block := block \<rparr>;
            this = (if tb_ok this
                    then let (s, w) = Writable_Flush F (tb_file this)
                         in this \<lparr> tb_pending_index_entry := True, tb_status := s, tb_file := w \<rparr>
                    else this)
        in on_filter (FilterBlock_StartBlock (tb_offset this)) this))"

text \<open>The index entry of the last block, with \<open>shorten\<close> applied to its last key.\<close>

definition add_index_entry :: "(slice \<Rightarrow> slice res) \<Rightarrow> 'w TableBuilder \<Rightarrow> 'w TableBuilder res" where
  "add_index_entry shorten this =
     (if tb_pending_index_entry this
      then res_bind (shorten (tb_last_key this)) (\<lambda>last_key.
             let handle_encoding = BlockHandle_EncodeTo (tb_pending_handle this) []
             in Ret (this \<lparr> tb_last_key := last_key,
                       tb_index_block := BlockBuilder_Add last_key handle_encoding (tb_index_block this),
                       tb_pending_index_entry := False \<rparr>))
      else Ret this)"

definition TableBuilder_Add ::
    "Port \<Rightarrow> 'w WritableFile \<Rightarrow> slice \<Rightarrow> slice \<Rightarrow> 'w TableBuilder \<Rightarrow> 'w TableBuilder res" where
  "TableBuilder_Add port F key val this =
     (if \<not> tb_ok this then Ret this
      else res_bind (add_index_entry (\<lambda>last_key.
               FindShortestSeparator (opt_comparator (tb_options this)) last_key key) this) (\<lambda>this.
           res_bind (on_filter (\<lambda>fb. Ret (FilterBlock_AddKey key fb)) this) (\<lambda>this.
             let this = this \<lparr> tb_last_key := key, tb_num_entries := tb_num_entries this + 1,
                               tb_data_block := BlockBuilder_Add key val (tb_data_block this) \<rparr>
             in if opt_block_size (tb_options this) \<le> BlockBuilder_CurrentSizeEstimate (tb_data_block this)
                then TableBuilder_Flush port F this else Ret this)))"

text \<open>The four parts of \<open>Finish\<close>: each runs only when those before succeeded.\<close>

definition if_ok :: "('w TableBuilder \<Rightarrow> (BlockHandle \<times> 'w TableBuilder) res) \<Rightarrow> 'w TableBuilder \<Rightarrow>
    (BlockHandle \<times> 'w TableBuilder) res" where
  "if_ok part this = (if tb_ok this then part this else Ret (new_BlockHandle, this))"

definition write_filter_block ::
    "Port \<Rightarrow> 'w WritableFile \<Rightarrow> 'w TableBuilder \<Rightarrow> (BlockHandle \<times> 'w TableBuilder) res" where
  "write_filter_block port F this =
     (case tb_filter_block this of
        None \<Rightarrow> Ret (new_BlockHandle, this)
      | Some fb \<Rightarrow> res_bind (FilterBlock_Finish fb) (\<lambda>(contents, fb).
          WriteRawBlock port F contents kNoCompression (this \<lparr> tb_filter_block := Some fb \<rparr>)))"

definition filter_key :: "FilterPolicy \<Rightarrow> slice" where
  "filter_key policy = ascii ''filter.'' @ ascii (FilterPolicy_Name policy)"

definition write_metaindex_block :: "Port \<Rightarrow> 'w WritableFile \<Rightarrow> BlockHandle \<Rightarrow> 'w TableBuilder \<Rightarrow>
    (BlockHandle \<times> 'w TableBuilder) res" where
  "write_metaindex_block port F filter_block_handle this =
     (let block = new_BlockBuilder (opt_block_restart_interval (tb_options this))
      in res_bind (case tb_filter_block this of
                     None \<Rightarrow> Ret block
                   | Some _ \<Rightarrow>
                       (case opt_filter_policy (tb_options this) of
                          None \<Rightarrow> Undef
                        | Some policy \<Rightarrow> Ret
                            (BlockBuilder_Add (filter_key policy) (BlockHandle_EncodeTo filter_block_handle []) block)))
           (\<lambda>block. res_bind (WriteBlock port F block this) (\<lambda>(handle, _, this). Ret (handle, this))))"

definition write_index_block ::
    "Port \<Rightarrow> 'w WritableFile \<Rightarrow> 'w TableBuilder \<Rightarrow> (BlockHandle \<times> 'w TableBuilder) res" where
  "write_index_block port F this =
     res_bind (add_index_entry (FindShortSuccessor (opt_comparator (tb_options this))) this) (\<lambda>this.
     res_bind (WriteBlock port F (tb_index_block this) this) (\<lambda>(handle, block, this).
       Ret (handle, this \<lparr> tb_index_block := block \<rparr>)))"

definition write_footer :: "'w WritableFile \<Rightarrow> BlockHandle \<Rightarrow> BlockHandle \<Rightarrow> 'w TableBuilder \<Rightarrow> 'w TableBuilder" where
  "write_footer F metaindex_block_handle index_block_handle this =
     (let footer_encoding = Footer_EncodeTo
            \<lparr> metaindex_handle = metaindex_block_handle, index_handle = index_block_handle \<rparr> [];
          this = tb_append F footer_encoding this
      in if tb_ok this then this \<lparr> tb_offset := tb_offset this + of_nat (length footer_encoding) \<rparr> else this)"

definition TableBuilder_Finish ::
    "Port \<Rightarrow> 'w WritableFile \<Rightarrow> 'w TableBuilder \<Rightarrow> (Status \<times> 'w TableBuilder) res" where
  "TableBuilder_Finish port F this =
     res_bind (TableBuilder_Flush port F this) (\<lambda>this.
     res_bind (if_ok (write_filter_block port F) (this \<lparr> tb_closed := True \<rparr>)) (\<lambda>(filter_block_handle, this).
     res_bind (if_ok (write_metaindex_block port F filter_block_handle) this) (\<lambda>(metaindex_block_handle, this).
     res_bind (if_ok (write_index_block port F) this) (\<lambda>(index_block_handle, this).
       let this = (if tb_ok this then write_footer F metaindex_block_handle index_block_handle this else this)
       in Ret (tb_status this, this)))))"

definition TableBuilder_Abandon :: "'w TableBuilder \<Rightarrow> 'w TableBuilder" where
  "TableBuilder_Abandon this = this \<lparr> tb_closed := True \<rparr>"

definition TableBuilder_NumEntries :: "'w TableBuilder \<Rightarrow> u64" where
  "TableBuilder_NumEntries = tb_num_entries"

definition TableBuilder_FileSize :: "'w TableBuilder \<Rightarrow> u64" where
  "TableBuilder_FileSize = tb_offset"

section \<open>The table\<close>

record Table =
  tbl_options :: Options
  tbl_file :: RandomAccessFile
  tbl_cache_id :: u64
  tbl_filter :: "FilterBlockReader option"
  tbl_metaindex_handle :: BlockHandle
  tbl_index_block :: Block

text \<open>An error of the decoding or of the reading leaves the table without a filter.\<close>

definition Table_ReadFilter :: "Port \<Rightarrow> slice \<Rightarrow> Table \<Rightarrow> Table res" where
  "Table_ReadFilter port filter_handle_value this =
     (case BlockHandle_DecodeFrom new_BlockHandle filter_handle_value of (s, filter_handle, _) \<Rightarrow>
        if \<not> Status_ok s then Ret this
        else res_bind (ReadBlock port (tbl_file this) (opt_paranoid_checks (tbl_options this)) filter_handle)
          (\<lambda>(s, block).
             if \<not> Status_ok s then Ret this
             else (case opt_filter_policy (tbl_options this) of
                     None \<Rightarrow> Undef
                   | Some policy \<Rightarrow> res_bind (new_FilterBlockReader policy (block_data block)) (\<lambda>reader.
                       Ret (this \<lparr> tbl_filter := Some reader \<rparr>)))))"

definition Table_ReadMeta :: "Port \<Rightarrow> Footer \<Rightarrow> Table \<Rightarrow> Table res" where
  "Table_ReadMeta port footer this =
     (case opt_filter_policy (tbl_options this) of
        None \<Rightarrow> Ret this
      | Some policy \<Rightarrow>
          res_bind (ReadBlock port (tbl_file this) (opt_paranoid_checks (tbl_options this)) (metaindex_handle footer))
            (\<lambda>(s, contents).
               if \<not> Status_ok s then Ret this
               else res_bind (new_Block contents) (\<lambda>meta.
                    res_bind (Block_NewIterator BytewiseComparator meta) (\<lambda>iter.
                    res_bind (Seek BlockIterators (filter_key policy) iter) (\<lambda>iter.
                      if Valid BlockIterators iter
                      then res_bind (ikey BlockIterators iter) (\<lambda>key.
                           if key = filter_key policy
                           then res_bind (ivalue BlockIterators iter) (\<lambda>v. Table_ReadFilter port v this)
                           else Ret this)
                      else Ret this)))))"

text \<open>\<open>new_id\<close> is what \<open>NewId\<close> of the cache returns.\<close>

definition Table_Open :: "Port \<Rightarrow> u64 \<Rightarrow> Options \<Rightarrow> RandomAccessFile \<Rightarrow> u64 \<Rightarrow> (Status \<times> Table option) res" where
  "Table_Open port new_id options file fsize =
     (if fsize < of_nat kEncodedLength then Ret (Corruption ''file is too short to be an sstable'' [], None)
      else let (s, footer_input, _) = file (fsize - of_nat kEncodedLength) (of_nat kEncodedLength)
      in if \<not> Status_ok s then Ret (s, None)
         else res_bind (Footer_DecodeFrom \<lparr> metaindex_handle = new_BlockHandle, index_handle =
           new_BlockHandle \<rparr> footer_input)
           (\<lambda>(s, footer, _).
              if \<not> Status_ok s then Ret (s, None)
              else res_bind (ReadBlock port file (opt_paranoid_checks options) (index_handle footer))
                (\<lambda>(s, index_block_contents).
                   if \<not> Status_ok s then Ret (s, None)
                   else res_bind (new_Block index_block_contents) (\<lambda>index_block.
                        res_bind (Table_ReadMeta port footer
                          \<lparr> tbl_options = options, tbl_file = file,
                            tbl_cache_id = (if opt_block_cache options = None then 0 else new_id), tbl_filter = None,
                            tbl_metaindex_handle = metaindex_handle footer, tbl_index_block = index_block \<rparr>)
                          (\<lambda>table. Ret (s, Some table))))))"

text \<open>The block of a handle, from the cache or from the file, and what goes into the cache.\<close>

definition Table_read_block :: "Port \<Rightarrow> ReadOptions \<Rightarrow> BlockHandle \<Rightarrow> Table \<Rightarrow>
    (Status \<times> (Block \<times> bool) option) res" where
  "Table_read_block port options handle table =
     res_bind (ReadBlock port (tbl_file table) (ro_verify_checksums options) handle) (\<lambda>(s, contents).
       if Status_ok s then res_bind (new_Block contents) (\<lambda>block. Ret (s, Some (block, cachable contents)))
       else Ret (s, None))"

definition cache_key :: "u64 \<Rightarrow> BlockHandle \<Rightarrow> slice" where
  "cache_key cache_id handle = EncodeFixed64 cache_id @ EncodeFixed64 (bh_offset handle)"

definition Table_find_block :: "Port \<Rightarrow> ReadOptions \<Rightarrow> BlockHandle \<Rightarrow> Table \<Rightarrow>
    (Status \<times> Block option \<times> (slice \<times> Block) option) res" where
  "Table_find_block port options handle table =
     (case opt_block_cache (tbl_options table) of
        None \<Rightarrow> res_bind (Table_read_block port options handle table) (\<lambda>(s, block).
          Ret (s, map_option fst block, None))
      | Some Lookup \<Rightarrow>
          let key = cache_key (tbl_cache_id table) handle
          in (case Lookup key of
                Some block \<Rightarrow> Ret (OK, Some block, None)
              | None \<Rightarrow> res_bind (Table_read_block port options handle table) (\<lambda>(s, block).
                  case block of
                    None \<Rightarrow> Ret (s, None, None)
                  | Some (block, may_cache) \<Rightarrow>
                      Ret (s, Some block, if may_cache \<and> ro_fill_cache options then Some (key, block) else None))))"

definition Table_BlockReader :: "Port \<Rightarrow> Table \<Rightarrow> ReadOptions \<Rightarrow> slice \<Rightarrow>
    (BlockIterator \<times> (slice \<times> Block) option) res" where
  "Table_BlockReader port table options index_value =
     (case BlockHandle_DecodeFrom new_BlockHandle index_value of (s, handle, _) \<Rightarrow>
        res_bind (if Status_ok s then Table_find_block port options handle table else Ret (s, None, None))
          (\<lambda>(s, block, insertion).
             case block of
               Some block \<Rightarrow> res_bind (Block_NewIterator (opt_comparator (tbl_options table)) block) (\<lambda>iter.
                 Ret (iter, insertion))
             | None \<Rightarrow> Ret (Inl (NewErrorIterator s), insertion)))"

text \<open>The block function of the iterator of a table.\<close>

definition table_block_function :: "Port \<Rightarrow> Table \<Rightarrow> ReadOptions \<Rightarrow> BlockIterator BlockFunction" where
  "table_block_function port table options index_value =
     res_bind (Table_BlockReader port table options index_value) (\<lambda>(iter, _). Ret (Some iter))"

type_synonym TableIterator = "(BlockIterator, BlockIterator) TwoLevelIterator"

definition Table_NewIterator :: "Table \<Rightarrow> TableIterator res" where
  "Table_NewIterator this =
     res_bind (Block_NewIterator (opt_comparator (tbl_options this)) (tbl_index_block this)) (\<lambda>iter.
       NewTwoLevelIterator BlockIterators BlockIterators iter)"

definition TableIter :: "nat \<Rightarrow> Port \<Rightarrow> Table \<Rightarrow> ReadOptions \<Rightarrow> TableIterator Iterator" where
  "TableIter fuel port table options =
     TwoLevelIter fuel BlockIterators BlockIterators (table_block_function port table options)"

text \<open>What \<open>InternalGet\<close> hands to \<open>handle_result\<close>, if it calls it, is the second part of the result.\<close>

definition table_block_get :: "Port \<Rightarrow> Table \<Rightarrow> ReadOptions \<Rightarrow> slice \<Rightarrow> slice \<Rightarrow>
    (Status \<times> (slice \<times> slice) option) res" where
  "table_block_get port this options k handle_value =
     res_bind (Table_BlockReader port this options handle_value) (\<lambda>(block_iter, _).
     res_bind (Seek BlockIterators k block_iter) (\<lambda>block_iter.
     res_bind (if Valid BlockIterators block_iter
               then res_bind (ikey BlockIterators block_iter) (\<lambda>key.
                    res_bind (ivalue BlockIterators block_iter) (\<lambda>v. Ret (Some (key, v))))
               else Ret None) (\<lambda>found.
     res_bind (istatus BlockIterators block_iter) (\<lambda>s. Ret (s, found)))))"

definition filter_denies :: "Table \<Rightarrow> slice \<Rightarrow> slice \<Rightarrow> bool res" where
  "filter_denies this k handle_value =
     (case tbl_filter this of
        None \<Rightarrow> Ret False
      | Some reader \<Rightarrow>
          (case BlockHandle_DecodeFrom new_BlockHandle handle_value of (s, handle, _) \<Rightarrow>
             if \<not> Status_ok s then Ret False
             else res_bind (FilterBlock_KeyMayMatch reader (bh_offset handle) k) (\<lambda>may. Ret (\<not> may))))"

definition Table_InternalGet :: "Port \<Rightarrow> Table \<Rightarrow> ReadOptions \<Rightarrow> slice \<Rightarrow>
    (Status \<times> (slice \<times> slice) option) res" where
  "Table_InternalGet port this options k =
     res_bind (Block_NewIterator (opt_comparator (tbl_options this)) (tbl_index_block this)) (\<lambda>iiter.
     res_bind (Seek BlockIterators k iiter) (\<lambda>iiter.
     res_bind (if Valid BlockIterators iiter
               then res_bind (ivalue BlockIterators iiter) (\<lambda>handle_value.
                    res_bind (filter_denies this k handle_value) (\<lambda>denied.
                      if denied then Ret (OK, None) else table_block_get port this options k handle_value))
               else Ret (OK, None)) (\<lambda>(s, found).
     res_bind (istatus BlockIterators iiter) (\<lambda>si. Ret (if Status_ok s then si else s, found)))))"

definition Table_ApproximateOffsetOf :: "Table \<Rightarrow> slice \<Rightarrow> u64 res" where
  "Table_ApproximateOffsetOf this key =
     res_bind (Block_NewIterator (opt_comparator (tbl_options this)) (tbl_index_block this)) (\<lambda>index_iter.
     res_bind (Seek BlockIterators key index_iter) (\<lambda>index_iter.
       if Valid BlockIterators index_iter
       then res_bind (ivalue BlockIterators index_iter) (\<lambda>v.
            case BlockHandle_DecodeFrom new_BlockHandle v of (s, handle, _) \<Rightarrow>
              Ret (if Status_ok s then bh_offset handle else bh_offset (tbl_metaindex_handle this)))
       else Ret (bh_offset (tbl_metaindex_handle this))))"

text \<open>For every comparator the iterator of a table is a cursor in the entries of the blocks of its index.\<close>

sublocale key_comparator \<subseteq> tables: two_level BlockIterators BlockIterators ok lt
    "case_sum (\<lambda>s kvs i. s = NewEmptyIterator \<and> kvs = [] \<and> i = 0) (block_pos C ok lt)"
    "case_sum (\<lambda>s kvs i. s = NewEmptyIterator \<and> kvs = [] \<and> i = 0) (block_pos C ok lt)"
    "table_block_function port table options" fuel
  for port table options fuel
  unfolding BlockIterators_def by unfold_locales

end
