(* ===== verification/LdbTableSpec.thy ===== *)
theory LdbTableSpec
  imports LdbTable LdbLogSpec
begin

text \<open>
  Tables round trip: what \<open>LdbTable\<close> builds from entries in order, it opens and reads back. The first part
  follows the bytes of the file while the builder runs, the second reads them.
\<close>

section \<open>Blocks in a file\<close>

text \<open>The file has these bytes.\<close>

definition reads_bytes :: "RandomAccessFile \<Rightarrow> slice \<Rightarrow> bool" where
  "reads_bytes file bytes \<longleftrightarrow> (\<forall>off n. unat off + unat n \<le> length bytes \<longrightarrow>
     (\<exists>in_buf. file off n = (OK, take (unat n) (drop (unat off) bytes), in_buf)))"

text \<open>Snappy gets back what it compressed; it stores the length in 32 bits.\<close>

definition snappy_ok :: "Port \<Rightarrow> bool" where
  "snappy_ok port \<longleftrightarrow> (\<forall>raw c. Snappy_Compress port raw = Some c \<longrightarrow> length raw < 2 ^ 32 \<and>
     Snappy_GetUncompressedLength port c = Some (length raw) \<and> Snappy_Uncompress port c = Some raw)"

text \<open>Data that reading turns into the raw block.\<close>

definition unpacks :: "Port \<Rightarrow> slice \<Rightarrow> u8 \<Rightarrow> slice \<Rightarrow> bool" where
  "unpacks port data ty raw \<longleftrightarrow> ty = kNoCompression \<and> data = raw \<or>
     ty = kSnappyCompression \<and> length raw < 2 ^ 32 \<and>
     uncompress_block port data = (OK, \<lparr> block_data = raw, cachable = True, heap_allocated = True \<rparr>)"

definition block_held :: "Port \<Rightarrow> slice \<Rightarrow> BlockHandle \<Rightarrow> slice \<Rightarrow> bool" where
  "block_held port bytes h raw \<longleftrightarrow> (\<exists>pre data ty post. bytes = pre @ stored_block data ty @ post \<and>
     bh_offset h = of_nat (length pre) \<and> bh_size h = of_nat (length data) \<and> unpacks port data ty raw)"

lemma block_held_append: "block_held port bytes h raw \<Longrightarrow> block_held port (bytes @ tail) h raw"
  unfolding block_held_def by (metis append.assoc)

lemma length_stored_block [simp]: "length (stored_block data ty) = length data + 5"
  by (simp add: stored_block_def)

lemma unpacks_compress:
  assumes "snappy_ok port" "ty = kNoCompression \<or> ty = kSnappyCompression" "compress_block port ty raw = (data, ty')"
  shows "unpacks port data ty' raw"
proof (cases "ty = kNoCompression \<or> Snappy_Compress port raw = None")
  case True
  then show ?thesis using assms(2,3)
    by (auto simp: compress_block_def unpacks_def kNoCompression_def kSnappyCompression_def)
next
  case False
  then obtain c where c: "Snappy_Compress port raw = Some c" "ty = kSnappyCompression" "ty \<noteq> kNoCompression"
    using assms(2) by auto
  then have "uncompress_block port c = (OK, \<lparr> block_data = raw, cachable = True, heap_allocated =
    True \<rparr>)" "length raw < 2 ^ 32"
    using assms(1) by (simp_all add: snappy_ok_def uncompress_block_def)
  then show ?thesis using assms(3) c by (auto simp: compress_block_def unpacks_def split: if_splits)
qed

lemma ReadBlock_held:
  assumes "accelerated_ok (AcceleratedCRC32C port)" "reads_bytes file bytes" "length bytes < 2 ^ 64"
    and held: "block_held port bytes h raw"
  shows "\<exists>b c. ReadBlock port file verify h = Ret (OK, \<lparr> block_data = raw, cachable = b, heap_allocated = c \<rparr>)"
    and "length bytes < 2 ^ 32 \<Longrightarrow> length raw < 2 ^ 32"
proof -
  obtain pre data ty post where b: "bytes = pre @ stored_block data ty @ post" "bh_offset h = of_nat (length pre)"
      "bh_size h = of_nat (length data)" "unpacks port data ty raw"
    using held by (auto simp: block_held_def)
  have len: "length pre + length data + 5 < 2 ^ 64" using assms(3) b(1) by simp
  have u: "unat (bh_offset h) = length pre" "unat (bh_size h) = length data"
    "unat (bh_size h + kBlockTrailerSize) = length data + 5"
    using len b(2,3)
      by (simp_all add: unat_of_nat_u64 kBlockTrailerSize_def unat_word_ariths take_bit_nat_eq_self unat_of_nat)
  have "take (length data + 5) (drop (length pre) bytes) = stored_block data ty" using b(1) by simp
  moreover have "unat (bh_offset h) + unat (bh_size h + kBlockTrailerSize) \<le> length bytes" using b(1) u by simp
  then have "\<exists>in_buf. file (bh_offset h) (bh_size h + kBlockTrailerSize) =
      (OK, take (length data + 5) (drop (length pre) bytes), in_buf)"
    using assms(2) u unfolding reads_bytes_def by metis
  ultimately have fh: "file_holds file h (data @ [ty] @ EncodeFixed32 (Mask (crc32c 0 (data @ [ty]))))"
    by (simp add: file_holds_def stored_block_def)
  have "length data + 5 < 2 ^ 64" using len by simp
  from ReadBlock_stored [OF assms(1) u(2) this fh]
  show "\<exists>b c. ReadBlock port file verify h = Ret (OK, \<lparr> block_data = raw, cachable = b, heap_allocated = c \<rparr>)"
    using b(4) by (auto simp: unpacks_def Let_def kNoCompression_def kSnappyCompression_def)
  show "length bytes < 2 ^ 32 \<Longrightarrow> length raw < 2 ^ 32" using b(1,4) by (auto simp: unpacks_def)
qed

section \<open>Writing blocks\<close>

lemma Status_ok_iff: "Status_ok s \<longleftrightarrow> s = OK"
  by (cases s) simp_all

lemma WriteRawBlock_stores:
  assumes "accelerated_ok (AcceleratedCRC32C port)" "appends F written" "tb_status this = OK"
  shows "\<exists>w. WriteRawBlock port F data ty this = Ret
      (\<lparr> bh_offset = tb_offset this, bh_size = of_nat (length data) \<rparr>,
       this \<lparr> tb_file := w, tb_offset := tb_offset this + of_nat (length data + 5) \<rparr>) \<and>
    written w = written (tb_file this) @ stored_block data ty"
proof -
  have app: "\<exists>w'. Writable_Append F d w = (OK, w') \<and> written w' = written w @ d" for d w
    using assms(2) unfolding appends_def by (metis Status_ok_iff fst_conv snd_conv surj_pair)
  obtain w1 where w1: "Writable_Append F data (tb_file this) = (OK, w1)" "written w1 = written (tb_file this) @ data"
    using app by blast
  let ?crc = "crc32c 0 (data @ [ty])"
  obtain w2 where w2: "Writable_Append F ([ty] @ EncodeFixed32 (Mask ?crc)) w1 = (OK, w2)"
      "written w2 = written w1 @ [ty] @ EncodeFixed32 (Mask ?crc)"
    using app by blast
  have crc: "crc32c (crc32c 0 data) [ty] = ?crc" by (simp add: crc32c_def crc_register_append)
  have "WriteRawBlock port F data ty this = Ret
      (\<lparr> bh_offset = tb_offset this, bh_size = of_nat (length data) \<rparr>,
       this \<lparr> tb_file := w2, tb_offset := tb_offset this + of_nat (length data + 5) \<rparr>)"
    using w1(1) w2(1) assms(3) Extend_crc32c [OF assms(1)]
    by (simp add: WriteRawBlock_def tb_append_def tb_ok_def Value_def crc kBlockTrailerSize_def Let_def)
  then show ?thesis using w1(2) w2(2) by (intro exI [of _ w2]) (simp add: stored_block_def)
qed

lemma fold_Add_interval:
  "bb_interval (fold (\<lambda>(k, v). BlockBuilder_Add k v) kvs b) = bb_interval b"
  by (induction kvs arbitrary: b) (auto simp: BlockBuilder_Add_def Let_def)

text \<open>The builder of the entries.\<close>

definition filled_builder :: "int \<Rightarrow> (slice \<times> slice) list \<Rightarrow> BlockBuilder" where
  "filled_builder interval kvs = fold (\<lambda>(k, v). BlockBuilder_Add k v) kvs (new_BlockBuilder interval)"

lemma filled_builder_simps:
  "filled_builder interval [] = new_BlockBuilder interval"
  "BlockBuilder_Add k v (filled_builder interval kvs) = filled_builder interval (kvs @ [(k, v)])"
  "fst (BlockBuilder_Finish (filled_builder interval kvs)) = build_block interval kvs"
  "BlockBuilder_Reset (snd (BlockBuilder_Finish (filled_builder interval kvs))) = new_BlockBuilder interval"
  "bb_interval (filled_builder interval kvs) = interval"
proof -
  show i: "bb_interval (filled_builder interval kvs) = interval"
    by (simp add: filled_builder_def fold_Add_interval new_BlockBuilder_def)
  show "BlockBuilder_Reset (snd (BlockBuilder_Finish (filled_builder interval kvs))) = new_BlockBuilder interval"
    using i by (simp add: BlockBuilder_Reset_def BlockBuilder_Finish_def new_BlockBuilder_def Let_def)
qed (simp_all add: filled_builder_def build_block_def)

lemma filled_builder_empty:
  assumes "1 \<le> interval"
  shows "BlockBuilder_empty (filled_builder interval kvs) \<longleftrightarrow> kvs = []"
proof -
  obtain es rs where h: "builder_holds es rs (filled_builder interval kvs)" "map snd es = kvs"
    using fold_Add_holds [OF new_builder_holds [OF assms], of kvs] by (auto simp: filled_builder_def)
  have "bb_buffer (filled_builder interval kvs) = entries_bytes es" using h(1) by (simp add: builder_holds_def)
  then have "BlockBuilder_empty (filled_builder interval kvs) \<longleftrightarrow> entries_bytes es = []"
    by (simp add: BlockBuilder_empty_def)
  also have "\<dots> \<longleftrightarrow> es = []"
    using entry_bytes_pos [of "hd es"] by (cases es) (auto simp: entries_bytes_def)
  finally show ?thesis using h(2) by auto
qed

lemma WriteBlock_stores:
  assumes "accelerated_ok (AcceleratedCRC32C port)" "appends F written" "snappy_ok port"
    and "opt_compression (tb_options this) = kNoCompression \<or> opt_compression (tb_options this) = kSnappyCompression"
    and "tb_status this = OK" "tb_offset this = of_nat (length (written (tb_file this)))"
  shows "\<exists>handle w. WriteBlock port F (filled_builder interval kvs) this = Ret (handle, new_BlockBuilder interval,
       this \<lparr> tb_file := w, tb_offset := of_nat (length (written w)) \<rparr>) \<and>
    bh_offset handle = tb_offset this \<and> (\<exists>tail. written w = written (tb_file this) @ tail) \<and>
    block_held port (written w) handle (build_block interval kvs)"
proof -
  obtain data ty where c: "compress_block port (opt_compression (tb_options this)) (build_block interval kvs) =
    (data, ty)"
    by (cases "compress_block port (opt_compression (tb_options this)) (build_block interval kvs)")
  obtain w where w: "WriteRawBlock port F data ty this = Ret
      (\<lparr> bh_offset = tb_offset this, bh_size = of_nat (length data) \<rparr>,
       this \<lparr> tb_file := w, tb_offset := tb_offset this + of_nat (length data + 5) \<rparr>)"
      "written w = written (tb_file this) @ stored_block data ty"
    using WriteRawBlock_stores [OF assms(1,2,5)] by blast
  have off: "tb_offset this + of_nat (length data + 5) = of_nat (length (written w))" using w(2) assms(6) by simp
  have "block_held port (written w) \<lparr> bh_offset = tb_offset this, bh_size =
    of_nat (length data) \<rparr> (build_block interval kvs)"
    unfolding block_held_def using w(2) assms(6) unpacks_compress [OF assms(3,4) c] by fastforce
  moreover have "WriteBlock port F (filled_builder interval kvs) this = Ret
      (\<lparr> bh_offset = tb_offset this, bh_size = of_nat (length data) \<rparr>, new_BlockBuilder interval,
       this \<lparr> tb_file := w, tb_offset := of_nat (length (written w)) \<rparr>)"
    using w(1) c off filled_builder_simps(3,4) [of interval kvs]
    by (simp add: WriteBlock_def case_prod_beta' Let_def)
  ultimately show ?thesis using w(2)
    by (intro exI [of _ "\<lparr> bh_offset = tb_offset this, bh_size = of_nat (length data) \<rparr>"] exI [of _ w]) simp
qed

section \<open>What the builder has written\<close>

text \<open>A block of the table: the key of its index entry, its handle, its entries.\<close>

type_synonym table_block = "slice \<times> BlockHandle \<times> (slice \<times> slice) list"

definition index_entries :: "table_block list \<Rightarrow> (slice \<times> slice) list" where
  "index_entries blocks = map (\<lambda>(k, h, _). (k, BlockHandle_EncodeTo h [])) blocks"

definition block_entries :: "table_block list \<Rightarrow> (slice \<times> slice) list" where
  "block_entries blocks = concat (map (snd \<circ> snd) blocks)"

text \<open>The index keys separate the blocks from one another and from the entries that follow. An index key with
  entries behind it is what the comparator makes of the two keys around it.\<close>

fun separated :: "Comparator \<Rightarrow> (slice \<Rightarrow> bool) \<Rightarrow> (slice \<Rightarrow> slice \<Rightarrow> bool) \<Rightarrow> table_block list \<Rightarrow> (slice \<times> slice) list \<Rightarrow> bool" where
  "separated c ok lt [] rest \<longleftrightarrow> True"
| "separated c ok lt ((k, h, kvs) # blocks) rest \<longleftrightarrow>
     ok k \<and> (\<forall>kv \<in> set kvs. fst kv = k \<or> lt (fst kv) k) \<and> (\<forall>kv \<in> set (block_entries blocks @ rest). lt k (fst kv)) \<and>
     (block_entries blocks @ rest \<noteq> [] \<longrightarrow>
        FindShortestSeparator c (fst (last kvs)) (fst (hd (block_entries blocks @ rest))) = Ret k) \<and>
     separated c ok lt blocks rest"

definition pending_entries :: "(BlockHandle \<times> (slice \<times> slice) list) option \<Rightarrow> (slice \<times> slice) list" where
  "pending_entries pend = (case pend of None \<Rightarrow> [] | Some (_, kvs) \<Rightarrow> kvs)"

definition blocks_held :: "Port \<Rightarrow> int \<Rightarrow> slice \<Rightarrow> table_block list \<Rightarrow> bool" where
  "blocks_held port interval bytes blocks \<longleftrightarrow>
     (\<forall>(k, h, kvs) \<in> set blocks. kvs \<noteq> [] \<and> block_held port bytes h (build_block interval kvs))"

text \<open>No two blocks start at the same offset, while the file is so short that the offsets do not wrap around.\<close>

definition offsets_apart :: "slice \<Rightarrow> table_block list \<Rightarrow> bool" where
  "offsets_apart bytes blocks \<longleftrightarrow> (length bytes < 2 ^ 64 \<longrightarrow> distinct (map (\<lambda>(_, h, _). bh_offset h) blocks))"

lemma offsets_apart_append: "offsets_apart bytes blocks \<Longrightarrow> offsets_apart (bytes @ tail) blocks"
  by (simp add: offsets_apart_def)

lemma offsets_apart_snoc:
  assumes "blocks_held port interval bytes blocks" "offsets_apart bytes blocks" "bh_offset h = of_nat (length bytes)"
  shows "offsets_apart (bytes @ tail) (blocks @ [(k, h, kvs)])"
proof -
  have "bh_offset h' \<noteq> bh_offset h"
    if len: "length bytes < 2 ^ 64" and b: "(k', h', kvs') \<in> set blocks" for k' h' kvs'
  proof -
    obtain pre data ty post where "bytes = pre @ stored_block data ty @ post" "bh_offset h' = of_nat (length pre)"
      using assms(1) b by (auto simp: blocks_held_def block_held_def)
    then have "unat (bh_offset h') < length bytes" using len unat_of_nat_u64 [of "length pre"] by simp
    moreover have "unat (bh_offset h) = length bytes" using assms(3) unat_of_nat_u64 [OF len] by simp
    ultimately show ?thesis by auto
  qed
  then show ?thesis using assms(2) by (force simp: offsets_apart_def)
qed

text \<open>The filter builder has the keys of the finished blocks under the offsets of their handles, and the keys of
  the current block under the offset at which it will be written. While the file is shorter than \<open>2 ^ 64\<close>, the
  offsets do not wrap around.\<close>

definition keys_at :: "BlockHandle \<Rightarrow> (slice \<times> slice) list \<Rightarrow> (nat \<times> slice) set" where
  "keys_at h kvs = {filter_index (bh_offset h)} \<times> fst ` set kvs"

definition table_keys :: "table_block list \<Rightarrow> (nat \<times> slice) set" where
  "table_keys blocks = (\<Union>(k, h, kvs) \<in> set blocks. keys_at h kvs)"

definition filter_holds :: "(slice \<Rightarrow> bool) \<Rightarrow> FilterPolicy option \<Rightarrow> (nat \<times> slice) set \<Rightarrow> nat \<Rightarrow> nat \<Rightarrow>
    FilterBlockBuilder option \<Rightarrow> bool" where
  "filter_holds ok policy added num len fb \<longleftrightarrow>
     (case policy of
        None \<Rightarrow> fb = None
      | Some F \<Rightarrow> \<exists>b filters pending added'. fb = Some b \<and> fb_holds F added' b filters pending \<and> list_all ok pending \<and>
          length pending \<le> num \<and>
          (len < 2 ^ 64 \<longrightarrow> added' = added \<and> length filters = filter_index (of_nat len)))"

definition table_holds :: "Port \<Rightarrow> (slice \<Rightarrow> bool) \<Rightarrow> (slice \<Rightarrow> slice \<Rightarrow> bool) \<Rightarrow> Options \<Rightarrow> slice \<Rightarrow> table_block list \<Rightarrow>
    (BlockHandle \<times> (slice \<times> slice) list) option \<Rightarrow> (slice \<times> slice) list \<Rightarrow> 'w TableBuilder \<Rightarrow> bool" where
  "table_holds port ok lt opts bytes blocks pend cur this \<longleftrightarrow>
     tb_status this = OK \<and> tb_options this = opts \<and> tb_offset this = of_nat (length bytes) \<and>
     tb_data_block this = filled_builder (opt_block_restart_interval opts) cur \<and>
     tb_index_block this = filled_builder 1 (index_entries blocks) \<and>
     blocks_held port (opt_block_restart_interval opts) bytes blocks \<and>
     tb_pending_index_entry this = (pend \<noteq> None) \<and>
     (\<forall>h kvs. pend = Some (h, kvs) \<longrightarrow> cur = [] \<and> tb_pending_handle this = h \<and>
        blocks_held port (opt_block_restart_interval opts) bytes [([], h, kvs)]) \<and>
     (let rest = pending_entries pend @ cur
      in separated (opt_comparator opts) ok lt blocks rest \<and> sorted_keys ok lt (block_entries blocks @ rest) \<and>
         (rest = [] \<longrightarrow> blocks = []) \<and> (rest \<noteq> [] \<longrightarrow> tb_last_key this = fst (last rest))) \<and>
     filter_holds ok (opt_filter_policy opts)
       (table_keys (blocks @ (case pend of None \<Rightarrow> [] | Some (h, kvs) \<Rightarrow> [([], h, kvs)])) \<union>
        keys_at \<lparr> bh_offset = of_nat (length bytes), bh_size = 0 \<rparr> cur)
       (length (block_entries blocks @ pending_entries pend @ cur)) (length bytes) (tb_filter_block this) \<and>
     offsets_apart bytes (blocks @ (case pend of None \<Rightarrow> [] | Some (h, kvs) \<Rightarrow> [([], h, kvs)]))"

section \<open>The steps of the filter builder\<close>

definition policy_ok :: "(slice \<Rightarrow> bool) \<Rightarrow> FilterPolicy option \<Rightarrow> bool" where
  "policy_ok ok policy \<longleftrightarrow> (case policy of None \<Rightarrow> True | Some F \<Rightarrow> filter_policy F ok (\<lambda>n. n < 2 ^ 31))"

lemma filter_index_mono: "m \<le> n \<Longrightarrow> n < 2 ^ 64 \<Longrightarrow> filter_index (of_nat m) \<le> filter_index (of_nat n)"
  by (simp add: filter_index_def unat_of_nat_u64 div_le_mono)

lemma generate_filters_any:
  assumes "filter_policy F ok (\<lambda>n. n < 2 ^ 31)" "fb_holds F added b filters pending" "list_all ok pending"
    and "length pending < 2 ^ 31"
  shows "\<exists>b' filters' pending'. generate_filters n b = Ret b' \<and> fb_holds F added b' filters' pending' \<and>
    (length filters \<le> n \<longrightarrow> length filters' = n) \<and> (pending' = pending \<or> pending' = [])"
proof (cases "length filters \<le> n")
  case True
  then show ?thesis
    using filter_policy.generate_filters_holds [OF assms(1,2) True assms(3,4)] assms(4) by fastforce
next
  case False
  then have "generate_filters n b = Ret b" using assms(2) by (subst generate_filters.simps) (simp add: fb_holds_def)
  then show ?thesis using assms(2) False by auto
qed

lemma on_filter_None: "tb_filter_block this = None \<Longrightarrow> on_filter call this = Ret (this \<lparr> tb_filter_block := None \<rparr>)"
  by (cases this) (simp add: on_filter_def)

lemma on_filter_StartBlock:
  assumes holds: "filter_holds ok policy added num len (tb_filter_block this)" and policy: "policy_ok ok policy"
    and num: "num < 2 ^ 31" and len: "len \<le> len'"
  shows "\<exists>fb. on_filter (FilterBlock_StartBlock (of_nat len')) this = Ret (this \<lparr> tb_filter_block := fb \<rparr>) \<and>
    filter_holds ok policy added num len' fb"
proof (cases policy)
  case None
  then show ?thesis using holds on_filter_None [of this] by (simp add: filter_holds_def)
next
  case (Some F)
  obtain b filters pending added' where b: "tb_filter_block this = Some b" "fb_holds F added' b filters pending"
      "list_all ok pending" "length pending \<le> num"
      "len < 2 ^ 64 \<longrightarrow> added' = added \<and> length filters = filter_index (of_nat len)"
    using holds Some by (auto simp: filter_holds_def)
  have F: "filter_policy F ok (\<lambda>n. n < 2 ^ 31)" using policy Some by (simp add: policy_ok_def)
  obtain b' filters' pending' where b': "generate_filters (filter_index (of_nat len')) b = Ret b'"
      "fb_holds F added' b' filters' pending'"
      "length filters \<le> filter_index (of_nat len') \<longrightarrow> length filters' = filter_index (of_nat len')"
      "pending' = pending \<or> pending' = []"
    using generate_filters_any [OF F b(2,3)] b(4) num by (meson le_less_trans)
  have "len' < 2 ^ 64 \<longrightarrow> added' = added \<and> length filters' = filter_index (of_nat len')"
    using b(5) b'(3) filter_index_mono [OF len] len by auto
  then have "filter_holds ok policy added num len' (Some b')"
    unfolding filter_holds_def Some option.case using b(3,4) b'(2,4)
    by (intro exI [of _ b'] exI [of _ filters'] exI [of _ pending'] exI [of _ added']) auto
  then show ?thesis
    using b(1) b'(1) by (auto simp: on_filter_def FilterBlock_StartBlock_def unat_kFilterBase)
qed

lemma on_filter_AddKey:
  assumes holds: "filter_holds ok policy added num len (tb_filter_block this)" and key: "ok key"
  shows "\<exists>fb. on_filter (\<lambda>fb. Ret (FilterBlock_AddKey key fb)) this = Ret (this \<lparr> tb_filter_block := fb \<rparr>) \<and>
    filter_holds ok policy (insert (filter_index (of_nat len), key) added) (Suc num) len fb"
proof (cases policy)
  case None
  then show ?thesis using holds on_filter_None [of this] by (simp add: filter_holds_def)
next
  case (Some F)
  obtain b filters pending added' where b: "tb_filter_block this = Some b" "fb_holds F added' b filters pending"
      "list_all ok pending" "length pending \<le> num"
      "len < 2 ^ 64 \<longrightarrow> added' = added \<and> length filters = filter_index (of_nat len)"
    using holds Some by (auto simp: filter_holds_def)
  have "filter_holds ok policy (insert (filter_index (of_nat len), key) added) (Suc num) len (Some (FilterBlock_AddKey key b))"
    unfolding filter_holds_def Some option.case
    using fb_holds_AddKey [OF b(2), of key] b(3-5) key
    by (intro exI [of _ "FilterBlock_AddKey key b"] exI [of _ filters] exI [of _ "pending @ [key]"]
        exI [of _ "insert (length filters, key) added'"]) auto
  then show ?thesis using b(1) by (auto simp: on_filter_def)
qed

section \<open>Keys in order\<close>

lemma block_entries_simps [simp]:
  "block_entries [] = []" "block_entries ((k, h, kvs) # blocks) = kvs @ block_entries blocks"
  "block_entries (blocks @ blocks') = block_entries blocks @ block_entries blocks'"
  by (simp_all add: block_entries_def)

lemma separated_snoc:
  "separated c ok lt (blocks @ [(k, h, kvs)]) rest \<longleftrightarrow> separated c ok lt blocks (kvs @ rest) \<and> ok k \<and>
     (\<forall>kv \<in> set kvs. fst kv = k \<or> lt (fst kv) k) \<and> (\<forall>kv \<in> set rest. lt k (fst kv)) \<and>
     (rest \<noteq> [] \<longrightarrow> FindShortestSeparator c (fst (last kvs)) (fst (hd rest)) = Ret k)"
  by (induction blocks) auto

context key_comparator
begin

lemma sorted_keys_snoc:
  assumes "sorted_keys ok lt kvs" "ok key" "kvs \<noteq> [] \<Longrightarrow> lt (fst (last kvs)) key"
  shows "sorted_keys ok lt (kvs @ [(key, val)])"
proof -
  have "lt (fst kv) key" if kv: "kv \<in> set kvs" for kv
  proof -
    have ne: "kvs \<noteq> []" using kv by auto
    have okk: "ok (fst kv)" "ok (fst (last kvs))"
      using assms(1) kv last_in_set [OF ne] by (auto simp: sorted_keys_def list_all_iff)
    have "kv = last kvs \<or> lt (fst kv) (fst (last kvs))"
    proof (cases "kv = last kvs")
      case False
      then have "kv \<in> set (butlast kvs)" using kv ne
        by (metis append_butlast_last_id rotate1.simps(2) set_ConsD set_rotate1)
      moreover have "sorted_wrt lt (map fst (butlast kvs @ [last kvs]))" using assms(1) ne
        by (simp add: sorted_keys_def)
      ultimately show ?thesis by (auto simp: sorted_wrt_append)
    qed simp
    then show ?thesis using trans [OF okk assms(2)] assms(3) [OF ne] by auto
  qed
  then show ?thesis using assms(1,2) by (auto simp: sorted_keys_def sorted_wrt_append)
qed

lemma separated_more:
  assumes "separated c ok lt blocks rest" "sorted_keys ok lt (block_entries blocks @ rest)" "ok key"
    and "rest \<noteq> [] \<Longrightarrow> lt (fst (last rest)) key" "rest = [] \<Longrightarrow> blocks = []"
  shows "separated c ok lt blocks (rest @ [(key, val)])"
  using assms
proof (induction blocks)
  case (Cons b blocks)
  obtain k h kvs where b: "b = (k, h, kvs)" by (metis prod.exhaust)
  have ne: "rest \<noteq> []" using Cons.prems(5) by auto
  then have last: "last rest \<in> set rest" by simp
  then have "lt k (fst (last rest))" "ok k" using Cons.prems(1) b by auto
  moreover have "ok (fst (last rest))" using Cons.prems(2) last by (auto simp: sorted_keys_def list_all_iff)
  ultimately have "lt k key" using trans [of k "fst (last rest)" key] Cons.prems(3,4) ne by blast
  moreover have "sorted_keys ok lt (block_entries blocks @ rest)"
    using Cons.prems(2) b by (auto simp: sorted_keys_def sorted_wrt_append)
  then have "separated c ok lt blocks (rest @ [(key, val)])" using Cons ne b by (intro Cons.IH) auto
  moreover have "hd (block_entries blocks @ rest @ [(key, val)]) = hd (block_entries blocks @ rest)"
    using ne by (simp add: hd_append)
  ultimately show ?case using Cons.prems(1) b ne by auto
qed simp

end

section \<open>The steps of the table builder\<close>

text \<open>What all steps assume: the port, the file and the options.\<close>

definition setting_ok :: "Port \<Rightarrow> 'w WritableFile \<Rightarrow> ('w \<Rightarrow> slice) \<Rightarrow> (slice \<Rightarrow> bool) \<Rightarrow> Comparator \<Rightarrow> Options \<Rightarrow> bool" where
  "setting_ok port F written ok c opts \<longleftrightarrow>
     accelerated_ok (AcceleratedCRC32C port) \<and> appends F written \<and> snappy_ok port \<and>
     (opt_compression opts = kNoCompression \<or> opt_compression opts = kSnappyCompression) \<and>
     1 \<le> opt_block_restart_interval opts \<and> opt_comparator opts = c \<and> policy_ok ok (opt_filter_policy opts)"

lemma blocks_held_append: "blocks_held port interval bytes blocks \<Longrightarrow> blocks_held port interval (bytes @ tail) blocks"
  by (auto simp: blocks_held_def intro: block_held_append)

lemma new_TableBuilder_holds:
  assumes "policy_ok ok (opt_filter_policy opts)" "written w = []"
  shows "\<exists>this. new_TableBuilder opts w = Ret this \<and> tb_file this = w \<and>
    table_holds port ok lt opts (written (tb_file this)) [] None [] this"
proof -
  let ?tb = "\<lparr> tb_options = opts, tb_file = w, tb_offset = 0, tb_status = OK,
         tb_data_block = new_BlockBuilder (opt_block_restart_interval opts), tb_index_block = new_BlockBuilder 1,
         tb_last_key = [], tb_num_entries = 0, tb_closed = False,
         tb_filter_block = map_option new_FilterBlockBuilder (opt_filter_policy opts),
         tb_pending_index_entry = False, tb_pending_handle = new_BlockHandle \<rparr>"
  have "filter_holds ok (opt_filter_policy opts) {} 0 0 (tb_filter_block ?tb)"
    using fb_holds_new by (fastforce simp: filter_holds_def filter_index_def split: option.splits)
  then obtain fb where fb: "on_filter (FilterBlock_StartBlock (of_nat 0)) ?tb = Ret (?tb \<lparr> tb_filter_block := fb \<rparr>)"
      "filter_holds ok (opt_filter_policy opts) {} 0 0 fb"
    using on_filter_StartBlock [OF _ assms(1), of "{}" 0 0 ?tb 0] by auto
  then have "new_TableBuilder opts w = Ret (?tb \<lparr> tb_filter_block := fb \<rparr>)" by (simp add: new_TableBuilder_def)
  moreover have "table_holds port ok lt opts [] [] None [] (?tb \<lparr> tb_filter_block := fb \<rparr>)"
    using fb(2) by (simp add: table_holds_def filled_builder_simps index_entries_def blocks_held_def pending_entries_def
        sorted_keys_def table_keys_def keys_at_def offsets_apart_def)
  ultimately show ?thesis using assms(2) by simp
qed

lemma table_keys_append: "table_keys (blocks @ blocks') = table_keys blocks \<union> table_keys blocks'"
  by (simp add: table_keys_def)

lemma table_keys_one: "table_keys [(k, h, kvs)] = keys_at h kvs"
  by (simp add: table_keys_def)

lemma keys_at_offset: "bh_offset h = bh_offset h' \<Longrightarrow> keys_at h kvs = keys_at h' kvs"
  by (simp add: keys_at_def)

lemma Flush_holds:
  assumes setting: "setting_ok port F written ok c opts"
    and holds: "table_holds port ok lt opts (written (tb_file this)) blocks None cur this" and cur: "cur \<noteq> []"
    and num: "length (block_entries blocks @ cur) < 2 ^ 31"
  shows "\<exists>this' h tail. TableBuilder_Flush port F this = Ret this' \<and>
    written (tb_file this') = written (tb_file this) @ tail \<and>
    table_holds port ok lt opts (written (tb_file this')) blocks (Some (h, cur)) [] this'"
proof -
  let ?iv = "opt_block_restart_interval opts" and ?len = "length (written (tb_file this))"
  have h: "tb_status this = OK" "tb_options this = opts" "tb_offset this = of_nat ?len"
    "tb_data_block this = filled_builder ?iv cur"
    using holds by (simp_all add: table_holds_def)
  obtain handle w tail where w: "WriteBlock port F (filled_builder ?iv cur) this = Ret (handle, new_BlockBuilder ?iv,
       this \<lparr> tb_file := w, tb_offset := of_nat (length (written w)) \<rparr>)"
      "bh_offset handle = tb_offset this" "written w = written (tb_file this) @ tail"
      "block_held port (written w) handle (build_block ?iv cur)"
    using WriteBlock_stores [of port F written this ?iv cur] setting h by (auto simp: setting_ok_def)
  obtain w' where w': "Writable_Flush F w = (OK, w')" "written w' = written w"
    using setting by (metis setting_ok_def appends_def)
  let ?tb = "this \<lparr> tb_offset := of_nat (length (written w)), tb_pending_handle := handle,
      tb_data_block := new_BlockBuilder ?iv, tb_pending_index_entry := True, tb_status := OK, tb_file := w' \<rparr>"
  have f0: "filter_holds ok (opt_filter_policy opts) (table_keys (blocks @ [([], handle, cur)]))
      (length (block_entries blocks @ cur)) ?len (tb_filter_block ?tb)"
    using holds w(2) h(3) keys_at_offset [of handle "\<lparr> bh_offset = of_nat ?len, bh_size = 0 \<rparr>" cur]
    by (simp add: table_holds_def pending_entries_def table_keys_append table_keys_one)
  have "policy_ok ok (opt_filter_policy opts)" "?len \<le> length (written w)" using setting w(3)
    by (simp_all add: setting_ok_def)
  from on_filter_StartBlock [OF f0 this(1) num this(2)]
  obtain fb where fb: "on_filter (FilterBlock_StartBlock (of_nat (length (written w)))) ?tb =
      Ret (?tb \<lparr> tb_filter_block := fb \<rparr>)"
      "filter_holds ok (opt_filter_policy opts) (table_keys (blocks @ [([], handle, cur)]))
        (length (block_entries blocks @ cur)) (length (written w)) fb"
    by blast
  have "\<not> BlockBuilder_empty (tb_data_block this)"
    using filled_builder_empty [of ?iv cur] cur setting h(4) by (simp add: setting_ok_def)
  then have "TableBuilder_Flush port F this = Ret (?tb \<lparr> tb_filter_block := fb \<rparr>)"
    using h w(1) w'(1) fb(1) by (simp add: TableBuilder_Flush_def tb_ok_def Let_def)
  moreover have "offsets_apart (written w') (blocks @ [([], handle, cur)])"
    using offsets_apart_snoc [of port ?iv "written (tb_file this)" blocks handle tail "[]" cur] holds w(2,3) w'(2) h(3)
    by (simp add: table_holds_def)
  then have "table_holds port ok lt opts (written w') blocks (Some (handle, cur)) [] (?tb \<lparr> tb_filter_block := fb \<rparr>)"
    using holds fb(2) w(3,4) w'(2) cur blocks_held_append [of port ?iv "written (tb_file this)" blocks tail]
    by (simp add: table_holds_def pending_entries_def filled_builder_simps blocks_held_def keys_at_def)
  ultimately show ?thesis using w(3) w'(2) by auto
qed

text \<open>The entries that were added.\<close>

definition all_entries :: "table_block list \<Rightarrow> (BlockHandle \<times> (slice \<times> slice) list) option \<Rightarrow> (slice \<times> slice) list \<Rightarrow>
    (slice \<times> slice) list" where
  "all_entries blocks pend cur = block_entries blocks @ pending_entries pend @ cur"

text \<open>The builder after the index entry of the finished block was added.\<close>

definition between_blocks :: "Port \<Rightarrow> (slice \<Rightarrow> bool) \<Rightarrow> (slice \<Rightarrow> slice \<Rightarrow> bool) \<Rightarrow> Options \<Rightarrow> slice \<Rightarrow> table_block list \<Rightarrow>
    (slice \<times> slice) list \<Rightarrow> (slice \<times> slice) list \<Rightarrow> 'w TableBuilder \<Rightarrow> bool" where
  "between_blocks port ok lt opts bytes blocks cur rest this \<longleftrightarrow>
     tb_status this = OK \<and> tb_options this = opts \<and> tb_offset this = of_nat (length bytes) \<and>
     tb_data_block this = filled_builder (opt_block_restart_interval opts) cur \<and>
     tb_index_block this = filled_builder 1 (index_entries blocks) \<and>
     blocks_held port (opt_block_restart_interval opts) bytes blocks \<and> \<not> tb_pending_index_entry this \<and>
     separated (opt_comparator opts) ok lt blocks rest \<and>
     filter_holds ok (opt_filter_policy opts)
       (table_keys blocks \<union> keys_at \<lparr> bh_offset = of_nat (length bytes), bh_size = 0 \<rparr> cur)
       (length (block_entries blocks @ cur)) (length bytes) (tb_filter_block this) \<and> offsets_apart bytes blocks"

lemma offsets_apart_key: "offsets_apart bytes (blocks @ [(k, h, kvs)]) \<longleftrightarrow> offsets_apart bytes (blocks @ [(k', h, kvs)])"
  by (simp add: offsets_apart_def)

lemma index_entries_snoc:
  "index_entries (blocks @ [(k, h, kvs)]) = index_entries blocks @ [(k, BlockHandle_EncodeTo h [])]"
  by (simp add: index_entries_def)

lemma blocks_held_snoc:
  "blocks_held port interval bytes (blocks @ [(k, h, kvs)]) \<longleftrightarrow>
     blocks_held port interval bytes blocks \<and> blocks_held port interval bytes [([], h, kvs)]"
  by (auto simp: blocks_held_def)

context key_comparator
begin

lemma last_entry:
  assumes "sorted_keys ok lt kvs" "kv \<in> set kvs"
  shows "fst kv = fst (last kvs) \<or> lt (fst kv) (fst (last kvs))"
proof -
  have ne: "kvs \<noteq> []" using assms(2) by auto
  then have "sorted_wrt lt (map fst (butlast kvs @ [last kvs]))" using assms(1) by (simp add: sorted_keys_def)
  moreover have "kv \<in> set (butlast kvs @ [last kvs])" using assms(2) ne by simp
  ultimately show ?thesis by (auto simp: sorted_wrt_append)
qed

lemma index_key:
  assumes sorted: "sorted_keys ok lt (block_entries blocks @ kvs)" and ne: "kvs \<noteq> []"
    and shorten: "\<And>a. ok a \<Longrightarrow> (\<forall>kv \<in> set rest. lt a (fst kv)) \<Longrightarrow>
      \<exists>s. shorten a = Ret s \<and> ok s \<and> (s = a \<or> lt a s) \<and> (\<forall>kv \<in> set rest. lt s (fst kv))"
    and first: "\<And>a. rest \<noteq> [] \<Longrightarrow> shorten a = FindShortestSeparator C a (fst (hd rest))"
    and rest: "\<forall>kv \<in> set rest. lt (fst (last kvs)) (fst kv)" "separated C ok lt blocks (kvs @ rest)"
  shows "\<exists>s. shorten (fst (last kvs)) = Ret s \<and> separated C ok lt (blocks @ [(s, h, kvs)]) rest"
proof -
  have skvs: "sorted_keys ok lt kvs" and oklast: "ok (fst (last kvs))"
    using sorted last_in_set [OF ne] by (auto simp: sorted_keys_def sorted_wrt_append list_all_iff)
  obtain s where s: "shorten (fst (last kvs)) = Ret s" "ok s" "s = fst (last kvs) \<or> lt (fst (last kvs)) s"
      "\<forall>kv \<in> set rest. lt s (fst kv)"
    using shorten [OF oklast rest(1)] by blast
  have "fst kv = s \<or> lt (fst kv) s" if "kv \<in> set kvs" for kv
  proof -
    have "ok (fst kv)" using that skvs by (auto simp: sorted_keys_def list_all_iff)
    then show ?thesis using last_entry [OF skvs that] s(2,3) trans [of "fst kv" "fst (last kvs)" s] oklast by metis
  qed
  then show ?thesis using rest(2) s(1,2,4) first by (auto simp: separated_snoc)
qed

lemma index_entry_added:
  assumes opts: "opt_comparator opts = C"
    and holds: "table_holds port ok lt opts bytes blocks (Some (h, kvs)) cur this"
    and first: "\<And>a. rest \<noteq> [] \<Longrightarrow> shorten a = FindShortestSeparator C a (fst (hd rest))"
    and shorten: "\<And>a. ok a \<Longrightarrow> (\<forall>kv \<in> set rest. lt a (fst kv)) \<Longrightarrow>
      \<exists>s. shorten a = Ret s \<and> ok s \<and> (s = a \<or> lt a s) \<and> (\<forall>kv \<in> set rest. lt s (fst kv))"
    and rest: "\<forall>kv \<in> set rest. lt (fst (last kvs)) (fst kv)" "separated C ok lt blocks (kvs @ rest)"
  shows "\<exists>this' s. add_index_entry shorten this = Ret this' \<and> tb_file this' = tb_file this \<and>
    between_blocks port ok lt opts bytes (blocks @ [(s, h, kvs)]) [] rest this'"
proof -
  have cur: "cur = []" and h: "tb_pending_handle this = h" "tb_pending_index_entry this"
      "blocks_held port (opt_block_restart_interval opts) bytes [([], h, kvs)]"
    using holds by (simp_all add: table_holds_def)
  then have ne: "kvs \<noteq> []" by (simp add: blocks_held_def)
  have sorted: "sorted_keys ok lt (block_entries blocks @ kvs)" and last: "tb_last_key this = fst (last kvs)"
    using holds ne cur by (simp_all add: table_holds_def pending_entries_def)
  obtain s where s: "shorten (fst (last kvs)) = Ret s" "separated C ok lt (blocks @ [(s, h, kvs)]) rest"
    using index_key [OF sorted ne shorten first rest] by blast
  have "filled_builder 1 (index_entries (blocks @ [(s, h, kvs)])) =
      BlockBuilder_Add s (BlockHandle_EncodeTo h []) (filled_builder 1 (index_entries blocks))"
    by (simp add: index_entries_snoc filled_builder_simps)
  then have "between_blocks port ok lt opts bytes (blocks @ [(s, h, kvs)]) [] rest
      (this \<lparr> tb_last_key := s, tb_index_block := BlockBuilder_Add s (BlockHandle_EncodeTo h []) (tb_index_block this),
              tb_pending_index_entry := False \<rparr>)"
    using holds cur h(3) s(2) opts offsets_apart_key [of bytes blocks "[]" h kvs s]
    by (simp add: between_blocks_def table_holds_def blocks_held_snoc pending_entries_def table_keys_append table_keys_one
        keys_at_def)
  then show ?thesis using h(1,2) s(1) last by (auto simp: add_index_entry_def Let_def)
qed

lemma entry_added:
  assumes between: "between_blocks port ok lt opts (written (tb_file this)) blocks cur (cur @ [(key, val)]) this"
    and sorted: "sorted_keys ok lt (block_entries blocks @ cur @ [(key, val)])" and key: "ok key"
  shows "\<exists>fb. on_filter (\<lambda>fb. Ret (FilterBlock_AddKey key fb)) this = Ret (this \<lparr> tb_filter_block := fb \<rparr>) \<and>
    table_holds port ok lt opts (written (tb_file this)) blocks None (cur @ [(key, val)])
      (this \<lparr> tb_filter_block := fb, tb_last_key := key, tb_num_entries := tb_num_entries this + 1,
              tb_data_block := BlockBuilder_Add key val (tb_data_block this) \<rparr>)"
proof -
  let ?len = "length (written (tb_file this))" and ?h = "\<lparr> bh_offset =
    of_nat (length (written (tb_file this))), bh_size = 0 \<rparr>"
  have f0: "filter_holds ok (opt_filter_policy opts) (table_keys blocks \<union> keys_at ?h cur)
      (length (block_entries blocks @ cur)) ?len (tb_filter_block this)"
    using between by (simp add: between_blocks_def)
  obtain fb where fb: "on_filter (\<lambda>fb. Ret (FilterBlock_AddKey key fb)) this = Ret (this \<lparr> tb_filter_block := fb \<rparr>)"
      "filter_holds ok (opt_filter_policy opts) (insert (filter_index (of_nat ?len), key) (table_keys blocks \<union> keys_at ?h cur))
        (Suc (length (block_entries blocks @ cur))) ?len fb"
    using on_filter_AddKey [OF f0 key] by blast
  have "insert (filter_index (of_nat ?len), key) (table_keys blocks \<union> keys_at ?h cur) =
      table_keys blocks \<union> keys_at ?h (cur @ [(key, val)])"
    by (auto simp: keys_at_def)
  then show ?thesis
    using between sorted fb
    by (auto simp: table_holds_def between_blocks_def pending_entries_def filled_builder_simps)
qed

lemma index_entry_before_Add:
  assumes opts: "opt_comparator opts = C"
    and holds: "table_holds port ok lt opts bytes blocks pend cur this" and key: "ok key"
    and more: "all_entries blocks pend cur \<noteq> [] \<Longrightarrow> lt (fst (last (all_entries blocks pend cur))) key"
  shows "\<exists>this' blocks'. add_index_entry (\<lambda>a. FindShortestSeparator (opt_comparator (tb_options this)) a key) this = Ret this' \<and>
    tb_file this' = tb_file this \<and> between_blocks port ok lt opts bytes blocks' cur (cur @ [(key, val)]) this' \<and>
    block_entries blocks' @ cur = all_entries blocks pend cur"
proof -
  let ?rest = "pending_entries pend @ cur"
  have rest: "separated C ok lt blocks ?rest" "sorted_keys ok lt (block_entries blocks @ ?rest)" "?rest = [] \<longrightarrow>
    blocks = []"
    and o: "tb_options this = opts"
    using holds opts by (simp_all add: table_holds_def Let_def)
  have last: "lt (fst (last ?rest)) key" if "?rest \<noteq> []" using more that by (auto simp: all_entries_def)
  have apart: "separated C ok lt blocks (?rest @ [(key, val)])"
    using separated_more [OF rest(1,2) key] last rest(3) by blast
  show ?thesis
  proof (cases pend)
    case None
    then have "between_blocks port ok lt opts bytes blocks cur (cur @ [(key, val)]) this"
      using holds apart opts by (simp add: between_blocks_def table_holds_def pending_entries_def)
    moreover have "\<not> tb_pending_index_entry this" using holds None by (simp add: table_holds_def)
    ultimately show ?thesis using None
      by (intro exI [of _ this] exI [of _ blocks]) (simp add: add_index_entry_def all_entries_def pending_entries_def)
  next
    case (Some p)
    then obtain h kvs where p: "pend = Some (h, kvs)" by (cases p) auto
    then have cur: "cur = []" and ne: "kvs \<noteq> []" using holds by (auto simp: table_holds_def blocks_held_def)
    have "lt (fst (last kvs)) key" using last p cur ne by (simp add: pending_entries_def)
    moreover have "\<exists>s. FindShortestSeparator (opt_comparator (tb_options this)) a key = Ret s \<and> ok s \<and>
        (s = a \<or> lt a s) \<and> (\<forall>kv \<in> set [(key, val)]. lt s (fst kv))"
      if "ok a" "\<forall>kv \<in> set [(key, val)]. lt a (fst kv)" for a
      using sep [of a key] that key opts o by auto
    ultimately obtain this' s where "add_index_entry (\<lambda>a. FindShortestSeparator (opt_comparator (tb_options this)) a key) this = Ret this'"
        "tb_file this' = tb_file this" "between_blocks port ok lt opts bytes (blocks @
          [(s, h, kvs)]) [] [(key, val)] this'"
      using index_entry_added [OF opts holds [unfolded p], where rest = "[(key, val)]"
          and shorten = "\<lambda>a. FindShortestSeparator (opt_comparator (tb_options this)) a key"] apart p cur opts o
            by (auto simp: pending_entries_def)
    then show ?thesis using p cur by (auto simp: all_entries_def pending_entries_def)
  qed
qed

lemma table_Add_holds:
  assumes setting: "setting_ok port F written ok C opts"
    and holds: "table_holds port ok lt opts (written (tb_file this)) blocks pend cur this" and key: "ok key"
    and more: "all_entries blocks pend cur \<noteq> [] \<Longrightarrow> lt (fst (last (all_entries blocks pend cur))) key"
    and num: "Suc (length (all_entries blocks pend cur)) < 2 ^ 31"
  shows "\<exists>this' blocks' pend' cur' tail. TableBuilder_Add port F key val this = Ret this' \<and>
    written (tb_file this') = written (tb_file this) @ tail \<and>
    table_holds port ok lt opts (written (tb_file this')) blocks' pend' cur' this' \<and>
    all_entries blocks' pend' cur' = all_entries blocks pend cur @ [(key, val)]"
proof -
  have opts: "opt_comparator opts = C" using setting by (simp add: setting_ok_def)
  obtain this1 blocks1 where 1: "add_index_entry (\<lambda>a. FindShortestSeparator (opt_comparator (tb_options this)) a key) this = Ret this1"
      "tb_file this1 = tb_file this"
      "between_blocks port ok lt opts (written (tb_file this)) blocks1 cur (cur @ [(key, val)]) this1"
      "block_entries blocks1 @ cur = all_entries blocks pend cur"
    using index_entry_before_Add [OF opts holds key more] by blast
  have "sorted_keys ok lt (all_entries blocks pend cur)"
    using holds by (simp add: table_holds_def all_entries_def Let_def)
  from sorted_keys_snoc [OF this key more]
  have sorted: "sorted_keys ok lt (block_entries blocks1 @ cur @ [(key, val)])" by (metis 1(4) append.assoc)
  obtain fb where fb: "on_filter (\<lambda>fb. Ret (FilterBlock_AddKey key fb)) this1 = Ret (this1 \<lparr> tb_filter_block := fb \<rparr>)"
      "table_holds port ok lt opts (written (tb_file this1)) blocks1 None (cur @ [(key, val)])
        (this1 \<lparr> tb_filter_block := fb, tb_last_key := key, tb_num_entries := tb_num_entries this1 + 1,
                tb_data_block := BlockBuilder_Add key val (tb_data_block this1) \<rparr>)"
    using entry_added [of port opts written this1 blocks1 cur key val] 1(2,3) sorted key by auto
  let ?tb = "this1 \<lparr> tb_filter_block := fb, tb_last_key := key, tb_num_entries := tb_num_entries this1 + 1,
      tb_data_block := BlockBuilder_Add key val (tb_data_block this1) \<rparr>"
  have h: "tb_ok this" using holds by (simp add: table_holds_def tb_ok_def)
  show ?thesis
  proof (cases "opt_block_size (tb_options this1) \<le> BlockBuilder_CurrentSizeEstimate (tb_data_block ?tb)")
    case False
    then have "TableBuilder_Add port F key val this = Ret ?tb"
      using h 1(1) fb(1) by (simp add: TableBuilder_Add_def Let_def)
    moreover have "written (tb_file ?tb) = written (tb_file this) @ []" using 1(2) by simp
    ultimately show ?thesis
      using fb(2) 1(4) by (intro exI [of _ ?tb] exI [of _ blocks1] exI [of _ None] exI [of _ "cur @ [(key, val)]"])
        (auto simp: all_entries_def pending_entries_def)
  next
    case True
    have "length (block_entries blocks1 @ cur @ [(key, val)]) < 2 ^ 31" using num 1(4)
      by (metis append.assoc length_append_singleton)
    moreover have "table_holds port ok lt opts (written (tb_file ?tb)) blocks1 None (cur @ [(key, val)]) ?tb"
      using fb(2) by simp
    ultimately obtain this' hd tail where "TableBuilder_Flush port F ?tb = Ret this'"
        "written (tb_file this') = written (tb_file ?tb) @ tail"
        "table_holds port ok lt opts (written (tb_file this')) blocks1 (Some (hd, cur @ [(key, val)])) [] this'"
      using Flush_holds [OF setting, of lt ?tb blocks1 "cur @ [(key, val)]"] by blast
    moreover have "TableBuilder_Add port F key val this = TableBuilder_Flush port F ?tb"
      using h 1(1) fb(1) True by (simp add: TableBuilder_Add_def Let_def)
    ultimately show ?thesis using 1(2,4)
      by (intro exI [of _ this'] exI [of _ blocks1] exI [of _ "Some (hd, cur @ [(key, val)])"] exI [of _ "[]"]
          exI [of _ tail]) (auto simp: all_entries_def pending_entries_def)
  qed
qed

end

section \<open>A whole table\<close>

fun add_entries :: "Port \<Rightarrow> 'w WritableFile \<Rightarrow> (slice \<times> slice) list \<Rightarrow> 'w TableBuilder \<Rightarrow> 'w TableBuilder res" where
  "add_entries port F [] this = Ret this"
| "add_entries port F ((key, val) # kvs) this =
     res_bind (TableBuilder_Add port F key val this) (add_entries port F kvs)"

definition build_table :: "Port \<Rightarrow> 'w WritableFile \<Rightarrow> Options \<Rightarrow> (slice \<times> slice) list \<Rightarrow> 'w \<Rightarrow> (Status \<times> 'w TableBuilder) res" where
  "build_table port F opts kvs w =
     res_bind (new_TableBuilder opts w) (\<lambda>this. res_bind (add_entries port F kvs this) (TableBuilder_Finish port F))"

context key_comparator
begin

lemma add_entries_hold:
  assumes setting: "setting_ok port F written ok C opts"
  shows "table_holds port ok lt opts (written (tb_file this)) blocks pend cur this \<Longrightarrow>
    sorted_keys ok lt (all_entries blocks pend cur @ kvs) \<Longrightarrow>
    length (all_entries blocks pend cur @ kvs) < 2 ^ 31 \<Longrightarrow>
    \<exists>this' blocks' pend' cur'. add_entries port F kvs this = Ret this' \<and>
      table_holds port ok lt opts (written (tb_file this')) blocks' pend' cur' this' \<and>
      all_entries blocks' pend' cur' = all_entries blocks pend cur @ kvs"
proof (induction kvs arbitrary: this blocks pend cur)
  case Nil
  then show ?case by auto
next
  case (Cons kv kvs)
  obtain key val where kv: "kv = (key, val)" by (cases kv)
  have key: "ok key" using Cons.prems(2) kv by (simp add: sorted_keys_def)
  have more: "lt (fst (last (all_entries blocks pend cur))) key" if "all_entries blocks pend cur \<noteq> []"
    using Cons.prems(2) kv last_in_set [OF that] by (auto simp: sorted_keys_def sorted_wrt_append)
  obtain this' blocks' pend' cur' where 1: "TableBuilder_Add port F key val this = Ret this'"
      "table_holds port ok lt opts (written (tb_file this')) blocks' pend' cur' this'"
      "all_entries blocks' pend' cur' = all_entries blocks pend cur @ [(key, val)]"
    using table_Add_holds [OF setting Cons.prems(1) key more, of val] Cons.prems(3) by auto
  from Cons.IH [OF 1(2)] show ?case using 1(1,3) Cons.prems(2,3) kv by auto
qed

end

text \<open>What \<open>Finish\<close> writes behind the data blocks: the filter block, the metaindex block, the index block, the footer.\<close>

definition meta_entries :: "FilterPolicy option \<Rightarrow> BlockHandle \<Rightarrow> (slice \<times> slice) list" where
  "meta_entries policy fh = (case policy of None \<Rightarrow> [] | Some F \<Rightarrow> [(filter_key F, BlockHandle_EncodeTo fh [])])"

definition table_bytes :: "Port \<Rightarrow> (slice \<Rightarrow> bool) \<Rightarrow> (slice \<Rightarrow> slice \<Rightarrow> bool) \<Rightarrow> Options \<Rightarrow> table_block list \<Rightarrow> slice \<Rightarrow>
    BlockHandle \<Rightarrow> BlockHandle \<Rightarrow> BlockHandle \<Rightarrow> slice list \<Rightarrow> bool" where
  "table_bytes port ok lt opts blocks pre fh mh ih filters \<longleftrightarrow>
     separated (opt_comparator opts) ok lt blocks [] \<and> sorted_keys ok lt (block_entries blocks) \<and>
     blocks_held port (opt_block_restart_interval opts) pre blocks \<and> offsets_apart pre blocks \<and>
     block_held port pre ih (build_block 1 (index_entries blocks)) \<and>
     block_held port pre mh (build_block (opt_block_restart_interval opts) (meta_entries (opt_filter_policy opts) fh)) \<and>
     (\<forall>F. opt_filter_policy opts = Some F \<longrightarrow> block_held port pre fh (filters_contents filters) \<and>
        (length pre < 2 ^ 64 \<longrightarrow> filters_answer F (table_keys blocks) filters))"

lemma write_filter_block_writes:
  assumes setting: "setting_ok port F written ok c opts" and st: "tb_status this = OK"
      "tb_offset this = of_nat (length (written (tb_file this)))"
    and holds: "filter_holds ok (opt_filter_policy opts) added num (length (written (tb_file this))) (tb_filter_block this)"
    and num: "num < 2 ^ 31"
  shows "\<exists>h w fb tail filters. if_ok (write_filter_block port F) this = Ret (h,
       this \<lparr> tb_filter_block := fb, tb_file := w, tb_offset := of_nat (length (written w)) \<rparr>) \<and>
    written w = written (tb_file this) @ tail \<and> (fb = None \<longleftrightarrow> opt_filter_policy opts = None) \<and>
    (\<forall>P. opt_filter_policy opts = Some P \<longrightarrow> block_held port (written w) h (filters_contents filters) \<and>
       (length (written w) < 2 ^ 64 \<longrightarrow> filters_answer P added filters))"
proof (cases "opt_filter_policy opts")
  case None
  then have "tb_filter_block this = None" using holds by (simp add: filter_holds_def)
  then show ?thesis using None st
    by (intro exI [of _ new_BlockHandle] exI [of _ "tb_file this"] exI [of _ None] exI [of _ "[]"])
      (cases this, simp add: if_ok_def tb_ok_def write_filter_block_def)
next
  case (Some P)
  obtain b filters pending added' where b: "tb_filter_block this = Some b" "fb_holds P added' b filters pending"
      "list_all ok pending" "length pending < 2 ^ 31"
      "length (written (tb_file this)) < 2 ^ 64 \<longrightarrow> added' = added"
    using holds Some num by (auto simp: filter_holds_def)
  have "filter_policy P ok (\<lambda>n. n < 2 ^ 31)" using setting Some by (simp add: setting_ok_def policy_ok_def)
  from filter_policy.FilterBlock_Finish_holds [OF this b(2-4) b(4)]
  obtain filters' b' where b': "FilterBlock_Finish b =
    Ret (filters_contents filters', b')" "filters_answer P added' filters'"
    by blast
  let ?tb = "this \<lparr> tb_filter_block := Some b' \<rparr>"
  have acc: "accelerated_ok (AcceleratedCRC32C port)" "appends F written" using setting
    by (simp_all add: setting_ok_def)
  obtain w where w: "WriteRawBlock port F (filters_contents filters') kNoCompression ?tb = Ret
      (\<lparr> bh_offset = tb_offset ?tb, bh_size = of_nat (length (filters_contents filters')) \<rparr>,
       ?tb \<lparr> tb_file := w, tb_offset := tb_offset ?tb + of_nat (length (filters_contents filters') + 5) \<rparr>)"
      "written w = written (tb_file ?tb) @ stored_block (filters_contents filters') kNoCompression"
    using WriteRawBlock_stores [OF acc, of ?tb] st(1) by auto
  let ?h = "\<lparr> bh_offset = tb_offset this, bh_size = of_nat (length (filters_contents filters')) \<rparr>"
  have "block_held port (written w) ?h (filters_contents filters')"
    unfolding block_held_def unpacks_def using w(2) st(2) by fastforce
  moreover have "tb_offset this + of_nat (length (filters_contents filters') + 5) = of_nat (length (written w))"
    using w(2) st(2) by simp
  ultimately show ?thesis using w b' b(1,5) Some st
    by (intro exI [of _ ?h] exI [of _ w] exI [of _ "Some b'"]
        exI [of _ "stored_block (filters_contents filters') kNoCompression"] exI [of _ filters'])
      (auto simp: if_ok_def tb_ok_def write_filter_block_def)
qed

lemma write_metaindex_block_writes:
  assumes setting: "setting_ok port F written ok c opts" and st: "tb_status this = OK" "tb_options this = opts"
      "tb_offset this = of_nat (length (written (tb_file this)))"
    and fb: "tb_filter_block this = None \<longleftrightarrow> opt_filter_policy opts = None"
  shows "\<exists>h w tail. if_ok (write_metaindex_block port F fh) this = Ret (h,
       this \<lparr> tb_file := w, tb_offset := of_nat (length (written w)) \<rparr>) \<and>
    written w = written (tb_file this) @ tail \<and>
    block_held port (written w) h (build_block (opt_block_restart_interval opts) (meta_entries (opt_filter_policy opts) fh))"
proof -
  let ?iv = "opt_block_restart_interval opts" and ?kvs = "meta_entries (opt_filter_policy opts) fh"
  obtain h w where w: "WriteBlock port F (filled_builder ?iv ?kvs) this = Ret (h, new_BlockBuilder ?iv,
       this \<lparr> tb_file := w, tb_offset := of_nat (length (written w)) \<rparr>)"
      "\<exists>tail. written w = written (tb_file this) @ tail" "block_held port (written w) h (build_block ?iv ?kvs)"
    using WriteBlock_stores [of port F written this ?iv ?kvs] setting st by (auto simp: setting_ok_def)
  have "(case tb_filter_block this of None \<Rightarrow> Ret (new_BlockBuilder ?iv)
      | Some _ \<Rightarrow> (case opt_filter_policy (tb_options this) of None \<Rightarrow> Undef
          | Some policy \<Rightarrow> Ret (BlockBuilder_Add (filter_key policy) (BlockHandle_EncodeTo fh []) (new_BlockBuilder ?iv)))) =
      Ret (filled_builder ?iv ?kvs)"
    using fb st(2) filled_builder_simps(2) [of _ _ ?iv "[]"]
    by (auto simp: meta_entries_def filled_builder_simps split: option.splits)
  then have "write_metaindex_block port F fh this =
    Ret (h, this \<lparr> tb_file := w, tb_offset := of_nat (length (written w)) \<rparr>)"
    using w(1) st(2) by (simp add: write_metaindex_block_def)
  then show ?thesis using w(2,3) st(1) by (auto simp: if_ok_def tb_ok_def)
qed

text \<open>The end of the data blocks.\<close>

lemma Flush_at_end:
  assumes setting: "setting_ok port F written ok c opts"
    and holds: "table_holds port ok lt opts (written (tb_file this)) blocks pend cur this"
    and num: "length (all_entries blocks pend cur) < 2 ^ 31"
  shows "\<exists>this' pend' tail. TableBuilder_Flush port F this = Ret this' \<and>
    written (tb_file this') = written (tb_file this) @ tail \<and>
    table_holds port ok lt opts (written (tb_file this')) blocks pend' [] this' \<and>
    all_entries blocks pend' [] = all_entries blocks pend cur"
proof (cases "cur = []")
  case True
  have "BlockBuilder_empty (tb_data_block this)" "tb_ok this"
    using holds True setting filled_builder_empty [of "opt_block_restart_interval opts" cur]
    by (simp_all add: table_holds_def setting_ok_def tb_ok_def)
  then have "TableBuilder_Flush port F this = Ret this" by (simp add: TableBuilder_Flush_def)
  then show ?thesis using holds True by (intro exI [of _ this] exI [of _ pend] exI [of _ "[]"]) simp
next
  case False
  then have None: "pend = None" using holds by (cases pend) (auto simp: table_holds_def)
  have "length (block_entries blocks @ cur) < 2 ^ 31" using num None
    by (simp add: all_entries_def pending_entries_def)
  from Flush_holds [OF setting holds [unfolded None] False this]
  obtain this' h tail where "TableBuilder_Flush port F this = Ret this'"
      "written (tb_file this') = written (tb_file this) @ tail"
      "table_holds port ok lt opts (written (tb_file this')) blocks (Some (h, cur)) [] this'" by blast
  then show ?thesis using None
    by (intro exI [of _ this'] exI [of _ "Some (h, cur)"] exI [of _ tail]) (simp add: all_entries_def pending_entries_def)
qed

context key_comparator
begin

text \<open>The last index entry.\<close>

lemma last_index_entry:
  assumes holds: "table_holds port ok lt opts bytes blocks pend [] this0" and opts: "opt_comparator opts = C"
    and same: "tb_options this = opts" "tb_index_block this = tb_index_block this0" "tb_last_key this =
      tb_last_key this0"
      "tb_pending_index_entry this = tb_pending_index_entry this0" "tb_pending_handle this = tb_pending_handle this0"
  shows "\<exists>blocks' k p. add_index_entry (FindShortSuccessor (opt_comparator (tb_options this))) this = Ret
      (this \<lparr> tb_last_key := k, tb_index_block := filled_builder 1 (index_entries blocks'), tb_pending_index_entry := p \<rparr>) \<and>
    separated C ok lt blocks' [] \<and> block_entries blocks' = all_entries blocks pend [] \<and>
    blocks_held port (opt_block_restart_interval opts) bytes blocks' \<and> offsets_apart bytes blocks' \<and>
    table_keys blocks' = table_keys (blocks @ (case pend of None \<Rightarrow> [] | Some (h, kvs) \<Rightarrow> [([], h, kvs)]))"
proof (cases pend)
  case None
  then have "add_index_entry (FindShortSuccessor (opt_comparator (tb_options this))) this = Ret this"
    using holds same(4) by (simp add: add_index_entry_def table_holds_def)
  moreover have "this =
    this \<lparr> tb_last_key := tb_last_key this, tb_index_block := filled_builder 1 (index_entries blocks),
      tb_pending_index_entry := tb_pending_index_entry this \<rparr>"
    using holds same(2) by (cases this) (simp add: table_holds_def)
  ultimately show ?thesis
    using holds None opts
    by (intro exI [of _ blocks] exI [of _ "tb_last_key this"] exI [of _ "tb_pending_index_entry this"])
      (auto simp: table_holds_def all_entries_def pending_entries_def blocks_held_def)
next
  case (Some p)
  then obtain h kvs where p: "pend = Some (h, kvs)" by (cases p) auto
  then have ne: "kvs \<noteq> []" and hh: "tb_pending_handle this0 = h" "tb_pending_index_entry this0"
      and held: "blocks_held port (opt_block_restart_interval opts) bytes [([], h, kvs)]"
    using holds by (simp_all add: table_holds_def blocks_held_def)
  have sorted: "sorted_keys ok lt (block_entries blocks @ kvs)" and last: "tb_last_key this0 = fst (last kvs)"
    and sepa: "separated C ok lt blocks (kvs @ [])"
    using holds ne p opts by (simp_all add: table_holds_def pending_entries_def)
  obtain s where s: "FindShortSuccessor C (fst (last kvs)) = Ret s" "separated C ok lt (blocks @ [(s, h, kvs)]) []"
    using index_key [OF sorted ne, of "[]" "FindShortSuccessor C"] succ sepa by auto
  have "BlockBuilder_Add s (BlockHandle_EncodeTo h []) (tb_index_block this0) =
      filled_builder 1 (index_entries (blocks @ [(s, h, kvs)]))"
    using holds by (simp add: table_holds_def index_entries_snoc filled_builder_simps)
  then have "add_index_entry (FindShortSuccessor (opt_comparator (tb_options this))) this =
    Ret (this \<lparr> tb_last_key := s,
      tb_index_block := filled_builder 1 (index_entries (blocks @ [(s, h, kvs)])), tb_pending_index_entry := False \<rparr>)"
    using same hh s(1) last opts by (simp add: add_index_entry_def)
  moreover have "blocks_held port (opt_block_restart_interval opts) bytes (blocks @ [(s, h, kvs)])"
    using holds held by (simp add: table_holds_def blocks_held_snoc)
  moreover have "offsets_apart bytes (blocks @ [(s, h, kvs)])"
    using holds p offsets_apart_key [of bytes blocks "[]" h kvs s] by (simp add: table_holds_def)
  ultimately show ?thesis using s(2) p
    by (intro exI [of _ "blocks @ [(s, h, kvs)]"] exI [of _ s] exI [of _ False])
      (simp add: all_entries_def pending_entries_def table_keys_append table_keys_one)
qed

lemma Finish_writes:
  assumes setting: "setting_ok port F written ok C opts"
    and holds: "table_holds port ok lt opts (written (tb_file this)) blocks pend cur this"
    and num: "length (all_entries blocks pend cur) < 2 ^ 31"
  shows "\<exists>this' blocks' pre fh mh ih filters. TableBuilder_Finish port F this = Ret (OK, this') \<and>
    written (tb_file this') = pre @ Footer_EncodeTo \<lparr> metaindex_handle = mh, index_handle = ih \<rparr> [] \<and>
    table_bytes port ok lt opts blocks' pre fh mh ih filters \<and> block_entries blocks' = all_entries blocks pend cur"
proof -
  let ?iv = "opt_block_restart_interval opts"
  have opts: "opt_comparator opts = C" using setting by (simp add: setting_ok_def)
  obtain this1 pend1 where 1: "TableBuilder_Flush port F this = Ret this1"
      "table_holds port ok lt opts (written (tb_file this1)) blocks pend1 [] this1"
      "all_entries blocks pend1 [] = all_entries blocks pend cur"
    using Flush_at_end [OF setting holds num] by blast
  let ?added = "table_keys (blocks @ (case pend1 of None \<Rightarrow> [] | Some (h, kvs) \<Rightarrow> [([], h, kvs)]))"
  have st: "tb_status this1 = OK" "tb_options this1 = opts" "tb_offset this1 =
    of_nat (length (written (tb_file this1)))"
    and fh: "filter_holds ok (opt_filter_policy opts) ?added (length (all_entries blocks pend1 []))
      (length (written (tb_file this1))) (tb_filter_block this1)"
    using 1(2) by (simp_all add: table_holds_def keys_at_def all_entries_def)
  let ?tb = "this1 \<lparr> tb_closed := True \<rparr>"
  obtain h2 w2 fb t2 filters where 2: "if_ok (write_filter_block port F) ?tb = Ret (h2,
      ?tb \<lparr> tb_filter_block := fb, tb_file := w2, tb_offset := of_nat (length (written w2)) \<rparr>)"
      "written w2 = written (tb_file ?tb) @ t2" "fb = None \<longleftrightarrow> opt_filter_policy opts = None"
      "\<forall>P. opt_filter_policy opts = Some P \<longrightarrow> block_held port (written w2) h2 (filters_contents filters) \<and>
        (length (written w2) < 2 ^ 64 \<longrightarrow> filters_answer P ?added filters)"
    using write_filter_block_writes [OF setting, of ?tb ?added "length (all_entries blocks pend1 [])"] st fh num 1(3) by auto
  let ?tb2 = "?tb \<lparr> tb_filter_block := fb, tb_file := w2, tb_offset := of_nat (length (written w2)) \<rparr>"
  obtain h3 w3 t3 where 3: "if_ok (write_metaindex_block port F h2) ?tb2 = Ret (h3,
      ?tb2 \<lparr> tb_file := w3, tb_offset := of_nat (length (written w3)) \<rparr>)" "written w3 = written w2 @ t3"
      "block_held port (written w3) h3 (build_block ?iv (meta_entries (opt_filter_policy opts) h2))"
    using write_metaindex_block_writes [OF setting, of ?tb2 h2] st 2(3) by auto
  let ?tb3 = "?tb2 \<lparr> tb_file := w3, tb_offset := of_nat (length (written w3)) \<rparr>"
  obtain blocks' k p where 4: "add_index_entry (FindShortSuccessor (opt_comparator (tb_options ?tb3))) ?tb3 = Ret
      (?tb3 \<lparr> tb_last_key := k, tb_index_block := filled_builder 1 (index_entries blocks'), tb_pending_index_entry := p \<rparr>)"
      "separated C ok lt blocks' []" "block_entries blocks' = all_entries blocks pend1 []"
      "blocks_held port ?iv (written (tb_file this1)) blocks'" "table_keys blocks' = ?added"
      "offsets_apart (written (tb_file this1)) blocks'"
    using last_index_entry [OF 1(2) opts, of ?tb3] st(2) by auto
  let ?tb4 = "?tb3 \<lparr> tb_last_key := k, tb_index_block := filled_builder 1 (index_entries blocks'), tb_pending_index_entry := p \<rparr>"
  obtain h5 w5 t5 where 5: "WriteBlock port F (filled_builder 1 (index_entries blocks')) ?tb4 =
    Ret (h5, new_BlockBuilder 1,
      ?tb4 \<lparr> tb_file := w5, tb_offset := of_nat (length (written w5)) \<rparr>)" "written w5 = written w3 @ t5"
      "block_held port (written w5) h5 (build_block 1 (index_entries blocks'))"
    using WriteBlock_stores [of port F written ?tb4 1 "index_entries blocks'"] setting st
      by (auto simp: setting_ok_def)
  let ?tb5 = "?tb4 \<lparr> tb_file := w5, tb_offset := of_nat (length (written w5)), tb_index_block := new_BlockBuilder 1 \<rparr>"
  have idx: "if_ok (write_index_block port F) ?tb3 = Ret (h5, ?tb5)"
    using 4(1) 5(1) st(1) by (simp add: if_ok_def tb_ok_def write_index_block_def)
  let ?footer = "Footer_EncodeTo \<lparr> metaindex_handle = h3, index_handle = h5 \<rparr> []"
  obtain w6 where w6: "Writable_Append F ?footer w5 = (OK, w6)" "written w6 = written w5 @ ?footer"
    using setting unfolding setting_ok_def appends_def by (metis Status_ok_iff prod.collapse)
  have "\<exists>this'. TableBuilder_Finish port F this = Ret (OK, this') \<and> tb_file this' = w6"
    using 1(1) 2(1) 3(1) idx st(1) w6(1)
    by (simp add: TableBuilder_Finish_def write_footer_def tb_append_def tb_ok_def Let_def)
  moreover have "table_bytes port ok lt opts blocks' (written w5) h2 h3 h5 filters"
  proof -
    have pre: "written w3 = written w2 @ t3" "written w5 = written w3 @ t5" "written w5 = written w2 @ t3 @ t5"
      "written w5 = written (tb_file this1) @ t2 @ t3 @ t5"
      using 2(2) 3(2) 5(2) by simp_all
    have "blocks_held port ?iv (written w5) blocks'" using 4(4) unfolding pre(4) by (rule blocks_held_append)
    moreover have "offsets_apart (written w5) blocks'" using 4(6) unfolding pre(4) by (rule offsets_apart_append)
    moreover have "block_held port (written w5) h3 (build_block ?iv (meta_entries (opt_filter_policy opts) h2))"
      using 3(3) unfolding pre(2) by (rule block_held_append)
    moreover have "block_held port (written w5) h2 (filters_contents filters) \<and>
        (length (written w5) < 2 ^ 64 \<longrightarrow>
          filters_answer P (table_keys blocks') filters)" if "opt_filter_policy opts = Some P" for P
      using 2(4) that 4(5) pre(3) block_held_append [of port "written w2" h2 _ "t3 @ t5"] by simp
    moreover have "sorted_keys ok lt (block_entries blocks')"
      using 1(2) 4(3) by (simp add: table_holds_def all_entries_def Let_def)
    ultimately show ?thesis using 4(2) 5(3) opts by (simp add: table_bytes_def)
  qed
  ultimately show ?thesis using w6(2) 4(3) 1(3)
    by (elim exE conjE, intro exI conjI) (assumption | simp)+
qed

text \<open>The builder makes a table from entries in order.\<close>

lemma build_table_writes:
  assumes "setting_ok port F written ok C opts" "written w = []" "sorted_keys ok lt kvs" "length kvs < 2 ^ 31"
  shows "\<exists>this blocks pre fh mh ih filters. build_table port F opts kvs w = Ret (OK, this) \<and>
    written (tb_file this) = pre @ Footer_EncodeTo \<lparr> metaindex_handle = mh, index_handle = ih \<rparr> [] \<and>
    table_bytes port ok lt opts blocks pre fh mh ih filters \<and> block_entries blocks = kvs"
proof -
  have policy: "policy_ok ok (opt_filter_policy opts)" using assms(1) by (simp add: setting_ok_def)
  obtain this0 where 0: "new_TableBuilder opts w = Ret this0"
      "table_holds port ok lt opts (written (tb_file this0)) [] None [] this0"
    using new_TableBuilder_holds [where written = written, OF policy assms(2)] by blast
  obtain this1 blocks1 pend1 cur1 where 1: "add_entries port F kvs this0 = Ret this1"
      "table_holds port ok lt opts (written (tb_file this1)) blocks1 pend1 cur1 this1" "all_entries blocks1 pend1 cur1 = kvs"
    using add_entries_hold [OF assms(1) 0(2), of kvs] assms(3,4) by (auto simp: all_entries_def pending_entries_def)
  show ?thesis using Finish_writes [OF assms(1) 1(2)] 0(1) 1(1,3) assms(4) by (auto simp: build_table_def)
qed

end

end
