(* ===== verification/LdbTableRead.thy ===== *)
theory LdbTableRead
  imports LdbTableSpec
begin

text \<open>
  Reading a table that was built: opening it, iterating over it and looking up keys, with a block cache or
  without, with filters or without.
\<close>

section \<open>The index\<close>

lemma separated_nth:
  assumes "separated cmp ok lt blocks rest" "b < length blocks" "blocks ! b = (k, h, kvs)"
  shows "ok k" "kv \<in> set kvs \<Longrightarrow> fst kv = k \<or> lt (fst kv) k"
    "b < c \<Longrightarrow> c < length blocks \<Longrightarrow> kv \<in> set (snd (snd (blocks ! c))) \<Longrightarrow> lt k (fst kv)"
  using assms
proof (induction blocks arbitrary: b c)
  case (Cons x blocks)
  case 1
  then show ?case using Cons.IH(1) [of "b - 1"] by (cases b; cases x) auto
next
  case (Cons x blocks)
  case 2
  then show ?case using Cons.IH(2) [of "b - 1"] by (cases b; cases x) auto
next
  case (Cons x blocks)
  obtain k' h' kvs' where x: "x = (k', h', kvs')" by (metis prod.exhaust)
  case 3
  show ?case
  proof (cases b)
    case 0
    then have "kv \<in> set (block_entries blocks)"
      using 3(1-3) by (cases c) (auto simp: block_entries_def)
    then show ?thesis using 3(4-6) 0 x by auto
  next
    case (Suc b')
    then obtain c' where c: "c = Suc c'" "b' < c'" using 3(1) by (cases c) auto
    have "separated cmp ok lt blocks rest" using 3(4) x by simp
    from Cons.IH(3) [OF c(2) _ _ this] show ?thesis using 3 Suc c by simp
  qed
qed simp_all

lemma separated_next:
  assumes "separated cmp ok lt blocks rest" "Suc b < length blocks" "blocks ! b = (k, h, kvs)" "snd (snd (blocks ! Suc b)) \<noteq> []"
  shows "FindShortestSeparator cmp (fst (last kvs)) (fst (hd (snd (snd (blocks ! Suc b))))) = Ret k"
  using assms
proof (induction blocks arbitrary: b)
  case (Cons x blocks)
  obtain k' h' kvs' where x: "x = (k', h', kvs')" by (metis prod.exhaust)
  show ?case
  proof (cases b)
    case 0
    then obtain y blocks' where "blocks = y # blocks'" using Cons.prems(2) by (cases blocks) auto
    then show ?thesis using Cons.prems 0 x by (cases y) (auto simp: hd_append)
  next
    case (Suc b')
    have "separated cmp ok lt blocks rest" using Cons.prems(1) x by simp
    then show ?thesis using Cons.IH [of b'] Cons.prems Suc by simp
  qed
qed simp

definition blk_of :: "table_block list \<Rightarrow> slice \<Rightarrow> (slice \<times> slice) list" where
  "blk_of blocks handle =
     (case find (\<lambda>(_, h, _). BlockHandle_EncodeTo h [] = handle) blocks of None \<Rightarrow> [] | Some (_, _, kvs) \<Rightarrow> kvs)"

lemma index_entries_nth:
  "b < length blocks \<Longrightarrow> blocks ! b = (k, h, kvs) \<Longrightarrow> index_entries blocks ! b = (k, BlockHandle_EncodeTo h [])"
  by (simp add: index_entries_def)

lemma length_index_entries [simp]: "length (index_entries blocks) = length blocks"
  by (simp add: index_entries_def)

lemma length_blocks_le: "blocks_held port iv bytes blocks \<Longrightarrow> length blocks \<le> length (block_entries blocks)"
proof (induction blocks)
  case (Cons b blocks)
  obtain k h kvs where b: "b = (k, h, kvs)" by (metis prod.exhaust)
  then have "kvs \<noteq> []" "length blocks \<le> length (block_entries blocks)"
    using Cons by (auto simp: blocks_held_def)
  then show ?case using b by (cases kvs) simp_all
qed simp

lemma block_in_entries: "(k, h, kvs) \<in> set blocks \<Longrightarrow> kv \<in> set kvs \<Longrightarrow> kv \<in> set (block_entries blocks)"
  by (force simp: block_entries_def)

lemma new_Block_total: "\<exists>b. new_Block contents = Ret b"
proof (cases "length (block_data contents) < 4")
  case False
  then obtain n where "DecodeFixed32 (drop (length (block_data contents) - 4) (block_data contents)) = Ret n"
    using DecodeFixed32_total [of "drop (length (block_data contents) - 4) (block_data contents)"] by auto
  then show ?thesis using False by (auto simp: new_Block_def NumRestarts_def Let_def)
qed (simp add: new_Block_def)

context key_comparator
begin

lemma sorted_index:
  assumes "separated cmp ok lt blocks rest" "blocks_held port iv bytes blocks" "sorted_keys ok lt (block_entries blocks)"
  shows "sorted_keys ok lt (index_entries blocks)"
proof -
  have "sorted_wrt lt (map fst (index_entries blocks))"
  proof (rule sorted_wrt_iff_nth_less [THEN iffD2], intro allI impI)
    fix b c assume bc: "b < c" "c < length (map fst (index_entries blocks))"
    obtain k h kvs k' h' kvs' where e: "blocks ! b = (k, h, kvs)" "blocks ! c = (k', h', kvs')"
      by (metis prod.exhaust)
    have len: "b < length blocks" "c < length blocks" using bc by simp_all
    have "kvs' \<noteq> []" using assms(2) e(2) len(2) nth_mem [OF len(2)] by (auto simp: blocks_held_def)
    then obtain kv where kv: "kv \<in> set kvs'" by (cases kvs') auto
    have "lt k (fst kv)" using separated_nth(3) [OF assms(1) len(1) e(1) bc(1) len(2)] e(2) kv by simp
    moreover have "fst kv = k' \<or> lt (fst kv) k'" using separated_nth(2) [OF assms(1) len(2) e(2) kv] .
    moreover have "ok k" "ok k'" using separated_nth(1) assms(1) len e by blast+
    moreover have "ok (fst kv)"
      using assms(3) block_in_entries [of k' h' kvs' blocks kv] kv e(2) nth_mem [OF len(2)]
      by (auto simp: sorted_keys_def list_all_iff)
    ultimately have "lt k k'" using trans [of k "fst kv" k'] by metis
    then show "lt (map fst (index_entries blocks) ! b) (map fst (index_entries blocks) ! c)"
      using len e by (simp add: index_entries_nth)
  qed
  moreover have "list_all (ok \<circ> fst) (index_entries blocks)"
    using separated_nth(1) [OF assms(1)] by (auto simp: list_all_length index_entries_def split: prod.splits)
  ultimately show ?thesis by (simp add: sorted_keys_def)
qed

end

section \<open>Reading blocks\<close>

text \<open>A block of the table is determined by its offset.\<close>

lemma same_block:
  assumes "offsets_apart bytes blocks" "length bytes < 2 ^ 64" "(k, h, kvs) \<in> set blocks" "(k', h', kvs') \<in> set blocks"
    and "bh_offset h' = bh_offset h"
  shows "k' = k \<and> h' = h \<and> kvs' = kvs"
proof -
  have "inj_on (\<lambda>(_, h, _). bh_offset h) (set blocks)" using assms(1,2) by (simp add: offsets_apart_def distinct_map)
  from inj_onD [OF this _ assms(4,3)] show ?thesis using assms(5) by simp
qed

text \<open>A block that the cache has at the key of a block of the table is that block.\<close>

definition blocks_cached :: "int \<Rightarrow> table_block list \<Rightarrow> Table \<Rightarrow> bool" where
  "blocks_cached iv blocks table \<longleftrightarrow>
     (\<forall>Lookup k h kvs b. opt_block_cache (tbl_options table) = Some Lookup \<and> (k, h, kvs) \<in> set blocks \<and>
        Lookup (cache_key (tbl_cache_id table) h) = Some b \<longrightarrow>
      (\<exists>contents. block_data contents = build_block iv kvs \<and> new_Block contents = Ret b))"

text \<open>The facts about a table that was opened.\<close>

definition table_opened :: "Port \<Rightarrow> (slice \<Rightarrow> bool) \<Rightarrow> (slice \<Rightarrow> slice \<Rightarrow> bool) \<Rightarrow> Comparator \<Rightarrow> slice \<Rightarrow> int \<Rightarrow> table_block list \<Rightarrow>
    Table \<Rightarrow> bool" where
  "table_opened port ok lt c bytes iv blocks table \<longleftrightarrow>
     accelerated_ok (AcceleratedCRC32C port) \<and> reads_bytes (tbl_file table) bytes \<and> length bytes < 2 ^ 32 \<and> 1 \<le> iv \<and>
     opt_comparator (tbl_options table) = c \<and>
     blocks_cached iv blocks table \<and> offsets_apart bytes blocks \<and>
     separated c ok lt blocks [] \<and> blocks_held port iv bytes blocks \<and> sorted_keys ok lt (block_entries blocks) \<and>
     (\<exists>contents. block_data contents = build_block 1 (index_entries blocks) \<and>
       length (build_block 1 (index_entries blocks)) < 2 ^ 32 \<and> new_Block contents = Ret (tbl_index_block table)) \<and>
     (\<forall>reader. tbl_filter table = Some reader \<longrightarrow>
       (\<exists>filters. filters_answer (fr_policy reader) (table_keys blocks) filters \<and>
        length (filters_contents filters) < 2 ^ 32 \<and>
        new_FilterBlockReader (fr_policy reader) (filters_contents filters) = Ret reader))"

text \<open>The table is open and has the entries \<open>kvs\<close>.\<close>

definition table_serves ::
    "Port \<Rightarrow> (slice \<Rightarrow> bool) \<Rightarrow> (slice \<Rightarrow> slice \<Rightarrow> bool) \<Rightarrow> Comparator \<Rightarrow> (slice \<times> slice) list \<Rightarrow> Table \<Rightarrow> bool" where
  "table_serves port ok lt c kvs table \<longleftrightarrow>
     (\<exists>bytes iv blocks. table_opened port ok lt c bytes iv blocks table \<and> block_entries blocks = kvs)"

lemma Table_find_block_held:
  assumes opened: "table_opened port ok lt c bytes iv blocks table"
    and block: "(k, h, kvs) \<in> set blocks"
  shows "\<exists>b insertion contents. Table_find_block port ro h table = Ret (OK, Some b, insertion) \<and>
    block_data contents = build_block iv kvs \<and> new_Block contents = Ret b"
proof -
  have acc: "accelerated_ok (AcceleratedCRC32C port)" and f: "reads_bytes (tbl_file table) bytes" and len: "length bytes < 2 ^ 64"
    and cache: "blocks_cached iv blocks table"
    and held: "block_held port bytes h (build_block iv kvs)"
    using opened block by (auto simp: table_opened_def blocks_held_def)
  obtain x y where read: "ReadBlock port (tbl_file table) (ro_verify_checksums ro) h =
      Ret (OK, \<lparr> block_data = build_block iv kvs, cachable = x, heap_allocated = y \<rparr>)"
    using ReadBlock_held(1) [OF acc f len held] by blast
  let ?c = "\<lparr> block_data = build_block iv kvs, cachable = x, heap_allocated = y \<rparr>"
  obtain b where b: "new_Block ?c = Ret b" using new_Block_total by blast
  have rb: "Table_read_block port ro h table = Ret (OK, Some (b, x))" using read b by (simp add: Table_read_block_def)
  show ?thesis
  proof (cases "opt_block_cache (tbl_options table)")
    case None
    then have "Table_find_block port ro h table = Ret (OK, Some b, None)" using rb by (simp add: Table_find_block_def)
    then show ?thesis using b by (intro exI [of _ b] exI [of _ None] exI [of _ ?c]) simp
  next
    case (Some Lookup)
    show ?thesis
    proof (cases "Lookup (cache_key (tbl_cache_id table) h)")
      case None
      then have "\<exists>ins. Table_find_block port ro h table = Ret (OK, Some b, ins)"
        using rb Some by (simp add: Table_find_block_def Let_def)
      then show ?thesis using b by (metis BlockContents.select_convs(1))
    next
      case hit: (Some b')
      obtain contents' where "block_data contents' = build_block iv kvs" "new_Block contents' = Ret b'"
        using cache Some hit block unfolding blocks_cached_def by blast
      then show ?thesis using Some hit by (auto simp: Table_find_block_def Let_def)
    qed
  qed
qed

section \<open>The block cache\<close>

text \<open>The values of the index, which are the handles that the iterators of the table and \<open>InternalGet\<close> read.\<close>

definition index_value :: "Table \<Rightarrow> slice \<Rightarrow> bool" where
  "index_value table v \<longleftrightarrow>
     (\<exists>it fuel kvs k. Block_NewIterator (opt_comparator (tbl_options table)) (tbl_index_block table) = Ret it \<and>
        res_bind (SeekToFirst BlockIterators it) (collect fuel BlockIterators (Next BlockIterators)) = Ret kvs \<and>
        (k, v) \<in> set kvs)"

definition with_cache :: "BlockCache \<Rightarrow> Table \<Rightarrow> Table" where
  "with_cache Lookup table = table \<lparr> tbl_options := (tbl_options table) \<lparr> opt_block_cache := Some Lookup \<rparr> \<rparr>"

text \<open>No block is cached under an id that \<open>NewId\<close> just returned.\<close>

definition fresh_id :: "u64 \<Rightarrow> BlockCache option \<Rightarrow> bool" where
  "fresh_id new_id cache \<longleftrightarrow> (\<forall>Lookup h. cache = Some Lookup \<longrightarrow> Lookup (cache_key new_id h) = None)"

text \<open>\<open>cache_history port table t\<close>: \<open>t\<close> is the open table \<open>table\<close> with its block cache at some later time. A reader of
  a block, who looked it up in one state of the cache, inserts what he read into another. The cache drops blocks, and
  those that share it change what is not under the id of the table.\<close>

inductive cache_history :: "Port \<Rightarrow> Table \<Rightarrow> Table \<Rightarrow> bool" for port table where
  opened: "cache_history port table table"
| inserted: "cache_history port table t \<Longrightarrow> opt_block_cache (tbl_options t) = Some Lookup \<Longrightarrow>
    cache_history port table t' \<Longrightarrow> index_value t' v \<Longrightarrow> Table_BlockReader port t' ro v = Ret (it, Some (key, b)) \<Longrightarrow>
    cache_history port table (with_cache (Lookup(key \<mapsto> b)) t)"
| changed: "cache_history port table t \<Longrightarrow> opt_block_cache (tbl_options t) = Some Lookup \<Longrightarrow>
    \<forall>h. Lookup' (cache_key (tbl_cache_id t) h) \<in> {None, Lookup (cache_key (tbl_cache_id t) h)} \<Longrightarrow>
    cache_history port table (with_cache Lookup' t)"

lemma cache_key_offset: "cache_key n h = cache_key n' h' \<Longrightarrow> bh_offset h = bh_offset h'"
  unfolding cache_key_def by (metis DecodeFixed64_Encode append.right_neutral append_eq_append_conv length_EncodeFixed(2) res.inject)

lemma collect_more: "collect fuel I move s = Ret kvs \<Longrightarrow> collect (fuel + n) I move s = Ret kvs"
proof (induction fuel arbitrary: s kvs)
  case (Suc fuel)
  then show ?case by (auto split: if_splits res.splits simp: res_bind_Ret_iff)
qed simp

text \<open>What a reader inserts is the block, at its key.\<close>

lemma BlockReader_inserts:
  assumes opened: "table_opened port ok lt c bytes iv blocks table" and block: "(k, h, kvs) \<in> set blocks"
    and read: "Table_BlockReader port table ro (BlockHandle_EncodeTo h []) = Ret (it, Some (key, b))"
  shows "key = cache_key (tbl_cache_id table) h"
    and "\<exists>contents. block_data contents = build_block iv kvs \<and> new_Block contents = Ret b"
proof -
  have acc: "accelerated_ok (AcceleratedCRC32C port)" and f: "reads_bytes (tbl_file table) bytes" and len: "length bytes < 2 ^ 64"
    and held: "block_held port bytes h (build_block iv kvs)"
    using opened block by (auto simp: table_opened_def blocks_held_def)
  obtain x y where stored: "ReadBlock port (tbl_file table) (ro_verify_checksums ro) h =
      Ret (OK, \<lparr> block_data = build_block iv kvs, cachable = x, heap_allocated = y \<rparr>)"
    using ReadBlock_held(1) [OF acc f len held] by blast
  let ?c = "\<lparr> block_data = build_block iv kvs, cachable = x, heap_allocated = y \<rparr>"
  obtain b' where b': "new_Block ?c = Ret b'" using new_Block_total by blast
  have rb: "Table_read_block port ro h table = Ret (OK, Some (b', x))" using stored b' by (simp add: Table_read_block_def)
  have "BlockHandle_DecodeFrom new_BlockHandle (BlockHandle_EncodeTo h [] @ []) = (OK, h, [])"
    by (rule BlockHandle_Decode_Encode)
  then obtain s blk where "Table_find_block port ro h table = Ret (s, blk, Some (key, b))"
    using read by (auto simp: Table_BlockReader_def res_bind_Ret_iff split: option.splits)
  then have "key = cache_key (tbl_cache_id table) h" "b = b'"
    using rb by (auto simp: Table_find_block_def Let_def split: option.splits if_splits)
  then show "key = cache_key (tbl_cache_id table) h"
      "\<exists>contents. block_data contents = build_block iv kvs \<and> new_Block contents = Ret b"
    using b' by (auto intro: exI [of _ ?c])
qed

lemma ReadBlock_cachable:
  assumes "ReadBlock port file verify h = Ret (OK, contents)"
    and f: "file (bh_offset h) (bh_size h + kBlockTrailerSize) = (s, data, True)"
  shows "cachable contents"
proof -
  have bad: "Corruption m m2 \<noteq> OK" for m m2 using Status_ok_iff [of "Corruption m m2"] by simp
  have "uncompress_block port d = (OK, contents) \<Longrightarrow> cachable contents" for d
    by (auto simp: uncompress_block_def bad split: option.splits)
  then show ?thesis using assms(1) bad unfolding ReadBlock_def Let_def f by (auto simp: res_bind_Ret_iff split: if_splits)
qed

lemma read_block_cachable:
  assumes "Table_read_block port ro h table = Ret (s, Some (b, x))" "\<forall>off n. snd (snd (tbl_file table off n))"
  shows x
proof -
  obtain contents where "ReadBlock port (tbl_file table) (ro_verify_checksums ro) h = Ret (OK, contents)"
      "x = cachable contents"
    using assms(1) by (auto simp: Table_read_block_def res_bind_Ret_iff Status_ok_iff split: if_splits prod.splits)
  moreover have "tbl_file table (bh_offset h) (bh_size h + kBlockTrailerSize) =
      (fst (tbl_file table (bh_offset h) (bh_size h + kBlockTrailerSize)),
       fst (snd (tbl_file table (bh_offset h) (bh_size h + kBlockTrailerSize))), True)"
    using assms(2) [rule_format, of "bh_offset h" "bh_size h + kBlockTrailerSize"] by (metis prod.collapse)
  ultimately show x using ReadBlock_cachable by blast
qed

section \<open>Iterating\<close>

context key_comparator
begin

abbreviation iter_pos :: "BlockIterator \<Rightarrow> (slice \<times> slice) list \<Rightarrow> nat \<Rightarrow> bool" where
  "iter_pos \<equiv> case_sum (\<lambda>s kvs i. s = NewEmptyIterator \<and> kvs = [] \<and> i = 0) (block_pos C ok lt)"

lemma Table_BlockReader_held:
  assumes opened: "table_opened port ok lt C bytes iv blocks table"
    and block: "(k, h, kvs) \<in> set blocks"
  shows "\<exists>it insertion. Table_BlockReader port table ro (BlockHandle_EncodeTo h []) = Ret (it, insertion) \<and>
    iter_pos it kvs (length kvs)"
proof -
  obtain b ins contents where b: "Table_find_block port ro h table = Ret (OK, Some b, ins)"
      "block_data contents = build_block iv kvs" "new_Block contents = Ret b"
    using Table_find_block_held [OF opened block] by blast
  have C: "opt_comparator (tbl_options table) = C" and "1 \<le> iv" and len: "length bytes < 2 ^ 32"
    and acc: "accelerated_ok (AcceleratedCRC32C port)" "reads_bytes (tbl_file table) bytes"
    and held: "block_held port bytes h (build_block iv kvs)"
    using opened block by (auto simp: table_opened_def blocks_held_def)
  have "sorted_keys ok lt kvs"
  proof -
    obtain pre post where "blocks = pre @ (k, h, kvs) # post" using block by (meson split_list)
    then show ?thesis using opened by (auto simp: table_opened_def sorted_keys_def sorted_wrt_append)
  qed
  moreover have "length (build_block iv kvs) < 2 ^ 32" using ReadBlock_held(2) [OF acc _ held len] len by simp
  ultimately obtain it where it: "read_block C contents = Ret (Inr it)" "block_pos C ok lt it kvs (length kvs)"
    using read_block_built [OF \<open>1 \<le> iv\<close> _ _ b(2)] by blast
  have "BlockHandle_DecodeFrom new_BlockHandle (BlockHandle_EncodeTo h [] @ []) = (OK, h, [])"
    by (rule BlockHandle_Decode_Encode)
  then have "Table_BlockReader port table ro (BlockHandle_EncodeTo h []) = Ret (Inr it, ins)"
    using b(1,3) it(1) C by (simp add: Table_BlockReader_def read_block_def)
  then show ?thesis using it(2) by auto
qed

lemma blk_of_block:
  assumes apart: "offsets_apart bytes blocks" "length bytes < 2 ^ 32" and block: "(k, h, kvs) \<in> set blocks"
  shows "blk_of blocks (BlockHandle_EncodeTo h []) = kvs"
proof -
  let ?P = "\<lambda>(_ :: slice, h', _ :: (slice \<times> slice) list). BlockHandle_EncodeTo h' [] = BlockHandle_EncodeTo h []"
  obtain k' h' kvs' where f: "find ?P blocks = Some (k', h', kvs')" "(k', h', kvs') \<in> set blocks"
      "BlockHandle_EncodeTo h' [] = BlockHandle_EncodeTo h []"
  proof (cases "find ?P blocks")
    case None
    then show ?thesis using block by (force simp: find_None_iff)
  next
    case (Some b)
    then have "b \<in> set blocks" "?P b" by (auto simp: find_Some_iff dest: nth_mem)
    then show ?thesis using that Some by (cases b) auto
  qed
  have "h' = h"
    using BlockHandle_Decode_Encode [of new_BlockHandle h' "[]"] BlockHandle_Decode_Encode [of new_BlockHandle h "[]"] f(3)
    by simp
  then have "kvs' = kvs" using same_block [OF apart(1) _ block f(2)] apart(2) by simp
  then show ?thesis using f(1) by (simp add: blk_of_def)
qed

lemma table_indexed:
  assumes opened: "table_opened port ok lt C bytes iv blocks table" and fuel: "length blocks + 1 < fuel"
  shows "tables.indexed port table ro fuel (index_entries blocks) (blk_of blocks)"
    and "concat (map (blk_of blocks \<circ> snd) (index_entries blocks)) = block_entries blocks"
proof -
  have o: "offsets_apart bytes blocks" "length bytes < 2 ^ 32" "sorted_keys ok lt (block_entries blocks)"
    and apart: "separated C ok lt blocks []"
    using opened by (auto simp: table_opened_def)
  note blk = blk_of_block [OF o(1,2)]
  have "map (blk_of blocks \<circ> snd) (index_entries blocks) = map (snd \<circ> snd) blocks"
    using blk by (auto simp: index_entries_def)
  then show "concat (map (blk_of blocks \<circ> snd) (index_entries blocks)) = block_entries blocks"
    by (simp add: block_entries_def)
  have at: "blocks ! b =
    (fst (index_entries blocks ! b), fst (snd (blocks ! b)), blk_of blocks (snd (index_entries blocks ! b)))"
    if "b < length blocks" for b
    using blk [of "fst (blocks ! b)" "fst (snd (blocks ! b))" "snd (snd (blocks ! b))"] nth_mem [OF that] that
      index_entries_nth [OF that, of "fst (blocks ! b)" "fst (snd (blocks ! b))" "snd (snd (blocks ! b))"] by simp
  have okkv: "ok (fst kv)" if "b < length blocks" "kv \<in> set (blk_of blocks (snd (index_entries blocks ! b)))" for b kv
    using block_in_entries [of _ _ _ blocks kv] at [OF that(1)] that nth_mem [OF that(1)] o(3)
    by (metis (no_types, lifting) comp_apply list_all_iff sorted_keys_def)
  show "tables.indexed port table ro fuel (index_entries blocks) (blk_of blocks)"
    unfolding tables.indexed_def
  proof (intro conjI ballI allI impI)
    fix kv assume "kv \<in> set (index_entries blocks)"
    then obtain k h kvs where b: "(k, h, kvs) \<in> set blocks" "kv = (k, BlockHandle_EncodeTo h [])"
      by (auto simp: index_entries_def)
    then obtain it ins where "Table_BlockReader port table ro (BlockHandle_EncodeTo h []) = Ret (it, ins)"
        "iter_pos it kvs (length kvs)"
      using Table_BlockReader_held [OF opened b(1), of ro] by blast
    then show "\<exists>d k. table_block_function port table ro (snd kv) = Ret (Some d) \<and>
      iter_pos d (blk_of blocks (snd kv)) k"
      using b blk [OF b(1)] by (auto simp: table_block_function_def)
  next
    fix b target kv
    assume b: "b < length (index_entries blocks)" and t: "ok target" "lt (fst (index_entries blocks ! b)) target"
      and kv: "kv \<in> set (blk_of blocks (snd (index_entries blocks ! b)))"
    then have len: "b < length blocks" by simp
    show "lt (fst kv) target"
      using separated_nth(1) [OF apart len at [OF len]] separated_nth(2) [OF apart len at [OF len] kv] okkv [OF len kv] t
        trans [of "fst kv" "fst (index_entries blocks ! b)" target] by auto
  next
    fix b target c kv
    assume b: "b < length (index_entries blocks)" and t: "ok target" "\<not> lt (fst (index_entries blocks ! b)) target"
      and c: "b < c \<and>
        c < length (index_entries blocks)" and kv: "kv \<in> set (blk_of blocks (snd (index_entries blocks ! c)))"
    then have len: "b < length blocks" "c < length blocks" by simp_all
    have "kv \<in> set (snd (snd (blocks ! c)))" using kv at [OF len(2)] by (metis snd_conv)
    then have "lt (fst (index_entries blocks ! b)) (fst kv)"
      using separated_nth(3) [OF apart len(1) at [OF len(1)] _ len(2)] c by blast
    then show "\<not> lt (fst kv) target"
      using separated_nth(1) [OF apart len(1) at [OF len(1)]] okkv [OF len(2) kv] t
        trans [of "fst (index_entries blocks ! b)" "fst kv" target] by auto
  qed (use fuel in simp)
qed

text \<open>The index iterator of an open table.\<close>

lemma index_iterator:
  assumes opened: "table_opened port ok lt C bytes iv blocks table"
  shows "\<exists>it. Block_NewIterator C (tbl_index_block table) = Ret it \<and>
    iter_pos it (index_entries blocks) (length blocks)"
proof -
  obtain contents where c: "block_data contents = build_block 1 (index_entries blocks)"
      "length (build_block 1 (index_entries blocks)) < 2 ^ 32" "new_Block contents = Ret (tbl_index_block table)"
    using opened by (auto simp: table_opened_def)
  have "sorted_keys ok lt (index_entries blocks)"
    using opened sorted_index by (auto simp: table_opened_def)
  then show ?thesis using read_block_built [OF _ _ c(2,1)] c(3) by (fastforce simp: read_block_def)
qed

text \<open>The handles of its index are those of the blocks.\<close>

lemma index_value_block:
  assumes opened: "table_opened port ok lt C bytes iv blocks table" and v: "index_value table v"
  shows "\<exists>k h kvs. (k, h, kvs) \<in> set blocks \<and> v = BlockHandle_EncodeTo h []"
proof -
  have C: "opt_comparator (tbl_options table) = C" using opened by (simp add: table_opened_def)
  obtain it where it: "Block_NewIterator C (tbl_index_block table) = Ret it"
      "iter_pos it (index_entries blocks) (length blocks)"
    using index_iterator [OF opened] by blast
  obtain fuel kvs k where v': "res_bind (SeekToFirst BlockIterators it)
      (collect fuel BlockIterators (Next BlockIterators)) = Ret kvs" "(k, v) \<in> set kvs"
    using v it(1) C by (auto simp: index_value_def)
  have "res_bind (SeekToFirst BlockIterators it) (collect (fuel + Suc (length blocks)) BlockIterators (Next BlockIterators)) =
      Ret (index_entries blocks)"
    using blocks.either.first_collects [OF it(2), of "fuel + Suc (length blocks)"] unfolding BlockIterators_def by simp
  then have "kvs = index_entries blocks"
    using v'(1) collect_more [of fuel BlockIterators "Next BlockIterators" _ kvs "Suc (length blocks)"]
    by (cases "SeekToFirst BlockIterators it") auto
  then show ?thesis using v'(2) by (auto simp: index_entries_def)
qed

lemma table_opened_with_cache:
  "table_opened port ok lt c bytes iv blocks table \<Longrightarrow> blocks_cached iv blocks (with_cache Lookup table) \<Longrightarrow>
   table_opened port ok lt c bytes iv blocks (with_cache Lookup table)"
  by (simp add: table_opened_def with_cache_def)

text \<open>Whatever was read, an open table stays one.\<close>

lemma cache_history_opened:
  assumes "cache_history port table t" and start: "table_opened port ok lt C bytes iv blocks table"
  shows "table_opened port ok lt C bytes iv blocks t \<and> tbl_cache_id t = tbl_cache_id table \<and> tbl_filter t = tbl_filter table"
  using assms(1)
proof (induction rule: cache_history.induct)
  case opened
  then show ?case using start by simp
next
  case (inserted t Lookup t' v ro it key b)
  have len: "length bytes < 2 ^ 64" and apart: "offsets_apart bytes blocks"
    using start by (simp_all add: table_opened_def)
  obtain k h kvs where blk: "(k, h, kvs) \<in> set blocks" "v = BlockHandle_EncodeTo h []"
    using index_value_block inserted by blast
  have ins: "key = cache_key (tbl_cache_id t') h" "\<exists>contents. block_data contents = build_block iv kvs \<and> new_Block contents = Ret b"
    using BlockReader_inserts [OF inserted.IH(2) [THEN conjunct1] blk(1)] inserted.hyps(5) blk(2) by blast+
  have "blocks_cached iv blocks (with_cache (Lookup(key \<mapsto> b)) t)"
    unfolding blocks_cached_def
  proof (intro allI impI)
    fix L k2 h2 kvs2 b2
    assume a: "opt_block_cache (tbl_options (with_cache (Lookup(key \<mapsto> b)) t)) = Some L \<and> (k2, h2, kvs2) \<in> set blocks \<and>
      L (cache_key (tbl_cache_id (with_cache (Lookup(key \<mapsto> b)) t)) h2) = Some b2"
    then have L: "L = Lookup(key \<mapsto> b)" "(k2, h2, kvs2) \<in> set blocks" "L (cache_key (tbl_cache_id t) h2) = Some b2"
      by (simp_all add: with_cache_def)
    show "\<exists>contents. block_data contents = build_block iv kvs2 \<and> new_Block contents = Ret b2"
    proof (cases "cache_key (tbl_cache_id t) h2 = key")
      case True
      then have "bh_offset h2 = bh_offset h" using cache_key_offset ins(1) by metis
      then have "kvs2 = kvs" using same_block [OF apart len blk(1) L(2)] by simp
      then show ?thesis using ins(2) L(1,3) True by simp
    next
      case False
      then have "Lookup (cache_key (tbl_cache_id t) h2) = Some b2" using L by simp
      then show ?thesis using inserted.IH(1) inserted.hyps(2) L(2) unfolding table_opened_def blocks_cached_def by blast
    qed
  qed
  then show ?case using inserted table_opened_with_cache by (simp add: with_cache_def)
next
  case (changed t Lookup Lookup')
  then have "blocks_cached iv blocks (with_cache Lookup' t)"
    unfolding table_opened_def blocks_cached_def with_cache_def by (simp, metis option.distinct(1))
  then show ?case using changed table_opened_with_cache by (simp add: with_cache_def)
qed

lemma cache_history_serves:
  "cache_history port table t \<Longrightarrow> table_serves port ok lt C kvs table \<Longrightarrow>
   table_serves port ok lt C kvs t \<and> tbl_filter t = tbl_filter table"
  using cache_history_opened unfolding table_serves_def by blast

text \<open>The first reading of a block puts it into the cache, if the file reads into the buffer of its caller.\<close>

lemma index_block_value:
  assumes opened: "table_opened port ok lt C bytes iv blocks table" and block: "(k, h, kvs) \<in> set blocks"
  shows "index_value table (BlockHandle_EncodeTo h [])"
proof -
  have C: "opt_comparator (tbl_options table) = C" using opened by (simp add: table_opened_def)
  obtain it where it: "Block_NewIterator C (tbl_index_block table) = Ret it"
      "iter_pos it (index_entries blocks) (length blocks)"
    using index_iterator [OF opened] by blast
  have "res_bind (SeekToFirst BlockIterators it) (collect (Suc (length blocks)) BlockIterators (Next BlockIterators)) =
      Ret (index_entries blocks)"
    using blocks.either.first_collects [OF it(2), of "Suc (length blocks)"] unfolding BlockIterators_def by simp
  moreover have "(k, BlockHandle_EncodeTo h []) \<in> set (index_entries blocks)"
    using block by (force simp: index_entries_def)
  ultimately show ?thesis using it(1) C unfolding index_value_def by blast
qed

lemma first_read_inserts:
  fixes ro :: ReadOptions
  assumes opened: "table_opened port ok lt C bytes iv blocks table" and block: "(k, h, kvs) \<in> set blocks"
    and cache: "opt_block_cache (tbl_options table) = Some Lookup" "Lookup (cache_key (tbl_cache_id table) h) = None"
    and buffered: "\<forall>off n. snd (snd (tbl_file table off n))" and ro: "ro_fill_cache ro"
  shows "\<exists>b. cache_history port table (with_cache (Lookup(cache_key (tbl_cache_id table) h \<mapsto> b)) table)"
proof -
  obtain it ins where it: "Table_BlockReader port table ro (BlockHandle_EncodeTo h []) = Ret (it, ins)"
    using Table_BlockReader_held [OF opened block] by blast
  obtain b ins' where b: "Table_find_block port ro h table = Ret (OK, Some b, ins')"
    using Table_find_block_held [OF opened block] by blast
  then obtain s blk where blk: "Table_read_block port ro h table = Ret (s, blk)"
    using cache by (auto simp: Table_find_block_def Let_def res_bind_Ret_iff)
  then obtain x where x: "Table_read_block port ro h table = Ret (OK, Some (b, x))" "ins' =
      (if x then Some (cache_key (tbl_cache_id table) h, b) else None)"
    using b cache ro by (cases blk) (auto simp: Table_find_block_def Let_def)
  have x': "x" using x(1) buffered by (rule read_block_cachable)
  have "BlockHandle_DecodeFrom new_BlockHandle (BlockHandle_EncodeTo h [] @ []) = (OK, h, [])"
    by (rule BlockHandle_Decode_Encode)
  then have "ins = ins'" using it b by (auto simp: Table_BlockReader_def res_bind_Ret_iff)
  then have "Table_BlockReader port table ro (BlockHandle_EncodeTo h []) = Ret (it, Some (cache_key (tbl_cache_id table) h, b))"
    using it x(2) x' by simp
  then show ?thesis
    using inserted [OF cache_history.opened cache(1) cache_history.opened index_block_value [OF opened block]] by blast
qed

lemma table_iterates:
  assumes opened: "table_opened port ok lt C bytes iv blocks table" and fuel: "length (block_entries blocks) + 1 < fuel"
  shows "\<exists>it. Table_NewIterator table = Ret it \<and>
    tables.over_index port table ro fuel it (block_entries blocks) (length (block_entries blocks))"
proof -
  obtain it where it: "Block_NewIterator C (tbl_index_block table) = Ret it"
      "iter_pos it (index_entries blocks) (length blocks)"
    using index_iterator [OF opened] by blast
  have "length blocks + 1 < fuel" using length_blocks_le [of port iv bytes blocks] opened fuel
    by (simp add: table_opened_def)
  note ix = table_indexed [OF opened this]
  obtain this where "NewTwoLevelIterator BlockIterators BlockIterators it = Ret this"
      "tables.over_index port table ro fuel this (block_entries blocks) (length (block_entries blocks))"
    using tables.NewTwoLevelIterator_over [OF ix(1) it(2)] unfolding ix(2) by blast
  moreover have "opt_comparator (tbl_options table) = C" using opened by (simp add: table_opened_def)
  ultimately show ?thesis using it(1) by (auto simp: Table_NewIterator_def)
qed

end

section \<open>Looking up a key\<close>

definition policy_answers :: "FilterPolicy \<Rightarrow> slice \<Rightarrow> bool" where
  "policy_answers P key \<longleftrightarrow> (\<forall>f. length f < 2 ^ 32 \<longrightarrow> (\<exists>r. KeyMayMatch P key f = Ret r))"

lemma length_filter_less: "length (filters_contents filters) < 2 ^ 32 \<Longrightarrow> f \<in> set filters \<Longrightarrow> length f < 2 ^ 32"
  by (auto simp: filters_contents_def Let_def dest: split_list)

lemma takeWhile_stops: "x \<in> set xs \<Longrightarrow> \<not> P x \<Longrightarrow> length (takeWhile P xs) < length xs"
  by (induction xs) auto

text \<open>Keys that no filter tells apart, and a key so near below an entry that no index key comes between.\<close>

definition filter_alike :: "Table \<Rightarrow> slice \<Rightarrow> slice \<Rightarrow> bool" where
  "filter_alike table a b \<longleftrightarrow> (\<forall>reader f. tbl_filter table = Some reader \<longrightarrow>
     KeyMayMatch (fr_policy reader) a f = KeyMayMatch (fr_policy reader) b f)"

definition near_key :: "Comparator \<Rightarrow> (slice \<Rightarrow> bool) \<Rightarrow> (slice \<Rightarrow> slice \<Rightarrow> bool) \<Rightarrow> slice \<Rightarrow> slice \<Rightarrow> bool" where
  "near_key c ok lt key k \<longleftrightarrow> (\<forall>a s. ok a \<and> lt a k \<and> lt a key \<and> FindShortestSeparator c a k = Ret s \<longrightarrow> lt s key)"

lemma filter_alike_refl [simp]: "filter_alike table a a"
  by (simp add: filter_alike_def)

lemma filter_denies_block:
  assumes opened: "table_opened port ok lt c bytes iv blocks table" and block: "(k, h, kvs) \<in> set blocks"
    and total: "\<forall>reader. tbl_filter table = Some reader \<longrightarrow> policy_answers (fr_policy reader) key"
  shows "\<exists>denied. filter_denies table key (BlockHandle_EncodeTo h []) = Ret denied \<and> 
    (\<forall>k \<in> fst ` set kvs. filter_alike table key k \<longrightarrow> \<not> denied)"
proof (cases "tbl_filter table")
  case None
  then show ?thesis by (intro exI [of _ False]) (simp add: filter_denies_def)
next
  case (Some reader)
  obtain filters where f: "filters_answer (fr_policy reader) (table_keys blocks) filters"
      "length (filters_contents filters) < 2 ^ 32"
      "new_FilterBlockReader (fr_policy reader) (filters_contents filters) = Ret reader"
    using opened Some by (auto simp: table_opened_def)
  have keys: "(filter_index (bh_offset h), fst kv) \<in> table_keys blocks" if "kv \<in> set kvs" for kv
    using that block by (force simp: table_keys_def keys_at_def)
  have "kvs \<noteq> []" using opened block by (auto simp: table_opened_def blocks_held_def)
  then have i: "filter_index (bh_offset h) < length filters"
    using keys [of "hd kvs"] f(1) by (auto simp: filters_answer_def)
  have found: "FilterBlock_KeyMayMatch reader (bh_offset h) key =
      KeyMayMatch (fr_policy reader) key (filters ! filter_index (bh_offset h))"
    using reader_finds [OF f(2) i f(3)] .
  obtain r where r: "KeyMayMatch (fr_policy reader) key (filters ! filter_index (bh_offset h)) = Ret r"
    using total Some length_filter_less [OF f(2) nth_mem [OF i]] by (auto simp: policy_answers_def)
  have "r" if "k \<in> fst ` set kvs" "filter_alike table key k" for k
  proof -
    have "KeyMayMatch (fr_policy reader) k (filters ! filter_index (bh_offset h)) = Ret True"
      using that(1) keys f(1) by (force simp: filters_answer_def)
    then show ?thesis using that(2) r Some by (simp add: filter_alike_def)
  qed
  moreover have "BlockHandle_DecodeFrom new_BlockHandle (BlockHandle_EncodeTo h [] @ []) = (OK, h, [])"
    by (rule BlockHandle_Decode_Encode)
  ultimately show ?thesis using Some found r
    by (intro exI [of _ "\<not> r"]) (auto simp: filter_denies_def)
qed

context key_comparator
begin

lemma below_present:
  assumes "sorted_keys ok lt kvs" "(key, v) \<in> set kvs"
  shows "below lt key kvs < length kvs" "kvs ! below lt key kvs = (key, v)"
proof -
  obtain pre post where p: "kvs = pre @ (key, v) # post" using assms(2) by (meson split_list)
  then have "\<forall>kv \<in> set pre. lt (fst kv) key" using assms(1) by (auto simp: sorted_keys_def sorted_wrt_append)
  then have "below lt key kvs = length pre" using irrefl p by (simp add: below_def)
  then show "below lt key kvs < length kvs" "kvs ! below lt key kvs = (key, v)" using p by simp_all
qed

lemma near_present: "ok key \<Longrightarrow> near_key C ok lt key key"
  using sep by (fastforce simp: near_key_def)

text \<open>The next entry at or after a key is in the block that a seek in the index finds, if the key is near it.\<close>

lemma next_block:
  assumes opened: "table_opened port ok lt C bytes iv blocks table" and key: "ok key"
    and n: "below lt key (block_entries blocks) < length (block_entries blocks)"
    and near: "near_key C ok lt key (fst (block_entries blocks ! below lt key (block_entries blocks)))"
  shows "below lt key (index_entries blocks) < length blocks"
    "block_entries blocks ! below lt key (block_entries blocks) \<in> set (snd (snd (blocks ! below lt key (index_entries blocks))))"
proof -
  let ?b = "below lt key (index_entries blocks)" and ?P = "\<lambda>kv. lt (fst kv) key"
  define e where "e = block_entries blocks ! below lt key (block_entries blocks)"
  have apart: "separated C ok lt blocks []" and sorted: "sorted_keys ok lt (block_entries blocks)"
    and held: "blocks_held port iv bytes blocks"
    using opened by (simp_all add: table_opened_def)
  have okall: "ok (fst kv)" if "kv \<in> set (block_entries blocks)" for kv
    using sorted that by (auto simp: sorted_keys_def list_all_iff)
  have mem: "e \<in> set (block_entries blocks)" using n by (simp add: e_def)
  have ge: "\<not> lt (fst e) key" using nth_length_takeWhile [of ?P "block_entries blocks"] n by (simp add: e_def below_def)
  have first: "kv = e \<or> lt (fst e) (fst kv)" if kv: "kv \<in> set (block_entries blocks)" "\<not> lt (fst kv) key" for kv
  proof -
    obtain i where i: "i < length (block_entries blocks)" "kv = block_entries blocks ! i" using kv(1) by (auto simp: in_set_conv_nth)
    have "below lt key (block_entries blocks) \<le> i"
    proof (rule ccontr)
      assume "\<not> below lt key (block_entries blocks) \<le> i"
      then have "block_entries blocks ! i \<in> set (takeWhile ?P (block_entries blocks))"
        using nth_mem [of i "takeWhile ?P (block_entries blocks)"] by (simp add: below_def takeWhile_nth)
      then show False using kv(2) i(2) set_takeWhileD by fastforce
    qed
    then show ?thesis
      using sorted i sorted_wrt_nth_less [of lt "map fst (block_entries blocks)" "below lt key (block_entries blocks)" i]
      by (cases "below lt key (block_entries blocks) = i") (auto simp: e_def sorted_keys_def)
  qed
  obtain c where c: "c < length blocks" "e \<in> set (snd (snd (blocks ! c)))"
  proof -
    obtain b where "b \<in> set blocks" "e \<in> set (snd (snd b))" using mem by (auto simp: block_entries_def)
    then show ?thesis using that by (metis in_set_conv_nth)
  qed
  obtain k h kvs where blk: "blocks ! c = (k, h, kvs)" by (metis prod.exhaust)
  have k: "ok k" "fst e = k \<or> lt (fst e) k"
    using separated_nth(1) [OF apart c(1) blk] separated_nth(2) [OF apart c(1) blk, of e] c(2) blk by auto
  have "\<not> c < ?b"
  proof
    assume "c < ?b"
    then have "index_entries blocks ! c \<in> set (takeWhile ?P (index_entries blocks))"
      using nth_mem [of c "takeWhile ?P (index_entries blocks)"] by (simp add: below_def takeWhile_nth)
    then have "?P (index_entries blocks ! c)" by (rule set_takeWhileD [THEN conjunct2])
    then have "lt k key" using index_entries_nth [OF c(1) blk] by simp
    then show False using k ge trans [of "fst e" k key] okall [OF mem] key by metis
  qed
  moreover have "\<not> ?b < c"
  proof
    assume b: "?b < c"
    then have len: "?b < length blocks" "Suc ?b < length blocks" using c(1) by simp_all
    obtain k' h' kvs' where blk': "blocks ! ?b = (k', h', kvs')" by (metis prod.exhaust)
    obtain k2 h2 kvs2 where blk2: "blocks ! Suc ?b = (k2, h2, kvs2)" by (metis prod.exhaust)
    have ne: "kvs' \<noteq> []" "kvs2 \<noteq> []"
      using held nth_mem [OF len(1)] nth_mem [OF len(2)] blk' blk2 by (auto simp: blocks_held_def)
    have ok': "ok k'" using separated_nth(1) [OF apart len(1) blk'] .
    have "\<not> ?P (index_entries blocks ! ?b)" using len nth_length_takeWhile [of ?P "index_entries blocks"]
      by (simp add: below_def)
    then have le: "\<not> lt k' key" using index_entries_nth [OF len(1) blk'] by simp
    have entry: "kv \<in> set (block_entries blocks)" if "i < length blocks" "kv \<in> set (snd (snd (blocks ! i)))" for i kv
      using block_in_entries [of "fst (blocks ! i)" "fst (snd (blocks ! i))" "snd (snd (blocks ! i))" blocks kv] nth_mem [OF that(1)] that(2) by simp
    have last: "last kvs' \<in> set (block_entries blocks)" using entry [OF len(1)] blk' ne(1) by simp
    have hd2: "hd kvs2 \<in> set (block_entries blocks)" using entry [OF len(2)] blk2 ne(2) by simp
    have k'hd: "lt k' (fst (hd kvs2))" using separated_nth(3) [OF apart len(1) blk', of "Suc ?b" "hd kvs2"] len(2) blk2 ne(2) by simp
    have k'e: "lt k' (fst e)" using separated_nth(3) [OF apart len(1) blk' b c(1), of e] c(2) by simp
    have lastk': "fst (last kvs') = k' \<or> lt (fst (last kvs')) k'"
      using separated_nth(2) [OF apart len(1) blk', of "last kvs'"] ne(1) by simp
    have below: "lt (fst (last kvs')) key"
    proof (rule ccontr)
      assume "\<not> lt (fst (last kvs')) key"
      then have "last kvs' = e \<or> lt (fst e) (fst (last kvs'))" using first [OF last] by blast
      then show False using lastk' k'e trans [OF okall [OF last] ok' okall [OF mem]] irrefl asym okall [OF mem] okall [OF last] ok' by metis
    qed
    have "hd kvs2 = e"
    proof -
      have "\<not> lt (fst (hd kvs2)) key" using le k'hd trans [OF ok' okall [OF hd2] key] by blast
      then have or: "hd kvs2 = e \<or> lt (fst e) (fst (hd kvs2))" using first [OF hd2] by blast
      have "e \<in> set kvs2 \<or> lt (fst (hd kvs2)) (fst e)"
      proof (cases "c = Suc ?b")
        case True
        then show ?thesis using c(2) blk2 by simp
      next
        case False
        then have sc: "Suc ?b < c" using b by simp
        have "lt k2 (fst e)" using separated_nth(3) [OF apart len(2) blk2 sc c(1), of e] c(2) by simp
        moreover have "fst (hd kvs2) = k2 \<or> lt (fst (hd kvs2)) k2"
          using separated_nth(2) [OF apart len(2) blk2, of "hd kvs2"] ne(2) by simp
        ultimately show ?thesis
          using trans [OF okall [OF hd2] separated_nth(1) [OF apart len(2) blk2] okall [OF mem]] by metis
      qed
      moreover have "e = hd kvs2 \<or> lt (fst (hd kvs2)) (fst e)" if e: "e \<in> set kvs2"
      proof -
        have "sorted_keys ok lt kvs2"
        proof -
          obtain pre post where "blocks = pre @ (k2, h2, kvs2) # post" using nth_mem [OF len(2)] blk2 by (metis split_list)
          then show ?thesis using sorted by (auto simp: sorted_keys_def sorted_wrt_append)
        qed
        then show ?thesis using e ne(2) by (cases kvs2) (auto simp: sorted_keys_def)
      qed
      ultimately show ?thesis using or asym okall [OF hd2] okall [OF mem] by metis
    qed
    then have "FindShortestSeparator C (fst (last kvs')) (fst e) = Ret k'"
      using separated_next [OF apart len(2) blk'] blk2 ne(2) by simp
    moreover have "lt (fst (last kvs')) (fst e)"
      using lastk' k'e trans [OF okall [OF last] ok' okall [OF mem]] by metis
    ultimately have "lt k' key" using near below okall [OF last] unfolding near_key_def e_def by blast
    then show False using le by blast
  qed
  ultimately have "?b = c" by simp
  then show "?b < length blocks" "block_entries blocks ! below lt key (block_entries blocks) \<in> set (snd (snd (blocks ! ?b)))"
    using c by (simp_all add: e_def)
qed

lemma InternalGet_finds:
  assumes opened: "table_opened port ok lt C bytes iv blocks table" and key: "ok key"
    and total: "\<forall>reader. tbl_filter table = Some reader \<longrightarrow> policy_answers (fr_policy reader) key"
  shows "\<exists>found. Table_InternalGet port table ro key = Ret (OK, found) \<and>
    (\<forall>e. found = Some e \<longrightarrow> below lt key (block_entries blocks) < length (block_entries blocks) \<and>
       e = block_entries blocks ! below lt key (block_entries blocks)) \<and>
    (below lt key (block_entries blocks) < length (block_entries blocks) \<and>
     near_key C ok lt key (fst (block_entries blocks ! below lt key (block_entries blocks))) \<and>
     filter_alike table key (fst (block_entries blocks ! below lt key (block_entries blocks))) \<longrightarrow>
       found = Some (block_entries blocks ! below lt key (block_entries blocks)))"
proof -
  let ?n = "below lt key (block_entries blocks)"
  let ?e = "block_entries blocks ! ?n"
  let ?idx = "index_entries blocks" and ?b = "below lt key (index_entries blocks)"
  have C: "opt_comparator (tbl_options table) = C" using opened by (simp add: table_opened_def)
  obtain it0 where it0: "Block_NewIterator C (tbl_index_block table) = Ret it0" "iter_pos it0 ?idx (length blocks)"
    using index_iterator [OF opened] by blast
  obtain it where it: "Seek BlockIterators key it0 = Ret it" "iter_pos it ?idx ?b"
    using blocks.either.seek [OF it0(2) key] unfolding BlockIterators_def by blast
  have ok: "istatus BlockIterators it = Ret OK" "Valid BlockIterators it \<longleftrightarrow> ?b < length blocks"
    using blocks.either.status [OF it(2)] blocks.either.valid [OF it(2)] unfolding BlockIterators_def by simp_all
  show ?thesis
  proof (cases "?b < length blocks")
    case False
    then have "Table_InternalGet port table ro key = Ret (OK, None)"
      using it0(1) it(1) ok C by (simp add: Table_InternalGet_def)
    then show ?thesis using next_block(1) [OF opened key] False by auto
  next
    case b: True
    obtain k h kvs where e: "blocks ! ?b = (k, h, kvs)" by (metis prod.exhaust)
    have mem: "(k, h, kvs) \<in> set blocks" using nth_mem [OF b] e by simp
    have v: "ivalue BlockIterators it = Ret (BlockHandle_EncodeTo h [])"
      using blocks.either.entry [OF it(2)] b index_entries_nth [OF b e] unfolding BlockIterators_def by simp
    obtain denied where d: "filter_denies table key (BlockHandle_EncodeTo h []) = Ret denied" "\<forall>k \<in> fst ` set kvs. filter_alike table key k \<longrightarrow> \<not> denied"
      using filter_denies_block [OF opened mem total] by blast
    show ?thesis
    proof (cases denied)
      case True
      then have "Table_InternalGet port table ro key = Ret (OK, None)"
        using it0(1) it(1) ok C b v d(1) by (simp add: Table_InternalGet_def)
      moreover have "\<not> (?n < length (block_entries blocks) \<and> near_key C ok lt key (fst ?e) \<and> filter_alike table key (fst ?e))"
        using next_block(2) [OF opened key] e d(2) True by force
      ultimately show ?thesis by auto
    next
      case False
      obtain bit ins where bit: "Table_BlockReader port table ro (BlockHandle_EncodeTo h []) = Ret (bit, ins)"
          "iter_pos bit kvs (length kvs)"
        using Table_BlockReader_held [OF opened mem] by blast
      let ?j = "below lt key kvs"
      obtain bit2 where bit2: "Seek BlockIterators key bit = Ret bit2" "iter_pos bit2 kvs ?j"
        using blocks.either.seek [OF bit(2) key] unfolding BlockIterators_def by blast
      have found: "table_block_get port table ro key (BlockHandle_EncodeTo h []) =
          Ret (OK, if ?j < length kvs then Some (kvs ! ?j) else None)"
        using bit(1) bit2(1) blocks.either.status [OF bit2(2)] blocks.either.valid [OF bit2(2)]
          blocks.either.entry [OF bit2(2)]
        unfolding BlockIterators_def by (simp add: table_block_get_def BlockIterators_def)
      then have get: "Table_InternalGet port table ro key =
        Ret (OK, if ?j < length kvs then Some (kvs ! ?j) else None)"
        using it0(1) it(1) ok C b v d(1) False by (simp add: Table_InternalGet_def)
      have "?j < length kvs" if "?n < length (block_entries blocks)" "near_key C ok lt key (fst ?e)"
      proof -
        have "?e \<in> set kvs" using next_block(2) [OF opened key that] e by simp
        moreover have "\<not> lt (fst ?e) key"
          using nth_length_takeWhile [of "\<lambda>kv. lt (fst kv) key" "block_entries blocks"] that(1) by (simp add: below_def)
        ultimately show ?thesis unfolding below_def by (rule takeWhile_stops)
      qed
      moreover have "below lt key (block_entries blocks) < length (block_entries blocks) \<and>
          kvs ! ?j = block_entries blocks ! below lt key (block_entries blocks)" if j: "?j < length kvs"
      proof -
        have ix: "tables.indexed port table ro (length blocks + 2) ?idx (blk_of blocks)"
          "tables.entries ?idx (blk_of blocks) = block_entries blocks"
          using table_indexed(1) [OF opened, where fuel = "length blocks + 2" and ro = ro]
            table_indexed(2) [OF opened, where fuel = "length blocks + 2"] by (simp_all add: tables.entries_def)
        have o: "offsets_apart bytes blocks" "length bytes < 2 ^ 32"
          using opened by (auto simp: table_opened_def)
        have blk: "blk_of blocks (snd (?idx ! ?b)) = kvs"
          using blk_of_block [OF o mem] index_entries_nth [OF b e] by simp
        have "below lt key (block_entries blocks) = tables.start_of ?idx (blk_of blocks) ?b + ?j"
          using tables.below_entries [OF ix(1) key] b by (simp add: ix(2) blk Let_def)
        then show ?thesis
          using tables.entries_nth [where b = ?b and idx = ?idx and k = ?j and blk = "blk_of blocks"]
            tables.in_block_less [where b = ?b and idx = ?idx and k = ?j and blk = "blk_of blocks"] b j
          by (simp add: ix(2) blk)
      qed
      ultimately show ?thesis using get by (intro exI [of _ "if ?j < length kvs then Some (kvs ! ?j) else None"]) auto
    qed
  qed
qed

end

section \<open>Opening a table\<close>

lemma ReadFilter_held:
  assumes "accelerated_ok (AcceleratedCRC32C port)" "reads_bytes (tbl_file table) bytes" "length bytes < 2 ^ 32"
    and held: "block_held port bytes fh (filters_contents filters)" and policy: "opt_filter_policy (tbl_options table) = Some P"
  shows "\<exists>reader. Table_ReadFilter port (BlockHandle_EncodeTo fh []) table =
    Ret (table \<lparr> tbl_filter := Some reader \<rparr>) \<and>
    fr_policy reader = P \<and> length (filters_contents filters) < 2 ^ 32 \<and>
    new_FilterBlockReader P (filters_contents filters) = Ret reader"
proof -
  have len: "length bytes < 2 ^ 64" using assms(3) by simp
  have small: "length (filters_contents filters) < 2 ^ 32" using ReadBlock_held(2) [OF assms(1,2) len held assms(3)] .
  obtain b c where "ReadBlock port (tbl_file table) (opt_paranoid_checks (tbl_options table)) fh =
      Ret (OK, \<lparr> block_data = filters_contents filters, cachable = b, heap_allocated = c \<rparr>)"
    using ReadBlock_held(1) [OF assms(1,2) len held] by blast
  moreover have "BlockHandle_DecodeFrom new_BlockHandle (BlockHandle_EncodeTo fh [] @ []) = (OK, fh, [])"
    by (rule BlockHandle_Decode_Encode)
  ultimately show ?thesis using policy small reader_filters [OF small, of P]
    by (simp add: Table_ReadFilter_def)
qed

lemma ReadMeta_held:
  assumes acc: "accelerated_ok (AcceleratedCRC32C port)" "reads_bytes (tbl_file table) bytes" "length bytes < 2 ^ 32" "1 \<le> iv"
    and meta: "block_held port bytes (metaindex_handle footer) (build_block iv (meta_entries (Some P) fh))"
    and held: "block_held port bytes fh (filters_contents filters)" and policy: "opt_filter_policy (tbl_options table) = Some P"
  shows "\<exists>reader. Table_ReadMeta port footer table = Ret (table \<lparr> tbl_filter := Some reader \<rparr>) \<and>
    fr_policy reader = P \<and> length (filters_contents filters) < 2 ^ 32 \<and>
    new_FilterBlockReader P (filters_contents filters) = Ret reader"
proof -
  let ?kvs = "meta_entries (Some P) fh"
  have kvs: "?kvs = [(filter_key P, BlockHandle_EncodeTo fh [])]" by (simp add: meta_entries_def)
  have len: "length bytes < 2 ^ 64" using acc(3) by simp
  have small: "length (build_block iv ?kvs) < 2 ^ 32" using ReadBlock_held(2) [OF acc(1,2) len meta acc(3)] .
  obtain b c where read: "ReadBlock port (tbl_file table) (opt_paranoid_checks (tbl_options table)) (metaindex_handle footer) =
      Ret (OK, \<lparr> block_data = build_block iv ?kvs, cachable = b, heap_allocated = c \<rparr>)"
    using ReadBlock_held(1) [OF acc(1,2) len meta] by blast
  let ?c = "\<lparr> block_data = build_block iv ?kvs, cachable = b, heap_allocated = c \<rparr>"
  have "sorted_keys (\<lambda>_. True) (<) ?kvs" by (simp add: kvs sorted_keys_def)
  then obtain it where it: "read_block BytewiseComparator ?c = Ret (Inr it)"
      "block_pos BytewiseComparator (\<lambda>_. True) (<) it ?kvs (length ?kvs)"
    using bytewise.read_block_built [OF acc(4) _ small, of ?c] by auto
  have "below (<) (filter_key P) ?kvs = 0" by (simp add: below_def kvs)
  then obtain it2 where it2: "Seek BlockIter (filter_key P) it = Ret it2"
      "block_pos BytewiseComparator (\<lambda>_. True) (<) it2 ?kvs 0"
    using bytewise.block.seek [OF it(2), of "filter_key P"] by auto
  have at: "Valid BlockIter it2" "ikey BlockIter it2 = Ret (filter_key P)" "ivalue BlockIter it2 =
    Ret (BlockHandle_EncodeTo fh [])"
    using bytewise.block.valid [OF it2(2)] bytewise.block.entry [OF it2(2)] by (simp_all add: kvs)
  obtain meta' where meta': "new_Block ?c = Ret meta'" "Block_NewIterator BytewiseComparator meta' = Ret (Inr it)"
    using it(1) new_Block_total [of ?c] by (auto simp: read_block_def)
  have "Table_ReadMeta port footer table = Table_ReadFilter port (BlockHandle_EncodeTo fh []) table"
    using read meta' it2(1) at policy
    by (simp add: Table_ReadMeta_def BlockIterators_def either_iterator_def)
  then show ?thesis using ReadFilter_held [OF acc(1-3) held policy] by simp
qed

lemma Table_Open_built:
  assumes tb: "table_bytes port ok lt opts blocks pre fh mh ih filters"
    and bytes: "bytes = pre @ Footer_EncodeTo \<lparr> metaindex_handle = mh, index_handle = ih \<rparr> []" "length bytes < 2 ^ 32"
    and acc: "accelerated_ok (AcceleratedCRC32C port)" and iv: "1 \<le> opt_block_restart_interval opts"
    and opts: "opt_comparator opts = c"
    and ropts: "opt_comparator ropts = c" "opt_filter_policy ropts = None \<or> opt_filter_policy ropts =
      opt_filter_policy opts"
    and fl: "reads_bytes fl bytes"
    and cache: "fresh_id new_id (opt_block_cache ropts)"
  shows "\<exists>table. Table_Open port new_id ropts fl (of_nat (length bytes)) = Ret (OK, Some table) \<and>
    table_opened port ok lt c bytes (opt_block_restart_interval opts) blocks table \<and>
    (\<forall>reader. tbl_filter table = Some reader \<longrightarrow> opt_filter_policy opts = Some (fr_policy reader))"
proof -
  let ?iv = "opt_block_restart_interval opts" and ?footer = "\<lparr> metaindex_handle = mh, index_handle = ih \<rparr>"
  have held: "block_held port bytes ih (build_block 1 (index_entries blocks))"
      "block_held port bytes mh (build_block ?iv (meta_entries (opt_filter_policy opts) fh))"
      "blocks_held port ?iv bytes blocks"
      "\<forall>P. opt_filter_policy opts = Some P \<longrightarrow> block_held port bytes fh (filters_contents filters) \<and>
        filters_answer P (table_keys blocks) filters" "offsets_apart bytes blocks"
    using tb bytes block_held_append blocks_held_append offsets_apart_append by (fastforce simp: table_bytes_def)+
  have n: "length bytes = length pre + 48" using bytes(1) Footer_round_trip [of ?footer]
    by (simp add: kEncodedLength_def kMaxEncodedLength_def)
  have len: "length bytes < 2 ^ 64" using bytes(2) by simp
  have nn: "unat (of_nat (length bytes) :: u64) = length bytes" by (rule unat_of_nat_u64 [OF len])
  then have u2: "\<not> (of_nat (length bytes) :: u64) < 48" using n by (simp only: word_less_nat_alt) simp
  have "unat (of_nat (length bytes) - 48 :: u64) = unat (of_nat (length bytes) :: u64) - unat (48 :: u64)"
    using u2 by (intro unat_sub) (simp add: not_less)
  then have u: "unat (of_nat (length bytes) - 48 :: u64) = length pre" "\<not> (of_nat (length bytes) :: u64) < 48"
    using nn n u2 by simp_all
  obtain b1 where b1: "fl (of_nat (length bytes) - of_nat kEncodedLength) (of_nat kEncodedLength) =
      (OK, Footer_EncodeTo ?footer [], b1)"
  proof -
    have "\<exists>in_buf. fl (of_nat (length bytes) - 48) 48 =
      (OK, take (unat (48 :: u64)) (drop (unat (of_nat (length bytes) - 48 :: u64)) bytes), in_buf)"
      using fl [unfolded reads_bytes_def, rule_format, where off = "of_nat (length bytes) - 48" and n = 48] u(1) n
      by simp
    moreover have "take 48 (drop (length pre) bytes) = Footer_EncodeTo ?footer []"
      using bytes(1) Footer_round_trip [of ?footer] by (simp add: kEncodedLength_def kMaxEncodedLength_def)
    ultimately show ?thesis using that u(1) by (auto simp: kEncodedLength_def kMaxEncodedLength_def)
  qed
  have footer: "Footer_DecodeFrom f (Footer_EncodeTo ?footer []) = Ret (OK, ?footer, [])" for f
    using Footer_round_trip [of ?footer f "[]"] by simp
  obtain b2 c2 where idx: "ReadBlock port fl (opt_paranoid_checks ropts) ih =
      Ret (OK, \<lparr> block_data = build_block 1 (index_entries blocks), cachable = b2, heap_allocated = c2 \<rparr>)"
    using ReadBlock_held(1) [OF acc fl len held(1)] by blast
  let ?c = "\<lparr> block_data = build_block 1 (index_entries blocks), cachable = b2, heap_allocated = c2 \<rparr>"
  obtain ib where ib: "new_Block ?c = Ret ib" using new_Block_total by blast
  let ?table = "\<lparr> tbl_options = ropts, tbl_file = fl, tbl_cache_id = (if opt_block_cache ropts =
    None then 0 else new_id),
      tbl_filter = None, tbl_metaindex_handle = mh, tbl_index_block = ib \<rparr>"
  have "\<exists>filter. Table_ReadMeta port ?footer ?table = Ret (?table \<lparr> tbl_filter := filter \<rparr>) \<and>
      (\<forall>reader. filter = Some reader \<longrightarrow> opt_filter_policy opts = Some (fr_policy reader) \<and>
        length (filters_contents filters) < 2 ^ 32 \<and>
        new_FilterBlockReader (fr_policy reader) (filters_contents filters) = Ret reader)"
  proof (cases "opt_filter_policy ropts")
    case None
    then show ?thesis by (intro exI [of _ None]) (simp add: Table_ReadMeta_def)
  next
    case (Some P)
    then have P: "opt_filter_policy opts = Some P" using ropts(2) by simp
    have "\<exists>reader. Table_ReadMeta port ?footer ?table = Ret (?table \<lparr> tbl_filter := Some reader \<rparr>) \<and>
      fr_policy reader = P \<and> length (filters_contents filters) < 2 ^ 32 \<and>
      new_FilterBlockReader P (filters_contents filters) = Ret reader"
      using held(2,4) P Some acc fl bytes(2) iv by (intro ReadMeta_held [where iv = ?iv and fh = fh]) auto
    then show ?thesis using P by auto
  qed
  then obtain flt where m: "Table_ReadMeta port ?footer ?table = Ret (?table \<lparr> tbl_filter := flt \<rparr>)"
      "\<forall>reader. flt = Some reader \<longrightarrow> opt_filter_policy opts = Some (fr_policy reader) \<and>
        length (filters_contents filters) < 2 ^ 32 \<and>
        new_FilterBlockReader (fr_policy reader) (filters_contents filters) = Ret reader" by blast
  have cached: "blocks_cached ?iv blocks (?table \<lparr> tbl_filter := flt \<rparr>)"
    using cache by (auto simp: blocks_cached_def fresh_id_def)
  have "Table_Open port new_id ropts fl (of_nat (length bytes)) = Ret (OK, Some (?table \<lparr> tbl_filter := flt \<rparr>))"
    using b1 footer idx ib m(1) u(2)
    by (simp add: Table_Open_def kEncodedLength_def kMaxEncodedLength_def)
  moreover have "table_opened port ok lt c bytes ?iv blocks (?table \<lparr> tbl_filter := flt \<rparr>)"
    using acc fl bytes(2) iv opts ropts(1) cached tb held(3,4,5) ib m(2) ReadBlock_held(2) [OF acc fl len held(1) bytes(2)]
    unfolding table_opened_def by (auto simp: table_bytes_def intro!: exI [of _ ?c])
  ultimately show ?thesis using m(2) by auto
qed

text \<open>What a client reads of an opened table: all of it forwards and backwards, what follows a target, and the
  entry at a key.\<close>

definition table_reads :: "Port \<Rightarrow> (slice \<Rightarrow> slice \<Rightarrow> bool) \<Rightarrow> nat \<Rightarrow> ReadOptions \<Rightarrow> slice \<Rightarrow> (slice \<times> slice) list \<Rightarrow> Table \<Rightarrow> bool" where
  "table_reads port lt fuel ro key kvs table \<longleftrightarrow>
     (\<exists>it. Table_NewIterator table = Ret it \<and>
        res_bind (SeekToFirst (TableIter fuel port table ro) it)
          (collect fuel (TableIter fuel port table ro) (Next (TableIter fuel port table ro))) = Ret kvs \<and>
        res_bind (SeekToLast (TableIter fuel port table ro) it)
          (collect fuel (TableIter fuel port table ro) (Prev (TableIter fuel port table ro))) = Ret (rev kvs) \<and>
        res_bind (Seek (TableIter fuel port table ro) key it)
          (collect fuel (TableIter fuel port table ro) (Next (TableIter fuel port table ro))) =
          Ret (dropWhile (\<lambda>(k, v). lt k key) kvs)) \<and>
     (\<exists>found. Table_InternalGet port table ro key = Ret (OK, found) \<and>
        (\<forall>v. (key, v) \<in> set kvs \<longrightarrow> found = Some (key, v)) \<and>
        (found = None \<or> (\<exists>e rest. found = Some e \<and> dropWhile (\<lambda>(k, v). lt k key) kvs = e # rest)))"

lemma dropWhile_below: "dropWhile (\<lambda>(k, v). lt k key) kvs = drop (below lt key kvs) kvs"
  by (simp add: below_def dropWhile_eq_drop case_prod_beta')

context key_comparator
begin

lemma opened_table_reads:
  assumes opened: "table_opened port ok lt C bytes iv blocks table" and fuel: "length (block_entries blocks) + 1 < fuel"
    and key: "ok key"
    and total: "\<forall>reader. tbl_filter table = Some reader \<longrightarrow> policy_answers (fr_policy reader) key"
  shows "table_reads port lt fuel ro key (block_entries blocks) table"
proof -
  obtain it where it: "Table_NewIterator table = Ret it"
      "tables.over_index port table ro fuel it (block_entries blocks) (length (block_entries blocks))"
    using table_iterates [OF opened fuel] by blast
  have f: "length (block_entries blocks) < fuel" using fuel by simp
  obtain found where found: "Table_InternalGet port table ro key = Ret (OK, found)"
    "\<forall>e. found = Some e \<longrightarrow> below lt key (block_entries blocks) < length (block_entries blocks) \<and>
       e = block_entries blocks ! below lt key (block_entries blocks)"
    "below lt key (block_entries blocks) < length (block_entries blocks) \<and>
     near_key C ok lt key (fst (block_entries blocks ! below lt key (block_entries blocks))) \<and>
     filter_alike table key (fst (block_entries blocks ! below lt key (block_entries blocks))) \<longrightarrow>
       found = Some (block_entries blocks ! below lt key (block_entries blocks))"
    using InternalGet_finds [OF opened key total] by blast
  have sorted: "sorted_keys ok lt (block_entries blocks)" using opened by (simp add: table_opened_def)
  have present: "\<forall>v. (key, v) \<in> set (block_entries blocks) \<longrightarrow> found = Some (key, v)"
    using below_present [OF sorted] near_present [OF key] found(3) by (metis filter_alike_refl fst_conv)
  have "found = None \<or> (\<exists>e rest. found = Some e \<and>
    drop (below lt key (block_entries blocks)) (block_entries blocks) = e # rest)"
    using found(2) by (cases found) (auto simp: Cons_nth_drop_Suc [symmetric])
  then show ?thesis
    using it(1) found(1) present tables.blocks.first_collects [OF it(2) f] tables.blocks.last_collects [OF it(2) f]
      tables.blocks.seek_collects [OF it(2) key f]
    unfolding table_reads_def TableIter_def dropWhile_below by blast
qed

lemma built_table_serves:
  assumes setting: "setting_ok port F written ok C opts" and w: "written w = []"
    and kvs: "sorted_keys ok lt kvs" "length kvs < 2 ^ 31"
    and ropts: "opt_comparator ropts = C" "opt_filter_policy ropts = None \<or> opt_filter_policy ropts =
      opt_filter_policy opts"
  shows "\<exists>this. build_table port F opts kvs w = Ret (OK, this) \<and>
    (length (written (tb_file this)) < 2 ^ 32 \<longrightarrow>
     (\<forall>fl new_id. reads_bytes fl (written (tb_file this)) \<and> fresh_id new_id (opt_block_cache ropts) \<longrightarrow>
       (\<exists>table. Table_Open port new_id ropts fl (of_nat (length (written (tb_file this)))) = Ret (OK, Some table) \<and>
         table_serves port ok lt C kvs table \<and>
         (\<forall>reader. tbl_filter table = Some reader \<longrightarrow> opt_filter_policy opts = Some (fr_policy reader)))))"
proof -
  obtain this blocks pre fh mh ih filters where b: "build_table port F opts kvs w = Ret (OK, this)"
      "written (tb_file this) = pre @ Footer_EncodeTo \<lparr> metaindex_handle = mh, index_handle = ih \<rparr> []"
      "table_bytes port ok lt opts blocks pre fh mh ih filters" "block_entries blocks = kvs"
    using build_table_writes [OF setting w kvs] by blast
  have acc: "accelerated_ok (AcceleratedCRC32C port)" "1 \<le> opt_block_restart_interval opts" "opt_comparator opts = C"
    using setting by (simp_all add: setting_ok_def)
  have "\<exists>table. Table_Open port new_id ropts fl (of_nat (length (written (tb_file this)))) = Ret (OK, Some table) \<and>
         table_serves port ok lt C kvs table \<and>
         (\<forall>reader. tbl_filter table = Some reader \<longrightarrow> opt_filter_policy opts = Some (fr_policy reader))"
    if small: "length (written (tb_file this)) < 2 ^ 32" and fl: "reads_bytes fl (written (tb_file this))"
      and cache: "fresh_id new_id (opt_block_cache ropts)"
    for fl new_id
    using Table_Open_built [OF b(3,2) small acc ropts fl cache] b(4) unfolding table_serves_def by blast
  then show ?thesis using b(1) by blast
qed

lemma built_table_reads:
  assumes setting: "setting_ok port F written ok C opts" and w: "written w = []"
    and kvs: "sorted_keys ok lt kvs" "length kvs < 2 ^ 31"
    and ropts: "opt_comparator ropts = C" "opt_filter_policy ropts = None \<or> opt_filter_policy ropts =
      opt_filter_policy opts"
    and total: "\<forall>P key. opt_filter_policy opts = Some P \<and> ok key \<longrightarrow> policy_answers P key"
  shows "\<exists>this. build_table port F opts kvs w = Ret (OK, this) \<and>
    (length (written (tb_file this)) < 2 ^ 32 \<longrightarrow>
     (\<forall>fl new_id. reads_bytes fl (written (tb_file this)) \<and> fresh_id new_id (opt_block_cache ropts) \<longrightarrow>
       (\<exists>table. Table_Open port new_id ropts fl (of_nat (length (written (tb_file this)))) = Ret (OK, Some table) \<and>
         (\<forall>t fuel ro key. cache_history port table t \<and> length kvs + 1 < fuel \<and> ok key \<longrightarrow>
            table_reads port lt fuel ro key kvs t))))"
proof -
  have "table_reads port lt fuel ro key kvs t"
    if "table_serves port ok lt C kvs table" "cache_history port table t" "length kvs + 1 < fuel" "ok key"
      "\<forall>reader. tbl_filter table = Some reader \<longrightarrow> opt_filter_policy opts =
        Some (fr_policy reader)" for table t fuel ro key
    using cache_history_serves [OF that(2,1)] that opened_table_reads total unfolding table_serves_def by metis
  then show ?thesis using built_table_serves [OF setting w kvs ropts] by meson
qed

end

text \<open>C36: a table round trips. \<open>kvs\<close> is any list of entries in the order of any comparator that keeps the contract of
  \<open>comparator.h\<close>, the builder adds them to a file and finishes, with any options and filter policy, compressed or not.
  The table opens, without and with its filter, over a file that reads the written bytes (less than 4 GB) and under a
  cache id without cached blocks. From then on, without a block cache or in every state the block cache can get into by
  reading blocks of the table, dropping blocks and what other tables do (\<open>cache_history\<close>), its iterator collects exactly
  the entries, forwards and backwards, and a seek the entries that are not below the target. \<open>InternalGet\<close> finds every
  key that is there; for another key it hands on nothing or the next entry. One step more than the entries is fuel enough
  for the loops that skip empty blocks.\<close>

theorem Table_round_trip:
  assumes "key_comparator C ok lt" and "setting_ok port F written ok C opts" and "written w = []"
    and "sorted_keys ok lt kvs" and "length kvs < 2 ^ 31" and "opt_comparator ropts = C"
    and "opt_filter_policy ropts = None \<or> opt_filter_policy ropts = opt_filter_policy opts"
    and "\<forall>P key. opt_filter_policy opts = Some P \<and> ok key \<longrightarrow> policy_answers P key"
  shows "\<exists>this. build_table port F opts kvs w = Ret (OK, this) \<and>
    (length (written (tb_file this)) < 2 ^ 32 \<longrightarrow>
     (\<forall>fl new_id. reads_bytes fl (written (tb_file this)) \<and> fresh_id new_id (opt_block_cache ropts) \<longrightarrow>
       (\<exists>table. Table_Open port new_id ropts fl (of_nat (length (written (tb_file this)))) = Ret (OK, Some table) \<and>
         (\<forall>t fuel ro key. cache_history port table t \<and> length kvs + 1 < fuel \<and> ok key \<longrightarrow>
            table_reads port lt fuel ro key kvs t))))"
  by (rule key_comparator.built_table_reads [OF assms])

definition memory_table :: "slice \<Rightarrow> RandomAccessFile" where
  "memory_table bytes = (\<lambda>off n. (OK, take (unat n) (drop (unat off) bytes), True))"

definition plain_options :: "FilterPolicy option \<Rightarrow> Options" where
  "plain_options policy = \<lparr> opt_comparator = BytewiseComparator, opt_paranoid_checks = True, opt_block_cache = None,
     opt_block_size = 4096, opt_block_restart_interval = 16, opt_compression = kNoCompression,
     opt_filter_policy = policy \<rparr>"

lemma check_probes_total:
  assumes bits: "bits \<noteq> 0" "unat bits \<le> 8 * length array"
  shows "\<exists>r. check_probes n h delta bits array = Ret r"
proof (induction n arbitrary: h)
  case (Suc n)
  have "unat (bitpos h bits) < unat bits" using bits(1) by (simp add: unat_bitpos unat_gt_0)
  then have "unat (bitpos h bits div 8) < length array" using bits(2) by (simp add: unat_div)
  then have "check_probes (Suc n) h delta bits array = Ret False \<or>
      check_probes (Suc n) h delta bits array = check_probes n (h + delta) delta bits array"
    using bits(1) by (simp add: Let_def)
  then show ?case using Suc by metis
qed (metis check_probes.simps(1))

lemma Bloom_answers: "policy_answers (BloomFilter this) key"
  unfolding policy_answers_def
proof (intro allI impI)
  fix f :: slice
  assume len: "length f < 2 ^ 32"
  show "\<exists>r. KeyMayMatch (BloomFilter this) key f = Ret r"
  proof (cases "length f < 2")
    case False
    let ?bits = "(of_nat (length f) - 1) * 8 :: u64"
    have "?bits = of_nat ((length f - 1) * 8)" using False by (simp add: of_nat_diff)
    moreover have "(length f - 1) * 8 < 2 ^ 64" using len by simp
    ultimately have "unat ?bits = (length f - 1) * 8" by (simp only: unat_of_nat_u64)
    then have bits: "?bits \<noteq> 0" "unat ?bits \<le> 8 * length f" using False by auto
    obtain h where "BloomHash key = Ret h" using BloomHash_total by blast
    then have "KeyMayMatch (BloomFilter this) key f = Ret True \<or> (\<exists>n. KeyMayMatch (BloomFilter this) key f =
        check_probes n h (rotate h) ?bits f)"
      using False by (auto simp: Bloom_KeyMayMatch_def BloomFilter_def Let_def)
    then show ?thesis using check_probes_total [of ?bits f] bits by fastforce
  next
    case True
    then have "KeyMayMatch (BloomFilter this) key f = Ret False"
      by (simp add: Bloom_KeyMayMatch_def BloomFilter_def)
    then show ?thesis by blast
  qed
qed

lemma plain_setting:
  "setting_ok plain_port memory_file (\<lambda>w. w) (\<lambda>_. True) BytewiseComparator (plain_options (Some (BloomFilter Bloom10)))"
  using memory_file_ok(1) plain_port_ok bloom10.is_policy
  by (simp add: setting_ok_def snappy_ok_def policy_ok_def plain_options_def plain_port_def)

definition cached_options :: Options where
  "cached_options = (plain_options (Some (BloomFilter Bloom10))) \<lparr> opt_block_cache := Some (\<lambda>_. None) \<rparr>"

lemma cached_block:
  assumes serves: "table_serves port ok lt c kvs table" and key: "key_comparator c ok lt" and kvs: "kvs \<noteq> []"
    and cache: "opt_block_cache (tbl_options table) = Some (\<lambda>_. None)" and buffered: "\<forall>off n. snd (snd (tbl_file table off n))"
  shows "\<exists>key b. cache_history port table (with_cache [key \<mapsto> b] table)"
proof -
  obtain bytes iv blocks where opened: "table_opened port ok lt c bytes iv blocks table" "block_entries blocks = kvs"
    using serves by (auto simp: table_serves_def)
  then obtain k h kvs' where "(k, h, kvs') \<in> set blocks" using kvs by (cases blocks) auto
  then show ?thesis
    using key_comparator.first_read_inserts [OF key opened(1) _ cache _ buffered, of k h kvs' new_ReadOptions]
    by (auto simp: new_ReadOptions_def)
qed

lemma ReadFilter_keeps:
  "Table_ReadFilter port v table = Ret t \<Longrightarrow> tbl_options t = tbl_options table \<and> tbl_file t = tbl_file table"
  by (auto simp: Table_ReadFilter_def res_bind_Ret_iff split: if_splits prod.splits option.splits)

lemma ReadMeta_keeps:
  "Table_ReadMeta port footer table = Ret t \<Longrightarrow> tbl_options t = tbl_options table \<and> tbl_file t = tbl_file table"
  by (auto simp: Table_ReadMeta_def res_bind_Ret_iff dest!: ReadFilter_keeps split: if_splits prod.splits option.splits)

lemma Table_Open_setting:
  "Table_Open port new_id opts fl n = Ret (OK, Some table) \<Longrightarrow> tbl_options table = opts \<and> tbl_file table = fl"
  by (auto simp: Table_Open_def Let_def res_bind_Ret_iff dest!: ReadMeta_keeps split: if_splits prod.splits)

theorem Table_round_trip_witness:
  "\<exists>this. build_table plain_port memory_file cached_options [([1], [5]), ([1, 2], [])] [] = Ret (OK, this) \<and>
    (length (tb_file this) < 2 ^ 32 \<longrightarrow>
     (\<exists>table key b. Table_Open plain_port 7 cached_options (memory_table (tb_file this)) (of_nat (length (tb_file this))) =
          Ret (OK, Some table) \<and>
        table_reads plain_port (<) 4 new_ReadOptions [1, 2] [([1], [5]), ([1, 2], [])] table \<and>
        cache_history plain_port table (with_cache [key \<mapsto> b] table) \<and>
        table_reads plain_port (<) 4 new_ReadOptions [1, 2] [([1], [5]), ([1, 2], [])] (with_cache [key \<mapsto> b] table)))"
proof -
  let ?kvs = "[([1], [5]), ([1, 2], [])] :: (slice \<times> slice) list"
  have o: "opt_block_cache cached_options = Some (\<lambda>_. None)" "opt_filter_policy cached_options = Some (BloomFilter Bloom10)"
    "opt_comparator cached_options = BytewiseComparator" by (simp_all add: cached_options_def plain_options_def)
  have setting: "setting_ok plain_port memory_file (\<lambda>w. w) (\<lambda>_. True) BytewiseComparator cached_options"
    using plain_setting by (simp add: setting_ok_def cached_options_def)
  have kvs: "sorted_keys (\<lambda>_. True) (<) ?kvs" "length ?kvs < 2 ^ 31" by (simp_all add: sorted_keys_def)
  have answers: "\<forall>P key. opt_filter_policy cached_options = Some P \<and> True \<longrightarrow> policy_answers P key"
    by (auto simp: o intro: Bloom_answers)
  obtain this where b: "build_table plain_port memory_file cached_options ?kvs [] = Ret (OK, this)"
    and reads: "length (tb_file this) < 2 ^ 32 \<longrightarrow>
     (\<forall>fl new_id. reads_bytes fl (tb_file this) \<and> fresh_id new_id (opt_block_cache cached_options) \<longrightarrow>
       (\<exists>table. Table_Open plain_port new_id cached_options fl (of_nat (length (tb_file this))) = Ret (OK, Some table) \<and>
         (\<forall>t fuel ro key. cache_history plain_port table t \<and> length ?kvs + 1 < fuel \<and> True \<longrightarrow>
            table_reads plain_port (<) fuel ro key ?kvs t)))"
    using Table_round_trip [OF bytewise.key_comparator_axioms setting refl kvs o(3) disjI2 [OF refl] answers] by blast
  have serves: "length (tb_file this) < 2 ^ 32 \<longrightarrow>
     (\<forall>fl new_id. reads_bytes fl (tb_file this) \<and> fresh_id new_id (opt_block_cache cached_options) \<longrightarrow>
       (\<exists>table. Table_Open plain_port new_id cached_options fl (of_nat (length (tb_file this))) = Ret (OK, Some table) \<and>
         table_serves plain_port (\<lambda>_. True) (<) BytewiseComparator ?kvs table))"
  proof -
    obtain this' where this': "build_table plain_port memory_file cached_options ?kvs [] = Ret (OK, this')"
      "length (tb_file this') < 2 ^ 32 \<longrightarrow>
     (\<forall>fl new_id. reads_bytes fl (tb_file this') \<and> fresh_id new_id (opt_block_cache cached_options) \<longrightarrow>
       (\<exists>table. Table_Open plain_port new_id cached_options fl (of_nat (length (tb_file this'))) = Ret (OK, Some table) \<and>
         table_serves plain_port (\<lambda>_. True) (<) BytewiseComparator ?kvs table \<and>
         (\<forall>reader. tbl_filter table = Some reader \<longrightarrow> opt_filter_policy cached_options = Some (fr_policy reader))))"
      using bytewise.built_table_serves [OF setting refl kvs o(3) disjI2 [OF refl]] by blast
    then have "this' = this" using b by simp
    then show ?thesis using this'(2) by meson
  qed
  have fl: "reads_bytes (memory_table (tb_file this)) (tb_file this)"
    by (auto simp: reads_bytes_def memory_table_def intro: exI [of _ True])
  have id: "fresh_id 7 (opt_block_cache cached_options)" by (simp add: fresh_id_def o)
  show ?thesis
  proof (intro exI [of _ this] conjI impI b)
    assume small: "length (tb_file this) < 2 ^ 32"
    obtain table where t: "Table_Open plain_port 7 cached_options (memory_table (tb_file this)) (of_nat (length (tb_file this))) =
        Ret (OK, Some table)"
      "\<forall>t fuel ro key. cache_history plain_port table t \<and> length ?kvs + 1 < fuel \<and> True \<longrightarrow>
         table_reads plain_port (<) fuel ro key ?kvs t"
      using reads small fl id by meson
    then have s: "table_serves plain_port (\<lambda>_. True) (<) BytewiseComparator ?kvs table"
      using serves small fl id by (metis (no_types, lifting) option.inject prod.inject res.inject(1))
    have "opt_block_cache (tbl_options table) = Some (\<lambda>_. None)" "\<forall>off n. snd (snd (tbl_file table off n))"
      using Table_Open_setting [OF t(1)] o(1) by (simp_all add: memory_table_def)
    from cached_block [OF s bytewise.key_comparator_axioms _ this]
    obtain key b where h: "cache_history plain_port table (with_cache [key \<mapsto> b] table)" by auto
    have "length ?kvs + 1 < 4 \<and> True" by simp
    then have "table_reads plain_port (<) 4 new_ReadOptions [1, 2] ?kvs table"
        "table_reads plain_port (<) 4 new_ReadOptions [1, 2] ?kvs (with_cache [key \<mapsto> b] table)"
      using t(2) cache_history.opened h by blast+
    then show "\<exists>table key b. Table_Open plain_port 7 cached_options (memory_table (tb_file this)) (of_nat (length (tb_file this))) =
          Ret (OK, Some table) \<and>
        table_reads plain_port (<) 4 new_ReadOptions [1, 2] ?kvs table \<and>
        cache_history plain_port table (with_cache [key \<mapsto> b] table) \<and>
        table_reads plain_port (<) 4 new_ReadOptions [1, 2] ?kvs (with_cache [key \<mapsto> b] table)"
      using t(1) h by blast
  qed
qed

end
