(* ===== verification/LdbMerger.thy ===== *)
theory LdbMerger
  imports LdbTableRead
begin

text \<open>
  The merging iterator of \<open>merger.cc\<close>: an iterator over the entries of several iterators in the order of a
  comparator. \<open>Is i\<close> are the virtual functions of the child \<open>i\<close>, and \<open>current_\<close>, a pointer into the array of the
  children, is an index. The locale \<open>merging\<close> has children that keep the contract of an iterator and shows that
  the merging iterator keeps it too, for every change of direction.
\<close>

section \<open>The class\<close>

datatype Direction = kForward | kReverse

record 's MergingIterator =
  m_children :: "'s IteratorWrapper list"
  m_current :: "nat option"
  m_direction :: Direction

text \<open>A loop over all children from the index \<open>i\<close> on.\<close>

fun each_child :: "(nat \<Rightarrow> 's IteratorWrapper \<Rightarrow> 's IteratorWrapper res) \<Rightarrow> nat \<Rightarrow> 's IteratorWrapper list \<Rightarrow>
    's IteratorWrapper list res" where
  "each_child f i [] = Ret []"
| "each_child f i (c # cs) =
     res_bind (f i c) (\<lambda>c. res_bind (each_child f (Suc i) cs) (\<lambda>cs. Ret (c # cs)))"

definition move_children :: "(nat \<Rightarrow> 's IteratorWrapper \<Rightarrow> 's IteratorWrapper res) \<Rightarrow> 's MergingIterator \<Rightarrow>
    's MergingIterator res" where
  "move_children f this =
     res_bind (each_child f 0 (m_children this)) (\<lambda>cs. Ret (this \<lparr> m_children := cs \<rparr>))"

fun find_child :: "(int \<Rightarrow> bool) \<Rightarrow> Comparator \<Rightarrow> 's IteratorWrapper list \<Rightarrow> nat list \<Rightarrow> nat option \<Rightarrow> nat option res" where
  "find_child better C children [] best = Ret best"
| "find_child better C children (i # is) best =
     (if w_valid (children ! i)
      then case best of
             None \<Rightarrow> find_child better C children is (Some i)
           | Some b \<Rightarrow> res_bind (Compare C (w_key (children ! i)) (w_key (children ! b))) (\<lambda>r.
               find_child better C children is (if better r then Some i else best))
      else find_child better C children is best)"

definition FindSmallest :: "Comparator \<Rightarrow> 's MergingIterator \<Rightarrow> 's MergingIterator res" where
  "FindSmallest C this =
     res_bind (find_child (\<lambda>r. r < 0) C (m_children this) [0..<length (m_children this)] None) (\<lambda>smallest.
       Ret (this \<lparr> m_current := smallest \<rparr>))"

definition FindLargest :: "Comparator \<Rightarrow> 's MergingIterator \<Rightarrow> 's MergingIterator res" where
  "FindLargest C this =
     res_bind (find_child (\<lambda>r. r > 0) C (m_children this) (rev [0..<length (m_children this)]) None) (\<lambda>largest.
       Ret (this \<lparr> m_current := largest \<rparr>))"

definition merging_SeekToFirst :: "(nat \<Rightarrow> 's Iterator) \<Rightarrow> Comparator \<Rightarrow> 's MergingIterator \<Rightarrow> 's MergingIterator res" where
  "merging_SeekToFirst Is C this =
     res_bind (move_children (\<lambda>i. SeekToFirst (WrappedIterator (Is i))) this) (\<lambda>this.
     res_bind (FindSmallest C this) (\<lambda>this. Ret (this \<lparr> m_direction := kForward \<rparr>)))"

definition merging_SeekToLast :: "(nat \<Rightarrow> 's Iterator) \<Rightarrow> Comparator \<Rightarrow> 's MergingIterator \<Rightarrow> 's MergingIterator res" where
  "merging_SeekToLast Is C this =
     res_bind (move_children (\<lambda>i. SeekToLast (WrappedIterator (Is i))) this) (\<lambda>this.
     res_bind (FindLargest C this) (\<lambda>this. Ret (this \<lparr> m_direction := kReverse \<rparr>)))"

definition merging_Seek :: "(nat \<Rightarrow> 's Iterator) \<Rightarrow> Comparator \<Rightarrow> slice \<Rightarrow> 's MergingIterator \<Rightarrow> 's MergingIterator res" where
  "merging_Seek Is C target this =
     res_bind (move_children (\<lambda>i. Seek (WrappedIterator (Is i)) target) this) (\<lambda>this.
     res_bind (FindSmallest C this) (\<lambda>this. Ret (this \<lparr> m_direction := kForward \<rparr>)))"

text \<open>The bodies of the loops that position the other children when the direction changes.\<close>

definition after_key :: "'s Iterator \<Rightarrow> Comparator \<Rightarrow> slice \<Rightarrow> 's IteratorWrapper \<Rightarrow> 's IteratorWrapper res" where
  "after_key I C key child =
     res_bind (Seek (WrappedIterator I) key child) (\<lambda>child.
       if w_valid child
       then res_bind (Compare C key (w_key child)) (\<lambda>r.
              if r = 0 then Next (WrappedIterator I) child else Ret child)
       else Ret child)"

definition before_key :: "'s Iterator \<Rightarrow> slice \<Rightarrow> 's IteratorWrapper \<Rightarrow> 's IteratorWrapper res" where
  "before_key I key child =
     res_bind (Seek (WrappedIterator I) key child) (\<lambda>child.
       if w_valid child then Prev (WrappedIterator I) child else SeekToLast (WrappedIterator I) child)"

definition move_current :: "(nat \<Rightarrow> 's IteratorWrapper \<Rightarrow> 's IteratorWrapper res) \<Rightarrow> nat \<Rightarrow> 's MergingIterator \<Rightarrow>
    's MergingIterator res" where
  "move_current f c this =
     res_bind (f c (m_children this ! c)) (\<lambda>child.
       Ret (this \<lparr> m_children := (m_children this)[c := child] \<rparr>))"

definition merging_Next :: "(nat \<Rightarrow> 's Iterator) \<Rightarrow> Comparator \<Rightarrow> 's MergingIterator \<Rightarrow> 's MergingIterator res" where
  "merging_Next Is C this =
     (case m_current this of
        None \<Rightarrow> Undef
      | Some current \<Rightarrow>
          let key = w_key (m_children this ! current)
          in res_bind
               (if m_direction this \<noteq> kForward
                then res_bind (move_children (\<lambda>i child. if i \<noteq> current then after_key (Is i) C key child else Ret child) this)
                       (\<lambda>this. Ret (this \<lparr> m_direction := kForward \<rparr>))
                else Ret this) (\<lambda>this.
             res_bind (move_current (\<lambda>i. Next (WrappedIterator (Is i))) current this) (FindSmallest C)))"

definition merging_Prev :: "(nat \<Rightarrow> 's Iterator) \<Rightarrow> Comparator \<Rightarrow> 's MergingIterator \<Rightarrow> 's MergingIterator res" where
  "merging_Prev Is C this =
     (case m_current this of
        None \<Rightarrow> Undef
      | Some current \<Rightarrow>
          let key = w_key (m_children this ! current)
          in res_bind
               (if m_direction this \<noteq> kReverse
                then res_bind (move_children (\<lambda>i child. if i \<noteq> current then before_key (Is i) key child else Ret child) this)
                       (\<lambda>this. Ret (this \<lparr> m_direction := kReverse \<rparr>))
                else Ret this) (\<lambda>this.
             res_bind (move_current (\<lambda>i. Prev (WrappedIterator (Is i))) current this) (FindLargest C)))"

text \<open>The first status that is not \<open>OK\<close>.\<close>

fun children_status :: "(nat \<Rightarrow> 's Iterator) \<Rightarrow> nat \<Rightarrow> 's IteratorWrapper list \<Rightarrow> Status res" where
  "children_status Is i [] = Ret OK"
| "children_status Is i (c # cs) =
     res_bind (istatus (WrappedIterator (Is i)) c) (\<lambda>status.
       if \<not> Status_ok status then Ret status
       else if cs = [] then Ret status else children_status Is (Suc i) cs)"

definition MergingIter :: "(nat \<Rightarrow> 's Iterator) \<Rightarrow> Comparator \<Rightarrow> 's MergingIterator Iterator" where
  "MergingIter Is C =
     \<lparr> Valid = \<lambda>this. m_current this \<noteq> None,
       SeekToFirst = merging_SeekToFirst Is C,
       SeekToLast = merging_SeekToLast Is C,
       Seek = merging_Seek Is C,
       Next = merging_Next Is C,
       Prev = merging_Prev Is C,
       ikey = \<lambda>this. (case m_current this of
         None \<Rightarrow> Undef | Some c \<Rightarrow> ikey (WrappedIterator (Is c)) (m_children this ! c)),
       ivalue = \<lambda>this. (case m_current this of
         None \<Rightarrow> Undef | Some c \<Rightarrow> ivalue (WrappedIterator (Is c)) (m_children this ! c)),
       istatus = \<lambda>this. children_status Is 0 (m_children this) \<rparr>"

fun wrap_children :: "(nat \<Rightarrow> 's Iterator) \<Rightarrow> nat \<Rightarrow> 's list \<Rightarrow> 's IteratorWrapper list res" where
  "wrap_children Is i [] = Ret []"
| "wrap_children Is i (s # ss) =
     res_bind (new_IteratorWrapper (Is i) (Some s)) (\<lambda>c.
     res_bind (wrap_children Is (Suc i) ss) (\<lambda>cs. Ret (c # cs)))"

definition new_MergingIterator :: "(nat \<Rightarrow> 's Iterator) \<Rightarrow> 's list \<Rightarrow> 's MergingIterator res" where
  "new_MergingIterator Is children =
     res_bind (wrap_children Is 0 children) (\<lambda>cs.
       Ret \<lparr> m_children = cs, m_current = None, m_direction = kForward \<rparr>)"

text \<open>With no child the result is the empty iterator, with one child that child.\<close>

type_synonym 's MergedIterator = "Status + 's + 's MergingIterator"

definition NewMergingIterator :: "(nat \<Rightarrow> 's Iterator) \<Rightarrow> 's list \<Rightarrow> 's MergedIterator res" where
  "NewMergingIterator Is children =
     (case children of
        [] \<Rightarrow> Ret (Inl NewEmptyIterator)
      | [child] \<Rightarrow> Ret (Inr (Inl child))
      | _ \<Rightarrow> res_bind (new_MergingIterator Is children) (\<lambda>m. Ret (Inr (Inr m))))"

definition MergedIterators :: "(nat \<Rightarrow> 's Iterator) \<Rightarrow> Comparator \<Rightarrow> 's MergedIterator Iterator" where
  "MergedIterators Is C =
     either_iterator EmptyIterator (either_iterator (Is 0) (MergingIter Is C))"

section \<open>Parts of a list\<close>

text \<open>\<open>part own kvs c\<close> are the entries that belong to the child \<open>c\<close>, and \<open>count own kvs c i\<close> is how many of
  them stand before \<open>i\<close>.\<close>

definition part :: "('a \<Rightarrow> nat) \<Rightarrow> 'a list \<Rightarrow> nat \<Rightarrow> 'a list" where
  "part own kvs c = filter (\<lambda>e. own e = c) kvs"

definition count :: "('a \<Rightarrow> nat) \<Rightarrow> 'a list \<Rightarrow> nat \<Rightarrow> nat \<Rightarrow> nat" where
  "count own kvs c i = length (part own (take i kvs) c)"

lemma count_0 [simp]: "count own kvs c 0 = 0"
  by (simp add: count_def part_def)

lemma count_all [simp]: "count own kvs c (length kvs) = length (part own kvs c)"
  by (simp add: count_def)

lemma count_Suc: "i < length kvs \<Longrightarrow> count own kvs c (Suc i) = count own kvs c i + (if own (kvs ! i) = c then 1 else 0)"
  by (simp add: count_def part_def take_Suc_conv_app_nth)

lemma part_split: "part own kvs c = part own (take i kvs) c @ part own (drop i kvs) c"
  unfolding part_def by (metis append_take_drop_id filter_append)

lemma count_le: "count own kvs c i \<le> length (part own kvs c)"
  by (simp add: count_def part_split [of own kvs c i])

lemma part_own:
  assumes "i < length kvs"
  shows "count own kvs (own (kvs ! i)) i < length (part own kvs (own (kvs ! i)))"
    "part own kvs (own (kvs ! i)) ! count own kvs (own (kvs ! i)) i = kvs ! i"
proof -
  have "part own kvs (own (kvs ! i)) = part own (take i kvs) (own (kvs ! i)) @
    kvs ! i # part own (drop (Suc i) kvs) (own (kvs ! i))"
    using part_split [of own kvs "own (kvs ! i)" i] Cons_nth_drop_Suc [OF assms]
    by (metis (mono_tags, lifting) filter.simps(2) part_def)
  then show "count own kvs (own (kvs ! i)) i < length (part own kvs (own (kvs ! i)))"
    "part own kvs (own (kvs ! i)) ! count own kvs (own (kvs ! i)) i = kvs ! i"
    by (simp_all add: count_def)
qed

lemma part_after:
  assumes "count own kvs c i < length (part own kvs c)"
  shows "\<exists>j. i \<le> j \<and> j < length kvs \<and> own (kvs ! j) = c \<and> part own kvs c ! count own kvs c i = kvs ! j"
proof -
  have "part own kvs c ! count own kvs c i = part own (drop i kvs) c ! 0" and "part own (drop i kvs) c \<noteq> []"
    using assms part_split [of own kvs c i] by (auto simp: count_def nth_append)
  then have "part own kvs c ! count own kvs c i \<in> set (part own (drop i kvs) c)" using nth_mem by fastforce
  then obtain k where "k < length (drop i kvs)" "drop i kvs ! k = part own kvs c ! count own kvs c i"
      "own (part own kvs c ! count own kvs c i) = c"
    by (auto simp: part_def in_set_conv_nth)
  then show ?thesis by (intro exI [of _ "i + k"]) auto
qed

lemma part_before:
  assumes "0 < count own kvs c i"
  shows "\<exists>j. j < i \<and> j < length kvs \<and> own (kvs ! j) = c \<and> part own kvs c ! (count own kvs c i - 1) = kvs ! j"
proof -
  have "part own kvs c ! (count own kvs c i - 1) \<in> set (part own (take i kvs) c)"
    using assms part_split [of own kvs c i] by (auto simp: count_def nth_append intro!: nth_mem)
  then obtain k where "k < length (take i kvs)" "take i kvs ! k = part own kvs c ! (count own kvs c i - 1)"
      "own (part own kvs c ! (count own kvs c i - 1)) = c"
    by (auto simp: part_def in_set_conv_nth)
  then show ?thesis by (intro exI [of _ k]) auto
qed

text \<open>A loop over the children moves each of them.\<close>

lemma each_child_moves:
  assumes "\<forall>j < length cs. \<exists>c'. f (i + j) (cs ! j) = Ret c' \<and> Q (i + j) c'"
  shows "\<exists>cs'. each_child f i cs = Ret cs' \<and> length cs' = length cs \<and> (\<forall>j < length cs'. Q (i + j) (cs' ! j))"
  using assms
proof (induction cs arbitrary: i)
  case (Cons c cs)
  obtain c' where c': "f i c = Ret c'" "Q i c'" using Cons.prems [rule_format, of 0] by auto
  have "\<exists>cs'. each_child f (Suc i) cs = Ret cs' \<and> length cs' = length cs \<and> (\<forall>j < length cs'. Q (Suc i + j) (cs' ! j))"
    using Cons.prems by (intro Cons.IH) fastforce
  then obtain cs' where "each_child f (Suc i) cs = Ret cs'" "length cs' =
    length cs" "\<forall>j < length cs'. Q (Suc i + j) (cs' ! j)"
    by blast
  then show ?case using c' by (intro exI [of _ "c' # cs'"]) (auto simp: nth_Cons split: nat.splits)
qed simp

section \<open>The contract\<close>

context wrapped_iterator
begin

lemma is_iterator: "iterator (WrappedIterator I) ok lt base.wrapped"
  by (rule wrapper.iterator_axioms)

end

locale merging = key_comparator C ok lt
  for C :: Comparator and ok :: "slice \<Rightarrow> bool" and lt :: "slice \<Rightarrow> slice \<Rightarrow> bool" +
  fixes Is :: "nat \<Rightarrow> 's Iterator" and poss :: "nat \<Rightarrow> 's \<Rightarrow> (slice \<times> slice) list \<Rightarrow> nat \<Rightarrow> bool" and n :: nat
  assumes child: "c < n \<Longrightarrow> iterator (Is c) ok lt (poss c)"
begin

definition child_at :: "nat \<Rightarrow> 's IteratorWrapper \<Rightarrow> (slice \<times> slice) list \<Rightarrow> nat \<Rightarrow> bool" where
  "child_at c = iterator.wrapped (poss c)"

lemma wrapped_child: "c < n \<Longrightarrow> iterator (WrappedIterator (Is c)) ok lt (child_at c)"
  unfolding child_at_def by (rule wrapped_iterator.is_iterator) (simp add: wrapped_iterator_def child)

lemma child_at_valid: "c < n \<Longrightarrow> child_at c w kvs i \<Longrightarrow> w_valid w \<longleftrightarrow> i < length kvs"
  using iterator.valid [OF wrapped_child] by (simp add: WrappedIterator_def)

lemma child_at_key: "c < n \<Longrightarrow> child_at c w kvs i \<Longrightarrow> i < length kvs \<Longrightarrow> w_key w = fst (kvs ! i)"
  using iterator.entry [OF wrapped_child] by (simp add: WrappedIterator_def)

text \<open>\<open>kvs\<close> is the merge of the lists of the children; \<open>own\<close> tells whose an entry is.\<close>

definition merge :: "((slice \<times> slice) \<Rightarrow> nat) \<Rightarrow> (slice \<times> slice) list \<Rightarrow> bool" where
  "merge own kvs \<longleftrightarrow> sorted_keys ok lt kvs \<and> (\<forall>e \<in> set kvs. own e < n)"

text \<open>Where a child stands that has the entry before \<open>i\<close> as its current one.\<close>

definition count_back :: "((slice \<times> slice) \<Rightarrow> nat) \<Rightarrow> (slice \<times> slice) list \<Rightarrow> nat \<Rightarrow> nat \<Rightarrow> nat" where
  "count_back own kvs c i = (if count own kvs c i = 0 then length (part own kvs c) else count own kvs c i - 1)"

definition all_at :: "((slice \<times> slice) \<Rightarrow> nat) \<Rightarrow> (slice \<times> slice) list \<Rightarrow> (nat \<Rightarrow> nat) \<Rightarrow> 's IteratorWrapper list \<Rightarrow> bool" where
  "all_at own kvs p cs \<longleftrightarrow> length cs = n \<and> (\<forall>c < n. child_at c (cs ! c) (part own kvs c) (p c))"

definition merged_over :: "((slice \<times> slice) \<Rightarrow> nat) \<Rightarrow> 's MergingIterator \<Rightarrow> (slice \<times> slice) list \<Rightarrow> nat \<Rightarrow> bool" where
  "merged_over own this kvs i \<longleftrightarrow> merge own kvs \<and> i \<le> length kvs \<and>
     (if i < length kvs
      then m_current this = Some (own (kvs ! i)) \<and>
        all_at own kvs (\<lambda>c. if c = own (kvs ! i) \<or> m_direction this = kForward then count own kvs c i
          else count_back own kvs c i) (m_children this)
      else m_current this = None \<and> (\<exists>p. all_at own kvs p (m_children this)))"

definition merged_pos :: "'s MergingIterator \<Rightarrow> (slice \<times> slice) list \<Rightarrow> nat \<Rightarrow> bool" where
  "merged_pos this kvs i \<longleftrightarrow> (\<exists>own. merged_over own this kvs i)"

lemma key_less: "sorted_keys ok lt kvs \<Longrightarrow> i < j \<Longrightarrow> j < length kvs \<Longrightarrow> lt (fst (kvs ! i)) (fst (kvs ! j))"
  by (simp add: sorted_keys_def sorted_wrt_iff_nth_less)

lemma key_inj: "sorted_keys ok lt kvs \<Longrightarrow> i < length kvs \<Longrightarrow> j < length kvs \<Longrightarrow> fst (kvs ! i) = fst (kvs ! j) \<longleftrightarrow> i = j"
  using key_less [of kvs i j] key_less [of kvs j i] irrefl by (metis nat_neq_iff)

lemma merge_own: "merge own kvs \<Longrightarrow> i < length kvs \<Longrightarrow> own (kvs ! i) < n"
  by (simp add: merge_def)

lemma below_part:
  assumes "sorted_keys ok lt kvs" "ok target"
  shows "below lt target (part own kvs c) = count own kvs c (below lt target kvs)"
  using assms(1)
proof (induction kvs)
  case (Cons e kvs)
  have tail: "sorted_keys ok lt kvs" using Cons.prems by (simp add: sorted_keys_def)
  show ?case
  proof (cases "lt (fst e) target")
    case True
    then show ?thesis using Cons.IH [OF tail] by (simp add: below_def count_def part_def)
  next
    case False
    have "\<forall>kv \<in> set kvs. \<not> lt (fst kv) target"
      using Cons.prems False trans [of "fst e" _ target] assms(2) by (auto simp: sorted_keys_def list_all_iff)
    then have "\<forall>kv \<in> set (part own kvs c). \<not> lt (fst kv) target" by (simp add: part_def)
    then have "takeWhile (\<lambda>kv. lt (fst kv) target) (part own kvs c) = []" by (cases "part own kvs c") simp_all
    then show ?thesis using False by (simp add: below_def count_def part_def)
  qed
qed (simp add: below_def count_def part_def)

lemma below_key: "sorted_keys ok lt kvs \<Longrightarrow> i < length kvs \<Longrightarrow> below lt (fst (kvs ! i)) kvs = i"
proof -
  assume s: "sorted_keys ok lt kvs" and i: "i < length kvs"
  have k: "ok (fst (kvs ! i))" using ok_nth [OF s i] .
  have "\<not> below lt (fst (kvs ! i)) kvs < i"
  proof
    assume b: "below lt (fst (kvs ! i)) kvs < i"
    then have "\<not> lt (fst (kvs ! below lt (fst (kvs ! i)) kvs)) (fst (kvs ! i))" using below_iff [OF s k] i by force
    then show False using key_less [OF s b i] by simp
  qed
  moreover have "\<not> i < below lt (fst (kvs ! i)) kvs" using below_iff [OF s k i] irrefl by simp
  ultimately show ?thesis by simp
qed

text \<open>The search for the best child.\<close>

lemma find_child_best:
  assumes "\<forall>c \<in> set is. w_valid (children ! c) \<longrightarrow> ok (w_key (children ! c))"
    and "\<forall>c \<in> set is. w_valid (children ! c) \<and> c \<noteq> s \<longrightarrow> best_lt (w_key (children ! s)) (w_key (children ! c))"
    and "s \<in> set is \<or> best = Some s" and "w_valid (children ! s)" "ok (w_key (children ! s))"
    and "\<forall>b. best = Some b \<longrightarrow> ok (w_key (children ! b)) \<and> (b = s \<or>
      best_lt (w_key (children ! s)) (w_key (children ! b)))"
    and better: "\<forall>a b r. ok a \<and> ok b \<and> Compare C a b = Ret r \<longrightarrow> better r = best_lt a b"
    and order: "\<forall>a b. ok a \<and> ok b \<longrightarrow> \<not> best_lt a a \<and> (best_lt a b \<longrightarrow> \<not> best_lt b a)"
  shows "find_child better C children is best = Ret (Some s)"
  using assms(1-6)
proof (induction "is" arbitrary: best)
  case (Cons i "is")
  show ?case
  proof (cases "w_valid (children ! i)")
    case False
    then have "s \<in> set is \<or> best = Some s" using Cons.prems(3,4) by auto
    then show ?thesis using Cons.IH [of best] Cons.prems False by simp
  next
    case True
    show ?thesis
    proof (cases best)
      case None
      then show ?thesis using Cons.IH [of "Some i"] Cons.prems True by auto
    next
      case (Some b)
      obtain r where r: "Compare C (w_key (children ! i)) (w_key (children ! b)) = Ret r"
        using Cons.prems(1,6) Some True cmp [of "w_key (children ! i)" "w_key (children ! b)"] by auto
      then have b: "better r = best_lt (w_key (children ! i)) (w_key (children ! b))"
        using better Cons.prems(1,6) Some True by auto
      have "find_child better C children is (if better r then Some i else best) = Ret (Some s)"
      proof (rule Cons.IH)
        show "s \<in> set is \<or> (if better r then Some i else best) = Some s"
          using Cons.prems(1,2,3,4,5,6) Some True b order by auto
        show "\<forall>b'. (if better r then Some i else best) = Some b' \<longrightarrow>
            ok (w_key (children ! b')) \<and> (b' = s \<or> best_lt (w_key (children ! s)) (w_key (children ! b')))"
          using Cons.prems(1,2,6) True by auto
      qed (use Cons.prems in auto)
      then show ?thesis using True Some r by (cases "better r") simp_all
    qed
  qed
qed auto

lemma find_child_none: "\<forall>c \<in> set is. \<not> w_valid (children ! c) \<Longrightarrow> find_child better C children is None = Ret None"
  by (induction "is") simp_all

text \<open>A move of every child.\<close>

lemma move_children_all:
  assumes at: "all_at own kvs p (m_children this)"
    and move: "\<And>c w. c < n \<Longrightarrow> child_at c w (part own kvs c) (p c) \<Longrightarrow> w = m_children this ! c \<Longrightarrow>
      \<exists>w'. f c w = Ret w' \<and> child_at c w' (part own kvs c) (q c)"
  shows "\<exists>cs. move_children f this = Ret (this \<lparr> m_children := cs \<rparr>) \<and> all_at own kvs q cs"
proof -
  have len: "length (m_children this) = n" using at by (simp add: all_at_def)
  have "\<exists>cs. each_child f 0 (m_children this) = Ret cs \<and> length cs = length (m_children this) \<and>
      (\<forall>j < length cs. child_at (0 + j) (cs ! j) (part own kvs (0 + j)) (q (0 + j)))"
    by (rule each_child_moves) (use at move len in \<open>auto simp: all_at_def\<close>)
  then show ?thesis using len by (auto simp: move_children_def all_at_def)
qed

lemma all_at_child: "all_at own kvs p cs \<Longrightarrow> c < n \<Longrightarrow> child_at c (cs ! c) (part own kvs c) (p c)"
  by (simp add: all_at_def)

lemma part_ok: "sorted_keys ok lt kvs \<Longrightarrow> e \<in> set (part own kvs c) \<Longrightarrow> ok (fst e)"
  by (auto simp: part_def sorted_keys_def list_all_iff)

text \<open>A valid child has the key of one of its entries.\<close>

lemma all_at_key:
  assumes "all_at own kvs p cs" "c < n" "w_valid (cs ! c)"
  shows "p c < length (part own kvs c)" "w_key (cs ! c) = fst (part own kvs c ! p c)"
proof -
  show p: "p c < length (part own kvs c)" using child_at_valid [OF assms(2) all_at_child [OF assms(1,2)]] assms(3) by simp
  show "w_key (cs ! c) = fst (part own kvs c ! p c)"
    by (rule child_at_key [OF assms(2) all_at_child [OF assms(1,2)] p])
qed

lemma all_at_ok:
  assumes "merge own kvs" "all_at own kvs p cs" "c < n" "w_valid (cs ! c)"
  shows "ok (w_key (cs ! c))"
  using all_at_key [OF assms(2-4)] part_ok [OF _ nth_mem] assms(1) by (simp add: merge_def)

text \<open>When all children stand behind the entries before \<open>i\<close>, the smallest is the owner of the entry \<open>i\<close>.\<close>

lemma FindSmallest_at:
  assumes merge: "merge own kvs" and i: "i \<le> length kvs"
    and at: "all_at own kvs (\<lambda>c. count own kvs c i) (m_children this)"
  shows "\<exists>this'. FindSmallest C this = Ret this' \<and> m_children this' = m_children this \<and> m_direction this' =
    m_direction this \<and>
    m_current this' = (if i < length kvs then Some (own (kvs ! i)) else None)"
proof -
  let ?cs = "m_children this"
  have len: "length ?cs = n" using at by (simp add: all_at_def)
  have sorted: "sorted_keys ok lt kvs" using merge by (simp add: merge_def)
  have "find_child (\<lambda>r. r < 0) C ?cs [0..<n] None = Ret (if i < length kvs then Some (own (kvs ! i)) else None)"
  proof (cases "i < length kvs")
    case True
    let ?s = "own (kvs ! i)"
    have s: "?s < n" using merge True by (simp add: merge_def)
    have v: "w_valid (?cs ! ?s)" "w_key (?cs ! ?s) = fst (kvs ! i)"
      using child_at_valid [OF s all_at_child [OF at s]] child_at_key [OF s all_at_child [OF at s]] part_own [OF True, of own] by simp_all
    have "lt (w_key (?cs ! ?s)) (w_key (?cs ! c))" if c: "c < n" "w_valid (?cs ! c)" "c \<noteq> ?s" for c
    proof -
      note k = all_at_key [OF at c(1,2)]
      obtain j where j: "i \<le> j" "j < length kvs" "own (kvs ! j) = c" "part own kvs c ! count own kvs c i = kvs ! j"
        using part_after [OF k(1)] by blast
      then have "i < j" using c(3) by (cases "i = j") auto
      then show ?thesis using v(2) k(2) j key_less [OF sorted, of i j] by simp
    qed
    then have "find_child (\<lambda>r. r < 0) C ?cs [0..<n] None = Ret (Some ?s)"
      using s v all_at_ok [OF merge at] ok_nth [OF sorted True] cmp_less irrefl asym
      by (intro find_child_best [where best_lt = lt]) auto
    then show ?thesis using True by simp
  next
    case False
    then have "i = length kvs" using i by simp
    then have "\<not> w_valid (?cs ! c)" if "c < n" for c using child_at_valid [OF that all_at_child [OF at that]] by simp
    then show ?thesis using False find_child_none [of "[0..<n]" ?cs] by simp
  qed
  then show ?thesis using len by (simp add: FindSmallest_def)
qed

lemma FindLargest_at:
  assumes merge: "merge own kvs" and i: "i \<le> length kvs"
    and at: "all_at own kvs (\<lambda>c. count_back own kvs c i) (m_children this)"
  shows "\<exists>this'. FindLargest C this = Ret this' \<and> m_children this' = m_children this \<and> m_direction this' =
    m_direction this \<and>
    m_current this' = (if 0 < i then Some (own (kvs ! (i - 1))) else None)"
proof -
  let ?cs = "m_children this"
  have len: "length ?cs = n" using at by (simp add: all_at_def)
  have sorted: "sorted_keys ok lt kvs" using merge by (simp add: merge_def)
  have "find_child (\<lambda>r. r > 0) C ?cs (rev [0..<n]) None = Ret (if 0 < i then Some (own (kvs ! (i - 1))) else None)"
  proof (cases "0 < i")
    case True
    let ?s = "own (kvs ! (i - 1))"
    have i1: "i - 1 < length kvs" using True i by simp
    have s: "?s < n" using merge i1 by (simp add: merge_def)
    have c1: "count own kvs ?s i = Suc (count own kvs ?s (i - 1))" using count_Suc [OF i1, of own ?s] True by simp
    have v: "w_valid (?cs ! ?s)" "w_key (?cs ! ?s) = fst (kvs ! (i - 1))"
      using child_at_valid [OF s all_at_child [OF at s]] child_at_key [OF s all_at_child [OF at s]] part_own [OF i1, of own] c1
      by (simp_all add: count_back_def)
    have "lt (w_key (?cs ! c)) (w_key (?cs ! ?s))" if c: "c < n" "w_valid (?cs ! c)" "c \<noteq> ?s" for c
    proof -
      note k = all_at_key [OF at c(1,2)]
      then have "0 < count own kvs c i" by (simp add: count_back_def split: if_splits)
      from part_before [OF this]
      obtain j where j: "j < i" "j < length kvs" "own (kvs ! j) =
        c" "part own kvs c ! (count own kvs c i - 1) = kvs ! j"
        by blast
      then have "j < i - 1" using c(3) by (cases "j = i - 1") auto
      then show ?thesis using v(2) k(2) j key_less [OF sorted, of j "i - 1"] i1 \<open>0 < count own kvs c i\<close>
        by (simp add: count_back_def)
    qed
    then have "find_child (\<lambda>r. r > 0) C ?cs (rev [0..<n]) None = Ret (Some ?s)"
      using s v all_at_ok [OF merge at] ok_nth [OF sorted i1] cmp_greater irrefl asym
      by (intro find_child_best [where best_lt = "\<lambda>a b. lt b a"]) auto
    then show ?thesis using True by simp
  next
    case False
    then have "\<not> w_valid (?cs ! c)" if "c < n" for c
      using child_at_valid [OF that all_at_child [OF at that]] by (simp add: count_back_def)
    then show ?thesis using False find_child_none [of "rev [0..<n]" ?cs] by simp
  qed
  then show ?thesis using len by (simp add: FindLargest_def)
qed

text \<open>Where the loops of a change of direction leave a child.\<close>

lemma after_key_at:
  assumes "merge own kvs" "i < length kvs" "c < n" "c \<noteq> own (kvs ! i)" "child_at c w (part own kvs c) p"
  shows "\<exists>w'. after_key (Is c) C (fst (kvs ! i)) w = Ret w' \<and> child_at c w' (part own kvs c) (count own kvs c i)"
proof -
  have s: "sorted_keys ok lt kvs" using assms(1) by (simp add: merge_def)
  have k: "ok (fst (kvs ! i))" using ok_nth [OF s assms(2)] .
  obtain w' where w': "Seek (WrappedIterator (Is c)) (fst (kvs ! i)) w =
    Ret w'" "child_at c w' (part own kvs c) (count own kvs c i)"
    using iterator.seek [OF wrapped_child [OF assms(3)] assms(5) k] below_part [OF s k] below_key [OF s assms(2)] by auto
  have "\<exists>r. Compare C (fst (kvs ! i)) (w_key w') = Ret r \<and> r \<noteq> 0" if v: "w_valid w'"
  proof -
    have "count own kvs c i < length (part own kvs c)" using child_at_valid [OF assms(3) w'(2)] v by simp
    moreover from part_after [OF this]
    obtain j where j: "i \<le> j" "j < length kvs" "own (kvs ! j) = c" "part own kvs c ! count own kvs c i =
      kvs ! j" by blast
    ultimately have "w_key w' = fst (kvs ! j)" using child_at_key [OF assms(3) w'(2)] by simp
    moreover have "i \<noteq> j" using j(3) assms(4) by auto
    ultimately show ?thesis using cmp [OF k, of "w_key w'"] ok_nth [OF s j(2)] key_inj [OF s assms(2) j(2)] by auto
  qed
  then show ?thesis using w' by (auto simp: after_key_def)
qed

lemma before_key_at:
  assumes "merge own kvs" "i < length kvs" "c < n" "child_at c w (part own kvs c) p"
  shows "\<exists>w'. before_key (Is c) (fst (kvs ! i)) w = Ret w' \<and> child_at c w' (part own kvs c) (count_back own kvs c i)"
proof -
  have s: "sorted_keys ok lt kvs" using assms(1) by (simp add: merge_def)
  have k: "ok (fst (kvs ! i))" using ok_nth [OF s assms(2)] .
  note it = wrapped_child [OF assms(3)]
  obtain w' where w': "Seek (WrappedIterator (Is c)) (fst (kvs ! i)) w =
    Ret w'" "child_at c w' (part own kvs c) (count own kvs c i)"
    using iterator.seek [OF it assms(4) k] below_part [OF s k] below_key [OF s assms(2)] by auto
  note v = child_at_valid [OF assms(3) w'(2)]
  show ?thesis
  proof (cases "count own kvs c i < length (part own kvs c)")
    case True
    then show ?thesis using w' v iterator.prev_entry [OF it w'(2)] by (simp add: before_key_def count_back_def)
  next
    case False
    then have "count own kvs c i = length (part own kvs c)" using count_le [of own kvs c i] by simp
    then show ?thesis using w' v iterator.seek_last [OF it w'(2)] by (auto simp: before_key_def count_back_def)
  qed
qed

lemma move_current_all:
  assumes at: "all_at own kvs p (m_children this)" and c: "c < n"
    and move: "\<And>w. child_at c w (part own kvs c) (p c) \<Longrightarrow> \<exists>w'. f c w = Ret w' \<and> child_at c w' (part own kvs c) q"
  shows "\<exists>cs. move_current f c this = Ret (this \<lparr> m_children := cs \<rparr>) \<and> all_at own kvs (p (c := q)) cs"
proof -
  obtain w' where "f c (m_children this ! c) = Ret w'" "child_at c w' (part own kvs c) q"
    using move [OF all_at_child [OF at c]] by blast
  then show ?thesis using at c by (auto simp: move_current_def all_at_def nth_list_update)
qed

lemma merged_over_children: "merged_over own this kvs i \<Longrightarrow> \<exists>p. all_at own kvs p (m_children this)"
  by (auto simp: merged_over_def split: if_splits)

lemma merged_over_smallest:
  assumes "merge own kvs" "i \<le> length kvs" "all_at own kvs (\<lambda>c. count own kvs c i) (m_children this)"
  shows "\<exists>this'. FindSmallest C this = Ret this' \<and> m_direction this' = m_direction this \<and>
    merged_over own (this' \<lparr> m_direction := kForward \<rparr>) kvs i"
proof -
  obtain this' where t: "FindSmallest C this = Ret this'" "m_children this' =
    m_children this" "m_direction this' = m_direction this"
      "m_current this' = (if i < length kvs then Some (own (kvs ! i)) else None)"
    using FindSmallest_at [OF assms] by auto
  have "merged_over own (this' \<lparr> m_direction := kForward \<rparr>) kvs i"
    using t(2,4) assms by (auto simp: merged_over_def)
  then show ?thesis using t(1,3) by blast
qed

lemma count_prev:
  assumes "0 < i" "i \<le> length kvs"
  shows "(if c = own (kvs ! (i - 1)) then count own kvs c (i - 1) else count_back own kvs c (i - 1)) =
    count_back own kvs c i"
  using count_Suc [of "i - 1" kvs own c] assms by (simp add: count_back_def)

lemma merged_over_largest:
  assumes "merge own kvs" "i \<le> length kvs" "all_at own kvs (\<lambda>c. count_back own kvs c i) (m_children this)"
  shows "\<exists>this'. FindLargest C this = Ret this' \<and> m_direction this' = m_direction this \<and>
    merged_over own (this' \<lparr> m_direction := kReverse \<rparr>) kvs (if i = 0 then length kvs else i - 1)"
proof -
  obtain this' where t: "FindLargest C this = Ret this'" "m_children this' =
    m_children this" "m_direction this' = m_direction this"
      "m_current this' = (if 0 < i then Some (own (kvs ! (i - 1))) else None)"
    using FindLargest_at [OF assms] by auto
  have "merged_over own (this' \<lparr> m_direction := kReverse \<rparr>) kvs (if i = 0 then length kvs else i - 1)"
    using t(2,4) assms count_prev [of i kvs _ own] by (auto simp: merged_over_def)
  then show ?thesis using t(1,3) by blast
qed

text \<open>The three seeks: the children move, the best one is found, and the direction is set.\<close>

lemma seek_smallest:
  assumes "merge own kvs" "i \<le> length kvs" and at: "all_at own kvs p (m_children this)"
    and move: "\<And>c w. c < n \<Longrightarrow> child_at c w (part own kvs c) (p c) \<Longrightarrow>
      \<exists>w'. f c w = Ret w' \<and> child_at c w' (part own kvs c) (count own kvs c i)"
  shows "\<exists>this'. res_bind (move_children f this) (\<lambda>this.
    res_bind (FindSmallest C this) (\<lambda>this. Ret (this \<lparr> m_direction := kForward \<rparr>))) = Ret this' \<and>
      merged_pos this' kvs i"
proof -
  obtain cs where cs: "move_children f this =
    Ret (this \<lparr> m_children := cs \<rparr>)" "all_at own kvs (\<lambda>c. count own kvs c i) cs"
    using move_children_all [OF at, of f "\<lambda>c. count own kvs c i"] move by blast
  then show ?thesis using merged_over_smallest [OF assms(1,2), of "this \<lparr> m_children := cs \<rparr>"]
    by (auto simp: merged_pos_def)
qed

lemma seek_largest:
  assumes "merge own kvs" and at: "all_at own kvs p (m_children this)"
    and move: "\<And>c w. c < n \<Longrightarrow> child_at c w (part own kvs c) (p c) \<Longrightarrow>
      \<exists>w'. f c w = Ret w' \<and> child_at c w' (part own kvs c) (length (part own kvs c) - 1)"
  shows "\<exists>this'. res_bind (move_children f this) (\<lambda>this.
    res_bind (FindLargest C this) (\<lambda>this. Ret (this \<lparr> m_direction := kReverse \<rparr>))) = Ret this' \<and>
    merged_pos this' kvs (length kvs - 1)"
proof -
  have "count_back own kvs c (length kvs) = length (part own kvs c) - 1" for c by (simp add: count_back_def)
  then obtain cs where cs: "move_children f this = Ret (this \<lparr> m_children := cs \<rparr>)"
      "all_at own kvs (\<lambda>c. count_back own kvs c (length kvs)) cs"
    using move_children_all [OF at, of f "\<lambda>c. count_back own kvs c (length kvs)"] move by auto
  have "(if length kvs = 0 then length kvs else length kvs - 1) = length kvs - 1" by simp
  then show ?thesis using cs(1) merged_over_largest [OF assms(1) le_refl, of "this \<lparr> m_children := cs \<rparr>"] cs(2)
    by (auto simp: merged_pos_def)
qed

end

sublocale merging \<subseteq> merged: iterator "MergingIter Is C" ok lt merged_pos
proof unfold_locales
  fix this kvs i
  assume "merged_pos this kvs i"
  then obtain own where over: "merged_over own this kvs i" by (auto simp: merged_pos_def)
  have merge: "merge own kvs" and s: "sorted_keys ok lt kvs" and le: "i \<le> length kvs"
    using over by (auto simp: merged_over_def merge_def)
  obtain p where at: "all_at own kvs p (m_children this)" using merged_over_children [OF over] by blast
  show "i \<le> length kvs" by (rule le)
  show "Valid (MergingIter Is C) this \<longleftrightarrow> i < length kvs" using over
    by (simp add: MergingIter_def merged_over_def split: if_splits)
  show "istatus (MergingIter Is C) this = Ret OK"
  proof -
    have "children_status Is j cs = Ret OK"
      if "\<forall>c < length cs. istatus (WrappedIterator (Is (j + c))) (cs ! c) = Ret OK" for j cs
      using that
    proof (induction cs arbitrary: j)
      case (Cons c cs)
      have "\<forall>k < length cs. istatus (WrappedIterator (Is (Suc j + k))) (cs ! k) = Ret OK"
        using Cons.prems by fastforce
      then show ?case using Cons.IH [of "Suc j"] Cons.prems [rule_format, of 0] by simp
    qed simp
    moreover have "istatus (WrappedIterator (Is c)) (m_children this ! c) = Ret OK" if "c < n" for c
      using iterator.status [OF wrapped_child [OF that] all_at_child [OF at that]] .
    ultimately show ?thesis using at by (simp add: MergingIter_def all_at_def)
  qed
  show "\<exists>s'. SeekToFirst (MergingIter Is C) this = Ret s' \<and> merged_pos s' kvs 0"
    using seek_smallest [OF merge _ at, of 0 "\<lambda>i. SeekToFirst (WrappedIterator (Is i))"]
      iterator.seek_first [OF wrapped_child] by (simp add: MergingIter_def merging_SeekToFirst_def [abs_def])
  show "\<exists>s'. SeekToLast (MergingIter Is C) this = Ret s' \<and> merged_pos s' kvs (length kvs - 1)"
    using seek_largest [OF merge at, of "\<lambda>i. SeekToLast (WrappedIterator (Is i))"]
      iterator.seek_last [OF wrapped_child] by (simp add: MergingIter_def merging_SeekToLast_def [abs_def])
  show "\<exists>s'. Seek (MergingIter Is C) target this = Ret s' \<and>
    merged_pos s' kvs (below lt target kvs)" if t: "ok target" for target
  proof -
    have "\<exists>w'. Seek (WrappedIterator (Is c)) target w = Ret w' \<and>
        child_at c w' (part own kvs c) (count own kvs c (below lt target kvs))"
      if "c < n" "child_at c w (part own kvs c) (p c)" for c w
      using iterator.seek [OF wrapped_child [OF that(1)] that(2) t] below_part [OF s t] by simp
    then show ?thesis
      using seek_smallest [where i = "below lt target kvs" and f =
        "\<lambda>i. Seek (WrappedIterator (Is i)) target", OF merge below_le at]
      by (simp add: MergingIter_def merging_Seek_def)
  qed
  assume i: "i < length kvs"
  let ?s = "own (kvs ! i)"
  have own: "?s < n" using merge_own [OF merge i] .
  have cur: "m_current this = Some ?s" and
    at: "all_at own kvs (\<lambda>c. if c = ?s \<or> m_direction this =
      kForward then count own kvs c i else count_back own kvs c i) (m_children this)"
    using over i by (simp_all add: merged_over_def)
  have ws: "child_at ?s (m_children this ! ?s) (part own kvs ?s) (count own kvs ?s i)" using all_at_child [OF at own] by simp
  note e = iterator.entry [OF wrapped_child [OF own] ws] part_own [OF i, of own]
  show "ikey (MergingIter Is C) this = Ret (fst (kvs ! i)) \<and> ivalue (MergingIter Is C) this = Ret (snd (kvs ! i))"
    using e cur by (simp add: MergingIter_def)
  have key: "w_key (m_children this ! ?s) = fst (kvs ! i)" using e by (simp add: WrappedIterator_def)
  show "\<exists>s'. Next (MergingIter Is C) this = Ret s' \<and> merged_pos s' kvs (Suc i)"
  proof -
    let ?f = "\<lambda>j child. if j \<noteq> ?s then after_key (Is j) C (fst (kvs ! i)) child else Ret child"
    obtain cs where cs: "(if m_direction this \<noteq> kForward
          then res_bind (move_children ?f this) (\<lambda>this. Ret (this \<lparr> m_direction := kForward \<rparr>)) else Ret this) =
          Ret (this \<lparr> m_children := cs, m_direction := kForward \<rparr>)" "all_at own kvs (\<lambda>c. count own kvs c i) cs"
    proof (cases "m_direction this = kForward")
      case True
      then show ?thesis using that [of "m_children this"] at by simp
    next
      case False
      obtain cs where "move_children ?f this =
        Ret (this \<lparr> m_children := cs \<rparr>)" "all_at own kvs (\<lambda>c. count own kvs c i) cs"
        using move_children_all [OF at, of ?f "\<lambda>c. count own kvs c i"] after_key_at [OF merge i] by fastforce
      then show ?thesis using that [of cs] False by simp
    qed
    let ?mi = "this \<lparr> m_children := cs, m_direction := kForward \<rparr>"
    have "all_at own kvs (\<lambda>c. count own kvs c i) (m_children ?mi)" using cs(2) by simp
    from move_current_all [OF this own, of "\<lambda>i. Next (WrappedIterator (Is i))" "Suc (count own kvs ?s i)"]
    obtain cs' where cs': "move_current (\<lambda>i. Next (WrappedIterator (Is i))) ?s ?mi = Ret (?mi \<lparr> m_children := cs' \<rparr>)"
        "all_at own kvs ((\<lambda>c. count own kvs c i) (?s := Suc (count own kvs ?s i))) cs'"
      using iterator.next_entry [OF wrapped_child [OF own]] part_own(1) [OF i, of own] by blast
    have "(\<lambda>c. count own kvs c i) (?s := Suc (count own kvs ?s i)) = (\<lambda>c. count own kvs c (Suc i))"
      using count_Suc [OF i] by auto
    then have "all_at own kvs (\<lambda>c. count own kvs c (Suc i)) cs'" using cs'(2) by simp
    then obtain this' where "FindSmallest C (?mi \<lparr> m_children := cs' \<rparr>) = Ret this'" "m_direction this' = kForward"
        "merged_over own (this' \<lparr> m_direction := kForward \<rparr>) kvs (Suc i)"
      using merged_over_smallest [OF merge, of "Suc i" "?mi \<lparr> m_children := cs' \<rparr>"] i by auto
    moreover from this(2) have "this' \<lparr> m_direction := kForward \<rparr> = this'" by simp
    ultimately show ?thesis using cs(1) cs'(1) cur key
      by (auto simp: MergingIter_def merging_Next_def merged_pos_def Let_def)
  qed
  show "\<exists>s'. Prev (MergingIter Is C) this = Ret s' \<and> merged_pos s' kvs (if i = 0 then length kvs else i - 1)"
  proof -
    let ?f = "\<lambda>j child. if j \<noteq> ?s then before_key (Is j) (fst (kvs ! i)) child else Ret child"
    let ?q = "\<lambda>c. if c = ?s then count own kvs c i else count_back own kvs c i"
    obtain cs where cs: "(if m_direction this \<noteq> kReverse
          then res_bind (move_children ?f this) (\<lambda>this. Ret (this \<lparr> m_direction := kReverse \<rparr>)) else Ret this) =
          Ret (this \<lparr> m_children := cs, m_direction := kReverse \<rparr>)" "all_at own kvs ?q cs"
    proof (cases "m_direction this = kReverse")
      case True
      then show ?thesis using that [of "m_children this"] at by simp
    next
      case False
      obtain cs where "move_children ?f this = Ret (this \<lparr> m_children := cs \<rparr>)" "all_at own kvs ?q cs"
        using move_children_all [OF at, of ?f ?q] before_key_at [OF merge i] by fastforce
      then show ?thesis using that [of cs] False by simp
    qed
    let ?mi = "this \<lparr> m_children := cs, m_direction := kReverse \<rparr>"
    have "all_at own kvs ?q (m_children ?mi)" using cs(2) by simp
    from move_current_all [OF this own, of "\<lambda>i. Prev (WrappedIterator (Is i))" "count_back own kvs ?s i"]
    obtain cs' where cs': "move_current (\<lambda>i. Prev (WrappedIterator (Is i))) ?s ?mi = Ret (?mi \<lparr> m_children := cs' \<rparr>)"
        "all_at own kvs (?q (?s := count_back own kvs ?s i)) cs'"
      using iterator.prev_entry [OF wrapped_child [OF own]] part_own(1) [OF i, of own] by (auto simp: count_back_def)
    have "?q (?s := count_back own kvs ?s i) = (\<lambda>c. count_back own kvs c i)" by auto
    then have "all_at own kvs (\<lambda>c. count_back own kvs c i) cs'" using cs'(2) by simp
    then obtain this' where "FindLargest C (?mi \<lparr> m_children := cs' \<rparr>) = Ret this'" "m_direction this' = kReverse"
        "merged_over own (this' \<lparr> m_direction := kReverse \<rparr>) kvs (if i = 0 then length kvs else i - 1)"
      using merged_over_largest [OF merge le, of "?mi \<lparr> m_children := cs' \<rparr>"] by auto
    moreover from this(2) have "this' \<lparr> m_direction := kReverse \<rparr> = this'" by simp
    ultimately show ?thesis using cs(1) cs'(1) cur key
      by (auto simp: MergingIter_def merging_Prev_def merged_pos_def Let_def)
  qed
qed

section \<open>Making one\<close>

lemma nowhere: "iterator I ok lt (\<lambda>_ _ _. False)"
  by unfold_locales simp_all

context iterator_pair
begin

lemma is_iterator: "iterator (either_iterator A B) ok lt (case_sum posA posB)"
  by (rule either.iterator_axioms)

end

lemma either_is_iterator:
  "iterator A ok lt posA \<Longrightarrow> iterator B ok lt posB \<Longrightarrow> iterator (either_iterator A B) ok lt (case_sum posA posB)"
  by (rule iterator_pair.is_iterator) (simp add: iterator_pair_def)

lemma empty_is_iterator: "iterator EmptyIterator ok lt (\<lambda>s kvs i. s = NewEmptyIterator \<and> kvs = [] \<and> i = 0)"
  by (rule empty_iterator.iterator_axioms)

context merging
begin

lemma wrap_children_at:
  assumes "\<forall>j < length ss. i + j < n \<and> poss (i + j) (ss ! j) (kss (i + j)) (p (i + j))"
  shows "\<exists>cs. wrap_children Is i ss = Ret cs \<and> length cs = length ss \<and>
    (\<forall>j < length cs. child_at (i + j) (cs ! j) (kss (i + j)) (p (i + j)))"
  using assms
proof (induction ss arbitrary: i)
  case (Cons s ss)
  have s: "i < n" "poss i s (kss i) (p i)" using Cons.prems [rule_format, of 0] by auto
  obtain c where c: "new_IteratorWrapper (Is i) (Some s) = Ret c" "child_at i c (kss i) (p i)"
    using iterator.Set_wrapped [OF child [OF s(1)] s(2)] unfolding new_IteratorWrapper_def child_at_def by blast
  have "\<forall>j < length ss. Suc i + j < n \<and> poss (Suc i + j) (ss ! j) (kss (Suc i + j)) (p (Suc i + j))"
    using Cons.prems by fastforce
  then obtain cs where "wrap_children Is (Suc i) ss = Ret cs" "length cs = length ss"
      "\<forall>j < length cs. child_at (Suc i + j) (cs ! j) (kss (Suc i + j)) (p (Suc i + j))"
    using Cons.IH by blast
  then show ?case using c by (intro exI [of _ "c # cs"]) (auto simp: nth_Cons split: nat.splits)
qed simp

lemma NewMergingIterator_over:
  assumes ss: "length ss = n" "\<forall>c < n. poss c (ss ! c) (part own kvs c) (p c)" and merge: "merge own kvs"
  shows "\<exists>this pos i. NewMergingIterator Is ss = Ret this \<and> iterator (MergedIterators Is C) ok lt pos \<and>
    pos this kvs i"
proof -
  consider "n = 0" | "n = 1" | "2 \<le> n" by linarith
  then show ?thesis
  proof cases
    case 1
    have "kvs = []" using merge unfolding merge_def by (cases kvs) (auto simp: 1)
    then have "case_sum (\<lambda>s kvs i. s = NewEmptyIterator \<and> kvs = [] \<and> i = 0) (case_sum (\<lambda>_ _ _. False) merged_pos)
        (Inl NewEmptyIterator :: 's MergedIterator) kvs 0" by simp
    moreover have "iterator (MergedIterators Is C) ok lt
        (case_sum (\<lambda>s kvs i. s = NewEmptyIterator \<and> kvs = [] \<and> i = 0) (case_sum (\<lambda>_ _ _. False) merged_pos))"
      unfolding MergedIterators_def
      by (intro either_is_iterator empty_is_iterator nowhere merged.iterator_axioms)
    moreover have "NewMergingIterator Is ss = Ret (Inl NewEmptyIterator)" using 1 ss(1)
      by (simp add: NewMergingIterator_def)
    ultimately show ?thesis by blast
  next
    case 2
    have "\<forall>e \<in> set kvs. own e = 0" using merge unfolding merge_def by (simp add: 2)
    then have "part own kvs 0 = kvs" by (simp add: part_def filter_id_conv)
    then have "case_sum (\<lambda>_ _ _. False) (case_sum (poss 0) merged_pos) (Inr (Inl (ss ! 0)) :: 's MergedIterator) kvs (p 0)"
      using ss(2) 2 by auto
    moreover have "iterator (MergedIterators Is C) ok lt (case_sum (\<lambda>_ _ _. False) (case_sum (poss 0) merged_pos))"
      unfolding MergedIterators_def using 2
      by (intro either_is_iterator nowhere merged.iterator_axioms child) simp
    moreover have "NewMergingIterator Is ss = Ret (Inr (Inl (ss ! 0)))"
    proof -
      obtain a where "ss = [a]" using ss(1) 2 by (auto simp: length_Suc_conv)
      then show ?thesis by (simp add: NewMergingIterator_def)
    qed
    ultimately show ?thesis by blast
  next
    case 3
    obtain cs where cs: "wrap_children Is 0 ss = Ret cs" "all_at own kvs p cs"
      using wrap_children_at [of ss 0 "part own kvs" p] ss by (auto simp: all_at_def)
    then have "new_MergingIterator Is ss = Ret \<lparr> m_children = cs, m_current = None, m_direction = kForward \<rparr>"
      by (simp add: new_MergingIterator_def)
    moreover have "merged_pos \<lparr> m_children = cs, m_current = None, m_direction = kForward \<rparr> kvs (length kvs)"
      using merge cs(2) by (auto simp: merged_pos_def merged_over_def)
    then have "case_sum (\<lambda>_ _ _. False) (case_sum (\<lambda>_ _ _. False) merged_pos)
        (Inr (Inr \<lparr> m_children = cs, m_current = None, m_direction =
          kForward \<rparr>) :: 's MergedIterator) kvs (length kvs)"
      by simp
    moreover have "iterator (MergedIterators Is C) ok lt (case_sum (\<lambda>_ _ _. False) (case_sum (\<lambda>_ _ _. False) merged_pos))"
      unfolding MergedIterators_def by (intro either_is_iterator nowhere merged.iterator_axioms)
    moreover obtain a b r where "ss = a # b # r" using ss(1) 3 by (metis Suc_le_length_iff numeral_2_eq_2)
    then have "NewMergingIterator Is ss = res_bind (new_MergingIterator Is ss) (\<lambda>m. Ret (Inr (Inr m)))"
      by (simp add: NewMergingIterator_def)
    ultimately show ?thesis by (metis res_bind.simps(1))
  qed
qed

end

text \<open>Tables as children: the iterator over several tables.\<close>

sublocale key_comparator \<subseteq> merged_tables: merging C ok lt "\<lambda>c. TableIter fuel port (ts c) ro"
    "\<lambda>c. tables.over_index port (ts c) ro fuel" n for fuel port ts ro n
  by (simp add: merging_def merging_axioms_def key_comparator_axioms TableIter_def tables.blocks.iterator_axioms)

end
