(* ===== verification/LdbDbIter.thy ===== *)
theory LdbDbIter
  imports LdbMerger LdbRandom LdbDbFormat
begin

text \<open>
  The iterator that users of the database see, \<open>db_iter.cc\<close>. The internal iterator below it runs over internal
  keys: for one user key every write, newest first, deletions included. \<open>DBIter\<close> shows of each user key the newest
  write that is not newer than its snapshot, unless that is a deletion. The locale \<open>database_view\<close> takes any internal
  iterator that keeps the contract of \<open>LdbIterator\<close> and shows that \<open>DBIter\<close> keeps it too, over the \<open>view\<close> of
  the entries. The calls of \<open>RecordReadSample\<close> on the database are collected in the state.
\<close>

section \<open>The class\<close>

record 's DBIter =
  dbi_iter :: 's
  dbi_sequence :: SequenceNumber
  dbi_status :: Status
  dbi_saved_key :: slice
  dbi_saved_value :: slice
  dbi_direction :: Direction
  dbi_valid :: bool
  dbi_rnd :: Random
  dbi_until :: u64
  dbi_samples :: "slice list"

definition RandomCompactionPeriod :: "'s DBIter \<Rightarrow> u64 \<times> 's DBIter" where
  "RandomCompactionPeriod this =
     (case Uniform (of_nat (2 * kReadBytesPeriod)) (dbi_rnd this) of (r, rnd) \<Rightarrow> (ucast r, this \<lparr> dbi_rnd := rnd \<rparr>))"

definition new_DBIter :: "'s \<Rightarrow> SequenceNumber \<Rightarrow> u32 \<Rightarrow> 's DBIter" where
  "new_DBIter iter s seed =
     (case RandomCompactionPeriod
        \<lparr> dbi_iter = iter, dbi_sequence = s, dbi_status = OK, dbi_saved_key = [], dbi_saved_value = [],
          dbi_direction = kForward, dbi_valid = False, dbi_rnd = new_Random seed, dbi_until = 0, dbi_samples = [] \<rparr> of
        (n, this) \<Rightarrow> this \<lparr> dbi_until := n \<rparr>)"

definition dbi_key :: "'s Iterator \<Rightarrow> 's DBIter \<Rightarrow> slice res" where
  "dbi_key I this =
     (if dbi_direction this =
       kForward then res_bind (ikey I (dbi_iter this)) ExtractUserKey else Ret (dbi_saved_key this))"

definition dbi_value :: "'s Iterator \<Rightarrow> 's DBIter \<Rightarrow> slice res" where
  "dbi_value I this =
     (if dbi_direction this = kForward then ivalue I (dbi_iter this) else Ret (dbi_saved_value this))"

definition dbi_status_of :: "'s Iterator \<Rightarrow> 's DBIter \<Rightarrow> Status res" where
  "dbi_status_of I this =
     (if Status_ok (dbi_status this) then istatus I (dbi_iter this) else Ret (dbi_status this))"

text \<open>The loop of \<open>ParseKey\<close>.\<close>

fun sample_reads :: "nat \<Rightarrow> slice \<Rightarrow> u64 \<Rightarrow> 's DBIter \<Rightarrow> 's DBIter res" where
  "sample_reads 0 k bytes_read this = NoFuel"
| "sample_reads (Suc fuel) k bytes_read this =
     (if dbi_until this < bytes_read
      then case RandomCompactionPeriod this of (n, this) \<Rightarrow>
             sample_reads fuel k bytes_read
               (this \<lparr> dbi_until := dbi_until this + n, dbi_samples := dbi_samples this @ [k] \<rparr>)
      else Ret this)"

definition ParseKey :: "nat \<Rightarrow> 's Iterator \<Rightarrow> 's DBIter \<Rightarrow> (ParsedInternalKey option \<times> 's DBIter) res" where
  "ParseKey sfuel I this =
     res_bind (ikey I (dbi_iter this)) (\<lambda>k.
     res_bind (ivalue I (dbi_iter this)) (\<lambda>v.
       let bytes_read = of_nat (length k) + of_nat (length v)
       in res_bind (sample_reads sfuel k bytes_read this) (\<lambda>this.
          let this = this \<lparr> dbi_until := dbi_until this - bytes_read \<rparr>
          in res_bind (ParseInternalKey k) (\<lambda>pkey.
             case pkey of
               None \<Rightarrow> Ret (None, this \<lparr> dbi_status := Corruption ''corrupted internal key in DBIter'' [] \<rparr>)
             | Some p \<Rightarrow> Ret (Some p, this)))))"

definition visible_key :: "ParsedInternalKey option \<Rightarrow> 's DBIter \<Rightarrow> ParsedInternalKey option" where
  "visible_key pkey this =
     (case pkey of None \<Rightarrow> None | Some k \<Rightarrow> if sequence k \<le> dbi_sequence this then Some k else None)"

text \<open>The body of the loop of \<open>FindNextUserEntry\<close>: whether it returns, and the new value of \<open>skipping\<close>. The
  pointer \<open>skip\<close> is always \<open>saved_key_\<close>.\<close>

definition next_entry_step :: "Comparator \<Rightarrow> ParsedInternalKey option \<Rightarrow> bool \<Rightarrow> 's DBIter \<Rightarrow> (bool \<times> bool \<times> 's DBIter) res" where
  "next_entry_step C pkey skipping this =
     (case visible_key pkey this of
        None \<Rightarrow> Ret (False, skipping, this)
      | Some k \<Rightarrow>
          if vtype k = kTypeDeletion then Ret (False, True, this \<lparr> dbi_saved_key := user_key k \<rparr>)
          else if vtype k = kTypeValue
          then res_bind (if skipping then map_res (\<lambda>r. r \<le> 0) (Compare C (user_key k) (dbi_saved_key this)) else Ret False)
                 (\<lambda>hidden. if hidden then Ret (False, skipping, this)
                           else Ret (True, skipping, this \<lparr> dbi_saved_key := [], dbi_valid := True \<rparr>))
          else Ret (False, skipping, this))"

fun FindNextUserEntry :: "nat \<Rightarrow> nat \<Rightarrow> 's Iterator \<Rightarrow> Comparator \<Rightarrow> bool \<Rightarrow> 's DBIter \<Rightarrow> 's DBIter res" where
  "FindNextUserEntry 0 sfuel I C skipping this = NoFuel"
| "FindNextUserEntry (Suc fuel) sfuel I C skipping this =
     res_bind (ParseKey sfuel I this) (\<lambda>(pkey, this).
     res_bind (next_entry_step C pkey skipping this) (\<lambda>(found, skipping, this).
       if found then Ret this
       else res_bind (Next I (dbi_iter this)) (\<lambda>it.
            let this = this \<lparr> dbi_iter := it \<rparr>
            in if Valid I it then FindNextUserEntry fuel sfuel I C skipping this
               else Ret (this \<lparr> dbi_saved_key := [], dbi_valid := False \<rparr>))))"

definition dbi_Next :: "nat \<Rightarrow> nat \<Rightarrow> 's Iterator \<Rightarrow> Comparator \<Rightarrow> 's DBIter \<Rightarrow> 's DBIter res" where
  "dbi_Next fuel sfuel I C this =
     (if dbi_direction this = kReverse
      then let this = this \<lparr> dbi_direction := kForward \<rparr>
           in res_bind (if \<not> Valid I (dbi_iter this) then SeekToFirst I (dbi_iter this) else Next I (dbi_iter this)) (\<lambda>it.
              let this = this \<lparr> dbi_iter := it \<rparr>
              in if \<not> Valid I it then Ret (this \<lparr> dbi_saved_key := [], dbi_valid := False \<rparr>)
                 else FindNextUserEntry fuel sfuel I C True this)
      else res_bind (ikey I (dbi_iter this)) (\<lambda>k. res_bind (ExtractUserKey k) (\<lambda>u.
           FindNextUserEntry fuel sfuel I C True (this \<lparr> dbi_saved_key := u \<rparr>))))"

text \<open>The body of the loop of \<open>FindPrevUserEntry\<close>: whether it breaks, and the new value of \<open>value_type\<close>.\<close>

definition prev_entry_step :: "'s Iterator \<Rightarrow> Comparator \<Rightarrow> ParsedInternalKey option \<Rightarrow> ValueType \<Rightarrow> 's DBIter \<Rightarrow>
    (bool \<times> ValueType \<times> 's DBIter) res" where
  "prev_entry_step I C pkey value_type this =
     (case visible_key pkey this of
        None \<Rightarrow> Ret (False, value_type, this)
      | Some k \<Rightarrow>
          res_bind (if value_type \<noteq> kTypeDeletion then map_res (\<lambda>r. r < 0) (Compare C (user_key k) (dbi_saved_key this))
                    else Ret False) (\<lambda>stop.
            if stop then Ret (True, value_type, this)
            else if vtype k = kTypeDeletion
            then Ret (False, vtype k, this \<lparr> dbi_saved_key := [], dbi_saved_value := [] \<rparr>)
            else res_bind (ivalue I (dbi_iter this)) (\<lambda>raw_value.
                 res_bind (ikey I (dbi_iter this)) (\<lambda>ik. res_bind (ExtractUserKey ik) (\<lambda>u.
                   Ret (False, vtype k, this \<lparr> dbi_saved_key := u, dbi_saved_value := raw_value \<rparr>))))))"

fun prev_entry_loop :: "nat \<Rightarrow> nat \<Rightarrow> 's Iterator \<Rightarrow> Comparator \<Rightarrow> ValueType \<Rightarrow> 's DBIter \<Rightarrow> (ValueType \<times> 's DBIter) res" where
  "prev_entry_loop 0 sfuel I C value_type this = NoFuel"
| "prev_entry_loop (Suc fuel) sfuel I C value_type this =
     res_bind (ParseKey sfuel I this) (\<lambda>(pkey, this).
     res_bind (prev_entry_step I C pkey value_type this) (\<lambda>(stop, value_type, this).
       if stop then Ret (value_type, this)
       else res_bind (Prev I (dbi_iter this)) (\<lambda>it.
            let this = this \<lparr> dbi_iter := it \<rparr>
            in if Valid I it then prev_entry_loop fuel sfuel I C value_type this else Ret (value_type, this))))"

definition FindPrevUserEntry :: "nat \<Rightarrow> nat \<Rightarrow> 's Iterator \<Rightarrow> Comparator \<Rightarrow> 's DBIter \<Rightarrow> 's DBIter res" where
  "FindPrevUserEntry fuel sfuel I C this =
     res_bind (if Valid I (dbi_iter this) then prev_entry_loop fuel sfuel I C kTypeDeletion this
               else Ret (kTypeDeletion, this)) (\<lambda>(value_type, this).
       if value_type = kTypeDeletion
       then Ret (this \<lparr> dbi_saved_key := [], dbi_saved_value := [], dbi_direction := kForward, dbi_valid := False \<rparr>)
       else Ret (this \<lparr> dbi_valid := True \<rparr>))"

text \<open>The loop of \<open>Prev\<close> that leaves the entries of the current key; whether it reached an entry before them.\<close>

fun leave_key :: "nat \<Rightarrow> 's Iterator \<Rightarrow> Comparator \<Rightarrow> 's DBIter \<Rightarrow> (bool \<times> 's DBIter) res" where
  "leave_key 0 I C this = NoFuel"
| "leave_key (Suc fuel) I C this =
     res_bind (Prev I (dbi_iter this)) (\<lambda>it.
       let this = this \<lparr> dbi_iter := it \<rparr>
       in if \<not> Valid I it
          then Ret (False, this \<lparr> dbi_saved_key := [], dbi_saved_value := [], dbi_valid := False \<rparr>)
          else res_bind (ikey I it) (\<lambda>k. res_bind (ExtractUserKey k) (\<lambda>u.
               res_bind (Compare C u (dbi_saved_key this)) (\<lambda>r.
                 if r < 0 then Ret (True, this) else leave_key fuel I C this))))"

definition dbi_Prev :: "nat \<Rightarrow> nat \<Rightarrow> 's Iterator \<Rightarrow> Comparator \<Rightarrow> 's DBIter \<Rightarrow> 's DBIter res" where
  "dbi_Prev fuel sfuel I C this =
     (if dbi_direction this = kForward
      then res_bind (ikey I (dbi_iter this)) (\<lambda>k. res_bind (ExtractUserKey k) (\<lambda>u.
           res_bind (leave_key fuel I C (this \<lparr> dbi_saved_key := u \<rparr>)) (\<lambda>(left, this).
             if left then FindPrevUserEntry fuel sfuel I C (this \<lparr> dbi_direction := kReverse \<rparr>) else Ret this)))
      else FindPrevUserEntry fuel sfuel I C this)"

definition dbi_Seek :: "nat \<Rightarrow> nat \<Rightarrow> 's Iterator \<Rightarrow> Comparator \<Rightarrow> slice \<Rightarrow> 's DBIter \<Rightarrow> 's DBIter res" where
  "dbi_Seek fuel sfuel I C target this =
     (let saved_key = AppendInternalKey [] \<lparr> user_key = target, sequence = dbi_sequence this, vtype =
       kValueTypeForSeek \<rparr>;
          this = this \<lparr> dbi_saved_key := saved_key, dbi_saved_value := [], dbi_direction := kForward \<rparr>
      in res_bind (Seek I saved_key (dbi_iter this)) (\<lambda>it.
         let this = this \<lparr> dbi_iter := it \<rparr>
         in if Valid I it then FindNextUserEntry fuel sfuel I C False this else Ret (this \<lparr> dbi_valid := False \<rparr>)))"

definition dbi_SeekToFirst :: "nat \<Rightarrow> nat \<Rightarrow> 's Iterator \<Rightarrow> Comparator \<Rightarrow> 's DBIter \<Rightarrow> 's DBIter res" where
  "dbi_SeekToFirst fuel sfuel I C this =
     (let this = this \<lparr> dbi_saved_value := [], dbi_direction := kForward \<rparr>
      in res_bind (SeekToFirst I (dbi_iter this)) (\<lambda>it.
         let this = this \<lparr> dbi_iter := it \<rparr>
         in if Valid I it then FindNextUserEntry fuel sfuel I C False this else Ret (this \<lparr> dbi_valid := False \<rparr>)))"

definition dbi_SeekToLast :: "nat \<Rightarrow> nat \<Rightarrow> 's Iterator \<Rightarrow> Comparator \<Rightarrow> 's DBIter \<Rightarrow> 's DBIter res" where
  "dbi_SeekToLast fuel sfuel I C this =
     (let this = this \<lparr> dbi_saved_value := [], dbi_direction := kReverse \<rparr>
      in res_bind (SeekToLast I (dbi_iter this)) (\<lambda>it.
         FindPrevUserEntry fuel sfuel I C (this \<lparr> dbi_iter := it \<rparr>)))"

definition DatabaseIter :: "nat \<Rightarrow> nat \<Rightarrow> 's Iterator \<Rightarrow> Comparator \<Rightarrow> 's DBIter Iterator" where
  "DatabaseIter fuel sfuel I C =
     \<lparr> Valid = dbi_valid, SeekToFirst = dbi_SeekToFirst fuel sfuel I C, SeekToLast = dbi_SeekToLast fuel sfuel I C,
       Seek = dbi_Seek fuel sfuel I C, Next = dbi_Next fuel sfuel I C, Prev = dbi_Prev fuel sfuel I C,
       ikey = dbi_key I, ivalue = dbi_value I, istatus = dbi_status_of I \<rparr>"

definition NewDBIterator :: "'s \<Rightarrow> SequenceNumber \<Rightarrow> u32 \<Rightarrow> 's DBIter" where
  "NewDBIterator internal_iter seq seed = new_DBIter internal_iter seq seed"

section \<open>What it shows\<close>

definition entry_user :: "(slice \<times> slice) list \<Rightarrow> nat \<Rightarrow> slice" where
  "entry_user kvs i = user_of (fst (kvs ! i))"

definition entry_visible :: "SequenceNumber \<Rightarrow> (slice \<times> slice) list \<Rightarrow> nat \<Rightarrow> bool" where
  "entry_visible seq kvs i \<longleftrightarrow> drop_bit 8 (tag_of (fst (kvs ! i))) \<le> seq"

definition entry_type :: "(slice \<times> slice) list \<Rightarrow> nat \<Rightarrow> ValueType" where
  "entry_type kvs i = ucast (tag_of (fst (kvs ! i)) AND 0xff)"

text \<open>The entry \<open>i\<close> shows: it is a value and the first visible entry of its user key.\<close>

definition shows_entry :: "SequenceNumber \<Rightarrow> (slice \<times> slice) list \<Rightarrow> nat \<Rightarrow> bool" where
  "shows_entry seq kvs i \<longleftrightarrow> entry_visible seq kvs i \<and> entry_type kvs i = kTypeValue \<and>
     (\<forall>j < i. entry_visible seq kvs j \<longrightarrow> entry_user kvs j \<noteq> entry_user kvs i)"

definition shown :: "SequenceNumber \<Rightarrow> (slice \<times> slice) list \<Rightarrow> nat list" where
  "shown seq kvs = filter (shows_entry seq kvs) [0..<length kvs]"

definition view :: "SequenceNumber \<Rightarrow> (slice \<times> slice) list \<Rightarrow> (slice \<times> slice) list" where
  "view seq kvs = map (\<lambda>i. (entry_user kvs i, snd (kvs ! i))) (shown seq kvs)"

section \<open>Ranks\<close>

text \<open>How many numbers below \<open>i\<close> have a property, and which is the one with a given rank.\<close>

definition rank :: "(nat \<Rightarrow> bool) \<Rightarrow> nat \<Rightarrow> nat" where
  "rank P i = length (filter P [0..<i])"

lemma rank_nth:
  assumes "P m" "m < n"
  shows "rank P m < length (filter P [0..<n])" "filter P [0..<n] ! rank P m = m"
proof -
  have "[0..<n] = [0..<m] @ m # [Suc m..<n]" using assms(2)
    by (metis less_imp_le upt_add_eq_append upt_conv_Cons zero_le le_Suc_ex)
  then have "filter P [0..<n] = filter P [0..<m] @ m # filter P [Suc m..<n]" using assms(1) by simp
  then show "rank P m < length (filter P [0..<n])" "filter P [0..<n] ! rank P m = m" by (simp_all add: rank_def)
qed

lemma nth_rank:
  assumes "v < length (filter P [0..<n])"
  shows "P (filter P [0..<n] ! v)" "filter P [0..<n] ! v < n" "rank P (filter P [0..<n] ! v) = v"
proof -
  let ?m = "filter P [0..<n] ! v"
  have "?m \<in> set (filter P [0..<n])" using assms nth_mem by blast
  then show m: "P ?m" "?m < n" by simp_all
  have "distinct (filter P [0..<n])" by simp
  then show "rank P ?m = v" using rank_nth [where P = P and m = ?m and n = n, OF m] assms nth_eq_iff_index_eq by blast
qed

lemma rank_same: "\<forall>j. lo \<le> j \<and> j < m \<longrightarrow> \<not> P j \<Longrightarrow> lo \<le> m \<Longrightarrow> rank P lo = rank P m"
proof (induction m)
  case (Suc m)
  then show ?case by (cases "lo = Suc m") (simp_all add: rank_def)
qed simp

lemma rank_Suc: "P m \<Longrightarrow> rank P (Suc m) = Suc (rank P m)"
  by (simp add: rank_def)

lemma length_view: "length (view seq kvs) = rank (shows_entry seq kvs) (length kvs)"
  by (simp add: view_def shown_def rank_def)

section \<open>The contract\<close>

text \<open>The entries: in order, parseable, and few and short enough for the fuel.\<close>

definition good_entries :: "(slice \<Rightarrow> bool) \<Rightarrow> (slice \<Rightarrow> slice \<Rightarrow> bool) \<Rightarrow> nat \<Rightarrow> nat \<Rightarrow> (slice \<times> slice) list \<Rightarrow> bool" where
  "good_entries ok lt fuel sfuel kvs \<longleftrightarrow>
     sorted_keys (internal_ok ok) (internal_less lt) kvs \<and> length kvs + 1 < fuel \<and>
     (\<forall>e \<in> set kvs. ucast (tag_of (fst e) AND 0xff) \<le> kTypeValue \<and>
        length (fst e) + length (snd e) < 2 ^ 62 \<and> 2 * (length (fst e) + length (snd e)) + 1 < sfuel)"

locale database_view = user: internal_comparator C ok lt + base: iterator I "internal_ok ok" "internal_less lt" pos
  for C :: Comparator and ok :: "slice \<Rightarrow> bool" and lt :: "slice \<Rightarrow> slice \<Rightarrow> bool"
    and I :: "'s Iterator" and pos :: "'s \<Rightarrow> (slice \<times> slice) list \<Rightarrow> nat \<Rightarrow> bool" +
  fixes fuel sfuel :: nat
begin

abbreviation good :: "(slice \<times> slice) list \<Rightarrow> bool" where
  "good \<equiv> good_entries ok lt fuel sfuel"

lemma sample_reads_ends:
  assumes "seed_ok (dbi_rnd this)" "unat bytes_read < 2 ^ 62"
    and "2 * (unat bytes_read - unat (dbi_until this)) + (if unat (dbi_rnd this) mod 2 ^ 21 = 0 then 0 else 1) < f"
  shows "\<exists>r u smp. sample_reads f k bytes_read this =
    Ret (this \<lparr> dbi_rnd := r, dbi_until := u, dbi_samples := smp \<rparr>) \<and> seed_ok r"
  using assms
proof (induction f arbitrary: this)
  case (Suc f)
  show ?case
  proof (cases "dbi_until this < bytes_read")
    case False
    then show ?thesis using Suc.prems(1)
      by (intro exI [of _ "dbi_rnd this"] exI [of _ "dbi_until this"] exI [of _ "dbi_samples this"]) simp
  next
    case True
    let ?r = "fst (Random_Next (dbi_rnd this))"
    let ?n = "ucast (?r mod 2097152) :: u64"
    let ?tb = "this \<lparr> dbi_rnd := ?r, dbi_until := dbi_until this + ?n, dbi_samples := dbi_samples this @ [k] \<rparr>"
    have n: "unat ?n = unat ?r mod 2 ^ 21" "unat ?n < 2 ^ 21"
      by (simp_all add: unsigned_ucast_eq unat_mod take_bit_nat_eq_self order_less_trans [OF mod_less_divisor])
    have less: "unat (dbi_until this) < unat bytes_read" using True by (simp add: word_less_nat_alt)
    then have u: "unat (dbi_until this + ?n) = unat (dbi_until this) + unat ?n"
      using n(2) Suc.prems(2) unat_add_fits [of "dbi_until this" "unat ?n"] by simp
    have seed: "seed_ok ?r" using Random_Next_ok [OF Suc.prems(1)] by simp
    have "2 * (unat bytes_read - unat (dbi_until ?tb)) + (if unat (dbi_rnd ?tb) mod 2 ^ 21 = 0 then 0 else 1) < f"
    proof (cases "unat ?r mod 2 ^ 21 = 0")
      case zero: True
      then have "unat (dbi_rnd this) mod 2 ^ 21 \<noteq> 0" using Random_Next_multiple [OF Suc.prems(1)] zero by auto
      then show ?thesis using Suc.prems(3) u zero n(1) by simp
    next
      case False
      then show ?thesis using Suc.prems(3) u n(1) less by (simp split: if_splits)
    qed
    then have "\<exists>r u smp. sample_reads f k bytes_read ?tb =
      Ret (?tb \<lparr> dbi_rnd := r, dbi_until := u, dbi_samples := smp \<rparr>) \<and> seed_ok r"
      using seed Suc.prems(2) by (intro Suc.IH) simp_all
    moreover have "RandomCompactionPeriod this = (?n, this \<lparr> dbi_rnd := ?r \<rparr>)"
      by (simp add: RandomCompactionPeriod_def Uniform_def kReadBytesPeriod_def Random_Next_def Let_def)
    ultimately show ?thesis using True by auto
  qed
qed simp

abbreviation parsed_entry :: "(slice \<times> slice) list \<Rightarrow> nat \<Rightarrow> ParsedInternalKey" where
  "parsed_entry kvs q \<equiv>
     \<lparr> user_key = entry_user kvs q, sequence = drop_bit 8 (tag_of (fst (kvs ! q))), vtype = entry_type kvs q \<rparr>"

lemma good_nth:
  assumes "good kvs" "q < length kvs"
  shows "internal_ok ok (fst (kvs ! q))" "8 \<le> length (fst (kvs ! q))" "ok (entry_user kvs q)" "entry_type kvs q \<le> kTypeValue"
  using assms by (auto simp: good_entries_def sorted_keys_def list_all_length internal_ok_def entry_user_def entry_type_def)

lemma ParseKey_at:
  assumes "good kvs" "pos (dbi_iter this) kvs q" "q < length kvs" "seed_ok (dbi_rnd this)"
  shows "\<exists>r u smp. ParseKey sfuel I this =
      Ret (Some (parsed_entry kvs q), this \<lparr> dbi_rnd := r, dbi_until := u, dbi_samples := smp \<rparr>) \<and> seed_ok r"
proof -
  let ?k = "fst (kvs ! q)" and ?v = "snd (kvs ! q)"
  have "kvs ! q \<in> set kvs" using assms(3) by simp
  then have len: "length ?k + length ?v < 2 ^ 62" "2 * (length ?k + length ?v) + 1 < sfuel"
    using assms(1) by (auto simp: good_entries_def)
  let ?b = "of_nat (length ?k) + of_nat (length ?v) :: u64"
  have b: "unat ?b = length ?k + length ?v" using len(1) by (simp add: unat_of_nat_u64 flip: of_nat_add)
  have l: "unat ?b < 2 ^ 62" unfolding b by (rule len(1))
  have m: "2 * (unat ?b - unat (dbi_until this)) + (if unat (dbi_rnd this) mod 2 ^ 21 = 0 then 0 else 1) < sfuel"
    unfolding b using len(2) by auto
  obtain r u smp where "sample_reads sfuel ?k ?b this =
    Ret (this \<lparr> dbi_rnd := r, dbi_until := u, dbi_samples := smp \<rparr>)" "seed_ok r"
    using sample_reads_ends [OF assms(4) l m, of ?k] by blast
  moreover have "ParseInternalKey ?k = Ret (Some (parsed_entry kvs q))"
    using ParseInternalKey_parts [OF good_nth(2) [OF assms(1,3)]] good_nth(4) [OF assms(1,3)]
    by (simp add: entry_type_def entry_user_def)
  ultimately show ?thesis using base.entry [OF assms(2,3)]
    by (intro exI [of _ r] exI [of _ "u - ?b"] exI [of _ smp]) (simp add: ParseKey_def Let_def)
qed

lemma visible_parsed:
  "visible_key (Some (parsed_entry kvs q)) this =
    (if entry_visible (dbi_sequence this) kvs q then Some (parsed_entry kvs q) else None)"
  by (simp add: visible_key_def entry_visible_def)

text \<open>User keys do not decrease.\<close>

lemma user_order:
  assumes "good kvs" "i \<le> j" "j < length kvs"
  shows "entry_user kvs i = entry_user kvs j \<or> lt (entry_user kvs i) (entry_user kvs j)"
proof (cases "i = j")
  case False
  then have "internal_less lt (fst (kvs ! i)) (fst (kvs ! j))"
    using assms by (auto simp: good_entries_def sorted_keys_def sorted_wrt_iff_nth_less)
  then show ?thesis by (auto simp: internal_less_def entry_user_def)
qed simp

text \<open>The forward search from the entry \<open>q\<close> for the first entry from \<open>lo\<close> on that shows: what it may skip,
  and that nothing before \<open>q\<close> hides an entry that the search would take.\<close>

definition ahead :: "SequenceNumber \<Rightarrow> (slice \<times> slice) list \<Rightarrow> nat \<Rightarrow> nat \<Rightarrow> bool \<Rightarrow> slice \<Rightarrow> bool" where
  "ahead seq kvs lo q skipping skip \<longleftrightarrow>
     (\<forall>j < q. shows_entry seq kvs j \<longrightarrow> j < lo) \<and>
     (\<forall>j. q \<le> j \<and> j < length kvs \<and> skipping \<and> \<not> lt skip (entry_user kvs j) \<longrightarrow> \<not> (shows_entry seq kvs j \<and> lo \<le> j)) \<and>
     (\<forall>j. q \<le> j \<and> j < length kvs \<and> entry_visible seq kvs j \<and> entry_type kvs j = kTypeValue \<and>
        (skipping \<longrightarrow> lt skip (entry_user kvs j)) \<and>
        (\<forall>i. q \<le> i \<and> i < j \<and> entry_visible seq kvs i \<longrightarrow> entry_user kvs i \<noteq> entry_user kvs j) \<longrightarrow>
        shows_entry seq kvs j \<and> lo \<le> j) \<and>
     (skipping \<longrightarrow> ok skip \<and> (\<forall>j. q \<le> j \<and> j < length kvs \<and> entry_visible seq kvs j \<longrightarrow> \<not> lt (entry_user kvs j) skip))"

lemma ahead_take:
  "ahead seq kvs lo q skipping skip \<Longrightarrow> q \<le> j \<Longrightarrow> j < length kvs \<Longrightarrow> entry_visible seq kvs j \<Longrightarrow>
   entry_type kvs j = kTypeValue \<Longrightarrow> skipping \<longrightarrow> lt skip (entry_user kvs j) \<Longrightarrow>
   \<forall>i. q \<le> i \<and> i < j \<and> entry_visible seq kvs i \<longrightarrow> entry_user kvs i \<noteq> entry_user kvs j \<Longrightarrow>
   shows_entry seq kvs j \<and> lo \<le> j"
  unfolding ahead_def by blast

lemma ahead_invisible: "ahead seq kvs lo q skipping skip \<Longrightarrow> \<not> entry_visible seq kvs q \<Longrightarrow>
  ahead seq kvs lo (Suc q) skipping skip"
  unfolding ahead_def by (smt (verit) Suc_leD Suc_leI le_neq_implies_less less_Suc_eq shows_entry_def)

lemma ahead_deleted:
  assumes "ahead seq kvs lo q skipping skip" "good kvs" "q < length kvs" "entry_visible seq kvs q" "entry_type kvs q \<noteq> kTypeValue"
  shows "ahead seq kvs lo (Suc q) True (entry_user kvs q)"
proof -
  have order: "\<not> lt (entry_user kvs j) (entry_user kvs q)" if "Suc q \<le> j" "j < length kvs" for j
    using user_order [OF assms(2) _ that(2), of q] that user.user.asym [of "entry_user kvs j" "entry_user kvs q"]
      user.user.irrefl good_nth(3) [OF assms(2)] assms(3) by auto
  have same: "entry_user kvs q =
    entry_user kvs j" if "Suc q \<le> j" "j < length kvs" "\<not> lt (entry_user kvs q) (entry_user kvs j)" for j
    using user_order [OF assms(2) _ that(2), of q] that by auto
  have old: "skipping \<longrightarrow> lt skip (entry_user kvs j)"
    if j: "Suc q \<le> j" "j < length kvs" "lt (entry_user kvs q) (entry_user kvs j)" for j
  proof
    assume s: "skipping"
    then have "ok skip" "\<not> lt (entry_user kvs q) skip" using assms(1,3,4) by (auto simp: ahead_def)
    then show "lt skip (entry_user kvs j)"
      using user.user.total [of "entry_user kvs q" skip] user.user.trans [of skip "entry_user kvs q" "entry_user kvs j"]
        j good_nth(3) [OF assms(2)] assms(3) by auto
  qed
  show ?thesis
    unfolding ahead_def
  proof (intro conjI allI impI)
    fix j assume "j < Suc q" "shows_entry seq kvs j"
    then show "j < lo" using assms(1,5) by (cases "j = q") (auto simp: ahead_def shows_entry_def)
  next
    fix j assume "Suc q \<le> j \<and> j < length kvs \<and> True \<and> \<not> lt (entry_user kvs q) (entry_user kvs j)"
    then have "entry_user kvs q = entry_user kvs j" "q < j" using same by auto
    then show "\<not> (shows_entry seq kvs j \<and> lo \<le> j)" using assms(4) by (auto simp: shows_entry_def)
  next
    fix j
    assume j: "Suc q \<le> j \<and> j < length kvs \<and> entry_visible seq kvs j \<and> entry_type kvs j = kTypeValue \<and>
        (True \<longrightarrow> lt (entry_user kvs q) (entry_user kvs j)) \<and>
        (\<forall>i. Suc q \<le> i \<and> i < j \<and> entry_visible seq kvs i \<longrightarrow> entry_user kvs i \<noteq> entry_user kvs j)"
    then have "\<forall>i. q \<le> i \<and> i < j \<and> entry_visible seq kvs i \<longrightarrow> entry_user kvs i \<noteq> entry_user kvs j"
      using user.user.irrefl by (metis le_antisym not_less_eq_eq)
    then have "shows_entry seq kvs j \<and> lo \<le> j" using j old [of j] by (intro ahead_take [OF assms(1)]) auto
    then show "shows_entry seq kvs j" "lo \<le> j" by simp_all
  qed (use order good_nth(3) [OF assms(2,3)] in auto)
qed

lemma ahead_hidden:
  assumes "ahead seq kvs lo q skipping skip" "q < length kvs" "skipping" "\<not> lt skip (entry_user kvs q)"
  shows "ahead seq kvs lo (Suc q) skipping skip"
  unfolding ahead_def
proof (intro conjI allI impI)
  fix j assume "j < Suc q" "shows_entry seq kvs j"
  then show "j < lo" using assms by (cases "j = q") (auto simp: ahead_def)
next
  fix j
  assume j: "Suc q \<le> j \<and> j < length kvs \<and> entry_visible seq kvs j \<and> entry_type kvs j = kTypeValue \<and>
      (skipping \<longrightarrow> lt skip (entry_user kvs j)) \<and>
      (\<forall>i. Suc q \<le> i \<and> i < j \<and> entry_visible seq kvs i \<longrightarrow> entry_user kvs i \<noteq> entry_user kvs j)"
  then have "\<forall>i. q \<le> i \<and> i < j \<and> entry_visible seq kvs i \<longrightarrow> entry_user kvs i \<noteq> entry_user kvs j"
    using assms(3,4) by (metis le_antisym not_less_eq_eq)
  then have "shows_entry seq kvs j \<and> lo \<le> j" using j by (intro ahead_take [OF assms(1)]) auto
  then show "shows_entry seq kvs j" "lo \<le> j" by simp_all
qed (use assms in \<open>auto simp: ahead_def\<close>)

lemma ahead_found:
  assumes "ahead seq kvs lo q skipping skip" "q < length kvs" "entry_visible seq kvs q" "entry_type kvs q =
    kTypeValue"
    "skipping \<longrightarrow> lt skip (entry_user kvs q)"
  shows "shows_entry seq kvs q" "lo \<le> q" "\<forall>j. lo \<le> j \<and> j < q \<longrightarrow> \<not> shows_entry seq kvs j"
proof -
  have "shows_entry seq kvs q \<and> lo \<le> q" using assms by (intro ahead_take [OF assms(1)]) auto
  then show "shows_entry seq kvs q" "lo \<le> q" by simp_all
  show "\<forall>j. lo \<le> j \<and> j < q \<longrightarrow> \<not> shows_entry seq kvs j" using assms(1) by (auto simp: ahead_def)
qed

definition kept :: "'s DBIter \<Rightarrow> 's DBIter \<Rightarrow> bool" where
  "kept this this' \<longleftrightarrow> dbi_sequence this' = dbi_sequence this \<and> dbi_status this' = dbi_status this \<and>
     dbi_direction this' = dbi_direction this \<and> seed_ok (dbi_rnd this')"

definition found_from :: "(slice \<times> slice) list \<Rightarrow> nat \<Rightarrow> 's DBIter \<Rightarrow> bool" where
  "found_from kvs lo this \<longleftrightarrow>
     (\<exists>m < length kvs. lo \<le> m \<and> shows_entry (dbi_sequence this) kvs m \<and>
        (\<forall>j. lo \<le> j \<and> j < m \<longrightarrow> \<not> shows_entry (dbi_sequence this) kvs j) \<and> dbi_valid this \<and> pos (dbi_iter this) kvs m) \<or>
     ((\<forall>j. lo \<le> j \<and> j < length kvs \<longrightarrow> \<not> shows_entry (dbi_sequence this) kvs j) \<and> \<not> dbi_valid this \<and>
        pos (dbi_iter this) kvs (length kvs))"

lemma type_cases: "good kvs \<Longrightarrow> q < length kvs \<Longrightarrow> entry_type kvs q = kTypeDeletion \<or> entry_type kvs q = kTypeValue"
  using good_nth(4) [of kvs q] by (auto simp: kTypeDeletion_def kTypeValue_def word_le_nat_alt word_unat_eq_iff)

lemma next_entry_step_at:
  assumes "good kvs" "q < length kvs" "ahead (dbi_sequence this) kvs lo q skipping (dbi_saved_key this)"
  shows "(\<exists>this'. next_entry_step C (Some (parsed_entry kvs q)) skipping this = Ret (True, skipping, this') \<and>
        this' = this \<lparr> dbi_saved_key := [], dbi_valid := True \<rparr> \<and> shows_entry (dbi_sequence this) kvs q \<and> lo \<le> q \<and>
        (\<forall>j. lo \<le> j \<and> j < q \<longrightarrow> \<not> shows_entry (dbi_sequence this) kvs j)) \<or>
    (\<exists>skipping' skip. next_entry_step C (Some (parsed_entry kvs q)) skipping this =
        Ret (False, skipping', this \<lparr> dbi_saved_key := skip \<rparr>) \<and>
          ahead (dbi_sequence this) kvs lo (Suc q) skipping' skip)"
proof (cases "entry_visible (dbi_sequence this) kvs q")
  case False
  then show ?thesis using ahead_invisible [OF assms(3)]
    by (intro disjI2 exI [of _ skipping] exI [of _ "dbi_saved_key this"]) (simp add: next_entry_step_def visible_parsed)
next
  case True
  note ty = type_cases [OF assms(1,2)]
  have step: "next_entry_step C (Some (parsed_entry kvs q)) skipping this =
    (if entry_type kvs q = kTypeDeletion then Ret (False, True, this \<lparr> dbi_saved_key := entry_user kvs q \<rparr>)
     else if entry_type kvs q = kTypeValue
     then res_bind (if skipping then map_res (\<lambda>r. r \<le> 0) (Compare C (entry_user kvs q) (dbi_saved_key this)) else Ret False)
            (\<lambda>hidden. if hidden then Ret (False, skipping, this)
                      else Ret (True, skipping, this \<lparr> dbi_saved_key := [], dbi_valid := True \<rparr>))
     else Ret (False, skipping, this))"
    unfolding next_entry_step_def visible_parsed using True by simp
  show ?thesis
  proof (cases "entry_type kvs q = kTypeValue")
    case False
    then have "next_entry_step C (Some (parsed_entry kvs q)) skipping this =
        Ret (False, True, this \<lparr> dbi_saved_key := entry_user kvs q \<rparr>)"
      using step ty by simp
    then show ?thesis using ahead_deleted [OF assms(3,1,2) True] False by blast
  next
    case val: True
    have nd: "entry_type kvs q \<noteq> kTypeDeletion" using val by (simp add: kTypeValue_def kTypeDeletion_def)
    have cmp: "Compare C (entry_user kvs q) (dbi_saved_key this) = Ret r \<Longrightarrow> (r \<le> 0) =
      (\<not> lt (dbi_saved_key this) (entry_user kvs q))"
      if skipping for r
      using user.user.cmp_greater [of "entry_user kvs q" "dbi_saved_key this" r] good_nth(3) [OF assms(1,2)] assms(3) that
      by (auto simp: ahead_def)
    have total: "skipping \<Longrightarrow> \<exists>r. Compare C (entry_user kvs q) (dbi_saved_key this) = Ret r"
      using user.user.cmp [of "entry_user kvs q" "dbi_saved_key this"] good_nth(3) [OF assms(1,2)] assms(3)
      by (auto simp: ahead_def)
    show ?thesis
    proof (cases "skipping \<and> \<not> lt (dbi_saved_key this) (entry_user kvs q)")
      case hidden: True
      then obtain r where "Compare C (entry_user kvs q) (dbi_saved_key this) = Ret r" "r \<le> 0" using total cmp by blast
      then have "next_entry_step C (Some (parsed_entry kvs q)) skipping this =
          Ret (False, skipping, this \<lparr> dbi_saved_key := dbi_saved_key this \<rparr>)"
        using step nd val hidden by simp
      moreover have "ahead (dbi_sequence this) kvs lo (Suc q) skipping (dbi_saved_key this)"
        using ahead_hidden [OF assms(3,2)] hidden by blast
      ultimately show ?thesis by blast
    next
      case False
      have "(if skipping then map_res (\<lambda>r. r \<le> 0) (Compare C (entry_user kvs q) (dbi_saved_key this)) else Ret False) = Ret False"
      proof (cases skipping)
        case True
        then obtain r where "Compare C (entry_user kvs q) (dbi_saved_key this) = Ret r" "\<not> r \<le> 0"
          using total cmp False by blast
        then show ?thesis using True by simp
      qed simp
      then have "next_entry_step C (Some (parsed_entry kvs q)) skipping this =
          Ret (True, skipping, this \<lparr> dbi_saved_key := [], dbi_valid := True \<rparr>)"
        using step nd val by simp
      then show ?thesis using ahead_found [OF assms(3,2) True val] False by blast
    qed
  qed
qed

lemma FindNextUserEntry_finds:
  assumes "good kvs" "pos (dbi_iter this) kvs q" "q < length kvs" "seed_ok (dbi_rnd this)"
    "ahead (dbi_sequence this) kvs lo q skipping (dbi_saved_key this)" "length kvs - q < f"
  shows "\<exists>this'. FindNextUserEntry f sfuel I C skipping this = Ret this' \<and> kept this this' \<and> found_from kvs lo this'"
  using assms(2-6)
proof (induction f arbitrary: this q skipping)
  case (Suc f)
  obtain r u smp where p: "ParseKey sfuel I this =
      Ret (Some (parsed_entry kvs q), this \<lparr> dbi_rnd := r, dbi_until := u, dbi_samples := smp \<rparr>)" "seed_ok r"
    using ParseKey_at [OF assms(1) Suc.prems(1-3)] by blast
  define tb where "tb = this \<lparr> dbi_rnd := r, dbi_until := u, dbi_samples := smp \<rparr>"
  have tb: "dbi_iter tb = dbi_iter this" "dbi_sequence tb = dbi_sequence this" "dbi_saved_key tb = dbi_saved_key this"
      "kept this tb" using p(2) by (simp_all add: tb_def kept_def)
  have "ahead (dbi_sequence tb) kvs lo q skipping (dbi_saved_key tb)" using Suc.prems(4) tb by simp
  from next_entry_step_at [OF assms(1) Suc.prems(2) this]
  consider (found) "next_entry_step C (Some (parsed_entry kvs q)) skipping tb =
      Ret (True, skipping, tb \<lparr> dbi_saved_key := [], dbi_valid := True \<rparr>)"
      "shows_entry (dbi_sequence tb) kvs q" "lo \<le> q" "\<forall>j. lo \<le> j \<and> j < q \<longrightarrow> \<not> shows_entry (dbi_sequence tb) kvs j"
    | (goes_on) skipping' skip where "next_entry_step C (Some (parsed_entry kvs q)) skipping tb =
      Ret (False, skipping', tb \<lparr> dbi_saved_key := skip \<rparr>)" "ahead (dbi_sequence tb) kvs lo (Suc q) skipping' skip"
    by blast
  then show ?case
  proof cases
    case found
    have "found_from kvs lo (tb \<lparr> dbi_saved_key := [], dbi_valid := True \<rparr>)"
      using found(2-4) Suc.prems(1,2) tb(1) by (auto simp: found_from_def)
    moreover have "kept this (tb \<lparr> dbi_saved_key := [], dbi_valid := True \<rparr>)" using tb(4) by (simp add: kept_def)
    ultimately show ?thesis using p(1) found(1) by (simp add: tb_def [symmetric])
  next
    case goes_on
    obtain it where it: "Next I (dbi_iter tb) = Ret it" "pos it kvs (Suc q)"
      using base.next_entry [OF Suc.prems(1,2)] tb(1) by auto
    let ?tb = "tb \<lparr> dbi_saved_key := skip, dbi_iter := it \<rparr>"
    have run: "FindNextUserEntry (Suc f) sfuel I C skipping this =
        (if Valid I it then FindNextUserEntry f sfuel I C skipping' ?tb else Ret (?tb \<lparr> dbi_saved_key := [], dbi_valid := False \<rparr>))"
      using p(1) goes_on(1) it(1) by (simp add: tb_def [symmetric] Let_def)
    show ?thesis
    proof (cases "Suc q < length kvs")
      case True
      then have less: "length kvs - Suc q < f" using Suc.prems(5) by linarith
      have "\<exists>this'. FindNextUserEntry f sfuel I C skipping' ?tb = Ret this' \<and> kept ?tb this' \<and>
        found_from kvs lo this'"
        using it(2) True goes_on(2) tb(4) less by (intro Suc.IH) (simp_all add: kept_def)
      then show ?thesis using run base.valid [OF it(2)] True tb(4) by (auto simp: kept_def)
    next
      case False
      then have n: "Suc q = length kvs" using Suc.prems(2) by simp
      then have "found_from kvs lo (?tb \<lparr> dbi_saved_key := [], dbi_valid := False \<rparr>)"
        using it(2) goes_on(2) by (fastforce simp: found_from_def ahead_def)
      moreover have "kept this (?tb \<lparr> dbi_saved_key := [], dbi_valid := False \<rparr>)" using tb(4) by (simp add: kept_def)
      ultimately show ?thesis using run base.valid [OF it(2)] False by simp
    qed
  qed
qed simp

text \<open>The backward search below \<open>hi\<close>: the entries from \<open>b\<close> on have been read.\<close>

definition behind :: "SequenceNumber \<Rightarrow> (slice \<times> slice) list \<Rightarrow> nat \<Rightarrow> nat \<Rightarrow> ValueType \<Rightarrow> slice \<Rightarrow> slice \<Rightarrow> bool" where
  "behind seq kvs hi b vt key v \<longleftrightarrow>
     (if vt = kTypeDeletion then \<forall>j. b \<le> j \<and> j < hi \<longrightarrow> \<not> shows_entry seq kvs j
      else \<exists>m. b \<le> m \<and> m < hi \<and> entry_visible seq kvs m \<and> entry_type kvs m = kTypeValue \<and>
        key = entry_user kvs m \<and> v = snd (kvs ! m) \<and> (\<forall>j. b \<le> j \<and> j < m \<longrightarrow> \<not> entry_visible seq kvs j) \<and>
        (\<forall>j. m < j \<and> j < hi \<longrightarrow> \<not> shows_entry seq kvs j))"

text \<open>The internal iterator stands before the entry \<open>m\<close>, with nothing visible in between.\<close>

definition before_entry :: "SequenceNumber \<Rightarrow> (slice \<times> slice) list \<Rightarrow> nat \<Rightarrow> nat \<Rightarrow> bool" where
  "before_entry seq kvs p m \<longleftrightarrow>
     (p < m \<and> (\<forall>j. p < j \<and> j < m \<longrightarrow> \<not> entry_visible seq kvs j)) \<or>
     (p = length kvs \<and> (\<forall>j < m. \<not> entry_visible seq kvs j))"

definition saved_entry :: "(slice \<times> slice) list \<Rightarrow> nat \<Rightarrow> 's DBIter \<Rightarrow> bool" where
  "saved_entry kvs m this \<longleftrightarrow> dbi_saved_key this = entry_user kvs m \<and> dbi_saved_value this = snd (kvs ! m) \<and>
     (\<exists>p. pos (dbi_iter this) kvs p \<and> before_entry (dbi_sequence this) kvs p m)"

lemma behind_invisible:
  "behind seq kvs hi (Suc q) vt key v \<Longrightarrow> \<not> entry_visible seq kvs q \<Longrightarrow> behind seq kvs hi q vt key v"
  unfolding behind_def
  by (smt (verit) Suc_leI Suc_leD le_neq_implies_less shows_entry_def)

lemma behind_none:
  assumes "behind seq kvs hi (Suc q) vt key v" "entry_visible seq kvs q" "vt \<noteq> kTypeDeletion \<longrightarrow> entry_user kvs q = key"
  shows "\<forall>j. q < j \<and> j < hi \<longrightarrow> \<not> shows_entry seq kvs j"
proof (intro allI impI)
  fix j assume j: "q < j \<and> j < hi"
  show "\<not> shows_entry seq kvs j"
  proof (cases "vt = kTypeDeletion")
    case True
    then show ?thesis using assms(1) j by (auto simp: behind_def)
  next
    case False
    then obtain m where m: "Suc q \<le> m" "m < hi" "key = entry_user kvs m"
        "\<forall>j. Suc q \<le> j \<and> j < m \<longrightarrow> \<not> entry_visible seq kvs j" "\<forall>j. m < j \<and> j < hi \<longrightarrow> \<not> shows_entry seq kvs j"
      using assms(1) by (auto simp: behind_def)
    consider "j < m" | "j = m" | "m < j" by linarith
    then show ?thesis
    proof cases
      case 1
      then show ?thesis using m(4) j by (auto simp: shows_entry_def)
    next
      case 2
      moreover have "q < m" using m(1) by simp
      ultimately show ?thesis using assms(2,3) False m(3) by (auto simp: shows_entry_def)
    qed (use m(5) j in blast)
  qed
qed

lemma behind_found:
  assumes "behind seq kvs hi (Suc q) vt key v" "good kvs" "hi \<le> length kvs" "vt \<noteq> kTypeDeletion" "lt (entry_user kvs q) key"
  shows "\<exists>m < hi. shows_entry seq kvs m \<and> (\<forall>j. m < j \<and> j < hi \<longrightarrow> \<not> shows_entry seq kvs j) \<and>
    key = entry_user kvs m \<and> v = snd (kvs ! m) \<and> before_entry seq kvs q m"
proof -
  obtain m where m: "Suc q \<le> m" "m < hi" "entry_visible seq kvs m" "entry_type kvs m = kTypeValue" "key =
    entry_user kvs m"
      "v = snd (kvs ! m)" "\<forall>j. Suc q \<le> j \<and> j < m \<longrightarrow> \<not> entry_visible seq kvs j" "\<forall>j. m < j \<and> j < hi \<longrightarrow>
        \<not> shows_entry seq kvs j"
    using assms(1,4) by (auto simp: behind_def)
  have "entry_user kvs j \<noteq> entry_user kvs m" if "j < m" "entry_visible seq kvs j" for j
  proof -
    have "j \<le> q" using m(7) that by (meson not_less_eq_eq)
    then have "entry_user kvs j = entry_user kvs q \<or> lt (entry_user kvs j) (entry_user kvs q)"
      using user_order [OF assms(2), of j q] m(1,2) assms(3) by simp
    then have "lt (entry_user kvs j) (entry_user kvs m)"
      using assms(5) m user.user.trans [of "entry_user kvs j" "entry_user kvs q" "entry_user kvs m"] good_nth(3) [OF assms(2)]
        that(1) assms(3) by auto
    then show ?thesis using user.user.irrefl by metis
  qed
  then have "shows_entry seq kvs m" using m(3,4) by (auto simp: shows_entry_def)
  moreover have "before_entry seq kvs q m" using m(1,7) by (auto simp: before_entry_def)
  ultimately show ?thesis using m by blast
qed

lemma behind_end:
  assumes "behind seq kvs hi 0 vt key v" "vt \<noteq> kTypeDeletion"
  shows "\<exists>m < hi. shows_entry seq kvs m \<and> (\<forall>j. m < j \<and> j < hi \<longrightarrow> \<not> shows_entry seq kvs j) \<and>
    key = entry_user kvs m \<and> v = snd (kvs ! m) \<and> before_entry seq kvs (length kvs) m"
  using assms by (auto simp: behind_def before_entry_def shows_entry_def)

lemma prev_entry_step_at:
  assumes "good kvs" "hi \<le> length kvs" "q < hi" "pos (dbi_iter this) kvs q"
    "behind (dbi_sequence this) kvs hi (Suc q) vt (dbi_saved_key this) (dbi_saved_value this)"
  shows "(prev_entry_step I C (Some (parsed_entry kvs q)) vt this = Ret (True, vt, this) \<and> vt \<noteq> kTypeDeletion \<and>
        lt (entry_user kvs q) (dbi_saved_key this)) \<or>
    (\<exists>vt' key v. prev_entry_step I C (Some (parsed_entry kvs q)) vt this =
        Ret (False, vt', this \<lparr> dbi_saved_key := key, dbi_saved_value := v \<rparr>) \<and>
          behind (dbi_sequence this) kvs hi q vt' key v)"
proof (cases "entry_visible (dbi_sequence this) kvs q")
  case False
  then show ?thesis using behind_invisible [OF assms(5)]
    by (intro disjI2 exI [of _ vt] exI [of _ "dbi_saved_key this"] exI [of _ "dbi_saved_value this"])
      (simp add: prev_entry_step_def visible_parsed)
next
  case True
  have q: "q < length kvs" using assms(2,3) by simp
  note ty = type_cases [OF assms(1) q] and e = base.entry [OF assms(4) q]
  have stop: "(if vt \<noteq> kTypeDeletion then map_res (\<lambda>r. r < 0) (Compare C (entry_user kvs q) (dbi_saved_key this)) else Ret False) =
      Ret (vt \<noteq> kTypeDeletion \<and> lt (entry_user kvs q) (dbi_saved_key this))"
    and same: "vt \<noteq> kTypeDeletion \<longrightarrow> \<not> lt (entry_user kvs q) (dbi_saved_key this) \<longrightarrow> entry_user kvs q =
      dbi_saved_key this"
  proof -
    have "ok (dbi_saved_key this) \<and> (entry_user kvs q = dbi_saved_key this \<or>
      lt (entry_user kvs q) (dbi_saved_key this))"
      if "vt \<noteq> kTypeDeletion"
    proof -
      obtain m where "Suc q \<le> m" "m < hi" "dbi_saved_key this = entry_user kvs m"
        using assms(5) \<open>vt \<noteq> kTypeDeletion\<close> by (auto simp: behind_def)
      then show ?thesis using user_order [OF assms(1), of q m] good_nth(3) [OF assms(1)] assms(2) by auto
    qed
    then show "(if vt \<noteq> kTypeDeletion then map_res (\<lambda>r. r < 0) (Compare C (entry_user kvs q) (dbi_saved_key this)) else Ret False) =
        Ret (vt \<noteq> kTypeDeletion \<and> lt (entry_user kvs q) (dbi_saved_key this))"
      "vt \<noteq> kTypeDeletion \<longrightarrow> \<not> lt (entry_user kvs q) (dbi_saved_key this) \<longrightarrow> entry_user kvs q = dbi_saved_key this"
      using user.user.cmp [of "entry_user kvs q" "dbi_saved_key this"] good_nth(3) [OF assms(1) q] user.user.irrefl by auto
  qed
  have step: "prev_entry_step I C (Some (parsed_entry kvs q)) vt this =
      (if vt \<noteq> kTypeDeletion \<and> lt (entry_user kvs q) (dbi_saved_key this) then Ret (True, vt, this)
       else if entry_type kvs q = kTypeDeletion
       then Ret (False, entry_type kvs q, this \<lparr> dbi_saved_key := [], dbi_saved_value := [] \<rparr>)
       else Ret (False, entry_type kvs q,
         this \<lparr> dbi_saved_key := entry_user kvs q, dbi_saved_value := snd (kvs ! q) \<rparr>))"
    unfolding prev_entry_step_def visible_parsed if_P [OF True] option.case ParsedInternalKey.select_convs stop
    using e good_nth(2) [OF assms(1) q] by (simp add: entry_user_def)
  show ?thesis
  proof (cases "vt \<noteq> kTypeDeletion \<and> lt (entry_user kvs q) (dbi_saved_key this)")
    case True
    then show ?thesis using step by simp
  next
    case go: False
    then have none: "\<forall>j. q < j \<and> j < hi \<longrightarrow> \<not> shows_entry (dbi_sequence this) kvs j"
      using behind_none [OF assms(5) True] same by blast
    show ?thesis
    proof (cases "entry_type kvs q = kTypeDeletion")
      case del: True
      have "behind (dbi_sequence this) kvs hi q kTypeDeletion [] []"
        unfolding behind_def using none del
          by (auto simp: shows_entry_def kTypeDeletion_def kTypeValue_def le_eq_less_or_eq)
      then show ?thesis using step go del by auto
    next
      case False
      then have val: "entry_type kvs q = kTypeValue" "kTypeValue \<noteq> kTypeDeletion" using ty by auto
      have "behind (dbi_sequence this) kvs hi q kTypeValue (entry_user kvs q) (snd (kvs ! q))"
        unfolding behind_def using none val True assms(3) by auto
      moreover have "prev_entry_step I C (Some (parsed_entry kvs q)) vt this = Ret (False, kTypeValue,
          this \<lparr> dbi_saved_key := entry_user kvs q, dbi_saved_value := snd (kvs ! q) \<rparr>)"
        using step go val by auto
      ultimately show ?thesis by blast
    qed
  qed
qed

definition last_below :: "(slice \<times> slice) list \<Rightarrow> nat \<Rightarrow> nat \<Rightarrow> 's DBIter \<Rightarrow> bool" where
  "last_below kvs hi m this \<longleftrightarrow> m < hi \<and> shows_entry (dbi_sequence this) kvs m \<and>
     (\<forall>j. m < j \<and> j < hi \<longrightarrow> \<not> shows_entry (dbi_sequence this) kvs j) \<and> saved_entry kvs m this"

definition none_below :: "(slice \<times> slice) list \<Rightarrow> nat \<Rightarrow> 's DBIter \<Rightarrow> bool" where
  "none_below kvs hi this \<longleftrightarrow> (\<forall>j < hi. \<not> shows_entry (dbi_sequence this) kvs j) \<and> (\<exists>p. pos (dbi_iter this) kvs p)"

lemma prev_entry_loop_finds:
  assumes "good kvs" "hi \<le> length kvs" "q < hi" "pos (dbi_iter this) kvs q" "seed_ok (dbi_rnd this)"
    "behind (dbi_sequence this) kvs hi (Suc q) vt (dbi_saved_key this) (dbi_saved_value this)" "q < f"
  shows "\<exists>vt' this'. prev_entry_loop f sfuel I C vt this = Ret (vt', this') \<and> kept this this' \<and>
    (if vt' = kTypeDeletion then none_below kvs hi this' else \<exists>m. last_below kvs hi m this')"
  using assms(3-7)
proof (induction f arbitrary: this q vt)
  case (Suc f)
  have q: "q < length kvs" using Suc.prems(1) assms(2) by simp
  obtain r u smp where p: "ParseKey sfuel I this =
      Ret (Some (parsed_entry kvs q), this \<lparr> dbi_rnd := r, dbi_until := u, dbi_samples := smp \<rparr>)" "seed_ok r"
    using ParseKey_at [OF assms(1) Suc.prems(2) q Suc.prems(3)] by blast
  define tb where "tb = this \<lparr> dbi_rnd := r, dbi_until := u, dbi_samples := smp \<rparr>"
  have tb: "dbi_iter tb = dbi_iter this" "dbi_sequence tb = dbi_sequence this" "dbi_saved_key tb = dbi_saved_key this"
      "dbi_saved_value tb = dbi_saved_value this" "kept this tb" using p(2) by (simp_all add: tb_def kept_def)
  have bh: "behind (dbi_sequence tb) kvs hi (Suc q) vt (dbi_saved_key tb) (dbi_saved_value tb)" using Suc.prems(4) tb by simp
  have at: "pos (dbi_iter tb) kvs q" using Suc.prems(2) tb by simp
  from prev_entry_step_at [OF assms(1,2) Suc.prems(1) at bh]
  consider (stops) "prev_entry_step I C (Some (parsed_entry kvs q)) vt tb = Ret (True, vt, tb)" "vt \<noteq> kTypeDeletion"
      "lt (entry_user kvs q) (dbi_saved_key tb)"
    | (goes_on) vt' key v where "prev_entry_step I C (Some (parsed_entry kvs q)) vt tb =
      Ret (False, vt', tb \<lparr> dbi_saved_key := key, dbi_saved_value := v \<rparr>)" "behind (dbi_sequence tb) kvs hi q vt' key v"
    by blast
  then show ?case
  proof cases
    case stops
    obtain m where "last_below kvs hi m tb"
      using behind_found [OF bh assms(1,2) stops(2,3)] at by (auto simp: last_below_def saved_entry_def)
    moreover have "prev_entry_loop (Suc f) sfuel I C vt this = Ret (vt, tb)" using p(1) stops(1)
      by (simp add: tb_def [symmetric])
    ultimately show ?thesis using stops(2) tb(5) by auto
  next
    case goes_on
    obtain it where it: "Prev I (dbi_iter tb) = Ret it" "pos it kvs (if q = 0 then length kvs else q - 1)"
      using base.prev_entry [OF at q] by blast
    let ?tb = "tb \<lparr> dbi_saved_key := key, dbi_saved_value := v, dbi_iter := it \<rparr>"
    have run: "prev_entry_loop (Suc f) sfuel I C vt this =
        (if Valid I it then prev_entry_loop f sfuel I C vt' ?tb else Ret (vt', ?tb))"
      using p(1) goes_on(1) it(1) by (simp add: tb_def [symmetric] Let_def)
    show ?thesis
    proof (cases "q = 0")
      case True
      have "if vt' = kTypeDeletion then none_below kvs hi ?tb else \<exists>m. last_below kvs hi m ?tb"
      proof (cases "vt' = kTypeDeletion")
        case False
        from behind_end [OF goes_on(2) [unfolded True] False]
        show ?thesis using it(2) True False by (auto simp: last_below_def saved_entry_def)
      next
        case del: True
        then show ?thesis using goes_on(2) True it(2) by (auto simp: none_below_def behind_def)
      qed
      moreover have "kept this ?tb" using tb(5) by (simp add: kept_def)
      ultimately show ?thesis using run base.valid [OF it(2)] True by auto
    next
      case False
      have "\<exists>vt2 this'. prev_entry_loop f sfuel I C vt' ?tb = Ret (vt2, this') \<and> kept ?tb this' \<and>
          (if vt2 = kTypeDeletion then none_below kvs hi this' else \<exists>m. last_below kvs hi m this')"
      proof (rule Suc.IH)
        show "q - 1 < hi" "q - 1 < f" using Suc.prems(1,5) False by linarith+
        show "pos (dbi_iter ?tb) kvs (q - 1)" using it(2) False by simp
        show "seed_ok (dbi_rnd ?tb)" using tb(5) by (simp add: kept_def)
        show "behind (dbi_sequence ?tb) kvs hi (Suc (q - 1)) vt' (dbi_saved_key ?tb) (dbi_saved_value ?tb)"
          using goes_on(2) False by simp
      qed
      then obtain vt2 this' where l: "prev_entry_loop f sfuel I C vt' ?tb = Ret (vt2, this')" "kept ?tb this'"
          "if vt2 = kTypeDeletion then none_below kvs hi this' else \<exists>m. last_below kvs hi m this'" by blast
      have "Valid I it" using base.valid [OF it(2)] False q by simp
      then have "prev_entry_loop (Suc f) sfuel I C vt this = Ret (vt2, this')" using run l(1) by (simp only: if_True)
      moreover have "kept this this'" using l(2) tb(5) by (simp add: kept_def)
      ultimately show ?thesis using l(3) by blast
    qed
  qed
qed simp

text \<open>The result of the backward search.\<close>

definition found_below :: "(slice \<times> slice) list \<Rightarrow> nat \<Rightarrow> 's DBIter \<Rightarrow> bool" where
  "found_below kvs hi this \<longleftrightarrow>
     (\<exists>m. last_below kvs hi m this \<and> dbi_valid this \<and> dbi_direction this = kReverse) \<or>
     (none_below kvs hi this \<and> \<not> dbi_valid this)"

definition core_kept :: "'s DBIter \<Rightarrow> 's DBIter \<Rightarrow> bool" where
  "core_kept this this' \<longleftrightarrow> dbi_sequence this' = dbi_sequence this \<and> dbi_status this' = dbi_status this \<and>
    seed_ok (dbi_rnd this')"

lemma FindPrevUserEntry_finds:
  assumes good: "good kvs" and hi: "hi \<le> length kvs" and at: "pos (dbi_iter this) kvs q" and seed: "seed_ok (dbi_rnd this)"
    and dir: "dbi_direction this = kReverse"
    and between: "q < hi \<and> (\<forall>j. q < j \<and> j < hi \<longrightarrow> \<not> shows_entry (dbi_sequence this) kvs j) \<or>
      q = length kvs \<and> (\<forall>j < hi. \<not> shows_entry (dbi_sequence this) kvs j)"
  shows "\<exists>this'. FindPrevUserEntry fuel sfuel I C this = Ret this' \<and> core_kept this this' \<and> found_below kvs hi this'"
proof (cases "q < hi")
  case True
  then have q: "q < length kvs" "q < fuel" using hi good by (auto simp: good_entries_def)
  have "behind (dbi_sequence this) kvs hi (Suc q) kTypeDeletion (dbi_saved_key this) (dbi_saved_value this)"
    using between True hi by (auto simp: behind_def Suc_le_eq)
  from prev_entry_loop_finds [OF good hi True at seed this q(2)]
  obtain vt this' where l: "prev_entry_loop fuel sfuel I C kTypeDeletion this = Ret (vt, this')" "kept this this'"
      "if vt = kTypeDeletion then none_below kvs hi this' else \<exists>m. last_below kvs hi m this'" by blast
  have v: "Valid I (dbi_iter this)" using base.valid [OF at] q(1) by simp
  show ?thesis
  proof (cases "vt = kTypeDeletion")
    case True
    then show ?thesis using l v
      by (auto simp: FindPrevUserEntry_def core_kept_def kept_def found_below_def none_below_def)
  next
    case False
    then obtain m where "last_below kvs hi m this'" using l(3) by auto
    then have "found_below kvs hi (this' \<lparr> dbi_valid := True \<rparr>)"
      using l(2) dir by (auto simp: found_below_def last_below_def saved_entry_def kept_def)
    then show ?thesis using l(1,2) v False by (simp add: FindPrevUserEntry_def core_kept_def kept_def)
  qed
next
  case False
  then have "\<not> Valid I (dbi_iter this)" using base.valid [OF at] between by auto
  moreover have "none_below kvs hi (this \<lparr> dbi_saved_key := [], dbi_saved_value := [], dbi_direction := kForward, dbi_valid := False \<rparr>)"
    using at between False by (auto simp: none_below_def)
  ultimately show ?thesis using seed by (simp add: FindPrevUserEntry_def core_kept_def found_below_def)
qed

definition same_user :: "(slice \<times> slice) list \<Rightarrow> nat \<Rightarrow> nat \<Rightarrow> bool" where
  "same_user kvs b y \<longleftrightarrow> (\<forall>j. b \<le> j \<and> j \<le> y \<longrightarrow> entry_user kvs j = entry_user kvs y)"

lemma same_user_down: "same_user kvs q y \<Longrightarrow> 0 < q \<Longrightarrow> entry_user kvs (q - 1) = entry_user kvs y \<Longrightarrow>
  same_user kvs (q - 1) y"
  unfolding same_user_def by (metis Suc_pred' le_neq_implies_less less_Suc_eq_le not_less_eq_eq)

lemma leave_key_leaves:
  assumes "good kvs" "y < length kvs"
  shows "pos (dbi_iter this) kvs q \<Longrightarrow> q \<le> y \<Longrightarrow> same_user kvs q y \<Longrightarrow> dbi_saved_key this = entry_user kvs y \<Longrightarrow> q < f \<Longrightarrow>
    (\<exists>p it. leave_key f I C this = Ret (True, this \<lparr> dbi_iter := it \<rparr>) \<and> pos it kvs p \<and> p < y \<and>
       same_user kvs (Suc p) y) \<or>
    (\<exists>it. leave_key f I C this =
      Ret (False, this \<lparr> dbi_iter := it, dbi_saved_key := [], dbi_saved_value := [], dbi_valid := False \<rparr>) \<and>
       pos it kvs (length kvs) \<and> same_user kvs 0 y)"
proof (induction f arbitrary: this q)
  case (Suc f)
  have q: "q < length kvs" using Suc.prems(2) assms(2) by simp
  obtain it where it: "Prev I (dbi_iter this) = Ret it" "pos it kvs (if q = 0 then length kvs else q - 1)"
    using base.prev_entry [OF Suc.prems(1) q] by blast
  show ?case
  proof (cases "q = 0")
    case True
    then have n: "pos it kvs (length kvs)" using it(2) by simp
    have "leave_key (Suc f) I C this =
        Ret (False, this \<lparr> dbi_iter := it, dbi_saved_key := [], dbi_saved_value := [], dbi_valid := False \<rparr>)"
      using it(1) base.valid [OF n] by (simp add: Let_def)
    moreover have "same_user kvs 0 y" using Suc.prems(3) True by simp
    ultimately show ?thesis using n by blast
  next
    case False
    then have p: "pos it kvs (q - 1)" "q - 1 < length kvs" using it(2) q by simp_all
    note k = good_nth [OF assms(1) p(2)]
    have u: "ikey I it = Ret (fst (kvs ! (q - 1)))" "ExtractUserKey (fst (kvs ! (q - 1))) =
      Ret (entry_user kvs (q - 1))"
      using base.entry [OF p] k(2) by (simp_all add: entry_user_def)
    obtain r where cmp: "Compare C (entry_user kvs (q - 1)) (dbi_saved_key this) = Ret r"
        "r < 0 \<longleftrightarrow> lt (entry_user kvs (q - 1)) (entry_user kvs y)"
      using user.user.cmp [OF k(3) good_nth(3) [OF assms]] Suc.prems(4) by auto
    have run: "leave_key (Suc f) I C this =
      (if lt (entry_user kvs (q - 1)) (entry_user kvs y) then Ret (True, this \<lparr> dbi_iter := it \<rparr>) else leave_key f I C (this \<lparr> dbi_iter := it \<rparr>))"
      using it(1) u cmp base.valid [OF p(1)] p(2) by (simp add: Let_def)
    show ?thesis
    proof (cases "entry_user kvs (q - 1) = entry_user kvs y")
      case True
      have "same_user kvs (q - 1) y" using same_user_down [OF Suc.prems(3) _ True] False by simp
      moreover have "q - 1 \<le> y" "q - 1 < f" using Suc.prems(2,5) False by linarith+
      ultimately show ?thesis
        using Suc.IH [of "this \<lparr> dbi_iter := it \<rparr>" "q - 1"] p(1) Suc.prems(4) run True user.user.irrefl by simp
    next
      case less: False
      then have "lt (entry_user kvs (q - 1)) (entry_user kvs y)"
        using user_order [OF assms(1) _ assms(2), of "q - 1"] Suc.prems(2) by auto
      then have "leave_key (Suc f) I C this = Ret (True, this \<lparr> dbi_iter := it \<rparr>)" using run less by simp
      moreover have "q - 1 < y" using Suc.prems(2) False by linarith
      moreover have "same_user kvs (Suc (q - 1)) y" using Suc.prems(3) False by simp
      ultimately show ?thesis using p(1) by blast
    qed
  qed
qed simp

text \<open>Where the iterator stands: over the entries that show.\<close>

definition dbi_over :: "(slice \<times> slice) list \<Rightarrow> 's DBIter \<Rightarrow> nat \<Rightarrow> bool" where
  "dbi_over kvs this v \<longleftrightarrow> good kvs \<and> dbi_status this = OK \<and> seed_ok (dbi_rnd this) \<and>
     dbi_sequence this \<le> kMaxSequenceNumber \<and> v \<le> length (view (dbi_sequence this) kvs) \<and>
     (if v < length (view (dbi_sequence this) kvs)
      then dbi_valid this \<and>
        (if dbi_direction this = kForward then pos (dbi_iter this) kvs (shown (dbi_sequence this) kvs ! v)
         else saved_entry kvs (shown (dbi_sequence this) kvs ! v) this)
      else \<not> dbi_valid this \<and> (\<exists>p. pos (dbi_iter this) kvs p))"

definition dbi_pos :: "'s DBIter \<Rightarrow> (slice \<times> slice) list \<Rightarrow> nat \<Rightarrow> bool" where
  "dbi_pos this vw v \<longleftrightarrow> (\<exists>kvs. vw = view (dbi_sequence this) kvs \<and> dbi_over kvs this v)"

abbreviation vrank :: "'s DBIter \<Rightarrow> (slice \<times> slice) list \<Rightarrow> nat \<Rightarrow> nat" where
  "vrank this kvs i \<equiv> rank (shows_entry (dbi_sequence this) kvs) i"

lemma shown_nth: "shows_entry seq kvs m \<Longrightarrow> m < length kvs \<Longrightarrow>
    rank (shows_entry seq kvs) m < length (view seq kvs) \<and> shown seq kvs ! rank (shows_entry seq kvs) m = m"
  using rank_nth [where P = "shows_entry seq kvs" and m = m and n = "length kvs"] by (simp add: view_def shown_def)

lemma nth_shown:
  assumes "v < length (view seq kvs)"
  shows "shows_entry seq kvs (shown seq kvs ! v)" "shown seq kvs ! v < length kvs"
    "rank (shows_entry seq kvs) (shown seq kvs ! v) = v"
    "view seq kvs ! v = (entry_user kvs (shown seq kvs ! v), snd (kvs ! (shown seq kvs ! v)))"
  using nth_rank [of v "shows_entry seq kvs" "length kvs"] assms by (simp_all add: view_def shown_def)

lemma found_from_over:
  assumes "found_from kvs lo this" "good kvs" "lo \<le> length kvs" "dbi_status this = OK" "seed_ok (dbi_rnd this)"
    "dbi_sequence this \<le> kMaxSequenceNumber" "dbi_direction this = kForward"
  shows "dbi_over kvs this (vrank this kvs lo)"
  using assms(1) unfolding found_from_def
proof
  assume "\<exists>m < length kvs. lo \<le> m \<and> shows_entry (dbi_sequence this) kvs m \<and>
      (\<forall>j. lo \<le> j \<and> j < m \<longrightarrow> \<not> shows_entry (dbi_sequence this) kvs j) \<and> dbi_valid this \<and> pos (dbi_iter this) kvs m"
  then obtain m where m: "m < length kvs" "lo \<le> m" "shows_entry (dbi_sequence this) kvs m"
      "\<forall>j. lo \<le> j \<and> j < m \<longrightarrow> \<not> shows_entry (dbi_sequence this) kvs j" "dbi_valid this" "pos (dbi_iter this) kvs m"
    by blast
  show ?thesis using shown_nth [OF m(3,1)] m(5,6) assms(2-7) rank_same [OF m(4,2)] by (simp add: dbi_over_def)
next
  assume none: "(\<forall>j. lo \<le> j \<and> j < length kvs \<longrightarrow> \<not> shows_entry (dbi_sequence this) kvs j) \<and> \<not> dbi_valid this \<and>
      pos (dbi_iter this) kvs (length kvs)"
  then have "vrank this kvs lo = length (view (dbi_sequence this) kvs)"
    using rank_same [of lo "length kvs" "shows_entry (dbi_sequence this) kvs"] assms(3) by (simp add: length_view)
  then show ?thesis using none assms by (auto simp: dbi_over_def)
qed

lemma found_below_over:
  assumes "found_below kvs hi this" "good kvs" "hi \<le> length kvs" "dbi_status this = OK" "seed_ok (dbi_rnd this)"
    "dbi_sequence this \<le> kMaxSequenceNumber"
  shows "dbi_over kvs this (if vrank this kvs hi =
    0 then length (view (dbi_sequence this) kvs) else vrank this kvs hi - 1)"
  using assms(1) unfolding found_below_def
proof
  assume "\<exists>m. last_below kvs hi m this \<and> dbi_valid this \<and> dbi_direction this = kReverse"
  then obtain m where m: "last_below kvs hi m this" "dbi_valid this" "dbi_direction this = kReverse" by blast
  then have s: "m < hi" "shows_entry (dbi_sequence this) kvs m" "saved_entry kvs m this"
      "\<forall>j. Suc m \<le> j \<and> j < hi \<longrightarrow> \<not> shows_entry (dbi_sequence this) kvs j"
    by (auto simp: last_below_def)
  have "vrank this kvs hi = Suc (vrank this kvs m)" using rank_same [OF s(4)] s(1) rank_Suc [of _ m] s(2) by simp
  then show ?thesis using shown_nth [OF s(2)] s(1,3) m(2,3) assms(2-6) by (simp add: dbi_over_def)
next
  assume none: "none_below kvs hi this \<and> \<not> dbi_valid this"
  then have "vrank this kvs hi = 0"
    using rank_same [of 0 hi "shows_entry (dbi_sequence this) kvs"] by (simp add: none_below_def rank_def)
  then show ?thesis using none assms(2-6) by (simp add: dbi_over_def none_below_def)
qed

text \<open>The view is in order, and a seek in it is a seek in the entries.\<close>

lemma visible_below:
  assumes "good kvs" "seq \<le> kMaxSequenceNumber" "ok target" "j < length kvs"
  defines "p \<equiv> below (internal_less lt) (PutFixed64 target (PackSequenceAndType seq kValueTypeForSeek)) kvs"
  shows "lt (entry_user kvs j) target \<Longrightarrow> j < p" "j < p \<Longrightarrow> entry_visible seq kvs j \<Longrightarrow> lt (entry_user kvs j) target"
proof -
  let ?k = "PutFixed64 target (PackSequenceAndType seq kValueTypeForSeek)"
  have "sorted_keys (internal_ok ok) (internal_less lt) kvs" "internal_ok ok ?k"
    using assms(1,3) by (simp_all add: good_entries_def internal_ok_def)
  from user.internal.below_iff [OF this assms(4)]
  have iff: "internal_less lt (fst (kvs ! j)) ?k \<longleftrightarrow> j < p" by (simp add: p_def)
  show "lt (entry_user kvs j) target \<Longrightarrow> j < p" using iff by (simp add: internal_less_def entry_user_def)
  assume "j < p" "entry_visible seq kvs j"
  then have "tag_of (fst (kvs ! j)) \<le> PackSequenceAndType seq kValueTypeForSeek"
    using good_nth(4) [OF assms(1,4)] assms(2)
    by (intro pack_le) (simp_all add: entry_visible_def entry_type_def kValueTypeForSeek_def)
  then show "lt (entry_user kvs j) target" using iff \<open>j < p\<close> by (auto simp: internal_less_def entry_user_def)
qed

lemma rank_mono: "i \<le> j \<Longrightarrow> rank P i \<le> rank P j"
  by (metis filter_append le_add1 le_add_diff_inverse length_append rank_def upt_add_eq_append zero_le)

lemma sorted_view:
  assumes "good kvs"
  shows "sorted_keys ok lt (view seq kvs)"
proof -
  have "sorted_wrt (<) (shown seq kvs)" unfolding shown_def by (intro sorted_wrt_filter) simp
  then have "sorted_wrt (\<lambda>i j. lt (entry_user kvs i) (entry_user kvs j)) (shown seq kvs)"
  proof (rule sorted_wrt_mono_rel [rotated])
    fix i j assume ij: "i \<in> set (shown seq kvs)" "j \<in> set (shown seq kvs)" "i < j"
    then have "entry_user kvs i \<noteq> entry_user kvs j" "j < length kvs" by (auto simp: shown_def shows_entry_def)
    then show "lt (entry_user kvs i) (entry_user kvs j)" using user_order [OF assms, of i j] ij(3) by simp
  qed
  moreover have "\<forall>i \<in> set (shown seq kvs). ok (entry_user kvs i)" using good_nth(3) [OF assms]
    by (auto simp: shown_def)
  ultimately show ?thesis by (simp add: sorted_keys_def view_def list_all_iff sorted_wrt_map)
qed

lemma below_view:
  assumes "good kvs" "seq \<le> kMaxSequenceNumber" "ok target"
  shows "below lt target (view seq kvs) =
    rank (shows_entry seq kvs) (below (internal_less lt) (PutFixed64 target (PackSequenceAndType seq kValueTypeForSeek)) kvs)"
    (is "?l = rank ?P ?p")
proof -
  have "v < ?l \<longleftrightarrow> v < rank ?P ?p" if v: "v < length (view seq kvs)" for v
  proof -
    note y = nth_shown [OF v]
    have "v < ?l \<longleftrightarrow> lt (entry_user kvs (shown seq kvs ! v)) target"
      using user.user.below_iff [OF sorted_view [OF assms(1)] assms(3) v] y(4) by simp
    also have "\<dots> \<longleftrightarrow> shown seq kvs ! v < ?p"
      using visible_below [OF assms y(2)] y(1) by (auto simp: shows_entry_def)
    also have "\<dots> \<longleftrightarrow> v < rank ?P ?p"
      using rank_mono [of "Suc (shown seq kvs ! v)" ?p ?P] rank_Suc [of ?P "shown seq kvs ! v"] y(1,3)
        rank_mono [of ?p "shown seq kvs ! v" ?P] by (metis Suc_le_eq not_less)
    finally show ?thesis .
  qed
  moreover have "?l \<le> length (view seq kvs)" by (rule below_le)
  moreover have "rank ?P ?p \<le> length (view seq kvs)" unfolding length_view by (intro rank_mono below_le)
  ultimately show ?thesis by (metis le_neq_implies_less less_irrefl nat_neq_iff order_less_le_trans)
qed

text \<open>The conditions of the forward search, for its four callers.\<close>

lemma ahead_first: "ahead seq kvs 0 0 False skip"
  by (auto simp: ahead_def shows_entry_def)

lemma ahead_seek:
  assumes "good kvs" "seq \<le> kMaxSequenceNumber" "ok target"
  defines "p \<equiv> below (internal_less lt) (PutFixed64 target (PackSequenceAndType seq kValueTypeForSeek)) kvs"
  shows "ahead seq kvs p p False skip"
  unfolding ahead_def
proof (intro conjI allI impI)
  fix j
  assume j: "p \<le> j \<and> j < length kvs \<and> entry_visible seq kvs j \<and> entry_type kvs j = kTypeValue \<and>
      (False \<longrightarrow> lt skip (entry_user kvs j)) \<and>
      (\<forall>i. p \<le> i \<and> i < j \<and> entry_visible seq kvs i \<longrightarrow> entry_user kvs i \<noteq> entry_user kvs j)"
  have "entry_user kvs i \<noteq> entry_user kvs j" if i: "i < j" "entry_visible seq kvs i" for i
  proof (cases "p \<le> i")
    case False
    then have "lt (entry_user kvs i) target" using visible_below(2) [OF assms(1-3), of i] i j by (simp add: p_def)
    moreover have "\<not> lt (entry_user kvs j) target" using visible_below(1) [OF assms(1-3), of j] j
      by (auto simp: p_def)
    ultimately show ?thesis by metis
  qed (use i j in blast)
  then show "shows_entry seq kvs j" "p \<le> j" using j by (auto simp: shows_entry_def)
qed auto

lemma ahead_next:
  assumes "good kvs" "y < length kvs" "shows_entry seq kvs y" "q \<le> y" "\<forall>j. q \<le> j \<and> j < y \<longrightarrow> \<not> entry_visible seq kvs j"
  shows "ahead seq kvs (Suc y) q True (entry_user kvs y)"
  unfolding ahead_def
proof (intro conjI allI impI)
  fix j assume j: "q \<le> j \<and> j < length kvs \<and> True \<and> \<not> lt (entry_user kvs y) (entry_user kvs j)"
  show "\<not> (shows_entry seq kvs j \<and> Suc y \<le> j)"
  proof
    assume s: "shows_entry seq kvs j \<and> Suc y \<le> j"
    then have "entry_user kvs y = entry_user kvs j" using user_order [OF assms(1), of y j] j by auto
    then show False using s assms(3) by (auto simp: shows_entry_def)
  qed
next
  fix j
  assume j: "q \<le> j \<and> j < length kvs \<and> entry_visible seq kvs j \<and> entry_type kvs j = kTypeValue \<and>
      (True \<longrightarrow> lt (entry_user kvs y) (entry_user kvs j)) \<and>
      (\<forall>i. q \<le> i \<and> i < j \<and> entry_visible seq kvs i \<longrightarrow> entry_user kvs i \<noteq> entry_user kvs j)"
  then have "y < j" using assms(5) user.user.irrefl by (metis linorder_neqE_nat)
  moreover have "entry_user kvs i \<noteq> entry_user kvs j" if "i < q" for i
  proof -
    have "entry_user kvs i = entry_user kvs y \<or> lt (entry_user kvs i) (entry_user kvs y)"
      using user_order [OF assms(1), of i y] that assms(2,4) by simp
    then show ?thesis using j user.user.irrefl user.user.asym good_nth(3) [OF assms(1)] assms(2,4) that
      by (metis dual_order.strict_trans1 dual_order.strict_trans)
  qed
  ultimately show "shows_entry seq kvs j" "Suc y \<le> j"
    using j by (auto simp: shows_entry_def not_le [symmetric])
next
  fix j assume j: "q \<le> j \<and> j < length kvs \<and> entry_visible seq kvs j"
  then have "y \<le> j" using assms(5) by (meson not_less)
  then show "\<not> lt (entry_user kvs j) (entry_user kvs y)"
    using user_order [OF assms(1), of y j] j user.user.irrefl user.user.asym good_nth(3) [OF assms(1)] assms(2) by metis
next
  show "ok (entry_user kvs y)" using good_nth(3) [OF assms(1,2)] .
  fix j assume "j < q" "shows_entry seq kvs j"
  then show "j < Suc y" using assms(4) by simp
qed

end

sublocale database_view \<subseteq> viewed: iterator "DatabaseIter fuel sfuel I C" ok lt dbi_pos
proof unfold_locales
  fix this vw v
  assume "dbi_pos this vw v"
  then obtain kvs where vw: "vw = view (dbi_sequence this) kvs" and over: "dbi_over kvs this v"
    by (auto simp: dbi_pos_def)
  let ?seq = "dbi_sequence this"
  have good: "good kvs" and core: "dbi_status this =
    OK" "seed_ok (dbi_rnd this)" "?seq \<le> kMaxSequenceNumber" and v: "v \<le> length vw"
    using over vw by (auto simp: dbi_over_def)
  have small: "length kvs < fuel" using good by (simp add: good_entries_def)
  obtain p where at: "pos (dbi_iter this) kvs p"
    using over by (auto simp: dbi_over_def saved_entry_def split: if_splits)
  have result: "\<exists>s'. r = Ret s' \<and> dbi_pos s' vw n"
    if "\<exists>this'. r = Ret this' \<and> dbi_sequence this' = ?seq \<and> dbi_over kvs this' n" for r n
    using that vw by (auto simp: dbi_pos_def)
  have forward: "\<exists>this'. FindNextUserEntry fuel sfuel I C skipping tb = Ret this' \<and> dbi_sequence this' = ?seq \<and>
      dbi_over kvs this' (vrank this kvs lo)"
    if h: "pos (dbi_iter tb) kvs q" "q < length kvs" "ahead ?seq kvs lo q skipping (dbi_saved_key tb)" "lo \<le> length kvs"
      "core_kept this tb" "dbi_direction tb = kForward" for tb q skipping lo
  proof -
    have tb: "dbi_sequence tb = ?seq" "dbi_status tb = OK" "seed_ok (dbi_rnd tb)" using h(5) core
      by (simp_all add: core_kept_def)
    have f: "length kvs - q < fuel" using small by linarith
    obtain this' where t: "FindNextUserEntry fuel sfuel I C skipping tb =
      Ret this'" "kept tb this'" "found_from kvs lo this'"
      using FindNextUserEntry_finds [OF good h(1,2) tb(3), of lo skipping fuel] h(3) tb(1) f by auto
    then show ?thesis
      using found_from_over [OF t(3) good h(4)] tb core h(6) by (auto simp: kept_def)
  qed
  have backward: "\<exists>this'. FindPrevUserEntry fuel sfuel I C tb = Ret this' \<and> dbi_sequence this' = ?seq \<and>
      dbi_over kvs this' (if vrank this kvs hi = 0 then length vw else vrank this kvs hi - 1)"
    if h: "pos (dbi_iter tb) kvs q" "hi \<le> length kvs" "core_kept this tb" "dbi_direction tb = kReverse"
      "q < hi \<and> (\<forall>j. q < j \<and> j < hi \<longrightarrow> \<not> shows_entry ?seq kvs j) \<or> q = length kvs \<and>
        (\<forall>j < hi. \<not> shows_entry ?seq kvs j)" for tb q hi
  proof -
    have tb: "dbi_sequence tb = ?seq" "dbi_status tb = OK" "seed_ok (dbi_rnd tb)" using h(3) core
      by (simp_all add: core_kept_def)
    obtain this' where t: "FindPrevUserEntry fuel sfuel I C tb =
      Ret this'" "core_kept tb this'" "found_below kvs hi this'"
      using FindPrevUserEntry_finds [OF good h(2,1) tb(3) h(4)] h(5) tb(1) by auto
    then show ?thesis
      using found_below_over [OF t(3) good h(2)] tb core vw by (auto simp: core_kept_def)
  qed
  show "v \<le> length vw" by (rule v)
  show "Valid (DatabaseIter fuel sfuel I C) this \<longleftrightarrow> v < length vw"
    using over vw by (simp add: DatabaseIter_def dbi_over_def split: if_splits)
  show "istatus (DatabaseIter fuel sfuel I C) this = Ret OK"
    using core(1) base.status [OF at] by (simp add: DatabaseIter_def dbi_status_of_def)
  show "\<exists>s'. SeekToFirst (DatabaseIter fuel sfuel I C) this = Ret s' \<and> dbi_pos s' vw 0"
  proof -
    obtain it where it: "SeekToFirst I (dbi_iter this) = Ret it" "pos it kvs 0" using base.seek_first [OF at] by blast
    let ?tb = "this \<lparr> dbi_saved_value := [], dbi_direction := kForward, dbi_iter := it \<rparr>"
    have run: "SeekToFirst (DatabaseIter fuel sfuel I C) this =
        (if Valid I it then FindNextUserEntry fuel sfuel I C False ?tb else Ret (?tb \<lparr> dbi_valid := False \<rparr>))"
      using it(1) by (simp add: DatabaseIter_def dbi_SeekToFirst_def Let_def)
    show ?thesis
    proof (cases "0 < length kvs")
      case True
      have "\<exists>this'. FindNextUserEntry fuel sfuel I C False ?tb = Ret this' \<and> dbi_sequence this' = ?seq \<and>
          dbi_over kvs this' (vrank this kvs 0)"
        using it(2) True ahead_first core(2) by (intro forward [where q = 0]) (auto simp: core_kept_def)
      then show ?thesis using run base.valid [OF it(2)] True by (intro result) (simp add: rank_def)
    next
      case False
      then have "vw = []" using vw by (simp add: view_def shown_def)
      then have "dbi_over kvs (?tb \<lparr> dbi_valid := False \<rparr>) 0" using it(2) good core vw by (auto simp: dbi_over_def)
      then show ?thesis using run base.valid [OF it(2)] False by (intro result) simp
    qed
  qed
  show "\<exists>s'. Seek (DatabaseIter fuel sfuel I C) target this = Ret s' \<and>
    dbi_pos s' vw (below lt target vw)" if target: "ok target" for target
  proof -
    let ?k = "PutFixed64 target (PackSequenceAndType ?seq kValueTypeForSeek)"
    let ?p = "below (internal_less lt) ?k kvs"
    have k: "AppendInternalKey [] \<lparr> user_key = target, sequence = ?seq, vtype = kValueTypeForSeek \<rparr> = ?k"
      by (simp add: AppendInternalKey_def)
    have "internal_ok ok ?k" using target by (simp add: internal_ok_def)
    then obtain it where it: "Seek I ?k (dbi_iter this) = Ret it" "pos it kvs ?p" using base.seek [OF at] by blast
    let ?tb = "this \<lparr> dbi_saved_key := ?k, dbi_saved_value := [], dbi_direction := kForward, dbi_iter := it \<rparr>"
    have run: "Seek (DatabaseIter fuel sfuel I C) target this =
        (if Valid I it then FindNextUserEntry fuel sfuel I C False ?tb else Ret (?tb \<lparr> dbi_valid := False \<rparr>))"
      using it(1) k by (simp add: DatabaseIter_def dbi_Seek_def Let_def)
    have b: "below lt target vw = vrank this kvs ?p" using below_view [OF good core(3) target] vw by simp
    show ?thesis
    proof (cases "?p < length kvs")
      case True
      have "\<exists>this'. FindNextUserEntry fuel sfuel I C False ?tb = Ret this' \<and> dbi_sequence this' = ?seq \<and>
          dbi_over kvs this' (vrank this kvs ?p)"
        using it(2) True ahead_seek [OF good core(3) target] core(2) by (intro forward [where q =
          ?p]) (auto simp: core_kept_def)
      then show ?thesis using run base.valid [OF it(2)] True b by (intro result) simp
    next
      case False
      then have "?p = length kvs" using below_le [of "internal_less lt" ?k kvs] by simp
      then have "below lt target vw = length vw" using b vw by (simp add: length_view)
      moreover have "dbi_over kvs (?tb \<lparr> dbi_valid := False \<rparr>) (length vw)" using it(2) good core vw
        by (auto simp: dbi_over_def)
      ultimately show ?thesis using run base.valid [OF it(2)] False by (intro result) simp
    qed
  qed
  show "\<exists>s'. SeekToLast (DatabaseIter fuel sfuel I C) this = Ret s' \<and> dbi_pos s' vw (length vw - 1)"
  proof -
    obtain it where it: "SeekToLast I (dbi_iter this) =
      Ret it" "pos it kvs (length kvs - 1)" using base.seek_last [OF at] by blast
    let ?tb = "this \<lparr> dbi_saved_value := [], dbi_direction := kReverse, dbi_iter := it \<rparr>"
    have "\<exists>this'. FindPrevUserEntry fuel sfuel I C ?tb = Ret this' \<and> dbi_sequence this' = ?seq \<and>
        dbi_over kvs this' (if vrank this kvs (length kvs) = 0 then length vw else vrank this kvs (length kvs) - 1)"
      using it(2) core(2) by (intro backward [where q = "length kvs - 1"]) (auto simp: core_kept_def)
    moreover have "(if vrank this kvs (length kvs) = 0 then length vw else vrank this kvs (length kvs) - 1) =
      length vw - 1"
      using vw by (simp add: length_view)
    moreover have "SeekToLast (DatabaseIter fuel sfuel I C) this = FindPrevUserEntry fuel sfuel I C ?tb"
      using it(1) by (simp add: DatabaseIter_def dbi_SeekToLast_def Let_def)
    ultimately show ?thesis by (intro result) simp
  qed
  assume less: "v < length vw"
  define y where "y = shown ?seq kvs ! v"
  note y = nth_shown [OF less [unfolded vw], folded y_def]
  have over_y: "dbi_valid this" "if dbi_direction this =
    kForward then pos (dbi_iter this) kvs y else saved_entry kvs y this"
    using over less vw by (simp_all add: dbi_over_def y_def)
  have read: "ikey I (dbi_iter this) = Ret (fst (kvs ! y))" "ivalue I (dbi_iter this) = Ret (snd (kvs ! y))"
    "ExtractUserKey (fst (kvs ! y)) = Ret (entry_user kvs y)" if "dbi_direction this = kForward"
    using base.entry [of "dbi_iter this" kvs y] over_y(2) y(2) good_nth(2) [OF good y(2)] that
      by (simp_all add: entry_user_def)
  show "ikey (DatabaseIter fuel sfuel I C) this = Ret (fst (vw ! v)) \<and>
    ivalue (DatabaseIter fuel sfuel I C) this = Ret (snd (vw ! v))"
    using over_y(2) read y(4) vw by (auto simp: DatabaseIter_def dbi_key_def dbi_value_def saved_entry_def)
  show "\<exists>s'. Next (DatabaseIter fuel sfuel I C) this = Ret s' \<and> dbi_pos s' vw (Suc v)"
  proof -
    have rank: "vrank this kvs (Suc y) = Suc v" using rank_Suc [of _ y] y(1,3) by simp
    show ?thesis
    proof (cases "dbi_direction this = kForward")
      case True
      let ?tb = "this \<lparr> dbi_saved_key := entry_user kvs y \<rparr>"
      have a: "ahead ?seq kvs (Suc y) y True (entry_user kvs y)" by (rule ahead_next [OF good y(2,1)]) auto
      have "\<exists>this'. FindNextUserEntry fuel sfuel I C True ?tb = Ret this' \<and> dbi_sequence this' = ?seq \<and>
          dbi_over kvs this' (vrank this kvs (Suc y))"
        using over_y(2) True y(2) a core(2)
        by (intro forward [where q = y]) (auto simp: core_kept_def)
      moreover have "Next (DatabaseIter fuel sfuel I C) this = FindNextUserEntry fuel sfuel I C True ?tb"
        using True read by (simp add: DatabaseIter_def dbi_Next_def)
      ultimately show ?thesis using rank by (intro result) simp
    next
      case False
      then have dir: "dbi_direction this = kReverse" by (metis Direction.exhaust)
      obtain p where p: "pos (dbi_iter this) kvs p" "before_entry ?seq kvs p y" and key: "dbi_saved_key this =
        entry_user kvs y"
        using over_y(2) False by (auto simp: saved_entry_def)
      have "\<exists>it q. (if \<not> Valid I (dbi_iter this) then SeekToFirst I (dbi_iter this) else Next I (dbi_iter this)) = Ret it \<and>
          pos it kvs q \<and> q \<le> y \<and> (\<forall>j. q \<le> j \<and> j < y \<longrightarrow> \<not> entry_visible ?seq kvs j)"
      proof (cases "p = length kvs")
        case True
        then have "\<not> Valid I (dbi_iter this)" using base.valid [OF p(1)] by simp
        moreover have "\<forall>j < y. \<not> entry_visible ?seq kvs j" using p(2) True y(2) by (auto simp: before_entry_def)
        ultimately show ?thesis using base.seek_first [OF p(1)] by fastforce
      next
        case False
        then have "p < y" "\<forall>j. p < j \<and> j < y \<longrightarrow> \<not> entry_visible ?seq kvs j" using p(2) by (auto simp: before_entry_def)
        moreover from this(1) have "p < length kvs" using y(2) by simp
        ultimately show ?thesis using base.next_entry [OF p(1)] base.valid [OF p(1)] by (fastforce simp: Suc_le_eq)
      qed
      then obtain it q where it: "(if \<not> Valid I (dbi_iter this) then SeekToFirst I (dbi_iter this) else Next I (dbi_iter this)) = Ret it"
          "pos it kvs q" "q \<le> y" "\<forall>j. q \<le> j \<and> j < y \<longrightarrow> \<not> entry_visible ?seq kvs j" by blast
      let ?tb = "this \<lparr> dbi_direction := kForward, dbi_iter := it \<rparr>"
      have q: "q < length kvs" using it(3) y(2) by simp
      have "\<exists>this'. FindNextUserEntry fuel sfuel I C True ?tb = Ret this' \<and> dbi_sequence this' = ?seq \<and>
          dbi_over kvs this' (vrank this kvs (Suc y))"
        using it(2) q key ahead_next [OF good y(2,1) it(3,4)] y(2) core(2)
        by (intro forward [where q = q]) (auto simp: core_kept_def)
      moreover have "Next (DatabaseIter fuel sfuel I C) this = FindNextUserEntry fuel sfuel I C True ?tb"
        using dir it(1) base.valid [OF it(2)] q
        by (cases "Valid I (dbi_iter this)") (simp_all add: DatabaseIter_def dbi_Next_def Let_def)
      ultimately show ?thesis using rank by (intro result) simp
    qed
  qed
  show "\<exists>s'. Prev (DatabaseIter fuel sfuel I C) this = Ret s' \<and> dbi_pos s' vw (if v = 0 then length vw else v - 1)"
  proof -
    have hidden: "\<not> shows_entry ?seq kvs j" if "j < y" "\<not> entry_visible ?seq kvs j \<or> entry_user kvs j =
      entry_user kvs y" for j
      using that y(1) by (auto simp: shows_entry_def)
    show ?thesis
    proof (cases "dbi_direction this = kForward")
      case False
      then have dir: "dbi_direction this = kReverse" by (metis Direction.exhaust)
      obtain p where p: "pos (dbi_iter this) kvs p" "before_entry ?seq kvs p y"
        using over_y(2) False by (auto simp: saved_entry_def)
      have "\<exists>this'. FindPrevUserEntry fuel sfuel I C this = Ret this' \<and> dbi_sequence this' = ?seq \<and>
          dbi_over kvs this' (if vrank this kvs y = 0 then length vw else vrank this kvs y - 1)"
        using p dir hidden y(2) core(2) by (intro backward [where q = p]) (auto simp: core_kept_def before_entry_def)
      moreover have "Prev (DatabaseIter fuel sfuel I C) this = FindPrevUserEntry fuel sfuel I C this"
        using dir by (simp add: DatabaseIter_def dbi_Prev_def)
      ultimately show ?thesis unfolding y(3) by (intro result) (simp only:)
    next
      case True
      let ?tb = "this \<lparr> dbi_saved_key := entry_user kvs y \<rparr>"
      have run: "Prev (DatabaseIter fuel sfuel I C) this = res_bind (leave_key fuel I C ?tb) (\<lambda>(left, this).
             if left then FindPrevUserEntry fuel sfuel I C (this \<lparr> dbi_direction := kReverse \<rparr>) else Ret this)"
        using True read by (simp add: DatabaseIter_def dbi_Prev_def)
      have l: "pos (dbi_iter ?tb) kvs y" "same_user kvs y y" "y < fuel"
        using over_y(2) True y(2) small by (auto simp: same_user_def)
      consider (left) p it where "leave_key fuel I C ?tb = Ret (True, ?tb \<lparr> dbi_iter := it \<rparr>)" "pos it kvs p" "p < y"
          "same_user kvs (Suc p) y"
        | (ended) it where "leave_key fuel I C ?tb =
            Ret (False, ?tb \<lparr> dbi_iter := it, dbi_saved_key := [], dbi_saved_value := [], dbi_valid := False \<rparr>)"
          "pos it kvs (length kvs)" "same_user kvs 0 y"
        using leave_key_leaves [OF good y(2) l(1) le_refl l(2) _ l(3)] by auto
      then show ?thesis
      proof cases
        case left
        have none: "\<forall>j. p < j \<and> j < y \<longrightarrow> \<not> shows_entry ?seq kvs j"
          using left(4) hidden unfolding same_user_def by (meson Suc_leI less_imp_le)
        have "\<exists>this'. FindPrevUserEntry fuel sfuel I C (?tb \<lparr> dbi_iter := it, dbi_direction := kReverse \<rparr>) =
          Ret this' \<and>
            dbi_sequence this' = ?seq \<and> dbi_over kvs this' (if vrank this kvs y =
              0 then length vw else vrank this kvs y - 1)"
          using left(2,3) none y(2) core(2) by (intro backward [where q = p]) (auto simp: core_kept_def)
        moreover have "Prev (DatabaseIter fuel sfuel I C) this =
            FindPrevUserEntry fuel sfuel I C (?tb \<lparr> dbi_iter := it, dbi_direction := kReverse \<rparr>)"
          using run left(1) by simp
        ultimately show ?thesis unfolding y(3) by (intro result) (simp only:)
      next
        case ended
        have "\<forall>j < y. \<not> shows_entry ?seq kvs j" using hidden ended(3) unfolding same_user_def
          by (meson less_imp_le zero_le)
        then have "v = 0" using y(3) rank_same [of 0 y "shows_entry ?seq kvs"] by (simp add: rank_def)
        moreover have "dbi_over kvs (?tb \<lparr> dbi_iter := it, dbi_saved_key := [], dbi_saved_value := [], dbi_valid := False \<rparr>) (length vw)"
          using ended(2) good core vw by (auto simp: dbi_over_def)
        ultimately show ?thesis using run ended(1) by (intro result) simp
      qed
    qed
  qed
qed

context database_view
begin

lemma NewDBIterator_over:
  assumes "good kvs" "seq \<le> kMaxSequenceNumber" "pos it kvs p"
  shows "dbi_pos (NewDBIterator it seq seed) (view seq kvs) (length (view seq kvs))"
proof -
  have "dbi_over kvs (NewDBIterator it seq seed) (length (view seq kvs))" "dbi_sequence (NewDBIterator it seq seed) = seq"
    using assms Random_Next_ok [OF new_Random_ok, of seed]
    by (auto simp: dbi_over_def NewDBIterator_def new_DBIter_def RandomCompactionPeriod_def Uniform_def case_prod_beta')
  then show ?thesis by (auto simp: dbi_pos_def)
qed

lemma reads_view:
  assumes "good kvs" "seq \<le> kMaxSequenceNumber" "pos it kvs p"
  shows "res_bind (SeekToFirst (DatabaseIter fuel sfuel I C) (NewDBIterator it seq seed))
      (collect fuel (DatabaseIter fuel sfuel I C) (Next (DatabaseIter fuel sfuel I C))) = Ret (view seq kvs)"
    and "res_bind (SeekToLast (DatabaseIter fuel sfuel I C) (NewDBIterator it seq seed))
      (collect fuel (DatabaseIter fuel sfuel I C) (Prev (DatabaseIter fuel sfuel I C))) = Ret (rev (view seq kvs))"
    and "ok target \<Longrightarrow> res_bind (Seek (DatabaseIter fuel sfuel I C) target (NewDBIterator it seq seed))
      (collect fuel (DatabaseIter fuel sfuel I C) (Next (DatabaseIter fuel sfuel I C))) =
      Ret (dropWhile (\<lambda>(k, v). lt k target) (view seq kvs))"
proof -
  have "length (view seq kvs) \<le> length kvs" unfolding length_view rank_def
    by (metis length_filter_le length_upt minus_nat.diff_0)
  then have f: "length (view seq kvs) < fuel" using assms(1) by (simp add: good_entries_def)
  note at = NewDBIterator_over [OF assms(1-3), of seed]
  show "res_bind (SeekToFirst (DatabaseIter fuel sfuel I C) (NewDBIterator it seq seed))
      (collect fuel (DatabaseIter fuel sfuel I C) (Next (DatabaseIter fuel sfuel I C))) = Ret (view seq kvs)"
    by (rule viewed.first_collects [OF at f])
  show "res_bind (SeekToLast (DatabaseIter fuel sfuel I C) (NewDBIterator it seq seed))
      (collect fuel (DatabaseIter fuel sfuel I C) (Prev (DatabaseIter fuel sfuel I C))) = Ret (rev (view seq kvs))"
    by (rule viewed.last_collects [OF at f])
  assume "ok target"
  then show "res_bind (Seek (DatabaseIter fuel sfuel I C) target (NewDBIterator it seq seed))
      (collect fuel (DatabaseIter fuel sfuel I C) (Next (DatabaseIter fuel sfuel I C))) =
      Ret (dropWhile (\<lambda>(k, v). lt k target) (view seq kvs))"
    unfolding dropWhile_below by (rule viewed.seek_collects [OF at _ f])
qed

end

end
