(* ===== verification/LdbDbView.thy ===== *)
theory LdbDbView
  imports LdbDbIter
begin

text \<open>
  The read path put together: iterators over tables, merged, below the iterator that users see. Whatever tables the
  entries of a database are spread over, a user reads the newest values as of a snapshot, in the order of the user keys.
\<close>

context key_comparator
begin

lemma serves_iterates:
  assumes "table_serves port ok lt C kvs table" "length kvs + 1 < fuel"
  shows "\<exists>it. Table_NewIterator table = Ret it \<and> tables.over_index port table ro fuel it kvs (length kvs)"
  using assms table_iterates unfolding table_serves_def by blast

text \<open>The tables \<open>ts\<close> hold the entries of \<open>kvs\<close>; \<open>own\<close> tells which table an entry is in.\<close>

lemma merged_tables_iterate:
  assumes serves: "\<forall>c < length ts. table_serves port ok lt C (part own kvs c) (ts ! c)" and own: "\<forall>e \<in> set kvs. own e < length ts"
    and kvs: "sorted_keys ok lt kvs" "length kvs + 1 < fuel"
  shows "\<exists>its m pos i. length its = length ts \<and> (\<forall>c < length ts. Table_NewIterator (ts ! c) = Ret (its ! c)) \<and>
    NewMergingIterator (\<lambda>c. TableIter fuel port (ts ! c) ro) its = Ret m \<and>
    iterator (MergedIterators (\<lambda>c. TableIter fuel port (ts ! c) ro) C) ok lt pos \<and> pos m kvs i"
proof -
  have "\<exists>it. Table_NewIterator (ts ! c) = Ret it \<and>
      tables.over_index port (ts ! c) ro fuel it (part own kvs c) (length (part own kvs c))" if "c < length ts" for c
  proof -
    have "length (part own kvs c) \<le> length kvs" by (simp add: part_def)
    then show ?thesis using serves that kvs(2) by (intro serves_iterates) auto
  qed
  then obtain it where it: "\<forall>c < length ts. Table_NewIterator (ts ! c) = Ret (it c) \<and>
      tables.over_index port (ts ! c) ro fuel (it c) (part own kvs c) (length (part own kvs c))" by metis
  let ?its = "map it [0..<length ts]"
  have "merging.merge ok lt (length ts) own kvs" using kvs(1) own by (simp add: merged_tables.merge_def)
  from merged_tables.NewMergingIterator_over [OF _ _ this, of ?its port "\<lambda>c. ts ! c" ro fuel "\<lambda>c. length (part own kvs c)"]
  obtain m pos i where "NewMergingIterator (\<lambda>c. TableIter fuel port (ts ! c) ro) ?its = Ret m"
      "iterator (MergedIterators (\<lambda>c. TableIter fuel port (ts ! c) ro) C) ok lt pos" "pos m kvs i"
    using it by auto
  moreover have "length ?its = length ts" "\<forall>c < length ts. Table_NewIterator (ts ! c) =
    Ret (?its ! c)" using it by simp_all
  ultimately show ?thesis by blast
qed

end

text \<open>A database iterator over several tables.\<close>

sublocale internal_comparator \<subseteq> table_view: database_view C ok lt
    "MergingIter (\<lambda>c. TableIter fuel port (ts c) ro) (InternalKeyComparator C)"
    "internal.merged_tables.merged_pos port ts ro fuel n" fuel sfuel
  for fuel port ts ro n sfuel
  by (simp add: database_view_def internal_comparator_axioms internal.merged_tables.merged.iterator_axioms)

section \<open>What a user reads\<close>

definition seen_at :: "SequenceNumber \<Rightarrow> slice \<Rightarrow> bool" where
  "seen_at seq k \<longleftrightarrow> drop_bit 8 (tag_of k) \<le> seq"

definition value_key :: "slice \<Rightarrow> bool" where
  "value_key k \<longleftrightarrow> ucast (tag_of k AND 0xff) = kTypeValue"

text \<open>The newest write of a user key that a snapshot sees.\<close>

definition newest_seen :: "SequenceNumber \<Rightarrow> (slice \<times> slice) list \<Rightarrow> slice \<Rightarrow> slice \<times> slice \<Rightarrow> bool" where
  "newest_seen seq kvs u e \<longleftrightarrow> e \<in> set kvs \<and> user_of (fst e) = u \<and> seen_at seq (fst e) \<and>
     (\<forall>e' \<in> set kvs. user_of (fst e') = u \<and> seen_at seq (fst e') \<longrightarrow> tag_of (fst e') \<le> tag_of (fst e))"

context internal_comparator
begin

lemma view_newest:
  assumes sorted: "sorted_keys (internal_ok ok) (internal_less lt) kvs"
  shows "(u, v) \<in> set (view seq kvs) \<longleftrightarrow> (\<exists>k. newest_seen seq kvs u (k, v) \<and> value_key k)"
proof
  have order: "internal_less lt (fst (kvs ! i)) (fst (kvs ! j))" if "i < j" "j < length kvs" for i j
    using sorted that by (simp add: sorted_keys_def sorted_wrt_iff_nth_less)
  have newer: "tag_of (fst (kvs ! j)) < tag_of (fst (kvs ! i))"
    if "i < j" "j < length kvs" "entry_user kvs i = entry_user kvs j" for i j
    using order [OF that(1,2)] that(3) user.irrefl by (auto simp: internal_less_def entry_user_def)
  {
    assume "(u, v) \<in> set (view seq kvs)"
    then obtain y where y: "y < length kvs" "shows_entry seq kvs y" "u = entry_user kvs y" "v = snd (kvs ! y)"
      by (auto simp: view_def shown_def)
    have "tag_of (fst e') \<le> tag_of (fst (kvs ! y))"
      if e: "e' \<in> set kvs" "user_of (fst e') = u" "seen_at seq (fst e')" for e'
    proof -
      obtain j where j: "j < length kvs" "kvs ! j = e'" using e(1) by (metis in_set_conv_nth)
      then have "entry_user kvs j = entry_user kvs y" "entry_visible seq kvs j"
        using e(2,3) y(3) by (simp_all add: entry_user_def entry_visible_def seen_at_def)
      then have "\<not> j < y" using y(2) by (auto simp: shows_entry_def)
      then have "y = j \<or> tag_of (fst (kvs ! j)) < tag_of (fst (kvs ! y))"
        using newer [of y j] j(1) \<open>entry_user kvs j = entry_user kvs y\<close> by (metis nat_neq_iff)
      then show ?thesis unfolding j(2) [symmetric] by (metis less_imp_le order_refl)
    qed
    then have "newest_seen seq kvs u (fst (kvs ! y), v)"
      using y nth_mem [OF y(1)]
        by (auto simp: newest_seen_def shows_entry_def entry_user_def entry_visible_def seen_at_def)
    moreover have "value_key (fst (kvs ! y))" using y(2) by (simp add: shows_entry_def entry_type_def value_key_def)
    ultimately show "\<exists>k. newest_seen seq kvs u (k, v) \<and> value_key k" by blast
  next
    assume "\<exists>k. newest_seen seq kvs u (k, v) \<and> value_key k"
    then obtain k where k: "newest_seen seq kvs u (k, v)" "value_key k" by blast
    then obtain y where y: "y < length kvs" "kvs ! y = (k, v)" by (auto simp: newest_seen_def in_set_conv_nth)
    have "entry_user kvs j \<noteq> entry_user kvs y" if "j < y" "entry_visible seq kvs j" for j
    proof
      assume u: "entry_user kvs j = entry_user kvs y"
      have "kvs ! j \<in> set kvs" using that(1) y(1) by simp
      then have "tag_of (fst (kvs ! j)) \<le> tag_of (fst (kvs ! y))"
        using k(1) u that(2) y(2) by (auto simp: newest_seen_def entry_user_def entry_visible_def seen_at_def)
      then show False using newer [OF that(1) y(1) u] by simp
    qed
    then have "shows_entry seq kvs y" using k y
      by (auto simp: shows_entry_def newest_seen_def value_key_def entry_type_def entry_visible_def seen_at_def)
    moreover have "u = entry_user kvs y" using k(1) y(2) by (simp add: newest_seen_def entry_user_def)
    ultimately show "(u, v) \<in> set (view seq kvs)" using y by (force simp: view_def shown_def)
  }
qed

lemma database_reads:
  assumes serves: "\<forall>c < length ts. table_serves port (internal_ok ok) (internal_less lt) (InternalKeyComparator C)
      (part own kvs c) (ts ! c)" and own: "\<forall>e \<in> set kvs. own e < length ts"
    and good: "good_entries ok lt fuel sfuel kvs" and seq: "seq \<le> kMaxSequenceNumber"
  shows "\<exists>its m. length its = length ts \<and> (\<forall>c < length ts. Table_NewIterator (ts ! c) = Ret (its ! c)) \<and>
    NewMergingIterator (\<lambda>c. TableIter fuel port (ts ! c) ro) its = Ret m \<and>
    (\<forall>D. D =
      DatabaseIter fuel sfuel (MergedIterators (\<lambda>c. TableIter fuel port (ts ! c) ro) (InternalKeyComparator C)) C \<longrightarrow>
      res_bind (SeekToFirst D (NewDBIterator m seq seed)) (collect fuel D (Next D)) = Ret (view seq kvs) \<and>
      res_bind (SeekToLast D (NewDBIterator m seq seed)) (collect fuel D (Prev D)) = Ret (rev (view seq kvs)) \<and>
      (\<forall>target. ok target \<longrightarrow> res_bind (Seek D target (NewDBIterator m seq seed)) (collect fuel D (Next D)) =
        Ret (dropWhile (\<lambda>(k, v). lt k target) (view seq kvs))))"
proof -
  have kvs: "sorted_keys (internal_ok ok) (internal_less lt) kvs" "length kvs + 1 < fuel"
    using good by (simp_all add: good_entries_def)
  obtain its m pos i where m: "length its = length ts" "\<forall>c < length ts. Table_NewIterator (ts ! c) = Ret (its ! c)"
      "NewMergingIterator (\<lambda>c. TableIter fuel port (ts ! c) ro) its = Ret m"
      "iterator (MergedIterators (\<lambda>c. TableIter fuel port (ts ! c) ro) (InternalKeyComparator C))
        (internal_ok ok) (internal_less lt) pos" "pos m kvs i"
    using internal.merged_tables_iterate [OF serves own kvs] by blast
  have "database_view C ok lt (MergedIterators (\<lambda>c. TableIter fuel port (ts ! c) ro) (InternalKeyComparator C)) pos"
    using m(4) by (simp add: database_view_def internal_comparator_axioms)
  note reads = database_view.reads_view [OF this good seq m(5)]
  show ?thesis
    using m(1-3) reads by blast
qed

end

text \<open>C37: what a user reads. The entries \<open>kvs\<close> of a database, in the order of internal keys over any comparator, are
  spread over any tables. The iterator made of table iterators, the merging iterator and the database iterator reads
  the \<open>view\<close> of the entries as of the snapshot \<open>seq\<close>, forwards, backwards and from any target on. The view is in
  strict order of the user keys, and a key and a value are in it exactly if the newest write of the key that the
  snapshot sees is this value and not a deletion. The fuel that is named in \<open>good_entries\<close> is enough for every loop.\<close>

theorem Database_view:
  assumes "internal_comparator C ok lt"
    and "\<forall>c < length ts. table_serves port (internal_ok ok) (internal_less lt) (InternalKeyComparator C)
      (part own kvs c) (ts ! c)"
    and "\<forall>e \<in> set kvs. own e < length ts" and "good_entries ok lt fuel sfuel kvs" and "seq \<le> kMaxSequenceNumber"
  shows "(\<exists>its m. length its = length ts \<and> (\<forall>c < length ts. Table_NewIterator (ts ! c) = Ret (its ! c)) \<and>
      NewMergingIterator (\<lambda>c. TableIter fuel port (ts ! c) ro) its = Ret m \<and>
      (\<forall>D. D = DatabaseIter fuel sfuel
          (MergedIterators (\<lambda>c. TableIter fuel port (ts ! c) ro) (InternalKeyComparator C)) C \<longrightarrow>
        res_bind (SeekToFirst D (NewDBIterator m seq seed)) (collect fuel D (Next D)) = Ret (view seq kvs) \<and>
        res_bind (SeekToLast D (NewDBIterator m seq seed)) (collect fuel D (Prev D)) = Ret (rev (view seq kvs)) \<and>
        (\<forall>target. ok target \<longrightarrow> res_bind (Seek D target (NewDBIterator m seq seed)) (collect fuel D (Next D)) =
          Ret (dropWhile (\<lambda>(k, v). lt k target) (view seq kvs))))) \<and>
    sorted_keys ok lt (view seq kvs) \<and>
    (\<forall>u v. (u, v) \<in> set (view seq kvs) \<longleftrightarrow> (\<exists>k. newest_seen seq kvs u (k, v) \<and> value_key k))"
proof -
  note ic = assms(1)
  have "sorted_keys (internal_ok ok) (internal_less lt) kvs" using assms(4) by (simp add: good_entries_def)
  note newest = internal_comparator.view_newest [OF ic this]
  have "database_view C ok lt EmptyIterator (\<lambda>_ _ _. False)" using ic nowhere by (simp add: database_view_def)
  then have "sorted_keys ok lt (view seq kvs)" using database_view.sorted_view [OF _ assms(4)] by blast
  then show ?thesis using newest internal_comparator.database_reads [OF ic assms(2-5)] by blast
qed

definition internal_options :: Options where
  "internal_options = (plain_options None) \<lparr> opt_comparator := InternalKeyComparator BytewiseComparator \<rparr>"

lemma internal_setting:
  "setting_ok plain_port memory_file (\<lambda>w. w) (internal_ok (\<lambda>_. True)) (InternalKeyComparator BytewiseComparator) internal_options"
  using memory_file_ok(1) plain_port_ok
  by (simp add: setting_ok_def snappy_ok_def policy_ok_def plain_options_def internal_options_def plain_port_def)

lemma memory_table_serves:
  assumes "sorted_keys (internal_ok (\<lambda>_. True)) (internal_less (<)) kvs" "length kvs < 2 ^ 31"
  shows "\<exists>b. build_table plain_port memory_file internal_options kvs [] = Ret (OK, b) \<and>
    (length (tb_file b) < 2 ^ 32 \<longrightarrow>
      (\<exists>t. Table_Open plain_port 0 internal_options (memory_table (tb_file b)) (of_nat (length (tb_file b))) =
        Ret (OK, Some t) \<and>
        table_serves plain_port (internal_ok (\<lambda>_. True)) (internal_less (<)) (InternalKeyComparator BytewiseComparator) kvs t))"
proof -
  have fl: "reads_bytes (memory_table bytes) bytes" for bytes
    by (auto simp: reads_bytes_def memory_table_def intro: exI [of _ True])
  have cache: "fresh_id i None" for i by (simp add: fresh_id_def)
  have o: "opt_comparator internal_options = InternalKeyComparator BytewiseComparator"
    "opt_filter_policy internal_options = None" "opt_block_cache internal_options = None"
    by (simp_all add: internal_options_def plain_options_def)
  from bytewise_keys.internal.built_table_serves [OF internal_setting refl assms o(1) disjI1 [OF o(2)]]
  obtain b where b: "build_table plain_port memory_file internal_options kvs [] = Ret (OK, b)"
    "length (tb_file b) < 2 ^ 32 \<longrightarrow> (\<forall>fl new_id. reads_bytes fl (tb_file b) \<and> fresh_id new_id None \<longrightarrow>
      (\<exists>t. Table_Open plain_port new_id internal_options fl (of_nat (length (tb_file b))) = Ret (OK, Some t) \<and>
        table_serves plain_port (internal_ok (\<lambda>_. True)) (internal_less (<)) (InternalKeyComparator BytewiseComparator) kvs t))"
    unfolding o(3) by meson
  then show ?thesis using fl cache by blast
qed

text \<open>Two writes of one key in different tables, and a deletion of another.\<close>

definition sample_entries :: "(slice \<times> slice) list" where
  "sample_entries = [(new_InternalKey [1] 2 kTypeValue, [20]), (new_InternalKey [1] 1 kTypeValue, [10]),
     (new_InternalKey [2] 3 kTypeDeletion, [])]"

lemma sample_alt:
  "sample_entries = [(PutFixed64 [1] 0x201, [20]), (PutFixed64 [1] 0x101, [10]), (PutFixed64 [2] 0x300, [])]"
  by (simp add: sample_entries_def new_InternalKey_def AppendInternalKey_def PackSequenceAndType_def kTypeValue_def kTypeDeletion_def)

lemma sample_good: "good_entries (\<lambda>_. True) (<) 10 100 sample_entries"
  by (simp add: good_entries_def sample_alt sorted_keys_def internal_ok_def internal_less_def kTypeValue_def word_less_nat_alt
      word_le_nat_alt)

lemma sample_view: "view 1 sample_entries = [([1], [10])]"
proof -
  have r: "[0..<length sample_entries] = [0, 1, 2]" by (simp add: sample_alt upt_rec)
  have "shows_entry 1 sample_entries 1"
    by (simp add: shows_entry_def entry_visible_def entry_type_def entry_user_def kTypeValue_def sample_alt word_le_nat_alt)
  moreover have "\<not> shows_entry 1 sample_entries 0" "\<not> shows_entry 1 sample_entries 2"
    by (simp_all add: shows_entry_def entry_visible_def sample_alt word_le_nat_alt)
  ultimately have "shown 1 sample_entries = [1]" by (simp add: shown_def r)
  then show ?thesis by (simp add: view_def entry_user_def sample_alt)
qed

definition sample_owner :: "slice \<times> slice \<Rightarrow> nat" where
  "sample_owner e = (if snd e = [10] then 1 else 0)"

theorem Database_view_witness:
  "\<exists>b0 b1. build_table plain_port memory_file internal_options (part sample_owner sample_entries 0) [] =
    Ret (OK, b0) \<and>
    build_table plain_port memory_file internal_options (part sample_owner sample_entries 1) [] = Ret (OK, b1) \<and>
    (length (tb_file b0) < 2 ^ 32 \<and> length (tb_file b1) < 2 ^ 32 \<longrightarrow>
      (\<exists>t0 t1 i0 i1 m D.
        Table_Open plain_port 0 internal_options (memory_table (tb_file b0)) (of_nat (length (tb_file b0))) =
          Ret (OK, Some t0) \<and>
        Table_Open plain_port 0 internal_options (memory_table (tb_file b1)) (of_nat (length (tb_file b1))) =
          Ret (OK, Some t1) \<and>
        Table_NewIterator t0 = Ret i0 \<and> Table_NewIterator t1 = Ret i1 \<and>
        NewMergingIterator (\<lambda>c. TableIter 10 plain_port ([t0, t1] ! c) new_ReadOptions) [i0, i1] = Ret m \<and>
        D = DatabaseIter 10 100 (MergedIterators (\<lambda>c. TableIter 10 plain_port ([t0, t1] ! c) new_ReadOptions)
          (InternalKeyComparator BytewiseComparator)) BytewiseComparator \<and>
        res_bind (SeekToLast D (NewDBIterator m 1 7)) (collect 10 D (Prev D)) = Ret [([1], [10])]))"
proof -
  have sorted: "sorted_keys (internal_ok (\<lambda>_. True)) (internal_less (<)) (part sample_owner sample_entries c)" for c
    using sample_good
      by (auto simp: good_entries_def sorted_keys_def part_def list_all_iff sorted_wrt_map intro: sorted_wrt_filter)
  have len: "length (part sample_owner sample_entries c) < 2 ^ 31" for c
    using length_filter_le [of "\<lambda>e. sample_owner e = c" sample_entries] by (simp add: part_def sample_alt)
  note t = memory_table_serves [OF sorted len]
  obtain b0 b1 where b:
      "build_table plain_port memory_file internal_options (part sample_owner sample_entries 0) [] = Ret (OK, b0)"
      "build_table plain_port memory_file internal_options (part sample_owner sample_entries 1) [] = Ret (OK, b1)"
      "length (tb_file b0) < 2 ^ 32 \<longrightarrow>
        (\<exists>t. Table_Open plain_port 0 internal_options (memory_table (tb_file b0)) (of_nat (length (tb_file b0))) = Ret (OK, Some t) \<and>
          table_serves plain_port (internal_ok (\<lambda>_. True)) (internal_less (<)) (InternalKeyComparator BytewiseComparator)
            (part sample_owner sample_entries 0) t)"
      "length (tb_file b1) < 2 ^ 32 \<longrightarrow>
        (\<exists>t. Table_Open plain_port 0 internal_options (memory_table (tb_file b1)) (of_nat (length (tb_file b1))) = Ret (OK, Some t) \<and>
          table_serves plain_port (internal_ok (\<lambda>_. True)) (internal_less (<)) (InternalKeyComparator BytewiseComparator)
            (part sample_owner sample_entries 1) t)"
    using t [of 0] t [of 1] by blast
  have "\<exists>i0 i1 m D. Table_NewIterator t0 = Ret i0 \<and> Table_NewIterator t1 = Ret i1 \<and>
      NewMergingIterator (\<lambda>c. TableIter 10 plain_port ([t0, t1] ! c) new_ReadOptions) [i0, i1] = Ret m \<and>
      D = DatabaseIter 10 100 (MergedIterators (\<lambda>c. TableIter 10 plain_port ([t0, t1] ! c) new_ReadOptions)
        (InternalKeyComparator BytewiseComparator)) BytewiseComparator \<and>
      res_bind (SeekToLast D (NewDBIterator m 1 7)) (collect 10 D (Prev D)) = Ret [([1], [10])]"
    if s: "table_serves plain_port (internal_ok (\<lambda>_. True)) (internal_less (<)) (InternalKeyComparator BytewiseComparator)
            (part sample_owner sample_entries 0) t0"
          "table_serves plain_port (internal_ok (\<lambda>_. True)) (internal_less (<)) (InternalKeyComparator BytewiseComparator)
            (part sample_owner sample_entries 1) t1" for t0 t1
  proof -
    have serves: "\<forall>c < length [t0, t1]. table_serves plain_port (internal_ok (\<lambda>_. True)) (internal_less (<))
        (InternalKeyComparator BytewiseComparator) (part sample_owner sample_entries c) ([t0, t1] ! c)"
      using s by (simp add: less_Suc_eq)
    have own: "\<forall>e \<in> set sample_entries. sample_owner e < length [t0, t1]" by (simp add: sample_owner_def)
    have seq: "1 \<le> kMaxSequenceNumber" by (simp add: kMaxSequenceNumber_def word_le_nat_alt)
    from Database_view [OF bytewise_keys.internal_comparator_axioms serves own sample_good seq, of new_ReadOptions 7]
    obtain its m where m: "length its = 2" "\<forall>c < 2. Table_NewIterator ([t0, t1] ! c) = Ret (its ! c)"
        "NewMergingIterator (\<lambda>c. TableIter 10 plain_port ([t0, t1] ! c) new_ReadOptions) its = Ret m"
        "\<forall>D. D = DatabaseIter 10 100 (MergedIterators (\<lambda>c. TableIter 10 plain_port ([t0, t1] ! c) new_ReadOptions)
            (InternalKeyComparator BytewiseComparator)) BytewiseComparator \<longrightarrow>
          res_bind (SeekToLast D (NewDBIterator m 1 7)) (collect 10 D (Prev D)) = Ret (rev (view 1 sample_entries))"
      by (simp only: list.size) (auto simp: numeral_2_eq_2)
    obtain i0 i1 where its: "its = [i0, i1]" using m(1) by (auto simp: length_Suc_conv numeral_2_eq_2)
    have "Table_NewIterator t0 = Ret i0" "Table_NewIterator t1 = Ret i1"
      using m(2) [rule_format, of 0] m(2) [rule_format, of 1] its by simp_all
    moreover have "rev (view 1 sample_entries) = [([1], [10])]" by (simp add: sample_view)
    note m(4) [rule_format, OF refl, unfolded this]
    ultimately show ?thesis using m(3) unfolding its by blast
  qed
  then show ?thesis using b by blast
qed

end
