(* ===== verification/LdbMemTableSpec.thy ===== *)
theory LdbMemTableSpec
  imports LdbMemTable LdbDbView
begin

text \<open>
  The memtable against the list of its entries in the order of internal keys: adding inserts an entry, a lookup finds
  the newest entry that the snapshot sees, and the iterator keeps the contract of iterators. With the write batches
  in front, a lookup gives the last update of the key as of the snapshot.
\<close>

section \<open>The entries of a memtable\<close>

definition mem_sized :: "slice \<times> slice \<Rightarrow> bool" where
  "mem_sized kv \<longleftrightarrow> length (fst kv) < 2 ^ 32 \<and> length (snd kv) < 2 ^ 32 \<and> ucast (tag_of (fst kv) AND 0xff) \<le> kTypeValue"

definition type_ok :: "slice \<Rightarrow> bool" where
  "type_ok k \<longleftrightarrow> ucast (tag_of k AND 0xff) \<le> kTypeValue"

lemma sized_types: "list_all mem_sized kvs \<Longrightarrow> list_all (type_ok \<circ> fst) kvs"
  by (auto simp: list_all_iff mem_sized_def type_ok_def)

definition mem_holds ::
    "(slice \<Rightarrow> bool) \<Rightarrow> (slice \<Rightarrow> slice \<Rightarrow> bool) \<Rightarrow> slice SkipList \<Rightarrow> nat list \<Rightarrow> (slice \<times> slice) list \<Rightarrow> bool" where
  "mem_holds ok lt l order kvs \<longleftrightarrow> skip_list (entry_ok ok) (entry_less lt) l order (map mem_entry kvs) \<and>
     list_all mem_sized kvs"

definition insert_kv :: "(slice \<Rightarrow> slice \<Rightarrow> bool) \<Rightarrow> slice \<times> slice \<Rightarrow> (slice \<times> slice) list \<Rightarrow> (slice \<times> slice) list" where
  "insert_kv lt kv kvs = take (below lt (fst kv) kvs) kvs @ kv # drop (below lt (fst kv) kvs) kvs"

lemma set_insert_kv: "set (insert_kv lt kv kvs) = insert kv (set kvs)"
  by (auto simp: insert_kv_def dest: in_set_takeD in_set_dropD) (metis Un_iff append_take_drop_id set_append)

lemma keys_below_entries:
  assumes "list_all mem_sized kvs" and "length t < 2 ^ 32"
  shows "keys_below (entry_less lt) (PutLengthPrefixedSlice [] t @ bs) (map mem_entry kvs) = below (internal_less lt) t kvs"
proof -
  have "takeWhile (\<lambda>kv. entry_less lt (mem_entry kv) (PutLengthPrefixedSlice [] t @ bs)) kvs =
      takeWhile (\<lambda>kv. internal_less lt (fst kv) t) kvs"
    by (rule takeWhile_cong [OF refl]) (use assms in \<open>simp add: entry_less_def list_all_iff mem_sized_def\<close>)
  then show ?thesis by (simp add: keys_below_def below_def takeWhile_map comp_def)
qed

lemma mem_holds_sorted:
  assumes "mem_holds ok lt l order kvs"
  shows "sorted_keys (internal_ok ok) (internal_less lt) kvs"
proof -
  have sized: "\<And>kv. kv \<in> set kvs \<Longrightarrow> length (fst kv) < 2 ^ 32" using assms by (auto simp: mem_holds_def list_all_iff mem_sized_def)
  have "\<forall>e \<in> set (map mem_entry kvs). entry_ok ok e" "sorted_wrt (entry_less lt) (map mem_entry kvs)"
    using assms by (simp_all add: mem_holds_def skip_list_def)
  then have "list_all (internal_ok ok \<circ> fst) kvs" "sorted_wrt (\<lambda>a b. internal_less lt (fst a) (fst b)) kvs"
    using sized by (auto simp: list_all_iff sorted_wrt_map entry_less_def elim: sorted_wrt_mono_rel [rotated])
  then show ?thesis by (simp add: sorted_keys_def sorted_wrt_map)
qed

section \<open>Adding an entry\<close>

lemma entry_bytes:
  assumes "length key + 8 < 2 ^ 32" and "length val < 2 ^ 32"
  shows "EncodeVarint32 (of_nat (length key + 8)) @ key @ EncodeFixed64 tag @ EncodeVarint32 (of_nat (length val)) @ val =
      mem_entry (PutFixed64 key tag, val)"
    and "VarintLength (of_nat (length key + 8)) + (length key + 8) + VarintLength (of_nat (length val)) + length val =
      length (mem_entry (PutFixed64 key tag, val))"
proof -
  have varint: "VarintLength (of_nat n) = length (EncodeVarint32 (of_nat n))" if "n < 2 ^ 32" for n
  proof -
    have "unat (of_nat n :: u64) = n" using that by (intro unat_of_nat_u64) simp
    then show ?thesis using unat_length_u32 [OF that]
      by (simp add: VarintLength_length EncodeVarint64_enc EncodeVarint32_enc)
  qed
  show "EncodeVarint32 (of_nat (length key + 8)) @ key @ EncodeFixed64 tag @ EncodeVarint32 (of_nat (length val)) @ val =
      mem_entry (PutFixed64 key tag, val)"
    by (simp add: mem_entry_def PutLengthPrefixedSlice_def PutVarint32_def PutFixed64_def)
  then show "VarintLength (of_nat (length key + 8)) + (length key + 8) + VarintLength (of_nat (length val)) + length val =
      length (mem_entry (PutFixed64 key tag, val))"
    using varint [OF assms(1)] varint [OF assms(2)]
    by (simp add: mem_entry_def PutLengthPrefixedSlice_def PutVarint32_def)
qed

context internal_comparator
begin

lemma new_MemTable_holds: "\<exists>m. new_MemTable new_array = Ret m \<and> mem_holds ok lt (mem_table m) [] []"
  using new_SkipList_shape [of new_array "[] :: slice" new_Arena]
  by (auto simp: new_MemTable_def mem_holds_def skip_list_def keys_of_def)

lemma MemTable_Add_result:
  assumes holds: "mem_holds ok lt (mem_table m) order kvs" and key: "ok key" "length key + 8 < 2 ^ 32" "length val < 2 ^ 32"
    and tag: "s \<le> kMaxSequenceNumber" "t \<le> kTypeValue"
    and fresh: "\<forall>kv \<in> set kvs. fst kv \<noteq> PutFixed64 key (PackSequenceAndType s t)"
  shows "\<exists>m' order'. MemTable_Add new_array C s t key val m = Ret m' \<and>
    mem_holds ok lt (mem_table m') order' (insert_kv (internal_less lt) (PutFixed64 key (PackSequenceAndType s t), val) kvs)"
proof -
  let ?k = "PutFixed64 key (PackSequenceAndType s t)"
  let ?e = "mem_entry (?k, val)"
  have list: "skip_list (entry_ok ok) (entry_less lt) (mem_table m) order (map mem_entry kvs)" and sized: "list_all mem_sized kvs"
    using holds by (simp_all add: mem_holds_def)
  have ik: "internal_ok ok ?k" "length ?k < 2 ^ 32" using key by (simp_all add: internal_ok_def)
  have oke: "entry_ok ok ?e" using ik by simp
  have "\<forall>e' \<in> set (map mem_entry kvs). entry_less lt e' ?e \<or> entry_less lt ?e e'"
  proof
    fix e' assume "e' \<in> set (map mem_entry kvs)"
    then obtain kv where kv: "kv \<in> set kvs" "e' = mem_entry kv" by auto
    have "internal_ok ok (fst kv)" "length (fst kv) < 2 ^ 32"
      using mem_holds_sorted [OF holds] sized kv(1) by (auto simp: sorted_keys_def list_all_iff mem_sized_def)
    then show "entry_less lt e' ?e \<or> entry_less lt ?e e'"
      using internal.total [of "fst kv" ?k] fresh kv ik by (simp add: entry_less_def)
  qed
  then obtain p arena0 arena l' order' where alloc: "Arena_Allocate new_array (of_nat (length ?e)) (mem_arena m) = (p, arena0)"
    and ins: "SkipList_Insert new_array (MemTable_KeyComparator C) ?e arena0 (mem_table m) = Ret (arena, l')"
      "skip_list (entry_ok ok) (entry_less lt) l' order' (insert_key (entry_less lt) ?e (map mem_entry kvs))"
    using mem.Insert_result [OF list oke] by (metis surj_pair)
  have "MemTable_Add new_array C s t key val m = Ret (m \<lparr> mem_arena := arena, mem_table := l' \<rparr>)"
    unfolding MemTable_Add_def Let_def PackSequenceAndType_def [symmetric] entry_bytes [OF key(2,3), of "PackSequenceAndType s t"]
    by (simp only: alloc prod.case less_irrefl if_False ins(1) res_bind.simps)
  moreover have "insert_key (entry_less lt) ?e (map mem_entry kvs) = map mem_entry (insert_kv (internal_less lt) (?k, val) kvs)"
    using keys_below_entries [OF sized ik(2), of lt "PutLengthPrefixedSlice [] val"]
    by (simp add: insert_key_def insert_kv_def take_map drop_map mem_entry_def)
  moreover have "list_all mem_sized (insert_kv (internal_less lt) (?k, val) kvs)"
    using sized ik(2) key(3) tag tag_fields(2) [OF tag(1), of t] by (auto simp: list_all_iff set_insert_kv mem_sized_def)
  ultimately show ?thesis using ins(2) by (auto simp: mem_holds_def)
qed

section \<open>Lookup\<close>

text \<open>The newest entry that a snapshot sees is the first one not below the key of the lookup.\<close>

lemma first_not_below:
  assumes sorted: "sorted_keys (internal_ok ok) (internal_less lt) kvs" and types: "list_all (type_ok \<circ> fst) kvs"
    and u: "ok u" and s: "s \<le> kMaxSequenceNumber"
  defines "n \<equiv> below (internal_less lt) (PutFixed64 u (PackSequenceAndType s kTypeValue)) kvs"
  shows "newest_seen s kvs u e \<longleftrightarrow> n < length kvs \<and> user_of (fst (kvs ! n)) = u \<and> e = kvs ! n"
proof -
  let ?t = "PutFixed64 u (PackSequenceAndType s kTypeValue)"
  have okk: "internal_ok ok (fst (kvs ! i))" if "i < length kvs" for i
    using sorted that by (auto simp: sorted_keys_def list_all_length)
  have t: "internal_ok ok ?t" using u by (simp add: internal_ok_def)
  have order: "internal_less lt (fst (kvs ! i)) (fst (kvs ! j))" if "i < j" "j < length kvs" for i j
    using sorted that by (simp add: sorted_keys_def sorted_wrt_iff_nth_less)
  have seen: "seen_at s (fst (kvs ! i)) \<longleftrightarrow> \<not> internal_less lt (fst (kvs ! i)) ?t"
    if i: "i < length kvs" and user: "user_of (fst (kvs ! i)) = u" for i
  proof -
    let ?tag = "tag_of (fst (kvs ! i))"
    have type: "ucast (?tag AND 0xff) \<le> kTypeValue" using types i by (auto simp: list_all_length type_ok_def)
    have "drop_bit 8 ?tag \<le> s" if "?tag \<le> PackSequenceAndType s kTypeValue"
    proof -
      have "drop_bit 8 ?tag \<le> drop_bit 8 (PackSequenceAndType s kTypeValue)"
        using that by (simp add: word_le_nat_alt unat_drop_bit div_le_mono)
      then show ?thesis using tag_fields(1) [OF s] by simp
    qed
    then have "seen_at s (fst (kvs ! i)) \<longleftrightarrow> ?tag \<le> PackSequenceAndType s kTypeValue"
      using pack_le [OF _ s type] by (auto simp: seen_at_def)
    then show ?thesis using user user.irrefl by (auto simp: internal_less_def)
  qed
  have before: "internal_less lt (fst (kvs ! i)) ?t" if "i < n" for i
    using that nth_mem [of i "takeWhile (\<lambda>kv. internal_less lt (fst kv) ?t) kvs"]
    by (auto simp: n_def below_def takeWhile_nth dest: set_takeWhileD)
  have at: "\<not> internal_less lt (fst (kvs ! n)) ?t" if "n < length kvs"
    using nth_length_takeWhile that unfolding n_def below_def by blast
  have after: "\<not> internal_less lt (fst (kvs ! i)) ?t" if "n \<le> i" "i < length kvs" for i
    using at order [of n i] internal.trans [OF okk okk t, of n i] that by (cases "i = n") auto
  have newest: "newest_seen s kvs u (kvs ! n)" if n: "n < length kvs" "user_of (fst (kvs ! n)) = u"
  proof -
    have "tag_of (fst (kvs ! i)) \<le> tag_of (fst (kvs ! n))"
      if i: "i < length kvs" "user_of (fst (kvs ! i)) = u" "seen_at s (fst (kvs ! i))" for i
    proof -
      have "\<not> i < n" using seen [OF i(1,2)] i(3) before by blast
      then show ?thesis using order [of n i] i(1,2) n(2) user.irrefl by (cases "i = n") (auto simp: internal_less_def)
    qed
    then have "\<forall>e' \<in> set kvs. user_of (fst e') = u \<and> seen_at s (fst e') \<longrightarrow> tag_of (fst e') \<le> tag_of (fst (kvs ! n))"
      by (metis in_set_conv_nth)
    then show ?thesis using n seen [OF n] at by (simp add: newest_seen_def)
  qed
  show ?thesis
  proof
    assume e: "newest_seen s kvs u e"
    then obtain i where i: "i < length kvs" "kvs ! i = e" "user_of (fst (kvs ! i)) = u" "seen_at s (fst (kvs ! i))"
      by (auto simp: newest_seen_def in_set_conv_nth)
    have "\<not> internal_less lt (fst (kvs ! i)) ?t" using seen i by blast
    then have ni: "n \<le> i" using before not_le by blast
    have "i = n"
    proof (rule ccontr)
      assume "i \<noteq> n"
      then have less: "internal_less lt (fst (kvs ! n)) (fst (kvs ! i))" using ni i(1) order by simp
      have "user_of (fst (kvs ! n)) = u"
      proof (rule ccontr)
        assume other: "user_of (fst (kvs ! n)) \<noteq> u"
        then have "lt (user_of (fst (kvs ! n))) u" using less i(3) by (auto simp: internal_less_def)
        then show False using at ni i(1) by (auto simp: internal_less_def)
      qed
      moreover from this have "tag_of (fst (kvs ! i)) < tag_of (fst (kvs ! n))" using less i(3) user.irrefl by (auto simp: internal_less_def)
      moreover have "seen_at s (fst (kvs ! n))" using seen [of n] at calculation(1) ni i(1) by simp
      ultimately show False using e i ni by (fastforce simp: newest_seen_def)
    qed
    then show "n < length kvs \<and> user_of (fst (kvs ! n)) = u \<and> e = kvs ! n" using i by simp
  qed (use newest in blast)
qed

lemma type_byte:
  assumes "t \<le> kTypeValue" "t \<noteq> kTypeValue"
  shows "t = kTypeDeletion"
proof -
  have "unat t \<le> 1" "unat t \<noteq> 1" using assms by (auto simp: kTypeValue_def word_le_nat_alt word_unat_eq_iff)
  then show ?thesis by (simp add: kTypeDeletion_def unat_eq_0 [symmetric])
qed

lemma memtable_key_alt: "memtable_key (new_LookupKey u s) = PutLengthPrefixedSlice [] (PutFixed64 u (PackSequenceAndType s kTypeValue))"
  by (simp add: memtable_key_def new_LookupKey_def PutLengthPrefixedSlice_def PutVarint32_def PutFixed64_def Let_def
      kValueTypeForSeek_def)

lemma lookup_user_key_new [simp]: "lookup_user_key (new_LookupKey u s) = u"
  by (simp add: lookup_user_key_def new_LookupKey_def Let_def)

lemma entry_parsed:
  assumes "length k < 2 ^ 32" "8 \<le> length k" "length v < 2 ^ 32"
  shows "mem_GetVarint32 (mem_entry (k, v)) = Ret (of_nat (length k), k @ PutLengthPrefixedSlice [] v)"
    and "unat (of_nat (length k) :: u32) = length k"
    and "take (length k - 8) (k @ PutLengthPrefixedSlice [] v) = user_of k"
    and "DecodeFixed64 (drop (length k - 8) (k @ PutLengthPrefixedSlice [] v)) = Ret (tag_of k)"
    and "drop (length k) (k @ PutLengthPrefixedSlice [] v) = PutLengthPrefixedSlice [] v"
  using assms unat_length_u32 [OF assms(1)] DecodeFixed64_total [of "drop (length k - 8) (k @ PutLengthPrefixedSlice [] v)"]
  by (simp_all add: mem_entry_def PutLengthPrefixedSlice_def PutVarint32_def user_of_def tag_of_def)

lemma MemTable_Get_result:
  assumes holds: "mem_holds ok lt (mem_table m) order kvs" and u: "ok u" "length u + 8 < 2 ^ 32" and s: "s \<le> kMaxSequenceNumber"
  shows "MemTable_Get C (new_LookupKey u s) val st m =
    (let n = below (internal_less lt) (PutFixed64 u (PackSequenceAndType s kTypeValue)) kvs
     in if n < length kvs \<and> user_of (fst (kvs ! n)) = u
        then Ret (True, if value_key (fst (kvs ! n)) then (snd (kvs ! n), st) else (val, NotFound [] []))
        else Ret (False, val, st))"
proof -
  let ?t = "PutFixed64 u (PackSequenceAndType s kTypeValue)"
  let ?n = "below (internal_less lt) ?t kvs"
  have list: "skip_list (entry_ok ok) (entry_less lt) (mem_table m) order (map mem_entry kvs)" and sized: "list_all mem_sized kvs"
    using holds by (simp_all add: mem_holds_def)
  have t: "entry_ok ok (PutLengthPrefixedSlice [] ?t)" using u by (simp add: internal_ok_def)
  have "keys_below (entry_less lt) (PutLengthPrefixedSlice [] ?t) (map mem_entry kvs) = ?n"
    using keys_below_entries [OF sized, of ?t lt "[]"] u(2) by simp
  then have seek: "skip_Seek (MemTable_KeyComparator C) (mem_table m) (memtable_key (new_LookupKey u s)) = Ret (skip_ptr order ?n)"
    using mem.skip_seeks(3) [OF list t] by (simp add: memtable_key_alt)
  have len: "length order = length kvs" using list by (auto simp: skip_list_def keys_of_def dest: arg_cong [where f = length])
  show ?thesis
  proof (cases "?n < length kvs")
    case True
    obtain k v where kv: "kvs ! ?n = (k, v)" by fastforce
    have "internal_ok ok (fst (kvs ! ?n))" "mem_sized (kvs ! ?n)"
      using mem_holds_sorted [OF holds] sized True by (auto simp: sorted_keys_def list_all_length)
    then have k: "length k < 2 ^ 32" "8 \<le> length k" "ok (user_of k)" "length v < 2 ^ 32" "ucast (tag_of k AND 0xff) \<le> kTypeValue"
      by (simp_all add: kv internal_ok_def mem_sized_def)
    have key: "skip_key (mem_table m) (skip_ptr order ?n) = Ret (mem_entry (k, v))"
      using mem.skip_moves(1) [OF list, of ?n] True kv by simp
    have valid: "skip_Valid (skip_ptr order ?n)" using True len by (simp add: skip_Valid_def skip_ptr_def)
    have types: "kTypeValue \<noteq> kTypeDeletion" "\<not> value_key k \<Longrightarrow> ucast (tag_of k AND 0xff) = kTypeDeletion"
    proof -
      show "ucast (tag_of k AND 0xff) = kTypeDeletion" if "\<not> value_key k"
        using type_byte [OF k(5)] that by (simp add: value_key_def)
    qed (simp add: kTypeValue_def kTypeDeletion_def)
    obtain r where r: "Compare C (user_of k) u = Ret r" "r = 0 \<longleftrightarrow> user_of k = u" using user.cmp [OF k(3) u(1)] by blast
    have "MemTable_Get C (new_LookupKey u s) val st m = (if user_of k = u
        then Ret (True, if value_key k then (v, st) else (val, NotFound [] [])) else Ret (False, val, st))"
      using r k types
      by (simp add: MemTable_Get_def seek valid key entry_parsed [OF k(1,2,4)] not_less value_key_def del: drop_append take_append)
    then show ?thesis using True kv by simp
  next
    case False
    then show ?thesis using len by (simp add: MemTable_Get_def seek skip_Valid_def skip_ptr_def)
  qed
qed

text \<open>In terms of the newest entry that the snapshot sees.\<close>

lemma MemTable_Get_newest:
  assumes holds: "mem_holds ok lt (mem_table m) order kvs" and u: "ok u" "length u + 8 < 2 ^ 32" and s: "s \<le> kMaxSequenceNumber"
  shows "newest_seen s kvs u (k, v) \<Longrightarrow> MemTable_Get C (new_LookupKey u s) val st m =
      Ret (True, if value_key k then (v, st) else (val, NotFound [] []))"
    and "(\<And>e. \<not> newest_seen s kvs u e) \<Longrightarrow> MemTable_Get C (new_LookupKey u s) val st m = Ret (False, val, st)"
proof -
  have sized: "list_all mem_sized kvs" using holds by (simp add: mem_holds_def)
  note newest = first_not_below [OF mem_holds_sorted [OF holds] sized_types [OF sized] u(1) s]
  note get = MemTable_Get_result [OF holds u s, of val st, unfolded Let_def]
  show "MemTable_Get C (new_LookupKey u s) val st m = Ret (True, if value_key k then (v, st) else (val, NotFound [] []))"
    if "newest_seen s kvs u (k, v)"
  proof -
    let ?n = "below (internal_less lt) (PutFixed64 u (PackSequenceAndType s kTypeValue)) kvs"
    have "?n < length kvs" "user_of (fst (kvs ! ?n)) = u" "kvs ! ?n = (k, v)" using newest [of "(k, v)"] that by simp_all
    then show ?thesis using get by simp
  qed
  show "MemTable_Get C (new_LookupKey u s) val st m = Ret (False, val, st)" if "\<And>e. \<not> newest_seen s kvs u e"
  proof -
    let ?n = "below (internal_less lt) (PutFixed64 u (PackSequenceAndType s kTypeValue)) kvs"
    have "\<not> (?n < length kvs \<and> user_of (fst (kvs ! ?n)) = u)" using newest [of "kvs ! ?n"] that by blast
    then show ?thesis using get by (simp only: if_False)
  qed
qed

end

section \<open>Iteration\<close>

text \<open>Keys longer than a varint of 32 bits can tell would be cut off by \<open>EncodeKey\<close>.\<close>

locale mem_keys = internal_comparator C ok lt for C ok lt +
  assumes short: "ok u \<Longrightarrow> length u + 8 < 2 ^ 32"
begin

definition mem_pos :: "slice SkipList \<Rightarrow> node_ptr \<Rightarrow> (slice \<times> slice) list \<Rightarrow> nat \<Rightarrow> bool" where
  "mem_pos l iter kvs i \<longleftrightarrow> (\<exists>order. mem_holds ok lt l order kvs \<and> i \<le> length kvs \<and> iter = skip_ptr order i)"

end

sublocale mem_keys \<subseteq> mem_iterator: iterator "MemTableIterator C l" "internal_ok ok" "internal_less lt" "mem_pos l" for l
proof unfold_locales
  fix iter kvs i
  assume pos: "mem_pos l iter kvs i"
  then obtain order where holds: "mem_holds ok lt l order kvs" and i: "i \<le> length kvs" and iter: "iter = skip_ptr order i"
    by (auto simp: mem_pos_def)
  have list: "skip_list (entry_ok ok) (entry_less lt) l order (map mem_entry kvs)" and sized: "list_all mem_sized kvs"
    using holds by (simp_all add: mem_holds_def)
  have len: "length order = length kvs" using list by (auto simp: skip_list_def keys_of_def dest: arg_cong [where f = length])
  show "i \<le> length kvs" by (rule i)
  show "Valid (MemTableIterator C l) iter \<longleftrightarrow> i < length kvs"
    using len by (simp add: MemTableIterator_def iter skip_Valid_def skip_ptr_def)
  show "istatus (MemTableIterator C l) iter = Ret OK" by (simp add: MemTableIterator_def)
  have at: "mem_pos l (skip_ptr order j) kvs j" if "j \<le> length kvs" for j using holds that by (auto simp: mem_pos_def)
  show "\<exists>s'. SeekToFirst (MemTableIterator C l) iter = Ret s' \<and> mem_pos l s' kvs 0"
    "\<exists>s'. SeekToLast (MemTableIterator C l) iter = Ret s' \<and> mem_pos l s' kvs (length kvs - 1)"
    using mem.skip_seeks(1,2) [OF list] at [of 0] at [of "length kvs - 1"] by (simp_all add: MemTableIterator_def)
  show "\<exists>s'. Seek (MemTableIterator C l) target iter = Ret s' \<and> mem_pos l s' kvs (below (internal_less lt) target kvs)"
    if target: "internal_ok ok target" for target
  proof -
    have "length target < 2 ^ 32" using short [of "user_of target"] target by (auto simp: internal_ok_def user_of_def)
    then show ?thesis
      using mem.skip_seeks(3) [OF list, of "PutLengthPrefixedSlice [] target"] keys_below_entries [OF sized, of target lt "[]"] target
        at [OF below_le] by (simp add: MemTableIterator_def EncodeKey_alt)
  qed
  assume lt: "i < length kvs"
  obtain k v where kv: "kvs ! i = (k, v)" by fastforce
  have "internal_ok ok (fst (kvs ! i))" "mem_sized (kvs ! i)"
    using mem_holds_sorted [OF holds] sized lt by (auto simp: sorted_keys_def list_all_length)
  then have k: "length k < 2 ^ 32" "8 \<le> length k" "length v < 2 ^ 32" by (simp_all add: kv internal_ok_def mem_sized_def)
  have "skip_key l (skip_ptr order i) = Ret (mem_entry (k, v))" using mem.skip_moves(1) [OF list, of i] lt kv by simp
  moreover have "mem_GetLengthPrefixedSlice (mem_entry (k, v)) = Ret k" using k by (simp add: mem_entry_def)
  ultimately show "ikey (MemTableIterator C l) iter = Ret (fst (kvs ! i)) \<and> ivalue (MemTableIterator C l) iter = Ret (snd (kvs ! i))"
    using k by (simp add: MemTableIterator_def iter kv entry_parsed [OF k] del: drop_append take_append)
  show "\<exists>s'. Next (MemTableIterator C l) iter = Ret s' \<and> mem_pos l s' kvs (Suc i)"
    using mem.skip_moves(2) [OF list, of i] lt at [of "Suc i"] by (simp add: MemTableIterator_def iter)
  show "\<exists>s'. Prev (MemTableIterator C l) iter = Ret s' \<and> mem_pos l s' kvs (if i = 0 then length kvs else i - 1)"
    using mem.skip_moves(3) [OF list, of i] lt at [of "if i = 0 then length kvs else i - 1"]
    by (simp add: MemTableIterator_def iter split: if_splits)
qed

text \<open>The bytewise comparator on keys that are short enough.\<close>

definition short_key :: "slice \<Rightarrow> bool" where
  "short_key u \<longleftrightarrow> length u + 8 < 2 ^ 32"

interpretation bytewise_mem: mem_keys BytewiseComparator short_key "(<)"
proof unfold_locales
  fix a b :: slice
  show "\<exists>r. Compare BytewiseComparator a b = Ret r \<and> (r < 0 \<longleftrightarrow> a < b) \<and> (r = 0 \<longleftrightarrow> a = b)" by (rule bytewise.cmp) simp_all
  show "\<exists>s. FindShortestSeparator BytewiseComparator a a = Ret s \<and> short_key s \<and> \<not> (length s < length a \<and> a < s)" if "short_key a"
    using that by (simp add: separator_bytewise_same)
  show "\<exists>s. FindShortSuccessor BytewiseComparator a = Ret s \<and> short_key s \<and> (s = a \<or> a < s)" if "short_key a"
    using bytewise.succ [of a] length_short_successor [of a] that
    by (auto simp: short_key_def BytewiseComparator_def BytewiseComparator_FindShortSuccessor_def)
  show "\<exists>s. FindShortestSeparator BytewiseComparator a b = Ret s \<and> short_key s \<and> (s = a \<or> a < s) \<and> s < b"
    if "short_key a" "a < b"
    using bytewise.sep [of a b] length_separator [of a b] that by (auto simp: short_key_def BytewiseComparator_def)
  show "length a + 8 < 2 ^ 32" if "short_key a" using that by (simp add: short_key_def)
qed auto

section \<open>Batches\<close>

primrec update_key :: "update \<Rightarrow> slice" where
  "update_key (Put k v) = k"
| "update_key (Delete k) = k"

primrec write_of :: "SequenceNumber \<Rightarrow> update \<Rightarrow> slice \<times> slice" where
  "write_of seq (Put k v) = (PutFixed64 k (PackSequenceAndType seq kTypeValue), v)"
| "write_of seq (Delete k) = (PutFixed64 k (PackSequenceAndType seq kTypeDeletion), [])"

definition update_fits :: "(slice \<Rightarrow> bool) \<Rightarrow> update \<Rightarrow> bool" where
  "update_fits ok up \<longleftrightarrow> update_ok up \<and> ok (update_key up) \<and> length (update_key up) + 8 < 2 ^ 32"

text \<open>All entries have numbers below \<open>seq\<close>.\<close>

definition older :: "SequenceNumber \<Rightarrow> (slice \<times> slice) list \<Rightarrow> bool" where
  "older seq kvs \<longleftrightarrow> (\<forall>kv \<in> set kvs. drop_bit 8 (tag_of (fst kv)) < seq)"

lemma write_of_parts:
  assumes "seq \<le> kMaxSequenceNumber"
  shows "user_of (fst (write_of seq up)) = update_key up" "drop_bit 8 (tag_of (fst (write_of seq up))) = seq"
    "value_key (fst (write_of seq (Put k v)))" "\<not> value_key (fst (write_of seq (Delete k)))"
    "seen_at s (fst (write_of seq up)) \<longleftrightarrow> seq \<le> s"
  using tag_fields [OF assms] by (cases up; simp add: value_key_def seen_at_def kTypeValue_def kTypeDeletion_def)+

lemma newest_after_write:
  assumes older: "older (drop_bit 8 (tag_of (fst kv))) kvs" and set: "set kvs' = insert kv (set kvs)"
  shows "newest_seen s kvs' u e \<longleftrightarrow> (if user_of (fst kv) = u \<and> seen_at s (fst kv) then e = kv else newest_seen s kvs u e)"
proof -
  have less: "tag_of (fst e) < tag_of (fst kv)" if "e \<in> set kvs" for e
  proof (rule ccontr)
    assume "\<not> tag_of (fst e) < tag_of (fst kv)"
    then have "drop_bit 8 (tag_of (fst kv)) \<le> drop_bit 8 (tag_of (fst e))"
      by (simp add: word_le_nat_alt word_less_nat_alt unat_drop_bit div_le_mono)
    then show False using older that by (auto simp: older_def)
  qed
  show ?thesis
  proof (cases "user_of (fst kv) = u \<and> seen_at s (fst kv)")
    case True
    have "newest_seen s kvs' u kv" using True less unfolding newest_seen_def set by (auto simp: less_imp_le)
    moreover have "e = kv" if "newest_seen s kvs' u e"
    proof -
      have "tag_of (fst kv) \<le> tag_of (fst e)" "e \<in> insert kv (set kvs)" using that True unfolding newest_seen_def set by blast+
      then show ?thesis using less [of e] by auto
    qed
    ultimately show ?thesis using True by auto
  next
    case False
    then show ?thesis unfolding newest_seen_def set by auto
  qed
qed

text \<open>What a snapshot reads of a key: nothing, or an update.\<close>

definition reads_as :: "SequenceNumber \<Rightarrow> (slice \<times> slice) list \<Rightarrow> slice \<Rightarrow> update option \<Rightarrow> bool" where
  "reads_as s kvs u r \<longleftrightarrow> (case r of
     None \<Rightarrow> \<forall>e. \<not> newest_seen s kvs u e
   | Some up \<Rightarrow> \<exists>seq \<le> kMaxSequenceNumber. newest_seen s kvs u (write_of seq up))"

fun last_update :: "slice \<Rightarrow> SequenceNumber \<Rightarrow> SequenceNumber \<Rightarrow> update list \<Rightarrow> update option \<Rightarrow> update option" where
  "last_update u s seq [] r = r"
| "last_update u s seq (up # us) r = last_update u s (seq + 1) us (if update_key up = u \<and> seq \<le> s then Some up else r)"

lemma seq_next:
  assumes "unat seq + Suc n \<le> unat kMaxSequenceNumber + 1"
  shows "unat (seq + 1) = unat seq + 1" "seq \<le> kMaxSequenceNumber" "unat (seq + 1) + n \<le> unat kMaxSequenceNumber + 1"
proof -
  have "unat kMaxSequenceNumber = 72057594037927935" by (simp add: kMaxSequenceNumber_def)
  then show 1: "unat (seq + 1) = unat seq + 1" using assms unat_add_fits [of seq 1] by simp
  then show "seq \<le> kMaxSequenceNumber" "unat (seq + 1) + n \<le> unat kMaxSequenceNumber + 1"
    using assms by (simp_all add: word_le_nat_alt)
qed

lemma last_update_find:
  "unat seq + length us \<le> unat kMaxSequenceNumber + 1 \<Longrightarrow>
   last_update u s seq us r = (case List.find (\<lambda>up. update_key up = u) (rev (take (unat s + 1 - unat seq) us)) of
     None \<Rightarrow> r | Some up \<Rightarrow> Some up)"
proof (induction us arbitrary: seq r)
  case (Cons up us)
  have find: "List.find P (xs @ [x]) = (case List.find P xs of None \<Rightarrow> (if P x then Some x else None) | Some y \<Rightarrow> Some y)"
    for P xs and x :: update
    by (induction xs) auto
  have n: "unat (seq + 1) = unat seq + 1" and IH: "\<And>r. last_update u s (seq + 1) us r =
      (case List.find (\<lambda>up. update_key up = u) (rev (take (unat s + 1 - unat (seq + 1)) us)) of None \<Rightarrow> r | Some up \<Rightarrow> Some up)"
    using Cons.IH [of "seq + 1"] seq_next [of seq "length us"] Cons.prems by simp_all
  show ?case
  proof (cases "seq \<le> s")
    case True
    then have "unat s + 1 - unat seq = Suc (unat s + 1 - unat (seq + 1))" using n by (simp add: word_le_nat_alt)
    then show ?thesis using True IH by (auto simp: find split: option.splits)
  next
    case False
    then have "unat s + 1 - unat seq = 0" "unat s + 1 - unat (seq + 1) = 0" using n by (simp_all add: word_le_nat_alt)
    then show ?thesis using False IH by simp
  qed
qed simp

lemma last_update_append:
  "last_update u s seq (us @ vs) r = last_update u s (seq + of_nat (length us)) vs (last_update u s seq us r)"
  by (induction us arbitrary: seq r) (simp_all add: add.assoc [symmetric])

text \<open>Batches one after the other, with consecutive numbers; the first error ends it.\<close>

fun insert_batches :: "new_operator \<Rightarrow> Comparator \<Rightarrow> SequenceNumber \<Rightarrow> update list list \<Rightarrow> MemTable \<Rightarrow> (Status \<times> MemTable) res" where
  "insert_batches new_array user seq [] m = Ret (OK, m)"
| "insert_batches new_array user seq (us # uss) m =
     res_bind (MemTable_InsertInto new_array user (batch_bytes seq us) m) (\<lambda>(s, m).
       if s = OK then insert_batches new_array user (seq + of_nat (length us)) uss m else Ret (s, m))"

context internal_comparator
begin

lemma MemTable_Add_write:
  assumes holds: "mem_holds ok lt (mem_table m) order kvs" and older: "older seq kvs" and up: "update_fits ok up"
    and seq: "seq \<le> kMaxSequenceNumber"
  shows "\<exists>m' order' kvs'. (case up of Put k v \<Rightarrow> batch_Add new_array C seq kTypeValue k v (Ret m)
      | Delete k \<Rightarrow> batch_Add new_array C seq kTypeDeletion k [] (Ret m)) = Ret m' \<and>
    mem_holds ok lt (mem_table m') order' kvs' \<and> set kvs' = insert (write_of seq up) (set kvs)"
proof -
  have "fst kv \<noteq> fst (write_of seq up)" if "kv \<in> set kvs" for kv
    using older that write_of_parts(2) [OF seq, of up] by (auto simp: older_def)
  then have fresh: "\<forall>kv \<in> set kvs. fst kv \<noteq> fst (write_of seq up)" by blast
  obtain t v where w: "write_of seq up = (PutFixed64 (update_key up) (PackSequenceAndType seq t), v)" "t \<le> kTypeValue"
      "length v < 2 ^ 32" "(case up of Put k v \<Rightarrow> batch_Add new_array C seq kTypeValue k v (Ret m)
      | Delete k \<Rightarrow> batch_Add new_array C seq kTypeDeletion k [] (Ret m)) = MemTable_Add new_array C seq t (update_key up) v m"
    using up by (cases up) (auto simp: update_fits_def batch_Add_def kTypeValue_def kTypeDeletion_def)
  obtain m' order' where "MemTable_Add new_array C seq t (update_key up) v m = Ret m'"
      "mem_holds ok lt (mem_table m') order' (insert_kv (internal_less lt) (write_of seq up) kvs)"
    using MemTable_Add_result [OF holds _ _ w(3) seq w(2), of "update_key up" new_array] up fresh w(1) by (auto simp: update_fits_def)
  then show ?thesis using w(4) set_insert_kv [of "internal_less lt" "write_of seq up" kvs] by auto
qed

lemma reads_after_write:
  assumes older: "older seq kvs" and seq: "seq \<le> kMaxSequenceNumber" and set: "set kvs' = insert (write_of seq up) (set kvs)"
    and reads: "reads_as s kvs u r"
  shows "reads_as s kvs' u (if update_key up = u \<and> seq \<le> s then Some up else r)"
proof -
  have "newest_seen s kvs' u e \<longleftrightarrow> (if update_key up = u \<and> seq \<le> s then e = write_of seq up else newest_seen s kvs u e)" for e
    using newest_after_write [of "write_of seq up" kvs kvs' s u e] older set by (simp add: write_of_parts [OF seq])
  then show ?thesis using reads seq by (auto simp: reads_as_def split: option.splits)
qed

lemma add_updates_reads:
  assumes "mem_holds ok lt (mem_table m) order kvs" "older seq kvs" "list_all (update_fits ok) us"
    "unat seq + length us \<le> unat kMaxSequenceNumber + 1"
  shows "\<exists>m' order' kvs'. add_updates (batch_Add new_array C) seq us (Ret m) = Ret m' \<and>
    mem_holds ok lt (mem_table m') order' kvs' \<and> older (seq + of_nat (length us)) kvs' \<and>
    (\<forall>s u r. reads_as s kvs u r \<longrightarrow> reads_as s kvs' u (last_update u s seq us r))"
  using assms
proof (induction us arbitrary: m order kvs seq)
  case (Cons up us)
  note next_seq = seq_next [of seq "length us"]
  have n: "unat (seq + 1) = unat seq + 1" "seq \<le> kMaxSequenceNumber" "unat (seq + 1) + length us \<le> unat kMaxSequenceNumber + 1"
    using next_seq Cons.prems(4) by simp_all
  have fits: "update_fits ok up" using Cons.prems(3) by simp
  obtain m1 order1 kvs1 where 1: "(case up of Put k v \<Rightarrow> batch_Add new_array C seq kTypeValue k v (Ret m)
      | Delete k \<Rightarrow> batch_Add new_array C seq kTypeDeletion k [] (Ret m)) = Ret m1"
      "mem_holds ok lt (mem_table m1) order1 kvs1" "set kvs1 = insert (write_of seq up) (set kvs)"
    using MemTable_Add_write [OF Cons.prems(1,2) fits n(2), of new_array] by blast
  have less: "seq < seq + 1" using n(1) by (simp add: word_less_nat_alt)
  then have "older (seq + 1) kvs1"
    using Cons.prems(2) write_of_parts(2) [OF n(2), of up] by (auto simp: older_def 1(3) intro: less_trans)
  from Cons.IH [OF 1(2) this _ n(3)] Cons.prems(3) obtain m2 order2 kvs2
    where 2: "add_updates (batch_Add new_array C) (seq + 1) us (Ret m1) = Ret m2" "mem_holds ok lt (mem_table m2) order2 kvs2"
      "older (seq + 1 + of_nat (length us)) kvs2"
      "\<forall>s u r. reads_as s kvs1 u r \<longrightarrow> reads_as s kvs2 u (last_update u s (seq + 1) us r)" by auto
  have "\<forall>s u r. reads_as s kvs u r \<longrightarrow> reads_as s kvs2 u (last_update u s seq (up # us) r)"
    using 2(4) reads_after_write [OF Cons.prems(2) n(2) 1(3)] by simp
  moreover have "add_updates (batch_Add new_array C) seq (up # us) (Ret m) = Ret m2" using 1(1) 2(1) by simp
  moreover have "older (seq + of_nat (length (up # us))) kvs2" using 2(3) by (simp add: add.assoc)
  ultimately show ?case using 2(2) by blast
qed auto

lemma insert_batches_reads:
  assumes "mem_holds ok lt (mem_table m) order kvs" "older seq kvs" "\<forall>us \<in> set uss. length us < 2 ^ 31"
    "list_all (update_fits ok) (concat uss)" "unat seq + length (concat uss) \<le> unat kMaxSequenceNumber + 1"
  shows "\<exists>m' order' kvs'. insert_batches new_array C seq uss m = Ret (OK, m') \<and>
    mem_holds ok lt (mem_table m') order' kvs' \<and>
    (\<forall>s u r. reads_as s kvs u r \<longrightarrow> reads_as s kvs' u (last_update u s seq (concat uss) r))"
  using assms
proof (induction uss arbitrary: m order kvs seq)
  case (Cons us uss)
  have fits: "list_all (update_fits ok) us" and len: "unat seq + length us \<le> unat kMaxSequenceNumber + 1" using Cons.prems(4,5) by simp_all
  obtain m1 order1 kvs1 where 1: "add_updates (batch_Add new_array C) seq us (Ret m) = Ret m1"
      "mem_holds ok lt (mem_table m1) order1 kvs1" "older (seq + of_nat (length us)) kvs1"
      "\<forall>s u r. reads_as s kvs u r \<longrightarrow> reads_as s kvs1 u (last_update u s seq us r)"
    using add_updates_reads [OF Cons.prems(1,2) fits len, of new_array] by blast
  have "batch_ok us" using Cons.prems(3) fits by (auto simp: batch_ok_def list_all_iff update_fits_def)
  then have ins: "MemTable_InsertInto new_array C (batch_bytes seq us) m = Ret (OK, m1)"
    using InsertInto_batch [of us "batch_Add new_array C" seq "Ret m"] 1(1) by (simp add: MemTable_InsertInto_def)
  have "unat kMaxSequenceNumber = 72057594037927935" by (simp add: kMaxSequenceNumber_def)
  then have "unat (seq + of_nat (length us)) = unat seq + length us" using len by (intro unat_add_fits) simp
  then have "unat (seq + of_nat (length us)) + length (concat uss) \<le> unat kMaxSequenceNumber + 1" using Cons.prems(5) by simp
  from Cons.IH [OF 1(2,3) _ _ this] Cons.prems(3,4) obtain m2 order2 kvs2
    where 2: "insert_batches new_array C (seq + of_nat (length us)) uss m1 = Ret (OK, m2)"
      "mem_holds ok lt (mem_table m2) order2 kvs2" "\<forall>s u r. reads_as s kvs1 u r \<longrightarrow>
        reads_as s kvs2 u (last_update u s (seq + of_nat (length us)) (concat uss) r)" by auto
  then have "insert_batches new_array C seq (us # uss) m = Ret (OK, m2)" using ins by simp
  moreover have "\<forall>s u r. reads_as s kvs u r \<longrightarrow> reads_as s kvs2 u (last_update u s seq (concat (us # uss)) r)"
    using 1(4) 2(3) by (simp add: last_update_append)
  ultimately show ?case using 2(2) by blast
qed auto

end

text \<open>C38: write batches into a memtable. Insert any batches into a new memtable, with consecutive numbers from \<open>seq\<close> on,
  over any comparator. Every insertion reports success, and a lookup of a key as of a snapshot \<open>s\<close> finds the last
  update of the key among those numbered up to \<open>s\<close>: its value, or that it was deleted, and nothing if there is none.\<close>

theorem MemTable_reads_updates:
  assumes "internal_comparator C ok lt" and "\<forall>us \<in> set uss. length us < 2 ^ 31" and "list_all (update_fits ok) (concat uss)"
    and "unat seq + length (concat uss) \<le> unat kMaxSequenceNumber + 1"
  shows "\<exists>m. res_bind (new_MemTable new_array) (insert_batches new_array C seq uss) = Ret (OK, m) \<and>
    (\<forall>u s val st. ok u \<and> length u + 8 < 2 ^ 32 \<and> s \<le> kMaxSequenceNumber \<longrightarrow>
      MemTable_Get C (new_LookupKey u s) val st m =
        Ret (case List.find (\<lambda>up. update_key up = u) (rev (take (unat s + 1 - unat seq) (concat uss))) of
               None \<Rightarrow> (False, val, st)
             | Some (Put k v) \<Rightarrow> (True, v, st)
             | Some (Delete k) \<Rightarrow> (True, val, NotFound [] [])))"
proof -
  note ic = assms(1)
  obtain m0 where m0: "new_MemTable new_array = Ret m0" "mem_holds ok lt (mem_table m0) [] []"
    using internal_comparator.new_MemTable_holds [OF ic] by blast
  have start: "older seq []" "reads_as s [] u None" for s u by (simp_all add: older_def reads_as_def newest_seen_def)
  from internal_comparator.insert_batches_reads [OF ic m0(2) start(1) assms(2-4), of new_array] obtain m order kvs
    where m: "insert_batches new_array C seq uss m0 = Ret (OK, m)" "mem_holds ok lt (mem_table m) order kvs"
      "\<forall>s u r. reads_as s [] u r \<longrightarrow> reads_as s kvs u (last_update u s seq (concat uss) r)" by blast
  have "MemTable_Get C (new_LookupKey u s) val st m = Ret (case last_update u s seq (concat uss) None of
        None \<Rightarrow> (False, val, st) | Some (Put k v) \<Rightarrow> (True, v, st) | Some (Delete k) \<Rightarrow> (True, val, NotFound [] []))"
    if u: "ok u" "length u + 8 < 2 ^ 32" and s: "s \<le> kMaxSequenceNumber" for u s val st
  proof -
    note get = internal_comparator.MemTable_Get_newest [OF ic m(2) u s]
    have reads: "reads_as s kvs u (last_update u s seq (concat uss) None)" using m(3) start(2) by blast
    show ?thesis
    proof (cases "last_update u s seq (concat uss) None")
      case None
      have "\<forall>e. \<not> newest_seen s kvs u e" using reads unfolding reads_as_def None option.case .
      then have "MemTable_Get C (new_LookupKey u s) val st m = Ret (False, val, st)" by (intro get(2)) blast
      then show ?thesis using None by simp
    next
      case (Some up)
      then obtain sq where sq: "sq \<le> kMaxSequenceNumber" "newest_seen s kvs u (write_of sq up)" using reads by (auto simp: reads_as_def)
      show ?thesis
        using get(1) [of "fst (write_of sq up)" "snd (write_of sq up)" val st] sq(2) Some write_of_parts(3,4) [OF sq(1)]
        by (cases up) auto
    qed
  qed
  then have "\<forall>u s val st. ok u \<and> length u + 8 < 2 ^ 32 \<and> s \<le> kMaxSequenceNumber \<longrightarrow>
      MemTable_Get C (new_LookupKey u s) val st m =
        Ret (case List.find (\<lambda>up. update_key up = u) (rev (take (unat s + 1 - unat seq) (concat uss))) of
               None \<Rightarrow> (False, val, st)
             | Some (Put k v) \<Rightarrow> (True, v, st)
             | Some (Delete k) \<Rightarrow> (True, val, NotFound [] []))"
    unfolding last_update_find [OF assms(4)] by (auto split: option.splits)
  then show ?thesis using m0(1) m(1) by simp
qed

theorem MemTable_reads_updates_witness:
  "\<exists>m. res_bind (new_MemTable bump_new)
       (insert_batches bump_new BytewiseComparator 5 [[Put [1] [10], Put [2] [20]], [Delete [1]]]) = Ret (OK, m) \<and>
     MemTable_Get BytewiseComparator (new_LookupKey [1] 6) [] OK m = Ret (True, [10], OK) \<and>
     MemTable_Get BytewiseComparator (new_LookupKey [1] 7) [] OK m = Ret (True, [], NotFound [] [])"
proof -
  let ?uss = "[[Put [1] [10], Put [2] [20]], [Delete [1]]]"
  have "list_all (update_fits short_key) (concat ?uss)" by (simp add: update_fits_def short_key_def)
  note fits = this
  have seq: "unat (5 :: u64) + length (concat ?uss) \<le> unat kMaxSequenceNumber + 1" by (simp add: kMaxSequenceNumber_def)
  have len: "\<forall>us \<in> set ?uss. length us < 2 ^ 31" by simp
  obtain m where "res_bind (new_MemTable bump_new) (insert_batches bump_new BytewiseComparator 5 ?uss) = Ret (OK, m) \<and>
    (\<forall>u s val st. short_key u \<and> length u + 8 < 2 ^ 32 \<and> s \<le> kMaxSequenceNumber \<longrightarrow>
      MemTable_Get BytewiseComparator (new_LookupKey u s) val st m =
        Ret (case List.find (\<lambda>up. update_key up = u) (rev (take (unat s + 1 - unat (5 :: u64)) (concat ?uss))) of
               None \<Rightarrow> (False, val, st)
             | Some (Put k v) \<Rightarrow> (True, v, st)
             | Some (Delete k) \<Rightarrow> (True, val, NotFound [] [])))"
    using MemTable_reads_updates [OF bytewise_mem.internal_comparator_axioms len fits seq, of bump_new] ..
  note m = conjunct1 [OF this] and get = conjunct2 [OF this]
  have k: "6 \<le> kMaxSequenceNumber" "7 \<le> kMaxSequenceNumber" by (simp_all add: kMaxSequenceNumber_def word_le_nat_alt)
  have "MemTable_Get BytewiseComparator (new_LookupKey [1] 6) [] OK m = Ret (True, [10], OK)"
    using mp [OF spec [OF spec [OF spec [OF spec [OF get]]]], of "[1]" 6 "[]" OK] k(1)
    by (simp add: short_key_def)
  moreover have "MemTable_Get BytewiseComparator (new_LookupKey [1] 7) [] OK m = Ret (True, [], NotFound [] [])"
    using mp [OF spec [OF spec [OF spec [OF spec [OF get]]]], of "[1]" 7 "[]" OK] k(2)
    by (simp add: short_key_def)
  ultimately show ?thesis using m by (intro exI [of _ m] conjI)
qed

end
