(* ===== verification/LdbVersion.thy ===== *)
theory LdbVersion
  imports LdbVersionEdit LdbMemTableSpec
begin

text \<open>
  The files of a version of the database, from \<open>version_set.cc\<close>: the search for a file, what overlaps a range of
  keys, the iterator over the files of a level, the lookup through all levels, and its statistics. A pointer to the
  meta data of a file is the number of the file where it is kept, since no two files have the same, and the meta data
  itself where it is only read. The table cache is a parameter \<open>tc\<close>: what \<open>TableCache::FindTable\<close> gives for the
  number and the size of a file.
\<close>

type_synonym files = "FileMetaData list"

section \<open>Finding files\<close>

text \<open>The binary search, on natural numbers: a level has fewer than 2^31 files.\<close>

function find_file :: "Comparator \<Rightarrow> files \<Rightarrow> slice \<Rightarrow> nat \<Rightarrow> nat \<Rightarrow> nat res" where
  "find_file C fs key left right =
     (if left < right
      then let mid = (left + right) div 2
        in if mid < length fs
           then res_bind (InternalKey_Encode (largest (fs ! mid))) (\<lambda>large.
                res_bind (Compare (InternalKeyComparator C) large key) (\<lambda>r.
                  if r < 0 then find_file C fs key (mid + 1) right else find_file C fs key left mid))
           else Undef
      else Ret right)"
  by pat_completeness auto

termination find_file
  by (relation "measure (\<lambda>(_, _, _, left, right). right - left)") auto

declare find_file.simps [simp del]

definition FindFile :: "Comparator \<Rightarrow> files \<Rightarrow> slice \<Rightarrow> nat res" where
  "FindFile C fs key = find_file C fs key 0 (length fs)"

text \<open>A null pointer to a key is \<open>None\<close>.\<close>

definition AfterFile :: "Comparator \<Rightarrow> slice option \<Rightarrow> FileMetaData \<Rightarrow> bool res" where
  "AfterFile C ukey f =
     (case ukey of
        None \<Rightarrow> Ret False
      | Some k \<Rightarrow> res_bind (InternalKey_user_key (largest f)) (\<lambda>l. map_res (\<lambda>r. r > 0) (Compare C k l)))"

definition BeforeFile :: "Comparator \<Rightarrow> slice option \<Rightarrow> FileMetaData \<Rightarrow> bool res" where
  "BeforeFile C ukey f =
     (case ukey of
        None \<Rightarrow> Ret False
      | Some k \<Rightarrow> res_bind (InternalKey_user_key (smallest f)) (\<lambda>s. map_res (\<lambda>r. r < 0) (Compare C k s)))"

fun some_overlap :: "Comparator \<Rightarrow> files \<Rightarrow> slice option \<Rightarrow> slice option \<Rightarrow> bool res" where
  "some_overlap C [] small large = Ret False"
| "some_overlap C (f # fs) small large =
     res_bind (AfterFile C small f) (\<lambda>after.
     res_bind (if after then Ret True else BeforeFile C large f) (\<lambda>apart.
       if apart then some_overlap C fs small large else Ret True))"

definition SomeFileOverlapsRange :: "Comparator \<Rightarrow> bool \<Rightarrow> files \<Rightarrow> slice option \<Rightarrow> slice option \<Rightarrow> bool res" where
  "SomeFileOverlapsRange C disjoint_sorted_files fs small large =
     (if \<not> disjoint_sorted_files then some_overlap C fs small large
      else res_bind (case small of
               None \<Rightarrow> Ret 0
             | Some k \<Rightarrow> res_bind (InternalKey_Encode (new_InternalKey k kMaxSequenceNumber kValueTypeForSeek)) (FindFile C fs)) (\<lambda>index.
             if length fs \<le> index then Ret False else map_res Not (BeforeFile C large (fs ! index))))"

section \<open>The iterator over the files of a level\<close>

text \<open>Its state is \<open>index_\<close>.\<close>

definition file_value :: "FileMetaData \<Rightarrow> slice" where
  "file_value f = EncodeFixed64 (file_number f) @ EncodeFixed64 (file_size f)"

definition LevelFileNumIterator :: "Comparator \<Rightarrow> files \<Rightarrow> nat Iterator" where
  "LevelFileNumIterator C flist =
     \<lparr> Valid = \<lambda>index. index < length flist,
       SeekToFirst = \<lambda>_. Ret 0,
       SeekToLast = \<lambda>_. Ret (if flist = [] then 0 else length flist - 1),
       Seek = \<lambda>target _. FindFile C flist target,
       Next = \<lambda>index. Ret (index + 1),
       Prev = \<lambda>index. Ret (if index = 0 then length flist else index - 1),
       ikey = \<lambda>index. (if index < length flist then InternalKey_Encode (largest (flist ! index)) else Undef),
       ivalue = \<lambda>index. (if index < length flist then Ret (file_value (flist ! index)) else Undef),
       istatus = \<lambda>_. Ret OK \<rparr>"

definition new_LevelFileNumIterator :: "files \<Rightarrow> nat" where
  "new_LevelFileNumIterator flist = length flist"

section \<open>Objects that carry what they iterate over\<close>

text \<open>The functions of a class whose objects are a part \<open>p\<close> that never changes and a state.\<close>

definition carrying :: "('p \<Rightarrow> 's Iterator) \<Rightarrow> ('p \<times> 's) Iterator" where
  "carrying I =
     \<lparr> Valid = \<lambda>(p, s). Valid (I p) s,
       SeekToFirst = \<lambda>(p, s). map_res (Pair p) (SeekToFirst (I p) s),
       SeekToLast = \<lambda>(p, s). map_res (Pair p) (SeekToLast (I p) s),
       Seek = \<lambda>k (p, s). map_res (Pair p) (Seek (I p) k s),
       Next = \<lambda>(p, s). map_res (Pair p) (Next (I p) s),
       Prev = \<lambda>(p, s). map_res (Pair p) (Prev (I p) s),
       ikey = \<lambda>(p, s). ikey (I p) s,
       ivalue = \<lambda>(p, s). ivalue (I p) s,
       istatus = \<lambda>(p, s). istatus (I p) s \<rparr>"

section \<open>Tables of files\<close>

type_synonym TableCache = "u64 \<Rightarrow> u64 \<Rightarrow> (Status \<times> Table option) res"

type_synonym table_iterator = "(Status + Iter, Status + Iter) TwoLevelIterator"
type_synonym file_iterator = "Status + Table \<times> table_iterator"

definition FileIterator :: "nat \<Rightarrow> Port \<Rightarrow> ReadOptions \<Rightarrow> file_iterator Iterator" where
  "FileIterator fuel port ro = either_iterator EmptyIterator (carrying (\<lambda>table. TableIter fuel port table ro))"

definition TableCache_NewIterator :: "TableCache \<Rightarrow> u64 \<Rightarrow> u64 \<Rightarrow> file_iterator res" where
  "TableCache_NewIterator tc number fsize =
     res_bind (tc number fsize) (\<lambda>(s, table).
       if \<not> Status_ok s then Ret (Inl (NewErrorIterator s))
       else case table of
              None \<Rightarrow> Undef
            | Some t \<Rightarrow> map_res (\<lambda>it. Inr (t, it)) (Table_NewIterator t))"

definition TableCache_Get :: "TableCache \<Rightarrow> Port \<Rightarrow> ReadOptions \<Rightarrow> u64 \<Rightarrow> u64 \<Rightarrow> slice \<Rightarrow> (Status \<times> (slice \<times> slice) option) res" where
  "TableCache_Get tc port ro number fsize k =
     res_bind (tc number fsize) (\<lambda>(s, table).
       if \<not> Status_ok s then Ret (s, None)
       else case table of None \<Rightarrow> Undef | Some t \<Rightarrow> Table_InternalGet port t ro k)"

definition GetFileIterator :: "TableCache \<Rightarrow> file_iterator BlockFunction" where
  "GetFileIterator tc fvalue =
     map_res Some
       (if length fvalue \<noteq> 16
        then Ret (Inl (NewErrorIterator (Corruption ''FileReader invoked with unexpected value'' [])))
        else res_bind (DecodeFixed64 fvalue) (\<lambda>number.
             res_bind (DecodeFixed64 (drop 8 fvalue)) (TableCache_NewIterator tc number)))"

definition LevelIterator :: "nat \<Rightarrow> Comparator \<Rightarrow> TableCache \<Rightarrow> Port \<Rightarrow> ReadOptions \<Rightarrow> files \<Rightarrow>
    (nat, file_iterator) TwoLevelIterator Iterator" where
  "LevelIterator fuel C tc port ro flist =
     TwoLevelIter fuel (LevelFileNumIterator C flist) (FileIterator fuel port ro) (GetFileIterator tc)"

definition NewConcatenatingIterator :: "nat \<Rightarrow> Comparator \<Rightarrow> Port \<Rightarrow> ReadOptions \<Rightarrow> files \<Rightarrow>
    (nat, file_iterator) TwoLevelIterator res" where
  "NewConcatenatingIterator fuel C port ro flist =
     NewTwoLevelIterator (LevelFileNumIterator C flist) (FileIterator fuel port ro) (new_LevelFileNumIterator flist)"

section \<open>Versions\<close>

record Version =
  v_files :: "files list"
  file_to_compact :: "u64 option"
  file_to_compact_level :: int

record GetStats =
  seek_file :: "u64 option"
  seek_file_level :: int

definition NumFiles :: "Version \<Rightarrow> nat \<Rightarrow> nat" where
  "NumFiles v level = length (v_files v ! level)"

definition OverlapInLevel :: "Comparator \<Rightarrow> Version \<Rightarrow> nat \<Rightarrow> slice option \<Rightarrow> slice option \<Rightarrow> bool res" where
  "OverlapInLevel C v level small large = SomeFileOverlapsRange C (0 < level) (v_files v ! level) small large"

text \<open>The test of level 0, the order of the files in it, and the one file of another level to look at.\<close>

definition covers_key :: "Comparator \<Rightarrow> slice \<Rightarrow> FileMetaData \<Rightarrow> bool res" where
  "covers_key C ukey f =
     res_bind (InternalKey_user_key (smallest f)) (\<lambda>s.
     res_bind (Compare C ukey s) (\<lambda>r.
       if r \<ge> 0
       then res_bind (InternalKey_user_key (largest f)) (\<lambda>l. map_res (\<lambda>r. r \<le> 0) (Compare C ukey l))
       else Ret False))"

fun filter_res :: "('a \<Rightarrow> bool res) \<Rightarrow> 'a list \<Rightarrow> 'a list res" where
  "filter_res P [] = Ret []"
| "filter_res P (x # xs) =
     res_bind (P x) (\<lambda>b. res_bind (filter_res P xs) (\<lambda>ys. Ret (if b then x # ys else ys)))"

definition newest_first :: "files \<Rightarrow> files" where
  "newest_first fs = rev (sort_key file_number fs)"

definition level_candidates :: "Comparator \<Rightarrow> slice \<Rightarrow> slice \<Rightarrow> nat \<Rightarrow> files \<Rightarrow> files res" where
  "level_candidates C ukey target level fs =
     (if fs = [] then Ret []
      else if level = 0 then map_res newest_first (filter_res (covers_key C ukey) fs)
      else res_bind (FindFile C fs target) (\<lambda>index.
             if length fs \<le> index then Ret []
             else res_bind (InternalKey_user_key (smallest (fs ! index))) (\<lambda>s.
                  map_res (\<lambda>r. if r < 0 then [] else [fs ! index]) (Compare C ukey s))))"

text \<open>\<open>func\<close> takes and returns what \<open>arg\<close> points to.\<close>

fun each_candidate :: "(nat \<Rightarrow> FileMetaData \<Rightarrow> 'a \<Rightarrow> bool \<times> 'a) \<Rightarrow> nat \<Rightarrow> files \<Rightarrow> 'a \<Rightarrow> bool \<times> 'a" where
  "each_candidate func level [] arg = (True, arg)"
| "each_candidate func level (f # fs) arg =
     (case func level f arg of (go, arg) \<Rightarrow> if go then each_candidate func level fs arg else (False, arg))"

fun each_overlapping :: "Comparator \<Rightarrow> slice \<Rightarrow> slice \<Rightarrow> (nat \<Rightarrow> FileMetaData \<Rightarrow> 'a \<Rightarrow> bool \<times> 'a) \<Rightarrow> nat \<Rightarrow> files list \<Rightarrow> 'a \<Rightarrow> 'a res" where
  "each_overlapping C ukey target func level [] arg = Ret arg"
| "each_overlapping C ukey target func level (fs # levels) arg =
     res_bind (level_candidates C ukey target level fs) (\<lambda>cs.
       case each_candidate func level cs arg of (go, arg) \<Rightarrow>
         if go then each_overlapping C ukey target func (level + 1) levels arg else Ret arg)"

definition ForEachOverlapping :: "Comparator \<Rightarrow> Version \<Rightarrow> slice \<Rightarrow> slice \<Rightarrow> (nat \<Rightarrow> FileMetaData \<Rightarrow> 'a \<Rightarrow> bool \<times> 'a) \<Rightarrow> 'a \<Rightarrow> 'a res" where
  "ForEachOverlapping C v ukey target func arg = each_overlapping C ukey target func 0 (v_files v) arg"

section \<open>Lookup\<close>

datatype SaverState = svNotFound | svFound | svDeleted | svCorrupt

text \<open>\<open>SaveValue\<close> on the entry that the table hands on, if it does.\<close>

definition SaveValue :: "Comparator \<Rightarrow> slice \<Rightarrow> slice \<times> slice \<Rightarrow> SaverState \<times> slice \<Rightarrow> (SaverState \<times> slice) res" where
  "SaveValue C user kv s =
     res_bind (ParseInternalKey (fst kv)) (\<lambda>parsed.
       case parsed of
         None \<Rightarrow> Ret (svCorrupt, snd s)
       | Some k \<Rightarrow> res_bind (Compare C (user_key k) user) (\<lambda>r.
           if r = 0
           then Ret (if vtype k = kTypeValue then (svFound, snd kv) else (svDeleted, snd s))
           else Ret s))"

text \<open>The state of the loops of \<open>Get\<close>: the last file read with its level, and the statistics. The result is \<open>None\<close>
  as long as the search goes on.\<close>

record SearchState =
  last_file_read :: "u64 option"
  last_file_read_level :: int
  get_stats :: GetStats

definition charge_file :: "nat \<Rightarrow> FileMetaData \<Rightarrow> SearchState \<Rightarrow> SearchState" where
  "charge_file level f st =
     (let st = (if last_file_read st \<noteq> None \<and> seek_file (get_stats st) = None
                then st \<lparr> get_stats := \<lparr> seek_file = last_file_read st, seek_file_level = last_file_read_level st \<rparr> \<rparr>
                else st)
      in st \<lparr> last_file_read := Some (file_number f), last_file_read_level := int level \<rparr>)"

fun search_files :: "Comparator \<Rightarrow> TableCache \<Rightarrow> Port \<Rightarrow> ReadOptions \<Rightarrow> slice \<Rightarrow> slice \<Rightarrow> nat \<Rightarrow> files \<Rightarrow> slice \<Rightarrow> SearchState \<Rightarrow>
    ((Status \<times> slice) option \<times> SearchState) res" where
  "search_files C tc port ro target user level [] val st = Ret (None, st)"
| "search_files C tc port ro target user level (f # fs) val st =
     (let st = charge_file level f st
      in res_bind (TableCache_Get tc port ro (file_number f) (file_size f) target) (\<lambda>(s, found).
         res_bind (case found of None \<Rightarrow> Ret (svNotFound, val) | Some kv \<Rightarrow> SaveValue C user kv (svNotFound, val)) (\<lambda>(state, val).
           if \<not> Status_ok s then Ret (Some (s, val), st)
           else case state of
                  svNotFound \<Rightarrow> search_files C tc port ro target user level fs val st
                | svFound \<Rightarrow> Ret (Some (s, val), st)
                | svDeleted \<Rightarrow> Ret (Some (NotFound [] [], val), st)
                | svCorrupt \<Rightarrow> Ret (Some (Corruption ''corrupted key for '' (map (char_of \<circ> unat) user), val), st))))"

fun search_levels :: "Comparator \<Rightarrow> TableCache \<Rightarrow> Port \<Rightarrow> ReadOptions \<Rightarrow> slice \<Rightarrow> slice \<Rightarrow> nat \<Rightarrow> files list \<Rightarrow> slice \<Rightarrow> SearchState \<Rightarrow>
    (Status \<times> slice \<times> GetStats) res" where
  "search_levels C tc port ro target user level [] val st = Ret (NotFound [] [], val, get_stats st)"
| "search_levels C tc port ro target user level (fs # levels) val st =
     res_bind (level_candidates C user target level fs) (\<lambda>cs.
     res_bind (search_files C tc port ro target user level cs val st) (\<lambda>(r, st).
       case r of
         Some (s, val) \<Rightarrow> Ret (s, val, get_stats st)
       | None \<Rightarrow> search_levels C tc port ro target user (level + 1) levels val st))"

definition Version_Get :: "Comparator \<Rightarrow> TableCache \<Rightarrow> Port \<Rightarrow> ReadOptions \<Rightarrow> LookupKey \<Rightarrow> slice \<Rightarrow> Version \<Rightarrow>
    (Status \<times> slice \<times> GetStats) res" where
  "Version_Get C tc port ro k val v =
     search_levels C tc port ro (internal_key k) (lookup_user_key k) 0 (v_files v) val
       \<lparr> last_file_read = None, last_file_read_level = - 1, get_stats = \<lparr> seek_file = None, seek_file_level = - 1 \<rparr> \<rparr>"

definition UpdateStats :: "GetStats \<Rightarrow> Version \<Rightarrow> (bool \<times> Version) res" where
  "UpdateStats stats v =
     (case seek_file stats of
        None \<Rightarrow> Ret (False, v)
      | Some number \<Rightarrow>
          let v = v \<lparr> v_files := map (map (\<lambda>f. if file_number f = number then f \<lparr> allowed_seeks := allowed_seeks f - 1 \<rparr> else f))
                (v_files v) \<rparr>
          in case List.find (\<lambda>f. file_number f = number) (concat (v_files v)) of
               None \<Rightarrow> Undef
             | Some f \<Rightarrow>
                 if allowed_seeks f \<le> 0 \<and> file_to_compact v = None
                 then Ret (True, v \<lparr> file_to_compact := Some number, file_to_compact_level := seek_file_level stats \<rparr>)
                 else Ret (False, v))"

definition Match :: "nat \<Rightarrow> FileMetaData \<Rightarrow> int \<times> GetStats \<Rightarrow> bool \<times> (int \<times> GetStats)" where
  "Match level f st =
     (case st of (matches, stats) \<Rightarrow>
        let matches = matches + 1;
            stats = (if matches = 1 then \<lparr> seek_file = Some (file_number f), seek_file_level = int level \<rparr> else stats)
        in (matches < 2, (matches, stats)))"

definition Version_RecordReadSample :: "Comparator \<Rightarrow> slice \<Rightarrow> Version \<Rightarrow> (bool \<times> Version) res" where
  "Version_RecordReadSample C target v =
     res_bind (ParseInternalKey target) (\<lambda>parsed.
       case parsed of
         None \<Rightarrow> Ret (False, v)
       | Some k \<Rightarrow>
           res_bind (ForEachOverlapping C v (user_key k) target Match (0, \<lparr> seek_file = None, seek_file_level = 0 \<rparr>)) (\<lambda>(matches, stats).
             if matches \<ge> 2 then UpdateStats stats v else Ret (False, v)))"

section \<open>Files that overlap a range\<close>

text \<open>One pass over the files: all files that overlap, or the bounds with which level 0 starts again.\<close>

fun overlap_pass :: "Comparator \<Rightarrow> bool \<Rightarrow> files \<Rightarrow> slice option \<Rightarrow> slice option \<Rightarrow> files \<Rightarrow> (files + slice option \<times> slice option) res" where
  "overlap_pass C level0 [] ubegin uend inputs = Ret (Inl inputs)"
| "overlap_pass C level0 (f # fs) ubegin uend inputs =
     res_bind (InternalKey_user_key (smallest f)) (\<lambda>file_start.
     res_bind (InternalKey_user_key (largest f)) (\<lambda>file_limit.
     res_bind (case ubegin of None \<Rightarrow> Ret False | Some b \<Rightarrow> map_res (\<lambda>r. r < 0) (Compare C file_limit b)) (\<lambda>before.
       if before then overlap_pass C level0 fs ubegin uend inputs
       else res_bind (case uend of None \<Rightarrow> Ret False | Some e \<Rightarrow> map_res (\<lambda>r. r > 0) (Compare C file_start e)) (\<lambda>after.
         if after then overlap_pass C level0 fs ubegin uend inputs
         else if \<not> level0 then overlap_pass C level0 fs ubegin uend (inputs @ [f])
         else res_bind (case ubegin of None \<Rightarrow> Ret False | Some b \<Rightarrow> map_res (\<lambda>r. r < 0) (Compare C file_start b)) (\<lambda>wider.
           if wider then Ret (Inr (Some file_start, uend))
           else res_bind (case uend of None \<Rightarrow> Ret False | Some e \<Rightarrow> map_res (\<lambda>r. r > 0) (Compare C file_limit e)) (\<lambda>wider.
             if wider then Ret (Inr (ubegin, Some file_limit))
             else overlap_pass C level0 fs ubegin uend (inputs @ [f])))))))"

fun overlap_loop :: "nat \<Rightarrow> Comparator \<Rightarrow> bool \<Rightarrow> files \<Rightarrow> slice option \<Rightarrow> slice option \<Rightarrow> files res" where
  "overlap_loop 0 C level0 fs ubegin uend = NoFuel"
| "overlap_loop (Suc fuel) C level0 fs ubegin uend =
     res_bind (overlap_pass C level0 fs ubegin uend []) (\<lambda>r.
       case r of
         Inl inputs \<Rightarrow> Ret inputs
       | Inr (ubegin, uend) \<Rightarrow> overlap_loop fuel C level0 fs ubegin uend)"

definition GetOverlappingInputs :: "nat \<Rightarrow> Comparator \<Rightarrow> Version \<Rightarrow> nat \<Rightarrow> InternalKey option \<Rightarrow> InternalKey option \<Rightarrow> files res" where
  "GetOverlappingInputs fuel C v level begin_key end_key =
     res_bind (case begin_key of None \<Rightarrow> Ret None | Some k \<Rightarrow> map_res Some (InternalKey_user_key k)) (\<lambda>ubegin.
     res_bind (case end_key of None \<Rightarrow> Ret None | Some k \<Rightarrow> map_res Some (InternalKey_user_key k)) (\<lambda>uend.
       overlap_loop fuel C (level = 0) (v_files v ! level) ubegin uend))"

definition TotalFileSize :: "files \<Rightarrow> u64" where
  "TotalFileSize fs = fold (\<lambda>f sum. sum + file_size f) fs 0"

definition TargetFileSize :: "u64 \<Rightarrow> u64" where
  "TargetFileSize max_file_size = max_file_size"

definition MaxGrandParentOverlapBytes :: "u64 \<Rightarrow> u64" where
  "MaxGrandParentOverlapBytes max_file_size = 10 * TargetFileSize max_file_size"

function pick_level :: "nat \<Rightarrow> Comparator \<Rightarrow> u64 \<Rightarrow> Version \<Rightarrow> slice \<Rightarrow> slice \<Rightarrow> nat \<Rightarrow> nat res" where
  "pick_level fuel C max_file_size v small large level =
     (if level < kMaxMemCompactLevel
      then res_bind (OverlapInLevel C v (level + 1) (Some small) (Some large)) (\<lambda>overlap.
        if overlap then Ret level
        else res_bind
          (if level + 2 < kNumLevels
           then res_bind (GetOverlappingInputs fuel C v (level + 2) (Some (new_InternalKey small kMaxSequenceNumber kValueTypeForSeek))
                  (Some (new_InternalKey large 0 kTypeDeletion)))
                (\<lambda>overlaps. Ret (sint (MaxGrandParentOverlapBytes max_file_size) < sint (TotalFileSize overlaps)))
           else Ret False) (\<lambda>stop.
          if stop then Ret level else pick_level fuel C max_file_size v small large (level + 1)))
      else Ret level)"
  by pat_completeness auto

termination pick_level
  by (relation "measure (\<lambda>(_, _, _, _, _, _, level). kMaxMemCompactLevel - level)") auto

declare pick_level.simps [simp del]

definition PickLevelForMemTableOutput :: "nat \<Rightarrow> Comparator \<Rightarrow> u64 \<Rightarrow> Version \<Rightarrow> slice \<Rightarrow> slice \<Rightarrow> nat res" where
  "PickLevelForMemTableOutput fuel C max_file_size v small large =
     res_bind (OverlapInLevel C v 0 (Some small) (Some large)) (\<lambda>overlap.
       if overlap then Ret 0 else pick_level fuel C max_file_size v small large 0)"

text \<open>The children of the iterator over a whole version, each with the functions of its class.\<close>

type_synonym level_iterator = "(nat, file_iterator) TwoLevelIterator"

fun level0_iterators :: "TableCache \<Rightarrow> files \<Rightarrow> file_iterator list res" where
  "level0_iterators tc [] = Ret []"
| "level0_iterators tc (f # fs) =
     res_bind (TableCache_NewIterator tc (file_number f) (file_size f)) (\<lambda>it.
     res_bind (level0_iterators tc fs) (\<lambda>its. Ret (it # its)))"

fun level_iterators :: "nat \<Rightarrow> Comparator \<Rightarrow> Port \<Rightarrow> ReadOptions \<Rightarrow> files list \<Rightarrow> (files \<times> level_iterator) list res" where
  "level_iterators fuel C port ro [] = Ret []"
| "level_iterators fuel C port ro (fs # levels) =
     (if fs = [] then level_iterators fuel C port ro levels
      else res_bind (NewConcatenatingIterator fuel C port ro fs) (\<lambda>it.
           res_bind (level_iterators fuel C port ro levels) (\<lambda>its. Ret ((fs, it) # its))))"

definition AddIterators :: "nat \<Rightarrow> Comparator \<Rightarrow> TableCache \<Rightarrow> Port \<Rightarrow> ReadOptions \<Rightarrow> Version \<Rightarrow>
    (file_iterator + files \<times> level_iterator) list res" where
  "AddIterators fuel C tc port ro v =
     (case v_files v of
        [] \<Rightarrow> Undef
      | fs # levels \<Rightarrow>
          res_bind (level0_iterators tc fs) (\<lambda>its0.
          res_bind (level_iterators fuel C port ro levels) (\<lambda>its. Ret (map Inl its0 @ map Inr its))))"

end
