(* ===== verification/LdbVersionSpec.thy ===== *)
theory LdbVersionSpec
  imports LdbVersion
begin

text \<open>
  What the searches in a version find. The files of a level are \<open>meta_ok\<close>, and in the levels above 0 they are in
  order and apart (\<open>level_sorted\<close>). The binary searches agree with a look at every file, and the files that overlap a
  range are found completely, with a bound on how often level 0 starts again.
\<close>

section \<open>Files of a level\<close>

definition meta_ok :: "(slice \<Rightarrow> bool) \<Rightarrow> (slice \<Rightarrow> slice \<Rightarrow> bool) \<Rightarrow> FileMetaData \<Rightarrow> bool" where
  "meta_ok ok lt f \<longleftrightarrow> internal_ok ok (smallest f) \<and> internal_ok ok (largest f) \<and> type_ok (smallest f) \<and> type_ok (largest f) \<and>
     \<not> internal_less lt (largest f) (smallest f)"

definition level_sorted :: "(slice \<Rightarrow> bool) \<Rightarrow> (slice \<Rightarrow> slice \<Rightarrow> bool) \<Rightarrow> files \<Rightarrow> bool" where
  "level_sorted ok lt fs \<longleftrightarrow> list_all (meta_ok ok lt) fs \<and> sorted_wrt (\<lambda>f g. internal_less lt (largest f) (smallest g)) fs"

definition level_index :: "files \<Rightarrow> (slice \<times> slice) list" where
  "level_index fs = map (\<lambda>f. (largest f, file_value f)) fs"

text \<open>The range of user keys of a file, and whether it overlaps another, where \<open>None\<close> is unbounded.\<close>

definition overlaps :: "(slice \<Rightarrow> slice \<Rightarrow> bool) \<Rightarrow> slice option \<Rightarrow> slice option \<Rightarrow> FileMetaData \<Rightarrow> bool" where
  "overlaps lt small large f \<longleftrightarrow> (\<forall>s. small = Some s \<longrightarrow> \<not> lt (user_of (largest f)) s) \<and>
     (\<forall>l. large = Some l \<longrightarrow> \<not> lt l (user_of (smallest f)))"

lemma length_level_index [simp]: "length (level_index fs) = length fs"
  by (simp add: level_index_def)

lemma level_index_nth [simp]: "i < length fs \<Longrightarrow> level_index fs ! i = (largest (fs ! i), file_value (fs ! i))"
  by (simp add: level_index_def)

lemma user_key_Ret [simp]: "8 \<le> length k \<Longrightarrow> InternalKey_user_key k = Ret (user_of k)"
  by (simp add: InternalKey_user_key_def)

lemma Encode_Ret [simp]: "8 \<le> length k \<Longrightarrow> InternalKey_Encode k = Ret k"
  by (auto simp: InternalKey_Encode_def)

context internal_comparator
begin

lemma meta_okD:
  assumes "meta_ok ok lt f"
  shows "internal_ok ok (smallest f)" "internal_ok ok (largest f)" "8 \<le> length (smallest f)" "8 \<le> length (largest f)"
    "ok (user_of (smallest f))" "ok (user_of (largest f))" "\<not> lt (user_of (largest f)) (user_of (smallest f))"
  using assms by (auto simp: meta_ok_def internal_ok_def internal_less_def)

lemma level_sorted_nth: "level_sorted ok lt fs \<Longrightarrow> i < length fs \<Longrightarrow> meta_ok ok lt (fs ! i)"
  by (simp add: level_sorted_def list_all_length)

lemma level_index_sorted:
  assumes level: "level_sorted ok lt fs"
  shows "sorted_keys (internal_ok ok) (internal_less lt) (level_index fs)"
proof -
  have "internal_less lt (largest (fs ! i)) (largest (fs ! j))" if ij: "i < j" "j < length fs" for i j
  proof -
    have "internal_less lt (largest (fs ! i)) (smallest (fs ! j))"
      using level sorted_wrt_nth_less [OF _ ij] by (auto simp: level_sorted_def)
    moreover have "internal_ok ok (largest (fs ! i))" using meta_okD(2) [OF level_sorted_nth [OF level, of i]] ij by simp
    moreover have fj: "meta_ok ok lt (fs ! j)" using level_sorted_nth [OF level] ij by simp
    moreover have "\<not> internal_less lt (largest (fs ! j)) (smallest (fs ! j))" using fj by (simp add: meta_ok_def)
    ultimately show ?thesis using internal.skip.weak meta_okD(1,2) [OF fj] by blast
  qed
  then show ?thesis
    using level by (auto simp: sorted_keys_def level_index_def level_sorted_def list_all_iff comp_def sorted_wrt_iff_nth_less
        dest: meta_okD(2))
qed

lemma find_file_result:
  assumes level: "level_sorted ok lt fs" and key: "internal_ok ok key"
  shows "left \<le> below (internal_less lt) key (level_index fs) \<Longrightarrow> below (internal_less lt) key (level_index fs) \<le> right \<Longrightarrow>
    right \<le> length fs \<Longrightarrow> find_file C fs key left right = Ret (below (internal_less lt) key (level_index fs))"
proof (induction "right - left" arbitrary: left right rule: less_induct)
  case less
  let ?n = "below (internal_less lt) key (level_index fs)" and ?mid = "(left + right) div 2"
  show ?case
  proof (cases "left < right")
    case True
    then have mid: "left \<le> ?mid" "?mid < right" "?mid < length fs" using less.prems by auto
    have large: "internal_ok ok (largest (fs ! ?mid))" using level_sorted_nth [OF level mid(3)] meta_okD(2) by blast
    then obtain r where r: "Compare (InternalKeyComparator C) (largest (fs ! ?mid)) key = Ret r"
        "r < 0 \<longleftrightarrow> internal_less lt (largest (fs ! ?mid)) key"
      using internal.skip.cmp [OF _ key] by blast
    then have iff: "r < 0 \<longleftrightarrow> ?mid < ?n"
      using internal.below_iff [OF level_index_sorted [OF level] key, of ?mid] mid(3) by simp
    have "find_file C fs key left right = (if ?mid < ?n then find_file C fs key (?mid + 1) right else find_file C fs key left ?mid)"
      by (subst find_file.simps) (use large in \<open>simp add: True mid(3) r(1) iff internal_ok_def\<close>)
    moreover have "find_file C fs key (?mid + 1) right = Ret ?n" if "?mid < ?n"
      using less.hyps [of right "?mid + 1"] less.prems mid that by simp
    moreover have "find_file C fs key left ?mid = Ret ?n" if "\<not> ?mid < ?n"
      using less.hyps [of ?mid left] less.prems mid that by simp
    ultimately show ?thesis by simp
  next
    case False
    then show ?thesis using less.prems by (simp add: find_file.simps)
  qed
qed

lemma FindFile_result:
  assumes "level_sorted ok lt fs" "internal_ok ok key"
  shows "FindFile C fs key = Ret (below (internal_less lt) key (level_index fs))"
  using find_file_result [OF assms, of 0 "length fs"] below_le [of "internal_less lt" key "level_index fs"]
  by (simp add: FindFile_def)

section \<open>Overlap\<close>

lemma AfterFile_result:
  assumes "meta_ok ok lt f" "\<forall>k. key = Some k \<longrightarrow> ok k"
  shows "AfterFile C key f = Ret (\<exists>k. key = Some k \<and> lt (user_of (largest f)) k)"
proof (cases key)
  case (Some k)
  note f = meta_okD [OF assms(1)]
  have "ok k" using assms(2) Some by simp
  then show ?thesis using Some user.cmp_greater [of k "user_of (largest f)"] user.cmp [of k "user_of (largest f)"] f(4,6)
    by (auto simp: AfterFile_def)
qed (simp add: AfterFile_def)

lemma BeforeFile_result:
  assumes "meta_ok ok lt f" "\<forall>k. key = Some k \<longrightarrow> ok k"
  shows "BeforeFile C key f = Ret (\<exists>k. key = Some k \<and> lt k (user_of (smallest f)))"
proof (cases key)
  case (Some k)
  note f = meta_okD [OF assms(1)]
  have "ok k" using assms(2) Some by simp
  then show ?thesis using Some user.cmp_less [of k "user_of (smallest f)"] user.cmp [of k "user_of (smallest f)"] f(3,5)
    by (auto simp: BeforeFile_def)
qed (simp add: BeforeFile_def)

lemma some_overlap_result:
  assumes "list_all (meta_ok ok lt) fs" "\<forall>k. small = Some k \<longrightarrow> ok k" "\<forall>k. large = Some k \<longrightarrow> ok k"
  shows "some_overlap C fs small large = Ret (\<exists>f \<in> set fs. overlaps lt small large f)"
  using assms(1)
proof (induction fs)
  case (Cons f fs)
  then show ?case
    using AfterFile_result [of f small] BeforeFile_result [of f large] assms(2,3) by (auto simp: overlaps_def)
qed simp

text \<open>The earliest internal key of a user key stands before the largest key of a file exactly if the file does not end
  before the user key.\<close>

lemma seek_key_before:
  assumes f: "meta_ok ok lt f" and k: "ok k"
  shows "internal_less lt (largest f) (new_InternalKey k kMaxSequenceNumber kValueTypeForSeek) \<longleftrightarrow> lt (user_of (largest f)) k"
proof -
  let ?t = "PackSequenceAndType kMaxSequenceNumber kTypeValue"
  have "drop_bit 8 (tag_of (largest f)) \<le> kMaxSequenceNumber"
  proof -
    have "unat (drop_bit 8 (tag_of (largest f))) < 2 ^ 56"
      using unsigned_less [of "tag_of (largest f)", where ?'a = nat] by (simp add: unat_drop_bit)
    then show ?thesis by (simp add: kMaxSequenceNumber_def word_le_nat_alt)
  qed
  then have "tag_of (largest f) \<le> ?t" using f pack_le [of "tag_of (largest f)"] by (auto simp: meta_ok_def type_ok_def)
  then show ?thesis
    by (auto simp: internal_less_def new_InternalKey_def AppendInternalKey_def kValueTypeForSeek_def)
qed

lemma binary_overlap_result:
  assumes level: "level_sorted ok lt fs" and keys: "\<forall>k. small = Some k \<longrightarrow> ok k" "\<forall>k. large = Some k \<longrightarrow> ok k"
  shows "SomeFileOverlapsRange C True fs small large = Ret (\<exists>f \<in> set fs. overlaps lt small large f)"
proof -
  define n where "n = (case small of None \<Rightarrow> 0 | Some k \<Rightarrow>
    below (internal_less lt) (new_InternalKey k kMaxSequenceNumber kValueTypeForSeek) (level_index fs))"
  have oki: "internal_ok ok (new_InternalKey k kMaxSequenceNumber kValueTypeForSeek)" if "ok k" for k
    using that by (simp add: internal_ok_def new_InternalKey_def AppendInternalKey_def)
  have find: "(case small of None \<Rightarrow> Ret 0
      | Some k \<Rightarrow> res_bind (InternalKey_Encode (new_InternalKey k kMaxSequenceNumber kValueTypeForSeek)) (FindFile C fs)) = Ret n"
    using keys(1) oki FindFile_result [OF level] by (auto simp: n_def internal_ok_def split: option.splits)
  have after: "(\<exists>k. small = Some k \<and> lt (user_of (largest (fs ! i))) k) \<longleftrightarrow> i < n" if i: "i < length fs" for i
  proof (cases small)
    case (Some k)
    then show ?thesis
      using internal.below_iff [OF level_index_sorted [OF level] oki, of k i] keys(1) i
        seek_key_before [OF level_sorted_nth [OF level i], of k] by (simp add: n_def)
  qed (simp add: n_def)
  show ?thesis
  proof (cases "length fs \<le> n")
    case True
    then have "\<not> overlaps lt small large f" if "f \<in> set fs" for f
      using after that by (force simp: overlaps_def in_set_conv_nth)
    then show ?thesis using find True by (simp add: SomeFileOverlapsRange_def)
  next
    case False
    then have n: "n < length fs" by simp
    have "overlaps lt small large (fs ! n)" if f: "f \<in> set fs" "overlaps lt small large f" for f
    proof -
      obtain i where i: "i < length fs" "f = fs ! i" using f(1) by (auto simp: in_set_conv_nth)
      then have ni: "n \<le> i" using after [OF i(1)] f(2) by (auto simp: overlaps_def)
      have "\<not> lt l (user_of (smallest (fs ! n)))" if l: "large = Some l" for l
      proof
        assume less: "lt l (user_of (smallest (fs ! n)))"
        note fn = meta_okD [OF level_sorted_nth [OF level n]] and fi = meta_okD [OF level_sorted_nth [OF level i(1)]]
        have "n = i \<or> \<not> lt (user_of (smallest (fs ! i))) (user_of (largest (fs ! n)))"
        proof (cases "n = i")
          case False
          then have "internal_less lt (largest (fs ! n)) (smallest (fs ! i))"
            using level ni i(1) sorted_wrt_nth_less [of "\<lambda>f g. internal_less lt (largest f) (smallest g)" fs n i] by (simp add: level_sorted_def)
          then show ?thesis using user.asym [OF fi(5) fn(6)] user.irrefl by (auto simp: internal_less_def)
        qed simp
        then have "lt l (user_of (smallest (fs ! i)))"
          using less keys(2) l fn fi user.trans [of l "user_of (smallest (fs ! n))"] user.total
          by (metis user.skip.weak)
        then show False using f(2) i(2) l by (simp add: overlaps_def)
      qed
      then show ?thesis using after [OF n] by (auto simp: overlaps_def)
    qed
    then have "(\<exists>f \<in> set fs. overlaps lt small large f) \<longleftrightarrow> \<not> (\<exists>k. large = Some k \<and> lt k (user_of (smallest (fs ! n))))"
      using n after [OF n] by (auto simp: overlaps_def)
    then show ?thesis
      using find n BeforeFile_result [OF level_sorted_nth [OF level n] keys(2)] by (simp add: SomeFileOverlapsRange_def)
  qed
qed


end

section \<open>All files that overlap\<close>

text \<open>The files that overlap the range directly or over other files.\<close>

inductive linked :: "(slice \<Rightarrow> slice \<Rightarrow> bool) \<Rightarrow> files \<Rightarrow> slice option \<Rightarrow> slice option \<Rightarrow> FileMetaData \<Rightarrow> bool"
  for lt fs small large where
  direct: "f \<in> set fs \<Longrightarrow> overlaps lt small large f \<Longrightarrow> linked lt fs small large f"
| over_file: "linked lt fs small large g \<Longrightarrow> f \<in> set fs \<Longrightarrow>
    overlaps lt (Some (user_of (smallest g))) (Some (user_of (largest g))) f \<Longrightarrow> linked lt fs small large f"

definition range_within :: "(slice \<Rightarrow> slice \<Rightarrow> bool) \<Rightarrow> slice option \<Rightarrow> slice option \<Rightarrow> FileMetaData \<Rightarrow> bool" where
  "range_within lt small large f \<longleftrightarrow> (\<forall>s. small = Some s \<longrightarrow> \<not> lt (user_of (smallest f)) s) \<and>
     (\<forall>l. large = Some l \<longrightarrow> \<not> lt l (user_of (largest f)))"

text \<open>How many files reach over the bounds.\<close>

definition files_beyond :: "(slice \<Rightarrow> slice \<Rightarrow> bool) \<Rightarrow> files \<Rightarrow> slice option \<Rightarrow> slice option \<Rightarrow> nat" where
  "files_beyond lt fs small large =
     length (filter (\<lambda>f. \<exists>s. small = Some s \<and> lt (user_of (smallest f)) s) fs) +
     length (filter (\<lambda>f. \<exists>l. large = Some l \<and> lt l (user_of (largest f))) fs)"

lemma files_beyond_le: "files_beyond lt fs small large \<le> 2 * length fs"
  unfolding files_beyond_def mult_2 by (intro add_mono length_filter_le)

lemma length_filter_weaken:
  "(\<And>y. y \<in> set xs \<Longrightarrow> P y \<Longrightarrow> Q y) \<Longrightarrow> length (filter P xs) \<le> length (filter Q xs)"
proof (induction xs)
  case (Cons x xs)
  have "length (filter P xs) \<le> length (filter Q xs)" by (rule Cons.IH) (simp add: Cons.prems)
  then show ?case using Cons.prems [of x] by simp
qed simp

lemma filter_drops_one:
  "x \<in> set xs \<Longrightarrow> Q x \<Longrightarrow> \<not> P x \<Longrightarrow> (\<And>y. y \<in> set xs \<Longrightarrow> P y \<Longrightarrow> Q y) \<Longrightarrow> length (filter P xs) < length (filter Q xs)"
proof (induction xs)
  case (Cons y ys)
  have le: "length (filter P ys) \<le> length (filter Q ys)"
    using length_filter_weaken [of ys P Q] Cons.prems(4) by simp
  show ?case
  proof (cases "x = y")
    case True
    then show ?thesis using Cons.prems le by simp
  next
    case False
    then have "length (filter P ys) < length (filter Q ys)" using Cons by simp
    then show ?thesis using Cons.prems(4) by auto
  qed
qed simp

context internal_comparator
begin

text \<open>The bounds that a pass of level 0 gives up with.\<close>

definition widened :: "slice option \<Rightarrow> slice option \<Rightarrow> FileMetaData \<Rightarrow> slice option \<Rightarrow> slice option \<Rightarrow> bool" where
  "widened small large f small' large' \<longleftrightarrow>
     (\<exists>s. small = Some s \<and> lt (user_of (smallest f)) s \<and> small' = Some (user_of (smallest f)) \<and> large' = large) \<or>
     (\<exists>l. large = Some l \<and> lt l (user_of (largest f)) \<and> small' = small \<and> large' = Some (user_of (largest f)))"

lemma overlap_pass_result:
  assumes files: "list_all (meta_ok ok lt) fs" and small: "\<forall>k. small = Some k \<longrightarrow> ok k" and large: "\<forall>k. large = Some k \<longrightarrow> ok k"
  shows "(overlap_pass C level0 fs small large inputs = Ret (Inl (inputs @ filter (overlaps lt small large) fs)) \<and>
      (level0 \<longrightarrow> (\<forall>f \<in> set fs. overlaps lt small large f \<longrightarrow> range_within lt small large f))) \<or>
    (\<exists>small' large' f. level0 \<and> overlap_pass C level0 fs small large inputs = Ret (Inr (small', large')) \<and>
      f \<in> set fs \<and> overlaps lt small large f \<and> widened small large f small' large')"
  using files
proof (induction fs arbitrary: inputs)
  case (Cons f fs)
  have f: "meta_ok ok lt f" and fs: "list_all (meta_ok ok lt) fs" using Cons.prems by simp_all
  note d = meta_okD [OF f]
  let ?s = "user_of (smallest f)" and ?l = "user_of (largest f)"
  have less: "map_res (\<lambda>r. r < 0) (Compare C a b) = Ret (lt a b)" "map_res (\<lambda>r. r > 0) (Compare C a b) = Ret (lt b a)"
    if "ok a" "ok b" for a b
    using user.cmp [OF that] user.cmp_less [OF that] user.cmp_greater [OF that] by force+
  have tests: "(case small of None \<Rightarrow> Ret False | Some b \<Rightarrow> map_res (\<lambda>r. r < 0) (Compare C ?l b)) = Ret (\<exists>b. small = Some b \<and> lt ?l b)"
    "(case large of None \<Rightarrow> Ret False | Some e \<Rightarrow> map_res (\<lambda>r. r > 0) (Compare C ?s e)) = Ret (\<exists>e. large = Some e \<and> lt e ?s)"
    "(case small of None \<Rightarrow> Ret False | Some b \<Rightarrow> map_res (\<lambda>r. r < 0) (Compare C ?s b)) = Ret (\<exists>b. small = Some b \<and> lt ?s b)"
    "(case large of None \<Rightarrow> Ret False | Some e \<Rightarrow> map_res (\<lambda>r. r > 0) (Compare C ?l e)) = Ret (\<exists>e. large = Some e \<and> lt e ?l)"
    using small large d(5,6) less by (auto split: option.splits)
  have over: "overlaps lt small large f \<longleftrightarrow> \<not> (\<exists>b. small = Some b \<and> lt ?l b) \<and> \<not> (\<exists>e. large = Some e \<and> lt e ?s)"
    by (auto simp: overlaps_def)
  have within: "range_within lt small large f \<longleftrightarrow> \<not> (\<exists>b. small = Some b \<and> lt ?s b) \<and> \<not> (\<exists>e. large = Some e \<and> lt e ?l)"
    by (auto simp: range_within_def)
  have step: "overlap_pass C level0 (f # fs) small large inputs =
      (if \<not> overlaps lt small large f then overlap_pass C level0 fs small large inputs
       else if \<not> level0 \<or> range_within lt small large f then overlap_pass C level0 fs small large (inputs @ [f])
       else if \<exists>b. small = Some b \<and> lt ?s b then Ret (Inr (Some ?s, large)) else Ret (Inr (small, Some ?l)))"
    unfolding overlap_pass.simps user_key_Ret [OF d(3)] user_key_Ret [OF d(4)] res_bind.simps tests over within by auto
  show ?case
  proof (cases "overlaps lt small large f \<and> level0 \<and> \<not> range_within lt small large f")
    case True
    then have "\<exists>small' large'. overlap_pass C level0 (f # fs) small large inputs = Ret (Inr (small', large')) \<and>
        widened small large f small' large'"
      unfolding step within widened_def by auto
    then show ?thesis using True by auto
  next
    case False
    then have "overlap_pass C level0 (f # fs) small large inputs =
        overlap_pass C level0 fs small large (if overlaps lt small large f then inputs @ [f] else inputs)"
      unfolding step by auto
    then show ?thesis
      using Cons.IH [OF fs, of "if overlaps lt small large f then inputs @ [f] else inputs"] False by auto
  qed
qed simp

lemma widened_beyond:
  assumes files: "list_all (meta_ok ok lt) fs" and f: "f \<in> set fs" and wide: "widened small large f small' large'"
    and small: "\<forall>k. small = Some k \<longrightarrow> ok k" and large: "\<forall>k. large = Some k \<longrightarrow> ok k"
  shows "files_beyond lt fs small' large' < files_beyond lt fs small large"
proof -
  have okf: "ok (user_of (smallest g))" "ok (user_of (largest g))" if "g \<in> set fs" for g
    using files that meta_okD(5,6) by (auto simp: list_all_iff)
  from wide show ?thesis unfolding widened_def
  proof (elim disjE exE conjE)
    fix s assume s: "small = Some s" "lt (user_of (smallest f)) s" "small' = Some (user_of (smallest f))" "large' = large"
    have "length (filter (\<lambda>g. lt (user_of (smallest g)) (user_of (smallest f))) fs) < length (filter (\<lambda>g. lt (user_of (smallest g)) s) fs)"
    proof (rule filter_drops_one [OF f])
      have "ok s" using small s(1) by simp
      show "lt (user_of (smallest g)) s" if "g \<in> set fs" "lt (user_of (smallest g)) (user_of (smallest f))" for g
        using that user.trans [OF okf(1) [OF that(1)] okf(1) [OF f] \<open>ok s\<close>] s(2) by simp
    qed (use s(2) user.irrefl in simp_all)
    then show ?thesis using s by (simp add: files_beyond_def)
  next
    fix l assume l: "large = Some l" "lt l (user_of (largest f))" "small' = small" "large' = Some (user_of (largest f))"
    have "length (filter (\<lambda>g. lt (user_of (largest f)) (user_of (largest g))) fs) < length (filter (\<lambda>g. lt l (user_of (largest g))) fs)"
    proof (rule filter_drops_one [OF f])
      have "ok l" using large l(1) by simp
      show "lt l (user_of (largest g))" if "g \<in> set fs" "lt (user_of (largest f)) (user_of (largest g))" for g
        using that user.trans [OF \<open>ok l\<close> okf(2) [OF f] okf(2) [OF that(1)]] l(2) by simp
    qed (use l(2) user.irrefl in simp_all)
    then show ?thesis using l by (simp add: files_beyond_def)
  qed
qed

text \<open>The invariant of the restarts: the bounds only grow, and only over linked files.\<close>

lemma widened_overlaps:
  assumes f: "meta_ok ok lt f" and g: "meta_ok ok lt g" and wide: "widened small large g small' large'" "overlaps lt small large g"
    and small: "\<forall>k. small = Some k \<longrightarrow> ok k" and large: "\<forall>k. large = Some k \<longrightarrow> ok k"
  shows "overlaps lt small large f \<Longrightarrow> overlaps lt small' large' f"
    and "overlaps lt small' large' f \<Longrightarrow> overlaps lt small large f \<or>
      overlaps lt (Some (user_of (smallest g))) (Some (user_of (largest g))) f"
proof -
  note df = meta_okD(5-7) [OF f] and dg = meta_okD(5-7) [OF g]
  show "overlaps lt small' large' f" if old: "overlaps lt small large f"
    using wide(1) unfolding widened_def
  proof (elim disjE exE conjE)
    fix s assume s: "small = Some s" "lt (user_of (smallest g)) s" "small' = Some (user_of (smallest g))" "large' = large"
    have "ok s" using small s(1) by simp
    then show ?thesis
      using old s user.trans [OF df(2) dg(1) \<open>ok s\<close>] by (auto simp: overlaps_def)
  next
    fix l assume l: "large = Some l" "lt l (user_of (largest g))" "small' = small" "large' = Some (user_of (largest g))"
    have "ok l" using large l(1) by simp
    then show ?thesis
      using old l user.trans [OF \<open>ok l\<close> dg(2) df(1)] by (auto simp: overlaps_def)
  qed
  show "overlaps lt small large f \<or> overlaps lt (Some (user_of (smallest g))) (Some (user_of (largest g))) f"
    if new: "overlaps lt small' large' f"
    using wide(1) unfolding widened_def
  proof (elim disjE exE conjE)
    fix s assume s: "small = Some s" "lt (user_of (smallest g)) s" "small' = Some (user_of (smallest g))" "large' = large"
    have "\<not> lt (user_of (largest g)) (user_of (smallest f))" if "lt (user_of (largest f)) s"
    proof
      assume less: "lt (user_of (largest g)) (user_of (smallest f))"
      have "ok s" using small s(1) by simp
      then have "lt (user_of (smallest f)) s" using that df user.skip.weak [of "user_of (largest f)" "user_of (smallest f)" s] by blast
      then have "lt (user_of (largest g)) s" using less user.trans df(1) dg(2) \<open>ok s\<close> by blast
      then show False using wide(2) s(1) by (simp add: overlaps_def)
    qed
    then show ?thesis using new s by (auto simp: overlaps_def)
  next
    fix l assume l: "large = Some l" "lt l (user_of (largest g))" "small' = small" "large' = Some (user_of (largest g))"
    have "\<not> lt (user_of (largest f)) (user_of (smallest g))" if "lt l (user_of (smallest f))"
    proof
      assume less: "lt (user_of (largest f)) (user_of (smallest g))"
      have "ok l" using large l(1) by simp
      then have "lt l (user_of (largest f))" using that df user.skip.weak [of l "user_of (largest f)" "user_of (smallest f)"] by blast
      then have "lt l (user_of (smallest g))" using less user.trans df(2) dg(1) \<open>ok l\<close> by blast
      then show False using wide(2) l(1) by (simp add: overlaps_def)
    qed
    then show ?thesis using new l by (auto simp: overlaps_def)
  qed
qed

lemma linked_file: "linked lt fs small large f \<Longrightarrow> f \<in> set fs"
  by (induction rule: linked.induct) auto

lemma linked_closed:
  assumes files: "list_all (meta_ok ok lt) fs" and start: "\<And>f. f \<in> set fs \<Longrightarrow> overlaps lt small large f \<Longrightarrow> overlaps lt b e f"
    and inside: "\<And>f. f \<in> set fs \<Longrightarrow> overlaps lt b e f \<Longrightarrow> range_within lt b e f"
    and bounds: "\<forall>k. b = Some k \<longrightarrow> ok k" "\<forall>k. e = Some k \<longrightarrow> ok k"
  shows "linked lt fs small large f \<Longrightarrow> overlaps lt b e f"
proof (induction rule: linked.induct)
  case (direct f)
  then show ?case using start by blast
next
  case (over_file g f)
  have g: "range_within lt b e g" using inside linked_file over_file.hyps(1) over_file.IH by blast
  have okg: "meta_ok ok lt g" and okf: "meta_ok ok lt f"
    using files linked_file over_file.hyps(1,2) by (auto simp: list_all_iff)
  note dg = meta_okD(5,6) [OF okg] and df = meta_okD(5,6) [OF okf]
  show ?case
    unfolding overlaps_def
  proof (intro conjI allI impI notI)
    fix s assume s: "b = Some s" "lt (user_of (largest f)) s"
    then show False
      using user.skip.weak [OF df(2) dg(1), of s] bounds(1) g over_file.hyps(3) by (auto simp: range_within_def overlaps_def)
  next
    fix l assume l: "e = Some l" "lt l (user_of (smallest f))"
    then show False
      using user.skip.weak [OF _ dg(2) df(1), of l] bounds(2) g over_file.hyps(3) by (auto simp: range_within_def overlaps_def)
  qed
qed

lemma overlap_loop_linked:
  assumes files: "list_all (meta_ok ok lt) fs"
    and bounds: "\<forall>k. b = Some k \<longrightarrow> ok k" "\<forall>k. e = Some k \<longrightarrow> ok k"
    and start: "\<And>f. f \<in> set fs \<Longrightarrow> overlaps lt small large f \<Longrightarrow> overlaps lt b e f"
    and linked: "\<And>f. f \<in> set fs \<Longrightarrow> overlaps lt b e f \<Longrightarrow> linked lt fs small large f"
    and fuel: "files_beyond lt fs b e < fuel"
  shows "overlap_loop fuel C True fs b e = Ret (filter (linked lt fs small large) fs)"
  using bounds start linked fuel
proof (induction fuel arbitrary: b e)
  case (Suc fuel)
  note bounds = Suc.prems(1,2)
  from overlap_pass_result [OF files bounds, of True "[]"] show ?case
  proof (elim disjE exE conjE)
    assume pass: "overlap_pass C True fs b e [] = Ret (Inl ([] @ filter (overlaps lt b e) fs))"
      and inside: "True \<longrightarrow> (\<forall>f \<in> set fs. overlaps lt b e f \<longrightarrow> range_within lt b e f)"
    have "overlaps lt b e f \<longleftrightarrow> linked lt fs small large f" if "f \<in> set fs" for f
      using linked_closed [OF files Suc.prems(3) _ bounds, of small large f] inside Suc.prems(4) that by blast
    then show ?thesis using pass by (simp cong: filter_cong)
  next
    fix b' e' g assume pass: "overlap_pass C True fs b e [] = Ret (Inr (b', e'))" and g: "g \<in> set fs" "overlaps lt b e g"
      and wide: "widened b e g b' e'"
    have okf: "meta_ok ok lt f" if "f \<in> set fs" for f using files that by (simp add: list_all_iff)
    note over = widened_overlaps [OF okf okf [OF g(1)] wide g(2) bounds]
    have "overlap_loop fuel C True fs b' e' = Ret (filter (linked lt fs small large) fs)"
    proof (rule Suc.IH)
      show "\<forall>k. b' = Some k \<longrightarrow> ok k" "\<forall>k. e' = Some k \<longrightarrow> ok k"
        using wide bounds meta_okD(5,6) [OF okf [OF g(1)]] by (auto simp: widened_def)
      show "overlaps lt b' e' f" if "f \<in> set fs" "overlaps lt small large f" for f using over(1) Suc.prems(3) that by blast
      show "linked lt fs small large f" if "f \<in> set fs" "overlaps lt b' e' f" for f
        using over(2) that Suc.prems(4) linked.over_file [OF Suc.prems(4) [OF g]] by blast
      show "files_beyond lt fs b' e' < fuel" using widened_beyond [OF files g(1) wide bounds] Suc.prems(5) by simp
    qed
    then show ?thesis using pass by simp
  qed
qed simp

text \<open>The levels above 0 take one pass.\<close>

lemma overlap_loop_filter:
  assumes "list_all (meta_ok ok lt) fs" "\<forall>k. b = Some k \<longrightarrow> ok k" "\<forall>k. e = Some k \<longrightarrow> ok k"
  shows "overlap_loop (Suc fuel) C False fs b e = Ret (filter (overlaps lt b e) fs)"
  using overlap_pass_result [OF assms, of False "[]"] by simp

end

section \<open>Versions\<close>

definition version_ok :: "(slice \<Rightarrow> bool) \<Rightarrow> (slice \<Rightarrow> slice \<Rightarrow> bool) \<Rightarrow> Version \<Rightarrow> bool" where
  "version_ok ok lt v \<longleftrightarrow> length (v_files v) = kNumLevels \<and> list_all (list_all (meta_ok ok lt)) (v_files v) \<and>
     (\<forall>level < kNumLevels. 0 < level \<longrightarrow> level_sorted ok lt (v_files v ! level))"

definition files_linked :: "(slice \<Rightarrow> slice \<Rightarrow> bool) \<Rightarrow> Version \<Rightarrow> nat \<Rightarrow> InternalKey option \<Rightarrow> InternalKey option \<Rightarrow> files" where
  "files_linked lt v level b e = filter
     (if level = 0 then linked lt (v_files v ! 0) (map_option user_of b) (map_option user_of e)
      else overlaps lt (map_option user_of b) (map_option user_of e)) (v_files v ! level)"

context internal_comparator
begin

lemma version_level: "version_ok ok lt v \<Longrightarrow> level < kNumLevels \<Longrightarrow> list_all (meta_ok ok lt) (v_files v ! level)"
  by (simp add: version_ok_def list_all_length)

lemma OverlapInLevel_result:
  assumes v: "version_ok ok lt v" and level: "level < kNumLevels"
    and keys: "\<forall>k. small = Some k \<longrightarrow> ok k" "\<forall>k. large = Some k \<longrightarrow> ok k"
  shows "OverlapInLevel C v level small large = Ret (\<exists>f \<in> set (v_files v ! level). overlaps lt small large f)"
proof (cases "0 < level")
  case True
  then have "level_sorted ok lt (v_files v ! level)" using v level by (simp add: version_ok_def)
  then show ?thesis using True binary_overlap_result [OF _ keys] by (simp add: OverlapInLevel_def)
next
  case False
  then show ?thesis
    using some_overlap_result [OF version_level [OF v level] keys] by (simp add: OverlapInLevel_def SomeFileOverlapsRange_def)
qed

lemma GetOverlappingInputs_result:
  assumes v: "version_ok ok lt v" and level: "level < kNumLevels"
    and keys: "\<forall>k. b = Some k \<longrightarrow> internal_ok ok k" "\<forall>k. e = Some k \<longrightarrow> internal_ok ok k"
    and fuel: "0 < fuel" "level = 0 \<longrightarrow> 2 * length (v_files v ! 0) < fuel"
  shows "GetOverlappingInputs fuel C v level b e = Ret (files_linked lt v level b e)"
proof -
  let ?b = "map_option user_of b" and ?e = "map_option user_of e" and ?fs = "v_files v ! level"
  have "(case k of None \<Rightarrow> Ret None | Some k \<Rightarrow> map_res Some (InternalKey_user_key k)) = Ret (map_option user_of k)"
    if "\<forall>i. k = Some i \<longrightarrow> internal_ok ok i" for k
    using that by (auto simp: internal_ok_def split: option.splits)
  then have start: "GetOverlappingInputs fuel C v level b e = overlap_loop fuel C (level = 0) ?fs ?b ?e"
    using keys by (simp add: GetOverlappingInputs_def)
  have bounds: "\<forall>k. ?b = Some k \<longrightarrow> ok k" "\<forall>k. ?e = Some k \<longrightarrow> ok k"
    using keys by (auto simp: internal_ok_def)
  note files = version_level [OF v level]
  show ?thesis
  proof (cases "level = 0")
    case True
    have "files_beyond lt ?fs ?b ?e < fuel" using files_beyond_le [of lt ?fs ?b ?e] fuel True by simp
    then have "overlap_loop fuel C True ?fs ?b ?e = Ret (filter (linked lt ?fs ?b ?e) ?fs)"
      by (intro overlap_loop_linked [OF files bounds]) (simp_all add: linked.direct)
    then show ?thesis using start True by (simp add: files_linked_def)
  next
    case False
    obtain n where "fuel = Suc n" using fuel(1) by (cases fuel) auto
    then show ?thesis using start False overlap_loop_filter [OF files bounds, of n] by (simp add: files_linked_def)
  qed
qed

lemma pick_level_result:
  assumes v: "version_ok ok lt v" and keys: "ok small" "ok large" and fuel: "0 < fuel"
  shows "level \<le> kMaxMemCompactLevel \<Longrightarrow> \<exists>n. pick_level fuel C max_file_size v small large level = Ret n \<and>
    level \<le> n \<and> n \<le> kMaxMemCompactLevel \<and>
    (\<forall>m. level < m \<and> m \<le> n \<longrightarrow> (\<forall>f \<in> set (v_files v ! m). \<not> overlaps lt (Some small) (Some large) f))"
proof (induction "kMaxMemCompactLevel - level" arbitrary: level rule: less_induct)
  case less
  let ?start = "new_InternalKey small kMaxSequenceNumber kValueTypeForSeek" and ?limit = "new_InternalKey large 0 kTypeDeletion"
  show ?case
  proof (cases "level < kMaxMemCompactLevel")
    case True
    then have level: "level + 1 < kNumLevels" "level + 2 < kNumLevels" by (simp_all add: kMaxMemCompactLevel_def kNumLevels_def)
    note over = OverlapInLevel_result [OF v level(1), of "Some small" "Some large"]
    have "GetOverlappingInputs fuel C v (level + 2) (Some ?start) (Some ?limit) = Ret (files_linked lt v (level + 2) (Some ?start) (Some ?limit))"
      by (rule GetOverlappingInputs_result [OF v level(2)])
        (use keys fuel in \<open>simp_all add: internal_ok_def new_InternalKey_def AppendInternalKey_def\<close>)
    note inputs = this
    define stop where "stop \<longleftrightarrow> sint (MaxGrandParentOverlapBytes max_file_size) <
      sint (TotalFileSize (files_linked lt v (level + 2) (Some ?start) (Some ?limit)))"
    have step: "pick_level fuel C max_file_size v small large level =
        (if (\<exists>f \<in> set (v_files v ! (level + 1)). overlaps lt (Some small) (Some large) f) \<or> stop then Ret level
         else pick_level fuel C max_file_size v small large (level + 1))"
      using True level keys over inputs by (subst pick_level.simps) (simp add: stop_def)
    show ?thesis
    proof (cases "(\<exists>f \<in> set (v_files v ! (level + 1)). overlaps lt (Some small) (Some large) f) \<or> stop")
      case True
      then show ?thesis using step less.prems by auto
    next
      case False
      have "kMaxMemCompactLevel - (level + 1) < kMaxMemCompactLevel - level" "level + 1 \<le> kMaxMemCompactLevel"
        using \<open>level < kMaxMemCompactLevel\<close> by auto
      from less.hyps [OF this] obtain n where n: "pick_level fuel C max_file_size v small large (level + 1) = Ret n"
          "level + 1 \<le> n" "n \<le> kMaxMemCompactLevel"
          "\<forall>m. level + 1 < m \<and> m \<le> n \<longrightarrow> (\<forall>f \<in> set (v_files v ! m). \<not> overlaps lt (Some small) (Some large) f)"
        by blast
      have "\<forall>f \<in> set (v_files v ! m). \<not> overlaps lt (Some small) (Some large) f" if "level < m" "m \<le> n" for m
      proof (cases "m = level + 1")
        case True
        then show ?thesis using \<open>\<not> ((\<exists>f \<in> set (v_files v ! (level + 1)). overlaps lt (Some small) (Some large) f) \<or> stop)\<close> by blast
      next
        case False
        then have "level + 1 < m" using that(1) by simp
        then show ?thesis using n(4) that(2) by blast
      qed
      then show ?thesis using step False n(1-3) by auto
    qed
  next
    case False
    then show ?thesis using less.prems by (intro exI [of _ level]) (auto simp: pick_level.simps)
  qed
qed

lemma PickLevel_result:
  assumes v: "version_ok ok lt v" and keys: "ok small" "ok large" and fuel: "0 < fuel"
  shows "\<exists>n. PickLevelForMemTableOutput fuel C max_file_size v small large = Ret n \<and> n \<le> kMaxMemCompactLevel \<and>
    (0 < n \<longrightarrow> (\<forall>m \<le> n. \<forall>f \<in> set (v_files v ! m). \<not> overlaps lt (Some small) (Some large) f))"
proof (cases "\<exists>f \<in> set (v_files v ! 0). overlaps lt (Some small) (Some large) f")
  case True
  then show ?thesis
    using OverlapInLevel_result [OF v, of 0 "Some small" "Some large"] keys
    by (auto simp: PickLevelForMemTableOutput_def kNumLevels_def)
next
  case False
  from pick_level_result [OF v keys fuel, of 0 max_file_size] obtain n where n:
      "pick_level fuel C max_file_size v small large 0 = Ret n" "n \<le> kMaxMemCompactLevel"
      "\<forall>m. 0 < m \<and> m \<le> n \<longrightarrow> (\<forall>f \<in> set (v_files v ! m). \<not> overlaps lt (Some small) (Some large) f)"
    by auto
  have "\<forall>f \<in> set (v_files v ! m). \<not> overlaps lt (Some small) (Some large) f" if "m \<le> n" for m
    using n(3) False that by (cases "m = 0") auto
  then show ?thesis
    using n(1,2) False OverlapInLevel_result [OF v, of 0 "Some small" "Some large"] keys
    by (auto simp: PickLevelForMemTableOutput_def kNumLevels_def)
qed

end

text \<open>Two files of level 0 that overlap each other, one of them over the range.\<close>

definition example_file :: "u64 \<Rightarrow> u8 \<Rightarrow> u8 \<Rightarrow> FileMetaData" where
  "example_file n a b = new_FileMetaData \<lparr> file_number := n, file_size := 100,
     smallest := new_InternalKey [a] 7 kTypeValue, largest := new_InternalKey [b] 3 kTypeValue \<rparr>"

definition example_version :: Version where
  "example_version = \<lparr> v_files = [[example_file 1 1 5, example_file 2 4 9, example_file 3 20 30], [example_file 4 2 3], [], [], [], [], []],
     file_to_compact = None, file_to_compact_level = - 1 \<rparr>"

lemma example_file_keys [simp]:
  "user_of (smallest (example_file n a b)) = [a]" "user_of (largest (example_file n a b)) = [b]"
  by (simp_all add: example_file_def new_InternalKey_def AppendInternalKey_def)

lemma example_file_ok: "a \<le> b \<Longrightarrow> meta_ok (\<lambda>_. True) (<) (example_file n a b)"
  by (auto simp: meta_ok_def example_file_def new_InternalKey_def AppendInternalKey_def internal_ok_def type_ok_def
      internal_less_def PackSequenceAndType_def kTypeValue_def)

lemma level_sorted_simps [simp]: "level_sorted ok lt []" "level_sorted ok lt [f] \<longleftrightarrow> meta_ok ok lt f"
  by (simp_all add: level_sorted_def)

lemma example_version_ok: "version_ok (\<lambda>_. True) (<) example_version"
proof -
  have "level_sorted (\<lambda>_. True) (<) (v_files example_version ! level)" if "0 < level" "level < 7" for level
  proof -
    have "level = 1 \<or> level = 2 \<or> level = 3 \<or> level = 4 \<or> level = 5 \<or> level = 6" using that by arith
    then show ?thesis by (auto simp: example_version_def example_file_ok)
  qed
  then show ?thesis by (simp add: version_ok_def kNumLevels_def example_version_def example_file_ok)
qed

text \<open>C9: files that overlap a range. For every level of a version and all bounds, also open ones, \<open>OverlapInLevel\<close> says
  whether some file of the level overlaps the range, although it looks at one file only in the levels above 0.
  \<open>GetOverlappingInputs\<close> ends, with a bound on its passes, and returns, in the order of the level, all files that overlap
  the range and, in level 0, all that are connected to it over other files of the level.\<close>

theorem Version_finds_overlaps:
  assumes "internal_comparator C ok lt" and "version_ok ok lt v" and "level < kNumLevels"
    and "\<forall>k. small = Some k \<longrightarrow> ok k" and "\<forall>k. large = Some k \<longrightarrow> ok k"
    and "\<forall>k. b = Some k \<longrightarrow> internal_ok ok k" and "\<forall>k. e = Some k \<longrightarrow> internal_ok ok k"
    and "2 * length (v_files v ! level) < fuel"
  shows "OverlapInLevel C v level small large = Ret (\<exists>f \<in> set (v_files v ! level). overlaps lt small large f) \<and>
    GetOverlappingInputs fuel C v level b e = Ret (filter
      (if level = 0 then linked lt (v_files v ! 0) (map_option user_of b) (map_option user_of e)
       else overlaps lt (map_option user_of b) (map_option user_of e)) (v_files v ! level))"
  using internal_comparator.OverlapInLevel_result [OF assms(1-5)]
    internal_comparator.GetOverlappingInputs_result [OF assms(1-3,6,7), of fuel] assms(8)
  by (auto simp: files_linked_def)

theorem Version_finds_overlaps_witness:
  "OverlapInLevel BytewiseComparator example_version 1 (Some [3]) None = Ret True \<and>
   GetOverlappingInputs 7 BytewiseComparator example_version 0 (Some (new_InternalKey [2] 9 kTypeValue)) (Some (new_InternalKey [2] 0 kTypeValue)) =
     Ret [example_file 1 1 5, example_file 2 4 9]"
proof -
  let ?b = "Some (new_InternalKey [2] 9 kTypeValue)" and ?e = "Some (new_InternalKey [2] 0 kTypeValue)"
  let ?fs = "v_files example_version ! 0"
  have fs: "?fs = [example_file 1 1 5, example_file 2 4 9, example_file 3 20 30]"
      "v_files example_version ! 1 = [example_file 4 2 3]" by (simp_all add: example_version_def)
  have keys: "map_option user_of ?b = Some [2]" "map_option user_of ?e = Some [2]" "internal_ok (\<lambda>_. True) (the ?b)" "internal_ok (\<lambda>_. True) (the ?e)"
    by (simp_all add: new_InternalKey_def AppendInternalKey_def internal_ok_def)
  have "linked (<) ?fs (Some [2]) (Some [2]) (example_file 1 1 5)" by (rule linked.direct) (simp_all add: fs overlaps_def)
  moreover from this have "linked (<) ?fs (Some [2]) (Some [2]) (example_file 2 4 9)"
    by (rule linked.over_file) (simp_all add: fs overlaps_def)
  moreover have "user_of (largest f) < [20]" if "linked (<) ?fs (Some [2]) (Some [2]) f" for f
    using that by (induction rule: linked.induct) (auto simp: fs overlaps_def)
  then have "\<not> linked (<) ?fs (Some [2]) (Some [2]) (example_file 3 20 30)" by fastforce
  ultimately have all: "filter (linked (<) ?fs (Some [2]) (Some [2])) ?fs = [example_file 1 1 5, example_file 2 4 9]"
    by (simp add: fs(1))
  have over: "OverlapInLevel BytewiseComparator example_version 1 (Some [3]) None =
      Ret (\<exists>f \<in> set (v_files example_version ! 1). overlaps (<) (Some [3]) None f)"
    by (rule Version_finds_overlaps [OF bytewise_keys.internal_comparator_axioms example_version_ok, where b = ?b and e = ?e and fuel = 7, THEN conjunct1])
      (use keys in \<open>simp_all add: kNumLevels_def example_version_def\<close>)
  have inputs: "GetOverlappingInputs 7 BytewiseComparator example_version 0 ?b ?e = Ret (filter (if (0 :: nat) = 0 then
      linked (<) ?fs (map_option user_of ?b) (map_option user_of ?e)
      else overlaps (<) (map_option user_of ?b) (map_option user_of ?e)) ?fs)"
    by (rule Version_finds_overlaps [OF bytewise_keys.internal_comparator_axioms example_version_ok, where small = None and large = None, THEN conjunct2])
      (use keys in \<open>simp_all add: kNumLevels_def example_version_def\<close>)
  have "OverlapInLevel BytewiseComparator example_version 1 (Some [3]) None = Ret True"
    unfolding over by (simp add: fs [simplified] overlaps_def)
  then show ?thesis using inputs unfolding keys(1,2) all if_P [OF refl] by (rule conjI)
qed

text \<open>C10: the level of a new table. \<open>PickLevelForMemTableOutput\<close> returns a level up to \<open>kMaxMemCompactLevel\<close>, and if it
  is above 0 then no file of this level or of a level before it overlaps the keys of the table: the newer entries
  stay in the lower levels.\<close>

theorem PickLevel_keeps_order:
  assumes "internal_comparator C ok lt" and "version_ok ok lt v" and "ok small" and "ok large"
  shows "\<exists>n. PickLevelForMemTableOutput 1 C max_file_size v small large = Ret n \<and> n \<le> kMaxMemCompactLevel \<and>
    (0 < n \<longrightarrow> (\<forall>m \<le> n. \<forall>f \<in> set (v_files v ! m). \<not> overlaps lt (Some small) (Some large) f))"
  using internal_comparator.PickLevel_result [OF assms] by simp

theorem PickLevel_keeps_order_witness:
  "\<exists>n. PickLevelForMemTableOutput 1 BytewiseComparator 2000000 example_version [40] [50] = Ret n \<and> n \<le> 2 \<and>
     (0 < n \<longrightarrow> (\<forall>m \<le> n. \<forall>f \<in> set (v_files example_version ! m). \<not> overlaps (<) (Some [40]) (Some [50]) f))"
  using PickLevel_keeps_order [OF bytewise_keys.internal_comparator_axioms example_version_ok, where small = "[40]" and large = "[50]" and max_file_size = 2000000]
  by (simp add: kMaxMemCompactLevel_def)

end
