(* ===== verification/LdbVersionGet.thy ===== *)
theory LdbVersionGet
  imports LdbVersionSpec
begin

text \<open>
  What a lookup in a version reads. The tables of the files serve their entries; a file of a lower level has the newer
  entries of a user key, and in level 0 the file with the larger number. Then \<open>Version::Get\<close>, which looks at one file
  of each level above 0 and stops at the first entry of the user key, reads the newest entry that the snapshot sees
  among the entries of all files.
\<close>

section \<open>The newest entry of a list\<close>

definition newest_is :: "SequenceNumber \<Rightarrow> (slice \<times> slice) list \<Rightarrow> slice \<Rightarrow> (slice \<times> slice) option \<Rightarrow> bool" where
  "newest_is s kvs u r \<longleftrightarrow> (case r of None \<Rightarrow> \<forall>e. \<not> newest_seen s kvs u e | Some e \<Rightarrow> newest_seen s kvs u e)"

lemma newest_is_simps [simp]:
  "newest_is s kvs u None \<longleftrightarrow> (\<forall>e. \<not> newest_seen s kvs u e)" "newest_is s kvs u (Some e) \<longleftrightarrow> newest_seen s kvs u e"
  by (simp_all add: newest_is_def)

lemma newest_seen_exists:
  assumes "e \<in> set kvs" "user_of (fst e) = u" "seen_at s (fst e)"
  shows "\<exists>e'. newest_seen s kvs u e'"
proof -
  let ?S = "{e \<in> set kvs. user_of (fst e) = u \<and> seen_at s (fst e)}"
  have "finite ?S" "?S \<noteq> {}" using assms by (simp, blast)
  let ?tag = "\<lambda>e :: slice \<times> slice. tag_of (fst e)"
  have "Max (?tag ` ?S) \<in> ?tag ` ?S" using \<open>finite ?S\<close> \<open>?S \<noteq> {}\<close> by (intro Max_in) simp_all
  then obtain e' where e': "e' \<in> ?S" "Max (?tag ` ?S) = ?tag e'" by (rule imageE)
  have "?tag x \<le> ?tag e'" if "x \<in> ?S" for x
    unfolding e'(2) [symmetric] using \<open>finite ?S\<close> that by (intro Max_ge) simp_all
  then have "newest_seen s kvs u e'" using e'(1) unfolding newest_seen_def by blast
  then show ?thesis ..
qed

lemma newest_is_None:
  "newest_is s kvs u None \<longleftrightarrow> (\<forall>e \<in> set kvs. user_of (fst e) = u \<longrightarrow> \<not> seen_at s (fst e))"
proof
  assume "newest_is s kvs u None"
  then show "\<forall>e \<in> set kvs. user_of (fst e) = u \<longrightarrow> \<not> seen_at s (fst e)" using newest_seen_exists by fastforce
qed (auto simp: newest_seen_def)

lemma newest_is_exists: "\<exists>r. newest_is s kvs u r"
proof (cases "\<exists>e. newest_seen s kvs u e")
  case True
  then obtain e where "newest_seen s kvs u e" by blast
  then show ?thesis by (intro exI [of _ "Some e"]) simp
next
  case False
  then show ?thesis by (intro exI [of _ None]) simp
qed

text \<open>Only the entries of the user key count.\<close>

lemma newest_is_cong:
  assumes "\<And>e. user_of (fst e) = u \<Longrightarrow> e \<in> set kvs \<longleftrightarrow> e \<in> set kvs'"
  shows "newest_is s kvs u r \<longleftrightarrow> newest_is s kvs' u r"
proof -
  have "newest_seen s kvs u e \<longleftrightarrow> newest_seen s kvs' u e" for e
    unfolding newest_seen_def using assms by blast
  then show ?thesis by (simp add: newest_is_def split: option.splits)
qed

lemma newest_is_append:
  assumes newer: "\<And>e e'. e \<in> set kvs \<Longrightarrow> e' \<in> set kvs' \<Longrightarrow> user_of (fst e) = u \<Longrightarrow> user_of (fst e') = u \<Longrightarrow> tag_of (fst e') < tag_of (fst e)"
    and r: "newest_is s kvs u r" and r': "newest_is s kvs' u r'"
  shows "newest_is s (kvs @ kvs') u (case r of None \<Rightarrow> r' | Some e \<Rightarrow> Some e)"
proof (cases r)
  case None
  have none: "\<not> seen_at s (fst e)" if "e \<in> set kvs" "user_of (fst e) = u" for e
    using r None newest_is_None that by blast
  show ?thesis
  proof (cases r')
    case r'None: None
    then have "newest_is s (kvs @ kvs') u None" using none r' newest_is_None [of s _ u] by auto
    then show ?thesis using None r'None by simp
  next
    case (Some e)
    then have "newest_seen s kvs' u e" using r' by simp
    then have "newest_seen s (kvs @ kvs') u e" using none by (auto simp: newest_seen_def)
    then show ?thesis using None Some by simp
  qed
next
  case (Some e)
  then have e: "newest_seen s kvs u e" using r by simp
  have "tag_of (fst x) \<le> tag_of (fst e)" if "x \<in> set kvs'" "user_of (fst x) = u" for x
    using newer [of e x] e that by (auto simp: newest_seen_def)
  then have "newest_seen s (kvs @ kvs') u e" using e by (auto simp: newest_seen_def)
  then show ?thesis using Some by simp
qed

section \<open>The entries of the files\<close>

type_synonym entries_of = "FileMetaData \<Rightarrow> (slice \<times> slice) list"

definition all_of :: "entries_of \<Rightarrow> files \<Rightarrow> (slice \<times> slice) list" where
  "all_of ents fs = concat (map ents fs)"

lemma all_of_simps [simp]:
  "all_of ents [] = []" "all_of ents (f # fs) = ents f @ all_of ents fs" "all_of ents (fs @ gs) = all_of ents fs @ all_of ents gs"
  by (simp_all add: all_of_def)

lemma set_all_of: "set (all_of ents fs) = (\<Union>f \<in> set fs. set (ents f))"
  by (simp add: all_of_def)

text \<open>What a file has of a user key is newer than what another has.\<close>

definition newer_file :: "entries_of \<Rightarrow> FileMetaData \<Rightarrow> FileMetaData \<Rightarrow> bool" where
  "newer_file ents f g \<longleftrightarrow> (\<forall>e \<in> set (ents f). \<forall>e' \<in> set (ents g). user_of (fst e) = user_of (fst e') \<longrightarrow> tag_of (fst e') < tag_of (fst e))"

text \<open>The table that the cache opens for a file serves its entries, and its filter goes by the user key.\<close>

definition file_served :: "Port \<Rightarrow> TableCache \<Rightarrow> Comparator \<Rightarrow> (slice \<Rightarrow> bool) \<Rightarrow> (slice \<Rightarrow> slice \<Rightarrow> bool) \<Rightarrow> entries_of \<Rightarrow> FileMetaData \<Rightarrow> bool" where
  "file_served port tc C ok lt ents f \<longleftrightarrow>
     (\<exists>table. tc (file_number f) (file_size f) = Ret (OK, Some table) \<and>
        table_serves port (internal_ok ok) (internal_less lt) (InternalKeyComparator C) (ents f) table \<and>
        (\<forall>reader key. tbl_filter table = Some reader \<and> internal_ok ok key \<longrightarrow> policy_answers (fr_policy reader) key) \<and>
        (\<forall>a b. internal_ok ok a \<and> internal_ok ok b \<and> user_of a = user_of b \<longrightarrow> filter_alike table a b)) \<and>
     list_all (type_ok \<circ> fst) (ents f) \<and>
     (\<forall>e \<in> set (ents f). \<not> internal_less lt (fst e) (smallest f) \<and> \<not> internal_less lt (largest f) (fst e)) \<and>
     largest f \<in> fst ` set (ents f)"

lemma table_serves_sorted: "table_serves port ok lt c kvs table \<Longrightarrow> sorted_keys ok lt kvs"
  by (auto simp: table_serves_def table_opened_def)

text \<open>The key that a lookup seeks, and the outcome for an entry.\<close>

definition lookup_target :: "slice \<Rightarrow> SequenceNumber \<Rightarrow> slice" where
  "lookup_target u s = PutFixed64 u (PackSequenceAndType s kTypeValue)"

lemma lookup_target_key: "internal_key (new_LookupKey u s) = lookup_target u s"
  by (simp add: lookup_target_def internal_key_def new_LookupKey_def PutFixed64_def Let_def kValueTypeForSeek_def)

lemma lookup_target_ok: "ok u \<Longrightarrow> internal_ok ok (lookup_target u s)"
  by (simp add: lookup_target_def internal_ok_def)

lemma user_of_lookup_target [simp]: "user_of (lookup_target u s) = u"
  by (simp add: lookup_target_def)

definition read_result :: "slice \<Rightarrow> (slice \<times> slice) option \<Rightarrow> (Status \<times> slice) option" where
  "read_result val r = map_option (\<lambda>e. if value_key (fst e) then (OK, snd e) else (NotFound [] [], val)) r"

context internal_comparator
begin

text \<open>No separator comes between a key and the next entry of the same user key.\<close>

lemma near_same_user:
  assumes key: "internal_ok ok key" "internal_ok ok k" "user_of key = user_of k"
  shows "near_key (InternalKeyComparator C) (internal_ok ok) (internal_less lt) key k"
  unfolding near_key_def
proof (intro allI impI, elim conjE)
  fix a s
  assume a: "internal_ok ok a" "internal_less lt a k" "internal_less lt a key" and s: "FindShortestSeparator (InternalKeyComparator C) a k = Ret s"
  have len: "8 \<le> length a" "8 \<le> length k" "ok (user_of a)" "ok (user_of k)" using a key by (simp_all add: internal_ok_def)
  have s': "InternalKeyComparator_FindShortestSeparator C a k = Ret s" using s by (simp add: InternalKeyComparator_def)
  show "internal_less lt s key"
  proof (cases "lt (user_of a) (user_of k)")
    case True
    obtain tmp where tmp: "FindShortestSeparator C (user_of a) (user_of k) = Ret tmp" "ok tmp" "lt tmp (user_of k)"
      using user.sep [OF len(3,4) True] by blast
    have "s = a \<or> s = PutFixed64 tmp seek_tag"
      using s' tmp(1) len user.cmp [OF len(3) tmp(2)] by (auto simp: InternalKeyComparator_FindShortestSeparator_def split: if_splits)
    then show ?thesis using a(3) tmp(3) key(3) by (auto simp: internal_less_def)
  next
    case False
    then have "user_of a = user_of k" using a(2) by (simp add: internal_less_def)
    then have "s = a" using s' separator_same_user [OF a(1) key(2)] by simp
    then show ?thesis using a(3) by simp
  qed
qed

text \<open>A lookup in one file.\<close>

lemma file_lookup:
  assumes served: "file_served port tc C ok lt ents f" and u: "ok u" and s: "s \<le> kMaxSequenceNumber"
  shows "\<exists>found r. TableCache_Get tc port ro (file_number f) (file_size f) (lookup_target u s) = Ret (OK, found) \<and>
    newest_is s (ents f) u r \<and>
    (case found of None \<Rightarrow> Ret (svNotFound, val) | Some kv \<Rightarrow> SaveValue C u kv (svNotFound, val)) =
      Ret (case r of None \<Rightarrow> (svNotFound, val) | Some e \<Rightarrow> if value_key (fst e) then (svFound, snd e) else (svDeleted, val))"
proof -
  let ?t = "lookup_target u s" and ?n = "below (internal_less lt) (lookup_target u s) (ents f)"
  obtain table where table: "tc (file_number f) (file_size f) = Ret (OK, Some table)"
      "table_serves port (internal_ok ok) (internal_less lt) (InternalKeyComparator C) (ents f) table"
      "\<forall>reader key. tbl_filter table = Some reader \<and> internal_ok ok key \<longrightarrow> policy_answers (fr_policy reader) key"
      "\<forall>a b. internal_ok ok a \<and> internal_ok ok b \<and> user_of a = user_of b \<longrightarrow> filter_alike table a b"
    using served by (auto simp: file_served_def)
  have types: "list_all (type_ok \<circ> fst) (ents f)" using served by (simp add: file_served_def)
  have sorted: "sorted_keys (internal_ok ok) (internal_less lt) (ents f)" using table_serves_sorted [OF table(2)] .
  note t = lookup_target_ok [of ok u s, OF u]
  obtain bytes iv blocks where opened: "table_opened port (internal_ok ok) (internal_less lt) (InternalKeyComparator C) bytes iv blocks table"
      "block_entries blocks = ents f"
    using table(2) by (auto simp: table_serves_def)
  have total: "\<forall>reader. tbl_filter table = Some reader \<longrightarrow> policy_answers (fr_policy reader) ?t" using table(3) t by blast
  obtain found where found: "Table_InternalGet port table ro ?t = Ret (OK, found)"
      "\<forall>e. found = Some e \<longrightarrow> ?n < length (ents f) \<and> e = ents f ! ?n"
      "?n < length (ents f) \<and> near_key (InternalKeyComparator C) (internal_ok ok) (internal_less lt) ?t (fst (ents f ! ?n)) \<and>
         filter_alike table ?t (fst (ents f ! ?n)) \<longrightarrow> found = Some (ents f ! ?n)"
    using internal.InternalGet_finds [OF opened(1) t total, of ro] unfolding opened(2) by blast
  have get: "TableCache_Get tc port ro (file_number f) (file_size f) ?t = Ret (OK, found)"
    using table(1) found(1) by (simp add: TableCache_Get_def)
  note newest = first_not_below [OF sorted types u s, folded lookup_target_def]
  have okn: "internal_ok ok (fst (ents f ! ?n))" "type_ok (fst (ents f ! ?n))" if "?n < length (ents f)"
    using sorted types that by (auto simp: sorted_keys_def list_all_length)
  have save: "SaveValue C u (ents f ! ?n) (svNotFound, val) =
      Ret (if user_of (fst (ents f ! ?n)) \<noteq> u then (svNotFound, val)
           else if value_key (fst (ents f ! ?n)) then (svFound, snd (ents f ! ?n)) else (svDeleted, val))"
    if n: "?n < length (ents f)"
    using okn [OF n] ParseInternalKey_parts [of "fst (ents f ! ?n)"] user.cmp [of "user_of (fst (ents f ! ?n))" u] u
    by (auto simp: SaveValue_def internal_ok_def type_ok_def value_key_def)
  show ?thesis
  proof (cases "?n < length (ents f) \<and> user_of (fst (ents f ! ?n)) = u")
    case True
    then have "found = Some (ents f ! ?n)"
      using found(3) near_same_user [OF t okn(1)] table(4) t okn(1) by simp
    then show ?thesis using get save newest [of "ents f ! ?n"] True
      by (intro exI [of _ found] exI [of _ "Some (ents f ! ?n)"]) simp
  next
    case False
    then have "newest_is s (ents f) u None" unfolding newest_is_simps newest by blast
    moreover have "(case found of None \<Rightarrow> Ret (svNotFound, val) | Some kv \<Rightarrow> SaveValue C u kv (svNotFound, val)) = Ret (svNotFound, val)"
      using found(2) save False by (auto split: option.splits)
    ultimately show ?thesis using get by (intro exI [of _ found] exI [of _ None]) simp
  qed
qed

lemma search_files_result:
  assumes "\<forall>f \<in> set fs. file_served port tc C ok lt ents f" "sorted_wrt (newer_file ents) fs" and u: "ok u" and s: "s \<le> kMaxSequenceNumber"
  shows "\<exists>r st'. search_files C tc port ro (lookup_target u s) u level fs val st = Ret (read_result val r, st') \<and>
    newest_is s (all_of ents fs) u r"
  using assms(1,2)
proof (induction fs arbitrary: st)
  case Nil
  show ?case by (intro exI [of _ None]) (simp add: read_result_def newest_seen_def)
next
  case (Cons f fs)
  let ?st = "charge_file level f st"
  obtain found r1 where f: "TableCache_Get tc port ro (file_number f) (file_size f) (lookup_target u s) = Ret (OK, found)"
      "newest_is s (ents f) u r1"
      "(case found of None \<Rightarrow> Ret (svNotFound, val) | Some kv \<Rightarrow> SaveValue C u kv (svNotFound, val)) =
        Ret (case r1 of None \<Rightarrow> (svNotFound, val) | Some e \<Rightarrow> if value_key (fst e) then (svFound, snd e) else (svDeleted, val))"
    using file_lookup [of port tc ents f u s ro val] Cons.prems(1) u s by auto
  obtain r2 st2 where rest: "search_files C tc port ro (lookup_target u s) u level fs val ?st = Ret (read_result val r2, st2)"
      "newest_is s (all_of ents fs) u r2"
    using Cons.IH [of ?st] Cons.prems by auto
  have step: "search_files C tc port ro (lookup_target u s) u level (f # fs) val st =
      (case r1 of None \<Rightarrow> search_files C tc port ro (lookup_target u s) u level fs val ?st
       | Some e \<Rightarrow> Ret (read_result val r1, ?st))"
    by (cases r1) (simp_all add: f(1,3) read_result_def)
  have "newest_is s (ents f @ all_of ents fs) u (case r1 of None \<Rightarrow> r2 | Some e \<Rightarrow> Some e)"
  proof (rule newest_is_append [OF _ f(2) rest(2)])
    fix e e' assume "e \<in> set (ents f)" "e' \<in> set (all_of ents fs)" "user_of (fst e) = u" "user_of (fst e') = u"
    then obtain g where "g \<in> set fs" "e' \<in> set (ents g)" "e \<in> set (ents f)" "user_of (fst e) = user_of (fst e')"
      by (auto simp: set_all_of)
    moreover from this have "newer_file ents f g" using Cons.prems(2) by simp
    ultimately show "tag_of (fst e') < tag_of (fst e)" by (simp add: newer_file_def)
  qed
  then show ?case using step rest(1) by (cases r1) auto
qed

text \<open>The files of level 0 that may have the key, from the newest to the oldest.\<close>

lemma covers_key_result:
  assumes f: "meta_ok ok lt f" and u: "ok u"
  shows "covers_key C u f = Ret (\<not> lt u (user_of (smallest f)) \<and> \<not> lt (user_of (largest f)) u)"
proof -
  note d = meta_okD [OF f]
  obtain r where r: "Compare C u (user_of (smallest f)) = Ret r" "r \<ge> 0 \<longleftrightarrow> \<not> lt u (user_of (smallest f))"
    using user.cmp [OF u d(5)] user.cmp_less [OF u d(5)] by (metis linorder_not_less)
  obtain r' where r': "Compare C u (user_of (largest f)) = Ret r'" "r' \<le> 0 \<longleftrightarrow> \<not> lt (user_of (largest f)) u"
    using user.cmp [OF u d(6)] user.cmp_greater [OF u d(6)] by (metis linorder_not_less)
  show ?thesis using r r' d(3,4) by (simp add: covers_key_def)
qed

lemma filter_res_filter: "\<forall>x \<in> set xs. P x = Ret (Q x) \<Longrightarrow> filter_res P xs = Ret (filter Q xs)"
  by (induction xs) simp_all

lemma newest_first_sorted:
  assumes "distinct (map file_number fs)"
  shows "sorted_wrt (\<lambda>f g. file_number g < file_number f) (newest_first fs)" "set (newest_first fs) = set fs"
proof -
  have "sorted_wrt (<) (map file_number (sort_key file_number fs))"
    using assms by (simp add: strict_sorted_iff distinct_map)
  then show "sorted_wrt (\<lambda>f g. file_number g < file_number f) (newest_first fs)"
    by (simp add: newest_first_def sorted_wrt_rev sorted_wrt_map)
qed (simp add: newest_first_def)

lemma served_entry:
  assumes served: "file_served port tc C ok lt ents f" and e: "e \<in> set (ents f)"
  shows "internal_ok ok (fst e)" "type_ok (fst e)"
    "\<not> internal_less lt (fst e) (smallest f)" "\<not> internal_less lt (largest f) (fst e)"
    "\<not> lt (user_of (fst e)) (user_of (smallest f))" "\<not> lt (user_of (largest f)) (user_of (fst e))"
proof -
  have "sorted_keys (internal_ok ok) (internal_less lt) (ents f)"
    using served table_serves_sorted unfolding file_served_def by blast
  then show "internal_ok ok (fst e)" using e by (auto simp: sorted_keys_def list_all_iff)
  show "type_ok (fst e)" "\<not> internal_less lt (fst e) (smallest f)" "\<not> internal_less lt (largest f) (fst e)"
    using served e by (auto simp: file_served_def list_all_iff)
  then show "\<not> lt (user_of (fst e)) (user_of (smallest f))" "\<not> lt (user_of (largest f)) (user_of (fst e))"
    by (auto simp: internal_less_def)
qed

lemma level0_candidates:
  assumes files: "list_all (meta_ok ok lt) fs" "\<forall>f \<in> set fs. file_served port tc C ok lt ents f" and u: "ok u"
    and numbers: "distinct (map file_number fs)"
      "\<forall>f \<in> set fs. \<forall>g \<in> set fs. file_number g < file_number f \<longrightarrow> newer_file ents f g"
  shows "\<exists>cs. level_candidates C u target 0 fs = Ret cs \<and> set cs \<subseteq> set fs \<and> sorted_wrt (newer_file ents) cs \<and>
    (\<forall>r. newest_is s (all_of ents cs) u r \<longleftrightarrow> newest_is s (all_of ents fs) u r)"
proof -
  let ?P = "\<lambda>f. \<not> lt u (user_of (smallest f)) \<and> \<not> lt (user_of (largest f)) u"
  let ?cs = "newest_first (filter ?P fs)"
  have num: "distinct (map file_number (filter ?P fs))" using numbers(1) by (rule distinct_map_filter)
  have "filter_res (covers_key C u) fs = Ret (filter ?P fs)"
    using files(1) covers_key_result u by (intro filter_res_filter) (simp add: list_all_iff)
  then have "level_candidates C u target 0 fs = Ret ?cs"
    by (simp add: level_candidates_def newest_first_def)
  moreover have "set ?cs = {f \<in> set fs. ?P f}" using newest_first_sorted(2) [OF num] by simp
  moreover have "sorted_wrt (newer_file ents) ?cs"
    using newest_first_sorted(1) [OF num] calculation(2) numbers(2) by (auto elim!: sorted_wrt_mono_rel [rotated])
  moreover have "newest_is s (all_of ents ?cs) u r \<longleftrightarrow> newest_is s (all_of ents fs) u r" for r
  proof (rule newest_is_cong)
    fix e :: "slice \<times> slice" assume e: "user_of (fst e) = u"
    have "?P f" if "f \<in> set fs" "e \<in> set (ents f)" for f
      using served_entry(5,6) [of port tc ents f e] files(2) that e by blast
    then show "e \<in> set (all_of ents ?cs) \<longleftrightarrow> e \<in> set (all_of ents fs)"
      unfolding set_all_of calculation(2) by blast
  qed
  ultimately show ?thesis by (intro exI [of _ ?cs]) auto
qed

text \<open>The one file of another level. The newest entry the snapshot sees is in the first file whose largest key is not
  below the key of the lookup: entries of the key in later files are older.\<close>

lemma seen_not_below:
  assumes "type_ok k" "user_of k = u" "s \<le> kMaxSequenceNumber"
  shows "seen_at s k \<longleftrightarrow> \<not> internal_less lt k (lookup_target u s)"
proof -
  have "drop_bit 8 (tag_of k) \<le> s" if "tag_of k \<le> PackSequenceAndType s kTypeValue"
  proof -
    have "drop_bit 8 (tag_of k) \<le> drop_bit 8 (PackSequenceAndType s kTypeValue)"
      using that by (simp add: word_le_nat_alt unat_drop_bit div_le_mono)
    then show ?thesis using tag_fields(1) [OF assms(3)] by simp
  qed
  then have "seen_at s k \<longleftrightarrow> tag_of k \<le> PackSequenceAndType s kTypeValue"
    using pack_le [OF _ assms(3)] assms(1) by (auto simp: seen_at_def type_ok_def)
  then show ?thesis using assms(2) user.irrefl by (auto simp: internal_less_def lookup_target_def)
qed

lemma level_candidate:
  assumes level: "level_sorted ok lt fs" and served: "\<forall>f \<in> set fs. file_served port tc C ok lt ents f" and u: "ok u"
    and s: "s \<le> kMaxSequenceNumber" and pos: "0 < level"
  shows "\<exists>cs. level_candidates C u (lookup_target u s) level fs = Ret cs \<and> set cs \<subseteq> set fs \<and> sorted_wrt (newer_file ents) cs \<and>
    (\<forall>r. newest_is s (all_of ents cs) u r \<longrightarrow> newest_is s (all_of ents fs) u r)"
proof -
  let ?t = "lookup_target u s"
  define n where "n = below (internal_less lt) ?t (level_index fs)"
  have t: "internal_ok ok ?t" by (rule lookup_target_ok [of ok u s, OF u])
  have find: "FindFile C fs ?t = Ret n" using FindFile_result [OF level t] by (simp add: n_def)
  have before: "internal_less lt (largest (fs ! i)) ?t \<longleftrightarrow> i < n" if "i < length fs" for i
    using internal.below_iff [OF level_index_sorted [OF level] t, of i] that by (simp add: n_def)
  have meta: "meta_ok ok lt f" if "f \<in> set fs" for f using level that by (simp add: level_sorted_def list_all_iff)
  text \<open>A seen entry is in a file from \<open>n\<close> on.\<close>
  have seen_from: "n \<le> i" if i: "i < length fs" "e \<in> set (ents (fs ! i))" "user_of (fst e) = u" "seen_at s (fst e)" for i e
  proof (rule ccontr)
    assume "\<not> n \<le> i"
    then have less: "internal_less lt (largest (fs ! i)) ?t" using before [OF i(1)] by simp
    have f: "fs ! i \<in> set fs" using i(1) by simp
    note se = served_entry [OF served [rule_format, OF f] i(2)]
    have "\<not> internal_less lt (fst e) ?t" using seen_not_below [OF se(2) i(3) s] i(4) by simp
    moreover have "internal_less lt (fst e) ?t"
      using less se(4) internal.total [OF se(1) meta_okD(2) [OF meta [OF f]]]
        internal.trans [OF se(1) meta_okD(2) [OF meta [OF f]] t] by metis
    ultimately show False by simp
  qed
  text \<open>And the newest one in file \<open>n\<close>.\<close>
  have newest_in: "e \<in> set (ents (fs ! n)) \<and> n < length fs" if e: "newest_seen s (all_of ents fs) u e" for e
  proof -
    have eu: "user_of (fst e) = u" "seen_at s (fst e)" using e by (simp_all add: newest_seen_def)
    obtain i where i: "i < length fs" "e \<in> set (ents (fs ! i))"
    proof -
      obtain f where f: "f \<in> set fs" "e \<in> set (ents f)" using e by (auto simp: newest_seen_def set_all_of)
      then obtain i where "i < length fs" "fs ! i = f" by (auto simp: in_set_conv_nth)
      then show ?thesis using that [of i] f(2) by simp
    qed
    have "n = i"
    proof (rule ccontr)
      assume "n \<noteq> i"
      then have ni: "n < i" using seen_from [OF i eu] by simp
      then have fn: "fs ! n \<in> set fs" "n < length fs" and fi: "fs ! i \<in> set fs" using i(1) by simp_all
      note se = served_entry [OF served [rule_format, OF fi] i(2)]
      obtain e' where e': "e' \<in> set (ents (fs ! n))" "fst e' = largest (fs ! n)"
        using served fn(1) by (force simp: file_served_def)
      note sn = served_entry [OF served [rule_format, OF fn(1)] e'(1)]
      have ge: "\<not> internal_less lt (fst e') ?t" using before [OF fn(2)] e'(2) by simp
      have "internal_less lt (largest (fs ! n)) (smallest (fs ! i))"
        using level ni i(1) sorted_wrt_nth_less [of "\<lambda>f g. internal_less lt (largest f) (smallest g)" fs n i]
        by (simp add: level_sorted_def)
      then have less: "internal_less lt (fst e') (fst e)"
        using se(3) e'(2) internal.total [OF se(1) meta_okD(1) [OF meta [OF fi]]]
          internal.trans [OF sn(1) meta_okD(1) [OF meta [OF fi]] se(1)] by metis
      have "user_of (fst e') = u"
      proof (rule ccontr)
        assume "user_of (fst e') \<noteq> u"
        then have "lt (user_of (fst e')) u" using less eu(1) by (auto simp: internal_less_def)
        then show False using ge by (simp add: internal_less_def)
      qed
      moreover from this have "tag_of (fst e) < tag_of (fst e')" using less eu(1) user.irrefl by (auto simp: internal_less_def)
      moreover have "seen_at s (fst e')" using seen_not_below [OF sn(2) calculation(1) s] ge by simp
      moreover have "e' \<in> set (all_of ents fs)" using e'(1) fn(1) by (auto simp: set_all_of)
      ultimately show False using e unfolding newest_seen_def by (metis linorder_not_less)
    qed
    then show ?thesis using i by simp
  qed
  show ?thesis
  proof (cases "n < length fs \<and> \<not> lt u (user_of (smallest (fs ! n)))")
    case True
    then have fn: "fs ! n \<in> set fs" by simp
    obtain r where r: "Compare C u (user_of (smallest (fs ! n))) = Ret r" "r < 0 \<longleftrightarrow> lt u (user_of (smallest (fs ! n)))"
      using user.cmp [OF u meta_okD(5) [OF meta [OF fn]]] user.cmp_less [OF u meta_okD(5) [OF meta [OF fn]]] by metis
    have cs: "level_candidates C u ?t level fs = Ret [fs ! n]"
      using True r find pos meta_okD(3) [OF meta [OF fn]] by (auto simp: level_candidates_def)
    have "newest_is s (all_of ents fs) u r" if r: "newest_is s (all_of ents [fs ! n]) u r" for r
    proof -
      obtain r' where r': "newest_is s (all_of ents fs) u r'" using newest_is_exists by blast
      have sub: "set (ents (fs ! n)) \<subseteq> set (all_of ents fs)" using fn by (auto simp: set_all_of)
      show ?thesis
      proof (cases r')
        case None
        then have "newest_is s (ents (fs ! n)) u None" using r' newest_is_None sub by blast
        then show ?thesis using r r' None by (cases r) auto
      next
        case (Some e)
        then have e: "newest_seen s (all_of ents fs) u e" using r' by simp
        note inn = newest_in [OF e, THEN conjunct1]
        then have e2: "newest_seen s (ents (fs ! n)) u e" using e sub unfolding newest_seen_def by blast
        obtain e3 where e3: "r = Some e3" "newest_seen s (ents (fs ! n)) u e3" using r e2 by (cases e; cases r) auto
        have "tag_of (fst e) \<le> tag_of (fst e3)" using e2 e3(2) by (simp add: newest_seen_def)
        moreover have "e3 \<in> set (all_of ents fs)" "user_of (fst e3) = u" "seen_at s (fst e3)"
          using e3(2) sub by (auto simp: newest_seen_def)
        ultimately have "newest_seen s (all_of ents fs) u e3"
          using e unfolding newest_seen_def by (meson order_trans)
        then show ?thesis using e3(1) by simp
      qed
    qed
    then show ?thesis using cs fn by (intro exI [of _ "[fs ! n]"]) auto
  next
    case False
    have cs: "level_candidates C u ?t level fs = Ret []"
    proof (cases "n < length fs")
      case True
      then have fn: "fs ! n \<in> set fs" and less: "lt u (user_of (smallest (fs ! n)))" using False by simp_all
      obtain r where "Compare C u (user_of (smallest (fs ! n))) = Ret r" "r < 0"
        using user.cmp [OF u meta_okD(5) [OF meta [OF fn]]] user.cmp_less [OF u meta_okD(5) [OF meta [OF fn]]] less by metis
      then show ?thesis using True find pos meta_okD(3) [OF meta [OF fn]] by (auto simp: level_candidates_def)
    next
      case False
      then show ?thesis using find pos by (simp add: level_candidates_def)
    qed
    have "\<not> newest_seen s (all_of ents fs) u e" for e
    proof
      assume e: "newest_seen s (all_of ents fs) u e"
      then have n: "n < length fs" "e \<in> set (ents (fs ! n))" using newest_in by blast+
      then have "\<not> lt (user_of (fst e)) (user_of (smallest (fs ! n)))" using served_entry(5) served nth_mem by blast
      then show False using False n(1) e by (simp add: newest_seen_def)
    qed
    moreover have "r = None" if "newest_is s (all_of ents []) u r" for r
      using that by (cases r) (auto simp: newest_seen_def)
    ultimately show ?thesis using cs by (intro exI [of _ "[]"]) force
  qed
qed

lemma level_lookup:
  assumes files: "list_all (meta_ok ok lt) fs" "\<forall>f \<in> set fs. file_served port tc C ok lt ents f"
    and u: "ok u" and s: "s \<le> kMaxSequenceNumber"
    and zero: "level = 0 \<Longrightarrow> distinct (map file_number fs) \<and>
      (\<forall>f \<in> set fs. \<forall>g \<in> set fs. file_number g < file_number f \<longrightarrow> newer_file ents f g)"
    and pos: "0 < level \<Longrightarrow> level_sorted ok lt fs"
  shows "\<exists>cs r st'. level_candidates C u (lookup_target u s) level fs = Ret cs \<and>
    search_files C tc port ro (lookup_target u s) u level cs val st = Ret (read_result val r, st') \<and>
    newest_is s (all_of ents fs) u r"
proof -
  have "\<exists>cs. level_candidates C u (lookup_target u s) level fs = Ret cs \<and> set cs \<subseteq> set fs \<and> sorted_wrt (newer_file ents) cs \<and>
      (\<forall>r. newest_is s (all_of ents cs) u r \<longrightarrow> newest_is s (all_of ents fs) u r)"
  proof (cases "level = 0")
    case True
    then show ?thesis using level0_candidates [OF files u, of "lookup_target u s" s] zero by metis
  next
    case False
    then show ?thesis using level_candidate [OF pos files(2) u s] by simp
  qed
  then obtain cs where cs: "level_candidates C u (lookup_target u s) level fs = Ret cs" "set cs \<subseteq> set fs"
      "sorted_wrt (newer_file ents) cs" "\<forall>r. newest_is s (all_of ents cs) u r \<longrightarrow> newest_is s (all_of ents fs) u r" by blast
  have "\<forall>f \<in> set cs. file_served port tc C ok lt ents f" using files(2) cs(2) by blast
  from search_files_result [OF this cs(3) u s, of ro level val st] show ?thesis using cs(1,4) by blast
qed

end

section \<open>The order of the files of a version\<close>

definition version_reads :: "Port \<Rightarrow> TableCache \<Rightarrow> Comparator \<Rightarrow> (slice \<Rightarrow> bool) \<Rightarrow> (slice \<Rightarrow> slice \<Rightarrow> bool) \<Rightarrow> entries_of \<Rightarrow> Version \<Rightarrow> bool" where
  "version_reads port tc C ok lt ents v \<longleftrightarrow> version_ok ok lt v \<and>
     (\<forall>fs \<in> set (v_files v). \<forall>f \<in> set fs. file_served port tc C ok lt ents f) \<and>
     distinct (map file_number (v_files v ! 0)) \<and>
     (\<forall>f \<in> set (v_files v ! 0). \<forall>g \<in> set (v_files v ! 0). file_number g < file_number f \<longrightarrow> newer_file ents f g) \<and>
     sorted_wrt (\<lambda>fs gs. \<forall>f \<in> set fs. \<forall>g \<in> set gs. newer_file ents f g) (v_files v)"

definition version_entries :: "entries_of \<Rightarrow> Version \<Rightarrow> (slice \<times> slice) list" where
  "version_entries ents v = all_of ents (concat (v_files v))"

definition get_result :: "slice \<Rightarrow> (slice \<times> slice) option \<Rightarrow> Status \<times> slice" where
  "get_result val r = (case read_result val r of None \<Rightarrow> (NotFound [] [], val) | Some x \<Rightarrow> x)"

context internal_comparator
begin

lemma search_levels_result:
  assumes "\<forall>i < length levels. list_all (meta_ok ok lt) (levels ! i) \<and> (\<forall>f \<in> set (levels ! i). file_served port tc C ok lt ents f) \<and>
      (level + i = 0 \<longrightarrow> distinct (map file_number (levels ! i)) \<and>
        (\<forall>f \<in> set (levels ! i). \<forall>g \<in> set (levels ! i). file_number g < file_number f \<longrightarrow> newer_file ents f g)) \<and>
      (0 < level + i \<longrightarrow> level_sorted ok lt (levels ! i))"
    and "sorted_wrt (\<lambda>fs gs. \<forall>f \<in> set fs. \<forall>g \<in> set gs. newer_file ents f g) levels"
    and u: "ok u" and s: "s \<le> kMaxSequenceNumber"
  shows "\<exists>r stats. search_levels C tc port ro (lookup_target u s) u level levels val st =
      Ret (fst (get_result val r), snd (get_result val r), stats) \<and>
    newest_is s (all_of ents (concat levels)) u r"
  using assms(1,2)
proof (induction levels arbitrary: level st)
  case Nil
  show ?case by (intro exI [of _ None]) (simp add: get_result_def read_result_def newest_seen_def)
next
  case (Cons fs levels)
  have fs: "list_all (meta_ok ok lt) fs" "\<forall>f \<in> set fs. file_served port tc C ok lt ents f"
      "level = 0 \<Longrightarrow> distinct (map file_number fs) \<and>
        (\<forall>f \<in> set fs. \<forall>g \<in> set fs. file_number g < file_number f \<longrightarrow> newer_file ents f g)"
      "0 < level \<Longrightarrow> level_sorted ok lt fs"
    using Cons.prems(1) [rule_format, of 0] by simp_all
  obtain cs r1 st1 where 1: "level_candidates C u (lookup_target u s) level fs = Ret cs"
      "search_files C tc port ro (lookup_target u s) u level cs val st = Ret (read_result val r1, st1)"
      "newest_is s (all_of ents fs) u r1"
    using level_lookup [OF fs(1,2) u s, where level = level and ro = ro and val = val and st = st] fs(3,4) by blast
  have "\<forall>i < length levels. list_all (meta_ok ok lt) (levels ! i) \<and> (\<forall>f \<in> set (levels ! i). file_served port tc C ok lt ents f) \<and>
      (level + 1 + i = 0 \<longrightarrow> distinct (map file_number (levels ! i)) \<and>
        (\<forall>f \<in> set (levels ! i). \<forall>g \<in> set (levels ! i). file_number g < file_number f \<longrightarrow> newer_file ents f g)) \<and>
      (0 < level + 1 + i \<longrightarrow> level_sorted ok lt (levels ! i))"
  proof (intro allI impI)
    fix i assume i: "i < length levels"
    then show "list_all (meta_ok ok lt) (levels ! i) \<and> (\<forall>f \<in> set (levels ! i). file_served port tc C ok lt ents f) \<and>
      (level + 1 + i = 0 \<longrightarrow> distinct (map file_number (levels ! i)) \<and>
        (\<forall>f \<in> set (levels ! i). \<forall>g \<in> set (levels ! i). file_number g < file_number f \<longrightarrow> newer_file ents f g)) \<and>
      (0 < level + 1 + i \<longrightarrow> level_sorted ok lt (levels ! i))"
      using Cons.prems(1) [rule_format, of "Suc i"] by simp
  qed
  from Cons.IH [OF this, of st1] Cons.prems(2) obtain r2 stats where 2:
      "search_levels C tc port ro (lookup_target u s) u (level + 1) levels val st1 =
        Ret (fst (get_result val r2), snd (get_result val r2), stats)"
      "newest_is s (all_of ents (concat levels)) u r2"
    by auto
  have newest: "newest_is s (all_of ents fs @ all_of ents (concat levels)) u (case r1 of None \<Rightarrow> r2 | Some e \<Rightarrow> Some e)"
  proof (rule newest_is_append [OF _ 1(3) 2(2)])
    fix e e' assume "e \<in> set (all_of ents fs)" "e' \<in> set (all_of ents (concat levels))" "user_of (fst e) = u" "user_of (fst e') = u"
    then obtain f g gs where fg: "f \<in> set fs" "gs \<in> set levels" "g \<in> set gs" "e \<in> set (ents f)" "e' \<in> set (ents g)"
        "user_of (fst e) = user_of (fst e')"
      by (auto simp: set_all_of)
    then have "newer_file ents f g" using Cons.prems(2) by simp
    then show "tag_of (fst e') < tag_of (fst e)" using fg by (simp add: newer_file_def)
  qed
  show ?case
  proof (cases r1)
    case None
    then have "search_levels C tc port ro (lookup_target u s) u level (fs # levels) val st =
        Ret (fst (get_result val r2), snd (get_result val r2), stats)"
      using 1(1,2) 2(1) by (simp add: read_result_def)
    then show ?thesis using newest None by auto
  next
    case (Some e)
    then have "search_levels C tc port ro (lookup_target u s) u level (fs # levels) val st =
        Ret (fst (get_result val r1), snd (get_result val r1), get_stats st1)"
      using 1(1,2) by (simp add: read_result_def get_result_def)
    then show ?thesis using newest Some by auto
  qed
qed

lemma Version_Get_result:
  assumes v: "version_reads port tc C ok lt ents v" and u: "ok u" and s: "s \<le> kMaxSequenceNumber"
  shows "\<exists>r stats. Version_Get C tc port ro (new_LookupKey u s) val v =
      Ret (fst (get_result val r), snd (get_result val r), stats) \<and>
    newest_is s (version_entries ents v) u r"
proof -
  have vo: "version_ok ok lt v" using v by (simp add: version_reads_def)
  then have len: "length (v_files v) = kNumLevels" by (simp add: version_ok_def)
  have "list_all (meta_ok ok lt) (v_files v ! i) \<and> (\<forall>f \<in> set (v_files v ! i). file_served port tc C ok lt ents f) \<and>
      (0 + i = 0 \<longrightarrow> distinct (map file_number (v_files v ! i)) \<and>
        (\<forall>f \<in> set (v_files v ! i). \<forall>g \<in> set (v_files v ! i). file_number g < file_number f \<longrightarrow> newer_file ents f g)) \<and>
      (0 < 0 + i \<longrightarrow> level_sorted ok lt (v_files v ! i))" if i: "i < length (v_files v)" for i
    using version_level [OF vo, of i] vo v i len nth_mem [OF i] unfolding version_reads_def version_ok_def by auto
  moreover have "sorted_wrt (\<lambda>fs gs. \<forall>f \<in> set fs. \<forall>g \<in> set gs. newer_file ents f g) (v_files v)"
    using v by (simp add: version_reads_def)
  ultimately show ?thesis
    using search_levels_result [of "v_files v" port tc ents 0 u s, where ro = ro and val = val] u s
    by (simp add: Version_Get_def version_entries_def lookup_target_key)
qed

end

end
