(* ===== verification/LdbDb.thy ===== *)
theory LdbDb
  imports LdbVersionGet
begin

text \<open>
  Reads of the database, from \<open>db_impl.cc\<close>: \<open>DBImpl::Get\<close> looks in the memtable, in the one that is being written out,
  and in the files of the current version. The state has the parts that reads and writes use; the lock, and the
  references that a function takes and gives back, are left out, since a call runs alone here. The user comparator, the
  table cache and the port are arguments.
\<close>

record 'w DBImpl =
  db_mem :: MemTable
  db_imm :: "MemTable option"
  db_current :: Version
  db_last_sequence :: SequenceNumber
  db_log :: "'w Writer"
  db_logfile_number :: u64
  db_next_file_number :: u64
  db_bg_error :: Status

text \<open>\<open>snap\<close> is \<open>options.snapshot\<close>; the result is the status, \<open>*value\<close>, whether a compaction is to be scheduled, and the
  new state.\<close>

definition DBImpl_Get :: "Comparator \<Rightarrow> TableCache \<Rightarrow> Port \<Rightarrow> ReadOptions \<Rightarrow> SequenceNumber option \<Rightarrow> slice \<Rightarrow> slice \<Rightarrow>
    'w DBImpl \<Rightarrow> (Status \<times> slice \<times> bool \<times> 'w DBImpl) res" where
  "DBImpl_Get user tc port ro snap key val this =
     (let snapshot = (case snap of Some s \<Rightarrow> s | None \<Rightarrow> db_last_sequence this);
          lkey = new_LookupKey key snapshot
      in res_bind (MemTable_Get user lkey val OK (db_mem this)) (\<lambda>(done, val, s).
         if done then Ret (s, val, False, this)
         else res_bind (case db_imm this of None \<Rightarrow> Ret (False, val, s) | Some imm \<Rightarrow> MemTable_Get user lkey val s imm)
           (\<lambda>(done, val, s).
              if done then Ret (s, val, False, this)
              else res_bind (Version_Get user tc port ro lkey val (db_current this)) (\<lambda>(s, val, stats).
                   res_bind (UpdateStats stats (db_current this)) (\<lambda>(schedule, v).
                     Ret (s, val, schedule, this \<lparr> db_current := v \<rparr>))))))"

definition DBImpl_RecordReadSample :: "Comparator \<Rightarrow> slice \<Rightarrow> 'w DBImpl \<Rightarrow> (bool \<times> 'w DBImpl) res" where
  "DBImpl_RecordReadSample user key this =
     map_res (\<lambda>(schedule, v). (schedule, this \<lparr> db_current := v \<rparr>)) (Version_RecordReadSample user key (db_current this))"

section \<open>The file that a lookup charges is one of the version\<close>

definition stats_in :: "u64 set \<Rightarrow> SearchState \<Rightarrow> bool" where
  "stats_in N st \<longleftrightarrow> (\<forall>n. last_file_read st = Some n \<longrightarrow> n \<in> N) \<and> (\<forall>n. seek_file (get_stats st) = Some n \<longrightarrow> n \<in> N)"

lemma charge_file_stats: "stats_in N st \<Longrightarrow> file_number f \<in> N \<Longrightarrow> stats_in N (charge_file level f st)"
  by (auto simp: stats_in_def charge_file_def Let_def)

lemma search_files_stats:
  "search_files C tc port ro target u level fs val st = Ret (r, st') \<Longrightarrow> stats_in N st \<Longrightarrow> file_number ` set fs \<subseteq> N \<Longrightarrow> stats_in N st'"
proof (induction fs arbitrary: st val)
  case (Cons f fs)
  have st: "stats_in N (charge_file level f st)" using Cons.prems(2,3) by (simp add: charge_file_stats)
  obtain s found where get: "TableCache_Get tc port ro (file_number f) (file_size f) target = Ret (s, found)"
    using Cons.prems(1) by (cases "TableCache_Get tc port ro (file_number f) (file_size f) target") auto
  obtain state val' where save: "(case found of None \<Rightarrow> Ret (svNotFound, val) | Some kv \<Rightarrow> SaveValue C u kv (svNotFound, val)) = Ret (state, val')"
    using Cons.prems(1) get by (cases "case found of None \<Rightarrow> Ret (svNotFound, val) | Some kv \<Rightarrow> SaveValue C u kv (svNotFound, val)") auto
  show ?case
  proof (cases "\<not> Status_ok s \<or> state \<noteq> svNotFound")
    case True
    then have "st' = charge_file level f st"
      using Cons.prems(1) get save by (cases state; cases "Status_ok s") (simp_all add: Let_def)
    then show ?thesis using st by simp
  next
    case False
    then have "search_files C tc port ro target u level fs val' (charge_file level f st) = Ret (r, st')"
      using Cons.prems(1) get save by (simp add: Let_def)
    then show ?thesis using Cons.IH st Cons.prems(3) by simp
  qed
qed simp

lemma filter_res_subset: "filter_res P xs = Ret ys \<Longrightarrow> set ys \<subseteq> set xs"
proof (induction xs arbitrary: ys)
  case (Cons x xs)
  then obtain b zs where "P x = Ret b" "filter_res P xs = Ret zs" "ys = (if b then x # zs else zs)"
    by (cases "P x"; cases "filter_res P xs") auto
  then show ?case using Cons.IH by auto
qed simp

lemma level_candidates_subset:
  assumes "level_candidates C u target level fs = Ret cs"
  shows "set cs \<subseteq> set fs"
proof -
  consider "fs = []" | "fs \<noteq> []" "level = 0" | "fs \<noteq> []" "level \<noteq> 0" by blast
  then show ?thesis
  proof cases
    case 2
    then obtain ys where "filter_res (covers_key C u) fs = Ret ys" "cs = newest_first ys"
      using assms by (cases "filter_res (covers_key C u) fs") (auto simp: level_candidates_def)
    then show ?thesis using filter_res_subset by (force simp: newest_first_def)
  next
    case 3
    then obtain i where i: "FindFile C fs target = Ret i" using assms by (cases "FindFile C fs target") (auto simp: level_candidates_def)
    show ?thesis
    proof (cases "length fs \<le> i")
      case False
      then obtain sm where "InternalKey_user_key (smallest (fs ! i)) = Ret sm"
        using assms 3 i by (cases "InternalKey_user_key (smallest (fs ! i))") (auto simp: level_candidates_def)
      moreover from this obtain d where "Compare C u sm = Ret d"
        using assms 3 i False by (cases "Compare C u sm") (auto simp: level_candidates_def)
      ultimately have "cs = (if d < 0 then [] else [fs ! i])" using assms 3 i False by (auto simp: level_candidates_def)
      then show ?thesis using False by (auto split: if_splits)
    qed (use assms 3 i in \<open>simp add: level_candidates_def\<close>)
  qed (use assms in \<open>simp add: level_candidates_def\<close>)
qed

lemma search_levels_stats:
  "search_levels C tc port ro target u level levels val st = Ret (s, val', stats) \<Longrightarrow> stats_in N st \<Longrightarrow>
   file_number ` set (concat levels) \<subseteq> N \<Longrightarrow> seek_file stats = Some n \<Longrightarrow> n \<in> N"
proof (induction levels arbitrary: level st)
  case (Cons fs levels)
  obtain cs where cs: "level_candidates C u target level fs = Ret cs"
    using Cons.prems(1) by (cases "level_candidates C u target level fs") auto
  obtain r st1 where 1: "search_files C tc port ro target u level cs val st = Ret (r, st1)"
    using Cons.prems(1) cs by (cases "search_files C tc port ro target u level cs val st") auto
  have st1: "stats_in N st1"
    using search_files_stats [OF 1 Cons.prems(2)] level_candidates_subset [OF cs] Cons.prems(3) by (auto simp: image_subset_iff)
  show ?case
  proof (cases r)
    case None
    then have "search_levels C tc port ro target u (level + 1) levels val st1 = Ret (s, val', stats)" using Cons.prems(1) cs 1 by simp
    moreover have "file_number ` set (concat levels) \<subseteq> N" using Cons.prems(3) by auto
    ultimately show ?thesis using Cons.IH st1 Cons.prems(4) by blast
  next
    case (Some x)
    then have "stats = get_stats st1" using Cons.prems(1) cs 1 by (cases x) simp
    then show ?thesis using st1 Cons.prems(4) by (simp add: stats_in_def)
  qed
qed (simp add: stats_in_def)

lemma UpdateStats_total:
  assumes "\<And>n. seek_file stats = Some n \<Longrightarrow> n \<in> file_number ` set (concat (v_files v))"
  shows "\<exists>schedule v'. UpdateStats stats v = Ret (schedule, v')"
proof (cases "seek_file stats")
  case (Some n)
  let ?count = "\<lambda>f. if file_number f = n then f \<lparr> allowed_seeks := allowed_seeks f - 1 \<rparr> else f"
  obtain f where f: "f \<in> set (concat (v_files v))" "file_number f = n" using assms [OF Some] by blast
  then have "?count f \<in> set (concat (map (map ?count) (v_files v)))" "file_number (?count f) = n" by auto
  then have "List.find (\<lambda>f. file_number f = n) (concat (map (map ?count) (v_files v))) \<noteq> None"
    by (auto simp: find_None_iff)
  then show ?thesis using Some by (auto simp: UpdateStats_def Let_def)
qed (auto simp: UpdateStats_def)

lemma Version_Get_stats:
  assumes "Version_Get C tc port ro k val v = Ret (s, val', stats)"
  shows "\<exists>schedule v'. UpdateStats stats v = Ret (schedule, v')"
proof (rule UpdateStats_total)
  fix n assume "seek_file stats = Some n"
  then show "n \<in> file_number ` set (concat (v_files v))"
    by (rule search_levels_stats [OF assms [unfolded Version_Get_def], of "file_number ` set (concat (v_files v))", rotated 2])
      (simp_all add: stats_in_def)
qed

section \<open>Reading the newest entry\<close>

definition entries_newer :: "(slice \<times> slice) list \<Rightarrow> (slice \<times> slice) list \<Rightarrow> bool" where
  "entries_newer kvs kvs' \<longleftrightarrow>
     (\<forall>e \<in> set kvs. \<forall>e' \<in> set kvs'. user_of (fst e) = user_of (fst e') \<longrightarrow> tag_of (fst e') < tag_of (fst e))"

lemma newest_is_newer:
  assumes "entries_newer kvs kvs'" "newest_is s kvs u r" "newest_is s kvs' u r'"
  shows "newest_is s (kvs @ kvs') u (case r of None \<Rightarrow> r' | Some e \<Rightarrow> Some e)"
  using assms(1) by (intro newest_is_append [OF _ assms(2,3)]) (simp add: entries_newer_def)

context internal_comparator
begin

lemma MemTable_Get_is:
  assumes holds: "mem_holds ok lt (mem_table m) order kvs" and u: "ok u" "length u + 8 < 2 ^ 32" and s: "s \<le> kMaxSequenceNumber"
    and r: "newest_is s kvs u r"
  shows "MemTable_Get C (new_LookupKey u s) val OK m = Ret (case r of None \<Rightarrow> (False, val, OK)
    | Some _ \<Rightarrow> (True, snd (get_result val r), fst (get_result val r)))"
  using MemTable_Get_newest [OF holds u s, where val = val and st = OK] r
  by (cases r) (auto simp: get_result_def read_result_def)

lemma DBImpl_Get_result:
  assumes mem: "mem_holds ok lt (mem_table (db_mem db)) order kvs"
    and imm: "case db_imm db of None \<Rightarrow> kvs' = [] | Some imm \<Rightarrow> \<exists>order'. mem_holds ok lt (mem_table imm) order' kvs'"
    and v: "version_reads port tc C ok lt ents (db_current db)"
    and newer: "entries_newer kvs (kvs' @ version_entries ents (db_current db))" "entries_newer kvs' (version_entries ents (db_current db))"
    and u: "ok u" "length u + 8 < 2 ^ 32" and s: "s = (case snap of None \<Rightarrow> db_last_sequence db | Some s \<Rightarrow> s)" "s \<le> kMaxSequenceNumber"
  shows "\<exists>r schedule v. DBImpl_Get C tc port ro snap u val db =
      Ret (fst (get_result val r), snd (get_result val r), schedule, db \<lparr> db_current := v \<rparr>) \<and>
    newest_is s (kvs @ kvs' @ version_entries ents (db_current db)) u r"
proof -
  obtain r0 r1 where r0: "newest_is s kvs u r0" and r1: "newest_is s kvs' u r1" using newest_is_exists by blast
  obtain r2 stats where r2: "Version_Get C tc port ro (new_LookupKey u s) val (db_current db) =
      Ret (fst (get_result val r2), snd (get_result val r2), stats)" "newest_is s (version_entries ents (db_current db)) u r2"
    using Version_Get_result [OF v u(1) s(2)] by blast
  obtain schedule v' where stats: "UpdateStats stats (db_current db) = Ret (schedule, v')"
    using Version_Get_stats [OF r2(1)] by blast
  note get0 = MemTable_Get_is [OF mem u s(2) r0, of val]
  have get1: "(case db_imm db of None \<Rightarrow> Ret (False, val, OK) | Some imm \<Rightarrow> MemTable_Get C (new_LookupKey u s) val OK imm) =
      Ret (case r1 of None \<Rightarrow> (False, val, OK) | Some _ \<Rightarrow> (True, snd (get_result val r1), fst (get_result val r1)))"
  proof (cases "db_imm db")
    case None
    then have "r1 = None" using imm r1 by (cases r1) (auto simp: newest_seen_def)
    then show ?thesis using None by simp
  next
    case (Some m)
    then obtain order' where "mem_holds ok lt (mem_table m) order' kvs'" using imm by auto
    then show ?thesis using MemTable_Get_is [OF _ u s(2) r1, of m order' val] Some by simp
  qed
  define r where "r = (case r0 of None \<Rightarrow> (case r1 of None \<Rightarrow> r2 | Some e \<Rightarrow> Some e) | Some e \<Rightarrow> Some e)"
  have "newest_is s (kvs @ kvs' @ version_entries ents (db_current db)) u r"
    unfolding r_def by (intro newest_is_newer newer r0 r1 r2(2))
  moreover have "\<exists>schedule v. DBImpl_Get C tc port ro snap u val db =
      Ret (fst (get_result val r), snd (get_result val r), schedule, db \<lparr> db_current := v \<rparr>)"
  proof (cases r0)
    case None
    note start = DBImpl_Get_def Let_def s(1) [symmetric] get0 None option.case res_bind.simps prod.case if_False get1
    show ?thesis
    proof (cases r1)
      case None
      have "DBImpl_Get C tc port ro snap u val db =
          Ret (fst (get_result val r), snd (get_result val r), schedule, db \<lparr> db_current := v' \<rparr>)"
        unfolding start None using r2(1) stats by (simp add: r_def \<open>r0 = None\<close> None)
      then show ?thesis by blast
    next
      case (Some e)
      have "DBImpl_Get C tc port ro snap u val db = Ret (fst (get_result val r), snd (get_result val r), False, db)"
        unfolding start Some by (simp add: r_def \<open>r0 = None\<close> Some)
      then show ?thesis by (intro exI [of _ False] exI [of _ "db_current db"]) simp
    qed
  next
    case (Some e)
    have "DBImpl_Get C tc port ro snap u val db = Ret (fst (get_result val r), snd (get_result val r), False, db)"
      unfolding DBImpl_Get_def Let_def s(1) [symmetric] get0 Some by (simp add: r_def Some)
    then show ?thesis by (intro exI [of _ False] exI [of _ "db_current db"]) simp
  qed
  ultimately show ?thesis by blast
qed

end

text \<open>C8: what \<open>Get\<close> reads. The entries of a database are in the memtable, in the memtable that is being written out,
  if there is one, and in the tables of the files of the current version, each part with newer entries of a key than
  the parts behind it. Then \<open>DBImpl::Get\<close>, as of any snapshot or the last sequence number, returns the newest entry of
  the key that the snapshot sees among all of them: its value, or \<open>NotFound\<close> for a deletion and for no entry. It
  changes only the statistics of the current version.\<close>

theorem DB_Get_reads_newest:
  assumes "internal_comparator C ok lt" and "mem_holds ok lt (mem_table (db_mem db)) order kvs"
    and "case db_imm db of None \<Rightarrow> kvs' = [] | Some imm \<Rightarrow> \<exists>order'. mem_holds ok lt (mem_table imm) order' kvs'"
    and "version_reads port tc C ok lt ents (db_current db)"
    and "entries_newer kvs (kvs' @ version_entries ents (db_current db))"
    and "entries_newer kvs' (version_entries ents (db_current db))"
    and "ok u" and "length u + 8 < 2 ^ 32" and "s = (case snap of None \<Rightarrow> db_last_sequence db | Some s \<Rightarrow> s)"
    and "s \<le> kMaxSequenceNumber"
  shows "\<exists>r schedule v. DBImpl_Get C tc port ro snap u val db =
      (case r of
         None \<Rightarrow> Ret (NotFound [] [], val, schedule, db \<lparr> db_current := v \<rparr>)
       | Some (k, w) \<Rightarrow> if value_key k then Ret (OK, w, schedule, db \<lparr> db_current := v \<rparr>)
                        else Ret (NotFound [] [], val, schedule, db \<lparr> db_current := v \<rparr>)) \<and>
    (case r of
       None \<Rightarrow> \<forall>e. \<not> newest_seen s (kvs @ kvs' @ version_entries ents (db_current db)) u e
     | Some e \<Rightarrow> newest_seen s (kvs @ kvs' @ version_entries ents (db_current db)) u e)"
proof -
  note ic = assms(1)
  obtain r schedule v where r: "DBImpl_Get C tc port ro snap u val db =
      Ret (fst (get_result val r), snd (get_result val r), schedule, db \<lparr> db_current := v \<rparr>)"
      "newest_is s (kvs @ kvs' @ version_entries ents (db_current db)) u r"
    using internal_comparator.DBImpl_Get_result [OF ic assms(2-10)] by blast
  then show ?thesis
    by (intro exI [of _ r] exI [of _ schedule] exI [of _ v])
      (auto simp: get_result_def read_result_def newest_is_def split: option.splits)
qed

text \<open>A table in level 1 with a value and a deletion, under a memtable with a newer value.\<close>

definition stored_entries :: "(slice \<times> slice) list" where
  "stored_entries = [(PutFixed64 [1] 0x201, [20]), (PutFixed64 [2] 0x300, [])]"

definition stored_file :: FileMetaData where
  "stored_file = new_FileMetaData \<lparr> file_number := 7, file_size := 200, smallest := PutFixed64 [1] 0x201, largest := PutFixed64 [2] 0x300 \<rparr>"

definition stored_db :: "MemTable \<Rightarrow> slice DBImpl" where
  "stored_db m = \<lparr> db_mem = m, db_imm = None,
     db_current = \<lparr> v_files = [[], [stored_file], [], [], [], [], []], file_to_compact = None, file_to_compact_level = - 1 \<rparr>,
     db_last_sequence = 5, db_log = \<lparr> dest = [], block_offset = 0, type_crc = [] \<rparr>, db_logfile_number = 8,
     db_next_file_number = 9, db_bg_error = OK \<rparr>"

lemma stored_table:
  "\<exists>b. build_table plain_port memory_file internal_options stored_entries [] = Ret (OK, b) \<and>
    (length (tb_file b) < 2 ^ 32 \<longrightarrow>
      (\<exists>t. Table_Open plain_port 0 internal_options (memory_table (tb_file b)) (of_nat (length (tb_file b))) = Ret (OK, Some t) \<and>
        file_served plain_port (\<lambda>_ _. Ret (OK, Some t)) BytewiseComparator (\<lambda>_. True) (<) (\<lambda>_. stored_entries) stored_file))"
proof -
  have sorted: "sorted_keys (internal_ok (\<lambda>_. True)) (internal_less (<)) stored_entries"
    by (simp add: sorted_keys_def stored_entries_def internal_ok_def internal_less_def)
  have fl: "reads_bytes (memory_table bytes) bytes" for bytes
    by (auto simp: reads_bytes_def memory_table_def intro: exI [of _ True])
  have cache: "fresh_id i None" for i by (simp add: fresh_id_def)
  have o: "opt_comparator internal_options = InternalKeyComparator BytewiseComparator"
    "opt_filter_policy internal_options = None" "opt_block_cache internal_options = None"
    by (simp_all add: internal_options_def plain_options_def)
  have "length stored_entries < 2 ^ 31" by (simp add: stored_entries_def)
  from bytewise_keys.internal.built_table_serves [OF internal_setting refl sorted this o(1) disjI1 [OF o(2)]]
  obtain b where b: "build_table plain_port memory_file internal_options stored_entries [] = Ret (OK, b)"
    "length (tb_file b) < 2 ^ 32 \<longrightarrow> (\<forall>fl new_id. reads_bytes fl (tb_file b) \<and> fresh_id new_id None \<longrightarrow>
      (\<exists>t. Table_Open plain_port new_id internal_options fl (of_nat (length (tb_file b))) = Ret (OK, Some t) \<and>
        table_serves plain_port (internal_ok (\<lambda>_. True)) (internal_less (<)) (InternalKeyComparator BytewiseComparator) stored_entries t \<and>
        (\<forall>reader. tbl_filter t = Some reader \<longrightarrow> None = Some (fr_policy reader))))"
    unfolding o(2,3) by meson
  have "file_served plain_port (\<lambda>_ _. Ret (OK, Some t)) BytewiseComparator (\<lambda>_. True) (<) (\<lambda>_. stored_entries) stored_file"
    if t: "table_serves plain_port (internal_ok (\<lambda>_. True)) (internal_less (<)) (InternalKeyComparator BytewiseComparator) stored_entries t"
      "\<forall>reader. tbl_filter t = Some reader \<longrightarrow> None = Some (fr_policy reader)" for t
  proof -
    have "tbl_filter t = None" using t(2) by (cases "tbl_filter t") auto
    then show ?thesis using t(1)
      by (auto simp: file_served_def filter_alike_def stored_entries_def stored_file_def type_ok_def internal_less_def kTypeValue_def)
  qed
  then show ?thesis using b fl cache by blast
qed

theorem DB_Get_reads_newest_witness:
  "\<exists>m b. res_bind (new_MemTable bump_new) (MemTable_Add bump_new BytewiseComparator 5 kTypeValue [2] [9]) = Ret m \<and>
    build_table plain_port memory_file internal_options stored_entries [] = Ret (OK, b) \<and>
    (length (tb_file b) < 2 ^ 32 \<longrightarrow>
      (\<exists>t schedule db'. Table_Open plain_port 0 internal_options (memory_table (tb_file b)) (of_nat (length (tb_file b))) = Ret (OK, Some t) \<and>
        DBImpl_Get BytewiseComparator (\<lambda>_ _. Ret (OK, Some t)) plain_port new_ReadOptions None [1] [] (stored_db m) =
          Ret (OK, [20], schedule, db')))"
proof -
  obtain m0 where m0: "new_MemTable bump_new = Ret m0" "mem_holds (\<lambda>_. True) (<) (mem_table m0) [] []"
    using bytewise_keys.new_MemTable_holds by blast
  let ?k = "PutFixed64 [2] (PackSequenceAndType 5 kTypeValue)"
  have "\<exists>m order. MemTable_Add bump_new BytewiseComparator 5 kTypeValue [2] [9] m0 = Ret m \<and>
      mem_holds (\<lambda>_. True) (<) (mem_table m) order (insert_kv (internal_less (<)) (?k, [9]) [])"
    by (rule bytewise_keys.MemTable_Add_result [OF m0(2)]) (simp_all add: kMaxSequenceNumber_def word_le_nat_alt)
  then obtain m order where m: "MemTable_Add bump_new BytewiseComparator 5 kTypeValue [2] [9] m0 = Ret m"
      "mem_holds (\<lambda>_. True) (<) (mem_table m) order [(?k, [9])]"
    by (auto simp: insert_kv_def)
  obtain b where b: "build_table plain_port memory_file internal_options stored_entries [] = Ret (OK, b)"
    "length (tb_file b) < 2 ^ 32 \<longrightarrow>
      (\<exists>t. Table_Open plain_port 0 internal_options (memory_table (tb_file b)) (of_nat (length (tb_file b))) = Ret (OK, Some t) \<and>
        file_served plain_port (\<lambda>_ _. Ret (OK, Some t)) BytewiseComparator (\<lambda>_. True) (<) (\<lambda>_. stored_entries) stored_file)"
    using stored_table by blast
  have get: "\<exists>schedule db'. DBImpl_Get BytewiseComparator (\<lambda>_ _. Ret (OK, Some t)) plain_port new_ReadOptions None [1] [] (stored_db m) =
      Ret (OK, [20], schedule, db')"
    if t: "file_served plain_port (\<lambda>_ _. Ret (OK, Some t)) BytewiseComparator (\<lambda>_. True) (<) (\<lambda>_. stored_entries) stored_file" for t
  proof -
    let ?tc = "\<lambda>_ _. Ret (OK, Some t)" and ?db = "stored_db m" and ?all = "[(?k, [9])] @ [] @ stored_entries"
    have meta: "meta_ok (\<lambda>_. True) (<) stored_file"
      by (simp add: meta_ok_def stored_file_def internal_ok_def type_ok_def internal_less_def kTypeValue_def)
    have files: "v_files (db_current ?db) = [[], [stored_file], [], [], [], [], []]" by (simp add: stored_db_def)
    have "level_sorted (\<lambda>_. True) (<) (v_files (db_current ?db) ! level)" if "0 < level" "level < 7" for level
    proof -
      have "level = 1 \<or> level = 2 \<or> level = 3 \<or> level = 4 \<or> level = 5 \<or> level = 6" using that by arith
      then show ?thesis by (auto simp: files meta)
    qed
    then have "version_ok (\<lambda>_. True) (<) (db_current ?db)"
      unfolding version_ok_def by (simp add: files kNumLevels_def meta)
    then have v: "version_reads plain_port ?tc BytewiseComparator (\<lambda>_. True) (<) (\<lambda>_. stored_entries) (db_current ?db)"
      using t by (simp add: version_reads_def files)
    have all: "version_entries (\<lambda>_. stored_entries) (db_current ?db) = stored_entries" by (simp add: version_entries_def files)
    have newer: "entries_newer [(?k, [9])] ([] @ stored_entries)"
      by (simp add: entries_newer_def stored_entries_def PackSequenceAndType_def kTypeValue_def)
    have mem: "mem_holds (\<lambda>_. True) (<) (mem_table (db_mem ?db)) order [(?k, [9])]" using m(2) by (simp add: stored_db_def)
    have imm: "case db_imm ?db of None \<Rightarrow> [] = ([] :: (slice \<times> slice) list)
        | Some imm \<Rightarrow> \<exists>order'. mem_holds (\<lambda>_. True) (<) (mem_table imm) order' []" by (simp add: stored_db_def)
    obtain r schedule v' where r: "DBImpl_Get BytewiseComparator ?tc plain_port new_ReadOptions None [1] [] ?db =
        (case r of
           None \<Rightarrow> Ret (NotFound [] [], [], schedule, ?db \<lparr> db_current := v' \<rparr>)
         | Some (k, w) \<Rightarrow> if value_key k then Ret (OK, w, schedule, ?db \<lparr> db_current := v' \<rparr>)
                          else Ret (NotFound [] [], [], schedule, ?db \<lparr> db_current := v' \<rparr>))"
        "case r of None \<Rightarrow> \<forall>e. \<not> newest_seen 5 ?all [1] e | Some e \<Rightarrow> newest_seen 5 ?all [1] e"
      using DB_Get_reads_newest [OF bytewise_keys.internal_comparator_axioms mem imm v, unfolded all, OF newer _ _ _ _, of "[1]" 5 None new_ReadOptions "[]"]
      by (auto simp: entries_newer_def stored_db_def kMaxSequenceNumber_def word_le_nat_alt)
    have "newest_seen 5 ?all [1] (PutFixed64 [1] 0x201, [20])"
      by (simp add: newest_seen_def stored_entries_def seen_at_def word_le_nat_alt)
    moreover have "e = (PutFixed64 [1] 0x201, [20])" if "newest_seen 5 ?all [1] e" for e
      using that by (auto simp: newest_seen_def stored_entries_def)
    ultimately have "r = Some (PutFixed64 [1] 0x201, [20])" using r(2) by (cases r) auto
    then show ?thesis using r(1) by (auto simp: value_key_def kTypeValue_def)
  qed
  then show ?thesis using m0(1) m(1) b by (intro exI [of _ m] exI [of _ b]) auto
qed

end
