(* ===== verification/Spec2Isabelle.thy ===== *)
theory Spec2Isabelle
  imports PbEncodeRefine PbSafeMessage CctSchema FirebasecoreSchema CctDecode Base64 CctEncode
    LdbVersionEdit LdbWriteBatch LdbBlockSafe LdbLogSpec LdbSkipListSpec LdbDb
begin

text \<open>
  A model of the C and C++ code of this application. The application itself is Swift; what it links through
  its pods is modelled here: the protocol-buffer library nanopb 0.3.9.5 (\<open>Pods/nanopb\<close>) with the two
  message schemas generated for it (\<open>cct.nanopb\<close> of GoogleDataTransportCCTSupport, which uploads event logs,
  and \<open>firebasecore.nanopb\<close> of FirebaseCoreDiagnostics), the base-64 codec \<open>fbase64.c\<close> of the web socket
  client in FirebaseDatabase, and the key-value store leveldb (\<open>Pods/leveldb-library\<close>), in which the Realtime
  Database keeps its disk cache.

  \<^bold>\<open>nanopb and the schemas.\<close> \<open>CMemory\<close> is the memory of the C code: byte-addressed, with an allocator and the
  result type \<open>res\<close> of every C function here, \<open>Ret\<close>, \<open>Undef\<close> for undefined behaviour and \<open>NoFuel\<close> for a
  loop that was not given enough fuel. \<open>PbTypes\<close> and \<open>CLayout\<close> are \<open>pb.h\<close> (type bytes, descriptors, layout
  macros), \<open>PbCommon\<close> the field iterator, \<open>PbIstream\<close>, \<open>PbMessage\<close> and \<open>PbDecode\<close> the decoder, \<open>PbOstream\<close>
  and \<open>PbEncode\<close> the encoder, \<open>CctSchema\<close> and \<open>FirebasecoreSchema\<close> the schemas. \<open>PbReadSafe\<close>, \<open>PbStatic\<close>,
  \<open>PbSafety\<close> and \<open>PbSafeMessage\<close> prove the decoder memory safe for messages of static fields, \<open>CctDecode\<close>
  applies that to the response message of the upload. \<open>PbWire\<close> and \<open>PbEncodeSpec\<close> are the abstract wire format,
  \<open>PbEncodeRefine\<close> and \<open>CctEncode\<close> show that the encoder implements it. \<open>Base64\<close> is the codec, its
  specification and the round trip.

  \<^bold>\<open>leveldb.\<close> A slice is a list of bytes; an access outside it is \<open>Undef\<close>. An object is a record, a member
  function takes it first and returns it changed, and a class with virtual functions is a record of functions.
  \<open>LdbSlice\<close>: slices, statuses and comparators (\<open>slice.h\<close>, \<open>status.cc\<close>, \<open>comparator.cc\<close>), with the locale
  \<open>key_comparator\<close>, the contract of a comparator. \<open>LdbCoding\<close>: \<open>coding.cc\<close>, with the locale \<open>codec\<close>.
  \<open>LdbFilename\<close>: \<open>logging.cc\<close>, \<open>filename.cc\<close> and the replacement of \<open>CURRENT\<close>. \<open>LdbBloom\<close>: \<open>hash.cc\<close>,
  \<open>bloom.cc\<close> and the locale \<open>filter_policy\<close>. \<open>LdbDbFormat\<close>: internal keys (\<open>dbformat.cc\<close>), whose comparator and
  filter policy are sublocales over those of the user keys. \<open>LdbCrcTables\<close> and \<open>LdbCrc\<close>: \<open>crc32c.cc\<close> against a
  bit-serial register. \<open>LdbWriteBatch\<close>: \<open>write_batch.cc\<close> as a refinement of lists of updates.
  \<open>LdbVersionEdit\<close>: \<open>version_edit.cc\<close>. \<open>LdbLog\<close>, \<open>LdbLogReader\<close> and \<open>LdbLogSpec\<close>: \<open>log_writer.cc\<close>,
  \<open>log_reader.cc\<close>, and the two against each other.

  \<^bold>\<open>Tables of leveldb.\<close> A table is a file of blocks with an index block, an optional filter block and a footer.
  \<open>LdbTableFormat\<close>: handles, footer and \<open>ReadBlock\<close> (\<open>format.cc\<close>). \<open>LdbIterator\<close>: the interface \<open>iterator.h\<close>,
  the caching wrapper, and the locale \<open>iterator\<close>, the contract of an iterator over a list of entries, which every
  iterator of the library is shown to keep. \<open>LdbBlock\<close>, \<open>LdbBlockSpec\<close> and \<open>LdbBlockSafe\<close>: \<open>block_builder.cc\<close>
  and \<open>block.cc\<close>, their round trip, and the iterator over arbitrary bytes. \<open>LdbFilterBlock\<close>: \<open>filter_block.cc\<close>.
  \<open>LdbTwoLevel\<close>: \<open>two_level_iterator.cc\<close> as an iterator over the entries of all blocks. \<open>LdbTable\<close>: the builder
  and the reader, \<open>table_builder.cc\<close> and \<open>table.cc\<close>. \<open>LdbTableSpec\<close> keeps an invariant of the builder: which
  blocks the file holds, what the index and the filter say of them. \<open>LdbTableRead\<close> opens the finished file.

  \<^bold>\<open>Reading the database.\<close> \<open>LdbMerger\<close>: the merging iterator (\<open>merger.cc\<close>), whose contract is a sublocale of
  that of an iterator over the sorted union of its children's entries. \<open>LdbRandom\<close>: the generator of \<open>random.h\<close>,
  with its multiplication modulo 2^31 - 1. \<open>LdbDbIter\<close>: the iterator the user sees (\<open>db_iter.cc\<close>), which skips
  entries newer than the snapshot, hidden values and deleted keys in both directions. \<open>LdbDbView\<close> composes
  tables, merging iterator and database iterator.

  \<^bold>\<open>The memtable.\<close> \<open>LdbArena\<close>: the allocator \<open>arena.cc\<close> and its regions. \<open>LdbSkipList\<close>: the nodes, links and
  functions of \<open>skiplist.h\<close>, with the shape of a skip list as an invariant; \<open>LdbSkipListSpec\<close>: the locale
  \<open>skip_order\<close>, the contract of the order of the keys, in which a skip list is shown to be a sorted list.
  \<open>LdbMemTable\<close>: \<open>memtable.cc\<close>, whose comparator of encoded entries is a sublocale of that contract, and the
  insertion of write batches. \<open>LdbMemTableSpec\<close>: what a memtable holds and what lookups and iterators read from it.

  \<^bold>\<open>Versions and the database.\<close> \<open>LdbVersion\<close>: the files of a version by level (\<open>version_set.cc\<close>): searching them,
  what overlaps a range of keys, the iterators over levels, and \<open>Version::Get\<close>. \<open>LdbVersionSpec\<close>: the order that the
  files of a level keep, the searches against it, files that are connected to a range over others, the level of a new
  table. \<open>LdbVersionGet\<close>: the newest entry of a key that a snapshot sees, as what \<open>Version::Get\<close> reads from the tables
  that the table cache opens. \<open>LdbDb\<close>: \<open>DBImpl::Get\<close> (\<open>db_impl.cc\<close>) over two memtables and a version.

  \<^bold>\<open>What is shown.\<close> Of nanopb: decoding arbitrary bytes stays inside the buffer and the message; encoding
  writes exactly the bytes of the abstract wire format, and the size function counts them; the generated
  descriptor arrays describe the generated structs. Of the codec: round trip, exactness, bounds. Of leveldb:
  round trips of every format (integers, keys, batches, edits, blocks, tables, logs, file names); the
  comparators are orders that their separators respect; filters have no false negatives; the checksum is
  CRC-32C and detects short bursts; a log that was cut anywhere is read up to its last whole record; a block of
  arbitrary bytes is read inside its bounds, but for one overflow; what write batches put into a memtable is what a
  lookup finds as of any snapshot; an iterator over tables shows the newest visible values; the searches of a version
  find all files that overlap a range, a new table does not pass older entries, and \<open>Get\<close> returns the newest visible
  entry of the memtables and all files.

  \<^bold>\<open>Bounds and fuel.\<close> Words have the width of the 64-bit platform. The decoder of messages takes the bytes
  that are left as its fuel and the depth of the schema; the reader of logs needs two units more than the file
  has bytes, since a physical record takes at least seven; the two-level iterator needs one unit more than there
  are entries for the loops that skip empty blocks. A search in a skip list takes as its fuel the number of nodes
  times one more than the levels, since every step is at a new node or a lower level; collecting overlapping files
  takes more than twice their number, since every restart passes a bound of another file. The theorems show that this
  is enough.

  \<^bold>\<open>Not modelled.\<close> Assertions of debug builds, unless they guard memory; other platforms; the file system,
  threads and locks, and Snappy, which are parameters; the Objective-C and Swift code. The parts of leveldb
  that are still missing are listed in the manifest.
\<close>

section \<open>The descriptor arrays of the schemas\<close>

section \<open>Two implementations of varints\<close>

text \<open>C15: the varints of leveldb are those of nanopb: \<open>EncodeVarint64\<close> and, for 32-bit values, the
  unrolled \<open>EncodeVarint32\<close> write the bytes that \<open>pb_encode_varint\<close> puts into its buffer, and
  \<open>VarintLength\<close> is their number.\<close>

theorem EncodeVarint_is_pb_encode_varint:
  "EncodeVarint64 w = varint_buffer w \<and>
   EncodeVarint32 v = varint_buffer (ucast v) \<and>
   VarintLength w = length (varint_buffer w)"
proof -
  have "unat (ucast v :: u64) = unat v" using unat_u32_less [of v] 
    by (simp add: unsigned_ucast_eq take_bit_nat_eq_self)
  then show ?thesis
    by (simp add: varint_buffer_enc EncodeVarint64_enc EncodeVarint32_enc VarintLength_length)
qed

end
